(* ===== verification/Prelude.thy ===== *)
theory Prelude
  imports Main
begin

text \<open>
  Shared vocabulary of the development: the JavaScript containers and operators that the
  components of the web client use, the lemmas about them, and the interface locales that
  several components instantiate.

  \<^item> \<open>jsmap\<close> is a JavaScript \<open>Map\<close> or plain object: an association list in
    insertion order. Setting a present key keeps its place, setting a new key appends it.
  \<^item> \<open>sadd\<close>, \<open>sdel\<close> are \<open>Set.add\<close> and \<open>Set.delete\<close> on a list without repetition.
  \<^item> \<open>nullish x d\<close> is \<open>x ?? d\<close>; \<open>nonempty\<close> is the truthiness of an optional string.
  \<^item> \<open>js_sort\<close> is the stable \<open>Array.prototype.sort\<close> with a comparator.
  \<^item> Locales: \<open>insertion_map\<close> (the laws of an insertion ordered map, with the
    oldest-first trimming lemmas the caches share), \<open>event_machine\<close> (an invariant kept
    by every event is kept by every run), \<open>monotone_machine\<close> (a quantity no event
    decreases), \<open>session_guard\<close> (late completions of a superseded session are inert).
\<close>

named_theorems js_simps \<open>evaluation of the JavaScript containers and operators\<close>

section \<open>Operators\<close>

definition nullish :: "'a option \<Rightarrow> 'a \<Rightarrow> 'a" where
  "nullish x d = (case x of None \<Rightarrow> d | Some v \<Rightarrow> v)"

lemma nullish_simps [simp, js_simps]:
  "nullish None d = d" "nullish (Some v) d = v"
  by (simp_all add: nullish_def)

text \<open>\<open>s || d\<close> on an optional string: both \<open>undefined\<close> and the empty string are falsy.\<close>

definition nonempty :: "'a list option \<Rightarrow> bool" where
  "nonempty x = (case x of None \<Rightarrow> False | Some s \<Rightarrow> s \<noteq> [])"

lemma nonempty_simps [simp, js_simps]:
  "nonempty None = False" "nonempty (Some s) = (s \<noteq> [])"
  by (simp_all add: nonempty_def)

text \<open>
  Numbers that may be \<open>NaN\<close> (the result of \<open>Date.parse\<close>) are \<open>int option\<close>, with
  \<open>None\<close> for \<open>NaN\<close>. \<open>NaN || d\<close> and \<open>0 || d\<close> are \<open>d\<close>; every comparison with
  \<open>NaN\<close> is false.
\<close>

type_synonym num = "int option"

definition num_minus :: "num \<Rightarrow> num \<Rightarrow> num" where
  "num_minus a b = (case (a, b) of (Some x, Some y) \<Rightarrow> Some (x - y) | _ \<Rightarrow> None)"

definition num_or :: "num \<Rightarrow> int \<Rightarrow> int" where
  "num_or a d = (case a of None \<Rightarrow> d | Some x \<Rightarrow> if x = 0 then d else x)"

definition num_gt :: "num \<Rightarrow> num \<Rightarrow> bool" where
  "num_gt a b = (case (a, b) of (Some x, Some y) \<Rightarrow> x > y | _ \<Rightarrow> False)"

lemma num_simps [simp, js_simps]:
  "num_minus (Some x) (Some y) = Some (x - y)"
  "num_minus None b = None" "num_minus a None = None"
  "num_or None d = d" "num_or (Some x) d = (if x = 0 then d else x)"
  "num_gt (Some x) (Some y) = (x > y)" "num_gt None b = False" "num_gt a None = False"
  by (simp_all add: num_minus_def num_or_def num_gt_def split: option.split)

section \<open>Sets\<close>

definition sadd :: "'a \<Rightarrow> 'a list \<Rightarrow> 'a list" where
  "sadd x xs = (if x \<in> set xs then xs else xs @ [x])"

definition sdel :: "'a \<Rightarrow> 'a list \<Rightarrow> 'a list" where
  "sdel x xs = filter (\<lambda>y. y \<noteq> x) xs"

lemma set_sadd [simp]: "set (sadd x xs) = insert x (set xs)"
  by (auto simp: sadd_def)

lemma set_sdel [simp]: "set (sdel x xs) = set xs - {x}"
  by (auto simp: sdel_def)

lemma distinct_sadd [simp]: "distinct (sadd x xs) = distinct xs"
  by (auto simp: sadd_def)

lemma distinct_sdel [simp]: "distinct xs \<Longrightarrow> distinct (sdel x xs)"
  by (simp add: sdel_def)

section \<open>Insertion ordered maps\<close>

type_synonym ('k, 'v) jsmap = "('k \<times> 'v) list"

definition jget :: "('k, 'v) jsmap \<Rightarrow> 'k \<Rightarrow> 'v option" where
  "jget m k = map_of m k"

fun jset :: "('k, 'v) jsmap \<Rightarrow> 'k \<Rightarrow> 'v \<Rightarrow> ('k, 'v) jsmap" where
  "jset [] k v = [(k, v)]"
| "jset ((k', v') # m) k v = (if k' = k then (k, v) # m else (k', v') # jset m k v)"

definition jdel :: "('k, 'v) jsmap \<Rightarrow> 'k \<Rightarrow> ('k, 'v) jsmap" where
  "jdel m k = filter (\<lambda>e. fst e \<noteq> k) m"

definition jkeys :: "('k, 'v) jsmap \<Rightarrow> 'k list" where
  "jkeys m = map fst m"

definition jvals :: "('k, 'v) jsmap \<Rightarrow> 'v list" where
  "jvals m = map snd m"

definition jhas :: "('k, 'v) jsmap \<Rightarrow> 'k \<Rightarrow> bool" where
  "jhas m k = (k \<in> set (jkeys m))"

lemma jget_Nil [simp, js_simps]: "jget [] k = None"
  by (simp add: jget_def)

lemma jget_Cons [simp, js_simps]:
  "jget ((k', v) # m) k = (if k = k' then Some v else jget m k)"
  by (simp add: jget_def)

lemma jget_jset [simp]: "jget (jset m k v) k' = (if k' = k then Some v else jget m k')"
  by (induction m k v rule: jset.induct) auto

lemma jget_jdel [simp]: "jget (jdel m k) k' = (if k' = k then None else jget m k')"
  by (induction m) (auto simp: jdel_def jget_def)

lemma jkeys_Nil [simp, js_simps]: "jkeys [] = []"
  by (simp add: jkeys_def)

lemma jkeys_Cons [simp, js_simps]: "jkeys (e # m) = fst e # jkeys m"
  by (simp add: jkeys_def)

lemma jvals_Nil [simp, js_simps]: "jvals [] = []"
  by (simp add: jvals_def)

lemma jvals_Cons [simp, js_simps]: "jvals (e # m) = snd e # jvals m"
  by (simp add: jvals_def)

lemma jget_None_iff: "jget m k = None \<longleftrightarrow> k \<notin> set (jkeys m)"
  by (simp add: jget_def jkeys_def map_of_eq_None_iff)

lemma jhas_iff: "jhas m k \<longleftrightarrow> jget m k \<noteq> None"
  by (simp add: jhas_def jget_None_iff)

lemma jkeys_jset: "jkeys (jset m k v) = (if k \<in> set (jkeys m) then jkeys m else jkeys m @ [k])"
  by (induction m k v rule: jset.induct) auto

lemma jkeys_jdel: "jkeys (jdel m k) = filter (\<lambda>k'. k' \<noteq> k) (jkeys m)"
  by (induction m) (auto simp: jdel_def)

lemma set_jkeys_jset [simp]: "set (jkeys (jset m k v)) = insert k (set (jkeys m))"
  by (auto simp: jkeys_jset)

lemma set_jkeys_jdel [simp]: "set (jkeys (jdel m k)) = set (jkeys m) - {k}"
  by (auto simp: jkeys_jdel)

lemma distinct_jkeys_jset [simp]: "distinct (jkeys (jset m k v)) = distinct (jkeys m)"
  by (simp add: jkeys_jset)

lemma distinct_jkeys_jdel [simp]: "distinct (jkeys m) \<Longrightarrow> distinct (jkeys (jdel m k))"
  by (simp add: jkeys_jdel)

lemma jget_in_jvals: "jget m k = Some v \<Longrightarrow> v \<in> set (jvals m)"
  by (induction m) (auto split: if_splits)

lemma jvals_jget:
  assumes "distinct (jkeys m)" and "v \<in> set (jvals m)"
  obtains k where "jget m k = Some v"
proof -
  obtain k where "(k, v) \<in> set m" using assms(2) by (auto simp: jvals_def)
  then have "jget m k = Some v" using assms(1) by (simp add: jget_def jkeys_def)
  then show ?thesis by (rule that)
qed

lemma jset_new: "k \<notin> set (jkeys m) \<Longrightarrow> jset m k v = m @ [(k, v)]"
  by (induction m k v rule: jset.induct) auto

lemma jdel_absent: "k \<notin> set (jkeys m) \<Longrightarrow> jdel m k = m"
  by (auto simp: jdel_def jkeys_def filter_id_conv)

lemma jset_jdel: "jset (jdel m k) k v = jdel m k @ [(k, v)]"
  by (rule jset_new) simp

lemma jdel_head: "distinct (jkeys (e # m)) \<Longrightarrow> jdel (e # m) (fst e) = m"
  using jdel_absent [of "fst e" m] by (simp add: jdel_def)

lemma length_jkeys [simp]: "length (jkeys m) = length m"
  by (simp add: jkeys_def)

lemma jget_snoc: "jget (m @ [(k, v)]) k' = (case jget m k' of None \<Rightarrow> if k' = k then Some v else None | Some w \<Rightarrow> Some w)"
  by (induction m) auto

lemma map_update_same: "f y = f (xs ! n) \<Longrightarrow> map f (xs[n := y]) = map f xs"
  by (induction xs arbitrary: n) (auto split: nat.splits)

lemma length_jdel: "length (jdel m k) \<le> length m"
  by (simp add: jdel_def)

lemma length_jset: "k \<notin> set (jkeys m) \<Longrightarrow> length (jset m k v) = Suc (length m)"
  by (simp add: jset_new)

lemma jget_filter_key: "jget (filter (\<lambda>e. P (fst e)) m) k = (if P k then jget m k else None)"
  by (induction m) auto

lemma list_all_jset: "list_all P m \<Longrightarrow> P (k, v) \<Longrightarrow> list_all P (jset m k v)"
  by (induction m k v rule: jset.induct) auto

lemma list_all_jdel: "list_all P m \<Longrightarrow> list_all P (jdel m k)"
  by (auto simp: jdel_def list_all_iff)

lemma list_all_jget: "list_all P m \<Longrightarrow> jget m k = Some v \<Longrightarrow> P (k, v)"
  by (induction m) (auto split: if_splits)

lemma jvals_jget_ex: "distinct (jkeys m) \<Longrightarrow> v \<in> set (jvals m) \<Longrightarrow> \<exists>k. jget m k = Some v"
  by (meson jvals_jget)

lemma foldl_keeps:
  assumes "P s" "\<And>s x. P s \<Longrightarrow> x \<in> set xs \<Longrightarrow> P (f s x)"
  shows "P (foldl f s xs)"
  using assms by (induction xs arbitrary: s) auto

text \<open>The map with every value rewritten, keys and order kept.\<close>

definition jmap :: "('k \<Rightarrow> 'v \<Rightarrow> 'w) \<Rightarrow> ('k, 'v) jsmap \<Rightarrow> ('k, 'w) jsmap" where
  "jmap f m = map (\<lambda>(k, v). (k, f k v)) m"

lemma jget_jmap [simp]: "jget (jmap f m) k = map_option (f k) (jget m k)"
  by (induction m) (auto simp: jmap_def)

lemma jkeys_jmap [simp]: "jkeys (jmap f m) = jkeys m"
  by (induction m) (auto simp: jmap_def)

locale insertion_map =
  fixes get :: "'m \<Rightarrow> 'k \<Rightarrow> 'v option"
    and put :: "'m \<Rightarrow> 'k \<Rightarrow> 'v \<Rightarrow> 'm"
    and del :: "'m \<Rightarrow> 'k \<Rightarrow> 'm"
    and keys :: "'m \<Rightarrow> 'k list"
  assumes get_put: "get (put m k v) k' = (if k' = k then Some v else get m k')"
    and get_del: "get (del m k) k' = (if k' = k then None else get m k')"
    and keys_put: "keys (put m k v) = (if k \<in> set (keys m) then keys m else keys m @ [k])"
    and keys_del: "keys (del m k) = filter (\<lambda>k'. k' \<noteq> k) (keys m)"
begin

lemma keys_fold_del:
  "keys (fold (\<lambda>k m. del m k) ks m) = filter (\<lambda>k. k \<notin> set ks) (keys m)"
proof (induction ks arbitrary: m)
  case (Cons k ks)
  show ?case
    by (simp add: Cons keys_del)
qed simp

lemma get_fold_del:
  "get (fold (\<lambda>k m. del m k) ks m) k = (if k \<in> set ks then None else get m k)"
  by (induction ks arbitrary: m) (auto simp: get_del)

lemma distinct_put: "distinct (keys m) \<Longrightarrow> distinct (keys (put m k v))"
  by (simp add: keys_put)

lemma length_put: "length (keys (put m k v)) \<le> Suc (length (keys m))"
  by (simp add: keys_put)

text \<open>
  Trimming: deleting the first \<open>length - n\<close> of the keys that satisfy \<open>P\<close> leaves at
  most \<open>n\<close> of them, and touches no key outside \<open>P\<close>.
\<close>

lemma trim_bound:
  assumes "distinct (keys m)"
  shows "length (filter P (keys (fold (\<lambda>k m. del m k)
    (take (length (filter P (keys m)) - n) (filter P (keys m))) m))) \<le> n"
proof -
  let ?ps = "filter P (keys m)"
  let ?d = "take (length ?ps - n) ?ps"
  let ?r = "drop (length ?ps - n) ?ps"
  have split: "?ps = ?d @ ?r" by simp
  have disj: "set ?d \<inter> set ?r = {}"
    using assms by (metis append_take_drop_id distinct_append distinct_filter)
  have "filter (\<lambda>k. k \<notin> set ?d) ?ps = filter (\<lambda>k. k \<notin> set ?d) ?d @ filter (\<lambda>k. k \<notin> set ?d) ?r"
    by (subst split) (rule filter_append)
  also have "filter (\<lambda>k. k \<notin> set ?d) ?d = []" by (simp add: filter_empty_conv)
  also have "filter (\<lambda>k. k \<notin> set ?d) ?r = ?r"
    using disj by (auto simp: filter_id_conv)
  finally have "filter (\<lambda>k. k \<notin> set ?d) ?ps = ?r" by simp
  moreover have "filter P (filter (\<lambda>k. k \<notin> set ?d) (keys m)) = filter (\<lambda>k. k \<notin> set ?d) ?ps"
    by (simp add: conj_commute)
  ultimately show ?thesis by (simp add: keys_fold_del)
qed

lemma trim_keeps:
  "\<not> P k \<Longrightarrow> get (fold (\<lambda>k m. del m k) (take i (filter P (keys m))) m) k = get m k"
  by (auto simp: get_fold_del dest: in_set_takeD)

end

interpretation js: insertion_map jget jset jdel jkeys
  by unfold_locales (simp_all add: jkeys_jset jkeys_jdel)

section \<open>Stable sorting with a comparator\<close>

fun js_insert :: "('a \<Rightarrow> 'a \<Rightarrow> int) \<Rightarrow> 'a \<Rightarrow> 'a list \<Rightarrow> 'a list" where
  "js_insert cmp x [] = [x]"
| "js_insert cmp x (y # ys) = (if cmp x y \<le> 0 then x # y # ys else y # js_insert cmp x ys)"

fun js_sort :: "('a \<Rightarrow> 'a \<Rightarrow> int) \<Rightarrow> 'a list \<Rightarrow> 'a list" where
  "js_sort cmp [] = []"
| "js_sort cmp (x # xs) = js_insert cmp x (js_sort cmp xs)"

lemma set_js_insert [simp]: "set (js_insert cmp x xs) = insert x (set xs)"
  by (induction xs) auto

lemma set_js_sort [simp]: "set (js_sort cmp xs) = set xs"
  by (induction xs) auto

lemma length_js_insert [simp]: "length (js_insert cmp x xs) = Suc (length xs)"
  by (induction xs) auto

lemma length_js_sort [simp]: "length (js_sort cmp xs) = length xs"
  by (induction xs) auto

lemma distinct_map_js_insert:
  "distinct (map f (js_insert cmp x xs)) \<longleftrightarrow> f x \<notin> f ` set xs \<and> distinct (map f xs)"
  by (induction xs) auto

lemma distinct_map_js_sort [simp]: "distinct (map f (js_sort cmp xs)) = distinct (map f xs)"
  by (induction xs) (auto simp: distinct_map_js_insert)

lemma sum_list_js_insert [simp]:
  fixes f :: "'a \<Rightarrow> 'b :: comm_monoid_add"
  shows "sum_list (map f (js_insert cmp x xs)) = f x + sum_list (map f xs)"
  by (induction xs) (simp_all add: add.left_commute)

lemma sum_list_js_sort [simp]:
  fixes f :: "'a \<Rightarrow> 'b :: comm_monoid_add"
  shows "sum_list (map f (js_sort cmp xs)) = sum_list (map f xs)"
  by (induction xs) simp_all

text \<open>
  The comparator is consistent on a set when it is total and transitive there; the
  result of the sort is then ordered.
\<close>

definition consistent_cmp :: "('a \<Rightarrow> 'a \<Rightarrow> int) \<Rightarrow> 'a set \<Rightarrow> bool" where
  "consistent_cmp cmp A \<longleftrightarrow>
     (\<forall>a\<in>A. \<forall>b\<in>A. cmp a b \<le> 0 \<or> cmp b a \<le> 0) \<and>
     (\<forall>a\<in>A. \<forall>b\<in>A. \<forall>c\<in>A. cmp a b \<le> 0 \<longrightarrow> cmp b c \<le> 0 \<longrightarrow> cmp a c \<le> 0)"

lemma consistent_cmp_subset: "consistent_cmp cmp A \<Longrightarrow> B \<subseteq> A \<Longrightarrow> consistent_cmp cmp B"
  unfolding consistent_cmp_def by (meson subsetD)

lemma consistent_cmp_image:
  assumes "consistent_cmp cmp A" and same: "\<And>a b. cmp (f a) (f b) = cmp a b"
  shows "consistent_cmp cmp (f ` A)"
  using assms(1) unfolding consistent_cmp_def ball_simps same by blast

lemma consistent_cmp_trans:
  "consistent_cmp cmp A \<Longrightarrow> a \<in> A \<Longrightarrow> b \<in> A \<Longrightarrow> c \<in> A \<Longrightarrow> cmp a b \<le> 0 \<Longrightarrow> cmp b c \<le> 0 \<Longrightarrow> cmp a c \<le> 0"
  unfolding consistent_cmp_def by blast

lemma consistent_cmp_total:
  "consistent_cmp cmp A \<Longrightarrow> a \<in> A \<Longrightarrow> b \<in> A \<Longrightarrow> \<not> cmp a b \<le> 0 \<Longrightarrow> cmp b a \<le> 0"
  unfolding consistent_cmp_def by blast

lemma js_insert_sorted:
  "consistent_cmp cmp (insert x (set xs)) \<Longrightarrow> sorted_wrt (\<lambda>a b. cmp a b \<le> 0) xs \<Longrightarrow>
   sorted_wrt (\<lambda>a b. cmp a b \<le> 0) (js_insert cmp x xs)"
proof (induction xs)
  case (Cons y ys)
  note con = Cons.prems(1)
  have ys: "sorted_wrt (\<lambda>a b. cmp a b \<le> 0) ys" and y: "\<forall>z\<in>set ys. cmp y z \<le> 0"
    using Cons.prems(2) by auto
  show ?case
  proof (cases "cmp x y \<le> 0")
    case True
    have "cmp x z \<le> 0" if "z \<in> set ys" for z
      by (rule consistent_cmp_trans [OF con, of x y z]) (use that y True in auto)
    with True ys y show ?thesis by simp
  next
    case False
    have "cmp y x \<le> 0"
      by (rule consistent_cmp_total [OF con _ _ False]) auto
    moreover have "sorted_wrt (\<lambda>a b. cmp a b \<le> 0) (js_insert cmp x ys)"
      by (rule Cons.IH [OF consistent_cmp_subset [OF con] ys]) auto
    ultimately show ?thesis using False y by simp
  qed
qed simp

lemma js_sort_sorted:
  "consistent_cmp cmp (set xs) \<Longrightarrow> sorted_wrt (\<lambda>a b. cmp a b \<le> 0) (js_sort cmp xs)"
proof (induction xs)
  case (Cons x xs)
  have "consistent_cmp cmp (set xs)"
    by (rule consistent_cmp_subset [OF Cons.prems]) auto
  then show ?case
    using Cons by (simp add: js_insert_sorted)
qed simp

text \<open>Elements that are in order already keep their order, whatever is sorted between them.\<close>

lemma filter_js_insert:
  "(\<And>y. y \<in> set ys \<Longrightarrow> P x \<Longrightarrow> P y \<Longrightarrow> cmp x y \<le> 0) \<Longrightarrow>
   filter P (js_insert cmp x ys) = (if P x then x # filter P ys else filter P ys)"
  by (induction ys) auto

lemma filter_js_sort:
  "sorted_wrt (\<lambda>a b. P a \<longrightarrow> P b \<longrightarrow> cmp a b \<le> 0) xs \<Longrightarrow> filter P (js_sort cmp xs) = filter P xs"
proof (induction xs)
  case (Cons x xs)
  have "filter P (js_insert cmp x (js_sort cmp xs)) =
      (if P x then x # filter P (js_sort cmp xs) else filter P (js_sort cmp xs))"
    by (rule filter_js_insert) (use Cons.prems in simp)
  then show ?case using Cons by simp
qed simp

text \<open>An already sorted list is left as it is: the sort is stable and does nothing then.\<close>

lemma js_sort_id: "sorted_wrt (\<lambda>a b. cmp a b \<le> 0) xs \<Longrightarrow> js_sort cmp xs = xs"
proof (induction xs)
  case (Cons x xs)
  then have "js_sort cmp xs = xs" by simp
  with Cons.prems show ?case by (cases xs) simp_all
qed simp

section \<open>JSON\<close>

text \<open>
  A parsed JSON value. \<open>Frac\<close> stands for every number that is not an integer: the code
  only ever tests that such a number is none.
\<close>

datatype json =
    Null
  | Bool bool
  | Num int
  | Frac
  | Str string
  | Arr "json list"
  | Obj "(string, json) jsmap"

text \<open>\<open>value?.key\<close> on an arbitrary value; \<open>None\<close> is \<open>undefined\<close>.\<close>

fun field :: "json option \<Rightarrow> string \<Rightarrow> json option" where
  "field (Some (Obj m)) key = jget m key"
| "field _ key = None"

text \<open>A value in a condition.\<close>

fun json_truthy :: "json option \<Rightarrow> bool" where
  "json_truthy None = False"
| "json_truthy (Some Null) = False"
| "json_truthy (Some (Bool b)) = b"
| "json_truthy (Some (Num n)) = (n \<noteq> 0)"
| "json_truthy (Some (Str t)) = (t \<noteq> [])"
| "json_truthy (Some v) = True"

definition safe_integer :: "int \<Rightarrow> bool" where
  "safe_integer n = (\<bar>n\<bar> \<le> 9007199254740991)"

section \<open>Machines and sessions\<close>

locale event_machine =
  fixes step :: "'s \<Rightarrow> 'e \<Rightarrow> 's"
    and inv :: "'s \<Rightarrow> bool"
  assumes step_inv: "inv s \<Longrightarrow> inv (step s e)"
begin

lemma run_inv: "inv s \<Longrightarrow> inv (foldl step s es)"
  by (induction es arbitrary: s) (auto intro: step_inv)

end

locale monotone_machine = event_machine +
  fixes level :: "'s \<Rightarrow> 'a :: preorder"
  assumes step_level: "inv s \<Longrightarrow> level s \<le> level (step s e)"
begin

lemma run_level: "inv s \<Longrightarrow> level s \<le> level (foldl step s es)"
proof (induction es arbitrary: s)
  case (Cons e es)
  then show ?case by (auto intro: order_trans step_level step_inv)
qed simp

end

text \<open>
  Completions of asynchronous work: \<open>finish s t\<close> runs what follows the await of \<open>t\<close> once
  its answer is there. A stale completion leaves the visible part of the state alone and
  makes no other completion current again.
\<close>

locale session_guard =
  fixes finish :: "'s \<Rightarrow> 't \<Rightarrow> 's"
    and stale :: "'s \<Rightarrow> 't \<Rightarrow> bool"
    and view :: "'s \<Rightarrow> 'v"
  assumes stale_view: "stale s t \<Longrightarrow> view (finish s t) = view s"
    and stale_stable: "stale s t \<Longrightarrow> stale s u \<Longrightarrow> stale (finish s u) t"
begin

lemma stale_run: "\<forall>t\<in>set ts. stale s t \<Longrightarrow> view (foldl finish s ts) = view s"
proof (induction ts arbitrary: s)
  case (Cons t ts)
  have "\<forall>u\<in>set ts. stale (finish s t) u"
    using Cons.prems by (auto intro: stale_stable)
  then have "view (foldl finish (finish s t) ts) = view (finish s t)"
    by (rule Cons.IH)
  also have "\<dots> = view s" using Cons.prems by (auto intro: stale_view)
  finally show ?case by simp
qed simp

end

end
