(* ===== verification/Profiles.thy ===== *)
theory Profiles
  imports Prelude
begin

text \<open>
  The caches of other people's profiles and characters
  (\<open>features/settings/profileStore.ts\<close>, \<open>characterStore.ts\<close>, \<open>character.ts\<close>).

  The two modules' top-level variables are the records \<open>profile_state\<close> and
  \<open>character_state\<close>. Listener calls are logged. An absent optional property is \<open>None\<close>; a
  property that may also be \<open>null\<close> is an option of an option. Object keys are user ids
  (UUIDs, never array indices), so object order is insertion order. Versions are
  integers, as the API sends them: a fractional \<open>profile_version\<close> counts as absent. Each
  unsubscribe function is called once.
\<close>

section \<open>Characters\<close>

record appearance =
  variant :: int
  hue :: "int option"

definition valid_character :: "json option \<Rightarrow> appearance option" where
  "valid_character v =
     (case (field v ''variant'', field v ''hue'') of
        (Some (Num n), Some Null) \<Rightarrow>
          if 0 \<le> n \<and> n < 6 then Some \<lparr>variant = n, hue = None\<rparr> else None
      | (Some (Num n), Some (Num h)) \<Rightarrow>
          if 0 \<le> n \<and> n < 6 \<and> 0 \<le> h \<and> h < 360 then Some \<lparr>variant = n, hue = Some h\<rparr> else None
      | _ \<Rightarrow> None)"

record character_record =
  shown :: appearance
  version_seen :: int
  name_seen :: "string option"
  avatar_seen :: "string option option"

record identity =
  identity_name :: string
  identity_avatar :: "string option option"

record character_state =
  records :: "(string, character_record) jsmap"
  character_listeners :: "(string, nat list) jsmap"
  character_calls :: "nat list"

definition max_characters :: nat where
  "max_characters = 1024"

text \<open>\<open>trim\<close>: the loop over the keys, oldest first, skipping characters on screen.\<close>

fun trim_characters :: "string list \<Rightarrow> character_state \<Rightarrow> character_state" where
  "trim_characters [] s = s"
| "trim_characters (uid # ids) s =
     (if length (records s) \<le> max_characters then s
      else trim_characters ids
        (if jhas (character_listeners s) uid then s else s\<lparr>records := jdel (records s) uid\<rparr>))"

definition trim_all :: "character_state \<Rightarrow> character_state" where
  "trim_all s = trim_characters (jkeys (records s)) s"

definition subscribe_character :: "string \<Rightarrow> nat \<Rightarrow> character_state \<Rightarrow> character_state" where
  "subscribe_character uid l s =
     s\<lparr>character_listeners :=
        jset (character_listeners s) uid (sadd l (nullish (jget (character_listeners s) uid) []))\<rparr>"

definition unsubscribe_character :: "string \<Rightarrow> nat \<Rightarrow> character_state \<Rightarrow> character_state" where
  "unsubscribe_character uid l s =
     (let group = sdel l (nullish (jget (character_listeners s) uid) [])
      in if group = [] then trim_all (s\<lparr>character_listeners := jdel (character_listeners s) uid\<rparr>)
         else s\<lparr>character_listeners := jset (character_listeners s) uid group\<rparr>)"

definition notify_character :: "string \<Rightarrow> character_state \<Rightarrow> character_state" where
  "notify_character uid s =
     s\<lparr>character_calls := character_calls s @ nullish (jget (character_listeners s) uid) []\<rparr>"

definition receive_character ::
  "string \<Rightarrow> json option \<Rightarrow> int \<Rightarrow> identity option \<Rightarrow> character_state \<Rightarrow> character_state" where
  "receive_character uid value version who s =
     (case (if uid = [] then None else valid_character value) of
        None \<Rightarrow> s
      | Some a \<Rightarrow>
          (let previous = jget (records s) uid;
               same = (map_option shown previous = Some a);
               name = (case who of Some i \<Rightarrow> Some (identity_name i)
                       | None \<Rightarrow> Option.bind previous name_seen);
               avatar = (case who of
                   Some i \<Rightarrow> (case identity_avatar i of Some u \<Rightarrow> Some u
                             | None \<Rightarrow> Option.bind previous avatar_seen)
                 | None \<Rightarrow> Option.bind previous avatar_seen)
           in case previous of
                Some p \<Rightarrow>
                  if version_seen p > version then s
                  else if same \<and> name_seen p = name \<and> avatar_seen p = avatar
                  then (if version > version_seen p
                        then s\<lparr>records := jset (records s) uid (p\<lparr>version_seen := version\<rparr>)\<rparr> else s)
                  else trim_all (notify_character uid (s\<lparr>records :=
                    jset (jdel (records s) uid) uid
                      \<lparr>shown = a, version_seen = version, name_seen = name, avatar_seen = avatar\<rparr>\<rparr>))
              | None \<Rightarrow>
                  trim_all (notify_character uid (s\<lparr>records :=
                    jset (jdel (records s) uid) uid
                      \<lparr>shown = a, version_seen = version, name_seen = name, avatar_seen = avatar\<rparr>\<rparr>))))"

text \<open>
  \<open>observeCharacters\<close>: a breadth-first walk over an API result. The queue keeps its
  visited prefix, as the code's does.
\<close>

definition user_branches :: "string list" where
  "user_branches = [''user'', ''users'', ''author'', ''sender'', ''receiver'', ''friends'', ''requests'',
     ''members'', ''messages'', ''root'', ''mutual_friends'', ''participants'', ''items'']"

definition observed_identity :: "json \<Rightarrow> (string \<times> json option \<times> int \<times> identity option) option" where
  "observed_identity v =
     (case (field (Some v) ''id'', field (Some v) ''name'') of
        (Some (Str uid), Some (Str name)) \<Rightarrow>
          Some (uid, field (Some v) ''character'',
            (case field (Some v) ''profile_version'' of Some (Num n) \<Rightarrow> n | _ \<Rightarrow> 0),
            Some \<lparr>identity_name = name,
              identity_avatar = (case field (Some v) ''avatar_url'' of
                  Some (Str u) \<Rightarrow> Some (Some u) | Some Null \<Rightarrow> Some None | _ \<Rightarrow> None)\<rparr>)
      | _ \<Rightarrow> None)"

type_synonym observe_queue = "(json \<times> nat) list"

definition push_items :: "json list \<Rightarrow> nat \<Rightarrow> observe_queue \<Rightarrow> observe_queue" where
  "push_items items depth q =
     fold (\<lambda>item q. if length q \<ge> 4096 then q else q @ [(item, depth)]) (take 512 items) q"

definition push_branches :: "json \<Rightarrow> nat \<Rightarrow> observe_queue \<Rightarrow> observe_queue" where
  "push_branches v depth q =
     fold (\<lambda>key q. if length q \<ge> 4096 then q
        else case field (Some v) key of
            Some w \<Rightarrow> if json_truthy (Some w) then q @ [(w, depth)] else q
          | None \<Rightarrow> q) user_branches q"

definition observe_visit ::
  "json \<Rightarrow> nat \<Rightarrow> observe_queue \<times> character_state \<Rightarrow> observe_queue \<times> character_state" where
  "observe_visit v depth qs =
     (if depth > 6 then qs
      else case v of
          Arr items \<Rightarrow> (push_items items (Suc depth) (fst qs), snd qs)
        | Obj m \<Rightarrow>
            (push_branches v (Suc depth) (fst qs),
             (case observed_identity v of
                Some (uid, a, version, who) \<Rightarrow> receive_character uid a version who (snd qs)
              | None \<Rightarrow> snd qs))
        | _ \<Rightarrow> qs)"

function observe_loop ::
  "nat \<Rightarrow> observe_queue \<times> character_state \<Rightarrow> observe_queue \<times> character_state" where
  "observe_loop index qs =
     (if index < length (fst qs) \<and> index < 4096
      then observe_loop (Suc index)
             (observe_visit (fst (fst qs ! index)) (snd (fst qs ! index)) qs)
      else qs)"
  by auto
termination
  by (relation "measure (\<lambda>(index, _). 4096 - index)") auto

declare observe_loop.simps [simp del]

definition observe_characters :: "json \<Rightarrow> character_state \<Rightarrow> character_state" where
  "observe_characters v s = snd (observe_loop 0 ([(v, 0)], s))"

definition clear_characters :: "character_state \<Rightarrow> character_state" where
  "clear_characters s =
     s\<lparr>records := [], character_calls := character_calls s @ concat (jvals (character_listeners s))\<rparr>"

subsection \<open>Invariant\<close>

definition character_inv :: "character_state \<Rightarrow> bool" where
  "character_inv s \<longleftrightarrow>
     distinct (jkeys (records s)) \<and>
     (length (records s) \<le> max_characters \<or>
      (\<forall>uid\<in>set (jkeys (records s)). jhas (character_listeners s) uid))"

lemma trim_characters_keeps:
  "jhas (character_listeners s) uid \<Longrightarrow> jget (records (trim_characters ids s)) uid = jget (records s) uid"
  by (induction ids s rule: trim_characters.induct) auto

lemma trim_characters_listeners [simp]:
  "character_listeners (trim_characters ids s) = character_listeners s"
  by (induction ids s rule: trim_characters.induct) auto

lemma trim_characters_bound:
  "distinct (jkeys (records s)) \<Longrightarrow>
   \<forall>uid\<in>set (jkeys (records s)) - set ids. jhas (character_listeners s) uid \<Longrightarrow>
   character_inv (trim_characters ids s)"
proof (induction ids s rule: trim_characters.induct)
  case (1 s)
  then show ?case by (simp add: character_inv_def)
next
  case (2 uid ids s)
  show ?case
  proof (cases "length (records s) \<le> max_characters")
    case True
    then show ?thesis using "2.prems" by (simp add: character_inv_def)
  next
    case False
    have "character_inv (trim_characters ids
        (if jhas (character_listeners s) uid then s else s\<lparr>records := jdel (records s) uid\<rparr>))"
      by (rule "2.IH" [OF False]) (use "2.prems" in \<open>auto split: if_splits\<close>)
    then show ?thesis using False by simp
  qed
qed

lemma trim_all_inv: "distinct (jkeys (records s)) \<Longrightarrow> character_inv (trim_all s)"
  unfolding trim_all_def by (rule trim_characters_bound) auto

lemma jset_present_length: "k \<in> set (jkeys m) \<Longrightarrow> length (jset m k v) = length m"
  by (metis jkeys_jset length_jkeys)

lemma receive_character_inv:
  assumes "character_inv s"
  shows "character_inv (receive_character uid v n who s)"
proof -
  have d: "distinct (jkeys (records s))" using assms by (simp add: character_inv_def)
  have fresh: "character_inv (trim_all (notify_character uid
      (s\<lparr>records := jset (jdel (records s) uid) uid r\<rparr>)))" for r
    by (rule trim_all_inv) (simp add: notify_character_def d)
  have bump: "character_inv (s\<lparr>records := jset (records s) uid r\<rparr>)" if "jget (records s) uid = Some p" for r p
  proof -
    have "uid \<in> set (jkeys (records s))" using that by (metis jget_None_iff option.distinct(1))
    then show ?thesis using assms by (auto simp: character_inv_def jset_present_length insert_absorb)
  qed
  show ?thesis
    using assms by (auto simp: receive_character_def Let_def fresh bump split: option.split)
qed

lemma observe_visit_cases:
  "snd (observe_visit v d qs) = snd qs \<or>
   (\<exists>uid a n who. snd (observe_visit v d qs) = receive_character uid a n who (snd qs))"
  by (auto simp: observe_visit_def split: json.split option.split)

text \<open>Whatever \<open>receiveCharacter\<close> keeps, a whole observation keeps.\<close>

lemma observe_loop_keeps:
  assumes step: "\<And>s uid a n who. P s \<Longrightarrow> P (receive_character uid a n who s)"
  shows "P (snd qs) \<Longrightarrow> P (snd (observe_loop i qs))"
proof (induction i qs rule: observe_loop.induct)
  case (1 index qs)
  have "P (snd (observe_visit v d qs))" for v d
    using observe_visit_cases [of v d qs] step "1.prems" by auto
  then show ?case
    using 1 by (subst observe_loop.simps) auto
qed

lemma observe_keeps:
  "(\<And>s uid a n who. P s \<Longrightarrow> P (receive_character uid a n who s)) \<Longrightarrow> P s \<Longrightarrow>
   P (observe_characters v s)"
  unfolding observe_characters_def using observe_loop_keeps [of P "([(v, 0)], s)" 0] by simp

datatype character_event =
    Show_character string nat
  | Hide_character string nat
  | Receive_character string "json option" int "identity option"
  | Observe_characters json
  | Clear_characters

fun character_step :: "character_state \<Rightarrow> character_event \<Rightarrow> character_state" where
  "character_step s (Show_character uid l) = subscribe_character uid l s"
| "character_step s (Hide_character uid l) = unsubscribe_character uid l s"
| "character_step s (Receive_character uid v n who) = receive_character uid v n who s"
| "character_step s (Observe_characters v) = observe_characters v s"
| "character_step s Clear_characters = clear_characters s"

definition no_characters :: character_state where
  "no_characters = \<lparr>records = [], character_listeners = [], character_calls = []\<rparr>"

lemma character_step_inv: "character_inv s \<Longrightarrow> character_inv (character_step s e)"
proof (cases e)
  case (Show_character uid l)
  assume "character_inv s"
  then show ?thesis
    using Show_character by (auto simp: character_inv_def subscribe_character_def jhas_iff)
next
  case (Hide_character uid l)
  assume inv: "character_inv s"
  then have "distinct (jkeys (records s))" by (simp add: character_inv_def)
  then have "character_inv (trim_all (s\<lparr>character_listeners := m\<rparr>))" for m
    by (intro trim_all_inv) simp
  then show ?thesis
    using inv Hide_character by (auto simp: unsubscribe_character_def Let_def character_inv_def jhas_iff)
next
  case (Observe_characters v)
  assume "character_inv s"
  then show ?thesis
    using Observe_characters observe_keeps [of character_inv] receive_character_inv by simp
next
  case (Receive_character uid v n who)
  assume "character_inv s"
  then show ?thesis using Receive_character by (simp add: receive_character_inv)
qed (simp_all add: clear_characters_def character_inv_def)

interpretation characters: event_machine character_step character_inv
  by unfold_locales (rule character_step_inv)

text \<open>
  However the cache of characters is filled (single profiles, whole API results) and
  whatever appears on and leaves the screen, it holds at most 1024 entries, unless every
  entry it holds is on screen; no user has two entries.
\<close>

theorem character_cache_bounded:
  "let s = foldl character_step no_characters es in
     distinct (jkeys (records s)) \<and>
     (length (records s) \<le> 1024 \<or>
      filter (\<lambda>uid. \<not> jhas (character_listeners s) uid) (jkeys (records s)) = [])"
proof -
  have "character_inv (foldl character_step no_characters es)"
    by (rule characters.run_inv) (simp add: character_inv_def no_characters_def)
  then show ?thesis
    by (auto simp: character_inv_def max_characters_def Let_def filter_empty_conv)
qed

lemma receive_character_listeners [simp]:
  "character_listeners (receive_character uid v n who s) = character_listeners s"
  by (simp add: receive_character_def Let_def trim_all_def notify_character_def split: option.split)

definition seen_at_least :: "string \<Rightarrow> int \<Rightarrow> character_state \<Rightarrow> bool" where
  "seen_at_least uid n s \<longleftrightarrow> jhas (character_listeners s) uid \<and>
     (case jget (records s) uid of None \<Rightarrow> False | Some r \<Rightarrow> n \<le> version_seen r)"

lemma seen_trim: "seen_at_least uid n t \<Longrightarrow> seen_at_least uid n (trim_all t)"
  by (simp add: seen_at_least_def trim_all_def trim_characters_keeps)

lemma seen_notify: "seen_at_least uid n (notify_character u t) = seen_at_least uid n t"
  by (simp add: seen_at_least_def notify_character_def)

lemma seen_store:
  assumes "seen_at_least uid n s" and "\<And>p. jget (records s) u = Some p \<Longrightarrow> version_seen p \<le> version_seen r"
  shows "seen_at_least uid n (s\<lparr>records := jset (jdel (records s) u) u r\<rparr>)"
    and "seen_at_least uid n (s\<lparr>records := jset (records s) u r\<rparr>)"
  using assms by (auto simp: seen_at_least_def split: option.splits intro: order_trans)

lemma receive_seen_at_least:
  "seen_at_least uid n s \<Longrightarrow> seen_at_least uid n (receive_character uid' v m who s)"
  unfolding receive_character_def Let_def
  by (simp split: option.split) (auto intro!: seen_trim seen_store simp: seen_notify)

text \<open>
  A late or replayed API result never takes the character on screen back to an older
  version: after observing any result, the user still has an entry, at least as new.
\<close>

theorem observed_character_never_older:
  assumes "jget (records s) uid = Some r" and "jhas (character_listeners s) uid"
  shows "\<exists>r'. jget (records (observe_characters v s)) uid = Some r' \<and> version_seen r \<le> version_seen r'"
proof -
  have "seen_at_least uid (version_seen r) (observe_characters v s)"
    by (rule observe_keeps [where P = "seen_at_least uid (version_seen r)"])
      (simp_all add: receive_seen_at_least, simp add: seen_at_least_def assms)
  then show ?thesis by (auto simp: seen_at_least_def split: option.splits)
qed

theorem observed_character_never_older_witness:
  "let s = receive_character ''u'' (Some (Obj [(''variant'', Num 2), (''hue'', Null)])) 5 None
       (subscribe_character ''u'' 0 no_characters)
   in \<exists>r'. jget (records (observe_characters
        (Obj [(''id'', Str ''u''), (''name'', Str ''A''), (''profile_version'', Num 3)]) s)) ''u'' = Some r' \<and>
      5 \<le> version_seen r'"
  using observed_character_never_older
    [of "receive_character ''u'' (Some (Obj [(''variant'', Num 2), (''hue'', Null)])) 5 None
       (subscribe_character ''u'' 0 no_characters)" "''u''"
      "\<lparr>shown = \<lparr>variant = 2, hue = None\<rparr>, version_seen = 5, name_seen = None, avatar_seen = None\<rparr>"]
  by (simp add: receive_character_def valid_character_def subscribe_character_def no_characters_def
      trim_all_def max_characters_def notify_character_def sadd_def jhas_def jdel_def Let_def)

section \<open>Profiles\<close>

record user =
  user_id :: string
  user_name :: string
  username :: "string option option"
  bio :: "string option"
  profile_version :: "int option"
  custom_status :: "json option"
  status_version :: "int option"
  avatar_url :: "string option option"
  character :: "json option"
  email :: "string option"
  presence_status :: "string option"

definition user_ver :: "user \<Rightarrow> int" where
  "user_ver u = nullish (profile_version u) 0"

record profile_state =
  profiles :: "(string, user) jsmap"
  revisions :: "(string, nat) jsmap"
  profile_listeners :: "nat list"
  profile_calls :: "nat list"
  character_cache :: character_state

definition profile_revision :: "string \<Rightarrow> profile_state \<Rightarrow> nat" where
  "profile_revision uid s = nullish (jget (revisions s) uid) 0"

definition subscribe_profiles :: "nat \<Rightarrow> profile_state \<Rightarrow> profile_state" where
  "subscribe_profiles l s = s\<lparr>profile_listeners := sadd l (profile_listeners s)\<rparr>"

definition unsubscribe_profiles :: "nat \<Rightarrow> profile_state \<Rightarrow> profile_state" where
  "unsubscribe_profiles l s = s\<lparr>profile_listeners := sdel l (profile_listeners s)\<rparr>"

definition max_profiles :: nat where
  "max_profiles = 512"

text \<open>
  \<open>receiveProfile\<close>: the result is \<open>None\<close> for a value without an id (a profile without
  a string name cannot be written in the type). \<open>store_profile\<close> is its second half, from
  \<open>receiveCharacter\<close> on.
\<close>

definition store_profile :: "user \<Rightarrow> profile_state \<Rightarrow> profile_state" where
  "store_profile u s =
     (let all = jset (profiles s) (user_id u) u;
          next = fold (\<lambda>k m. jdel m k) (take (length (jkeys all) - max_profiles) (jkeys all)) all;
          revs = jset (revisions s) (user_id u) (profile_revision (user_id u) s + 1)
      in s\<lparr>character_cache := receive_character (user_id u) (character u) (user_ver u)
             (Some \<lparr>identity_name = user_name u, identity_avatar = avatar_url u\<rparr>) (character_cache s),
           profiles := next,
           revisions := filter (\<lambda>e. jhas next (fst e)) revs,
           profile_calls := profile_calls s @ profile_listeners s\<rparr>)"

definition receive_profile :: "user \<Rightarrow> profile_state \<Rightarrow> user option \<times> profile_state" where
  "receive_profile u s =
     (if user_id u = [] then (None, s)
      else case jget (profiles s) (user_id u) of
          Some current \<Rightarrow> if user_ver current > user_ver u then (Some current, s)
            else (Some u, store_profile u s)
        | None \<Rightarrow> (Some u, store_profile u s))"

definition reconcile_profile :: "user \<Rightarrow> nat \<Rightarrow> profile_state \<Rightarrow> user \<times> profile_state" where
  "reconcile_profile u started s =
     (case jget (profiles s) (user_id u) of
        Some current \<Rightarrow>
          if profile_revision (user_id u) s \<noteq> started \<and> user_ver current \<ge> user_ver u then (current, s)
          else (case receive_profile u s of (r, s') \<Rightarrow> (nullish r u, s'))
      | None \<Rightarrow> (case receive_profile u s of (r, s') \<Rightarrow> (nullish r u, s')))"

definition clear_profiles :: "profile_state \<Rightarrow> profile_state" where
  "clear_profiles s = s\<lparr>profiles := [], revisions := [], profile_calls := profile_calls s @ profile_listeners s\<rparr>"

datatype profile_event =
    Receive_profile user
  | Reconcile_profile user nat
  | Clear_profiles
  | Subscribe_profiles nat
  | Unsubscribe_profiles nat

fun profile_step :: "profile_state \<Rightarrow> profile_event \<Rightarrow> profile_state" where
  "profile_step s (Receive_profile u) = snd (receive_profile u s)"
| "profile_step s (Reconcile_profile u n) = snd (reconcile_profile u n s)"
| "profile_step s Clear_profiles = clear_profiles s"
| "profile_step s (Subscribe_profiles l) = subscribe_profiles l s"
| "profile_step s (Unsubscribe_profiles l) = unsubscribe_profiles l s"

definition profile_inv :: "profile_state \<Rightarrow> bool" where
  "profile_inv s \<longleftrightarrow> distinct (jkeys (profiles s)) \<and> length (profiles s) \<le> max_profiles \<and>
     set (jkeys (revisions s)) = set (jkeys (profiles s)) \<and>
     (\<forall>uid u. jget (profiles s) uid = Some u \<longrightarrow> user_id u = uid \<and> uid \<noteq> [])"

lemma trim_front_keys:
  "distinct (jkeys m) \<Longrightarrow>
   jkeys (fold (\<lambda>k m. jdel m k) (take n (jkeys m)) m) = drop n (jkeys m)"
proof -
  assume d: "distinct (jkeys m)"
  have disj: "set (take n (jkeys m)) \<inter> set (drop n (jkeys m)) = {}"
    by (metis append_take_drop_id d distinct_append)
  have "filter (\<lambda>k. k \<notin> set (take n (jkeys m))) (take n (jkeys m) @ drop n (jkeys m)) = drop n (jkeys m)"
    using disj unfolding filter_append by (simp add: filter_id_conv filter_empty_conv) auto
  then show ?thesis by (simp add: js.keys_fold_del)
qed

lemma jkeys_filter_fst: "jkeys (filter (\<lambda>e. P (fst e)) m) = filter P (jkeys m)"
  by (induction m) auto

lemma store_profile_stored:
  assumes "profile_inv s"
  shows "jget (profiles (store_profile u s)) (user_id u) = Some u"
proof -
  let ?all = "jset (profiles s) (user_id u) u"
  let ?d = "take (length (jkeys ?all) - max_profiles) (jkeys ?all)"
  have le: "length (profiles s) \<le> max_profiles" and d: "distinct (jkeys (profiles s))"
    using assms by (simp_all add: profile_inv_def)
  have "user_id u \<notin> set ?d"
  proof (cases "user_id u \<in> set (jkeys (profiles s))")
    case True
    then have "?d = []" using le by (simp add: jset_present_length)
    then show ?thesis by (auto simp only: list.set)
  next
    case False
    have "length (jkeys ?all) - max_profiles \<le> length (jkeys (profiles s))"
      using le by (simp add: jset_new False max_profiles_def)
    then have "set ?d \<subseteq> set (jkeys (profiles s))"
      using False by (simp add: jkeys_jset set_take_subset)
    then show ?thesis using False by auto
  qed
  then show ?thesis by (simp add: store_profile_def Let_def js.get_fold_del)
qed

lemma store_profile_inv:
  assumes "profile_inv s" and "user_id u \<noteq> []"
  shows "profile_inv (store_profile u s)"
proof -
  let ?all = "jset (profiles s) (user_id u) u"
  let ?n = "length (jkeys ?all) - max_profiles"
  have inv: "distinct (jkeys (profiles s))" "length (profiles s) \<le> max_profiles"
    "set (jkeys (revisions s)) = set (jkeys (profiles s))"
    "\<forall>uid w. jget (profiles s) uid = Some w \<longrightarrow> user_id w = uid \<and> uid \<noteq> []"
    using assms(1) by (simp_all add: profile_inv_def)
  have p: "profiles (store_profile u s) = fold (\<lambda>k m. jdel m k) (take ?n (jkeys ?all)) ?all"
    by (simp add: store_profile_def Let_def)
  have k: "jkeys (profiles (store_profile u s)) = drop ?n (jkeys ?all)"
    unfolding p by (rule trim_front_keys) (simp add: inv)
  have "length (jkeys (profiles (store_profile u s))) \<le> max_profiles" unfolding k by simp
  moreover have "jkeys (revisions (store_profile u s)) =
      filter (jhas (profiles (store_profile u s))) (jkeys (jset (revisions s) (user_id u)
        (profile_revision (user_id u) s + 1)))"
    unfolding p by (simp add: store_profile_def Let_def jkeys_filter_fst)
  moreover have "set (drop ?n (jkeys ?all)) \<subseteq> set (jkeys ?all)" by (rule set_drop_subset)
  ultimately show ?thesis
    using inv k assms(2) by (auto simp: profile_inv_def jhas_def p js.get_fold_del)
qed

lemma receive_profile_inv: "profile_inv s \<Longrightarrow> profile_inv (snd (receive_profile u s))"
  by (auto simp: receive_profile_def store_profile_inv split: option.split)

lemma reconcile_profile_cases:
  "snd (reconcile_profile u n s) = s \<or> snd (reconcile_profile u n s) = snd (receive_profile u s)"
  by (auto simp: reconcile_profile_def split: option.split prod.split)

lemma profile_step_inv: "profile_inv s \<Longrightarrow> profile_inv (profile_step s e)"
proof (cases e)
  case (Reconcile_profile u n)
  assume "profile_inv s"
  then show ?thesis
    using Reconcile_profile reconcile_profile_cases [of u n s] receive_profile_inv [of s u] by auto
qed (simp_all add: receive_profile_inv, simp_all add: clear_profiles_def subscribe_profiles_def
    unsubscribe_profiles_def profile_inv_def)

interpretation profiles: event_machine profile_step profile_inv
  by unfold_locales (rule profile_step_inv)

definition no_profiles :: profile_state where
  "no_profiles = \<lparr>profiles = [], revisions = [], profile_listeners = [], profile_calls = [],
     character_cache = no_characters\<rparr>"

lemma no_profiles_inv: "profile_inv no_profiles"
  by (simp add: profile_inv_def no_profiles_def)

text \<open>
  The profile cache never holds more than 512 users, each under their own id, and the
  revision counters are kept for exactly those users, whatever the sequence of events,
  late reads and resets.
\<close>

theorem profile_cache_bounded:
  "let s = foldl profile_step no_profiles es in
     length (profiles s) \<le> 512 \<and> distinct (jkeys (profiles s)) \<and>
     set (jkeys (revisions s)) = set (jkeys (profiles s)) \<and>
     filter (\<lambda>(uid, u). user_id u \<noteq> uid) (profiles s) = []"
proof -
  let ?s = "foldl profile_step no_profiles es"
  have inv: "profile_inv ?s" by (rule profiles.run_inv [OF no_profiles_inv])
  then have "user_id u = uid" if "(uid, u) \<in> set (profiles ?s)" for uid u
    using that by (auto simp: profile_inv_def jget_def jkeys_def)
  then show ?thesis
    using inv by (auto simp: profile_inv_def max_profiles_def Let_def filter_empty_conv)
qed

text \<open>
  A late HTTP read cannot undo an event: \<open>reconcileProfile\<close> answers with a profile at
  least as new as both the one read and the one cached, and leaves an entry at least as
  new as the cached one in the cache.
\<close>

theorem late_profile_read_never_regresses:
  assumes "s = foldl profile_step no_profiles es"
    and "jget (profiles s) (user_id u) = Some current"
  shows "user_ver u \<le> user_ver (fst (reconcile_profile u started s)) \<and>
    user_ver current \<le> user_ver (fst (reconcile_profile u started s)) \<and>
    (\<exists>c. jget (profiles (snd (reconcile_profile u started s))) (user_id u) = Some c \<and>
       user_ver current \<le> user_ver c)"
proof -
  have inv: "profile_inv s" unfolding assms(1) by (rule profiles.run_inv [OF no_profiles_inv])
  then have "user_id u \<noteq> []" using assms(2) by (auto simp: profile_inv_def)
  then show ?thesis
    using assms(2) store_profile_stored [OF inv, of u]
    by (auto simp: reconcile_profile_def receive_profile_def)
qed

theorem late_profile_read_never_regresses_witness:
  "let ann = \<lparr>user_id = ''a'', user_name = ''Ann'', username = None, bio = None,
         profile_version = Some 4, custom_status = None, status_version = None, avatar_url = None,
         character = None, email = None, presence_status = None\<rparr>
   in user_ver (fst (reconcile_profile (ann\<lparr>profile_version := Some 3\<rparr>) 0
        (foldl profile_step no_profiles [Receive_profile ann]))) \<ge> 4"
proof -
  define ann where "ann = \<lparr>user_id = ''a'', user_name = ''Ann'', username = None, bio = None,
         profile_version = Some 4, custom_status = None, status_version = None, avatar_url = None,
         character = None, email = None, presence_status = None\<rparr>"
  have "jget (profiles (foldl profile_step no_profiles [Receive_profile ann]))
      (user_id (ann\<lparr>profile_version := Some 3\<rparr>)) = Some ann"
    by (simp add: ann_def no_profiles_def receive_profile_def store_profile_def max_profiles_def Let_def)
  from late_profile_read_never_regresses [OF refl this, of 0] show ?thesis
    by (simp add: ann_def user_ver_def Let_def)
qed

end
