(* ===== verification/Api.thy ===== *)
theory Api
  imports Prelude
begin

text \<open>
  Errors of the API client (\<open>api.ts\<close>) as the stores look at them: an \<open>ApiRequestError\<close>
  with its message and status, another \<open>Error\<close> with its message, or a thrown value that is
  neither.
\<close>

datatype api_error = Request_error string int | Plain_error string | Other_thrown

fun access_denied :: "api_error \<Rightarrow> bool" where
  "access_denied (Request_error _ status) = (status = 401 \<or> status = 403)"
| "access_denied _ = False"

text \<open>\<open>error instanceof Error ? error.message : fallback\<close>\<close>

fun error_text :: "api_error \<Rightarrow> string \<Rightarrow> string" where
  "error_text (Request_error t _) _ = t"
| "error_text (Plain_error t) _ = t"
| "error_text Other_thrown fallback = fallback"

text \<open>\<open>error instanceof ApiRequestError && error.status === n\<close>\<close>

fun has_status :: "api_error \<Rightarrow> int \<Rightarrow> bool" where
  "has_status (Request_error _ status) n = (status = n)"
| "has_status _ n = False"

end
