(* ===== verification/MessageMerge.thy ===== *)
theory MessageMerge
  imports Profiles Api
begin

text \<open>
  Messages and \<open>mergeMessages\<close> (\<open>features/chat/messageStore.ts\<close>, the types of \<open>api.ts\<close>).

  \<open>Date.parse\<close> and \<open>localeCompare\<close> are the two fields of \<open>msg_env\<close>, a parameter of the
  definitions that use them. The theorems show the merge to be the newest version of every
  id in order, idempotent, and independent of the order of arrival.
\<close>

section \<open>Data\<close>

record reply_preview =
  reply_id :: string
  reply_name :: string
  reply_body :: string
  reply_deleted :: bool

record message =
  msg_id :: string
  room_id :: string
  author :: user
  msg_body :: string
  created_at :: string
  sequence :: "int option"
  version :: "int option"
  edited_at :: "string option"
  deleted_at :: "string option"
  mentions :: "json option"
  reply :: "reply_preview option"
  reactions :: "json option"
  attachments :: "json option"
  thread_root_id :: "string option"
  thread_reply_count :: "int option"
  thread_unread_count :: "int option"
  pinned_at :: "string option"
  pinned_by :: "string option"

record message_page =
  page_messages :: "message list"
  page_before_id :: "string option"
  page_read_sequence :: "int option"
  page_root :: "message option"

record room_unread =
  unread_room :: string
  unread_count :: int
  unread_mentions :: int
  read_sequence :: int

record msg_env =
  date_parse :: "string \<Rightarrow> num"
  locale_compare :: "string \<Rightarrow> string \<Rightarrow> int"

definition ver :: "message \<Rightarrow> int" where
  "ver m = nullish (version m) 0"

definition opt_ver :: "message option \<Rightarrow> int" where
  "opt_ver m = (case m of None \<Rightarrow> 0 | Some x \<Rightarrow> ver x)"

section \<open>Merging\<close>

definition absorb :: "message \<Rightarrow> (string, message) jsmap \<Rightarrow> (string, message) jsmap" where
  "absorb m by_id =
     (case jget by_id (msg_id m) of
        None \<Rightarrow> jset by_id (msg_id m) m
      | Some current \<Rightarrow> if ver m > ver current then jset by_id (msg_id m) m else by_id)"

definition follow_parent :: "(string, message) jsmap \<Rightarrow> message \<Rightarrow> message" where
  "follow_parent by_id m =
     (case reply m of
        None \<Rightarrow> m
      | Some r \<Rightarrow> (case jget by_id (reply_id r) of
          None \<Rightarrow> m
        | Some parent \<Rightarrow> m\<lparr>reply := Some
            \<lparr>reply_id = msg_id parent, reply_name = user_name (author parent),
             reply_body = take 400 (msg_body parent), reply_deleted = nonempty (deleted_at parent)\<rparr>\<rparr>))"

definition msg_key :: "msg_env \<Rightarrow> message \<Rightarrow> num" where
  "msg_key p m = (case sequence m of Some q \<Rightarrow> Some q | None \<Rightarrow> date_parse p (created_at m))"

definition cmp_messages :: "msg_env \<Rightarrow> message \<Rightarrow> message \<Rightarrow> int" where
  "cmp_messages p a b =
     num_or (num_minus (msg_key p a) (msg_key p b)) (locale_compare p (msg_id a) (msg_id b))"

definition newest_by_id :: "message list \<Rightarrow> (string, message) jsmap" where
  "newest_by_id ms = fold absorb ms []"

definition merge_messages :: "msg_env \<Rightarrow> message list list \<Rightarrow> message list" where
  "merge_messages p groups =
     (let by_id = newest_by_id (concat groups)
      in js_sort (cmp_messages p) (map (follow_parent by_id) (jvals by_id)))"

subsection \<open>Correctness of the merge\<close>

lemma follow_parent_simps [simp]:
  "msg_id (follow_parent m x) = msg_id x" "ver (follow_parent m x) = ver x"
  "version (follow_parent m x) = version x" "author (follow_parent m x) = author x"
  "msg_body (follow_parent m x) = msg_body x" "deleted_at (follow_parent m x) = deleted_at x"
  "sequence (follow_parent m x) = sequence x" "created_at (follow_parent m x) = created_at x"
  by (simp_all add: follow_parent_def ver_def split: option.split)

lemma msg_key_follow [simp]: "msg_key p (follow_parent m x) = msg_key p x"
  by (simp add: msg_key_def split: option.split)

lemma cmp_follow [simp]:
  "cmp_messages p (follow_parent m x) (follow_parent m' y) = cmp_messages p x y"
  by (simp add: cmp_messages_def)

text \<open>The map after absorbing messages: keyed by id, holding for each id a newest message.\<close>

definition by_id_ok :: "message set \<Rightarrow> (string, message) jsmap \<Rightarrow> bool" where
  "by_id_ok ms b \<longleftrightarrow> distinct (jkeys b) \<and> set (jkeys b) = msg_id ` ms \<and>
     (\<forall>k m. jget b k = Some m \<longrightarrow> msg_id m = k \<and> m \<in> ms \<and> (\<forall>x\<in>ms. msg_id x = k \<longrightarrow> ver x \<le> ver m))"

lemma by_id_okD:
  assumes "by_id_ok ms b"
  shows "distinct (jkeys b)" and "set (jkeys b) = msg_id ` ms"
    and "\<And>k m. jget b k = Some m \<Longrightarrow> msg_id m = k" and "\<And>k m. jget b k = Some m \<Longrightarrow> m \<in> ms"
    and "\<And>k m x. jget b k = Some m \<Longrightarrow> x \<in> ms \<Longrightarrow> msg_id x = k \<Longrightarrow> ver x \<le> ver m"
  using assms unfolding by_id_ok_def by blast+

lemma absorb_ok: "by_id_ok ms b \<Longrightarrow> by_id_ok (insert m ms) (absorb m b)"
proof -
  assume ok: "by_id_ok ms b"
  show ?thesis
  proof (cases "jget b (msg_id m)")
    case None
    then have "msg_id m \<notin> msg_id ` ms" using ok by (simp add: jget_None_iff by_id_ok_def)
    then have "\<forall>x\<in>ms. msg_id x \<noteq> msg_id m" by (metis imageI)
    then show ?thesis using ok None by (auto simp: by_id_ok_def absorb_def)
  next
    case (Some c)
    then have mem: "msg_id m \<in> msg_id ` ms"
      using ok by (metis by_id_ok_def imageI)
    have c: "msg_id c = msg_id m" "c \<in> ms" "\<forall>x\<in>ms. msg_id x = msg_id m \<longrightarrow> ver x \<le> ver c"
      using ok Some unfolding by_id_ok_def by metis+
    show ?thesis
    proof (cases "ver m > ver c")
      case True
      then have "absorb m b = jset b (msg_id m) m" by (simp add: absorb_def Some)
      moreover have "\<forall>x\<in>ms. msg_id x = msg_id m \<longrightarrow> ver x \<le> ver m" using c(3) True by force
      ultimately show ?thesis using ok by (auto simp: by_id_ok_def)
    next
      case False
      then have "absorb m b = b" by (simp add: absorb_def Some)
      then show ?thesis using ok mem False c Some by (auto simp: by_id_ok_def)
    qed
  qed
qed

lemma fold_absorb_ok: "by_id_ok ms b \<Longrightarrow> by_id_ok (set xs \<union> ms) (fold absorb xs b)"
  by (induction xs arbitrary: b ms) (simp_all, metis Un_insert_right absorb_ok)

lemma newest_by_id_ok: "by_id_ok (set xs) (newest_by_id xs)"
  using fold_absorb_ok [of "{}" "[]" xs] by (simp add: newest_by_id_def by_id_ok_def)

lemma jvals_by_id:
  assumes "by_id_ok ms b"
  shows "map msg_id (jvals b) = jkeys b"
proof -
  have "msg_id (snd e) = fst e" if "e \<in> set b" for e
  proof -
    have "jget b (fst e) = Some (snd e)"
      unfolding jget_def
      by (rule map_of_is_SomeI) (simp_all add: that by_id_okD(1) [OF assms, unfolded jkeys_def])
    then show ?thesis by (rule by_id_okD(3) [OF assms])
  qed
  then show ?thesis by (simp add: jvals_def jkeys_def)
qed

lemma merge_ids:
  "msg_id ` set (merge_messages p gs) = msg_id ` set (concat gs)"
  "distinct (map msg_id (merge_messages p gs))"
proof -
  let ?b = "newest_by_id (concat gs)"
  have ok: "by_id_ok (set (concat gs)) ?b" by (rule newest_by_id_ok)
  have ids: "map msg_id (map (follow_parent ?b) (jvals ?b)) = jkeys ?b"
    using jvals_by_id [OF ok] by (simp add: comp_def)
  have "set (map msg_id (map (follow_parent ?b) (jvals ?b))) = msg_id ` set (concat gs)"
    unfolding ids by (rule by_id_okD(2) [OF ok])
  then show "msg_id ` set (merge_messages p gs) = msg_id ` set (concat gs)"
    unfolding merge_messages_def Let_def set_js_sort by (simp add: image_image)
  show "distinct (map msg_id (merge_messages p gs))"
    by (simp only: merge_messages_def Let_def distinct_map_js_sort ids by_id_okD(1) [OF ok])
qed

lemma merge_newest:
  assumes "m \<in> set (merge_messages p gs)" and "x \<in> set (concat gs)" and "msg_id x = msg_id m"
  shows "ver x \<le> ver m"
proof -
  let ?b = "newest_by_id (concat gs)"
  have ok: "by_id_ok (set (concat gs)) ?b" by (rule newest_by_id_ok)
  obtain m0 where m0: "m0 \<in> set (jvals ?b)" "m = follow_parent ?b m0"
    using assms(1) by (auto simp: merge_messages_def Let_def)
  obtain k where "jget ?b k = Some m0"
    using jvals_jget [OF by_id_okD(1) [OF ok] m0(1)] by blast
  then show ?thesis
    using by_id_okD(3,5) [OF ok] assms(2,3) m0(2) by simp
qed

text \<open>Every message of a group is in the result, at least as new.\<close>

lemma merge_keeps:
  assumes "x \<in> set (concat gs)"
  shows "\<exists>m\<in>set (merge_messages p gs). msg_id m = msg_id x \<and> ver x \<le> ver m"
proof -
  obtain m where "m \<in> set (merge_messages p gs)" "msg_id m = msg_id x"
    using assms merge_ids(1) [of p gs] by (metis image_iff)
  then show ?thesis using merge_newest assms by metis
qed

lemma merge_sorted:
  assumes "consistent_cmp (cmp_messages p) (set (concat gs))"
  shows "sorted_wrt (\<lambda>a b. cmp_messages p a b \<le> 0) (merge_messages p gs)"
proof -
  let ?b = "newest_by_id (concat gs)"
  have ok: "by_id_ok (set (concat gs)) ?b" by (rule newest_by_id_ok)
  have sub: "set (jvals ?b) \<subseteq> set (concat gs)"
    using jvals_jget [OF by_id_okD(1) [OF ok]] by_id_okD(4) [OF ok] by (metis subsetI)
  have "consistent_cmp (cmp_messages p) (set (jvals ?b))"
    by (rule consistent_cmp_subset [OF assms sub])
  then have "consistent_cmp (cmp_messages p) (set (map (follow_parent ?b) (jvals ?b)))"
    unfolding set_map by (rule consistent_cmp_image) simp
  then show ?thesis unfolding merge_messages_def Let_def by (rule js_sort_sorted)
qed

text \<open>
  C26. Merging any pages and events: the result has exactly the ids of the messages
  merged, each once, each at the highest version seen, in the order of the comparator.
\<close>

theorem merge_messages_correct:
  assumes "consistent_cmp (cmp_messages p) (set (concat gs))"
  shows "msg_id ` set (merge_messages p gs) = msg_id ` set (concat gs) \<and>
    distinct (map msg_id (merge_messages p gs)) \<and>
    (\<forall>m\<in>set (merge_messages p gs). \<forall>x\<in>set (concat gs). msg_id x = msg_id m \<longrightarrow> ver x \<le> ver m) \<and>
    sorted_wrt (\<lambda>a b. cmp_messages p a b \<le> 0) (merge_messages p gs)"
proof (intro conjI)
  show "\<forall>m\<in>set (merge_messages p gs). \<forall>x\<in>set (concat gs). msg_id x = msg_id m \<longrightarrow> ver x \<le> ver m"
    using merge_newest [of _ p gs] by (intro ballI impI)
qed (rule merge_ids merge_sorted [OF assms])+

lemma fold_absorb_distinct:
  "distinct (map msg_id xs) \<Longrightarrow> set (map msg_id xs) \<inter> set (jkeys b) = {} \<Longrightarrow>
   fold absorb xs b = b @ map (\<lambda>m. (msg_id m, m)) xs"
proof (induction xs arbitrary: b)
  case (Cons x xs)
  have new: "msg_id x \<notin> set (jkeys b)" using Cons.prems(2) by auto
  then have "absorb x b = b @ [(msg_id x, x)]"
    by (simp add: absorb_def jset_new jget_None_iff [symmetric] split: option.split)
  then show ?case
    using Cons by (auto simp: jkeys_def)
qed simp

lemma newest_by_id_distinct:
  "distinct (map msg_id xs) \<Longrightarrow> newest_by_id xs = map (\<lambda>m. (msg_id m, m)) xs"
  by (simp add: newest_by_id_def fold_absorb_distinct)

lemma jvals_newest_distinct: "distinct (map msg_id xs) \<Longrightarrow> jvals (newest_by_id xs) = xs"
  by (simp add: newest_by_id_distinct jvals_def comp_def)

lemma in_keyed: "m \<in> set xs \<Longrightarrow> msg_id m = k \<Longrightarrow> (k, m) \<in> set (map (\<lambda>m. (msg_id m, m)) xs)"
  by auto

lemma merge_elem:
  assumes "m \<in> set (merge_messages p gs)"
  obtains m0 where "m0 \<in> set (jvals (newest_by_id (concat gs)))"
    and "m = follow_parent (newest_by_id (concat gs)) m0"
proof -
  have "m \<in> follow_parent (newest_by_id (concat gs)) ` set (jvals (newest_by_id (concat gs)))"
    using assms by (simp add: merge_messages_def Let_def)
  then show ?thesis using that by (elim imageE)
qed

lemma jget_merge:
  "jget (newest_by_id (merge_messages p gs)) k =
     map_option (follow_parent (newest_by_id (concat gs))) (jget (newest_by_id (concat gs)) k)"
proof -
  let ?b = "newest_by_id (concat gs)" and ?b' = "newest_by_id (merge_messages p gs)"
  have ok: "by_id_ok (set (concat gs)) ?b" and ok': "by_id_ok (set (merge_messages p gs)) ?b'"
    by (rule newest_by_id_ok)+
  have keys: "set (jkeys ?b') = set (jkeys ?b)"
    by (simp only: by_id_okD(2) [OF ok] by_id_okD(2) [OF ok'] merge_ids)
  show ?thesis
  proof (cases "jget ?b k")
    case None
    then have "k \<notin> set (jkeys ?b')" unfolding keys by (simp add: jget_None_iff)
    then show ?thesis using None by (simp add: jget_None_iff [symmetric])
  next
    case (Some m)
    then have "follow_parent ?b m \<in> set (merge_messages p gs)"
      by (auto simp: merge_messages_def Let_def dest: jget_in_jvals)
    moreover have "msg_id (follow_parent ?b m) = k" using by_id_okD(3) [OF ok Some] by simp
    ultimately have "(k, follow_parent ?b m) \<in> set ?b'"
      unfolding newest_by_id_distinct [OF merge_ids(2)] by (rule in_keyed)
    then have "jget ?b' k = Some (follow_parent ?b m)"
      unfolding jget_def using by_id_okD(1) [OF ok'] by (simp add: jkeys_def map_of_is_SomeI)
    then show ?thesis using Some by simp
  qed
qed

lemma follow_parent_again:
  assumes ok: "by_id_ok ms b" and again: "\<And>k. jget b' k = map_option (follow_parent b) (jget b k)"
  shows "follow_parent b' (follow_parent b m) = follow_parent b m"
proof (cases "reply m")
  case None
  then show ?thesis by (simp add: follow_parent_def)
next
  case (Some r)
  show ?thesis
  proof (cases "jget b (reply_id r)")
    case None
    then have "follow_parent b m = m" using Some by (simp add: follow_parent_def)
    then show ?thesis using None Some again by (simp add: follow_parent_def [of b'])
  next
    case (Some parent)
    have id: "msg_id parent = reply_id r" by (rule by_id_okD(3) [OF ok Some])
    have "follow_parent b m = m\<lparr>reply := Some
        \<lparr>reply_id = msg_id parent, reply_name = user_name (author parent),
         reply_body = take 400 (msg_body parent), reply_deleted = nonempty (deleted_at parent)\<rparr>\<rparr>"
      using Some \<open>reply m = Some r\<close> by (simp add: follow_parent_def)
    moreover have "jget b' (msg_id parent) = Some (follow_parent b parent)"
      using Some again id by simp
    ultimately show ?thesis by (simp add: follow_parent_def [of b'])
  qed
qed

text \<open>
  Merging again what was merged changes nothing: a list that has been through
  \<open>mergeMessages\<close> is a fixed point of it, reply previews and order included, so the
  repeated normalisation in \<open>put\<close> is harmless.
\<close>

theorem merge_messages_idempotent:
  assumes "consistent_cmp (cmp_messages p) (set (concat gs))"
  shows "merge_messages p [merge_messages p gs] = merge_messages p gs"
proof -
  let ?b = "newest_by_id (concat gs)" and ?R = "merge_messages p gs"
  have ok: "by_id_ok (set (concat gs)) ?b" by (rule newest_by_id_ok)
  have "follow_parent (newest_by_id ?R) m = m" if m: "m \<in> set ?R" for m
  proof -
    obtain m0 where m0: "m = follow_parent ?b m0"
      by (rule merge_elem [OF m])
    show ?thesis unfolding m0 by (rule follow_parent_again [OF ok jget_merge])
  qed
  then have "map (follow_parent (newest_by_id ?R)) (jvals (newest_by_id ?R)) = ?R"
    by (simp add: jvals_newest_distinct [OF merge_ids(2)] map_idI)
  then have "merge_messages p [?R] = js_sort (cmp_messages p) ?R"
    by (simp add: merge_messages_def [of p "[_]"] Let_def)
  also have "\<dots> = ?R" by (rule js_sort_id [OF merge_sorted [OF assms]])
  finally show ?thesis .
qed

lemma sorted_wrt_unique:
  "sorted_wrt P xs \<Longrightarrow> sorted_wrt P ys \<Longrightarrow> set xs = set ys \<Longrightarrow> distinct xs \<Longrightarrow> distinct ys \<Longrightarrow>
   \<forall>a\<in>set xs. \<forall>b\<in>set xs. P a b \<longrightarrow> P b a \<longrightarrow> a = b \<Longrightarrow> xs = ys"
proof (induction xs arbitrary: ys)
  case (Cons x xs)
  obtain y ys' where ys: "ys = y # ys'" using Cons.prems(3) by (cases ys) auto
  have "x = y"
  proof (rule ccontr)
    assume "x \<noteq> y"
    then have "y \<in> set xs" "x \<in> set ys'" using Cons.prems(3) ys by auto
    then have "P x y" "P y x" using Cons.prems(1,2) ys by auto
    then show False using \<open>x \<noteq> y\<close> \<open>y \<in> set xs\<close> Cons.prems(6) by auto
  qed
  moreover have "set xs = set ys'"
    using Cons.prems(3-5) ys \<open>x = y\<close> by auto
  ultimately show ?case using Cons.IH [of ys'] Cons.prems ys by auto
qed simp

text \<open>
  A version of a message has one content, but for the preview of the message it replies to,
  which the server also changes without a new version: that may differ as long as the message
  replied to is there.
\<close>

definition same_but_reply :: "string set \<Rightarrow> message \<Rightarrow> message \<Rightarrow> bool" where
  "same_but_reply ids x y \<longleftrightarrow> x = y \<or> x\<lparr>reply := None\<rparr> = y\<lparr>reply := None\<rparr> \<and>
     (\<exists>r r'. reply x = Some r \<and> reply y = Some r' \<and> reply_id r = reply_id r' \<and> reply_id r \<in> ids)"

definition versions_agree :: "message set \<Rightarrow> bool" where
  "versions_agree ms \<longleftrightarrow>
     (\<forall>x\<in>ms. \<forall>y\<in>ms. msg_id x = msg_id y \<longrightarrow> ver x = ver y \<longrightarrow> same_but_reply (msg_id ` ms) x y)"

definition strict_cmp :: "msg_env \<Rightarrow> message set \<Rightarrow> bool" where
  "strict_cmp p ms \<longleftrightarrow> consistent_cmp (cmp_messages p) ms \<and>
     (\<forall>x\<in>ms. \<forall>y\<in>ms. cmp_messages p x y \<le> 0 \<longrightarrow> cmp_messages p y x \<le> 0 \<longrightarrow> msg_id x = msg_id y)"

lemma newest_by_id_related:
  assumes "set xs = set ys" and "versions_agree (set xs)" and "jget (newest_by_id xs) k = Some m"
  shows "\<exists>m'. jget (newest_by_id ys) k = Some m' \<and> same_but_reply (msg_id ` set xs) m m'"
proof -
  have okx: "by_id_ok (set xs) (newest_by_id xs)" and oky: "by_id_ok (set xs) (newest_by_id ys)"
    using newest_by_id_ok [of xs] newest_by_id_ok [of ys] assms(1) by simp_all
  have "k \<in> set (jkeys (newest_by_id ys))"
    using by_id_okD(2) [OF okx] by_id_okD(2) [OF oky] assms(3) by (metis jget_None_iff option.distinct(1))
  then obtain m' where m': "jget (newest_by_id ys) k = Some m'"
    by (cases "jget (newest_by_id ys) k") (auto simp: jget_None_iff)
  have k: "msg_id m = k" "msg_id m' = k" and mem: "m \<in> set xs" "m' \<in> set xs"
    by (rule by_id_okD(3) [OF okx assms(3)] by_id_okD(3) [OF oky m'] by_id_okD(4) [OF okx assms(3)]
        by_id_okD(4) [OF oky m'])+
  have "ver m = ver m'"
    using by_id_okD(5) [OF okx assms(3) mem(2) k(2)] by_id_okD(5) [OF oky m' mem(1) k(1)] by simp
  then show ?thesis using assms(2) k mem m' unfolding versions_agree_def by metis
qed

lemma same_but_reply_fields:
  assumes "same_but_reply ids x y"
  shows "msg_id x = msg_id y" "author x = author y" "msg_body x = msg_body y" "deleted_at x = deleted_at y"
    "x\<lparr>reply := r\<rparr> = y\<lparr>reply := r\<rparr>"
proof -
  have eq: "x\<lparr>reply := None\<rparr> = y\<lparr>reply := None\<rparr>" using assms by (auto simp: same_but_reply_def)
  show "msg_id x = msg_id y" "author x = author y" "msg_body x = msg_body y" "deleted_at x = deleted_at y"
    using arg_cong [OF eq, of msg_id] arg_cong [OF eq, of author] arg_cong [OF eq, of msg_body] arg_cong [OF eq, of deleted_at]
    by simp_all
  show "x\<lparr>reply := r\<rparr> = y\<lparr>reply := r\<rparr>" using arg_cong [OF eq, of "\<lambda>z. z\<lparr>reply := r\<rparr>"] by simp
qed

lemma same_but_reply_sym: "same_but_reply ids x y \<Longrightarrow> same_but_reply ids y x"
  by (auto simp: same_but_reply_def)

lemma follow_parent_related:
  assumes rel: "\<And>k m. jget b k = Some m \<Longrightarrow> \<exists>m'. jget c k = Some m' \<and> same_but_reply ids m m'"
    and keys: "\<And>k. jget b k = None \<longleftrightarrow> k \<notin> ids" "\<And>k. jget c k = None \<longleftrightarrow> k \<notin> ids" and xy: "same_but_reply ids x y"
  shows "follow_parent b x = follow_parent c y"
proof (cases "reply x")
  case None
  with xy have "x = y" by (auto simp: same_but_reply_def)
  with None show ?thesis by (simp add: follow_parent_def)
next
  case (Some r)
  then obtain r' where r': "reply y = Some r'" "reply_id r' = reply_id r" using xy by (auto simp: same_but_reply_def)
  show ?thesis
  proof (cases "jget b (reply_id r)")
    case None
    with keys xy Some have "jget c (reply_id r) = None" "x = y" by (auto simp: same_but_reply_def)
    with None Some show ?thesis by (simp add: follow_parent_def)
  next
    case (Some p)
    from rel [OF this] obtain p' where p': "jget c (reply_id r) = Some p'" "same_but_reply ids p p'" by blast
    show ?thesis
      using Some p'(1) r' \<open>reply x = Some r\<close> same_but_reply_fields [OF p'(2)] same_but_reply_fields(5) [OF xy]
      by (simp add: follow_parent_def)
  qed
qed

lemma set_jvals: "distinct (jkeys b) \<Longrightarrow> set (jvals b) = {m. \<exists>k. jget b k = Some m}"
  by (auto elim: jvals_jget dest: jget_in_jvals)

text \<open>
  C27. Clients converge: two stores that were shown the same messages, in whatever order,
  pages and multiplicity, display the same list, provided that copies of one version of a
  message differ at most in the preview of a replied-to message that is there too, and that the
  order is consistent and separates different messages. Without the first proviso
  \<open>first_copy_of_a_version_wins\<close> shows the contrary.
\<close>

theorem merge_messages_converge:
  assumes same: "set (concat gs) = set (concat hs)"
    and "versions_agree (set (concat gs))" and "strict_cmp p (set (concat gs))"
  shows "merge_messages p gs = merge_messages p hs"
proof -
  let ?b = "newest_by_id (concat gs)" and ?c = "newest_by_id (concat hs)" and ?ids = "msg_id ` set (concat gs)"
  have okb: "by_id_ok (set (concat gs)) ?b" and okc: "by_id_ok (set (concat hs)) ?c"
    by (rule newest_by_id_ok)+
  have rel: "jget ?b k = Some m \<Longrightarrow> \<exists>m'. jget ?c k = Some m' \<and> same_but_reply ?ids m m'" for k m
    by (rule newest_by_id_related [OF same assms(2)])
  have ler: "jget ?c k = Some m \<Longrightarrow> \<exists>m'. jget ?b k = Some m' \<and> same_but_reply ?ids m m'" for k m
    using newest_by_id_related [OF same [symmetric]] assms(2) same by simp
  have keys: "jget ?b k = None \<longleftrightarrow> k \<notin> ?ids" "jget ?c k = None \<longleftrightarrow> k \<notin> ?ids" for k
    using by_id_okD(2) [OF okb] by_id_okD(2) [OF okc] same by (simp_all only: jget_None_iff)
  have follow: "follow_parent ?b m = follow_parent ?c m'" if "same_but_reply ?ids m m'" for m m'
    by (rule follow_parent_related [OF rel keys that])
  have con: "consistent_cmp (cmp_messages p) (set (concat gs))"
    and strict: "\<And>x y. x \<in> set (concat gs) \<Longrightarrow> y \<in> set (concat gs) \<Longrightarrow> cmp_messages p x y \<le> 0 \<Longrightarrow>
      cmp_messages p y x \<le> 0 \<Longrightarrow> msg_id x = msg_id y"
    using assms(3) unfolding strict_cmp_def by blast+
  have "follow_parent ?b ` set (jvals ?b) = follow_parent ?c ` set (jvals ?c)"
  proof (rule set_eqI)
    fix z
    have "z \<in> follow_parent ?b ` set (jvals ?b) \<longleftrightarrow> (\<exists>k m. jget ?b k = Some m \<and> z = follow_parent ?b m)"
      using set_jvals [OF by_id_okD(1) [OF okb]] by blast
    also have "\<dots> \<longleftrightarrow> (\<exists>k m. jget ?c k = Some m \<and> z = follow_parent ?c m)"
      using rel ler follow same_but_reply_sym by metis
    also have "\<dots> \<longleftrightarrow> z \<in> follow_parent ?c ` set (jvals ?c)"
      using set_jvals [OF by_id_okD(1) [OF okc]] by blast
    finally show "z \<in> follow_parent ?b ` set (jvals ?b) \<longleftrightarrow> z \<in> follow_parent ?c ` set (jvals ?c)" .
  qed
  then have sets: "set (merge_messages p gs) = set (merge_messages p hs)"
    unfolding merge_messages_def Let_def set_js_sort set_map .
  have ordered: "sorted_wrt (\<lambda>a b. cmp_messages p a b \<le> 0) (merge_messages p hs)"
    by (rule merge_sorted) (use con same in simp)
  have anti: "a = b" if ab: "a \<in> set (merge_messages p gs)" "b \<in> set (merge_messages p gs)"
    and le: "cmp_messages p a b \<le> 0" "cmp_messages p b a \<le> 0" for a b
  proof -
    obtain a0 where a0: "a0 \<in> set (jvals ?b)" "a = follow_parent ?b a0" by (rule merge_elem [OF ab(1)])
    obtain b0 where b0: "b0 \<in> set (jvals ?b)" "b = follow_parent ?b b0" by (rule merge_elem [OF ab(2)])
    obtain k l where kl: "jget ?b k = Some a0" "jget ?b l = Some b0"
      using jvals_jget [OF by_id_okD(1) [OF okb]] a0(1) b0(1) by metis
    have "msg_id a0 = msg_id b0"
      by (rule strict) (use by_id_okD(4) [OF okb] kl le a0 b0 in auto)
    then have "k = l" using by_id_okD(3) [OF okb] kl by metis
    then show ?thesis using kl a0 b0 by simp
  qed
  show ?thesis
    by (rule sorted_wrt_unique [OF merge_sorted [OF con] ordered sets])
      (use anti in \<open>simp_all add: distinct_map [THEN iffD1, OF merge_ids(2), THEN conjunct1]\<close>)
qed

text \<open>Concrete instances.\<close>

definition sample_message :: "string \<Rightarrow> int \<Rightarrow> int \<Rightarrow> message" where
  "sample_message i q v = \<lparr>msg_id = i, room_id = ''r'',
     author = \<lparr>user_id = ''a'', user_name = ''Ann'', username = None, bio = None,
       profile_version = None, custom_status = None, status_version = None, avatar_url = None,
       character = None, email = None, presence_status = None\<rparr>,
     msg_body = ''hi'', created_at = ''t'', sequence = Some q, version = Some v, edited_at = None,
     deleted_at = None, mentions = None, reply = None, reactions = None, attachments = None,
     thread_root_id = None, thread_reply_count = None, thread_unread_count = None,
     pinned_at = None, pinned_by = None\<rparr>"

definition sample_env :: msg_env where
  "sample_env = \<lparr>date_parse = \<lambda>_. None, locale_compare = \<lambda>a b. of_bool (a \<noteq> b)\<rparr>"

lemma sample_consistent:
  "consistent_cmp (cmp_messages sample_env) {sample_message ''m'' 3 1, sample_message ''m'' 3 2, sample_message ''n'' 4 1}"
  by (simp add: consistent_cmp_def cmp_messages_def msg_key_def sample_env_def sample_message_def)

lemma sample_strict:
  "strict_cmp sample_env {sample_message ''m'' 3 1, sample_message ''m'' 3 2, sample_message ''n'' 4 1}"
  unfolding strict_cmp_def using sample_consistent
  by (simp add: cmp_messages_def msg_key_def sample_env_def sample_message_def)

lemma sample_agree:
  "versions_agree {sample_message ''m'' 3 1, sample_message ''m'' 3 2, sample_message ''n'' 4 1}"
  by (simp add: versions_agree_def same_but_reply_def sample_message_def ver_def)

theorem merge_messages_correct_witness:
  "set (map msg_id (merge_messages sample_env
     [[sample_message ''m'' 3 1], [sample_message ''m'' 3 2, sample_message ''n'' 4 1]])) = {''m'', ''n''}"
proof -
  have "consistent_cmp (cmp_messages sample_env)
      (set (concat [[sample_message ''m'' 3 1], [sample_message ''m'' 3 2, sample_message ''n'' 4 1]]))"
    using sample_consistent by simp
  from merge_messages_correct [OF this] show ?thesis
    by (simp add: sample_message_def)
qed

theorem merge_messages_idempotent_witness:
  "let ms = merge_messages sample_env [[sample_message ''m'' 3 1], [sample_message ''m'' 3 2, sample_message ''n'' 4 1]]
   in merge_messages sample_env [ms] = ms"
  using merge_messages_idempotent [of sample_env "[[sample_message ''m'' 3 1], [sample_message ''m'' 3 2, sample_message ''n'' 4 1]]"]
    sample_consistent by (simp add: Let_def)

theorem merge_messages_converge_witness:
  "merge_messages sample_env [[sample_message ''m'' 3 1], [sample_message ''m'' 3 2, sample_message ''n'' 4 1]] =
   merge_messages sample_env [[sample_message ''n'' 4 1, sample_message ''m'' 3 2], [sample_message ''m'' 3 1]]"
  by (rule merge_messages_converge) (use sample_agree sample_strict in \<open>auto simp: insert_commute\<close>)

text \<open>
  Of two different contents of one version the copy that comes first is displayed: the reply
  preview of a message whose parent is not loaded then depends on the order of the pages.
\<close>

theorem first_copy_of_a_version_wins:
  "let preview = (\<lambda>gone. \<lparr>reply_id = ''p'', reply_name = ''Ann'', reply_body = [], reply_deleted = gone\<rparr>);
       m = (\<lambda>gone. (sample_message ''m'' 3 1)\<lparr>reply := Some (preview gone)\<rparr>)
   in map reply (merge_messages sample_env [[m True], [m False]]) = [Some (preview True)] \<and>
     map reply (merge_messages sample_env [[m False], [m True]]) = [Some (preview False)]"
  by (simp add: merge_messages_def newest_by_id_def absorb_def follow_parent_def sample_message_def ver_def Let_def)

end
