(* ===== verification/MessageStore.thy ===== *)
theory MessageStore
  imports MessageMerge
begin

text \<open>
  The client's message store (\<open>features/chat/messageStore.ts\<close>).

  The module's variables are the record \<open>message_store\<close>. An async function is split at
  its awaits: \<open>..._begin\<close> runs to the first await and logs the request with the locals it
  captured, \<open>..._finish\<close> runs from the answer (a value or an error) to the next await or
  the end, \<open>catch\<close> and \<open>finally\<close> blocks included. Abort controllers are numbers and the
  aborted ones are listed; the cached profiles are a component of the state
  (\<open>profileSnapshot\<close>); listeners are only logged, by the number of the callback. A patch
  given to \<open>put\<close> is a record of options, \<open>None\<close> for a key the patch does not have; a key
  present with the value \<open>undefined\<close> is \<open>Some None\<close>. Each unsubscribe function runs once.
\<close>

section \<open>State\<close>

record conversation =
  messages :: "message list"
  anchor :: "message option"
  root :: "message option"
  pins :: "message list option"
  pin_updates :: "(string, message) jsmap option"
  threads :: "message list option"
  thread_before :: "string option"
  members :: "user list"
  before :: "string option"
  unread_boundary :: "int option"
  loading :: bool
  loading_older :: bool
  conversation_error :: string

definition empty_conversation :: conversation where
  "empty_conversation = \<lparr>messages = [], anchor = None, root = None, pins = None, pin_updates = None,
     threads = None, thread_before = None, members = [], before = None, unread_boundary = None,
     loading = False, loading_older = False, conversation_error = []\<rparr>"

record load_task =
  load_key :: string
  load_room :: string
  load_root :: "string option"
  load_older :: bool
  load_snapshot :: conversation
  load_controller :: nat
  load_generation :: nat

record catch_task =
  catch_key :: string
  catch_first :: int
  catch_cursor :: int
  catch_controller :: nat
  catch_generation :: nat

record jump_task =
  jump_key :: string
  jump_room :: string
  jump_message :: string
  jump_root :: "string option"
  jump_group :: nat
  jump_controller :: nat
  jump_generation :: nat

record list_task =
  list_room :: string
  list_older :: bool
  list_previous :: conversation
  list_controller :: nat
  list_generation :: nat

record read_task =
  read_room :: string
  read_key :: string
  read_up_to :: int
  read_message :: string
  read_generation :: nat

datatype message_request =
    Unread_request nat nat
  | Page_request load_task
  | Range_request catch_task
  | Anchor_request catch_task string
  | Jump_request jump_task
  | Pins_request list_task
  | Threads_request list_task
  | Read_request read_task

datatype message_notice = Notify_conversation string nat | Notify_unread nat | Notify_activity nat

record message_store =
  conversations :: "(string, conversation) jsmap"
  subscribers :: "(string, nat list) jsmap"
  pending :: "(string, nat) jsmap"
  list_pending :: "(string, nat) jsmap"
  jump_pending :: "(string, nat \<times> nat list) jsmap"
  unread_listeners :: "nat list"
  activity_listeners :: "nat list"
  unread :: "(string, room_unread) jsmap"
  room_activity :: "(string, string) jsmap"
  session_user :: "string option"
  generation :: nat
  unread_timer :: bool
  unread_request :: nat
  reading :: "(string, int) jsmap"
  aborted :: "nat list"
  fresh :: nat
  cached_profiles :: "(string, user) jsmap"
  requests :: "message_request list"
  notices :: "message_notice list"

definition conversation_key :: "string \<Rightarrow> string option \<Rightarrow> string" where
  "conversation_key room thread =
     (case thread of Some r \<Rightarrow> if r \<noteq> [] then room @ ''|'' @ r else room | None \<Rightarrow> room)"

text \<open>The first two parts of \<open>key.split('|')\<close>.\<close>

definition scope_parts :: "string \<Rightarrow> string \<times> string option" where
  "scope_parts key =
     (let rest = dropWhile (\<lambda>c. c \<noteq> CHR ''|'') key
      in (takeWhile (\<lambda>c. c \<noteq> CHR ''|'') key,
          if rest = [] then None else Some (takeWhile (\<lambda>c. c \<noteq> CHR ''|'') (tl rest))))"

definition snapshot :: "message_store \<Rightarrow> string \<Rightarrow> conversation" where
  "snapshot s key = nullish (jget (conversations s) key) empty_conversation"

definition request :: "message_request \<Rightarrow> message_store \<Rightarrow> message_store" where
  "request r s = s\<lparr>requests := requests s @ [r]\<rparr>"

definition notify :: "message_notice list \<Rightarrow> message_store \<Rightarrow> message_store" where
  "notify ns s = s\<lparr>notices := notices s @ ns\<rparr>"

definition notify_key :: "string \<Rightarrow> message_store \<Rightarrow> message_store" where
  "notify_key key s = notify (map (Notify_conversation key) (nullish (jget (subscribers s) key) [])) s"

definition abort :: "nat option \<Rightarrow> message_store \<Rightarrow> message_store" where
  "abort c s = (case c of None \<Rightarrow> s | Some n \<Rightarrow> s\<lparr>aborted := sadd n (aborted s)\<rparr>)"

definition abort_pending :: "string \<Rightarrow> message_store \<Rightarrow> message_store" where
  "abort_pending key s = abort (jget (pending s) key) s\<lparr>pending := jdel (pending s) key\<rparr>"

definition abort_list :: "string \<Rightarrow> message_store \<Rightarrow> message_store" where
  "abort_list key s = abort (jget (list_pending s) key) s\<lparr>list_pending := jdel (list_pending s) key\<rparr>"

definition cancel_jumps :: "(string \<Rightarrow> bool) \<Rightarrow> message_store \<Rightarrow> message_store" where
  "cancel_jumps matches s =
     fold (\<lambda>key s. if matches key
        then (fold (\<lambda>c. abort (Some c)) (snd (nullish (jget (jump_pending s) key) (0, []))) s)
               \<lparr>jump_pending := jdel (jump_pending s) key\<rparr>
        else s) (jkeys (jump_pending s)) s"

section \<open>\<open>put\<close>\<close>

record patch =
  p_messages :: "message list option"
  p_anchor :: "message option option"
  p_root :: "message option option"
  p_pins :: "message list option option"
  p_pin_updates :: "(string, message) jsmap option option"
  p_threads :: "message list option option"
  p_thread_before :: "string option option"
  p_members :: "user list option"
  p_before :: "string option option"
  p_unread_boundary :: "int option option"
  p_loading :: "bool option"
  p_loading_older :: "bool option"
  p_error :: "string option"

definition no_patch :: patch where
  "no_patch = \<lparr>p_messages = None, p_anchor = None, p_root = None, p_pins = None, p_pin_updates = None,
     p_threads = None, p_thread_before = None, p_members = None, p_before = None,
     p_unread_boundary = None, p_loading = None, p_loading_older = None, p_error = None\<rparr>"

definition or_old :: "'a option \<Rightarrow> 'a option \<Rightarrow> 'a option" where
  "or_old new old = (case new of None \<Rightarrow> old | Some v \<Rightarrow> Some v)"

text \<open>\<open>{ ...user, ...profile }\<close>.\<close>

definition spread_user :: "user \<Rightarrow> user \<Rightarrow> user" where
  "spread_user u v =
     \<lparr>user_id = user_id v, user_name = user_name v, username = or_old (username v) (username u),
      bio = or_old (bio v) (bio u), profile_version = or_old (profile_version v) (profile_version u),
      custom_status = or_old (custom_status v) (custom_status u),
      status_version = or_old (status_version v) (status_version u),
      avatar_url = or_old (avatar_url v) (avatar_url u), character = or_old (character v) (character u),
      email = or_old (email v) (email u), presence_status = or_old (presence_status v) (presence_status u)\<rparr>"

definition current_profile :: "(string, user) jsmap \<Rightarrow> user \<Rightarrow> user" where
  "current_profile ps u =
     (case jget ps (user_id u) of
        None \<Rightarrow> u
      | Some cached \<Rightarrow> if user_ver cached > user_ver u then spread_user u cached else u)"

definition current_message :: "(string, user) jsmap \<Rightarrow> message \<Rightarrow> message" where
  "current_message ps m = m\<lparr>author := current_profile ps (author m)\<rparr>"

definition normalized :: "msg_env \<Rightarrow> (string, user) jsmap \<Rightarrow> patch \<Rightarrow> patch" where
  "normalized p ps x =
     x\<lparr>p_messages := map_option (\<lambda>ms. merge_messages p [map (current_message ps) ms]) (p_messages x),
       p_members := map_option (map (current_profile ps)) (p_members x),
       p_anchor := map_option (map_option (current_message ps)) (p_anchor x),
       p_root := map_option (map_option (current_message ps)) (p_root x),
       p_pins := map_option (map_option (map (current_message ps))) (p_pins x),
       p_threads := map_option (map_option (map (current_message ps))) (p_threads x)\<rparr>"

definition apply_patch :: "patch \<Rightarrow> conversation \<Rightarrow> conversation" where
  "apply_patch x c =
     \<lparr>messages = nullish (p_messages x) (messages c), anchor = nullish (p_anchor x) (anchor c),
      root = nullish (p_root x) (root c), pins = nullish (p_pins x) (pins c),
      pin_updates = nullish (p_pin_updates x) (pin_updates c),
      threads = nullish (p_threads x) (threads c),
      thread_before = nullish (p_thread_before x) (thread_before c),
      members = nullish (p_members x) (members c), before = nullish (p_before x) (before c),
      unread_boundary = nullish (p_unread_boundary x) (unread_boundary c),
      loading = nullish (p_loading x) (loading c),
      loading_older = nullish (p_loading_older x) (loading_older c),
      conversation_error = nullish (p_error x) (conversation_error c)\<rparr>"

definition inactive :: "message_store \<Rightarrow> string list" where
  "inactive s = filter (\<lambda>key. \<not> jhas (subscribers s) key) (jkeys (conversations s))"

definition evict :: "string \<Rightarrow> message_store \<Rightarrow> message_store" where
  "evict key s = abort_pending key s\<lparr>conversations := jdel (conversations s) key\<rparr>"

definition evict_inactive :: "message_store \<Rightarrow> message_store" where
  "evict_inactive s = fold evict (take (length (inactive s) - 12) (inactive s)) s"

definition put :: "msg_env \<Rightarrow> string \<Rightarrow> patch \<Rightarrow> message_store \<Rightarrow> message_store" where
  "put p key x s =
     notify_key key (evict_inactive (s\<lparr>conversations := jset (conversations s) key
       (apply_patch (normalized p (cached_profiles s) x) (snapshot s key))\<rparr>))"

section \<open>Subscriptions and profiles\<close>

definition subscribe_conversation :: "string \<Rightarrow> string option \<Rightarrow> nat \<Rightarrow> message_store \<Rightarrow> message_store" where
  "subscribe_conversation room thread l s =
     (let key = conversation_key room thread
      in s\<lparr>subscribers := jset (subscribers s) key (sadd l (nullish (jget (subscribers s) key) []))\<rparr>)"

definition unsubscribe_conversation ::
  "msg_env \<Rightarrow> string \<Rightarrow> string option \<Rightarrow> nat \<Rightarrow> message_store \<Rightarrow> message_store" where
  "unsubscribe_conversation p room thread l s =
     (let key = conversation_key room thread;
          listeners = sdel l (nullish (jget (subscribers s) key) [])
      in if listeners \<noteq> [] then s\<lparr>subscribers := jset (subscribers s) key listeners\<rparr>
         else
           let s = abort_pending key (s\<lparr>subscribers := jdel (subscribers s) key\<rparr>);
               s = cancel_jumps (\<lambda>k. k = key) s;
               (base, thread_part) = scope_parts key;
               s = (if nonempty thread_part then s
                    else abort_list (base @ ''#threads'') (abort_list (base @ ''#pins'') s))
           in case jget (conversations s) key of
                Some c \<Rightarrow> if loading c \<or> loading_older c
                          then put p key (no_patch\<lparr>p_loading := Some False, p_loading_older := Some False\<rparr>) s
                          else s
              | None \<Rightarrow> s)"

definition profile_differs :: "(string, user) jsmap \<Rightarrow> user \<Rightarrow> bool" where
  "profile_differs ps u =
     (case jget ps (user_id u) of
        None \<Rightarrow> False
      | Some v \<Rightarrow> \<not> (user_ver v < user_ver u \<or>
          (user_name u = user_name v \<and> avatar_url u = avatar_url v \<and> username u = username v \<and>
           bio u = bio v \<and> profile_version u = profile_version v)))"

definition updated_user :: "(string, user) jsmap \<Rightarrow> user \<Rightarrow> user" where
  "updated_user ps u =
     (if profile_differs ps u then spread_user u (nullish (jget ps (user_id u)) u) else u)"

definition updated_message :: "(string, user) jsmap \<Rightarrow> message \<Rightarrow> message" where
  "updated_message ps m = m\<lparr>author := updated_user ps (author m)\<rparr>"

definition conversation_users :: "conversation \<Rightarrow> user list" where
  "conversation_users c =
     map author (messages c) @ members c @
     (case anchor c of None \<Rightarrow> [] | Some m \<Rightarrow> [author m]) @
     (case root c of None \<Rightarrow> [] | Some m \<Rightarrow> [author m]) @
     map author (nullish (pins c) []) @ map author (nullish (threads c) [])"

text \<open>The loop runs over the live map: a conversation that a \<open>put\<close> evicted is not visited.\<close>

definition refresh_profile_of :: "msg_env \<Rightarrow> string \<Rightarrow> message_store \<Rightarrow> message_store" where
  "refresh_profile_of p key s =
     (case jget (conversations s) key of
        None \<Rightarrow> s
      | Some c \<Rightarrow>
          (let ps = cached_profiles s
           in if list_ex (profile_differs ps) (conversation_users c)
              then put p key (no_patch
                \<lparr>p_messages := Some (merge_messages p [map (updated_message ps) (messages c)]),
                 p_members := Some (map (updated_user ps) (members c)),
                 p_anchor := Some (map_option (updated_message ps) (anchor c)),
                 p_root := Some (map_option (updated_message ps) (root c)),
                 p_pins := Some (map_option (map (updated_message ps)) (pins c)),
                 p_threads := Some (map_option (map (updated_message ps)) (threads c))\<rparr>) s
              else s))"

definition refresh_cached_profiles :: "msg_env \<Rightarrow> message_store \<Rightarrow> message_store" where
  "refresh_cached_profiles p s = fold (refresh_profile_of p) (jkeys (conversations s)) s"

section \<open>Access, unread counts and the session\<close>

definition put_unread :: "(string, room_unread) jsmap \<Rightarrow> message_store \<Rightarrow> message_store" where
  "put_unread u s = notify (map Notify_unread (unread_listeners s)) (s\<lparr>unread := u\<rparr>)"

definition in_room :: "string \<Rightarrow> string \<Rightarrow> bool" where
  "in_room room key = (fst (scope_parts key) = room)"

definition empty_denied :: "api_error \<Rightarrow> string \<Rightarrow> message_store \<Rightarrow> message_store" where
  "empty_denied e key s =
     notify_key key (s\<lparr>conversations := jset (conversations s) key
       (empty_conversation\<lparr>conversation_error := error_text e ''Conversation is unavailable''\<rparr>)\<rparr>)"

definition discard_room_access :: "string \<Rightarrow> api_error \<Rightarrow> message_store \<Rightarrow> message_store" where
  "discard_room_access room e s =
     (let s = fold abort_pending (filter (in_room room) (jkeys (pending s))) s;
          s = cancel_jumps (in_room room) s;
          s = abort_list (room @ ''#threads'') (abort_list (room @ ''#pins'') s);
          keys = fold sadd (jkeys (conversations s) @ jkeys (subscribers s) @ [room]) [];
          s = fold (empty_denied e) (filter (in_room room) keys) s;
          s = s\<lparr>reading := filter (\<lambda>r. \<not> in_room room (fst r)) (reading s)\<rparr>;
          s = (if jhas (unread s) room then put_unread (jdel (unread s) room) s else s)
      in if nonempty (jget (room_activity s) room)
         then notify (map Notify_activity (activity_listeners s))
                (s\<lparr>room_activity := jdel (room_activity s) room\<rparr>)
         else s)"

definition refresh_unread_begin :: "message_store \<Rightarrow> message_store" where
  "refresh_unread_begin s =
     (if \<not> nonempty (session_user s) then s
      else let s = s\<lparr>unread_request := Suc (unread_request s)\<rparr>
           in request (Unread_request (generation s) (unread_request s)) s)"

definition refresh_unread_finish ::
  "nat \<Rightarrow> nat \<Rightarrow> api_error + room_unread list \<Rightarrow> message_store \<Rightarrow> message_store" where
  "refresh_unread_finish g n result s =
     (case result of
        Inl _ \<Rightarrow> s
      | Inr rooms \<Rightarrow> if generation s = g \<and> n = unread_request s
                    then put_unread (fold (\<lambda>r m. jset m (unread_room r) r) rooms []) s else s)"

definition schedule_unread :: "message_store \<Rightarrow> message_store" where
  "schedule_unread s = s\<lparr>unread_timer := True\<rparr>"

definition unread_timer_fires :: "message_store \<Rightarrow> message_store" where
  "unread_timer_fires s =
     (if unread_timer s then refresh_unread_begin (s\<lparr>unread_timer := False\<rparr>) else s)"

definition start_messaging_session :: "string \<Rightarrow> message_store \<Rightarrow> message_store" where
  "start_messaging_session u s =
     (let s = cancel_jumps (\<lambda>_. True) (s\<lparr>generation := Suc (generation s), session_user := Some u\<rparr>);
          s = put_unread [] (s\<lparr>conversations := [], reading := []\<rparr>)
      in refresh_unread_begin (s\<lparr>room_activity := []\<rparr>))"

definition stop_messaging_session :: "message_store \<Rightarrow> message_store" where
  "stop_messaging_session s =
     (let s = s\<lparr>generation := Suc (generation s), session_user := None\<rparr>;
          s = fold (\<lambda>c. abort (Some c)) (jvals (pending s)) s\<lparr>pending := []\<rparr>;
          s = fold (\<lambda>c. abort (Some c)) (jvals (list_pending s)) s\<lparr>list_pending := []\<rparr>;
          s = cancel_jumps (\<lambda>_. True) s;
          s = put_unread [] (s\<lparr>conversations := [], unread_timer := False\<rparr>)
      in notify (map Notify_activity (activity_listeners s)) (s\<lparr>room_activity := []\<rparr>))"

section \<open>Loading a conversation\<close>

definition is_aborted :: "message_store \<Rightarrow> nat \<Rightarrow> bool" where
  "is_aborted s c = (c \<in> set (aborted s))"

definition new_controller :: "message_store \<Rightarrow> nat \<times> message_store" where
  "new_controller s = (fresh s, s\<lparr>fresh := Suc (fresh s)\<rparr>)"

definition load_begin ::
  "msg_env \<Rightarrow> string \<Rightarrow> bool \<Rightarrow> string option \<Rightarrow> message_store \<Rightarrow> message_store" where
  "load_begin p room older thread s =
     (let key = conversation_key room thread; snap = snapshot s key
      in if \<not> nonempty (session_user s) \<or> jhas (pending s) key \<or> (older \<and> \<not> nonempty (before snap)) then s
         else
           let (c, s) = new_controller s;
               s = s\<lparr>pending := jset (pending s) key c\<rparr>;
               g = generation s;
               s = put p key (if older then no_patch\<lparr>p_error := Some [], p_loading_older := Some True\<rparr>
                              else no_patch\<lparr>p_error := Some [], p_loading := Some True\<rparr>) s
           in request (Page_request \<lparr>load_key = key, load_room = room, load_root = thread,
                load_older = older, load_snapshot = snap, load_controller = c, load_generation = g\<rparr>) s)"

text \<open>The body of \<open>try\<close> after the page and, when they were asked for, the members arrived.\<close>

definition load_success :: "msg_env \<Rightarrow> load_task \<Rightarrow> message_page \<Rightarrow> user list \<Rightarrow> message_store \<Rightarrow> message_store" where
  "load_success p t page fetched s =
     (let key = load_key t; snap = load_snapshot t; now = snapshot s key
      in if generation s \<noteq> load_generation t \<or> is_aborted s (load_controller t) then s
         else put p key (no_patch
           \<lparr>p_messages := Some (merge_messages p [messages now, page_messages page]),
            p_members := Some (if load_older t \<or> members snap \<noteq> [] then members snap else fetched),
            p_root := Some (if opt_ver (root now) > opt_ver (page_root page) then root now else page_root page),
            p_before := Some (if load_older t \<or> messages snap = [] then page_before_id page else before snap),
            p_unread_boundary := Some (if load_older t then unread_boundary snap
              else or_old (unread_boundary snap) (page_read_sequence page))\<rparr>) s)"

definition load_failure :: "msg_env \<Rightarrow> load_task \<Rightarrow> api_error \<Rightarrow> message_store \<Rightarrow> message_store" where
  "load_failure p t e s =
     (let s = (if generation s = load_generation t \<and> \<not> is_aborted s (load_controller t)
               then if access_denied e then discard_room_access (load_room t) e s
                    else if has_status e 404
                    then s\<lparr>conversations := jset (conversations s) (load_key t) empty_conversation\<rparr>
                    else s
               else s)
      in if \<not> is_aborted s (load_controller t) \<and> generation s = load_generation t
         then put p (load_key t) (no_patch\<lparr>p_error := Some (error_text e ''Could not load messages'')\<rparr>) s
         else s)"

definition drop_pending :: "string \<Rightarrow> nat \<Rightarrow> message_store \<Rightarrow> message_store" where
  "drop_pending key c s =
     (if jget (pending s) key = Some c then s\<lparr>pending := jdel (pending s) key\<rparr> else s)"

definition load_finish ::
  "msg_env \<Rightarrow> load_task \<Rightarrow> api_error + (message_page \<times> user list) \<Rightarrow> message_store \<Rightarrow> message_store" where
  "load_finish p t result s =
     (let s = (case result of Inl e \<Rightarrow> load_failure p t e s
                | Inr (page, fetched) \<Rightarrow> load_success p t page fetched s);
          s = drop_pending (load_key t) (load_controller t) s
      in if generation s = load_generation t \<and> \<not> is_aborted s (load_controller t)
         then put p (load_key t) (no_patch\<lparr>p_loading := Some False, p_loading_older := Some False\<rparr>) s
         else s)"

section \<open>Receiving an event\<close>

definition receive_activity :: "msg_env \<Rightarrow> message \<Rightarrow> message_store \<Rightarrow> message_store" where
  "receive_activity p m s =
     (let seen = jget (room_activity s) (room_id m)
      in if \<not> nonempty seen \<or> num_gt (date_parse p (created_at m)) (date_parse p (nullish seen []))
         then notify (map Notify_activity (activity_listeners s))
                (s\<lparr>room_activity := jset (room_activity s) (room_id m) (created_at m)\<rparr>)
         else s)"

definition receive_conversation :: "msg_env \<Rightarrow> message \<Rightarrow> message_store \<Rightarrow> message_store" where
  "receive_conversation p m s =
     (let key = conversation_key (room_id m) (thread_root_id m)
      in case jget (conversations s) key of
           None \<Rightarrow> s
         | Some c \<Rightarrow>
             (let first = (case messages c of [] \<Rightarrow> 0 | m0 # _ \<Rightarrow> nullish (sequence m0) 0);
                  in_range = (nullish (sequence m) 0 \<ge> first \<or> list_ex (\<lambda>x. msg_id x = msg_id m) (messages c))
              in put p key (no_patch
                \<lparr>p_messages := Some (filter (\<lambda>x. in_range \<or> msg_id x \<noteq> msg_id m)
                   (merge_messages p [messages c, [m]])),
                 p_anchor := Some (case anchor c of None \<Rightarrow> None
                   | Some a \<Rightarrow> find (\<lambda>x. msg_id x = msg_id a) (merge_messages p [[a], messages c, [m]]))\<rparr>) s))"

definition receive_thread_root :: "msg_env \<Rightarrow> message \<Rightarrow> message_store \<Rightarrow> message_store" where
  "receive_thread_root p m s =
     (let key = conversation_key (room_id m) (Some (msg_id m))
      in case jget (conversations s) key of
           None \<Rightarrow> s
         | Some c \<Rightarrow> if ver m \<ge> opt_ver (root c) then put p key (no_patch\<lparr>p_root := Some (Some m)\<rparr>) s else s)"

definition receive_threads :: "msg_env \<Rightarrow> message \<Rightarrow> conversation option \<Rightarrow> message_store \<Rightarrow> message_store" where
  "receive_threads p m main s =
     (case Option.bind main threads of
        None \<Rightarrow> s
      | Some ts \<Rightarrow>
          if nonempty (thread_root_id m) then s
          else put p (room_id m) (no_patch\<lparr>p_threads := Some (Some
            (if \<not> list_ex (\<lambda>x. msg_id x = msg_id m) ts \<and> nullish (thread_reply_count m) 0 \<noteq> 0 then m # ts
             else map (\<lambda>x. if msg_id x = msg_id m \<and> ver m \<ge> ver x
                           then m\<lparr>thread_unread_count := thread_unread_count x\<rparr> else x) ts))\<rparr>) s)"

definition shown_pin :: "message \<Rightarrow> bool" where
  "shown_pin m = (nonempty (pinned_at m) \<and> \<not> nonempty (deleted_at m))"

definition cmp_pins :: "msg_env \<Rightarrow> message \<Rightarrow> message \<Rightarrow> int" where
  "cmp_pins p a b =
     num_or (num_minus (date_parse p (nullish (pinned_at b) [])) (date_parse p (nullish (pinned_at a) []))) 0"

definition trim_updates :: "(string, message) jsmap \<Rightarrow> (string, message) jsmap" where
  "trim_updates u = fold (\<lambda>k m. jdel m k) (take (length (jkeys u) - 100) (jkeys u)) u"

definition receive_pins :: "msg_env \<Rightarrow> message \<Rightarrow> conversation option \<Rightarrow> message_store \<Rightarrow> message_store" where
  "receive_pins p m main s =
     (case main of
        None \<Rightarrow> s
      | Some c \<Rightarrow>
          (case pins c of
             None \<Rightarrow> s
           | Some ps \<Rightarrow>
               (let updates = nullish (pin_updates c) []
                in if (case jget updates (msg_id m) of None \<Rightarrow> False | Some u \<Rightarrow> ver u > ver m) then s
                   else put p (room_id m) (no_patch
                     \<lparr>p_pins := Some (Some (js_sort (cmp_pins p)
                        (filter (\<lambda>x. msg_id x \<noteq> msg_id m \<or> shown_pin m)
                          (merge_messages p [ps, if shown_pin m then [m] else []])))),
                      p_pin_updates := Some (Some (trim_updates (jset updates (msg_id m) m)))\<rparr>) s)))"

text \<open>
  \<open>main\<close> is read once, before the thread list and the pins are updated. The early return
  for a pin update that is already newer also schedules the unread refresh.
\<close>

definition receive_message :: "msg_env \<Rightarrow> string \<Rightarrow> message \<Rightarrow> message_store \<Rightarrow> message_store" where
  "receive_message p u m s =
     (if Some u \<noteq> session_user s then s
      else
        let s = receive_thread_root p m (receive_conversation p m (receive_activity p m s));
            main = jget (conversations s) (room_id m)
        in schedule_unread (receive_pins p m main (receive_threads p m main s)))"

text \<open>\<open>writeMessage\<close>, \<open>deleteMessage\<close>, \<open>reactMessage\<close>, \<open>pinMessage\<close> after the answer.\<close>

definition mutation_finish :: "msg_env \<Rightarrow> nat \<Rightarrow> api_error + message \<Rightarrow> message_store \<Rightarrow> message_store" where
  "mutation_finish p g result s =
     (case (result, session_user s) of
        (Inr m, Some u) \<Rightarrow> if generation s = g \<and> u \<noteq> [] then receive_message p u m s else s
      | _ \<Rightarrow> s)"

section \<open>Pins, threads, read position\<close>

definition pins_begin :: "msg_env \<Rightarrow> string \<Rightarrow> message_store \<Rightarrow> message_store" where
  "pins_begin p room s =
     (let g = generation s;
          s = abort (jget (list_pending s) (room @ ''#pins'')) s;
          (c, s) = new_controller s;
          s = s\<lparr>list_pending := jset (list_pending s) (room @ ''#pins'') c\<rparr>;
          s = (if pins (snapshot s room) = None
               then put p room (no_patch\<lparr>p_pins := Some (Some []), p_pin_updates := Some (Some [])\<rparr>) s else s)
      in request (Pins_request \<lparr>list_room = room, list_older = False, list_previous = snapshot s room,
           list_controller = c, list_generation = g\<rparr>) s)"

definition drop_list :: "string \<Rightarrow> nat \<Rightarrow> message_store \<Rightarrow> message_store" where
  "drop_list key c s =
     (if jget (list_pending s) key = Some c then s\<lparr>list_pending := jdel (list_pending s) key\<rparr> else s)"

definition with_updates :: "(string, message) jsmap \<Rightarrow> message list \<Rightarrow> message list" where
  "with_updates updates ms =
     jvals (fold (\<lambda>u b. if ver u \<ge> opt_ver (jget b (msg_id u)) then jset b (msg_id u) u else b)
       (jvals updates) (fold (\<lambda>m b. jset b (msg_id m) m) ms []))"

definition pins_finish ::
  "msg_env \<Rightarrow> list_task \<Rightarrow> api_error + message list \<Rightarrow> message_store \<Rightarrow> message_store" where
  "pins_finish p t result s =
     (let live = (list_generation t = generation s \<and> \<not> is_aborted s (list_controller t));
          s = (case result of
              Inr ms \<Rightarrow> if live
                then put p (list_room t) (no_patch\<lparr>p_pins := Some (Some (js_sort (cmp_pins p)
                  (filter shown_pin (with_updates (nullish (pin_updates (snapshot s (list_room t))) []) ms))))\<rparr>) s
                else s
            | Inl e \<Rightarrow> if live \<and> access_denied e then discard_room_access (list_room t) e s else s)
      in drop_list (list_room t @ ''#pins'') (list_controller t) s)"

definition threads_begin :: "string \<Rightarrow> bool \<Rightarrow> message_store \<Rightarrow> message_store" where
  "threads_begin room older s =
     (let g = generation s;
          s = abort (jget (list_pending s) (room @ ''#threads'')) s;
          (c, s) = new_controller s;
          s = s\<lparr>list_pending := jset (list_pending s) (room @ ''#threads'') c\<rparr>
      in request (Threads_request \<lparr>list_room = room, list_older = older, list_previous = snapshot s room,
           list_controller = c, list_generation = g\<rparr>) s)"

definition threads_finish ::
  "msg_env \<Rightarrow> list_task \<Rightarrow> api_error + message_page \<Rightarrow> message_store \<Rightarrow> message_store" where
  "threads_finish p t result s =
     (let live = (list_generation t = generation s \<and> \<not> is_aborted s (list_controller t));
          s = (case result of
              Inr page \<Rightarrow> if live
                then put p (list_room t) (no_patch
                  \<lparr>p_threads := Some (Some (if list_older t
                     then nullish (threads (list_previous t)) [] @ page_messages page else page_messages page)),
                   p_thread_before := Some (page_before_id page)\<rparr>) s
                else s
            | Inl e \<Rightarrow> if live \<and> access_denied e then discard_room_access (list_room t) e s else s)
      in drop_list (list_room t @ ''#threads'') (list_controller t) s)"

definition read_boundary :: "message_store \<Rightarrow> string \<Rightarrow> string option \<Rightarrow> int" where
  "read_boundary s room thread =
     (if nonempty thread then nullish (unread_boundary (snapshot s (conversation_key room thread))) 0
      else case jget (unread s) room of None \<Rightarrow> 0 | Some u \<Rightarrow> read_sequence u)"

definition mark_read_begin :: "string \<Rightarrow> message \<Rightarrow> string option \<Rightarrow> message_store \<Rightarrow> message_store" where
  "mark_read_begin room m thread s =
     (let key = conversation_key room thread; n = nullish (sequence m) 0
      in if \<not> nonempty (session_user s) \<or> n \<le> read_boundary s room thread \<or> n \<le> nullish (jget (reading s) key) 0
         then s
         else request (Read_request \<lparr>read_room = room, read_key = key, read_up_to = n,
                read_message = msg_id m, read_generation = generation s\<rparr>)
                (s\<lparr>reading := jset (reading s) key n\<rparr>))"

definition mark_read_finish ::
  "msg_env \<Rightarrow> read_task \<Rightarrow> api_error + unit \<Rightarrow> message_store \<Rightarrow> message_store" where
  "mark_read_finish p t result s =
     (let s = (case result of
            Inl _ \<Rightarrow> s
          | Inr _ \<Rightarrow> if generation s = read_generation t
              then refresh_unread_begin (if jhas (conversations s) (read_key t)
                then put p (read_key t) (no_patch\<lparr>p_unread_boundary := Some (Some
                  (max (nullish (unread_boundary (snapshot s (read_key t))) 0) (read_up_to t)))\<rparr>) s
                else s)
              else s)
      in if jget (reading s) (read_key t) = Some (read_up_to t)
         then s\<lparr>reading := jdel (reading s) (read_key t)\<rparr> else s)"

section \<open>Jumping to a message\<close>

text \<open>
  A set of controllers in \<open>jumpPending\<close> has an identity (\<open>jump_group\<close>): the \<open>finally\<close>
  block deletes from the set it captured, which is unreachable once it left the map.
\<close>

definition jump_begin :: "string \<Rightarrow> string \<Rightarrow> string option \<Rightarrow> message_store \<Rightarrow> message_store" where
  "jump_begin room mid thread s =
     (let key = conversation_key room thread;
          (c, s) = new_controller s;
          (grp, cs, s) = (case jget (jump_pending s) key of
              Some (grp, cs) \<Rightarrow> (grp, cs, s)
            | None \<Rightarrow> (fresh s, [], s\<lparr>fresh := Suc (fresh s)\<rparr>));
          s = s\<lparr>jump_pending := jset (jump_pending s) key (grp, sadd c cs)\<rparr>
      in request (Jump_request \<lparr>jump_key = key, jump_room = room, jump_message = mid, jump_root = thread,
           jump_group = grp, jump_controller = c, jump_generation = generation s\<rparr>) s)"

definition jump_success :: "msg_env \<Rightarrow> jump_task \<Rightarrow> message \<Rightarrow> message_store \<Rightarrow> message option \<times> message_store" where
  "jump_success p t m s =
     (let key = jump_key t; c = snapshot s key
      in if generation s \<noteq> jump_generation t \<or> is_aborted s (jump_controller t) then (None, s)
         else if thread_root_id m \<noteq> jump_root t then (Some m, s)
         else if list_ex (\<lambda>x. msg_id x = jump_message t) (messages c)
         then (Some m, put p key (no_patch\<lparr>p_messages := Some (merge_messages p [messages c, [m]]),
                p_anchor := Some None\<rparr>) s)
         else (Some m, put p key (no_patch\<lparr>p_anchor := Some (Some m)\<rparr>) s))"

definition jump_finish ::
  "msg_env \<Rightarrow> jump_task \<Rightarrow> api_error + message \<Rightarrow> message_store \<Rightarrow>
   (api_error + message option) \<times> message_store" where
  "jump_finish p t result s =
     (let (r, s) = (case result of
            Inr m \<Rightarrow> (case jump_success p t m s of (r, s) \<Rightarrow> (Inr r, s))
          | Inl e \<Rightarrow>
              if generation s \<noteq> jump_generation t \<or> is_aborted s (jump_controller t) then (Inr None, s)
              else (Inl e, if access_denied e then discard_room_access (jump_room t) e s else s))
      in (r, case jget (jump_pending s) (jump_key t) of
             Some (grp, cs) \<Rightarrow>
               if grp \<noteq> jump_group t then s
               else if sdel (jump_controller t) cs = []
               then s\<lparr>jump_pending := jdel (jump_pending s) (jump_key t)\<rparr>
               else s\<lparr>jump_pending := jset (jump_pending s) (jump_key t) (grp, sdel (jump_controller t) cs)\<rparr>
           | None \<Rightarrow> s))"

section \<open>Reconciling after a reconnect\<close>

definition catch_up_begin :: "msg_env \<Rightarrow> string \<Rightarrow> message_store \<Rightarrow> message_store" where
  "catch_up_begin p key s =
     (if \<not> nonempty (session_user s) \<or> jhas (pending s) key then s
      else
        let first = (case messages (snapshot s key) of [] \<Rightarrow> 0 | m # _ \<Rightarrow> nullish (sequence m) 0)
        in if first = 0 then load_begin p (fst (scope_parts key)) False (snd (scope_parts key)) s
           else
             let (c, s) = new_controller s
             in request (Range_request \<lparr>catch_key = key, catch_first = first, catch_cursor = first - 1,
                  catch_controller = c, catch_generation = generation s\<rparr>)
                  (s\<lparr>pending := jset (pending s) key c\<rparr>))"

definition catch_live :: "catch_task \<Rightarrow> message_store \<Rightarrow> bool" where
  "catch_live t s = (\<not> is_aborted s (catch_controller t) \<and> generation s = catch_generation t)"

text \<open>After the loop: a distant anchor is reloaded on its own.\<close>

definition catch_up_tail :: "catch_task \<Rightarrow> message_store \<Rightarrow> message_store" where
  "catch_up_tail t s =
     (case anchor (snapshot s (catch_key t)) of
        Some a \<Rightarrow>
          if nullish (sequence a) 0 < catch_first t then request (Anchor_request t (msg_id a)) s
          else drop_pending (catch_key t) (catch_controller t) s
      | None \<Rightarrow> drop_pending (catch_key t) (catch_controller t) s)"

definition catch_up_failure :: "msg_env \<Rightarrow> catch_task \<Rightarrow> api_error \<Rightarrow> message_store \<Rightarrow> message_store" where
  "catch_up_failure p t e s =
     drop_pending (catch_key t) (catch_controller t)
       (if catch_live t s
        then if access_denied e then discard_room_access (fst (scope_parts (catch_key t))) e s
             else put p (catch_key t) (no_patch\<lparr>p_error := Some (error_text e ''Could not reconcile messages'')\<rparr>) s
        else s)"

text \<open>One page of the loop: it asks for the next one only when the server has more.\<close>

definition catch_up_page ::
  "msg_env \<Rightarrow> catch_task \<Rightarrow> api_error + message_page \<Rightarrow> message_store \<Rightarrow> message_store" where
  "catch_up_page p t result s =
     (case result of
        Inl e \<Rightarrow> catch_up_failure p t e s
      | Inr page \<Rightarrow>
          if \<not> catch_live t s then drop_pending (catch_key t) (catch_controller t) s
          else if page_messages page = [] then catch_up_tail t s
          else
            let s = put p (catch_key t) (no_patch
                  \<lparr>p_messages := Some (merge_messages p [messages (snapshot s (catch_key t)), page_messages page]),
                   p_root := Some (page_root page)\<rparr>) s;
                t = t\<lparr>catch_cursor := nullish (sequence (last (page_messages page))) (catch_cursor t)\<rparr>
            in if nonempty (page_before_id page) then request (Range_request t) s else catch_up_tail t s)"

definition catch_up_anchor ::
  "msg_env \<Rightarrow> catch_task \<Rightarrow> api_error + message \<Rightarrow> message_store \<Rightarrow> message_store" where
  "catch_up_anchor p t result s =
     (case result of
        Inl e \<Rightarrow> catch_up_failure p t e s
      | Inr m \<Rightarrow> drop_pending (catch_key t) (catch_controller t)
          (if catch_live t s then put p (catch_key t) (no_patch\<lparr>p_anchor := Some (Some m)\<rparr>) s else s))"

text \<open>The body of the loop over the subscribed conversations.\<close>

definition reconcile_key ::
  "msg_env \<Rightarrow> bool \<Rightarrow> (string, bool \<times> bool) jsmap \<Rightarrow> string \<Rightarrow> message_store \<Rightarrow> message_store" where
  "reconcile_key p reset opened key s =
     (let (base, thread) = scope_parts key;
          (had_pins, had_threads) = nullish (jget opened key) (False, False);
          s = (if reset \<or> messages (snapshot s key) = []
               then load_begin p base False thread (put p key
                 \<lparr>p_messages = Some [], p_anchor = None, p_root = None,
                  p_pins = (if had_pins then Some (Some []) else None),
                  p_pin_updates = (if had_pins then Some (Some []) else None),
                  p_threads = (if had_threads then Some (Some []) else None),
                  p_thread_before = (if had_threads then Some None else None),
                  p_members = Some [], p_before = None, p_unread_boundary = None,
                  p_loading = Some False, p_loading_older = Some False, p_error = Some []\<rparr> s)
               else catch_up_begin p key s);
          s = (if \<not> nonempty thread \<and> pins (snapshot s key) \<noteq> None then pins_begin p base s else s)
      in if \<not> nonempty thread \<and> threads (snapshot s key) \<noteq> None then threads_begin base False s else s)"

definition reconcile_messaging :: "msg_env \<Rightarrow> string \<Rightarrow> bool \<Rightarrow> message_store \<Rightarrow> message_store" where
  "reconcile_messaging p u reset s =
     (if Some u \<noteq> session_user s then s
      else
        let s = refresh_unread_begin s;
            s = fold (\<lambda>c. abort (Some c)) (jvals (pending s)) s\<lparr>pending := []\<rparr>;
            s = fold (\<lambda>c. abort (Some c)) (jvals (list_pending s)) s\<lparr>list_pending := []\<rparr>;
            s = cancel_jumps (\<lambda>_. True) s;
            opened = jmap (\<lambda>_ c. (pins c \<noteq> None, threads c \<noteq> None)) (conversations s);
            s = (if reset then s\<lparr>conversations := []\<rparr>
                 else s\<lparr>conversations := filter (\<lambda>e. jhas (subscribers s) (fst e)) (conversations s)\<rparr>)
        in fold (reconcile_key p reset opened) (jkeys (subscribers s)) s)"

section \<open>What \<open>put\<close> does to the conversations\<close>

lemma evict_simps [simp]:
  "conversations (evict k s) = jdel (conversations s) k"
  "subscribers (evict k s) = subscribers s"
  "cached_profiles (evict k s) = cached_profiles s"
  "generation (evict k s) = generation s" "session_user (evict k s) = session_user s"
  "unread (evict k s) = unread s" "room_activity (evict k s) = room_activity s"
  by (simp_all add: evict_def abort_pending_def abort_def split: option.split)

lemma fold_evict_simps [simp]:
  "conversations (fold evict ks s) = fold (\<lambda>k m. jdel m k) ks (conversations s)"
  "subscribers (fold evict ks s) = subscribers s"
  "cached_profiles (fold evict ks s) = cached_profiles s"
  "generation (fold evict ks s) = generation s" "session_user (fold evict ks s) = session_user s"
  "unread (fold evict ks s) = unread s" "room_activity (fold evict ks s) = room_activity s"
  by (induction ks arbitrary: s) auto

definition put_map :: "msg_env \<Rightarrow> string \<Rightarrow> patch \<Rightarrow> message_store \<Rightarrow> (string, conversation) jsmap" where
  "put_map p key x s = jset (conversations s) key
     (apply_patch (normalized p (cached_profiles s) x) (snapshot s key))"

lemma put_simps [simp]:
  "subscribers (put p key x s) = subscribers s"
  "cached_profiles (put p key x s) = cached_profiles s"
  "generation (put p key x s) = generation s" "session_user (put p key x s) = session_user s"
  "unread (put p key x s) = unread s" "room_activity (put p key x s) = room_activity s"
  by (simp_all add: put_def notify_key_def notify_def evict_inactive_def)

lemma conversations_put:
  "conversations (put p key x s) =
     (let m = put_map p key x s; ks = filter (\<lambda>k. \<not> jhas (subscribers s) k) (jkeys m)
      in fold (\<lambda>k m. jdel m k) (take (length ks - 12) ks) m)"
  by (simp add: put_def notify_key_def notify_def evict_inactive_def inactive_def put_map_def Let_def)

lemma jget_put_subscribed:
  "jhas (subscribers s) k \<Longrightarrow> jget (conversations (put p key x s)) k = jget (put_map p key x s) k"
  unfolding conversations_put Let_def by (rule js.trim_keeps) simp

lemma jget_put_cases:
  "jget (conversations (put p key x s)) k = None \<or>
   jget (conversations (put p key x s)) k = jget (put_map p key x s) k"
  by (simp add: conversations_put Let_def js.get_fold_del)

lemma distinct_store_put:
  "distinct (jkeys (conversations s)) \<Longrightarrow> distinct (jkeys (conversations (put p key x s)))"
  by (simp add: conversations_put Let_def js.keys_fold_del put_map_def)

text \<open>
  The cache of histories is bounded where it grows: after any update at most twelve
  conversations without a reader are kept, and every conversation being read is kept, the
  updated one with the patch applied and the others as they were.
\<close>

theorem put_evicts_inactive_only:
  assumes "distinct (jkeys (conversations s))"
  shows "length (inactive (put p key x s)) \<le> 12 \<and>
    (\<forall>k. jhas (subscribers s) k \<longrightarrow> jget (conversations (put p key x s)) k =
       (if k = key then Some (apply_patch (normalized p (cached_profiles s) x) (snapshot s key))
        else jget (conversations s) k))"
proof
  have "distinct (jkeys (put_map p key x s))" using assms by (simp add: put_map_def)
  then show "length (inactive (put p key x s)) \<le> 12"
    unfolding inactive_def put_simps conversations_put Let_def by (rule js.trim_bound)
qed (simp add: jget_put_subscribed put_map_def)

definition no_store :: message_store where
  "no_store = \<lparr>conversations = [], subscribers = [], pending = [], list_pending = [],
     jump_pending = [], unread_listeners = [], activity_listeners = [], unread = [],
     room_activity = [], session_user = None, generation = 0, unread_timer = False,
     unread_request = 0, reading = [], aborted = [], fresh = 0, cached_profiles = [],
     requests = [], notices = []\<rparr>"

theorem put_evicts_inactive_only_witness:
  "jhas (conversations (put sample_env ''r'' no_patch (subscribe_conversation ''r'' None 0 no_store))) ''r''"
  using put_evicts_inactive_only
    [of "subscribe_conversation ''r'' None 0 no_store" sample_env "''r''" no_patch]
  by (simp add: jhas_iff subscribe_conversation_def conversation_key_def no_store_def jkeys_def)

lemma scope_parts_no_bar: "CHR ''|'' \<notin> set k \<Longrightarrow> scope_parts k = (k, None)"
  by (simp add: scope_parts_def takeWhile_eq_all_conv dropWhile_eq_Nil_conv)

text \<open>
  A thread key parses back to its room and its thread: the two strings of which it is
  made, provided neither contains the separator (they are UUIDs).
\<close>

theorem scope_parts_conversation_key:
  assumes "CHR ''|'' \<notin> set room" and "CHR ''|'' \<notin> set (nullish thread [])" and "thread \<noteq> Some []"
  shows "scope_parts (conversation_key room thread) = (room, thread)"
proof (cases thread)
  case None
  then show ?thesis using assms scope_parts_no_bar by (simp add: conversation_key_def)
next
  case (Some r)
  have "takeWhile (\<lambda>c. c \<noteq> CHR ''|'') (room @ CHR ''|'' # r) = room"
    "dropWhile (\<lambda>c. c \<noteq> CHR ''|'') (room @ CHR ''|'' # r) = CHR ''|'' # r"
    using assms(1) by (auto simp: takeWhile_append dropWhile_append)
  moreover have "takeWhile (\<lambda>c. c \<noteq> CHR ''|'') r = r"
    using assms(2) Some by (simp add: takeWhile_eq_all_conv) metis
  ultimately show ?thesis using assms(3) Some by (simp add: conversation_key_def scope_parts_def)
qed

theorem scope_parts_conversation_key_witness:
  "scope_parts (conversation_key ''a'' (Some ''b'')) = (''a'', Some ''b'')"
  by (rule scope_parts_conversation_key) simp_all

section \<open>Sessions\<close>

datatype completion =
    Load_done load_task "api_error + message_page \<times> user list"
  | Range_done catch_task "api_error + message_page"
  | Anchor_done catch_task "api_error + message"
  | Jump_done jump_task "api_error + message"
  | Pins_done list_task "api_error + message list"
  | Threads_done list_task "api_error + message_page"
  | Read_done read_task "api_error + unit"
  | Mutation_done nat "api_error + message"
  | Unread_done nat nat "api_error + room_unread list"

fun complete :: "msg_env \<Rightarrow> message_store \<Rightarrow> completion \<Rightarrow> message_store" where
  "complete p s (Load_done t r) = load_finish p t r s"
| "complete p s (Range_done t r) = catch_up_page p t r s"
| "complete p s (Anchor_done t r) = catch_up_anchor p t r s"
| "complete p s (Jump_done t r) = snd (jump_finish p t r s)"
| "complete p s (Pins_done t r) = pins_finish p t r s"
| "complete p s (Threads_done t r) = threads_finish p t r s"
| "complete p s (Read_done t r) = mark_read_finish p t r s"
| "complete p s (Mutation_done g r) = mutation_finish p g r s"
| "complete p s (Unread_done g n r) = refresh_unread_finish g n r s"

fun completion_generation :: "completion \<Rightarrow> nat" where
  "completion_generation (Load_done t r) = load_generation t"
| "completion_generation (Range_done t r) = catch_generation t"
| "completion_generation (Anchor_done t r) = catch_generation t"
| "completion_generation (Jump_done t r) = jump_generation t"
| "completion_generation (Pins_done t r) = list_generation t"
| "completion_generation (Threads_done t r) = list_generation t"
| "completion_generation (Read_done t r) = read_generation t"
| "completion_generation (Mutation_done g r) = g"
| "completion_generation (Unread_done g n r) = g"

text \<open>What the interface reads of the store, with the session it belongs to.\<close>

definition store_view ::
  "message_store \<Rightarrow> (string, conversation) jsmap \<times> (string, room_unread) jsmap \<times>
     (string, string) jsmap \<times> string option \<times> nat \<times> message_request list" where
  "store_view s = (conversations s, unread s, room_activity s, session_user s, generation s, requests s)"

definition stale_completion :: "message_store \<Rightarrow> completion \<Rightarrow> bool" where
  "stale_completion s t = (completion_generation t \<noteq> generation s)"

lemma store_view_drop [simp]:
  "store_view (drop_pending k c s) = store_view s" "store_view (drop_list k c s) = store_view s"
  by (simp_all add: store_view_def drop_pending_def drop_list_def)

lemma generation_drop [simp]:
  "generation (drop_pending k c s) = generation s" "generation (drop_list k c s) = generation s"
  by (simp_all add: drop_pending_def drop_list_def)

lemma stale_completion_view: "stale_completion s t \<Longrightarrow> store_view (complete p s t) = store_view s"
proof (cases t)
  case (Load_done task r)
  assume "stale_completion s t"
  with Load_done show ?thesis
    by (cases r) (auto simp: stale_completion_def load_finish_def load_success_def load_failure_def
        Let_def split: prod.split)
next
  case (Jump_done task r)
  assume "stale_completion s t"
  with Jump_done show ?thesis
    by (cases r) (auto simp: stale_completion_def jump_finish_def jump_success_def store_view_def
        Let_def split: option.split prod.split)
qed (auto simp: stale_completion_def drop_pending_def drop_list_def catch_up_page_def catch_up_anchor_def catch_up_failure_def
    catch_live_def pins_finish_def threads_finish_def mark_read_finish_def mutation_finish_def
    refresh_unread_finish_def Let_def store_view_def split: sum.split option.split)

interpretation session: session_guard "complete p" stale_completion store_view for p
proof
  show "stale_completion s t \<Longrightarrow> store_view (complete p s t) = store_view s" for s t
    by (rule stale_completion_view)
  show "stale_completion s t \<Longrightarrow> stale_completion s u \<Longrightarrow> stale_completion (complete p s u) t" for s t u
    using stale_completion_view [of s u p] by (simp add: stale_completion_def store_view_def)
qed

lemma fold_abort_simps [simp]:
  "generation (fold (\<lambda>c. abort (Some c)) cs s) = generation s"
  "conversations (fold (\<lambda>c. abort (Some c)) cs s) = conversations s"
  "subscribers (fold (\<lambda>c. abort (Some c)) cs s) = subscribers s"
  "unread (fold (\<lambda>c. abort (Some c)) cs s) = unread s"
  "room_activity (fold (\<lambda>c. abort (Some c)) cs s) = room_activity s"
  "session_user (fold (\<lambda>c. abort (Some c)) cs s) = session_user s"
  "pending (fold (\<lambda>c. abort (Some c)) cs s) = pending s"
  "reading (fold (\<lambda>c. abort (Some c)) cs s) = reading s"
  "jump_pending (fold (\<lambda>c. abort (Some c)) cs s) = jump_pending s"
  by (induction cs arbitrary: s) (auto simp: abort_def)

text \<open>Aborting and forgetting requests touches only the request bookkeeping.\<close>

definition same_data :: "message_store \<Rightarrow> message_store \<Rightarrow> bool" where
  "same_data s s' \<longleftrightarrow> conversations s' = conversations s \<and> subscribers s' = subscribers s \<and>
     generation s' = generation s \<and> unread s' = unread s \<and> room_activity s' = room_activity s \<and>
     session_user s' = session_user s \<and> reading s' = reading s"

lemma same_data_refl: "same_data s s"
  by (simp add: same_data_def)

lemma same_data_trans: "same_data s t \<Longrightarrow> same_data t u \<Longrightarrow> same_data s u"
  by (simp add: same_data_def)

lemma same_data_fold: "(\<And>k s. same_data s (f k s)) \<Longrightarrow> same_data s (fold f ks s)"
  by (induction ks arbitrary: s) (auto simp: same_data_refl intro: same_data_trans)

lemma same_data_aborts:
  "same_data s (abort c s)" "same_data s (abort_pending key s)" "same_data s (abort_list key s)"
  "same_data s (cancel_jumps P s)"
proof -
  show "same_data s (abort c s)" "same_data s (abort_pending key s)" "same_data s (abort_list key s)"
    by (simp_all add: same_data_def abort_def abort_pending_def abort_list_def split: option.split)
  show "same_data s (cancel_jumps P s)"
    unfolding cancel_jumps_def by (rule same_data_fold) (simp add: same_data_def)
qed

lemma same_data_simps:
  "same_data s s' \<Longrightarrow> conversations s' = conversations s" "same_data s s' \<Longrightarrow> subscribers s' = subscribers s"
  "same_data s s' \<Longrightarrow> generation s' = generation s" "same_data s s' \<Longrightarrow> session_user s' = session_user s"
  "same_data s s' \<Longrightarrow> unread s' = unread s" "same_data s s' \<Longrightarrow> room_activity s' = room_activity s"
  "same_data s s' \<Longrightarrow> reading s' = reading s"
  by (simp_all add: same_data_def)

lemmas cancel_jumps_simps [simp] = same_data_simps [OF same_data_aborts(4)]

lemma generation_stop: "generation (stop_messaging_session s) = Suc (generation s)"
  by (simp add: stop_messaging_session_def put_unread_def notify_def Let_def)

text \<open>
  Signing out is final: whatever requests of the session complete later, in any order
  and with any answer or error, nothing they brought reaches the store (conversations,
  unread counts, activity) and no further request is made.
\<close>

theorem stopped_session_inert:
  assumes "\<forall>t\<in>set ts. completion_generation t \<le> generation s"
  shows "store_view (foldl (complete p) (stop_messaging_session s) ts) =
    store_view (stop_messaging_session s)"
proof (rule session.stale_run, rule ballI)
  fix t assume "t \<in> set ts"
  then have "completion_generation t \<le> generation s" using assms by blast
  then show "stale_completion (stop_messaging_session s) t"
    by (simp add: stale_completion_def generation_stop)
qed

theorem stopped_session_inert_witness:
  "let s = stop_messaging_session (start_messaging_session ''u'' no_store)
   in conversations (foldl (complete sample_env) s
        [Mutation_done 1 (Inr (sample_message ''m'' 3 1)), Unread_done 1 1 (Inr [])]) = []"
proof -
  let ?s = "start_messaging_session ''u'' no_store"
  have "generation ?s = 1"
    by (simp add: start_messaging_session_def refresh_unread_begin_def request_def put_unread_def
        notify_def no_store_def Let_def)
  then have "\<forall>t\<in>set [Mutation_done 1 (Inr (sample_message ''m'' 3 1)), Unread_done 1 1 (Inr [])].
      completion_generation t \<le> generation ?s" by simp
  from stopped_session_inert [OF this, of sample_env] show ?thesis
    by (simp add: store_view_def stop_messaging_session_def put_unread_def notify_def Let_def)
qed

section \<open>Events never lose or downgrade a displayed message\<close>

lemma current_message_simps [simp]:
  "msg_id (current_message ps m) = msg_id m" "ver (current_message ps m) = ver m"
  by (simp_all add: current_message_def ver_def)

definition covers :: "message list \<Rightarrow> message \<Rightarrow> bool" where
  "covers ms x \<longleftrightarrow> (\<exists>y\<in>set ms. msg_id y = msg_id x \<and> ver x \<le> ver y)"

lemma covers_trans: "covers ms x \<Longrightarrow> (\<And>y. y \<in> set ms \<Longrightarrow> covers ns y) \<Longrightarrow> covers ns x"
  unfolding covers_def by (metis order_trans)

lemma covers_self: "x \<in> set ms \<Longrightarrow> covers ms x"
  by (auto simp: covers_def)

lemma covers_merge: "x \<in> set (concat gs) \<Longrightarrow> covers (merge_messages p gs) x"
  using merge_keeps [of x gs p] by (auto simp: covers_def)

lemma covers_normalized:
  assumes "x \<in> set ms"
  shows "covers (merge_messages p [map (current_message ps) ms]) x"
  using covers_merge [of "current_message ps x" "[map (current_message ps) ms]" p] assms
  by (simp add: covers_def)

lemma messages_put:
  "messages (apply_patch (normalized p ps x) c) =
     (case p_messages x of None \<Rightarrow> messages c | Some ms \<Rightarrow> merge_messages p [map (current_message ps) ms])"
  by (simp add: apply_patch_def normalized_def split: option.split)

text \<open>An open conversation covers a set of messages.\<close>

definition shows_messages :: "string \<Rightarrow> message set \<Rightarrow> message_store \<Rightarrow> bool" where
  "shows_messages k X s \<longleftrightarrow> jhas (subscribers s) k \<and>
     (\<exists>c. jget (conversations s) k = Some c \<and> (\<forall>x\<in>X. covers (messages c) x))"

lemma shows_put:
  assumes "shows_messages k X s"
    and "\<And>ms x. p_messages y = Some ms \<Longrightarrow> k = key \<Longrightarrow> x \<in> X \<Longrightarrow> covers ms x"
  shows "shows_messages k X (put p key y s)"
proof -
  obtain c where sub: "jhas (subscribers s) k" and c: "jget (conversations s) k = Some c"
    "\<forall>x\<in>X. covers (messages c) x"
    using assms(1) by (auto simp: shows_messages_def)
  have norm: "covers (merge_messages p [map (current_message (cached_profiles s)) ms]) x"
    if "p_messages y = Some ms" "k = key" "x \<in> X" for ms x
    by (rule covers_trans [OF assms(2) [OF that] covers_normalized])
  show ?thesis
    using sub c norm
    by (cases "k = key")
      (auto simp: shows_messages_def jget_put_subscribed put_map_def messages_put snapshot_def split: option.split)
qed

lemma shows_receive_activity: "shows_messages k X (receive_activity p m s) = shows_messages k X s"
  by (simp add: receive_activity_def shows_messages_def Let_def notify_def)

lemma no_patch_messages [simp]: "p_messages no_patch = None"
  by (simp add: no_patch_def)

lemma covers_filter:
  assumes "covers ms x" and "P \<or> msg_id x \<noteq> i"
  shows "covers (filter (\<lambda>y. P \<or> msg_id y \<noteq> i) ms) x"
  using assms by (auto simp: covers_def)

lemma shows_receive_conversation:
  assumes "shows_messages k X s"
  shows "shows_messages k X (receive_conversation p m s)"
proof (cases "jget (conversations s) (conversation_key (room_id m) (thread_root_id m))")
  case None
  then show ?thesis using assms by (simp add: receive_conversation_def)
next
  case (Some c)
  let ?first = "case messages c of [] \<Rightarrow> 0 | m0 # _ \<Rightarrow> nullish (sequence m0) 0"
  let ?P = "nullish (sequence m) 0 \<ge> ?first \<or> list_ex (\<lambda>y. msg_id y = msg_id m) (messages c)"
  have "covers (filter (\<lambda>y. ?P \<or> msg_id y \<noteq> msg_id m) (merge_messages p [messages c, [m]])) x"
    if "k = conversation_key (room_id m) (thread_root_id m)" "x \<in> X" for x
  proof -
    have c: "covers (messages c) x" using assms that Some by (auto simp: shows_messages_def)
    then have "covers (merge_messages p [messages c, [m]]) x"
      by (rule covers_trans) (simp add: covers_merge)
    moreover have "?P \<or> msg_id x \<noteq> msg_id m"
      using c by (auto simp: covers_def list_ex_iff)
    ultimately show ?thesis by (rule covers_filter)
  qed
  then show ?thesis
    unfolding receive_conversation_def Let_def Some option.case
    by (intro shows_put [OF assms]) simp
qed

lemma shows_put_other:
  "shows_messages k X s \<Longrightarrow> p_messages y = None \<Longrightarrow> shows_messages k X (put p key y s)"
  by (rule shows_put) simp_all

lemma shows_receive_rest:
  assumes "shows_messages k X s"
  shows "shows_messages k X (receive_thread_root p m s)" "shows_messages k X (receive_threads p m main s)"
    "shows_messages k X (receive_pins p m main s)" "shows_messages k X (schedule_unread s)"
  using assms
  by (simp_all add: receive_thread_root_def receive_threads_def receive_pins_def Let_def
      shows_put_other split: option.split)
    (simp add: schedule_unread_def shows_messages_def)

lemmas receive_shows = shows_receive_activity shows_receive_conversation shows_receive_rest

lemma shows_receive: "shows_messages k X s \<Longrightarrow> shows_messages k X (receive_message p u m s)"
  by (simp add: receive_message_def Let_def receive_shows)

text \<open>The message itself is shown once its own conversation has been updated.\<close>

lemma shows_received:
  assumes "jget (conversations s) key = Some c" and "jhas (subscribers s) key"
    and "key = conversation_key (room_id m) (thread_root_id m)"
    and "nullish (sequence m) 0 \<ge> (case messages c of [] \<Rightarrow> 0 | m0 # _ \<Rightarrow> nullish (sequence m0) 0)"
  shows "shows_messages key {m} (receive_conversation p m s)"
proof -
  have "covers (merge_messages p [map (current_message (cached_profiles s))
      (merge_messages p [messages c, [m]])]) m"
    using covers_trans [OF covers_merge covers_normalized, of m "[messages c, [m]]"] by simp
  then show ?thesis
    using assms
    by (simp add: shows_messages_def receive_conversation_def Let_def jget_put_subscribed put_map_def messages_put)
qed

text \<open>
  C29. Live events: when a message event arrives for the signed-in user, every message an
  open conversation displayed is still displayed, at the same version or a newer one; and
  if the event's own conversation is open and the message is not older than the loaded
  range, the message is displayed too, at its version or a newer one.
\<close>

theorem receive_message_keeps_and_shows:
  assumes "jhas (subscribers s) k" and "jget (conversations s) k = Some c"
  shows "\<exists>c'. jget (conversations (receive_message p u m s)) k = Some c' \<and>
    (\<forall>x\<in>set (messages c). \<exists>y\<in>set (messages c'). msg_id y = msg_id x \<and> ver x \<le> ver y) \<and>
    (session_user s = Some u \<and> k = conversation_key (room_id m) (thread_root_id m) \<and>
     nullish (sequence m) 0 \<ge> (case messages c of [] \<Rightarrow> 0 | m0 # _ \<Rightarrow> nullish (sequence m0) 0) \<longrightarrow>
       (\<exists>y\<in>set (messages c'). msg_id y = msg_id m \<and> ver m \<le> ver y))"
proof -
  let ?s = "receive_message p u m s"
  have "shows_messages k (set (messages c)) ?s"
    by (rule shows_receive) (use assms in \<open>simp add: shows_messages_def covers_self\<close>)
  then obtain c' where c': "jget (conversations ?s) k = Some c'" "\<forall>x\<in>set (messages c). covers (messages c') x"
    by (auto simp: shows_messages_def)
  have new: "covers (messages c') m" if "session_user s = Some u"
    "k = conversation_key (room_id m) (thread_root_id m)"
    "nullish (sequence m) 0 \<ge> (case messages c of [] \<Rightarrow> 0 | m0 # _ \<Rightarrow> nullish (sequence m0) 0)"
  proof -
    have "shows_messages k {m} (receive_conversation p m (receive_activity p m s))"
      by (rule shows_received [OF _ _ that(2,3)])
        (use assms in \<open>simp_all add: receive_activity_def Let_def notify_def\<close>)
    then have "shows_messages k {m} ?s"
      using that(1) by (simp add: receive_message_def Let_def receive_shows)
    then show ?thesis using c'(1) by (simp add: shows_messages_def)
  qed
  show ?thesis using c' new unfolding covers_def by blast
qed

definition open_store :: message_store where
  "open_store = no_store\<lparr>session_user := Some ''u'', subscribers := [(''r'', [0])],
     conversations := [(''r'', empty_conversation\<lparr>messages := [sample_message ''m'' 3 1],
       pins := Some [], pin_updates := Some []\<rparr>)]\<rparr>"

theorem receive_message_keeps_and_shows_witness:
  "\<exists>c. jget (conversations (receive_message sample_env ''u'' (sample_message ''n'' 4 1) open_store)) ''r'' = Some c \<and>
     (\<exists>y\<in>set (messages c). msg_id y = ''m'') \<and> (\<exists>y\<in>set (messages c). msg_id y = ''n'')"
proof -
  have sub: "jhas (subscribers open_store) ''r''"
    by (simp add: open_store_def no_store_def jhas_def)
  have get: "jget (conversations open_store) ''r'' = Some (empty_conversation\<lparr>messages := [sample_message ''m'' 3 1],
      pins := Some [], pin_updates := Some []\<rparr>)" by (simp add: open_store_def)
  have "session_user open_store = Some ''u''" by (simp add: open_store_def)
  then show ?thesis
    using receive_message_keeps_and_shows [OF sub get, of sample_env "''u''" "sample_message ''n'' 4 1"]
    by (fastforce simp: sample_message_def conversation_key_def)
qed

section \<open>Losing access to a room\<close>

lemma abort_pending_pending: "pending (abort_pending k s) = jdel (pending s) k"
  by (simp add: abort_pending_def abort_def split: option.split)

lemma fold_abort_pending:
  "pending (fold abort_pending ks s) = fold (\<lambda>k m. jdel m k) ks (pending s)"
  "jump_pending (fold abort_pending ks s) = jump_pending s"
  by (induction ks arbitrary: s)
    (simp_all add: abort_pending_pending, simp add: abort_pending_def abort_def split: option.split)

lemma cancel_jumps_jump_pending:
  "jump_pending (cancel_jumps P s) = fold (\<lambda>k m. jdel m k) (filter P (jkeys (jump_pending s))) (jump_pending s)"
  "pending (cancel_jumps P s) = pending s"
proof -
  let ?f = "\<lambda>key s. if P key
        then (fold (\<lambda>c. abort (Some c)) (snd (nullish (jget (jump_pending s) key) (0, []))) s)
               \<lparr>jump_pending := jdel (jump_pending s) key\<rparr>
        else s"
  have "jump_pending (fold ?f ks t) = fold (\<lambda>k m. jdel m k) (filter P ks) (jump_pending t) \<and>
      pending (fold ?f ks t) = pending t" for ks t
    by (induction ks arbitrary: t) simp_all
  then show "jump_pending (cancel_jumps P s) = fold (\<lambda>k m. jdel m k) (filter P (jkeys (jump_pending s))) (jump_pending s)"
    "pending (cancel_jumps P s) = pending s"
    unfolding cancel_jumps_def by blast+
qed

lemma empty_denied_fold:
  "jget (conversations (fold (empty_denied e) ks s)) k =
     (if k \<in> set ks then Some (empty_conversation\<lparr>conversation_error := error_text e ''Conversation is unavailable''\<rparr>)
      else jget (conversations s) k)"
  "subscribers (fold (empty_denied e) ks s) = subscribers s"
  "pending (fold (empty_denied e) ks s) = pending s" "jump_pending (fold (empty_denied e) ks s) = jump_pending s"
  "reading (fold (empty_denied e) ks s) = reading s" "unread (fold (empty_denied e) ks s) = unread s"
  "room_activity (fold (empty_denied e) ks s) = room_activity s"
  by (induction ks arbitrary: s) (auto simp: empty_denied_def notify_key_def notify_def)

lemma set_fold_sadd: "set (fold sadd xs ys) = set ys \<union> set xs"
  by (induction xs arbitrary: ys) auto

lemma abort_list_other [simp]:
  "pending (abort_list k s) = pending s" "jump_pending (abort_list k s) = jump_pending s"
  by (simp_all add: abort_list_def abort_def split: option.split)

lemmas abort_list_data [simp] = same_data_simps [OF same_data_aborts(3)]
lemmas abort_pending_data [simp] = same_data_simps [OF same_data_aborts(2)]
lemmas fold_abort_pending_data [simp] = same_data_simps [OF same_data_fold [of abort_pending, OF same_data_aborts(2)]]

text \<open>The store after the early part of \<open>discardRoomAccess\<close>, with its requests gone.\<close>

lemma discard_fields:
  "jget (conversations (discard_room_access room e s)) k =
      (if in_room room k \<and> (jhas (conversations s) k \<or> jhas (subscribers s) k \<or> k = room)
       then Some (empty_conversation\<lparr>conversation_error := error_text e ''Conversation is unavailable''\<rparr>)
       else jget (conversations s) k)"
  "jget (pending (discard_room_access room e s)) k = (if in_room room k then None else jget (pending s) k)"
  "jget (jump_pending (discard_room_access room e s)) k = (if in_room room k then None else jget (jump_pending s) k)"
  "reading (discard_room_access room e s) = filter (\<lambda>r. \<not> in_room room (fst r)) (reading s)"
  "unread (discard_room_access room e s) = jdel (unread s) room"
  "subscribers (discard_room_access room e s) = subscribers s"
proof -
  have none: "jget m k = None" if "k \<notin> set (jkeys m)" for m :: "(string, 'x) jsmap"
    using that by (simp add: jget_None_iff)
  show "jget (conversations (discard_room_access room e s)) k =
      (if in_room room k \<and> (jhas (conversations s) k \<or> jhas (subscribers s) k \<or> k = room)
       then Some (empty_conversation\<lparr>conversation_error := error_text e ''Conversation is unavailable''\<rparr>)
       else jget (conversations s) k)"
    by (auto simp: discard_room_access_def Let_def notify_def put_unread_def empty_denied_fold
        set_fold_sadd jhas_def)
  show "jget (pending (discard_room_access room e s)) k = (if in_room room k then None else jget (pending s) k)"
    using none [of "pending s"]
    by (simp add: discard_room_access_def Let_def notify_def put_unread_def empty_denied_fold
        fold_abort_pending cancel_jumps_jump_pending js.get_fold_del)
  show "jget (jump_pending (discard_room_access room e s)) k = (if in_room room k then None else jget (jump_pending s) k)"
    using none [of "jump_pending s"]
    by (simp add: discard_room_access_def Let_def notify_def put_unread_def empty_denied_fold
        fold_abort_pending cancel_jumps_jump_pending js.get_fold_del)
  show "reading (discard_room_access room e s) = filter (\<lambda>r. \<not> in_room room (fst r)) (reading s)"
    "unread (discard_room_access room e s) = jdel (unread s) room"
    "subscribers (discard_room_access room e s) = subscribers s"
    using jdel_absent [of room "unread s"]
    by (simp_all add: discard_room_access_def Let_def notify_def put_unread_def empty_denied_fold jhas_def)
qed

lemma empty_denied_other [simp]:
  "list_pending (empty_denied e k s) = list_pending s" "aborted (empty_denied e k s) = aborted s"
  by (simp_all add: empty_denied_def notify_key_def notify_def)

lemma empty_denied_fold_other [simp]:
  "list_pending (fold (empty_denied e) ks s) = list_pending s" "aborted (fold (empty_denied e) ks s) = aborted s"
  by (induction ks arbitrary: s) simp_all

lemma fold_abort_other [simp]:
  "list_pending (fold (\<lambda>c. abort (Some c)) cs s) = list_pending s"
  "set (aborted (fold (\<lambda>c. abort (Some c)) cs s)) = set (aborted s) \<union> set cs"
  by (induction cs arbitrary: s) (auto simp: abort_def)

lemma abort_list_requests_fields [simp]:
  "list_pending (abort_list k s) = jdel (list_pending s) k"
  "set (aborted (abort_list k s)) = set (aborted s) \<union> set_option (jget (list_pending s) k)"
  by (auto simp: abort_list_def abort_def split: option.split)

lemma fold_abort_pending_other:
  "list_pending (fold abort_pending ks s) = list_pending s"
  "set (aborted s) \<subseteq> set (aborted (fold abort_pending ks s))"
  "k \<in> set ks \<Longrightarrow> jget (pending s) k = Some c \<Longrightarrow> c \<in> set (aborted (fold abort_pending ks s))"
proof -
  have one: "list_pending (abort_pending k s) = list_pending s" "set (aborted s) \<subseteq> set (aborted (abort_pending k s))"
    "jget (pending s) k = Some c \<Longrightarrow> c \<in> set (aborted (abort_pending k s))"
    "l \<noteq> k \<Longrightarrow> jget (pending (abort_pending l s)) k = jget (pending s) k" for k l s
    by (auto simp: abort_pending_def abort_def split: option.split)
  show list: "list_pending (fold abort_pending ks s) = list_pending s" for ks s
    by (induction ks arbitrary: s) (simp_all add: one)
  show more: "set (aborted s) \<subseteq> set (aborted (fold abort_pending ks s))" for ks s
    by (induction ks arbitrary: s) (use one(2) in fastforce)+
  show "k \<in> set ks \<Longrightarrow> jget (pending s) k = Some c \<Longrightarrow> c \<in> set (aborted (fold abort_pending ks s))"
  proof (induction ks arbitrary: s)
    case (Cons l ks)
    show ?case
    proof (cases "l = k")
      case True
      then show ?thesis using one(3) [OF Cons.prems(2)] more [of "abort_pending k s" ks] by auto
    qed (use Cons one(4) in auto)
  qed simp
qed

lemma cancel_jumps_other:
  "list_pending (cancel_jumps P s) = list_pending s" "set (aborted s) \<subseteq> set (aborted (cancel_jumps P s))"
  "P k \<Longrightarrow> jget (jump_pending s) k = Some (grp, cs) \<Longrightarrow> c \<in> set cs \<Longrightarrow> c \<in> set (aborted (cancel_jumps P s))"
proof -
  let ?f = "\<lambda>key s. if P key
        then (fold (\<lambda>c. abort (Some c)) (snd (nullish (jget (jump_pending s) key) (0, []))) s)
               \<lparr>jump_pending := jdel (jump_pending s) key\<rparr>
        else s"
  have list: "list_pending (fold ?f ks t) = list_pending t" and more: "set (aborted t) \<subseteq> set (aborted (fold ?f ks t))" for ks t
    by (induction ks arbitrary: t) (simp, simp, simp, fastforce)
  show "list_pending (cancel_jumps P s) = list_pending s" "set (aborted s) \<subseteq> set (aborted (cancel_jumps P s))"
    unfolding cancel_jumps_def by (rule list, rule more)
  have "c \<in> set (aborted (fold ?f ks t))"
    if "k \<in> set ks" "P k" "jget (jump_pending t) k = Some (grp, cs)" "c \<in> set cs" for ks t
    using that
  proof (induction ks arbitrary: t)
    case (Cons l ks)
    show ?case
    proof (cases "l = k")
      case True
      have "c \<in> set (aborted (?f k t))" using Cons.prems by simp
      with True more [of "?f k t" ks] show ?thesis by auto
    qed (use Cons in auto)
  qed simp
  moreover have "k \<in> set (jkeys (jump_pending s))" if "jget (jump_pending s) k = Some (grp, cs)"
    using that by (metis jget_None_iff option.distinct(1))
  ultimately show "P k \<Longrightarrow> jget (jump_pending s) k = Some (grp, cs) \<Longrightarrow> c \<in> set cs \<Longrightarrow> c \<in> set (aborted (cancel_jumps P s))"
    unfolding cancel_jumps_def by blast
qed

text \<open>What \<open>discardRoomAccess\<close> does to the requests of the room: all are aborted and forgotten.\<close>

lemma discard_requests:
  "jget (list_pending (discard_room_access room e s)) k =
     (if k = room @ ''#pins'' \<or> k = room @ ''#threads'' then None else jget (list_pending s) k)"
  "nonempty (jget (room_activity (discard_room_access room e s)) k) = (k \<noteq> room \<and> nonempty (jget (room_activity s) k))"
  "set (aborted s) \<subseteq> set (aborted (discard_room_access room e s))"
  "in_room room k \<Longrightarrow> jget (pending s) k = Some c \<Longrightarrow> c \<in> set (aborted (discard_room_access room e s))"
  "in_room room k \<Longrightarrow> jget (jump_pending s) k = Some (grp, cs) \<Longrightarrow> c \<in> set cs \<Longrightarrow>
     c \<in> set (aborted (discard_room_access room e s))"
  "k = room @ ''#pins'' \<or> k = room @ ''#threads'' \<Longrightarrow> jget (list_pending s) k = Some c \<Longrightarrow>
     c \<in> set (aborted (discard_room_access room e s))"
proof -
  define s1 where "s1 = fold abort_pending (filter (in_room room) (jkeys (pending s))) s"
  define s2 where "s2 = cancel_jumps (in_room room) s1"
  define s3 where "s3 = abort_list (room @ ''#threads'') (abort_list (room @ ''#pins'') s2)"
  let ?d = "discard_room_access room e s"
  have d: "list_pending ?d = list_pending s3" "aborted ?d = aborted s3"
    by (simp_all add: discard_room_access_def Let_def s1_def s2_def s3_def notify_def put_unread_def)
  have acts: "room_activity ?d = (if nonempty (jget (room_activity s) room) then jdel (room_activity s) room else room_activity s)"
    by (simp add: discard_room_access_def Let_def notify_def put_unread_def empty_denied_fold)
  have l: "list_pending s1 = list_pending s" "list_pending s2 = list_pending s" "jump_pending s1 = jump_pending s"
    by (simp_all add: s1_def s2_def fold_abort_pending_other cancel_jumps_other fold_abort_pending)
  have ab: "set (aborted s) \<subseteq> set (aborted s1)" "set (aborted s1) \<subseteq> set (aborted s2)" "set (aborted s2) \<subseteq> set (aborted s3)"
    unfolding s1_def s2_def s3_def by (rule fold_abort_pending_other, rule cancel_jumps_other) auto
  show "jget (list_pending ?d) k =
     (if k = room @ ''#pins'' \<or> k = room @ ''#threads'' then None else jget (list_pending s) k)"
    by (simp add: d s3_def l)
  show "nonempty (jget (room_activity ?d) k) = (k \<noteq> room \<and> nonempty (jget (room_activity s) k))"
    by (auto simp: acts)
  show "set (aborted s) \<subseteq> set (aborted ?d)" using ab d by auto
  show "in_room room k \<Longrightarrow> jget (pending s) k = Some c \<Longrightarrow> c \<in> set (aborted ?d)"
  proof -
    assume "in_room room k" "jget (pending s) k = Some c"
    moreover from this(2) have "k \<in> set (jkeys (pending s))" by (metis jget_None_iff option.distinct(1))
    ultimately have "c \<in> set (aborted s1)" unfolding s1_def by (intro fold_abort_pending_other(3)) simp_all
    with ab d show "c \<in> set (aborted ?d)" by auto
  qed
  show "in_room room k \<Longrightarrow> jget (jump_pending s) k = Some (grp, cs) \<Longrightarrow> c \<in> set cs \<Longrightarrow> c \<in> set (aborted ?d)"
    using cancel_jumps_other(3) [of "in_room room" k s1 grp cs c] l(3) ab(3) d(2) by (auto simp: s2_def)
  show "k = room @ ''#pins'' \<or> k = room @ ''#threads'' \<Longrightarrow> jget (list_pending s) k = Some c \<Longrightarrow> c \<in> set (aborted ?d)"
    by (auto simp: d s3_def l)
qed

section \<open>The store's invariant\<close>

definition conversation_ok :: "conversation \<Rightarrow> bool" where
  "conversation_ok c \<longleftrightarrow> distinct (map msg_id (messages c)) \<and>
     length (nullish (pin_updates c) []) \<le> 100 \<and> distinct (jkeys (nullish (pin_updates c) [])) \<and>
     list_all shown_pin (nullish (pins c) [])"

definition store_ok :: "message_store \<Rightarrow> bool" where
  "store_ok s \<longleftrightarrow> distinct (jkeys (conversations s)) \<and>
     (\<forall>k c. jget (conversations s) k = Some c \<longrightarrow> conversation_ok c)"

definition patch_ok :: "patch \<Rightarrow> bool" where
  "patch_ok x \<longleftrightarrow> list_all shown_pin (nullish (nullish (p_pins x) None) []) \<and>
     length (nullish (nullish (p_pin_updates x) None) []) \<le> 100 \<and>
     distinct (jkeys (nullish (nullish (p_pin_updates x) None) []))"

lemma empty_conversation_ok: "conversation_ok (empty_conversation\<lparr>conversation_error := t\<rparr>)" "conversation_ok empty_conversation"
  by (simp_all add: conversation_ok_def empty_conversation_def)

lemma snapshot_ok: "store_ok s \<Longrightarrow> conversation_ok (snapshot s key)"
  by (cases "jget (conversations s) key") (auto simp: snapshot_def empty_conversation_ok store_ok_def)

lemma store_okI: "store_ok s \<Longrightarrow> conversations s' = conversations s \<Longrightarrow> store_ok s'"
  by (simp add: store_ok_def)

lemma shown_pin_current [simp]: "shown_pin (current_message ps m) = shown_pin m"
  by (simp add: shown_pin_def current_message_def)

lemma apply_patch_ok:
  assumes "conversation_ok c" and "patch_ok x"
  shows "conversation_ok (apply_patch (normalized p ps x) c)"
proof -
  have "distinct (map msg_id (messages (apply_patch (normalized p ps x) c)))"
    using assms(1) merge_ids(2) by (simp add: messages_put conversation_ok_def split: option.split)
  moreover have "pin_updates (apply_patch (normalized p ps x) c) = nullish (p_pin_updates x) (pin_updates c)"
    by (simp add: apply_patch_def normalized_def)
  moreover have "pins (apply_patch (normalized p ps x) c) =
      (case p_pins x of None \<Rightarrow> pins c | Some v \<Rightarrow> map_option (map (current_message ps)) v)"
    by (simp add: apply_patch_def normalized_def split: option.split)
  ultimately show ?thesis
    using assms
    by (cases "p_pins x"; cases "p_pin_updates x"; cases "the (p_pins x)")
      (auto simp: conversation_ok_def patch_ok_def list_all_iff)
qed

lemma put_ok:
  assumes "store_ok s" and "patch_ok x"
  shows "store_ok (put p key x s)"
proof -
  have "conversation_ok c" if "jget (conversations (put p key x s)) k = Some c" for k c
  proof -
    have "jget (put_map p key x s) k = Some c" using jget_put_cases [of p key x s k] that by auto
    then show ?thesis
      using assms apply_patch_ok [OF snapshot_ok [OF assms(1)] assms(2)]
      by (auto simp: put_map_def store_ok_def split: if_splits)
  qed
  then show ?thesis using assms(1) distinct_store_put by (simp add: store_ok_def)
qed

lemma patch_ok_simple:
  "p_pins x = None \<Longrightarrow> p_pin_updates x = None \<Longrightarrow> patch_ok x"
  by (simp add: patch_ok_def)

lemma no_patch_pins [simp]: "p_pins no_patch = None" "p_pin_updates no_patch = None"
  by (simp_all add: no_patch_def)

lemma trim_updates_ok:
  "distinct (jkeys u) \<Longrightarrow> length (trim_updates u) \<le> 100" "distinct (jkeys u) \<Longrightarrow> distinct (jkeys (trim_updates u))"
proof -
  assume d: "distinct (jkeys u)"
  have "length (jkeys (trim_updates u)) \<le> 100"
    unfolding trim_updates_def trim_front_keys [OF d] by simp
  then show "length (trim_updates u) \<le> 100" by simp
  show "distinct (jkeys (trim_updates u))" by (simp add: trim_updates_def js.keys_fold_del d)
qed

lemma follow_parent_shown [simp]: "shown_pin (follow_parent b m) = shown_pin m"
  by (simp add: shown_pin_def follow_parent_def split: option.split)

lemma merge_shown:
  assumes "m \<in> set (merge_messages p gs)"
  obtains x where "x \<in> set (concat gs)" "msg_id x = msg_id m" "shown_pin m = shown_pin x"
proof -
  have ok: "by_id_ok (set (concat gs)) (newest_by_id (concat gs))" by (rule newest_by_id_ok)
  obtain m0 where m0: "m0 \<in> set (jvals (newest_by_id (concat gs)))"
    "m = follow_parent (newest_by_id (concat gs)) m0" by (rule merge_elem [OF assms])
  obtain k where "jget (newest_by_id (concat gs)) k = Some m0"
    by (rule jvals_jget [OF by_id_okD(1) [OF ok] m0(1)])
  then have "m0 \<in> set (concat gs)" by (rule by_id_okD(4) [OF ok])
  then show ?thesis using m0(2) by (intro that [of m0]) simp_all
qed

end
