(* ===== verification/MessageRuns.thy ===== *)
theory MessageRuns
  imports MessageStore
begin

text \<open>
  Runs of the message store: every entry point of \<open>features/chat/messageStore.ts\<close> and every
  completion of its requests is an event, and the invariant \<open>store_ok\<close> holds after any
  sequence of them. The pin list's properties are drawn from it.
\<close>

section \<open>Every operation keeps the invariant\<close>

lemma store_ok_data: "same_data s s' \<Longrightarrow> store_ok s \<Longrightarrow> store_ok s'"
  by (simp add: same_data_def store_ok_def)

lemma store_ok_conversations [simp]:
  "store_ok (request r s) = store_ok s" "store_ok (notify ns s) = store_ok s"
  "store_ok (drop_pending k c s) = store_ok s" "store_ok (drop_list k c s) = store_ok s"
  "store_ok (put_unread u s) = store_ok s" "store_ok (schedule_unread s) = store_ok s"
  by (simp_all add: store_ok_def request_def notify_def drop_pending_def drop_list_def
      put_unread_def schedule_unread_def)

lemma store_ok_fields [simp]:
  "store_ok (s\<lparr>subscribers := a\<rparr>) = store_ok s" "store_ok (s\<lparr>pending := b\<rparr>) = store_ok s"
  "store_ok (s\<lparr>list_pending := b\<rparr>) = store_ok s" "store_ok (s\<lparr>jump_pending := d\<rparr>) = store_ok s"
  "store_ok (s\<lparr>room_activity := e\<rparr>) = store_ok s" "store_ok (s\<lparr>reading := f\<rparr>) = store_ok s"
  "store_ok (s\<lparr>fresh := g\<rparr>) = store_ok s" "store_ok (s\<lparr>unread_request := g\<rparr>) = store_ok s"
  "store_ok (s\<lparr>unread_timer := h\<rparr>) = store_ok s" "store_ok (s\<lparr>generation := g\<rparr>) = store_ok s"
  "store_ok (s\<lparr>session_user := i\<rparr>) = store_ok s" "store_ok (s\<lparr>cached_profiles := j\<rparr>) = store_ok s"
  by (simp_all add: store_ok_def)

lemma store_ok_clear [simp]: "store_ok (s\<lparr>conversations := []\<rparr>)"
  by (simp add: store_ok_def)

lemma store_ok_aborts [simp]:
  "store_ok s \<Longrightarrow> store_ok (abort c s)" "store_ok s \<Longrightarrow> store_ok (abort_pending key s)"
  "store_ok s \<Longrightarrow> store_ok (abort_list key s)" "store_ok s \<Longrightarrow> store_ok (cancel_jumps P s)"
  "store_ok s \<Longrightarrow> store_ok (fold (\<lambda>c. abort (Some c)) cs s)"
  by (simp_all add: store_ok_data [OF same_data_aborts(1)] store_ok_data [OF same_data_aborts(2)]
      store_ok_data [OF same_data_aborts(3)] store_ok_data [OF same_data_aborts(4)])
    (simp add: store_ok_def)

lemma fold_store_ok: "(\<And>x s. store_ok s \<Longrightarrow> store_ok (f x s)) \<Longrightarrow> store_ok s \<Longrightarrow> store_ok (fold f xs s)"
  by (induction xs arbitrary: s) auto

lemma empty_denied_ok: "store_ok s \<Longrightarrow> store_ok (empty_denied e k s)"
  by (auto simp: empty_denied_def notify_key_def store_ok_def notify_def empty_conversation_ok)

lemma discard_ok: "store_ok s \<Longrightarrow> store_ok (discard_room_access room e s)"
  by (simp add: discard_room_access_def Let_def fold_store_ok [of "empty_denied e"]
      fold_store_ok [of abort_pending] empty_denied_ok)

lemma refresh_unread_ok: "store_ok s \<Longrightarrow> store_ok (refresh_unread_begin s)"
  by (simp add: refresh_unread_begin_def Let_def)

lemma load_begin_ok: "store_ok s \<Longrightarrow> store_ok (load_begin p room older thread s)"
  by (simp add: load_begin_def new_controller_def Let_def put_ok patch_ok_simple)

lemma load_finish_ok: "store_ok s \<Longrightarrow> store_ok (load_finish p t r s)"
proof -
  assume ok: "store_ok s"
  have success: "store_ok (load_success p t page fetched s)" for page fetched
    using ok by (simp add: load_success_def Let_def put_ok patch_ok_simple)
  have "store_ok (s\<lparr>conversations := jset (conversations s) (load_key t) empty_conversation\<rparr>)"
    using ok by (auto simp: store_ok_def empty_conversation_ok)
  then have failure: "store_ok (load_failure p t e s)" for e
    using ok by (simp add: load_failure_def Let_def put_ok patch_ok_simple discard_ok)
  show ?thesis
    using success failure by (cases r) (simp_all add: load_finish_def Let_def put_ok patch_ok_simple split: prod.split)
qed

lemma updated_message_shown [simp]: "shown_pin (updated_message ps m) = shown_pin m"
  by (simp add: shown_pin_def updated_message_def)

lemma refresh_profile_ok: "store_ok s \<Longrightarrow> store_ok (refresh_profile_of p key s)"
proof (cases "jget (conversations s) key")
  case (Some c)
  assume ok: "store_ok s"
  then have "conversation_ok c" using Some by (simp add: store_ok_def)
  then have "list_all shown_pin (nullish (pins c) [])" by (simp add: conversation_ok_def)
  then show ?thesis
    using ok Some by (cases "pins c") (simp_all add: refresh_profile_of_def Let_def put_ok patch_ok_def list_all_iff)
qed (simp add: refresh_profile_of_def)

lemma receive_ok:
  assumes ok: "store_ok s"
  shows "store_ok (receive_activity p m s)" "store_ok (receive_conversation p m s)"
    "store_ok (receive_thread_root p m s)" "store_ok (receive_threads p m main s)"
  using ok
  by (simp_all add: receive_activity_def receive_conversation_def receive_thread_root_def
      receive_threads_def Let_def put_ok patch_ok_simple split: option.split)

lemma receive_pins_ok:
  assumes ok: "store_ok s" and main: "\<And>c. main = Some c \<Longrightarrow> conversation_ok c"
  shows "store_ok (receive_pins p m main s)"
proof (cases "Option.bind main pins")
  case None
  then show ?thesis using ok by (cases main) (auto simp: receive_pins_def)
next
  case (Some ps)
  then obtain c where c: "main = Some c" "pins c = Some ps" by (cases main) auto
  have cok: "conversation_ok c" by (rule main [OF c(1)])
  let ?keep = "filter (\<lambda>x. msg_id x \<noteq> msg_id m \<or> shown_pin m)
    (merge_messages p [ps, if shown_pin m then [m] else []])"
  have shown: "shown_pin x" if "x \<in> set ?keep" for x
  proof -
    from that have "x \<in> set (merge_messages p [ps, if shown_pin m then [m] else []])" by simp
    then obtain y where "y \<in> set (concat [ps, if shown_pin m then [m] else []])" "shown_pin x = shown_pin y"
      by (rule merge_shown)
    then show ?thesis using cok c by (auto simp: conversation_ok_def list_all_iff split: if_splits)
  qed
  have "distinct (jkeys (jset (nullish (pin_updates c) []) (msg_id m) m))"
    using cok by (simp add: conversation_ok_def)
  moreover have "list_all shown_pin (js_sort (cmp_pins p) ?keep)"
    unfolding list_all_iff set_js_sort using shown by blast
  ultimately have "patch_ok (no_patch\<lparr>p_pins := Some (Some (js_sort (cmp_pins p) ?keep)),
      p_pin_updates := Some (Some (trim_updates (jset (nullish (pin_updates c) []) (msg_id m) m)))\<rparr>)"
    using trim_updates_ok by (simp add: patch_ok_def)
  then show ?thesis using ok c put_ok by (simp add: receive_pins_def Let_def split: option.split)
qed

lemma receive_message_ok:
  assumes ok: "store_ok s"
  shows "store_ok (receive_message p u m s)"
proof -
  let ?t = "receive_thread_root p m (receive_conversation p m (receive_activity p m s))"
  have t: "store_ok ?t" by (intro receive_ok ok)
  have "conversation_ok c" if "jget (conversations ?t) (room_id m) = Some c" for c
    using t that unfolding store_ok_def by blast
  then have "store_ok (receive_pins p m (jget (conversations ?t) (room_id m))
      (receive_threads p m (jget (conversations ?t) (room_id m)) ?t))"
    by (intro receive_pins_ok receive_ok t)
  then show ?thesis using ok by (simp add: receive_message_def Let_def)
qed

lemma mutation_finish_ok: "store_ok s \<Longrightarrow> store_ok (mutation_finish p g r s)"
  by (simp add: mutation_finish_def receive_message_ok split: sum.split option.split)

lemma pins_begin_ok: "store_ok s \<Longrightarrow> store_ok (pins_begin p room s)"
  by (simp add: pins_begin_def new_controller_def Let_def put_ok patch_ok_def)

lemma pins_finish_ok: "store_ok s \<Longrightarrow> store_ok (pins_finish p t r s)"
  by (cases r) (simp_all add: pins_finish_def Let_def discard_ok put_ok patch_ok_def list_all_iff)

lemma threads_begin_ok: "store_ok s \<Longrightarrow> store_ok (threads_begin room older s)"
  by (simp add: threads_begin_def new_controller_def Let_def)

lemma threads_finish_ok: "store_ok s \<Longrightarrow> store_ok (threads_finish p t r s)"
  by (cases r) (simp_all add: threads_finish_def Let_def discard_ok put_ok patch_ok_simple)

lemma mark_read_ok: "store_ok s \<Longrightarrow> store_ok (mark_read_begin room m thread s)"
  "store_ok s \<Longrightarrow> store_ok (mark_read_finish p t r s)"
  by (simp add: mark_read_begin_def Let_def)
    (cases r, simp_all add: mark_read_finish_def Let_def refresh_unread_ok put_ok patch_ok_simple)

lemma jump_begin_ok: "store_ok s \<Longrightarrow> store_ok (jump_begin room mid thread s)"
  by (simp add: jump_begin_def new_controller_def Let_def split: option.split prod.split)

lemma jump_success_ok: "store_ok s \<Longrightarrow> store_ok (snd (jump_success p t m s))"
  by (simp add: jump_success_def Let_def put_ok patch_ok_simple)

lemma jump_finish_ok: "store_ok s \<Longrightarrow> store_ok (snd (jump_finish p t r s))"
proof (cases r)
  case (Inl e)
  assume "store_ok s"
  then show ?thesis
    using Inl by (auto simp: jump_finish_def Let_def discard_ok split: option.split)
next
  case (Inr m)
  assume "store_ok s"
  then show ?thesis
    using Inr jump_success_ok [of s p t m]
    by (cases "jump_success p t m s") (auto simp: jump_finish_def Let_def split: option.split)
qed

lemma catch_up_ok:
  "store_ok s \<Longrightarrow> store_ok (catch_up_begin p key s)" "store_ok s \<Longrightarrow> store_ok (catch_up_tail t s)"
  "store_ok s \<Longrightarrow> store_ok (catch_up_failure p t e s)"
  by (simp_all add: catch_up_begin_def catch_up_tail_def catch_up_failure_def new_controller_def Let_def
      load_begin_ok discard_ok put_ok patch_ok_simple split: option.split)

lemma catch_up_finish_ok:
  "store_ok s \<Longrightarrow> store_ok (catch_up_page p t r s)" "store_ok s \<Longrightarrow> store_ok (catch_up_anchor p t r' s)"
  by (cases r, simp_all add: catch_up_page_def Let_def catch_up_ok put_ok patch_ok_simple)
    (cases r', simp_all add: catch_up_anchor_def Let_def catch_up_ok put_ok patch_ok_simple)

lemma reconcile_key_ok: "store_ok s \<Longrightarrow> store_ok (reconcile_key p reset opened key s)"
  by (simp add: reconcile_key_def Let_def load_begin_ok catch_up_ok pins_begin_ok threads_begin_ok
      put_ok patch_ok_def split: prod.split)

lemma store_ok_filter: "store_ok s \<Longrightarrow> store_ok (t\<lparr>conversations := filter (\<lambda>e. P (fst e)) (conversations s)\<rparr>)"
  by (simp add: store_ok_def jkeys_filter_fst jget_filter_key)

lemma reconcile_store_ok: "store_ok s \<Longrightarrow> store_ok (reconcile_messaging p u reset s)"
  by (simp add: reconcile_messaging_def Let_def fold_store_ok reconcile_key_ok refresh_unread_ok
      store_ok_filter)

lemma unsubscribe_ok: "store_ok s \<Longrightarrow> store_ok (unsubscribe_conversation p room thread l s)"
  by (simp add: unsubscribe_conversation_def Let_def put_ok patch_ok_simple split: option.split prod.split)

lemma session_ok:
  "store_ok s \<Longrightarrow> store_ok (start_messaging_session u s)" "store_ok s \<Longrightarrow> store_ok (stop_messaging_session s)"
  by (simp_all add: start_messaging_session_def stop_messaging_session_def Let_def refresh_unread_ok)

section \<open>Runs\<close>

datatype message_event =
    Open_conversation string "string option" nat
  | Close_conversation string "string option" nat
  | Profiles_changed "(string, user) jsmap"
  | Start_session string
  | Stop_session
  | Load_conversation string bool "string option"
  | Receive_message string message
  | Reconcile string bool
  | Mark_read string message "string option"
  | Jump string string "string option"
  | Load_pins string
  | Load_threads string bool
  | Unread_timer
  | Completed completion

fun message_step :: "msg_env \<Rightarrow> message_store \<Rightarrow> message_event \<Rightarrow> message_store" where
  "message_step p s (Open_conversation room thread l) = subscribe_conversation room thread l s"
| "message_step p s (Close_conversation room thread l) = unsubscribe_conversation p room thread l s"
| "message_step p s (Profiles_changed ps) = refresh_cached_profiles p (s\<lparr>cached_profiles := ps\<rparr>)"
| "message_step p s (Start_session u) = start_messaging_session u s"
| "message_step p s Stop_session = stop_messaging_session s"
| "message_step p s (Load_conversation room older thread) = load_begin p room older thread s"
| "message_step p s (Receive_message u m) = receive_message p u m s"
| "message_step p s (Reconcile u reset) = reconcile_messaging p u reset s"
| "message_step p s (Mark_read room m thread) = mark_read_begin room m thread s"
| "message_step p s (Jump room mid thread) = jump_begin room mid thread s"
| "message_step p s (Load_pins room) = pins_begin p room s"
| "message_step p s (Load_threads room older) = threads_begin room older s"
| "message_step p s Unread_timer = unread_timer_fires s"
| "message_step p s (Completed t) = complete p s t"

lemma complete_ok: "store_ok s \<Longrightarrow> store_ok (complete p s t)"
  by (cases t) (simp_all add: load_finish_ok catch_up_finish_ok jump_finish_ok pins_finish_ok
      threads_finish_ok mark_read_ok mutation_finish_ok refresh_unread_finish_def split: sum.split)

lemma message_step_ok: "store_ok s \<Longrightarrow> store_ok (message_step p s e)"
  by (cases e) (simp_all add: subscribe_conversation_def Let_def unsubscribe_ok refresh_cached_profiles_def
      fold_store_ok refresh_profile_ok session_ok load_begin_ok receive_message_ok reconcile_store_ok mark_read_ok
      jump_begin_ok pins_begin_ok threads_begin_ok unread_timer_fires_def refresh_unread_ok complete_ok)

interpretation store: event_machine "message_step p" store_ok for p
  by unfold_locales (rule message_step_ok)

text \<open>
  C28. Whatever is loaded, received, reconciled, cancelled or fails, in any order and over
  any number of sessions, every cached conversation shows each message once, its list of
  pins never holds an unpinned or deleted message, and it remembers at most 100 pin events.
\<close>

theorem conversations_stay_well_formed:
  assumes "jget (conversations (foldl (message_step p) no_store es)) k = Some c"
  shows "distinct (map msg_id (messages c)) \<and> length (nullish (pin_updates c) []) \<le> 100 \<and>
    (\<forall>m\<in>set (nullish (pins c) []). nonempty (pinned_at m) \<and> \<not> nonempty (deleted_at m))"
proof -
  have "store_ok (foldl (message_step p) no_store es)"
    by (rule store.run_inv) (simp add: store_ok_def no_store_def)
  then have "conversation_ok c" using assms by (simp add: store_ok_def)
  then show ?thesis by (auto simp: conversation_ok_def list_all_iff shown_pin_def)
qed

theorem conversations_stay_well_formed_witness:
  "let s = foldl (message_step sample_env) no_store [Open_conversation ''r'' None 0, Load_pins ''r'']
   in \<exists>c. jget (conversations s) ''r'' = Some c \<and> distinct (map msg_id (messages c))"
proof -
  have "\<exists>c. jget (conversations (foldl (message_step sample_env) no_store
      [Open_conversation ''r'' None 0, Load_pins ''r''])) ''r'' = Some c"
    by (simp add: pins_begin_def subscribe_conversation_def conversation_key_def new_controller_def Let_def
        request_def abort_def snapshot_def jget_put_subscribed jhas_iff put_map_def no_store_def
        empty_conversation_def)
  then obtain c where c: "jget (conversations (foldl (message_step sample_env) no_store
      [Open_conversation ''r'' None 0, Load_pins ''r''])) ''r'' = Some c" ..
  then show ?thesis
    using conversations_stay_well_formed [OF c] unfolding Let_def by blast
qed

section \<open>Pin events outlive an older pin list\<close>

definition keyed :: "(string, message) jsmap \<Rightarrow> bool" where
  "keyed b \<longleftrightarrow> distinct (jkeys b) \<and> (\<forall>k m. jget b k = Some m \<longrightarrow> msg_id m = k)"

lemma keyed_jset: "keyed b \<Longrightarrow> msg_id m = k \<Longrightarrow> keyed (jset b k m)"
  by (auto simp: keyed_def)

definition step_update :: "message \<Rightarrow> (string, message) jsmap \<Rightarrow> (string, message) jsmap" where
  "step_update u b = (if ver u \<ge> opt_ver (jget b (msg_id u)) then jset b (msg_id u) u else b)"

lemma keyed_update: "keyed b \<Longrightarrow> keyed (step_update u b)"
  by (simp add: step_update_def keyed_jset)

definition at_least :: "message \<Rightarrow> (string, message) jsmap \<Rightarrow> bool" where
  "at_least u b \<longleftrightarrow> (case jget b (msg_id u) of None \<Rightarrow> ver u < 0 | Some m \<Rightarrow> ver u \<le> ver m)"

lemma at_least_update: "at_least u (step_update u b)"
  by (auto simp: at_least_def step_update_def opt_ver_def split: option.splits)

lemma at_least_kept: "at_least u b \<Longrightarrow> at_least u (step_update v b)"
  by (auto simp: at_least_def step_update_def opt_ver_def split: option.splits)

lemma fold_updates:
  "keyed b \<Longrightarrow> keyed (fold step_update us b)"
  "u \<in> set us \<or> at_least u b \<Longrightarrow> at_least u (fold step_update us b)"
  by (induction us arbitrary: b) (auto simp: keyed_update at_least_update at_least_kept)

lemma keyed_list: "keyed b \<Longrightarrow> keyed (fold (\<lambda>m b. jset b (msg_id m) m) ms b)"
  by (induction ms arbitrary: b) (simp_all add: keyed_jset)

lemma with_updates_newest:
  assumes "u \<in> set (jvals updates)" and "m \<in> set (with_updates updates ms)" and "msg_id m = msg_id u"
  shows "ver u \<le> ver m"
proof -
  let ?b = "fold step_update (jvals updates) (fold (\<lambda>m b. jset b (msg_id m) m) ms [])"
  have eq: "with_updates updates ms = jvals ?b"
    by (simp add: with_updates_def step_update_def [abs_def])
  have keyed: "keyed ?b" by (intro fold_updates(1) keyed_list) (simp add: keyed_def)
  have d: "distinct (jkeys ?b)" and ids: "\<And>k m. jget ?b k = Some m \<Longrightarrow> msg_id m = k"
    using keyed unfolding keyed_def by blast+
  obtain k where k: "jget ?b k = Some m"
    by (rule jvals_jget [OF d assms(2) [unfolded eq]])
  then have "jget ?b (msg_id u) = Some m" using ids [OF k] assms(3) by simp
  moreover have "at_least u ?b" by (rule fold_updates(2)) (simp add: assms(1))
  ultimately show ?thesis by (simp add: at_least_def)
qed

text \<open>
  A pin list that was requested before a pin event arrived does not undo the event:
  once the answer is applied, no message is shown as pinned at an older version than the
  one the event brought; in particular an unpinned message stays unpinned.
\<close>

theorem pin_events_outlive_older_list:
  assumes "list_generation t = generation s" and "\<not> is_aborted s (list_controller t)"
    and "u \<in> set (jvals (nullish (pin_updates (snapshot s (list_room t))) []))"
    and "jget (conversations (pins_finish p t (Inr ms) s)) (list_room t) = Some c"
    and "m \<in> set (nullish (pins c) [])" and "msg_id m = msg_id u"
  shows "ver u \<le> ver m \<and> shown_pin m"
proof -
  let ?ups = "nullish (pin_updates (snapshot s (list_room t))) []"
  let ?x = "no_patch\<lparr>p_pins := Some (Some (js_sort (cmp_pins p) (filter shown_pin (with_updates ?ups ms))))\<rparr>"
  have "conversations (pins_finish p t (Inr ms) s) = conversations (put p (list_room t) ?x s)"
    using assms(1,2) by (simp add: pins_finish_def Let_def drop_list_def)
  then have "jget (put_map p (list_room t) ?x s) (list_room t) = Some c"
    using assms(4) jget_put_cases [of p "list_room t" ?x s "list_room t"] by auto
  then have "c = apply_patch (normalized p (cached_profiles s) ?x) (snapshot s (list_room t))"
    by (simp add: put_map_def)
  then have "m \<in> current_message (cached_profiles s) ` {y \<in> set (with_updates ?ups ms). shown_pin y}"
    using assms(5) by (simp add: apply_patch_def normalized_def)
  then obtain y where y: "y \<in> set (with_updates ?ups ms)" "shown_pin y" "m = current_message (cached_profiles s) y"
    by auto
  then have "ver u \<le> ver y" by (intro with_updates_newest [OF assms(3) y(1)]) (use assms(6) in simp)
  then show ?thesis using y by simp
qed

definition pinned_sample :: "int \<Rightarrow> message" where
  "pinned_sample v = (sample_message ''m'' 3 v)\<lparr>pinned_at := Some ''t''\<rparr>"

definition pinned_store :: message_store where
  "pinned_store = open_store\<lparr>conversations := [(''r'', empty_conversation\<lparr>pins := Some [],
     pin_updates := Some [(''m'', pinned_sample 2)]\<rparr>)]\<rparr>"

definition pin_task :: list_task where
  "pin_task = \<lparr>list_room = ''r'', list_older = False, list_previous = empty_conversation,
     list_controller = 0, list_generation = 0\<rparr>"

theorem pin_events_outlive_older_list_witness:
  "\<exists>c m. jget (conversations (pins_finish sample_env pin_task (Inr [pinned_sample 1]) pinned_store)) ''r'' = Some c \<and>
     m \<in> set (nullish (pins c) []) \<and> 2 \<le> ver m"
proof -
  let ?s = "pins_finish sample_env pin_task (Inr [pinned_sample 1]) pinned_store"
  have sub: "jhas (subscribers pinned_store) ''r''"
    by (simp add: pinned_store_def open_store_def no_store_def jhas_def)
  have live: "list_generation pin_task = generation pinned_store" "\<not> is_aborted pinned_store (list_controller pin_task)"
    by (simp_all add: pin_task_def pinned_store_def open_store_def no_store_def is_aborted_def)
  have ups: "nullish (pin_updates (snapshot pinned_store (list_room pin_task))) [] = [(''m'', pinned_sample 2)]"
    by (simp add: pin_task_def pinned_store_def open_store_def snapshot_def)
  have profiles: "cached_profiles pinned_store = []"
    by (simp add: pinned_store_def open_store_def no_store_def)
  have list: "with_updates [(''m'', pinned_sample 2)] [pinned_sample 1] = [pinned_sample 2]"
    by (simp add: with_updates_def pinned_sample_def sample_message_def opt_ver_def ver_def)
  have shown: "shown_pin (pinned_sample 2)" by (simp add: shown_pin_def pinned_sample_def sample_message_def)
  have room: "list_room pin_task = ''r''" by (simp add: pin_task_def)
  obtain c where c: "jget (conversations ?s) ''r'' = Some c" "pins c = Some [current_message [] (pinned_sample 2)]"
    using sub live ups list shown profiles room
    by (auto simp: pins_finish_def Let_def drop_list_def jget_put_subscribed put_map_def apply_patch_def
        normalized_def)
  let ?m = "current_message [] (pinned_sample 2)"
  have "ver (pinned_sample 2) \<le> ver ?m \<and> shown_pin ?m"
    by (rule pin_events_outlive_older_list [OF live _ c(1) [folded room]])
      (use c(2) ups in simp_all)
  moreover have "ver (pinned_sample 2) = 2" by (simp add: ver_def pinned_sample_def sample_message_def)
  ultimately show ?thesis using c by auto
qed

section \<open>An aborted request stays aborted\<close>

definition cancelled :: "nat \<Rightarrow> message_store \<Rightarrow> bool" where
  "cancelled c s \<longleftrightarrow> c \<in> set (aborted s)"

lemma cancelled_fields [simp]:
  "cancelled c (s\<lparr>conversations := a0\<rparr>) = cancelled c s" "cancelled c (s\<lparr>subscribers := a\<rparr>) = cancelled c s"
  "cancelled c (s\<lparr>pending := b\<rparr>) = cancelled c s"
  "cancelled c (s\<lparr>list_pending := b\<rparr>) = cancelled c s" "cancelled c (s\<lparr>jump_pending := d\<rparr>) = cancelled c s"
  "cancelled c (s\<lparr>room_activity := e\<rparr>) = cancelled c s" "cancelled c (s\<lparr>reading := f\<rparr>) = cancelled c s"
  "cancelled c (s\<lparr>fresh := g\<rparr>) = cancelled c s" "cancelled c (s\<lparr>unread_request := g\<rparr>) = cancelled c s"
  "cancelled c (s\<lparr>unread_timer := h\<rparr>) = cancelled c s" "cancelled c (s\<lparr>generation := g\<rparr>) = cancelled c s"
  "cancelled c (s\<lparr>session_user := i\<rparr>) = cancelled c s" "cancelled c (s\<lparr>cached_profiles := j\<rparr>) = cancelled c s"
  "cancelled c (s\<lparr>unread := k\<rparr>) = cancelled c s"
  by (simp_all add: cancelled_def)

lemma cancelled_same [simp]:
  "cancelled c (request r s) = cancelled c s" "cancelled c (notify ns s) = cancelled c s"
  "cancelled c (notify_key key s) = cancelled c s"
  "cancelled c (drop_pending k c' s) = cancelled c s" "cancelled c (drop_list k c' s) = cancelled c s"
  "cancelled c (put_unread u s) = cancelled c s" "cancelled c (schedule_unread s) = cancelled c s"
  by (simp_all add: cancelled_def request_def notify_def notify_key_def drop_pending_def drop_list_def put_unread_def schedule_unread_def)

lemma cancelled_aborts [simp]:
  "cancelled c s \<Longrightarrow> cancelled c (abort x s)" "cancelled c s \<Longrightarrow> cancelled c (abort_pending key s)"
  "cancelled c s \<Longrightarrow> cancelled c (abort_list key s)" "cancelled c s \<Longrightarrow> cancelled c (cancel_jumps P s)"
  "cancelled c s \<Longrightarrow> cancelled c (fold (\<lambda>c. abort (Some c)) cs s)"
  using cancel_jumps_other(2) [of s P]
  by (auto simp: cancelled_def abort_def abort_pending_def split: option.split)

lemma cancelled_fold: "(\<And>x s. cancelled c s \<Longrightarrow> cancelled c (f x s)) \<Longrightarrow> cancelled c s \<Longrightarrow> cancelled c (fold f xs s)"
  by (induction xs arbitrary: s) auto

lemma cancelled_put [simp]: "cancelled c s \<Longrightarrow> cancelled c (put p key x s)"
  by (simp add: put_def evict_inactive_def cancelled_fold evict_def)

lemma cancelled_discard [simp]: "cancelled c s \<Longrightarrow> cancelled c (discard_room_access room e s)"
  using discard_requests(3) [of s room e] by (auto simp: cancelled_def)

lemma cancelled_unread [simp]: "cancelled c (refresh_unread_begin s) = cancelled c s"
  by (simp add: refresh_unread_begin_def Let_def)

lemma cancelled_load [simp]:
  "cancelled c s \<Longrightarrow> cancelled c (load_begin p room older thread s)" "cancelled c s \<Longrightarrow> cancelled c (load_finish p t r s)"
  by (simp add: load_begin_def new_controller_def Let_def)
    (cases r; simp add: load_finish_def load_success_def load_failure_def Let_def split: prod.split)

lemma cancelled_receive [simp]: "cancelled c s \<Longrightarrow> cancelled c (receive_message p u m s)"
proof -
  have "cancelled c t \<Longrightarrow> cancelled c (receive_activity p m t)" "cancelled c t \<Longrightarrow> cancelled c (receive_conversation p m t)"
    "cancelled c t \<Longrightarrow> cancelled c (receive_thread_root p m t)" "cancelled c t \<Longrightarrow> cancelled c (receive_threads p m main t)"
    "cancelled c t \<Longrightarrow> cancelled c (receive_pins p m main t)" for t main
    by (simp_all add: receive_activity_def receive_conversation_def receive_thread_root_def receive_threads_def
        receive_pins_def Let_def split: option.split)
  then show "cancelled c s \<Longrightarrow> cancelled c (receive_message p u m s)" by (simp add: receive_message_def Let_def)
qed

lemma cancelled_lists [simp]:
  "cancelled c s \<Longrightarrow> cancelled c (pins_begin p room s)" "cancelled c s \<Longrightarrow> cancelled c (threads_begin room older s)"
  by (simp_all add: pins_begin_def threads_begin_def new_controller_def Let_def)

lemma cancelled_jump [simp]: "cancelled c s \<Longrightarrow> cancelled c (jump_begin room mid thread s)"
  by (simp add: jump_begin_def new_controller_def Let_def split: option.split prod.split)

lemma cancelled_jump_finish [simp]: "cancelled c s \<Longrightarrow> cancelled c (snd (jump_finish p t r s))"
proof -
  assume ok: "cancelled c s"
  then have "cancelled c (snd (jump_success p t m s))" for m by (simp add: jump_success_def Let_def)
  then have "jump_success p t m s = (x, u) \<Longrightarrow> cancelled c u" for m x u by (metis snd_conv)
  with ok show ?thesis
    by (cases r) (auto simp: jump_finish_def Let_def split: option.split prod.split)
qed

lemma cancelled_catch_up [simp]:
  "cancelled c s \<Longrightarrow> cancelled c (catch_up_begin p key s)" "cancelled c s \<Longrightarrow> cancelled c (catch_up_tail t s)"
  "cancelled c s \<Longrightarrow> cancelled c (catch_up_failure p t e s)"
  by (simp_all add: catch_up_begin_def catch_up_tail_def catch_up_failure_def new_controller_def Let_def split: option.split)

lemma cancelled_complete: "cancelled c s \<Longrightarrow> cancelled c (complete p s t)"
  by (cases t)
    (simp_all add: catch_up_page_def catch_up_anchor_def pins_finish_def threads_finish_def mark_read_finish_def
      mutation_finish_def refresh_unread_finish_def Let_def split: sum.split option.split)

lemma cancelled_reconcile: "cancelled c s \<Longrightarrow> cancelled c (reconcile_messaging p u reset s)"
proof -
  have "cancelled c t \<Longrightarrow> cancelled c (reconcile_key p reset opened key t)" for opened key t
    by (simp add: reconcile_key_def Let_def split: prod.split)
  then show "cancelled c s \<Longrightarrow> cancelled c (reconcile_messaging p u reset s)"
    by (simp add: reconcile_messaging_def Let_def cancelled_fold)
qed

lemma cancelled_step: "cancelled c s \<Longrightarrow> cancelled c (message_step p s e)"
proof -
  assume ok: "cancelled c s"
  have profiles: "cancelled c t \<Longrightarrow> cancelled c (refresh_profile_of p key t)" for key t
    by (simp add: refresh_profile_of_def Let_def split: option.split)
  have close: "cancelled c (unsubscribe_conversation p room thread l s)" for room thread l
    using ok by (simp add: unsubscribe_conversation_def Let_def split: option.split prod.split)
  have sessions: "cancelled c (start_messaging_session u s)" "cancelled c (stop_messaging_session s)" for u
    using ok by (simp_all add: start_messaging_session_def stop_messaging_session_def Let_def)
  show ?thesis
    using ok by (cases e) (simp_all add: subscribe_conversation_def Let_def close refresh_cached_profiles_def cancelled_fold
      profiles sessions cancelled_reconcile mark_read_begin_def unread_timer_fires_def cancelled_complete)
qed

interpretation cancelled: event_machine "message_step p" "cancelled c" for p c
  by unfold_locales (rule cancelled_step)

section \<open>A denied room\<close>







lemma list_pending_put [simp]: "list_pending (put p key x s) = list_pending s"
proof -
  have "list_pending (fold evict ks t) = list_pending t" for ks t
    by (induction ks arbitrary: t) (simp_all add: evict_def abort_pending_def abort_def split: option.split)
  then show ?thesis by (simp add: put_def notify_key_def notify_def evict_inactive_def)
qed



end
