(* ===== verification/DraftStore.thy ===== *)
theory DraftStore
  imports Api
begin

text \<open>
  Synced message drafts (\<open>features/personal/draftStore.ts\<close>).

  The module's variables and the local storage it uses are the record \<open>draft_store\<close>. A text
  is the list of its code points. A promise in \<open>writes\<close>, \<open>reads\<close> or \<open>refreshing\<close> is the number
  of its task; a task captures the session (\<open>generation\<close>) and the abort signal of the
  session (\<open>lifetime\<close>), and a write also its own controller, which the session's signal
  aborts. An async function is split at its awaits: \<open>..._begin\<close>, \<open>..._answer\<close> (the body after
  the answer) and \<open>..._finally\<close>, which runs some time after the answer. A stored text that
  does not parse as JSON is \<open>None\<close>; \<open>storage_disabled\<close> is a local storage that throws.
  \<open>crypto.randomUUID\<close> is the parameter \<open>uuid\<close>, applied to a counter.
\<close>

section \<open>Data\<close>

record text_draft =
  draft_room :: string
  draft_root :: "string option"
  draft_body :: string
  draft_reply :: "string option"
  draft_version :: int
  draft_mutation :: "string option"
  draft_updated :: "string option"

record mutation =
  mutation_id :: string
  mutation_body :: string
  mutation_reply :: "string option"
  mutation_version :: int

record draft_entry =
  entry_room :: string
  entry_root :: "string option"
  body :: string
  reply_to :: "string option"
  entry_version :: int
  entry_ready :: bool
  dirty :: bool
  writing :: bool
  focused :: bool
  conflict :: "text_draft option"
  remote :: "text_draft option"
  entry_error :: string
  mutation :: "mutation option"

record write_task =
  write_scope :: string
  write_local :: draft_entry
  write_mutation :: mutation
  write_session :: nat
  write_lifetime :: nat
  write_controller :: nat
  write_id :: nat

record read_task =
  read_scope :: string
  read_session :: nat
  read_lifetime :: nat
  read_id :: nat

record refresh_task =
  refresh_session :: nat
  refresh_lifetime :: nat
  refresh_id :: nat
  refresh_page :: nat
  refresh_todo :: "draft_entry list"

record sync_task =
  sync_enabled :: bool
  sync_session :: nat
  sync_lifetime :: nat

datatype draft_request =
    Put_draft write_task
  | Get_draft read_task
  | Get_setting refresh_task
  | Get_drafts refresh_task string
  | Put_setting sync_task int

record draft_store =
  draft_user :: "string option"
  enabled :: bool
  setting_version :: int
  drafts_ready :: bool
  busy :: bool
  drafts_error :: string
  entries :: "(string, draft_entry) jsmap"
  generation :: nat
  lifetime :: "nat option"
  refreshing :: "nat option"
  draft_listeners :: "nat list"
  draft_calls :: "nat list"
  timers :: "string list"
  writes :: "(string, nat) jsmap"
  write_controllers :: "(string, nat) jsmap"
  reads :: "(string, nat) jsmap"
  aborted :: "nat list"
  fresh :: nat
  storage :: "(string, json option) jsmap"
  storage_disabled :: bool
  draft_requests :: "draft_request list"

definition draft_scope :: "string \<Rightarrow> string option \<Rightarrow> string" where
  "draft_scope room root =
     room @ (if nonempty root then '':thread:'' @ nullish root [] else [])"

definition local_key :: "string \<Rightarrow> string \<Rightarrow> string" where
  "local_key u scope = ''bettercomms:text-draft:'' @ u @ '':'' @ scope"

definition legacy_key :: "string \<Rightarrow> string \<Rightarrow> string" where
  "legacy_key u scope = ''bettercomms:draft:'' @ u @ '':'' @ scope"

definition bounded_text :: "string \<Rightarrow> string" where
  "bounded_text t = take 4000 t"

definition draft_reply_to :: "string \<Rightarrow> string option \<Rightarrow> string option \<Rightarrow> draft_store \<Rightarrow> string option" where
  "draft_reply_to room hydrated root s =
     (case jget (entries s) (draft_scope room root) of Some e \<Rightarrow> reply_to e | None \<Rightarrow> hydrated)"

section \<open>Storage\<close>

definition opt_field :: "string \<Rightarrow> string option \<Rightarrow> (string \<times> json) list" where
  "opt_field key v = (case v of None \<Rightarrow> [] | Some t \<Rightarrow> [(key, Str t)])"

definition remote_json :: "text_draft \<Rightarrow> json" where
  "remote_json r = Obj ([(''room_id'', Str (draft_room r)), (''body'', Str (draft_body r)),
     (''version'', Num (draft_version r))] @ opt_field ''thread_root_id'' (draft_root r) @
     opt_field ''reply_to_id'' (draft_reply r) @ opt_field ''mutation_id'' (draft_mutation r) @
     opt_field ''updated_at'' (draft_updated r))"

definition mutation_json :: "mutation \<Rightarrow> json" where
  "mutation_json m = Obj ([(''id'', Str (mutation_id m)), (''body'', Str (mutation_body m))] @
     opt_field ''replyToId'' (mutation_reply m) @ [(''version'', Num (mutation_version m))])"

definition opt_json :: "string \<Rightarrow> ('a \<Rightarrow> json) \<Rightarrow> 'a option \<Rightarrow> (string \<times> json) list" where
  "opt_json key f v = (case v of None \<Rightarrow> [] | Some x \<Rightarrow> [(key, f x)])"

definition entry_json :: "draft_entry \<Rightarrow> json" where
  "entry_json e = Obj ([(''body'', Str (body e))] @ opt_field ''replyToId'' (reply_to e) @
     [(''version'', Num (entry_version e)), (''dirty'', Bool (dirty e))] @
     opt_json ''remote'' remote_json (remote e) @ opt_json ''conflict'' remote_json (conflict e) @
     opt_json ''mutation'' mutation_json (mutation e))"

definition persist :: "string \<Rightarrow> draft_entry \<Rightarrow> draft_store \<Rightarrow> draft_store" where
  "persist scope e s =
     (case draft_user s of
        None \<Rightarrow> s
      | Some u \<Rightarrow> if u = [] \<or> storage_disabled s then s
                  else s\<lparr>storage := jset (storage s) (local_key u scope) (Some (entry_json e))\<rparr>)"

definition notify_drafts :: "draft_store \<Rightarrow> draft_store" where
  "notify_drafts s = s\<lparr>draft_calls := draft_calls s @ draft_listeners s\<rparr>"

definition put_draft :: "string \<Rightarrow> (draft_entry \<Rightarrow> draft_entry) \<Rightarrow> draft_store \<Rightarrow> draft_store" where
  "put_draft scope patch s =
     (case jget (entries s) scope of
        None \<Rightarrow> s
      | Some previous \<Rightarrow>
          (let e = patch previous; s = persist scope e s
           in notify_drafts (s\<lparr>entries := jset (entries s) scope e\<rparr>)))"

text \<open>\<open>validRemote\<close>, with the value it lets through.\<close>

fun str_field :: "json option \<Rightarrow> string option" where
  "str_field (Some (Str t)) = Some t"
| "str_field _ = None"

definition opt_string :: "json option \<Rightarrow> bool" where
  "opt_string v = (v = None \<or> str_field v \<noteq> None)"

definition valid_remote :: "json option \<Rightarrow> text_draft option" where
  "valid_remote v =
     (case (field v ''room_id'', field v ''body'', field v ''version'') of
        (Some (Str room), Some (Str t), Some (Num n)) \<Rightarrow>
          if length t \<le> 4000 \<and> safe_integer n \<and> 0 \<le> n \<and>
             (if field v ''updated_at'' = None then n = 0 \<and> t = [] else str_field (field v ''updated_at'') \<noteq> None) \<and>
             opt_string (field v ''thread_root_id'') \<and> opt_string (field v ''reply_to_id'')
          then Some \<lparr>draft_room = room, draft_root = str_field (field v ''thread_root_id''), draft_body = t,
            draft_reply = str_field (field v ''reply_to_id''), draft_version = n,
            draft_mutation = str_field (field v ''mutation_id''), draft_updated = str_field (field v ''updated_at'')\<rparr>
          else None
      | _ \<Rightarrow> None)"

definition same_text :: "string \<Rightarrow> string option \<Rightarrow> text_draft \<Rightarrow> bool" where
  "same_text t reply r = (t = draft_body r \<and> nullish reply [] = nullish (draft_reply r) [])"

definition empty_entry :: "string \<Rightarrow> string option \<Rightarrow> draft_entry" where
  "empty_entry room root = \<lparr>entry_room = room, entry_root = root, body = [], reply_to = None,
     entry_version = 0, entry_ready = False, dirty = False, writing = False, focused = False,
     conflict = None, remote = None, entry_error = [], mutation = None\<rparr>"

definition stored_mutation :: "json option \<Rightarrow> mutation option" where
  "stored_mutation v =
     (case (field v ''id'', field v ''body'', field v ''version'') of
        (Some (Str i), Some (Str t), Some (Num n)) \<Rightarrow>
          if safe_integer n then Some \<lparr>mutation_id = i, mutation_body = bounded_text t,
            mutation_reply = str_field (field v ''replyToId''), mutation_version = n\<rparr> else None
      | _ \<Rightarrow> None)"

definition restore_entry :: "json option \<Rightarrow> string \<Rightarrow> draft_entry \<Rightarrow> draft_entry" where
  "restore_entry v t e = e\<lparr>body := bounded_text t, reply_to := str_field (field v ''replyToId''),
     entry_version := (case field v ''version'' of Some (Num n) \<Rightarrow> if safe_integer n then n else 0 | _ \<Rightarrow> 0),
     dirty := (field v ''dirty'' = Some (Bool True)), remote := valid_remote (field v ''remote''),
     conflict := valid_remote (field v ''conflict''), mutation := stored_mutation (field v ''mutation'')\<rparr>"

definition stored_entry :: "string \<Rightarrow> string \<Rightarrow> draft_store \<Rightarrow> draft_entry \<Rightarrow> draft_entry" where
  "stored_entry u scope s e =
     (if storage_disabled s then e
      else case jget (storage s) (local_key u scope) of
          Some None \<Rightarrow> e
        | found \<Rightarrow>
            (let v = Option.bind found (\<lambda>x. x)
             in case field v ''body'' of
                  Some (Str t) \<Rightarrow> restore_entry v t e
                | _ \<Rightarrow> (case field (Option.bind (jget (storage s) (legacy_key u scope)) (\<lambda>x. x)) ''body'' of
                      Some (Str t) \<Rightarrow> e\<lparr>body := bounded_text t, dirty := (t \<noteq> [])\<rparr>
                    | _ \<Rightarrow> e)))"

definition ensure :: "string \<Rightarrow> string option \<Rightarrow> draft_store \<Rightarrow> draft_store" where
  "ensure room root s =
     (let scope = draft_scope room root
      in if jhas (entries s) scope then s
         else
           let e = (if nonempty (draft_user s)
                    then stored_entry (nullish (draft_user s) []) scope s (empty_entry room root)
                    else empty_entry room root)
           in notify_drafts (s\<lparr>entries := jset (entries s) scope e\<rparr>))"

section \<open>Receiving a remote draft\<close>

definition schedule :: "string \<Rightarrow> draft_store \<Rightarrow> draft_store" where
  "schedule scope s =
     (let s = s\<lparr>timers := sdel scope (timers s)\<rparr>
      in case jget (entries s) scope of
           None \<Rightarrow> s
         | Some e \<Rightarrow>
             if \<not> enabled s \<or> \<not> drafts_ready s \<or> \<not> entry_ready e \<or> \<not> dirty e \<or> conflict e \<noteq> None \<or>
                entry_error e \<noteq> [] \<or> jhas (writes s) scope
             then s else s\<lparr>timers := sadd scope (timers s)\<rparr>)"

text \<open>The new entry, by the branches of \<open>receiveTextDraft\<close>; \<open>None\<close> for an older remote.\<close>

definition merge_remote :: "text_draft \<Rightarrow> draft_entry \<Rightarrow> draft_entry option" where
  "merge_remote r e =
     (if draft_version r < entry_version e then None
      else if entry_ready e \<and> draft_version r = entry_version e \<and>
        (case remote e of None \<Rightarrow> False | Some old \<Rightarrow> same_text (draft_body old) (draft_reply old) r)
      then Some (e\<lparr>remote := Some r, entry_error := []\<rparr>)
      else if same_text (body e) (reply_to e) r
      then Some (e\<lparr>remote := Some r, entry_version := draft_version r, entry_ready := True, dirty := False,
             conflict := None, mutation := None, entry_error := []\<rparr>)
      else if (case mutation e of None \<Rightarrow> False | Some mu \<Rightarrow> draft_mutation r = Some (mutation_id mu))
      then Some (e\<lparr>remote := Some r, entry_version := draft_version r, entry_ready := True,
             mutation := None, entry_error := []\<rparr>)
      else if \<not> entry_ready e \<and> draft_version r = 0 \<and> dirty e \<and> draft_body r = []
      then Some (e\<lparr>remote := Some r, entry_version := 0, entry_ready := True, entry_error := []\<rparr>)
      else if dirty e \<or> conflict e \<noteq> None \<or>
        (focused e \<and> draft_body r \<noteq> [] \<and> draft_version r > entry_version e)
      then Some (e\<lparr>remote := Some r, entry_version := draft_version r, entry_ready := True,
             conflict := Some r, entry_error := []\<rparr>)
      else Some (e\<lparr>body := draft_body r, reply_to := draft_reply r, remote := Some r,
             entry_version := draft_version r, entry_ready := True, dirty := False, conflict := None,
             mutation := None, entry_error := []\<rparr>))"

definition receive_text_draft :: "json \<Rightarrow> draft_store \<Rightarrow> draft_store" where
  "receive_text_draft v s =
     (case valid_remote (Some v) of
        None \<Rightarrow> s
      | Some r \<Rightarrow>
          if \<not> nonempty (draft_user s) \<or> \<not> enabled s then s
          else
            let scope = draft_scope (draft_room r) (draft_root r);
                s = ensure (draft_room r) (draft_root r) s
            in case Option.bind (jget (entries s) scope) (merge_remote r) of
                 None \<Rightarrow> s
               | Some e \<Rightarrow> schedule scope (put_draft scope (\<lambda>_. e) s))"

section \<open>Reading and writing\<close>

definition is_aborted :: "draft_store \<Rightarrow> nat \<Rightarrow> bool" where
  "is_aborted s c = (c \<in> set (aborted s))"

definition ask :: "draft_request \<Rightarrow> draft_store \<Rightarrow> draft_store" where
  "ask r s = s\<lparr>draft_requests := draft_requests s @ [r]\<rparr>"

definition load_draft_begin :: "string \<Rightarrow> string option \<Rightarrow> draft_store \<Rightarrow> draft_store" where
  "load_draft_begin room root s =
     (case lifetime s of
        None \<Rightarrow> s
      | Some life \<Rightarrow>
          if \<not> nonempty (draft_user s) then s
          else
            let scope = draft_scope room root; s = ensure room root s
            in if \<not> enabled s then put_draft scope (\<lambda>e. e\<lparr>entry_ready := True\<rparr>) s
               else if jhas (reads s) scope then s
               else ask (Get_draft \<lparr>read_scope = scope, read_session = generation s,
                      read_lifetime = life, read_id = fresh s\<rparr>)
                 (s\<lparr>reads := jset (reads s) scope (fresh s), fresh := Suc (fresh s)\<rparr>))"

definition live :: "draft_store \<Rightarrow> nat \<Rightarrow> nat \<Rightarrow> bool" where
  "live s session life = (session = generation s \<and> \<not> is_aborted s life)"

definition load_draft_answer :: "read_task \<Rightarrow> api_error + json \<Rightarrow> draft_store \<Rightarrow> draft_store" where
  "load_draft_answer t result s =
     (if \<not> live s (read_session t) (read_lifetime t) then s
      else case result of
          Inr v \<Rightarrow> receive_text_draft v s
        | Inl e \<Rightarrow> put_draft (read_scope t)
            (\<lambda>en. en\<lparr>entry_error := error_text e ''Could not load synced draft.''\<rparr>) s)"

definition load_draft_finally :: "read_task \<Rightarrow> draft_store \<Rightarrow> draft_store" where
  "load_draft_finally t s =
     (if jget (reads s) (read_scope t) = Some (read_id t)
      then s\<lparr>reads := jdel (reads s) (read_scope t)\<rparr> else s)"

definition write_aborted :: "draft_store \<Rightarrow> write_task \<Rightarrow> bool" where
  "write_aborted s t = (is_aborted s (write_controller t) \<or> is_aborted s (write_lifetime t))"

definition write_begin :: "(nat \<Rightarrow> string) \<Rightarrow> string \<Rightarrow> draft_store \<Rightarrow> draft_store" where
  "write_begin uuid scope s =
     (case (lifetime s, jget (entries s) scope) of
        (Some life, Some e) \<Rightarrow>
          if \<not> nonempty (draft_user s) \<or> \<not> enabled s \<or> jhas (writes s) scope \<or>
             \<not> entry_ready e \<or> \<not> dirty e \<or> conflict e \<noteq> None then s
          else
            let c = fresh s; i = Suc c; n = Suc i;
                mu = (case mutation e of Some mu \<Rightarrow> mu
                   | None \<Rightarrow> \<lparr>mutation_id = uuid n, mutation_body = body e, mutation_reply = reply_to e,
                             mutation_version = entry_version e\<rparr>);
                s = s\<lparr>write_controllers := jset (write_controllers s) scope c, fresh := Suc n\<rparr>;
                s = put_draft scope (\<lambda>e. e\<lparr>mutation := Some mu, writing := True, entry_error := []\<rparr>) s
            in ask (Put_draft \<lparr>write_scope = scope, write_local = e, write_mutation = mu,
                  write_session = generation s, write_lifetime = life, write_controller = c, write_id = i\<rparr>)
                 (s\<lparr>writes := jset (writes s) scope i\<rparr>)
      | _ \<Rightarrow> s)"

text \<open>After a conflict answer (409) the write goes on with a reload, then with \<open>finally\<close>.\<close>

definition write_answer :: "write_task \<Rightarrow> api_error + json \<Rightarrow> draft_store \<Rightarrow> draft_store" where
  "write_answer t result s =
     (if write_session t \<noteq> generation s \<or> write_aborted s t then s
      else case result of
          Inr v \<Rightarrow> receive_text_draft v s
        | Inl e \<Rightarrow>
            if has_status e 409
            then load_draft_begin (entry_room (write_local t)) (entry_root (write_local t))
                   (put_draft (write_scope t) (\<lambda>en. en\<lparr>mutation := None\<rparr>) s)
            else put_draft (write_scope t)
              (\<lambda>en. en\<lparr>entry_error := error_text e ''Draft stays on this device until sync reconnects.''\<rparr>) s)"

definition write_finally :: "write_task \<Rightarrow> draft_store \<Rightarrow> draft_store" where
  "write_finally t s =
     (let scope = write_scope t;
          s = (if jget (write_controllers s) scope = Some (write_controller t)
               then s\<lparr>write_controllers := jdel (write_controllers s) scope\<rparr> else s);
          s = (if jget (writes s) scope = Some (write_id t)
               then s\<lparr>writes := jdel (writes s) scope\<rparr> else s)
      in if write_session t = generation s \<and> \<not> write_aborted s t
         then schedule scope (put_draft scope (\<lambda>e. e\<lparr>writing := False\<rparr>) s) else s)"

definition write_timer :: "(nat \<Rightarrow> string) \<Rightarrow> string \<Rightarrow> draft_store \<Rightarrow> draft_store" where
  "write_timer uuid scope s =
     (if scope \<in> set (timers s) then write_begin uuid scope (s\<lparr>timers := sdel scope (timers s)\<rparr>) else s)"

section \<open>Editing and sending\<close>

definition edit_text_draft :: "string \<Rightarrow> string \<Rightarrow> string option \<Rightarrow> string option \<Rightarrow> draft_store \<Rightarrow> draft_store" where
  "edit_text_draft room t reply root s =
     (if \<not> nonempty (draft_user s) then s
      else
        let scope = draft_scope room root; s = ensure room root s
        in case jget (entries s) scope of
             None \<Rightarrow> s
           | Some e \<Rightarrow>
               if body e = t \<and> nullish (reply_to e) [] = nullish reply [] then s
               else schedule scope (put_draft scope
                 (\<lambda>e. e\<lparr>body := bounded_text t, reply_to := reply, dirty := True, entry_error := []\<rparr>) s))"

definition focus_text_draft :: "string \<Rightarrow> bool \<Rightarrow> string option \<Rightarrow> draft_store \<Rightarrow> draft_store" where
  "focus_text_draft room f root s =
     (if \<not> nonempty (draft_user s) then s
      else put_draft (draft_scope room root) (\<lambda>e. e\<lparr>focused := f\<rparr>) (ensure room root s))"

datatype choice = Local | Remote

definition resolve_draft_conflict :: "string \<Rightarrow> choice \<Rightarrow> string option \<Rightarrow> draft_store \<Rightarrow> draft_store" where
  "resolve_draft_conflict room ch root s =
     (let scope = draft_scope room root
      in case Option.bind (jget (entries s) scope) conflict of
           None \<Rightarrow> s
         | Some r \<Rightarrow> schedule scope (put_draft scope
             (\<lambda>e. case ch of
                Remote \<Rightarrow> e\<lparr>body := draft_body r, reply_to := draft_reply r, dirty := False,
                  conflict := None, mutation := None, entry_error := []\<rparr>
              | Local \<Rightarrow> e\<lparr>dirty := True, conflict := None, mutation := None, entry_error := []\<rparr>) s))"

text \<open>
  \<open>submittedDraft\<close>: up to the reload, the test after it (go on or not), and the result
  after the write; between them run the write in flight and one more \<open>write_begin\<close>.
\<close>

definition submit_begin :: "string \<Rightarrow> string option \<Rightarrow> draft_store \<Rightarrow> draft_store" where
  "submit_begin room root s =
     (let scope = draft_scope room root; s = ensure room root s
      in load_draft_begin room root (s\<lparr>timers := sdel scope (timers s)\<rparr>))"

definition submit_goes_on :: "string \<Rightarrow> string option \<Rightarrow> draft_store \<Rightarrow> bool" where
  "submit_goes_on room root s =
     (enabled s \<and> Option.bind (jget (entries s) (draft_scope room root)) conflict = None)"

definition submit_result ::
  "(nat \<Rightarrow> string) \<Rightarrow> string \<Rightarrow> string option \<Rightarrow> draft_store \<Rightarrow> (int \<times> string) option \<times> draft_store" where
  "submit_result uuid room root s =
     (case jget (entries s) (draft_scope room root) of
        None \<Rightarrow> (None, s)
      | Some e \<Rightarrow>
          if dirty e \<or> conflict e \<noteq> None \<or> entry_error e \<noteq> [] then (None, s)
          else (Some (entry_version e, uuid (fresh s)), s\<lparr>fresh := Suc (fresh s)\<rparr>))"

definition sent_text_draft ::
  "string \<Rightarrow> string \<Rightarrow> string option \<Rightarrow> int option \<Rightarrow> string option \<Rightarrow> draft_store \<Rightarrow> draft_store" where
  "sent_text_draft room t reply submitted root s =
     (let scope = draft_scope room root
      in case jget (entries s) scope of
           None \<Rightarrow> s
         | Some e \<Rightarrow>
             if body e \<noteq> t \<or> nullish (reply_to e) [] \<noteq> nullish reply [] then s
             else if conflict e \<noteq> None \<or> (case submitted of None \<Rightarrow> False | Some v \<Rightarrow> entry_version e > v) then s
             else
               let s = put_draft scope (\<lambda>e. e\<lparr>body := [], reply_to := None, dirty := False,
                         mutation := None, focused := False\<rparr>) s
               in if enabled s then load_draft_begin room root s else s)"

section \<open>Refreshing, the sync setting, the session\<close>

definition stop_draft_writes :: "draft_store \<Rightarrow> draft_store" where
  "stop_draft_writes s =
     notify_drafts (s\<lparr>timers := [], aborted := fold sadd (jvals (write_controllers s)) (aborted s),
       write_controllers := [], writes := [],
       entries := jmap (\<lambda>_ e. e\<lparr>writing := False\<rparr>) (entries s)\<rparr>)"

definition refresh_begin :: "draft_store \<Rightarrow> draft_store" where
  "refresh_begin s =
     (case lifetime s of
        None \<Rightarrow> s
      | Some life \<Rightarrow>
          if \<not> nonempty (draft_user s) \<or> refreshing s \<noteq> None then s
          else ask (Get_setting \<lparr>refresh_session = generation s, refresh_lifetime = life,
                 refresh_id = fresh s, refresh_page = 0, refresh_todo = []\<rparr>)
               (s\<lparr>refreshing := Some (fresh s), fresh := Suc (fresh s)\<rparr>))"

definition refresh_failure :: "refresh_task \<Rightarrow> api_error \<Rightarrow> draft_store \<Rightarrow> draft_store" where
  "refresh_failure t e s =
     (if live s (refresh_session t) (refresh_lifetime t)
      then notify_drafts (s\<lparr>drafts_error := error_text e ''Drafts stay on this device until sync reconnects.''\<rparr>)
      else s)"

definition refresh_setting :: "refresh_task \<Rightarrow> api_error + (bool \<times> int) \<Rightarrow> draft_store \<Rightarrow> draft_store" where
  "refresh_setting t result s =
     (case result of
        Inl e \<Rightarrow> refresh_failure t e s
      | Inr (on, v) \<Rightarrow>
          if \<not> live s (refresh_session t) (refresh_lifetime t) then s
          else
            let s = notify_drafts (s\<lparr>enabled := on, setting_version := v, drafts_ready := True, drafts_error := []\<rparr>)
            in if \<not> on then stop_draft_writes s else ask (Get_drafts t []) s)"

text \<open>
  The last loop: the entries are listed once, and each one that needs it is loaded and
  awaited. The task holds those still to visit; the loop has no session check of its own.
\<close>

definition needs_load :: "draft_entry \<Rightarrow> bool" where
  "needs_load e = (\<not> entry_ready e \<or> dirty e \<or> conflict e \<noteq> None \<or> entry_error e \<noteq> [])"

definition refresh_next :: "refresh_task \<Rightarrow> draft_store \<Rightarrow> refresh_task \<times> draft_store" where
  "refresh_next t s =
     (case dropWhile (\<lambda>e. \<not> needs_load e) (refresh_todo t) of
        [] \<Rightarrow> (t\<lparr>refresh_todo := []\<rparr>, s)
      | e # es \<Rightarrow> (t\<lparr>refresh_todo := es\<rparr>, load_draft_begin (entry_room e) (entry_root e) s))"

text \<open>A page of drafts; at most twenty pages are read. The result is the task at the last loop.\<close>

definition refresh_page_answer ::
  "refresh_task \<Rightarrow> api_error + (json list \<times> string option) \<Rightarrow> draft_store \<Rightarrow> refresh_task option \<times> draft_store" where
  "refresh_page_answer t result s =
     (case result of
        Inl e \<Rightarrow> (None, refresh_failure t e s)
      | Inr (drafts, cursor) \<Rightarrow>
          if \<not> live s (refresh_session t) (refresh_lifetime t) then (None, s)
          else
            let s = fold receive_text_draft drafts s; t = t\<lparr>refresh_page := Suc (refresh_page t)\<rparr>
            in if nonempty cursor \<and> refresh_page t < 20
               then (None, ask (Get_drafts t (nullish cursor [])) s)
               else (case refresh_next (t\<lparr>refresh_todo := jvals (entries s)\<rparr>) s of (t, s) \<Rightarrow> (Some t, s)))"

definition refresh_finally :: "refresh_task \<Rightarrow> draft_store \<Rightarrow> draft_store" where
  "refresh_finally t s = (if refreshing s = Some (refresh_id t) then s\<lparr>refreshing := None\<rparr> else s)"

definition sync_begin :: "bool \<Rightarrow> draft_store \<Rightarrow> draft_store" where
  "sync_begin on s =
     (case lifetime s of
        None \<Rightarrow> s
      | Some life \<Rightarrow>
          if \<not> nonempty (draft_user s) \<or> busy s then s
          else ask (Put_setting \<lparr>sync_enabled = on, sync_session = generation s, sync_lifetime = life\<rparr>
                 (setting_version s)) (notify_drafts (s\<lparr>busy := True, drafts_error := []\<rparr>)))"

text \<open>When the answer leads to \<open>await refreshDrafts()\<close>, \<open>finally\<close> runs after it.\<close>

definition sync_answer :: "sync_task \<Rightarrow> api_error + (bool \<times> int) \<Rightarrow> draft_store \<Rightarrow> draft_store" where
  "sync_answer t result s =
     (case result of
        Inr (on, v) \<Rightarrow>
          if \<not> live s (sync_session t) (sync_lifetime t) then s
          else
            let s = notify_drafts (s\<lparr>enabled := on, setting_version := v\<rparr>);
                s = (if \<not> on then stop_draft_writes s else s);
                s = s\<lparr>timers := []\<rparr>
            in if sync_enabled t then refresh_begin s else s
      | Inl e \<Rightarrow>
          let s = (if live s (sync_session t) (sync_lifetime t)
                   then notify_drafts (s\<lparr>drafts_error := error_text e ''Could not change draft sync.''\<rparr>) else s)
          in if has_status e 409 then refresh_begin s else s)"

definition sync_finally :: "sync_task \<Rightarrow> draft_store \<Rightarrow> draft_store" where
  "sync_finally t s =
     (if live s (sync_session t) (sync_lifetime t) then notify_drafts (s\<lparr>busy := False\<rparr>) else s)"

text \<open>\<open>scope.split(':thread:')\<close>: the parts before and after the first separator, and before the second.\<close>

fun cut :: "string \<Rightarrow> string \<Rightarrow> string \<times> string option" where
  "cut sep [] = ([], None)"
| "cut sep (c # cs) =
     (if take (length sep) (c # cs) = sep then ([], Some (drop (length sep) (c # cs)))
      else (case cut sep cs of (x, y) \<Rightarrow> (c # x, y)))"

definition split_scope :: "string \<Rightarrow> string \<times> string option" where
  "split_scope scope =
     (case cut '':thread:'' scope of (room, rest) \<Rightarrow> (room, map_option (\<lambda>r. fst (cut '':thread:'' r)) rest))"

definition stored_scopes :: "string \<Rightarrow> draft_store \<Rightarrow> string list" where
  "stored_scopes u s =
     (let old = ''bettercomms:draft:'' @ u @ '':''; new = ''bettercomms:text-draft:'' @ u @ '':''
      in fold (\<lambda>key scopes.
           if take (length old) key = old then sadd (drop (length old) key) scopes
           else if take (length new) key = new then sadd (drop (length new) key) scopes
           else scopes) (jkeys (storage s)) [])"

definition clear_tasks :: "draft_store \<Rightarrow> draft_store" where
  "clear_tasks s = s\<lparr>refreshing := None, write_controllers := [], timers := [], writes := [], reads := []\<rparr>"

definition empty_drafts :: "string option \<Rightarrow> draft_store \<Rightarrow> draft_store" where
  "empty_drafts u s = notify_drafts (s\<lparr>draft_user := u, enabled := True, setting_version := 0,
     drafts_ready := False, busy := False, drafts_error := [], entries := []\<rparr>)"

definition start_draft_session :: "string \<Rightarrow> draft_store \<Rightarrow> draft_store" where
  "start_draft_session u s =
     (let s = (case lifetime s of None \<Rightarrow> s | Some c \<Rightarrow> s\<lparr>aborted := sadd c (aborted s)\<rparr>);
          s = clear_tasks s;
          s = s\<lparr>generation := Suc (generation s), lifetime := Some (fresh s), fresh := Suc (fresh s)\<rparr>;
          s = empty_drafts (Some u) s;
          s = (if storage_disabled s then s
               else fold (\<lambda>scope s. case split_scope scope of (room, root) \<Rightarrow>
                      if room \<noteq> [] then ensure room root s else s) (stored_scopes u s) s)
      in refresh_begin s)"

text \<open>
  The function \<open>startDraftSession\<close> returns; \<open>g\<close> and \<open>c\<close> are its session and controller. Its
  \<open>update(empty)\<close> is a patch without \<open>userId\<close>, so the user stays.
\<close>

definition stop_draft_session :: "nat \<Rightarrow> nat \<Rightarrow> draft_store \<Rightarrow> draft_store" where
  "stop_draft_session g c s =
     (if g \<noteq> generation s then s
      else empty_drafts (draft_user s) (clear_tasks (s\<lparr>generation := Suc (generation s),
             aborted := sadd c (aborted s), lifetime := None\<rparr>)))"

section \<open>Unsynced text is never lost to a remote draft\<close>

lemma merge_remote_keeps_dirty:
  assumes "merge_remote r e = Some e'" and "dirty e"
  shows "body e' = body e \<and> reply_to e' = reply_to e \<and>
    (dirty e' \<or> same_text (body e) (reply_to e) r) \<and> entry_version e \<le> entry_version e'"
  using assms by (auto simp: merge_remote_def split: if_splits)

lemma jget_put_draft:
  "jget (entries (put_draft scope f s)) k =
     (if k = scope then map_option f (jget (entries s) scope) else jget (entries s) k)"
  by (auto simp: put_draft_def persist_def notify_drafts_def Let_def split: option.split)

lemma jget_entries_schedule [simp]: "entries (schedule scope s) = entries s"
  by (simp add: schedule_def Let_def split: option.split)

lemma jget_ensure:
  "jget (entries s) k = Some e \<Longrightarrow> jget (entries (ensure room root s)) k = Some e"
  by (auto simp: ensure_def Let_def notify_drafts_def jhas_iff)

lemma jget_receive:
  assumes "jget (entries s) k = Some e"
  obtains "jget (entries (receive_text_draft v s)) k = Some e"
  | r e' where "valid_remote (Some v) = Some r" "merge_remote r e = Some e'"
      "jget (entries (receive_text_draft v s)) k = Some e'" "k = draft_scope (draft_room r) (draft_root r)"
proof (cases "jget (entries (receive_text_draft v s)) k = Some e")
  case False
  then obtain r where r: "valid_remote (Some v) = Some r" "nonempty (draft_user s)" "enabled s"
    using assms by (auto simp: receive_text_draft_def split: option.splits if_splits)
  let ?scope = "draft_scope (draft_room r) (draft_root r)" and ?s = "ensure (draft_room r) (draft_root r) s"
  have e: "jget (entries ?s) k = Some e" using assms by (rule jget_ensure)
  show ?thesis
  proof (cases "k = ?scope")
    case True
    then have step: "receive_text_draft v s = (case merge_remote r e of None \<Rightarrow> ?s
        | Some e' \<Rightarrow> schedule ?scope (put_draft ?scope (\<lambda>_. e') ?s))"
      using r e by (simp add: receive_text_draft_def Let_def)
    show ?thesis
    proof (cases "merge_remote r e")
      case None
      then show ?thesis using False step e by simp
    next
      case (Some e')
      then have "jget (entries (receive_text_draft v s)) k = Some e'"
        using step e True by (simp add: jget_put_draft)
      then show ?thesis using that(2) r Some True by blast
    qed
  next
    case other: False
    then have "jget (entries (receive_text_draft v s)) k = Some e"
      using r e by (simp add: receive_text_draft_def Let_def jget_put_draft split: option.split)
    then show ?thesis using False by simp
  qed
qed (rule that(1))

text \<open>
  C31. Text that has not been synced is never overwritten: whatever the server sends, a
  dirty entry keeps its body and its reply; it stays dirty unless the server holds the very
  same text, and its version never decreases.
\<close>

theorem receive_keeps_unsynced_text:
  assumes "jget (entries s) scope = Some e" and "dirty e"
  shows "\<exists>e'. jget (entries (receive_text_draft v s)) scope = Some e' \<and>
    body e' = body e \<and> reply_to e' = reply_to e \<and> entry_version e \<le> entry_version e' \<and>
    (dirty e' \<or> (\<exists>r. valid_remote (Some v) = Some r \<and> same_text (body e) (reply_to e) r))"
  by (rule jget_receive [OF assms(1), of v])
    (use merge_remote_keeps_dirty assms(2) in \<open>fastforce+\<close>)

end
