(* ===== verification/DraftRuns.thy ===== *)
theory DraftRuns
  imports DraftStore
begin

text \<open>
  Runs of the draft store (\<open>features/personal/draftStore.ts\<close>): within a session every entry
  point and every answer is an event, and versions only grow; answers that arrive after
  their session are inert; an interrupted write is retried unchanged; a reload restores
  what had been typed.
\<close>

definition sample_entry :: draft_entry where
  "sample_entry = (empty_entry ''r'' None)\<lparr>body := ''hi'', dirty := True, entry_ready := True\<rparr>"

definition sample_drafts :: draft_store where
  "sample_drafts = \<lparr>draft_user = Some ''u'', enabled = True, setting_version = 1, drafts_ready = True,
     busy = False, drafts_error = [], entries = [(''r'', sample_entry)], generation = 1,
     lifetime = Some 0, refreshing = None, draft_listeners = [], draft_calls = [], timers = [],
     writes = [], write_controllers = [], reads = [], aborted = [], fresh = 1, storage = [],
     storage_disabled = False, draft_requests = []\<rparr>"

theorem receive_keeps_unsynced_text_witness:
  "map_option body (jget (entries (receive_text_draft
     (Obj [(''room_id'', Str ''r''), (''body'', Str ''other''), (''version'', Num 7), (''updated_at'', Str ''t'')])
     sample_drafts)) ''r'') = Some ''hi''"
proof -
  have "jget (entries sample_drafts) ''r'' = Some sample_entry" "dirty sample_entry"
    by (simp_all add: sample_drafts_def sample_entry_def)
  from receive_keeps_unsynced_text [OF this] show ?thesis by (auto simp: sample_entry_def)
qed

section \<open>Versions only grow\<close>

definition advances :: "string \<Rightarrow> draft_store \<Rightarrow> draft_store \<Rightarrow> bool" where
  "advances scope s s' \<longleftrightarrow> (\<forall>e. jget (entries s) scope = Some e \<longrightarrow>
     (\<exists>e'. jget (entries s') scope = Some e' \<and> entry_version e \<le> entry_version e'))"

lemma advances_refl [simp]: "advances scope s s"
  by (simp add: advances_def)

lemma advances_trans: "advances scope s t \<Longrightarrow> advances scope t u \<Longrightarrow> advances scope s u"
  unfolding advances_def by (meson order_trans)

lemma advances_same: "entries s' = entries s \<Longrightarrow> advances scope s0 s' = advances scope s0 s"
  by (simp add: advances_def)

lemma advances_eq [simp]:
  "advances k s0 (schedule scope s) = advances k s0 s" "advances k s0 (ask r s) = advances k s0 s"
  "advances k s0 (notify_drafts s) = advances k s0 s"
  "advances k s0 (s\<lparr>timers := a\<rparr>) = advances k s0 s" "advances k s0 (s\<lparr>writes := b\<rparr>) = advances k s0 s"
  "advances k s0 (s\<lparr>write_controllers := b\<rparr>) = advances k s0 s" "advances k s0 (s\<lparr>reads := b\<rparr>) = advances k s0 s"
  "advances k s0 (s\<lparr>fresh := n\<rparr>) = advances k s0 s" "advances k s0 (s\<lparr>refreshing := c\<rparr>) = advances k s0 s"
  "advances k s0 (s\<lparr>enabled := d\<rparr>) = advances k s0 s" "advances k s0 (s\<lparr>busy := d\<rparr>) = advances k s0 s"
  "advances k s0 (s\<lparr>setting_version := i\<rparr>) = advances k s0 s" "advances k s0 (s\<lparr>drafts_error := f\<rparr>) = advances k s0 s"
  "advances k s0 (s\<lparr>drafts_ready := d\<rparr>) = advances k s0 s" "advances k s0 (s\<lparr>aborted := g\<rparr>) = advances k s0 s"
  by (simp_all add: advances_def ask_def notify_drafts_def)

lemma advances_put:
  "advances k s0 s \<Longrightarrow> (\<And>e. entry_version (f e) = entry_version e) \<Longrightarrow> advances k s0 (put_draft scope f s)"
  by (auto simp: advances_def jget_put_draft)

lemma advances_ensure: "advances k s0 s \<Longrightarrow> advances k s0 (ensure room root s)"
  unfolding advances_def using jget_ensure by metis

lemma merge_remote_version: "merge_remote r e = Some e' \<Longrightarrow> entry_version e \<le> entry_version e'"
  by (auto simp: merge_remote_def split: if_splits)

lemma advances_receive: "advances k s0 s \<Longrightarrow> advances k s0 (receive_text_draft v s)"
proof (rule advances_trans, assumption)
  show "advances k s (receive_text_draft v s)"
    unfolding advances_def
  proof (intro allI impI)
    fix e assume "jget (entries s) k = Some e"
    then show "\<exists>e'. jget (entries (receive_text_draft v s)) k = Some e' \<and> entry_version e \<le> entry_version e'"
      by (rule jget_receive [of _ _ _ v]) (use merge_remote_version in \<open>fastforce+\<close>)
  qed
qed

lemma advances_fold: "(\<And>x s. advances k s0 s \<Longrightarrow> advances k s0 (f x s)) \<Longrightarrow> advances k s0 s \<Longrightarrow> advances k s0 (fold f xs s)"
  by (induction xs arbitrary: s) auto

lemma advances_load: "advances k s0 s \<Longrightarrow> advances k s0 (load_draft_begin room root s)"
  by (simp add: load_draft_begin_def Let_def advances_ensure advances_put split: option.split)

lemma advances_answers:
  "advances k s0 s \<Longrightarrow> advances k s0 (load_draft_answer t r s)"
  "advances k s0 s \<Longrightarrow> advances k s0 (load_draft_finally t s)"
  "advances k s0 s \<Longrightarrow> advances k s0 (write_begin uuid scope s)"
  "advances k s0 s \<Longrightarrow> advances k s0 (write_answer w r s)"
  "advances k s0 s \<Longrightarrow> advances k s0 (write_finally w s)"
  by (simp_all add: load_draft_answer_def load_draft_finally_def write_begin_def write_answer_def
      write_finally_def Let_def advances_receive advances_put advances_load split: sum.split option.split)

lemma advances_user:
  "advances k s0 s \<Longrightarrow> advances k s0 (edit_text_draft room t reply root s)"
  "advances k s0 s \<Longrightarrow> advances k s0 (focus_text_draft room f root s)"
  "advances k s0 s \<Longrightarrow> advances k s0 (resolve_draft_conflict room ch root s)"
  "advances k s0 s \<Longrightarrow> advances k s0 (submit_begin room root s)"
  "advances k s0 s \<Longrightarrow> advances k s0 (sent_text_draft room t reply sub root s)"
  by (simp_all add: edit_text_draft_def focus_text_draft_def resolve_draft_conflict_def submit_begin_def
      sent_text_draft_def Let_def advances_ensure advances_put advances_load split: option.split choice.split)

lemma advances_stop: "advances k s0 s \<Longrightarrow> advances k s0 (stop_draft_writes s)"
  by (auto simp: stop_draft_writes_def advances_def notify_drafts_def)

lemma advances_refresh:
  "advances k s0 s \<Longrightarrow> advances k s0 (refresh_begin s)"
  "advances k s0 s \<Longrightarrow> advances k s0 (refresh_setting t r s)"
  "advances k s0 s \<Longrightarrow> advances k s0 (snd (refresh_next t s))"
  "advances k s0 s \<Longrightarrow> advances k s0 (snd (refresh_page_answer t r' s))"
  "advances k s0 s \<Longrightarrow> advances k s0 (refresh_finally t s)"
  "advances k s0 s \<Longrightarrow> advances k s0 (sync_begin on s)"
  "advances k s0 s \<Longrightarrow> advances k s0 (sync_answer y r s)"
  "advances k s0 s \<Longrightarrow> advances k s0 (sync_finally y s)"
proof -
  assume ok: "advances k s0 s"
  have nxt: "advances k s0 s \<Longrightarrow> advances k s0 (snd (refresh_next t s))" for t s
    by (simp add: refresh_next_def advances_load split: list.split)
  show "advances k s0 (snd (refresh_next t s))" using ok by (rule nxt)
  show "advances k s0 (refresh_begin s)" using ok by (simp add: refresh_begin_def split: option.split)
  then show "advances k s0 (sync_answer y r s)"
    using ok by (auto simp: sync_answer_def refresh_begin_def Let_def advances_stop split: sum.split option.split)
  show "advances k s0 (refresh_setting t r s)"
    using ok by (simp add: refresh_setting_def refresh_failure_def Let_def advances_stop split: sum.split prod.split)
  show "advances k s0 (snd (refresh_page_answer t r' s))"
  proof (cases r')
    case (Inr dc)
    have "advances k s0 (fold receive_text_draft (fst dc) s)"
      by (rule advances_fold [OF advances_receive ok])
    then show ?thesis
      using Inr nxt ok by (cases dc) (simp add: refresh_page_answer_def Let_def split_beta)
  qed (use ok in \<open>simp add: refresh_page_answer_def refresh_failure_def\<close>)
qed (simp_all add: refresh_finally_def sync_begin_def sync_finally_def split: option.split)

datatype draft_event =
    Receive_draft json
  | Load_draft string "string option"
  | Read_answer read_task "api_error + json"
  | Read_finally read_task
  | Write_timer string
  | Write_answer write_task "api_error + json"
  | Write_finally write_task
  | Edit_draft string string "string option" "string option"
  | Focus_draft string bool "string option"
  | Resolve_conflict string choice "string option"
  | Submit_begin string "string option"
  | Submit_write string "string option"
  | Sent_draft string string "string option" "int option" "string option"
  | Refresh_drafts
  | Refresh_setting refresh_task "api_error + (bool \<times> int)"
  | Refresh_page refresh_task "api_error + (json list \<times> string option)"
  | Refresh_next refresh_task
  | Refresh_finally refresh_task
  | Set_sync bool
  | Sync_answer sync_task "api_error + (bool \<times> int)"
  | Sync_finally sync_task

fun draft_step :: "(nat \<Rightarrow> string) \<Rightarrow> draft_store \<Rightarrow> draft_event \<Rightarrow> draft_store" where
  "draft_step uuid s (Receive_draft v) = receive_text_draft v s"
| "draft_step uuid s (Load_draft room root) = load_draft_begin room root s"
| "draft_step uuid s (Read_answer t r) = load_draft_answer t r s"
| "draft_step uuid s (Read_finally t) = load_draft_finally t s"
| "draft_step uuid s (Write_timer scope) = write_timer uuid scope s"
| "draft_step uuid s (Write_answer t r) = write_answer t r s"
| "draft_step uuid s (Write_finally t) = write_finally t s"
| "draft_step uuid s (Edit_draft room t reply root) = edit_text_draft room t reply root s"
| "draft_step uuid s (Focus_draft room f root) = focus_text_draft room f root s"
| "draft_step uuid s (Resolve_conflict room ch root) = resolve_draft_conflict room ch root s"
| "draft_step uuid s (Submit_begin room root) = submit_begin room root s"
| "draft_step uuid s (Submit_write room root) =
     (if submit_goes_on room root s then write_begin uuid (draft_scope room root) s else s)"
| "draft_step uuid s (Sent_draft room t reply sub root) = sent_text_draft room t reply sub root s"
| "draft_step uuid s Refresh_drafts = refresh_begin s"
| "draft_step uuid s (Refresh_setting t r) = refresh_setting t r s"
| "draft_step uuid s (Refresh_page t r) = snd (refresh_page_answer t r s)"
| "draft_step uuid s (Refresh_next t) = snd (refresh_next t s)"
| "draft_step uuid s (Refresh_finally t) = refresh_finally t s"
| "draft_step uuid s (Set_sync on) = sync_begin on s"
| "draft_step uuid s (Sync_answer t r) = sync_answer t r s"
| "draft_step uuid s (Sync_finally t) = sync_finally t s"

lemma advances_step: "advances k s (draft_step uuid s e)"
  by (cases e) (simp_all add: advances_receive advances_load advances_answers advances_user
      advances_refresh write_timer_def)

definition has_draft :: "string \<Rightarrow> draft_store \<Rightarrow> bool" where
  "has_draft scope s = jhas (entries s) scope"

definition draft_level :: "string \<Rightarrow> draft_store \<Rightarrow> int" where
  "draft_level scope s = (case jget (entries s) scope of None \<Rightarrow> 0 | Some e \<Rightarrow> entry_version e)"

lemma advances_level:
  assumes "advances k s s'" and "has_draft k s"
  shows "has_draft k s'" and "draft_level k s \<le> draft_level k s'"
proof -
  obtain e where e: "jget (entries s) k = Some e" using assms(2) by (auto simp: has_draft_def jhas_iff)
  then obtain e' where "jget (entries s') k = Some e'" "entry_version e \<le> entry_version e'"
    using assms(1) by (auto simp: advances_def)
  then show "has_draft k s'" "draft_level k s \<le> draft_level k s'"
    using e by (simp_all add: has_draft_def draft_level_def jhas_iff)
qed

interpretation drafts: monotone_machine "draft_step uuid" "has_draft scope" "draft_level scope" for uuid scope
  by unfold_locales (rule advances_level [OF advances_step], assumption)+

text \<open>
  Within a session a draft never goes back: once a scope has an entry it keeps one,
  and its version never decreases, over any sequence of edits, answers, failures, timers,
  refreshes and setting changes.
\<close>

theorem draft_versions_monotone:
  assumes "jget (entries s) scope = Some e"
  shows "\<exists>e'. jget (entries (foldl (draft_step uuid) s es)) scope = Some e' \<and> entry_version e \<le> entry_version e'"
proof -
  have "has_draft scope s" using assms by (simp add: has_draft_def jhas_iff)
  from drafts.run_level [OF this, of uuid es] drafts.run_inv [OF this, of uuid es] show ?thesis
    using assms by (auto simp: has_draft_def draft_level_def jhas_iff)
qed

theorem draft_versions_monotone_witness:
  "\<exists>e'. jget (entries (foldl (draft_step (\<lambda>_. ''id'')) sample_drafts
     [Receive_draft (Obj [(''room_id'', Str ''r''), (''body'', Str []), (''version'', Num 0)]), Refresh_drafts])) ''r'' = Some e' \<and>
     0 \<le> entry_version e'"
proof -
  have e: "jget (entries sample_drafts) ''r'' = Some sample_entry" "entry_version sample_entry = 0"
    by (simp_all add: sample_drafts_def sample_entry_def empty_entry_def)
  show ?thesis using draft_versions_monotone [OF e(1)] unfolding e(2) .
qed

section \<open>Answers of an earlier session\<close>

datatype draft_completion =
    Read_done read_task "api_error + json"
  | Write_done write_task "api_error + json"
  | Write_ended write_task
  | Setting_done refresh_task "api_error + (bool \<times> int)"
  | Page_done refresh_task "api_error + (json list \<times> string option)"
  | Sync_done sync_task "api_error + (bool \<times> int)"
  | Sync_ended sync_task

fun draft_complete :: "draft_store \<Rightarrow> draft_completion \<Rightarrow> draft_store" where
  "draft_complete s (Read_done t r) = load_draft_finally t (load_draft_answer t r s)"
| "draft_complete s (Write_done t r) = write_answer t r s"
| "draft_complete s (Write_ended t) = write_finally t s"
| "draft_complete s (Setting_done t r) = refresh_setting t r s"
| "draft_complete s (Page_done t r) = refresh_finally t (snd (refresh_page_answer t r s))"
| "draft_complete s (Sync_done t r) = sync_answer t r s"
| "draft_complete s (Sync_ended t) = sync_finally t s"

fun draft_completion_session :: "draft_completion \<Rightarrow> nat" where
  "draft_completion_session (Read_done t r) = read_session t"
| "draft_completion_session (Write_done t r) = write_session t"
| "draft_completion_session (Write_ended t) = write_session t"
| "draft_completion_session (Setting_done t r) = refresh_session t"
| "draft_completion_session (Page_done t r) = refresh_session t"
| "draft_completion_session (Sync_done t r) = sync_session t"
| "draft_completion_session (Sync_ended t) = sync_session t"

definition draft_view :: "draft_store \<Rightarrow> nat \<times> string option \<times> bool \<times> int \<times> bool \<times> bool \<times>
    (string, draft_entry) jsmap \<times> (string, json option) jsmap \<times> string list" where
  "draft_view s = (generation s, draft_user s, enabled s, setting_version s, drafts_ready s, busy s,
     entries s, storage s, timers s)"

definition stale_draft :: "draft_store \<Rightarrow> draft_completion \<Rightarrow> bool" where
  "stale_draft s t = (draft_completion_session t \<noteq> generation s)"

lemma draft_view_simps:
  "draft_view (load_draft_finally t s) = draft_view s" "draft_view (refresh_finally r s) = draft_view s"
  "draft_view (refresh_begin s) = draft_view s"
  by (simp_all add: draft_view_def load_draft_finally_def refresh_finally_def refresh_begin_def ask_def
      split: option.split)

lemma stale_draft_view: "stale_draft s t \<Longrightarrow> draft_view (draft_complete s t) = draft_view s"
proof (cases t)
  case (Page_done task r)
  assume "stale_draft s t"
  then show ?thesis
    using Page_done by (cases r) (auto simp: stale_draft_def draft_view_simps refresh_page_answer_def
        refresh_failure_def live_def split: prod.split)
next
  case (Sync_done task r)
  assume "stale_draft s t"
  then show ?thesis
    using Sync_done by (cases r) (auto simp: stale_draft_def draft_view_simps sync_answer_def live_def)
qed (auto simp: stale_draft_def draft_view_simps load_draft_answer_def write_answer_def live_def
    refresh_setting_def refresh_failure_def sync_finally_def split: sum.split,
    auto simp: draft_view_def write_finally_def Let_def)

interpretation draft_session: session_guard draft_complete stale_draft draft_view
proof
  show "stale_draft s t \<Longrightarrow> draft_view (draft_complete s t) = draft_view s" for s t
    by (rule stale_draft_view)
  show "stale_draft s t \<Longrightarrow> stale_draft s u \<Longrightarrow> stale_draft (draft_complete s u) t" for s t u
    using stale_draft_view [of s u] by (simp add: stale_draft_def draft_view_def)
qed

text \<open>
  When the session ends, the answers still on their way to it (drafts read or
  written, settings, pages, in any number and order) change neither the drafts nor the
  local storage nor the timers of what follows.
\<close>

theorem ended_draft_session_inert:
  assumes "\<forall>t\<in>set ts. draft_completion_session t \<le> g" and "g = generation s"
  shows "draft_view (foldl draft_complete (stop_draft_session g c s) ts) = draft_view (stop_draft_session g c s)"
proof (rule draft_session.stale_run, rule ballI)
  fix t assume "t \<in> set ts"
  then have "draft_completion_session t \<le> g" using assms(1) by blast
  moreover have "generation (stop_draft_session g c s) = Suc g"
    using assms(2) by (simp add: stop_draft_session_def empty_drafts_def clear_tasks_def notify_drafts_def)
  ultimately show "stale_draft (stop_draft_session g c s) t" by (simp add: stale_draft_def)
qed

theorem ended_draft_session_inert_witness:
  "entries (foldl draft_complete (stop_draft_session 1 0 sample_drafts)
     [Read_done \<lparr>read_scope = ''r'', read_session = 1, read_lifetime = 0, read_id = 5\<rparr> (Inl Other_thrown),
      Sync_ended \<lparr>sync_enabled = True, sync_session = 1, sync_lifetime = 0\<rparr>]) = []"
proof -
  have g: "1 = generation sample_drafts" by (simp add: sample_drafts_def)
  have "entries (stop_draft_session 1 0 sample_drafts) = []"
    by (simp add: stop_draft_session_def g [symmetric] empty_drafts_def notify_drafts_def)
  moreover have "\<forall>t\<in>set [Read_done \<lparr>read_scope = ''r'', read_session = 1, read_lifetime = 0, read_id = 5\<rparr> (Inl Other_thrown),
      Sync_ended \<lparr>sync_enabled = True, sync_session = 1, sync_lifetime = 0\<rparr>]. draft_completion_session t \<le> 1"
    by simp
  ultimately show ?thesis
    using ended_draft_session_inert [OF _ g, of _ 0] unfolding draft_view_def prod.inject by metis
qed

text \<open>
  The user outlives the stop: an edit that comes after it is still kept in the local storage
  under his name, although the store shows no more entries than that one and no session runs.
\<close>

theorem stopped_drafts_are_still_stored:
  "let s = edit_text_draft ''q'' ''late'' None None (stop_draft_session 1 0 sample_drafts) in
     lifetime s = None \<and> jkeys (entries s) = [''q''] \<and>
     storage s = [(local_key ''u'' ''q'', Some (entry_json (empty_entry ''q'' None\<lparr>body := ''late'', dirty := True\<rparr>)))]"
proof -
  let ?s = "stop_draft_session 1 0 sample_drafts"
  have stop: "draft_user ?s = Some ''u''" "entries ?s = []" "storage ?s = []" "lifetime ?s = None" "\<not> storage_disabled ?s"
    by (simp_all add: stop_draft_session_def sample_drafts_def empty_drafts_def clear_tasks_def notify_drafts_def)
  show ?thesis
    using stop by (simp add: Let_def edit_text_draft_def ensure_def stored_entry_def put_draft_def persist_def
      notify_drafts_def schedule_def draft_scope_def empty_entry_def bounded_text_def jhas_iff)
qed

section \<open>Retrying a write\<close>

lemma write_begin_request:
  assumes "draft_requests (write_begin uuid scope s) = draft_requests s @ [Put_draft t]"
  shows "\<exists>e. jget (entries s) scope = Some e \<and> write_scope t = scope \<and> write_local t = e \<and>
    (\<forall>mu. mutation e = Some mu \<longrightarrow> write_mutation t = mu) \<and>
    write_session t = generation s \<and>
    map_option mutation (jget (entries (write_begin uuid scope s)) scope) = Some (Some (write_mutation t)) \<and>
    generation (write_begin uuid scope s) = generation s"
proof -
  obtain life e where life: "lifetime s = Some life" and e: "jget (entries s) scope = Some e"
    using assms by (auto simp: write_begin_def split: option.splits)
  have "draft_requests (put_draft k f s) = draft_requests s" "generation (put_draft k f s) = generation s" for k f s
    by (simp_all add: put_draft_def persist_def notify_drafts_def Let_def split: option.split)
  then show ?thesis
    using assms life e
    by (auto simp: write_begin_def Let_def ask_def jget_put_draft split: if_splits option.splits)
qed

definition pending_mutation :: "string \<Rightarrow> draft_store \<Rightarrow> mutation option" where
  "pending_mutation scope s = Option.bind (jget (entries s) scope) mutation"

lemma pending_mutation_put:
  "(\<And>e. mutation (f e) = mutation e) \<Longrightarrow> pending_mutation k (put_draft scope f s) = pending_mutation k s"
  by (cases "jget (entries s) scope") (auto simp: pending_mutation_def jget_put_draft)

lemma pending_mutation_schedule [simp]: "pending_mutation k (schedule scope s) = pending_mutation k s"
  by (simp add: pending_mutation_def)

lemma pending_mutation_ensure: "pending_mutation k s = Some mu \<Longrightarrow> pending_mutation k (ensure room root s) = Some mu"
  using jget_ensure [of s k _ room root]
  by (cases "jget (entries s) k") (simp_all add: pending_mutation_def)

lemma pending_mutation_failure:
  "\<not> has_status e 409 \<Longrightarrow> pending_mutation k (write_answer t (Inl e) s) = pending_mutation k s"
  by (simp add: write_answer_def pending_mutation_put)

lemma pending_mutation_finally: "pending_mutation k (write_finally t s) = pending_mutation k s"
  by (simp add: write_finally_def Let_def pending_mutation_put) (simp add: pending_mutation_def)

lemma pending_mutation_edit:
  "pending_mutation k s = Some mu \<Longrightarrow> pending_mutation k (edit_text_draft room t reply root s) = Some mu"
  by (simp add: edit_text_draft_def Let_def pending_mutation_put pending_mutation_ensure split: option.split)

lemma write_begin_uses_pending:
  "draft_requests (write_begin uuid scope s) = draft_requests s @ [Put_draft t] \<Longrightarrow>
   pending_mutation scope s = Some mu \<Longrightarrow> write_mutation t = mu"
  by (drule write_begin_request) (auto simp: pending_mutation_def)

lemma write_begin_leaves_pending:
  "draft_requests (write_begin uuid scope s) = draft_requests s @ [Put_draft t] \<Longrightarrow>
   pending_mutation scope (write_begin uuid scope s) = Some (write_mutation t)"
  by (drule write_begin_request) (auto simp: pending_mutation_def)

text \<open>
  C32. A write whose answer was lost is retried as the same request: after a failure that
  is no conflict, and whatever the user types before the retry, the next write of the scope
  carries the same mutation id, text, reply and expected version, so the server can
  recognise it and cannot apply it twice.
\<close>

theorem lost_write_is_retried_unchanged:
  assumes "draft_requests (write_begin uuid scope s) = draft_requests s @ [Put_draft t]"
    and "\<not> has_status e 409"
    and "s' = edit_text_draft room txt reply root (write_finally t (write_answer t (Inl e) (write_begin uuid scope s)))"
    and "draft_requests (write_begin uuid' scope s') = draft_requests s' @ [Put_draft t']"
  shows "write_mutation t' = write_mutation t"
proof (rule write_begin_uses_pending [OF assms(4)])
  show "pending_mutation scope s' = Some (write_mutation t)"
    using write_begin_leaves_pending [OF assms(1)] assms(2)
    by (simp add: assms(3) pending_mutation_edit pending_mutation_finally pending_mutation_failure)
qed

lemma sample_write:
  "write_begin (\<lambda>_. ''id'') ''r'' sample_drafts = sample_drafts\<lparr>fresh := 4,
     write_controllers := [(''r'', 1)], writes := [(''r'', 2)],
     entries := [(''r'', sample_entry\<lparr>writing := True, mutation := Some
       \<lparr>mutation_id = ''id'', mutation_body = ''hi'', mutation_reply = None, mutation_version = 0\<rparr>\<rparr>)],
     storage := [(local_key ''u'' ''r'', Some (entry_json (sample_entry\<lparr>mutation := Some
       \<lparr>mutation_id = ''id'', mutation_body = ''hi'', mutation_reply = None, mutation_version = 0\<rparr>\<rparr>)))],
     draft_requests := [Put_draft \<lparr>write_scope = ''r'', write_local = sample_entry, write_mutation =
       \<lparr>mutation_id = ''id'', mutation_body = ''hi'', mutation_reply = None, mutation_version = 0\<rparr>,
       write_session = 1, write_lifetime = 0, write_controller = 1, write_id = 2\<rparr>]\<rparr>"
  by (simp add: write_begin_def sample_drafts_def sample_entry_def empty_entry_def Let_def put_draft_def
      persist_def notify_drafts_def ask_def entry_json_def jhas_def)

theorem lost_write_is_retried_unchanged_witness:
  "let s1 = write_begin (\<lambda>_. ''id'') ''r'' sample_drafts;
       t = \<lparr>write_scope = ''r'', write_local = sample_entry, write_mutation =
         \<lparr>mutation_id = ''id'', mutation_body = ''hi'', mutation_reply = None, mutation_version = 0\<rparr>,
         write_session = 1, write_lifetime = 0, write_controller = 1, write_id = 2\<rparr>;
       s2 = edit_text_draft ''r'' ''hi there'' None None
         (write_finally t (write_answer t (Inl (Request_error ''bad gateway'' 502)) s1))
   in \<exists>t'. draft_requests (write_begin (\<lambda>_. ''other'') ''r'' s2) = draft_requests s2 @ [Put_draft t'] \<and>
        write_mutation t' = write_mutation t"
proof -
  define t where "t = \<lparr>write_scope = ''r'', write_local = sample_entry, write_mutation =
         \<lparr>mutation_id = ''id'', mutation_body = ''hi'', mutation_reply = None, mutation_version = 0\<rparr>,
         write_session = 1, write_lifetime = 0, write_controller = 1, write_id = (2::nat)\<rparr>"
  define s2 where "s2 = edit_text_draft ''r'' ''hi there'' None None
         (write_finally t (write_answer t (Inl (Request_error ''bad gateway'' 502)) (write_begin (\<lambda>_. ''id'') ''r'' sample_drafts)))"
  have one: "draft_requests (write_begin (\<lambda>_. ''id'') ''r'' sample_drafts) = draft_requests sample_drafts @ [Put_draft t]"
    by (simp add: sample_write t_def) (simp add: sample_drafts_def)
  have two: "\<exists>t'. draft_requests (write_begin (\<lambda>_. ''other'') ''r'' s2) = draft_requests s2 @ [Put_draft t']"
    unfolding s2_def sample_write
    by (simp add: t_def edit_text_draft_def write_finally_def write_answer_def write_aborted_def is_aborted_def
        sample_drafts_def sample_entry_def empty_entry_def Let_def put_draft_def persist_def notify_drafts_def
        ensure_def draft_scope_def schedule_def write_begin_def ask_def jhas_def jdel_def bounded_text_def)
  then obtain t' where t': "draft_requests (write_begin (\<lambda>_. ''other'') ''r'' s2) = draft_requests s2 @ [Put_draft t']" ..
  have "write_mutation t' = write_mutation t"
    by (rule lost_write_is_retried_unchanged [OF one _ s2_def t']) simp
  then show ?thesis using t' unfolding Let_def s2_def t_def by blast
qed

section \<open>Reloading\<close>

definition remote_sane :: "text_draft \<Rightarrow> bool" where
  "remote_sane r \<longleftrightarrow> length (draft_body r) \<le> 4000 \<and> safe_integer (draft_version r) \<and> 0 \<le> draft_version r \<and>
     (draft_updated r = None \<longrightarrow> draft_version r = 0 \<and> draft_body r = [])"

definition entry_sane :: "draft_entry \<Rightarrow> bool" where
  "entry_sane e \<longleftrightarrow> length (body e) \<le> 4000 \<and> safe_integer (entry_version e) \<and>
     (\<forall>r. remote e = Some r \<longrightarrow> remote_sane r) \<and> (\<forall>r. conflict e = Some r \<longrightarrow> remote_sane r) \<and>
     (\<forall>mu. mutation e = Some mu \<longrightarrow> length (mutation_body mu) \<le> 4000 \<and> safe_integer (mutation_version mu))"

lemma valid_remote_json: "remote_sane r \<Longrightarrow> valid_remote (Some (remote_json r)) = Some r"
  by (cases "draft_root r"; cases "draft_reply r"; cases "draft_mutation r"; cases "draft_updated r")
    (auto simp: valid_remote_def remote_json_def remote_sane_def opt_field_def opt_string_def
      intro!: text_draft.equality)

lemma stored_mutation_json:
  "length (mutation_body mu) \<le> 4000 \<Longrightarrow> safe_integer (mutation_version mu) \<Longrightarrow>
   stored_mutation (Some (mutation_json mu)) = Some mu"
  by (cases "mutation_reply mu")
    (auto simp: stored_mutation_def mutation_json_def opt_field_def bounded_text_def intro!: mutation.equality)

definition synced_part :: "draft_entry \<Rightarrow> string \<times> string option \<times> int \<times> bool \<times> text_draft option \<times>
    text_draft option \<times> mutation option" where
  "synced_part e = (body e, reply_to e, entry_version e, dirty e, remote e, conflict e, mutation e)"

lemma valid_remote_none [simp]: "valid_remote None = None" "stored_mutation None = None"
  by (simp_all add: valid_remote_def stored_mutation_def)

text \<open>The fields of a stored entry, read back.\<close>

lemma entry_json_fields:
  "field (Some (entry_json e)) ''body'' = Some (Str (body e))"
  "field (Some (entry_json e)) ''replyToId'' = map_option Str (reply_to e)"
  "field (Some (entry_json e)) ''version'' = Some (Num (entry_version e))"
  "field (Some (entry_json e)) ''dirty'' = Some (Bool (dirty e))"
  "field (Some (entry_json e)) ''remote'' = map_option remote_json (remote e)"
  "field (Some (entry_json e)) ''conflict'' = map_option remote_json (conflict e)"
  "field (Some (entry_json e)) ''mutation'' = map_option mutation_json (mutation e)"
  by (simp_all add: entry_json_def opt_field_def opt_json_def split: option.split)

lemma str_field_Str [simp]: "str_field (map_option Str v) = v"
  by (cases v) simp_all

lemma read_back:
  "(\<And>r. v = Some r \<Longrightarrow> remote_sane r) \<Longrightarrow> valid_remote (map_option remote_json v) = v"
  "(\<And>mu. w = Some mu \<Longrightarrow> length (mutation_body mu) \<le> 4000 \<and> safe_integer (mutation_version mu)) \<Longrightarrow>
   stored_mutation (map_option mutation_json w) = w"
  by (cases v, simp_all add: valid_remote_json) (cases w, simp_all add: stored_mutation_json)

lemma restore_entry_json:
  "entry_sane e \<Longrightarrow> synced_part (restore_entry (Some (entry_json e)) (body e) e0) = synced_part e"
  by (simp add: restore_entry_def entry_json_fields read_back synced_part_def entry_sane_def bounded_text_def)

lemma stored_entry_json:
  assumes "entry_sane e" and "\<not> storage_disabled s" and "jget (storage s) (local_key u scope) = Some (Some (entry_json e))"
  shows "synced_part (stored_entry u scope s e0) = synced_part e"
proof -
  show ?thesis
    using assms(2,3) restore_entry_json [OF assms(1), of e0]
    by (simp add: stored_entry_def Let_def entry_json_fields del: field.simps)
qed

text \<open>Splitting a scope gives its room and its thread back.\<close>

lemma cut_no_colon:
  "CHR '':'' \<notin> set t \<Longrightarrow> cut '':thread:'' t = (t, None)"
  "CHR '':'' \<notin> set t \<Longrightarrow> cut '':thread:'' (t @ '':thread:'' @ u) = (t, Some u)"
  by (induction t) auto

lemma split_scope_draft:
  assumes "CHR '':'' \<notin> set room" and "CHR '':'' \<notin> set (nullish root [])" and "root \<noteq> Some []"
  shows "split_scope (draft_scope room root) = (room, root)"
proof (cases root)
  case None
  then show ?thesis using assms cut_no_colon(1) [of room] by (simp add: draft_scope_def split_scope_def)
next
  case (Some r)
  have "cut '':thread:'' (room @ '':thread:'' @ r) = (room, Some r)" using cut_no_colon(2) assms(1) .
  then show ?thesis
    using Some assms cut_no_colon(1) [of r] by (simp add: draft_scope_def split_scope_def)
qed

lemma ensure_synced:
  assumes "draft_user s = Some u" "u \<noteq> []" "entry_sane e" "\<not> storage_disabled s"
    "jget (storage s) (local_key u scope) = Some (Some (entry_json e))"
    "\<And>e'. jget (entries s) scope = Some e' \<Longrightarrow> synced_part e' = synced_part e"
    "jget (entries (ensure room root s)) scope = Some e'"
  shows "synced_part e' = synced_part e"
proof (cases "jhas (entries s) scope")
  case True
  then obtain e'' where e'': "jget (entries s) scope = Some e''" by (auto simp: jhas_iff)
  then have "e' = e''" using assms(7) jget_ensure [OF e'', of room root] by simp
  then show ?thesis using e'' assms(6) by simp
next
  case False
  then have "draft_scope room root = scope \<and> e' = stored_entry u scope s (empty_entry room root)"
    using assms(1,2,7) by (auto simp: ensure_def Let_def notify_drafts_def jhas_iff split: if_splits)
  then show ?thesis using stored_entry_json [OF assms(3,4,5)] by simp
qed

lemma fold_member:
  assumes "\<And>k acc. x \<in> set acc \<Longrightarrow> x \<in> set (g k acc)" and "\<And>acc. x \<in> set (g k acc)"
  shows "k \<in> set ks \<or> x \<in> set acc \<Longrightarrow> x \<in> set (fold g ks acc)"
proof (induction ks arbitrary: acc)
  case (Cons k' ks)
  then have "k \<in> set ks \<or> x \<in> set (g k' acc)" using assms by auto
  then show ?case using Cons.IH by simp
qed simp

lemma stored_scopes_member:
  assumes "local_key u scope \<in> set (jkeys (storage s))"
  shows "scope \<in> set (stored_scopes u s)"
proof -
  let ?old = "''bettercomms:draft:'' @ u @ '':''" and ?new = "''bettercomms:text-draft:'' @ u @ '':''"
  let ?g = "\<lambda>key scopes. if take (length ?old) key = ?old then sadd (drop (length ?old) key) scopes
    else if take (length ?new) key = ?new then sadd (drop (length ?new) key) scopes else scopes"
  have add: "scope \<in> set (?g (local_key u scope) acc)" for acc
  proof -
    have "take (length ?old) (local_key u scope) \<noteq> ?old" by (simp add: local_key_def)
    moreover have "local_key u scope = ?new @ scope" by (simp add: local_key_def)
    ultimately show ?thesis by simp
  qed
  have "scope \<in> set (?g k acc)" if "scope \<in> set acc" for k acc using that by simp
  from fold_member [of scope ?g, OF this add] show ?thesis
    using assms unfolding stored_scopes_def Let_def by blast
qed

lemma ensure_fields [simp]:
  "draft_user (ensure room root s) = draft_user s" "storage (ensure room root s) = storage s"
  "storage_disabled (ensure room root s) = storage_disabled s"
  by (simp_all add: ensure_def Let_def notify_drafts_def)

lemma ensure_has: "jhas (entries (ensure room root s)) (draft_scope room root)"
  by (simp add: ensure_def Let_def notify_drafts_def jhas_def)

lemma ensure_keeps_has: "jhas (entries s) k \<Longrightarrow> jhas (entries (ensure room root s)) k"
  by (auto simp: ensure_def Let_def notify_drafts_def jhas_def)

definition restoring :: "string \<Rightarrow> string \<Rightarrow> draft_entry \<Rightarrow> draft_store \<Rightarrow> bool" where
  "restoring u scope e s \<longleftrightarrow> draft_user s = Some u \<and> \<not> storage_disabled s \<and>
     jget (storage s) (local_key u scope) = Some (Some (entry_json e)) \<and>
     (\<forall>e'. jget (entries s) scope = Some e' \<longrightarrow> synced_part e' = synced_part e)"

abbreviation restore_scope :: "string \<Rightarrow> draft_store \<Rightarrow> draft_store" where
  "restore_scope k s \<equiv> (case split_scope k of (room, root) \<Rightarrow> if room \<noteq> [] then ensure room root s else s)"

lemma restoring_step:
  "u \<noteq> [] \<Longrightarrow> entry_sane e \<Longrightarrow> restoring u scope e s \<Longrightarrow> restoring u scope e (restore_scope k s)"
  using ensure_synced by (simp add: restoring_def split: prod.split) metis

lemma restoring_fold:
  assumes "u \<noteq> []" and "entry_sane e" and "split_scope scope = (room, root)" and "room \<noteq> []"
    and "draft_scope room root = scope"
  shows "restoring u scope e s \<Longrightarrow> restoring u scope e (fold restore_scope ks s) \<and>
    (scope \<in> set ks \<or> jhas (entries s) scope \<longrightarrow> jhas (entries (fold restore_scope ks s)) scope)"
proof (induction ks arbitrary: s)
  case (Cons k ks)
  have step: "restoring u scope e (restore_scope k s)"
    by (rule restoring_step [OF assms(1,2) Cons.prems])
  have "k = scope \<or> jhas (entries s) scope \<Longrightarrow> jhas (entries (restore_scope k s)) scope"
    using assms(3-5) ensure_has [of room root s] by (auto simp: ensure_keeps_has split: prod.split)
  then show ?case using Cons.IH [OF step] by auto
qed simp

lemma start_entries:
  "\<not> storage_disabled t \<Longrightarrow> \<exists>s0. entries (start_draft_session u t) = entries (fold restore_scope (stored_scopes u s0) s0) \<and>
     draft_user s0 = Some u \<and> storage s0 = storage t \<and> \<not> storage_disabled s0 \<and> entries s0 = []"
  by (rule exI [of _ "empty_drafts (Some u) ((clear_tasks (case lifetime t of None \<Rightarrow> t
        | Some c \<Rightarrow> t\<lparr>aborted := sadd c (aborted t)\<rparr>))\<lparr>generation := Suc (generation t), lifetime := Some (fresh t),
        fresh := Suc (fresh t)\<rparr>)"])
    (auto simp: start_draft_session_def Let_def empty_drafts_def clear_tasks_def notify_drafts_def refresh_begin_def
      ask_def split: option.split)

text \<open>
  C33. Nothing typed is lost by a reload: once an entry has been stored, a session of the
  same user that starts from the same local storage shows it again, with its text, reply,
  version, unsynced mark, remote copy, conflict and unanswered write.
\<close>

theorem reload_restores_draft:
  assumes "draft_user s = Some u" and "u \<noteq> []" and "\<not> storage_disabled s"
    and "jget (entries s) scope = Some e" and "entry_sane (f e)"
    and "scope = draft_scope room root" and "room \<noteq> []" and "CHR '':'' \<notin> set room"
    and "CHR '':'' \<notin> set (nullish root [])" and "root \<noteq> Some []"
    and "storage t = storage (put_draft scope f s)" and "\<not> storage_disabled t"
  shows "\<exists>e'. jget (entries (start_draft_session u t)) scope = Some e' \<and> synced_part e' = synced_part (f e)"
proof -
  have stored: "jget (storage t) (local_key u scope) = Some (Some (entry_json (f e)))"
    using assms(1-4,11) by (simp add: put_draft_def persist_def Let_def notify_drafts_def)
  obtain s0 where s0: "entries (start_draft_session u t) = entries (fold restore_scope (stored_scopes u s0) s0)"
    "draft_user s0 = Some u" "storage s0 = storage t" "\<not> storage_disabled s0" "entries s0 = []"
    using start_entries [OF assms(12), of u] by blast
  have split: "split_scope scope = (room, root)" using split_scope_draft assms(6,8-10) by simp
  have key: "local_key u scope \<in> set (jkeys (storage s0))"
    using stored s0(3) by (metis jget_None_iff option.distinct(1))
  have "restoring u scope (f e) s0" using s0 stored by (simp add: restoring_def)
  from restoring_fold [OF assms(2,5) split assms(7) assms(6) [symmetric] this, of "stored_scopes u s0"]
    stored_scopes_member [OF key]
  show ?thesis unfolding s0(1) by (auto simp: restoring_def jhas_iff)
qed

theorem reload_restores_draft_witness:
  "\<exists>e'. jget (entries (start_draft_session ''u''
       (sample_drafts\<lparr>entries := [], storage := storage (put_draft ''r'' (\<lambda>e. e) sample_drafts)\<rparr>))) ''r'' = Some e' \<and>
     body e' = ''hi'' \<and> dirty e'"
proof -
  let ?t = "sample_drafts\<lparr>entries := [], storage := storage (put_draft ''r'' (\<lambda>e. e) sample_drafts)\<rparr>"
  have "\<exists>e'. jget (entries (start_draft_session ''u'' ?t)) ''r'' = Some e' \<and>
      synced_part e' = synced_part ((\<lambda>e. e) sample_entry)"
    by (rule reload_restores_draft [where s = sample_drafts and room = "''r''" and root = None])
      (simp_all add: sample_drafts_def sample_entry_def empty_entry_def entry_sane_def safe_integer_def draft_scope_def)
  then show ?thesis by (auto simp: synced_part_def sample_entry_def)
qed

text \<open>
  The last loop of a refresh outlives its session: each of its awaits is followed by
  the next load without a check of the session, so when another user has signed in
  meanwhile, the loop gives that user an entry for a room of the previous one, and asks
  the server for it in the new session.
\<close>

theorem stale_refresh_loads_old_rooms:
  assumes "refresh_todo t = e # es" and "needs_load e" and "refresh_session t \<noteq> generation s"
    and "draft_user s = Some u" and "u \<noteq> []" and "lifetime s = Some life" and "enabled s"
    and "reads s = []"
  shows "jhas (entries (snd (refresh_next t s))) (draft_scope (entry_room e) (entry_root e)) \<and>
    (\<exists>r. draft_requests (snd (refresh_next t s)) = draft_requests s @ [Get_draft r] \<and>
       read_session r = generation s \<and> read_scope r = draft_scope (entry_room e) (entry_root e))"
proof -
  have same: "draft_requests (ensure room root s) = draft_requests s" "generation (ensure room root s) = generation s"
    "enabled (ensure room root s) = enabled s" "reads (ensure room root s) = reads s" for room root
    by (simp_all add: ensure_def Let_def notify_drafts_def)
  show ?thesis
    using assms(1,2,4-8) ensure_has [of "entry_room e" "entry_root e" s]
    by (simp add: refresh_next_def load_draft_begin_def Let_def same ask_def jhas_def)
qed

theorem stale_refresh_loads_old_rooms_witness:
  "jhas (entries (snd (refresh_next \<lparr>refresh_session = 0, refresh_lifetime = 9, refresh_id = 9,
     refresh_page = 1, refresh_todo = [(empty_entry ''old'' None)\<lparr>dirty := True\<rparr>]\<rparr> sample_drafts))) ''old''"
  using stale_refresh_loads_old_rooms [of "\<lparr>refresh_session = 0, refresh_lifetime = 9, refresh_id = 9,
     refresh_page = 1, refresh_todo = [(empty_entry ''old'' None)\<lparr>dirty := True\<rparr>]\<rparr>"
     "(empty_entry ''old'' None)\<lparr>dirty := True\<rparr>" "[]" sample_drafts "''u''" 0]
  by (simp add: needs_load_def sample_drafts_def empty_entry_def draft_scope_def)

end
