(* ===== verification/Uploads.thy ===== *)
theory Uploads
  imports Prelude
begin

text \<open>
  Resumable uploads (\<open>features/chat/resumableUploads.ts\<close>).

  The answers of the server and the moments at which the upload is paused (its signal
  aborted, or the session replaced) are the record \<open>upload_env\<close>, a parameter: \<open>live m\<close> is the
  test \<open>current()\<close>, or the one in \<open>onload\<close>, at the moment \<open>m\<close>. The chunk loop runs on fuel,
  with the result \<open>None\<close> when it runs out: the theorems say how much is enough, and when
  none is. The SHA-256 fingerprint is a given string; a chunk is its length. Progress in
  percent is \<open>None\<close> for \<open>NaN\<close> (an empty file).
\<close>

section \<open>Data\<close>

datatype upload_state = Creating | Uploading | Assembled | Complete

record upload_status =
  upload_id :: string
  size_bytes :: int
  offset :: int
  chunk_bytes :: int
  upload_state :: upload_state
  upload_fingerprint :: string

datatype upload_error = Paused | Message string | Api_failure int "string option"

datatype chunk_answer =
    Request_failed string
  | Request_aborted
  | Response int "string option" "upload_status option"

datatype moment =
    At_start
  | After_fingerprint
  | After_status
  | After_create
  | Before_slice nat
  | Before_put nat
  | At_answer nat
  | After_complete

record upload_env =
  file_size :: int
  file_fingerprint :: string
  live :: "moment \<Rightarrow> bool"
  status_answer :: "upload_error + upload_status"
  create_answer :: "upload_error + upload_status"
  chunk_reply :: "nat \<Rightarrow> upload_status \<Rightarrow> int \<Rightarrow> chunk_answer"
  complete_answer :: "upload_error + string"

section \<open>A chunk\<close>

text \<open>The length of \<open>file.slice(a, b)\<close>: a negative bound counts from the end.\<close>

definition slice_bound :: "int \<Rightarrow> int \<Rightarrow> int" where
  "slice_bound whole_size a = (if a < 0 then max 0 (whole_size + a) else min a whole_size)"

definition slice_length :: "int \<Rightarrow> int \<Rightarrow> int \<Rightarrow> int" where
  "slice_length whole_size a b = max 0 (slice_bound whole_size b - slice_bound whole_size a)"

definition chunk_length :: "int \<Rightarrow> upload_status \<Rightarrow> int" where
  "chunk_length whole_size u = slice_length whole_size (offset u) (min whole_size (offset u + chunk_bytes u))"

definition put_chunk :: "upload_env \<Rightarrow> nat \<Rightarrow> upload_status \<Rightarrow> int \<Rightarrow> upload_error + upload_status" where
  "put_chunk env n u len =
     (case chunk_reply env n u len of
        Request_failed t \<Rightarrow> Inl (Message t)
      | Request_aborted \<Rightarrow> Inl Paused
      | Response status code value \<Rightarrow>
          if \<not> live env (At_answer n) then Inl Paused
          else if status < 200 \<or> status \<ge> 300 then Inl (Api_failure status code)
          else (case value of
              None \<Rightarrow> Inl (Message ''Upload progress could not be confirmed. Retry to resume.'')
            | Some v \<Rightarrow>
                if upload_id v \<noteq> upload_id u \<or> offset v < offset u + len
                then Inl (Message ''Upload progress could not be confirmed. Retry to resume.'')
                else Inr v))"

definition percent :: "int \<Rightarrow> int \<Rightarrow> num" where
  "percent part whole = (if whole = 0 then None else Some (min 99 ((200 * part + whole) div (2 * whole))))"

text \<open>\<open>request.upload.onprogress\<close>\<close>

definition chunk_progress :: "upload_status \<Rightarrow> int \<Rightarrow> int \<Rightarrow> num" where
  "chunk_progress u loaded len = percent (offset u + min loaded len) (size_bytes u)"

fun upload_loop :: "nat \<Rightarrow> upload_env \<Rightarrow> nat \<Rightarrow> upload_status \<Rightarrow> (upload_error + upload_status) option" where
  "upload_loop 0 env n u = None"
| "upload_loop (Suc fuel) env n u =
     (if \<not> offset u < file_size env then Some (Inr u)
      else if \<not> live env (Before_slice n) then Some (Inl Paused)
      else if \<not> live env (Before_put n) then Some (Inl Paused)
      else case put_chunk env n u (chunk_length (file_size env) u) of
          Inl e \<Rightarrow> Some (Inl e)
        | Inr v \<Rightarrow> upload_loop fuel env (Suc n) v)"

section \<open>The upload\<close>

record upload_run =
  cached :: "(string, string) jsmap"
  progress :: "num list"
  sessions :: "string list"
  cancelled :: "string list"

definition valid_progress :: "int \<Rightarrow> upload_status \<Rightarrow> bool" where
  "valid_progress whole_size u = (size_bytes u = whole_size \<and> 1 \<le> chunk_bytes u \<and> chunk_bytes u \<le> 8388608 \<and>
     0 \<le> offset u \<and> offset u \<le> whole_size)"

text \<open>The status of the saved upload, or a new one.\<close>

definition find_upload ::
  "upload_env \<Rightarrow> string \<Rightarrow> string option \<Rightarrow> upload_run \<Rightarrow> (upload_error + upload_status) \<times> upload_run" where
  "find_upload env room resume r =
     (let existing = (case resume of Some i \<Rightarrow> Some i | None \<Rightarrow> jget (cached r) room);
          created = create_answer env
      in if \<not> nonempty existing then (created, r)
         else case status_answer env of
             Inl (Api_failure status code) \<Rightarrow>
               if status \<noteq> 404 then (Inl (Api_failure status code), r)
               else if \<not> live env After_status then (Inl Paused, r\<lparr>cached := jdel (cached r) room\<rparr>)
               else (created, r\<lparr>cached := jdel (cached r) room\<rparr>)
           | Inl e \<Rightarrow> (Inl e, r)
           | Inr u \<Rightarrow>
               if \<not> live env After_status then (Inl Paused, r)
               else if upload_fingerprint u \<noteq> file_fingerprint env
               then (Inl (Message ''This file differs from the saved upload. Remove it and choose the original file.''), r)
               else (Inr u, r))"

definition rejected_file :: "upload_error \<Rightarrow> bool" where
  "rejected_file e = (case e of
     Api_failure _ (Some code) \<Rightarrow> code \<in> {''unsupported_file'', ''infected_file'', ''checksum_mismatch''}
   | _ \<Rightarrow> False)"

text \<open>The chunks and the completion, with the \<open>catch\<close> block. The id is that of the upload
  object at the time of the error: the same in every confirmed status.\<close>

definition send_upload ::
  "nat \<Rightarrow> upload_env \<Rightarrow> string \<Rightarrow> upload_status \<Rightarrow> upload_run \<Rightarrow> ((upload_error + string) \<times> upload_run) option" where
  "send_upload fuel env room u r =
     (let failed = (\<lambda>e. (Inl e, if rejected_file e
            then r\<lparr>cached := jdel (cached r) room, cancelled := cancelled r @ [upload_id u]\<rparr> else r))
      in case upload_loop fuel env 0 u of
           None \<Rightarrow> None
         | Some (Inl e) \<Rightarrow> Some (failed e)
         | Some (Inr v) \<Rightarrow> Some (case complete_answer env of
               Inl e \<Rightarrow> failed e
             | Inr attachment \<Rightarrow>
                 if \<not> live env After_complete then failed Paused
                 else (Inr attachment, r\<lparr>cached := jdel (cached r) room, progress := progress r @ [Some 100]\<rparr>)))"

definition upload_resumable_attachment ::
  "nat \<Rightarrow> upload_env \<Rightarrow> string \<Rightarrow> string option \<Rightarrow> string \<Rightarrow> upload_run \<Rightarrow>
   ((upload_error + string) \<times> upload_run) option" where
  "upload_resumable_attachment fuel env room resume attachment r =
     (if \<not> live env At_start \<or> \<not> live env After_fingerprint then Some (Inl Paused, r)
      else case find_upload env room resume r of
          (Inl e, r) \<Rightarrow> Some (Inl e, r)
        | (Inr u, r) \<Rightarrow>
            if \<not> live env After_create then Some (Inl Paused, r)
            else
              let r = r\<lparr>cached := jset (cached r) room (upload_id u), sessions := sessions r @ [upload_id u]\<rparr>
              in if \<not> valid_progress (file_size env) u then Some (Inl (Message ''Invalid upload progress''), r)
                 else
                   let r = r\<lparr>progress := progress r @ [percent (offset u) (file_size env)]\<rparr>
                   in if upload_state u = Complete
                      then Some (Inr attachment, r\<lparr>cached := jdel (cached r) room, progress := progress r @ [Some 100]\<rparr>)
                      else send_upload fuel env room u r)"

section \<open>Progress and termination\<close>

lemma chunk_length_nonneg: "0 \<le> chunk_length whole_size u"
  by (simp add: chunk_length_def slice_length_def)

lemma chunk_length_pos:
  "0 \<le> offset u \<Longrightarrow> offset u < whole_size \<Longrightarrow> 1 \<le> chunk_bytes u \<Longrightarrow>
   chunk_length whole_size u = min (chunk_bytes u) (whole_size - offset u)"
  by (auto simp: chunk_length_def slice_length_def slice_bound_def min_def)

lemma put_chunk_confirms:
  "put_chunk env n u len = Inr v \<Longrightarrow> upload_id v = upload_id u \<and> offset u + len \<le> offset v"
  by (auto simp: put_chunk_def split: chunk_answer.splits option.splits if_splits)

lemma put_chunk_answer:
  "put_chunk env n u len = Inr v \<Longrightarrow> \<exists>status code. chunk_reply env n u len = Response status code (Some v)"
  by (auto simp: put_chunk_def split: chunk_answer.splits option.splits if_splits)

definition positive_chunks :: "upload_env \<Rightarrow> bool" where
  "positive_chunks env \<longleftrightarrow> (\<forall>n u len status code v.
     chunk_reply env n u len = Response status code (Some v) \<longrightarrow> 1 \<le> chunk_bytes v)"

lemma upload_loop_returns:
  assumes pos: "positive_chunks env"
  shows "0 \<le> offset u \<Longrightarrow> 1 \<le> chunk_bytes u \<Longrightarrow> nat (file_size env - offset u) < fuel \<Longrightarrow>
    \<exists>r. upload_loop fuel env n u = Some r \<and>
      (\<forall>v. r = Inr v \<longrightarrow> upload_id v = upload_id u \<and> file_size env \<le> offset v)"
proof (induction fuel arbitrary: n u)
  case (Suc fuel)
  let ?len = "chunk_length (file_size env) u"
  show ?case
  proof (cases "offset u < file_size env \<and> live env (Before_slice n) \<and> live env (Before_put n)")
    case True
    show ?thesis
    proof (cases "put_chunk env n u ?len")
      case (Inr v)
      have len: "1 \<le> ?len"
        using chunk_length_pos [of u "file_size env"] True Suc.prems by simp
      have conf: "upload_id v = upload_id u" "offset u + ?len \<le> offset v"
        using put_chunk_confirms [OF Inr] by simp_all
      obtain status code where "chunk_reply env n u ?len = Response status code (Some v)"
        using put_chunk_answer [OF Inr] by blast
      then have "1 \<le> chunk_bytes v" using pos unfolding positive_chunks_def by blast
      moreover have "0 \<le> offset v" using conf len Suc.prems by linarith
      moreover have "nat (file_size env - offset v) < fuel" using conf len Suc.prems True by linarith
      ultimately obtain r where r: "upload_loop fuel env (Suc n) v = Some r"
        "\<forall>w. r = Inr w \<longrightarrow> upload_id w = upload_id v \<and> file_size env \<le> offset w"
        using Suc.IH [of v "Suc n"] by blast
      have "upload_loop (Suc fuel) env n u = Some r" using True Inr r(1) by simp
      then show ?thesis using r(2) unfolding conf(1) by blast
    qed (use True in simp)
  qed auto
qed simp

text \<open>
  C38. An upload ends: if the server never reports a chunk size below one byte, the loop
  returns within as many rounds as the file has bytes plus one, from any valid status, and
  when it returns without error the server has confirmed the whole file, under the id of
  the upload it started from.
\<close>

theorem upload_terminates_complete:
  assumes "positive_chunks env" and "valid_progress (file_size env) u"
  shows "\<exists>r. upload_loop (nat (file_size env) + 1) env 0 u = Some r \<and>
    (\<forall>v. r = Inr v \<longrightarrow> upload_id v = upload_id u \<and> file_size env \<le> offset v)"
  by (rule upload_loop_returns [OF assms(1)]) (use assms(2) in \<open>unfold valid_progress_def, linarith+\<close>)

definition stalling_env :: upload_env where
  "stalling_env = \<lparr>file_size = 10, file_fingerprint = ''f'', live = (\<lambda>_. True),
     status_answer = Inl Paused, create_answer = Inr \<lparr>upload_id = ''u'', size_bytes = 10, offset = 0,
       chunk_bytes = 4, upload_state = Uploading, upload_fingerprint = ''f''\<rparr>,
     chunk_reply = (\<lambda>_ u len. Response 200 None (Some (u\<lparr>offset := offset u + len, chunk_bytes := 0\<rparr>))),
     complete_answer = Inr ''a''\<rparr>"

definition steady_env :: upload_env where
  "steady_env = stalling_env\<lparr>chunk_reply := (\<lambda>_ u len. Response 200 None (Some (u\<lparr>offset := offset u + len, chunk_bytes := 4\<rparr>)))\<rparr>"

theorem upload_terminates_complete_witness:
  "\<exists>r. upload_loop 11 steady_env 0 \<lparr>upload_id = ''u'', size_bytes = 10, offset = 0, chunk_bytes = 4,
     upload_state = Uploading, upload_fingerprint = ''f''\<rparr> = Some r"
  using upload_terminates_complete [of steady_env "\<lparr>upload_id = ''u'', size_bytes = 10, offset = 0, chunk_bytes = 4,
     upload_state = Uploading, upload_fingerprint = ''f''\<rparr>"]
  by (auto simp: positive_chunks_def steady_env_def stalling_env_def valid_progress_def)

lemma put_chunk_stalls:
  assumes "\<forall>m. live env m" and "\<forall>n u len. chunk_reply env n u len = Response 200 None (Some (u\<lparr>offset := offset u + len, chunk_bytes := 0\<rparr>))"
  shows "put_chunk env n u len = Inr (u\<lparr>offset := offset u + len, chunk_bytes := 0\<rparr>)"
  using assms by (simp add: put_chunk_def)

lemma stalled_loop:
  assumes "\<forall>m. live env m" and "\<forall>n u len. chunk_reply env n u len = Response 200 None (Some (u\<lparr>offset := offset u + len, chunk_bytes := 0\<rparr>))"
  shows "0 \<le> offset u \<Longrightarrow> offset u < file_size env \<Longrightarrow> chunk_bytes u = 0 \<Longrightarrow> upload_loop fuel env n u = None"
proof (induction fuel arbitrary: n u)
  case (Suc fuel)
  have "chunk_length (file_size env) u = 0"
    using Suc.prems by (simp add: chunk_length_def slice_length_def slice_bound_def)
  then show ?case
    using Suc assms(1) put_chunk_stalls [OF assms] by simp
qed simp

text \<open>
  The chunk size is checked only in the first status. A server whose later statuses
  report a chunk size of zero, and are otherwise accepted by every check of the code, makes
  the loop send empty chunks for ever: no number of rounds is enough.
\<close>

theorem upload_loop_can_stall:
  assumes "\<forall>m. live env m"
    and "\<forall>n u len. chunk_reply env n u len = Response 200 None (Some (u\<lparr>offset := offset u + len, chunk_bytes := 0\<rparr>))"
    and "valid_progress (file_size env) u" and "chunk_bytes u < file_size env - offset u"
  shows "upload_loop fuel env n u = None"
proof (cases fuel)
  case (Suc k)
  have len: "chunk_length (file_size env) u = chunk_bytes u"
    using chunk_length_pos [of u "file_size env"] assms(3,4) by (simp add: valid_progress_def)
  have "upload_loop k env (Suc n) (u\<lparr>offset := offset u + chunk_bytes u, chunk_bytes := 0\<rparr>) = None"
    by (rule stalled_loop [OF assms(1,2)]) (use assms(3,4) in \<open>simp_all add: valid_progress_def\<close>)
  then show ?thesis
    using assms(1,3,4) put_chunk_stalls [OF assms(1,2)] by (simp add: Suc len valid_progress_def)
qed simp

theorem upload_loop_can_stall_witness:
  "upload_loop 1000 stalling_env 0 \<lparr>upload_id = ''u'', size_bytes = 10, offset = 0, chunk_bytes = 4,
     upload_state = Uploading, upload_fingerprint = ''f''\<rparr> = None"
  by (rule upload_loop_can_stall) (simp_all add: stalling_env_def valid_progress_def)

end
