(* ===== verification/ClipBuffer.thy ===== *)
theory ClipBuffer
  imports Complex_Main Prelude
begin

text \<open>
  The rolling clip buffer (\<open>media/clipBuffer.ts\<close>).

  An instance is the record \<open>clip_buffer\<close>. Its active segments are objects shared by
  closures, so they live in a store, \<open>items\<close>, and are named by their index. What the browser
  decides at an event is the record \<open>media_env\<close>: the clock, which tracks are live, how
  \<open>new MediaRecorder\<close> and \<open>start\<close> turn out, whether a recorder is inactive and whether
  \<open>stop\<close> throws. Blobs are their sizes in bytes. A promise settles at an event of its own:
  \<open>settle_item\<close> for the end of \<open>finish\<close>, \<open>dispose_finish\<close> and \<open>snapshot_finish\<close> after the
  promises they wait for.
\<close>

section \<open>State\<close>

record clip_segment =
  seg_peer :: string
  seg_source :: string
  seg_start :: real
  seg_end :: real
  seg_size :: nat

record clip_track =
  track_id :: string
  track_peer :: string
  track_source :: string

record clip_item =
  descriptor :: clip_track
  chunks :: "nat list"
  item_start :: real
  item_bytes :: nat
  item_end :: "real option"
  stopping :: bool
  released :: bool

record clip_buffer =
  active :: "(string, nat) jsmap"
  items :: "clip_item list"
  segments :: "clip_segment list"
  pending :: "nat list"
  timer :: bool
  disposed :: bool
  dispose_waits :: "nat list"
  bytes :: int
  window_ms :: real
  segment_ms :: real
  max_bytes :: real
  errors :: "string list"

datatype begin_outcome = Begun | Constructor_throws | Start_throws bool

record media_env =
  now :: real
  track_live :: "string \<Rightarrow> bool"
  begins :: "string \<Rightarrow> begin_outcome"
  inactive :: "nat \<Rightarrow> bool"
  stop_throws :: "nat \<Rightarrow> bool"

definition new_buffer :: "real \<Rightarrow> real \<Rightarrow> real \<Rightarrow> clip_buffer option" where
  "new_buffer window segment maxb =
     (if window > 0 \<and> segment > 0 \<and> maxb > 0
      then Some \<lparr>active = [], items = [], segments = [], pending = [], timer = True, disposed = False,
        dispose_waits = [], bytes = 0, window_ms = window, segment_ms = segment, max_bytes = maxb, errors = []\<rparr>
      else None)"

section \<open>Operations\<close>

definition cmp_end :: "clip_segment \<Rightarrow> clip_segment \<Rightarrow> int" where
  "cmp_end a b = (if seg_end a < seg_end b then -1 else if seg_end a > seg_end b then 1 else 0)"

fun drop_old :: "real \<Rightarrow> real \<Rightarrow> clip_segment list \<Rightarrow> int \<Rightarrow> clip_segment list \<times> int" where
  "drop_old cutoff limit [] b = ([], b)"
| "drop_old cutoff limit (x # xs) b =
     (if seg_end x \<le> cutoff \<or> of_int b > limit
      then drop_old cutoff limit xs (b - int (seg_size x)) else (x # xs, b))"

definition evict :: "real \<Rightarrow> clip_buffer \<Rightarrow> clip_buffer" where
  "evict t s =
     (case drop_old (t - window_ms s) (max_bytes s) (js_sort cmp_end (segments s)) (bytes s) of
        (xs, b) \<Rightarrow> s\<lparr>segments := xs, bytes := b\<rparr>)"

definition drop_active :: "nat \<Rightarrow> clip_buffer \<Rightarrow> clip_buffer" where
  "drop_active i s =
     (let key = track_id (descriptor (items s ! i))
      in if jget (active s) key = Some i then s\<lparr>active := jdel (active s) key\<rparr> else s)"

text \<open>\<open>release\<close>, the closure of an item; after it the recorder has no handlers.\<close>

definition release :: "media_env \<Rightarrow> bool \<Rightarrow> nat \<Rightarrow> clip_buffer \<Rightarrow> clip_buffer" where
  "release env retain i s =
     (let it = items s ! i
      in if i \<ge> length (items s) \<or> released it then s
         else
           let s = drop_active i (s\<lparr>items := (items s)[i := it\<lparr>released := True, chunks := []\<rparr>]\<rparr>);
               s = s\<lparr>bytes := bytes s - int (item_bytes it)\<rparr>;
               t = nullish (item_end it) (now env)
           in if retain \<and> \<not> disposed s \<and> item_bytes it \<noteq> 0 \<and> t - item_start it > 1
              then evict (now env)
                (s\<lparr>segments := segments s @ [\<lparr>seg_peer = track_peer (descriptor it),
                     seg_source = track_source (descriptor it), seg_start = item_start it, seg_end = t,
                     seg_size = sum_list (chunks it)\<rparr>],
                   bytes := bytes s + int (sum_list (chunks it))\<rparr>)
              else s)"

definition stop_segment :: "media_env \<Rightarrow> nat \<Rightarrow> clip_buffer \<Rightarrow> clip_buffer" where
  "stop_segment env i s =
     (if i \<ge> length (items s) \<or> stopping (items s ! i) then s
      else
        let s = s\<lparr>items := (items s)[i := (items s ! i)\<lparr>stopping := True, item_end := Some (now env)\<rparr>]\<rparr>;
            s = drop_active i s;
            s = s\<lparr>pending := sadd i (pending s)\<rparr>
        in if \<not> inactive env i \<and> stop_throws env i then release env True i s else s)"

definition dispose :: "media_env \<Rightarrow> clip_buffer \<Rightarrow> clip_buffer" where
  "dispose env s =
     (if disposed s then s
      else
        let s = fold (stop_segment env) (jvals (active s)) (s\<lparr>disposed := True, timer := False\<rparr>)
        in s\<lparr>dispose_waits := pending s\<rparr>)"

definition report :: "string \<Rightarrow> clip_buffer \<Rightarrow> clip_buffer" where
  "report t s = s\<lparr>errors := errors s @ [t]\<rparr>"

definition begin_segment :: "media_env \<Rightarrow> clip_track \<Rightarrow> clip_buffer \<Rightarrow> clip_buffer" where
  "begin_segment env d s =
     (if disposed s then s
      else
        let i = length (items s);
            started = s\<lparr>items := items s @ [\<lparr>descriptor = d, chunks = [], item_start = now env,
                item_bytes = 0, item_end = None, stopping = False, released = False\<rparr>],
              active := jset (active s) (track_id d) i\<rparr>
        in case begins env (track_id d) of
             Begun \<Rightarrow> started
           | Constructor_throws \<Rightarrow> dispose env (report ''recorder'' s)
           | Start_throws inactive_now \<Rightarrow>
               dispose env (report ''start'' (if inactive_now then release env True i started else started)))"

definition rotate :: "media_env \<Rightarrow> clip_buffer \<Rightarrow> clip_buffer" where
  "rotate env s =
     (if disposed s then s
      else evict (now env)
        (fold (\<lambda>i s. let s = stop_segment env i s; d = descriptor (items s ! i)
                     in if track_live env (track_id d) then begin_segment env d s else s)
           (jvals (active s)) s))"

definition reconcile :: "media_env \<Rightarrow> clip_track list \<Rightarrow> clip_buffer \<Rightarrow> clip_buffer" where
  "reconcile env tracks s =
     (if disposed s then s
      else
        let current = fold (\<lambda>d m. jset m (track_id d) d) (filter (\<lambda>d. track_live env (track_id d)) tracks) [];
            s = fold (\<lambda>(k, i) s. if jhas current k then s else stop_segment env i s) (active s) s;
            s = fold (\<lambda>d s. if jhas (active s) (track_id d) then s else begin_segment env d s) (jvals current) s
        in evict (now env) s)"

definition data_available :: "media_env \<Rightarrow> nat \<Rightarrow> nat \<Rightarrow> clip_buffer \<Rightarrow> clip_buffer" where
  "data_available env i n s =
     (let it = items s ! i
      in if i \<ge> length (items s) \<or> released it \<or> n = 0 \<or> disposed s \<or>
            (case item_end it of None \<Rightarrow> False | Some t \<Rightarrow> t - item_start it \<le> 1) then s
         else
           let s = evict (now env) (s\<lparr>items := (items s)[i := it\<lparr>chunks := chunks it @ [n],
                       item_bytes := item_bytes it + n\<rparr>], bytes := bytes s + int n\<rparr>)
           in if of_int (bytes s) > max_bytes s then dispose env (report ''limit'' s) else s)"

definition recorder_error :: "media_env \<Rightarrow> nat \<Rightarrow> clip_buffer \<Rightarrow> clip_buffer" where
  "recorder_error env i s =
     (if i \<ge> length (items s) \<or> released (items s ! i) then s
      else
        let s = report ''buffer'' s
        in if inactive env i \<or> stop_throws env i then release env False i s else s)"

definition settle_item :: "nat \<Rightarrow> clip_buffer \<Rightarrow> clip_buffer" where
  "settle_item i s =
     (if i < length (items s) \<and> released (items s ! i) then s\<lparr>pending := sdel i (pending s)\<rparr> else s)"

definition all_released :: "clip_buffer \<Rightarrow> nat list \<Rightarrow> bool" where
  "all_released s is = list_all (\<lambda>i. i < length (items s) \<and> released (items s ! i)) is"

definition dispose_finish :: "clip_buffer \<Rightarrow> clip_buffer" where
  "dispose_finish s =
     (if disposed s \<and> all_released s (dispose_waits s) then s\<lparr>segments := [], bytes := 0\<rparr> else s)"

text \<open>\<open>snapshot\<close>: the rotation, then the selection once the pending segments are in.\<close>

definition snapshot_finish ::
  "real \<Rightarrow> clip_buffer \<Rightarrow> string + (clip_segment list \<times> real \<times> real)" where
  "snapshot_finish end_ms s =
     (if disposed s then Inl ''The clip buffer stopped while preparing your clip''
      else
        let selected = filter (\<lambda>x. seg_end x > end_ms - window_ms s \<and> seg_start x < end_ms) (segments s)
        in if selected = [] then Inl ''Let the clip buffer capture a few seconds first''
           else Inr (selected, max (end_ms - window_ms s) (Min (set (map seg_start selected))), end_ms))"

definition duration_ms :: "real \<Rightarrow> clip_buffer \<Rightarrow> real" where
  "duration_ms t s =
     (let starts = map seg_start (segments s) @ map (\<lambda>i. item_start (items s ! i)) (jvals (active s))
      in if starts = [] then 0 else min (window_ms s) (t - Min (set starts)))"

definition clamp_clip_range :: "real \<times> real \<Rightarrow> real \<Rightarrow> real \<Rightarrow> real \<times> real" where
  "clamp_clip_range w a b =
     (let start = max (fst w) (min a (snd w - 1))
      in (start, max (start + 1) (min (min (snd w) (start + 60000)) b)))"

section \<open>Accounting and the memory bound\<close>

definition open_bytes :: "clip_item \<Rightarrow> nat" where
  "open_bytes it = (if released it then 0 else item_bytes it)"

definition accounted :: "clip_buffer \<Rightarrow> bool" where
  "accounted s \<longleftrightarrow> bytes s = int (sum_list (map seg_size (segments s))) + int (sum_list (map open_bytes (items s))) \<and>
     (\<forall>it\<in>set (items s). \<not> released it \<longrightarrow> item_bytes it = sum_list (chunks it))"

definition buffer_ok :: "clip_buffer \<Rightarrow> bool" where
  "buffer_ok s \<longleftrightarrow> disposed s \<or> (accounted s \<and> of_int (bytes s) \<le> max_bytes s)"

lemma drop_old_sum:
  "drop_old c l xs b = (ys, b') \<Longrightarrow> b' = b - int (sum_list (map seg_size xs)) + int (sum_list (map seg_size ys)) \<and> b' \<le> b"
proof (induction c l xs b arbitrary: ys b' rule: drop_old.induct)
  case (2 c l x xs b)
  show ?case
  proof (cases "seg_end x \<le> c \<or> of_int b > l")
    case True
    then have "drop_old c l xs (b - int (seg_size x)) = (ys, b')" using "2.prems" by simp
    from "2.IH" [OF True this] show ?thesis by simp
  qed (use "2.prems" in auto)
qed simp

lemma clip_evict_simps [simp]:
  "disposed (evict t s) = disposed s" "items (evict t s) = items s" "active (evict t s) = active s"
  "max_bytes (evict t s) = max_bytes s" "window_ms (evict t s) = window_ms s" "pending (evict t s) = pending s"
  by (simp_all add: evict_def split: prod.split)

lemma evict_accounted: "accounted s \<Longrightarrow> accounted (evict t s) \<and> bytes (evict t s) \<le> bytes s"
proof -
  assume acc: "accounted s"
  obtain xs b where d: "drop_old (t - window_ms s) (max_bytes s) (js_sort cmp_end (segments s)) (bytes s) = (xs, b)"
    by fastforce
  have e: "evict t s = s\<lparr>segments := xs, bytes := b\<rparr>" by (simp add: evict_def d)
  show ?thesis using drop_old_sum [OF d] acc unfolding e by (simp add: accounted_def)
qed

lemma evict_ok: "buffer_ok s \<Longrightarrow> buffer_ok (evict t s)"
  using evict_accounted [of s t] unfolding buffer_ok_def by (auto intro: order_trans of_int_le_iff [THEN iffD2])

lemma sum_list_open:
  "i < length its \<Longrightarrow> sum_list (map open_bytes (its[i := it])) + open_bytes (its ! i) =
     sum_list (map open_bytes its) + open_bytes it"
proof (induction its arbitrary: i)
  case (Cons x xs)
  then show ?case by (cases i) simp_all
qed simp

lemma accounted_update:
  assumes "accounted s" and "i < length (items s)"
    and "\<not> released it \<Longrightarrow> item_bytes it = sum_list (chunks it)"
  shows "accounted (s\<lparr>items := (items s)[i := it],
    bytes := bytes s + int (open_bytes it) - int (open_bytes (items s ! i))\<rparr>)"
proof -
  have "x = it \<or> x \<in> set (items s)" if "x \<in> set ((items s)[i := it])" for x
    using set_update_subset_insert [of "items s" i it] that by auto
  then show ?thesis
    using assms sum_list_open [OF assms(2), of it] by (auto simp: accounted_def)
qed

lemma drop_active_simps [simp]:
  "disposed (drop_active i s) = disposed s" "items (drop_active i s) = items s" "segments (drop_active i s) = segments s"
  "bytes (drop_active i s) = bytes s" "max_bytes (drop_active i s) = max_bytes s"
  by (simp_all add: drop_active_def Let_def)

lemma accounted_cong:
  "items s' = items s \<Longrightarrow> segments s' = segments s \<Longrightarrow> bytes s' = bytes s \<Longrightarrow> accounted s' = accounted s"
  by (simp add: accounted_def)

lemma release_facts:
  assumes "accounted s" and "\<not> disposed s"
  shows "accounted (release env retain i s) \<and> bytes (release env retain i s) \<le> bytes s"
proof (cases "i \<ge> length (items s) \<or> released (items s ! i)")
  case True
  then show ?thesis using assms by (simp add: release_def Let_def)
next
  case False
  let ?it = "items s ! i"
  let ?s = "(drop_active i (s\<lparr>items := (items s)[i := ?it\<lparr>released := True, chunks := []\<rparr>]\<rparr>))
    \<lparr>bytes := bytes s - int (item_bytes ?it)\<rparr>"
  have chunks: "item_bytes ?it = sum_list (chunks ?it)" using assms False by (simp add: accounted_def)
  have "accounted (s\<lparr>items := (items s)[i := ?it\<lparr>released := True, chunks := []\<rparr>],
      bytes := bytes s - int (item_bytes ?it)\<rparr>)"
    using accounted_update [OF assms(1), of i "?it\<lparr>released := True, chunks := []\<rparr>"] False
    by (simp add: open_bytes_def)
  then have s: "accounted ?s" by (simp add: accounted_def)
  then have "accounted (?s\<lparr>segments := segments ?s @ [x], bytes := bytes ?s + int (seg_size x)\<rparr>)" for x
    by (simp add: accounted_def)
  from evict_accounted [OF this]
  have push: "accounted (evict t (?s\<lparr>segments := segments ?s @ [x], bytes := bytes ?s + int (seg_size x)\<rparr>)) \<and>
      bytes (evict t (?s\<lparr>segments := segments ?s @ [x], bytes := bytes ?s + int (seg_size x)\<rparr>)) \<le>
      bytes ?s + int (seg_size x)" for x t
    by simp
  let ?x = "\<lparr>seg_peer = track_peer (descriptor ?it), seg_source = track_source (descriptor ?it),
    seg_start = item_start ?it, seg_end = nullish (item_end ?it) (now env), seg_size = sum_list (chunks ?it)\<rparr>"
  show ?thesis
    using False s push [of "now env" ?x] chunks by (auto simp: release_def Let_def)
qed

lemma release_disposed [simp]: "disposed (release env retain i s) = disposed s"
  by (simp add: release_def Let_def)

lemma release_max [simp]: "max_bytes (release env retain i s) = max_bytes s"
  by (simp add: release_def Let_def)

lemma release_ok: "buffer_ok s \<Longrightarrow> buffer_ok (release env retain i s)"
  using release_facts [of s env retain i] unfolding buffer_ok_def
  by (auto intro: order_trans of_int_le_iff [THEN iffD2])

lemma accounted_same_item:
  assumes "accounted s" and "i < length (items s)" and "open_bytes it = open_bytes (items s ! i)"
    and "\<not> released it \<Longrightarrow> item_bytes it = sum_list (chunks it)"
  shows "accounted (s\<lparr>items := (items s)[i := it]\<rparr>)"
  using accounted_update [OF assms(1,2,4)] assms(3) by simp

lemma stop_segment_ok: "buffer_ok s \<Longrightarrow> buffer_ok (stop_segment env i s)"
proof -
  assume ok: "buffer_ok s"
  show ?thesis
  proof (cases "i \<ge> length (items s) \<or> stopping (items s ! i)")
    case False
    let ?it = "(items s ! i)\<lparr>stopping := True, item_end := Some (now env)\<rparr>"
    have "accounted (s\<lparr>items := (items s)[i := ?it]\<rparr>)" if "accounted s"
      by (rule accounted_same_item [OF that]) (use False that in \<open>auto simp: open_bytes_def accounted_def\<close>)
    then have "buffer_ok ((drop_active i (s\<lparr>items := (items s)[i := ?it]\<rparr>))\<lparr>pending := x\<rparr>)" for x
      using ok by (auto simp: buffer_ok_def accounted_def)
    then show ?thesis using False by (simp add: stop_segment_def Let_def release_ok)
  qed (use ok in \<open>simp add: stop_segment_def\<close>)
qed

lemma stop_segment_disposed [simp]:
  "disposed (stop_segment env i s) = disposed s" "max_bytes (stop_segment env i s) = max_bytes s"
  by (simp_all add: stop_segment_def Let_def)

lemma fold_stop_disposed [simp]: "disposed (fold (stop_segment env) is s) = disposed s"
  by (induction "is" arbitrary: s) simp_all

lemma dispose_disposed [simp]: "disposed (dispose env s)"
  by (simp add: dispose_def Let_def)

lemma dispose_ok [simp]: "buffer_ok (dispose env s)"
  by (simp add: buffer_ok_def)

lemma begin_segment_ok: "buffer_ok s \<Longrightarrow> buffer_ok (begin_segment env d s)"
  by (auto simp: begin_segment_def Let_def buffer_ok_def accounted_def open_bytes_def split: begin_outcome.split)

lemma fold_ok: "(\<And>x s. buffer_ok s \<Longrightarrow> buffer_ok (f x s)) \<Longrightarrow> buffer_ok s \<Longrightarrow> buffer_ok (fold f xs s)"
  by (induction xs arbitrary: s) auto

lemma rotate_ok: "buffer_ok s \<Longrightarrow> buffer_ok (rotate env s)"
  by (auto simp: rotate_def Let_def stop_segment_ok begin_segment_ok intro!: evict_ok fold_ok)

lemma reconcile_buffer_ok: "buffer_ok s \<Longrightarrow> buffer_ok (reconcile env tracks s)"
  by (auto simp: reconcile_def Let_def stop_segment_ok begin_segment_ok split: prod.split intro!: evict_ok fold_ok)

lemma data_available_ok: "buffer_ok s \<Longrightarrow> buffer_ok (data_available env i n s)"
proof -
  assume ok: "buffer_ok s"
  let ?it = "items s ! i"
  show ?thesis
  proof (cases "i \<ge> length (items s) \<or> released ?it \<or> n = 0 \<or> disposed s \<or>
      (case item_end ?it of None \<Rightarrow> False | Some t \<Rightarrow> t - item_start ?it \<le> 1)")
    case True
    then show ?thesis using ok by (simp add: data_available_def Let_def)
  next
    case False
    then have acc: "accounted s" using ok by (simp add: buffer_ok_def)
    let ?new = "?it\<lparr>chunks := chunks ?it @ [n], item_bytes := item_bytes ?it + n\<rparr>"
    have "accounted (s\<lparr>items := (items s)[i := ?new], bytes := bytes s + int n\<rparr>)"
      using accounted_update [OF acc, of i ?new] False acc by (simp add: open_bytes_def accounted_def)
    then have "accounted (evict (now env) (s\<lparr>items := (items s)[i := ?new], bytes := bytes s + int n\<rparr>))"
      by (rule evict_accounted [THEN conjunct1])
    then show ?thesis
      using False by (auto simp: data_available_def Let_def buffer_ok_def [of "evict _ _"])
  qed
qed

lemma other_ok:
  "buffer_ok s \<Longrightarrow> buffer_ok (recorder_error env i s)" "buffer_ok s \<Longrightarrow> buffer_ok (settle_item i s)"
  "buffer_ok s \<Longrightarrow> buffer_ok (dispose_finish s)"
proof -
  assume ok: "buffer_ok s"
  then have "buffer_ok (report t s)" for t by (simp add: buffer_ok_def report_def accounted_def)
  then show "buffer_ok (recorder_error env i s)" using ok by (simp add: recorder_error_def Let_def release_ok)
  show "buffer_ok (settle_item i s)" using ok by (simp add: settle_item_def buffer_ok_def accounted_def)
  show "buffer_ok (dispose_finish s)" using ok by (simp add: dispose_finish_def buffer_ok_def)
qed

datatype clip_event =
    Reconcile media_env "clip_track list"
  | Rotate media_env
  | Data media_env nat nat
  | Recorder_stopped media_env nat
  | Recorder_error media_env nat
  | Track_ended media_env nat
  | Settled nat
  | Dispose media_env
  | Disposed

fun clip_step :: "clip_buffer \<Rightarrow> clip_event \<Rightarrow> clip_buffer" where
  "clip_step s (Reconcile env tracks) = reconcile env tracks s"
| "clip_step s (Rotate env) = rotate env s"
| "clip_step s (Data env i n) = data_available env i n s"
| "clip_step s (Recorder_stopped env i) = release env True i s"
| "clip_step s (Recorder_error env i) = recorder_error env i s"
| "clip_step s (Track_ended env i) = stop_segment env i s"
| "clip_step s (Settled i) = settle_item i s"
| "clip_step s (Dispose env) = dispose env s"
| "clip_step s Disposed = dispose_finish s"

interpretation clips: event_machine clip_step buffer_ok
proof
  show "buffer_ok s \<Longrightarrow> buffer_ok (clip_step s e)" for s e
    by (cases e) (simp_all add: reconcile_buffer_ok rotate_ok data_available_ok release_ok stop_segment_ok other_ok)
qed

lemma step_max_bytes: "max_bytes (begin_segment env d s) = max_bytes s" "max_bytes (dispose env s) = max_bytes s"
proof -
  have fold: "max_bytes (fold (stop_segment env) is s) = max_bytes s" for "is" s
    by (induction "is" arbitrary: s) simp_all
  have dispose: "max_bytes (dispose env s) = max_bytes s" for s
    by (simp add: dispose_def Let_def fold)
  show "max_bytes (dispose env s) = max_bytes s" by (rule dispose)
  show "max_bytes (begin_segment env d s) = max_bytes s"
    by (simp add: begin_segment_def Let_def report_def dispose split: begin_outcome.split)
qed

lemma clip_step_max: "max_bytes (clip_step s e) = max_bytes s"
proof -
  have fold: "max_bytes (fold f xs s) = max_bytes s" if "\<And>x s. max_bytes (f x s) = max_bytes s"
    for f :: "'x \<Rightarrow> clip_buffer \<Rightarrow> clip_buffer" and xs s
    using that by (induction xs arbitrary: s) simp_all
  show ?thesis
    by (cases e) (simp_all add: reconcile_def rotate_def data_available_def recorder_error_def settle_item_def
        dispose_finish_def report_def Let_def step_max_bytes fold split: prod.split)
qed

lemma clip_run_max: "max_bytes (foldl clip_step s es) = max_bytes s"
  by (induction es arbitrary: s) (simp_all add: clip_step_max)

text \<open>
  C40. Memory is bounded and counted exactly: over any sequence of events, a buffer that
  has not been disposed holds at most \<open>maxBytes\<close>, and its counter is the sum of the
  retained segments and of what the open recorders have delivered.
\<close>

theorem clip_buffer_bounded:
  assumes "new_buffer window segment maxb = Some s0"
  shows "let s = foldl clip_step s0 es in
    disposed s \<or> (of_int (bytes s) \<le> maxb \<and>
      bytes s = int (sum_list (map seg_size (segments s))) + int (sum_list (map open_bytes (items s))))"
proof -
  have ok: "buffer_ok s0" and m: "max_bytes s0 = maxb"
    using assms by (auto simp: new_buffer_def buffer_ok_def accounted_def split: if_splits)
  have "buffer_ok (foldl clip_step s0 es)" by (rule clips.run_inv [OF ok])
  then show ?thesis using clip_run_max [of s0 es] m by (auto simp: buffer_ok_def accounted_def Let_def)
qed

definition clip_env :: media_env where
  "clip_env = \<lparr>now = 0, track_live = \<lambda>_. True, begins = \<lambda>_. Begun, inactive = \<lambda>_. False, stop_throws = \<lambda>_. False\<rparr>"

theorem clip_buffer_bounded_witness:
  "let s = foldl clip_step (the (new_buffer 90 5 100))
       [Reconcile clip_env [\<lparr>track_id = ''t'', track_peer = ''p'', track_source = ''mic''\<rparr>], Data clip_env 0 60]
   in disposed s \<or> bytes s \<le> 100"
proof -
  have "new_buffer 90 5 100 = Some (the (new_buffer 90 5 100))" by (simp add: new_buffer_def)
  from clip_buffer_bounded [OF this, of "[Reconcile clip_env [\<lparr>track_id = ''t'', track_peer = ''p'', track_source = ''mic''\<rparr>], Data clip_env 0 60]"]
  show ?thesis by (auto simp: Let_def)
qed

lemma cmp_end_consistent: "consistent_cmp cmp_end A"
  by (auto simp: consistent_cmp_def cmp_end_def split: if_splits)

lemma drop_old_window:
  "sorted_wrt (\<lambda>a b. cmp_end a b \<le> 0) xs \<Longrightarrow> drop_old c l xs b = (ys, b') \<Longrightarrow> \<forall>x\<in>set ys. c < seg_end x"
proof (induction c l xs b rule: drop_old.induct)
  case (2 c l x xs b)
  show ?case
  proof (cases "seg_end x \<le> c \<or> of_int b > l")
    case True
    then show ?thesis using "2.IH" [OF True] "2.prems" by simp
  next
    case False
    then have "ys = x # xs" using "2.prems" by simp
    moreover have "seg_end x \<le> seg_end y" if "y \<in> set xs" for y
      using "2.prems"(1) that by (auto simp: cmp_end_def split: if_splits)
    ultimately show ?thesis using False by force
  qed
qed simp

lemma evict_window: "\<forall>x\<in>set (segments (evict t s)). t - window_ms s < seg_end x"
proof -
  obtain xs b where d: "drop_old (t - window_ms s) (max_bytes s) (js_sort cmp_end (segments s)) (bytes s) = (xs, b)"
    by fastforce
  have "sorted_wrt (\<lambda>a b. cmp_end a b \<le> 0) (js_sort cmp_end (segments s))"
    by (rule js_sort_sorted [OF cmp_end_consistent])
  from drop_old_window [OF this d] show ?thesis by (simp add: evict_def d)
qed

text \<open>
  The range of a clip is always valid: whatever start and end the sliders ask for, the
  result lies inside the window, lasts at least a millisecond and at most a minute.
\<close>

theorem clamp_clip_range_valid:
  assumes "fst w + 1 \<le> snd w"
  shows "fst w \<le> fst (clamp_clip_range w a b) \<and>
    fst (clamp_clip_range w a b) + 1 \<le> snd (clamp_clip_range w a b) \<and>
    snd (clamp_clip_range w a b) \<le> snd w \<and>
    snd (clamp_clip_range w a b) - fst (clamp_clip_range w a b) \<le> 60000"
  using assms by (auto simp: clamp_clip_range_def Let_def)

theorem clamp_clip_range_valid_witness:
  "snd (clamp_clip_range (0, 90000) 50000 5) \<le> 90000"
  using clamp_clip_range_valid [of "(0, 90000)" 50000 5] by simp

end
