(* ===== verification/Signaling.thy ===== *)
theory Signaling
  imports Complex_Main Prelude
begin

text \<open>
  The room's signaling socket (\<open>media/signaling.ts\<close>).

  \<open>RoomWebSocketSignaling\<close> is the record \<open>signaling\<close>. The sockets it has opened are listed
  and named by their index; a socket record holds the captured variable \<open>opened\<close>, whether
  the promise of \<open>connect\<close> has settled, and how many callers wait on it with the retry
  loop's \<open>catch\<close>. A rejected promise runs those handlers at the end of the step that
  rejected it. Dispatched events and sent frames are logged. \<open>String(value)\<close> on a parsed
  value is the parameter \<open>str\<close>, a fresh nonce is \<open>uuid\<close> of a counter; a text that does not
  parse as JSON is \<open>None\<close>; identities that are no plain object are taken as none.
\<close>

section \<open>State\<close>

datatype ready_state = Connecting | Open | Closing | Closed

record room_socket =
  resume_url :: bool
  ready :: ready_state
  opened :: bool
  settled :: bool
  connect_timeout :: bool
  retry_waiters :: nat

record identity_entry =
  identity_user :: string
  identity_name :: "string option"

datatype room_event =
    Peers "string list" "(string, identity_entry) jsmap"
  | Signal json
  | Peer_joined string "string option" "string option"
  | Peer_left string "string option" "string option"
  | Presence string "json option"
  | Latency "real option"
  | Error_event "json option"
  | Disconnected nat int
  | Reconnected
  | Close_event
  | Socket_close nat int string
  | Sent nat json

record signaling =
  sockets :: "room_socket list"
  socket :: "nat option"
  opening_promise :: "nat option"
  closing :: bool
  reconnecting :: bool
  reconnect_attempt :: nat
  reconnect_timer :: bool
  ping_interval :: "nat option"
  ping_timeout :: "(nat \<times> string) option"
  pending_ping :: "(string \<times> real) option"
  nonces :: nat
  events :: "room_event list"

definition reconnect_base_ms :: int where "reconnect_base_ms = 1000"
definition reconnect_max_ms :: int where "reconnect_max_ms = 10000"
definition reconnect_attempts :: nat where "reconnect_attempts = 12"

definition reconnectable_codes :: "int list" where
  "reconnectable_codes = [1001, 1005, 1006, 1011, 1012, 1013, 1014]"

definition dispatch :: "room_event list \<Rightarrow> signaling \<Rightarrow> signaling" where
  "dispatch es s = s\<lparr>events := events s @ es\<rparr>"

definition upd_socket :: "nat \<Rightarrow> (room_socket \<Rightarrow> room_socket) \<Rightarrow> signaling \<Rightarrow> signaling" where
  "upd_socket i f s = s\<lparr>sockets := (sockets s)[i := f (sockets s ! i)]\<rparr>"

definition socket_ready :: "nat \<Rightarrow> signaling \<Rightarrow> ready_state" where
  "socket_ready i s = ready (sockets s ! i)"

section \<open>Reconnection\<close>

definition reconnect_delay :: "nat \<Rightarrow> int" where
  "reconnect_delay attempt = min reconnect_max_ms (reconnect_base_ms * 2 ^ (attempt - 1))"

definition schedule_reconnect :: "signaling \<Rightarrow> signaling" where
  "schedule_reconnect s =
     (if closing s then s
      else if reconnect_attempt s \<ge> reconnect_attempts
      then dispatch [Close_event] (s\<lparr>reconnecting := False\<rparr>)
      else
        let attempt = Suc (reconnect_attempt s)
        in (dispatch [Disconnected attempt (reconnect_delay attempt)] (s\<lparr>reconnect_attempt := attempt\<rparr>))
             \<lparr>reconnect_timer := True\<rparr>)"

text \<open>Rejecting the promise of a socket; a settled promise stays as it is.\<close>

definition reject :: "nat \<Rightarrow> signaling \<Rightarrow> signaling" where
  "reject i s =
     (if settled (sockets s ! i) then s
      else (schedule_reconnect ^^ retry_waiters (sockets s ! i)) (upd_socket i (\<lambda>k. k\<lparr>settled := True\<rparr>) s))"

text \<open>\<open>connect\<close>: the promise it returns is settled (\<open>None\<close>: an open socket) or that of a socket.\<close>

definition connect :: "signaling \<Rightarrow> nat option \<times> signaling" where
  "connect s =
     (if (case socket s of None \<Rightarrow> False | Some i \<Rightarrow> socket_ready i s = Open) then (None, s)
      else case opening_promise s of
          Some i \<Rightarrow> (Some i, s)
        | None \<Rightarrow>
            (let i = length (sockets s)
             in (Some i, s\<lparr>sockets := sockets s @ [\<lparr>resume_url = reconnecting s, ready = Connecting,
                   opened = False, settled = False, connect_timeout = True, retry_waiters = 0\<rparr>],
                   socket := Some i, opening_promise := Some i\<rparr>)))"

definition reconnect_timer_fires :: "signaling \<Rightarrow> signaling" where
  "reconnect_timer_fires s =
     (if \<not> reconnect_timer s then s
      else
        let s = s\<lparr>reconnect_timer := False\<rparr>
        in if closing s then s
           else case connect s of
               (None, s) \<Rightarrow> s
             | (Some i, s) \<Rightarrow>
                 if settled (sockets s ! i)
                 then (if opened (sockets s ! i) then s else schedule_reconnect s)
                 else upd_socket i (\<lambda>k. k\<lparr>retry_waiters := Suc (retry_waiters k)\<rparr>) s)"

section \<open>Telemetry\<close>

definition stop_telemetry :: "bool \<Rightarrow> signaling \<Rightarrow> signaling" where
  "stop_telemetry mark s =
     (let was = (ping_interval s \<noteq> None \<or> pending_ping s \<noteq> None);
          s = s\<lparr>ping_interval := None, ping_timeout := None, pending_ping := None\<rparr>
      in if mark \<and> was then dispatch [Latency None] s else s)"

definition send_ping :: "(nat \<Rightarrow> string) \<Rightarrow> real \<Rightarrow> nat \<Rightarrow> signaling \<Rightarrow> signaling" where
  "send_ping uuid t i s =
     (if socket s \<noteq> Some i \<or> socket_ready i s \<noteq> Open \<or> pending_ping s \<noteq> None then s
      else
        let nonce = uuid (nonces s)
        in dispatch [Sent i (Obj [(''type'', Str ''ping''), (''request_id'', Str nonce)])]
             (s\<lparr>nonces := Suc (nonces s), pending_ping := Some (nonce, t), ping_timeout := Some (i, nonce)\<rparr>))"

definition start_telemetry :: "(nat \<Rightarrow> string) \<Rightarrow> real \<Rightarrow> nat \<Rightarrow> signaling \<Rightarrow> signaling" where
  "start_telemetry uuid t i s = (send_ping uuid t i (stop_telemetry False s))\<lparr>ping_interval := Some i\<rparr>"

definition ping_timeout_fires :: "nat \<Rightarrow> string \<Rightarrow> signaling \<Rightarrow> signaling" where
  "ping_timeout_fires i nonce s =
     (if ping_timeout s \<noteq> Some (i, nonce) then s
      else if socket s \<noteq> Some i \<or> map_option fst (pending_ping s) \<noteq> Some nonce then s
      else dispatch [Latency None] (s\<lparr>pending_ping := None, ping_timeout := None\<rparr>))"

definition interval_fires :: "(nat \<Rightarrow> string) \<Rightarrow> real \<Rightarrow> signaling \<Rightarrow> signaling" where
  "interval_fires uuid t s = (case ping_interval s of None \<Rightarrow> s | Some i \<Rightarrow> send_ping uuid t i s)"

section \<open>Socket handlers\<close>

definition on_open :: "(nat \<Rightarrow> string) \<Rightarrow> real \<Rightarrow> nat \<Rightarrow> signaling \<Rightarrow> signaling" where
  "on_open uuid t i s =
     (let s = upd_socket i (\<lambda>k. k\<lparr>ready := Open\<rparr>) s
      in if socket s \<noteq> Some i then s
         else
           let s = upd_socket i (\<lambda>k. k\<lparr>opened := True, settled := True, connect_timeout := False\<rparr>) s;
               resumed = reconnecting s;
               s = s\<lparr>opening_promise := None, reconnecting := False, reconnect_attempt := 0, reconnect_timer := False\<rparr>;
               s = start_telemetry uuid t i s
           in if resumed then dispatch [Reconnected] s else s)"

definition on_error :: "nat \<Rightarrow> signaling \<Rightarrow> signaling" where
  "on_error i s =
     (if socket s \<noteq> Some i then s
      else
        let s = dispatch [Error_event None] (stop_telemetry True s)
        in if socket_ready i s \<noteq> Open then reject i (s\<lparr>opening_promise := None\<rparr>) else s)"

definition on_close :: "nat \<Rightarrow> int \<Rightarrow> bool \<Rightarrow> signaling \<Rightarrow> signaling" where
  "on_close i code clean s =
     (let s = upd_socket i (\<lambda>k. k\<lparr>ready := Closed\<rparr>) s
      in if socket s \<noteq> Some i then s
         else
           let s = stop_telemetry True (upd_socket i (\<lambda>k. k\<lparr>connect_timeout := False\<rparr>) s);
               s = s\<lparr>socket := None, opening_promise := None\<rparr>
           in if \<not> opened (sockets s ! i)
              then reject i (if \<not> reconnecting s then dispatch [Close_event] s else s)
              else if closing s \<or> code \<notin> set reconnectable_codes
              then dispatch (Close_event # (if \<not> closing s \<and> \<not> clean then [Error_event None] else [])) s
              else schedule_reconnect
                ((dispatch (if clean then [] else [Error_event None]) s)\<lparr>reconnecting := True\<rparr>))"

definition connect_times_out :: "nat \<Rightarrow> signaling \<Rightarrow> signaling" where
  "connect_times_out i s =
     (if i \<ge> length (sockets s) \<or> \<not> connect_timeout (sockets s ! i) \<or> opened (sockets s ! i) then s
      else reject i (dispatch [Socket_close i 4000 ''connection timeout'']
        (upd_socket i (\<lambda>k. k\<lparr>connect_timeout := False, ready := (if ready k = Closed then Closed else Closing)\<rparr>) s)))"

definition send_signal :: "json \<Rightarrow> signaling \<Rightarrow> string + signaling" where
  "send_signal v s =
     (case socket s of
        Some i \<Rightarrow> if socket_ready i s = Open then Inr (dispatch [Sent i v] s)
                  else Inl ''Room WebSocket is not open''
      | None \<Rightarrow> Inl ''Room WebSocket is not open'')"

definition send_presence :: "json \<Rightarrow> signaling \<Rightarrow> string + signaling" where
  "send_presence v s = send_signal (Obj [(''type'', Str ''presence''), (''payload'', v)]) s"

definition close_signaling :: "int \<Rightarrow> string \<Rightarrow> signaling \<Rightarrow> signaling" where
  "close_signaling code reason s =
     (let s = stop_telemetry True (s\<lparr>closing := True, reconnecting := False, reconnect_timer := False\<rparr>);
          s = s\<lparr>opening_promise := None\<rparr>
      in case socket s of
           None \<Rightarrow> s
         | Some i \<Rightarrow> dispatch [Socket_close i code reason]
             (upd_socket i (\<lambda>k. k\<lparr>ready := (if ready k = Closed then Closed else Closing)\<rparr>) s))"

section \<open>Incoming messages\<close>

definition text_field :: "json option \<Rightarrow> string \<Rightarrow> string option" where
  "text_field v key = (case field v key of Some (Str t) \<Rightarrow> Some t | _ \<Rightarrow> None)"

definition read_identities :: "(json option \<Rightarrow> string) \<Rightarrow> json option \<Rightarrow> (string, identity_entry) jsmap" where
  "read_identities str v =
     (case v of
        Some (Obj m) \<Rightarrow> jmap (\<lambda>_ x. \<lparr>identity_user = (case field (Some x) ''user_id'' of
              None \<Rightarrow> [] | Some Null \<Rightarrow> [] | Some u \<Rightarrow> str (Some u)),
            identity_name = text_field (Some x) ''name''\<rparr>) m
      | _ \<Rightarrow> [])"

definition relayed_types :: "string list" where
  "relayed_types = [''offer'', ''answer'', ''ice-candidate'', ''track-metadata'']"

definition relayed_transports :: "string list" where
  "relayed_transports = [''native-screen'', ''native-camera'', ''voice-relay'']"

definition on_pong :: "real \<Rightarrow> string option \<Rightarrow> signaling \<Rightarrow> signaling" where
  "on_pong t nonce s =
     (case pending_ping s of
        Some (expected, sent) \<Rightarrow>
          if nonce = Some expected
          then dispatch [Latency (Some (max 0 (t - sent)))] (s\<lparr>ping_timeout := None, pending_ping := None\<rparr>)
          else s
      | None \<Rightarrow> s)"

definition peers_event :: "(json option \<Rightarrow> string) \<Rightarrow> json option \<Rightarrow> room_event" where
  "peers_event str payload =
     Peers (case field payload ''peers'' of Some (Arr ps) \<Rightarrow> map (\<lambda>p. str (Some p)) ps | _ \<Rightarrow> [])
       (read_identities str (field payload ''identities''))"

text \<open>The event dispatched for a message that is no \<open>pong\<close>, if there is one.\<close>

definition message_event :: "(json option \<Rightarrow> string) \<Rightarrow> string \<Rightarrow> json \<Rightarrow> room_event option" where
  "message_event str kind v =
     (let raw = Some v; from = str (field raw ''from'');
          who = text_field raw ''user_id''; name = text_field raw ''name''
      in if kind = ''peers'' then Some (peers_event str (field raw ''payload''))
         else if kind = ''peer.joined'' then Some (Peer_joined from who name)
         else if kind = ''peer.left'' then Some (Peer_left from who name)
         else if kind = ''presence'' then Some (Presence from (field raw ''payload''))
         else if List.member relayed_types kind \<or> (kind = ''signal'' \<and>
           (case text_field raw ''transport'' of Some tr \<Rightarrow> List.member relayed_transports tr | None \<Rightarrow> False))
         then Some (Signal v)
         else if kind = ''error'' then Some (Error_event (field raw ''error'')) else None)"

text \<open>\<open>receive\<close>: reading a property of \<open>null\<close> throws, which the \<open>catch\<close> reports.\<close>

definition on_message :: "(json option \<Rightarrow> string) \<Rightarrow> real \<Rightarrow> json option \<Rightarrow> signaling \<Rightarrow> signaling" where
  "on_message str t raw s =
     (case raw of
        None \<Rightarrow> dispatch [Error_event None] s
      | Some v \<Rightarrow>
          if v = Null then dispatch [Error_event None] s
          else (case text_field raw ''type'' of
              None \<Rightarrow> s
            | Some kind \<Rightarrow>
                if kind = ''pong'' then on_pong t (text_field raw ''request_id'') s
                else (case message_event str kind v of None \<Rightarrow> s | Some e \<Rightarrow> dispatch [e] s)))"

definition receive_frame ::
  "(json option \<Rightarrow> string) \<Rightarrow> real \<Rightarrow> nat \<Rightarrow> json option \<Rightarrow> signaling \<Rightarrow> signaling" where
  "receive_frame str t i raw s = (if socket s = Some i then on_message str t raw s else s)"

section \<open>Runs\<close>

datatype signaling_event =
    Connect
  | Send json
  | Timer
  | Opened "nat \<Rightarrow> string" real nat
  | Failed nat
  | Ended nat int bool
  | Connect_timeout nat
  | Message "json option \<Rightarrow> string" real nat "json option"
  | Ping_interval "nat \<Rightarrow> string" real
  | Ping_timeout nat string
  | Close int string

text \<open>
  Events of a socket that does not exist do not happen. A \<open>Send\<close> stands for the first part
  of \<open>send\<close>, its \<open>connect\<close>, and for the frame when the socket is open.
\<close>

definition on_socket :: "nat \<Rightarrow> (signaling \<Rightarrow> signaling) \<Rightarrow> signaling \<Rightarrow> signaling" where
  "on_socket i f s = (if i < length (sockets s) then f s else s)"

fun signaling_step :: "signaling \<Rightarrow> signaling_event \<Rightarrow> signaling" where
  "signaling_step s Connect = snd (connect s)"
| "signaling_step s (Send v) = (case connect s of (_, s) \<Rightarrow> (case send_signal v s of Inl _ \<Rightarrow> s | Inr s \<Rightarrow> s))"
| "signaling_step s Timer = reconnect_timer_fires s"
| "signaling_step s (Opened uuid t i) = on_socket i (on_open uuid t i) s"
| "signaling_step s (Failed i) = on_socket i (on_error i) s"
| "signaling_step s (Ended i code clean) = on_socket i (on_close i code clean) s"
| "signaling_step s (Connect_timeout i) = connect_times_out i s"
| "signaling_step s (Message str t i raw) = receive_frame str t i raw s"
| "signaling_step s (Ping_interval uuid t) = interval_fires uuid t s"
| "signaling_step s (Ping_timeout i nonce) = ping_timeout_fires i nonce s"
| "signaling_step s (Close code reason) = close_signaling code reason s"

definition new_signaling :: signaling where
  "new_signaling = \<lparr>sockets = [], socket = None, opening_promise = None, closing = False, reconnecting = False,
     reconnect_attempt = 0, reconnect_timer = False, ping_interval = None, ping_timeout = None,
     pending_ping = None, nonces = 0, events = []\<rparr>"

text \<open>
  The control part of the state: everything but telemetry and the log.
\<close>

definition control :: "signaling \<Rightarrow> room_socket list \<times> nat option \<times> nat option \<times> bool \<times> bool \<times> nat \<times> bool" where
  "control s = (sockets s, socket s, opening_promise s, closing s, reconnecting s, reconnect_attempt s, reconnect_timer s)"

lemma control_dispatch [simp]: "control (dispatch es s) = control s"
  by (simp add: control_def dispatch_def)

lemma control_telemetry [simp]:
  "control (stop_telemetry b s) = control s" "control (send_ping uuid t i s) = control s"
  "control (start_telemetry uuid t i s) = control s" "control (ping_timeout_fires i n s) = control s"
  "control (interval_fires uuid t s) = control s"
proof -
  have 1: "control (stop_telemetry b s) = control s" for b s
    by (simp add: stop_telemetry_def Let_def) (simp add: control_def)
  have 2: "control (send_ping uuid t i s) = control s" for i s
    by (simp add: send_ping_def Let_def) (simp add: control_def)
  show "control (stop_telemetry b s) = control s" "control (send_ping uuid t i s) = control s" by (rule 1 2)+
  have "control (s\<lparr>ping_interval := x\<rparr>) = control s" for x s by (simp add: control_def)
  then show "control (start_telemetry uuid t i s) = control s" by (simp add: start_telemetry_def 1 2)
  show "control (ping_timeout_fires i n s) = control s"
    by (simp add: ping_timeout_fires_def) (simp add: control_def)
  show "control (interval_fires uuid t s) = control s" by (simp add: interval_fires_def 2 split: option.split)
qed

lemma control_message [simp]: "control (on_message str t raw s) = control s"
proof -
  have "control (on_pong t nonce s) = control s" for nonce
    by (simp add: on_pong_def split: option.split) (simp add: control_def)
  then show ?thesis by (simp add: on_message_def split: option.split)
qed

lemma control_eqD:
  assumes "control s' = control s"
  shows "sockets s' = sockets s" "socket s' = socket s" "opening_promise s' = opening_promise s" "closing s' = closing s"
    "reconnecting s' = reconnecting s" "reconnect_attempt s' = reconnect_attempt s" "reconnect_timer s' = reconnect_timer s"
  using assms by (simp_all add: control_def)

lemmas control_simps [simp] =
  control_eqD [OF control_dispatch] control_eqD [OF control_telemetry(1)] control_eqD [OF control_telemetry(2)]
  control_eqD [OF control_telemetry(3)] control_eqD [OF control_telemetry(4)] control_eqD [OF control_telemetry(5)]
  control_eqD [OF control_message]

subsection \<open>Bounded backoff\<close>

definition announced_ok :: "room_event \<Rightarrow> bool" where
  "announced_ok e = (case e of
     Disconnected attempt delay \<Rightarrow> 1 \<le> attempt \<and> attempt \<le> 12 \<and> delay = min 10000 (1000 * 2 ^ (attempt - 1))
   | _ \<Rightarrow> True)"

definition backoff_ok :: "signaling \<Rightarrow> bool" where
  "backoff_ok s \<longleftrightarrow> reconnect_attempt s \<le> 12 \<and> list_all announced_ok (events s)"

lemma announced_simps [simp]:
  "announced_ok (Latency l)" "announced_ok (Error_event e)" "announced_ok Reconnected" "announced_ok Close_event"
  "announced_ok (Socket_close i c r)" "announced_ok (Sent i v)" "announced_ok (Peers ps ids)" "announced_ok (Signal v)"
  "announced_ok (Peer_joined a b d)" "announced_ok (Peer_left a b d)" "announced_ok (Presence a p)"
  by (simp_all add: announced_ok_def)

lemma backoff_dispatch [simp]: "list_all announced_ok es \<Longrightarrow> backoff_ok (dispatch es s) = backoff_ok s"
  by (simp add: backoff_ok_def dispatch_def)

lemma backoff_fields [simp]:
  "backoff_ok (s\<lparr>sockets := a\<rparr>) = backoff_ok s" "backoff_ok (s\<lparr>socket := b\<rparr>) = backoff_ok s"
  "backoff_ok (s\<lparr>opening_promise := b\<rparr>) = backoff_ok s" "backoff_ok (s\<lparr>closing := c\<rparr>) = backoff_ok s"
  "backoff_ok (s\<lparr>reconnecting := c\<rparr>) = backoff_ok s" "backoff_ok (s\<lparr>reconnect_timer := c\<rparr>) = backoff_ok s"
  "backoff_ok (s\<lparr>ping_interval := b\<rparr>) = backoff_ok s" "backoff_ok (s\<lparr>ping_timeout := d\<rparr>) = backoff_ok s"
  "backoff_ok (s\<lparr>pending_ping := e\<rparr>) = backoff_ok s" "backoff_ok (s\<lparr>nonces := n\<rparr>) = backoff_ok s"
  "backoff_ok (upd_socket i f s) = backoff_ok s"
  by (simp_all add: backoff_ok_def upd_socket_def)

lemma backoff_telemetry [simp]:
  "backoff_ok (stop_telemetry m s) = backoff_ok s" "backoff_ok (send_ping uuid t i s) = backoff_ok s"
  "backoff_ok (start_telemetry uuid t i s) = backoff_ok s" "backoff_ok (ping_timeout_fires i nonce s) = backoff_ok s"
  "backoff_ok (interval_fires uuid t s) = backoff_ok s"
  by (simp_all add: stop_telemetry_def send_ping_def start_telemetry_def ping_timeout_fires_def
      interval_fires_def Let_def split: option.split)

lemma if_some:
  assumes "(if b then x else y) = Some e"
  obtains "x = Some e" | "y = Some e"
  using assms by (cases b) auto

lemma announced_message: "message_event str kind v = Some e \<Longrightarrow> announced_ok e"
  unfolding message_event_def Let_def peers_event_def
  by (elim if_some) (auto simp only: option.inject announced_simps)

lemma backoff_message [simp]: "backoff_ok (on_message str t raw s) = backoff_ok s"
proof -
  have "backoff_ok (on_pong t nonce s) = backoff_ok s" for nonce
    by (simp add: on_pong_def split: option.split)
  then show ?thesis using announced_message [of str] by (simp add: on_message_def split: option.split)
qed

lemma backoff_schedule: "backoff_ok s \<Longrightarrow> backoff_ok (schedule_reconnect s)"
  by (auto simp: schedule_reconnect_def Let_def)
    (auto simp: backoff_ok_def dispatch_def announced_ok_def reconnect_delay_def reconnect_max_ms_def
      reconnect_base_ms_def reconnect_attempts_def)

lemma backoff_schedules: "backoff_ok s \<Longrightarrow> backoff_ok ((schedule_reconnect ^^ n) s)"
  by (induction n) (simp_all add: backoff_schedule)

lemma backoff_reject: "backoff_ok s \<Longrightarrow> backoff_ok (reject i s)"
  by (simp add: reject_def backoff_schedules)

lemma backoff_connect: "backoff_ok (snd (connect s)) = backoff_ok s"
  by (simp add: connect_def Let_def split: option.split)

lemma backoff_step: "backoff_ok s \<Longrightarrow> backoff_ok (signaling_step s e)"
proof (cases e)
  case (Send v)
  assume "backoff_ok s"
  then have "backoff_ok (snd (connect s))" by (simp add: backoff_connect)
  then show ?thesis
    using Send by (cases "connect s") (simp add: send_signal_def split: option.split)
next
  case Timer
  assume ok: "backoff_ok s"
  then have "backoff_ok (snd (connect (s\<lparr>reconnect_timer := False\<rparr>)))" by (simp add: backoff_connect)
  then show ?thesis
    using Timer ok by (cases "connect (s\<lparr>reconnect_timer := False\<rparr>)")
      (simp add: reconnect_timer_fires_def Let_def backoff_schedule split: option.split)
next
  case (Opened uuid t i)
  assume "backoff_ok s"
  then have "backoff_ok (s\<lparr>reconnect_attempt := 0\<rparr>)" by (simp add: backoff_ok_def)
  then have "backoff_ok (s\<lparr>sockets := a, opening_promise := b, reconnecting := c, reconnect_attempt := 0, reconnect_timer := d\<rparr>)"
    for a b c d by (simp add: backoff_ok_def)
  then show ?thesis
    using Opened \<open>backoff_ok s\<close> by (simp add: on_socket_def on_open_def Let_def upd_socket_def)
next
  case (Ended i code clean)
  assume "backoff_ok s"
  then show ?thesis
    using Ended by (simp add: on_socket_def on_close_def Let_def backoff_reject backoff_schedule)
next
  case (Close code reason)
  assume "backoff_ok s"
  then show ?thesis
    using Close by (simp add: close_signaling_def Let_def split: option.split)
qed (simp_all add: on_socket_def backoff_connect on_error_def Let_def backoff_reject connect_times_out_def receive_frame_def)

interpretation backoff: event_machine signaling_step backoff_ok
  by unfold_locales (rule backoff_step)

text \<open>
  Reconnection is bounded: over any run, every announced retry is one of at most twelve
  in a row, after a delay of one second doubled for each attempt and capped at ten seconds,
  so that a session is given up after 95 seconds of waiting.
\<close>

theorem reconnection_is_bounded:
  "let s = foldl signaling_step new_signaling es in
     reconnect_attempt s \<le> 12 \<and>
     list_all announced_ok (events s) \<and>
     sum_list (map reconnect_delay [1..<13]) = 95000"
proof -
  have "backoff_ok (foldl signaling_step new_signaling es)"
    by (rule backoff.run_inv) (simp add: backoff_ok_def new_signaling_def)
  moreover have "sum_list (map reconnect_delay [1..<13]) = 95000"
    by (simp add: upt_rec reconnect_delay_def reconnect_max_ms_def reconnect_base_ms_def)
  ultimately show ?thesis by (simp add: backoff_ok_def Let_def)
qed

subsection \<open>A session that is over stays over\<close>

definition conn_inv :: "signaling \<Rightarrow> bool" where
  "conn_inv s \<longleftrightarrow>
     (\<forall>i. socket s = Some i \<longrightarrow> i < length (sockets s)) \<and>
     (\<forall>i. opening_promise s = Some i \<longrightarrow> i < length (sockets s)) \<and>
     (\<forall>i<length (sockets s). opened (sockets s ! i) \<longrightarrow> settled (sockets s ! i)) \<and>
     (\<not> closing s \<longrightarrow> (\<forall>i<length (sockets s). \<not> settled (sockets s ! i) \<longrightarrow>
        socket s = Some i \<and> opening_promise s = Some i)) \<and>
     (\<forall>i. socket s = Some i \<longrightarrow> opened (sockets s ! i) \<longrightarrow> \<not> reconnecting s \<and> \<not> reconnect_timer s)"

lemma conn_invI:
  assumes "\<And>i. socket s = Some i \<Longrightarrow> i < length (sockets s)"
    and "\<And>i. opening_promise s = Some i \<Longrightarrow> i < length (sockets s)"
    and "\<And>i. i < length (sockets s) \<Longrightarrow> opened (sockets s ! i) \<Longrightarrow> settled (sockets s ! i)"
    and "\<And>i. \<not> closing s \<Longrightarrow> i < length (sockets s) \<Longrightarrow> \<not> settled (sockets s ! i) \<Longrightarrow>
      socket s = Some i \<and> opening_promise s = Some i"
    and "\<And>i. socket s = Some i \<Longrightarrow> opened (sockets s ! i) \<Longrightarrow> \<not> reconnecting s \<and> \<not> reconnect_timer s"
  shows "conn_inv s"
  using assms unfolding conn_inv_def by blast

lemma conn_invD:
  assumes "conn_inv s"
  shows "\<And>i. socket s = Some i \<Longrightarrow> i < length (sockets s)"
    and "\<And>i. opening_promise s = Some i \<Longrightarrow> i < length (sockets s)"
    and "\<And>i. i < length (sockets s) \<Longrightarrow> opened (sockets s ! i) \<Longrightarrow> settled (sockets s ! i)"
    and "\<And>i. \<not> closing s \<Longrightarrow> i < length (sockets s) \<Longrightarrow> \<not> settled (sockets s ! i) \<Longrightarrow>
      socket s = Some i \<and> opening_promise s = Some i"
    and "\<And>i. socket s = Some i \<Longrightarrow> opened (sockets s ! i) \<Longrightarrow> \<not> reconnecting s \<and> \<not> reconnect_timer s"
  using assms unfolding conn_inv_def by blast+

lemma conn_inv_control: "control s' = control s \<Longrightarrow> conn_inv s' = conn_inv s"
  by (simp add: control_def conn_inv_def)

lemma schedule_simps [simp]:
  "sockets (schedule_reconnect s) = sockets s" "socket (schedule_reconnect s) = socket s"
  "opening_promise (schedule_reconnect s) = opening_promise s" "closing (schedule_reconnect s) = closing s"
  by (simp_all add: schedule_reconnect_def Let_def)

lemma schedules_simps [simp]:
  "sockets ((schedule_reconnect ^^ n) s) = sockets s" "socket ((schedule_reconnect ^^ n) s) = socket s"
  "opening_promise ((schedule_reconnect ^^ n) s) = opening_promise s" "closing ((schedule_reconnect ^^ n) s) = closing s"
  by (induction n) simp_all

lemma schedule_closing [simp]: "closing s \<Longrightarrow> schedule_reconnect s = s"
  by (simp add: schedule_reconnect_def)

lemma schedules_closing [simp]: "closing s \<Longrightarrow> (schedule_reconnect ^^ n) s = s"
  by (induction n) simp_all

lemma conn_inv_schedules:
  assumes inv: "conn_inv s" and cur: "\<And>i. socket s = Some i \<Longrightarrow> closing s \<or> \<not> opened (sockets s ! i)"
  shows "conn_inv ((schedule_reconnect ^^ n) s)"
proof (cases "closing s")
  case False
  show ?thesis
  proof (rule conn_invI, unfold schedules_simps)
    show "socket s = Some i \<Longrightarrow> i < length (sockets s)" for i by (rule conn_invD(1) [OF inv])
    show "opening_promise s = Some i \<Longrightarrow> i < length (sockets s)" for i by (rule conn_invD(2) [OF inv])
    show "i < length (sockets s) \<Longrightarrow> opened (sockets s ! i) \<Longrightarrow> settled (sockets s ! i)" for i
      by (rule conn_invD(3) [OF inv])
    show "\<not> closing s \<Longrightarrow> i < length (sockets s) \<Longrightarrow> \<not> settled (sockets s ! i) \<Longrightarrow>
      socket s = Some i \<and> opening_promise s = Some i" for i by (rule conn_invD(4) [OF inv])
    show "\<not> reconnecting ((schedule_reconnect ^^ n) s) \<and> \<not> reconnect_timer ((schedule_reconnect ^^ n) s)"
      if "socket s = Some i" "opened (sockets s ! i)" for i
      using cur [OF that(1)] False that(2) by blast
  qed
qed (use inv in simp)

lemma upd_socket_simps [simp]:
  "socket (upd_socket i f s) = socket s" "opening_promise (upd_socket i f s) = opening_promise s"
  "closing (upd_socket i f s) = closing s" "reconnecting (upd_socket i f s) = reconnecting s"
  "reconnect_timer (upd_socket i f s) = reconnect_timer s" "length (sockets (upd_socket i f s)) = length (sockets s)"
  by (simp_all add: upd_socket_def)

lemma upd_socket_nth:
  "j < length (sockets s) \<Longrightarrow> sockets (upd_socket i f s) ! j = (if j = i then f (sockets s ! i) else sockets s ! j)"
  by (simp add: upd_socket_def nth_list_update)

text \<open>A change of a socket that leaves \<open>opened\<close> alone and does not unsettle it.\<close>

lemma conn_inv_upd:
  assumes inv: "conn_inv s" and keep: "\<And>k. opened (f k) = opened k" "\<And>k. settled k \<Longrightarrow> settled (f k)"
  shows "conn_inv (upd_socket i f s)"
proof -
  have "opened (sockets (upd_socket i f s) ! j) = opened (sockets s ! j)"
    "settled (sockets s ! j) \<Longrightarrow> settled (sockets (upd_socket i f s) ! j)"
    if "j < length (sockets s)" for j
    using that keep by (auto simp: upd_socket_nth)
  note upd = this
  show ?thesis
  proof (rule conn_invI, unfold upd_socket_simps)
    show "socket s = Some j \<Longrightarrow> j < length (sockets s)" for j by (rule conn_invD(1) [OF inv])
    show "opening_promise s = Some j \<Longrightarrow> j < length (sockets s)" for j by (rule conn_invD(2) [OF inv])
    show "settled (sockets (upd_socket i f s) ! j)"
      if "j < length (sockets s)" "opened (sockets (upd_socket i f s) ! j)" for j
      using upd that conn_invD(3) [OF inv that(1)] by blast
    show "socket s = Some j \<and> opening_promise s = Some j"
      if "\<not> closing s" "j < length (sockets s)" "\<not> settled (sockets (upd_socket i f s) ! j)" for j
      using upd(2) [OF that(2)] that(3) conn_invD(4) [OF inv that(1,2)] by blast
    show "\<not> reconnecting s \<and> \<not> reconnect_timer s"
      if "socket s = Some j" "opened (sockets (upd_socket i f s) ! j)" for j
      using upd(1) [OF conn_invD(1) [OF inv that(1)]] that conn_invD(5) [OF inv that(1)] by blast
  qed
qed

lemma conn_inv_reject:
  assumes inv: "conn_inv s" and i: "i < length (sockets s)" "\<not> opened (sockets s ! i)"
    and cur: "\<And>j. socket s = Some j \<Longrightarrow> closing s \<or> settled (sockets s ! i) \<or> j = i"
  shows "conn_inv (reject i s)"
proof (cases "settled (sockets s ! i)")
  case False
  have "conn_inv (upd_socket i (\<lambda>k. k\<lparr>settled := True\<rparr>) s)" by (rule conn_inv_upd [OF inv]) simp_all
  then have "conn_inv ((schedule_reconnect ^^ n) (upd_socket i (\<lambda>k. k\<lparr>settled := True\<rparr>) s))" for n
    by (rule conn_inv_schedules) (use cur False i in \<open>auto simp: upd_socket_nth\<close>)
  then show ?thesis using False by (simp add: reject_def)
qed (use inv in \<open>simp add: reject_def\<close>)

lemma conn_inv_opened:
  assumes inv: "conn_inv s" and cur: "socket s = Some i"
  shows "conn_inv ((upd_socket i (\<lambda>k. k\<lparr>opened := True, settled := True, connect_timeout := False\<rparr>) s)
    \<lparr>opening_promise := None, reconnecting := False, reconnect_attempt := 0, reconnect_timer := False\<rparr>)"
    (is "conn_inv ?s")
proof (rule conn_invI)
  have same: "sockets ?s ! j = (if j = i then (sockets s ! i)\<lparr>opened := True, settled := True, connect_timeout := False\<rparr>
      else sockets s ! j)" if "j < length (sockets s)" for j
    using that by (simp add: upd_socket_nth)
  show "socket ?s = Some j \<Longrightarrow> j < length (sockets ?s)" for j using conn_invD(1) [OF inv] by simp
  show "j < length (sockets ?s) \<Longrightarrow> opened (sockets ?s ! j) \<Longrightarrow> settled (sockets ?s ! j)" for j
    using conn_invD(3) [OF inv, of j] same [of j] by (auto split: if_splits)
  show "socket ?s = Some j \<and> opening_promise ?s = Some j"
    if "\<not> closing ?s" "j < length (sockets ?s)" "\<not> settled (sockets ?s ! j)" for j
  proof -
    have "j \<noteq> i" "\<not> settled (sockets s ! j)" using that same [of j] by (auto split: if_splits)
    then have "socket s = Some j" using conn_invD(4) [OF inv, of j] that by simp
    then show ?thesis using cur \<open>j \<noteq> i\<close> by simp
  qed
qed simp_all

lemma conn_inv_no_socket:
  assumes inv: "conn_inv s" and "\<And>i. \<not> closing s \<Longrightarrow> i < length (sockets s) \<Longrightarrow> settled (sockets s ! i)"
  shows "conn_inv (s\<lparr>socket := None, opening_promise := None\<rparr>)"
  by (rule conn_invI) (use conn_invD(3) [OF inv] assms(2) in auto)

lemma conn_inv_no_promise:
  assumes inv: "conn_inv s" and "\<And>i. \<not> closing s \<Longrightarrow> i < length (sockets s) \<Longrightarrow> settled (sockets s ! i)"
  shows "conn_inv (s\<lparr>opening_promise := None\<rparr>)"
proof (rule conn_invI)
  show "socket (s\<lparr>opening_promise := None\<rparr>) = Some j \<Longrightarrow> j < length (sockets (s\<lparr>opening_promise := None\<rparr>))" for j
    using conn_invD(1) [OF inv] by simp
  show "socket (s\<lparr>opening_promise := None\<rparr>) = Some j \<Longrightarrow> opened (sockets (s\<lparr>opening_promise := None\<rparr>) ! j) \<Longrightarrow>
    \<not> reconnecting (s\<lparr>opening_promise := None\<rparr>) \<and> \<not> reconnect_timer (s\<lparr>opening_promise := None\<rparr>)" for j
    using conn_invD(5) [OF inv, of j] by simp
qed (use conn_invD(3) [OF inv] assms(2) in auto)

lemma conn_inv_connect:
  assumes inv: "conn_inv s"
  shows "conn_inv (snd (connect s))"
proof (cases "(case socket s of None \<Rightarrow> False | Some i \<Rightarrow> socket_ready i s = Open) \<or> opening_promise s \<noteq> None")
  case True
  then have "snd (connect s) = s" by (auto simp: connect_def split: option.splits)
  then show ?thesis using inv by simp
next
  case False
  let ?k = "\<lparr>resume_url = reconnecting s, ready = Connecting, opened = False, settled = False,
    connect_timeout = True, retry_waiters = 0\<rparr>"
  let ?n = "length (sockets s)"
  let ?s = "s\<lparr>sockets := sockets s @ [?k], socket := Some ?n, opening_promise := Some ?n\<rparr>"
  have eq: "snd (connect s) = ?s" using False by (simp add: connect_def Let_def)
  have old: "settled (sockets s ! j)" if "\<not> closing s" "j < ?n" for j
    using conn_invD(4) [OF inv that] False by auto
  have nth: "sockets ?s ! j = (if j = ?n then ?k else sockets s ! j)" if "j \<le> ?n" for j
    using that by (simp add: nth_append)
  have "conn_inv ?s"
  proof (rule conn_invI)
    show "j < length (sockets ?s) \<Longrightarrow> opened (sockets ?s ! j) \<Longrightarrow> settled (sockets ?s ! j)" for j
      using conn_invD(3) [OF inv, of j] nth [of j] by (auto simp: less_Suc_eq)
    show "\<not> closing ?s \<Longrightarrow> j < length (sockets ?s) \<Longrightarrow> \<not> settled (sockets ?s ! j) \<Longrightarrow>
        socket ?s = Some j \<and> opening_promise ?s = Some j" for j
      using old [of j] nth [of j] by (auto simp: less_Suc_eq)
  qed (use nth [of ?n] in auto)
  then show ?thesis unfolding eq .
qed

lemma conn_inv_error: "conn_inv s \<Longrightarrow> i < length (sockets s) \<Longrightarrow> conn_inv (on_error i s)"
proof (cases "socket s = Some i")
  case True
  assume inv: "conn_inv s" and i: "i < length (sockets s)"
  let ?t = "dispatch [Error_event None] (stop_telemetry True s)"
  have t: "conn_inv ?t" by (rule conn_inv_control [THEN iffD2, OF _ inv]) simp
  let ?u = "?t\<lparr>opening_promise := None\<rparr>"
  have only: "settled (sockets s ! j)" if "\<not> closing s" "j < length (sockets s)" "j \<noteq> i" for j
    using conn_invD(4) [OF inv that(1,2)] True that(3) by auto
  have "conn_inv (reject i ?u)"
  proof (cases "settled (sockets s ! i)")
    case True
    have "conn_inv ?u" by (rule conn_inv_no_promise [OF t]) (use only True in auto)
    then show ?thesis using True by (simp add: reject_def)
  next
    case False
    have notopen: "\<not> opened (sockets s ! i)" using conn_invD(3) [OF inv i] False by blast
    have swap: "upd_socket i f ?u = (upd_socket i f ?t)\<lparr>opening_promise := None\<rparr>" for f
      by (simp add: upd_socket_def)
    have "conn_inv ((upd_socket i (\<lambda>k. k\<lparr>settled := True\<rparr>) ?t)\<lparr>opening_promise := None\<rparr>)"
      by (intro conn_inv_no_promise conn_inv_upd t) (use only in \<open>auto simp: upd_socket_nth\<close>)
    then have "conn_inv ((schedule_reconnect ^^ n) (upd_socket i (\<lambda>k. k\<lparr>settled := True\<rparr>) ?u))" for n
      unfolding swap by (rule conn_inv_schedules) (use True notopen i in \<open>auto simp: upd_socket_nth\<close>)
    then show ?thesis using False by (simp add: reject_def)
  qed
  then show ?thesis using True t by (simp add: on_error_def Let_def)
qed (simp add: on_error_def)

lemma conn_inv_close:
  assumes inv: "conn_inv s" and i: "i < length (sockets s)"
  shows "conn_inv (on_close i code clean s)"
proof (cases "socket s = Some i")
  case False
  have "conn_inv (upd_socket i (\<lambda>k. k\<lparr>ready := Closed\<rparr>) s)" by (rule conn_inv_upd [OF inv]) simp_all
  then show ?thesis using False by (simp add: on_close_def Let_def)
next
  case True
  let ?a = "upd_socket i (\<lambda>k. k\<lparr>connect_timeout := False\<rparr>) (upd_socket i (\<lambda>k. k\<lparr>ready := Closed\<rparr>) s)"
  let ?b = "stop_telemetry True ?a"
  let ?c = "?b\<lparr>socket := None, opening_promise := None\<rparr>"
  have a: "conn_inv ?a" by (intro conn_inv_upd inv) simp_all
  have b: "conn_inv ?b" by (rule conn_inv_control [THEN iffD2, OF _ a]) simp
  have nth: "opened (sockets ?b ! j) = opened (sockets s ! j)" "settled (sockets ?b ! j) = settled (sockets s ! j)"
    if "j < length (sockets s)" for j
    using that by (simp_all add: upd_socket_nth)
  have only: "settled (sockets s ! j)" if "\<not> closing s" "j < length (sockets s)" "j \<noteq> i" for j
    using conn_invD(4) [OF inv that(1,2)] True that(3) by auto
  show ?thesis
  proof (cases "opened (sockets s ! i)")
    case opened: True
    have set_i: "settled (sockets s ! i)" by (rule conn_invD(3) [OF inv i opened])
    have c: "conn_inv ?c"
      by (rule conn_inv_no_socket [OF b]) (use only set_i nth in \<open>metis control_simps upd_socket_simps\<close>)
    have "conn_inv (dispatch es ?c)" for es by (rule conn_inv_control [THEN iffD2, OF _ c]) simp
    moreover have "conn_inv (schedule_reconnect ((dispatch es ?c)\<lparr>reconnecting := True\<rparr>))" for es
    proof -
      have "conn_inv ((dispatch es ?c)\<lparr>reconnecting := True\<rparr>)"
        using c by (simp add: conn_inv_def)
      then show ?thesis using conn_inv_schedules [of "(dispatch es ?c)\<lparr>reconnecting := True\<rparr>" 1] by simp
    qed
    ultimately show ?thesis using True opened nth(1) [OF i] by (simp add: on_close_def Let_def)
  next
    case fresh: False
    have swap: "conn_inv (reject i (if b then dispatch [Close_event] ?c else ?c))" for b
    proof (cases "settled (sockets s ! i)")
      case set_i: True
      have c: "conn_inv ?c"
        by (rule conn_inv_no_socket [OF b]) (use only set_i nth in \<open>metis control_simps upd_socket_simps\<close>)
      have "conn_inv (dispatch [Close_event] ?c)" by (rule conn_inv_control [THEN iffD2, OF _ c]) simp
      then show ?thesis using c set_i nth(2) [OF i] by (simp add: reject_def)
    next
      case False
      let ?d = "upd_socket i (\<lambda>k. k\<lparr>settled := True\<rparr>) ?b"
      have d: "conn_inv ?d" by (rule conn_inv_upd [OF b]) simp_all
      have "settled (sockets ?d ! j)" if "\<not> closing s" "j < length (sockets s)" for j
        using that only nth by (cases "j = i") (simp_all add: upd_socket_nth)
      then have e: "conn_inv (?d\<lparr>socket := None, opening_promise := None\<rparr>)"
        by (intro conn_inv_no_socket d) simp
      have "upd_socket i f ?c = (upd_socket i f ?b)\<lparr>socket := None, opening_promise := None\<rparr>" for f
        by (simp add: upd_socket_def)
      then have u: "conn_inv (upd_socket i (\<lambda>k. k\<lparr>settled := True\<rparr>) ?c)" using e by simp
      have "upd_socket i f (dispatch es ?c) = dispatch es (upd_socket i f ?c)" for f es
        by (simp add: upd_socket_def dispatch_def)
      then have "conn_inv (upd_socket i (\<lambda>k. k\<lparr>settled := True\<rparr>) (dispatch es ?c))" for es
        using conn_inv_control [THEN iffD2, OF control_dispatch u] by simp
      then have "conn_inv (upd_socket i (\<lambda>k. k\<lparr>settled := True\<rparr>) (if b then dispatch [Close_event] ?c else ?c))"
        using u by simp
      then have n: "conn_inv ((schedule_reconnect ^^ n) (upd_socket i (\<lambda>k. k\<lparr>settled := True\<rparr>)
          (if b then dispatch [Close_event] ?c else ?c)))" for n
        by (rule conn_inv_schedules) (cases b, simp_all)
      have "\<not> settled (sockets (if b then dispatch [Close_event] ?c else ?c) ! i)"
        using False nth(2) [OF i] by simp
      then show ?thesis unfolding reject_def using n by (simp only: if_False)
    qed
    show ?thesis using True fresh nth(1) [OF i] swap [of "\<not> reconnecting s"] by (simp add: on_close_def Let_def)
  qed
qed

lemma conn_inv_weaken:
  assumes inv: "conn_inv s" and same: "sockets s' = sockets s" "socket s' = socket s" "opening_promise s' = opening_promise s"
    and "closing s \<Longrightarrow> closing s'" "reconnecting s' \<Longrightarrow> reconnecting s" "reconnect_timer s' \<Longrightarrow> reconnect_timer s"
  shows "conn_inv s'"
  using assms unfolding conn_inv_def same by blast

lemma conn_inv_quiet:
  assumes inv: "conn_inv s"
  shows "conn_inv (s\<lparr>reconnect_timer := False\<rparr>)"
    and "conn_inv (s\<lparr>closing := True, reconnecting := False, reconnect_timer := False\<rparr>)"
  by (rule conn_inv_weaken [OF inv], simp_all)+

lemma conn_inv_rest:
  assumes inv: "conn_inv s"
  shows "conn_inv (connect_times_out i s)" "conn_inv (reconnect_timer_fires s)" "conn_inv (close_signaling code reason s)"
    "i < length (sockets s) \<Longrightarrow> conn_inv (on_open uuid t i s)"
proof -
  show "conn_inv (connect_times_out i s)"
  proof (cases "i \<ge> length (sockets s) \<or> \<not> connect_timeout (sockets s ! i) \<or> opened (sockets s ! i)")
    case False
    let ?a = "upd_socket i (\<lambda>k. k\<lparr>connect_timeout := False, ready := (if ready k = Closed then Closed else Closing)\<rparr>) s"
    have a: "conn_inv ?a" by (rule conn_inv_upd [OF inv]) simp_all
    have b: "conn_inv (dispatch es ?a)" for es by (rule conn_inv_control [THEN iffD2, OF _ a]) simp
    have i: "i < length (sockets s)" using False by simp
    have "closing s \<or> settled (sockets s ! i) \<or> j = i" if "socket s = Some j" for j
      using conn_invD(4) [OF inv _ i] that by auto
    then have "conn_inv (reject i (dispatch es ?a))" for es
      by (intro conn_inv_reject b) (use False i in \<open>auto simp: upd_socket_nth\<close>)
    then show ?thesis using False by (simp add: connect_times_out_def)
  qed (use inv in \<open>simp add: connect_times_out_def\<close>)
  show "conn_inv (reconnect_timer_fires s)"
  proof (cases "reconnect_timer s \<and> \<not> closing s")
    case True
    let ?s = "s\<lparr>reconnect_timer := False\<rparr>"
    have s: "conn_inv ?s" by (rule conn_inv_quiet(1) [OF inv])
    obtain r u where c: "connect ?s = (r, u)" by fastforce
    have u: "conn_inv u" using conn_inv_connect [OF s] c by simp
    have fresh: "\<not> opened (sockets u ! j)" if "socket u = Some j" for j
    proof -
      have "\<not> opened (sockets s ! k)" if "socket s = Some k" for k
        using conn_invD(5) [OF inv that] True by blast
      then show ?thesis using c that by (auto simp: connect_def Let_def nth_append split: option.splits if_splits)
    qed
    have "conn_inv (schedule_reconnect u)" using conn_inv_schedules [OF u, of 1] fresh by simp
    moreover have "conn_inv (upd_socket k (\<lambda>k. k\<lparr>retry_waiters := Suc (retry_waiters k)\<rparr>) u)" for k
      by (rule conn_inv_upd [OF u]) simp_all
    ultimately show ?thesis using True c u by (simp add: reconnect_timer_fires_def Let_def split: option.split)
  next
    case False
    have "conn_inv (s\<lparr>reconnect_timer := False\<rparr>)" by (rule conn_inv_quiet(1) [OF inv])
    then show ?thesis using False inv by (auto simp: reconnect_timer_fires_def Let_def)
  qed
  show "conn_inv (close_signaling code reason s)"
  proof -
    let ?a = "s\<lparr>closing := True, reconnecting := False, reconnect_timer := False\<rparr>"
    have "conn_inv ?a" by (rule conn_inv_quiet(2) [OF inv])
    then have "conn_inv (stop_telemetry True ?a)" using conn_inv_control [OF control_telemetry(1)] by blast
    then have b: "conn_inv ((stop_telemetry True ?a)\<lparr>opening_promise := None\<rparr>)" by (rule conn_inv_no_promise) simp
    have "conn_inv (upd_socket i (\<lambda>k. k\<lparr>ready := (if ready k = Closed then Closed else Closing)\<rparr>)
        ((stop_telemetry True ?a)\<lparr>opening_promise := None\<rparr>))" for i
      by (rule conn_inv_upd [OF b]) simp_all
    then have "conn_inv (dispatch es (upd_socket i (\<lambda>k. k\<lparr>ready := (if ready k = Closed then Closed else Closing)\<rparr>)
        ((stop_telemetry True ?a)\<lparr>opening_promise := None\<rparr>)))" for es i
      using conn_inv_control [OF control_dispatch] by blast
    then show ?thesis using b by (simp add: close_signaling_def Let_def split: option.split)
  qed
  show "conn_inv (on_open uuid t i s)" if i: "i < length (sockets s)"
  proof -
    let ?a = "upd_socket i (\<lambda>k. k\<lparr>ready := Open\<rparr>) s"
    have a: "conn_inv ?a" by (rule conn_inv_upd [OF inv]) simp_all
    show ?thesis
    proof (cases "socket s = Some i")
      case True
      let ?b = "(upd_socket i (\<lambda>k. k\<lparr>opened := True, settled := True, connect_timeout := False\<rparr>) ?a)
        \<lparr>opening_promise := None, reconnecting := False, reconnect_attempt := 0, reconnect_timer := False\<rparr>"
      have "conn_inv ?b" by (rule conn_inv_opened [OF a]) (simp add: True)
      then have "conn_inv (start_telemetry uuid t i ?b)" using conn_inv_control [OF control_telemetry(3)] by blast
      moreover from this have "conn_inv (dispatch es (start_telemetry uuid t i ?b))" for es
        using conn_inv_control [OF control_dispatch] by blast
      ultimately show ?thesis using True by (simp add: on_open_def Let_def)
    qed (use a in \<open>simp add: on_open_def Let_def\<close>)
  qed
qed

lemma conn_inv_step: "conn_inv s \<Longrightarrow> conn_inv (signaling_step s e)"
proof (cases e)
  case (Send v)
  assume "conn_inv s"
  then have u: "conn_inv (snd (connect s))" by (rule conn_inv_connect)
  have "conn_inv (dispatch es (snd (connect s)))" for es
    by (rule conn_inv_control [THEN iffD2, OF control_dispatch u])
  then show ?thesis
    using Send u by (cases "connect s") (simp add: send_signal_def split: option.split)
next
  case (Message str t i raw)
  assume "conn_inv s"
  then show ?thesis using Message conn_inv_control [OF control_message] by (simp add: receive_frame_def)
next
  case (Ping_interval uuid t)
  assume "conn_inv s"
  then show ?thesis using Ping_interval conn_inv_control [OF control_telemetry(5)] by simp
next
  case (Ping_timeout i nonce)
  assume "conn_inv s"
  then show ?thesis using Ping_timeout conn_inv_control [OF control_telemetry(4)] by simp
qed (simp_all add: on_socket_def conn_inv_connect conn_inv_rest conn_inv_error conn_inv_close)

interpretation connection: event_machine signaling_step conn_inv
  by unfold_locales (rule conn_inv_step)

text \<open>Events that do not ask for a connection, and a state that makes none on its own.\<close>

fun asks_to_connect :: "signaling_event \<Rightarrow> bool" where
  "asks_to_connect Connect = True"
| "asks_to_connect (Send v) = True"
| "asks_to_connect e = False"

definition quiet :: "nat \<Rightarrow> signaling \<Rightarrow> bool" where
  "quiet n s \<longleftrightarrow> length (sockets s) = n \<and> \<not> reconnect_timer s \<and>
     (closing s \<or> (socket s = None \<and> (\<forall>i<n. settled (sockets s ! i))))"

lemma quiet_control: "control s' = control s \<Longrightarrow> quiet n s \<Longrightarrow> quiet n s'"
  by (simp add: control_def quiet_def)

lemma quiet_upd: "quiet n s \<Longrightarrow> (\<And>k. settled k \<Longrightarrow> settled (f k)) \<Longrightarrow> quiet n (upd_socket i f s)"
  by (auto simp: quiet_def upd_socket_nth)

lemma quiet_reject: "quiet n s \<Longrightarrow> i < n \<Longrightarrow> quiet n (reject i s)"
proof -
  assume q: "quiet n s" and i: "i < n"
  show ?thesis
  proof (cases "settled (sockets s ! i)")
    case False
    then have "closing s" using q i by (auto simp: quiet_def)
    then show ?thesis using quiet_upd [OF q] False by (simp add: reject_def)
  qed (use q in \<open>simp add: reject_def\<close>)
qed

lemma quiet_close: "quiet n s \<Longrightarrow> quiet n (close_signaling code reason s)"
proof -
  assume q: "quiet n s"
  have a: "quiet n ((stop_telemetry True (s\<lparr>closing := True, reconnecting := False, reconnect_timer := False\<rparr>))
      \<lparr>opening_promise := None\<rparr>)"
    using q by (simp add: quiet_def)
  have "quiet n (dispatch es (upd_socket i (\<lambda>k. k\<lparr>ready := (if ready k = Closed then Closed else Closing)\<rparr>)
      ((stop_telemetry True (s\<lparr>closing := True, reconnecting := False, reconnect_timer := False\<rparr>))
      \<lparr>opening_promise := None\<rparr>)))" for es i
    by (rule quiet_control [OF control_dispatch], rule quiet_upd [OF a]) simp
  then show ?thesis using a by (simp add: close_signaling_def Let_def split: option.split)
qed

lemma quiet_on_close: "quiet n s \<Longrightarrow> i < n \<Longrightarrow> quiet n (on_close i code clean s)"
proof -
  assume q: "quiet n s" and i: "i < n"
  let ?a = "upd_socket i (\<lambda>k. k\<lparr>ready := Closed\<rparr>) s"
  have a: "quiet n ?a" by (rule quiet_upd [OF q]) simp
  show ?thesis
  proof (cases "socket s = Some i")
    case True
    then have cl: "closing s" using q by (auto simp: quiet_def)
    let ?c = "(stop_telemetry True (upd_socket i (\<lambda>k. k\<lparr>connect_timeout := False\<rparr>) ?a))\<lparr>socket := None, opening_promise := None\<rparr>"
    have c: "quiet n ?c" using q cl by (simp add: quiet_def)
    have d: "quiet n (dispatch es ?c)" for es by (rule quiet_control [OF control_dispatch c])
    show ?thesis
      using True cl c d quiet_reject [OF c i] quiet_reject [OF d i] by (simp add: on_close_def Let_def)
  qed (use a in \<open>simp add: on_close_def Let_def\<close>)
qed

lemma quiet_on_open: "quiet n s \<Longrightarrow> quiet n (on_open uuid t i s)"
proof -
  assume q: "quiet n s"
  let ?a = "upd_socket i (\<lambda>k. k\<lparr>ready := Open\<rparr>) s"
  have a: "quiet n ?a" by (rule quiet_upd [OF q]) simp
  show ?thesis
  proof (cases "socket s = Some i")
    case True
    then have cl: "closing s" using q by (auto simp: quiet_def)
    let ?b = "(upd_socket i (\<lambda>k. k\<lparr>opened := True, settled := True, connect_timeout := False\<rparr>) ?a)
        \<lparr>opening_promise := None, reconnecting := False, reconnect_attempt := 0, reconnect_timer := False\<rparr>"
    have b: "quiet n ?b" using q cl by (simp add: quiet_def)
    have c: "quiet n (start_telemetry uuid t i ?b)" by (rule quiet_control [OF control_telemetry(3) b])
    have "quiet n (dispatch es (start_telemetry uuid t i ?b))" for es by (rule quiet_control [OF control_dispatch c])
    then show ?thesis using True c by (simp add: on_open_def Let_def)
  qed (use a in \<open>simp add: on_open_def Let_def\<close>)
qed

lemma quiet_error: "quiet n s \<Longrightarrow> i < n \<Longrightarrow> quiet n (on_error i s)"
proof -
  assume q: "quiet n s" and i: "i < n"
  have a: "quiet n (dispatch [Error_event None] (stop_telemetry True s))"
    by (intro quiet_control [OF control_dispatch] quiet_control [OF control_telemetry(1)] q)
  then have "quiet n ((dispatch [Error_event None] (stop_telemetry True s))\<lparr>opening_promise := None\<rparr>)"
    by (simp add: quiet_def)
  from quiet_reject [OF this i] a q show ?thesis by (simp add: on_error_def Let_def)
qed

lemma quiet_timeout: "quiet n s \<Longrightarrow> quiet n (connect_times_out i s)"
proof -
  assume q: "quiet n s"
  let ?a = "upd_socket i (\<lambda>k. k\<lparr>connect_timeout := False, ready := (if ready k = Closed then Closed else Closing)\<rparr>) s"
  have a: "quiet n ?a" by (rule quiet_upd [OF q]) simp
  have d: "quiet n (dispatch es ?a)" for es by (rule quiet_control [OF control_dispatch a])
  have "length (sockets s) = n" using q by (simp add: quiet_def)
  then show ?thesis using q quiet_reject [OF d] by (auto simp: connect_times_out_def)
qed

lemma quiet_step: "quiet n s \<Longrightarrow> \<not> asks_to_connect e \<Longrightarrow> quiet n (signaling_step s e)"
proof (cases e)
  case Timer
  assume "quiet n s"
  then show ?thesis using Timer by (simp add: quiet_def reconnect_timer_fires_def)
next
  case (Message str t i raw)
  assume "quiet n s"
  then show ?thesis using Message quiet_control [OF control_message] by (simp add: receive_frame_def)
next
  case (Ping_interval uuid t)
  assume "quiet n s"
  then show ?thesis using Ping_interval quiet_control [OF control_telemetry(5)] by simp
next
  case (Ping_timeout i nonce)
  assume "quiet n s"
  then show ?thesis using Ping_timeout quiet_control [OF control_telemetry(4)] by simp
next
  case (Failed i)
  assume "quiet n s"
  then show ?thesis using Failed quiet_error [of n s i] by (simp add: on_socket_def quiet_def)
next
  case (Ended i code clean)
  assume "quiet n s"
  then show ?thesis using Ended quiet_on_close [of n s i code clean] by (simp add: on_socket_def quiet_def)
qed (simp_all add: on_socket_def quiet_close quiet_on_open quiet_timeout)

lemma quiet_run: "quiet n s \<Longrightarrow> list_all (\<lambda>e. \<not> asks_to_connect e) es \<Longrightarrow> quiet n (foldl signaling_step s es)"
  by (induction es arbitrary: s) (simp_all add: quiet_step)

lemma close_quiet: "quiet (length (sockets s)) (close_signaling code reason s)"
proof -
  let ?t = "s\<lparr>closing := True, reconnecting := False, reconnect_timer := False\<rparr>"
  have t: "quiet (length (sockets s)) ?t" by (simp add: quiet_def)
  have "close_signaling code reason s = close_signaling code reason ?t"
    by (simp add: close_signaling_def stop_telemetry_def)
  then show ?thesis using quiet_close [OF t] by simp
qed

lemma policy_close_quiet:
  assumes inv: "conn_inv s" and cur: "socket s = Some i" and op: "opened (sockets s ! i)"
    and code: "code \<notin> set reconnectable_codes"
  shows "quiet (length (sockets s)) (on_close i code clean s) \<and> Close_event \<in> set (events (on_close i code clean s))"
proof -
  let ?b = "stop_telemetry True (upd_socket i (\<lambda>k. k\<lparr>connect_timeout := False\<rparr>) (upd_socket i (\<lambda>k. k\<lparr>ready := Closed\<rparr>) s))"
  have i: "i < length (sockets s)" by (rule conn_invD(1) [OF inv cur])
  have op': "opened (sockets ?b ! i)" using op i by (simp add: upd_socket_nth)
  have timer: "\<not> reconnect_timer s" using conn_invD(5) [OF inv cur op] by blast
  have set_all: "settled (sockets s ! j)" if "\<not> closing s" "j < length (sockets s)" for j
  proof (cases "j = i")
    case True
    then show ?thesis using conn_invD(3) [OF inv i op] by simp
  next
    case False
    then show ?thesis using conn_invD(4) [OF inv that] cur by auto
  qed
  have "quiet (length (sockets s)) (?b\<lparr>socket := None, opening_promise := None\<rparr>)"
    using timer set_all by (auto simp: quiet_def upd_socket_nth)
  then have q: "quiet (length (sockets s)) (dispatch es (?b\<lparr>socket := None, opening_promise := None\<rparr>))" for es
    by (rule quiet_control [OF control_dispatch])
  have "on_close i code clean s = dispatch (Close_event # (if \<not> closing s \<and> \<not> clean then [Error_event None] else []))
      (?b\<lparr>socket := None, opening_promise := None\<rparr>)"
    using cur op' code by (simp add: on_close_def Let_def)
  then show ?thesis using q by (simp add: dispatch_def)
qed

text \<open>
  Once the caller has closed it, a session is closing for good: a socket is opened by a
  \<open>connect\<close> or a \<open>send\<close> and by nothing else, one at most for each.
\<close>

lemma connect_opens_one:
  "closing (snd (connect s)) = closing s" "length (sockets (snd (connect s))) \<le> Suc (length (sockets s))"
  by (simp_all add: connect_def Let_def split: option.split)

lemma reject_frame: "length (sockets (reject i s)) = length (sockets s)" "closing (reject i s) = closing s"
  by (simp_all add: reject_def)

lemma closing_step:
  assumes "closing s"
  shows "closing (signaling_step s e)"
    and "length (sockets (signaling_step s e)) \<le> length (sockets s) + (if asks_to_connect e then 1 else 0)"
proof -
  have "closing (signaling_step s e) \<and>
    length (sockets (signaling_step s e)) \<le> length (sockets s) + (if asks_to_connect e then 1 else 0)"
  proof (cases e)
    case Connect
    then show ?thesis using assms connect_opens_one [of s] by simp
  next
    case (Send v)
    then show ?thesis using assms connect_opens_one [of s]
      by (cases "connect s") (simp add: send_signal_def split: option.split)
  next
    case Timer
    then show ?thesis using assms by (simp add: reconnect_timer_fires_def)
  next
    case (Opened uuid t i)
    then show ?thesis using assms by (simp add: on_socket_def on_open_def Let_def)
  next
    case (Ended i code clean)
    then show ?thesis using assms by (simp add: on_socket_def on_close_def Let_def reject_frame)
  qed (use assms in \<open>simp_all add: on_socket_def on_error_def Let_def reject_frame connect_times_out_def
    receive_frame_def close_signaling_def split: option.split\<close>)
  then show "closing (signaling_step s e)"
    and "length (sockets (signaling_step s e)) \<le> length (sockets s) + (if asks_to_connect e then 1 else 0)" by simp_all
qed

lemma closing_run:
  "closing s \<Longrightarrow> length (sockets (foldl signaling_step s es)) \<le> length (sockets s) + length (filter asks_to_connect es)"
proof (induction es arbitrary: s)
  case (Cons e es)
  from Cons.IH [OF closing_step(1) [OF Cons.prems], of e] closing_step(2) [OF Cons.prems, of e]
  show ?case by (simp split: if_splits)
qed simp

text \<open>
  The events that end a session: the caller's \<open>close\<close>, whatever state the socket is in, and
  the server closing the open socket with a code that is not a transport failure.
\<close>

fun ends_session :: "signaling \<Rightarrow> signaling_event \<Rightarrow> bool" where
  "ends_session s (Close code reason) = True"
| "ends_session s (Ended i code clean) =
     (socket s = Some i \<and> opened (sockets s ! i) \<and> code \<notin> set reconnectable_codes)"
| "ends_session s e = False"

lemma ends_session_quiet:
  assumes inv: "conn_inv s" and ends: "ends_session s e"
  shows "quiet (length (sockets s)) (signaling_step s e) \<and>
    (Close_event \<in> set (events (signaling_step s e)) \<or> closing (signaling_step s e))"
proof (cases e)
  case (Close code reason)
  then show ?thesis using close_quiet [of s] by (simp add: close_signaling_def Let_def split: option.split)
next
  case (Ended i code clean)
  then have "socket s = Some i" "opened (sockets s ! i)" "code \<notin> set reconnectable_codes" using ends by simp_all
  from policy_close_quiet [OF inv this] conn_invD(1) [OF inv this(1)] show ?thesis
    using Ended by (simp add: on_socket_def)
qed (use ends in simp_all)

text \<open>
  C39. A session that is over stays over. In whatever state the session is (connecting,
  open, waiting in the backoff with a retry armed, given up), after the caller's \<open>close\<close> at
  most one socket is opened for each later \<open>connect\<close> or \<open>send\<close>, whatever timers fire and
  whatever the sockets do: no retry runs any more. And after the caller's \<open>close\<close>, or the
  server's closing of the open socket with a code that is not a transport failure (a policy
  violation, a normal closure), as long as nobody asks for a connection no socket is opened
  and no retry is armed; the server's closing is announced as the end.
\<close>

theorem ended_session_never_reconnects:
  assumes "s = foldl signaling_step new_signaling es"
  shows "length (sockets (foldl signaling_step (signaling_step s (Close c reason)) later)) \<le>
      length (sockets s) + length (filter asks_to_connect later) \<and>
    (ends_session s e \<longrightarrow> list_all (\<lambda>a. \<not> asks_to_connect a) rest \<longrightarrow>
      length (sockets (foldl signaling_step (signaling_step s e) rest)) = length (sockets s) \<and>
      \<not> reconnect_timer (foldl signaling_step (signaling_step s e) rest)) \<and>
    (ends_session s (Ended i code clean) \<longrightarrow> Close_event \<in> set (events (signaling_step s (Ended i code clean))))"
proof (intro conjI impI)
  have inv: "conn_inv s" unfolding assms(1)
    by (rule connection.run_inv) (simp add: conn_inv_def new_signaling_def)
  have "closing (signaling_step s (Close c reason))" "quiet (length (sockets s)) (signaling_step s (Close c reason))"
    using close_quiet [of s] by (simp_all add: close_signaling_def Let_def split: option.split)
  then show "length (sockets (foldl signaling_step (signaling_step s (Close c reason)) later)) \<le>
      length (sockets s) + length (filter asks_to_connect later)"
    using closing_run [of "signaling_step s (Close c reason)"] by (simp add: quiet_def)
  assume "ends_session s e" "list_all (\<lambda>a. \<not> asks_to_connect a) rest"
  then have "quiet (length (sockets s)) (foldl signaling_step (signaling_step s e) rest)"
    using ends_session_quiet [OF inv] quiet_run by blast
  then show "length (sockets (foldl signaling_step (signaling_step s e) rest)) = length (sockets s)"
    and "\<not> reconnect_timer (foldl signaling_step (signaling_step s e) rest)"
    by (simp_all add: quiet_def)
next
  assume ends: "ends_session s (Ended i code clean)"
  have inv: "conn_inv s" unfolding assms(1)
    by (rule connection.run_inv) (simp add: conn_inv_def new_signaling_def)
  from ends have "socket s = Some i" "opened (sockets s ! i)" "code \<notin> set reconnectable_codes" by simp_all
  from policy_close_quiet [OF inv this] conn_invD(1) [OF inv this(1)]
  show "Close_event \<in> set (events (signaling_step s (Ended i code clean)))" by (simp add: on_socket_def)
qed

text \<open>
  At a session in the backoff, its retry armed, that the caller closes; and at an open one
  that the server closes with a policy violation.
\<close>

theorem ended_session_never_reconnects_witness:
  "(let s = foldl signaling_step new_signaling [Connect, Opened (\<lambda>_. ''n'') 0 0, Ended 0 1006 False] in
      reconnect_timer s \<and> socket s = None \<and>
      length (sockets (foldl signaling_step (signaling_step s (Close 1000 ''left'')) [Timer, Timer])) = 1) \<and>
   (let s = foldl signaling_step new_signaling [Connect, Opened (\<lambda>_. ''n'') 0 0] in
      Close_event \<in> set (events (signaling_step s (Ended 0 1008 True))) \<and>
      length (sockets (foldl signaling_step (signaling_step s (Ended 0 1008 True)) [Timer, Connect_timeout 0])) = 1)"
proof -
  let ?s = "foldl signaling_step new_signaling [Connect, Opened (\<lambda>_. ''n'') 0 0, Ended 0 1006 False]"
  let ?o = "foldl signaling_step new_signaling [Connect, Opened (\<lambda>_. ''n'') 0 0]"
  note run = new_signaling_def connect_def Let_def on_socket_def on_open_def on_close_def upd_socket_def
    start_telemetry_def stop_telemetry_def send_ping_def socket_ready_def dispatch_def schedule_reconnect_def
    reconnectable_codes_def reconnect_attempts_def
  have s: "reconnect_timer ?s" "socket ?s = None" "length (sockets ?s) = 1" by (simp_all add: run)
  have o: "socket ?o = Some 0" "opened (sockets ?o ! 0)" "length (sockets ?o) = 1" by (simp_all add: run)
  have ends: "ends_session ?s (Close 1000 ''left'')" "ends_session ?o (Ended 0 1008 True)"
    using o by (simp_all only: ends_session.simps reconnectable_codes_def) simp
  have all: "list_all (\<lambda>a. \<not> asks_to_connect a) [Timer, Timer]"
    "list_all (\<lambda>a. \<not> asks_to_connect a) [Timer, Connect_timeout 0]" by simp_all
  note over = ended_session_never_reconnects [OF refl, THEN conjunct2]
  have "length (sockets (foldl signaling_step (signaling_step ?s (Close 1000 ''left'')) [Timer, Timer])) = length (sockets ?s)"
    by (rule over [THEN conjunct1, THEN mp, OF ends(1), THEN mp, OF all(1), THEN conjunct1])
  moreover have "length (sockets (foldl signaling_step (signaling_step ?o (Ended 0 1008 True)) [Timer, Connect_timeout 0])) =
      length (sockets ?o)"
    by (rule over [THEN conjunct1, THEN mp, OF ends(2), THEN mp, OF all(2), THEN conjunct1])
  moreover have "Close_event \<in> set (events (signaling_step ?o (Ended 0 1008 True)))"
    by (rule over [THEN conjunct2, THEN mp, OF ends(2)])
  ultimately show ?thesis unfolding Let_def using s o(3) by (simp only: simp_thms)
qed

end
