(* ===== verification/JsStrings.thy ===== *)
theory JsStrings
  imports Prelude
begin

text \<open>
  What several components use of JavaScript's strings and arrays: white space, \<open>trim\<close>,
  \<open>split(/\s+/)\<close>, \<open>startsWith\<close>, \<open>contains\<close>, \<open>join(' ')\<close>, and the idiom
  \<open>[...new Map(xs.map((x) => [key(x), x])).values()]\<close> that keeps one element per key.
\<close>

section \<open>White space\<close>

definition js_space :: "char \<Rightarrow> bool" where
  "js_space c = (let n = of_char c :: nat in (9 \<le> n \<and> n \<le> 13) \<or> n = 32 \<or> n = 160)"

definition trim :: "string \<Rightarrow> string" where
  "trim s = rev (dropWhile js_space (rev (dropWhile js_space s)))"

text \<open>\<open>s.split(/\s+/)\<close>: leading and trailing white space give empty parts.\<close>

function split_spaces :: "string \<Rightarrow> string list" where
  "split_spaces s =
     (let rest = dropWhile (\<lambda>c. \<not> js_space c) s
      in takeWhile (\<lambda>c. \<not> js_space c) s #
           (if rest = [] then [] else split_spaces (dropWhile js_space rest)))"
  by auto

termination
proof (relation "measure length")
  show "(dropWhile js_space x, s) \<in> measure length"
    if "x = dropWhile (\<lambda>c. \<not> js_space c) s" "x \<noteq> []" for s x
  proof -
    have "js_space (hd x)" using that hd_dropWhile [of "\<lambda>c. \<not> js_space c" s] by simp
    with that(2) have "length (dropWhile js_space x) < length x"
      by (cases x) (simp_all add: length_dropWhile_le less_Suc_eq_le)
    also have "\<dots> \<le> length s" unfolding that(1) by (rule length_dropWhile_le)
    finally show ?thesis by simp
  qed
qed simp

declare split_spaces.simps [simp del]

text \<open>\<open>s.split(/\s+/).filter(Boolean)\<close>\<close>

definition js_words :: "string \<Rightarrow> string list" where
  "js_words s = filter (\<lambda>w. w \<noteq> []) (split_spaces s)"

lemma split_spaces_no_space: "w \<in> set (split_spaces s) \<Longrightarrow> \<forall>c\<in>set w. \<not> js_space c"
proof (induction s rule: split_spaces.induct)
  case (1 s)
  let ?rest = "dropWhile (\<lambda>c. \<not> js_space c) s"
  have "w = takeWhile (\<lambda>c. \<not> js_space c) s \<or> (?rest \<noteq> [] \<and> w \<in> set (split_spaces (dropWhile js_space ?rest)))"
    using 1(2) by (simp add: split_spaces.simps [of s] Let_def split: if_splits)
  then show ?case
  proof
    assume "w = takeWhile (\<lambda>c. \<not> js_space c) s"
    then show ?thesis by (auto dest: set_takeWhileD)
  qed (use 1(1) in blast)
qed

lemma js_words_nonempty: "w \<in> set (js_words s) \<Longrightarrow> w \<noteq> []"
  by (simp add: js_words_def)

section \<open>Numbers in strings\<close>

fun decimal :: "nat \<Rightarrow> string" where
  "decimal n = (if n < 10 then [char_of (48 + n)] else decimal (n div 10) @ [char_of (48 + n mod 10)])"

declare decimal.simps [simp del]

section \<open>Searching\<close>

definition starts_with :: "string \<Rightarrow> string \<Rightarrow> bool" where
  "starts_with s t = (take (length t) s = t)"

fun contains :: "string \<Rightarrow> string \<Rightarrow> bool" where
  "contains s t = (starts_with s t \<or> (case s of [] \<Rightarrow> False | c # r \<Rightarrow> contains r t))"

declare contains.simps [simp del]

lemma starts_with_iff: "starts_with s t \<longleftrightarrow> (\<exists>r. s = t @ r)"
  unfolding starts_with_def by (metis append_eq_conv_conj append_take_drop_id)

lemma contains_iff: "contains s t \<longleftrightarrow> (\<exists>p r. s = p @ t @ r)"
proof (induction s)
  case Nil
  then show ?case by (simp add: contains.simps starts_with_iff)
next
  case (Cons c s)
  have "(\<exists>p r. c # s = p @ t @ r) \<longleftrightarrow> (\<exists>r. c # s = t @ r) \<or> (\<exists>p r. s = p @ t @ r)"
    by (metis append_Cons append_Nil neq_Nil_conv list.sel(3))
  with Cons show ?case by (subst contains.simps) (simp add: starts_with_iff)
qed

lemma starts_with_contains: "starts_with s t \<Longrightarrow> contains s t"
  by (subst contains.simps) simp

lemma contains_self [simp]: "contains s s"
  by (subst contains.simps) (simp add: starts_with_def)

fun join_space :: "string list \<Rightarrow> string" where
  "join_space [] = []"
| "join_space [x] = x"
| "join_space (x # xs) = x @ '' '' @ join_space xs"

section \<open>One element per key\<close>

definition by_key :: "('a \<Rightarrow> 'k) \<Rightarrow> 'a list \<Rightarrow> ('k, 'a) jsmap \<Rightarrow> ('k, 'a) jsmap" where
  "by_key key xs m = fold (\<lambda>x m. jset m (key x) x) xs m"

definition unique_by :: "('a \<Rightarrow> 'k) \<Rightarrow> 'a list \<Rightarrow> 'a list" where
  "unique_by key xs = jvals (by_key key xs [])"

lemma by_key_get:
  "jget (by_key key xs m) k = (case filter (\<lambda>x. key x = k) xs of [] \<Rightarrow> jget m k | ys \<Rightarrow> Some (last ys))"
  unfolding by_key_def
  by (induction xs arbitrary: m) (auto split: list.splits)

lemma by_key_distinct: "distinct (jkeys m) \<Longrightarrow> distinct (jkeys (by_key key xs m))"
  unfolding by_key_def by (induction xs arbitrary: m) simp_all

lemma jset_keyed: "\<forall>e\<in>set m. key (snd e) = fst e \<Longrightarrow> e \<in> set (jset m (key y) y) \<Longrightarrow> key (snd e) = fst e"
  by (induction m "key y" y rule: jset.induct) (auto split: if_splits)

lemma by_key_keyed:
  assumes "\<forall>e\<in>set m. key (snd e) = fst e" shows "\<forall>e\<in>set (by_key key xs m). key (snd e) = fst e"
  using assms unfolding by_key_def
proof (induction xs arbitrary: m)
  case (Cons x xs)
  have "\<forall>e\<in>set (jset m (key x) x). key (snd e) = fst e" using jset_keyed [OF Cons.prems] by blast
  then show ?case using Cons.IH by simp
qed simp

lemma unique_by_keys: "map key (unique_by key xs) = jkeys (by_key key xs [])"
  using by_key_keyed [of "[]" key xs] by (simp add: unique_by_def jvals_def jkeys_def)

lemma unique_by_distinct: "distinct (map key (unique_by key xs))"
  unfolding unique_by_keys by (rule by_key_distinct) simp

lemma unique_by_iff: "x \<in> set (unique_by key xs) \<longleftrightarrow> x \<in> set xs \<and> last (filter (\<lambda>y. key y = key x) xs) = x"
proof -
  let ?m = "by_key key xs []"
  have keyed: "(k, x) \<in> set ?m \<Longrightarrow> key x = k" for k using by_key_keyed [of "[]" key xs] by auto
  have dist: "distinct (jkeys ?m)" by (rule by_key_distinct) simp
  have "x \<in> set (unique_by key xs) \<longleftrightarrow> (key x, x) \<in> set ?m"
    using keyed by (force simp: unique_by_def jvals_def)
  also have "\<dots> \<longleftrightarrow> jget ?m (key x) = Some x" using dist by (simp add: jget_def jkeys_def)
  also have "\<dots> \<longleftrightarrow> x \<in> set xs \<and> last (filter (\<lambda>y. key y = key x) xs) = x"
  proof (cases "filter (\<lambda>y. key y = key x) xs = []")
    case True
    then show ?thesis by (auto simp: by_key_get filter_empty_conv)
  next
    case False
    then have "last (filter (\<lambda>y. key y = key x) xs) \<in> set xs"
      using last_in_set by fastforce
    with False show ?thesis by (auto simp: by_key_get split: list.splits)
  qed
  finally show ?thesis .
qed

lemma unique_by_subset: "set (unique_by key xs) \<subseteq> set xs"
  by (auto simp: unique_by_iff)

lemma unique_by_covers:
  assumes "x \<in> set xs"
  obtains y where "y \<in> set (unique_by key xs)" "key y = key x"
proof -
  let ?ys = "filter (\<lambda>y. key y = key x) xs"
  have ne: "?ys \<noteq> []" using assms by (auto simp: filter_empty_conv)
  then have "last ?ys \<in> set ?ys" by (rule last_in_set)
  then have "last ?ys \<in> set xs" "key (last ?ys) = key x" by auto
  then show ?thesis by (intro that [of "last ?ys"]) (simp_all add: unique_by_iff)
qed

lemma unique_by_id:
  assumes "distinct (map key xs)" shows "unique_by key xs = xs"
proof -
  have "by_key key ys m = m @ map (\<lambda>x. (key x, x)) ys" if "distinct (jkeys m @ map key ys)" for ys m
    using that unfolding by_key_def by (induction ys arbitrary: m) (auto simp: jset_new jkeys_def)
  from this [of "[]" xs] show ?thesis using assms by (simp add: unique_by_def jvals_def comp_def)
qed

end
