(* ===== verification/VoiceCrypto.thy ===== *)
theory VoiceCrypto
  imports "HOL-Library.Word" JsStrings
begin

text \<open>
  End-to-end encryption of the relayed voice packets (\<open>media/voiceCrypto.ts\<close>).

  The browser's cryptography is not code of the repository: it is the record
  \<open>web_crypto\<close>, a parameter of the definitions that use it, one field for each platform
  function the source calls (a field that can reject returns an option). Bytes are
  \<open>8 word\<close>, binary strings and texts are lists of characters. An async function is split at
  the awaits after which it reads or writes the session: \<open>decrypt\<close> tests the sequence before
  and after the platform has decrypted, so it is \<open>decrypt_begin\<close> and \<open>decrypt_finish\<close>;
  \<open>encrypt\<close> does not touch the session after its await.
\<close>

type_synonym octet = "8 word"

record ('p, 'k) web_crypto =
  btoa :: "string \<Rightarrow> string"
  atob :: "string \<Rightarrow> string option"
  utf8 :: "string \<Rightarrow> octet list"
  sha256 :: "octet list \<Rightarrow> octet list"
  ecdh_bits :: "'p \<Rightarrow> octet list \<Rightarrow> octet list option"
  hkdf_key :: "octet list \<Rightarrow> octet list \<Rightarrow> octet list \<Rightarrow> 'k"
  hkdf_bits :: "octet list \<Rightarrow> octet list \<Rightarrow> octet list \<Rightarrow> octet list"
  gcm_seal :: "'k \<Rightarrow> octet list \<Rightarrow> octet list \<Rightarrow> octet list \<Rightarrow> octet list"
  gcm_open :: "'k \<Rightarrow> octet list \<Rightarrow> octet list \<Rightarrow> octet list \<Rightarrow> octet list option"

section \<open>Bytes\<close>

definition octet_char :: "octet \<Rightarrow> char" where
  "octet_char w = char_of (unat w)"

definition char_octet :: "char \<Rightarrow> octet" where
  "char_octet c = word_of_nat (of_char c)"

lemma char_octet_char [simp]: "char_octet (octet_char w) = w"
  using unsigned_less [of w, where 'a = nat] by (simp add: char_octet_def octet_char_def)

function binary_string :: "octet list \<Rightarrow> string" where
  "binary_string bytes =
     (if bytes = [] then []
      else map octet_char (take 32768 bytes) @ binary_string (drop 32768 bytes))"
  by auto
termination by (relation "measure length") auto

declare binary_string.simps [simp del]

lemma binary_string_map: "binary_string bytes = map octet_char bytes"
proof (induction bytes rule: binary_string.induct)
  case (1 bytes)
  show ?case
    by (subst binary_string.simps) (use 1 in \<open>auto simp: take_map [symmetric] drop_map [symmetric]\<close>)
qed

definition bytes_to_base64 :: "('p, 'k) web_crypto \<Rightarrow> octet list \<Rightarrow> string" where
  "bytes_to_base64 w bytes = btoa w (binary_string bytes)"

definition base64_to_bytes :: "('p, 'k) web_crypto \<Rightarrow> string \<Rightarrow> nat \<Rightarrow> string + octet list" where
  "base64_to_bytes w value max_length =
     (if length value > max_length then Inl ''Voice relay data is too large''
      else case atob w value of
          None \<Rightarrow> Inl ''InvalidCharacterError''
        | Some binary \<Rightarrow> Inr (map char_octet binary))"

definition nul :: string where "nul = [CHR 0x00]"

definition voice_context :: "('p, 'k) web_crypto \<Rightarrow> string \<Rightarrow> string \<Rightarrow> string \<Rightarrow> octet list" where
  "voice_context w from to epoch =
     utf8 w (''bettercomms/voice-relay/v1'' @ nul @ from @ nul @ to @ nul @ epoch)"

definition voice_aad :: "('p, 'k) web_crypto \<Rightarrow> string \<Rightarrow> string \<Rightarrow> string \<Rightarrow> nat \<Rightarrow> octet list" where
  "voice_aad w from to epoch sequence =
     utf8 w (''bettercomms/voice-relay/v1'' @ nul @ from @ nul @ to @ nul @ epoch @ nul @ decimal sequence)"

text \<open>\<open>setBigUint64\<close>, big endian.\<close>

definition big_endian64 :: "nat \<Rightarrow> octet list" where
  "big_endian64 n = rev (map (\<lambda>i. word_of_nat (n div 256 ^ i)) [0..<8])"

definition voice_nonce :: "octet list \<Rightarrow> nat \<Rightarrow> string + octet list" where
  "voice_nonce prefix sequence =
     (if \<not> safe_integer (int sequence) then Inl ''Voice relay sequence is invalid''
      else Inr (take 4 prefix @ replicate (4 - length prefix) 0 @ big_endian64 sequence))"

section \<open>Sessions\<close>

record 'k voice_session =
  session_epoch :: string
  local_peer :: string
  remote_peer :: string
  send_key :: 'k
  receive_key :: 'k
  send_prefix :: "octet list"
  receive_prefix :: "octet list"
  verification_code :: string
  send_sequence :: nat
  received_sequence :: int

text \<open>\<open>sort()\<close> without a comparator orders strings by their code units.\<close>

definition text_cmp :: "string \<Rightarrow> string \<Rightarrow> int" where
  "text_cmp a b =
     (let a = map of_char a :: nat list; b = map of_char b
      in if a = b then 0 else if ord_class.lexordp a b then - 1 else 1)"

definition hex_digit :: "nat \<Rightarrow> char" where
  "hex_digit n = (if n < 10 then char_of (48 + n) else char_of (87 + n))"

definition hex_byte :: "octet \<Rightarrow> string" where
  "hex_byte b = [hex_digit (unat b div 16), hex_digit (unat b mod 16)]"

fun groups_of_4 :: "string \<Rightarrow> string list" where
  "groups_of_4 (a # b # c # d # rest) = [a, b, c, d] # groups_of_4 rest"
| "groups_of_4 [] = []"
| "groups_of_4 rest = [rest]"

fun join :: "string \<Rightarrow> string list \<Rightarrow> string" where
  "join sep [] = []"
| "join sep [t] = t"
| "join sep (t # ts) = t @ sep @ join sep ts"

definition session_code :: "('p, 'k) web_crypto \<Rightarrow> string \<Rightarrow> string \<Rightarrow> string \<Rightarrow> string \<Rightarrow> string \<Rightarrow> string" where
  "session_code w epoch a b key_a key_b =
     (let transcript = join nul (js_sort text_cmp [key_a, key_b]);
          digest = sha256 w (utf8 w (epoch @ nul @ join nul (js_sort text_cmp [a, b]) @ nul @ transcript))
      in join ''-'' (groups_of_4 (concat (map hex_byte (take 16 digest)))))"

text \<open>A key pair is the private key and the public key in base64.\<close>

definition create_session ::
  "('p, 'k) web_crypto \<Rightarrow> string \<Rightarrow> string \<Rightarrow> string \<Rightarrow> 'p \<times> string \<Rightarrow> string \<Rightarrow> string + 'k voice_session" where
  "create_session w me other epoch pair remote_key =
     (if me = [] \<or> other = [] \<or> me = other then Inl ''Voice relay peer identity is invalid''
      else if epoch = [] \<or> length epoch > 64 then Inl ''Voice relay epoch is invalid''
      else case base64_to_bytes w remote_key 512 of
          Inl e \<Rightarrow> Inl e
        | Inr raw \<Rightarrow>
            if length raw \<noteq> 65 \<or> hd raw \<noteq> 4 then Inl ''Voice relay public key is invalid''
            else case ecdh_bits w (fst pair) raw of
                None \<Rightarrow> Inl ''DataError''
              | Some secret \<Rightarrow>
                  let salt = sha256 w (utf8 w epoch);
                      key = (\<lambda>from to. hkdf_key w secret salt (voice_context w from to epoch));
                      prefix = (\<lambda>from to. hkdf_bits w secret salt
                        (utf8 w (''nonce'' @ nul @ from @ nul @ to @ nul @ epoch)))
                  in Inr \<lparr>session_epoch = epoch, local_peer = me, remote_peer = other,
                       send_key = key me other, receive_key = key other me,
                       send_prefix = prefix me other, receive_prefix = prefix other me,
                       verification_code = session_code w epoch me other (snd pair) remote_key,
                       send_sequence = 0, received_sequence = - 1\<rparr>)"

text \<open>\<open>sequence++\<close> on a double: 2 to the 53 plus one rounds back to 2 to the 53.\<close>

definition next_sequence :: "nat \<Rightarrow> nat" where
  "next_sequence n = (if n < 9007199254740992 then n + 1 else n)"

text \<open>
  What \<open>encrypt\<close> hands to \<open>crypto.subtle.encrypt\<close>, and the rest of \<open>encrypt\<close>, which seals just that.
\<close>

record 'k seal_request =
  seal_key :: 'k
  seal_iv :: "octet list"
  seal_aad :: "octet list"
  seal_packet :: "octet list"

definition encrypt_begin ::
  "('p, 'k) web_crypto \<Rightarrow> octet list \<Rightarrow> 'k voice_session \<Rightarrow> (string + nat \<times> 'k seal_request) \<times> 'k voice_session" where
  "encrypt_begin w packet s =
     (if packet = [] \<or> length packet > 3000 then (Inl ''Voice relay packet size is invalid'', s)
      else
        let sequence = send_sequence s;
            s = s\<lparr>send_sequence := next_sequence sequence\<rparr>
        in case voice_nonce (send_prefix s) sequence of
            Inl e \<Rightarrow> (Inl e, s)
          | Inr iv \<Rightarrow>
              (Inr (sequence, \<lparr>seal_key = send_key s, seal_iv = iv,
                 seal_aad = voice_aad w (local_peer s) (remote_peer s) (session_epoch s) sequence, seal_packet = packet\<rparr>), s))"

definition seal :: "('p, 'k) web_crypto \<Rightarrow> 'k seal_request \<Rightarrow> octet list" where
  "seal w q = gcm_seal w (seal_key q) (seal_iv q) (seal_aad q) (seal_packet q)"

definition encrypt_packet ::
  "('p, 'k) web_crypto \<Rightarrow> octet list \<Rightarrow> 'k voice_session \<Rightarrow> (string + nat \<times> string) \<times> 'k voice_session" where
  "encrypt_packet w packet s =
     (case encrypt_begin w packet s of
        (Inl e, s) \<Rightarrow> (Inl e, s)
      | (Inr (sequence, q), s) \<Rightarrow> (Inr (sequence, bytes_to_base64 w (seal w q)), s))"

text \<open>
  \<open>decrypt\<close> up to its await: it answers \<open>null\<close>, throws, or waits for the platform, whose
  answer is \<open>None\<close> when the packet does not authenticate. A sequence that is no integer
  is \<open>None\<close>.
\<close>

datatype decryption =
    Ignored
  | Refused string
  | Decrypting nat "octet list option"

definition decrypt_begin ::
  "('p, 'k) web_crypto \<Rightarrow> num \<Rightarrow> string \<Rightarrow> 'k voice_session \<Rightarrow> decryption" where
  "decrypt_begin w sequence data s =
     (case sequence of
        None \<Rightarrow> Ignored
      | Some n \<Rightarrow>
          if \<not> safe_integer n \<or> n \<le> received_sequence s then Ignored
          else if data = [] \<or> length data > 4096 then Refused ''Voice relay packet is too large''
          else case base64_to_bytes w data 4096 of
              Inl e \<Rightarrow> Refused e
            | Inr sealed \<Rightarrow>
                (case voice_nonce (receive_prefix s) (nat n) of
                   Inl e \<Rightarrow> Refused e
                 | Inr iv \<Rightarrow> Decrypting (nat n) (gcm_open w (receive_key s) iv
                     (voice_aad w (remote_peer s) (local_peer s) (session_epoch s) (nat n)) sealed)))"

definition decrypt_finish ::
  "nat \<Rightarrow> octet list option \<Rightarrow> 'k voice_session \<Rightarrow> (string + octet list option) \<times> 'k voice_session" where
  "decrypt_finish sequence result s =
     (case result of
        None \<Rightarrow> (Inl ''OperationError'', s)
      | Some packet \<Rightarrow>
          if int sequence \<le> received_sequence s then (Inr None, s)
          else (Inr (Some packet), s\<lparr>received_sequence := int sequence\<rparr>))"

text \<open>The two parts of \<open>decrypt\<close> with nothing in between.\<close>

definition decrypt_packet ::
  "('p, 'k) web_crypto \<Rightarrow> num \<Rightarrow> string \<Rightarrow> 'k voice_session \<Rightarrow> (string + octet list option) \<times> 'k voice_session" where
  "decrypt_packet w sequence data s =
     (case decrypt_begin w sequence data s of
        Ignored \<Rightarrow> (Inr None, s)
      | Refused e \<Rightarrow> (Inl e, s)
      | Decrypting n result \<Rightarrow> decrypt_finish n result s)"

section \<open>Nonces\<close>

lemma low_digits:
  assumes "\<And>i. i < k \<Longrightarrow> m div 256 ^ i mod 256 = n div 256 ^ i mod (256 :: nat)"
  shows "m mod 256 ^ k = n mod 256 ^ k"
  using assms by (induction k) (simp_all add: mult.commute [of 256] mod_mult2_eq)

lemma big_endian64_inject:
  assumes "big_endian64 m = big_endian64 n" and "m < 2 ^ 64" and "n < 2 ^ 64"
  shows "m = n"
proof -
  have "word_of_nat (m div 256 ^ i) = (word_of_nat (n div 256 ^ i) :: octet)" if "i < 8" for i
    using assms(1) that by (simp add: big_endian64_def del: upt_rec_numeral upt_Suc)
  then have "m div 256 ^ i mod 256 = n div 256 ^ i mod 256" if "i < 8" for i
    using that by (auto simp: word_of_nat_eq_iff take_bit_eq_mod)
  then have "m mod 256 ^ 8 = n mod 256 ^ 8" by (rule low_digits)
  with assms(2,3) show ?thesis by simp
qed

lemma voice_nonce_inject:
  assumes "voice_nonce prefix m = Inr iv" and "voice_nonce prefix n = Inr iv"
  shows "m = n"
  using assms by (auto simp: voice_nonce_def safe_integer_def split: if_splits intro: big_endian64_inject)

text \<open>
  The calls of \<open>crypto.subtle.encrypt\<close> that a session makes for a sequence of packets, and what
  the callers of \<open>encrypt\<close> get for those packets.
\<close>

fun seal_requests :: "('p, 'k) web_crypto \<Rightarrow> octet list list \<Rightarrow> 'k voice_session \<Rightarrow> 'k seal_request list" where
  "seal_requests w [] s = []"
| "seal_requests w (packet # packets) s =
     (case encrypt_begin w packet s of
        (Inl e, s) \<Rightarrow> seal_requests w packets s
      | (Inr (sequence, q), s) \<Rightarrow> q # seal_requests w packets s)"

fun encrypt_all ::
  "('p, 'k) web_crypto \<Rightarrow> octet list list \<Rightarrow> 'k voice_session \<Rightarrow> (string + nat \<times> string) list" where
  "encrypt_all w [] s = []"
| "encrypt_all w (packet # packets) s =
     (case encrypt_packet w packet s of (r, s) \<Rightarrow> r # encrypt_all w packets s)"

definition sent_data :: "(string + nat \<times> string) list \<Rightarrow> string list" where
  "sent_data rs = concat (map (case_sum (\<lambda>e. []) (\<lambda>(sequence, data). [data])) rs)"

lemma encrypt_packet_eq:
  "encrypt_packet w packet s =
     (if packet = [] \<or> length packet > 3000 then (Inl ''Voice relay packet size is invalid'', s)
      else
        let sequence = send_sequence s;
            s = s\<lparr>send_sequence := next_sequence sequence\<rparr>
        in case voice_nonce (send_prefix s) sequence of
            Inl e \<Rightarrow> (Inl e, s)
          | Inr iv \<Rightarrow> (Inr (sequence, bytes_to_base64 w (gcm_seal w (send_key s) iv
              (voice_aad w (local_peer s) (remote_peer s) (session_epoch s) sequence) packet)), s))"
  by (simp add: encrypt_packet_def encrypt_begin_def seal_def Let_def split: sum.split)

lemma encrypt_cases:
  obtains (refused) e where "encrypt_begin w packet s = (Inl e, s)"
  | (exhausted) e where "encrypt_begin w packet s = (Inl e, s\<lparr>send_sequence := next_sequence (send_sequence s)\<rparr>)"
  | (sent) q where
      "encrypt_begin w packet s = (Inr (send_sequence s, q), s\<lparr>send_sequence := Suc (send_sequence s)\<rparr>)"
      "voice_nonce (send_prefix s) (send_sequence s) = Inr (seal_iv q)" "seal_key q = send_key s"
proof (cases "packet = [] \<or> length packet > 3000")
  case False
  show ?thesis
  proof (cases "voice_nonce (send_prefix s) (send_sequence s)")
    case (Inr iv)
    then have "next_sequence (send_sequence s) = Suc (send_sequence s)"
      by (simp add: voice_nonce_def safe_integer_def next_sequence_def split: if_splits)
    with False Inr show ?thesis
      by (intro sent [of "\<lparr>seal_key = send_key s, seal_iv = iv,
            seal_aad = voice_aad w (local_peer s) (remote_peer s) (session_epoch s) (send_sequence s), seal_packet = packet\<rparr>"])
         (simp_all add: encrypt_begin_def Let_def)
  qed (use False exhausted in \<open>simp add: encrypt_begin_def Let_def\<close>)
qed (use refused in \<open>simp add: encrypt_begin_def\<close>)

lemma seal_requests_later:
  "q \<in> set (seal_requests w packets s) \<Longrightarrow>
     seal_key q = send_key s \<and> (\<exists>n \<ge> send_sequence s. voice_nonce (send_prefix s) n = Inr (seal_iv q))"
proof (induction packets arbitrary: s)
  case (Cons packet packets)
  show ?case
  proof (cases rule: encrypt_cases [of w packet s])
    case (exhausted e)
    with Cons.prems have "q \<in> set (seal_requests w packets (s\<lparr>send_sequence := next_sequence (send_sequence s)\<rparr>))"
      by simp
    from Cons.IH [OF this] show ?thesis by (auto simp: next_sequence_def split: if_splits intro: Suc_leD)
  next
    case (sent q')
    then show ?thesis using Cons by (force dest: Suc_leD)
  qed (use Cons in auto)
qed simp

lemma seal_requests_distinct: "distinct (map seal_iv (seal_requests w packets s))"
proof (induction packets arbitrary: s)
  case (Cons packet packets)
  show ?case
  proof (cases rule: encrypt_cases [of w packet s])
    case (sent q)
    have "seal_iv q \<noteq> seal_iv r" if "r \<in> set (seal_requests w packets (s\<lparr>send_sequence := Suc (send_sequence s)\<rparr>))" for r
    proof
      assume same: "seal_iv q = seal_iv r"
      from seal_requests_later [OF that] obtain n where "n > send_sequence s" "voice_nonce (send_prefix s) n = Inr (seal_iv r)"
        by (auto simp: Suc_le_eq)
      with voice_nonce_inject [OF sent(2)] same show False by force
    qed
    with sent(1) Cons show ?thesis by auto
  qed (use Cons in simp_all)
qed simp

lemma sent_data_sealed: "sent_data (encrypt_all w packets s) = map (\<lambda>q. bytes_to_base64 w (seal w q)) (seal_requests w packets s)"
proof (induction packets arbitrary: s)
  case (Cons packet packets)
  show ?case
    by (cases rule: encrypt_cases [of w packet s]) (simp_all add: encrypt_packet_def sent_data_def Cons.IH [unfolded sent_data_def])
qed (simp add: sent_data_def)

text \<open>
  C1. No nonce is ever used twice with a session's key: whatever packets are encrypted,
  and however many (also beyond the largest safe integer, where the counter sticks and
  encryption fails instead), the calls of AES-GCM are all under the session's sending key, their
  nonces are pairwise distinct, and what is sent is just the outcome of those calls.
\<close>

theorem voice_nonces_distinct:
  "distinct (map seal_iv (seal_requests w packets s)) \<and> seal_key ` set (seal_requests w packets s) \<subseteq> {send_key s} \<and>
   sent_data (encrypt_all w packets s) = map (\<lambda>q. bytes_to_base64 w (seal w q)) (seal_requests w packets s)"
  using seal_requests_distinct [of w packets s] seal_requests_later [of _ w packets s] sent_data_sealed [of w packets s] by blast

section \<open>Replay\<close>

text \<open>
  A receiver: its session, the calls of \<open>decrypt\<close> that wait for the platform (they settle in
  any order) and the packets that were handed on, with their sequences.
\<close>

record 'k receiver =
  held_session :: "'k voice_session"
  jobs :: "(nat \<times> octet list option) list"
  accepted :: "(nat \<times> octet list) list"

datatype receive_event = Arrive num string | Settle nat

fun receive_step :: "('p, 'k) web_crypto \<Rightarrow> 'k receiver \<Rightarrow> receive_event \<Rightarrow> 'k receiver" where
  "receive_step w r (Arrive sequence data) =
     (case decrypt_begin w sequence data (held_session r) of
        Decrypting n result \<Rightarrow> r\<lparr>jobs := jobs r @ [(n, result)]\<rparr>
      | _ \<Rightarrow> r)"
| "receive_step w r (Settle i) =
     (if i \<ge> length (jobs r) then r
      else case jobs r ! i of (n, result) \<Rightarrow>
        let r = r\<lparr>jobs := take i (jobs r) @ drop (Suc i) (jobs r)\<rparr>
        in case decrypt_finish n result (held_session r) of
            (Inr (Some packet), s) \<Rightarrow> r\<lparr>held_session := s, accepted := accepted r @ [(n, packet)]\<rparr>
          | (_, s) \<Rightarrow> r\<lparr>held_session := s\<rparr>)"

definition authentic :: "('p, 'k) web_crypto \<Rightarrow> 'k voice_session \<Rightarrow> nat \<times> octet list \<Rightarrow> bool" where
  "authentic w s e \<longleftrightarrow> (\<exists>iv sealed. voice_nonce (receive_prefix s) (fst e) = Inr iv \<and>
     gcm_open w (receive_key s) iv
       (voice_aad w (remote_peer s) (local_peer s) (session_epoch s) (fst e)) sealed = Some (snd e))"

definition receiver_ok :: "('p, 'k) web_crypto \<Rightarrow> 'k voice_session \<Rightarrow> 'k receiver \<Rightarrow> bool" where
  "receiver_ok w s r \<longleftrightarrow>
     (\<exists>q. held_session r = s\<lparr>received_sequence := q\<rparr>) \<and>
     (\<forall>n packet. (n, Some packet) \<in> set (jobs r) \<longrightarrow> authentic w s (n, packet)) \<and>
     (\<forall>e \<in> set (accepted r). authentic w s e \<and> int (fst e) \<le> received_sequence (held_session r)) \<and>
     sorted_wrt (<) (map fst (accepted r))"

lemma decrypt_begin_authentic:
  assumes "decrypt_begin w sequence data s' = Decrypting n (Some packet)"
    and "s' = s\<lparr>received_sequence := q\<rparr>"
  shows "authentic w s (n, packet)"
  using assms by (auto simp: decrypt_begin_def authentic_def split: option.splits if_splits sum.splits)

lemma receiver_ok_step: "receiver_ok w s r \<Longrightarrow> receiver_ok w s (receive_step w r e)"
proof (cases e)
  case (Arrive sequence data)
  assume ok: "receiver_ok w s r"
  have "authentic w s (n, packet)" if "decrypt_begin w sequence data (held_session r) = Decrypting n (Some packet)" for n packet
    using ok decrypt_begin_authentic [OF that] unfolding receiver_ok_def by blast
  with ok Arrive show ?thesis by (auto simp: receiver_ok_def split: decryption.split)
next
  case (Settle i)
  assume ok: "receiver_ok w s r"
  show ?thesis
  proof (cases "i < length (jobs r)")
    case True
    obtain n result where job: "jobs r ! i = (n, result)" by (cases "jobs r ! i")
    with True have "(n, result) \<in> set (jobs r)" by (metis nth_mem)
    with ok Settle True job show ?thesis
      by (auto simp: receiver_ok_def Let_def decrypt_finish_def sorted_wrt_append
          split: option.split dest!: in_set_takeD in_set_dropD)
  qed (use ok Settle in simp)
qed

interpretation replay: event_machine "receive_step w" "receiver_ok w s" for w s
  by unfold_locales (rule receiver_ok_step)

text \<open>
  C3. Replayed and reordered packets are refused: whatever frames arrive, and in whatever
  order the platform finishes decrypting them, the sequences of the packets handed on
  increase strictly, and each of these packets was authenticated under the session's key,
  with its own sequence in the nonce and in the additional data.
\<close>

theorem voice_packets_never_replayed:
  fixes w s es
  defines "r \<equiv> foldl (receive_step w) \<lparr>held_session = s, jobs = [], accepted = []\<rparr> es"
  shows "sorted_wrt (<) (map fst (accepted r)) \<and> list_all (authentic w s) (accepted r)"
proof -
  have "receiver_ok w s \<lparr>held_session = s, jobs = [], accepted = []\<rparr>"
    unfolding receiver_ok_def by (intro conjI exI [of _ "received_sequence s"]) simp_all
  from replay.run_inv [OF this, of es] show ?thesis
    by (auto simp: r_def receiver_ok_def list_all_iff)
qed

section \<open>The channel between two peers\<close>

text \<open>What the code relies on of the browser: base64 and AES-GCM with a tag of 16 bytes.\<close>

definition base64_law :: "('p, 'k) web_crypto \<Rightarrow> bool" where
  "base64_law w \<longleftrightarrow> (\<forall>b. atob w (btoa w b) = Some b \<and> length (btoa w b) \<le> 4 * ((length b + 2) div 3))"

definition gcm_law :: "('p, 'k) web_crypto \<Rightarrow> bool" where
  "gcm_law w \<longleftrightarrow> (\<forall>k iv a m. gcm_open w k iv a (gcm_seal w k iv a m) = Some m \<and>
     length (gcm_seal w k iv a m) = length m + 16)"

text \<open>Diffie-Hellman for two key pairs: both sides derive the same secret.\<close>

definition same_secret :: "('p, 'k) web_crypto \<Rightarrow> 'p \<times> string \<Rightarrow> 'p \<times> string \<Rightarrow> bool" where
  "same_secret w a b \<longleftrightarrow>
     (case (base64_to_bytes w (snd a) 512, base64_to_bytes w (snd b) 512) of
        (Inr raw_a, Inr raw_b) \<Rightarrow> ecdh_bits w (fst a) raw_b = ecdh_bits w (fst b) raw_a
      | _ \<Rightarrow> False)"

lemma base64_round:
  assumes "base64_law w" and "length b \<le> 3016" and "b \<noteq> []"
  shows "base64_to_bytes w (bytes_to_base64 w b) 4096 = Inr b"
    and "bytes_to_base64 w b \<noteq> []" and "length (bytes_to_base64 w b) \<le> 4096"
proof -
  have law: "atob w (btoa w c) = Some c" "length (btoa w c) \<le> 4 * ((length c + 2) div 3)" for c
    using assms(1) by (simp_all add: base64_law_def)
  show len: "length (bytes_to_base64 w b) \<le> 4096"
    using law(2) [of "map octet_char b"] assms(2) by (simp add: bytes_to_base64_def binary_string_map)
  have "btoa w [] = []" using law(2) [of "[]"] by simp
  then show "bytes_to_base64 w b \<noteq> []"
    using law(1) [of "[]"] law(1) [of "map octet_char b"] assms(3)
    by (auto simp: bytes_to_base64_def binary_string_map)
  from len show "base64_to_bytes w (bytes_to_base64 w b) 4096 = Inr b"
    using law(1) by (simp add: base64_to_bytes_def bytes_to_base64_def binary_string_map comp_def)
qed

lemma text_cmp_swap: "js_sort text_cmp [a, b] = js_sort text_cmp [b, a]"
proof -
  let ?n = "map of_char :: string \<Rightarrow> nat list"
  have inj: "?n x = ?n y \<Longrightarrow> x = y" for x y
    by (rule map_injective [of "of_char :: char \<Rightarrow> nat"]) (simp_all add: inj_on_def)
  have "ord_class.lexordp (?n a) (?n b) \<or> ?n a = ?n b \<or> ord_class.lexordp (?n b) (?n a)"
    by (rule lexordp_linear)
  moreover have "ord_class.lexordp (?n a) (?n b) \<Longrightarrow> \<not> ord_class.lexordp (?n b) (?n a)"
    using lexordp_antisym by blast
  ultimately show ?thesis by (auto simp: text_cmp_def Let_def dest: inj)
qed

text \<open>Two sessions that can talk: what one seals with, the other opens with.\<close>

definition opposite :: "'k voice_session \<Rightarrow> 'k voice_session \<Rightarrow> bool" where
  "opposite a b \<longleftrightarrow> session_epoch a = session_epoch b \<and> local_peer a = remote_peer b \<and>
     remote_peer a = local_peer b \<and> send_key a = receive_key b \<and> send_prefix a = receive_prefix b"

lemma create_sessionE:
  assumes "create_session w me other epoch pair remote_key = Inr s"
  obtains raw secret where "base64_to_bytes w remote_key 512 = Inr raw" "ecdh_bits w (fst pair) raw = Some secret"
    "session_epoch s = epoch" "local_peer s = me" "remote_peer s = other"
    "send_key s = hkdf_key w secret (sha256 w (utf8 w epoch)) (voice_context w me other epoch)"
    "receive_key s = hkdf_key w secret (sha256 w (utf8 w epoch)) (voice_context w other me epoch)"
    "send_prefix s = hkdf_bits w secret (sha256 w (utf8 w epoch)) (utf8 w (''nonce'' @ nul @ me @ nul @ other @ nul @ epoch))"
    "receive_prefix s = hkdf_bits w secret (sha256 w (utf8 w epoch)) (utf8 w (''nonce'' @ nul @ other @ nul @ me @ nul @ epoch))"
    "verification_code s = session_code w epoch me other (snd pair) remote_key"
    "send_sequence s = 0" "received_sequence s = - 1"
  using assms by (auto simp: create_session_def Let_def split: if_splits sum.splits option.splits)

text \<open>
  The two ends of a call agree: when both create their session from the other's public
  key and the same epoch, each one seals with the key and the nonce prefix the other opens
  with, in both directions, and both show the same verification code.
\<close>

theorem voice_sessions_agree:
  assumes "same_secret w pair_a pair_b"
    and "create_session w a b epoch pair_a (snd pair_b) = Inr s"
    and "create_session w b a epoch pair_b (snd pair_a) = Inr t"
  shows "opposite s t \<and> opposite t s \<and> verification_code s = verification_code t"
proof -
  obtain raw_b secret_a where s: "base64_to_bytes w (snd pair_b) 512 = Inr raw_b"
      "ecdh_bits w (fst pair_a) raw_b = Some secret_a"
    by (rule create_sessionE [OF assms(2)])
  obtain raw_a secret_b where t: "base64_to_bytes w (snd pair_a) 512 = Inr raw_a"
      "ecdh_bits w (fst pair_b) raw_a = Some secret_b"
    by (rule create_sessionE [OF assms(3)])
  have "secret_a = secret_b" using assms(1) s t by (simp add: same_secret_def)
  moreover have "session_code w epoch a b (snd pair_a) (snd pair_b) = session_code w epoch b a (snd pair_b) (snd pair_a)"
    by (simp only: session_code_def text_cmp_swap [of a b] text_cmp_swap [of "snd pair_a" "snd pair_b"])
  ultimately show ?thesis
    using s t assms(2,3) by (elim create_sessionE) (simp add: opposite_def)
qed

fun decrypt_all ::
  "('p, 'k) web_crypto \<Rightarrow> (nat \<times> string) list \<Rightarrow> 'k voice_session \<Rightarrow> (string + octet list option) list" where
  "decrypt_all w [] s = []"
| "decrypt_all w (frame # frames) s =
     (case decrypt_packet w (Some (int (fst frame))) (snd frame) s of (r, s) \<Rightarrow> r # decrypt_all w frames s)"

definition packet_ok :: "octet list \<Rightarrow> bool" where
  "packet_ok packet \<longleftrightarrow> packet \<noteq> [] \<and> length packet \<le> 3000"

lemma decrypt_encrypted:
  assumes laws: "base64_law w" "gcm_law w" and "opposite s t" and "packet_ok packet"
    and "send_sequence s < 9007199254740992" and "received_sequence t < int (send_sequence s)"
  shows "\<exists>data. encrypt_packet w packet s = (Inr (send_sequence s, data), s\<lparr>send_sequence := Suc (send_sequence s)\<rparr>) \<and>
    decrypt_packet w (Some (int (send_sequence s))) data t =
      (Inr (Some packet), t\<lparr>received_sequence := int (send_sequence s)\<rparr>)"
proof -
  let ?n = "send_sequence s"
  obtain iv where iv: "voice_nonce (send_prefix s) ?n = Inr iv"
    using assms(5) by (simp add: voice_nonce_def safe_integer_def)
  let ?aad = "voice_aad w (local_peer s) (remote_peer s) (session_epoch s) ?n"
  let ?sealed = "gcm_seal w (send_key s) iv ?aad packet"
  have gcm: "gcm_open w (send_key s) iv ?aad ?sealed = Some packet" "length ?sealed = length packet + 16"
    using laws(2) by (simp_all add: gcm_law_def)
  then have "length ?sealed \<le> 3016" "?sealed \<noteq> []" using assms(4) by (auto simp: packet_ok_def)
  note b64 = base64_round [OF laws(1) this]
  have "encrypt_packet w packet s = (Inr (?n, bytes_to_base64 w ?sealed), s\<lparr>send_sequence := Suc ?n\<rparr>)"
    using assms(4,5) iv by (simp add: encrypt_packet_eq Let_def packet_ok_def next_sequence_def)
  moreover have "decrypt_packet w (Some (int ?n)) (bytes_to_base64 w ?sealed) t =
      (Inr (Some packet), t\<lparr>received_sequence := int ?n\<rparr>)"
    using assms(3,5,6) iv b64 gcm
    by (simp add: decrypt_packet_def decrypt_begin_def decrypt_finish_def opposite_def safe_integer_def)
  ultimately show ?thesis by blast
qed

text \<open>
  C2. The encrypted channel delivers what was sent: when two sessions are opposite and the
  receiver has seen no sequence the sender still has to use, every packet of a legal size
  is encrypted, and whichever of the frames the relay drops, the remaining frames decrypt,
  in order, to exactly the packets they were made of.
\<close>

theorem voice_channel_delivers:
  assumes "base64_law w" and "gcm_law w" and "opposite s t"
    and "list_all packet_ok packets"
    and "send_sequence s + length packets \<le> 9007199254740992"
    and "received_sequence t < int (send_sequence s)"
  shows "\<exists>frames. encrypt_all w packets s = map Inr frames \<and>
    (\<forall>kept. decrypt_all w (nths frames kept) t = map (Inr \<circ> Some) (nths packets kept))"
  using assms(3-)
proof (induction packets arbitrary: s t)
  case (Cons packet packets)
  let ?n = "send_sequence s" and ?s = "s\<lparr>send_sequence := Suc (send_sequence s)\<rparr>"
  obtain data where enc: "encrypt_packet w packet s = (Inr (?n, data), ?s)"
    and dec: "decrypt_packet w (Some (int ?n)) data t = (Inr (Some packet), t\<lparr>received_sequence := int ?n\<rparr>)"
    using decrypt_encrypted [OF assms(1,2) Cons.prems(1), of packet] Cons.prems by auto
  have later: "\<exists>frames. encrypt_all w packets ?s = map Inr frames \<and>
      (\<forall>kept. decrypt_all w (nths frames kept) u = map (Inr \<circ> Some) (nths packets kept))"
    if "u = t \<or> u = t\<lparr>received_sequence := int ?n\<rparr>" for u
    by (rule Cons.IH) (use Cons.prems that in \<open>auto simp: opposite_def\<close>)
  obtain frames where frames: "encrypt_all w packets ?s = map Inr frames"
    and 1: "\<And>kept. decrypt_all w (nths frames kept) t = map (Inr \<circ> Some) (nths packets kept)"
    using later [of t] by auto
  have 2: "decrypt_all w (nths frames kept) (t\<lparr>received_sequence := int ?n\<rparr>) = map (Inr \<circ> Some) (nths packets kept)" for kept
    using later [of "t\<lparr>received_sequence := int ?n\<rparr>"] frames by (auto simp: inj_map_eq_map)
  show ?case
    by (rule exI [of _ "(?n, data) # frames"]) (simp add: enc frames dec nths_Cons 1 2)
qed (simp add: nths_def)

section \<open>A concrete platform\<close>

text \<open>
  The witnesses run on a platform that satisfies the laws: base64 that does nothing, a
  Diffie-Hellman whose public key repeats the private byte, a cipher that adds the byte of
  its key and a tag of zeros.
\<close>

definition toy_crypto :: "(octet, octet) web_crypto" where
  "toy_crypto = \<lparr>btoa = id, atob = Some, utf8 = map char_octet, sha256 = id,
     ecdh_bits = (\<lambda>p raw. Some [p * raw ! 1]),
     hkdf_key = (\<lambda>secret salt info. hd secret + of_nat (length info)),
     hkdf_bits = (\<lambda>secret salt info. [hd secret, 1, 2, 3]),
     gcm_seal = (\<lambda>k iv aad m. map ((+) k) m @ replicate 16 0),
     gcm_open = (\<lambda>k iv aad c. Some (map (\<lambda>x. x - k) (take (length c - 16) c)))\<rparr>"

definition toy_pair :: "octet \<Rightarrow> octet \<times> string" where
  "toy_pair p = (p, octet_char 4 # replicate 64 (octet_char p))"

definition toy_session :: "string \<Rightarrow> string \<Rightarrow> octet \<Rightarrow> octet \<Rightarrow> octet voice_session" where
  "toy_session me other p q =
     (case create_session toy_crypto me other ''e'' (toy_pair p) (snd (toy_pair q)) of Inr s \<Rightarrow> s)"

lemma toy_laws: "base64_law toy_crypto" "gcm_law toy_crypto"
proof -
  have "n \<le> 4 * ((n + 2) div 3)" for n :: nat by presburger
  then show "base64_law toy_crypto" by (simp add: base64_law_def toy_crypto_def)
qed (simp add: gcm_law_def toy_crypto_def comp_def)

lemma toy_same_secret: "same_secret toy_crypto (toy_pair 3) (toy_pair 5)"
  by (simp add: same_secret_def base64_to_bytes_def toy_pair_def toy_crypto_def)

lemma toy_created:
  "create_session toy_crypto ''a'' ''b'' ''e'' (toy_pair 3) (snd (toy_pair 5)) = Inr (toy_session ''a'' ''b'' 3 5)"
  "create_session toy_crypto ''b'' ''a'' ''e'' (toy_pair 5) (snd (toy_pair 3)) = Inr (toy_session ''b'' ''a'' 5 3)"
  by (simp_all add: toy_session_def create_session_def Let_def base64_to_bytes_def)
    (simp_all add: toy_pair_def toy_crypto_def)

theorem voice_sessions_agree_witness:
  "opposite (toy_session ''a'' ''b'' 3 5) (toy_session ''b'' ''a'' 5 3) \<and>
   opposite (toy_session ''b'' ''a'' 5 3) (toy_session ''a'' ''b'' 3 5) \<and>
   verification_code (toy_session ''a'' ''b'' 3 5) = verification_code (toy_session ''b'' ''a'' 5 3)"
  by (rule voice_sessions_agree [OF toy_same_secret toy_created])

lemma toy_sequences: "send_sequence (toy_session ''a'' ''b'' 3 5) = 0" "received_sequence (toy_session ''b'' ''a'' 5 3) = - 1"
  by (rule create_sessionE [OF toy_created(1)], simp) (rule create_sessionE [OF toy_created(2)], simp)

lemma toy_opposite: "opposite (toy_session ''a'' ''b'' 3 5) (toy_session ''b'' ''a'' 5 3)"
  by (simp add: opposite_def toy_session_def create_session_def Let_def base64_to_bytes_def toy_pair_def toy_crypto_def
      voice_context_def)

theorem voice_channel_delivers_witness:
  "\<exists>frames. encrypt_all toy_crypto [[1, 2], [3], [4]] (toy_session ''a'' ''b'' 3 5) = map Inr frames \<and>
    (\<forall>kept. decrypt_all toy_crypto (nths frames kept) (toy_session ''b'' ''a'' 5 3) =
       map (Inr \<circ> Some) (nths [[1, 2], [3], [4]] kept))"
  by (rule voice_channel_delivers [OF toy_laws toy_opposite]) (simp_all add: toy_sequences packet_ok_def)

end
