(* ===== verification/VoiceRelay.thy ===== *)
theory VoiceRelay
  imports VoiceCrypto
begin

text \<open>
  The encrypted voice relay (\<open>media/voiceRelay.ts\<close>), on top of \<open>VoiceCrypto\<close>.

  \<open>VoiceRelay\<close> is the record \<open>voice_relay\<close>. Its peers are objects that the code compares by
  identity and keeps in closures after they have left the map, so they live in the list
  \<open>objects\<close> and the map holds their indices; so do crypto sessions and sockets. What an async
  function does after an await is a \<open>relay_task\<close>; the tasks settle in any order, each with an
  answer or a rejection. Codecs and microphone tracks are numbers. The order of two peer
  ids (\<open>localeCompare\<close>), the random epochs and whether the relay's address is a socket
  address are fields of the environment. Signals, callbacks, frames, the disposal of
  codecs and the setting of retry timers are appended to \<open>effects\<close>; callbacks do not call the relay back.
\<close>

section \<open>State\<close>

datatype phase = Idle | Offering | Answering | Active

record 'p voice_peer =
  wanted :: bool
  peer_generation :: nat
  peer_epoch :: "string option"
  key_pair :: "('p \<times> string) option"
  crypto :: "nat option"
  encoder :: "nat option"
  encoder_token :: "nat option"
  decoder :: "nat option"
  exposed :: bool
  encrypting :: nat
  decrypting :: nat
  bitrate :: nat
  peer_phase :: phase
  handshake_attempts :: nat
  handshake_timer :: "nat option"

datatype socket_phase = Socket_connecting | Socket_open | Socket_closing | Socket_closed

record relay_socket =
  opened_as :: nat
  phase_of :: socket_phase
  buffered :: nat
  connect_timer :: bool

datatype signal_kind = Ready | Offer string string | Answer string string | Stop "string option"

datatype relay_state = Relay_connecting | Relayed | Unavailable

datatype relay_effect =
    Signal string signal_kind
  | On_track string "nat option"
  | On_state string relay_state string
  | Frame nat string "string option" nat string
  | Ping nat string
  | Pong nat string
  | Push nat nat "octet list"
  | Set_bitrate nat nat
  | Dispose_encoder nat
  | Dispose_decoder nat
  | Close_socket nat
  | Retry_after nat

text \<open>Whose \<open>catch\<close> an error reaches, and what the code waits for.\<close>

datatype origin = From_start | From_signal | From_timer | From_microphone

datatype ('p, 'k) relay_task =
    Offer_keys origin string nat nat
  | Offer_sent origin string nat nat
  | Ready_sent origin string nat
  | Answer_keys string nat nat string string
  | Answer_session string nat nat string "string + 'k voice_session"
  | Answer_sent string nat nat
  | Accept_session string nat nat "string + 'k voice_session"
  | Decoder_made string nat nat
  | Encoder_made origin string nat nat nat nat
  | Encrypted string nat nat nat int nat "string + nat \<times> string"
  | Decrypted string nat nat nat decryption

datatype 'p answer = Done int | Key_pair 'p string | Codec nat | Rejected string

record ('p, 'k) voice_relay =
  local_id :: string
  peers :: "(string, nat) jsmap"
  objects :: "'p voice_peer list"
  voice_sessions :: "'k voice_session list"
  microphone :: "nat option"
  relay_sockets :: "relay_socket list"
  relay_socket :: "nat option"
  socket_generation :: nat
  relay_attempts :: nat
  relay_timer :: "nat option"
  live_timers :: "(nat, nat) jsmap"
  heartbeat :: "nat option"
  relay_ping :: "string option"
  relay_disposed :: bool
  counter :: nat
  tasks :: "('p, 'k) relay_task list"
  effects :: "relay_effect list"

record ('p, 'k) relay_env =
  web :: "('p, 'k) web_crypto"
  locale_compare :: "string \<Rightarrow> string \<Rightarrow> int"
  random_epoch :: "nat \<Rightarrow> string"
  socket_address :: bool

definition max_buffered_bytes :: nat where "max_buffered_bytes = 32 * 1024"
definition max_crypto_jobs :: nat where "max_crypto_jobs = 1"
definition normal_bitrate :: nat where "normal_bitrate = 64000"
definition congested_bitrate :: nat where "congested_bitrate = 32000"

definition valid_peer :: "json option \<Rightarrow> string option" where
  "valid_peer v = (case v of Some (Str t) \<Rightarrow> if t \<noteq> [] \<and> length t \<le> 128 then Some t else None | _ \<Rightarrow> None)"

definition new_peer :: "'p voice_peer" where
  "new_peer = \<lparr>wanted = False, peer_generation = 0, peer_epoch = None, key_pair = None, crypto = None,
     encoder = None, encoder_token = None, decoder = None, exposed = False, encrypting = 0, decrypting = 0,
     bitrate = normal_bitrate, peer_phase = Idle, handshake_attempts = 0, handshake_timer = None\<rparr>"

definition new_relay :: "string \<Rightarrow> ('p, 'k) voice_relay option" where
  "new_relay me =
     (case valid_peer (Some (Str me)) of
        None \<Rightarrow> None
      | Some me \<Rightarrow> Some \<lparr>local_id = me, peers = [], objects = [], voice_sessions = [], microphone = None,
          relay_sockets = [], relay_socket = None, socket_generation = 0, relay_attempts = 0, relay_timer = None,
          live_timers = [], heartbeat = None, relay_ping = None, relay_disposed = False, counter = 0,
          tasks = [], effects = []\<rparr>)"

definition emit_effects :: "relay_effect list \<Rightarrow> ('p, 'k) voice_relay \<Rightarrow> ('p, 'k) voice_relay" where
  "emit_effects es s = s\<lparr>effects := effects s @ es\<rparr>"

definition await :: "('p, 'k) relay_task \<Rightarrow> ('p, 'k) voice_relay \<Rightarrow> ('p, 'k) voice_relay" where
  "await t s = s\<lparr>tasks := tasks s @ [t]\<rparr>"

definition peer_at :: "('p, 'k) voice_relay \<Rightarrow> nat \<Rightarrow> 'p voice_peer" where
  "peer_at s i = objects s ! i"

definition upd_peer ::
  "nat \<Rightarrow> ('p voice_peer \<Rightarrow> 'p voice_peer) \<Rightarrow> ('p, 'k) voice_relay \<Rightarrow> ('p, 'k) voice_relay" where
  "upd_peer i f s = s\<lparr>objects := (objects s)[i := f (objects s ! i)]\<rparr>"

definition socket_is_open :: "('p, 'k) voice_relay \<Rightarrow> nat \<Rightarrow> bool" where
  "socket_is_open s k \<longleftrightarrow> phase_of (relay_sockets s ! k) = Socket_open"

definition upd_relay_socket ::
  "nat \<Rightarrow> (relay_socket \<Rightarrow> relay_socket) \<Rightarrow> ('p, 'k) voice_relay \<Rightarrow> ('p, 'k) voice_relay" where
  "upd_relay_socket k f s = s\<lparr>relay_sockets := (relay_sockets s)[k := f (relay_sockets s ! k)]\<rparr>"

definition close_socket :: "nat \<Rightarrow> ('p, 'k) voice_relay \<Rightarrow> ('p, 'k) voice_relay" where
  "close_socket k s = emit_effects [Close_socket k]
     (upd_relay_socket k (\<lambda>r. r\<lparr>phase_of := (if phase_of r = Socket_closed then Socket_closed else Socket_closing)\<rparr>) s)"

definition current :: "('p, 'k) voice_relay \<Rightarrow> string \<Rightarrow> nat \<Rightarrow> nat \<Rightarrow> bool" where
  "current s pid i g \<longleftrightarrow> \<not> relay_disposed s \<and> jget (peers s) pid = Some i \<and>
     peer_generation (peer_at s i) = g \<and> wanted (peer_at s i)"

text \<open>\<open>localPeerId.localeCompare(peerId) < 0\<close>: this side makes the offers.\<close>

definition initiator :: "('p, 'k) relay_env \<Rightarrow> ('p, 'k) voice_relay \<Rightarrow> string \<Rightarrow> bool" where
  "initiator env s pid \<longleftrightarrow> locale_compare env (local_id s) pid < 0"

section \<open>Teardown\<close>

definition disposals :: "'p voice_peer \<Rightarrow> relay_effect list" where
  "disposals q = (case encoder q of None \<Rightarrow> [] | Some e \<Rightarrow> [Dispose_encoder e]) @
     (case decoder q of None \<Rightarrow> [] | Some d \<Rightarrow> [Dispose_decoder d])"

definition reset_peer :: "'p voice_peer \<Rightarrow> 'p voice_peer" where
  "reset_peer q = q\<lparr>encoder_token := None, encoder := None, decoder := None, crypto := None,
     key_pair := None, peer_phase := Idle, handshake_timer := None, exposed := False\<rparr>"

definition reset_media :: "string \<Rightarrow> nat \<Rightarrow> ('p, 'k) voice_relay \<Rightarrow> ('p, 'k) voice_relay" where
  "reset_media pid i s =
     (let q = peer_at s i
      in upd_peer i reset_peer
           (emit_effects (disposals q @ (if exposed q then [On_track pid None] else [])) s))"

definition clear_relay_timer :: "('p, 'k) voice_relay \<Rightarrow> ('p, 'k) voice_relay" where
  "clear_relay_timer s = (case relay_timer s of None \<Rightarrow> s | Some t \<Rightarrow> s\<lparr>live_timers := jdel (live_timers s) t\<rparr>)"

definition drop_socket :: "('p, 'k) voice_relay \<Rightarrow> ('p, 'k) voice_relay" where
  "drop_socket s =
     (let s = s\<lparr>socket_generation := Suc (socket_generation s)\<rparr>
      in (case relay_socket s of None \<Rightarrow> s | Some k \<Rightarrow> close_socket k s)\<lparr>relay_socket := None\<rparr>)"

definition retire :: "'p voice_peer \<Rightarrow> 'p voice_peer" where
  "retire q = q\<lparr>wanted := False, peer_generation := Suc (peer_generation q)\<rparr>"

definition remove_peer :: "string \<Rightarrow> string \<Rightarrow> ('p, 'k) voice_relay \<Rightarrow> ('p, 'k) voice_relay" where
  "remove_peer pid message s =
     (case jget (peers s) pid of
        None \<Rightarrow> s
      | Some i \<Rightarrow>
          let s = reset_media pid i (upd_peer i retire s);
              s = emit_effects [On_state pid Unavailable message] (s\<lparr>peers := jdel (peers s) pid\<rparr>)
          in if peers s = []
             then drop_socket ((clear_relay_timer s)\<lparr>relay_timer := None, heartbeat := None, relay_ping := None\<rparr>)
             else s)"

definition remove_all :: "string \<Rightarrow> ('p, 'k) voice_relay \<Rightarrow> ('p, 'k) voice_relay" where
  "remove_all message s = fold (\<lambda>pid. remove_peer pid message) (jkeys (peers s)) s"

definition fail_peer :: "string \<Rightarrow> nat \<Rightarrow> string \<Rightarrow> ('p, 'k) voice_relay \<Rightarrow> ('p, 'k) voice_relay" where
  "fail_peer pid i message s = (if jget (peers s) pid \<noteq> Some i then s else remove_peer pid message s)"

text \<open>
  Where a rejection ends: the \<open>catch\<close> of \<open>handleSignal\<close> fails whatever peer has the sender's
  id by then, the others the peer they were started for.
\<close>

definition on_rejection :: "origin \<Rightarrow> string \<Rightarrow> nat \<Rightarrow> string \<Rightarrow> ('p, 'k) voice_relay \<Rightarrow> ('p, 'k) voice_relay" where
  "on_rejection origin pid i message s =
     (if origin = From_signal
      then (case jget (peers s) pid of None \<Rightarrow> s | Some j \<Rightarrow> fail_peer pid j message s)
      else fail_peer pid i message s)"

definition dispose_relay :: "('p, 'k) voice_relay \<Rightarrow> ('p, 'k) voice_relay" where
  "dispose_relay s =
     (if relay_disposed s then s
      else drop_socket (remove_all ''Voice relay disposed''
        ((clear_relay_timer (s\<lparr>relay_disposed := True\<rparr>))\<lparr>heartbeat := None\<rparr>)))"

section \<open>Sockets and handshakes\<close>

definition arm_handshake :: "nat \<Rightarrow> nat \<Rightarrow> ('p, 'k) voice_relay \<Rightarrow> ('p, 'k) voice_relay" where
  "arm_handshake i delay s = upd_peer i (\<lambda>q. q\<lparr>handshake_timer := Some delay\<rparr>) s"

text \<open>\<open>ensureSocket\<close>; the flag tells whether it throws.\<close>

definition ensure_socket :: "('p, 'k) relay_env \<Rightarrow> ('p, 'k) voice_relay \<Rightarrow> bool \<times> ('p, 'k) voice_relay" where
  "ensure_socket env s =
     (if relay_disposed s \<or> relay_socket s \<noteq> None then (False, s)
      else
        let g = Suc (socket_generation s); s = s\<lparr>socket_generation := g\<rparr>
        in if \<not> socket_address env then (True, s)
           else (False, s\<lparr>relay_sockets := relay_sockets s @
                  [\<lparr>opened_as = g, phase_of = Socket_connecting, buffered = 0, connect_timer = True\<rparr>],
                  relay_socket := Some (length (relay_sockets s))\<rparr>))"

definition begin_offer ::
  "('p, 'k) relay_env \<Rightarrow> origin \<Rightarrow> string \<Rightarrow> nat \<Rightarrow> ('p, 'k) voice_relay \<Rightarrow> ('p, 'k) voice_relay" where
  "begin_offer env origin pid i s =
     (let g = Suc (peer_generation (peer_at s i));
          s = reset_media pid i (upd_peer i (\<lambda>q. q\<lparr>peer_generation := g\<rparr>) s);
          s = upd_peer i (\<lambda>q. q\<lparr>peer_phase := Offering, peer_epoch := Some (random_epoch env (counter s))\<rparr>) s
      in await (Offer_keys origin pid i g) (s\<lparr>counter := Suc (counter s)\<rparr>))"

definition send_ready :: "origin \<Rightarrow> string \<Rightarrow> nat \<Rightarrow> ('p, 'k) voice_relay \<Rightarrow> ('p, 'k) voice_relay" where
  "send_ready origin pid i s = await (Ready_sent origin pid i) (emit_effects [Signal pid Ready] s)"

definition negotiate ::
  "('p, 'k) relay_env \<Rightarrow> origin \<Rightarrow> string \<Rightarrow> nat \<Rightarrow> ('p, 'k) voice_relay \<Rightarrow> ('p, 'k) voice_relay" where
  "negotiate env origin pid i s =
     (if initiator env s pid then begin_offer env origin pid i s else send_ready origin pid i s)"

definition start_encoder ::
  "origin \<Rightarrow> string \<Rightarrow> nat \<Rightarrow> ('p, 'k) voice_relay \<Rightarrow> ('p, 'k) voice_relay" where
  "start_encoder origin pid i s =
     (case microphone s of
        None \<Rightarrow> s
      | Some track \<Rightarrow>
          let q = peer_at s i; token = counter s
          in if encoder q \<noteq> None \<or> encoder_token q \<noteq> None \<or> crypto q = None then s
             else await (Encoder_made origin pid i (peer_generation q) track token)
                    (upd_peer i (\<lambda>q. q\<lparr>encoder_token := Some token\<rparr>) (s\<lparr>counter := Suc token\<rparr>)))"

definition set_microphone :: "nat option \<Rightarrow> ('p, 'k) voice_relay \<Rightarrow> ('p, 'k) voice_relay" where
  "set_microphone track s =
     fold (\<lambda>(pid, i) s.
         let q = peer_at s i;
             s = upd_peer i (\<lambda>q. q\<lparr>encoder_token := None, encoder := None\<rparr>)
                   (emit_effects (case encoder q of None \<Rightarrow> [] | Some e \<Rightarrow> [Dispose_encoder e]) s)
         in if track \<noteq> None \<and> crypto q \<noteq> None then start_encoder From_microphone pid i s else s)
       (peers s) (s\<lparr>microphone := track\<rparr>)"

text \<open>A new peer, wanted and announced, as \<open>start\<close> and \<open>handleSignal\<close> make it.\<close>

definition add_peer :: "string \<Rightarrow> ('p, 'k) voice_relay \<Rightarrow> ('p, 'k) voice_relay" where
  "add_peer pid s = emit_effects [On_state pid Relay_connecting []]
     (s\<lparr>objects := objects s @ [new_peer\<lparr>wanted := True\<rparr>], peers := jset (peers s) pid (length (objects s))\<rparr>)"

definition start_peer ::
  "('p, 'k) relay_env \<Rightarrow> string \<Rightarrow> ('p, 'k) voice_relay \<Rightarrow> string option \<times> ('p, 'k) voice_relay" where
  "start_peer env pid s =
     (if relay_disposed s then (Some ''Voice relay is disposed'', s)
      else if valid_peer (Some (Str pid)) = None \<or> pid = local_id s then (Some ''Voice relay peer ID is invalid'', s)
      else if \<not> jhas (peers s) pid \<and> length (peers s) \<ge> 8
      then (Some ''Voice relay supports at most eight peers'', s)
      else if (case jget (peers s) pid of None \<Rightarrow> False | Some i \<Rightarrow> wanted (peer_at s i)) then (None, s)
      else
        let s = (case jget (peers s) pid of
               None \<Rightarrow> add_peer pid s
             | Some i \<Rightarrow> emit_effects [On_state pid Relay_connecting []] (upd_peer i (\<lambda>q. q\<lparr>wanted := True\<rparr>) s))
        in case (jget (peers s) pid, ensure_socket env s) of
             (Some i, False, s) \<Rightarrow> (None, negotiate env From_start pid i s)
           | (_, _, s) \<Rightarrow> (Some ''Voice relay URL must use WebSocket transport'', s))"

definition stop_peer :: "string \<Rightarrow> ('p, 'k) voice_relay \<Rightarrow> ('p, 'k) voice_relay" where
  "stop_peer pid s =
     (case jget (peers s) pid of
        None \<Rightarrow> s
      | Some i \<Rightarrow> remove_peer pid ''Voice relay stopped''
          (emit_effects [Signal pid (Stop (peer_epoch (peer_at s i)))] s))"

definition verification_of :: "string \<Rightarrow> ('p, 'k) voice_relay \<Rightarrow> string option" where
  "verification_of pid s =
     (case jget (peers s) pid of
        None \<Rightarrow> None
      | Some i \<Rightarrow> map_option (\<lambda>c. verification_code (voice_sessions s ! c)) (crypto (peer_at s i)))"

section \<open>Signals from the room\<close>

definition receive_stop :: "string \<Rightarrow> json option \<Rightarrow> ('p, 'k) voice_relay \<Rightarrow> ('p, 'k) voice_relay" where
  "receive_stop pid epoch s =
     (let mine = (case jget (peers s) pid of None \<Rightarrow> None | Some i \<Rightarrow> peer_epoch (peer_at s i))
      in if json_truthy epoch \<and> nonempty mine \<and> epoch \<noteq> map_option Str mine then s
         else remove_peer pid ''The remote relay stopped'' s)"

definition receive_offer ::
  "('p, 'k) relay_env \<Rightarrow> string \<Rightarrow> nat \<Rightarrow> string \<Rightarrow> string \<Rightarrow> ('p, 'k) voice_relay \<Rightarrow> ('p, 'k) voice_relay" where
  "receive_offer env pid i epoch key s =
     (let q = peer_at s i
      in if initiator env s pid
         then (if nonempty (peer_epoch q) then s else begin_offer env From_signal pid i s)
         else if peer_epoch q = Some epoch \<and> peer_phase q \<noteq> Idle then s
         else
           let g = Suc (peer_generation q);
               s = reset_media pid i (upd_peer i (\<lambda>q. q\<lparr>peer_generation := g\<rparr>) s)
           in await (Answer_keys pid i g epoch key)
                (upd_peer i (\<lambda>q. q\<lparr>peer_phase := Answering, peer_epoch := Some epoch\<rparr>) s))"

definition receive_answer ::
  "('p, 'k) relay_env \<Rightarrow> string \<Rightarrow> nat \<Rightarrow> string \<Rightarrow> string \<Rightarrow> ('p, 'k) voice_relay \<Rightarrow> ('p, 'k) voice_relay" where
  "receive_answer env pid i epoch key s =
     (let q = peer_at s i
      in case key_pair q of
           None \<Rightarrow> s
         | Some pair \<Rightarrow>
             if peer_epoch q \<noteq> Some epoch \<or> peer_phase q \<noteq> Offering \<or> crypto q \<noteq> None then s
             else await (Accept_session pid i (peer_generation q)
                    (create_session (web env) (local_id s) pid epoch pair key)) s)"

text \<open>The part of \<open>handleSignal\<close> after the peer is known.\<close>

definition receive_kind ::
  "('p, 'k) relay_env \<Rightarrow> string \<Rightarrow> string \<Rightarrow> json option \<Rightarrow> nat \<Rightarrow> ('p, 'k) voice_relay \<Rightarrow> ('p, 'k) voice_relay" where
  "receive_kind env pid kind data i s =
     (if kind = ''ready'' then (if initiator env s pid then begin_offer env From_signal pid i s else s)
      else case (field data ''epoch'', field data ''publicKey'') of
          (Some (Str epoch), Some (Str key)) \<Rightarrow>
            if epoch = [] \<or> length epoch > 64 then s
            else if kind = ''offer'' then receive_offer env pid i epoch key s
            else receive_answer env pid i epoch key s
        | _ \<Rightarrow> s)"

definition relay_signal :: "('p, 'k) relay_env \<Rightarrow> json \<Rightarrow> ('p, 'k) voice_relay \<Rightarrow> ('p, 'k) voice_relay" where
  "relay_signal env v s =
     (let data = field (Some v) ''data''
      in case (valid_peer (field (Some v) ''from''), field data ''kind'') of
           (Some pid, Some (Str kind)) \<Rightarrow>
             if relay_disposed s \<or> field (Some v) ''type'' \<noteq> Some (Str ''signal'') \<or>
                field (Some v) ''transport'' \<noteq> Some (Str ''voice-relay'') \<or> pid = local_id s \<or>
                kind \<notin> set [''ready'', ''offer'', ''answer'', ''stop''] then s
             else if kind = ''stop'' then receive_stop pid (field data ''epoch'') s
             else (case jget (peers s) pid of
                 Some i \<Rightarrow> receive_kind env pid kind data i s
               | None \<Rightarrow>
                   if length (peers s) \<ge> 8 then s
                   else (case ensure_socket env (add_peer pid s) of
                       (True, s) \<Rightarrow> on_rejection From_signal pid (length (objects s) - 1)
                         ''Voice relay URL must use WebSocket transport'' s
                     | (False, s) \<Rightarrow> receive_kind env pid kind data (length (objects s) - 1) s))
         | _ \<Rightarrow> s)"

section \<open>Answers\<close>

definition with_session :: "nat \<Rightarrow> 'k voice_session \<Rightarrow> ('p, 'k) voice_relay \<Rightarrow> ('p, 'k) voice_relay" where
  "with_session i session s = upd_peer i (\<lambda>q. q\<lparr>crypto := Some (length (voice_sessions s))\<rparr>)
     (s\<lparr>voice_sessions := voice_sessions s @ [session]\<rparr>)"

definition settle_handshake ::
  "('p, 'k) relay_env \<Rightarrow> ('p, 'k) relay_task \<Rightarrow> 'p answer \<Rightarrow> ('p, 'k) voice_relay \<Rightarrow> ('p, 'k) voice_relay" where
  "settle_handshake env task answer s =
     (case (task, answer) of
        (Offer_keys origin pid i g, Rejected e) \<Rightarrow> on_rejection origin pid i e s
      | (Offer_keys origin pid i g, Key_pair p pub) \<Rightarrow>
          if \<not> current s pid i g then s
          else await (Offer_sent origin pid i g)
                 (emit_effects [Signal pid (Offer (nullish (peer_epoch (peer_at s i)) []) pub)]
                   (upd_peer i (\<lambda>q. q\<lparr>key_pair := Some (p, pub)\<rparr>) s))
      | (Offer_sent origin pid i g, Rejected e) \<Rightarrow> on_rejection origin pid i e s
      | (Offer_sent origin pid i g, Done t) \<Rightarrow> if current s pid i g then arm_handshake i 3000 s else s
      | (Ready_sent origin pid i, Rejected e) \<Rightarrow> on_rejection origin pid i e s
      | (Ready_sent origin pid i, Done t) \<Rightarrow> arm_handshake i 3000 s
      | (Answer_keys pid i g epoch key, Rejected e) \<Rightarrow> on_rejection From_signal pid i e s
      | (Answer_keys pid i g epoch key, Key_pair p pub) \<Rightarrow>
          if \<not> current s pid i g then s
          else await (Answer_session pid i g pub (create_session (web env) (local_id s) pid epoch (p, pub) key))
                 (upd_peer i (\<lambda>q. q\<lparr>key_pair := Some (p, pub)\<rparr>) s)
      | (Answer_session pid i g pub result, Done t) \<Rightarrow>
          (case result of
             Inl e \<Rightarrow> on_rejection From_signal pid i e s
           | Inr session \<Rightarrow>
               if \<not> current s pid i g then s
               else await (Answer_sent pid i g)
                 (emit_effects [Signal pid (Answer (session_epoch session) pub)] (with_session i session s)))
      | (Answer_sent pid i g, Rejected e) \<Rightarrow> on_rejection From_signal pid i e s
      | (Answer_sent pid i g, Done t) \<Rightarrow> if \<not> current s pid i g then s else await (Decoder_made pid i g) s
      | (Accept_session pid i g result, Done t) \<Rightarrow>
          (case result of
             Inl e \<Rightarrow> on_rejection From_signal pid i e s
           | Inr session \<Rightarrow>
               if current s pid i g \<and> peer_phase (peer_at s i) = Offering \<and> crypto (peer_at s i) = None
               then await (Decoder_made pid i g) (with_session i session s) else s)
      | _ \<Rightarrow> s)"

definition settle_codec ::
  "('p, 'k) relay_task \<Rightarrow> 'p answer \<Rightarrow> ('p, 'k) voice_relay \<Rightarrow> ('p, 'k) voice_relay" where
  "settle_codec task answer s =
     (case (task, answer) of
        (Decoder_made pid i g, Rejected e) \<Rightarrow> on_rejection From_signal pid i e s
      | (Decoder_made pid i g, Codec d) \<Rightarrow>
          if \<not> current s pid i g then emit_effects [Dispose_decoder d] s
          else start_encoder From_signal pid i (arm_handshake i 8000
                 (upd_peer i (\<lambda>q. q\<lparr>decoder := Some d, peer_phase := Active\<rparr>) s))
      | (Encoder_made origin pid i g track token, Rejected e) \<Rightarrow>
          on_rejection origin pid i e
            (if encoder_token (peer_at s i) = Some token then upd_peer i (\<lambda>q. q\<lparr>encoder_token := None\<rparr>) s else s)
      | (Encoder_made origin pid i g track token, Codec e) \<Rightarrow>
          if \<not> current s pid i g \<or> microphone s \<noteq> Some track \<or> encoder_token (peer_at s i) \<noteq> Some token
          then emit_effects [Dispose_encoder e] s
          else emit_effects [Set_bitrate e (bitrate (peer_at s i))]
                 (upd_peer i (\<lambda>q. q\<lparr>encoder_token := None, encoder := Some e\<rparr>) s)
      | _ \<Rightarrow> s)"

section \<open>Packets\<close>

definition change_bitrate :: "nat \<Rightarrow> nat \<Rightarrow> ('p, 'k) voice_relay \<Rightarrow> ('p, 'k) voice_relay" where
  "change_bitrate i rate s = emit_effects
     (case encoder (peer_at s i) of None \<Rightarrow> [] | Some e \<Rightarrow> [Set_bitrate e rate])
     (upd_peer i (\<lambda>q. q\<lparr>bitrate := rate\<rparr>) s)"

definition buffer_budget :: "('p, 'k) voice_relay \<Rightarrow> nat" where
  "buffer_budget s = min max_buffered_bytes (max (4 * 1024) (length (peers s) * 4 * 1024))"

definition start_encrypting :: "('p, 'k) relay_env \<Rightarrow> string \<Rightarrow> nat \<Rightarrow> nat \<Rightarrow> nat \<Rightarrow> nat \<Rightarrow> octet list \<Rightarrow> int \<Rightarrow> nat \<Rightarrow>
    ('p, 'k) voice_relay \<Rightarrow> ('p, 'k) voice_relay" where
  "start_encrypting env pid i g k c packet queued_at budget s =
     (case encrypt_packet (web env) packet (voice_sessions s ! c) of
        (result, session) \<Rightarrow>
          await (Encrypted pid i g k queued_at budget result)
            (upd_peer i (\<lambda>q. q\<lparr>encrypting := Suc (encrypting q)\<rparr>)
              (s\<lparr>voice_sessions := (voice_sessions s)[c := session]\<rparr>)))"

definition send_packet ::
  "('p, 'k) relay_env \<Rightarrow> string \<Rightarrow> nat \<Rightarrow> nat \<Rightarrow> octet list \<Rightarrow> int \<Rightarrow> ('p, 'k) voice_relay \<Rightarrow> ('p, 'k) voice_relay" where
  "send_packet env pid i g packet queued_at s =
     (case (relay_socket s, crypto (peer_at s i)) of
        (Some k, Some c) \<Rightarrow>
          let q = peer_at s i; budget = buffer_budget s; load = buffered (relay_sockets s ! k)
          in if \<not> current s pid i g \<or> \<not> socket_is_open s k \<or> encrypting q \<ge> max_crypto_jobs then s
             else if load > budget
             then (if bitrate q \<noteq> congested_bitrate then change_bitrate i congested_bitrate s else s)
             else
               start_encrypting env pid i g k c packet queued_at budget
                 (if bitrate q \<noteq> normal_bitrate \<and> 4 * load < budget then change_bitrate i normal_bitrate s else s)
      | _ \<Rightarrow> s)"

definition end_encrypting :: "nat \<Rightarrow> ('p, 'k) voice_relay \<Rightarrow> ('p, 'k) voice_relay" where
  "end_encrypting i s = upd_peer i (\<lambda>q. q\<lparr>encrypting := encrypting q - 1\<rparr>) s"

definition end_decrypting :: "nat \<Rightarrow> ('p, 'k) voice_relay \<Rightarrow> ('p, 'k) voice_relay" where
  "end_decrypting i s = upd_peer i (\<lambda>q. q\<lparr>decrypting := decrypting q - 1\<rparr>) s"

definition send_frame ::
  "string \<Rightarrow> nat \<Rightarrow> nat \<Rightarrow> nat \<Rightarrow> int \<Rightarrow> nat \<Rightarrow> nat \<times> string \<Rightarrow> int \<Rightarrow> ('p, 'k) voice_relay \<Rightarrow> ('p, 'k) voice_relay" where
  "send_frame pid i g k queued_at budget sealed t s =
     (if \<not> current s pid i g \<or> relay_socket s \<noteq> Some k \<or> \<not> socket_is_open s k \<or>
         buffered (relay_sockets s ! k) > budget \<or> t - queued_at > 100 then s
      else emit_effects [Frame k pid (peer_epoch (peer_at s i)) (fst sealed) (snd sealed)] s)"

definition expose :: "string \<Rightarrow> nat \<Rightarrow> nat \<Rightarrow> ('p, 'k) voice_relay \<Rightarrow> ('p, 'k) voice_relay" where
  "expose pid i d s =
     (if exposed (peer_at s i) then s
      else emit_effects [On_track pid (Some d), On_state pid Relayed []]
        (upd_peer i (\<lambda>q. q\<lparr>exposed := True, handshake_timer := None\<rparr>) (s\<lparr>relay_attempts := 0\<rparr>)))"

definition deliver ::
  "string \<Rightarrow> nat \<Rightarrow> nat \<Rightarrow> nat \<Rightarrow> octet list \<Rightarrow> ('p, 'k) voice_relay \<Rightarrow> ('p, 'k) voice_relay" where
  "deliver pid i g n packet s =
     (if \<not> current s pid i g then s
      else case decoder (peer_at s i) of
          None \<Rightarrow> fail_peer pid i ''TypeError'' s
        | Some d \<Rightarrow> expose pid i d (emit_effects [Push d n packet] s))"

definition finish_decryption ::
  "string \<Rightarrow> nat \<Rightarrow> nat \<Rightarrow> nat \<Rightarrow> decryption \<Rightarrow> ('p, 'k) voice_relay \<Rightarrow> ('p, 'k) voice_relay" where
  "finish_decryption pid i g c job s =
     (case job of
        Ignored \<Rightarrow> s
      | Refused e \<Rightarrow> fail_peer pid i e s
      | Decrypting n result \<Rightarrow>
          (case decrypt_finish n result (voice_sessions s ! c) of
             (Inl e, session) \<Rightarrow> fail_peer pid i e s
           | (Inr None, session) \<Rightarrow> s
           | (Inr (Some packet), session) \<Rightarrow>
               deliver pid i g n packet (s\<lparr>voice_sessions := (voice_sessions s)[c := session]\<rparr>)))"

definition settle_packet ::
  "('p, 'k) relay_task \<Rightarrow> 'p answer \<Rightarrow> ('p, 'k) voice_relay \<Rightarrow> ('p, 'k) voice_relay" where
  "settle_packet task answer s =
     (case (task, answer) of
        (Encrypted pid i g k queued_at budget result, Rejected e) \<Rightarrow> end_encrypting i (fail_peer pid i e s)
      | (Encrypted pid i g k queued_at budget result, Done t) \<Rightarrow>
          end_encrypting i (case result of
              Inl e \<Rightarrow> fail_peer pid i e s
            | Inr sealed \<Rightarrow> send_frame pid i g k queued_at budget sealed t s)
      | (Decrypted pid i g c job, Rejected e) \<Rightarrow> end_decrypting i (fail_peer pid i e s)
      | (Decrypted pid i g c job, Done t) \<Rightarrow> end_decrypting i (finish_decryption pid i g c job s)
      | _ \<Rightarrow> s)"

definition receive_packet :: "('p, 'k) relay_env \<Rightarrow> json \<Rightarrow> ('p, 'k) voice_relay \<Rightarrow> ('p, 'k) voice_relay" where
  "receive_packet env v s =
     (case (valid_peer (field (Some v) ''from''), field (Some v) ''epoch'', field (Some v) ''sequence'',
            field (Some v) ''data'') of
        (Some pid, Some (Str epoch), Some sequence, Some (Str data)) \<Rightarrow>
          (case (sequence, jget (peers s) pid) of
             (Str t, _) \<Rightarrow> s | (Null, _) \<Rightarrow> s | (Bool b, _) \<Rightarrow> s | (Arr vs, _) \<Rightarrow> s | (Obj m, _) \<Rightarrow> s
           | (_, None) \<Rightarrow> s
           | (number, Some i) \<Rightarrow>
               let q = peer_at s i
               in if field (Some v) ''type'' \<noteq> Some (Str ''voice'') then s
                  else case crypto q of
                      None \<Rightarrow> s
                    | Some c \<Rightarrow>
                        if decoder q = None \<or> peer_epoch q \<noteq> Some epoch \<or> decrypting q \<ge> max_crypto_jobs then s
                        else await (Decrypted pid i (peer_generation q) c
                               (decrypt_begin (web env) (case number of Num n \<Rightarrow> Some n | _ \<Rightarrow> None) data (voice_sessions s ! c)))
                             (upd_peer i (\<lambda>q. q\<lparr>decrypting := Suc (decrypting q)\<rparr>) s))
      | _ \<Rightarrow> s)"

section \<open>Socket events and timers\<close>

definition socket_message ::
  "('p, 'k) relay_env \<Rightarrow> nat \<Rightarrow> json option \<Rightarrow> ('p, 'k) voice_relay \<Rightarrow> ('p, 'k) voice_relay" where
  "socket_message env k raw s =
     (case raw of
        None \<Rightarrow> s
      | Some v \<Rightarrow>
          if opened_as (relay_sockets s ! k) \<noteq> socket_generation s \<or> v = Null then s
          else
            let kind = field (Some v) ''type''; request = field (Some v) ''request_id''
            in case (kind = Some (Str ''ping''), request) of
                 (True, Some (Str nonce)) \<Rightarrow> emit_effects [Pong k nonce] s
               | _ \<Rightarrow>
                   if kind = Some (Str ''pong'') \<and> request = map_option Str (relay_ping s) then s\<lparr>relay_ping := None\<rparr>
                   else receive_packet env v s)"

definition socket_opens :: "nat \<Rightarrow> ('p, 'k) voice_relay \<Rightarrow> ('p, 'k) voice_relay" where
  "socket_opens k s =
     (if phase_of (relay_sockets s ! k) \<noteq> Socket_connecting then s
      else
        let s = upd_relay_socket k (\<lambda>r. r\<lparr>phase_of := Socket_open, connect_timer := False\<rparr>) s
        in if relay_disposed s \<or> opened_as (relay_sockets s ! k) \<noteq> socket_generation s then close_socket k s
           else s\<lparr>heartbeat := Some k\<rparr>)"

definition connect_timer_fires :: "nat \<Rightarrow> ('p, 'k) voice_relay \<Rightarrow> ('p, 'k) voice_relay" where
  "connect_timer_fires k s =
     (let r = relay_sockets s ! k
      in if \<not> connect_timer r then s
         else
           let s = upd_relay_socket k (\<lambda>r. r\<lparr>connect_timer := False\<rparr>) s
           in if opened_as r = socket_generation s \<and> phase_of r \<noteq> Socket_open then close_socket k s else s)"

definition lose_peer :: "string \<times> nat \<Rightarrow> ('p, 'k) voice_relay \<Rightarrow> ('p, 'k) voice_relay" where
  "lose_peer e s =
     (case e of (pid, i) \<Rightarrow>
        if \<not> wanted (peer_at s i) then s
        else emit_effects [On_state pid Relay_connecting ''Voice relay reconnecting'']
          (upd_peer i (\<lambda>q. q\<lparr>handshake_attempts := 0\<rparr>)
            (reset_media pid i (upd_peer i (\<lambda>q. q\<lparr>peer_generation := Suc (peer_generation q)\<rparr>) s))))"

text \<open>The delay before a retry, by the attempts before it.\<close>

definition relay_delay :: "nat \<Rightarrow> nat" where
  "relay_delay attempts = 250 * 2 ^ attempts"

definition retry_socket :: "('p, 'k) voice_relay \<Rightarrow> ('p, 'k) voice_relay" where
  "retry_socket s =
     (if relay_disposed s \<or> relay_attempts s \<ge> 3
      then remove_all ''Voice relay connection is unavailable'' s
      else
        let delay = relay_delay (relay_attempts s)
        in emit_effects [Retry_after delay]
             (s\<lparr>relay_attempts := Suc (relay_attempts s), relay_timer := Some (counter s),
                live_timers := jset (live_timers s) (counter s) delay, counter := Suc (counter s)\<rparr>))"

definition socket_closes :: "nat \<Rightarrow> ('p, 'k) voice_relay \<Rightarrow> ('p, 'k) voice_relay" where
  "socket_closes k s =
     (if phase_of (relay_sockets s ! k) = Socket_closed then s
      else
        let s = upd_relay_socket k (\<lambda>r. r\<lparr>phase_of := Socket_closed, connect_timer := False\<rparr>) s
        in if opened_as (relay_sockets s ! k) \<noteq> socket_generation s then s
           else
             let s = s\<lparr>heartbeat := None, relay_ping := None, relay_socket := None\<rparr>
             in retry_socket (fold lose_peer (peers s) s))"

definition relay_timer_fires :: "('p, 'k) relay_env \<Rightarrow> nat \<Rightarrow> ('p, 'k) voice_relay \<Rightarrow> ('p, 'k) voice_relay" where
  "relay_timer_fires env t s =
     (if \<not> jhas (live_timers s) t then s
      else case ensure_socket env (s\<lparr>live_timers := jdel (live_timers s) t, relay_timer := None\<rparr>) of
          (True, s) \<Rightarrow> s
        | (False, s) \<Rightarrow>
            fold (\<lambda>(pid, i) s. if wanted (peer_at s i) then negotiate env From_timer pid i s else s) (peers s) s)"

definition heartbeat_fires :: "('p, 'k) relay_env \<Rightarrow> ('p, 'k) voice_relay \<Rightarrow> ('p, 'k) voice_relay" where
  "heartbeat_fires env s =
     (case heartbeat s of
        None \<Rightarrow> s
      | Some k \<Rightarrow>
          if opened_as (relay_sockets s ! k) \<noteq> socket_generation s \<or> \<not> socket_is_open s k then s
          else if nonempty (relay_ping s) then close_socket k s
          else
            let ping = random_epoch env (counter s)
            in emit_effects [Ping k ping] (s\<lparr>relay_ping := Some ping, counter := Suc (counter s)\<rparr>))"

definition handshake_fires ::
  "('p, 'k) relay_env \<Rightarrow> string \<Rightarrow> nat \<Rightarrow> ('p, 'k) voice_relay \<Rightarrow> ('p, 'k) voice_relay" where
  "handshake_fires env pid i s =
     (if handshake_timer (peer_at s i) = None then s
      else
        let s = upd_peer i (\<lambda>q. q\<lparr>handshake_timer := None\<rparr>) s; q = peer_at s i
        in if jget (peers s) pid \<noteq> Some i \<or> \<not> wanted q \<or> exposed q then s
           else if peer_phase q = Active \<or> handshake_attempts q \<ge> 2
           then remove_peer pid ''Voice relay did not receive authenticated audio'' s
           else negotiate env From_timer pid i
                  (upd_peer i (\<lambda>q. q\<lparr>handshake_attempts := Suc (handshake_attempts q)\<rparr>) s))"

section \<open>Runs\<close>

datatype 'p relay_event =
    Microphone "nat option"
  | Start string
  | Stop_relay string
  | Room_signal json
  | Settle_task nat "'p answer"
  | Packet string nat nat "octet list" int
  | Codec_failed string nat string
  | Socket_opens nat
  | Socket_sends nat "json option"
  | Socket_buffers nat nat
  | Socket_fails nat
  | Socket_closes nat
  | Connect_timer nat
  | Relay_timer nat
  | Heartbeat
  | Handshake_timer string nat
  | Dispose

definition on_relay_socket :: "nat \<Rightarrow> (('p, 'k) voice_relay \<Rightarrow> ('p, 'k) voice_relay) \<Rightarrow> ('p, 'k) voice_relay \<Rightarrow> ('p, 'k) voice_relay" where
  "on_relay_socket k f s = (if k < length (relay_sockets s) then f s else s)"

definition on_object :: "nat \<Rightarrow> (('p, 'k) voice_relay \<Rightarrow> ('p, 'k) voice_relay) \<Rightarrow> ('p, 'k) voice_relay \<Rightarrow> ('p, 'k) voice_relay" where
  "on_object i f s = (if i < length (objects s) then f s else s)"

text \<open>What a task can be settled with: each promise resolves with a value of its own kind.\<close>

fun answers :: "('p, 'k) relay_task \<Rightarrow> 'p answer \<Rightarrow> bool" where
  "answers (Offer_keys _ _ _ _) a = (case a of Key_pair _ _ \<Rightarrow> True | Rejected _ \<Rightarrow> True | _ \<Rightarrow> False)"
| "answers (Answer_keys _ _ _ _ _) a = (case a of Key_pair _ _ \<Rightarrow> True | Rejected _ \<Rightarrow> True | _ \<Rightarrow> False)"
| "answers (Decoder_made _ _ _) a = (case a of Codec _ \<Rightarrow> True | Rejected _ \<Rightarrow> True | _ \<Rightarrow> False)"
| "answers (Encoder_made _ _ _ _ _ _) a = (case a of Codec _ \<Rightarrow> True | Rejected _ \<Rightarrow> True | _ \<Rightarrow> False)"
| "answers (Answer_session _ _ _ _ _) a = (case a of Done _ \<Rightarrow> True | _ \<Rightarrow> False)"
| "answers (Accept_session _ _ _ _) a = (case a of Done _ \<Rightarrow> True | _ \<Rightarrow> False)"
| "answers _ a = (case a of Done _ \<Rightarrow> True | Rejected _ \<Rightarrow> True | _ \<Rightarrow> False)"

definition settle_task ::
  "('p, 'k) relay_env \<Rightarrow> nat \<Rightarrow> 'p answer \<Rightarrow> ('p, 'k) voice_relay \<Rightarrow> ('p, 'k) voice_relay" where
  "settle_task env n answer s =
     (if n \<ge> length (tasks s) \<or> \<not> answers (tasks s ! n) answer then s
      else
        let task = tasks s ! n; s = s\<lparr>tasks := take n (tasks s) @ drop (Suc n) (tasks s)\<rparr>
        in case task of
             Decoder_made _ _ _ \<Rightarrow> settle_codec task answer s
           | Encoder_made _ _ _ _ _ _ \<Rightarrow> settle_codec task answer s
           | Encrypted _ _ _ _ _ _ _ \<Rightarrow> settle_packet task answer s
           | Decrypted _ _ _ _ _ \<Rightarrow> settle_packet task answer s
           | _ \<Rightarrow> settle_handshake env task answer s)"

fun relay_step :: "('p, 'k) relay_env \<Rightarrow> ('p, 'k) voice_relay \<Rightarrow> 'p relay_event \<Rightarrow> ('p, 'k) voice_relay" where
  "relay_step env s (Microphone track) = set_microphone track s"
| "relay_step env s (Start pid) = snd (start_peer env pid s)"
| "relay_step env s (Stop_relay pid) = stop_peer pid s"
| "relay_step env s (Room_signal v) = relay_signal env v s"
| "relay_step env s (Settle_task n answer) = settle_task env n answer s"
| "relay_step env s (Packet pid i g packet t) = on_object i (send_packet env pid i g packet t) s"
| "relay_step env s (Codec_failed pid i message) = fail_peer pid i message s"
| "relay_step env s (Socket_opens k) = on_relay_socket k (socket_opens k) s"
| "relay_step env s (Socket_sends k raw) = on_relay_socket k (socket_message env k raw) s"
| "relay_step env s (Socket_buffers k n) = on_relay_socket k (upd_relay_socket k (\<lambda>r. r\<lparr>buffered := n\<rparr>)) s"
| "relay_step env s (Socket_fails k) = on_relay_socket k (close_socket k) s"
| "relay_step env s (Socket_closes k) = on_relay_socket k (socket_closes k) s"
| "relay_step env s (Connect_timer k) = on_relay_socket k (connect_timer_fires k) s"
| "relay_step env s (Relay_timer t) = relay_timer_fires env t s"
| "relay_step env s Heartbeat = heartbeat_fires env s"
| "relay_step env s (Handshake_timer pid i) = on_object i (handshake_fires env pid i) s"
| "relay_step env s Dispose = dispose_relay s"

section \<open>Bounds\<close>

definition peer_bounds :: "'p voice_peer \<Rightarrow> bool" where
  "peer_bounds q \<longleftrightarrow> encrypting q \<le> 1 \<and> decrypting q \<le> 1 \<and> handshake_attempts q \<le> 2 \<and>
     (bitrate q = 64000 \<or> bitrate q = 32000) \<and>
     (case handshake_timer q of None \<Rightarrow> True | Some d \<Rightarrow> d = 3000 \<or> d = 8000)"

definition retry_ok :: "nat \<times> nat \<Rightarrow> bool" where
  "retry_ok e \<longleftrightarrow> snd e = 250 \<or> snd e = 500 \<or> snd e = 1000"

definition relay_bounds :: "('p, 'k) voice_relay \<Rightarrow> bool" where
  "relay_bounds s \<longleftrightarrow> length (peers s) \<le> 8 \<and> distinct (jkeys (peers s)) \<and> local_id s \<notin> set (jkeys (peers s)) \<and>
     list_all peer_bounds (objects s) \<and> relay_attempts s \<le> 3 \<and> list_all retry_ok (live_timers s) \<and>
     list_all (\<lambda>g. g \<le> socket_generation s) (map opened_as (relay_sockets s))"

lemma bounds_upd_peer:
  assumes "relay_bounds s" and "peer_bounds (peer_at s i) \<Longrightarrow> peer_bounds (f (peer_at s i))"
  shows "relay_bounds (upd_peer i f s)"
proof (cases "i < length (objects s)")
  case True
  then have "peer_bounds (peer_at s i)" using assms(1) by (simp add: relay_bounds_def peer_at_def list_all_length)
  with assms True show ?thesis
    by (auto simp: relay_bounds_def upd_peer_def peer_at_def list_all_iff dest!: set_update_subset_insert [THEN subsetD])
qed (use assms(1) in \<open>simp add: upd_peer_def relay_bounds_def list_update_beyond\<close>)

lemma bounds_simps [simp]:
  "relay_bounds (emit_effects es s) = relay_bounds s" "relay_bounds (await t s) = relay_bounds s"
  "relay_bounds (s\<lparr>counter := n\<rparr>) = relay_bounds s" "relay_bounds (s\<lparr>voice_sessions := vs\<rparr>) = relay_bounds s"
  "relay_bounds (s\<lparr>microphone := m\<rparr>) = relay_bounds s" "relay_bounds (s\<lparr>tasks := ts\<rparr>) = relay_bounds s"
  "relay_bounds (s\<lparr>heartbeat := h\<rparr>) = relay_bounds s" "relay_bounds (s\<lparr>relay_ping := r\<rparr>) = relay_bounds s"
  "relay_bounds (s\<lparr>relay_socket := k'\<rparr>) = relay_bounds s" "relay_bounds (s\<lparr>relay_timer := rt\<rparr>) = relay_bounds s"
  "relay_bounds (s\<lparr>relay_disposed := b\<rparr>) = relay_bounds s"
  by (simp_all add: relay_bounds_def emit_effects_def await_def)

lemma bounds_sockets [simp]:
  "(\<And>r. opened_as (g r) = opened_as r) \<Longrightarrow> relay_bounds (upd_relay_socket k g s) = relay_bounds s"
  by (simp add: relay_bounds_def upd_relay_socket_def map_update_same)

lemma bounds_close [simp]: "relay_bounds (close_socket k s) = relay_bounds s"
  by (simp add: close_socket_def)

lemma bounds_generation: "relay_bounds s \<Longrightarrow> relay_bounds (s\<lparr>socket_generation := Suc (socket_generation s)\<rparr>)"
  by (auto simp: relay_bounds_def list_all_iff intro: le_SucI)

lemma bounds_drop: "relay_bounds s \<Longrightarrow> relay_bounds (drop_socket s)"
  by (simp add: drop_socket_def Let_def bounds_generation split: option.split)

lemma bounds_clear: "relay_bounds s \<Longrightarrow> relay_bounds (clear_relay_timer s)"
  by (auto simp: clear_relay_timer_def relay_bounds_def jdel_def list_all_iff split: option.split)

lemma peer_bounds_updates [simp]:
  "peer_bounds (reset_peer q) = (peer_bounds (q\<lparr>handshake_timer := None\<rparr>))" "peer_bounds (retire q) = peer_bounds q"
  "peer_bounds (q\<lparr>peer_generation := g\<rparr>) = peer_bounds q" "peer_bounds (q\<lparr>peer_epoch := e\<rparr>) = peer_bounds q"
  "peer_bounds (q\<lparr>key_pair := kp\<rparr>) = peer_bounds q" "peer_bounds (q\<lparr>crypto := c\<rparr>) = peer_bounds q"
  "peer_bounds (q\<lparr>encoder := en\<rparr>) = peer_bounds q" "peer_bounds (q\<lparr>encoder_token := en\<rparr>) = peer_bounds q"
  "peer_bounds (q\<lparr>decoder := en\<rparr>) = peer_bounds q" "peer_bounds (q\<lparr>exposed := b\<rparr>) = peer_bounds q"
  "peer_bounds (q\<lparr>peer_phase := ph\<rparr>) = peer_bounds q" "peer_bounds (q\<lparr>wanted := b\<rparr>) = peer_bounds q"
  by (simp_all add: peer_bounds_def reset_peer_def retire_def)

lemma peer_bounds_timer: "peer_bounds q \<Longrightarrow> peer_bounds (q\<lparr>handshake_timer := None\<rparr>)"
  by (simp add: peer_bounds_def)

lemma bounds_reset: "relay_bounds s \<Longrightarrow> relay_bounds (reset_media pid i s)"
  unfolding reset_media_def Let_def
  by (rule bounds_upd_peer) (simp_all add: peer_bounds_timer)

lemma bounds_remove: "relay_bounds s \<Longrightarrow> relay_bounds (remove_peer pid m s)"
proof (cases "jget (peers s) pid")
  case (Some i)
  assume "relay_bounds s"
  then have "relay_bounds (reset_media pid i (upd_peer i retire s))" (is "relay_bounds ?t")
    by (intro bounds_reset bounds_upd_peer) simp_all
  then have "relay_bounds (?t\<lparr>peers := jdel (peers ?t) pid\<rparr>)"
    using length_jdel [of "peers ?t" pid] by (auto simp: relay_bounds_def)
  with Some show ?thesis by (simp add: remove_peer_def Let_def bounds_clear bounds_drop)
qed (simp add: remove_peer_def)

lemma bounds_fold: "(\<And>x s. relay_bounds s \<Longrightarrow> relay_bounds (f x s)) \<Longrightarrow> relay_bounds s \<Longrightarrow> relay_bounds (fold f xs s)"
  by (induction xs arbitrary: s) auto

lemma bounds_remove_all: "relay_bounds s \<Longrightarrow> relay_bounds (remove_all m s)"
  unfolding remove_all_def by (rule bounds_fold) (rule bounds_remove)

lemma bounds_fail: "relay_bounds s \<Longrightarrow> relay_bounds (fail_peer pid i m s)"
  by (simp add: fail_peer_def bounds_remove)

lemma bounds_rejection: "relay_bounds s \<Longrightarrow> relay_bounds (on_rejection orig pid i m s)"
  by (simp add: on_rejection_def bounds_fail split: option.split)

lemma bounds_dispose: "relay_bounds s \<Longrightarrow> relay_bounds (dispose_relay s)"
  by (simp add: dispose_relay_def bounds_remove_all bounds_clear bounds_drop)

lemma bounds_arm: "relay_bounds s \<Longrightarrow> d = 3000 \<or> d = 8000 \<Longrightarrow> relay_bounds (arm_handshake i d s)"
  unfolding arm_handshake_def by (rule bounds_upd_peer) (auto simp: peer_bounds_def)

lemma bounds_begin_offer: "relay_bounds s \<Longrightarrow> relay_bounds (begin_offer env orig pid i s)"
  by (simp add: begin_offer_def Let_def bounds_upd_peer bounds_reset)

lemma bounds_negotiate: "relay_bounds s \<Longrightarrow> relay_bounds (negotiate env orig pid i s)"
  by (simp add: negotiate_def send_ready_def bounds_begin_offer)

lemma bounds_encoder: "relay_bounds s \<Longrightarrow> relay_bounds (start_encoder orig pid i s)"
  by (simp add: start_encoder_def Let_def bounds_upd_peer split: option.split)

lemma bounds_microphone: "relay_bounds s \<Longrightarrow> relay_bounds (set_microphone track s)"
  unfolding set_microphone_def
  by (rule bounds_fold) (auto simp: Let_def bounds_upd_peer bounds_encoder split: prod.split)

lemma bounds_add_peer:
  "relay_bounds s \<Longrightarrow> length (peers s) < 8 \<Longrightarrow> pid \<noteq> local_id s \<Longrightarrow> jget (peers s) pid = None \<Longrightarrow> relay_bounds (add_peer pid s)"
  by (simp add: add_peer_def) (auto simp: jget_None_iff relay_bounds_def length_jset new_peer_def peer_bounds_def normal_bitrate_def)

lemma bounds_ensure: "relay_bounds s \<Longrightarrow> relay_bounds (snd (ensure_socket env s))"
  by (auto simp: ensure_socket_def Let_def relay_bounds_def list_all_iff intro: le_SucI)

lemma bounds_ensureD: "ensure_socket env s = (b, t) \<Longrightarrow> relay_bounds s \<Longrightarrow> relay_bounds t"
  using bounds_ensure by (metis snd_conv)

lemma bounds_start: "relay_bounds s \<Longrightarrow> relay_bounds (snd (start_peer env pid s))"
  unfolding start_peer_def Let_def
  by (auto simp: jhas_iff intro!: bounds_negotiate bounds_add_peer bounds_upd_peer elim!: bounds_ensureD
      split: option.split prod.split bool.split)

lemma bounds_stop: "relay_bounds s \<Longrightarrow> relay_bounds (stop_peer pid s)"
  by (simp add: stop_peer_def bounds_remove split: option.split)

lemma bounds_kind: "relay_bounds s \<Longrightarrow> relay_bounds (receive_kind env pid kind data i s)"
  by (simp add: receive_kind_def receive_offer_def receive_answer_def Let_def bounds_begin_offer bounds_upd_peer
      bounds_reset split: option.split json.split)

lemma bounds_signal: "relay_bounds s \<Longrightarrow> relay_bounds (relay_signal env v s)"
  unfolding relay_signal_def Let_def receive_stop_def
  by (auto intro!: bounds_kind bounds_remove bounds_rejection bounds_add_peer elim!: bounds_ensureD
      split: option.split json.split prod.split bool.split)

lemma bounds_settle_handshake: "relay_bounds s \<Longrightarrow> relay_bounds (settle_handshake env task answer s)"
  by (cases task; cases answer)
    (simp_all add: settle_handshake_def with_session_def bounds_rejection bounds_arm bounds_upd_peer split: sum.split)

lemma bounds_settle_codec: "relay_bounds s \<Longrightarrow> relay_bounds (settle_codec task answer s)"
  by (cases task; cases answer)
    (simp_all add: settle_codec_def bounds_rejection bounds_encoder bounds_arm bounds_upd_peer)

lemma bounds_send: "relay_bounds s \<Longrightarrow> relay_bounds (send_packet env pid i g packet t s)"
proof -
  assume ok: "relay_bounds s"
  have bit: "relay_bounds (change_bitrate i r s)" if "r = 64000 \<or> r = 32000" for r
    unfolding change_bitrate_def by (simp add: ok) (rule bounds_upd_peer [OF ok], use that in \<open>auto simp: peer_bounds_def\<close>)
  have same: "encrypting (peer_at (change_bitrate i r s) i) = encrypting (peer_at s i)" for r
    by (cases "i < length (objects s)")
      (simp_all add: change_bitrate_def upd_peer_def peer_at_def emit_effects_def list_update_beyond)
  have "relay_bounds (start_encrypting env pid i g k c packet t b u)"
    if "relay_bounds u" and "\<not> 1 \<le> encrypting (peer_at u i)" for u k c b
    using that bounds_upd_peer [of "u\<lparr>voice_sessions := vs\<rparr>" i for vs]
    by (simp add: start_encrypting_def peer_bounds_def peer_at_def split: prod.split)
  then show ?thesis
    using ok bit same
    by (simp add: send_packet_def Let_def max_crypto_jobs_def normal_bitrate_def congested_bitrate_def
        split: option.split)
qed

lemma bounds_deliver: "relay_bounds s \<Longrightarrow> relay_bounds (deliver pid i g n packet s)"
proof -
  assume ok: "relay_bounds s"
  have "relay_bounds (expose pid i d (emit_effects es s))" for d es
    unfolding expose_def using ok
    by (simp, intro impI bounds_upd_peer) (simp_all add: relay_bounds_def emit_effects_def peer_bounds_def)
  with ok show ?thesis by (simp add: deliver_def bounds_fail split: option.split)
qed

lemma bounds_end:
  "relay_bounds s \<Longrightarrow> relay_bounds (end_encrypting i s)" "relay_bounds s \<Longrightarrow> relay_bounds (end_decrypting i s)"
  unfolding end_encrypting_def end_decrypting_def by (rule bounds_upd_peer; auto simp: peer_bounds_def)+

lemma bounds_settle_packet: "relay_bounds s \<Longrightarrow> relay_bounds (settle_packet task answer s)"
proof -
  assume ok: "relay_bounds s"
  have "relay_bounds (finish_decryption pid i g c job s)" for pid i g c job
    using ok by (simp add: finish_decryption_def bounds_fail bounds_deliver split: decryption.split prod.split sum.split option.split)
  moreover have "relay_bounds (send_frame pid i g k q b sealed t s)" for pid i g k q b sealed t
    using ok by (simp add: send_frame_def)
  ultimately show ?thesis
    using ok by (cases task; cases answer) (simp_all add: settle_packet_def bounds_fail bounds_end split: sum.split)
qed

lemma bounds_settle: "relay_bounds s \<Longrightarrow> relay_bounds (settle_task env n answer s)"
  by (simp add: settle_task_def Let_def bounds_settle_handshake bounds_settle_codec bounds_settle_packet
      split: relay_task.split)

lemma bounds_receive: "relay_bounds s \<Longrightarrow> relay_bounds (receive_packet env v s)"
proof -
  assume ok: "relay_bounds s"
  have "relay_bounds (await x (upd_peer i (\<lambda>q. q\<lparr>decrypting := Suc (decrypting q)\<rparr>) s))"
    if "\<not> 1 \<le> decrypting (peer_at s i)" for x i
    using that bounds_upd_peer [OF ok, of i] by (simp add: peer_bounds_def)
  with ok show ?thesis by (simp add: receive_packet_def Let_def max_crypto_jobs_def split: option.split json.split)
qed

lemma bounds_message: "relay_bounds s \<Longrightarrow> relay_bounds (socket_message env k raw s)"
  by (simp add: socket_message_def Let_def bounds_receive split: option.split json.split bool.split)

lemma bounds_lose: "relay_bounds s \<Longrightarrow> relay_bounds (lose_peer e s)"
  by (auto simp: lose_peer_def peer_bounds_def intro!: bounds_upd_peer bounds_reset split: prod.split)

lemma bounds_retry:
  assumes "relay_bounds s"
  shows "relay_bounds (retry_socket s)"
proof (cases "relay_disposed s \<or> relay_attempts s \<ge> 3")
  case False
  then have "relay_attempts s = 0 \<or> relay_attempts s = 1 \<or> relay_attempts s = 2" by arith
  then have "retry_ok (n, relay_delay (relay_attempts s))" for n by (auto simp: retry_ok_def relay_delay_def)
  then have "list_all retry_ok m \<Longrightarrow> list_all retry_ok (jset m n (relay_delay (relay_attempts s)))" for m n
    by (induction m n "relay_delay (relay_attempts s)" rule: jset.induct) auto
  with False assms show ?thesis by (simp add: retry_socket_def Let_def) (simp add: relay_bounds_def)
qed (simp add: retry_socket_def assms bounds_remove_all)

lemma bounds_closes: "relay_bounds s \<Longrightarrow> relay_bounds (socket_closes k s)"
  by (simp add: socket_closes_def Let_def bounds_retry bounds_fold bounds_lose)

lemma bounds_timers:
  assumes "relay_bounds s"
  shows "relay_bounds (relay_timer_fires env t s)" and "relay_bounds (handshake_fires env pid i s)"
proof -
  have "list_all retry_ok (jdel (live_timers s) t)" using assms by (auto simp: relay_bounds_def jdel_def list_all_iff)
  then have "relay_bounds (s\<lparr>live_timers := jdel (live_timers s) t, relay_timer := x\<rparr>)" for x
    using assms by (simp add: relay_bounds_def)
  then show "relay_bounds (relay_timer_fires env t s)"
    using assms unfolding relay_timer_fires_def
    by (auto split: prod.split bool.split intro!: bounds_fold bounds_negotiate dest: bounds_ensureD)
  have timer: "relay_bounds (upd_peer i (\<lambda>q. q\<lparr>handshake_timer := None\<rparr>) s)" (is "relay_bounds ?u")
    using assms by (rule bounds_upd_peer) (rule peer_bounds_timer)
  have "relay_bounds (upd_peer i (\<lambda>q. q\<lparr>handshake_attempts := Suc (handshake_attempts q)\<rparr>) ?u)"
    if "\<not> 2 \<le> handshake_attempts (peer_at ?u i)"
    by (rule bounds_upd_peer [OF timer]) (use that in \<open>auto simp: peer_bounds_def\<close>)
  with timer assms show "relay_bounds (handshake_fires env pid i s)"
    by (simp add: handshake_fires_def Let_def bounds_remove bounds_negotiate)
qed

lemma bounds_step: "relay_bounds s \<Longrightarrow> relay_bounds (relay_step env s e)"
  by (cases e) (simp_all add: bounds_microphone bounds_start bounds_stop bounds_signal bounds_settle bounds_send
      bounds_fail bounds_message bounds_closes bounds_timers bounds_dispose on_object_def on_relay_socket_def
      socket_opens_def connect_timer_fires_def heartbeat_fires_def Let_def split: option.split)

interpretation bounded: event_machine "relay_step env" relay_bounds for env
  by unfold_locales (rule bounds_step)

text \<open>
  The numbers that the counters of a peer object stand for are the tasks in flight. While the
  answer of a task is handled, the task has left the list but its \<open>finally\<close> has not run:
  \<open>j\<close> is such a task.
\<close>

fun crypto_job :: "('p, 'k) relay_task \<Rightarrow> (bool \<times> nat) option" where
  "crypto_job (Encrypted pid i g k queued_at budget result) = Some (True, i)"
| "crypto_job (Decrypted pid i g c result) = Some (False, i)"
| "crypto_job t = None"

definition jobs :: "bool \<Rightarrow> nat \<Rightarrow> ('p, 'k) voice_relay \<Rightarrow> nat" where
  "jobs b i s = length (filter (\<lambda>t. crypto_job t = Some (b, i)) (tasks s))"

definition unfinished :: "(bool \<times> nat) option \<Rightarrow> bool \<Rightarrow> nat \<Rightarrow> nat" where
  "unfinished j b i = (if j = Some (b, i) then 1 else 0)"

text \<open>The retry timers set since a peer was last relayed, with their delays.\<close>

fun note_retry :: "nat list \<Rightarrow> relay_effect \<Rightarrow> nat list" where
  "note_retry ds (Retry_after d) = ds @ [d]"
| "note_retry ds (On_state pid state m) = (if state = Relayed then [] else ds)"
| "note_retry ds e = ds"

definition retry_delays :: "('p, 'k) voice_relay \<Rightarrow> nat list" where
  "retry_delays s = foldl note_retry [] (effects s)"

definition flow :: "(bool \<times> nat) option \<Rightarrow> ('p, 'k) voice_relay \<Rightarrow> bool" where
  "flow j s \<longleftrightarrow>
     (\<forall>i. jobs True i s + unfinished j True i = (if i < length (objects s) then encrypting (objects s ! i) else 0)) \<and>
     (\<forall>i. jobs False i s + unfinished j False i = (if i < length (objects s) then decrypting (objects s ! i) else 0)) \<and>
     (\<forall>e\<in>set (peers s). snd e < length (objects s)) \<and>
     retry_delays s = map relay_delay [0..<relay_attempts s]"

definition unretried :: "relay_effect \<Rightarrow> bool" where
  "unretried f \<longleftrightarrow> (\<forall>ds. note_retry ds f = ds)"

lemma unretried_list: "list_all unretried es \<Longrightarrow> foldl note_retry ds es = ds"
  by (induction es) (simp_all add: unretried_def)

lemma unretried_simps [simp]:
  "unretried (Signal pid k)" "unretried (On_track pid t)" "unretried (Frame n pid e q d)" "unretried (Ping n p)"
  "unretried (Pong n p)" "unretried (Push n q os)" "unretried (Set_bitrate n r)" "unretried (Dispose_encoder n)"
  "unretried (Dispose_decoder n)" "unretried (Close_socket n)" "unretried (On_state pid state m) = (state \<noteq> Relayed)"
  by (auto simp: unretried_def)

lemma flow_emit [simp]: "list_all unretried es \<Longrightarrow> flow j (emit_effects es s) = flow j s"
  by (simp add: flow_def jobs_def retry_delays_def emit_effects_def unretried_list)

lemma flow_await [simp]: "crypto_job t = None \<Longrightarrow> flow j (await t s) = flow j s"
  by (simp add: flow_def jobs_def retry_delays_def await_def)

lemma flow_upd [simp]:
  assumes "\<And>q. encrypting (f q) = encrypting q" and "\<And>q. decrypting (f q) = decrypting q"
  shows "flow j (upd_peer i f s) = flow j s"
proof -
  have "encrypting ((objects s)[i := f (objects s ! i)] ! k) = encrypting (objects s ! k)"
      "decrypting ((objects s)[i := f (objects s ! i)] ! k) = decrypting (objects s ! k)" if "k < length (objects s)" for k
    using that assms by (cases "k = i"; simp)+
  then show ?thesis by (simp add: flow_def jobs_def retry_delays_def upd_peer_def)
qed

lemma flow_simps [simp]:
  "flow j (s\<lparr>counter := n\<rparr>) = flow j s" "flow j (s\<lparr>voice_sessions := vs\<rparr>) = flow j s"
  "flow j (s\<lparr>microphone := m\<rparr>) = flow j s" "flow j (s\<lparr>live_timers := ts\<rparr>) = flow j s"
  "flow j (s\<lparr>heartbeat := h\<rparr>) = flow j s" "flow j (s\<lparr>relay_ping := r\<rparr>) = flow j s"
  "flow j (s\<lparr>relay_socket := k'\<rparr>) = flow j s" "flow j (s\<lparr>relay_timer := rt\<rparr>) = flow j s"
  "flow j (s\<lparr>relay_disposed := b\<rparr>) = flow j s" "flow j (s\<lparr>socket_generation := n\<rparr>) = flow j s"
  "flow j (s\<lparr>relay_sockets := rs\<rparr>) = flow j s" "flow j (upd_relay_socket k g s) = flow j s"
  by (simp_all add: flow_def jobs_def retry_delays_def upd_relay_socket_def)

lemma flow_close [simp]: "flow j (close_socket k s) = flow j s"
  by (simp add: close_socket_def)

lemma flow_drop [simp]: "flow j (drop_socket s) = flow j s"
  by (simp add: drop_socket_def Let_def split: option.split)

lemma flow_clear [simp]: "flow j (clear_relay_timer s) = flow j s"
  by (simp add: clear_relay_timer_def split: option.split)

lemma flow_reset [simp]: "flow j (reset_media pid i s) = flow j s"
  by (simp add: reset_media_def Let_def disposals_def reset_peer_def split: option.split)

lemma flow_peers: "flow j s \<Longrightarrow> set m \<subseteq> set (peers s) \<Longrightarrow> flow j (s\<lparr>peers := m\<rparr>)"
  by (auto simp: flow_def jobs_def retry_delays_def)

lemma flow_remove: "flow j s \<Longrightarrow> flow j (remove_peer pid m s)"
  by (auto simp: remove_peer_def Let_def jdel_def retire_def intro!: flow_peers split: option.split)

lemma flow_fold: "(\<And>x s. flow j s \<Longrightarrow> flow j (f x s)) \<Longrightarrow> flow j s \<Longrightarrow> flow j (fold f xs s)"
  by (induction xs arbitrary: s) auto

lemma flow_remove_all: "flow j s \<Longrightarrow> flow j (remove_all m s)"
  unfolding remove_all_def by (rule flow_fold) (rule flow_remove)

lemma flow_fail: "flow j s \<Longrightarrow> flow j (fail_peer pid i m s)"
  by (simp add: fail_peer_def flow_remove)

lemma flow_rejection: "flow j s \<Longrightarrow> flow j (on_rejection orig pid i m s)"
  by (simp add: on_rejection_def flow_fail split: option.split)

lemma flow_dispose: "flow j s \<Longrightarrow> flow j (dispose_relay s)"
  by (simp add: dispose_relay_def flow_remove_all)

lemma flow_arm [simp]: "flow j (arm_handshake i d s) = flow j s"
  by (simp add: arm_handshake_def)

lemma flow_begin_offer [simp]: "flow j (begin_offer env orig pid i s) = flow j s"
  by (simp add: begin_offer_def Let_def)

lemma flow_negotiate [simp]: "flow j (negotiate env orig pid i s) = flow j s"
  by (simp add: negotiate_def send_ready_def)

lemma flow_encoder [simp]: "flow j (start_encoder orig pid i s) = flow j s"
  by (simp add: start_encoder_def Let_def split: option.split)

lemma flow_microphone: "flow j s \<Longrightarrow> flow j (set_microphone track s)"
  unfolding set_microphone_def
  by (rule flow_fold) (simp_all add: Let_def split: prod.split option.split)

lemma flow_add_peer: "flow j s \<Longrightarrow> flow j (add_peer pid s)"
proof -
  assume ok: "flow j s"
  have "list_all (\<lambda>e. snd e < Suc (length (objects s))) (jset (peers s) pid (length (objects s)))"
    using ok by (intro list_all_jset) (auto simp: flow_def list_all_iff)
  then have "\<forall>e\<in>set (jset (peers s) pid (length (objects s))). snd e < Suc (length (objects s))"
    by (simp add: list_all_iff)
  with ok show ?thesis
    by (simp add: add_peer_def)
      (auto simp: flow_def jobs_def retry_delays_def nth_append new_peer_def less_Suc_eq)
qed

lemma flow_ensure [simp]: "flow j (snd (ensure_socket env s)) = flow j s"
  by (simp add: ensure_socket_def Let_def)

lemma flow_ensureD: "ensure_socket env s = (b, t) \<Longrightarrow> flow j t = flow j s"
  using flow_ensure by (metis snd_conv)

lemma flow_start: "flow j s \<Longrightarrow> flow j (snd (start_peer env pid s))"
  unfolding start_peer_def Let_def
  by (auto simp: flow_add_peer dest!: flow_ensureD [where j = j] split: option.split prod.split bool.split)

lemma flow_stop: "flow j s \<Longrightarrow> flow j (stop_peer pid s)"
  by (simp add: stop_peer_def flow_remove split: option.split)

lemma flow_kind [simp]: "flow j (receive_kind env pid kind data i s) = flow j s"
  by (simp add: receive_kind_def receive_offer_def receive_answer_def Let_def split: option.split json.split)

lemma flow_signal: "flow j s \<Longrightarrow> flow j (relay_signal env v s)"
  unfolding relay_signal_def Let_def receive_stop_def
  by (auto simp: flow_add_peer flow_remove dest!: flow_ensureD [where j = j] intro!: flow_rejection
      split: option.split json.split prod.split bool.split)

lemma flow_settle_handshake: "flow j s \<Longrightarrow> flow j (settle_handshake env task answer s)"
  by (cases task; cases answer)
    (simp_all add: settle_handshake_def with_session_def flow_rejection split: sum.split)

lemma flow_settle_codec: "flow j s \<Longrightarrow> flow j (settle_codec task answer s)"
  by (cases task; cases answer) (simp_all add: settle_codec_def flow_rejection)

text \<open>A job is begun: its task and the counter of its peer go up together.\<close>

lemma flow_begin:
  assumes "flow j s" and "i < length (objects s)"
  shows "flow j (await (Encrypted pid i g k q b r) (upd_peer i (\<lambda>q. q\<lparr>encrypting := Suc (encrypting q)\<rparr>) s))"
    and "flow j (await (Decrypted pid i g c d) (upd_peer i (\<lambda>q. q\<lparr>decrypting := Suc (decrypting q)\<rparr>) s))"
  using assms by (simp_all add: flow_def jobs_def retry_delays_def await_def upd_peer_def nth_list_update)

text \<open>And it ends: the \<open>finally\<close> of a task that has left the list.\<close>

lemma flow_end:
  "flow (Some (True, i)) s \<Longrightarrow> flow None (end_encrypting i s)"
  "flow (Some (False, i)) s \<Longrightarrow> flow None (end_decrypting i s)"
proof -
  have i: "i < length (objects s)" if "flow (Some (b, i)) s" for b
    using that by (cases b) (auto simp: flow_def unfinished_def split: if_splits dest!: spec [of _ i])
  show "flow (Some (True, i)) s \<Longrightarrow> flow None (end_encrypting i s)"
    using i [of True]
    by (auto simp: end_encrypting_def flow_def jobs_def retry_delays_def upd_peer_def nth_list_update unfinished_def
        split: if_splits)
  show "flow (Some (False, i)) s \<Longrightarrow> flow None (end_decrypting i s)"
    using i [of False]
    by (auto simp: end_decrypting_def flow_def jobs_def retry_delays_def upd_peer_def nth_list_update unfinished_def
        split: if_splits)
qed

lemma flow_taken:
  assumes "flow None s" and "n < length (tasks s)"
  shows "flow (crypto_job (tasks s ! n)) (s\<lparr>tasks := take n (tasks s) @ drop (Suc n) (tasks s)\<rparr>)"
proof -
  have "jobs b i (s\<lparr>tasks := take n (tasks s) @ drop (Suc n) (tasks s)\<rparr>) + unfinished (crypto_job (tasks s ! n)) b i = jobs b i s"
    for b i
  proof -
    have "tasks s = take n (tasks s) @ tasks s ! n # drop (Suc n) (tasks s)"
      using assms(2) by (rule id_take_nth_drop)
    then have "jobs b i s = length (filter (\<lambda>t. crypto_job t = Some (b, i)) (take n (tasks s) @ tasks s ! n # drop (Suc n) (tasks s)))"
      by (simp add: jobs_def)
    then show ?thesis by (simp add: jobs_def unfinished_def)
  qed
  with assms(1) show ?thesis by (simp add: flow_def retry_delays_def unfinished_def [of None])
qed

lemma flow_change_bitrate [simp]: "flow j (change_bitrate i r s) = flow j s"
  by (simp add: change_bitrate_def split: option.split)

lemma flow_send:
  assumes "flow j s" and "i < length (objects s)"
  shows "flow j (send_packet env pid i g packet t s)"
proof -
  have same: "length (objects (change_bitrate i r s)) = length (objects s)" for r
    by (simp add: change_bitrate_def emit_effects_def upd_peer_def)
  have "flow j (start_encrypting env pid i g k c packet t b u)" if "flow j u" and "i < length (objects u)" for k c b u
    using that flow_begin(1) [of j "u\<lparr>voice_sessions := vs\<rparr>" i for vs]
    by (simp add: start_encrypting_def split: prod.split)
  with assms same show ?thesis by (simp add: send_packet_def Let_def split: option.split)
qed

lemma flow_expose: "flow j s \<Longrightarrow> flow j (expose pid i d s)"
proof -
  assume ok: "flow j s"
  let ?u = "upd_peer i (\<lambda>q. q\<lparr>exposed := True, handshake_timer := None\<rparr>) (s\<lparr>relay_attempts := 0\<rparr>)"
  have "?u = (upd_peer i (\<lambda>q. q\<lparr>exposed := True, handshake_timer := None\<rparr>) s)\<lparr>relay_attempts := 0\<rparr>"
    by (simp add: upd_peer_def)
  moreover have "flow j (upd_peer i (\<lambda>q. q\<lparr>exposed := True, handshake_timer := None\<rparr>) s)" using ok by simp
  ultimately have "flow j (emit_effects [On_track pid (Some d), On_state pid Relayed []] ?u)"
    by (simp add: flow_def jobs_def retry_delays_def emit_effects_def)
  with ok show ?thesis by (simp add: expose_def)
qed

lemma flow_finish: "flow j s \<Longrightarrow> flow j (finish_decryption pid i g c d s)"
  by (simp add: finish_decryption_def deliver_def flow_fail flow_expose
      split: decryption.split prod.split sum.split option.split)

lemma flow_settle_packet:
  assumes "flow (crypto_job task) s" and "crypto_job task \<noteq> None" and "answers task answer"
  shows "flow None (settle_packet task answer s)"
  using assms by (cases task; cases answer)
    (simp_all add: settle_packet_def flow_fail flow_end flow_finish send_frame_def split: sum.split)

lemma flow_settle: "flow None s \<Longrightarrow> flow None (settle_task env n answer s)"
proof (cases "n < length (tasks s) \<and> answers (tasks s ! n) answer")
  case True
  assume "flow None s"
  from flow_taken [OF this conjunct1 [OF True]] show ?thesis
    using True flow_settle_packet [of "tasks s ! n" _ answer] by (cases "tasks s ! n")
      (auto simp: settle_task_def Let_def flow_settle_handshake flow_settle_codec)
qed (auto simp: settle_task_def)

lemma flow_receive: "flow j s \<Longrightarrow> flow j (receive_packet env v s)"
proof -
  assume ok: "flow j s"
  have "i < length (objects s)" if "jget (peers s) pid = Some i" for pid i
    using ok map_of_SomeD [OF that [unfolded jget_def]] by (auto simp: flow_def)
  with ok show ?thesis
    by (simp add: receive_packet_def Let_def flow_begin split: option.split json.split)
qed

lemma flow_message: "flow j s \<Longrightarrow> flow j (socket_message env k raw s)"
  by (simp add: socket_message_def Let_def flow_receive split: option.split json.split bool.split)

lemma flow_lose: "flow j s \<Longrightarrow> flow j (lose_peer e s)"
  by (simp add: lose_peer_def split: prod.split)

lemma flow_retry: "flow j s \<Longrightarrow> flow j (retry_socket s)"
  by (simp add: retry_socket_def flow_remove_all)
    (simp add: flow_def jobs_def retry_delays_def emit_effects_def Let_def)

lemma flow_closes: "flow j s \<Longrightarrow> flow j (socket_closes k s)"
  by (simp add: socket_closes_def Let_def flow_retry flow_fold flow_lose)

lemma flow_timers:
  assumes "flow j s"
  shows "flow j (relay_timer_fires env t s)" and "flow j (handshake_fires env pid i s)"
  using assms by (auto simp: relay_timer_fires_def handshake_fires_def Let_def flow_remove
      intro!: flow_fold dest!: flow_ensureD [where j = j] split: prod.split bool.split)

lemma flow_step: "flow None s \<Longrightarrow> flow None (relay_step env s e)"
  by (cases e) (simp_all add: flow_microphone flow_start flow_stop flow_signal flow_settle flow_send
      flow_fail flow_message flow_closes flow_timers flow_dispose on_object_def on_relay_socket_def
      socket_opens_def connect_timer_fires_def heartbeat_fires_def Let_def split: option.split)

interpretation flowing: event_machine "relay_step env" "flow None" for env
  by unfold_locales (rule flow_step)

text \<open>The tasks that are encrypting or decrypting for a peer object.\<close>

definition encrypting_for :: "nat \<Rightarrow> ('p, 'k) voice_relay \<Rightarrow> ('p, 'k) relay_task list" where
  "encrypting_for i s =
     filter (\<lambda>t. case t of Encrypted pid j g k queued_at budget result \<Rightarrow> j = i | _ \<Rightarrow> False) (tasks s)"

definition decrypting_for :: "nat \<Rightarrow> ('p, 'k) voice_relay \<Rightarrow> ('p, 'k) relay_task list" where
  "decrypting_for i s = filter (\<lambda>t. case t of Decrypted pid j g c result \<Rightarrow> j = i | _ \<Rightarrow> False) (tasks s)"

lemma tasks_for:
  fixes s :: "('p, 'k) voice_relay"
  shows "length (encrypting_for i s) = jobs True i s" "length (decrypting_for i s) = jobs False i s"
proof -
  have e: "(\<lambda>t :: ('p, 'k) relay_task. case t of Encrypted pid j g k queued_at budget result \<Rightarrow> j = i | _ \<Rightarrow> False) =
      (\<lambda>t. crypto_job t = Some (True, i))" by (rule ext) (simp split: relay_task.split)
  have d: "(\<lambda>t :: ('p, 'k) relay_task. case t of Decrypted pid j g c result \<Rightarrow> j = i | _ \<Rightarrow> False) =
      (\<lambda>t. crypto_job t = Some (False, i))" by (rule ext) (simp split: relay_task.split)
  show "length (encrypting_for i s) = jobs True i s" "length (decrypting_for i s) = jobs False i s"
    by (simp_all only: encrypting_for_def decrypting_for_def jobs_def e d)
qed

lemma flow_bounded:
  assumes "flow None s" and "relay_bounds s"
  shows "length (encrypting_for i s) \<le> 1" and "length (decrypting_for i s) \<le> 1"
  using assms by (auto simp: tasks_for flow_def unfinished_def relay_bounds_def peer_bounds_def list_all_length)

lemma flow_retries:
  assumes "flow None s" and "relay_bounds s"
  shows "\<exists>n\<le>3. retry_delays s = take n [250, 500, 1000]"
proof -
  have "map relay_delay [0..<n] = take n [250, 500, 1000]" if "n \<le> 3" for n
  proof -
    have "map relay_delay [0..<3] = [250, 500, 1000]" by (simp add: relay_delay_def upt_rec)
    then have "take n [250, 500, 1000] = map relay_delay (take n [0..<3])" by (simp only: take_map [symmetric])
    with that show ?thesis by (simp add: take_upt)
  qed
  with assms show ?thesis by (auto simp: flow_def relay_bounds_def)
qed

text \<open>
  C5. The relay's resources are bounded, over any run: it has at most eight peers, each once
  and never itself; at most one packet is being encrypted and at most one decrypted for any
  peer object, those that have left the map included; and the retry timers it has set since
  it last relayed a peer's audio are at most three, after a quarter of a second, half a
  second and a second, in that order.
\<close>

theorem voice_relay_bounded:
  assumes "new_relay me = Some s0" and "s = foldl (relay_step env) s0 es"
  shows "length (peers s) \<le> 8 \<and> distinct (jkeys (peers s)) \<and> local_id s \<notin> set (jkeys (peers s)) \<and>
    (\<forall>i. length (encrypting_for i s) \<le> 1 \<and> length (decrypting_for i s) \<le> 1) \<and>
    (\<exists>n\<le>3. retry_delays s = take n [250, 500, 1000])"
proof -
  have "relay_bounds s0" and "flow None s0"
    using assms(1) by (auto simp: new_relay_def relay_bounds_def flow_def jobs_def unfinished_def retry_delays_def
        split: option.splits)
  then have b: "relay_bounds s" and f: "flow None s"
    unfolding assms(2) by (simp_all add: bounded.run_inv flowing.run_inv)
  show ?thesis using b flow_bounded [OF f b] flow_retries [OF f b] by (simp add: relay_bounds_def)
qed

section \<open>Frames leave only sealed\<close>

text \<open>The part of a session that its life does not change, and a frame sealed under one.\<close>

definition core :: "'k voice_session \<Rightarrow> string \<times> string \<times> string \<times> 'k \<times> octet list" where
  "core v = (session_epoch v, local_peer v, remote_peer v, send_key v, send_prefix v)"

definition cores :: "('p, 'k) voice_relay \<Rightarrow> (string \<times> string \<times> string \<times> 'k \<times> octet list) list" where
  "cores s = map core (voice_sessions s)"

definition sealed :: "('p, 'k) web_crypto \<Rightarrow> (string \<times> string \<times> string \<times> 'k \<times> octet list) set \<Rightarrow>
    string \<Rightarrow> string \<Rightarrow> string \<Rightarrow> nat \<Rightarrow> string \<Rightarrow> bool" where
  "sealed w K me pid e n data \<longleftrightarrow> (\<exists>key prefix. (e, me, pid, key, prefix) \<in> K \<and>
     (\<exists>packet iv. packet_ok packet \<and> voice_nonce prefix n = Inr iv \<and>
        data = bytes_to_base64 w (gcm_seal w key iv (voice_aad w me pid e n) packet)))"

definition held :: "'p voice_peer list \<Rightarrow> nat \<Rightarrow> nat \<Rightarrow> string \<Rightarrow> bool" where
  "held objs i g e \<longleftrightarrow> i < length objs \<and> g \<le> peer_generation (objs ! i) \<and>
     (peer_generation (objs ! i) = g \<longrightarrow> peer_epoch (objs ! i) = Some e)"

fun task_safe :: "('p, 'k) web_crypto \<Rightarrow> string \<Rightarrow> 'p voice_peer list \<Rightarrow>
    (string \<times> string \<times> string \<times> 'k \<times> octet list) set \<Rightarrow> ('p, 'k) relay_task \<Rightarrow> bool" where
  "task_safe w me objs K (Answer_keys pid i g e key) = held objs i g e"
| "task_safe w me objs K (Answer_session pid i g pub (Inr v)) =
     (held objs i g (session_epoch v) \<and> local_peer v = me \<and> remote_peer v = pid)"
| "task_safe w me objs K (Accept_session pid i g (Inr v)) =
     (held objs i g (session_epoch v) \<and> local_peer v = me \<and> remote_peer v = pid)"
| "task_safe w me objs K (Encrypted pid i g k q b (Inr (n, data))) =
     (\<exists>e. held objs i g e \<and> sealed w K me pid e n data)"
| "task_safe w me objs K t = True"

fun frame_safe :: "('p, 'k) web_crypto \<Rightarrow> string \<Rightarrow> (string \<times> string \<times> string \<times> 'k \<times> octet list) set \<Rightarrow>
    relay_effect \<Rightarrow> bool" where
  "frame_safe w me K (Frame k pid e n data) = (\<exists>x. e = Some x \<and> sealed w K me pid x n data)"
| "frame_safe w me K f = True"

definition keyed :: "('p, 'k) voice_relay \<Rightarrow> string \<Rightarrow> nat \<Rightarrow> bool" where
  "keyed s pid i \<longleftrightarrow> i < length (objects s) \<and> (\<forall>c. crypto (objects s ! i) = Some c \<longrightarrow>
     c < length (voice_sessions s) \<and> (\<exists>e. peer_epoch (objects s ! i) = Some e \<and>
       session_epoch (voice_sessions s ! c) = e \<and> local_peer (voice_sessions s ! c) = local_id s \<and>
       remote_peer (voice_sessions s ! c) = pid))"

definition relay_safe :: "('p, 'k) relay_env \<Rightarrow> ('p, 'k) voice_relay \<Rightarrow> bool" where
  "relay_safe env s \<longleftrightarrow>
     (\<forall>pid i. jget (peers s) pid = Some i \<longrightarrow> keyed s pid i) \<and>
     (\<forall>pid pid' i. jget (peers s) pid = Some i \<longrightarrow> jget (peers s) pid' = Some i \<longrightarrow> pid = pid') \<and>
     list_all (task_safe (web env) (local_id s) (objects s) (set (cores s))) (tasks s) \<and>
     list_all (frame_safe (web env) (local_id s) (set (cores s))) (effects s)"

lemma sealed_mono: "sealed w K me pid e n data \<Longrightarrow> K \<subseteq> K' \<Longrightarrow> sealed w K' me pid e n data"
  unfolding sealed_def by blast

lemma task_safe_mono:
  assumes "task_safe w me objs K t" and "K \<subseteq> K'" and "\<And>i g e. held objs i g e \<Longrightarrow> held objs' i g e"
  shows "task_safe w me objs' K' t"
  using assms(1) by (cases "(w, me, objs, K, t)" rule: task_safe.cases) (auto intro: assms(3) sealed_mono [OF _ assms(2)])

lemma frame_safe_mono: "frame_safe w me K f \<Longrightarrow> K \<subseteq> K' \<Longrightarrow> frame_safe w me K' f"
  by (cases f) (auto intro: sealed_mono)

lemma tasks_mono:
  "list_all (task_safe w me objs K) ts \<Longrightarrow> K \<subseteq> K' \<Longrightarrow> (\<And>i g e. held objs i g e \<Longrightarrow> held objs' i g e) \<Longrightarrow>
   list_all (task_safe w me objs' K') ts"
  by (erule list.pred_mono_strong) (rule task_safe_mono)

lemma safe_emit [simp]:
  "relay_safe env (emit_effects es s) \<longleftrightarrow>
     relay_safe env s \<and> list_all (frame_safe (web env) (local_id s) (set (cores s))) es"
  by (auto simp: relay_safe_def emit_effects_def keyed_def cores_def)

lemma safe_await [simp]:
  "relay_safe env (await t s) \<longleftrightarrow>
     relay_safe env s \<and> task_safe (web env) (local_id s) (objects s) (set (cores s)) t"
  by (auto simp: relay_safe_def await_def keyed_def cores_def)

lemma safe_fields [simp]:
  "relay_safe env (upd_relay_socket k g s) = relay_safe env s" "relay_safe env (s\<lparr>counter := n\<rparr>) = relay_safe env s"
  "relay_safe env (s\<lparr>microphone := m\<rparr>) = relay_safe env s" "relay_safe env (s\<lparr>heartbeat := h\<rparr>) = relay_safe env s"
  "relay_safe env (s\<lparr>relay_ping := r\<rparr>) = relay_safe env s" "relay_safe env (s\<lparr>relay_socket := k'\<rparr>) = relay_safe env s"
  "relay_safe env (s\<lparr>relay_timer := rt\<rparr>) = relay_safe env s" "relay_safe env (s\<lparr>live_timers := lt\<rparr>) = relay_safe env s"
  "relay_safe env (s\<lparr>socket_generation := n\<rparr>) = relay_safe env s" "relay_safe env (s\<lparr>relay_sockets := so\<rparr>) = relay_safe env s"
  "relay_safe env (s\<lparr>relay_disposed := b\<rparr>) = relay_safe env s" "relay_safe env (s\<lparr>relay_attempts := n\<rparr>) = relay_safe env s"
  by (simp_all add: relay_safe_def keyed_def cores_def upd_relay_socket_def)

lemma safe_close [simp]: "relay_safe env (close_socket k s) = relay_safe env s"
  by (simp add: close_socket_def)

lemma safe_drop [simp]: "relay_safe env (drop_socket s) = relay_safe env s"
  by (simp add: drop_socket_def Let_def split: option.split)

lemma safe_clear [simp]: "relay_safe env (clear_relay_timer s) = relay_safe env s"
  by (simp add: clear_relay_timer_def split: option.split)

text \<open>
  Updates of one peer object. They are of two kinds: those that keep the generation, the
  epoch and the session (or drop the session), and those that start a new generation
  without a session, after which the epoch may be anything.
\<close>

definition harmless :: "('p voice_peer \<Rightarrow> 'p voice_peer) \<Rightarrow> 'p voice_peer \<Rightarrow> bool" where
  "harmless f q \<longleftrightarrow>
     (peer_generation (f q) = peer_generation q \<and> peer_epoch (f q) = peer_epoch q \<and> (crypto (f q) = crypto q \<or> crypto (f q) = None)) \<or>
     (peer_generation (f q) > peer_generation q \<and> crypto (f q) = None)"

lemma held_upd:
  assumes "harmless f (objs ! j)" and "held objs i g e"
  shows "held (objs[j := f (objs ! j)]) i g e"
  using assms by (cases "i = j") (auto simp: held_def harmless_def)

lemma safe_upd_peer:
  assumes "relay_safe env s" and "harmless f (peer_at s j)"
  shows "relay_safe env (upd_peer j f s)"
proof -
  have "keyed (upd_peer j f s) pid i" if "keyed s pid i" for pid i
    using that assms(2) by (cases "i = j") (auto simp: keyed_def upd_peer_def harmless_def peer_at_def)
  moreover have "list_all (task_safe (web env) (local_id s) ((objects s)[j := f (objects s ! j)]) (set (cores s))) (tasks s)"
  proof (rule tasks_mono)
    show "list_all (task_safe (web env) (local_id s) (objects s) (set (cores s))) (tasks s)"
      using assms(1) by (simp add: relay_safe_def)
  qed (use assms(2) held_upd in \<open>simp_all add: peer_at_def\<close>)
  ultimately show ?thesis using assms(1) by (auto simp: relay_safe_def upd_peer_def cores_def)
qed

lemma upd_peer_emit: "upd_peer i f (emit_effects es s) = emit_effects es (upd_peer i f s)"
  by (simp add: upd_peer_def emit_effects_def)

lemma upd_peer_twice: "upd_peer i f (upd_peer i g s) = upd_peer i (f \<circ> g) s"
  by (cases "i < length (objects s)") (simp_all add: upd_peer_def list_update_beyond)

definition frameless :: "relay_effect \<Rightarrow> bool" where
  "frameless f = (case f of Frame k pid e n data \<Rightarrow> False | _ \<Rightarrow> True)"

lemma frameless_safe: "list_all frameless es \<Longrightarrow> list_all (frame_safe w me K) es"
  by (erule list.pred_mono_strong) (simp add: frameless_def split: relay_effect.splits)

lemma reset_media_form:
  obtains es where "reset_media pid i s = emit_effects es (upd_peer i reset_peer s)" and "list_all frameless es"
proof
  let ?es = "disposals (peer_at s i) @ (if exposed (peer_at s i) then [On_track pid None] else [])"
  show "reset_media pid i s = emit_effects ?es (upd_peer i reset_peer s)"
    by (simp add: reset_media_def Let_def upd_peer_emit)
  show "list_all frameless ?es" by (simp add: disposals_def frameless_def split: option.split)
qed

lemma peer_fields [simp]:
  "peers (emit_effects es s) = peers s" "peers (upd_peer i f s) = peers s" "peers (await t s) = peers s"
  "peers (reset_media pid i s) = peers s"
  "local_id (emit_effects es s) = local_id s" "local_id (upd_peer i f s) = local_id s"
  "local_id (await t s) = local_id s" "local_id (reset_media pid i s) = local_id s"
  "voice_sessions (emit_effects es s) = voice_sessions s" "voice_sessions (upd_peer i f s) = voice_sessions s"
  "objects (emit_effects es s) = objects s" "objects (upd_peer i f s) = (objects s)[i := f (objects s ! i)]"
  "peer_at (emit_effects es s) = peer_at s"
  "objects (reset_media pid i s) = (objects s)[i := reset_peer (objects s ! i)]"
  by (simp_all add: reset_media_def Let_def emit_effects_def upd_peer_def await_def peer_at_def fun_eq_iff)

text \<open>Starting a new generation: all that happens to the object, in one update.\<close>

lemma safe_renew:
  assumes "relay_safe env s" and "peer_generation (g (peer_at s i)) > peer_generation (peer_at s i)"
    and "\<And>q. crypto (f q) = crypto q" and "\<And>q. peer_generation (f q) = peer_generation q"
  shows "relay_safe env (upd_peer i f (reset_media pid i (upd_peer i g s)))"
proof -
  obtain es where "reset_media pid i (upd_peer i g s) = emit_effects es (upd_peer i reset_peer (upd_peer i g s))"
    and "list_all frameless es" by (rule reset_media_form)
  moreover have "relay_safe env (upd_peer i (f \<circ> (reset_peer \<circ> g)) s)"
    by (rule safe_upd_peer [OF assms(1)]) (simp add: harmless_def reset_peer_def assms(2-))
  ultimately show ?thesis by (simp add: upd_peer_emit upd_peer_twice frameless_safe)
qed

lemma upd_peer_id: "upd_peer i (\<lambda>q. q) s = s"
  by (simp add: upd_peer_def)

lemma safe_reset:
  assumes "relay_safe env s" and "peer_generation (g (peer_at s i)) > peer_generation (peer_at s i)"
  shows "relay_safe env (reset_media pid i (upd_peer i g s))"
  using safe_renew [where f = "\<lambda>q. q" and g = g and i = i, OF assms] by (simp add: upd_peer_id)

lemma safe_remove: "relay_safe env s \<Longrightarrow> relay_safe env (remove_peer pid m s)"
proof (cases "jget (peers s) pid")
  case (Some i)
  assume "relay_safe env s"
  then have "relay_safe env (reset_media pid i (upd_peer i retire s))" (is "relay_safe env ?t")
    by (rule safe_reset) (simp add: retire_def)
  then have "relay_safe env (?t\<lparr>peers := jdel (peers ?t) pid\<rparr>)"
    by (simp add: relay_safe_def keyed_def cores_def)
  with Some show ?thesis by (cases "jdel (peers s) pid = []") (simp_all add: remove_peer_def Let_def)
qed (simp add: remove_peer_def)

lemma safe_fold: "(\<And>x s. relay_safe env s \<Longrightarrow> relay_safe env (f x s)) \<Longrightarrow> relay_safe env s \<Longrightarrow> relay_safe env (fold f xs s)"
  by (induction xs arbitrary: s) auto

lemma safe_remove_all: "relay_safe env s \<Longrightarrow> relay_safe env (remove_all m s)"
  unfolding remove_all_def by (rule safe_fold) (rule safe_remove)

lemma safe_fail: "relay_safe env s \<Longrightarrow> relay_safe env (fail_peer pid i m s)"
  by (simp add: fail_peer_def safe_remove)

lemma safe_rejection: "relay_safe env s \<Longrightarrow> relay_safe env (on_rejection orig pid i m s)"
  by (simp add: on_rejection_def safe_fail split: option.split)

lemma safe_dispose: "relay_safe env s \<Longrightarrow> relay_safe env (dispose_relay s)"
  by (simp add: dispose_relay_def safe_remove_all)

lemma safe_keep:
  "relay_safe env s \<Longrightarrow> (\<And>q. peer_generation (f q) = peer_generation q \<and> peer_epoch (f q) = peer_epoch q \<and> crypto (f q) = crypto q) \<Longrightarrow>
   relay_safe env (upd_peer i f s)"
  by (rule safe_upd_peer) (simp_all add: harmless_def)

lemma safe_arm: "relay_safe env s \<Longrightarrow> relay_safe env (arm_handshake i d s)"
  by (simp add: arm_handshake_def safe_keep)

lemma safe_begin_offer: "relay_safe env s \<Longrightarrow> relay_safe env (begin_offer env orig pid i s)"
  by (simp add: begin_offer_def Let_def safe_renew)

lemma safe_negotiate: "relay_safe env s \<Longrightarrow> relay_safe env (negotiate env orig pid i s)"
  by (simp add: negotiate_def send_ready_def safe_begin_offer)

lemma safe_encoder: "relay_safe env s \<Longrightarrow> relay_safe env (start_encoder orig pid i s)"
  by (simp add: start_encoder_def Let_def safe_keep split: option.split)

lemma safe_microphone: "relay_safe env s \<Longrightarrow> relay_safe env (set_microphone track s)"
  unfolding set_microphone_def
  by (rule safe_fold) (auto simp: Let_def safe_keep safe_encoder split: prod.split option.split)

lemma safe_add_peer:
  assumes "relay_safe env s" and "jget (peers s) pid = None"
  shows "relay_safe env (add_peer pid s)"
proof -
  let ?t = "s\<lparr>objects := objects s @ [new_peer\<lparr>wanted := True\<rparr>], peers := jset (peers s) pid (length (objects s))\<rparr>"
  have old: "keyed s p i" if "jget (peers s) p = Some i" for p i using assms(1) that by (simp add: relay_safe_def)
  have 1: "keyed ?t p i" if "jget (peers ?t) p = Some i" for p i
    using that old by (fastforce simp: keyed_def nth_append new_peer_def split: if_splits)
  have 2: "p = p'" if "jget (peers ?t) p = Some i" "jget (peers ?t) p' = Some i" for p p' i
    using that old assms(1) by (auto simp: relay_safe_def keyed_def split: if_splits)
  have 3: "list_all (task_safe (web env) (local_id s) (objects ?t) (set (cores s))) (tasks s)"
  proof (rule tasks_mono)
    show "list_all (task_safe (web env) (local_id s) (objects s) (set (cores s))) (tasks s)"
      using assms(1) by (simp add: relay_safe_def)
  qed (simp_all add: held_def nth_append)
  have 4: "list_all (frame_safe (web env) (local_id s) (set (cores s))) (effects s)"
    using assms(1) by (simp add: relay_safe_def)
  have "relay_safe env ?t" unfolding relay_safe_def
  proof (intro conjI allI impI)
    fix p i
    assume "jget (peers ?t) p = Some i"
    then show "keyed ?t p i" by (rule 1)
  next
    fix p p' i
    assume "jget (peers ?t) p = Some i" and "jget (peers ?t) p' = Some i"
    then show "p = p'" by (rule 2)
  qed (use 3 4 in \<open>simp_all add: cores_def\<close>)
  then show ?thesis by (simp add: add_peer_def)
qed

lemma safe_ensureD: "ensure_socket env s = (b, t) \<Longrightarrow> relay_safe env s \<Longrightarrow> relay_safe env t"
  by (auto simp: ensure_socket_def Let_def split: if_splits)

lemma safe_start: "relay_safe env s \<Longrightarrow> relay_safe env (snd (start_peer env pid s))"
proof -
  assume ok: "relay_safe env s"
  let ?t = "case jget (peers s) pid of None \<Rightarrow> add_peer pid s
     | Some i \<Rightarrow> emit_effects [On_state pid Relay_connecting []] (upd_peer i (\<lambda>q. q\<lparr>wanted := True\<rparr>) s)"
  have "relay_safe env ?t" using ok by (simp add: safe_add_peer safe_keep split: option.split)
  then have "relay_safe env u" if "ensure_socket env ?t = (b, u)" for b u
    using that by (rule safe_ensureD [rotated])
  then show ?thesis
    using ok unfolding start_peer_def Let_def
    by (cases "jget (peers ?t) pid"; cases "ensure_socket env ?t") (simp_all add: safe_negotiate split: bool.split)
qed

lemma safe_stop: "relay_safe env s \<Longrightarrow> relay_safe env (stop_peer pid s)"
  by (simp add: stop_peer_def safe_remove split: option.split)

lemma ensure_peers: "ensure_socket env s = (b, t) \<Longrightarrow> peers t = peers s \<and> objects t = objects s \<and> local_id t = local_id s"
  by (auto simp: ensure_socket_def Let_def split: if_splits)

lemma create_core: "create_session w me pid e pair key = Inr v \<Longrightarrow> session_epoch v = e \<and> local_peer v = me \<and> remote_peer v = pid"
  by (auto elim: create_sessionE)

lemma task_safe_result:
  assumes "held objs i g e"
  shows "task_safe w me objs K (Answer_session pid i g pub (create_session w me pid e pair key))"
    and "task_safe w me objs K (Accept_session pid i g (create_session w me pid e pair key))"
  using assms create_core [of w me pid e pair key] by (cases "create_session w me pid e pair key"; simp)+

lemma safe_offer:
  assumes "relay_safe env s" and "jget (peers s) pid = Some i"
  shows "relay_safe env (receive_offer env pid i e key s)"
proof -
  have "i < length (objects s)" using assms by (simp add: relay_safe_def keyed_def)
  with assms show ?thesis
    by (simp add: receive_offer_def Let_def safe_begin_offer safe_renew held_def reset_peer_def)
qed

lemma safe_answer:
  assumes "relay_safe env s" and "jget (peers s) pid = Some i"
  shows "relay_safe env (receive_answer env pid i e key s)"
proof -
  have "i < length (objects s)" using assms by (simp add: relay_safe_def keyed_def)
  with assms show ?thesis
    by (auto simp: receive_answer_def Let_def held_def peer_at_def intro!: task_safe_result split: option.split)
qed

lemma safe_kind: "relay_safe env s \<Longrightarrow> jget (peers s) pid = Some i \<Longrightarrow> relay_safe env (receive_kind env pid kind data i s)"
  by (simp add: receive_kind_def safe_begin_offer safe_offer safe_answer split: option.split json.split)

lemma add_peer_get: "jget (peers (add_peer pid s)) pid = Some (length (objects (add_peer pid s)) - 1)"
  by (simp add: add_peer_def)

lemma safe_new_signal:
  assumes "relay_safe env s" and "jget (peers s) pid = None" and "ensure_socket env (add_peer pid s) = (b, t)"
  shows "relay_safe env t" and "jget (peers t) pid = Some (length (objects t) - 1)"
  using safe_ensureD [OF assms(3) safe_add_peer [OF assms(1,2)]] ensure_peers [OF assms(3)] add_peer_get [of pid s] by simp_all

lemma safe_signal: "relay_safe env s \<Longrightarrow> relay_safe env (relay_signal env v s)"
  unfolding relay_signal_def Let_def receive_stop_def
  by (auto intro!: safe_kind safe_remove safe_rejection dest: safe_new_signal
      split: option.split json.split prod.split bool.split)

lemma current_held:
  assumes "current s pid i g" and "relay_safe env s"
  shows "jget (peers s) pid = Some i" and "keyed s pid i" and "peer_generation (objects s ! i) = g"
  using assms by (simp_all add: current_def relay_safe_def peer_at_def)

lemma safe_with_session:
  assumes safe: "relay_safe env s" and cur: "current s pid i g" and "held (objects s) i g (session_epoch v)"
    and "local_peer v = local_id s" and "remote_peer v = pid"
  shows "relay_safe env (with_session i v s)"
proof -
  note at = current_held [OF cur safe]
  let ?t = "with_session i v s"
  have pe: "peers ?t = peers s" "local_id ?t = local_id s" "tasks ?t = tasks s" "effects ?t = effects s"
      "set (cores s) \<subseteq> set (cores ?t)"
      "objects ?t = (objects s)[i := (objects s ! i)\<lparr>crypto := Some (length (voice_sessions s))\<rparr>]"
    by (auto simp: with_session_def upd_peer_def cores_def)
  show ?thesis unfolding relay_safe_def
  proof (intro conjI allI impI)
    fix p j
    assume "jget (peers ?t) p = Some j"
    then have j: "jget (peers s) p = Some j" by (simp add: pe)
    then have old: "keyed s p j" and "j = i \<longrightarrow> p = pid" using safe at(1) by (auto simp: relay_safe_def)
    then show "keyed ?t p j"
      using assms(3-) at(3) by (cases "j = i") (auto simp: keyed_def held_def with_session_def upd_peer_def nth_append)
  next
    fix p p' j
    assume "jget (peers ?t) p = Some j" and "jget (peers ?t) p' = Some j"
    then show "p = p'" using safe by (simp add: pe relay_safe_def)
  next
    have "list_all (task_safe (web env) (local_id s) (objects s) (set (cores s))) (tasks s)"
      using safe by (simp add: relay_safe_def)
    then show "list_all (task_safe (web env) (local_id ?t) (objects ?t) (set (cores ?t))) (tasks ?t)"
      unfolding pe(2,3) by (rule tasks_mono [OF _ pe(5)]) (use at(2) in \<open>auto simp: held_def keyed_def pe(6) nth_list_update\<close>)
    have "list_all (frame_safe (web env) (local_id s) (set (cores s))) (effects s)"
      using safe by (simp add: relay_safe_def)
    then show "list_all (frame_safe (web env) (local_id ?t) (set (cores ?t))) (effects ?t)"
      unfolding pe(2,4) by (rule list.pred_mono_strong) (rule frame_safe_mono [OF _ pe(5)])
  qed
qed

lemma safe_settle_handshake:
  assumes "relay_safe env s" and "task_safe (web env) (local_id s) (objects s) (set (cores s)) task"
  shows "relay_safe env (settle_handshake env task answer s)"
proof (cases task)
  case (Answer_keys pid i g e key)
  have "task_safe (web env) (local_id s) (objects (upd_peer i (\<lambda>q. q\<lparr>key_pair := x\<rparr>) s)) (set (cores s))
      (Answer_session pid i g pub (create_session (web env) (local_id s) pid e pair key))" for x pub pair
    by (rule task_safe_result) (use assms(2) Answer_keys in \<open>auto simp: held_def nth_list_update\<close>)
  then show ?thesis
    using assms(1) Answer_keys
    by (cases answer) (simp_all add: settle_handshake_def safe_rejection safe_keep cores_def)
next
  case (Answer_session pid i g pub result)
  then show ?thesis
    using assms by (cases answer; cases result)
      (simp_all add: settle_handshake_def safe_rejection safe_with_session [of env s pid i g])
next
  case (Accept_session pid i g result)
  then show ?thesis
    using assms by (cases answer; cases result)
      (simp_all add: settle_handshake_def safe_rejection safe_with_session [of env s pid i g])
qed (use assms(1) in \<open>cases answer; simp add: settle_handshake_def safe_rejection safe_arm safe_keep\<close>)+

lemma safe_settle_codec: "relay_safe env s \<Longrightarrow> relay_safe env (settle_codec task answer s)"
  by (cases task; cases answer)
    (simp_all add: settle_codec_def safe_rejection safe_encoder safe_arm safe_keep)

lemma core_simps [simp]:
  "core (v\<lparr>send_sequence := n\<rparr>) = core v" "core (v\<lparr>received_sequence := q\<rparr>) = core v"
  by (simp_all add: core_def)

lemma safe_sessions_upd:
  assumes "relay_safe env s" and "core v = core (voice_sessions s ! c)"
  shows "relay_safe env (s\<lparr>voice_sessions := (voice_sessions s)[c := v]\<rparr>)" and
    "cores (s\<lparr>voice_sessions := (voice_sessions s)[c := v]\<rparr>) = cores s"
proof -
  let ?t = "s\<lparr>voice_sessions := (voice_sessions s)[c := v]\<rparr>"
  show cores: "cores ?t = cores s" using map_update_same [OF assms(2)] by (simp add: cores_def)
  have same: "core ((voice_sessions s)[c := v] ! d) = core (voice_sessions s ! d)" for d
    using assms(2) by (cases "d = c"; cases "c < length (voice_sessions s)") (simp_all add: list_update_beyond)
  have "keyed ?t p j" if "keyed s p j" for p j
    using that same by (auto simp: keyed_def core_def)
  with assms(1) cores show "relay_safe env ?t" by (auto simp: relay_safe_def)
qed

lemma encrypt_core:
  assumes "encrypt_packet w packet v = (r, v')"
  shows "core v' = core v" and "r = Inr (n, data) \<Longrightarrow> core v \<in> K \<Longrightarrow> sealed w K (local_peer v) (remote_peer v) (session_epoch v) n data"
  using assms by (auto simp: encrypt_packet_eq Let_def core_def sealed_def packet_ok_def not_le [symmetric]
      split: if_splits sum.splits)

lemma safe_bitrate: "relay_safe env s \<Longrightarrow> relay_safe env (change_bitrate i r s)"
  by (simp add: change_bitrate_def safe_keep split: option.split)

lemma bitrate_fields:
  "peers (change_bitrate i r s) = peers s" "local_id (change_bitrate i r s) = local_id s"
  "voice_sessions (change_bitrate i r s) = voice_sessions s"
  by (simp_all add: change_bitrate_def)

lemma held_current:
  assumes "keyed s pid i" and "crypto (peer_at s i) = Some c"
  shows "held (objects s) i (peer_generation (peer_at s i)) (session_epoch (voice_sessions s ! c)) \<and>
    local_peer (voice_sessions s ! c) = local_id s \<and> remote_peer (voice_sessions s ! c) = pid \<and>
    core (voice_sessions s ! c) \<in> set (cores s)"
  using assms by (auto simp: keyed_def held_def peer_at_def cores_def)

lemma safe_start_encrypting:
  assumes safe: "relay_safe env s" and map: "jget (peers s) pid = Some i" and c: "crypto (peer_at s i) = Some c"
    and g: "peer_generation (peer_at s i) = g"
  shows "relay_safe env (start_encrypting env pid i g k c packet t b s)"
proof -
  obtain result v where enc: "encrypt_packet (web env) packet (voice_sessions s ! c) = (result, v)" by fastforce
  have "keyed s pid i" using safe map by (simp add: relay_safe_def)
  note held = held_current [OF this c, unfolded g]
  note upd = safe_sessions_upd [OF safe encrypt_core(1) [OF enc]]
  let ?u = "upd_peer i (\<lambda>q. q\<lparr>encrypting := Suc (encrypting q)\<rparr>) (s\<lparr>voice_sessions := (voice_sessions s)[c := v]\<rparr>)"
  have safe': "relay_safe env ?u" by (rule safe_keep [OF upd(1)]) simp
  have cores: "cores ?u = cores s" using upd(2) by (simp add: cores_def)
  have "held (objects ?u) i g (session_epoch (voice_sessions s ! c))"
    using held by (auto simp: held_def nth_list_update)
  moreover have "sealed (web env) (set (cores s)) (local_id s) pid (session_epoch (voice_sessions s ! c)) n data"
    if "result = Inr (n, data)" for n data
    using encrypt_core(2) [OF enc that] held by simp
  ultimately show ?thesis using safe' cores enc by (cases result) (auto simp: start_encrypting_def)
qed

lemma safe_send: "relay_safe env s \<Longrightarrow> relay_safe env (send_packet env pid i g packet t s)"
proof (cases "current s pid i g")
  case True
  assume safe: "relay_safe env s"
  have map: "jget (peers s) pid = Some i" and g: "peer_generation (peer_at s i) = g"
    using True by (simp_all add: current_def)
  have same: "crypto (peer_at (change_bitrate i r s) i) = crypto (peer_at s i) \<and>
      peer_generation (peer_at (change_bitrate i r s) i) = peer_generation (peer_at s i)" for r
    by (cases "i < length (objects s)") (simp_all add: change_bitrate_def peer_at_def list_update_beyond)
  show ?thesis
    using safe map g same
    by (simp add: send_packet_def Let_def safe_bitrate safe_start_encrypting bitrate_fields split: option.split)
qed (simp add: send_packet_def split: option.split)

lemma safe_end:
  "relay_safe env s \<Longrightarrow> relay_safe env (end_encrypting i s)" "relay_safe env s \<Longrightarrow> relay_safe env (end_decrypting i s)"
  by (simp_all add: end_encrypting_def end_decrypting_def safe_keep)

lemma safe_send_frame:
  assumes "relay_safe env s" and "held (objects s) i g e" and "sealed (web env) (set (cores s)) (local_id s) pid e n data"
  shows "relay_safe env (send_frame pid i g k q b (n, data) t s)"
proof (cases "current s pid i g")
  case True
  then have "peer_epoch (peer_at s i) = Some e"
    using assms(2) by (auto simp: current_def held_def peer_at_def)
  with assms(1,3) show ?thesis by (simp add: send_frame_def)
qed (simp add: send_frame_def assms(1))

lemma safe_deliver: "relay_safe env s \<Longrightarrow> relay_safe env (deliver pid i g n packet s)"
  by (simp add: deliver_def expose_def safe_fail safe_keep split: option.split)

lemma safe_finish: "relay_safe env s \<Longrightarrow> relay_safe env (finish_decryption pid i g c job s)"
proof -
  assume safe: "relay_safe env s"
  have "core (snd (decrypt_finish n result v)) = core v" for n result v
    by (simp add: decrypt_finish_def split: option.split)
  then have "relay_safe env (s\<lparr>voice_sessions := (voice_sessions s)[c := v]\<rparr>)"
    if "decrypt_finish n result (voice_sessions s ! c) = (r, v)" for n result r v
    using that safe_sessions_upd(1) [OF safe] by (metis snd_conv)
  with safe show ?thesis
    by (auto simp: finish_decryption_def safe_fail intro!: safe_deliver split: decryption.split prod.split sum.split option.split)
qed

lemma safe_settle_packet:
  assumes "relay_safe env s" and "task_safe (web env) (local_id s) (objects s) (set (cores s)) task"
  shows "relay_safe env (settle_packet task answer s)"
proof (cases task)
  case (Encrypted pid i g k q b result)
  then show ?thesis
    using assms by (cases answer; cases result)
      (auto simp: settle_packet_def safe_fail intro!: safe_end intro: safe_send_frame)
next
  case (Decrypted pid i g c job)
  then show ?thesis
    using assms(1) by (cases answer) (simp_all add: settle_packet_def safe_end safe_fail safe_finish)
qed (use assms(1) in \<open>simp_all add: settle_packet_def\<close>)

lemma safe_settle: "relay_safe env s \<Longrightarrow> relay_safe env (settle_task env n answer s)"
proof (cases "n < length (tasks s) \<and> answers (tasks s ! n) answer")
  case True
  assume safe: "relay_safe env s"
  let ?t = "s\<lparr>tasks := take n (tasks s) @ drop (Suc n) (tasks s)\<rparr>"
  have "relay_safe env ?t"
    using safe by (auto simp: relay_safe_def keyed_def cores_def list_all_iff dest: in_set_takeD in_set_dropD)
  moreover have "task_safe (web env) (local_id ?t) (objects ?t) (set (cores ?t)) (tasks s ! n)"
    using safe True by (simp add: relay_safe_def cores_def list_all_length)
  ultimately show ?thesis
    using conjunct1 [OF True] conjunct2 [OF True] by (cases "tasks s ! n")
      (simp_all add: settle_task_def Let_def safe_settle_handshake safe_settle_codec safe_settle_packet del: answers.simps)
qed (auto simp: settle_task_def)

lemma safe_receive: "relay_safe env s \<Longrightarrow> relay_safe env (receive_packet env v s)"
  by (simp add: receive_packet_def Let_def safe_keep split: option.split json.split)

lemma safe_message: "relay_safe env s \<Longrightarrow> relay_safe env (socket_message env k raw s)"
  by (simp add: socket_message_def Let_def safe_receive split: option.split json.split bool.split)

lemma safe_lose: "relay_safe env s \<Longrightarrow> relay_safe env (lose_peer e s)"
  by (auto simp: lose_peer_def intro!: safe_keep safe_reset split: prod.split)

lemma safe_closes: "relay_safe env s \<Longrightarrow> relay_safe env (socket_closes k s)"
  by (simp add: socket_closes_def Let_def retry_socket_def safe_remove_all safe_fold safe_lose frameless_safe frameless_def)

lemma safe_timers:
  assumes "relay_safe env s"
  shows "relay_safe env (relay_timer_fires env t s)" and "relay_safe env (handshake_fires env pid i s)"
  using assms by (auto simp: relay_timer_fires_def handshake_fires_def Let_def safe_keep safe_remove
      intro!: safe_fold safe_negotiate elim!: safe_ensureD split: prod.split bool.split)

lemma safe_step: "relay_safe env s \<Longrightarrow> relay_safe env (relay_step env s e)"
  by (cases e) (simp_all add: safe_microphone safe_start safe_stop safe_signal safe_settle safe_send safe_fail
      safe_message safe_closes safe_timers safe_dispose on_object_def on_relay_socket_def
      socket_opens_def connect_timer_fires_def heartbeat_fires_def Let_def split: option.split)

interpretation sealed_frames: event_machine "relay_step env" "relay_safe env" for env
  by unfold_locales (rule safe_step)

text \<open>
  C4. Voice leaves the device only sealed: every frame the relay ever sent is labelled with
  the epoch of one of its sessions, addressed to the peer that session is with, and its data
  is that session's AES-GCM ciphertext under the nonce of the frame's sequence, bound to both
  peers and the epoch. No stale answer, late packet or change of peer breaks this.
\<close>

theorem voice_frames_sealed:
  assumes "new_relay me = Some s0" and "s = foldl (relay_step env) s0 es"
    and "Frame k pid epoch n data \<in> set (effects s)"
  shows "\<exists>v\<in>set (voice_sessions s). epoch = Some (session_epoch v) \<and> local_peer v = local_id s \<and> remote_peer v = pid \<and>
    (\<exists>packet iv. packet_ok packet \<and> voice_nonce (send_prefix v) n = Inr iv \<and>
       data = bytes_to_base64 (web env) (gcm_seal (web env) (send_key v) iv
         (voice_aad (web env) (local_id s) pid (session_epoch v) n) packet))"
proof -
  have "relay_safe env s0" using assms(1) by (auto simp: new_relay_def relay_safe_def split: option.splits)
  then have "relay_safe env s" unfolding assms(2) by (rule sealed_frames.run_inv)
  then have "frame_safe (web env) (local_id s) (set (cores s)) (Frame k pid epoch n data)"
    using assms(3) unfolding relay_safe_def list_all_iff by blast
  then obtain x where x: "epoch = Some x" "sealed (web env) (set (cores s)) (local_id s) pid x n data" by auto
  then obtain v packet iv where "v \<in> set (voice_sessions s)" "core v = (x, local_id s, pid, send_key v, send_prefix v)"
      "packet_ok packet" "voice_nonce (send_prefix v) n = Inr iv"
      "data = bytes_to_base64 (web env) (gcm_seal (web env) (send_key v) iv
         (voice_aad (web env) (local_id s) pid x n) packet)"
    by (auto simp: sealed_def cores_def core_def)
  with x(1) show ?thesis by (intro bexI [of _ v]) (auto simp: core_def)
qed

section \<open>Disposal\<close>

definition quiet_effect :: "relay_effect \<Rightarrow> bool" where
  "quiet_effect f = (case f of Dispose_encoder _ \<Rightarrow> True | Dispose_decoder _ \<Rightarrow> True | Close_socket _ \<Rightarrow> True | _ \<Rightarrow> False)"

text \<open>A disposed relay that has \<open>m\<close> sockets and has only cleaned up since its \<open>n\<close>th effect.\<close>

definition gone_since :: "nat \<Rightarrow> nat \<Rightarrow> ('p, 'k) voice_relay \<Rightarrow> bool" where
  "gone_since n m s \<longleftrightarrow> relay_disposed s \<and> peers s = [] \<and> relay_socket s = None \<and> heartbeat s = None \<and>
     length (relay_sockets s) = m \<and> list_all (\<lambda>g. g < socket_generation s) (map opened_as (relay_sockets s)) \<and>
     n \<le> length (effects s) \<and> list_all quiet_effect (drop n (effects s))"

lemma gone_simps [simp]:
  "gone_since n m (await t s) = gone_since n m s" "gone_since n m (upd_peer i f s) = gone_since n m s"
  "gone_since n m (s\<lparr>counter := c\<rparr>) = gone_since n m s" "gone_since n m (s\<lparr>microphone := mi\<rparr>) = gone_since n m s"
  "gone_since n m (s\<lparr>voice_sessions := vs\<rparr>) = gone_since n m s" "gone_since n m (s\<lparr>tasks := ts\<rparr>) = gone_since n m s"
  "gone_since n m (s\<lparr>relay_ping := r\<rparr>) = gone_since n m s" "gone_since n m (s\<lparr>relay_timer := rt\<rparr>) = gone_since n m s"
  "gone_since n m (s\<lparr>live_timers := lt\<rparr>) = gone_since n m s"
  by (simp_all add: gone_since_def await_def upd_peer_def)

lemma disposed_fields [simp]:
  "relay_disposed (upd_relay_socket k g s) = relay_disposed s" "peers (upd_relay_socket k g s) = peers s"
  "relay_disposed (upd_peer i f s) = relay_disposed s"
  by (simp_all add: upd_relay_socket_def upd_peer_def)

lemma gone_emit [simp]: "gone_since n m s \<Longrightarrow> list_all quiet_effect es \<Longrightarrow> gone_since n m (emit_effects es s)"
  by (simp add: gone_since_def emit_effects_def)

lemma gone_sockets [simp]:
  "gone_since n m s \<Longrightarrow> (\<And>r. opened_as (g r) = opened_as r) \<Longrightarrow> gone_since n m (upd_relay_socket k g s)"
  by (simp add: gone_since_def upd_relay_socket_def map_update_same)

lemma gone_close [simp]: "gone_since n m s \<Longrightarrow> gone_since n m (close_socket k s)"
  by (simp add: close_socket_def quiet_effect_def)

lemma gone_fields:
  assumes "gone_since n m s"
  shows "peers s = []" "relay_socket s = None" "heartbeat s = None" "relay_disposed s" "\<not> current s pid i g"
    "fail_peer pid i e s = s" "remove_peer pid e s = s" "on_rejection orig pid i e s = s" "ensure_socket env s = (False, s)"
    "k < m \<Longrightarrow> opened_as (relay_sockets s ! k) \<noteq> socket_generation s"
  using assms by (auto simp: gone_since_def current_def fail_peer_def remove_peer_def on_rejection_def
      ensure_socket_def list_all_length split: option.split)

lemma gone_step:
  assumes gone: "gone_since n m s"
  shows "gone_since n m (relay_step env s e)"
proof (cases e)
  case (Settle_task j answer)
  let ?t = "s\<lparr>tasks := take j (tasks s) @ drop (Suc j) (tasks s)\<rparr>"
  have t: "gone_since n m ?t" using gone by simp
  note f = gone_fields [OF this]
  have "gone_since n m (settle_handshake env task answer ?t)" for task
    using t by (cases task; cases answer) (simp_all add: settle_handshake_def f arm_handshake_def split: sum.split)
  moreover have "gone_since n m (settle_codec task answer ?t)" for task
  proof (cases "\<exists>orig pid i g track token e. task = Encoder_made orig pid i g track token \<and> answer = Rejected e")
    case True
    then show ?thesis using t gone_fields(8) [OF t] gone_fields(8) [of n m "upd_peer i g ?t" for i g]
      by (auto simp: settle_codec_def)
  qed (use t in \<open>cases task; cases answer; simp add: settle_codec_def f quiet_effect_def\<close>)
  moreover have "gone_since n m (settle_packet task answer ?t)" for task
  proof -
    have "gone_since n m (finish_decryption pid i g c job ?t)" for pid i g c job
    proof -
      have "\<not> current (?t\<lparr>voice_sessions := vs\<rparr>) pid i g" for vs using f(5) by (simp add: current_def peer_at_def)
      then show ?thesis using t f
        by (simp add: finish_decryption_def deliver_def split: decryption.split prod.split sum.split option.split)
    qed
    then show ?thesis using t
      by (cases task; cases answer)
        (simp_all add: settle_packet_def f end_encrypting_def end_decrypting_def send_frame_def split: sum.split)
  qed
  ultimately show ?thesis using gone Settle_task by (simp add: settle_task_def Let_def split: relay_task.split)
next
  case (Socket_sends k raw)
  then show ?thesis
    using gone gone_fields [OF gone] by (auto simp: on_relay_socket_def socket_message_def gone_since_def split: option.split)
next
  case (Relay_timer t)
  let ?t = "s\<lparr>live_timers := jdel (live_timers s) t, relay_timer := None\<rparr>"
  have "gone_since n m ?t" using gone by simp
  then show ?thesis using gone gone_fields [of n m ?t] Relay_timer by (simp add: relay_timer_fires_def)
next
  case (Socket_closes k)
  have "gone_since n m (upd_relay_socket k (\<lambda>r. r\<lparr>phase_of := Socket_closed, connect_timer := False\<rparr>) s)" (is "gone_since n m ?u")
    using gone by simp
  then have "opened_as (relay_sockets ?u ! k) \<noteq> socket_generation ?u" if "k < length (relay_sockets s)"
    using gone_fields(10) [of n m ?u k] that gone by (simp add: gone_since_def)
  with gone Socket_closes show ?thesis by (simp add: on_relay_socket_def socket_closes_def Let_def)
qed (use gone gone_fields [OF gone] in \<open>simp_all add: set_microphone_def start_peer_def stop_peer_def relay_signal_def
      on_object_def on_relay_socket_def send_packet_def socket_opens_def connect_timer_fires_def heartbeat_fires_def
      handshake_fires_def dispose_relay_def Let_def split: option.split json.split\<close>)

interpretation gone: event_machine "relay_step env" "gone_since n m" for env n m
  by unfold_locales (rule gone_step)

lemma remove_peer_fields:
  "peers (remove_peer pid m s) = jdel (peers s) pid" "relay_disposed (remove_peer pid m s) = relay_disposed s"
  "heartbeat s = None \<Longrightarrow> heartbeat (remove_peer pid m s) = None"
proof -
  have drop: "peers (drop_socket t) = peers t" "relay_disposed (drop_socket t) = relay_disposed t"
    "heartbeat (drop_socket t) = heartbeat t" for t :: "('p, 'k) voice_relay"
    by (simp_all add: drop_socket_def close_socket_def upd_relay_socket_def emit_effects_def Let_def split: option.split)
  have clear: "peers (clear_relay_timer t) = peers t" "relay_disposed (clear_relay_timer t) = relay_disposed t"
    for t :: "('p, 'k) voice_relay" by (simp_all add: clear_relay_timer_def split: option.split)
  have reset: "relay_disposed (reset_media pid i t) = relay_disposed t" "heartbeat (reset_media pid i t) = heartbeat t"
    for i and t :: "('p, 'k) voice_relay" by (simp_all add: reset_media_def upd_peer_def emit_effects_def Let_def)
  have emit: "relay_disposed (emit_effects es t) = relay_disposed t" "heartbeat (emit_effects es t) = heartbeat t"
    for es and t :: "('p, 'k) voice_relay" by (simp_all add: emit_effects_def)
  have absent: "jget (peers s) pid = None \<Longrightarrow> jdel (peers s) pid = peers s" by (simp add: jdel_absent jget_None_iff)
  show "peers (remove_peer pid m s) = jdel (peers s) pid" "relay_disposed (remove_peer pid m s) = relay_disposed s"
    by (simp_all add: remove_peer_def Let_def drop clear reset emit absent split: option.split)
  show "heartbeat s = None \<Longrightarrow> heartbeat (remove_peer pid m s) = None"
    by (simp add: remove_peer_def Let_def drop clear reset emit upd_peer_def split: option.split)
qed

lemma remove_all_fields:
  "peers (remove_all m s) = []" "relay_disposed (remove_all m s) = relay_disposed s"
  "heartbeat s = None \<Longrightarrow> heartbeat (remove_all m s) = None"
proof -
  have "peers (fold (\<lambda>pid. remove_peer pid m) ks s) = fold (\<lambda>k m. jdel m k) ks (peers s)" for ks
    by (induction ks arbitrary: s) (simp_all add: remove_peer_fields)
  then have "jkeys (peers (remove_all m s)) = []"
    by (simp add: remove_all_def js.keys_fold_del)
  then show "peers (remove_all m s) = []" by (cases "peers (remove_all m s)") simp_all
  show "relay_disposed (remove_all m s) = relay_disposed s"
    unfolding remove_all_def by (rule fold_invariant [where P = "\<lambda>t. relay_disposed t = relay_disposed s" and Q = "\<lambda>_. True"])
      (simp_all add: remove_peer_fields)
  show "heartbeat s = None \<Longrightarrow> heartbeat (remove_all m s) = None"
    unfolding remove_all_def by (rule fold_invariant [where P = "\<lambda>t. heartbeat t = None" and Q = "\<lambda>_. True"])
      (simp_all add: remove_peer_fields)
qed

lemma drop_socket_gone:
  assumes "relay_bounds s" and "relay_disposed s" and "peers s = []" and "heartbeat s = None"
  shows "gone_since (length (effects (drop_socket s))) (length (relay_sockets (drop_socket s))) (drop_socket s)"
  using assms by (simp add: drop_socket_def close_socket_def upd_relay_socket_def emit_effects_def Let_def gone_since_def
      relay_bounds_def map_update_same less_Suc_eq_le split: option.split)

text \<open>
  Disposal is final: after \<open>dispose\<close>, whatever signals, packets, timers, socket events
  and answers still arrive, and whatever is called, the relay has no peer and no socket and
  opens none; it sends nothing, exposes no track and calls no state callback again: all it
  still does is close old sockets and dispose of codecs that were under construction.
\<close>

theorem disposed_relay_is_silent:
  assumes "new_relay me = Some s0" and "r = foldl (relay_step env) s0 es" and "\<not> relay_disposed r"
    and "t = foldl (relay_step env) (dispose_relay r) later"
  shows "peers t = [] \<and> relay_socket t = None \<and>
    length (relay_sockets t) = length (relay_sockets (dispose_relay r)) \<and>
    list_all quiet_effect (drop (length (effects (dispose_relay r))) (effects t))"
proof -
  have "relay_bounds s0" using assms(1) by (auto simp: new_relay_def relay_bounds_def split: option.splits)
  then have "relay_bounds r" unfolding assms(2) by (rule bounded.run_inv)
  then have "relay_bounds (remove_all ''Voice relay disposed'' ((clear_relay_timer (r\<lparr>relay_disposed := True\<rparr>))\<lparr>heartbeat := None\<rparr>))"
    (is "relay_bounds ?u") by (simp add: bounds_remove_all bounds_clear)
  moreover have "relay_disposed ?u"
    by (simp add: remove_all_fields clear_relay_timer_def split: option.split)
  ultimately have "gone_since (length (effects (drop_socket ?u))) (length (relay_sockets (drop_socket ?u))) (drop_socket ?u)"
    by (intro drop_socket_gone) (simp_all add: remove_all_fields)
  then have "gone_since (length (effects (dispose_relay r))) (length (relay_sockets (dispose_relay r))) (dispose_relay r)"
    using assms(3) by (simp add: dispose_relay_def)
  from gone.run_inv [OF this, of env later] show ?thesis unfolding assms(4) by (simp add: gone_since_def)
qed

section \<open>Concrete runs\<close>

definition toy_env :: "int \<Rightarrow> (octet, octet) relay_env" where
  "toy_env order = \<lparr>web = toy_crypto, locale_compare = (\<lambda>a b. order), random_epoch = (\<lambda>n. ''e''), socket_address = True\<rparr>"

definition toy_relay :: "string \<Rightarrow> (octet, octet) voice_relay" where
  "toy_relay me = (case new_relay me of Some s \<Rightarrow> s)"

lemma toy_relay_new: "new_relay ''a'' = Some (toy_relay ''a'')"
  by (simp add: toy_relay_def new_relay_def valid_peer_def)

lemmas relay_eval =
  toy_relay_def toy_env_def new_relay_def valid_peer_def start_peer_def stop_peer_def add_peer_def emit_effects_def jhas_def
  ensure_socket_def negotiate_def initiator_def send_ready_def await_def Let_def begin_offer_def upd_peer_def
  reset_media_def disposals_def reset_peer_def retire_def remove_peer_def jdel_def clear_relay_timer_def drop_socket_def
  close_socket_def upd_relay_socket_def peer_at_def new_peer_def socket_closes_def retry_socket_def lose_peer_def
  relay_delay_def relay_timer_fires_def connect_timer_fires_def socket_opens_def on_relay_socket_def socket_is_open_def

theorem disposed_relay_is_silent_witness:
  "peers (foldl (relay_step (toy_env 1)) (dispose_relay (foldl (relay_step (toy_env 1)) (toy_relay ''a'') [Start ''b'']))
     [Settle_task 0 (Done 0), Start ''c'']) = []"
proof -
  have "\<not> relay_disposed (foldl (relay_step (toy_env 1)) (toy_relay ''a'') [Start ''b''])" by (simp add: relay_eval)
  from disposed_relay_is_silent [OF toy_relay_new refl this refl] show ?thesis by blast
qed

text \<open>
  A retry timer can outlive its relay's peers: when the socket is lost twice and a peer
  was started between the losses, the second loss overwrites the handle of the first timer,
  so the removal of the last peer cancels only the second. When the first fires, the relay
  opens a socket although nobody is left to talk to, and nothing closes it.
\<close>

theorem orphan_timer_reopens_socket:
  "let s = foldl (relay_step (toy_env 1)) (toy_relay ''a'')
     [Start ''b'', Socket_closes 0, Start ''c'', Socket_closes 1, Stop_relay ''b'', Stop_relay ''c'', Relay_timer 0,
      Connect_timer 1, Socket_opens 2]
   in peers s = [] \<and> \<not> relay_disposed s \<and> relay_socket s = Some 2 \<and> socket_is_open s 2 \<and> relay_attempts s = 2 \<and>
     live_timers s = [] \<and> list_all (\<lambda>f. f \<noteq> Close_socket 2) (effects s)"
  by (simp add: relay_eval)

theorem voice_relay_bounded_witness:
  "let s = foldl (relay_step (toy_env 1)) (toy_relay ''a'') [Start ''b'', Socket_closes 0, Start ''c'', Socket_closes 1]
   in length (peers s) = 2 \<and> retry_delays s = [250, 500] \<and> (\<exists>n\<le>3. retry_delays s = take n [250, 500, 1000])"
proof -
  let ?s = "foldl (relay_step (toy_env 1)) (toy_relay ''a'') [Start ''b'', Socket_closes 0, Start ''c'', Socket_closes 1]"
  have "length (peers ?s) = 2" "retry_delays ?s = [250, 500]" by (simp_all add: relay_eval retry_delays_def)
  moreover from voice_relay_bounded [OF toy_relay_new refl]
  have "\<exists>n\<le>3. retry_delays ?s = take n [250, 500, 1000]" by blast
  ultimately show ?thesis by (simp add: Let_def)
qed

text \<open>A call of two peers, up to the first frame.\<close>

definition toy_call :: "octet relay_event list" where
  "toy_call = [Start ''b'', Settle_task 0 (Key_pair 3 (snd (toy_pair 3))), Settle_task 0 (Done 0),
     Room_signal (Obj [(''type'', Str ''signal''), (''transport'', Str ''voice-relay''), (''from'', Str ''b''),
       (''data'', Obj [(''kind'', Str ''answer''), (''epoch'', Str ''e''), (''publicKey'', Str (snd (toy_pair 5)))])]),
     Settle_task 0 (Done 0), Settle_task 0 (Codec 7), Socket_opens 0, Packet ''b'' 0 1 [1, 2] 0, Settle_task 0 (Done 5)]"

lemmas call_eval = relay_eval settle_task_def settle_handshake_def settle_codec_def settle_packet_def current_def
  arm_handshake_def relay_signal_def receive_kind_def receive_answer_def with_session_def start_encoder_def
  send_packet_def start_encrypting_def buffer_budget_def max_buffered_bytes_def max_crypto_jobs_def normal_bitrate_def
  on_object_def end_encrypting_def send_frame_def

lemma toy_call_frame:
  "\<exists>data. Frame 0 ''b'' (Some ''e'') 0 data \<in> set (effects (foldl (relay_step (toy_env (- 1))) (toy_relay ''a'') toy_call))"
proof -
  have pair: "(3, snd (toy_pair 3)) = toy_pair 3" by (simp add: toy_pair_def)
  have created: "create_session toy_crypto ''a'' ''b'' ''e'' (3, snd (toy_pair 3)) (snd (toy_pair 5)) =
      Inr (toy_session ''a'' ''b'' 3 5)" unfolding pair by (rule toy_created)
  obtain data v where "encrypt_packet toy_crypto [1, 2] (toy_session ''a'' ''b'' 3 5) = (Inr (0, data), v)"
    using decrypt_encrypted [OF toy_laws toy_opposite, of "[1, 2]"] by (auto simp: toy_sequences packet_ok_def)
  then show ?thesis by (simp add: toy_call_def call_eval created)
qed

definition toy_end :: "(octet, octet) voice_relay" where
  "toy_end = foldl (relay_step (toy_env (- 1))) (toy_relay ''a'') toy_call"

theorem voice_frames_sealed_witness:
  "\<exists>data. \<exists>v\<in>set (voice_sessions toy_end). Some ''e'' = Some (session_epoch v) \<and>
     local_peer v = local_id toy_end \<and> remote_peer v = ''b'' \<and>
     (\<exists>packet iv. packet_ok packet \<and> voice_nonce (send_prefix v) 0 = Inr iv \<and>
        data = bytes_to_base64 (web (toy_env (- 1))) (gcm_seal (web (toy_env (- 1))) (send_key v) iv
          (voice_aad (web (toy_env (- 1))) (local_id toy_end) ''b'' (session_epoch v) 0) packet))"
proof -
  obtain data where "Frame 0 ''b'' (Some ''e'') 0 data \<in> set (effects toy_end)"
    using toy_call_frame unfolding toy_end_def by blast
  from voice_frames_sealed [OF toy_relay_new toy_end_def this] show ?thesis by blast
qed

text \<open>
  An answer nobody asked for, from a peer that is not yet known, makes that peer and then
  stops: no negotiation is started and no timer is armed for it, so it keeps one of the
  eight places until its sender stops it.
\<close>

theorem unsolicited_answer_takes_a_place:
  assumes "\<not> relay_disposed s" and "jget (peers s) pid = None" and "length (peers s) < 8" and "relay_socket s \<noteq> None"
    and "valid_peer (Some (Str pid)) = Some pid" and "pid \<noteq> local_id s"
    and "v = Obj [(''type'', Str ''signal''), (''transport'', Str ''voice-relay''), (''from'', Str pid),
      (''data'', Obj [(''kind'', Str ''answer'')])]"
  shows "jget (peers (relay_signal env v s)) pid = Some (length (objects s)) \<and>
    handshake_timer (objects (relay_signal env v s) ! length (objects s)) = None \<and>
    tasks (relay_signal env v s) = tasks s"
  using assms by (simp add: relay_signal_def Let_def ensure_socket_def add_peer_def receive_kind_def new_peer_def
      emit_effects_def)

theorem unsolicited_answer_takes_a_place_witness:
  "handshake_timer (objects (relay_signal (toy_env 1) (Obj [(''type'', Str ''signal''), (''transport'', Str ''voice-relay''),
     (''from'', Str ''c''), (''data'', Obj [(''kind'', Str ''answer'')])])
     (foldl (relay_step (toy_env 1)) (toy_relay ''a'') [Start ''b''])) ! 1) = None"
proof -
  let ?s = "foldl (relay_step (toy_env 1)) (toy_relay ''a'') [Start ''b'']"
  have s: "\<not> relay_disposed ?s" "jget (peers ?s) ''c'' = None" "length (peers ?s) < 8" "relay_socket ?s \<noteq> None"
      "valid_peer (Some (Str ''c'')) = Some ''c''" "''c'' \<noteq> local_id ?s" "length (objects ?s) = 1"
    by (simp_all add: relay_eval)
  from unsolicited_answer_takes_a_place [OF s(1-6) refl, of "toy_env 1"] show ?thesis unfolding s(7) by blast
qed

end
