(* ===== verification/ActivityStore.thy ===== *)
theory ActivityStore
  imports Api
begin

text \<open>
  The store of a channel's activities (\<open>features/activities/activityStore.ts\<close>).

  What \<open>createChannelActivityStore\<close> closes over is the record \<open>activity_store\<close>. A
  reconciliation is an object that its own loop and the variable \<open>reconciliation\<close> share, so
  the objects are listed and named by their index; \<open>waiting\<close> says that the loop is at its
  await. A mount is a call of \<open>start\<close>, with what its \<open>stop\<close> and its presence callback keep;
  its timer and subscriptions live until it is stopped. The \<open>log\<close> records the calls of
  \<open>load\<close>, the requests and the publications, in order.
\<close>

section \<open>State\<close>

record activities =
  polls :: "json list"
  planned_events :: "json list"
  assets :: "json list"
  watch :: json

definition empty_activities :: activities where
  "empty_activities = \<lparr>polls = [], planned_events = [], assets = [], watch = Null\<rparr>"

record reconciliation =
  batch_generation :: nat
  batch_controller :: nat
  queued :: bool
  waiting :: bool

record mount =
  mount_generation :: nat
  mount_controller :: nat
  stopped :: bool
  seen_presence :: "nat \<times> nat"

datatype activity_log = Load_called | Requested nat | Published nat

record activity_store =
  shown_activities :: activities
  loading :: bool
  activity_error :: string
  received_at :: int
  activity_listeners :: "nat list"
  active :: bool
  generation :: nat
  current_batch :: "nat option"
  controller :: "nat option"
  aborted :: "nat list"
  controllers :: nat
  batches :: "reconciliation list"
  mounts :: "mount list"
  stop_current :: "nat option"
  listener_calls :: "nat list"
  log :: "activity_log list"

definition new_activity_store :: "int \<Rightarrow> activity_store" where
  "new_activity_store now = \<lparr>shown_activities = empty_activities, loading = True, activity_error = [],
     received_at = now, activity_listeners = [], active = False, generation = 0, current_batch = None,
     controller = None, aborted = [], controllers = 0, batches = [], mounts = [], stop_current = None,
     listener_calls = [], log = []\<rparr>"

definition update_store :: "(activity_store \<Rightarrow> activity_store) \<Rightarrow> activity_store \<Rightarrow> activity_store" where
  "update_store patch s =
     (if \<not> active s then s
      else let s = patch s in s\<lparr>listener_calls := listener_calls s @ activity_listeners s\<rparr>)"

definition is_current :: "activity_store \<Rightarrow> nat \<Rightarrow> bool" where
  "is_current s b \<longleftrightarrow> active s \<and> generation s = batch_generation (batches s ! b) \<and>
     controller s = Some (batch_controller (batches s ! b)) \<and> batch_controller (batches s ! b) \<notin> set (aborted s)"

definition set_batch :: "nat \<Rightarrow> (reconciliation \<Rightarrow> reconciliation) \<Rightarrow> activity_store \<Rightarrow> activity_store" where
  "set_batch b f s = s\<lparr>batches := (batches s)[b := f (batches s ! b)]\<rparr>"

section \<open>Loading\<close>

definition load_activities :: "activity_store \<Rightarrow> activity_store" where
  "load_activities s =
     (let s = s\<lparr>log := log s @ [Load_called]\<rparr>
      in case controller s of
           None \<Rightarrow> s
         | Some c \<Rightarrow>
             if \<not> active s \<or> c \<in> set (aborted s) then s
             else case (case current_batch s of None \<Rightarrow> None | Some b \<Rightarrow> if is_current s b then Some b else None) of
                 Some b \<Rightarrow> set_batch b (\<lambda>r. r\<lparr>queued := True\<rparr>) s
               | None \<Rightarrow>
                   let b = length (batches s)
                   in s\<lparr>batches := batches s @ [\<lparr>batch_generation = generation s, batch_controller = c,
                          queued = False, waiting = True\<rparr>],
                        current_batch := Some b, log := log s @ [Requested b]\<rparr>)"

text \<open>One round of the loop of \<open>reconcile\<close>: the answer (or the abort) that ended its await.\<close>

definition apply_answer :: "nat \<Rightarrow> api_error + activities \<Rightarrow> int \<Rightarrow> activity_store \<Rightarrow> activity_store" where
  "apply_answer b result now s =
     (if \<not> is_current s b then s
      else case result of
          Inr d \<Rightarrow>
            if queued (batches s ! b) then s
            else update_store (\<lambda>s. s\<lparr>shown_activities := d, activity_error := [], loading := False,
                   received_at := now, log := log s @ [Published b]\<rparr>) s
        | Inl e \<Rightarrow>
            let removed = (has_status e 401 \<or> has_status e 403 \<or> has_status e 404)
            in if removed \<or> \<not> queued (batches s ! b)
               then update_store (\<lambda>s. s\<lparr>shown_activities := (if removed then empty_activities else shown_activities s),
                      activity_error := error_text e ''Could not load channel activities.'', loading := False\<rparr>) s
               else s)"

definition answer_round :: "nat \<Rightarrow> api_error + activities \<Rightarrow> int \<Rightarrow> activity_store \<Rightarrow> activity_store" where
  "answer_round b result now s =
     (if b \<ge> length (batches s) \<or> \<not> waiting (batches s ! b) then s
      else
        let s = apply_answer b result now s
        in if is_current s b \<and> queued (batches s ! b)
           then set_batch b (\<lambda>r. r\<lparr>queued := False\<rparr>) (s\<lparr>log := log s @ [Requested b]\<rparr>)
           else (set_batch b (\<lambda>r. r\<lparr>waiting := False\<rparr>) s)
                  \<lparr>current_batch := (if current_batch s = Some b then None else current_batch s)\<rparr>)"

section \<open>Mounting\<close>

definition stop_mount :: "nat \<Rightarrow> activity_store \<Rightarrow> activity_store" where
  "stop_mount m s =
     (if m \<ge> length (mounts s) \<or> stopped (mounts s ! m) then s
      else
        let s = s\<lparr>mounts := (mounts s)[m := (mounts s ! m)\<lparr>stopped := True\<rparr>],
                  aborted := sadd (mount_controller (mounts s ! m)) (aborted s)\<rparr>
        in if generation s \<noteq> mount_generation (mounts s ! m) then s
           else (update_store (\<lambda>s. s\<lparr>shown_activities := empty_activities, loading := False, activity_error := []\<rparr>) s)
                  \<lparr>active := False, generation := Suc (generation s), controller := None, stop_current := None\<rparr>)"

definition start_mount :: "nat \<times> nat \<Rightarrow> activity_store \<Rightarrow> activity_store" where
  "start_mount presence s =
     (let s = (case stop_current s of None \<Rightarrow> s | Some m \<Rightarrow> stop_mount m s);
          g = Suc (generation s); c = controllers s; m = length (mounts s);
          s = s\<lparr>active := True, generation := g, controller := Some c, controllers := Suc c\<rparr>;
          s = update_store (\<lambda>s. s\<lparr>shown_activities := empty_activities, loading := True, activity_error := []\<rparr>) s;
          s = s\<lparr>mounts := mounts s @ [\<lparr>mount_generation = g, mount_controller = c, stopped = False, seen_presence = presence\<rparr>]\<rparr>
      in (load_activities s)\<lparr>stop_current := Some m\<rparr>)"

definition live_mounts :: "activity_store \<Rightarrow> nat list" where
  "live_mounts s = filter (\<lambda>m. \<not> stopped (mounts s ! m)) [0..<length (mounts s)]"

definition activity_event :: "string \<Rightarrow> string \<Rightarrow> string \<Rightarrow> activity_store \<Rightarrow> activity_store" where
  "activity_event room event_room kind s =
     (if event_room = room \<and> kind = ''channel.activity'' then fold (\<lambda>_. load_activities) (live_mounts s) s else s)"

definition presence_changed :: "nat \<times> nat \<Rightarrow> activity_store \<Rightarrow> activity_store" where
  "presence_changed next s =
     fold (\<lambda>m s. let old = seen_presence (mounts s ! m); s = (if next \<noteq> old then load_activities s else s)
             in s\<lparr>mounts := (mounts s)[m := (mounts s ! m)\<lparr>seen_presence := next\<rparr>]\<rparr>) (live_mounts s) s"

definition reload_timer :: "nat \<Rightarrow> activity_store \<Rightarrow> activity_store" where
  "reload_timer m s = (if m < length (mounts s) \<and> \<not> stopped (mounts s ! m) then load_activities s else s)"

definition subscribe_store :: "nat \<Rightarrow> activity_store \<Rightarrow> activity_store" where
  "subscribe_store l s = s\<lparr>activity_listeners := sadd l (activity_listeners s)\<rparr>"

definition unsubscribe_store :: "nat \<Rightarrow> activity_store \<Rightarrow> activity_store" where
  "unsubscribe_store l s = s\<lparr>activity_listeners := sdel l (activity_listeners s)\<rparr>"

datatype store_event =
    Load
  | Answer nat "api_error + activities" int
  | Start_mount "nat \<times> nat"
  | Stop_mount nat
  | Channel_event string string string
  | Presence_changed "nat \<times> nat"
  | Reload_timer nat
  | Subscribe_store nat
  | Unsubscribe_store nat

fun store_step :: "activity_store \<Rightarrow> store_event \<Rightarrow> activity_store" where
  "store_step s Load = load_activities s"
| "store_step s (Answer b result now) = answer_round b result now s"
| "store_step s (Start_mount presence) = start_mount presence s"
| "store_step s (Stop_mount m) = stop_mount m s"
| "store_step s (Channel_event room r k) = activity_event room r k s"
| "store_step s (Presence_changed p) = presence_changed p s"
| "store_step s (Reload_timer m) = reload_timer m s"
| "store_step s (Subscribe_store l) = subscribe_store l s"
| "store_step s (Unsubscribe_store l) = unsubscribe_store l s"

section \<open>No stale publication\<close>

definition asked_after :: "nat \<Rightarrow> activity_log list \<Rightarrow> bool" where
  "asked_after b l \<longleftrightarrow> (\<exists>us vs. l = us @ Requested b # vs \<and> Load_called \<notin> set vs)"

definition fresh_log :: "activity_log list \<Rightarrow> bool" where
  "fresh_log l \<longleftrightarrow> (\<forall>xs b ys. l = xs @ Published b # ys \<longrightarrow> asked_after b xs)"

lemma asked_after_snoc: "asked_after b l \<Longrightarrow> e \<noteq> Load_called \<Longrightarrow> asked_after b (l @ [e])"
  unfolding asked_after_def by force

lemma asked_after_request: "asked_after b (l @ [Requested b])"
  unfolding asked_after_def by force

lemma fresh_log_snoc: "fresh_log (l @ [e]) \<longleftrightarrow> fresh_log l \<and> (\<forall>b. e = Published b \<longrightarrow> asked_after b l)"
proof -
  have split: "l @ [e] = xs @ Published b # ys \<longleftrightarrow> (ys = [] \<and> l = xs \<and> e = Published b) \<or> (\<exists>zs. ys = zs @ [e] \<and> l = xs @ Published b # zs)"
    for xs b ys by (cases ys rule: rev_cases) auto
  show ?thesis unfolding fresh_log_def split by blast
qed

definition activity_inv :: "activity_store \<Rightarrow> bool" where
  "activity_inv s \<longleftrightarrow> fresh_log (log s) \<and>
     (\<forall>b < length (batches s). batch_controller (batches s ! b) < controllers s) \<and>
     (\<forall>c. controller s = Some c \<longrightarrow> c < controllers s) \<and>
     (\<forall>b. current_batch s = Some b \<longrightarrow> b < length (batches s) \<and> waiting (batches s ! b)) \<and>
     (\<forall>b < length (batches s). is_current s b \<and> waiting (batches s ! b) \<longrightarrow>
        current_batch s = Some b \<and> (queued (batches s ! b) \<or> asked_after b (log s)))"

lemma activity_invI:
  assumes "fresh_log (log s)"
    and "\<And>b. b < length (batches s) \<Longrightarrow> batch_controller (batches s ! b) < controllers s"
    and "\<And>c. controller s = Some c \<Longrightarrow> c < controllers s"
    and "\<And>b. current_batch s = Some b \<Longrightarrow> b < length (batches s) \<and> waiting (batches s ! b)"
    and "\<And>b. b < length (batches s) \<Longrightarrow> is_current s b \<Longrightarrow> waiting (batches s ! b) \<Longrightarrow>
      current_batch s = Some b \<and> (queued (batches s ! b) \<or> asked_after b (log s))"
  shows "activity_inv s"
  using assms unfolding activity_inv_def by blast

lemma activity_invD:
  assumes "activity_inv s"
  shows "fresh_log (log s)"
    and "b < length (batches s) \<Longrightarrow> batch_controller (batches s ! b) < controllers s"
    and "controller s = Some c \<Longrightarrow> c < controllers s"
    and "current_batch s = Some b \<Longrightarrow> b < length (batches s) \<and> waiting (batches s ! b)"
    and "b < length (batches s) \<Longrightarrow> is_current s b \<Longrightarrow> waiting (batches s ! b) \<Longrightarrow>
      current_batch s = Some b \<and> (queued (batches s ! b) \<or> asked_after b (log s))"
  using assms unfolding activity_inv_def by blast+

lemma inv_update: "activity_inv (update_store f s) = activity_inv (if active s then f s else s)"
  by (simp add: update_store_def Let_def activity_inv_def is_current_def)

lemma inv_fields [simp]:
  "activity_inv (s\<lparr>shown_activities := d\<rparr>) = activity_inv s" "activity_inv (s\<lparr>loading := l\<rparr>) = activity_inv s"
  "activity_inv (s\<lparr>activity_error := e\<rparr>) = activity_inv s" "activity_inv (s\<lparr>received_at := t\<rparr>) = activity_inv s"
  "activity_inv (s\<lparr>mounts := ms\<rparr>) = activity_inv s" "activity_inv (s\<lparr>stop_current := m\<rparr>) = activity_inv s"
  "activity_inv (s\<lparr>activity_listeners := ls\<rparr>) = activity_inv s"
  by (simp_all add: activity_inv_def is_current_def)

lemma inv_load: "activity_inv s \<Longrightarrow> activity_inv (load_activities s)"
proof -
  assume inv: "activity_inv s"
  let ?t = "s\<lparr>log := log s @ [Load_called]\<rparr>"
  have fresh: "fresh_log (log s @ [Load_called])" using inv by (simp add: activity_inv_def fresh_log_snoc)
  have cur: "is_current ?t b = is_current s b" for b by (simp add: is_current_def)
  show ?thesis
  proof (cases "\<exists>c. controller s = Some c \<and> active s \<and> c \<notin> set (aborted s)")
    case False
    then have "\<not> is_current s b" for b by (auto simp: is_current_def)
    moreover have "load_activities s = ?t"
      using False by (auto simp: load_activities_def Let_def split: option.split)
    ultimately show ?thesis using inv fresh cur by (simp add: activity_inv_def)
  next
    case True
    then obtain c where c: "controller s = Some c" "active s" "c \<notin> set (aborted s)" by blast
    show ?thesis
    proof (cases "\<exists>b. current_batch s = Some b \<and> is_current s b")
      case True
      then obtain b where b: "current_batch s = Some b" "is_current s b" by blast
      then have "load_activities s = set_batch b (\<lambda>r. r\<lparr>queued := True\<rparr>) ?t"
        using c cur by (simp add: load_activities_def Let_def)
      moreover have "activity_inv (set_batch b (\<lambda>r. r\<lparr>queued := True\<rparr>) ?t)" (is "activity_inv ?u")
      proof (rule activity_invI)
        note D = activity_invD [OF inv]
        have len: "b < length (batches s)" using D(4) [OF b(1)] by simp
        have same: "is_current ?u d = is_current s d" for d
          using len by (cases "d = b") (simp_all add: is_current_def set_batch_def)
        show "fresh_log (log ?u)" using fresh by (simp add: set_batch_def)
        show "batch_controller (batches ?u ! d) < controllers ?u" if "d < length (batches ?u)" for d
          using that D(2) [of d] D(2) [OF len] by (cases "d = b") (simp_all add: set_batch_def)
        show "d < controllers ?u" if "controller ?u = Some d" for d using that D(3) by (simp add: set_batch_def)
        show "d < length (batches ?u) \<and> waiting (batches ?u ! d)" if "current_batch ?u = Some d" for d
          using that b(1) D(4) [OF b(1)] by (simp add: set_batch_def)
        show "current_batch ?u = Some d \<and> (queued (batches ?u ! d) \<or> asked_after d (log ?u))"
          if "d < length (batches ?u)" "is_current ?u d" "waiting (batches ?u ! d)" for d
          using that D(5) [of d] b(1) unfolding same by (cases "d = b") (simp_all add: set_batch_def)
      qed
      ultimately show ?thesis by simp
    next
      case False
      let ?n = "length (batches s)"
      let ?u = "s\<lparr>batches := batches s @ [\<lparr>batch_generation = generation s, batch_controller = c, queued = False, waiting = True\<rparr>],
        current_batch := Some ?n, log := (log s @ [Load_called]) @ [Requested ?n]\<rparr>"
      have load: "load_activities s = ?u" using False c cur by (auto simp: load_activities_def Let_def split: option.split)
      have none: "\<not> (is_current s b \<and> waiting (batches s ! b))" if "b < ?n" for b
        using False activity_invD(5) [OF inv that] by blast
      show ?thesis unfolding load
      proof (rule activity_invI)
        show "fresh_log (log ?u)" using fresh fresh_log_snoc [of "log s @ [Load_called]" "Requested ?n"] by simp
        show "b < length (batches ?u) \<Longrightarrow> batch_controller (batches ?u ! b) < controllers ?u" for b
          using activity_invD(2) [OF inv, of b] activity_invD(3) [OF inv c(1)] by (simp add: nth_append)
        show "current_batch ?u = Some b \<and> (queued (batches ?u ! b) \<or> asked_after b (log ?u))"
          if "b < length (batches ?u)" "is_current ?u b" "waiting (batches ?u ! b)" for b
          using that none [of b] asked_after_request [of ?n "log s @ [Load_called]"]
          by (cases "b = ?n") (simp_all add: nth_append is_current_def)
      qed (use activity_invD(3) [OF inv] in \<open>auto simp: nth_append\<close>)
    qed
  qed
qed

lemma apply_answer_current [simp]: "is_current (apply_answer b result now s) d = is_current s d"
  by (simp add: apply_answer_def update_store_def is_current_def Let_def split: sum.split)

lemma apply_answer_fields [simp]:
  "batches (apply_answer b result now s) = batches s" "current_batch (apply_answer b result now s) = current_batch s"
  "controllers (apply_answer b result now s) = controllers s" "controller (apply_answer b result now s) = controller s"
  "active (apply_answer b result now s) = active s" "generation (apply_answer b result now s) = generation s"
  "aborted (apply_answer b result now s) = aborted s" "mounts (apply_answer b result now s) = mounts s"
  "stop_current (apply_answer b result now s) = stop_current s"
  by (simp_all add: apply_answer_def update_store_def Let_def split: sum.split)

lemma apply_answer_log:
  "log (apply_answer b result now s) = log s \<or>
   (log (apply_answer b result now s) = log s @ [Published b] \<and> is_current s b \<and> \<not> queued (batches s ! b))"
  by (simp add: apply_answer_def update_store_def Let_def split: sum.split)

lemma apply_answer_asked: "asked_after d (log s) \<Longrightarrow> asked_after d (log (apply_answer b result now s))"
  using apply_answer_log [of b result now s] by (auto intro: asked_after_snoc)

lemma inv_apply_answer:
  assumes inv: "activity_inv s" and b: "b < length (batches s)" "waiting (batches s ! b)"
  shows "activity_inv (apply_answer b result now s)"
proof (rule activity_invI)
  show "fresh_log (log (apply_answer b result now s))"
  proof (cases "log (apply_answer b result now s) = log s")
    case False
    with apply_answer_log [of b result now s]
    have "log (apply_answer b result now s) = log s @ [Published b]" "asked_after b (log s)"
      using activity_invD(5) [OF inv b(1) _ b(2)] by blast+
    with activity_invD(1) [OF inv] show ?thesis by (simp only: fresh_log_snoc) simp
  qed (use activity_invD(1) [OF inv] in simp)
  show "current_batch (apply_answer b result now s) = Some d \<and>
      (queued (batches (apply_answer b result now s) ! d) \<or> asked_after d (log (apply_answer b result now s)))"
    if "d < length (batches (apply_answer b result now s))" "is_current (apply_answer b result now s) d"
      "waiting (batches (apply_answer b result now s) ! d)" for d
    using activity_invD(5) [OF inv, of d] that apply_answer_asked [of d s b result now] by auto
qed (use activity_invD(2-4) [OF inv] in simp_all)

lemma set_batch_fields [simp]:
  "length (batches (set_batch b f s)) = length (batches s)" "current_batch (set_batch b f s) = current_batch s"
  "controllers (set_batch b f s) = controllers s" "controller (set_batch b f s) = controller s"
  "log (set_batch b f s) = log s" "active (set_batch b f s) = active s"
  "generation (set_batch b f s) = generation s" "aborted (set_batch b f s) = aborted s"
  "mounts (set_batch b f s) = mounts s" "stop_current (set_batch b f s) = stop_current s"
  by (simp_all add: set_batch_def)

lemma set_batch_nth:
  "b < length (batches s) \<Longrightarrow> batches (set_batch b f s) ! d = (if d = b then f (batches s ! b) else batches s ! d)"
  by (simp add: set_batch_def nth_list_update)

lemma set_batch_current:
  assumes "b < length (batches s)" "batch_generation (f (batches s ! b)) = batch_generation (batches s ! b)"
    "batch_controller (f (batches s ! b)) = batch_controller (batches s ! b)"
  shows "is_current (set_batch b f s) d = is_current s d"
  using assms by (simp add: is_current_def set_batch_nth)

lemma inv_ask_again:
  assumes inv: "activity_inv s" and b: "b < length (batches s)"
  shows "activity_inv (set_batch b (\<lambda>r. r\<lparr>queued := False\<rparr>) (s\<lparr>log := log s @ [Requested b]\<rparr>))"
proof (rule activity_invI, goal_cases)
  case 1
  show ?case using activity_invD(1) [OF inv] by (simp add: fresh_log_snoc)
next
  case (2 d)
  then show ?case using activity_invD(2) [OF inv, of d] b by (cases "d = b") (simp_all add: set_batch_nth)
next
  case (3 c)
  then show ?case using activity_invD(3) [OF inv] by simp
next
  case (4 d)
  then show ?case using activity_invD(4) [OF inv, of d] b by (cases "d = b") (simp_all add: set_batch_nth)
next
  case (5 d)
  then show ?case
    using activity_invD(5) [OF inv, of d] b asked_after_request [of b "log s"] asked_after_snoc [of d "log s" "Requested b"]
    by (cases "d = b") (auto simp: set_batch_nth set_batch_current is_current_def)
qed

lemma inv_finish:
  assumes inv: "activity_inv s" and b: "b < length (batches s)"
  shows "activity_inv ((set_batch b (\<lambda>r. r\<lparr>waiting := False\<rparr>) s)
      \<lparr>current_batch := (if current_batch s = Some b then None else current_batch s)\<rparr>)"
proof (rule activity_invI, goal_cases)
  case 1
  show ?case using activity_invD(1) [OF inv] by simp
next
  case (2 d)
  then show ?case using activity_invD(2) [OF inv, of d] b by (cases "d = b") (simp_all add: set_batch_nth)
next
  case (3 c)
  then show ?case using activity_invD(3) [OF inv] by simp
next
  case (4 d)
  then show ?case using activity_invD(4) [OF inv, of d] b by (auto simp: set_batch_nth split: if_splits)
next
  case (5 d)
  then show ?case
    using activity_invD(5) [OF inv, of d] b
    by (cases "d = b") (auto simp: set_batch_nth is_current_def)
qed

lemma inv_answer: "activity_inv s \<Longrightarrow> activity_inv (answer_round b result now s)"
proof (cases "b < length (batches s) \<and> waiting (batches s ! b)")
  case True
  assume inv: "activity_inv s"
  then show ?thesis
    using True inv_ask_again [OF inv_apply_answer [OF inv, of b result now], of b]
      inv_finish [OF inv_apply_answer [OF inv, of b result now], of b]
    by (auto simp: answer_round_def Let_def)
qed (auto simp: answer_round_def)

lemma inv_abort: "activity_inv s \<Longrightarrow> activity_inv (s\<lparr>mounts := ms, aborted := sadd c (aborted s)\<rparr>)"
proof (rule activity_invI, goal_cases)
  case 1
  then show ?case using activity_invD(1) [of s] by simp
next
  case (2 b)
  then show ?case using activity_invD(2) [of s b] by simp
next
  case (3 d)
  then show ?case using activity_invD(3) [of s d] by simp
next
  case (4 b)
  then show ?case using activity_invD(4) [of s b] by simp
next
  case (5 b)
  then have "is_current s b" by (simp add: is_current_def)
  with 5 show ?case using activity_invD(5) [of s b] by simp
qed

lemma inv_close:
  "activity_inv s \<Longrightarrow> activity_inv (s\<lparr>active := False, generation := g, controller := None, stop_current := m\<rparr>)"
proof (rule activity_invI, goal_cases)
  case 1
  then show ?case using activity_invD(1) [of s] by simp
next
  case (2 b)
  then show ?case using activity_invD(2) [of s b] by simp
next
  case (4 b)
  then show ?case using activity_invD(4) [of s b] by simp
qed (simp_all add: is_current_def)

lemma inv_shown: "activity_inv (update_store (\<lambda>s. s\<lparr>shown_activities := d, loading := l, activity_error := e\<rparr>) s) = activity_inv s"
  by (simp add: inv_update)

lemma inv_stop: "activity_inv s \<Longrightarrow> activity_inv (stop_mount m s)"
  unfolding stop_mount_def Let_def by (simp only: if_split inv_shown inv_abort inv_close) simp

lemma inv_start: "activity_inv s \<Longrightarrow> activity_inv (start_mount presence s)"
proof -
  assume "activity_inv s"
  then have inv: "activity_inv (case stop_current s of None \<Rightarrow> s | Some m \<Rightarrow> stop_mount m s)" (is "activity_inv ?t")
    by (simp add: inv_stop split: option.split)
  have "activity_inv (?t\<lparr>active := True, generation := g, controller := Some (controllers ?t), controllers := Suc (controllers ?t)\<rparr>)" for g
  proof (rule activity_invI, goal_cases)
    case (2 b)
    then show ?case using activity_invD(2) [OF inv, of b] by simp
  next
    case (5 b)
    then show ?case using activity_invD(2) [OF inv, of b] by (simp add: is_current_def)
  qed (use activity_invD(1,4) [OF inv] in simp_all)
  then show ?thesis
    by (simp add: start_mount_def Let_def inv_load inv_update)
qed

lemma inv_loads: "activity_inv s \<Longrightarrow> activity_inv (fold (\<lambda>_. load_activities) ms s)"
  by (induction ms arbitrary: s) (simp_all add: inv_load)

lemma inv_presence: "activity_inv s \<Longrightarrow> activity_inv (presence_changed next s)"
proof -
  have "activity_inv (fold (\<lambda>m s. let old = seen_presence (mounts s ! m); s = (if next \<noteq> old then load_activities s else s)
      in s\<lparr>mounts := (mounts s)[m := (mounts s ! m)\<lparr>seen_presence := next\<rparr>]\<rparr>) ms s)" if "activity_inv s" for ms
    using that by (induction ms arbitrary: s) (simp_all add: Let_def inv_load)
  then show "activity_inv s \<Longrightarrow> ?thesis" by (simp add: presence_changed_def)
qed

lemma inv_step: "activity_inv s \<Longrightarrow> activity_inv (store_step s e)"
  by (cases e) (simp_all add: inv_load inv_answer inv_start inv_stop inv_loads inv_presence activity_event_def
    reload_timer_def subscribe_store_def unsubscribe_store_def)

lemma inv_new [simp]: "activity_inv (new_activity_store now)"
  by (simp add: activity_inv_def new_activity_store_def fresh_log_def)

interpretation activity_runs: event_machine store_step activity_inv
  by unfold_locales (rule inv_step)

lemmas activity_eval = new_activity_store_def empty_activities_def start_mount_def stop_mount_def load_activities_def
  update_store_def is_current_def set_batch_def answer_round_def apply_answer_def sadd_def Let_def

section \<open>What the channel can rely on\<close>

text \<open>
  C24. Whatever is loaded, answered, mounted and unmounted, the activities that the store
  publishes come from a request sent after the last call of \<open>load\<close>: a response that a later
  mutation may have overtaken is never shown.
\<close>

theorem published_activities_are_fresh: "fresh_log (log (foldl store_step (new_activity_store now) es))"
  by (rule activity_invD(1) [OF activity_runs.run_inv [OF inv_new]])

lemma load_cases:
  assumes "active s" "controller s = Some c" "c \<notin> set (aborted s)"
  shows "(\<exists>b. current_batch s = Some b \<and> is_current s b \<and>
      load_activities s = set_batch b (\<lambda>r. r\<lparr>queued := True\<rparr>) (s\<lparr>log := log s @ [Load_called]\<rparr>)) \<or>
    (\<exists>r. batch_generation r = generation s \<and> batch_controller r = c \<and> waiting r \<and>
      load_activities s = s\<lparr>batches := batches s @ [r], current_batch := Some (length (batches s)),
        log := log s @ [Load_called, Requested (length (batches s))]\<rparr>)"
proof (cases "\<exists>b. current_batch s = Some b \<and> is_current s b")
  case True
  then obtain b where "current_batch s = Some b" "is_current s b" by blast
  then show ?thesis using assms by (simp add: load_activities_def Let_def is_current_def)
next
  case False
  then have "load_activities s = s\<lparr>batches := batches s @ [\<lparr>batch_generation = generation s, batch_controller = c,
      queued = False, waiting = True\<rparr>], current_batch := Some (length (batches s)),
      log := log s @ [Load_called, Requested (length (batches s))]\<rparr>"
    using assms by (auto simp: load_activities_def Let_def is_current_def split: option.split)
  then show ?thesis by (intro disjI2 exI) (auto simp: is_current_def)
qed

lemma queued_answer_asks_again:
  assumes "b < length (batches s)" "waiting (batches s ! b)" "is_current s b" "queued (batches s ! b)"
  shows "last (log (answer_round b result now s)) = Requested b"
  using assms by (simp add: answer_round_def Let_def)

text \<open>
  C25. A \<open>load\<close> of a mounted store is never lost: it sends a request at once, or it is
  remembered by the reconciliation at work, which sends another request when the answer it
  waits for, good or bad, is there.
\<close>

theorem load_is_never_lost:
  assumes "s = foldl store_step (new_activity_store now) es"
    and "active s" "controller s = Some c" "c \<notin> set (aborted s)"
  shows "\<exists>b. is_current (load_activities s) b \<and> waiting (batches (load_activities s) ! b) \<and>
    (log (load_activities s) = log s @ [Load_called, Requested b] \<or>
     (\<forall>result t. last (log (answer_round b result t (load_activities s))) = Requested b))"
proof -
  have inv: "activity_inv s" unfolding assms(1) by (rule activity_runs.run_inv [OF inv_new])
  from load_cases [OF assms(2-4)] show ?thesis
  proof (elim disjE exE conjE, goal_cases)
    case (1 b)
    then have b: "b < length (batches s)" "waiting (batches s ! b)" using activity_invD(4) [OF inv] by auto
    let ?t = "load_activities s"
    have t: "is_current ?t b" "b < length (batches ?t)" "waiting (batches ?t ! b)" "queued (batches ?t ! b)"
      using 1 b by (auto simp: set_batch_nth set_batch_current is_current_def)
    show ?case using t queued_answer_asks_again [of b ?t] by blast
  next
    case (2 r)
    then show ?case using assms by (intro exI [of _ "length (batches s)"]) (simp add: is_current_def)
  qed
qed

theorem load_is_never_lost_witness:
  "\<exists>b. is_current (load_activities (start_mount (0, 0) (new_activity_store 0))) b \<and>
    waiting (batches (load_activities (start_mount (0, 0) (new_activity_store 0))) ! b) \<and>
    (log (load_activities (start_mount (0, 0) (new_activity_store 0))) =
       log (start_mount (0, 0) (new_activity_store 0)) @ [Load_called, Requested b] \<or>
     (\<forall>result t. last (log (answer_round b result t (load_activities (start_mount (0, 0) (new_activity_store 0))))) =
       Requested b))"
  by (rule load_is_never_lost [where es = "[Start_mount (0, 0)]" and c = 0 and now = 0]) (simp_all add: activity_eval)

section \<open>After the store is stopped\<close>

fun late_answer :: "activity_store \<Rightarrow> nat \<times> (api_error + activities) \<times> int \<Rightarrow> activity_store" where
  "late_answer s (b, result, now) = answer_round b result now s"

fun late_for :: "activity_store \<Rightarrow> nat \<times> (api_error + activities) \<times> int \<Rightarrow> bool" where
  "late_for s (b, result, now) \<longleftrightarrow> \<not> active s"

definition shown :: "activity_store \<Rightarrow> activities \<times> bool \<times> string \<times> nat list \<times> activity_log list" where
  "shown s = (shown_activities s, loading s, activity_error s, listener_calls s, log s)"

interpretation activity_session: session_guard late_answer late_for shown
proof (unfold_locales, goal_cases)
  case (1 s t)
  then show ?case
    by (cases t) (simp add: answer_round_def apply_answer_def is_current_def shown_def set_batch_def Let_def)
next
  case (2 s t u)
  then show ?case
    by (cases t; cases u) (simp add: answer_round_def Let_def is_current_def)
qed

text \<open>
  Once the mount that owns the store is stopped, the store shows no activity, no error
  and no loading, and the answers that were on their way change nothing: nothing is shown,
  no listener is called and no request is sent.
\<close>

theorem stopped_store_shows_nothing:
  assumes "m < length (mounts s)" "\<not> stopped (mounts s ! m)" "active s"
    and "generation s = mount_generation (mounts s ! m)"
  shows "shown (foldl late_answer (stop_mount m s) answers) =
    (empty_activities, False, [], listener_calls s @ activity_listeners s, log s)"
proof -
  have "\<forall>t\<in>set answers. late_for (stop_mount m s) t"
    using assms by (auto simp: stop_mount_def Let_def)
  then have "shown (foldl late_answer (stop_mount m s) answers) = shown (stop_mount m s)"
    by (rule activity_session.stale_run)
  then show ?thesis using assms by (simp add: shown_def stop_mount_def update_store_def Let_def)
qed

theorem stopped_store_shows_nothing_witness:
  "shown (foldl late_answer (stop_mount 0 (start_mount (0, 0) (new_activity_store 0))) [(0, Inr empty_activities, 3)]) =
    (empty_activities, False, [], [], [Load_called, Requested 0])"
  by (subst stopped_store_shows_nothing) (simp_all add: activity_eval)

end
