(* ===== verification/QuickAccess.thy ===== *)
theory QuickAccess
  imports JsStrings
begin

text \<open>
  The index and the results of the quick access dialog
  (\<open>features/shell/quickAccessModel.ts\<close>).

  Of \<open>Room\<close> and \<open>PublicUser\<close> the records below have the fields the file reads. What depends
  on the locale and on Unicode tables is a parameter: \<open>fold_text\<close> is
  \<open>normalize('NFKD')\<close>, the removal of diacritics and \<open>toLocaleLowerCase\<close>, \<open>locale_compare\<close>
  is \<open>localeCompare\<close>, \<open>date_parse\<close> is \<open>Date.parse\<close>.
\<close>

section \<open>Rooms, friends and items\<close>

record quick_env =
  fold_text :: "string \<Rightarrow> string"
  locale_compare :: "string \<Rightarrow> string \<Rightarrow> int"
  date_parse :: "string \<Rightarrow> num"

record room =
  room_id :: string
  room_name :: string
  created_at :: string
  kind :: "string option"
  display_name :: "string option"
  activity_at :: "string option"
  community_id :: "string option"
  community_name :: "string option"
  channel_type :: "string option"
  topic :: "string option"
  position :: "int option"
  permissions_read :: "bool option"

record public_user =
  user_id :: string
  user_name :: string
  username :: "string option"

record preference =
  favorite_room :: bool

datatype quick_destination =
    Room_destination room
  | Friend_destination public_user
  | Setting_destination string
  | Navigation_destination string

datatype quick_group_name = Conversations | Channels | Rooms | Friends | Settings | Go_to

record quick_item =
  item_id :: string
  label :: string
  subtitle :: string
  search_words :: string
  group :: quick_group_name
  destination :: quick_destination
  favorite :: "bool option"
  activity :: "string option"

definition or_text :: "string option \<Rightarrow> string \<Rightarrow> string" where
  "or_text x d = (case x of Some t \<Rightarrow> if t = [] then d else t | None \<Rightarrow> d)"

definition middle_dot :: string where
  "middle_dot = [CHR '' '', CHR 0xB7, CHR '' '']"

definition settings :: "(string \<times> string \<times> string \<times> string) list" where
  "settings =
    [(''audio'', ''Audio'', ''Call controls and sounds'', ''volume sonido audio mute noise suppression balance voices''),
     (''voice'', ''Voice & devices'', ''Microphone, speakers and camera'', ''microfono mic headphones audifonos dispositivos camara camera''),
     (''appearance'', ''Appearance'', ''Theme and camera layout'', ''apariencia tema theme dark light oscuro layout''),
     (''notifications'', ''Notifications'', ''Quiet hours and message alerts'', ''notificaciones silence silencio quiet hours horarios''),
     (''profile'', ''Profile'', ''Name, picture and availability'', ''perfil nombre name username avatar foto status estado''),
     (''connection'', ''Connection'', ''How calls reach your friends'', ''conexion network red relay webrtc''),
     (''recording'', ''Recording'', ''Saved video quality'', ''grabacion recording calidad video clips''),
     (''stream'', ''Streaming'', ''Quality while sharing'', ''transmision screen pantalla compartir share fps bitrate quality''),
     (''account'', ''Account'', ''Devices, drafts and account controls'', ''cuenta privacy privacidad sessions sesiones drafts borradores''),
     (''desktop'', ''Desktop app'', ''Startup and updates'', ''escritorio windows mac startup inicio updates actualizaciones'')]"

definition normalize_quick_search :: "quick_env \<Rightarrow> string \<Rightarrow> string" where
  "normalize_quick_search env text = trim (fold_text env text)"

section \<open>The index\<close>

definition readable :: "room \<Rightarrow> bool" where
  "readable r \<longleftrightarrow> permissions_read r \<noteq> Some False"

definition room_item :: "(string, preference) jsmap \<Rightarrow> room \<Rightarrow> quick_item" where
  "room_item preferences r =
     \<lparr>item_id = ''room:'' @ room_id r,
      label = or_text (display_name r) (room_name r),
      subtitle =
        (if kind r = Some ''direct'' then ''Direct message''
         else if kind r = Some ''group'' then ''Group conversation''
         else or_text (community_name r) ''Channel'' @
           (if channel_type r = Some ''announcement'' then middle_dot @ ''Announcements'' else middle_dot @ ''Text and voice'')),
      search_words = or_text (community_name r) [] @ '' '' @ or_text (topic r) [] @ '' '' @
        (if kind r = Some ''direct'' then ''dm mensaje'' else if kind r = Some ''group'' then ''grupo'' else ''channel canal''),
      group = (if kind r = Some ''direct'' \<or> kind r = Some ''group'' then Conversations else Channels),
      destination = Room_destination r,
      favorite = map_option favorite_room (jget preferences (room_id r)),
      activity = Some (or_text (activity_at r) (created_at r))\<rparr>"

definition communities_of :: "room list \<Rightarrow> (string, room list) jsmap" where
  "communities_of rs =
     fold (\<lambda>r m. case community_id r of
                   Some c \<Rightarrow> if c = [] then m else jset m c (nullish (jget m c) [] @ [r])
                 | None \<Rightarrow> m) rs []"

definition cmp_channels :: "quick_env \<Rightarrow> room \<Rightarrow> room \<Rightarrow> int" where
  "cmp_channels env a b =
     (let d = nullish (position a) 0 - nullish (position b) 0
      in if d \<noteq> 0 then d else locale_compare env (room_id a) (room_id b))"

definition community_item :: "quick_env \<Rightarrow> string \<Rightarrow> room list \<Rightarrow> quick_item" where
  "community_item env c channels =
     (let first = hd (js_sort (cmp_channels env) channels)
      in \<lparr>item_id = ''community:'' @ c,
          label = or_text (community_name first) (room_name first),
          subtitle = ''Room'' @ middle_dot @ decimal (length channels) @ '' accessible channel'' @
            (if length channels = 1 then [] else ''s''),
          search_words = ''community comunidad room sala '' @ join_space (map room_name channels),
          group = Rooms,
          destination = Room_destination first,
          favorite = None, activity = None\<rparr>)"

definition friend_item :: "public_user \<Rightarrow> quick_item" where
  "friend_item f =
     \<lparr>item_id = ''friend:'' @ user_id f,
      label = user_name f,
      subtitle = ''Friend'' @ middle_dot @
        (if nonempty (username f) then ''@'' @ the (username f) else ''Open a direct message''),
      search_words = ''friend amigo '' @ or_text (username f) [],
      group = Friends, destination = Friend_destination f, favorite = None, activity = None\<rparr>"

fun setting_item :: "string \<times> string \<times> string \<times> string \<Rightarrow> quick_item" where
  "setting_item (page, title, sub, words) =
     \<lparr>item_id = ''setting:'' @ page, label = title, subtitle = ''Settings'' @ middle_dot @ sub,
      search_words = ''settings ajustes '' @ words,
      group = Settings, destination = Setting_destination page, favorite = None, activity = None\<rparr>"

fun navigation_item :: "string \<times> string \<times> string \<Rightarrow> quick_item" where
  "navigation_item (page, title, words) =
     \<lparr>item_id = ''navigation:'' @ page, label = title, subtitle = ''Go to'', search_words = words,
      group = Go_to, destination = Navigation_destination page, favorite = None, activity = None\<rparr>"

definition navigation :: "(string \<times> string \<times> string) list" where
  "navigation =
    [(''home'', ''Home'', ''inicio''),
     (''friends'', ''Find friends'', ''amigos agregar solicitudes''),
     (''recordings'', ''Recordings library'', ''grabaciones videos clips''),
     (''search'', ''Search messages'', ''buscar mensajes archivos enlaces'')]"

definition all_items ::
    "quick_env \<Rightarrow> room list \<Rightarrow> public_user list \<Rightarrow> (string, preference) jsmap \<Rightarrow> bool \<Rightarrow> quick_item list" where
  "all_items env rooms friends preferences desktop =
     (let readable_rooms = filter readable rooms
      in map (room_item preferences) readable_rooms @
         map (\<lambda>(c, channels). community_item env c channels) (communities_of readable_rooms) @
         map friend_item friends @
         map setting_item (filter (\<lambda>(page, _). page = ''desktop'' \<longrightarrow> desktop) settings) @
         map navigation_item navigation)"

definition quick_access_items ::
    "quick_env \<Rightarrow> room list \<Rightarrow> public_user list \<Rightarrow> (string, preference) jsmap \<Rightarrow> bool \<Rightarrow> quick_item list" where
  "quick_access_items env rooms friends preferences desktop =
     unique_by item_id (all_items env rooms friends preferences desktop)"

section \<open>Searching\<close>

fun score_tokens :: "string \<Rightarrow> string \<Rightarrow> string list \<Rightarrow> int \<Rightarrow> int option" where
  "score_tokens l secondary [] score = Some score"
| "score_tokens l secondary (t # ts) score =
     (if l = t then score_tokens l secondary ts (score + 1000)
      else if starts_with l t then score_tokens l secondary ts (score + 700)
      else if list_ex (\<lambda>w. starts_with w t) (split_spaces l) then score_tokens l secondary ts (score + 550)
      else if contains l t then score_tokens l secondary ts (score + 400)
      else if contains secondary t then score_tokens l secondary ts (score + 150)
      else None)"

definition match_score :: "quick_env \<Rightarrow> quick_item \<Rightarrow> string list \<Rightarrow> string \<Rightarrow> int" where
  "match_score env i tokens query =
     (let l = normalize_quick_search env (label i);
          secondary = normalize_quick_search env (subtitle i @ '' '' @ search_words i)
      in case score_tokens l secondary tokens 0 of
           None \<Rightarrow> - 1
         | Some score \<Rightarrow> score + (if l = query then 1000 else 0))"

text \<open>\<open>replace(/(^|\s)[@#]/g, '$1')\<close>; the flag says that a mark would match here.\<close>

fun strip_marks :: "bool \<Rightarrow> string \<Rightarrow> string" where
  "strip_marks here [] = []"
| "strip_marks here (c # s) =
     (if here \<and> (c = CHR ''@'' \<or> c = CHR ''#'') then strip_marks False s else c # strip_marks (js_space c) s)"

definition quick_query :: "quick_env \<Rightarrow> string \<Rightarrow> string" where
  "quick_query env text = strip_marks True (normalize_quick_search env text)"

record ranked_item =
  ranked :: quick_item
  index :: nat
  score :: int

definition cmp_ranked :: "quick_env \<Rightarrow> string list \<Rightarrow> ranked_item \<Rightarrow> ranked_item \<Rightarrow> int" where
  "cmp_ranked env tokens a b =
     (let or_next = (\<lambda>d rest. if d \<noteq> 0 then d else rest);
          order = int (index a) - int (index b);
          number = (\<lambda>x. if favorite (ranked x) = Some True then 1 else 0);
          date = (\<lambda>x. num_or (date_parse env (nullish (activity (ranked x)) [])) 0)
      in if tokens \<noteq> [] then or_next (score b - score a) order
         else or_next (number b - number a) (or_next (date b - date a) order))"

definition rank_items :: "quick_env \<Rightarrow> quick_item list \<Rightarrow> string \<Rightarrow> ranked_item list" where
  "rank_items env items text =
     (let query = quick_query env text; tokens = js_words query
      in js_sort (cmp_ranked env tokens)
           (filter (\<lambda>r. score r \<ge> 0)
             (map (\<lambda>(n, i). \<lparr>ranked = i, index = n,
                     score = (if tokens \<noteq> [] then match_score env i tokens query else 0)\<rparr>)
               (List.enumerate 0 items))))"

definition group_limit :: "string list \<Rightarrow> quick_group_name \<Rightarrow> nat" where
  "group_limit tokens g = (if tokens \<noteq> [] then 6 else if g = Settings \<or> g = Friends then 4 else 5)"

type_synonym quick_groups = "(quick_group_name, quick_item list) jsmap"

definition add_result :: "string list \<Rightarrow> ranked_item \<Rightarrow> quick_groups \<times> nat \<Rightarrow> quick_groups \<times> nat" where
  "add_result tokens r = (\<lambda>(groups, count).
     let i = ranked r; shown = nullish (jget groups (group i)) []
     in if length shown \<ge> group_limit tokens (group i) \<or> count \<ge> 24 then (groups, count)
        else (jset groups (group i) (shown @ [i]), Suc count))"

definition quick_access_groups :: "quick_env \<Rightarrow> quick_item list \<Rightarrow> string \<Rightarrow> quick_groups" where
  "quick_access_groups env items text =
     fst (fold (add_result (js_words (quick_query env text))) (rank_items env items text) ([], 0))"

section \<open>The shortcut\<close>

record key_press =
  pressed :: string
  ctrl :: bool
  meta :: bool
  shift :: bool
  alt :: bool
  repeat :: bool
  composing :: bool
  prevented :: bool

definition is_quick_access_shortcut :: "key_press \<Rightarrow> bool" where
  "is_quick_access_shortcut e \<longleftrightarrow> \<not> prevented e \<and> \<not> repeat e \<and> \<not> composing e \<and> \<not> alt e \<and> \<not> shift e \<and>
     (ctrl e \<or> meta e) \<and> (pressed e = ''k'' \<or> pressed e = ''K'')"

section \<open>The index holds what the account may see\<close>

fun authorised :: "room list \<Rightarrow> public_user list \<Rightarrow> bool \<Rightarrow> quick_destination \<Rightarrow> bool" where
  "authorised rooms friends desktop (Room_destination r) = (r \<in> set rooms \<and> readable r)"
| "authorised rooms friends desktop (Friend_destination f) = (f \<in> set friends)"
| "authorised rooms friends desktop (Setting_destination p) = (p = ''desktop'' \<longrightarrow> desktop)"
| "authorised rooms friends desktop (Navigation_destination p) = True"

lemma item_fields [simp]:
  "item_id (room_item preferences r) = ''room:'' @ room_id r" "destination (room_item preferences r) = Room_destination r"
  "item_id (community_item env c channels) = ''community:'' @ c"
  "destination (community_item env c channels) = Room_destination (hd (js_sort (cmp_channels env) channels))"
  "item_id (friend_item f) = ''friend:'' @ user_id f" "destination (friend_item f) = Friend_destination f"
  "item_id (setting_item p) = ''setting:'' @ fst p" "destination (setting_item p) = Setting_destination (fst p)"
  "item_id (navigation_item n) = ''navigation:'' @ fst n" "destination (navigation_item n) = Navigation_destination (fst n)"
  by (simp_all add: room_item_def community_item_def friend_item_def Let_def,
      (cases p, simp)+, (cases n, simp)+)

lemma all_items_cases:
  assumes "i \<in> set (all_items env rooms friends preferences desktop)"
  obtains (room) r where "r \<in> set rooms" "readable r" "i = room_item preferences r"
    | (community) c channels where "(c, channels) \<in> set (communities_of (filter readable rooms))" "i = community_item env c channels"
    | (friend) f where "f \<in> set friends" "i = friend_item f"
    | (setting) p where "fst p = ''desktop'' \<longrightarrow> desktop" "i = setting_item p"
    | (navigation) n where "i = navigation_item n"
proof -
  have "i \<in> room_item preferences ` {r \<in> set rooms. readable r} \<or>
      i \<in> (\<lambda>(c, channels). community_item env c channels) ` set (communities_of (filter readable rooms)) \<or>
      i \<in> friend_item ` set friends \<or>
      i \<in> setting_item ` {p \<in> set settings. case p of (page, _) \<Rightarrow> page = ''desktop'' \<longrightarrow> desktop} \<or>
      i \<in> navigation_item ` set navigation"
    using assms by (simp only: all_items_def Let_def set_append set_map set_filter Un_iff disj_assoc)
  then show thesis
  proof (elim disjE imageE, goal_cases)
    case (2 e)
    then show ?case by (cases e) (simp add: that(2))
  next
    case (4 p)
    show ?case by (rule that(4) [of p]) (use 4 in \<open>simp_all add: case_prod_beta\<close>)
  qed (use that in blast)+
qed

lemma hd_js_sort: "xs \<noteq> [] \<Longrightarrow> hd (js_sort cmp xs) \<in> set xs"
  by (metis hd_in_set length_0_conv length_js_sort set_js_sort)

lemma communities_get:
  "jget (communities_of rs) c =
     (case filter (\<lambda>r. c \<noteq> [] \<and> community_id r = Some c) rs of [] \<Rightarrow> None | ys \<Rightarrow> Some ys)"
proof -
  let ?f = "\<lambda>r m. case community_id r of Some c \<Rightarrow> if c = [] then m else jset m c (nullish (jget m c) [] @ [r]) | None \<Rightarrow> m"
  have "jget (fold ?f rs []) c =
      (case filter (\<lambda>r. c \<noteq> [] \<and> community_id r = Some c) rs of [] \<Rightarrow> None | ys \<Rightarrow> Some ys)"
  proof (induction rs rule: rev_induct)
    case (snoc r rs)
    then show ?case by (auto split: option.splits list.splits)
  qed simp
  then show ?thesis by (simp add: communities_of_def)
qed

lemma communities_distinct: "distinct (jkeys (communities_of rs))"
proof -
  have "distinct (jkeys (fold (\<lambda>r m. case community_id r of
      Some c \<Rightarrow> if c = [] then m else jset m c (nullish (jget m c) [] @ [r]) | None \<Rightarrow> m) rs m))"
    if "distinct (jkeys m)" for m :: "(string, room list) jsmap"
    using that by (induction rs arbitrary: m) (simp_all split: option.split)
  then show ?thesis by (simp add: communities_of_def)
qed

lemma communities_iff:
  "(c, rs') \<in> set (communities_of rs) \<longleftrightarrow>
     rs' = filter (\<lambda>r. c \<noteq> [] \<and> community_id r = Some c) rs \<and> rs' \<noteq> []"
proof -
  have "(c, rs') \<in> set (communities_of rs) \<longleftrightarrow> jget (communities_of rs) c = Some rs'"
    using communities_distinct [of rs] by (simp add: jget_def jkeys_def)
  then show ?thesis by (auto simp: communities_get split: list.splits)
qed

text \<open>
  C37. No two items of the quick access index have the same id, and every item leads to a
  readable room of the account, to one of its friends, to a main view or to a setting, and outside
  the desktop application to no desktop setting. A room of a community can be reached from two items, its
  own and that of its community, whose ids differ.
\<close>

theorem quick_access_authorised:
  "distinct (map item_id (quick_access_items env rooms friends preferences desktop)) \<and>
   list_all (\<lambda>i. authorised rooms friends desktop (destination i)) (quick_access_items env rooms friends preferences desktop)"
proof
  show "distinct (map item_id (quick_access_items env rooms friends preferences desktop))"
    by (simp add: quick_access_items_def unique_by_distinct)
  have "authorised rooms friends desktop (destination i)" if "i \<in> set (all_items env rooms friends preferences desktop)" for i
    using that
  proof (cases rule: all_items_cases)
    case (community c channels)
    then have "channels \<noteq> []" "set channels \<subseteq> {r \<in> set rooms. readable r}" unfolding communities_iff by auto
    then show ?thesis using community hd_js_sort [of channels "cmp_channels env"] by auto
  qed simp_all
  then show "list_all (\<lambda>i. authorised rooms friends desktop (destination i)) (quick_access_items env rooms friends preferences desktop)"
    using unique_by_subset by (fastforce simp: list_all_iff quick_access_items_def)
qed

lemma first_by_position:
  "xs \<noteq> [] \<Longrightarrow> r \<in> set xs \<Longrightarrow> nullish (position (hd (js_sort (cmp_channels env) xs))) 0 \<le> nullish (position r) 0"
proof (induction xs arbitrary: r)
  case (Cons x xs)
  show ?case
  proof (cases "js_sort (cmp_channels env) xs")
    case Nil
    then have "xs = []" by (metis length_0_conv length_js_sort)
    with Cons show ?thesis by simp
  next
    case (Cons h t)
    then have ne: "xs \<noteq> []" by auto
    have "nullish (position h) 0 \<le> nullish (position q) 0" if "q \<in> set xs" for q
      using Cons.IH [OF ne that] Cons by simp
    then have rest: "nullish (position h) 0 \<le> nullish (position q) 0" if "q \<in> set xs" for q using that .
    have "nullish (position x) 0 \<le> nullish (position h) 0" if "cmp_channels env x h \<le> 0"
      using that by (simp add: cmp_channels_def Let_def split: if_splits)
    moreover have "nullish (position h) 0 \<le> nullish (position x) 0" if "\<not> cmp_channels env x h \<le> 0"
      using that by (simp add: cmp_channels_def Let_def split: if_splits)
    ultimately show ?thesis using Cons.prems(2) Cons rest [of r] by (cases "cmp_channels env x h \<le> 0") auto
  qed
qed simp

text \<open>Whose entry carries which id.\<close>

definition offers :: "quick_item list \<Rightarrow> string \<Rightarrow> (quick_destination \<Rightarrow> bool) \<Rightarrow> bool" where
  "offers items name good \<longleftrightarrow> list_ex (\<lambda>i. item_id i = name \<and> good (destination i)) items"

definition first_channel_of :: "room list \<Rightarrow> string \<Rightarrow> room \<Rightarrow> bool" where
  "first_channel_of rooms c r \<longleftrightarrow> r \<in> set rooms \<and> readable r \<and> community_id r = Some c \<and>
     list_all (\<lambda>q. nullish (position r) 0 \<le> nullish (position q) 0)
       (filter (\<lambda>q. readable q \<and> community_id q = Some c) rooms)"

lemma offersI:
  assumes "i \<in> set xs" "\<And>j. j \<in> set xs \<Longrightarrow> item_id j = item_id i \<Longrightarrow> good (destination j)"
  shows "offers (unique_by item_id xs) (item_id i) good"
proof -
  obtain j where "j \<in> set (unique_by item_id xs)" "item_id j = item_id i"
    using unique_by_covers [OF assms(1), of item_id] by blast
  moreover from this have "good (destination j)" using assms(2) unique_by_subset [of item_id xs] by blast
  ultimately show ?thesis by (auto simp: offers_def list_ex_iff)
qed

lemma room_item_id:
  "i \<in> set (all_items env rooms friends preferences desktop) \<Longrightarrow> item_id i = ''room:'' @ x \<Longrightarrow>
   \<exists>q\<in>set rooms. destination i = Room_destination q \<and> room_id q = x"
  by (erule all_items_cases) auto

lemma friend_item_id:
  "i \<in> set (all_items env rooms friends preferences desktop) \<Longrightarrow> item_id i = ''friend:'' @ x \<Longrightarrow>
   \<exists>q\<in>set friends. destination i = Friend_destination q \<and> user_id q = x"
  by (erule all_items_cases) auto

lemma community_item_id:
  "i \<in> set (all_items env rooms friends preferences desktop) \<Longrightarrow> item_id i = ''community:'' @ x \<Longrightarrow>
   \<exists>channels. (x, channels) \<in> set (communities_of (filter readable rooms)) \<and> i = community_item env x channels"
  by (erule all_items_cases) auto

lemma community_leads_to_first:
  assumes "(c, channels) \<in> set (communities_of (filter readable rooms))"
  shows "\<exists>q\<in>set rooms. destination (community_item env c channels) = Room_destination q \<and> first_channel_of rooms c q"
proof -
  have ch: "channels \<noteq> []" "channels = filter (\<lambda>r. c \<noteq> [] \<and> community_id r = Some c) (filter readable rooms)"
    using assms unfolding communities_iff by blast+
  let ?q = "hd (js_sort (cmp_channels env) channels)"
  have "?q \<in> set channels" using ch(1) by (rule hd_js_sort)
  moreover have "nullish (position ?q) 0 \<le> nullish (position r) 0" if "r \<in> set channels" for r
    using ch(1) that by (rule first_by_position)
  ultimately have "?q \<in> set rooms" "first_channel_of rooms c ?q"
    using ch by (auto simp: first_channel_of_def list_all_iff)
  then show ?thesis by auto
qed

lemma offers_room:
  assumes "r \<in> set rooms" "readable r"
  shows "offers (quick_access_items env rooms friends preferences desktop) (''room:'' @ room_id r)
    (\<lambda>d. list_ex (\<lambda>q. d = Room_destination q \<and> room_id q = room_id r) rooms)"
proof -
  let ?i = "room_item preferences r"
  have i: "?i \<in> set (all_items env rooms friends preferences desktop)" "item_id ?i = ''room:'' @ room_id r"
    using assms by (simp_all add: all_items_def Let_def)
  show ?thesis
    unfolding i(2) [symmetric] quick_access_items_def
    by (rule offersI [OF i(1)]) (use room_item_id i(2) in \<open>fastforce simp: list_ex_iff\<close>)
qed

lemma offers_friend:
  assumes "f \<in> set friends"
  shows "offers (quick_access_items env rooms friends preferences desktop) (''friend:'' @ user_id f)
    (\<lambda>d. list_ex (\<lambda>q. d = Friend_destination q \<and> user_id q = user_id f) friends)"
proof -
  let ?i = "friend_item f"
  have i: "?i \<in> set (all_items env rooms friends preferences desktop)" "item_id ?i = ''friend:'' @ user_id f"
    using assms by (simp_all add: all_items_def Let_def)
  show ?thesis
    unfolding i(2) [symmetric] quick_access_items_def
    by (rule offersI [OF i(1)]) (use friend_item_id i(2) in \<open>fastforce simp: list_ex_iff\<close>)
qed

lemma offers_community:
  assumes "r \<in> set rooms" "readable r" "community_id r = Some c" "c \<noteq> []"
  shows "offers (quick_access_items env rooms friends preferences desktop) (''community:'' @ c)
    (\<lambda>d. list_ex (\<lambda>q. d = Room_destination q \<and> first_channel_of rooms c q) rooms)"
proof -
  let ?channels = "filter (\<lambda>r. c \<noteq> [] \<and> community_id r = Some c) (filter readable rooms)"
  let ?i = "community_item env c ?channels"
  have "r \<in> set ?channels" using assms by simp
  then have "?channels \<noteq> []" by (metis empty_iff empty_set)
  then have "(c, ?channels) \<in> set (communities_of (filter readable rooms))" unfolding communities_iff by blast
  then have "(\<lambda>(c, channels). community_item env c channels) (c, ?channels) \<in>
      (\<lambda>(c, channels). community_item env c channels) ` set (communities_of (filter readable rooms))" by (rule imageI)
  then have "?i \<in> set (all_items env rooms friends preferences desktop)"
    unfolding all_items_def Let_def set_append set_map by (simp only: prod.case Un_iff) blast
  moreover have "item_id ?i = ''community:'' @ c" by simp
  ultimately have i: "?i \<in> set (all_items env rooms friends preferences desktop)" "item_id ?i = ''community:'' @ c"
    by blast+
  show ?thesis
    unfolding i(2) [symmetric] quick_access_items_def
  proof (rule offersI [OF i(1)])
    fix j assume "j \<in> set (all_items env rooms friends preferences desktop)" "item_id j = item_id ?i"
    then obtain channels where "(c, channels) \<in> set (communities_of (filter readable rooms))" "j = community_item env c channels"
      using community_item_id [of j env rooms friends preferences desktop c] unfolding i(2) by blast
    then show "list_ex (\<lambda>q. destination j = Room_destination q \<and> first_channel_of rooms c q) rooms"
      using community_leads_to_first by (simp add: list_ex_iff)
  qed
qed

text \<open>
  Nothing readable is missing: every readable room and every friend has an entry
  under its own id, and every community with a readable channel has one, which leads to a
  readable channel of it that no other readable channel precedes.
\<close>

theorem quick_access_complete:
  "list_all (\<lambda>r. offers (quick_access_items env rooms friends preferences desktop) (''room:'' @ room_id r)
       (\<lambda>d. list_ex (\<lambda>q. d = Room_destination q \<and> room_id q = room_id r) rooms)) (filter readable rooms) \<and>
   list_all (\<lambda>f. offers (quick_access_items env rooms friends preferences desktop) (''friend:'' @ user_id f)
       (\<lambda>d. list_ex (\<lambda>q. d = Friend_destination q \<and> user_id q = user_id f) friends)) friends \<and>
   list_all (\<lambda>r. offers (quick_access_items env rooms friends preferences desktop) (''community:'' @ the (community_id r))
       (\<lambda>d. list_ex (\<lambda>q. d = Room_destination q \<and> first_channel_of rooms (the (community_id r)) q) rooms))
     (filter (\<lambda>r. readable r \<and> nonempty (community_id r)) rooms)"
proof (intro conjI)
  show "list_all (\<lambda>r. offers (quick_access_items env rooms friends preferences desktop) (''community:'' @ the (community_id r))
       (\<lambda>d. list_ex (\<lambda>q. d = Room_destination q \<and> first_channel_of rooms (the (community_id r)) q) rooms))
     (filter (\<lambda>r. readable r \<and> nonempty (community_id r)) rooms)"
    unfolding list_all_iff by (intro ballI offers_community) (auto simp: nonempty_def split: option.splits)
qed (unfold list_all_iff, (intro ballI offers_room offers_friend; simp)+)

section \<open>The results are the best matches\<close>

lemma score_tokens_nonneg: "score_tokens l secondary ts n = Some m \<Longrightarrow> n \<le> m"
proof (induction ts arbitrary: n)
  case (Cons t ts)
  then have "score_tokens l secondary ts (n + 1000) = Some m \<or> score_tokens l secondary ts (n + 700) = Some m \<or>
      score_tokens l secondary ts (n + 550) = Some m \<or> score_tokens l secondary ts (n + 400) = Some m \<or>
      score_tokens l secondary ts (n + 150) = Some m"
    by (simp split: if_splits)
  then show ?case by (elim disjE) (drule Cons.IH, simp)+
qed simp

lemma split_spaces_contained: "w \<in> set (split_spaces s) \<Longrightarrow> contains s w"
proof (induction s rule: split_spaces.induct)
  case (1 s)
  let ?rest = "dropWhile (\<lambda>c. \<not> js_space c) s"
  have "w = takeWhile (\<lambda>c. \<not> js_space c) s \<or> (?rest \<noteq> [] \<and> w \<in> set (split_spaces (dropWhile js_space ?rest)))"
    using 1(2) by (simp add: split_spaces.simps [of s] Let_def split: if_splits)
  then show ?case
  proof
    assume "w = takeWhile (\<lambda>c. \<not> js_space c) s"
    then have "s = [] @ w @ ?rest" by (simp only: append_Nil takeWhile_dropWhile_id)
    then show ?thesis unfolding contains_iff by blast
  next
    assume "?rest \<noteq> [] \<and> w \<in> set (split_spaces (dropWhile js_space ?rest))"
    then obtain p q where "dropWhile js_space ?rest = p @ w @ q" using 1(1) contains_iff by blast
    moreover have "s = takeWhile (\<lambda>c. \<not> js_space c) s @ takeWhile js_space ?rest @ dropWhile js_space ?rest"
      by (simp only: takeWhile_dropWhile_id)
    ultimately have "s = (takeWhile (\<lambda>c. \<not> js_space c) s @ takeWhile js_space ?rest @ p) @ w @ q"
      by (simp only: append.assoc)
    then show ?thesis unfolding contains_iff by blast
  qed
qed

lemma contains_prefix_of_part: "contains s w \<Longrightarrow> starts_with w t \<Longrightarrow> contains s t"
  unfolding contains_iff starts_with_iff by (metis append.assoc)

lemma score_tokens_iff:
  "score_tokens l secondary ts n \<noteq> None \<longleftrightarrow> list_all (\<lambda>t. contains l t \<or> contains secondary t) ts"
proof (induction l secondary ts n rule: score_tokens.induct)
  case (2 l secondary t ts n)
  have "contains l t" if "l = t \<or> starts_with l t \<or> list_ex (\<lambda>w. starts_with w t) (split_spaces l)"
    using that by (auto simp: list_ex_iff intro: starts_with_contains contains_prefix_of_part split_spaces_contained)
  with 2 show ?case by simp
qed simp

definition matches :: "quick_env \<Rightarrow> string list \<Rightarrow> quick_item \<Rightarrow> bool" where
  "matches env tokens i \<longleftrightarrow> list_all (\<lambda>t. contains (normalize_quick_search env (label i)) t \<or>
     contains (normalize_quick_search env (subtitle i @ '' '' @ search_words i)) t) tokens"

lemma match_score_iff: "match_score env i tokens query \<ge> 0 \<longleftrightarrow> matches env tokens i"
  using score_tokens_iff [of "normalize_quick_search env (label i)"
      "normalize_quick_search env (subtitle i @ '' '' @ search_words i)" tokens 0]
    score_tokens_nonneg [of "normalize_quick_search env (label i)"
      "normalize_quick_search env (subtitle i @ '' '' @ search_words i)" tokens 0]
  by (auto simp: match_score_def matches_def Let_def split: option.split)

lemma cmp_ranked_consistent: "consistent_cmp (cmp_ranked env tokens) A"
  unfolding consistent_cmp_def
  by (auto simp: cmp_ranked_def Let_def split: if_splits)

text \<open>
  The ranking keeps exactly the items in which every word of the query occurs, in the
  title or in what describes it, and puts them in the order of their score.
\<close>

theorem quick_ranking_correct:
  "set (map ranked (rank_items env items text)) = {i \<in> set items. matches env (js_words (quick_query env text)) i} \<and>
   sorted_wrt (\<lambda>a b. score a \<ge> score b) (rank_items env items text)"
proof
  let ?query = "quick_query env text" and ?tokens = "js_words (quick_query env text)"
  let ?scored = "map (\<lambda>(n, i). \<lparr>ranked = i, index = n,
      score = (if ?tokens \<noteq> [] then match_score env i ?tokens ?query else 0)\<rparr>) (List.enumerate 0 items)"
  have items: "set items = snd ` set (List.enumerate 0 items)" by (metis map_snd_enumerate set_map)
  show "set (map ranked (rank_items env items text)) = {i \<in> set items. matches env ?tokens i}"
    unfolding items
    by (cases "?tokens = []")
      (force simp: rank_items_def Let_def match_score_iff matches_def image_iff case_prod_beta)+
  have "sorted_wrt (\<lambda>a b. cmp_ranked env ?tokens a b \<le> 0) (rank_items env items text)"
    unfolding rank_items_def Let_def by (rule js_sort_sorted) (rule cmp_ranked_consistent)
  then show "sorted_wrt (\<lambda>a b. score a \<ge> score b) (rank_items env items text)"
  proof (rule sorted_wrt_mono_rel [rotated])
    fix a b assume "a \<in> set (rank_items env items text)" "b \<in> set (rank_items env items text)"
      and "cmp_ranked env ?tokens a b \<le> 0"
    then show "score a \<ge> score b"
      by (cases "?tokens = []") (auto simp: rank_items_def cmp_ranked_def Let_def split: if_splits)
  qed
qed

text \<open>What the loop over the ranked items has shown after each of them.\<close>

definition best_of :: "string list \<Rightarrow> ranked_item list \<Rightarrow> quick_groups \<Rightarrow> nat \<Rightarrow> quick_group_name \<Rightarrow> bool" where
  "best_of tokens rs groups count g \<longleftrightarrow>
     (let shown = nullish (jget groups g) []; best = filter (\<lambda>i. group i = g) (map ranked rs)
      in shown = take (length shown) best \<and> length shown \<le> group_limit tokens g \<and>
         (length shown = length best \<or> length shown = group_limit tokens g \<or> count = 24))"

definition best_so_far :: "string list \<Rightarrow> ranked_item list \<Rightarrow> quick_groups \<times> nat \<Rightarrow> bool" where
  "best_so_far tokens rs = (\<lambda>(groups, count).
     distinct (jkeys groups) \<and> count = sum_list (map length (jvals groups)) \<and> count \<le> 24 \<and>
     (\<forall>g. jget groups g \<noteq> Some []) \<and> (\<forall>g. best_of tokens rs groups count g))"

lemma sum_jset:
  "distinct (jkeys m) \<Longrightarrow> sum_list (map length (jvals (jset m k v))) + length (nullish (jget m k) []) =
   sum_list (map length (jvals m)) + length v"
  by (induction m k v rule: jset.induct) (auto simp: jget_None_iff)

lemma best_of_left:
  assumes "best_of tokens rs groups count g"
    and "group (ranked r) = g \<Longrightarrow> length (nullish (jget groups g) []) = group_limit tokens g \<or> count = 24"
  shows "best_of tokens (rs @ [r]) groups count g"
proof -
  let ?shown = "nullish (jget groups g) []" and ?best = "filter (\<lambda>i. group i = g) (map ranked rs)"
  have s: "?shown = take (length ?shown) ?best" using assms(1) by (simp add: best_of_def Let_def)
  then have "length ?shown \<le> length ?best" by (metis length_take min.cobounded1)
  then have "take (length ?shown) (?best @ xs) = take (length ?shown) ?best" for xs by simp
  then have "?shown = take (length ?shown) (filter (\<lambda>i. group i = g) (map ranked (rs @ [r])))"
    using s by simp
  with assms show ?thesis by (cases "group (ranked r) = g") (simp_all add: best_of_def Let_def)
qed

lemma best_of_added:
  assumes "best_of tokens rs groups count g" "group (ranked r) = g"
    and "length (nullish (jget groups g) []) < group_limit tokens g" "count < 24"
  shows "best_of tokens (rs @ [r]) (jset groups g (nullish (jget groups g) [] @ [ranked r])) (Suc count) g"
proof -
  let ?shown = "nullish (jget groups g) []" and ?best = "filter (\<lambda>i. group i = g) (map ranked rs)"
  have "?shown = take (length ?shown) ?best" "length ?shown = length ?best"
    using assms by (auto simp: best_of_def Let_def)
  then have "?shown = ?best" by simp
  then show ?thesis using assms(2,3) by (simp add: best_of_def Let_def)
qed

lemma best_of_other:
  "best_of tokens rs groups count g \<Longrightarrow> group (ranked r) = h \<Longrightarrow> g \<noteq> h \<Longrightarrow> count \<noteq> 24 \<Longrightarrow>
   best_of tokens (rs @ [r]) (jset groups h v) (Suc count) g"
  by (auto simp: best_of_def Let_def)

lemma best_so_far_step:
  assumes "best_so_far tokens rs gc"
  shows "best_so_far tokens (rs @ [r]) (add_result tokens r gc)"
proof -
  obtain groups count where gc: "gc = (groups, count)" by (cases gc)
  let ?g = "group (ranked r)"
  let ?shown = "nullish (jget groups ?g) []"
  have inv: "distinct (jkeys groups)" "count = sum_list (map length (jvals groups))" "count \<le> 24"
      "\<And>g. jget groups g \<noteq> Some []" "\<And>g. best_of tokens rs groups count g"
    using assms unfolding gc best_so_far_def by auto
  show ?thesis
  proof (cases "length ?shown \<ge> group_limit tokens ?g \<or> count \<ge> 24")
    case True
    then have same: "add_result tokens r gc = (groups, count)" by (simp add: gc add_result_def Let_def)
    have "length ?shown \<le> group_limit tokens ?g" using inv(5) [of ?g] by (simp add: best_of_def Let_def)
    then have "length ?shown = group_limit tokens ?g \<or> count = 24" using True inv(3) by linarith
    then have "best_of tokens (rs @ [r]) groups count g" for g
      by (intro best_of_left [OF inv(5)]) simp
    with inv(1-4) show ?thesis unfolding same best_so_far_def prod.case by blast
  next
    case False
    let ?m = "jset groups ?g (?shown @ [ranked r])"
    have added: "add_result tokens r gc = (?m, Suc count)"
      using False by (simp add: gc add_result_def Let_def)
    have "best_of tokens (rs @ [r]) ?m (Suc count) g" for g
      using False best_of_added [OF inv(5) [of ?g]] best_of_other [OF inv(5) [of g], of r ?g] by (cases "g = ?g") auto
    moreover have "sum_list (map length (jvals ?m)) = Suc count"
      using sum_jset [OF inv(1), of ?g "?shown @ [ranked r]"] inv(2) by simp
    ultimately show ?thesis
      using inv(1,4) False unfolding added best_so_far_def prod.case by (intro conjI allI) simp_all
  qed
qed

lemma best_so_far_all: "best_so_far tokens rs (fold (add_result tokens) rs ([], 0))"
proof (induction rs rule: rev_induct)
  case Nil
  show ?case by (simp add: best_so_far_def best_of_def)
next
  case (snoc r rs)
  then show ?case by (simp add: best_so_far_step)
qed

text \<open>
  C36. The dialog shows at most 24 results, at most six of a group, no empty group and no
  group twice; and of every group it shows the best of the ranking: the results of a group are
  the first of the ranked items of that group, and one is left out only when its group is
  full or 24 results are shown.
\<close>

theorem quick_results_are_the_best:
  "distinct (jkeys (quick_access_groups env items text)) \<and> [] \<notin> set (jvals (quick_access_groups env items text)) \<and>
   sum_list (map length (jvals (quick_access_groups env items text))) \<le> 24 \<and>
   (\<forall>g. let shown = nullish (jget (quick_access_groups env items text) g) [];
            all = filter (\<lambda>i. group i = g) (map ranked (rank_items env items text))
        in length shown \<le> 6 \<and> shown = take (length shown) all \<and>
           (length shown = length all \<or> length shown = group_limit (js_words (quick_query env text)) g \<or>
            sum_list (map length (jvals (quick_access_groups env items text))) = 24))"
proof -
  let ?tokens = "js_words (quick_query env text)"
  obtain groups count where gc: "fold (add_result ?tokens) (rank_items env items text) ([], 0) = (groups, count)"
    by (cases "fold (add_result ?tokens) (rank_items env items text) ([], 0)")
  then have groups: "quick_access_groups env items text = groups" by (simp add: quick_access_groups_def)
  note inv = best_so_far_all [of ?tokens "rank_items env items text", unfolded gc best_so_far_def prod.case]
  have "group_limit ?tokens g \<le> 6" for g by (simp add: group_limit_def)
  moreover have "[] \<notin> set (jvals groups)" using inv by (blast elim: jvals_jget)
  ultimately show ?thesis
    using inv unfolding groups best_of_def Let_def by (auto intro: order_trans)
qed

end
