(* ===== verification/PersonalStore.thy ===== *)
theory PersonalStore
  imports Api JsStrings
begin

text \<open>
  The personal inbox: the store of saved items and active reminders
  (\<open>features/personal/personalStore.ts\<close>) and the paged lists
  (\<open>features/personal/listStore.ts\<close>).

  The variables of the first module are the record \<open>personal\<close>; what
  \<open>createPersonalList\<close> closes over is the record \<open>inbox_list\<close>. An \<open>AbortController\<close> is a
  number, a request in flight is an entry of \<open>refreshes\<close>, \<open>toggles\<close> or \<open>list_loads\<close> that its
  answer removes (an aborted request is answered by its abort). Every start is a mount whose
  subscriptions, focus handler and timer live until it is stopped. Reminders and list items
  are \<open>json\<close> values and, for the lists, pairs of their \<open>id\<close> and the value.
\<close>

section \<open>Saved items and reminders\<close>

datatype saved_kind = Saved_message | Saved_file

record personal_state =
  user :: "string option"
  saved_messages :: "string list"
  saved_files :: "string list"
  reminders :: "json list"
  personal_ready :: bool
  revision :: nat
  personal_error :: string

definition empty_personal :: personal_state where
  "empty_personal = \<lparr>user = None, saved_messages = [], saved_files = [], reminders = [],
     personal_ready = False, revision = 0, personal_error = []\<rparr>"

datatype personal_request =
    Read_personal nat
  | Write_saved bool saved_kind string
  | Put_reminder string string string string
  | Delete_reminder string string
  | Complete_reminder string

record toggle =
  toggle_session :: nat
  toggle_kind :: saved_kind
  toggle_id :: string
  removing :: bool

record personal =
  shown_personal :: personal_state
  personal_generation :: nat
  refresh_request :: "nat option"
  reload_pending :: bool
  personal_listeners :: "nat list"
  refreshes :: "(nat \<times> nat) list"
  refresh_aborted :: "nat list"
  refresh_controllers :: nat
  toggles :: "toggle list"
  personal_mounts :: "(nat \<times> bool) list"
  personal_calls :: "nat list"
  personal_requests :: "personal_request list"

definition new_personal :: personal where
  "new_personal = \<lparr>shown_personal = empty_personal, personal_generation = 0, refresh_request = None,
     reload_pending = False, personal_listeners = [], refreshes = [], refresh_aborted = [],
     refresh_controllers = 0, toggles = [], personal_mounts = [], personal_calls = [], personal_requests = []\<rparr>"

definition update_personal :: "(personal_state \<Rightarrow> personal_state) \<Rightarrow> personal \<Rightarrow> personal" where
  "update_personal f s = s\<lparr>shown_personal := f (shown_personal s),
     personal_calls := personal_calls s @ personal_listeners s\<rparr>"

definition refresh_personal :: "personal \<Rightarrow> personal" where
  "refresh_personal s =
     (if \<not> nonempty (user (shown_personal s)) then s
      else case refresh_request s of
          Some _ \<Rightarrow> s\<lparr>reload_pending := True\<rparr>
        | None \<Rightarrow>
            let c = refresh_controllers s
            in s\<lparr>refresh_controllers := Suc c, refresh_request := Some c,
                 refreshes := refreshes s @ [(c, personal_generation s)],
                 personal_requests := personal_requests s @ [Read_personal c]\<rparr>)"

text \<open>What follows the await of the refresh with controller \<open>c\<close>.\<close>

definition show_refresh :: "nat \<Rightarrow> nat \<Rightarrow> api_error + (string list \<times> string list \<times> json list) \<Rightarrow> personal \<Rightarrow> personal" where
  "show_refresh c session result s =
     (if session \<noteq> personal_generation s \<or> c \<in> set (refresh_aborted s) then s
      else case result of
          Inr (messages, files, rs) \<Rightarrow>
            update_personal (\<lambda>p. p\<lparr>saved_messages := remdups messages, saved_files := remdups files, reminders := rs,
              personal_ready := True, personal_error := [], revision := Suc (revision p)\<rparr>) s
        | Inl e \<Rightarrow> update_personal (\<lambda>p. p\<lparr>personal_error := error_text e ''Could not update your personal inbox.''\<rparr>) s)"

definition refresh_answer :: "nat \<Rightarrow> api_error + (string list \<times> string list \<times> json list) \<Rightarrow> personal \<Rightarrow> personal" where
  "refresh_answer c result s =
     (case jget (refreshes s) c of
        None \<Rightarrow> s
      | Some session \<Rightarrow>
          let s = show_refresh c session result (s\<lparr>refreshes := jdel (refreshes s) c\<rparr>);
              s = (if refresh_request s = Some c then s\<lparr>refresh_request := None\<rparr> else s)
          in if session = personal_generation s \<and> reload_pending s
             then refresh_personal (s\<lparr>reload_pending := False\<rparr>) else s)"

definition abort_refresh :: "personal \<Rightarrow> personal" where
  "abort_refresh s = s\<lparr>refresh_aborted := (case refresh_request s of None \<Rightarrow> refresh_aborted s | Some c \<Rightarrow> sadd c (refresh_aborted s)),
     refresh_request := None, reload_pending := False\<rparr>"

definition start_personal :: "string \<Rightarrow> personal \<Rightarrow> personal" where
  "start_personal u s =
     (let s = abort_refresh s;
          s = s\<lparr>personal_generation := Suc (personal_generation s)\<rparr>;
          s = update_personal (\<lambda>_. empty_personal\<lparr>user := Some u\<rparr>) s
      in refresh_personal (s\<lparr>personal_mounts := personal_mounts s @ [(personal_generation s, True)]\<rparr>))"

text \<open>
  The stop function's \<open>update(empty)\<close> is a patch without \<open>userId\<close>, so the user stays.
\<close>

definition stop_personal :: "nat \<Rightarrow> personal \<Rightarrow> personal" where
  "stop_personal m s =
     (if m \<ge> length (personal_mounts s) then s
      else
        let session = fst (personal_mounts s ! m); s = s\<lparr>personal_mounts := (personal_mounts s)[m := (session, False)]\<rparr>
        in if session \<noteq> personal_generation s then s
           else update_personal (\<lambda>p. empty_personal\<lparr>user := user p\<rparr>) (abort_refresh (s\<lparr>personal_generation := Suc (personal_generation s)\<rparr>)))"

definition live_personal :: "personal \<Rightarrow> nat" where
  "live_personal s = length (filter snd (personal_mounts s))"

text \<open>An event of the socket, a focus of the window, and the timer of one mount.\<close>

definition personal_event :: "string \<Rightarrow> personal \<Rightarrow> personal" where
  "personal_event type s =
     (if type = ''personal.saved.changed'' \<or> type = ''personal.reminders.changed''
      then (refresh_personal ^^ live_personal s) s else s)"

definition personal_focus :: "personal \<Rightarrow> personal" where
  "personal_focus s = (refresh_personal ^^ live_personal s) s"

definition personal_timer :: "nat \<Rightarrow> personal \<Rightarrow> personal" where
  "personal_timer m s = (if m < length (personal_mounts s) \<and> snd (personal_mounts s ! m) then refresh_personal s else s)"

definition saved_of :: "saved_kind \<Rightarrow> personal_state \<Rightarrow> string list" where
  "saved_of k p = (case k of Saved_message \<Rightarrow> saved_messages p | Saved_file \<Rightarrow> saved_files p)"

definition toggle_saved :: "saved_kind \<Rightarrow> string \<Rightarrow> personal \<Rightarrow> string + personal" where
  "toggle_saved k i s =
     (if \<not> nonempty (user (shown_personal s)) then Inl ''Sign in to save items.''
      else let gone = i \<in> set (saved_of k (shown_personal s))
           in Inr (s\<lparr>toggles := toggles s @ [\<lparr>toggle_session = personal_generation s, toggle_kind = k, toggle_id = i, removing = gone\<rparr>],
                     personal_requests := personal_requests s @ [Write_saved gone k i]\<rparr>))"

definition toggle_answer :: "nat \<Rightarrow> bool \<Rightarrow> personal \<Rightarrow> personal" where
  "toggle_answer n success s =
     (if n \<ge> length (toggles s) then s
      else
        let t = toggles s ! n; s = s\<lparr>toggles := take n (toggles s) @ drop (Suc n) (toggles s)\<rparr>;
            next = (if removing t then sdel (toggle_id t) else sadd (toggle_id t))
        in if \<not> success \<or> toggle_session t \<noteq> personal_generation s then s
           else update_personal (\<lambda>p. (case toggle_kind t of
                    Saved_message \<Rightarrow> p\<lparr>saved_messages := next (saved_messages p), revision := Suc (revision p)\<rparr>
                  | Saved_file \<Rightarrow> p\<lparr>saved_files := next (saved_files p), revision := Suc (revision p)\<rparr>)) s)"

text \<open>
  The three operations on reminders send their request and, when it succeeded, refresh.
\<close>

definition set_message_reminder :: "string \<Rightarrow> string \<Rightarrow> string \<Rightarrow> string \<Rightarrow> personal \<Rightarrow> personal" where
  "set_message_reminder room message due mutation s =
     s\<lparr>personal_requests := personal_requests s @ [Put_reminder room message due mutation]\<rparr>"

definition cancel_message_reminder :: "string \<Rightarrow> string \<Rightarrow> personal \<Rightarrow> personal" where
  "cancel_message_reminder room message s =
     s\<lparr>personal_requests := personal_requests s @ [Delete_reminder room message]\<rparr>"

definition complete_message_reminder :: "string \<Rightarrow> personal \<Rightarrow> personal" where
  "complete_message_reminder i s = s\<lparr>personal_requests := personal_requests s @ [Complete_reminder i]\<rparr>"

definition reminder_answer :: "bool \<Rightarrow> personal \<Rightarrow> personal" where
  "reminder_answer success s = (if success then refresh_personal s else s)"

definition subscribe_personal :: "nat \<Rightarrow> personal \<Rightarrow> personal" where
  "subscribe_personal l s = s\<lparr>personal_listeners := sadd l (personal_listeners s)\<rparr>"

definition unsubscribe_personal :: "nat \<Rightarrow> personal \<Rightarrow> personal" where
  "unsubscribe_personal l s = s\<lparr>personal_listeners := sdel l (personal_listeners s)\<rparr>"

datatype personal_step =
    Refresh
  | Refresh_answer nat "api_error + (string list \<times> string list \<times> json list)"
  | Start_personal string
  | Stop_personal nat
  | Personal_event string
  | Focus
  | Timer nat
  | Toggle saved_kind string
  | Toggle_answer nat bool
  | Set_reminder string string string string
  | Cancel_reminder string string
  | Finish_reminder string
  | Reminder_answer bool
  | Subscribe_personal nat
  | Unsubscribe_personal nat

fun personal_do :: "personal \<Rightarrow> personal_step \<Rightarrow> personal" where
  "personal_do s Refresh = refresh_personal s"
| "personal_do s (Refresh_answer c r) = refresh_answer c r s"
| "personal_do s (Start_personal u) = start_personal u s"
| "personal_do s (Stop_personal m) = stop_personal m s"
| "personal_do s (Personal_event t) = personal_event t s"
| "personal_do s Focus = personal_focus s"
| "personal_do s (Timer m) = personal_timer m s"
| "personal_do s (Toggle k i) = (case toggle_saved k i s of Inl e \<Rightarrow> s | Inr s' \<Rightarrow> s')"
| "personal_do s (Toggle_answer n ok) = toggle_answer n ok s"
| "personal_do s (Set_reminder r m d u) = set_message_reminder r m d u s"
| "personal_do s (Cancel_reminder r m) = cancel_message_reminder r m s"
| "personal_do s (Finish_reminder i) = complete_message_reminder i s"
| "personal_do s (Reminder_answer ok) = reminder_answer ok s"
| "personal_do s (Subscribe_personal l) = subscribe_personal l s"
| "personal_do s (Unsubscribe_personal l) = unsubscribe_personal l s"

section \<open>Paged lists\<close>

record inbox_list =
  list_items :: "(string \<times> json) list"
  cursor :: string
  list_loading :: bool
  list_error :: string
  list_controller :: "nat option"
  list_generation :: nat
  list_active :: bool
  list_listeners :: "nat list"
  list_aborted :: "nat list"
  list_loads :: "(nat \<times> bool) list"
  list_mounts :: nat
  list_calls :: "nat list"
  list_requests :: "(nat \<times> string option) list"

text \<open>\<open>items\<close> and \<open>reminders\<close> are the two fields a list may be made for.\<close>

record list_page =
  page_items :: "(string \<times> json) list option"
  page_reminders :: "(string \<times> json) list option"
  next_cursor :: "string option"

definition new_list :: inbox_list where
  "new_list = \<lparr>list_items = [], cursor = [], list_loading = True, list_error = [], list_controller = None,
     list_generation = 0, list_active = False, list_listeners = [], list_aborted = [], list_loads = [],
     list_mounts = 0, list_calls = [], list_requests = []\<rparr>"

definition update_list :: "(inbox_list \<Rightarrow> inbox_list) \<Rightarrow> inbox_list \<Rightarrow> inbox_list" where
  "update_list f s = (let s = f s in s\<lparr>list_calls := list_calls s @ list_listeners s\<rparr>)"

definition abort_list_load :: "inbox_list \<Rightarrow> inbox_list" where
  "abort_list_load s = s\<lparr>list_aborted := (case list_controller s of None \<Rightarrow> list_aborted s | Some c \<Rightarrow> sadd c (list_aborted s))\<rparr>"

text \<open>A request's controller is named by the request's number.\<close>

definition load_list :: "bool \<Rightarrow> inbox_list \<Rightarrow> inbox_list" where
  "load_list further s =
     (if \<not> list_active s \<or> (further \<and> list_loading s) then s
      else
        let s = abort_list_load s;
            request = Suc (list_generation s);
            s = s\<lparr>list_controller := Some request, list_generation := request\<rparr>;
            s = update_list (\<lambda>s. s\<lparr>list_loading := True, list_error := []\<rparr>) s
        in s\<lparr>list_loads := list_loads s @ [(request, further)],
             list_requests := list_requests s @ [(request, if further \<and> cursor s \<noteq> [] then Some (cursor s) else None)]\<rparr>)"

definition page_of :: "bool \<Rightarrow> list_page \<Rightarrow> (string \<times> json) list" where
  "page_of for_items page = nullish (if for_items then page_items page else page_reminders page) []"

definition show_page :: "bool \<Rightarrow> bool \<Rightarrow> api_error + list_page \<Rightarrow> inbox_list \<Rightarrow> inbox_list" where
  "show_page for_items further result s =
     (case result of
        Inr page \<Rightarrow>
          update_list (\<lambda>s. s\<lparr>
            list_items := (if further then unique_by fst (list_items s @ page_of for_items page) else page_of for_items page),
            cursor := nullish (next_cursor page) []\<rparr>) s
      | Inl e \<Rightarrow>
          update_list (\<lambda>s.
            (if has_status e 401 \<or> has_status e 403 \<or> has_status e 404 then s\<lparr>list_items := [], cursor := []\<rparr> else s)
              \<lparr>list_error := error_text e ''Could not load your inbox.''\<rparr>) s)"

definition list_answer :: "bool \<Rightarrow> nat \<Rightarrow> api_error + list_page \<Rightarrow> inbox_list \<Rightarrow> inbox_list" where
  "list_answer for_items request result s =
     (case jget (list_loads s) request of
        None \<Rightarrow> s
      | Some further \<Rightarrow>
          let s = s\<lparr>list_loads := jdel (list_loads s) request\<rparr>
          in if request \<in> set (list_aborted s) \<or> request \<noteq> list_generation s then s
             else update_list (\<lambda>s. s\<lparr>list_loading := False\<rparr>) (show_page for_items further result s))"

definition start_list :: "inbox_list \<Rightarrow> inbox_list" where
  "start_list s = load_list False (s\<lparr>list_active := True, list_mounts := Suc (list_mounts s)\<rparr>)"

text \<open>
  The function that \<open>start\<close> returned; \<open>mounted\<close> says whether it is called for the first
  time, so that it removes a subscription.
\<close>

definition stop_list :: "bool \<Rightarrow> inbox_list \<Rightarrow> inbox_list" where
  "stop_list mounted s =
     abort_list_load (s\<lparr>list_active := False, list_generation := Suc (list_generation s),
       list_mounts := (if mounted then list_mounts s - 1 else list_mounts s)\<rparr>)"

definition list_event :: "bool \<Rightarrow> string \<Rightarrow> inbox_list \<Rightarrow> inbox_list" where
  "list_event for_items type s =
     (if (for_items \<and> type = ''personal.saved.changed'') \<or> (\<not> for_items \<and> type = ''personal.reminders.changed'')
      then (load_list False ^^ list_mounts s) s else s)"

definition list_focus :: "inbox_list \<Rightarrow> inbox_list" where
  "list_focus s = (load_list False ^^ list_mounts s) s"

definition subscribe_list :: "nat \<Rightarrow> inbox_list \<Rightarrow> inbox_list" where
  "subscribe_list l s = s\<lparr>list_listeners := sadd l (list_listeners s)\<rparr>"

definition unsubscribe_list :: "nat \<Rightarrow> inbox_list \<Rightarrow> inbox_list" where
  "unsubscribe_list l s = s\<lparr>list_listeners := sdel l (list_listeners s)\<rparr>"

datatype list_step =
    Load_list bool
  | List_answer nat "api_error + list_page"
  | Start_list
  | Stop_list bool
  | List_event string
  | List_focus
  | Subscribe_list nat
  | Unsubscribe_list nat

fun list_do :: "bool \<Rightarrow> inbox_list \<Rightarrow> list_step \<Rightarrow> inbox_list" where
  "list_do for_items s (Load_list further) = load_list further s"
| "list_do for_items s (List_answer r result) = list_answer for_items r result s"
| "list_do for_items s Start_list = start_list s"
| "list_do for_items s (Stop_list mounted) = stop_list mounted s"
| "list_do for_items s (List_event t) = list_event for_items t s"
| "list_do for_items s List_focus = list_focus s"
| "list_do for_items s (Subscribe_list l) = subscribe_list l s"
| "list_do for_items s (Unsubscribe_list l) = unsubscribe_list l s"

section \<open>Refreshes of the personal store\<close>

definition personal_inv :: "personal \<Rightarrow> bool" where
  "personal_inv s \<longleftrightarrow>
     distinct (map fst (refreshes s)) \<and>
     (reload_pending s \<longrightarrow> refresh_request s \<noteq> None) \<and>
     (refresh_request s \<noteq> None \<longrightarrow> nonempty (user (shown_personal s))) \<and>
     (\<forall>c. refresh_request s = Some c \<longrightarrow> (c, personal_generation s) \<in> set (refreshes s)) \<and>
     (\<forall>c g. (c, g) \<in> set (refreshes s) \<longrightarrow> c < refresh_controllers s \<and> g \<le> personal_generation s \<and>
        (g = personal_generation s \<longrightarrow> refresh_request s = Some c)) \<and>
     (\<forall>t \<in> set (toggles s). toggle_session t \<le> personal_generation s)"

lemma personal_invD:
  assumes "personal_inv s"
  shows "distinct (map fst (refreshes s))" "reload_pending s \<Longrightarrow> refresh_request s \<noteq> None"
    "refresh_request s \<noteq> None \<Longrightarrow> nonempty (user (shown_personal s))"
    "refresh_request s = Some c \<Longrightarrow> (c, personal_generation s) \<in> set (refreshes s)"
    "(c, g) \<in> set (refreshes s) \<Longrightarrow> c < refresh_controllers s"
    "(c, g) \<in> set (refreshes s) \<Longrightarrow> g \<le> personal_generation s"
    "(c, personal_generation s) \<in> set (refreshes s) \<Longrightarrow> refresh_request s = Some c"
    "t \<in> set (toggles s) \<Longrightarrow> toggle_session t \<le> personal_generation s"
  using assms unfolding personal_inv_def by blast+

lemma personal_invI:
  assumes "distinct (map fst (refreshes s))" "reload_pending s \<Longrightarrow> refresh_request s \<noteq> None"
    "refresh_request s \<noteq> None \<Longrightarrow> nonempty (user (shown_personal s))"
    "\<And>c. refresh_request s = Some c \<Longrightarrow> (c, personal_generation s) \<in> set (refreshes s)"
    "\<And>c g. (c, g) \<in> set (refreshes s) \<Longrightarrow> c < refresh_controllers s \<and> g \<le> personal_generation s"
    "\<And>c. (c, personal_generation s) \<in> set (refreshes s) \<Longrightarrow> refresh_request s = Some c"
    "\<And>t. t \<in> set (toggles s) \<Longrightarrow> toggle_session t \<le> personal_generation s"
  shows "personal_inv s"
  using assms unfolding personal_inv_def by blast

lemma update_personal_fields [simp]:
  "personal_generation (update_personal f s) = personal_generation s" "refresh_request (update_personal f s) = refresh_request s"
  "reload_pending (update_personal f s) = reload_pending s" "refreshes (update_personal f s) = refreshes s"
  "refresh_controllers (update_personal f s) = refresh_controllers s" "toggles (update_personal f s) = toggles s"
  "shown_personal (update_personal f s) = f (shown_personal s)" "refresh_aborted (update_personal f s) = refresh_aborted s"
  "personal_requests (update_personal f s) = personal_requests s" "personal_mounts (update_personal f s) = personal_mounts s"
  by (simp_all add: update_personal_def)

lemma personal_inv_update: "user (f (shown_personal s)) = user (shown_personal s) \<Longrightarrow> personal_inv (update_personal f s) = personal_inv s"
  by (simp add: personal_inv_def)

lemma inv_refresh:
  assumes inv: "personal_inv s" shows "personal_inv (refresh_personal s)"
proof (cases "nonempty (user (shown_personal s)) \<and> refresh_request s = None")
  case True
  note D = personal_invD [OF inv]
  have "personal_inv (s\<lparr>refresh_controllers := Suc (refresh_controllers s), refresh_request := Some (refresh_controllers s),
      refreshes := refreshes s @ [(refresh_controllers s, personal_generation s)],
      personal_requests := personal_requests s @ [Read_personal (refresh_controllers s)]\<rparr>)"
  proof (rule personal_invI, goal_cases)
    case 1
    have "refresh_controllers s \<notin> fst ` set (refreshes s)" using D(5) by force
    then show ?case using D(1) by simp
  next
    case (5 c g)
    then show ?case using D(5,6) [of c g] by auto
  next
    case (6 c)
    then show ?case using D(7) [of c] True by auto
  qed (use D(8) True in simp_all)
  then show ?thesis using True by (simp add: refresh_personal_def Let_def)
next
  case False
  note D = personal_invD [OF inv]
  have "personal_inv (s\<lparr>reload_pending := True\<rparr>)" if "refresh_request s \<noteq> None"
  proof (rule personal_invI, goal_cases)
    case (5 c g)
    then show ?case using D(5,6) [of c g] by simp
  next
    case (6 c)
    then show ?case using D(7) [of c] by simp
  next
    case (3)
    show ?case using D(3) that by simp
  next
    case (4 c)
    then show ?case using D(4) [of c] by simp
  qed (use D(1,8) that in simp_all)
  then show ?thesis using False inv by (auto simp: refresh_personal_def split: option.split)
qed

lemma inv_refreshes: "personal_inv s \<Longrightarrow> personal_inv ((refresh_personal ^^ n) s)"
  by (induction n) (simp_all add: inv_refresh)

lemma show_refresh_fields [simp]:
  "personal_generation (show_refresh c g r s) = personal_generation s" "refresh_request (show_refresh c g r s) = refresh_request s"
  "reload_pending (show_refresh c g r s) = reload_pending s" "refreshes (show_refresh c g r s) = refreshes s"
  "refresh_controllers (show_refresh c g r s) = refresh_controllers s" "toggles (show_refresh c g r s) = toggles s"
  "user (shown_personal (show_refresh c g r s)) = user (shown_personal s)"
  "personal_requests (show_refresh c g r s) = personal_requests s"
  by (simp_all add: show_refresh_def split: sum.split prod.split)

text \<open>The state between the answer to a refresh and the check for a pending reload.\<close>

definition after_refresh :: "nat \<Rightarrow> nat \<Rightarrow> api_error + (string list \<times> string list \<times> json list) \<Rightarrow> personal \<Rightarrow> personal" where
  "after_refresh c session result s =
     (let s = show_refresh c session result (s\<lparr>refreshes := jdel (refreshes s) c\<rparr>)
      in if refresh_request s = Some c then s\<lparr>refresh_request := None\<rparr> else s)"

lemma refresh_answer_alt:
  "refresh_answer c result s =
     (case jget (refreshes s) c of
        None \<Rightarrow> s
      | Some session \<Rightarrow>
          let s = after_refresh c session result s
          in if session = personal_generation s \<and> reload_pending s
             then refresh_personal (s\<lparr>reload_pending := False\<rparr>) else s)"
  by (simp add: refresh_answer_def after_refresh_def Let_def split: option.split)

lemma after_refresh_fields [simp]:
  "personal_generation (after_refresh c g r s) = personal_generation s"
  "reload_pending (after_refresh c g r s) = reload_pending s" "refreshes (after_refresh c g r s) = jdel (refreshes s) c"
  "refresh_controllers (after_refresh c g r s) = refresh_controllers s" "toggles (after_refresh c g r s) = toggles s"
  "user (shown_personal (after_refresh c g r s)) = user (shown_personal s)"
  "refresh_request (after_refresh c g r s) = (if refresh_request s = Some c then None else refresh_request s)"
  "personal_requests (after_refresh c g r s) = personal_requests s"
  by (simp_all add: after_refresh_def Let_def)

lemma jget_refreshes: "personal_inv s \<Longrightarrow> jget (refreshes s) c = Some g \<longleftrightarrow> (c, g) \<in> set (refreshes s)"
  using personal_invD(1) [of s] by (simp add: jget_def)

lemma inv_refresh_answer:
  assumes inv: "personal_inv s" shows "personal_inv (refresh_answer c result s)"
proof (cases "jget (refreshes s) c")
  case (Some g)
  let ?t = "after_refresh c g result s"
  have g: "(c, g) \<in> set (refreshes s)" using Some jget_refreshes [OF inv] by simp
  have del: "(d, h) \<in> set (jdel (refreshes s) c) \<longleftrightarrow> (d, h) \<in> set (refreshes s) \<and> d \<noteq> c" for d h
    by (auto simp: jdel_def)
  have dist: "distinct (map fst (jdel (refreshes s) c))"
    using personal_invD(1) [OF inv] distinct_jkeys_jdel [of "refreshes s" c] by (simp add: jkeys_def)
  note D = personal_invD [OF inv]
  have ready: "personal_inv (?t\<lparr>reload_pending := p\<rparr>)" if "p \<Longrightarrow> refresh_request ?t \<noteq> None" for p
  proof (rule personal_invI, goal_cases)
    case (3)
    then show ?case using D(3) by (simp split: if_splits)
  next
    case (4 d)
    then show ?case using D(4) by (simp add: del split: if_splits)
  next
    case (5 d h)
    then show ?case using D(5,6) [of d h] by (simp add: del)
  next
    case (6 d)
    then show ?case using D(7) [of d] by (simp add: del)
  qed (use D(8) dist that in simp_all)
  show ?thesis
  proof (cases "g = personal_generation s \<and> reload_pending s")
    case True
    then show ?thesis using Some inv_refresh [OF ready [of False]] by (simp add: refresh_answer_alt Let_def)
  next
    case False
    have "refresh_request s \<noteq> Some c" if "reload_pending s"
    proof
      assume "refresh_request s = Some c"
      from D(4) [OF this] g D(1) have "g = personal_generation s" by (simp add: eq_key_imp_eq_value)
      with that False show False by simp
    qed
    then have "personal_inv (?t\<lparr>reload_pending := reload_pending s\<rparr>)"
      using D(2) by (intro ready) simp
    moreover have "?t\<lparr>reload_pending := reload_pending s\<rparr> = ?t" by (rule personal.equality) simp_all
    ultimately have "personal_inv ?t" by (simp only:)
    then show ?thesis using False Some by (auto simp: refresh_answer_alt Let_def)
  qed
qed (simp add: refresh_answer_def inv)

lemma inv_next_session:
  assumes inv: "personal_inv s"
  shows "personal_inv (update_personal f ((abort_refresh s)\<lparr>personal_generation := Suc (personal_generation s)\<rparr>))"
proof (rule personal_invI, goal_cases)
  case (6 c)
  then show ?case using personal_invD(6) [OF inv, of c "Suc (personal_generation s)"] by (simp add: abort_refresh_def)
next
  case (5 c g)
  then show ?case using personal_invD(5,6) [OF inv, of c g] by (simp add: abort_refresh_def)
next
  case (7 t)
  then show ?case using personal_invD(8) [OF inv, of t] by (simp add: abort_refresh_def)
qed (use personal_invD(1) [OF inv] in \<open>simp_all add: abort_refresh_def\<close>)

lemma abort_then_next:
  "abort_refresh (s\<lparr>personal_generation := g\<rparr>) = (abort_refresh s)\<lparr>personal_generation := g\<rparr>"
  by (rule personal.equality) (simp_all add: abort_refresh_def split: option.split)

lemma abort_refresh_fields [simp]:
  "personal_generation (abort_refresh s) = personal_generation s" "personal_mounts (abort_refresh s) = personal_mounts s"
  "refreshes (abort_refresh s) = refreshes s" "toggles (abort_refresh s) = toggles s"
  "shown_personal (abort_refresh s) = shown_personal s" "refresh_request (abort_refresh s) = None"
  "reload_pending (abort_refresh s) = False"
  by (simp_all add: abort_refresh_def)

lemma inv_mounts [simp]: "personal_inv (s\<lparr>personal_mounts := ms\<rparr>) = personal_inv s"
  "personal_inv (s\<lparr>personal_requests := rs\<rparr>) = personal_inv s" "personal_inv (s\<lparr>personal_listeners := ls\<rparr>) = personal_inv s"
  by (simp_all add: personal_inv_def)

lemma inv_start_personal: "personal_inv s \<Longrightarrow> personal_inv (start_personal u s)"
  using inv_next_session [of s "\<lambda>_. empty_personal\<lparr>user := Some u\<rparr>"]
  by (simp add: start_personal_def Let_def inv_refresh)

lemma inv_stop_personal: "personal_inv s \<Longrightarrow> personal_inv (stop_personal m s)"
  using inv_next_session [of "s\<lparr>personal_mounts := (personal_mounts s)[m := (fst (personal_mounts s ! m), False)]\<rparr>" "\<lambda>p. empty_personal\<lparr>user := user p\<rparr>"]
  by (auto simp: stop_personal_def Let_def abort_then_next)

lemma inv_toggle: "personal_inv s \<Longrightarrow> toggle_saved k i s = Inr t \<Longrightarrow> personal_inv t"
proof -
  assume inv: "personal_inv s" and t: "toggle_saved k i s = Inr t"
  have "personal_inv (s\<lparr>toggles := toggles s @ [x], personal_requests := rs\<rparr>)" if "toggle_session x = personal_generation s" for x rs
    using inv that unfolding personal_inv_def by simp
  then show ?thesis using t by (auto simp: toggle_saved_def Let_def split: if_splits)
qed

lemma set_remove_nth: "set (take n xs @ drop (Suc n) xs) \<subseteq> set xs"
  by (auto dest: in_set_takeD in_set_dropD)

lemma toggles_inv: "personal_inv s \<Longrightarrow> set ts \<subseteq> set (toggles s) \<Longrightarrow> personal_inv (s\<lparr>toggles := ts\<rparr>)"
  unfolding personal_inv_def by (simp add: subset_iff)

lemma inv_toggle_answer: "personal_inv s \<Longrightarrow> personal_inv (toggle_answer n success s)"
proof -
  assume inv: "personal_inv s"
  have "personal_inv (s\<lparr>toggles := take n (toggles s) @ drop (Suc n) (toggles s)\<rparr>)"
    by (rule toggles_inv [OF inv]) (rule set_remove_nth)
  then show ?thesis using inv
    by (cases "toggle_kind (toggles s ! n)") (simp_all add: toggle_answer_def Let_def personal_inv_update)
qed

lemma inv_personal_do: "personal_inv s \<Longrightarrow> personal_inv (personal_do s e)"
  by (cases e)
    (auto simp: inv_refresh inv_refreshes inv_refresh_answer inv_start_personal inv_stop_personal inv_toggle_answer
      personal_event_def personal_focus_def personal_timer_def set_message_reminder_def cancel_message_reminder_def
      complete_message_reminder_def reminder_answer_def subscribe_personal_def unsubscribe_personal_def
      split: sum.split dest: inv_toggle)

lemma inv_new_personal [simp]: "personal_inv new_personal"
  by (simp add: personal_inv_def new_personal_def)

interpretation personal_runs: event_machine personal_do personal_inv
  by unfold_locales (rule inv_personal_do)

text \<open>
  C35. However refreshes are asked for and sessions started and stopped, the current session
  has at most one in flight, and a reload that was asked for meanwhile is not lost: the answer
  to the one in flight, good or bad, sends it.
\<close>

theorem personal_reload_is_served:
  assumes "s = foldl personal_do new_personal es"
  shows "length (filter (\<lambda>(c, g). g = personal_generation s) (refreshes s)) \<le> 1 \<and>
    (reload_pending s \<longrightarrow> (\<exists>c. refresh_request s = Some c \<and>
       (\<forall>result. \<exists>d. last (personal_requests (refresh_answer c result s)) = Read_personal d \<and>
          refresh_request (refresh_answer c result s) = Some d)))"
proof
  have inv: "personal_inv s" unfolding assms by (rule personal_runs.run_inv [OF inv_new_personal])
  note D = personal_invD [OF inv]
  let ?mine = "filter (\<lambda>(c, g). g = personal_generation s) (refreshes s)"
  have "map fst ?mine = [] \<or> set (map fst ?mine) \<subseteq> {the (refresh_request s)}"
    using D(7) by force
  moreover have "distinct (map fst ?mine)" using D(1) by (rule distinct_map_filter)
  ultimately have "length (map fst ?mine) \<le> 1"
    by (metis card_mono card.empty card_insert_disjoint distinct_card finite.emptyI finite_insert empty_iff list.size(3) One_nat_def zero_le)
  then show "length ?mine \<le> 1" by simp
  show "reload_pending s \<longrightarrow> (\<exists>c. refresh_request s = Some c \<and>
       (\<forall>result. \<exists>d. last (personal_requests (refresh_answer c result s)) = Read_personal d \<and>
          refresh_request (refresh_answer c result s) = Some d))"
  proof
    assume pending: "reload_pending s"
    then obtain c where c: "refresh_request s = Some c" using D(2) by blast
    then have "jget (refreshes s) c = Some (personal_generation s)" using D(4) jget_refreshes [OF inv] by blast
    then have "refresh_answer c result s = refresh_personal ((after_refresh c (personal_generation s) result s)\<lparr>reload_pending := False\<rparr>)" for result
      using pending by (simp add: refresh_answer_alt Let_def)
    moreover have "nonempty (user (shown_personal s))" using D(3) c by simp
    ultimately show "\<exists>c. refresh_request s = Some c \<and>
       (\<forall>result. \<exists>d. last (personal_requests (refresh_answer c result s)) = Read_personal d \<and>
          refresh_request (refresh_answer c result s) = Some d)"
      using c by (simp add: refresh_personal_def Let_def)
  qed
qed

theorem personal_reload_is_served_witness:
  "\<exists>c. refresh_request (foldl personal_do new_personal [Start_personal ''u'', Focus]) = Some c \<and>
     (\<forall>result. \<exists>d. last (personal_requests (refresh_answer c result (foldl personal_do new_personal [Start_personal ''u'', Focus]))) =
        Read_personal d \<and>
        refresh_request (refresh_answer c result (foldl personal_do new_personal [Start_personal ''u'', Focus])) = Some d)"
proof (rule personal_reload_is_served [OF refl, THEN conjunct2, rule_format])
  show "reload_pending (foldl personal_do new_personal [Start_personal ''u'', Focus])"
    by (simp add: new_personal_def start_personal_def refresh_personal_def update_personal_def abort_refresh_def
      empty_personal_def personal_focus_def live_personal_def Let_def)
qed

section \<open>After signing out\<close>

datatype late_answer =
    Late_refresh nat "api_error + (string list \<times> string list \<times> json list)"
  | Late_toggle nat bool

fun answer_late :: "personal \<Rightarrow> late_answer \<Rightarrow> personal" where
  "answer_late s (Late_refresh c r) = refresh_answer c r s"
| "answer_late s (Late_toggle n ok) = toggle_answer n ok s"

definition old_requests :: "personal \<Rightarrow> bool" where
  "old_requests s \<longleftrightarrow> (\<forall>e \<in> set (refreshes s). snd e \<noteq> personal_generation s) \<and>
     (\<forall>t \<in> set (toggles s). toggle_session t \<noteq> personal_generation s)"

definition personal_view :: "personal \<Rightarrow> personal_state \<times> nat list \<times> personal_request list" where
  "personal_view s = (shown_personal s, personal_calls s, personal_requests s)"

lemma late_answer_inert:
  assumes "old_requests s"
  shows "personal_view (answer_late s t) = personal_view s" and "old_requests (answer_late s t)"
proof -
  have refresh: "personal_view (refresh_answer c r s) = personal_view s \<and> old_requests (refresh_answer c r s)" for c r
  proof (cases "jget (refreshes s) c")
    case (Some g)
    then have "(c, g) \<in> set (refreshes s)" by (simp add: jget_def map_of_SomeD)
    then have "g \<noteq> personal_generation s" using assms by (auto simp: old_requests_def)
    then show ?thesis using Some assms
      by (simp add: refresh_answer_def show_refresh_def Let_def personal_view_def old_requests_def jdel_def)
  qed (simp add: refresh_answer_def assms)
  have toggle: "personal_view (toggle_answer n ok s) = personal_view s \<and> old_requests (toggle_answer n ok s)" for n ok
  proof (cases "n < length (toggles s)")
    case True
    then have "toggle_session (toggles s ! n) \<noteq> personal_generation s" using assms by (simp add: old_requests_def)
    then show ?thesis using assms set_remove_nth [of n "toggles s"]
      by (auto simp: toggle_answer_def Let_def personal_view_def old_requests_def subset_iff)
  qed (simp add: toggle_answer_def assms)
  show "personal_view (answer_late s t) = personal_view s" and "old_requests (answer_late s t)"
    using refresh toggle by (cases t; simp)+
qed

interpretation personal_session: session_guard answer_late "\<lambda>s _. old_requests s" personal_view
  by unfold_locales (simp_all add: late_answer_inert)

text \<open>
  Signing out empties what is shown, and the answers to the refreshes and to the saved items
  that were on their way change nothing, call no listener and ask the server for nothing.
\<close>

theorem signed_out_answers_are_inert:
  assumes "s = foldl personal_do new_personal es"
    and "m < length (personal_mounts s)" "fst (personal_mounts s ! m) = personal_generation s"
  shows "personal_view (foldl answer_late (stop_personal m s) answers) =
    (empty_personal\<lparr>user := user (shown_personal s)\<rparr>, personal_calls s @ personal_listeners s, personal_requests s)"
proof -
  have inv: "personal_inv s" unfolding assms(1) by (rule personal_runs.run_inv [OF inv_new_personal])
  have "g \<noteq> Suc (personal_generation s)" if "(c, g) \<in> set (refreshes s)" for c g
    using personal_invD(6) [OF inv that] by simp
  moreover have "toggle_session t \<noteq> Suc (personal_generation s)" if "t \<in> set (toggles s)" for t
    using personal_invD(8) [OF inv that] by simp
  ultimately have "old_requests (stop_personal m s)"
    using assms(2,3) by (auto simp: stop_personal_def Let_def old_requests_def)
  then have "personal_view (foldl answer_late (stop_personal m s) answers) = personal_view (stop_personal m s)"
    by (intro personal_session.stale_run) simp
  then show ?thesis using assms(2,3)
    by (simp add: stop_personal_def Let_def personal_view_def update_personal_def abort_refresh_def)
qed

theorem signed_out_answers_are_inert_witness:
  "personal_view (foldl answer_late (stop_personal 0 (foldl personal_do new_personal [Start_personal ''u'']))
      [Late_refresh 0 (Inr ([''m''], [], []))]) = (empty_personal\<lparr>user := Some ''u''\<rparr>, [], [Read_personal 0])"
  by (subst signed_out_answers_are_inert [OF refl])
    (simp_all add: new_personal_def start_personal_def refresh_personal_def update_personal_def abort_refresh_def
      empty_personal_def Let_def)

text \<open>
  But the user is not forgotten: a reminder that is confirmed after signing out refreshes the
  store, and the answer is shown, in the name of the user who has left.
\<close>

theorem signed_out_store_still_refreshes:
  "let s = foldl personal_do new_personal
       [Start_personal ''u'', Set_reminder ''r'' ''m'' ''d'' ''x'', Stop_personal 0, Reminder_answer True,
        Refresh_answer 1 (Inr ([''m''], [], []))]
   in user (shown_personal s) = Some ''u'' \<and> saved_messages (shown_personal s) = [''m''] \<and> personal_ready (shown_personal s) \<and>
     personal_requests s = [Read_personal 0, Put_reminder ''r'' ''m'' ''d'' ''x'', Read_personal 1]"
  by (simp add: new_personal_def start_personal_def stop_personal_def refresh_personal_def update_personal_def abort_refresh_def
      empty_personal_def set_message_reminder_def reminder_answer_def refresh_answer_def show_refresh_def jdel_def Let_def)

section \<open>Lists\<close>

definition list_numbers :: "inbox_list \<Rightarrow> bool" where
  "list_numbers s \<longleftrightarrow>
     (\<forall>c. list_controller s = Some c \<longrightarrow> c \<le> list_generation s) \<and>
     (\<forall>c \<in> set (list_aborted s). c \<le> list_generation s) \<and>
     (\<forall>e \<in> set (list_loads s). fst e \<le> list_generation s)"

definition list_inv :: "inbox_list \<Rightarrow> bool" where
  "list_inv s \<longleftrightarrow> list_numbers s \<and>
     (list_active s \<and> list_loading s \<longrightarrow>
        jget (list_loads s) (list_generation s) \<noteq> None \<and> list_generation s \<notin> set (list_aborted s))"

lemma list_numbersD:
  assumes "list_numbers s"
  shows "list_controller s = Some c \<Longrightarrow> c \<le> list_generation s" "c \<in> set (list_aborted s) \<Longrightarrow> c \<le> list_generation s"
    "e \<in> set (list_loads s) \<Longrightarrow> fst e \<le> list_generation s"
  using assms unfolding list_numbers_def by blast+

lemma abort_list_fields [simp]:
  "list_generation (abort_list_load s) = list_generation s" "list_active (abort_list_load s) = list_active s"
  "list_loading (abort_list_load s) = list_loading s" "list_loads (abort_list_load s) = list_loads s"
  "list_controller (abort_list_load s) = list_controller s" "list_items (abort_list_load s) = list_items s"
  by (simp_all add: abort_list_load_def)

lemma abort_list_old: "list_numbers s \<Longrightarrow> c \<in> set (list_aborted (abort_list_load s)) \<Longrightarrow> c \<le> list_generation s"
  using list_numbersD(1,2) [of s c] by (auto simp: abort_list_load_def split: option.splits)

lemma abort_numbers: "list_numbers s \<Longrightarrow> list_numbers (abort_list_load s)"
  unfolding list_numbers_def [of "abort_list_load s"] using abort_list_old list_numbersD(1,3) by fastforce

lemma update_list_fields [simp]:
  "list_inv (update_list f s) = list_inv (f s)" "list_generation (update_list f s) = list_generation (f s)"
  "list_loads (update_list f s) = list_loads (f s)" "list_aborted (update_list f s) = list_aborted (f s)"
  "list_items (update_list f s) = list_items (f s)" "list_loading (update_list f s) = list_loading (f s)"
  "list_active (update_list f s) = list_active (f s)" "list_controller (update_list f s) = list_controller (f s)"
  by (simp_all add: update_list_def Let_def list_inv_def list_numbers_def)

lemma load_list_loads:
  assumes num: "list_numbers s" and go: "list_active s" "\<not> (further \<and> list_loading s)"
  shows "list_inv (load_list further s)"
proof -
  have old: "fst e < Suc (list_generation s)" if "e \<in> set (list_loads s)" for e
    using list_numbersD(3) [OF num that] by simp
  then have "jget (list_loads s) (Suc (list_generation s)) = None"
    by (force simp: jget_None_iff jkeys_def)
  moreover have "c < Suc (list_generation s)" if "c \<in> set (list_aborted (abort_list_load s))" for c
    using abort_list_old [OF num that] by simp
  ultimately show ?thesis using go old
    by (auto simp: load_list_def Let_def list_inv_def list_numbers_def jget_snoc less_imp_le)
qed

lemma inv_load_list: "list_inv s \<Longrightarrow> list_inv (load_list further s)"
  using load_list_loads [of s further] by (cases "list_active s \<and> \<not> (further \<and> list_loading s)") (auto simp: load_list_def list_inv_def)

lemma inv_load_lists: "list_inv s \<Longrightarrow> list_inv ((load_list False ^^ n) s)"
  by (induction n) (simp_all add: inv_load_list)

lemma show_page_fields [simp]:
  "list_generation (show_page fi further r s) = list_generation s" "list_loads (show_page fi further r s) = list_loads s"
  "list_aborted (show_page fi further r s) = list_aborted s" "list_controller (show_page fi further r s) = list_controller s"
  "list_active (show_page fi further r s) = list_active s" "list_loading (show_page fi further r s) = list_loading s"
  by (simp_all add: show_page_def split: sum.split)

lemma numbers_answered: "list_numbers s \<Longrightarrow> list_numbers (s\<lparr>list_loads := jdel (list_loads s) r\<rparr>)"
  unfolding list_numbers_def by (simp add: jdel_def)

lemma inv_list_answer:
  assumes inv: "list_inv s" shows "list_inv (list_answer fi request result s)"
proof (cases "jget (list_loads s) request")
  case (Some further)
  let ?t = "s\<lparr>list_loads := jdel (list_loads s) request\<rparr>"
  have num: "list_numbers ?t" using inv by (simp add: list_inv_def numbers_answered)
  show ?thesis
  proof (cases "request \<in> set (list_aborted s) \<or> request \<noteq> list_generation s")
    case True
    then have "list_inv ?t" using inv num by (auto simp: list_inv_def)
    then show ?thesis using Some True by (simp add: list_answer_def Let_def)
  next
    case False
    have "list_inv ((show_page fi further result ?t)\<lparr>list_loading := False\<rparr>)"
      using num by (simp add: list_inv_def list_numbers_def)
    then show ?thesis using Some False by (auto simp: list_answer_def Let_def)
  qed
qed (simp add: list_answer_def inv)

lemma inv_stop_list: "list_inv s \<Longrightarrow> list_inv (stop_list mounted s)"
proof -
  assume "list_inv s"
  then have num: "list_numbers s" by (simp add: list_inv_def)
  have "list_numbers (s\<lparr>list_active := False, list_generation := Suc (list_generation s), list_mounts := n\<rparr>)" (is "list_numbers ?t") for n
    using list_numbersD [OF num] unfolding list_numbers_def by (simp add: le_SucI)
  then have "list_numbers (abort_list_load (s\<lparr>list_active := False, list_generation := Suc (list_generation s), list_mounts := n\<rparr>))" for n
    by (rule abort_numbers)
  then show ?thesis by (simp add: stop_list_def list_inv_def)
qed

lemma inv_start_list: "list_inv s \<Longrightarrow> list_inv (start_list s)"
  unfolding start_list_def by (rule load_list_loads) (simp_all add: list_inv_def list_numbers_def)

lemma inv_list_do: "list_inv s \<Longrightarrow> list_inv (list_do fi s e)"
proof -
  assume inv: "list_inv s"
  have "list_inv (subscribe_list l s)" "list_inv (unsubscribe_list l s)" for l
    using inv by (simp_all add: subscribe_list_def unsubscribe_list_def list_inv_def list_numbers_def)
  with inv show ?thesis
    by (cases e) (simp_all add: inv_load_list inv_load_lists inv_list_answer inv_start_list inv_stop_list list_event_def list_focus_def)
qed

lemma inv_new_list [simp]: "list_inv new_list"
  by (simp add: list_inv_def list_numbers_def new_list_def)

interpretation list_runs: event_machine "list_do fi" list_inv for fi
  by unfold_locales (rule inv_list_do)

text \<open>
  The loading mark of an open list never sticks: while it shows, the newest request of
  the list is in flight and not aborted, and its answer, good or bad, clears the mark.
\<close>

theorem list_loading_ends:
  assumes "s = foldl (list_do for_items) new_list es" and "list_active s" "list_loading s"
  shows "jget (list_loads s) (list_generation s) \<noteq> None \<and>
    (\<forall>result. \<not> list_loading (list_answer for_items (list_generation s) result s))"
proof -
  have "list_inv s" unfolding assms(1) by (rule list_runs.run_inv [OF inv_new_list])
  then obtain further where "jget (list_loads s) (list_generation s) = Some further" "list_generation s \<notin> set (list_aborted s)"
    using assms(2,3) by (auto simp: list_inv_def)
  then show ?thesis by (simp add: list_answer_def Let_def)
qed

theorem list_loading_ends_witness:
  "jget (list_loads (foldl (list_do True) new_list [Start_list])) (list_generation (foldl (list_do True) new_list [Start_list])) \<noteq> None \<and>
    (\<forall>result. \<not> list_loading (list_answer True (list_generation (foldl (list_do True) new_list [Start_list])) result
       (foldl (list_do True) new_list [Start_list])))"
  by (rule list_loading_ends [OF refl])
    (simp_all add: new_list_def start_list_def load_list_def update_list_def abort_list_load_def Let_def)

lemma by_key_extends: "\<exists>ks. jkeys (by_key key xs m) = jkeys m @ ks"
proof -
  have "\<exists>ks. jkeys (fold (\<lambda>x m. jset m (key x) x) xs m) = jkeys m @ ks"
  proof (induction xs arbitrary: m)
    case (Cons x xs)
    obtain ks where "jkeys (fold (\<lambda>x m. jset m (key x) x) xs (jset m (key x) x)) = jkeys (jset m (key x) x) @ ks"
      using Cons by blast
    then show ?case by (simp add: jkeys_jset split: if_splits)
  qed simp
  then show ?thesis by (simp add: by_key_def)
qed

lemma unique_by_append_keys:
  assumes "distinct (map key xs)"
  shows "\<exists>ks. map key (unique_by key (xs @ ys)) = map key xs @ ks"
proof -
  have "by_key key (xs @ ys) [] = by_key key ys (by_key key xs [])" by (simp add: by_key_def)
  moreover have "jkeys (by_key key xs []) = map key xs"
    using unique_by_id [OF assms] unique_by_keys [of key xs] by simp
  ultimately show ?thesis using by_key_extends [of key ys "by_key key xs []"] by (simp add: unique_by_keys)
qed

text \<open>
  Paging never shows an item twice and never loses one: the items of the earlier pages
  keep their places, the new ones follow, and an item that the page repeats is shown as the page
  has it.
\<close>

theorem paging_keeps_items:
  assumes "jget (list_loads s) (list_generation s) = Some True" "list_generation s \<notin> set (list_aborted s)"
    and "distinct (map fst (list_items s))"
  shows "(\<exists>ids. map fst (list_items (list_answer for_items (list_generation s) (Inr page) s)) = map fst (list_items s) @ ids) \<and>
    distinct (map fst (list_items (list_answer for_items (list_generation s) (Inr page) s))) \<and>
    set (list_items (list_answer for_items (list_generation s) (Inr page) s)) =
      {x \<in> set (list_items s @ page_of for_items page).
        x = last (filter (\<lambda>y. fst y = fst x) (list_items s @ page_of for_items page))}"
proof -
  let ?t = "list_answer for_items (list_generation s) (Inr page) s"
  have items: "list_items ?t = unique_by fst (list_items s @ page_of for_items page)"
    using assms(1,2) by (simp add: list_answer_def show_page_def Let_def)
  have "set (unique_by fst xs) = {x \<in> set xs. x = last (filter (\<lambda>y. fst y = fst x) xs)}" for xs :: "(string \<times> json) list"
    using unique_by_iff [of _ fst xs] by (metis (mono_tags, lifting) Collect_cong Collect_mem_eq)
  then show ?thesis
    unfolding items using unique_by_append_keys [OF assms(3)] unique_by_distinct by blast
qed

theorem paging_keeps_items_witness:
  "distinct (map fst (list_items (list_answer True 1 (Inr \<lparr>page_items = Some [(''b'', Null), (''a'', Bool True)],
      page_reminders = None, next_cursor = None\<rparr>)
    (new_list\<lparr>list_generation := 1, list_loads := [(1, True)], list_items := [(''a'', Null)]\<rparr>))))"
  using paging_keeps_items [of "new_list\<lparr>list_generation := 1, list_loads := [(1, True)], list_items := [(''a'', Null)]\<rparr>" True]
  by (simp add: new_list_def)

end
