(* ===== verification/VoiceRoute.thy ===== *)
theory VoiceRoute
  imports Prelude
begin

text \<open>
  Which way a call's voice goes: the part of \<open>MediaEngine\<close> (\<open>media/engine.ts\<close>) that watches
  the WebRTC connection to every participant and decides between the direct path and the
  encrypted relay.

  A \<open>Peer\<close> object with its \<open>RTCPeerConnection\<close> is a number; \<open>links\<close> has for every object ever
  made its participant and its \<open>connectionState\<close>. A timer is a number; \<open>armed\<close> has the timers
  that can still fire with what their closures hold. The calls of the relay, the signals
  sent, the ICE restarts and the events emitted are the list \<open>route_effects\<close>. Media streams,
  the negotiation and the native transports are not part of this record.
\<close>

section \<open>State\<close>

datatype rtc_state = New_link | Connecting_link | Connected_link | Disconnected_link | Failed_link | Closed_link

record rtc_link =
  link_peer :: string
  link_state :: rtc_state
  direct_microphone :: "nat option"
  disconnect_timer :: "nat option"

datatype relay_status = Relay_connecting | Relayed | Relay_unavailable

datatype route_timer =
    Relay_timer string nat
  | Stable_timer string nat
  | Disconnect_timer string nat

datatype route_effect =
    Send_unready string
  | Send_probe string string
  | Send_ready string string
  | Relay_start string
  | Relay_stop string
  | Relay_signal string
  | Relay_dispose
  | Restart_ice nat
  | Peer_state string rtc_state
  | Remote_track string nat
  | Remote_track_removed string

record voice_route =
  local_peer :: string
  has_relay :: bool
  automatic :: bool
  route_disposed :: bool
  route_peers :: "(string, nat) jsmap"
  links :: "rtc_link list"
  relay_tracks :: "(string, nat) jsmap"
  relay_states :: "(string, relay_status \<times> string option) jsmap"
  relay_timers :: "(string, nat) jsmap"
  stable_timers :: "(string, nat) jsmap"
  direct_ready :: "string list"
  direct_probe :: "(string, string) jsmap"
  armed :: "(nat, route_timer) jsmap"
  timers_made :: nat
  route_effects :: "route_effect list"

definition new_engine :: "string \<Rightarrow> bool \<Rightarrow> bool \<Rightarrow> voice_route" where
  "new_engine me relay auto = \<lparr>local_peer = me, has_relay = relay, automatic = auto, route_disposed = False,
     route_peers = [], links = [], relay_tracks = [], relay_states = [], relay_timers = [], stable_timers = [],
     direct_ready = [], direct_probe = [], armed = [], timers_made = 0, route_effects = []\<rparr>"

definition effect :: "route_effect list \<Rightarrow> voice_route \<Rightarrow> voice_route" where
  "effect es s = s\<lparr>route_effects := route_effects s @ es\<rparr>"

definition set_link :: "nat \<Rightarrow> (rtc_link \<Rightarrow> rtc_link) \<Rightarrow> voice_route \<Rightarrow> voice_route" where
  "set_link k f s = s\<lparr>links := (links s)[k := f (links s ! k)]\<rparr>"

text \<open>\<open>setTimeout\<close> and \<open>clearTimeout\<close>, the latter also with \<open>undefined\<close>.\<close>

definition arm :: "route_timer \<Rightarrow> voice_route \<Rightarrow> nat \<times> voice_route" where
  "arm t s = (timers_made s, s\<lparr>armed := armed s @ [(timers_made s, t)], timers_made := Suc (timers_made s)\<rparr>)"

definition disarm :: "nat option \<Rightarrow> voice_route \<Rightarrow> voice_route" where
  "disarm t s = (case t of None \<Rightarrow> s | Some i \<Rightarrow> s\<lparr>armed := jdel (armed s) i\<rparr>)"

section \<open>Routing\<close>

definition clear_relay_timer :: "string \<Rightarrow> voice_route \<Rightarrow> voice_route" where
  "clear_relay_timer p s = (let s = disarm (jget (relay_timers s) p) s in s\<lparr>relay_timers := jdel (relay_timers s) p\<rparr>)"

definition clear_stable_timer :: "string \<Rightarrow> voice_route \<Rightarrow> voice_route" where
  "clear_stable_timer p s = (let s = disarm (jget (stable_timers s) p) s in s\<lparr>stable_timers := jdel (stable_timers s) p\<rparr>)"

definition schedule_voice_relay :: "string \<Rightarrow> voice_route \<Rightarrow> voice_route" where
  "schedule_voice_relay p s =
     (if \<not> has_relay s then s
      else case jget (route_peers s) p of
          None \<Rightarrow> s
        | Some k \<Rightarrow>
            let s = clear_relay_timer p s; (t, s) = arm (Relay_timer p k) s
            in s\<lparr>relay_timers := jset (relay_timers s) p t\<rparr>)"

definition update_voice_route :: "string \<Rightarrow> voice_route \<Rightarrow> voice_route" where
  "update_voice_route p s =
     (if \<not> has_relay s then s
      else
        let s = clear_stable_timer p (clear_relay_timer p s)
        in case jget (route_peers s) p of
            None \<Rightarrow> s
          | Some k \<Rightarrow>
              if link_state (links s ! k) = Connected_link \<and> automatic s
              then let (t, s) = arm (Stable_timer p k) s in s\<lparr>stable_timers := jset (stable_timers s) p t\<rparr>
              else schedule_voice_relay p
                     (effect [Send_unready p]
                       (s\<lparr>direct_ready := sdel p (direct_ready s), direct_probe := jdel (direct_probe s) p\<rparr>)))"

text \<open>
  The callbacks of the relay, and \<open>voiceRelay.stop\<close>: when the relay holds the participant it
  takes back the track it has exposed and reports the participant unavailable before it
  returns. What the relay holds is given with the event: a participant and whether its track
  is exposed.
\<close>

definition relay_track :: "string \<Rightarrow> nat option \<Rightarrow> voice_route \<Rightarrow> voice_route" where
  "relay_track p track s =
     (case (if jget (route_peers s) p \<noteq> None \<and> \<not> route_disposed s then track else None) of
        Some t \<Rightarrow> effect [Remote_track p t] (s\<lparr>relay_tracks := jset (relay_tracks s) p t\<rparr>)
      | None \<Rightarrow>
          if jget (relay_tracks s) p = None then s
          else let s = s\<lparr>relay_tracks := jdel (relay_tracks s) p\<rparr>;
                   direct = (case jget (route_peers s) p of None \<Rightarrow> None | Some k \<Rightarrow> direct_microphone (links s ! k))
               in case direct of
                    Some t \<Rightarrow> effect [if route_disposed s then Remote_track_removed p else Remote_track p t] s
                  | None \<Rightarrow> effect [Remote_track_removed p] s)"

definition relay_state :: "string \<Rightarrow> relay_status \<Rightarrow> string option \<Rightarrow> voice_route \<Rightarrow> voice_route" where
  "relay_state p st message s =
     (if jget (route_peers s) p = None \<or> route_disposed s then s
      else if st = Relay_unavailable \<and> p \<in> set (direct_ready s) then s\<lparr>relay_states := jdel (relay_states s) p\<rparr>
      else s\<lparr>relay_states := jset (relay_states s) p (st, message)\<rparr>)"

definition relay_releases :: "string \<Rightarrow> bool \<Rightarrow> voice_route \<Rightarrow> voice_route" where
  "relay_releases p exposed s = relay_state p Relay_unavailable None (if exposed then relay_track p None s else s)"

type_synonym held = "(string, bool) jsmap"

definition stop_relay :: "held \<Rightarrow> string \<Rightarrow> voice_route \<Rightarrow> voice_route" where
  "stop_relay held p s =
     (let s = effect [Relay_stop p] s
      in case jget held p of None \<Rightarrow> s | Some exposed \<Rightarrow> relay_releases p exposed s)"

definition restore_direct_voice :: "held \<Rightarrow> string \<Rightarrow> voice_route \<Rightarrow> voice_route" where
  "restore_direct_voice held p s =
     (if p \<notin> set (direct_ready s) then s
      else let s = clear_relay_timer p s;
               s = stop_relay held p (s\<lparr>direct_probe := jdel (direct_probe s) p\<rparr>)
           in s\<lparr>relay_states := jdel (relay_states s) p\<rparr>)"

section \<open>Participants\<close>

definition add_peer :: "string \<Rightarrow> voice_route \<Rightarrow> voice_route" where
  "add_peer p s =
     (if route_disposed s \<or> p = local_peer s \<or> jget (route_peers s) p \<noteq> None then s
      else update_voice_route p
        (s\<lparr>route_peers := jset (route_peers s) p (length (links s)),
           links := links s @ [\<lparr>link_peer = p, link_state = New_link, direct_microphone = None, disconnect_timer = None\<rparr>]\<rparr>))"

definition remove_peer :: "held \<Rightarrow> string \<Rightarrow> voice_route \<Rightarrow> voice_route" where
  "remove_peer held p s =
     (let s = clear_stable_timer p (clear_relay_timer p s);
          s = (if has_relay s then stop_relay held p s else s);
          s = s\<lparr>relay_tracks := jdel (relay_tracks s) p, relay_states := jdel (relay_states s) p,
                direct_ready := sdel p (direct_ready s), direct_probe := jdel (direct_probe s) p\<rparr>
      in case jget (route_peers s) p of
           None \<Rightarrow> s
         | Some k \<Rightarrow>
             let s = disarm (disconnect_timer (links s ! k)) s;
                 s = set_link k (\<lambda>l. l\<lparr>link_state := Closed_link\<rparr>) s
             in s\<lparr>route_peers := jdel (route_peers s) p\<rparr>)"

text \<open>\<open>pc.onconnectionstatechange\<close>; a closed connection reports nothing any more.\<close>

definition link_changed :: "nat \<Rightarrow> rtc_state \<Rightarrow> voice_route \<Rightarrow> voice_route" where
  "link_changed k st s =
     (let p = link_peer (links s ! k);
          s = update_voice_route p (effect [Peer_state p st] (set_link k (\<lambda>l. l\<lparr>link_state := st\<rparr>) s))
      in disarm (disconnect_timer (links s ! k)) s)"

definition watch_disconnect :: "nat \<Rightarrow> voice_route \<Rightarrow> voice_route" where
  "watch_disconnect k s =
     (let (t, s) = arm (Disconnect_timer (link_peer (links s ! k)) k) s in set_link k (\<lambda>l. l\<lparr>disconnect_timer := Some t\<rparr>) s)"

definition connection_changes :: "nat \<Rightarrow> rtc_state \<Rightarrow> voice_route \<Rightarrow> voice_route" where
  "connection_changes k st s =
     (if k \<ge> length (links s) \<or> link_state (links s ! k) = Closed_link \<or> st = Closed_link then s
      else
        let s = link_changed k st s
        in if st = Failed_link then effect [Restart_ice k] s
           else if st = Disconnected_link then watch_disconnect k s else s)"

definition is_peer :: "string \<Rightarrow> nat \<Rightarrow> voice_route \<Rightarrow> bool" where
  "is_peer p k s \<longleftrightarrow> jget (route_peers s) p = Some k"

definition timer_fires :: "nat \<Rightarrow> string \<Rightarrow> voice_route \<Rightarrow> voice_route" where
  "timer_fires i nonce s =
     (case jget (armed s) i of
        None \<Rightarrow> s
      | Some t \<Rightarrow>
          let s = s\<lparr>armed := jdel (armed s) i\<rparr>
          in case t of
            Stable_timer p k \<Rightarrow>
              let s = s\<lparr>stable_timers := jdel (stable_timers s) p\<rparr>
              in if \<not> is_peer p k s \<or> link_state (links s ! k) \<noteq> Connected_link then s
                 else effect [Send_probe p nonce]
                        (s\<lparr>direct_ready := sadd p (direct_ready s), direct_probe := jset (direct_probe s) p nonce\<rparr>)
          | Relay_timer p k \<Rightarrow>
              let s = s\<lparr>relay_timers := jdel (relay_timers s) p\<rparr>
              in if route_disposed s \<or> \<not> is_peer p k s then s else effect [Relay_start p] s
          | Disconnect_timer p k \<Rightarrow>
              if \<not> route_disposed s \<and> is_peer p k s \<and> link_state (links s ! k) = Disconnected_link
              then effect [Restart_ice k] s else s)"

text \<open>The promise of \<open>voiceRelay.start\<close> is rejected.\<close>

definition relay_start_fails :: "string \<Rightarrow> string \<Rightarrow> voice_route \<Rightarrow> voice_route" where
  "relay_start_fails p message s = s\<lparr>relay_states := jset (relay_states s) p (Relay_unavailable, Some message)\<rparr>"

section \<open>Signals\<close>

datatype relay_data =
    Direct_probe "string option"
  | Direct_ready "string option"
  | Direct_unready
  | Other_data

definition handle_relay_signal :: "held \<Rightarrow> string option \<Rightarrow> relay_data \<Rightarrow> voice_route \<Rightarrow> voice_route" where
  "handle_relay_signal held from data s =
     (if route_disposed s \<or> \<not> has_relay s \<or> \<not> nonempty from \<or> jget (route_peers s) (the from) = None then s
      else let p = the from in case data of
          Direct_probe nonce \<Rightarrow>
            (case nonce of
               Some n \<Rightarrow> if p \<in> set (direct_ready s) \<and> length n \<le> 64 then effect [Send_ready p n] s else s
             | None \<Rightarrow> s)
        | Direct_ready nonce \<Rightarrow>
            (case nonce of
               Some n \<Rightarrow> if jget (direct_probe s) p = Some n then restore_direct_voice held p s else s
             | None \<Rightarrow> s)
        | Direct_unready \<Rightarrow> schedule_voice_relay p (s\<lparr>direct_probe := jdel (direct_probe s) p\<rparr>)
        | Other_data \<Rightarrow> effect [Relay_signal p] s)"

definition direct_track :: "nat \<Rightarrow> nat option \<Rightarrow> voice_route \<Rightarrow> voice_route" where
  "direct_track k t s = (if k < length (links s) then set_link k (\<lambda>l. l\<lparr>direct_microphone := t\<rparr>) s else s)"

definition dispose_engine :: "held \<Rightarrow> voice_route \<Rightarrow> voice_route" where
  "dispose_engine held s =
     (if route_disposed s then s
      else
        let s = s\<lparr>route_disposed := True\<rparr>;
            s = (if has_relay s then fold (\<lambda>(p, exposed). relay_releases p exposed) held (effect [Relay_dispose] s) else s)
        in fold (remove_peer []) (jkeys (route_peers s)) s)"

datatype route_event =
    Add_peer string
  | Remove_peer held string
  | Connection_changes nat rtc_state
  | Timer_fires nat string
  | Relay_start_fails string string
  | Relay_data held "string option" relay_data
  | Relay_track string "nat option"
  | Relay_state string relay_status "string option"
  | Direct_track nat "nat option"
  | Dispose_engine held

fun route_step :: "voice_route \<Rightarrow> route_event \<Rightarrow> voice_route" where
  "route_step s (Add_peer p) = add_peer p s"
| "route_step s (Remove_peer held p) = remove_peer held p s"
| "route_step s (Connection_changes k st) = connection_changes k st s"
| "route_step s (Timer_fires i nonce) = timer_fires i nonce s"
| "route_step s (Relay_start_fails p e) = relay_start_fails p e s"
| "route_step s (Relay_data held from d) = handle_relay_signal held from d s"
| "route_step s (Relay_track p t) = relay_track p t s"
| "route_step s (Relay_state p st m) = relay_state p st m s"
| "route_step s (Direct_track k t) = direct_track k t s"
| "route_step s (Dispose_engine held) = dispose_engine held s"

section \<open>What the parts of the state promise\<close>

fun timer_ok :: "voice_route \<Rightarrow> nat \<Rightarrow> route_timer \<Rightarrow> bool" where
  "timer_ok s i (Relay_timer p k) \<longleftrightarrow> jget (relay_timers s) p = Some i \<and> is_peer p k s"
| "timer_ok s i (Stable_timer p k) \<longleftrightarrow> jget (stable_timers s) p = Some i \<and> is_peer p k s \<and> automatic s \<and> has_relay s"
| "timer_ok s i (Disconnect_timer p k) \<longleftrightarrow> k < length (links s) \<and> disconnect_timer (links s ! k) = Some i \<and> is_peer p k s"

definition timers_inv :: "voice_route \<Rightarrow> bool" where
  "timers_inv s \<longleftrightarrow> distinct (jkeys (armed s)) \<and> (\<forall>i t. jget (armed s) i = Some t \<longrightarrow> i < timers_made s \<and> timer_ok s i t) \<and>
     (\<forall>p i. jget (relay_timers s) p = Some i \<longrightarrow> (\<exists>k. jget (armed s) i = Some (Relay_timer p k))) \<and>
     (\<forall>p i. jget (stable_timers s) p = Some i \<longrightarrow> (\<exists>k. jget (armed s) i = Some (Stable_timer p k))) \<and>
     (\<forall>k < length (links s). \<forall>i. disconnect_timer (links s ! k) = Some i \<longrightarrow>
        i < timers_made s \<and> (\<forall>t. jget (armed s) i = Some t \<longrightarrow> t = Disconnect_timer (link_peer (links s ! k)) k))"

definition peers_inv :: "voice_route \<Rightarrow> bool" where
  "peers_inv s \<longleftrightarrow>
     (\<forall>p k. is_peer p k s \<longrightarrow> k < length (links s) \<and> link_peer (links s ! k) = p \<and> link_state (links s ! k) \<noteq> Closed_link) \<and>
     (\<forall>k < length (links s). link_state (links s ! k) \<noteq> Closed_link \<longrightarrow> is_peer (link_peer (links s ! k)) k s)"

definition direct_link :: "voice_route \<Rightarrow> string \<Rightarrow> bool" where
  "direct_link s p \<longleftrightarrow> automatic s \<and> (\<exists>k. is_peer p k s \<and> link_state (links s ! k) = Connected_link)"

text \<open>The sets are the participants for which an operation at work has yet to restore it.\<close>

definition ready_inv :: "string set \<Rightarrow> voice_route \<Rightarrow> bool" where
  "ready_inv F s \<longleftrightarrow> (\<not> has_relay s \<longrightarrow> direct_ready s = [] \<and> direct_probe s = []) \<and>
     (\<forall>p \<in> set (direct_ready s) - F. direct_link s p) \<and>
     (\<forall>p n. jget (direct_probe s) p = Some n \<longrightarrow> p \<in> set (direct_ready s) \<and> Send_probe p n \<in> set (route_effects s))"

fun asked_by :: "string \<Rightarrow> bool \<Rightarrow> route_effect \<Rightarrow> bool" where
  "asked_by p b (Relay_start q) = (q = p \<or> b)"
| "asked_by p b (Relay_stop q) = (q \<noteq> p \<and> b)"
| "asked_by p b Relay_dispose = False"
| "asked_by p b e = b"

text \<open>Whether the relay was last asked to carry the voice of \<open>p\<close>.\<close>

definition relay_asked :: "voice_route \<Rightarrow> string \<Rightarrow> bool" where
  "relay_asked s p = foldl (asked_by p) False (route_effects s)"

definition path_inv :: "string set \<Rightarrow> voice_route \<Rightarrow> bool" where
  "path_inv G s \<longleftrightarrow> (has_relay s \<longrightarrow>
     (\<forall>p k. is_peer p k s \<longrightarrow> p \<notin> G \<longrightarrow> direct_link s p \<or> jget (relay_timers s) p \<noteq> None \<or> relay_asked s p))"

section \<open>Timers\<close>

lemma timers_invD:
  assumes "timers_inv s"
  shows "distinct (jkeys (armed s))" "jget (armed s) i = Some t \<Longrightarrow> i < timers_made s" "jget (armed s) i = Some t \<Longrightarrow> timer_ok s i t"
    "jget (relay_timers s) p = Some i \<Longrightarrow> \<exists>k. jget (armed s) i = Some (Relay_timer p k)"
    "jget (stable_timers s) p = Some i \<Longrightarrow> \<exists>k. jget (armed s) i = Some (Stable_timer p k)"
    "k < length (links s) \<Longrightarrow> disconnect_timer (links s ! k) = Some i \<Longrightarrow> i < timers_made s"
    "k < length (links s) \<Longrightarrow> disconnect_timer (links s ! k) = Some i \<Longrightarrow> jget (armed s) i = Some t \<Longrightarrow>
      t = Disconnect_timer (link_peer (links s ! k)) k"
  using assms unfolding timers_inv_def by blast+

lemma timers_invI:
  assumes "distinct (jkeys (armed s))" "\<And>i t. jget (armed s) i = Some t \<Longrightarrow> i < timers_made s"
    "\<And>i t. jget (armed s) i = Some t \<Longrightarrow> timer_ok s i t"
    "\<And>p i. jget (relay_timers s) p = Some i \<Longrightarrow> \<exists>k. jget (armed s) i = Some (Relay_timer p k)"
    "\<And>p i. jget (stable_timers s) p = Some i \<Longrightarrow> \<exists>k. jget (armed s) i = Some (Stable_timer p k)"
    "\<And>k i. k < length (links s) \<Longrightarrow> disconnect_timer (links s ! k) = Some i \<Longrightarrow> i < timers_made s"
    "\<And>k i t. k < length (links s) \<Longrightarrow> disconnect_timer (links s ! k) = Some i \<Longrightarrow> jget (armed s) i = Some t \<Longrightarrow>
      t = Disconnect_timer (link_peer (links s ! k)) k"
  shows "timers_inv s"
  unfolding timers_inv_def using assms by blast

lemma timers_inv_cong:
  assumes "armed s = armed t" "timers_made s = timers_made t" "relay_timers s = relay_timers t"
    "stable_timers s = stable_timers t" "route_peers s = route_peers t"
    "automatic s = automatic t" "has_relay s = has_relay t"
    "map (\<lambda>l. (link_peer l, disconnect_timer l)) (links s) = map (\<lambda>l. (link_peer l, disconnect_timer l)) (links t)"
  shows "timers_inv s = timers_inv t"
proof -
  have len: "length (links s) = length (links t)" using assms(8) by (metis length_map)
  have same: "link_peer (links s ! k) = link_peer (links t ! k) \<and> disconnect_timer (links s ! k) = disconnect_timer (links t ! k)"
    if "k < length (links t)" for k
    using assms(8) that len by (metis (mono_tags, lifting) nth_map prod.inject)
  have "timer_ok s i r = timer_ok t i r" for i r
    by (cases r) (use same len assms(3-7) in \<open>auto simp: is_peer_def\<close>)
  then show ?thesis
    unfolding timers_inv_def assms(1-4) len using same by (simp cong: conj_cong)
qed

lemma fresh_timer: "timers_inv s \<Longrightarrow> jget (armed s) (timers_made s) = None"
  using timers_invD(2) [of s "timers_made s"] by (cases "jget (armed s) (timers_made s)") auto

lemma timers_clear_relay: "timers_inv s \<Longrightarrow> timers_inv (clear_relay_timer p s)"
proof (cases "jget (relay_timers s) p")
  case None
  assume "timers_inv s"
  moreover have "timer_ok (clear_relay_timer p s) i r = timer_ok s i r" for i r
    using None by (cases r) (auto simp: clear_relay_timer_def disarm_def is_peer_def)
  ultimately show ?thesis using None
    unfolding timers_inv_def by (auto simp: clear_relay_timer_def disarm_def)
next
  case (Some i)
  assume inv: "timers_inv s"
  note D = timers_invD [OF inv]
  obtain k where k: "jget (armed s) i = Some (Relay_timer p k)" using D(4) [OF Some] by blast
  let ?t = "clear_relay_timer p s"
  have t: "armed ?t = jdel (armed s) i" "relay_timers ?t = jdel (relay_timers s) p" "stable_timers ?t = stable_timers s"
      "links ?t = links s" "timers_made ?t = timers_made s" "is_peer q m ?t = is_peer q m s"
      "automatic ?t = automatic s" "has_relay ?t = has_relay s" for q m
    using Some by (simp_all add: clear_relay_timer_def disarm_def Let_def is_peer_def)
  show ?thesis
  proof (rule timers_invI, goal_cases)
    case (3 j r)
    then have "j \<noteq> i" "jget (armed s) j = Some r" by (auto simp: t split: if_splits)
    with D(3) [of j r] show ?case by (cases r) (use k in \<open>auto simp: t Some\<close>)
  next
    case (4 q j)
    then show ?case using D(4) [of q j] k by (auto simp: t split: if_splits)
  next
    case (5 q j)
    then show ?case using D(5) [of q j] k by (auto simp: t)
  next
    case (7 m j r)
    then show ?case using D(7) [of m j r] by (auto simp: t split: if_splits)
  qed (use D(1,2,6) in \<open>auto simp: t split: if_splits\<close>)
qed

lemma timers_clear_stable: "timers_inv s \<Longrightarrow> timers_inv (clear_stable_timer p s)"
proof (cases "jget (stable_timers s) p")
  case None
  assume "timers_inv s"
  moreover have "timer_ok (clear_stable_timer p s) i r = timer_ok s i r" for i r
    using None by (cases r) (auto simp: clear_stable_timer_def disarm_def is_peer_def)
  ultimately show ?thesis using None
    unfolding timers_inv_def by (auto simp: clear_stable_timer_def disarm_def)
next
  case (Some i)
  assume inv: "timers_inv s"
  note D = timers_invD [OF inv]
  obtain k where k: "jget (armed s) i = Some (Stable_timer p k)" using D(5) [OF Some] by blast
  let ?t = "clear_stable_timer p s"
  have t: "armed ?t = jdel (armed s) i" "stable_timers ?t = jdel (stable_timers s) p" "relay_timers ?t = relay_timers s"
      "links ?t = links s" "timers_made ?t = timers_made s" "is_peer q m ?t = is_peer q m s"
      "automatic ?t = automatic s" "has_relay ?t = has_relay s" for q m
    using Some by (simp_all add: clear_stable_timer_def disarm_def Let_def is_peer_def)
  show ?thesis
  proof (rule timers_invI, goal_cases)
    case (3 j r)
    then have "j \<noteq> i" "jget (armed s) j = Some r" by (auto simp: t split: if_splits)
    with D(3) [of j r] show ?case by (cases r) (use k in \<open>auto simp: t Some\<close>)
  next
    case (4 q j)
    then show ?case using D(4) [of q j] k by (auto simp: t)
  next
    case (5 q j)
    then show ?case using D(5) [of q j] k by (auto simp: t split: if_splits)
  next
    case (7 m j r)
    then show ?case using D(7) [of m j r] by (auto simp: t split: if_splits)
  qed (use D(1,2,6) in \<open>auto simp: t split: if_splits\<close>)
qed

lemma clear_fields [simp]:
  "links (clear_relay_timer p s) = links s" "route_peers (clear_relay_timer p s) = route_peers s"
  "has_relay (clear_relay_timer p s) = has_relay s" "automatic (clear_relay_timer p s) = automatic s"
  "direct_ready (clear_relay_timer p s) = direct_ready s" "direct_probe (clear_relay_timer p s) = direct_probe s"
  "route_effects (clear_relay_timer p s) = route_effects s" "stable_timers (clear_relay_timer p s) = stable_timers s"
  "relay_timers (clear_relay_timer p s) = jdel (relay_timers s) p" "route_disposed (clear_relay_timer p s) = route_disposed s"
  "timers_made (clear_relay_timer p s) = timers_made s" "local_peer (clear_relay_timer p s) = local_peer s"
  "links (clear_stable_timer p s) = links s" "route_peers (clear_stable_timer p s) = route_peers s"
  "has_relay (clear_stable_timer p s) = has_relay s" "automatic (clear_stable_timer p s) = automatic s"
  "direct_ready (clear_stable_timer p s) = direct_ready s" "direct_probe (clear_stable_timer p s) = direct_probe s"
  "route_effects (clear_stable_timer p s) = route_effects s" "relay_timers (clear_stable_timer p s) = relay_timers s"
  "stable_timers (clear_stable_timer p s) = jdel (stable_timers s) p" "route_disposed (clear_stable_timer p s) = route_disposed s"
  "timers_made (clear_stable_timer p s) = timers_made s" "local_peer (clear_stable_timer p s) = local_peer s"
  by (simp_all add: clear_relay_timer_def clear_stable_timer_def disarm_def Let_def split: option.split)

lemma timers_arm_relay:
  assumes inv: "timers_inv s" and none: "jget (relay_timers s) p = None" and p: "is_peer p k s"
  shows "timers_inv (s\<lparr>armed := armed s @ [(timers_made s, Relay_timer p k)], timers_made := Suc (timers_made s),
    relay_timers := jset (relay_timers s) p (timers_made s)\<rparr>)" (is "timers_inv ?t")
proof -
  note D = timers_invD [OF inv] and fresh = fresh_timer [OF inv]
  have new: "jget (armed ?t) i = (if i = timers_made s then Some (Relay_timer p k) else jget (armed s) i)" for i
    using fresh by (simp add: jget_snoc split: option.split)
  have peer: "is_peer q m ?t = is_peer q m s" for q m by (simp add: is_peer_def)
  show ?thesis
  proof (rule timers_invI, goal_cases)
    case 1
    then show ?case using D(1) fresh by (simp add: jkeys_def jget_None_iff)
  next
    case (2 i r)
    then show ?case using D(2) [of i r] unfolding new by (auto split: if_splits)
  next
    case (3 i r)
    then show ?case using D(2,3) [of i r] p none unfolding new by (cases r) (auto simp: peer split: if_splits)
  next
    case (4 q i)
    then show ?case using D(4) [of q i] fresh unfolding new by (auto split: if_splits)
  next
    case (5 q i)
    then show ?case using D(5) [of q i] fresh unfolding new by auto
  next
    case (6 m i)
    then show ?case using D(6) [of m i] by simp
  next
    case (7 m i r)
    then show ?case using D(6,7) [of m i] unfolding new by (auto split: if_splits)
  qed
qed

lemma timers_arm_stable:
  assumes inv: "timers_inv s" and none: "jget (stable_timers s) p = None" and p: "is_peer p k s"
    and auto: "automatic s" "has_relay s"
  shows "timers_inv (s\<lparr>armed := armed s @ [(timers_made s, Stable_timer p k)], timers_made := Suc (timers_made s),
    stable_timers := jset (stable_timers s) p (timers_made s)\<rparr>)" (is "timers_inv ?t")
proof -
  note D = timers_invD [OF inv] and fresh = fresh_timer [OF inv]
  have new: "jget (armed ?t) i = (if i = timers_made s then Some (Stable_timer p k) else jget (armed s) i)" for i
    using fresh by (simp add: jget_snoc split: option.split)
  have peer: "is_peer q m ?t = is_peer q m s" for q m by (simp add: is_peer_def)
  show ?thesis
  proof (rule timers_invI, goal_cases)
    case 1
    then show ?case using D(1) fresh by (simp add: jkeys_def jget_None_iff)
  next
    case (2 i r)
    then show ?case using D(2) [of i r] unfolding new by (auto split: if_splits)
  next
    case (3 i r)
    then show ?case using D(2,3) [of i r] p none auto unfolding new by (cases r) (auto simp: peer split: if_splits)
  next
    case (4 q i)
    then show ?case using D(4) [of q i] fresh unfolding new by auto
  next
    case (5 q i)
    then show ?case using D(5) [of q i] fresh unfolding new by (auto split: if_splits)
  next
    case (6 m i)
    then show ?case using D(6) [of m i] by simp
  next
    case (7 m i r)
    then show ?case using D(6,7) [of m i] unfolding new by (auto split: if_splits)
  qed
qed

lemma timers_disarm_link:
  assumes inv: "timers_inv s" and k: "k < length (links s)"
  shows "timers_inv (disarm (disconnect_timer (links s ! k)) s)"
proof (cases "disconnect_timer (links s ! k)")
  case (Some i)
  note D = timers_invD [OF inv]
  have only: "jget (armed s) i = Some t \<Longrightarrow> t = Disconnect_timer (link_peer (links s ! k)) k" for t
    using D(7) [OF k Some] .
  let ?t = "s\<lparr>armed := jdel (armed s) i\<rparr>"
  have "timers_inv ?t"
  proof (rule timers_invI, goal_cases)
    case (3 j r)
    then have "jget (armed s) j = Some r" by (auto split: if_splits)
    with D(3) [of j r] show ?case by (cases r) (auto simp: is_peer_def)
  next
    case (4 q j)
    then show ?case using D(4) [of q j] only by auto
  next
    case (5 q j)
    then show ?case using D(5) [of q j] only by auto
  next
    case (7 m j r)
    then show ?case using D(7) [of m j r] by (auto split: if_splits)
  qed (use D(1,2,6) in \<open>auto split: if_splits\<close>)
  then show ?thesis by (simp add: disarm_def Some)
qed (simp add: disarm_def inv)

lemma disarm_self: "t = Some i \<Longrightarrow> jget (armed (disarm t s)) i = None"
  by (simp add: disarm_def)

lemma disarm_link_gone:
  assumes "disconnect_timer (links s ! k) = Some i" "timers_inv s"
  shows "jget (armed (disarm (disconnect_timer (links s ! k)) s)) i = None"
  using assms by (simp add: disarm_def)

lemma timers_arm_disconnect:
  assumes inv: "timers_inv s" and k: "k < length (links s)" and p: "is_peer (link_peer (links s ! k)) k s"
    and gone: "\<And>i. disconnect_timer (links s ! k) = Some i \<Longrightarrow> jget (armed s) i = None"
  shows "timers_inv (s\<lparr>armed := armed s @ [(timers_made s, Disconnect_timer (link_peer (links s ! k)) k)],
    timers_made := Suc (timers_made s), links := (links s)[k := (links s ! k)\<lparr>disconnect_timer := Some (timers_made s)\<rparr>]\<rparr>)"
    (is "timers_inv ?t")
proof -
  note D = timers_invD [OF inv] and fresh = fresh_timer [OF inv]
  have new: "jget (armed ?t) i = (if i = timers_made s then Some (Disconnect_timer (link_peer (links s ! k)) k) else jget (armed s) i)" for i
    using fresh by (simp add: jget_snoc split: option.split)
  have peer: "is_peer q m ?t = is_peer q m s" for q m by (simp add: is_peer_def)
  have lnk: "disconnect_timer (links ?t ! m) = (if m = k then Some (timers_made s) else disconnect_timer (links s ! m))"
      "link_peer (links ?t ! m) = link_peer (links s ! m)" for m
    using k by (simp_all add: nth_list_update)
  show ?thesis
  proof (rule timers_invI, goal_cases)
    case 1
    then show ?case using D(1) fresh by (simp add: jkeys_def jget_None_iff)
  next
    case (2 i r)
    then show ?case using D(2) [of i r] unfolding new by (auto split: if_splits)
  next
    case (3 i r)
    then show ?case using D(2,3) [of i r] p k gone unfolding new by (cases r) (auto simp: peer nth_list_update split: if_splits)
  next
    case (4 q i)
    then show ?case using D(4) [of q i] fresh unfolding new by auto
  next
    case (5 q i)
    then show ?case using D(5) [of q i] fresh unfolding new by auto
  next
    case (6 m i)
    then show ?case using D(6) [of m i] unfolding lnk by (auto split: if_splits)
  next
    case (7 m i r)
    then show ?case using D(6,7) [of m i] unfolding new lnk by (auto split: if_splits)
  qed
qed

lemma timers_drop_peer:
  assumes inv: "timers_inv s" and p: "is_peer p k s"
    and none: "jget (relay_timers s) p = None" "jget (stable_timers s) p = None"
    and gone: "\<And>i. disconnect_timer (links s ! k) = Some i \<Longrightarrow> jget (armed s) i = None"
  shows "timers_inv (s\<lparr>links := (links s)[k := (links s ! k)\<lparr>link_state := st\<rparr>], route_peers := jdel (route_peers s) p\<rparr>)"
    (is "timers_inv ?t")
proof -
  note D = timers_invD [OF inv]
  have lnk: "disconnect_timer (links ?t ! m) = disconnect_timer (links s ! m)" "link_peer (links ?t ! m) = link_peer (links s ! m)" for m
    by (cases "k < length (links s)", simp_all add: nth_list_update list_update_beyond)+
  have peer: "is_peer q m ?t \<longleftrightarrow> is_peer q m s \<and> q \<noteq> p" for q m by (auto simp: is_peer_def)
  have same: "timer_ok ?t i r" if "jget (armed s) i = Some r" "timer_ok s i r" for i r
    using that p none gone by (cases r) (auto simp: peer is_peer_def lnk [simplified])
  show ?thesis
  proof (rule timers_invI, goal_cases)
    case (3 i r)
    then show ?case using D(3) [of i r] same by simp
  next
    case (6 m i)
    then show ?case using D(6) [of m i] unfolding lnk by simp
  next
    case (7 m i r)
    then show ?case using D(7) [of m i r] unfolding lnk by simp
  qed (use D(1,2,4,5) in simp_all)
qed

lemma timers_new_peer:
  assumes inv: "timers_inv s" and none: "jget (route_peers s) p = None"
    and l: "disconnect_timer l = None"
  shows "timers_inv (s\<lparr>route_peers := jset (route_peers s) p (length (links s)), links := links s @ [l]\<rparr>)" (is "timers_inv ?t")
proof -
  note D = timers_invD [OF inv]
  have peer: "is_peer q m s \<Longrightarrow> is_peer q m ?t" for q m using none by (auto simp: is_peer_def)
  have same: "timer_ok s i r \<Longrightarrow> timer_ok ?t i r" for i r
    by (cases r) (auto simp: nth_append intro: peer)
  show ?thesis
  proof (rule timers_invI, goal_cases)
    case (3 i r)
    then show ?case using D(3) [of i r] same by simp
  next
    case (6 m i)
    then show ?case using D(6) [of m i] l by (simp add: nth_append split: if_splits)
  next
    case (7 m i r)
    then show ?case using D(7) [of m i r] l by (simp add: nth_append split: if_splits)
  qed (use D(1,2,4,5) in simp_all)
qed

lemma timers_neutral [simp]:
  "timers_inv (effect es s) = timers_inv s"
  "timers_inv (s\<lparr>direct_ready := a\<rparr>) = timers_inv s" "timers_inv (s\<lparr>direct_probe := b\<rparr>) = timers_inv s"
  "timers_inv (s\<lparr>relay_tracks := c\<rparr>) = timers_inv s" "timers_inv (s\<lparr>relay_states := d\<rparr>) = timers_inv s"
  "timers_inv (s\<lparr>route_disposed := e\<rparr>) = timers_inv s" "timers_inv (s\<lparr>route_effects := f\<rparr>) = timers_inv s"
  by (rule timers_inv_cong; simp add: effect_def)+

lemma timers_schedule: "timers_inv s \<Longrightarrow> timers_inv (schedule_voice_relay p s)"
proof -
  assume "timers_inv s"
  then have inv: "timers_inv (clear_relay_timer p s)" by (rule timers_clear_relay)
  show ?thesis
  proof (cases "has_relay s \<and> (\<exists>k. jget (route_peers s) p = Some k)")
    case True
    then obtain k where "jget (route_peers s) p = Some k" by blast
    with True timers_arm_relay [OF inv, of p k] show ?thesis
      by (simp add: schedule_voice_relay_def arm_def Let_def is_peer_def)
  qed (use \<open>timers_inv s\<close> in \<open>auto simp: schedule_voice_relay_def\<close>)
qed

lemma timers_update: "timers_inv s \<Longrightarrow> timers_inv (update_voice_route p s)"
proof -
  assume "timers_inv s"
  then have inv: "timers_inv (clear_stable_timer p (clear_relay_timer p s))" (is "timers_inv ?c")
    by (intro timers_clear_relay timers_clear_stable)
  have "timers_inv (?c\<lparr>direct_ready := a, direct_probe := b\<rparr>)" for a b using inv by simp
  then have other: "timers_inv (schedule_voice_relay p (effect es (?c\<lparr>direct_ready := a, direct_probe := b\<rparr>)))" for es a b
    by (intro timers_schedule) simp
  have "is_peer p k ?c" if "jget (route_peers s) p = Some k" for k using that by (simp add: is_peer_def)
  then show ?thesis using timers_arm_stable [OF inv, of p] inv other \<open>timers_inv s\<close>
    by (auto simp: update_voice_route_def arm_def Let_def split: option.split)
qed

lemma relay_callback_fields [simp]:
  "armed (relay_releases p x s) = armed s" "timers_made (relay_releases p x s) = timers_made s"
  "relay_timers (relay_releases p x s) = relay_timers s" "stable_timers (relay_releases p x s) = stable_timers s"
  "route_peers (relay_releases p x s) = route_peers s" "links (relay_releases p x s) = links s"
  "direct_ready (relay_releases p x s) = direct_ready s" "direct_probe (relay_releases p x s) = direct_probe s"
  "has_relay (relay_releases p x s) = has_relay s" "automatic (relay_releases p x s) = automatic s"
  "route_disposed (relay_releases p x s) = route_disposed s"
  by (simp_all add: relay_releases_def relay_state_def relay_track_def effect_def Let_def split: option.split)

lemma relay_call_fields [simp]:
  "armed (relay_track p x s) = armed s" "timers_made (relay_track p x s) = timers_made s"
  "relay_timers (relay_track p x s) = relay_timers s" "stable_timers (relay_track p x s) = stable_timers s"
  "route_peers (relay_track p x s) = route_peers s" "links (relay_track p x s) = links s"
  "direct_ready (relay_track p x s) = direct_ready s" "direct_probe (relay_track p x s) = direct_probe s"
  "has_relay (relay_track p x s) = has_relay s" "automatic (relay_track p x s) = automatic s"
  "armed (relay_state p y m s) = armed s" "timers_made (relay_state p y m s) = timers_made s"
  "relay_timers (relay_state p y m s) = relay_timers s" "stable_timers (relay_state p y m s) = stable_timers s"
  "route_peers (relay_state p y m s) = route_peers s" "links (relay_state p y m s) = links s"
  "direct_ready (relay_state p y m s) = direct_ready s" "direct_probe (relay_state p y m s) = direct_probe s"
  "has_relay (relay_state p y m s) = has_relay s" "automatic (relay_state p y m s) = automatic s"
  "route_effects (relay_state p y m s) = route_effects s"
  by (simp_all add: relay_state_def relay_track_def effect_def Let_def split: option.split)

lemma stop_relay_fields [simp]:
  "armed (stop_relay h p s) = armed s" "timers_made (stop_relay h p s) = timers_made s"
  "relay_timers (stop_relay h p s) = relay_timers s" "stable_timers (stop_relay h p s) = stable_timers s"
  "route_peers (stop_relay h p s) = route_peers s" "links (stop_relay h p s) = links s"
  "direct_ready (stop_relay h p s) = direct_ready s" "direct_probe (stop_relay h p s) = direct_probe s"
  "has_relay (stop_relay h p s) = has_relay s" "automatic (stop_relay h p s) = automatic s"
  "route_disposed (stop_relay h p s) = route_disposed s"
  by (simp_all add: stop_relay_def effect_def Let_def split: option.split)

lemma timers_callbacks [simp]:
  "timers_inv (relay_releases p x s) = timers_inv s" "timers_inv (relay_track p x' s) = timers_inv s"
  "timers_inv (relay_state p y m s) = timers_inv s" "timers_inv (stop_relay h p s) = timers_inv s"
  by (rule timers_inv_cong; simp)+

lemma timers_remove: "timers_inv s \<Longrightarrow> peers_inv s \<Longrightarrow> timers_inv (remove_peer h p s)"
proof -
  assume inv0: "timers_inv s" and pe: "peers_inv s"
  let ?c = "clear_stable_timer p (clear_relay_timer p s)"
  let ?d = "if has_relay s then stop_relay h p ?c else ?c"
  let ?e = "?d\<lparr>relay_tracks := jdel (relay_tracks ?d) p, relay_states := jdel (relay_states ?d) p,
     direct_ready := sdel p (direct_ready ?d), direct_probe := jdel (direct_probe ?d) p\<rparr>"
  have "timers_inv ?c" using inv0 by (intro timers_clear_relay timers_clear_stable)
  then have "timers_inv ?d" by simp
  then have inv: "timers_inv ?e" by (subst timers_inv_cong [where t = ?d]) simp_all
  have same: "links ?e = links s" "route_peers ?e = route_peers s" "jget (relay_timers ?e) p = None" "jget (stable_timers ?e) p = None"
    by (simp_all split: if_split)
  show ?thesis
  proof (cases "jget (route_peers s) p")
    case None
    then show ?thesis using inv same(2) by (simp add: remove_peer_def Let_def)
  next
    case (Some k)
    then have k: "k < length (links s)" using pe by (simp add: peers_inv_def is_peer_def)
    let ?f = "disarm (disconnect_timer (links s ! k)) ?e"
    have f: "links ?f = links s" "route_peers ?f = route_peers s" "relay_timers ?f = relay_timers ?e" "stable_timers ?f = stable_timers ?e"
      using same by (simp_all add: disarm_def split: option.split)
    have "timers_inv ?f" using timers_disarm_link [OF inv, of k] k same by simp
    then have "timers_inv (?f\<lparr>links := (links ?f)[k := (links ?f ! k)\<lparr>link_state := Closed_link\<rparr>], route_peers := jdel (route_peers ?f) p\<rparr>)"
    proof (rule timers_drop_peer)
      show "is_peer p k ?f" using Some f by (simp add: is_peer_def)
      show "jget (armed ?f) i = None" if "disconnect_timer (links ?f ! k) = Some i" for i
        using that f(1) by (simp add: disarm_def)
    qed (use f same in simp_all)
    moreover have "remove_peer h p s = ?f\<lparr>links := (links ?f)[k := (links ?f ! k)\<lparr>link_state := Closed_link\<rparr>], route_peers := jdel (route_peers ?f) p\<rparr>"
      using Some same f by (simp add: remove_peer_def Let_def set_link_def)
    ultimately show ?thesis by simp
  qed
qed

lemma connection_set: 
  assumes "timers_inv s" shows "timers_inv (set_link k (\<lambda>l. l\<lparr>link_state := st\<rparr>) s)"
proof -
  have "map f ((links s)[k := (links s ! k)\<lparr>link_state := st\<rparr>]) = map f (links s)"
    if "f = (\<lambda>l. (link_peer l, disconnect_timer l))" for f
    unfolding that by (rule map_update_same) simp
  then have "timers_inv (set_link k (\<lambda>l. l\<lparr>link_state := st\<rparr>) s) = timers_inv s"
    by (intro timers_inv_cong) (simp_all add: set_link_def)
  with assms show ?thesis by simp
qed

lemma schedule_fields [simp]:
  "links (schedule_voice_relay p s) = links s" "route_peers (schedule_voice_relay p s) = route_peers s"
  "has_relay (schedule_voice_relay p s) = has_relay s" "automatic (schedule_voice_relay p s) = automatic s"
  "direct_ready (schedule_voice_relay p s) = direct_ready s" "direct_probe (schedule_voice_relay p s) = direct_probe s"
  "route_effects (schedule_voice_relay p s) = route_effects s" "route_disposed (schedule_voice_relay p s) = route_disposed s"
  by (simp_all add: schedule_voice_relay_def arm_def Let_def split: option.split)

lemma update_fields [simp]:
  "links (update_voice_route p s) = links s" "route_peers (update_voice_route p s) = route_peers s"
  "has_relay (update_voice_route p s) = has_relay s" "automatic (update_voice_route p s) = automatic s"
  "route_disposed (update_voice_route p s) = route_disposed s"
  by (simp_all add: update_voice_route_def effect_def arm_def Let_def split: option.split)

lemma disarm_fields [simp]:
  "links (disarm i s) = links s" "route_peers (disarm i s) = route_peers s" "relay_timers (disarm i s) = relay_timers s"
  "stable_timers (disarm i s) = stable_timers s" "has_relay (disarm i s) = has_relay s" "automatic (disarm i s) = automatic s"
  "direct_ready (disarm i s) = direct_ready s" "direct_probe (disarm i s) = direct_probe s"
  "route_effects (disarm i s) = route_effects s" "route_disposed (disarm i s) = route_disposed s"
  "timers_made (disarm i s) = timers_made s"
  by (simp_all add: disarm_def split: option.split)

lemma effect_fields [simp]:
  "links (effect es s) = links s" "route_peers (effect es s) = route_peers s" "relay_timers (effect es s) = relay_timers s"
  "stable_timers (effect es s) = stable_timers s" "has_relay (effect es s) = has_relay s" "automatic (effect es s) = automatic s"
  "direct_ready (effect es s) = direct_ready s" "direct_probe (effect es s) = direct_probe s"
  "route_effects (effect es s) = route_effects s @ es" "route_disposed (effect es s) = route_disposed s"
  "armed (effect es s) = armed s" "timers_made (effect es s) = timers_made s"
  by (simp_all add: effect_def)

lemma link_changed_fields [simp]:
  "links (link_changed k st s) = (links s)[k := (links s ! k)\<lparr>link_state := st\<rparr>]"
  "route_peers (link_changed k st s) = route_peers s" "has_relay (link_changed k st s) = has_relay s"
  "automatic (link_changed k st s) = automatic s" "route_disposed (link_changed k st s) = route_disposed s"
  by (simp_all add: link_changed_def Let_def set_link_def)

lemma timers_changed:
  assumes "timers_inv s" "k < length (links s)"
  shows "timers_inv (link_changed k st s)"
    and "disconnect_timer (links s ! k) = Some i \<Longrightarrow> jget (armed (link_changed k st s)) i = None"
proof -
  let ?p = "link_peer (links s ! k)"
  let ?a = "update_voice_route ?p (effect [Peer_state ?p st] (set_link k (\<lambda>l. l\<lparr>link_state := st\<rparr>) s))"
  have a: "disconnect_timer (links ?a ! k) = disconnect_timer (links s ! k)" "length (links ?a) = length (links s)"
    using assms(2) by (simp_all add: set_link_def)
  have "timers_inv ?a" using assms(1) by (intro timers_update) (simp add: connection_set)
  then show "timers_inv (link_changed k st s)"
    unfolding link_changed_def Let_def by (rule timers_disarm_link) (use a assms(2) in simp)
  show "disconnect_timer (links s ! k) = Some i \<Longrightarrow> jget (armed (link_changed k st s)) i = None"
    unfolding link_changed_def Let_def using a(1) by (intro disarm_self) simp
qed

lemma timers_watch:
  assumes "timers_inv s" "k < length (links s)" "is_peer (link_peer (links s ! k)) k s"
    and "\<And>i. disconnect_timer (links s ! k) = Some i \<Longrightarrow> jget (armed s) i = None"
  shows "timers_inv (watch_disconnect k s)"
  using timers_arm_disconnect [OF assms] by (simp add: watch_disconnect_def arm_def set_link_def)

lemma timers_connection:
  assumes inv: "timers_inv s" and p: "k < length (links s) \<Longrightarrow> link_state (links s ! k) \<noteq> Closed_link \<Longrightarrow> is_peer (link_peer (links s ! k)) k s"
  shows "timers_inv (connection_changes k st s)"
proof (cases "k < length (links s) \<and> link_state (links s ! k) \<noteq> Closed_link \<and> st \<noteq> Closed_link")
  case True
  then have k: "k < length (links s)" and p: "is_peer (link_peer (links s ! k)) k s" using p by blast+
  let ?t = "link_changed k st s"
  have t: "timers_inv ?t" by (rule timers_changed(1) [OF inv k])
  have "timers_inv (watch_disconnect k ?t)"
  proof (rule timers_watch [OF t])
    show "is_peer (link_peer (links ?t ! k)) k ?t" using p k by (simp add: is_peer_def)
    show "jget (armed ?t) i = None" if "disconnect_timer (links ?t ! k) = Some i" for i
      using timers_changed(2) [OF inv k, of i] that k by simp
  qed (use k in simp)
  with t show ?thesis using inv by (auto simp: connection_changes_def Let_def)
qed (auto simp: connection_changes_def inv)

lemma timers_fire: "timers_inv s \<Longrightarrow> timers_inv (timer_fires i nonce s)"
proof (cases "jget (armed s) i")
  case (Some t)
  assume inv: "timers_inv s"
  have ok: "timer_ok s i t" by (rule timers_invD(3) [OF inv Some])
  show ?thesis
  proof (cases t)
    case (Relay_timer p k)
    then have "s\<lparr>armed := jdel (armed s) i, relay_timers := jdel (relay_timers s) p\<rparr> = clear_relay_timer p s"
      using ok by (simp add: clear_relay_timer_def disarm_def Let_def)
    then show ?thesis using timers_clear_relay [OF inv, of p] Some Relay_timer by (simp add: timer_fires_def Let_def)
  next
    case (Stable_timer p k)
    then have "s\<lparr>armed := jdel (armed s) i, stable_timers := jdel (stable_timers s) p\<rparr> = clear_stable_timer p s"
      using ok by (simp add: clear_stable_timer_def disarm_def Let_def)
    moreover have "timers_inv (clear_stable_timer p s\<lparr>direct_ready := a, direct_probe := b\<rparr>)" for a b
      using timers_clear_stable [OF inv, of p] by simp
    ultimately show ?thesis using timers_clear_stable [OF inv, of p] Some Stable_timer by (simp add: timer_fires_def Let_def)
  next
    case (Disconnect_timer p k)
    then have "s\<lparr>armed := jdel (armed s) i\<rparr> = disarm (disconnect_timer (links s ! k)) s" "k < length (links s)"
      using ok by (simp_all add: disarm_def)
    then show ?thesis using timers_disarm_link [OF inv, of k] Some Disconnect_timer by (simp add: timer_fires_def Let_def)
  qed
qed (simp add: timer_fires_def)

lemma timers_restore: "timers_inv s \<Longrightarrow> timers_inv (restore_direct_voice h p s)"
proof -
  assume inv: "timers_inv s"
  have "timers_inv (clear_relay_timer p s\<lparr>direct_probe := a\<rparr>)" for a using timers_clear_relay [OF inv] by simp
  with inv show ?thesis by (simp add: restore_direct_voice_def Let_def)
qed

lemma timers_signal: "timers_inv s \<Longrightarrow> timers_inv (handle_relay_signal h from d s)"
  by (cases d) (simp_all add: handle_relay_signal_def Let_def timers_restore timers_schedule split: option.split)

lemma timers_direct_track: "timers_inv s \<Longrightarrow> timers_inv (direct_track k t s)"
proof -
  have "map f ((links s)[k := (links s ! k)\<lparr>direct_microphone := t\<rparr>]) = map f (links s)"
    if "f = (\<lambda>l. (link_peer l, disconnect_timer l))" for f
    unfolding that by (rule map_update_same) simp
  then have "timers_inv (set_link k (\<lambda>l. l\<lparr>direct_microphone := t\<rparr>) s) = timers_inv s"
    by (intro timers_inv_cong) (simp_all add: set_link_def)
  then show "timers_inv s \<Longrightarrow> ?thesis" by (simp add: direct_track_def)
qed

lemma timers_add: "timers_inv s \<Longrightarrow> timers_inv (add_peer p s)"
  unfolding add_peer_def by (auto intro!: timers_update timers_new_peer)

section \<open>Participants\<close>

lemma peers_invD:
  assumes "peers_inv s"
  shows "is_peer p k s \<Longrightarrow> k < length (links s)" "is_peer p k s \<Longrightarrow> link_peer (links s ! k) = p"
    "is_peer p k s \<Longrightarrow> link_state (links s ! k) \<noteq> Closed_link"
    "k < length (links s) \<Longrightarrow> link_state (links s ! k) \<noteq> Closed_link \<Longrightarrow> is_peer (link_peer (links s ! k)) k s"
  using assms unfolding peers_inv_def by blast+

lemma peers_inv_cong:
  assumes "map (\<lambda>l. (link_peer l, link_state l)) (links s) = map (\<lambda>l. (link_peer l, link_state l)) (links t)"
    and "route_peers s = route_peers t"
  shows "peers_inv s = peers_inv t"
proof -
  have len: "length (links s) = length (links t)" using assms(1) by (metis length_map)
  have "link_peer (links s ! k) = link_peer (links t ! k) \<and> link_state (links s ! k) = link_state (links t ! k)"
    if "k < length (links t)" for k
    using assms(1) that len by (metis (mono_tags, lifting) nth_map prod.inject)
  then show ?thesis unfolding peers_inv_def is_peer_def assms(2) len by (simp cong: conj_cong)
qed

lemma peers_add: "peers_inv s \<Longrightarrow> peers_inv (add_peer p s)"
proof -
  assume inv: "peers_inv s"
  let ?l = "\<lparr>link_peer = p, link_state = New_link, direct_microphone = None, disconnect_timer = None\<rparr>"
  have "peers_inv (s\<lparr>route_peers := jset (route_peers s) p (length (links s)), links := links s @ [?l]\<rparr>)" (is "peers_inv ?t")
    if none: "jget (route_peers s) p = None"
    unfolding peers_inv_def
  proof (intro conjI allI impI, goal_cases)
    case (1 q k)
    then show ?case using peers_invD(1) [OF inv, of q k] by (auto simp: is_peer_def split: if_splits)
  next
    case (2 q k)
    then show ?case using peers_invD(1,2) [OF inv, of q k] by (auto simp: is_peer_def nth_append split: if_splits)
  next
    case (3 q k)
    then show ?case using peers_invD(1,3) [OF inv, of q k] by (auto simp: is_peer_def nth_append split: if_splits)
  next
    case (4 k)
    then show ?case using peers_invD(4) [OF inv, of k] none by (auto simp: is_peer_def nth_append split: if_splits)
  qed
  moreover have "peers_inv (update_voice_route p t) = peers_inv t" for t by (rule peers_inv_cong) simp_all
  ultimately show ?thesis using inv by (simp add: add_peer_def)
qed

lemma route_remove_peer_fields:
  "route_peers (remove_peer h p s) = jdel (route_peers s) p"
  "links (remove_peer h p s) = (case jget (route_peers s) p of None \<Rightarrow> links s
     | Some k \<Rightarrow> (links s)[k := (links s ! k)\<lparr>link_state := Closed_link\<rparr>])"
  "has_relay (remove_peer h p s) = has_relay s" "automatic (remove_peer h p s) = automatic s"
  "direct_ready (remove_peer h p s) = sdel p (direct_ready s)" "direct_probe (remove_peer h p s) = jdel (direct_probe s) p"
  "relay_timers (remove_peer h p s) = jdel (relay_timers s) p" "stable_timers (remove_peer h p s) = jdel (stable_timers s) p"
  "route_disposed (remove_peer h p s) = route_disposed s"
  by (cases "jget (route_peers s) p"; auto simp: remove_peer_def Let_def set_link_def
      dest: jget_None_iff [THEN iffD1] intro: jdel_absent [symmetric])+

lemma peers_remove: "peers_inv s \<Longrightarrow> peers_inv (remove_peer h p s)"
proof (cases "jget (route_peers s) p")
  case None
  assume "peers_inv s"
  moreover have "peers_inv (remove_peer h p s) = peers_inv s"
    by (rule peers_inv_cong) (use None in \<open>simp_all add: route_remove_peer_fields jdel_absent jget_None_iff [symmetric]\<close>)
  ultimately show ?thesis by simp
next
  case (Some k)
  assume inv: "peers_inv s"
  note D = peers_invD [OF inv]
  have k: "k < length (links s)" "link_peer (links s ! k) = p" using D(1,2) [of p k] Some by (auto simp: is_peer_def)
  let ?t = "remove_peer h p s"
  have t: "links ?t = (links s)[k := (links s ! k)\<lparr>link_state := Closed_link\<rparr>]" using Some by (simp add: route_remove_peer_fields)
  have peer: "is_peer q m ?t \<longleftrightarrow> is_peer q m s \<and> q \<noteq> p" for q m by (auto simp: is_peer_def route_remove_peer_fields)
  have other: "m \<noteq> k" if "is_peer q m s" "q \<noteq> p" for q m using D(2) [OF that(1)] that k by auto
  have same: "is_peer p m s \<Longrightarrow> m = k" for m using Some by (simp add: is_peer_def)
  show ?thesis
    unfolding peers_inv_def peer t
    using D other k by (auto simp: nth_list_update) (metis same)
qed

lemma peers_changed: "peers_inv s \<Longrightarrow> st \<noteq> Closed_link \<Longrightarrow> link_state (links s ! k) \<noteq> Closed_link \<Longrightarrow> peers_inv (link_changed k st s)"
proof (cases "k < length (links s)")
  case True
  assume inv: "peers_inv s" and st: "st \<noteq> Closed_link" "link_state (links s ! k) \<noteq> Closed_link"
  note D = peers_invD [OF inv]
  have peer: "is_peer q m (link_changed k st s) = is_peer q m s" for q m by (simp add: is_peer_def)
  show ?thesis unfolding peers_inv_def peer link_changed_fields using D st True by (auto simp: nth_list_update)
next
  case False
  assume "peers_inv s"
  moreover have "peers_inv (link_changed k st s) = peers_inv s"
    by (rule peers_inv_cong) (use False in \<open>simp_all add: list_update_beyond\<close>)
  ultimately show ?thesis by simp
qed

lemma peers_watch [simp]: "peers_inv (watch_disconnect k s) = peers_inv s"
  by (rule peers_inv_cong) (simp_all add: watch_disconnect_def arm_def set_link_def map_update_same)

lemma peers_effect [simp]: "peers_inv (effect es s) = peers_inv s"
  by (rule peers_inv_cong) simp_all

lemma peers_connection: "peers_inv s \<Longrightarrow> peers_inv (connection_changes k st s)"
  using peers_changed [of s st k] by (auto simp: connection_changes_def Let_def)

section \<open>Readiness and the way of the voice\<close>

lemma direct_link_cong:
  "automatic s = automatic t \<Longrightarrow> route_peers s = route_peers t \<Longrightarrow> links s = links t \<Longrightarrow> direct_link s p = direct_link t p"
  by (simp add: direct_link_def is_peer_def)

lemma relay_asked_effects: "route_effects s = route_effects t @ es \<Longrightarrow> relay_asked s p = foldl (asked_by p) (relay_asked t p) es"
  by (simp add: relay_asked_def)

lemma relay_asked_same: "route_effects s = route_effects t \<Longrightarrow> relay_asked s p = relay_asked t p"
  by (simp add: relay_asked_def)

lemma ready_invD:
  assumes "ready_inv F s"
  shows "\<not> has_relay s \<Longrightarrow> direct_ready s = []" "\<not> has_relay s \<Longrightarrow> direct_probe s = []"
    "p \<in> set (direct_ready s) \<Longrightarrow> p \<notin> F \<Longrightarrow> direct_link s p"
    "jget (direct_probe s) p = Some n \<Longrightarrow> p \<in> set (direct_ready s)"
    "jget (direct_probe s) p = Some n \<Longrightarrow> Send_probe p n \<in> set (route_effects s)"
  using assms unfolding ready_inv_def by blast+

lemma ready_invI:
  assumes "\<not> has_relay s \<Longrightarrow> direct_ready s = [] \<and> direct_probe s = []"
    "\<And>p. p \<in> set (direct_ready s) \<Longrightarrow> p \<notin> F \<Longrightarrow> direct_link s p"
    "\<And>p n. jget (direct_probe s) p = Some n \<Longrightarrow> p \<in> set (direct_ready s) \<and> Send_probe p n \<in> set (route_effects s)"
  shows "ready_inv F s"
  using assms unfolding ready_inv_def by blast

lemma ready_inv_mono:
  assumes "ready_inv F s" "has_relay t = has_relay s" "automatic t = automatic s" "route_peers t = route_peers s"
    "links t = links s" "direct_ready t = direct_ready s" "direct_probe t = direct_probe s"
    "set (route_effects s) \<subseteq> set (route_effects t)"
  shows "ready_inv F t"
  using assms direct_link_cong [OF assms(3-5)] unfolding ready_inv_def by (metis subsetD)

lemma path_invD: "path_inv G s \<Longrightarrow> has_relay s \<Longrightarrow> is_peer p k s \<Longrightarrow> p \<notin> G \<Longrightarrow>
    direct_link s p \<or> jget (relay_timers s) p \<noteq> None \<or> relay_asked s p"
  unfolding path_inv_def by blast

lemma path_schedule:
  assumes "path_inv {p} s" shows "path_inv {} (schedule_voice_relay p s)"
  unfolding path_inv_def
proof (intro impI allI)
  let ?t = "schedule_voice_relay p s"
  fix q k assume q: "has_relay ?t" "is_peer q k ?t" "q \<notin> {}"
  then have q': "has_relay s" "is_peer q k s" by (simp_all add: is_peer_def)
  have asked: "relay_asked ?t r = relay_asked s r" for r by (rule relay_asked_same) simp
  have direct: "direct_link ?t r = direct_link s r" for r by (rule direct_link_cong) simp_all
  have timers: "jget (relay_timers ?t) r = (if r = p then jget (relay_timers ?t) p else jget (relay_timers s) r)" for r
    by (simp add: schedule_voice_relay_def arm_def Let_def split: option.split)
  show "direct_link ?t q \<or> jget (relay_timers ?t) q \<noteq> None \<or> relay_asked ?t q"
  proof (cases "q = p")
    case True
    then have "jget (relay_timers ?t) p \<noteq> None"
      using q' by (simp add: schedule_voice_relay_def is_peer_def arm_def Let_def)
    with True show ?thesis by simp
  next
    case False
    then show ?thesis using path_invD [OF assms q'] asked direct timers [of q] by simp
  qed
qed

lemma path_inv_mono:
  assumes "path_inv G s" "has_relay t = has_relay s" "route_peers t = route_peers s" "G \<subseteq> H"
    and "\<And>p k. has_relay s \<Longrightarrow> is_peer p k s \<Longrightarrow> p \<notin> H \<Longrightarrow> direct_link s p \<or> jget (relay_timers s) p \<noteq> None \<or> relay_asked s p \<Longrightarrow>
      direct_link t p \<or> jget (relay_timers t) p \<noteq> None \<or> relay_asked t p"
  shows "path_inv H t"
  using assms unfolding path_inv_def is_peer_def by (metis subsetD)

lemma update_ready:
  assumes "ready_inv {p} s" "is_peer p k s" shows "ready_inv {} (update_voice_route p s)"
proof (cases "has_relay s")
  case True
  note D = ready_invD [OF assms(1)]
  let ?t = "update_voice_route p s"
  have p: "jget (route_peers s) p = Some k" using assms(2) by (simp add: is_peer_def)
  have direct: "direct_link ?t r = direct_link s r" for r by (rule direct_link_cong) simp_all
  show ?thesis
  proof (cases "link_state (links s ! k) = Connected_link \<and> automatic s")
    case conn: True
    then have t: "direct_ready ?t = direct_ready s" "direct_probe ?t = direct_probe s" "route_effects ?t = route_effects s"
      using True p by (simp_all add: update_voice_route_def Let_def arm_def)
    have "direct_link s p" using conn assms(2) by (auto simp: direct_link_def)
    then show ?thesis using D True by (intro ready_invI) (auto simp: t direct)
  next
    case False
    then have t: "direct_ready ?t = sdel p (direct_ready s)" "direct_probe ?t = jdel (direct_probe s) p"
        "route_effects ?t = route_effects s @ [Send_unready p]"
      using True p by (auto simp: update_voice_route_def Let_def)
    show ?thesis using D True by (intro ready_invI) (auto simp: t direct split: if_splits)
  qed
next
  case False
  then show ?thesis using ready_invD(1,2) [OF assms(1)] by (simp add: update_voice_route_def ready_inv_def)
qed

lemma update_path:
  assumes "path_inv {p} s" "is_peer p k s" shows "path_inv {} (update_voice_route p s)"
proof (cases "has_relay s")
  case True
  have p: "jget (route_peers s) p = Some k" using assms(2) by (simp add: is_peer_def)
  let ?c = "clear_stable_timer p (clear_relay_timer p s)"
  let ?o = "effect [Send_unready p] (?c\<lparr>direct_ready := sdel p (direct_ready ?c), direct_probe := jdel (direct_probe ?c) p\<rparr>)"
  show ?thesis
  proof (cases "link_state (links s ! k) = Connected_link \<and> automatic s")
    case conn: True
    then have t: "relay_timers (update_voice_route p s) = jdel (relay_timers s) p" "route_effects (update_voice_route p s) = route_effects s"
      using True p by (simp_all add: update_voice_route_def Let_def arm_def)
    have "direct_link (update_voice_route p s) p" using conn p by (auto simp: direct_link_def is_peer_def)
    moreover have "direct_link (update_voice_route p s) r = direct_link s r" for r by (rule direct_link_cong) simp_all
    moreover have "relay_asked (update_voice_route p s) r = relay_asked s r" for r by (rule relay_asked_same) (rule t)
    ultimately show ?thesis using path_invD [OF assms(1) True] unfolding path_inv_def
      by (metis (mono_tags, lifting) t(1) is_peer_def update_fields(2) jget_jdel singletonD)
  next
    case False
    have "path_inv {p} ?o"
      by (rule path_inv_mono [OF assms(1)])
        (auto simp: direct_link_def is_peer_def relay_asked_def)
    then have "path_inv {} (schedule_voice_relay p ?o)" by (rule path_schedule)
    moreover have "update_voice_route p s = schedule_voice_relay p ?o"
      using True False p by (auto simp: update_voice_route_def Let_def)
    ultimately show ?thesis by simp
  qed
qed (simp add: path_inv_def)

lemma callback_effects:
  "\<exists>es. route_effects (relay_track p x s) = route_effects s @ es \<and> (\<forall>q b. foldl (asked_by q) b es = b)"
  "\<exists>es. route_effects (relay_releases p y s) = route_effects s @ es \<and> (\<forall>q b. foldl (asked_by q) b es = b)"
proof -
  show track: "\<exists>es. route_effects (relay_track p x s) = route_effects s @ es \<and> (\<forall>q b. foldl (asked_by q) b es = b)" for x s
    by (auto simp: relay_track_def effect_def Let_def split: option.split)
  show "\<exists>es. route_effects (relay_releases p y s) = route_effects s @ es \<and> (\<forall>q b. foldl (asked_by q) b es = b)"
    using track [of None s] by (cases y) (simp_all add: relay_releases_def)
qed

lemma asked_callbacks [simp]:
  "relay_asked (relay_track p x s) q = relay_asked s q" "relay_asked (relay_state p st m s) q = relay_asked s q"
  "relay_asked (relay_releases p y s) q = relay_asked s q"
  using callback_effects(1) [of p x s] callback_effects(2) [of p y s] by (auto simp: relay_asked_def)

lemma asked_effect [simp]: "relay_asked (effect es s) q = foldl (asked_by q) (relay_asked s q) es"
  by (simp add: relay_asked_def)

lemma asked_stop [simp]: "q \<noteq> p \<Longrightarrow> relay_asked (stop_relay h p s) q = relay_asked s q"
  by (simp add: stop_relay_def Let_def split: option.split)

lemma effects_grow:
  "set (route_effects s) \<subseteq> set (route_effects (relay_track p x s))"
  "set (route_effects s) \<subseteq> set (route_effects (relay_releases p y s))"
  "set (route_effects s) \<subseteq> set (route_effects (stop_relay h p s))"
proof -
  show releases: "set (route_effects s) \<subseteq> set (route_effects (relay_releases p y s))" for y s
    using callback_effects(2) [of p y s] by auto
  show "set (route_effects s) \<subseteq> set (route_effects (relay_track p x s))"
    using callback_effects(1) [of p x s] by auto
  show "set (route_effects s) \<subseteq> set (route_effects (stop_relay h p s))"
    using releases [of "effect [Relay_stop p] s"] by (auto simp: stop_relay_def Let_def split: option.split)
qed

definition route_inv :: "voice_route \<Rightarrow> bool" where
  "route_inv s \<longleftrightarrow> timers_inv s \<and> peers_inv s \<and> ready_inv {} s \<and> path_inv {} s \<and> (route_disposed s \<longrightarrow> route_peers s = [])"

lemma route_invD:
  assumes "route_inv s"
  shows "timers_inv s" "peers_inv s" "ready_inv {} s" "path_inv {} s" "route_disposed s \<Longrightarrow> route_peers s = []"
  using assms unfolding route_inv_def by blast+

lemma route_inv_callbacks: "route_inv s \<Longrightarrow> route_inv (relay_track p x s)" "route_inv s \<Longrightarrow> route_inv (relay_state p st m s)"
proof -
  have peers: "peers_inv (relay_track p x s) = peers_inv s" "peers_inv (relay_state p st m s) = peers_inv s"
    by (rule peers_inv_cong; simp)+
  have direct: "direct_link (relay_track p x s) q = direct_link s q" "direct_link (relay_state p st m s) q = direct_link s q" for q
    by (rule direct_link_cong; simp)+
  have disposed: "route_disposed (relay_track p x s) = route_disposed s" "route_disposed (relay_state p st m s) = route_disposed s"
    by (simp_all add: relay_track_def relay_state_def effect_def Let_def split: option.split)
  show "route_inv s \<Longrightarrow> route_inv (relay_track p x s)" "route_inv s \<Longrightarrow> route_inv (relay_state p st m s)"
    unfolding route_inv_def
    by (auto simp: peers disposed direct path_inv_def is_peer_def intro: ready_inv_mono effects_grow [THEN subsetD])
qed

lemma route_inv_add: "route_inv s \<Longrightarrow> route_inv (add_peer p s)"
proof (cases "route_disposed s \<or> p = local_peer s \<or> jget (route_peers s) p \<noteq> None")
  case False
  assume inv: "route_inv s"
  note D = route_invD [OF inv]
  let ?t = "s\<lparr>route_peers := jset (route_peers s) p (length (links s)),
     links := links s @ [\<lparr>link_peer = p, link_state = New_link, direct_microphone = None, disconnect_timer = None\<rparr>]\<rparr>"
  have p: "is_peer p (length (links s)) ?t" by (simp add: is_peer_def)
  have direct: "direct_link s q \<Longrightarrow> direct_link ?t q" for q
    using False peers_invD(1) [OF D(2)] by (auto simp: direct_link_def is_peer_def nth_append)
  have "ready_inv {p} ?t" using ready_invD [OF D(3)] direct by (intro ready_invI) auto
  moreover have "path_inv {p} ?t"
    using path_invD [OF D(4)] direct unfolding path_inv_def by (auto simp: is_peer_def relay_asked_def)
  ultimately have "ready_inv {} (update_voice_route p ?t)" "path_inv {} (update_voice_route p ?t)"
    using p by (blast intro: update_ready update_path)+
  moreover have "add_peer p s = update_voice_route p ?t" using False by (simp add: add_peer_def)
  ultimately show ?thesis
    using D(1,2) timers_add [of s p] peers_add [of s p] False by (simp add: route_inv_def)
qed (auto simp: add_peer_def)

lemma asked_clear [simp]:
  "relay_asked (clear_relay_timer p s) q = relay_asked s q" "relay_asked (clear_stable_timer p s) q = relay_asked s q"
  by (rule relay_asked_same; simp)+

lemma remove_peer_effects:
  "route_effects (remove_peer h p s) =
     route_effects (if has_relay s then stop_relay h p (clear_stable_timer p (clear_relay_timer p s)) else s)"
  by (simp add: remove_peer_def Let_def set_link_def split: option.split)

lemma remove_peer_asked: "q \<noteq> p \<Longrightarrow> relay_asked (remove_peer h p s) q = relay_asked s q"
  using relay_asked_same [OF remove_peer_effects [of h p s], of q] by simp

lemma remove_peer_is: "is_peer q m (remove_peer h p s) \<longleftrightarrow> is_peer q m s \<and> q \<noteq> p"
  by (auto simp: is_peer_def route_remove_peer_fields)

lemma remove_peer_direct:
  assumes pe: "peers_inv s" and q: "direct_link s q" "q \<noteq> p" shows "direct_link (remove_peer h p s) q"
proof -
  note P = peers_invD [OF pe]
  obtain m where m: "automatic s" "is_peer q m s" "link_state (links s ! m) = Connected_link"
    using q(1) unfolding direct_link_def by blast
  have "links (remove_peer h p s) ! m = links s ! m"
  proof (cases "jget (route_peers s) p")
    case (Some k)
    then have "k \<noteq> m" using P(2) [of p k] P(2) [OF m(2)] q(2) by (auto simp: is_peer_def)
    then show ?thesis using Some by (simp add: route_remove_peer_fields)
  qed (simp add: route_remove_peer_fields)
  with m q(2) show ?thesis unfolding direct_link_def remove_peer_is by (auto simp: route_remove_peer_fields)
qed

lemma remove_peer_ready: "peers_inv s \<Longrightarrow> ready_inv {} s \<Longrightarrow> ready_inv {} (remove_peer h p s)"
proof -
  assume pe: "peers_inv s" and re: "ready_inv {} s"
  have "set (route_effects s) \<subseteq> set (route_effects (remove_peer h p s))"
    unfolding remove_peer_effects using effects_grow(3) [of "clear_stable_timer p (clear_relay_timer p s)" h p] by simp
  then show ?thesis
    using ready_invD [OF re] remove_peer_direct [OF pe]
    by (intro ready_invI) (auto simp: route_remove_peer_fields sdel_def jdel_absent split: if_splits)
qed

lemma route_inv_remove: "route_inv s \<Longrightarrow> route_inv (remove_peer h p s)"
proof -
  assume inv: "route_inv s"
  note D = route_invD [OF inv]
  have "path_inv {} (remove_peer h p s)"
    unfolding path_inv_def remove_peer_is
  proof (intro impI allI, goal_cases)
    case (1 q k)
    then have "direct_link s q \<or> jget (relay_timers s) q \<noteq> None \<or> relay_asked s q"
      using path_invD [OF D(4), of q k] by (simp add: route_remove_peer_fields)
    then show ?case
      using 1 remove_peer_direct [OF D(2), of q p h] remove_peer_asked [of q p h s] by (auto simp: route_remove_peer_fields)
  qed
  then show ?thesis
    using timers_remove [OF D(1,2)] peers_remove [OF D(2)] remove_peer_ready [OF D(2,3)] D(5)
    unfolding route_inv_def by (auto simp: route_remove_peer_fields jdel_def)
qed

lemma route_inv_connection: "route_inv s \<Longrightarrow> route_inv (connection_changes k st s)"
proof (cases "k < length (links s) \<and> link_state (links s ! k) \<noteq> Closed_link \<and> st \<noteq> Closed_link")
  case True
  assume inv: "route_inv s"
  note D = route_invD [OF inv] and R = ready_invD [OF route_invD(3) [OF inv]] and P = peers_invD [OF route_invD(2) [OF inv]]
  let ?p = "link_peer (links s ! k)"
  have k: "k < length (links s)" and p: "is_peer ?p k s" using True P(4) by blast+
  let ?a = "effect [Peer_state ?p st] (set_link k (\<lambda>l. l\<lparr>link_state := st\<rparr>) s)"
  have direct: "direct_link ?a q = direct_link s q" if "q \<noteq> ?p" for q
  proof -
    have "m \<noteq> k" if "is_peer q m s" for m using P(2) [OF that] \<open>q \<noteq> ?p\<close> by auto
    then show ?thesis by (auto simp: direct_link_def is_peer_def set_link_def)
  qed
  have a: "is_peer q m ?a = is_peer q m s" for q m by (simp add: is_peer_def set_link_def)
  have f: "relay_timers ?a = relay_timers s" "direct_ready ?a = direct_ready s" "direct_probe ?a = direct_probe s"
      "has_relay ?a = has_relay s" "relay_asked ?a q = relay_asked s q" for q
    by (simp_all add: set_link_def relay_asked_def)
  have "ready_inv {?p} ?a" using R direct by (intro ready_invI) (auto simp: set_link_def)
  moreover have "path_inv {?p} ?a"
    unfolding path_inv_def a f using path_invD [OF D(4)] direct by auto
  ultimately have "ready_inv {} (update_voice_route ?p ?a)" "path_inv {} (update_voice_route ?p ?a)"
    using p a by (blast intro: update_ready update_path)+
  moreover have lc: "link_changed k st s = disarm (disconnect_timer (links (update_voice_route ?p ?a) ! k)) (update_voice_route ?p ?a)"
    by (simp add: link_changed_def Let_def)
  ultimately have "ready_inv {} (link_changed k st s)" "path_inv {} (link_changed k st s)"
    unfolding lc by (auto intro: ready_inv_mono simp: path_inv_def direct_link_def is_peer_def relay_asked_def)
  moreover have "ready_inv {} (watch_disconnect k t)" if "ready_inv {} t" for t
  proof -
    have "direct_link t q \<Longrightarrow> direct_link (watch_disconnect k t) q" for q
      by (cases "k < length (links t)")
        (auto simp: direct_link_def is_peer_def watch_disconnect_def arm_def set_link_def nth_list_update list_update_beyond)
    then show ?thesis using ready_invD [OF that] by (intro ready_invI) (auto simp: watch_disconnect_def arm_def set_link_def)
  qed
  moreover have "path_inv {} (watch_disconnect k t)" if "path_inv {} t" for t
  proof (rule path_inv_mono [OF that])
    have "direct_link t q \<Longrightarrow> direct_link (watch_disconnect k t) q" for q
      by (cases "k < length (links t)")
        (auto simp: direct_link_def is_peer_def watch_disconnect_def arm_def set_link_def nth_list_update list_update_beyond)
    then show "direct_link t q \<or> jget (relay_timers t) q \<noteq> None \<or> relay_asked t q \<Longrightarrow>
      direct_link (watch_disconnect k t) q \<or> jget (relay_timers (watch_disconnect k t)) q \<noteq> None \<or> relay_asked (watch_disconnect k t) q" for q
      by (auto simp: watch_disconnect_def arm_def set_link_def relay_asked_def)
  qed (simp_all add: watch_disconnect_def arm_def set_link_def)
  moreover have "ready_inv {} (effect [Restart_ice k] t)" if "ready_inv {} t" for t
    by (rule ready_inv_mono [OF that]) auto
  moreover have "path_inv {} (effect [Restart_ice k] t)" if "path_inv {} t" for t
    using that by (auto simp: path_inv_def direct_link_def is_peer_def)
  moreover have "route_disposed (watch_disconnect k t) = route_disposed t" "route_peers (watch_disconnect k t) = route_peers t" for t
    by (simp_all add: watch_disconnect_def arm_def set_link_def)
  ultimately show ?thesis
    using timers_connection [OF D(1), of k st] p peers_connection [OF D(2), of k st] D(3-5)
    unfolding route_inv_def by (auto simp: connection_changes_def Let_def)
qed (auto simp: connection_changes_def)

lemma route_inv_fire: "route_inv s \<Longrightarrow> route_inv (timer_fires i nonce s)"
proof (cases "jget (armed s) i")
  case (Some t)
  assume inv: "route_inv s"
  note D = route_invD [OF inv] and R = ready_invD [OF route_invD(3) [OF inv]] and P = peers_invD [OF route_invD(2) [OF inv]]
  have ok: "timer_ok s i t" by (rule timers_invD(3) [OF D(1) Some])
  let ?t = "timer_fires i nonce s"
  have tim: "timers_inv ?t" by (rule timers_fire [OF D(1)])
  have same: "links ?t = links s" "route_peers ?t = route_peers s" "automatic ?t = automatic s" "has_relay ?t = has_relay s"
      "route_disposed ?t = route_disposed s"
    using Some by (cases t; simp add: timer_fires_def Let_def)+
  have direct: "direct_link ?t q = direct_link s q" for q by (rule direct_link_cong) (rule same)+
  have peers: "peers_inv ?t" using D(2) peers_inv_cong [of ?t s] same by simp
  have "ready_inv {} ?t \<and> path_inv {} ?t"
  proof (cases t)
    case (Relay_timer p k)
    then have p: "is_peer p k s" using ok by simp
    then have "\<not> route_disposed s" using D(5) by (auto simp: is_peer_def)
    then have e: "route_effects ?t = route_effects s @ [Relay_start p]" "relay_timers ?t = jdel (relay_timers s) p"
        "direct_ready ?t = direct_ready s" "direct_probe ?t = direct_probe s"
      using p Some Relay_timer by (simp_all add: timer_fires_def Let_def is_peer_def)
    have "relay_asked ?t q = (q = p \<or> relay_asked s q)" for q using e(1) by (auto simp: relay_asked_def)
    then have "path_inv {} ?t" using path_invD [OF D(4)] unfolding path_inv_def direct e(2)
      by (auto simp: same is_peer_def)
    moreover have "ready_inv {} ?t" by (rule ready_inv_mono [OF D(3)]) (use e same in auto)
    ultimately show ?thesis by simp
  next
    case (Stable_timer p k)
    then have p: "is_peer p k s" "automatic s" "has_relay s" using ok by simp_all
    have rel: "relay_timers ?t = relay_timers s" using Some Stable_timer by (simp add: timer_fires_def Let_def)
    have asked: "relay_asked ?t q = relay_asked s q" for q
      using Some Stable_timer by (simp add: timer_fires_def Let_def relay_asked_def)
    have "path_inv {} ?t" using path_invD [OF D(4)] unfolding path_inv_def direct rel asked
      by (auto simp: same is_peer_def)
    moreover have "ready_inv {} ?t"
    proof (cases "link_state (links s ! k) = Connected_link")
      case True
      then have e: "route_effects ?t = route_effects s @ [Send_probe p nonce]" "direct_ready ?t = sadd p (direct_ready s)"
          "direct_probe ?t = jset (direct_probe s) p nonce"
        using p Some Stable_timer by (simp_all add: timer_fires_def Let_def is_peer_def)
      have "direct_link s p" using True p by (auto simp: direct_link_def)
      then show ?thesis using R p by (intro ready_invI) (auto simp: e direct same split: if_splits)
    next
      case False
      then show ?thesis using Some Stable_timer by (intro ready_inv_mono [OF D(3)]) (auto simp: timer_fires_def Let_def)
    qed
    ultimately show ?thesis by simp
  next
    case (Disconnect_timer p k)
    have e: "relay_timers ?t = relay_timers s" "direct_ready ?t = direct_ready s" "direct_probe ?t = direct_probe s"
        "\<exists>es. route_effects ?t = route_effects s @ es \<and> (\<forall>q b. foldl (asked_by q) b es = b)"
      using Some Disconnect_timer by (auto simp: timer_fires_def Let_def)
    then have "relay_asked ?t q = relay_asked s q" for q by (auto simp: relay_asked_def)
    then have "path_inv {} ?t" using path_invD [OF D(4)] unfolding path_inv_def direct e(1)
      by (auto simp: same is_peer_def)
    moreover have "ready_inv {} ?t" by (rule ready_inv_mono [OF D(3)]) (use e same in auto)
    ultimately show ?thesis by simp
  qed
  then show ?thesis using tim peers D(5) unfolding route_inv_def by (simp add: same)
qed (simp add: timer_fires_def)

lemma route_inv_schedule:
  assumes "timers_inv s" "peers_inv s" "ready_inv {} s" "path_inv {p} s" "route_disposed s \<Longrightarrow> route_peers s = []"
  shows "route_inv (schedule_voice_relay p s)"
proof -
  have "ready_inv {} (schedule_voice_relay p s)" by (rule ready_inv_mono [OF assms(3)]) simp_all
  moreover have "peers_inv (schedule_voice_relay p s)" using assms(2) peers_inv_cong [of "schedule_voice_relay p s" s] by simp
  ultimately show ?thesis
    using timers_schedule [OF assms(1), of p] path_schedule [OF assms(4)] assms(5) by (simp add: route_inv_def)
qed

lemma route_inv_restore: "route_inv s \<Longrightarrow> route_inv (restore_direct_voice h p s)"
proof (cases "p \<in> set (direct_ready s)")
  case True
  assume inv: "route_inv s"
  note D = route_invD [OF inv] and R = ready_invD [OF route_invD(3) [OF inv]]
  let ?t = "restore_direct_voice h p s"
  let ?c = "clear_relay_timer p s\<lparr>direct_probe := jdel (direct_probe s) p\<rparr>"
  have t: "links ?t = links s" "route_peers ?t = route_peers s" "automatic ?t = automatic s" "has_relay ?t = has_relay s"
      "relay_timers ?t = jdel (relay_timers s) p" "direct_ready ?t = direct_ready s" "direct_probe ?t = jdel (direct_probe s) p"
      "route_effects ?t = route_effects (stop_relay h p ?c)" "route_disposed ?t = route_disposed s"
    using True by (simp_all add: restore_direct_voice_def Let_def)
  have direct: "direct_link ?t q = direct_link s q" for q by (rule direct_link_cong) (rule t)+
  have asked: "relay_asked ?t q = relay_asked s q" if "q \<noteq> p" for q
    using relay_asked_same [OF t(8), of q] relay_asked_same [of ?c s q] that by simp
  have "set (route_effects s) \<subseteq> set (route_effects ?t)" using effects_grow(3) [of ?c h p] by (simp add: t)
  then have "ready_inv {} ?t"
    using R by (intro ready_invI) (auto simp: t direct jdel_absent split: if_splits)
  moreover have "direct_link s p" using R(3) [OF True] by simp
  then have "path_inv {} ?t" using path_invD [OF D(4)] asked unfolding path_inv_def direct t(4,5)
    by (auto simp: t(2) is_peer_def)
  moreover have "peers_inv ?t" using D(2) peers_inv_cong [of ?t s] t by simp
  ultimately show ?thesis using timers_restore [OF D(1), of h p] D(5) by (simp add: route_inv_def t)
qed (simp add: restore_direct_voice_def)

lemma restore_effects:
  assumes "p \<in> set (direct_ready s)"
  shows "\<exists>es. route_effects (restore_direct_voice h p s) = route_effects s @ Relay_stop p # es"
proof -
  let ?c = "clear_relay_timer p s\<lparr>direct_probe := jdel (direct_probe s) p\<rparr>"
  have "route_effects (restore_direct_voice h p s) = route_effects (stop_relay h p ?c)"
    using assms by (simp add: restore_direct_voice_def Let_def)
  moreover obtain es where "route_effects (stop_relay h p ?c) = (route_effects s @ [Relay_stop p]) @ es"
  proof (cases "jget h p")
    case (Some x)
    then show ?thesis using callback_effects(2) [of p x "effect [Relay_stop p] ?c"] that
      by (auto simp: stop_relay_def Let_def)
  qed (use that in \<open>simp add: stop_relay_def Let_def\<close>)
  ultimately show ?thesis by simp
qed

lemma route_inv_signal: "route_inv s \<Longrightarrow> route_inv (handle_relay_signal h from d s)"
proof -
  assume inv: "route_inv s"
  note D = route_invD [OF inv] and R = ready_invD [OF route_invD(3) [OF inv]]
  have send: "route_inv (effect es s)" if "\<And>q b. foldl (asked_by q) b es = b" for es
  proof -
    have "ready_inv {} (effect es s)" by (rule ready_inv_mono [OF D(3)]) auto
    moreover have "path_inv {} (effect es s)" using path_invD [OF D(4)] that
      unfolding path_inv_def by (auto simp: direct_link_def is_peer_def)
    moreover have "peers_inv (effect es s)" using D(2) by simp
    ultimately show ?thesis using D(1,5) by (simp add: route_inv_def)
  qed
  have unready: "route_inv (schedule_voice_relay p (s\<lparr>direct_probe := jdel (direct_probe s) p\<rparr>))" for p
  proof (rule route_inv_schedule)
    show "ready_inv {} (s\<lparr>direct_probe := jdel (direct_probe s) p\<rparr>)"
      using R by (intro ready_invI) (auto simp: direct_link_def is_peer_def jdel_absent split: if_splits)
    show "path_inv {p} (s\<lparr>direct_probe := jdel (direct_probe s) p\<rparr>)"
      by (rule path_inv_mono [OF D(4)]) (auto simp: direct_link_def is_peer_def relay_asked_def)
    show "peers_inv (s\<lparr>direct_probe := jdel (direct_probe s) p\<rparr>)"
      using D(2) peers_inv_cong [of "s\<lparr>direct_probe := jdel (direct_probe s) p\<rparr>" s] by simp
  qed (use D in simp_all)
  show ?thesis
    using inv by (cases d) (auto simp: handle_relay_signal_def Let_def route_inv_restore unready send split: option.split)
qed

lemma route_inv_direct: "route_inv s \<Longrightarrow> route_inv (direct_track k t s)"
proof -
  assume inv: "route_inv s"
  note D = route_invD [OF inv]
  let ?t = "direct_track k t s"
  have st: "map (\<lambda>l. (link_peer l, link_state l)) (links ?t) = map (\<lambda>l. (link_peer l, link_state l)) (links s)"
    by (simp add: direct_track_def set_link_def map_update_same)
  have same: "route_peers ?t = route_peers s" "automatic ?t = automatic s" "has_relay ?t = has_relay s" "direct_ready ?t = direct_ready s"
      "direct_probe ?t = direct_probe s" "route_effects ?t = route_effects s" "relay_timers ?t = relay_timers s" "route_disposed ?t = route_disposed s"
    by (simp_all add: direct_track_def set_link_def)
  have "link_state (links ?t ! m) = link_state (links s ! m)" if "m < length (links s)" for m
    using that by (auto simp: direct_track_def set_link_def nth_list_update)
  then have direct: "direct_link ?t q = direct_link s q" for q
    using peers_invD(1) [OF D(2), of q] by (auto simp: direct_link_def is_peer_def same)
  have "ready_inv {} ?t" using ready_invD [OF D(3)] by (intro ready_invI) (auto simp: same direct)
  moreover have "path_inv {} ?t" using D(4) unfolding path_inv_def direct by (simp add: same is_peer_def relay_asked_def)
  moreover have "peers_inv ?t" using D(2) peers_inv_cong [OF st same(1)] by simp
  ultimately show ?thesis using timers_direct_track [OF D(1), of k t] D(5) by (simp add: route_inv_def same)
qed

lemma route_inv_start_fails: "route_inv s \<Longrightarrow> route_inv (relay_start_fails p e s)"
  by (auto simp: relay_start_fails_def route_inv_def path_inv_def direct_link_def is_peer_def relay_asked_def ready_inv_def
      peers_inv_cong [of "s\<lparr>relay_states := _\<rparr>" s])

lemma fold_remove:
  "timers_inv s \<Longrightarrow> peers_inv s \<Longrightarrow> ready_inv {} s \<Longrightarrow>
   timers_inv (fold (remove_peer h) ps s) \<and> peers_inv (fold (remove_peer h) ps s) \<and> ready_inv {} (fold (remove_peer h) ps s)"
  by (induction ps arbitrary: s) (simp_all add: timers_remove peers_remove remove_peer_ready)

lemma fold_remove_peers: "route_peers (fold (remove_peer h) ps s) = filter (\<lambda>e. fst e \<notin> set ps) (route_peers s)"
  by (induction ps arbitrary: s) (simp_all add: route_remove_peer_fields jdel_def conj_commute)

lemma fold_releases:
  "timers_inv (fold (\<lambda>(p, x). relay_releases p x) h s) = timers_inv s"
  "peers_inv (fold (\<lambda>(p, x). relay_releases p x) h s) = peers_inv s"
  "route_peers (fold (\<lambda>(p, x). relay_releases p x) h s) = route_peers s"
  "ready_inv {} s \<Longrightarrow> ready_inv {} (fold (\<lambda>(p, x). relay_releases p x) h s)"
proof -
  have one: "peers_inv (relay_releases p x s) = peers_inv s" for p x s by (rule peers_inv_cong) simp_all
  have two: "ready_inv {} s \<Longrightarrow> ready_inv {} (relay_releases p x s)" for p x s
    by (rule ready_inv_mono; (rule effects_grow | simp))
  show "timers_inv (fold (\<lambda>(p, x). relay_releases p x) h s) = timers_inv s"
    "peers_inv (fold (\<lambda>(p, x). relay_releases p x) h s) = peers_inv s"
    "route_peers (fold (\<lambda>(p, x). relay_releases p x) h s) = route_peers s"
    "ready_inv {} s \<Longrightarrow> ready_inv {} (fold (\<lambda>(p, x). relay_releases p x) h s)"
    by (induction h arbitrary: s) (auto simp: one two)
qed

lemma dispose_no_peers: "\<not> route_disposed s \<Longrightarrow> route_peers (dispose_engine h s) = []"
  by (auto simp: dispose_engine_def Let_def fold_remove_peers fold_releases jkeys_def filter_empty_conv)

lemma route_inv_dispose: "route_inv s \<Longrightarrow> route_inv (dispose_engine h s)"
proof (cases "route_disposed s")
  case False
  assume inv: "route_inv s"
  note D = route_invD [OF inv]
  let ?a = "s\<lparr>route_disposed := True\<rparr>"
  let ?b = "if has_relay ?a then fold (\<lambda>(p, exposed). relay_releases p exposed) h (effect [Relay_dispose] ?a) else ?a"
  have "timers_inv ?a" "peers_inv ?a" "ready_inv {} ?a"
    using D(1) D(2) peers_inv_cong [of ?a s] ready_inv_mono [OF D(3), of ?a] by simp_all
  then have "timers_inv ?b" "peers_inv ?b" "ready_inv {} ?b"
    using ready_inv_mono [of "{}" ?a "effect [Relay_dispose] ?a"] by (auto simp: fold_releases subset_insertI)
  moreover have "dispose_engine h s = fold (remove_peer []) (jkeys (route_peers ?b)) ?b"
    using False by (simp add: dispose_engine_def Let_def)
  ultimately have "timers_inv (dispose_engine h s)" "peers_inv (dispose_engine h s)" "ready_inv {} (dispose_engine h s)"
    using fold_remove by metis+
  moreover have "path_inv {} (dispose_engine h s)"
    using dispose_no_peers [OF False, of h] by (simp add: path_inv_def is_peer_def)
  ultimately show ?thesis using dispose_no_peers [OF False, of h] by (simp add: route_inv_def)
qed (simp add: dispose_engine_def)

lemma route_inv_step: "route_inv s \<Longrightarrow> route_inv (route_step s e)"
  by (cases e) (simp_all add: route_inv_add route_inv_remove route_inv_connection route_inv_fire route_inv_start_fails
    route_inv_signal route_inv_callbacks route_inv_direct route_inv_dispose)

lemma route_inv_new [simp]: "route_inv (new_engine me relay auto)"
  by (simp add: route_inv_def new_engine_def timers_inv_def peers_inv_def ready_inv_def path_inv_def is_peer_def)

interpretation routes: event_machine route_step route_inv
  by unfold_locales (rule route_inv_step)

section \<open>Guarantees\<close>

text \<open>
  C17. As long as somebody is in the call, his voice has a way: the connection to him is up
  and the direct path may carry it, or the relay is to be asked when a timer fires, or the relay
  was asked and has not been told to stop.
\<close>

theorem voice_always_has_a_way:
  assumes "s = foldl route_step (new_engine me relay auto) es" "has_relay s" "jget (route_peers s) p = Some k"
  shows "(automatic s \<and> link_state (links s ! k) = Connected_link) \<or> jget (relay_timers s) p \<noteq> None \<or> relay_asked s p"
proof -
  have "route_inv s" unfolding assms(1) by (rule routes.run_inv [OF route_inv_new])
  then have "direct_link s p \<or> jget (relay_timers s) p \<noteq> None \<or> relay_asked s p"
    using assms(2,3) path_invD [OF route_invD(4)] by (simp add: is_peer_def)
  then show ?thesis using assms(3) by (auto simp: direct_link_def is_peer_def)
qed

definition route_sample :: voice_route where
  "route_sample = foldl route_step (new_engine ''a'' True True)
     [Add_peer ''b'', Connection_changes 0 Connected_link, Timer_fires 1 ''n'']"

lemmas route_eval = new_engine_def add_peer_def update_voice_route_def clear_relay_timer_def clear_stable_timer_def
  disarm_def arm_def schedule_voice_relay_def effect_def set_link_def connection_changes_def link_changed_def
  timer_fires_def is_peer_def jdel_def sadd_def sdel_def Let_def

lemma route_sample_eval:
  "route_sample = \<lparr>local_peer = ''a'', has_relay = True, automatic = True, route_disposed = False,
     route_peers = [(''b'', 0)], links = [\<lparr>link_peer = ''b'', link_state = Connected_link, direct_microphone = None, disconnect_timer = None\<rparr>],
     relay_tracks = [], relay_states = [], relay_timers = [], stable_timers = [], direct_ready = [''b''],
     direct_probe = [(''b'', ''n'')], armed = [], timers_made = 2,
     route_effects = [Send_unready ''b'', Peer_state ''b'' Connected_link, Send_probe ''b'' ''n'']\<rparr>"
  unfolding route_sample_def by (simp add: route_eval)

theorem voice_always_has_a_way_witness:
  "(automatic route_sample \<and> link_state (links route_sample ! 0) = Connected_link) \<or>
   jget (relay_timers route_sample) ''b'' \<noteq> None \<or> relay_asked route_sample ''b''"
  by (rule voice_always_has_a_way [OF route_sample_def]) (simp_all add: route_sample_eval)

text \<open>
  The relay is given up only when both ends see the direct path: a signal makes it stop
  only when it answers a probe this side has sent and the connection is up; and this side
  answers a probe only while its own connection is up.
\<close>

theorem direct_voice_needs_both_ends:
  assumes "s = foldl route_step (new_engine me relay auto) es"
    and "route_effects (handle_relay_signal held from data s) = route_effects s @ e # fs"
    and "e = Relay_stop p \<or> e = Send_ready p n"
  shows "from = Some p \<and> (\<exists>k. jget (route_peers s) p = Some k \<and> link_state (links s ! k) = Connected_link) \<and>
    (e = Relay_stop p \<longrightarrow> (\<exists>nonce. data = Direct_ready (Some nonce) \<and> Send_probe p nonce \<in> set (route_effects s)))"
proof -
  have inv: "route_inv s" unfolding assms(1) by (rule routes.run_inv [OF route_inv_new])
  note R = ready_invD [OF route_invD(3) [OF inv]]
  have link: "\<exists>k. jget (route_peers s) q = Some k \<and> link_state (links s ! k) = Connected_link" if "q \<in> set (direct_ready s)" for q
    using R(3) [OF that] by (auto simp: direct_link_def is_peer_def)
  have stop: "q = p \<and> e = Relay_stop p"
    if "route_effects (restore_direct_voice held q s) = route_effects s @ e # fs" "q \<in> set (direct_ready s)" for q
    using restore_effects [OF that(2), of held] that(1) assms(3) by auto
  obtain q where q: "from = Some q"
    using assms(2) by (cases "from") (simp_all add: handle_relay_signal_def)
  show ?thesis
  proof (cases data)
    case (Direct_ready nonce)
    then obtain m where m: "nonce = Some m" "jget (direct_probe s) q = Some m"
        "handle_relay_signal held from data s = restore_direct_voice held q s"
      using assms(2) q by (auto simp: handle_relay_signal_def Let_def split: if_splits option.splits)
    with R(4,5) [OF m(2)] stop [of q] link [of q] q Direct_ready assms(2) show ?thesis by auto
  next
    case (Direct_probe nonce)
    then obtain m where m: "nonce = Some m" "q \<in> set (direct_ready s)" "handle_relay_signal held from data s = effect [Send_ready q m] s"
      using assms(2) q by (auto simp: handle_relay_signal_def Let_def split: if_splits option.splits)
    then have "e = Send_ready q m" using assms(2) by simp
    with m(2) q link [of q] assms(3) show ?thesis by auto
  next
    case Direct_unready
    then show ?thesis using assms(2) by (simp add: handle_relay_signal_def Let_def split: if_splits)
  next
    case Other_data
    then have "e = Relay_signal q" using assms(2) q by (simp add: handle_relay_signal_def Let_def split: if_splits)
    then show ?thesis using assms(3) by simp
  qed
qed

theorem direct_voice_needs_both_ends_witness:
  "(\<exists>k. jget (route_peers route_sample) ''b'' = Some k \<and> link_state (links route_sample ! k) = Connected_link) \<and>
   (\<exists>nonce. Direct_ready (Some ''n'') = Direct_ready (Some nonce) \<and> Send_probe ''b'' nonce \<in> set (route_effects route_sample))"
proof -
  have "route_effects (handle_relay_signal [] (Some ''b'') (Direct_ready (Some ''n'')) route_sample) =
      route_effects route_sample @ Relay_stop ''b'' # []"
    by (simp add: route_sample_eval handle_relay_signal_def restore_direct_voice_def stop_relay_def route_eval)
  from direct_voice_needs_both_ends [OF route_sample_def this disjI1 [OF refl]] show ?thesis by blast
qed

fun timer_peer :: "route_timer \<Rightarrow> string \<times> nat" where
  "timer_peer (Relay_timer p k) = (p, k)"
| "timer_peer (Stable_timer p k) = (p, k)"
| "timer_peer (Disconnect_timer p k) = (p, k)"

lemma timer_ok_peer: "timer_ok s i t \<Longrightarrow> is_peer (fst (timer_peer t)) (snd (timer_peer t)) s"
  by (cases t) simp_all

lemma timer_ok_unique: "timer_ok s i t \<Longrightarrow> timer_ok s j t \<Longrightarrow> i = j"
  by (cases t) simp_all

lemma timers_distinct: "timers_inv s \<Longrightarrow> distinct (map snd (armed s))"
proof -
  assume inv: "timers_inv s"
  have d: "distinct (armed s)" using timers_invD(1) [OF inv] by (simp add: jkeys_def distinct_map)
  have ok: "timer_ok s i t" if "(i, t) \<in> set (armed s)" for i t
    using that timers_invD(1,3) [OF inv] by (simp add: jget_def jkeys_def)
  have "inj_on snd (set (armed s))"
  proof (rule inj_onI)
    fix x y assume "x \<in> set (armed s)" "y \<in> set (armed s)" "snd x = snd y"
    then show "x = y" using ok timer_ok_unique by (metis prod.collapse)
  qed
  with d show ?thesis by (simp add: distinct_map)
qed

lemma timers_no_peers: "timers_inv s \<Longrightarrow> route_peers s = [] \<Longrightarrow> armed s = []"
proof (cases "armed s")
  case (Cons e es)
  assume inv: "timers_inv s" and none: "route_peers s = []"
  have "jget (armed s) (fst e) = Some (snd e)" using Cons by (cases e) simp
  then have "timer_ok s (fst e) (snd e)" by (rule timers_invD(3) [OF inv])
  then show ?thesis using timer_ok_peer none by (fastforce simp: is_peer_def)
qed

text \<open>
  No timer is forgotten: every timer that can still fire belongs to somebody in the call
  and to the connection he has now, nobody has two of the same kind, and after the engine is
  disposed none is left.
\<close>

theorem route_timers_owned:
  assumes "s = foldl route_step (new_engine me relay auto) es"
  shows "list_all (\<lambda>(i, t). is_peer (fst (timer_peer t)) (snd (timer_peer t)) s) (armed s) \<and>
    distinct (map snd (armed s)) \<and> armed (dispose_engine held s) = []"
proof -
  have inv: "route_inv s" unfolding assms by (rule routes.run_inv [OF route_inv_new])
  note T = route_invD(1) [OF inv]
  have "timer_ok s i t" if "(i, t) \<in> set (armed s)" for i t
    using that timers_invD(1,3) [OF T] by (simp add: jget_def jkeys_def)
  then have "list_all (\<lambda>(i, t). is_peer (fst (timer_peer t)) (snd (timer_peer t)) s) (armed s)"
    using timer_ok_peer by (fastforce simp: list_all_iff)
  moreover have "route_peers (dispose_engine held s) = []"
    using route_invD(5) [OF inv] dispose_no_peers [of s held] by (cases "route_disposed s") (simp_all add: dispose_engine_def)
  ultimately show ?thesis
    using timers_distinct [OF T] timers_no_peers [OF route_invD(1) [OF route_inv_dispose [OF inv, of held]]] by simp
qed

theorem route_timers_owned_witness:
  "distinct (map snd (armed route_sample)) \<and> armed (dispose_engine [] route_sample) = []"
  using route_timers_owned [OF route_sample_def] by blast

end
