(* ===== verification/JsNumbers.thy ===== *)
theory JsNumbers
  imports Complex_Main Prelude
begin

text \<open>
  Numbers with a fraction: JavaScript numbers as real numbers, without the rounding to double
  precision, and the functions of \<open>Math\<close> that several components use.
\<close>

text \<open>\<open>Math.round\<close> rounds a half towards plus infinity.\<close>

definition math_round :: "real \<Rightarrow> real" where
  "math_round x = of_int \<lfloor>x + 1 / 2\<rfloor>"

lemma math_round_of_int [simp]: "math_round (of_int n) = of_int n"
  by (simp add: math_round_def floor_eq_iff)

lemma math_round_le: "math_round x \<le> x + 1 / 2"
  by (simp add: math_round_def)

lemma math_round_ge: "x - 1 / 2 \<le> math_round x"
proof -
  have "x + 1 / 2 < of_int \<lfloor>x + 1 / 2\<rfloor> + 1" by (rule real_of_int_floor_add_one_gt)
  then show ?thesis by (simp add: math_round_def field_simps)
qed

lemma math_round_mono: "x \<le> y \<Longrightarrow> math_round x \<le> math_round y"
  by (simp add: math_round_def floor_mono)

end
