(* ===== verification/Quality.thy ===== *)
theory Quality
  imports JsNumbers JsStrings "HOL-Library.Multiset"
begin

text \<open>
  Codec order and bitrate ceilings of the video a call sends: \<open>media/videoQuality.ts\<close> and the
  application of the ceilings to a sender in \<open>media/engine.ts\<close> (\<open>applyQuality\<close>,
  \<open>applyQualityNow\<close>, \<open>setQuality\<close>).

  Bitrates, frame rates and scales are real numbers. A sender is what \<open>applyQualityNow\<close> reads
  of it: the kind, content hint and settings of its track and its parameters. The browser
  answers \<open>setParameters\<close> with an error or not, which is an argument.
\<close>

section \<open>Codec order\<close>

definition lower_char :: "char \<Rightarrow> char" where
  "lower_char c = (let n = of_char c :: nat
     in if (65 \<le> n \<and> n \<le> 90) \<or> (192 \<le> n \<and> n \<le> 222 \<and> n \<noteq> 215) then char_of (n + 32) else c)"

definition lower_text :: "string \<Rightarrow> string" where
  "lower_text s = map lower_char s"

definition hex_char :: "char \<Rightarrow> bool" where
  "hex_char c = (c \<in> set ''0123456789abcdef'')"

text \<open>The four digits of the first match of \<open>/profile-level-id=([0-9a-f]{4})/i\<close>, in lower case.\<close>

fun profile_digits :: "string \<Rightarrow> string option" where
  "profile_digits [] = None"
| "profile_digits (c # s) =
     (let digits = take 4 (drop 17 (c # s))
      in if starts_with (c # s) ''profile-level-id='' \<and> length digits = 4 \<and> list_all hex_char digits
         then Some digits else profile_digits s)"

record codec =
  mime_type :: string
  fmtp_line :: "string option"

definition codec_rank :: "codec \<Rightarrow> int" where
  "codec_rank c =
     (let mime = lower_text (mime_type c)
      in if mime = ''video/h264''
         then let format = nullish (fmtp_line c) []
              in if \<not> contains format ''packetization-mode=1'' then 3
                 else let profile = profile_digits (lower_text format)
                      in if profile = Some ''42e0'' then 0 else if profile = Some ''4200'' then 1 else 2
         else if mime = ''video/vp8'' then 4
         else if mime = ''video/vp9'' then 5
         else if mime = ''video/av1'' then 6
         else 7)"

record ranked_codec =
  ranked_codec :: codec
  codec_index :: nat
  codec_order :: int

definition cmp_codecs :: "ranked_codec \<Rightarrow> ranked_codec \<Rightarrow> int" where
  "cmp_codecs a b =
     (if codec_order a - codec_order b \<noteq> 0 then codec_order a - codec_order b
      else int (codec_index a) - int (codec_index b))"

definition preferred_video_codecs :: "codec list \<Rightarrow> codec list" where
  "preferred_video_codecs codecs =
     map ranked_codec (js_sort cmp_codecs
       (map (\<lambda>(n, c). \<lparr>ranked_codec = c, codec_index = n, codec_order = codec_rank c\<rparr>) (List.enumerate 0 codecs)))"

section \<open>Ceilings\<close>

record track_settings =
  width :: "real option"
  height :: "real option"
  frame_rate :: "real option"

definition camera_bitrate_ceiling :: "track_settings \<Rightarrow> real" where
  "camera_bitrate_ceiling t =
     (let pixels = nullish (width t) 1280 * nullish (height t) 720;
          base = (if pixels \<le> 640 * 360 then 700000
                  else if pixels \<le> 640 * 480 then 1000000
                  else if pixels \<le> 1280 * 720 then 2500000
                  else if pixels \<le> 1920 * 1080 then 4000000
                  else 6000000)
      in if nullish (frame_rate t) 30 > 35 then math_round (base * (14 / 10)) else base)"

definition per_viewer_bitrate :: "real \<Rightarrow> nat \<Rightarrow> real" where
  "per_viewer_bitrate limit n = (if n \<le> 2 then limit else math_round ((limit * 2) / real n))"

record media_quality =
  max_audio_bitrate :: "real option"
  max_video_bitrate :: "real option"
  max_framerate :: "real option"
  scale_resolution_down_by :: "real option"

definition set_quality :: "media_quality \<Rightarrow> media_quality \<Rightarrow> media_quality" where
  "set_quality old new =
     \<lparr>max_audio_bitrate = (case max_audio_bitrate new of None \<Rightarrow> max_audio_bitrate old | v \<Rightarrow> v),
      max_video_bitrate = (case max_video_bitrate new of None \<Rightarrow> max_video_bitrate old | v \<Rightarrow> v),
      max_framerate = (case max_framerate new of None \<Rightarrow> max_framerate old | v \<Rightarrow> v),
      scale_resolution_down_by = (case scale_resolution_down_by new of None \<Rightarrow> scale_resolution_down_by old | v \<Rightarrow> v)\<rparr>"

section \<open>Applying the ceilings to a sender\<close>

record encoding =
  enc_bitrate :: "real option"
  enc_framerate :: "real option"
  enc_scale :: "real option"

record parameters =
  degradation :: "string option"
  encodings :: "encoding list"

record sender_track =
  track_video :: bool
  content_hint :: string
  track_settings :: track_settings

text \<open>
  What the engine knows when it looks at a sender: whether its track is the shared screen or
  the camera, the quality settings, those of an active native share with their content hint,
  and how many participants there are.
\<close>

record quality_context =
  is_screen_track :: bool
  is_camera_track :: bool
  native_active :: bool
  engine_quality :: media_quality
  native_quality :: "media_quality option"
  native_hint :: string
  viewers :: nat

text \<open>One assignment of the loop: whether it changes the encoding, and the encoding after it.\<close>

definition put_limit :: "'a option \<Rightarrow> 'a option \<Rightarrow> bool \<times> 'a option" where
  "put_limit wanted old = (if wanted \<noteq> None \<and> old \<noteq> wanted then (True, wanted) else (False, old))"

definition limit_encoding :: "media_quality \<Rightarrow> bool \<Rightarrow> bool \<Rightarrow> real option \<Rightarrow> encoding \<Rightarrow> bool \<times> encoding" where
  "limit_encoding quality video camera bitrate e =
     (if \<not> video
      then let (c, b) = put_limit (max_audio_bitrate quality) (enc_bitrate e) in (c, e\<lparr>enc_bitrate := b\<rparr>)
      else
        let (c1, b) = put_limit bitrate (enc_bitrate e);
            (c2, f) = put_limit (if camera then None else max_framerate quality) (enc_framerate e);
            (c3, sc) = put_limit (if camera then None else scale_resolution_down_by quality) (enc_scale e);
            (c4, f) = (if camera \<and> f \<noteq> None then (True, None) else (False, f));
            (c5, sc) = (if camera \<and> sc \<noteq> None \<and> sc \<noteq> Some 1 then (True, Some 1) else (False, sc))
        in (c1 \<or> c2 \<or> c3 \<or> c4 \<or> c5, e\<lparr>enc_bitrate := b, enc_framerate := f, enc_scale := sc\<rparr>))"

definition on_screen :: "quality_context \<Rightarrow> sender_track \<Rightarrow> bool" where
  "on_screen q t = (track_video t \<and> is_screen_track q)"

definition on_camera :: "quality_context \<Rightarrow> sender_track \<Rightarrow> bool" where
  "on_camera q t = (track_video t \<and> is_camera_track q)"

definition native_compatibility :: "quality_context \<Rightarrow> sender_track \<Rightarrow> bool" where
  "native_compatibility q t = (on_screen q t \<and> native_active q)"

definition sender_quality :: "quality_context \<Rightarrow> sender_track \<Rightarrow> media_quality" where
  "sender_quality q t =
     (if native_compatibility q t then nullish (native_quality q) (engine_quality q) else engine_quality q)"

definition sender_preference :: "quality_context \<Rightarrow> sender_track \<Rightarrow> string option" where
  "sender_preference q t =
     (let hint = (if native_compatibility q t then native_hint q else content_hint t)
      in if on_screen q t then Some (if hint = ''motion'' then ''balanced'' else ''maintain-resolution'') else None)"

definition sender_bitrate :: "quality_context \<Rightarrow> sender_track \<Rightarrow> real option" where
  "sender_bitrate q t =
     (let limit = (if on_camera q t
             then Some (case max_video_bitrate (sender_quality q t) of
                     None \<Rightarrow> camera_bitrate_ceiling (track_settings t)
                   | Some m \<Rightarrow> min (camera_bitrate_ceiling (track_settings t)) m)
             else max_video_bitrate (sender_quality q t))
      in case limit of
           Some c \<Rightarrow> Some (if native_compatibility q t then c else per_viewer_bitrate c (viewers q))
         | None \<Rightarrow> None)"

definition limit_parameters :: "quality_context \<Rightarrow> sender_track \<Rightarrow> parameters \<Rightarrow> bool \<times> parameters" where
  "limit_parameters q t p =
     (let (c, d) = put_limit (sender_preference q t) (degradation p);
          es = map (limit_encoding (sender_quality q t) (track_video t) (on_camera q t) (sender_bitrate q t)) (encodings p)
      in (c \<or> list_ex fst es, \<lparr>degradation = d, encodings = map snd es\<rparr>))"

text \<open>
  \<open>applyQualityNow\<close> on a sender with a track: the parameters it leaves and the parameters it
  gives to \<open>setParameters\<close>, which fails when \<open>reject\<close> says so.
\<close>

definition apply_quality_now :: "quality_context \<Rightarrow> sender_track option \<Rightarrow> bool \<Rightarrow> parameters \<Rightarrow> bool \<times> parameters \<times> parameters list" where
  "apply_quality_now q track reject p =
     (case track of
        None \<Rightarrow> (True, p, [])
      | Some t \<Rightarrow>
          if encodings p = [] then (True, p, [])
          else let (changed, new) = limit_parameters q t p
               in if \<not> changed then (True, p, [])
                  else if reject then (False, p, [new]) else (True, new, [new]))"

text \<open>\<open>applyQuality\<close>: a rejected attempt is repeated once, with the parameters the sender has then.\<close>

definition apply_quality :: "quality_context \<Rightarrow> sender_track option \<Rightarrow> bool \<Rightarrow> (parameters \<Rightarrow> parameters) \<Rightarrow> bool \<Rightarrow> parameters \<Rightarrow>
    parameters \<times> parameters list" where
  "apply_quality q track reject others reject_again p =
     (let (ok, p', calls) = apply_quality_now q track reject p
      in if ok then (p', calls)
         else let (_, p'', calls') = apply_quality_now q track reject_again (others p') in (p'', calls @ calls'))"

section \<open>The codec order is a stable sort\<close>

lemma cmp_codecs_consistent: "consistent_cmp cmp_codecs A"
  unfolding consistent_cmp_def by (auto simp: cmp_codecs_def split: if_splits)

lemma mset_js_insert: "mset (js_insert cmp x xs) = add_mset x (mset xs)"
  by (induction xs) auto

lemma mset_js_sort: "mset (js_sort cmp xs) = mset xs"
  by (induction xs) (simp_all add: mset_js_insert)

text \<open>
  C22. The codec preferences keep every codec of the browser, order them by rank - H.264
  constrained baseline before the other H.264 profiles, VP8, VP9, AV1 and the rest - and keep
  the browser's order among codecs of one rank.
\<close>

theorem preferred_codecs_correct:
  "mset (preferred_video_codecs codecs) = mset codecs \<and>
   sorted (map codec_rank (preferred_video_codecs codecs)) \<and>
   filter (\<lambda>c. codec_rank c = k) (preferred_video_codecs codecs) = filter (\<lambda>c. codec_rank c = k) codecs"
proof -
  let ?f = "\<lambda>(n, c). \<lparr>ranked_codec = c, codec_index = n, codec_order = codec_rank c\<rparr>"
  let ?rs = "map ?f (List.enumerate 0 codecs)" and ?P = "\<lambda>r. codec_rank (ranked_codec r) = k"
  let ?ss = "js_sort cmp_codecs ?rs"
  have ranks: "codec_order r = codec_rank (ranked_codec r)" if "r \<in> set ?rs" for r using that by auto
  have "map ranked_codec ?rs = map snd (List.enumerate 0 codecs)"
    by (simp add: comp_def case_prod_beta)
  then have codecs: "map ranked_codec ?rs = codecs" by (simp only: map_snd_enumerate)
  have "sorted_wrt (<) (map fst (List.enumerate 0 codecs))"
    by (simp only: map_fst_enumerate) (rule sorted_wrt_upt)
  then have "sorted_wrt (\<lambda>a b. fst a < fst b) (List.enumerate 0 codecs)" by (simp only: sorted_wrt_map)
  then have index: "sorted_wrt (\<lambda>a b. codec_index a < codec_index b) ?rs"
    by (simp add: sorted_wrt_map case_prod_beta)
  have "sorted_wrt (\<lambda>a b. ?P a \<longrightarrow> ?P b \<longrightarrow> cmp_codecs a b \<le> 0) ?rs"
    by (rule sorted_wrt_mono_rel [OF _ index]) (use ranks in \<open>auto simp: cmp_codecs_def\<close>)
  then have "filter ?P ?ss = filter ?P ?rs" by (rule filter_js_sort)
  then have "map ranked_codec (filter ?P ?ss) = filter (\<lambda>c. codec_rank c = k) (map ranked_codec ?rs)"
    by (simp only: filter_map comp_def)
  moreover have "filter (\<lambda>c. codec_rank c = k) (map ranked_codec ?ss) = map ranked_codec (filter ?P ?ss)"
    by (simp only: filter_map comp_def)
  ultimately have stable: "filter (\<lambda>c. codec_rank c = k) (map ranked_codec ?ss) = filter (\<lambda>c. codec_rank c = k) codecs"
    by (simp only: codecs)
  have "sorted_wrt (\<lambda>a b. cmp_codecs a b \<le> 0) ?ss" by (rule js_sort_sorted) (rule cmp_codecs_consistent)
  then have "sorted_wrt (\<lambda>a b. codec_rank (ranked_codec a) \<le> codec_rank (ranked_codec b)) ?ss"
    by (rule sorted_wrt_mono_rel [rotated]) (use ranks in \<open>auto simp: cmp_codecs_def split: if_splits\<close>)
  moreover have "mset (map ranked_codec ?ss) = mset codecs"
    using arg_cong [OF mset_js_sort [of cmp_codecs ?rs], of "image_mset ranked_codec"] codecs by (metis mset_map)
  ultimately show ?thesis
    using stable by (simp add: preferred_video_codecs_def sorted_wrt_map)
qed

section \<open>Ceilings\<close>

lemma camera_ceiling_bounds: "700000 \<le> camera_bitrate_ceiling t \<and> camera_bitrate_ceiling t \<le> 8400000"
proof -
  have "math_round (of_int n) = of_int n" for n by (rule math_round_of_int)
  from this [of 980000] this [of 1400000] this [of 3500000] this [of 5600000] this [of 8400000]
  show ?thesis by (simp add: camera_bitrate_ceiling_def Let_def)
qed

text \<open>
  The copies of a track that a call sends to its viewers take at most twice its ceiling
  of the uplink, up to half a bit per second and viewer of rounding.
\<close>

theorem uplink_is_bounded:
  assumes "0 \<le> limit"
  shows "real n * per_viewer_bitrate limit n \<le> 2 * limit + real n / 2"
proof (cases "n \<le> 2")
  case True
  then have "real n * limit \<le> 2 * limit" using assms by (intro mult_right_mono) simp_all
  then show ?thesis using True by (simp add: per_viewer_bitrate_def)
next
  case False
  have "real n * math_round (limit * 2 / real n) \<le> real n * (limit * 2 / real n + 1 / 2)"
    by (intro mult_left_mono math_round_le) simp
  also have "\<dots> = real n * (limit * 2 / real n) + real n / 2" by (simp add: distrib_left)
  also have "real n * (limit * 2 / real n) = 2 * limit" using False by simp
  finally show ?thesis using False by (simp add: per_viewer_bitrate_def)
qed

theorem uplink_is_bounded_witness: "real 5 * per_viewer_bitrate 2500000 5 \<le> 2 * 2500000 + real 5 / 2"
  by (rule uplink_is_bounded) simp

section \<open>The ceilings of a sender\<close>

lemma put_limit_again: "put_limit w (snd (put_limit w x)) = (False, snd (put_limit w x))"
  by (simp add: put_limit_def)

lemma put_limit_same: "\<not> fst (put_limit w x) \<Longrightarrow> snd (put_limit w x) = x"
  by (auto simp: put_limit_def split: if_splits)

lemma put_limit_none: "put_limit None x = (False, x)"
  by (simp add: put_limit_def)

lemma limit_encoding_audio:
  "limit_encoding quality False c b e =
     (fst (put_limit (max_audio_bitrate quality) (enc_bitrate e)),
      e\<lparr>enc_bitrate := snd (put_limit (max_audio_bitrate quality) (enc_bitrate e))\<rparr>)"
  by (simp add: limit_encoding_def split: prod.split)

lemma limit_encoding_video:
  "limit_encoding quality True False b e =
     (fst (put_limit b (enc_bitrate e)) \<or> fst (put_limit (max_framerate quality) (enc_framerate e)) \<or>
        fst (put_limit (scale_resolution_down_by quality) (enc_scale e)),
      e\<lparr>enc_bitrate := snd (put_limit b (enc_bitrate e)),
        enc_framerate := snd (put_limit (max_framerate quality) (enc_framerate e)),
        enc_scale := snd (put_limit (scale_resolution_down_by quality) (enc_scale e))\<rparr>)"
  by (simp add: limit_encoding_def split: prod.split)

lemma limit_encoding_camera:
  "limit_encoding quality True True b e =
     (fst (put_limit b (enc_bitrate e)) \<or> enc_framerate e \<noteq> None \<or> (enc_scale e \<noteq> None \<and> enc_scale e \<noteq> Some 1),
      e\<lparr>enc_bitrate := snd (put_limit b (enc_bitrate e)), enc_framerate := None,
        enc_scale := (if enc_scale e = None then None else Some 1)\<rparr>)"
  by (cases e; cases "enc_scale e"; cases "enc_framerate e")
    (auto simp: limit_encoding_def put_limit_none split: prod.split)

lemmas limit_encoding_cases = limit_encoding_audio limit_encoding_video limit_encoding_camera

lemma limit_encoding_again:
  "limit_encoding quality v c b (snd (limit_encoding quality v c b e)) = (False, snd (limit_encoding quality v c b e))"
  by (cases v; cases c) (simp_all add: limit_encoding_cases put_limit_again)

lemma limit_encoding_same: "\<not> fst (limit_encoding quality v c b e) \<Longrightarrow> snd (limit_encoding quality v c b e) = e"
  by (cases v; cases c) (auto simp: limit_encoding_cases put_limit_same)

lemma limit_parameters_again:
  "limit_parameters q t (snd (limit_parameters q t p)) = (False, snd (limit_parameters q t p))"
  by (simp add: limit_parameters_def Let_def put_limit_again limit_encoding_again list_ex_iff comp_def case_prod_beta)

lemma limit_parameters_same: "\<not> fst (limit_parameters q t p) \<Longrightarrow> snd (limit_parameters q t p) = p"
  by (cases p) (auto simp: limit_parameters_def Let_def list_ex_iff limit_encoding_same case_prod_beta
      intro!: map_idI dest: put_limit_same)

text \<open>
  A sender whose ceilings were applied is at rest: applying them again asks the browser
  for nothing, whatever the first attempt met, unless the browser rejected both attempts or the
  parameters were changed in between.
\<close>

theorem applied_ceilings_rest:
  assumes "apply_quality q track reject (\<lambda>p. p) reject_again p = (p', calls)"
    and "\<not> (reject \<and> reject_again)"
  shows "apply_quality q track reject' others reject_again' p' = (p', [])"
  using assms
  by (auto simp: apply_quality_def apply_quality_now_def limit_parameters_again case_prod_beta
      split: option.splits if_splits dest: limit_parameters_same)

theorem applied_ceilings_rest_witness:
  "apply_quality
     \<lparr>is_screen_track = True, is_camera_track = False, native_active = False,
      engine_quality = \<lparr>max_audio_bitrate = Some 256000, max_video_bitrate = Some 20000000,
        max_framerate = Some 60, scale_resolution_down_by = None\<rparr>,
      native_quality = None, native_hint = [], viewers = 2\<rparr>
     (Some \<lparr>track_video = True, content_hint = ''motion'',
        track_settings = \<lparr>width = None, height = None, frame_rate = None\<rparr>\<rparr>)
     False id False
     \<lparr>degradation = Some ''balanced'',
      encodings = [\<lparr>enc_bitrate = Some 20000000, enc_framerate = Some 60, enc_scale = Some 2\<rparr>]\<rparr> =
     (\<lparr>degradation = Some ''balanced'',
      encodings = [\<lparr>enc_bitrate = Some 20000000, enc_framerate = Some 60, enc_scale = Some 2\<rparr>]\<rparr>, [])"
  by (rule applied_ceilings_rest [where reject = True and reject_again = False and
        p = "\<lparr>degradation = None, encodings = [\<lparr>enc_bitrate = None, enc_framerate = Some 60, enc_scale = Some 2\<rparr>]\<rparr>"
        and calls = "replicate 2 \<lparr>degradation = Some ''balanced'',
          encodings = [\<lparr>enc_bitrate = Some 20000000, enc_framerate = Some 60, enc_scale = Some 2\<rparr>]\<rparr>"])
    (simp_all add: apply_quality_def apply_quality_now_def limit_parameters_def sender_preference_def sender_quality_def
      sender_bitrate_def native_compatibility_def on_screen_def on_camera_def limit_encoding_def put_limit_def
      per_viewer_bitrate_def numeral_2_eq_2)

lemma per_viewer_le:
  assumes "c \<le> m" and "3 / 2 \<le> m"
  shows "per_viewer_bitrate c n \<le> m"
proof (cases "n \<le> 2")
  case False
  have "c * 2 / real n \<le> m * 2 / real n" using assms(1) by (intro divide_right_mono) simp_all
  also have "\<dots> \<le> m * 2 / 3" using False assms(2) by (intro divide_left_mono) simp_all
  finally have "math_round (c * 2 / real n) \<le> m * 2 / 3 + 1 / 2"
    using math_round_le [of "c * 2 / real n"] by linarith
  then show ?thesis using False assms(2) by (simp add: per_viewer_bitrate_def)
qed (use assms in \<open>simp add: per_viewer_bitrate_def\<close>)

lemma camera_sender_bitrate:
  assumes "on_camera q t"
  shows "\<exists>b. sender_bitrate q t = Some b \<and> b \<le> camera_bitrate_ceiling (track_settings t)"
proof -
  let ?top = "camera_bitrate_ceiling (track_settings t)"
  obtain c where "c \<le> ?top" and
    c: "sender_bitrate q t = Some (if native_compatibility q t then c else per_viewer_bitrate c (viewers q))"
  proof (cases "max_video_bitrate (sender_quality q t)")
    case None
    with assms that [of ?top] show ?thesis by (simp add: sender_bitrate_def)
  next
    case (Some m)
    with assms that [of "min ?top m"] show ?thesis by (simp add: sender_bitrate_def)
  qed
  moreover have "per_viewer_bitrate c (viewers q) \<le> ?top"
    using \<open>c \<le> ?top\<close> camera_ceiling_bounds [of "track_settings t"] by (intro per_viewer_le) simp_all
  ultimately show ?thesis by auto
qed

text \<open>
  A camera keeps its own capture settings: whatever the share's quality settings are,
  accepted ceilings leave its encodings without a frame-rate limit and unscaled, and with at
  most the bitrate that its picture is worth.
\<close>

theorem camera_ignores_share_settings:
  assumes "on_camera q t"
    and "apply_quality_now q (Some t) False p = (ok, p', calls)"
  shows "list_all (\<lambda>e. enc_framerate e = None \<and> enc_scale e \<in> {None, Some 1} \<and>
           enc_bitrate e \<in> Some ` {..camera_bitrate_ceiling (track_settings t)}) (encodings p')"
proof -
  have video: "track_video t" using assms(1) by (simp add: on_camera_def)
  obtain b where b: "sender_bitrate q t = Some b" "b \<le> camera_bitrate_ceiling (track_settings t)"
    using camera_sender_bitrate [OF assms(1)] by auto
  show ?thesis
  proof (cases "encodings p = []")
    case True
    with assms(2) show ?thesis by (simp add: apply_quality_now_def)
  next
    case False
    then have "p' = snd (limit_parameters q t p)"
      using assms(2) limit_parameters_same [of q t p]
      by (auto simp: apply_quality_now_def case_prod_beta split: if_splits)
    then show ?thesis
      using b video assms(1)
      by (auto simp: limit_parameters_def case_prod_beta limit_encoding_camera put_limit_def list_all_iff)
  qed
qed

theorem camera_ignores_share_settings_witness:
  "list_all (\<lambda>e. enc_framerate e = None \<and> enc_scale e \<in> {None, Some 1} \<and>
     enc_bitrate e \<in> Some ` {..camera_bitrate_ceiling \<lparr>width = Some 640, height = Some 360, frame_rate = Some 30\<rparr>})
     [\<lparr>enc_bitrate = Some 700000, enc_framerate = None, enc_scale = Some 1\<rparr>]"
proof -
  let ?q = "\<lparr>is_screen_track = False, is_camera_track = True, native_active = False,
      engine_quality = \<lparr>max_audio_bitrate = None, max_video_bitrate = Some 20000000,
        max_framerate = Some 60, scale_resolution_down_by = Some 2\<rparr>,
      native_quality = None, native_hint = [], viewers = 1\<rparr>"
  let ?t = "\<lparr>track_video = True, content_hint = [],
      track_settings = \<lparr>width = Some 640, height = Some 360, frame_rate = Some 30\<rparr>\<rparr>"
  let ?p = "\<lparr>degradation = None, encodings = [\<lparr>enc_bitrate = None, enc_framerate = Some 60, enc_scale = Some 2\<rparr>]\<rparr>"
  let ?p' = "\<lparr>degradation = None, encodings = [\<lparr>enc_bitrate = Some 700000, enc_framerate = None, enc_scale = Some 1\<rparr>]\<rparr>"
  have run: "apply_quality_now ?q (Some ?t) False ?p = (True, ?p', [?p'])"
    by (simp add: apply_quality_now_def limit_parameters_def sender_preference_def sender_quality_def
        sender_bitrate_def native_compatibility_def on_screen_def on_camera_def limit_encoding_def put_limit_def
        per_viewer_bitrate_def camera_bitrate_ceiling_def)
  have "on_camera ?q ?t" by (simp add: on_camera_def)
  from camera_ignores_share_settings [OF this run] show ?thesis by simp
qed

end
