(* ===== verification/RemoteTracks.thy ===== *)
theory RemoteTracks
  imports Prelude
begin

text \<open>
  What a call hears and sees of the others: the tracks that \<open>MediaEngine\<close> (\<open>media/engine.ts\<close>)
  has received over the ordinary connections, over the native transports of screens and
  cameras and over the voice relay, and the list \<open>getRemoteTracks\<close> that it shows of them.

  A \<open>Peer\<close> object is a number, \<open>peer_objects\<close> has for every object ever made its participant
  and its maps. A track is its identity with its \<open>id\<close>; streams are only named by their ids.
  The listeners of \<open>useCallSession\<close> (\<open>features/call/useCallSession.ts\<close>) read the list again at
  every event: \<open>shown_tracks\<close> is what they read last.
\<close>

section \<open>Descriptors\<close>

datatype media_source = Camera | Microphone | Screen | System

datatype screen_transport = Browser_screen | Native_compatibility

record track_descriptor =
  descriptor_source :: media_source
  descriptor_track :: string
  descriptor_audio :: bool
  descriptor_enabled :: bool
  descriptor_stream :: "string option"
  descriptor_transport :: "screen_transport option"

definition find_track_descriptor :: "track_descriptor list \<Rightarrow> string \<Rightarrow> string list \<Rightarrow> track_descriptor option" where
  "find_track_descriptor values track streams =
     (case find (\<lambda>d. descriptor_track d = track) values of
        Some d \<Rightarrow> Some d
      | None \<Rightarrow> find (\<lambda>d. case descriptor_stream d of None \<Rightarrow> False | Some i \<Rightarrow> i \<noteq> [] \<and> i \<in> set streams) values)"

section \<open>State\<close>

record media_track =
  track_object :: nat
  track_id :: string

record remote_track =
  remote_peer :: string
  remote_source :: media_source
  remote_media :: media_track
  remote_transport :: "screen_transport option"

record peer_object =
  peer_name :: string
  metadata :: "(string, track_descriptor) jsmap"
  remote :: "(media_source, remote_track) jsmap"
  pending_tracks :: "(string, media_track \<times> string list) jsmap"

datatype remote_event =
    Remote_track remote_track
  | Remote_track_removed string media_source
  | Finish_fallback string

record remote_tracks =
  own_name :: string
  tracks_disposed :: bool
  call_peers :: "(string, nat) jsmap"
  peer_objects :: "peer_object list"
  native_remote :: "(string, remote_track) jsmap"
  native_camera_remote :: "(string, remote_track) jsmap"
  relay_tracks :: "(string, remote_track) jsmap"
  exposed :: "string list"
  remote_events :: "remote_event list"
  shown_tracks :: "remote_track list"

definition no_remote_tracks :: "string \<Rightarrow> remote_tracks" where
  "no_remote_tracks me = \<lparr>own_name = me, tracks_disposed = False, call_peers = [], peer_objects = [],
     native_remote = [], native_camera_remote = [], relay_tracks = [], exposed = [], remote_events = [], shown_tracks = []\<rparr>"

definition new_object :: "string \<Rightarrow> peer_object" where
  "new_object p = \<lparr>peer_name = p, metadata = [], remote = [], pending_tracks = []\<rparr>"

definition set_object :: "nat \<Rightarrow> (peer_object \<Rightarrow> peer_object) \<Rightarrow> remote_tracks \<Rightarrow> remote_tracks" where
  "set_object k f s = s\<lparr>peer_objects := (peer_objects s)[k := f (peer_objects s ! k)]\<rparr>"

section \<open>The list\<close>

definition wanted :: "string option \<Rightarrow> string \<Rightarrow> bool" where
  "wanted peer p = (peer = None \<or> peer = Some [] \<or> peer = Some p)"

definition direct_listed :: "remote_tracks \<Rightarrow> remote_track \<Rightarrow> bool" where
  "direct_listed s t =
     ((remote_source t \<noteq> Microphone \<or> jget (relay_tracks s) (remote_peer t) = None) \<and>
      (remote_source t \<noteq> Camera \<or> jget (native_camera_remote s) (remote_peer t) = None))"

definition has_direct_screen :: "remote_tracks \<Rightarrow> string \<Rightarrow> bool" where
  "has_direct_screen s p =
     (case jget (call_peers s) p of None \<Rightarrow> False | Some k \<Rightarrow> jget (remote (peer_objects s ! k)) Screen \<noteq> None)"

definition asked_peers :: "string option \<Rightarrow> (string, nat) jsmap \<Rightarrow> nat list" where
  "asked_peers peer peers =
     (if peer = None \<or> peer = Some [] then jvals peers
      else case jget peers (the peer) of None \<Rightarrow> [] | Some k \<Rightarrow> [k])"

definition get_remote_tracks :: "string option \<Rightarrow> remote_tracks \<Rightarrow> remote_track list" where
  "get_remote_tracks peer s =
     concat (map (\<lambda>k. filter (direct_listed s) (jvals (remote (peer_objects s ! k)))) (asked_peers peer (call_peers s)))
     @ filter (\<lambda>t. wanted peer (remote_peer t) \<and> \<not> has_direct_screen s (remote_peer t)) (jvals (native_remote s))
     @ filter (\<lambda>t. wanted peer (remote_peer t)) (jvals (native_camera_remote s))
     @ filter (\<lambda>t. wanted peer (remote_peer t)) (jvals (relay_tracks s))"

text \<open>\<open>emit\<close>, with the listeners of the call session.\<close>

definition emit :: "remote_event \<Rightarrow> remote_tracks \<Rightarrow> remote_tracks" where
  "emit e s = s\<lparr>remote_events := remote_events s @ [e], shown_tracks := get_remote_tracks None s\<rparr>"

section \<open>Tracks of the ordinary connections\<close>

definition wait_for_metadata :: "nat \<Rightarrow> media_track \<Rightarrow> string list \<Rightarrow> remote_tracks \<Rightarrow> remote_tracks" where
  "wait_for_metadata k track streams s =
     set_object k (\<lambda>o'. o'\<lparr>pending_tracks := jset (pending_tracks o') (track_id track) (track, streams)\<rparr>) s"

definition no_longer_pending :: "nat \<Rightarrow> media_track \<Rightarrow> remote_tracks \<Rightarrow> remote_tracks" where
  "no_longer_pending k track s = set_object k (\<lambda>o'. o'\<lparr>pending_tracks := jdel (pending_tracks o') (track_id track)\<rparr>) s"

definition announce_replaced :: "nat \<Rightarrow> media_source \<Rightarrow> remote_tracks \<Rightarrow> remote_tracks" where
  "announce_replaced k source s =
     (if jget (remote (peer_objects s ! k)) source \<noteq> None
      then emit (Remote_track_removed (peer_name (peer_objects s ! k)) source) s else s)"

definition take_over_screen :: "nat \<Rightarrow> media_source \<Rightarrow> remote_tracks \<Rightarrow> remote_tracks" where
  "take_over_screen k source s =
     (let p = peer_name (peer_objects s ! k)
      in if source = Screen \<and> jget (native_remote s) p \<noteq> None
         then s\<lparr>native_remote := jdel (native_remote s) p, remote_events := remote_events s @ [Finish_fallback p]\<rparr>
         else s)"

definition store_track :: "nat \<Rightarrow> remote_track \<Rightarrow> remote_tracks \<Rightarrow> remote_tracks" where
  "store_track k r s =
     (let s = set_object k (\<lambda>o'. o'\<lparr>remote := jset (remote o') (remote_source r) r\<rparr>) s
      in if remote_source r \<noteq> Microphone \<or> jget (relay_tracks s) (remote_peer r) = None then emit (Remote_track r) s else s)"

definition described_track :: "string \<Rightarrow> track_descriptor \<Rightarrow> media_track \<Rightarrow> remote_track" where
  "described_track p d track = \<lparr>remote_peer = p, remote_source = descriptor_source d, remote_media = track,
     remote_transport = (if descriptor_source d = Screen then descriptor_transport d else None)\<rparr>"

definition accept_remote_track :: "nat \<Rightarrow> media_track \<Rightarrow> string list \<Rightarrow> remote_tracks \<Rightarrow> remote_tracks" where
  "accept_remote_track k track streams s =
     (case find_track_descriptor (jvals (metadata (peer_objects s ! k))) (track_id track) streams of
        None \<Rightarrow> wait_for_metadata k track streams s
      | Some d \<Rightarrow>
          let s = no_longer_pending k track s;
              existing = jget (remote (peer_objects s ! k)) (descriptor_source d)
          in if existing \<noteq> None \<and> remote_media (the existing) = track then s
             else store_track k (described_track (peer_name (peer_objects s ! k)) d track)
                    (take_over_screen k (descriptor_source d) (announce_replaced k (descriptor_source d) s)))"

definition remove_source :: "nat \<Rightarrow> media_source \<Rightarrow> remote_tracks \<Rightarrow> remote_tracks" where
  "remove_source k source s =
     emit (Remote_track_removed (peer_name (peer_objects s ! k)) source)
       (set_object k (\<lambda>o'. o'\<lparr>remote := jdel (remote o') source\<rparr>) s)"

text \<open>The listener on \<open>ended\<close> of an accepted track.\<close>

definition track_ended :: "nat \<Rightarrow> media_source \<Rightarrow> media_track \<Rightarrow> remote_tracks \<Rightarrow> remote_tracks" where
  "track_ended k source track s =
     (case jget (remote (peer_objects s ! k)) source of
        None \<Rightarrow> s
      | Some t \<Rightarrow> if remote_media t = track then remove_source k source s else s)"

definition descriptor_map :: "track_descriptor list \<Rightarrow> (string, track_descriptor) jsmap" where
  "descriptor_map ds = foldl (\<lambda>m d. jset m (descriptor_track d) d) [] ds"

definition track_metadata :: "nat \<Rightarrow> track_descriptor list \<Rightarrow> remote_tracks \<Rightarrow> remote_tracks" where
  "track_metadata k tracks s =
     (let s = foldl (\<lambda>s source. if source \<in> descriptor_source ` set tracks then s else remove_source k source s)
                s (jkeys (remote (peer_objects s ! k)));
          s = set_object k (\<lambda>o'. o'\<lparr>metadata := descriptor_map tracks\<rparr>) s
      in foldl (\<lambda>s (track, streams). accept_remote_track k track streams s)
           s (jvals (pending_tracks (peer_objects s ! k))))"

section \<open>The relay and the native transports\<close>

definition on_relay_track :: "string \<Rightarrow> media_track option \<Rightarrow> remote_tracks \<Rightarrow> remote_tracks" where
  "on_relay_track p track s =
     (case (if jhas (call_peers s) p \<and> \<not> tracks_disposed s then track else None) of
        Some t \<Rightarrow>
          let r = \<lparr>remote_peer = p, remote_source = Microphone, remote_media = t, remote_transport = None\<rparr>
          in emit (Remote_track r) (s\<lparr>relay_tracks := jset (relay_tracks s) p r\<rparr>)
      | None \<Rightarrow>
          if jget (relay_tracks s) p = None then s
          else
            let s = s\<lparr>relay_tracks := jdel (relay_tracks s) p\<rparr>;
                direct = (case jget (call_peers s) p of None \<Rightarrow> None | Some k \<Rightarrow> jget (remote (peer_objects s ! k)) Microphone)
            in case direct of
                 Some t \<Rightarrow> emit (if tracks_disposed s then Remote_track_removed p Microphone else Remote_track t) s
               | None \<Rightarrow> emit (Remote_track_removed p Microphone) s)"

text \<open>The relay exposes the track of a participant once, and takes back what it has exposed.\<close>

definition relay_exposes :: "string \<Rightarrow> media_track \<Rightarrow> remote_tracks \<Rightarrow> remote_tracks" where
  "relay_exposes p t s =
     (if p \<in> set (exposed s) then s else on_relay_track p (Some t) (s\<lparr>exposed := sadd p (exposed s)\<rparr>))"

definition relay_withdraws :: "string \<Rightarrow> remote_tracks \<Rightarrow> remote_tracks" where
  "relay_withdraws p s =
     (if p \<in> set (exposed s) then on_relay_track p None (s\<lparr>exposed := sdel p (exposed s)\<rparr>) else s)"

definition native_track :: "string \<Rightarrow> media_track \<Rightarrow> remote_tracks \<Rightarrow> remote_tracks" where
  "native_track p t s =
     (let r = \<lparr>remote_peer = p, remote_source = Screen, remote_media = t, remote_transport = None\<rparr>
      in emit (Remote_track r) (s\<lparr>native_remote := jset (native_remote s) p r\<rparr>))"

definition native_removed :: "string \<Rightarrow> remote_tracks \<Rightarrow> remote_tracks" where
  "native_removed p s =
     (if jget (native_remote s) p = None then s
      else emit (Remote_track_removed p Screen) (s\<lparr>native_remote := jdel (native_remote s) p\<rparr>))"

definition native_camera_track :: "string \<Rightarrow> media_track \<Rightarrow> remote_tracks \<Rightarrow> remote_tracks" where
  "native_camera_track p t s =
     (let r = \<lparr>remote_peer = p, remote_source = Camera, remote_media = t, remote_transport = None\<rparr>
      in emit (Remote_track r) (s\<lparr>native_camera_remote := jset (native_camera_remote s) p r\<rparr>))"

definition native_camera_removed :: "string \<Rightarrow> remote_tracks \<Rightarrow> remote_tracks" where
  "native_camera_removed p s =
     (if jget (native_camera_remote s) p = None then s
      else emit (Remote_track_removed p Camera) (s\<lparr>native_camera_remote := jdel (native_camera_remote s) p\<rparr>))"

section \<open>Participants\<close>

definition add_peer :: "string \<Rightarrow> remote_tracks \<Rightarrow> remote_tracks" where
  "add_peer p s =
     (if p = own_name s \<or> jhas (call_peers s) p then s
      else s\<lparr>call_peers := jset (call_peers s) p (length (peer_objects s)), peer_objects := peer_objects s @ [new_object p]\<rparr>)"

text \<open>
  \<open>removePeer\<close>: the relay takes back what it has exposed, and so do the native transports,
  which are told with the event whether they hold a receiver of the participant.
\<close>

definition close_object :: "string \<Rightarrow> nat \<Rightarrow> remote_tracks \<Rightarrow> remote_tracks" where
  "close_object p k s =
     (let removed = jkeys (remote (peer_objects s ! k));
          s = set_object k (\<lambda>o'. o'\<lparr>remote := [], pending_tracks := []\<rparr>) (s\<lparr>call_peers := jdel (call_peers s) p\<rparr>)
      in foldl (\<lambda>s source. emit (Remote_track_removed p source) s) s removed)"

definition remove_peer :: "string \<Rightarrow> bool \<Rightarrow> bool \<Rightarrow> remote_tracks \<Rightarrow> remote_tracks" where
  "remove_peer p screen camera s =
     (let s = relay_withdraws p s;
          s = s\<lparr>relay_tracks := jdel (relay_tracks s) p\<rparr>;
          s = (if screen then native_removed p s else s);
          s = (if camera then native_camera_removed p s else s)
      in case jget (call_peers s) p of None \<Rightarrow> s | Some k \<Rightarrow> close_object p k s)"

text \<open>A signal with metadata, once its turn has come in the queue of its participant.\<close>

definition handle_metadata :: "string \<Rightarrow> track_descriptor list \<Rightarrow> remote_tracks \<Rightarrow> remote_tracks" where
  "handle_metadata p tracks s =
     (if tracks_disposed s then s
      else let s = add_peer p s
           in case jget (call_peers s) p of None \<Rightarrow> s | Some k \<Rightarrow> track_metadata k tracks s)"

definition dispose_tracks :: "string list \<Rightarrow> string list \<Rightarrow> remote_tracks \<Rightarrow> remote_tracks" where
  "dispose_tracks screens cameras s =
     (if tracks_disposed s then s
      else
        let s = s\<lparr>tracks_disposed := True\<rparr>;
            s = foldl (\<lambda>s p. relay_withdraws p s) s (exposed s);
            s = foldl (\<lambda>s p. native_removed p s) s screens;
            s = foldl (\<lambda>s p. native_camera_removed p s) s cameras
        in foldl (\<lambda>s p. remove_peer p False False s) s (jkeys (call_peers s)))"

datatype tracks_event =
    Peer_added string
  | Peer_removed string bool bool
  | Track_arrives nat media_track "string list"
  | Track_ends nat media_source media_track
  | Metadata string "track_descriptor list"
  | Relay_exposes string media_track
  | Relay_withdraws string
  | Native_track string media_track
  | Native_removed string
  | Native_camera_track string media_track
  | Native_camera_removed string
  | Dispose_tracks "string list" "string list"

fun tracks_step :: "remote_tracks \<Rightarrow> tracks_event \<Rightarrow> remote_tracks" where
  "tracks_step s (Peer_added p) = (if tracks_disposed s then s else add_peer p s)"
| "tracks_step s (Peer_removed p screen camera) = remove_peer p screen camera s"
| "tracks_step s (Track_arrives k t streams) = (if k < length (peer_objects s) then accept_remote_track k t streams s else s)"
| "tracks_step s (Track_ends k source t) = (if k < length (peer_objects s) then track_ended k source t s else s)"
| "tracks_step s (Metadata p tracks) = handle_metadata p tracks s"
| "tracks_step s (Relay_exposes p t) = relay_exposes p t s"
| "tracks_step s (Relay_withdraws p) = relay_withdraws p s"
| "tracks_step s (Native_track p t) = native_track p t s"
| "tracks_step s (Native_removed p) = native_removed p s"
| "tracks_step s (Native_camera_track p t) = native_camera_track p t s"
| "tracks_step s (Native_camera_removed p) = native_camera_removed p s"
| "tracks_step s (Dispose_tracks screens cameras) = dispose_tracks screens cameras s"

section \<open>Well-formed track tables\<close>

definition tagged :: "media_source \<Rightarrow> (string, remote_track) jsmap \<Rightarrow> bool" where
  "tagged source m = (distinct (jkeys m) \<and> list_all (\<lambda>(p, t). remote_peer t = p \<and> remote_source t = source) m)"

definition object_ok :: "peer_object \<Rightarrow> bool" where
  "object_ok o' = (distinct (jkeys (remote o')) \<and>
     list_all (\<lambda>(source, t). remote_peer t = peer_name o' \<and> remote_source t = source) (remote o') \<and>
     list_all (\<lambda>(i, t, streams). track_id t = i) (pending_tracks o'))"

definition peers_ok :: "remote_tracks \<Rightarrow> bool" where
  "peers_ok s = (distinct (jkeys (call_peers s)) \<and>
     list_all (\<lambda>(p, k). k < length (peer_objects s) \<and> peer_name (peer_objects s ! k) = p) (call_peers s))"

definition tables_ok :: "remote_tracks \<Rightarrow> bool" where
  "tables_ok s = (peers_ok s \<and> list_all object_ok (peer_objects s) \<and>
     tagged Screen (native_remote s) \<and> tagged Camera (native_camera_remote s) \<and> tagged Microphone (relay_tracks s) \<and>
     set (jkeys (relay_tracks s)) \<subseteq> set (exposed s))"

lemma tagged_Nil [simp]: "tagged source []"
  by (simp add: tagged_def)

lemma tagged_jset: "tagged source m \<Longrightarrow> remote_peer t = p \<Longrightarrow> remote_source t = source \<Longrightarrow> tagged source (jset m p t)"
  by (simp add: tagged_def list_all_jset)

lemma tagged_jdel: "tagged source m \<Longrightarrow> tagged source (jdel m p)"
  by (simp add: tagged_def list_all_jdel)

lemma object_ok_jset:
  "object_ok o' \<Longrightarrow> remote_peer t = peer_name o' \<Longrightarrow> remote_source t = source \<Longrightarrow>
   object_ok (o'\<lparr>remote := jset (remote o') source t\<rparr>)"
  by (simp add: object_ok_def list_all_jset)

lemma object_ok_jdel: "object_ok o' \<Longrightarrow> object_ok (o'\<lparr>remote := jdel (remote o') source\<rparr>)"
  by (simp add: object_ok_def list_all_jdel)

lemma object_ok_simps [simp]:
  "object_ok (new_object p)"
  "object_ok (o'\<lparr>metadata := m\<rparr>) = object_ok o'"
  "object_ok o' \<Longrightarrow> object_ok (o'\<lparr>pending_tracks := jset (pending_tracks o') (track_id t) (t, w)\<rparr>)"
  "object_ok o' \<Longrightarrow> object_ok (o'\<lparr>pending_tracks := jdel (pending_tracks o') i\<rparr>)"
  by (simp_all add: object_ok_def new_object_def list_all_jset list_all_jdel)

lemma emit_simps [simp]:
  "own_name (emit e s) = own_name s" "tracks_disposed (emit e s) = tracks_disposed s"
  "call_peers (emit e s) = call_peers s" "peer_objects (emit e s) = peer_objects s"
  "native_remote (emit e s) = native_remote s" "native_camera_remote (emit e s) = native_camera_remote s"
  "relay_tracks (emit e s) = relay_tracks s" "exposed (emit e s) = exposed s"
  by (simp_all add: emit_def)

lemma set_object_simps [simp]:
  "own_name (set_object k f s) = own_name s" "tracks_disposed (set_object k f s) = tracks_disposed s"
  "call_peers (set_object k f s) = call_peers s" "length (peer_objects (set_object k f s)) = length (peer_objects s)"
  "native_remote (set_object k f s) = native_remote s" "native_camera_remote (set_object k f s) = native_camera_remote s"
  "relay_tracks (set_object k f s) = relay_tracks s" "exposed (set_object k f s) = exposed s"
  "shown_tracks (set_object k f s) = shown_tracks s"
  by (simp_all add: set_object_def)

lemma set_object_nth:
  "k < length (peer_objects s) \<Longrightarrow>
   peer_objects (set_object k f s) ! j = (if j = k then f (peer_objects s ! k) else peer_objects s ! j)"
  by (simp add: set_object_def nth_list_update)

lemma tables_ok_cong:
  "call_peers s' = call_peers s \<Longrightarrow> peer_objects s' = peer_objects s \<Longrightarrow> native_remote s' = native_remote s \<Longrightarrow>
   native_camera_remote s' = native_camera_remote s \<Longrightarrow> relay_tracks s' = relay_tracks s \<Longrightarrow> exposed s' = exposed s \<Longrightarrow>
   tables_ok s' = tables_ok s"
  by (simp add: tables_ok_def peers_ok_def)

lemma tables_ok_emit [simp]: "tables_ok (emit e s) = tables_ok s"
  by (rule tables_ok_cong) simp_all

lemma tables_ok_set_object:
  assumes "tables_ok s" "k < length (peer_objects s)" "object_ok (f (peer_objects s ! k))"
    "peer_name (f (peer_objects s ! k)) = peer_name (peer_objects s ! k)"
  shows "tables_ok (set_object k f s)"
proof -
  have "list_all object_ok (peer_objects (set_object k f s))"
    using assms by (simp add: tables_ok_def list_all_length set_object_nth)
  moreover have "peer_name (peer_objects (set_object k f s) ! j) = peer_name (peer_objects s ! j)" for j
    using assms by (simp add: set_object_nth)
  then have "peers_ok (set_object k f s)"
    using assms(1) by (simp add: tables_ok_def peers_ok_def)
  ultimately show ?thesis using assms(1) by (simp add: tables_ok_def)
qed

lemma tables_okD:
  assumes "tables_ok s"
  shows "distinct (jkeys (call_peers s))"
    "jget (call_peers s) p = Some k \<Longrightarrow> k < length (peer_objects s)"
    "jget (call_peers s) p = Some k \<Longrightarrow> peer_name (peer_objects s ! k) = p"
    "k < length (peer_objects s) \<Longrightarrow> object_ok (peer_objects s ! k)"
    "tagged Screen (native_remote s)" "tagged Camera (native_camera_remote s)" "tagged Microphone (relay_tracks s)"
    "jget (relay_tracks s) p = Some t \<Longrightarrow> p \<in> set (exposed s)"
proof -
  have peers: "list_all (\<lambda>(p, k). k < length (peer_objects s) \<and> peer_name (peer_objects s ! k) = p) (call_peers s)"
    using assms by (simp add: tables_ok_def peers_ok_def)
  show "jget (call_peers s) p = Some k \<Longrightarrow> k < length (peer_objects s)"
    "jget (call_peers s) p = Some k \<Longrightarrow> peer_name (peer_objects s ! k) = p"
    using list_all_jget [OF peers] by auto
  show "jget (relay_tracks s) p = Some t \<Longrightarrow> p \<in> set (exposed s)"
    using assms jget_None_iff [of "relay_tracks s" p] by (auto simp: tables_ok_def)
qed (use assms in \<open>simp_all add: tables_ok_def peers_ok_def list_all_length\<close>)

section \<open>Every step keeps the tables\<close>

lemma accept_parts_simps [simp]:
  "length (peer_objects (wait_for_metadata k t w s)) = length (peer_objects s)"
  "length (peer_objects (no_longer_pending k t s)) = length (peer_objects s)"
  "peer_objects (announce_replaced k source s) = peer_objects s"
  "peer_objects (take_over_screen k source s) = peer_objects s"
  "length (peer_objects (store_track k r s)) = length (peer_objects s)"
  "call_peers (wait_for_metadata k t w s) = call_peers s"
  "call_peers (no_longer_pending k t s) = call_peers s"
  "call_peers (announce_replaced k source s) = call_peers s"
  "call_peers (take_over_screen k source s) = call_peers s"
  "call_peers (store_track k r s) = call_peers s"
  "tracks_disposed (wait_for_metadata k t w s) = tracks_disposed s"
  "tracks_disposed (no_longer_pending k t s) = tracks_disposed s"
  "tracks_disposed (announce_replaced k source s) = tracks_disposed s"
  "tracks_disposed (take_over_screen k source s) = tracks_disposed s"
  "tracks_disposed (store_track k r s) = tracks_disposed s"
  by (simp_all add: wait_for_metadata_def no_longer_pending_def announce_replaced_def take_over_screen_def store_track_def Let_def)

lemma accept_simps [simp]:
  "length (peer_objects (accept_remote_track k t w s)) = length (peer_objects s)"
  "call_peers (accept_remote_track k t w s) = call_peers s"
  "tracks_disposed (accept_remote_track k t w s) = tracks_disposed s"
  by (simp_all add: accept_remote_track_def Let_def split: option.split)

lemma tables_ok_pending:
  assumes "tables_ok s" "k < length (peer_objects s)"
  shows "tables_ok (wait_for_metadata k t w s)" "tables_ok (no_longer_pending k t s)"
  using tables_okD(4) [OF assms]
  by (simp_all add: wait_for_metadata_def no_longer_pending_def tables_ok_set_object [OF assms])

lemma tables_ok_announce: "tables_ok s \<Longrightarrow> tables_ok (announce_replaced k source s)"
  by (simp add: announce_replaced_def)

lemma tables_ok_take_over: "tables_ok s \<Longrightarrow> tables_ok (take_over_screen k source s)"
  by (simp add: take_over_screen_def Let_def tables_ok_def peers_ok_def tagged_jdel)

lemma tables_ok_store:
  assumes "tables_ok s" "k < length (peer_objects s)" "remote_peer r = peer_name (peer_objects s ! k)"
  shows "tables_ok (store_track k r s)"
proof -
  have "tables_ok (set_object k (\<lambda>o'. o'\<lparr>remote := jset (remote o') (remote_source r) r\<rparr>) s)"
    using assms tables_okD(4) [OF assms(1,2)] by (intro tables_ok_set_object) (simp_all add: object_ok_jset)
  then show ?thesis by (auto simp: store_track_def Let_def)
qed

lemma tables_ok_accept:
  assumes "tables_ok s" "k < length (peer_objects s)"
  shows "tables_ok (accept_remote_track k t w s)"
proof -
  have "tables_ok (store_track k (described_track (peer_name (peer_objects s' ! k)) d t)
      (take_over_screen k source (announce_replaced k source s')))"
    if "tables_ok s'" "k < length (peer_objects s')" for s' d source
    using that by (intro tables_ok_store tables_ok_take_over tables_ok_announce) (simp_all add: described_track_def)
  then show ?thesis
    using assms by (simp add: accept_remote_track_def Let_def tables_ok_pending split: option.split)
qed

lemma tables_ok_remove_source:
  assumes "tables_ok s" "k < length (peer_objects s)"
  shows "tables_ok (remove_source k source s)"
  using tables_okD(4) [OF assms]
  by (simp add: remove_source_def tables_ok_set_object [OF assms] object_ok_jdel)

lemma remove_source_simps [simp]:
  "length (peer_objects (remove_source k source s)) = length (peer_objects s)"
  "call_peers (remove_source k source s) = call_peers s"
  by (simp_all add: remove_source_def)

lemma tables_ok_track_ended:
  "tables_ok s \<Longrightarrow> k < length (peer_objects s) \<Longrightarrow> tables_ok (track_ended k source t s)"
  by (simp add: track_ended_def tables_ok_remove_source split: option.split)

definition withdraw_sources :: "nat \<Rightarrow> track_descriptor list \<Rightarrow> remote_tracks \<Rightarrow> remote_tracks" where
  "withdraw_sources k tracks s =
     foldl (\<lambda>s source. if source \<in> descriptor_source ` set tracks then s else remove_source k source s)
       s (jkeys (remote (peer_objects s ! k)))"

definition note_metadata :: "nat \<Rightarrow> track_descriptor list \<Rightarrow> remote_tracks \<Rightarrow> remote_tracks" where
  "note_metadata k tracks s = set_object k (\<lambda>o'. o'\<lparr>metadata := descriptor_map tracks\<rparr>) s"

definition accept_all :: "nat \<Rightarrow> (media_track \<times> string list) list \<Rightarrow> remote_tracks \<Rightarrow> remote_tracks" where
  "accept_all k ps s = foldl (\<lambda>s (track, streams). accept_remote_track k track streams s) s ps"

lemma track_metadata_parts:
  "track_metadata k tracks s =
     (let s = note_metadata k tracks (withdraw_sources k tracks s)
      in accept_all k (jvals (pending_tracks (peer_objects s ! k))) s)"
  by (simp add: track_metadata_def withdraw_sources_def note_metadata_def accept_all_def Let_def)

lemma withdraw_sources_ok:
  assumes "tables_ok s" "k < length (peer_objects s)"
  shows "tables_ok (withdraw_sources k tracks s) \<and> k < length (peer_objects (withdraw_sources k tracks s))"
  unfolding withdraw_sources_def
  by (rule foldl_keeps [where P = "\<lambda>s. tables_ok s \<and> k < length (peer_objects s)"])
    (use assms in \<open>simp_all add: tables_ok_remove_source\<close>)

lemma note_metadata_ok:
  assumes "tables_ok s" "k < length (peer_objects s)"
  shows "tables_ok (note_metadata k tracks s)"
  using tables_okD(4) [OF assms] by (simp add: note_metadata_def tables_ok_set_object [OF assms])

lemma note_metadata_simps [simp]:
  "length (peer_objects (note_metadata k tracks s)) = length (peer_objects s)"
  "call_peers (note_metadata k tracks s) = call_peers s"
  by (simp_all add: note_metadata_def)

lemma accept_all_ok:
  assumes "tables_ok s" "k < length (peer_objects s)"
  shows "tables_ok (accept_all k ps s)"
proof -
  have "tables_ok (accept_all k ps s) \<and> k < length (peer_objects (accept_all k ps s))"
    unfolding accept_all_def
    by (rule foldl_keeps [where P = "\<lambda>s. tables_ok s \<and> k < length (peer_objects s)"])
      (use assms in \<open>auto simp: tables_ok_accept\<close>)
  then show ?thesis ..
qed

lemma tables_ok_metadata:
  assumes "tables_ok s" "k < length (peer_objects s)"
  shows "tables_ok (track_metadata k tracks s)"
  unfolding track_metadata_parts Let_def
  by (rule accept_all_ok) (use withdraw_sources_ok [OF assms, of tracks] in \<open>simp_all add: note_metadata_ok\<close>)

lemma tables_ok_on_relay:
  assumes "tables_ok s" "track \<noteq> None \<longrightarrow> p \<in> set (exposed s)"
  shows "tables_ok (on_relay_track p track s)"
proof -
  have "tables_ok (s\<lparr>relay_tracks := jset (relay_tracks s) p
      \<lparr>remote_peer = p, remote_source = Microphone, remote_media = t, remote_transport = None\<rparr>\<rparr>)" if "p \<in> set (exposed s)" for t
    using assms(1) that by (auto simp: tables_ok_def peers_ok_def tagged_jset)
  moreover have "tables_ok (s\<lparr>relay_tracks := jdel (relay_tracks s) p\<rparr>)"
    using assms(1) by (auto simp: tables_ok_def peers_ok_def tagged_jdel)
  ultimately show ?thesis using assms by (auto simp: on_relay_track_def Let_def split: option.split)
qed

lemma tables_ok_exposes: "tables_ok s \<Longrightarrow> tables_ok (relay_exposes p t s)"
  using tables_ok_on_relay [of "s\<lparr>exposed := sadd p (exposed s)\<rparr>" "Some t" p]
  by (auto simp: relay_exposes_def tables_ok_def peers_ok_def)

lemma on_relay_simps [simp]:
  "peer_objects (on_relay_track p t s) = peer_objects s" "call_peers (on_relay_track p t s) = call_peers s"
  "native_remote (on_relay_track p t s) = native_remote s"
  "native_camera_remote (on_relay_track p t s) = native_camera_remote s"
  "exposed (on_relay_track p t s) = exposed s" "tracks_disposed (on_relay_track p t s) = tracks_disposed s"
  by (simp_all add: on_relay_track_def Let_def split: option.split)

lemma on_relay_none: "relay_tracks (on_relay_track p None s) = jdel (relay_tracks s) p"
  by (auto simp: on_relay_track_def Let_def jdel_absent jget_None_iff split: option.split)

lemma tables_ok_withdraws: "tables_ok s \<Longrightarrow> tables_ok (relay_withdraws p s)"
  by (auto simp: relay_withdraws_def tables_ok_def peers_ok_def on_relay_none tagged_jdel)

lemma tables_ok_native:
  "tables_ok s \<Longrightarrow> tables_ok (native_track p t s)" "tables_ok s \<Longrightarrow> tables_ok (native_removed p s)"
  "tables_ok s \<Longrightarrow> tables_ok (native_camera_track p t s)" "tables_ok s \<Longrightarrow> tables_ok (native_camera_removed p s)"
  by (simp_all add: native_track_def native_removed_def native_camera_track_def native_camera_removed_def Let_def
      tables_ok_def peers_ok_def tagged_jset tagged_jdel)

lemma tables_ok_add_peer:
  assumes "tables_ok s"
  shows "tables_ok (add_peer p s)"
proof -
  let ?objects = "peer_objects s @ [new_object p]"
  have "list_all (\<lambda>(q, k). k < length ?objects \<and> peer_name (?objects ! k) = q) (call_peers s)"
    using assms by (auto simp: tables_ok_def peers_ok_def list_all_iff nth_append)
  then have "list_all (\<lambda>(q, k). k < length ?objects \<and> peer_name (?objects ! k) = q)
      (jset (call_peers s) p (length (peer_objects s)))"
    by (rule list_all_jset) (simp add: new_object_def)
  with assms show ?thesis by (simp add: add_peer_def tables_ok_def peers_ok_def)
qed

lemma tables_ok_close_object:
  assumes "tables_ok s" "k < length (peer_objects s)"
  shows "tables_ok (close_object p k s)"
proof -
  have "tables_ok (s\<lparr>call_peers := jdel (call_peers s) p\<rparr>)"
    using assms(1) by (simp add: tables_ok_def peers_ok_def list_all_jdel)
  then have "tables_ok (set_object k (\<lambda>o'. o'\<lparr>remote := [], pending_tracks := []\<rparr>) (s\<lparr>call_peers := jdel (call_peers s) p\<rparr>))"
    by (rule tables_ok_set_object) (use assms(2) in \<open>simp_all add: object_ok_def\<close>)
  then show ?thesis unfolding close_object_def Let_def by (rule foldl_keeps) simp
qed

lemma tables_ok_remove_peer:
  assumes "tables_ok s"
  shows "tables_ok (remove_peer p screen camera s)"
proof -
  define s1 where "s1 = (relay_withdraws p s)\<lparr>relay_tracks := jdel (relay_tracks (relay_withdraws p s)) p\<rparr>"
  have "tables_ok s1"
    using tables_ok_withdraws [OF assms, of p] by (auto simp: s1_def tables_ok_def peers_ok_def tagged_jdel)
  then have ok: "tables_ok (if camera then native_camera_removed p (if screen then native_removed p s1 else s1)
      else if screen then native_removed p s1 else s1)" (is "tables_ok ?s")
    by (auto simp: tables_ok_native)
  show ?thesis
    using ok tables_okD(2) [OF ok, of p] tables_ok_close_object [OF ok]
    by (auto simp: remove_peer_def s1_def [symmetric] Let_def split: option.split)
qed

lemma tables_ok_handle_metadata: "tables_ok s \<Longrightarrow> tables_ok (handle_metadata p tracks s)"
  using tables_okD(2) [OF tables_ok_add_peer, of s p p]
  by (auto simp: handle_metadata_def Let_def tables_ok_add_peer tables_ok_metadata split: option.split)

lemma tables_ok_dispose:
  assumes "tables_ok s"
  shows "tables_ok (dispose_tracks screens cameras s)"
proof -
  have "tables_ok (s\<lparr>tracks_disposed := True\<rparr>)" using assms by (simp add: tables_ok_def peers_ok_def)
  then show ?thesis using assms
    by (auto simp: dispose_tracks_def Let_def
        intro!: foldl_keeps [where P = tables_ok] tables_ok_withdraws tables_ok_native tables_ok_remove_peer)
qed

lemma tables_ok_step: "tables_ok s \<Longrightarrow> tables_ok (tracks_step s e)"
  by (cases e) (simp_all add: tables_ok_add_peer tables_ok_remove_peer tables_ok_accept tables_ok_track_ended
      tables_ok_handle_metadata tables_ok_exposes tables_ok_withdraws tables_ok_native tables_ok_dispose)

lemma tables_ok_new [simp]: "tables_ok (no_remote_tracks me)"
  by (simp add: tables_ok_def peers_ok_def no_remote_tracks_def)

section \<open>What the listeners show\<close>

definition current :: "remote_tracks \<Rightarrow> bool" where
  "current s = (shown_tracks s = get_remote_tracks None s)"

lemma listing_cong:
  assumes "call_peers s' = call_peers s" "native_remote s' = native_remote s"
    "native_camera_remote s' = native_camera_remote s" "relay_tracks s' = relay_tracks s"
    "\<And>k. k \<in> set (jvals (call_peers s)) \<Longrightarrow> remote (peer_objects s' ! k) = remote (peer_objects s ! k)"
  shows "get_remote_tracks peer s' = get_remote_tracks peer s"
proof -
  have listed: "direct_listed s' = direct_listed s" using assms(1-4) by (simp add: fun_eq_iff direct_listed_def)
  have one: "remote (peer_objects s' ! k) = remote (peer_objects s ! k)" if "jget (call_peers s) p = Some k" for p k
    using assms(5) that by (auto dest: jget_in_jvals)
  have screen: "has_direct_screen s' = has_direct_screen s"
    using assms(1) one by (auto simp: fun_eq_iff has_direct_screen_def split: option.split)
  have "set (asked_peers peer (call_peers s)) \<subseteq> set (jvals (call_peers s))"
    by (auto simp: asked_peers_def jget_in_jvals split: option.splits if_splits)
  then have "map (\<lambda>k. filter (direct_listed s') (jvals (remote (peer_objects s' ! k)))) (asked_peers peer (call_peers s)) =
      map (\<lambda>k. filter (direct_listed s) (jvals (remote (peer_objects s ! k)))) (asked_peers peer (call_peers s))"
    using assms(5) listed by (intro map_cong) auto
  then show ?thesis
    using assms(1-4) screen by (simp only: get_remote_tracks_def)
qed

lemma current_emit [simp]: "current (emit e s)"
proof -
  have "get_remote_tracks None (emit e s) = get_remote_tracks None s" by (rule listing_cong) simp_all
  then show ?thesis by (simp add: current_def) (simp add: emit_def)
qed

lemma current_cong:
  assumes "current s" "shown_tracks s' = shown_tracks s" "call_peers s' = call_peers s" "native_remote s' = native_remote s"
    "native_camera_remote s' = native_camera_remote s" "relay_tracks s' = relay_tracks s"
    "\<And>k. k \<in> set (jvals (call_peers s)) \<Longrightarrow> remote (peer_objects s' ! k) = remote (peer_objects s ! k)"
  shows "current s'"
  using assms(1,2) listing_cong [OF assms(3-7), of None] by (simp add: current_def)

text \<open>A list of steps that ends in an event shows what it has left.\<close>

lemma current_foldl_emit:
  "xs \<noteq> [] \<or> current s \<Longrightarrow> current (foldl (\<lambda>s x. emit (e x) s) s xs)"
  by (induction xs rule: rev_induct) auto

lemma remote_set_object:
  assumes "remote (f (peer_objects s ! k)) = remote (peer_objects s ! k)"
  shows "remote (peer_objects (set_object k f s) ! j) = remote (peer_objects s ! j)"
  using assms by (cases "k < length (peer_objects s)") (simp_all add: set_object_nth, simp add: set_object_def list_update_beyond)

lemma current_set_object:
  assumes "current s" "remote (f (peer_objects s ! k)) = remote (peer_objects s ! k)"
  shows "current (set_object k f s)"
  by (rule current_cong [OF assms(1)]) (simp_all add: remote_set_object assms(2))

lemma current_pending:
  "current s \<Longrightarrow> current (wait_for_metadata k t w s)" "current s \<Longrightarrow> current (no_longer_pending k t s)"
  "current s \<Longrightarrow> current (note_metadata k ds s)"
  by (simp_all add: wait_for_metadata_def no_longer_pending_def note_metadata_def current_set_object)

text \<open>A direct microphone that the relay replaces is not listed, whatever its track is.\<close>

lemma filter_jset:
  "\<not> P v \<Longrightarrow> (\<And>w. (k, w) \<in> set m \<Longrightarrow> \<not> P w) \<Longrightarrow> filter P (jvals (jset m k v)) = filter P (jvals m)"
  by (induction m k v rule: jset.induct) auto

lemma current_hidden_microphone:
  assumes "tables_ok s" "k < length (peer_objects s)" "current s"
    "remote_source r = Microphone" "jget (relay_tracks s) (remote_peer r) \<noteq> None" "remote_peer r = peer_name (peer_objects s ! k)"
  shows "current (set_object k (\<lambda>o'. o'\<lparr>remote := jset (remote o') Microphone r\<rparr>) s)" (is "current ?s")
proof -
  have hidden: "\<not> direct_listed s t" if "remote_peer t = peer_name (peer_objects s ! k)" "remote_source t = Microphone" for t
    using assms(5,6) that by (simp add: direct_listed_def)
  have "object_ok (peer_objects s ! k)" by (rule tables_okD(4) [OF assms(1,2)])
  then have "\<not> direct_listed s w" if "(Microphone, w) \<in> set (remote (peer_objects s ! k))" for w
    using that by (intro hidden) (auto simp: object_ok_def list_all_iff)
  then have same: "filter (direct_listed s) (jvals (remote (peer_objects ?s ! j))) = filter (direct_listed s) (jvals (remote (peer_objects s ! j)))" for j
    using hidden [of r] assms(2,4,6) by (simp add: set_object_nth filter_jset)
  have listed: "direct_listed ?s = direct_listed s" by (simp add: fun_eq_iff direct_listed_def)
  have screen: "has_direct_screen ?s = has_direct_screen s"
    using assms(2) by (auto simp: fun_eq_iff has_direct_screen_def set_object_nth split: option.split)
  have "get_remote_tracks None ?s = get_remote_tracks None s"
    by (simp add: get_remote_tracks_def listed screen same)
  with assms(3) show ?thesis by (simp add: current_def)
qed

lemma current_accept:
  assumes "tables_ok s" "k < length (peer_objects s)" "current s"
  shows "current (accept_remote_track k t w s)"
proof -
  have "current (store_track k (described_track (peer_name (peer_objects s' ! k)) d t)
      (take_over_screen k (descriptor_source d) (announce_replaced k (descriptor_source d) s')))"
    if ok: "tables_ok s'" "k < length (peer_objects s')" and now: "current s'" for s' d
  proof (cases "descriptor_source d = Microphone")
    case True
    define r where "r = described_track (peer_name (peer_objects s' ! k)) d t"
    define s2 where "s2 = announce_replaced k Microphone s'"
    have r: "remote_source r = Microphone" "remote_peer r = peer_name (peer_objects s' ! k)"
      by (simp_all add: r_def described_track_def True)
    have s2: "current s2" "tables_ok s2" "peer_objects s2 = peer_objects s'"
      using ok now by (simp_all add: s2_def announce_replaced_def)
    have "take_over_screen k Microphone s2 = s2" by (simp add: take_over_screen_def)
    moreover have "current (store_track k r s2)"
      using current_hidden_microphone [of s2 k r] s2 r ok(2) by (simp add: store_track_def Let_def)
    ultimately show ?thesis by (simp add: True r_def s2_def)
  next
    case False
    then show ?thesis by (simp add: store_track_def described_track_def Let_def)
  qed
  then show ?thesis
    using assms by (simp add: accept_remote_track_def Let_def tables_ok_pending current_pending split: option.split)
qed

lemma current_remove_source [simp]: "current (remove_source k source s)"
  by (simp add: remove_source_def)

lemma current_track_metadata:
  assumes "tables_ok s" "k < length (peer_objects s)" "current s"
  shows "current (track_metadata k tracks s)"
proof -
  let ?P = "\<lambda>s. tables_ok s \<and> k < length (peer_objects s) \<and> current s"
  have "current (withdraw_sources k tracks s)"
    unfolding withdraw_sources_def by (rule foldl_keeps) (use assms(3) in simp_all)
  then have start: "?P (note_metadata k tracks (withdraw_sources k tracks s))"
    using withdraw_sources_ok [OF assms(1,2), of tracks] by (simp add: note_metadata_ok current_pending)
  have "?P (accept_all k ps s')" if "?P s'" for ps s'
    unfolding accept_all_def using that by (rule foldl_keeps) (auto simp: tables_ok_accept current_accept)
  then show ?thesis unfolding track_metadata_parts Let_def using start by blast
qed

lemma current_on_relay: "current s \<Longrightarrow> current (on_relay_track p t s)"
  by (simp add: on_relay_track_def Let_def split: option.split)

lemma current_exposed: "current s \<Longrightarrow> current (s\<lparr>exposed := es\<rparr>)"
  by (erule current_cong) simp_all

lemma current_native:
  "current s \<Longrightarrow> current (native_track p t s)" "current s \<Longrightarrow> current (native_removed p s)"
  "current s \<Longrightarrow> current (native_camera_track p t s)" "current s \<Longrightarrow> current (native_camera_removed p s)"
  "current s \<Longrightarrow> current (relay_exposes p t s)" "current s \<Longrightarrow> current (relay_withdraws p s)"
  by (simp_all add: native_track_def native_removed_def native_camera_track_def native_camera_removed_def
      relay_exposes_def relay_withdraws_def Let_def current_on_relay current_exposed)

lemma current_add_peer:
  assumes "tables_ok s" "current s"
  shows "current (add_peer p s)"
proof (cases "p = own_name s \<or> jhas (call_peers s) p")
  case False
  let ?s = "add_peer p s"
  have nth: "remote (peer_objects ?s ! k) = (if k < length (peer_objects s) then remote (peer_objects s ! k) else [])"
    if "k \<le> length (peer_objects s)" for k
    using False that by (simp add: add_peer_def nth_append new_object_def)
  have bound: "k < length (peer_objects s)" if "k \<in> set (jvals (call_peers s))" for k
    using that tables_okD(1,2) [OF assms(1)] by (auto elim: jvals_jget)
  have peers: "call_peers ?s = call_peers s @ [(p, length (peer_objects s))]"
    using False by (simp add: add_peer_def jset_new jhas_def)
  have listed: "direct_listed ?s = direct_listed s" by (simp add: fun_eq_iff direct_listed_def add_peer_def)
  have tables: "native_remote ?s = native_remote s" "native_camera_remote ?s = native_camera_remote s"
      "relay_tracks ?s = relay_tracks s" "shown_tracks ?s = shown_tracks s" by (simp_all add: add_peer_def)
  have "has_direct_screen ?s q = has_direct_screen s q" for q
    using nth [OF order_refl] nth tables_okD(2) [OF assms(1), of q]
    by (auto simp: has_direct_screen_def peers jget_snoc split: option.split)
  then have screen: "has_direct_screen ?s = has_direct_screen s" by (simp add: fun_eq_iff)
  have "map (\<lambda>k. filter (direct_listed s) (jvals (remote (peer_objects ?s ! k)))) (jvals (call_peers s)) =
      map (\<lambda>k. filter (direct_listed s) (jvals (remote (peer_objects s ! k)))) (jvals (call_peers s))"
    by (intro map_cong refl) (simp add: nth bound less_imp_le)
  moreover have "jvals (call_peers ?s) = jvals (call_peers s) @ [length (peer_objects s)]"
    by (simp add: peers jvals_def)
  ultimately have "get_remote_tracks None ?s = get_remote_tracks None s"
    using nth [of "length (peer_objects s)"] by (simp add: get_remote_tracks_def asked_peers_def listed screen tables del: map_eq_conv)
  with assms(2) tables(4) show ?thesis by (simp add: current_def)
qed (use assms in \<open>simp add: add_peer_def\<close>)

lemma current_close_object:
  assumes "tables_ok s" "current s" "jget (call_peers s) p = Some k"
  shows "current (close_object p k s)"
proof (cases "remote (peer_objects s ! k) = []")
  case True
  let ?s = "set_object k (\<lambda>o'. o'\<lparr>remote := [], pending_tracks := []\<rparr>) (s\<lparr>call_peers := jdel (call_peers s) p\<rparr>)"
  have same: "remote (peer_objects ?s ! j) = remote (peer_objects s ! j)" for j
    using True by (subst remote_set_object) simp_all
  have listed: "direct_listed ?s = direct_listed s" by (simp add: fun_eq_iff direct_listed_def)
  have "has_direct_screen ?s q = has_direct_screen s q" for q
    using True assms(3) by (auto simp: has_direct_screen_def same split: option.split)
  then have screen: "has_direct_screen ?s = has_direct_screen s" by (simp add: fun_eq_iff)
  have "concat (map (\<lambda>k. filter P (jvals (remote (peer_objects s ! k)))) (jvals (jdel m p))) =
      concat (map (\<lambda>k. filter P (jvals (remote (peer_objects s ! k)))) (jvals m))"
    if "distinct (jkeys m)" "\<And>j. jget m p = Some j \<Longrightarrow> j = k" for P m
    using that True
  proof (induction m)
    case (Cons e m)
    then show ?case using jdel_absent [of p m] by (cases e) (auto simp: jdel_def jget_None_iff [symmetric] split: if_splits)
  qed (simp add: jdel_def)
  from this [OF tables_okD(1) [OF assms(1)], of "direct_listed s"] assms(3)
  have "get_remote_tracks None ?s = get_remote_tracks None s"
    by (simp add: get_remote_tracks_def asked_peers_def listed screen same)
  then have "current ?s" using assms(2) by (simp add: current_def)
  then show ?thesis using True by (simp add: close_object_def Let_def)
next
  case False
  then have "jkeys (remote (peer_objects s ! k)) \<noteq> []" by (simp add: jkeys_def)
  then show ?thesis unfolding close_object_def Let_def by (intro current_foldl_emit) simp
qed

lemma current_remove_peer:
  assumes "tables_ok s" "current s"
  shows "current (remove_peer p screen camera s)"
proof -
  define s1 where "s1 = relay_withdraws p s"
  have ok: "tables_ok s1" "current s1"
    using assms by (simp_all add: s1_def tables_ok_withdraws current_native)
  have "jget (relay_tracks s1) p = None"
    using tables_okD(8) [OF assms(1), of p]
    by (cases "jget (relay_tracks s) p") (auto simp: s1_def relay_withdraws_def on_relay_none)
  then have "relay_tracks s1 = jdel (relay_tracks s1) p" by (simp add: jdel_absent jget_None_iff)
  then have s1: "s1\<lparr>relay_tracks := jdel (relay_tracks s1) p\<rparr> = s1" by simp
  define s2 where "s2 = (if screen then native_removed p s1 else s1)"
  define s3 where "s3 = (if camera then native_camera_removed p s2 else s2)"
  have "tables_ok s3" "current s3" using ok by (simp_all add: s2_def s3_def tables_ok_native current_native)
  moreover have "remove_peer p screen camera s =
      (case jget (call_peers s3) p of None \<Rightarrow> s3 | Some k \<Rightarrow> close_object p k s3)"
    by (simp only: remove_peer_def Let_def s1_def [symmetric] s1 s2_def [symmetric] s3_def [symmetric])
  ultimately show ?thesis by (auto simp: current_close_object split: option.split)
qed

lemma current_dispose:
  assumes "tables_ok s" "current s"
  shows "current (dispose_tracks screens cameras s)"
proof -
  let ?P = "\<lambda>s. tables_ok s \<and> current s"
  define s0 where "s0 = s\<lparr>tracks_disposed := True\<rparr>"
  have p0: "?P s0"
    unfolding s0_def using assms by (auto simp: tables_ok_def peers_ok_def intro: current_cong)
  define s1 where "s1 = foldl (\<lambda>s p. relay_withdraws p s) s0 (exposed s0)"
  define s2 where "s2 = foldl (\<lambda>s p. native_removed p s) s1 screens"
  define s3 where "s3 = foldl (\<lambda>s p. native_camera_removed p s) s2 cameras"
  define s4 where "s4 = foldl (\<lambda>s p. remove_peer p False False s) s3 (jkeys (call_peers s3))"
  have p1: "?P s1" unfolding s1_def by (rule foldl_keeps [where P = ?P]) (use p0 in \<open>simp_all add: tables_ok_withdraws current_native\<close>)
  have p2: "?P s2" unfolding s2_def by (rule foldl_keeps [where P = ?P]) (use p1 in \<open>simp_all add: tables_ok_native current_native\<close>)
  have p3: "?P s3" unfolding s3_def by (rule foldl_keeps [where P = ?P]) (use p2 in \<open>simp_all add: tables_ok_native current_native\<close>)
  have "?P s4" unfolding s4_def by (rule foldl_keeps [where P = ?P]) (use p3 in \<open>simp_all add: tables_ok_remove_peer current_remove_peer\<close>)
  then show ?thesis
    using assms(2) by (simp add: dispose_tracks_def Let_def s4_def s3_def s2_def s1_def s0_def)
qed

lemma current_step:
  assumes "tables_ok s" "current s"
  shows "current (tracks_step s e)"
proof (cases e)
  case (Metadata p tracks)
  have ok: "tables_ok (add_peer p s)" "current (add_peer p s)"
    using assms by (simp_all add: tables_ok_add_peer current_add_peer)
  with tables_okD(2) [OF ok(1), of p] assms show ?thesis
    by (auto simp: Metadata handle_metadata_def Let_def current_track_metadata split: option.split)
qed (use assms in \<open>simp_all add: current_add_peer current_remove_peer current_accept track_ended_def
    current_native current_dispose split: option.split\<close>)

interpretation tracks: event_machine tracks_step "\<lambda>s. tables_ok s \<and> current s"
  by unfold_locales (simp add: tables_ok_step current_step)

lemma tracks_new: "tables_ok (no_remote_tracks me) \<and> current (no_remote_tracks me)"
  by (rule conjI, rule tables_ok_new) (simp add: current_def get_remote_tracks_def asked_peers_def no_remote_tracks_def)

section \<open>Guarantees\<close>

text \<open>
  C20. The participants of a call are shown as they are: whatever tracks, metadata and
  callbacks arrive in whatever order, the list the listeners read at the last event is the
  list \<open>getRemoteTracks\<close> returns now. No track appears or disappears without an event.
\<close>

theorem shown_tracks_current:
  "let s = foldl tracks_step (no_remote_tracks me) es in shown_tracks s = get_remote_tracks None s"
  using tracks.run_inv [OF tracks_new, of me es] by (simp add: current_def)

definition place :: "remote_track \<Rightarrow> string \<times> media_source" where
  "place t = (remote_peer t, remote_source t)"

lemma tagged_places:
  assumes "tagged source m"
  shows "distinct (map place (filter P (jvals m)))" "t \<in> set (jvals m) \<Longrightarrow> remote_source t = source \<and> jget m (remote_peer t) = Some t"
proof -
  have "map place (jvals m) = map (\<lambda>p. (p, source)) (jkeys m)"
    using assms by (auto simp: tagged_def jvals_def jkeys_def place_def list_all_iff)
  then have "distinct (map place (jvals m))" using assms by (simp add: tagged_def distinct_map inj_on_def)
  then show "distinct (map place (filter P (jvals m)))" by (rule distinct_map_filter)
  show "remote_source t = source \<and> jget m (remote_peer t) = Some t" if "t \<in> set (jvals m)"
    using assms that by (auto simp: tagged_def jvals_def jkeys_def jget_def list_all_iff)
qed

lemma object_places:
  assumes "object_ok o'"
  shows "distinct (map place (filter P (jvals (remote o'))))"
    "t \<in> set (jvals (remote o')) \<Longrightarrow> remote_peer t = peer_name o' \<and> jget (remote o') (remote_source t) = Some t"
proof -
  have "map place (jvals (remote o')) = map (Pair (peer_name o')) (jkeys (remote o'))"
    using assms by (auto simp: object_ok_def jvals_def jkeys_def place_def list_all_iff)
  then have "distinct (map place (jvals (remote o')))" using assms by (simp add: object_ok_def distinct_map inj_on_def)
  then show "distinct (map place (filter P (jvals (remote o'))))" by (rule distinct_map_filter)
  show "remote_peer t = peer_name o' \<and> jget (remote o') (remote_source t) = Some t" if "t \<in> set (jvals (remote o'))"
    using assms that by (auto simp: object_ok_def jvals_def jkeys_def jget_def list_all_iff)
qed

definition direct_tracks :: "remote_tracks \<Rightarrow> nat \<Rightarrow> remote_track list" where
  "direct_tracks s k = filter (direct_listed s) (jvals (remote (peer_objects s ! k)))"

lemma direct_tracksD:
  assumes "tables_ok s" "jget (call_peers s) p = Some k" "t \<in> set (direct_tracks s k)"
  shows "remote_peer t = p" "jget (remote (peer_objects s ! k)) (remote_source t) = Some t" "direct_listed s t"
  using assms object_places(2) [OF tables_okD(4) [OF assms(1) tables_okD(2) [OF assms(1,2)]], of t] tables_okD(3) [OF assms(1,2)]
  by (simp_all add: direct_tracks_def)

lemma listing_parts:
  "get_remote_tracks peer s =
     concat (map (direct_tracks s) (asked_peers peer (call_peers s)))
     @ filter (\<lambda>t. wanted peer (remote_peer t) \<and> \<not> has_direct_screen s (remote_peer t)) (jvals (native_remote s))
     @ filter (\<lambda>t. wanted peer (remote_peer t)) (jvals (native_camera_remote s))
     @ filter (\<lambda>t. wanted peer (remote_peer t)) (jvals (relay_tracks s))"
  by (simp add: get_remote_tracks_def direct_tracks_def [abs_def])

lemma grouped_lists:
  assumes "distinct (jkeys m)" "\<And>p k t. jget m p = Some k \<Longrightarrow> t \<in> set (f k) \<Longrightarrow> remote_peer t = p"
  shows "filter (\<lambda>t. remote_peer t = p) (concat (map f (jvals m))) = (case jget m p of None \<Rightarrow> [] | Some k \<Rightarrow> f k)"
    "(\<And>p k. jget m p = Some k \<Longrightarrow> distinct (map place (f k))) \<Longrightarrow> distinct (map place (concat (map f (jvals m))))"
proof -
  have entries: "jget m q = Some k" if "(q, k) \<in> set m" for q k
    using assms(1) that by (simp add: jget_def jkeys_def)
  show "filter (\<lambda>t. remote_peer t = p) (concat (map f (jvals m))) = (case jget m p of None \<Rightarrow> [] | Some k \<Rightarrow> f k)"
    using assms(1) assms(2) [OF entries]
  proof (induction m)
    case (Cons e m)
    obtain q k where e: "e = (q, k)" by (cases e)
    have own: "remote_peer t = q" if "t \<in> set (f k)" for t using Cons.prems(2) [of q k t] that e by auto
    have IH: "filter (\<lambda>t. remote_peer t = p) (concat (map f (jvals m))) = (case jget m p of None \<Rightarrow> [] | Some k \<Rightarrow> f k)"
      by (rule Cons.IH) (use Cons.prems in auto)
    have "jget m p = None" if "p = q" using Cons.prems(1) that e by (simp add: jget_None_iff)
    then show ?case using IH own by (auto simp: e filter_True filter_empty_conv)
  qed simp
  show "distinct (map place (concat (map f (jvals m))))" if "\<And>p k. jget m p = Some k \<Longrightarrow> distinct (map place (f k))"
    using assms(1) assms(2) [OF entries] that [OF entries]
  proof (induction m)
    case (Cons e m)
    obtain q k where e: "e = (q, k)" by (cases e)
    have "distinct (map place (concat (map f (jvals m))))"
      by (rule Cons.IH) (use Cons.prems(1) in simp, use Cons.prems(2) in fastforce, erule Cons.prems(3) [OF list.set_intros(2)])
    moreover have "place ` set (f k) \<inter> place ` set (concat (map f (jvals m))) = {}"
    proof -
      have "remote_peer t \<noteq> remote_peer u" if "t \<in> set (f k)" "(q', k') \<in> set m" "u \<in> set (f k')" for t u q' k'
      proof -
        have "q' \<noteq> q" using Cons.prems(1) that(2) e by (force simp: jkeys_def)
        then show ?thesis using Cons.prems(2) [of q k t] Cons.prems(2) [of q' k' u] that e by auto
      qed
      then show ?thesis by (fastforce simp: place_def jvals_def)
    qed
    ultimately show ?case using Cons.prems(3) [of q k] by (simp add: e)
  qed simp
qed

text \<open>
  C21. Nobody is seen or heard twice: whatever arrives over whichever way, the list has at
  most one track of every source of every participant.
\<close>

theorem one_track_per_source:
  "distinct (map place (get_remote_tracks peer (foldl tracks_step (no_remote_tracks me) es)))"
proof -
  define s where "s = foldl tracks_step (no_remote_tracks me) es"
  have ok: "tables_ok s" unfolding s_def using tracks.run_inv [OF tracks_new] by blast
  note D = direct_tracksD [OF ok] and T = tagged_places [OF tables_okD(5) [OF ok]]
    tagged_places [OF tables_okD(6) [OF ok]] tagged_places [OF tables_okD(7) [OF ok]]
  have one: "distinct (map place (direct_tracks s k))" if "jget (call_peers s) p = Some k" for p k
    unfolding direct_tracks_def by (rule object_places(1)) (rule tables_okD(4) [OF ok tables_okD(2) [OF ok that]])
  let ?direct = "concat (map (direct_tracks s) (asked_peers peer (call_peers s)))"
  have direct: "distinct (map place ?direct)"
    using grouped_lists(2) [OF tables_okD(1) [OF ok] D(1) one] one
    by (auto simp: asked_peers_def split: option.split)
  have from_peer: "\<exists>p k. jget (call_peers s) p = Some k \<and> t \<in> set (direct_tracks s k)" if t: "t \<in> set ?direct" for t
  proof -
    obtain k where k: "k \<in> set (asked_peers peer (call_peers s))" "t \<in> set (direct_tracks s k)" using t by auto
    moreover have "\<exists>p. jget (call_peers s) p = Some k"
      using k(1) jvals_jget_ex [OF tables_okD(1) [OF ok], of k] by (auto simp: asked_peers_def split: if_splits option.splits)
    ultimately show ?thesis by blast
  qed
  have "place t \<noteq> place u" if t: "t \<in> set ?direct" and u: "u \<in> set (jvals (native_remote s))" "\<not> has_direct_screen s (remote_peer u)" for t u
  proof -
    obtain p k where k: "jget (call_peers s) p = Some k" "t \<in> set (direct_tracks s k)" using from_peer [OF t] by blast
    then show ?thesis using D(1,2) [OF k] T(2) [OF u(1)] u(2) by (auto simp: place_def has_direct_screen_def)
  qed
  moreover have "place t \<noteq> place u" if t: "t \<in> set ?direct" and u: "u \<in> set (jvals (native_camera_remote s))" for t u
  proof -
    obtain p k where k: "jget (call_peers s) p = Some k" "t \<in> set (direct_tracks s k)" using from_peer [OF t] by blast
    then show ?thesis using D(1,3) [OF k] T(4) [OF u] by (auto simp: place_def direct_listed_def)
  qed
  moreover have "place t \<noteq> place u" if t: "t \<in> set ?direct" and u: "u \<in> set (jvals (relay_tracks s))" for t u
  proof -
    obtain p k where k: "jget (call_peers s) p = Some k" "t \<in> set (direct_tracks s k)" using from_peer [OF t] by blast
    then show ?thesis using D(1,3) [OF k] T(6) [OF u] by (auto simp: place_def direct_listed_def)
  qed
  moreover have "place t \<noteq> place u"
    if "t \<in> set (jvals (native_remote s))" "u \<in> set (jvals (native_camera_remote s)) \<union> set (jvals (relay_tracks s))" for t u
    using T(2) [OF that(1)] T(4,6) [of u] that(2) by (auto simp: place_def)
  moreover have "place t \<noteq> place u" if "t \<in> set (jvals (native_camera_remote s))" "u \<in> set (jvals (relay_tracks s))" for t u
    using T(4) [OF that(1)] T(6) [OF that(2)] by (simp add: place_def)
  ultimately show ?thesis
    unfolding s_def [symmetric] listing_parts
    by (simp only: map_append distinct_append direct T(1) T(3) T(5)) (auto; metis)
qed

text \<open>
  Asking for one participant gives exactly what the whole list has of him, in its order.
\<close>

theorem tracks_of_one_participant:
  "let s = foldl tracks_step (no_remote_tracks me) es
   in p = [] \<or> get_remote_tracks (Some p) s = filter (\<lambda>t. remote_peer t = p) (get_remote_tracks None s)"
proof (cases "p = []")
  case False
  define s where "s = foldl tracks_step (no_remote_tracks me) es"
  have ok: "tables_ok s" unfolding s_def using tracks.run_inv [OF tracks_new] by blast
  have "concat (map (direct_tracks s) (asked_peers (Some p) (call_peers s))) =
      filter (\<lambda>t. remote_peer t = p) (concat (map (direct_tracks s) (asked_peers None (call_peers s))))"
    using grouped_lists(1) [OF tables_okD(1) [OF ok] direct_tracksD(1) [OF ok], where p = p] False
    by (simp add: asked_peers_def split: option.split)
  moreover have "wanted (Some p) q = (q = p)" "wanted None q" for q
    using False by (auto simp: wanted_def)
  ultimately show ?thesis unfolding s_def [symmetric] by (simp add: listing_parts conj_commute)
qed simp

section \<open>What metadata decides\<close>

lemma set_object_nth_same [simp]:
  "k < length (peer_objects s) \<Longrightarrow> peer_objects (set_object k f s) ! k = f (peer_objects s ! k)"
  by (simp add: set_object_nth)

lemma remove_source_nth [simp]:
  "k < length (peer_objects s) \<Longrightarrow>
   peer_objects (remove_source k source s) ! k = (peer_objects s ! k)\<lparr>remote := jdel (remote (peer_objects s ! k)) source\<rparr>"
  by (simp add: remove_source_def)

lemma withdraw_sources_remote:
  assumes "k < length (peer_objects s)"
  shows "set (jkeys (remote (peer_objects (withdraw_sources k tracks s) ! k))) \<subseteq> descriptor_source ` set tracks"
proof -
  have "set (jkeys (remote (peer_objects (foldl (\<lambda>s source. if source \<in> descriptor_source ` set tracks then s
         else remove_source k source s) s sources) ! k))) \<subseteq> descriptor_source ` set tracks \<union> (set (jkeys (remote (peer_objects s ! k))) - set sources)"
    if "k < length (peer_objects s)" for s sources
    using that
  proof (induction sources arbitrary: s)
    case (Cons x sources)
    show ?case
      using Cons.IH [of s] Cons.IH [of "remove_source k x s"] Cons.prems by auto
  qed simp
  from this [OF assms, of "jkeys (remote (peer_objects s ! k))"] show ?thesis by (simp add: withdraw_sources_def)
qed

lemma accept_metadata:
  assumes "k < length (peer_objects s)"
  shows "metadata (peer_objects (accept_remote_track k t w s) ! k) = metadata (peer_objects s ! k)"
    "set (jkeys (remote (peer_objects (accept_remote_track k t w s) ! k))) \<subseteq>
       set (jkeys (remote (peer_objects s ! k))) \<union> descriptor_source ` set (jvals (metadata (peer_objects s ! k)))"
    "pending_tracks (peer_objects (accept_remote_track k t w s) ! k) =
       (if find_track_descriptor (jvals (metadata (peer_objects s ! k))) (track_id t) w = None
        then jset (pending_tracks (peer_objects s ! k)) (track_id t) (t, w)
        else jdel (pending_tracks (peer_objects s ! k)) (track_id t))"
proof -
  let ?d = "find_track_descriptor (jvals (metadata (peer_objects s ! k))) (track_id t) w"
  have found: "descriptor_source d \<in> descriptor_source ` set (jvals (metadata (peer_objects s ! k)))" if "?d = Some d" for d
    using that by (intro imageI) (auto simp: find_track_descriptor_def find_Some_iff split: option.splits)
  show "metadata (peer_objects (accept_remote_track k t w s) ! k) = metadata (peer_objects s ! k)"
    "pending_tracks (peer_objects (accept_remote_track k t w s) ! k) =
       (if ?d = None then jset (pending_tracks (peer_objects s ! k)) (track_id t) (t, w)
        else jdel (pending_tracks (peer_objects s ! k)) (track_id t))"
    using assms by (simp_all add: accept_remote_track_def wait_for_metadata_def no_longer_pending_def store_track_def
        described_track_def Let_def split: option.split)
  show "set (jkeys (remote (peer_objects (accept_remote_track k t w s) ! k))) \<subseteq>
       set (jkeys (remote (peer_objects s ! k))) \<union> descriptor_source ` set (jvals (metadata (peer_objects s ! k)))"
  proof (cases ?d)
    case None
    then show ?thesis using assms by (auto simp: accept_remote_track_def wait_for_metadata_def)
  next
    case (Some d)
    then have "set (jkeys (remote (peer_objects (accept_remote_track k t w s) ! k))) \<subseteq>
        insert (descriptor_source d) (set (jkeys (remote (peer_objects s ! k))))"
      using assms by (auto simp: accept_remote_track_def no_longer_pending_def store_track_def described_track_def Let_def)
    with found [OF Some] show ?thesis by blast
  qed
qed

definition unmatched :: "peer_object \<Rightarrow> media_track \<times> string list \<Rightarrow> bool" where
  "unmatched o' x = (find_track_descriptor (jvals (metadata o')) (track_id (fst x)) (snd x) = None)"

lemma accept_all_settles:
  assumes "k < length (peer_objects s)"
    and "list_all (\<lambda>(i, x). track_id (fst x) = i \<and> (unmatched (peer_objects s ! k) x \<or> x \<in> set ps)) (pending_tracks (peer_objects s ! k))"
  shows "list_all (\<lambda>(i, x). unmatched (peer_objects (accept_all k ps s) ! k) x) (pending_tracks (peer_objects (accept_all k ps s) ! k)) \<and>
    metadata (peer_objects (accept_all k ps s) ! k) = metadata (peer_objects s ! k) \<and>
    set (jkeys (remote (peer_objects (accept_all k ps s) ! k))) \<subseteq>
      set (jkeys (remote (peer_objects s ! k))) \<union> descriptor_source ` set (jvals (metadata (peer_objects s ! k)))"
  using assms
proof (induction ps arbitrary: s)
  case Nil
  then show ?case by (auto simp: accept_all_def list_all_iff)
next
  case (Cons x ps)
  obtain t w where x: "x = (t, w)" by (cases x)
  let ?o = "peer_objects s ! k" and ?s = "accept_remote_track k t w s"
  let ?o1 = "peer_objects ?s ! k"
  note A = accept_metadata [OF Cons.prems(1), of t w]
  have unmatched: "unmatched ?o1 = unmatched ?o" by (simp add: fun_eq_iff unmatched_def A(1))
  have "list_all (\<lambda>(i, y). track_id (fst y) = i \<and> (unmatched ?o y \<or> y \<in> set ps)) (pending_tracks ?o1)"
  proof (cases "unmatched ?o x")
    case True
    have "list_all (\<lambda>(i, y). track_id (fst y) = i \<and> (unmatched ?o y \<or> y \<in> set ps)) (pending_tracks ?o)"
      using Cons.prems(2) True by (auto simp: list_all_iff)
    then have "list_all (\<lambda>(i, y). track_id (fst y) = i \<and> (unmatched ?o y \<or> y \<in> set ps)) (jset (pending_tracks ?o) (track_id t) (t, w))"
      by (rule list_all_jset) (use True x in simp)
    then show ?thesis using True by (simp add: A(3) unmatched_def x)
  next
    case False
    then have "pending_tracks ?o1 = jdel (pending_tracks ?o) (track_id t)"
      unfolding A(3) unmatched_def x by (simp only: fst_conv snd_conv if_False)
    then show ?thesis using Cons.prems(2) by (auto simp: list_all_iff jdel_def x)
  qed
  then have "list_all (\<lambda>(i, y). track_id (fst y) = i \<and> (unmatched ?o1 y \<or> y \<in> set ps)) (pending_tracks ?o1)"
    by (simp only: unmatched)
  from Cons.IH [OF _ this] Cons.prems(1) A(1,2) show ?case by (auto simp: accept_all_def x)
qed

lemma descriptor_map_values: "set (jvals (descriptor_map ds)) \<subseteq> set ds"
proof -
  have "set (jvals (jset m k v)) \<subseteq> insert v (set (jvals m))" for m :: "(string, track_descriptor) jsmap" and k v
    by (induction m k v rule: jset.induct) auto
  then have "set (jvals (foldl (\<lambda>m d. jset m (descriptor_track d) d) m ds)) \<subseteq> set (jvals m) \<union> set ds" for m
    by (induction ds arbitrary: m) fastforce+
  from this [of "[]"] show ?thesis by (simp add: descriptor_map_def)
qed

text \<open>
  The metadata of a participant decides what is his: after it has been handled, his
  ordinary connection shows only sources it advertises, and every track still waiting is one
  that it does not describe.
\<close>

theorem metadata_decides:
  assumes "s = foldl tracks_step (no_remote_tracks me) es" "s' = handle_metadata p tracks s"
    and "\<not> tracks_disposed s" "jget (call_peers s') p = Some k"
  shows "set (jkeys (remote (peer_objects s' ! k))) \<subseteq> descriptor_source ` set tracks \<and>
    list_all (\<lambda>(i, t, streams). find_track_descriptor (jvals (descriptor_map tracks)) (track_id t) streams = None)
      (pending_tracks (peer_objects s' ! k))"
proof -
  have ok: "tables_ok (add_peer p s)"
    unfolding assms(1) using tracks.run_inv [OF tracks_new] by (blast intro: tables_ok_add_peer)
  have peers: "call_peers (track_metadata j tracks u) = call_peers u" for j u
  proof -
    have "call_peers (withdraw_sources j tracks u) = call_peers u"
      unfolding withdraw_sources_def by (rule foldl_keeps) simp_all
    moreover have "call_peers (accept_all j ps v) = call_peers v" for ps v
      unfolding accept_all_def by (rule foldl_keeps) auto
    ultimately show ?thesis by (simp add: track_metadata_parts Let_def)
  qed
  have k: "jget (call_peers (add_peer p s)) p = Some k" and s': "s' = track_metadata k tracks (add_peer p s)"
    using assms(2,3,4) peers by (auto simp: handle_metadata_def Let_def split: option.splits)
  define s1 where "s1 = withdraw_sources k tracks (add_peer p s)"
  define s2 where "s2 = note_metadata k tracks s1"
  have s1: "tables_ok s1" "k < length (peer_objects s1)"
    using withdraw_sources_ok [OF ok tables_okD(2) [OF ok k]] by (simp_all add: s1_def)
  have s2: "tables_ok s2" "k < length (peer_objects s2)" "metadata (peer_objects s2 ! k) = descriptor_map tracks"
      "remote (peer_objects s2 ! k) = remote (peer_objects s1 ! k)"
    using s1 by (simp_all add: s2_def note_metadata_ok) (simp_all add: note_metadata_def)
  have "list_all (\<lambda>(i, t, streams). track_id t = i) (pending_tracks (peer_objects s2 ! k))"
    using tables_okD(4) [OF s2(1,2)] by (simp add: object_ok_def)
  then have waiting: "list_all (\<lambda>(i, x). track_id (fst x) = i \<and> (unmatched (peer_objects s2 ! k) x \<or> x \<in> set (jvals (pending_tracks (peer_objects s2 ! k)))))
      (pending_tracks (peer_objects s2 ! k))"
    by (auto simp: list_all_iff jvals_def intro: rev_image_eqI)
  define s3 where "s3 = accept_all k (jvals (pending_tracks (peer_objects s2 ! k))) s2"
  have settled: "list_all (\<lambda>(i, x). unmatched (peer_objects s3 ! k) x) (pending_tracks (peer_objects s3 ! k))"
      "metadata (peer_objects s3 ! k) = descriptor_map tracks"
      "set (jkeys (remote (peer_objects s3 ! k))) \<subseteq>
        set (jkeys (remote (peer_objects s1 ! k))) \<union> descriptor_source ` set (jvals (descriptor_map tracks))"
    using accept_all_settles [OF s2(2) waiting] s2(3,4) by (simp_all only: s3_def)
  have "s' = s3" by (simp add: s' track_metadata_parts Let_def s1_def s2_def s3_def)
  moreover have "set (jkeys (remote (peer_objects s3 ! k))) \<subseteq> descriptor_source ` set tracks"
    using settled(3) withdraw_sources_remote [OF tables_okD(2) [OF ok k], of tracks, folded s1_def]
      image_mono [OF descriptor_map_values [of tracks], of descriptor_source] by (meson order_trans Un_least)
  ultimately show ?thesis using settled(1,2) by (simp add: unmatched_def split_def)
qed

definition tracks_sample :: remote_tracks where
  "tracks_sample = foldl tracks_step (no_remote_tracks ''a'')
     [Peer_added ''b'', Track_arrives 0 \<lparr>track_object = 1, track_id = ''t''\<rparr> [''s'']]"

definition camera_descriptor :: track_descriptor where
  "camera_descriptor = \<lparr>descriptor_source = Camera, descriptor_track = ''u'', descriptor_audio = False,
     descriptor_enabled = True, descriptor_stream = Some ''s'', descriptor_transport = None\<rparr>"

theorem metadata_decides_witness:
  "set (jkeys (remote (peer_objects (handle_metadata ''b'' [camera_descriptor] tracks_sample) ! 0))) \<subseteq> {Camera}"
proof -
  have eval: "tracks_sample = \<lparr>own_name = ''a'', tracks_disposed = False, call_peers = [(''b'', 0)],
      peer_objects = [\<lparr>peer_name = ''b'', metadata = [], remote = [],
        pending_tracks = [(''t'', \<lparr>track_object = 1, track_id = ''t''\<rparr>, [''s''])]\<rparr>],
      native_remote = [], native_camera_remote = [], relay_tracks = [], exposed = [], remote_events = [], shown_tracks = []\<rparr>"
    by (simp add: tracks_sample_def no_remote_tracks_def add_peer_def jhas_def accept_remote_track_def
        find_track_descriptor_def wait_for_metadata_def set_object_def new_object_def)
  have "jget (call_peers (handle_metadata ''b'' [camera_descriptor] tracks_sample)) ''b'' = Some 0"
    by (simp add: eval handle_metadata_def add_peer_def jhas_def track_metadata_parts Let_def withdraw_sources_def
        note_metadata_def accept_all_def set_object_def)
  from metadata_decides [OF tracks_sample_def refl _ this] show ?thesis by (simp add: eval camera_descriptor_def)
qed

end

