(* ===== verification/LocalTracks.thy ===== *)
theory LocalTracks
  imports RemoteTracks
begin

text \<open>
  The tracks a call publishes: \<open>replaceLocalTrack\<close> of \<open>MediaEngine\<close> (\<open>media/engine.ts\<close>) with the
  microphone gate, the senders of every participant, the preview of a native share and
  \<open>dispose\<close>.

  A track, a sender and a \<open>Peer\<close> object are numbers. Replacing a track waits for the native
  camera, for the senders of everybody in the call and for the metadata to be sent; each wait
  is an event, so that anything can happen in between. A cleanup function is a number; the
  ones that ran are \<open>cleaned\<close>. What the browser answers is an argument of the event.
\<close>

section \<open>State\<close>

record media =
  is_audio :: bool
  enabled :: bool
  live :: bool

datatype local_event = Local_track media_source "nat option" | Relay_microphone "nat option"

datatype replace_phase = Stopping_camera | Replacing | Announcing | Settled | Handed_back | Dropped

record replacement =
  r_source :: media_source
  r_track :: "nat option"
  r_previous :: "nat option"
  r_previous_cleanup :: "nat option"
  r_cleanup :: "nat option"
  r_phase :: replace_phase
  r_outstanding :: "(nat, nat option) jsmap"

record local_tracks =
  locals_disposed :: bool
  medias :: "media list"
  published :: "(media_source, nat) jsmap"
  track_cleanup :: "(media_source, nat) jsmap"
  microphone_enabled :: "bool option"
  pending_microphones :: "nat list"
  peers :: "(string, nat) jsmap"
  senders :: "(media_source, nat) jsmap list"
  sender_tracks :: "nat option list"
  replacements :: "replacement list"
  cleaned :: "nat list"
  local_events :: "local_event list"

definition no_local_tracks :: "media list \<Rightarrow> local_tracks" where
  "no_local_tracks ms = \<lparr>locals_disposed = False, medias = ms, published = [], track_cleanup = [],
     microphone_enabled = None, pending_microphones = [], peers = [], senders = [], sender_tracks = [],
     replacements = [], cleaned = [], local_events = []\<rparr>"

definition set_media :: "nat \<Rightarrow> (media \<Rightarrow> media) \<Rightarrow> local_tracks \<Rightarrow> local_tracks" where
  "set_media t f s = s\<lparr>medias := (medias s)[t := f (medias s ! t)]\<rparr>"

definition stop_track :: "nat option \<Rightarrow> local_tracks \<Rightarrow> local_tracks" where
  "stop_track t s = (case t of None \<Rightarrow> s | Some t \<Rightarrow> set_media t (\<lambda>m. m\<lparr>live := False\<rparr>) s)"

definition clean :: "nat option \<Rightarrow> local_tracks \<Rightarrow> local_tracks" where
  "clean c s = (case c of None \<Rightarrow> s | Some c \<Rightarrow> s\<lparr>cleaned := cleaned s @ [c]\<rparr>)"

definition set_replacement :: "nat \<Rightarrow> (replacement \<Rightarrow> replacement) \<Rightarrow> local_tracks \<Rightarrow> local_tracks" where
  "set_replacement i f s = s\<lparr>replacements := (replacements s)[i := f (replacements s ! i)]\<rparr>"

definition set_phase :: "nat \<Rightarrow> replace_phase \<Rightarrow> local_tracks \<Rightarrow> local_tracks" where
  "set_phase i ph = set_replacement i (\<lambda>r. r\<lparr>r_phase := ph\<rparr>)"

definition tell :: "local_event \<Rightarrow> local_tracks \<Rightarrow> local_tracks" where
  "tell e s = s\<lparr>local_events := local_events s @ [e]\<rparr>"

section \<open>Replacing a track\<close>

text \<open>The senders: every participant gets the track on his sender, or a new sender.\<close>

definition add_sender :: "nat \<Rightarrow> media_source \<Rightarrow> nat \<Rightarrow> local_tracks \<Rightarrow> local_tracks" where
  "add_sender k source t s =
     s\<lparr>senders := (senders s)[k := jset (senders s ! k) source (length (sender_tracks s))],
       sender_tracks := sender_tracks s @ [Some t]\<rparr>"

definition start_sender :: "nat \<Rightarrow> nat \<Rightarrow> local_tracks \<Rightarrow> local_tracks" where
  "start_sender i k s =
     (let r = replacements s ! i; wait = (\<lambda>d. set_replacement i (\<lambda>r. r\<lparr>r_outstanding := jset (r_outstanding r) k d\<rparr>))
      in case jget (senders s ! k) (r_source r) of
           Some d \<Rightarrow> wait (Some d) s
         | None \<Rightarrow> (case r_track r of None \<Rightarrow> s | Some t \<Rightarrow> wait None (add_sender k (r_source r) t s)))"

definition replace_senders :: "nat \<Rightarrow> local_tracks \<Rightarrow> local_tracks" where
  "replace_senders i s = foldl (\<lambda>s k. start_sender i k s) (set_phase i Replacing s) (jvals (peers s))"

text \<open>The microphone gate of a track that is about to be published.\<close>

definition gate_replacement :: "media_source \<Rightarrow> nat option \<Rightarrow> local_tracks \<Rightarrow> local_tracks" where
  "gate_replacement source track s =
     (case (if source = Microphone then track else None) of
        None \<Rightarrow> s
      | Some t \<Rightarrow>
          let before = (case jget (published s) source of None \<Rightarrow> enabled (medias s ! t) | Some p \<Rightarrow> enabled (medias s ! p));
              s = set_media t (\<lambda>m. m\<lparr>enabled := nullish (microphone_enabled s) before\<rparr>) s
          in s\<lparr>pending_microphones := sadd t (pending_microphones s)\<rparr>)"

datatype replace_error = Engine_disposed | Wrong_kind

definition new_replacement :: "media_source \<Rightarrow> nat option \<Rightarrow> nat option \<Rightarrow> local_tracks \<Rightarrow> replacement" where
  "new_replacement source track cleanup s =
     \<lparr>r_source = source, r_track = track, r_previous = jget (published s) source,
      r_previous_cleanup = jget (track_cleanup s) source, r_cleanup = cleanup, r_phase = Stopping_camera, r_outstanding = []\<rparr>"

definition wrong_kind :: "media_source \<Rightarrow> nat option \<Rightarrow> local_tracks \<Rightarrow> bool" where
  "wrong_kind source track s =
     (case track of None \<Rightarrow> False | Some t \<Rightarrow> is_audio (medias s ! t) = (source = Camera \<or> source = Screen))"

definition begin_replacement :: "media_source \<Rightarrow> nat option \<Rightarrow> nat option \<Rightarrow> local_tracks \<Rightarrow> local_tracks" where
  "begin_replacement source track cleanup s =
     (let r = new_replacement source track cleanup s; s = gate_replacement source track s
      in s\<lparr>replacements := replacements s @ [r]\<rparr>)"

definition replace_local_track :: "media_source \<Rightarrow> nat option \<Rightarrow> nat option \<Rightarrow> local_tracks \<Rightarrow> replace_error option \<times> local_tracks" where
  "replace_local_track source track cleanup s =
     (if locals_disposed s then (Some Engine_disposed, s)
      else if track \<noteq> None \<and> jget (published s) source = track then (None, s)
      else if wrong_kind source track s then (Some Wrong_kind, s)
      else
        let i = length (replacements s); s = begin_replacement source track cleanup s
        in (None, if source = Camera then s else replace_senders i s))"

definition no_longer_pending_microphone :: "nat option \<Rightarrow> local_tracks \<Rightarrow> local_tracks" where
  "no_longer_pending_microphone track s =
     (case track of None \<Rightarrow> s | Some t \<Rightarrow> s\<lparr>pending_microphones := sdel t (pending_microphones s)\<rparr>)"

text \<open>The \<open>catch\<close> of the first part: the track goes back to the caller, unless the engine is gone.\<close>

definition replace_fails :: "nat \<Rightarrow> local_tracks \<Rightarrow> local_tracks" where
  "replace_fails i s =
     (let r = replacements s ! i
      in if r_phase r \<noteq> Stopping_camera \<and> r_phase r \<noteq> Replacing then s
         else
           let s = no_longer_pending_microphone (r_track r) s;
               s = (if locals_disposed s then stop_track (r_track r) s else s);
               s = clean (r_cleanup r) s
           in set_phase i (if locals_disposed s then Dropped else Handed_back) s)"

text \<open>\<open>nativeCamera.stop\<close> has answered.\<close>

definition camera_stopped :: "nat \<Rightarrow> bool \<Rightarrow> local_tracks \<Rightarrow> local_tracks" where
  "camera_stopped i ok s =
     (if r_phase (replacements s ! i) \<noteq> Stopping_camera then s
      else if ok then replace_senders i s else replace_fails i s)"

text \<open>A sender has answered; \<open>None\<close> is a sender that was just added, whose limits never fail.\<close>

definition sender_settles :: "nat \<Rightarrow> nat \<Rightarrow> bool \<Rightarrow> local_tracks \<Rightarrow> local_tracks" where
  "sender_settles i k ok s =
     (let r = replacements s ! i
      in case jget (r_outstanding r) k of
           None \<Rightarrow> s
         | Some waiting \<Rightarrow>
             let s = set_replacement i (\<lambda>r. r\<lparr>r_outstanding := jdel (r_outstanding r) k\<rparr>) s
             in case waiting of
                  None \<Rightarrow> s
                | Some d \<Rightarrow>
                    if \<not> ok then replace_fails i s
                    else
                      let s = s\<lparr>sender_tracks := (sender_tracks s)[d := r_track r]\<rparr>
                      in if r_track r = None then s\<lparr>senders := (senders s)[k := jdel (senders s ! k) (r_source r)]\<rparr> else s)"

definition publish :: "nat \<Rightarrow> local_tracks \<Rightarrow> local_tracks" where
  "publish i s =
     (let r = replacements s ! i; s = no_longer_pending_microphone (r_track r) s
      in case r_track r of
           Some t \<Rightarrow> s\<lparr>published := jset (published s) (r_source r) t,
               track_cleanup := (case r_cleanup r of None \<Rightarrow> jdel (track_cleanup s) (r_source r)
                                 | Some c \<Rightarrow> jset (track_cleanup s) (r_source r) c)\<rparr>
         | None \<Rightarrow> s\<lparr>published := jdel (published s) (r_source r), track_cleanup := jdel (track_cleanup s) (r_source r)\<rparr>)"

text \<open>Every sender has answered well.\<close>

definition replace_resumes :: "nat \<Rightarrow> local_tracks \<Rightarrow> local_tracks" where
  "replace_resumes i s =
     (let r = replacements s ! i
      in if r_phase r \<noteq> Replacing \<or> r_outstanding r \<noteq> [] then s
         else if locals_disposed s then replace_fails i s
         else set_phase i Announcing (publish i s))"

text \<open>The metadata was sent, or sending it failed.\<close>

definition announced :: "nat \<Rightarrow> bool \<Rightarrow> local_tracks \<Rightarrow> local_tracks" where
  "announced i ok s =
     (let r = replacements s ! i
      in if r_phase r \<noteq> Announcing then s
         else
           let s = clean (r_previous_cleanup r) (stop_track (r_previous r) (set_phase i Settled s))
           in if \<not> ok then s
              else
                let s = tell (Local_track (r_source r) (r_track r)) s
                in if r_source r = Microphone then tell (Relay_microphone (r_track r)) s else s)"

section \<open>The other operations on the tracks\<close>

definition set_microphone_enabled :: "bool \<Rightarrow> local_tracks \<Rightarrow> local_tracks" where
  "set_microphone_enabled b s =
     (let s = s\<lparr>microphone_enabled := Some b\<rparr>;
          s = (case jget (published s) Microphone of None \<Rightarrow> s | Some t \<Rightarrow> set_media t (\<lambda>m. m\<lparr>enabled := b\<rparr>) s)
      in foldl (\<lambda>s t. set_media t (\<lambda>m. m\<lparr>enabled := b\<rparr>) s) s (pending_microphones s))"

definition track_ends :: "media_source \<Rightarrow> nat \<Rightarrow> local_tracks \<Rightarrow> local_tracks" where
  "track_ends source t s =
     (if \<not> locals_disposed s \<and> jget (published s) source = Some t then snd (replace_local_track source None None s) else s)"

definition set_native_preview :: "nat option \<Rightarrow> local_tracks \<Rightarrow> local_tracks" where
  "set_native_preview track s =
     (let previous = jget (published s) Screen;
          s = (if previous \<noteq> None \<and> previous \<noteq> track then stop_track previous s else s);
          s = (case track of
                 Some t \<Rightarrow> s\<lparr>published := jset (published s) Screen t\<rparr>
               | None \<Rightarrow> s\<lparr>published := jdel (published s) Screen,
                   senders := map (\<lambda>(k, m). if k \<in> set (jvals (peers s)) then jdel m Screen else m) (List.enumerate 0 (senders s))\<rparr>)
      in tell (Local_track Screen track) s)"

definition join :: "string \<Rightarrow> bool \<Rightarrow> local_tracks \<Rightarrow> local_tracks" where
  "join p native s =
     (if locals_disposed s \<or> jhas (peers s) p then s
      else
        let k = length (senders s);
            s = s\<lparr>peers := jset (peers s) p k, senders := senders s @ [[]]\<rparr>
        in foldl (\<lambda>s (source, t). if source = Screen \<and> native then s else add_sender k source t s) s (published s))"

definition leave :: "string \<Rightarrow> local_tracks \<Rightarrow> local_tracks" where
  "leave p s = s\<lparr>peers := jdel (peers s) p\<rparr>"

definition dispose_locals :: "local_tracks \<Rightarrow> local_tracks" where
  "dispose_locals s =
     (if locals_disposed s then s
      else
        let s = s\<lparr>locals_disposed := True\<rparr>;
            s = foldl (\<lambda>s t. stop_track (Some t) s) s (pending_microphones s);
            s = s\<lparr>pending_microphones := [], peers := []\<rparr>;
            s = foldl (\<lambda>s t. stop_track (Some t) s) s (jvals (published s));
            s = foldl (\<lambda>s c. clean (Some c) s) s (jvals (track_cleanup s))
        in s\<lparr>track_cleanup := [], published := []\<rparr>)"

datatype local_step =
    Replace media_source "nat option" "nat option"
  | Camera_stopped nat bool
  | Sender_settles nat nat bool
  | Resume nat
  | Announced nat bool
  | Enable_microphone bool
  | Track_ends media_source nat
  | Native_preview "nat option"
  | Join string bool
  | Leave string
  | Dispose_locals

fun do_local :: "local_tracks \<Rightarrow> local_step \<Rightarrow> local_tracks" where
  "do_local s (Replace source track cleanup) = snd (replace_local_track source track cleanup s)"
| "do_local s (Camera_stopped i ok) = (if i < length (replacements s) then camera_stopped i ok s else s)"
| "do_local s (Sender_settles i k ok) = (if i < length (replacements s) then sender_settles i k ok s else s)"
| "do_local s (Resume i) = (if i < length (replacements s) then replace_resumes i s else s)"
| "do_local s (Announced i ok) = (if i < length (replacements s) then announced i ok s else s)"
| "do_local s (Enable_microphone b) = set_microphone_enabled b s"
| "do_local s (Track_ends source t) = track_ends source t s"
| "do_local s (Native_preview track) = set_native_preview track s"
| "do_local s (Join p native) = join p native s"
| "do_local s (Leave p) = leave p s"
| "do_local s Dispose_locals = dispose_locals s"

section \<open>What the steps leave alone\<close>

definition rcore :: "replacement \<Rightarrow> replacement" where
  "rcore r = r\<lparr>r_outstanding := []\<rparr>"

definition cores :: "local_tracks \<Rightarrow> replacement list" where
  "cores s = map rcore (replacements s)"

definition open_replacement :: "replacement \<Rightarrow> bool" where
  "open_replacement r = (r_phase r = Stopping_camera \<or> r_phase r = Replacing)"

lemma rcore_simps [simp]:
  "r_source (rcore r) = r_source r" "r_track (rcore r) = r_track r" "r_previous (rcore r) = r_previous r"
  "r_previous_cleanup (rcore r) = r_previous_cleanup r" "r_cleanup (rcore r) = r_cleanup r" "r_phase (rcore r) = r_phase r"
  "open_replacement (rcore r) = open_replacement r"
  "rcore (r\<lparr>r_outstanding := w\<rparr>) = rcore r"
  by (simp_all add: rcore_def open_replacement_def)

lemma length_cores [simp]: "length (cores s) = length (replacements s)"
  by (simp add: cores_def)

lemma cores_nth [simp]: "i < length (replacements s) \<Longrightarrow> cores s ! i = rcore (replacements s ! i)"
  by (simp add: cores_def)

text \<open>The part of the state that the gate and the ownership of tracks are about.\<close>

definition track_part :: "local_tracks \<Rightarrow> bool \<times> media list \<times> (media_source, nat) jsmap \<times> bool option \<times> nat list \<times> replacement list" where
  "track_part s = (locals_disposed s, medias s, published s, microphone_enabled s, pending_microphones s, cores s)"

lemma track_part_eq:
  "track_part s' = track_part s \<longleftrightarrow>
   locals_disposed s' = locals_disposed s \<and> medias s' = medias s \<and> published s' = published s \<and>
   microphone_enabled s' = microphone_enabled s \<and> pending_microphones s' = pending_microphones s \<and> cores s' = cores s"
  by (simp add: track_part_def)

lemma cores_outstanding:
  "cores (set_replacement i (\<lambda>r. r\<lparr>r_outstanding := f r\<rparr>) s) = cores s"
  unfolding cores_def set_replacement_def by (simp add: map_update_same)

lemma start_sender_part [simp]: "track_part (start_sender i k s) = track_part s"
  by (auto simp: track_part_eq start_sender_def Let_def cores_outstanding set_replacement_def add_sender_def split: option.split)
    (auto simp: cores_def map_update_same)

lemma replace_senders_part: "track_part (replace_senders i s) = track_part (set_phase i Replacing s)"
  unfolding replace_senders_def by (rule foldl_keeps) simp_all

lemma set_phase_simps [simp]:
  "locals_disposed (set_phase i ph s) = locals_disposed s" "medias (set_phase i ph s) = medias s"
  "published (set_phase i ph s) = published s" "microphone_enabled (set_phase i ph s) = microphone_enabled s"
  "pending_microphones (set_phase i ph s) = pending_microphones s"
  "length (replacements (set_phase i ph s)) = length (replacements s)"
  by (simp_all add: set_phase_def set_replacement_def)

lemma rcore_phase [simp]: "rcore (r\<lparr>r_phase := ph\<rparr>) = (rcore r)\<lparr>r_phase := ph\<rparr>"
  by (cases r) (simp add: rcore_def)

lemma cores_set_phase: "cores (set_phase i ph s) = (cores s)[i := (cores s ! i)\<lparr>r_phase := ph\<rparr>]"
  by (cases "i < length (replacements s)")
    (simp_all add: cores_def set_phase_def set_replacement_def map_update list_update_beyond)

lemma media_simps [simp]:
  "locals_disposed (stop_track t s) = locals_disposed s" "published (stop_track t s) = published s"
  "microphone_enabled (stop_track t s) = microphone_enabled s" "pending_microphones (stop_track t s) = pending_microphones s"
  "replacements (stop_track t s) = replacements s" "length (medias (stop_track t s)) = length (medias s)"
  "locals_disposed (clean c s) = locals_disposed s" "published (clean c s) = published s"
  "microphone_enabled (clean c s) = microphone_enabled s" "pending_microphones (clean c s) = pending_microphones s"
  "replacements (clean c s) = replacements s" "medias (clean c s) = medias s"
  "track_part (tell e s) = track_part s"
  "cores (stop_track t s) = cores s" "cores (clean c s) = cores s"
  by (simp_all add: stop_track_def clean_def set_media_def tell_def track_part_eq cores_def split: option.split)

lemma stop_track_nth:
  "j < length (medias s) \<Longrightarrow> medias (stop_track t s) ! j = (if t = Some j then (medias s ! j)\<lparr>live := False\<rparr> else medias s ! j)"
  by (auto simp: stop_track_def set_media_def nth_list_update split: option.split)

lemma stop_tracks:
  "track_part (foldl (\<lambda>s t. stop_track (Some t) s) s ts) =
     (locals_disposed s, medias (foldl (\<lambda>s t. stop_track (Some t) s) s ts), published s, microphone_enabled s, pending_microphones s, cores s)"
  "length (medias (foldl (\<lambda>s t. stop_track (Some t) s) s ts)) = length (medias s)"
  "j < length (medias s) \<Longrightarrow> medias (foldl (\<lambda>s t. stop_track (Some t) s) s ts) ! j =
     (if j \<in> set ts then (medias s ! j)\<lparr>live := False\<rparr> else medias s ! j)"
proof (induction ts arbitrary: s)
  case (Cons t ts)
  { case 1 show ?case using Cons.IH(1) [of "stop_track (Some t) s"] by (simp add: track_part_def) }
  { case 2 show ?case using Cons.IH(2) [of "stop_track (Some t) s"] by simp }
  { case 3 then show ?case using Cons.IH(3) [of "stop_track (Some t) s"] by (auto simp: stop_track_nth) }
qed (simp_all add: track_part_def)

section \<open>The microphone gate\<close>

definition held_microphones :: "(media_source, nat) jsmap \<Rightarrow> nat list \<Rightarrow> nat set" where
  "held_microphones pub pending = set pending \<union> {t. jget pub Microphone = Some t}"

definition gate_ok :: "nat set \<Rightarrow> bool \<Rightarrow> media list \<Rightarrow> (media_source, nat) jsmap \<Rightarrow> bool option \<Rightarrow> nat list \<Rightarrow> replacement list \<Rightarrow> bool" where
  "gate_ok X gone ms pub gate pending rs \<longleftrightarrow>
     (\<forall>t\<in>held_microphones pub pending. t \<notin> X \<longrightarrow> t < length ms \<and> (\<forall>b. gate = Some b \<longrightarrow> enabled (ms ! t) = b)) \<and>
     (\<forall>i<length rs. open_replacement (rs ! i) \<and> r_source (rs ! i) = Microphone \<and> \<not> gone \<longrightarrow>
        (\<forall>t. r_track (rs ! i) = Some t \<longrightarrow> t \<notin> X \<longrightarrow> t \<in> set pending)) \<and>
     (\<forall>i j t. i < length rs \<longrightarrow> j < length rs \<longrightarrow> i \<noteq> j \<longrightarrow> open_replacement (rs ! i) \<longrightarrow> open_replacement (rs ! j) \<longrightarrow>
        r_track (rs ! i) = Some t \<longrightarrow> t \<notin> X \<longrightarrow> r_track (rs ! j) \<noteq> Some t)"

definition gate_inv :: "nat set \<Rightarrow> local_tracks \<Rightarrow> bool" where
  "gate_inv X s = gate_ok X (locals_disposed s) (medias s) (published s) (microphone_enabled s) (pending_microphones s) (cores s)"

lemma gate_inv_part: "track_part s' = track_part s \<Longrightarrow> gate_inv X s' = gate_inv X s"
  by (simp add: gate_inv_def track_part_eq)

lemma gate_inv_same: "gate_inv X s \<Longrightarrow> track_part s' = track_part s \<Longrightarrow> gate_inv X s'"
  by (simp add: gate_inv_part [of s' s])

lemma gate_okD:
  assumes "gate_ok X gone ms pub gate pending rs"
  shows "t \<notin> X \<Longrightarrow> t \<in> set pending \<Longrightarrow> t < length ms" "t \<notin> X \<Longrightarrow> jget pub Microphone = Some t \<Longrightarrow> t < length ms"
    "t \<notin> X \<Longrightarrow> t \<in> set pending \<Longrightarrow> gate = Some b \<Longrightarrow> enabled (ms ! t) = b"
    "t \<notin> X \<Longrightarrow> jget pub Microphone = Some t \<Longrightarrow> gate = Some b \<Longrightarrow> enabled (ms ! t) = b"
    "i < length rs \<Longrightarrow> open_replacement (rs ! i) \<Longrightarrow> r_source (rs ! i) = Microphone \<Longrightarrow> \<not> gone \<Longrightarrow>
       r_track (rs ! i) = Some t \<Longrightarrow> t \<notin> X \<Longrightarrow> t \<in> set pending"
    "i < length rs \<Longrightarrow> j < length rs \<Longrightarrow> i \<noteq> j \<Longrightarrow> open_replacement (rs ! i) \<Longrightarrow> open_replacement (rs ! j) \<Longrightarrow>
       r_track (rs ! i) = Some t \<Longrightarrow> t \<notin> X \<Longrightarrow> r_track (rs ! j) \<noteq> Some t"
  using assms by (auto simp: gate_ok_def held_microphones_def)

text \<open>A replacement that is no longer open gives up its track; nobody else is replacing it.\<close>

lemma gate_ok_close:
  assumes ok: "gate_ok X gone ms pub gate pending rs" and i: "i < length rs" "open_replacement (rs ! i)"
    and ms: "length ms' = length ms" "\<And>t. enabled (ms' ! t) = enabled (ms ! t)"
    and pub: "\<And>t. t \<notin> X \<Longrightarrow> jget pub' Microphone = Some t \<Longrightarrow> jget pub Microphone = Some t \<or> t \<in> set pending"
    and ph: "ph \<noteq> Stopping_camera" "ph \<noteq> Replacing"
  shows "gate_ok X gone ms' pub' gate (case r_track (rs ! i) of None \<Rightarrow> pending | Some t \<Rightarrow> sdel t pending)
           (rs[i := (rs ! i)\<lparr>r_phase := ph\<rparr>])"
proof -
  note D = gate_okD [OF ok]
  have closed: "\<not> open_replacement ((rs ! i)\<lparr>r_phase := ph\<rparr>)" using ph by (simp add: open_replacement_def)
  have pend: "t \<in> set (case r_track (rs ! i) of None \<Rightarrow> pending | Some t \<Rightarrow> sdel t pending) \<longleftrightarrow> t \<in> set pending \<and> r_track (rs ! i) \<noteq> Some t" for t
    by (auto split: option.split)
  have "t \<in> set (case r_track (rs ! i) of None \<Rightarrow> pending | Some t \<Rightarrow> sdel t pending)"
    if "j < length rs" "open_replacement (rs[i := (rs ! i)\<lparr>r_phase := ph\<rparr>] ! j)"
      "r_source (rs[i := (rs ! i)\<lparr>r_phase := ph\<rparr>] ! j) = Microphone" "\<not> gone" "r_track (rs[i := (rs ! i)\<lparr>r_phase := ph\<rparr>] ! j) = Some t" "t \<notin> X" for j t
  proof -
    have "j \<noteq> i" using that(1,2) closed i(1) by auto
    with that i D(5) [of j t] D(6) [of i j t] show ?thesis by (auto simp: pend)
  qed
  moreover have "r_track (rs[i := (rs ! i)\<lparr>r_phase := ph\<rparr>] ! l) \<noteq> Some t"
    if "j < length rs" "l < length rs" "j \<noteq> l" "open_replacement (rs[i := (rs ! i)\<lparr>r_phase := ph\<rparr>] ! j)"
      "open_replacement (rs[i := (rs ! i)\<lparr>r_phase := ph\<rparr>] ! l)" "r_track (rs[i := (rs ! i)\<lparr>r_phase := ph\<rparr>] ! j) = Some t" "t \<notin> X" for j l t
  proof -
    have "j \<noteq> i" "l \<noteq> i" using that closed i(1) by auto
    with that D(6) [of j l] show ?thesis by auto
  qed
  moreover have "t < length ms' \<and> (\<forall>b. gate = Some b \<longrightarrow> enabled (ms' ! t) = b)"
    if "t \<notin> X" "t \<in> held_microphones pub' (case r_track (rs ! i) of None \<Rightarrow> pending | Some t \<Rightarrow> sdel t pending)" for t
    using that pub [of t] D(1-4) [of t] ms by (auto simp: held_microphones_def pend)
  ultimately show ?thesis by (simp add: gate_ok_def)
qed

lemma no_longer_pending_simps [simp]:
  "locals_disposed (no_longer_pending_microphone t s) = locals_disposed s" "medias (no_longer_pending_microphone t s) = medias s"
  "published (no_longer_pending_microphone t s) = published s"
  "microphone_enabled (no_longer_pending_microphone t s) = microphone_enabled s"
  "pending_microphones (no_longer_pending_microphone t s) =
     (case t of None \<Rightarrow> pending_microphones s | Some t \<Rightarrow> sdel t (pending_microphones s))"
  "replacements (no_longer_pending_microphone t s) = replacements s" "cores (no_longer_pending_microphone t s) = cores s"
  by (simp_all add: no_longer_pending_microphone_def cores_def split: option.split)

lemma enabled_set_media: "(\<And>m. enabled (f m) = enabled m) \<Longrightarrow> enabled (medias (set_media x f s) ! j) = enabled (medias s ! j)"
  by (cases "x = j"; cases "x < length (medias s)") (simp_all add: set_media_def list_update_beyond)

lemma enabled_stop_track [simp]: "enabled (medias (stop_track t s) ! j) = enabled (medias s ! j)"
  by (simp add: stop_track_def enabled_set_media split: option.split)

text \<open>What is left of the replacement that fails, is published or is announced.\<close>

definition failed_phase :: "local_tracks \<Rightarrow> replace_phase" where
  "failed_phase s = (if locals_disposed s then Dropped else Handed_back)"

lemma replace_fails_part:
  assumes "i < length (replacements s)" "open_replacement (replacements s ! i)"
  shows "track_part (replace_fails i s) =
    (locals_disposed s, medias (if locals_disposed s then stop_track (r_track (replacements s ! i)) s else s), published s, microphone_enabled s,
     (case r_track (replacements s ! i) of None \<Rightarrow> pending_microphones s | Some t \<Rightarrow> sdel t (pending_microphones s)),
     (cores s)[i := (cores s ! i)\<lparr>r_phase := failed_phase s\<rparr>])"
  using assms
  by (auto simp: replace_fails_def Let_def track_part_def failed_phase_def cores_set_phase open_replacement_def)
    (auto simp: no_longer_pending_microphone_def stop_track_def set_media_def clean_def split: option.split)

lemma replace_fails_closed: "\<not> open_replacement (replacements s ! i) \<Longrightarrow> replace_fails i s = s"
  by (simp add: replace_fails_def open_replacement_def)

lemma publish_part:
  assumes "i < length (replacements s)"
  shows "track_part (set_phase i Announcing (publish i s)) =
    (locals_disposed s, medias s,
     (case r_track (replacements s ! i) of None \<Rightarrow> jdel (published s) (r_source (replacements s ! i))
      | Some t \<Rightarrow> jset (published s) (r_source (replacements s ! i)) t), microphone_enabled s,
     (case r_track (replacements s ! i) of None \<Rightarrow> pending_microphones s | Some t \<Rightarrow> sdel t (pending_microphones s)),
     (cores s)[i := (cores s ! i)\<lparr>r_phase := Announcing\<rparr>])"
  using assms
  by (cases "r_track (replacements s ! i)")
    (simp_all add: track_part_def publish_def Let_def cores_set_phase, simp_all add: no_longer_pending_microphone_def cores_def)

lemma announced_part:
  assumes "i < length (replacements s)" "r_phase (replacements s ! i) = Announcing"
  shows "track_part (announced i ok s) =
    (locals_disposed s, medias (stop_track (r_previous (replacements s ! i)) s), published s, microphone_enabled s, pending_microphones s,
     (cores s)[i := (cores s ! i)\<lparr>r_phase := Settled\<rparr>])"
proof -
  have "track_part (announced i ok s) =
      track_part (clean (r_previous_cleanup (replacements s ! i)) (stop_track (r_previous (replacements s ! i)) (set_phase i Settled s)))"
    using assms by (simp add: announced_def Let_def)
  then show ?thesis
    by (simp add: track_part_def cores_set_phase) (simp add: stop_track_def set_media_def split: option.split)
qed

lemma gate_inv_fails:
  assumes "gate_inv X s" "i < length (replacements s)"
  shows "gate_inv X (replace_fails i s)"
proof (cases "open_replacement (replacements s ! i)")
  case True
  note part = replace_fails_part [OF assms(2) True]
  have "gate_ok X (locals_disposed s) (medias (if locals_disposed s then stop_track (r_track (replacements s ! i)) s else s)) (published s)
      (microphone_enabled s) (case r_track (cores s ! i) of None \<Rightarrow> pending_microphones s | Some t \<Rightarrow> sdel t (pending_microphones s))
      ((cores s)[i := (cores s ! i)\<lparr>r_phase := failed_phase s\<rparr>])"
    by (rule gate_ok_close [OF assms(1) [unfolded gate_inv_def]])
      (use assms(2) True in \<open>simp_all add: failed_phase_def split: if_splits\<close>)
  then show ?thesis using part assms(2) by (simp add: gate_inv_def track_part_def)
next
  case False
  with assms(1) show ?thesis by (simp add: replace_fails_closed)
qed

lemma gate_inv_resumes:
  assumes "gate_inv X s" "i < length (replacements s)"
  shows "gate_inv X (replace_resumes i s)"
proof (cases "r_phase (replacements s ! i) = Replacing \<and> r_outstanding (replacements s ! i) = [] \<and> \<not> locals_disposed s")
  case True
  note part = publish_part [OF assms(2)]
  let ?r = "replacements s ! i"
  have op: "open_replacement ?r" using True by (simp add: open_replacement_def)
  have "gate_ok X (locals_disposed s) (medias s)
      (case r_track ?r of None \<Rightarrow> jdel (published s) (r_source ?r) | Some t \<Rightarrow> jset (published s) (r_source ?r) t)
      (microphone_enabled s) (case r_track (cores s ! i) of None \<Rightarrow> pending_microphones s | Some t \<Rightarrow> sdel t (pending_microphones s))
      ((cores s)[i := (cores s ! i)\<lparr>r_phase := Announcing\<rparr>])"
    by (rule gate_ok_close [OF assms(1) [unfolded gate_inv_def]])
      (use assms(2) op True gate_okD(5) [OF assms(1) [unfolded gate_inv_def], of i]
        in \<open>auto split: option.splits if_splits\<close>)
  then show ?thesis using part assms(2) True by (simp add: gate_inv_def track_part_def replace_resumes_def Let_def)
next
  case False
  with assms gate_inv_fails [OF assms] show ?thesis by (auto simp: replace_resumes_def Let_def)
qed

lemma gate_ok_update:
  assumes "gate_ok X gone ms pub gate pending rs" "i < length rs" "\<not> open_replacement (rs ! i)"
    "length ms' = length ms" "\<And>t. enabled (ms' ! t) = enabled (ms ! t)" "ph \<noteq> Stopping_camera" "ph \<noteq> Replacing"
  shows "gate_ok X gone ms' pub gate pending (rs[i := (rs ! i)\<lparr>r_phase := ph\<rparr>])"
proof -
  note D = gate_okD [OF assms(1)]
  have closed: "\<not> open_replacement ((rs ! i)\<lparr>r_phase := ph\<rparr>)" using assms(6,7) by (simp add: open_replacement_def)
  have same: "open_replacement (rs[i := (rs ! i)\<lparr>r_phase := ph\<rparr>] ! j) \<longleftrightarrow> j \<noteq> i \<and> open_replacement (rs ! j)"
      "j \<noteq> i \<Longrightarrow> rs[i := (rs ! i)\<lparr>r_phase := ph\<rparr>] ! j = rs ! j" for j
    using assms(2,3) closed by (cases "j = i"; simp)+
  have "t < length ms' \<and> (\<forall>b. gate = Some b \<longrightarrow> enabled (ms' ! t) = b)" if "t \<notin> X" "t \<in> held_microphones pub pending" for t
    using that D(1-4) [of t] assms(4,5) by (auto simp: held_microphones_def)
  moreover have "t \<in> set pending"
    if "j < length rs" "open_replacement (rs[i := (rs ! i)\<lparr>r_phase := ph\<rparr>] ! j)"
      "r_source (rs[i := (rs ! i)\<lparr>r_phase := ph\<rparr>] ! j) = Microphone" "\<not> gone" "r_track (rs[i := (rs ! i)\<lparr>r_phase := ph\<rparr>] ! j) = Some t" "t \<notin> X" for j t
    using that same [of j] D(5) [of j t] by simp
  moreover have "r_track (rs[i := (rs ! i)\<lparr>r_phase := ph\<rparr>] ! l) \<noteq> Some t"
    if "j < length rs" "l < length rs" "j \<noteq> l" "open_replacement (rs[i := (rs ! i)\<lparr>r_phase := ph\<rparr>] ! j)"
      "open_replacement (rs[i := (rs ! i)\<lparr>r_phase := ph\<rparr>] ! l)" "r_track (rs[i := (rs ! i)\<lparr>r_phase := ph\<rparr>] ! j) = Some t" "t \<notin> X" for j l t
    using that same [of j] same [of l] D(6) [of j l t] by simp
  ultimately show ?thesis by (simp add: gate_ok_def)
qed

lemma gate_inv_announced:
  assumes "gate_inv X s" "i < length (replacements s)"
  shows "gate_inv X (announced i ok s)"
proof (cases "r_phase (replacements s ! i) = Announcing")
  case True
  have "gate_ok X (locals_disposed s) (medias (stop_track (r_previous (replacements s ! i)) s)) (published s)
      (microphone_enabled s) (pending_microphones s) ((cores s)[i := (cores s ! i)\<lparr>r_phase := Settled\<rparr>])"
    by (rule gate_ok_update [OF assms(1) [unfolded gate_inv_def]])
      (use assms(2) True in \<open>simp_all add: open_replacement_def\<close>)
  then show ?thesis using announced_part [OF assms(2) True, of ok] by (simp add: gate_inv_def track_part_def)
next
  case False
  with assms show ?thesis by (simp add: announced_def Let_def)
qed

lemma gate_ok_open:
  assumes "gate_ok X gone ms pub gate pending rs" "i < length rs" "open_replacement (rs ! i)" "open_replacement ((rs ! i)\<lparr>r_phase := ph\<rparr>)"
  shows "gate_ok X gone ms pub gate pending (rs[i := (rs ! i)\<lparr>r_phase := ph\<rparr>])"
proof -
  note D = gate_okD [OF assms(1)]
  have same: "open_replacement (rs[i := (rs ! i)\<lparr>r_phase := ph\<rparr>] ! j) = open_replacement (rs ! j)"
      "r_track (rs[i := (rs ! i)\<lparr>r_phase := ph\<rparr>] ! j) = r_track (rs ! j)"
      "r_source (rs[i := (rs ! i)\<lparr>r_phase := ph\<rparr>] ! j) = r_source (rs ! j)" for j
    using assms(2-4) by (cases "j = i"; simp)+
  show ?thesis using assms(1) by (simp add: gate_ok_def same)
qed

lemma gate_inv_senders:
  assumes "gate_inv X s" "i < length (replacements s)" "open_replacement (replacements s ! i)"
  shows "gate_inv X (replace_senders i s)"
proof -
  have "gate_inv X (set_phase i Replacing s)"
    using gate_ok_open [OF assms(1) [unfolded gate_inv_def], of i Replacing] assms(2,3)
    by (simp add: gate_inv_def cores_set_phase open_replacement_def)
  then show ?thesis using gate_inv_part [OF replace_senders_part, of X i s] by simp
qed

lemma gate_inv_camera: "gate_inv X s \<Longrightarrow> i < length (replacements s) \<Longrightarrow> gate_inv X (camera_stopped i ok s)"
  by (simp add: camera_stopped_def gate_inv_senders gate_inv_fails open_replacement_def)

lemma gate_inv_settles:
  assumes "gate_inv X s" "i < length (replacements s)"
  shows "gate_inv X (sender_settles i k ok s)"
proof -
  define s1 where "s1 = set_replacement i (\<lambda>r. r\<lparr>r_outstanding := jdel (r_outstanding r) k\<rparr>) s"
  have part: "track_part s1 = track_part s" "length (replacements s1) = length (replacements s)"
    unfolding s1_def track_part_eq by (simp_all add: cores_outstanding) (simp_all add: set_replacement_def)
  have inv: "gate_inv X s1" using gate_inv_part [OF part(1)] assms(1) by simp
  have frame: "gate_inv X (s1\<lparr>sender_tracks := w\<rparr>) = gate_inv X s1" "gate_inv X (s1\<lparr>sender_tracks := w, senders := v\<rparr>) = gate_inv X s1" for w v
    by (rule gate_inv_part; simp add: track_part_eq cores_def)+
  show ?thesis
    using assms(1) inv gate_inv_fails [OF inv, of i] assms(2) part(2)
    by (auto simp: sender_settles_def Let_def s1_def [symmetric] frame split: option.split)
qed

lemma set_media_simps [simp]:
  "locals_disposed (set_media t f s) = locals_disposed s" "published (set_media t f s) = published s"
  "microphone_enabled (set_media t f s) = microphone_enabled s" "pending_microphones (set_media t f s) = pending_microphones s"
  "cores (set_media t f s) = cores s" "replacements (set_media t f s) = replacements s"
  "length (medias (set_media t f s)) = length (medias s)" "track_cleanup (set_media t f s) = track_cleanup s"
  by (simp_all add: set_media_def cores_def)

lemma set_media_nth:
  "j < length (medias s) \<Longrightarrow> medias (set_media t f s) ! j = (if j = t then f (medias s ! j) else medias s ! j)"
  by (auto simp: set_media_def)

definition fresh_track :: "local_tracks \<Rightarrow> nat option \<Rightarrow> bool" where
  "fresh_track s track = (case track of None \<Rightarrow> True
     | Some t \<Rightarrow> t < length (medias s) \<and> list_all (\<lambda>r. \<not> (open_replacement r \<and> r_track r = Some t)) (cores s))"

lemma gate_ok_append:
  assumes "gate_ok X gone ms pub gate pending rs" "set pending \<subseteq> set pending'" "length ms' = length ms"
    and "\<And>t. t \<notin> X \<Longrightarrow> t \<in> held_microphones pub pending' \<Longrightarrow>
          t < length ms' \<and> (\<forall>b. gate = Some b \<longrightarrow> enabled (ms' ! t) = b)"
    and "\<And>t. t \<notin> X \<Longrightarrow> r_track r = Some t \<Longrightarrow> list_all (\<lambda>r. \<not> (open_replacement r \<and> r_track r = Some t)) rs"
    and "\<And>t. r_source r = Microphone \<Longrightarrow> r_track r = Some t \<Longrightarrow> t \<in> set pending'"
  shows "gate_ok X gone ms' pub gate pending' (rs @ [r])"
proof -
  note D = gate_okD [OF assms(1)]
  have "t \<in> set pending'"
    if "j < Suc (length rs)" "open_replacement ((rs @ [r]) ! j)" "r_source ((rs @ [r]) ! j) = Microphone" "\<not> gone"
      "r_track ((rs @ [r]) ! j) = Some t" "t \<notin> X" for j t
  proof (cases "j < length rs")
    case True
    with that D(5) [of j t] assms(2) show ?thesis by (auto simp: nth_append)
  next
    case False
    with that assms(6) show ?thesis by (simp add: nth_append split: if_splits)
  qed
  moreover have "r_track ((rs @ [r]) ! l) \<noteq> Some t"
    if "j < Suc (length rs)" "l < Suc (length rs)" "j \<noteq> l" "open_replacement ((rs @ [r]) ! j)" "open_replacement ((rs @ [r]) ! l)"
      "r_track ((rs @ [r]) ! j) = Some t" "t \<notin> X" for j l t
    using that D(6) [of j l t] assms(5) [of t]
    by (auto simp: nth_append less_Suc_eq list_all_length split: if_splits)
  ultimately show ?thesis using assms(4) by (simp add: gate_ok_def)
qed

lemma gate_replacement_simps [simp]:
  "locals_disposed (gate_replacement source track s) = locals_disposed s"
  "published (gate_replacement source track s) = published s"
  "track_cleanup (gate_replacement source track s) = track_cleanup s"
  "microphone_enabled (gate_replacement source track s) = microphone_enabled s"
  "replacements (gate_replacement source track s) = replacements s"
  "cores (gate_replacement source track s) = cores s"
  "length (medias (gate_replacement source track s)) = length (medias s)"
  "set (pending_microphones (gate_replacement source track s)) =
     set (pending_microphones s) \<union> (if source = Microphone then set_option track else {})"
  by (auto simp: gate_replacement_def Let_def cores_def split: option.split)

lemma gate_replacement_enabled:
  assumes "t < length (medias s)"
  shows "enabled (medias (gate_replacement source track s) ! t) =
    (if source = Microphone \<and> track = Some t
     then nullish (microphone_enabled s) (case jget (published s) source of None \<Rightarrow> enabled (medias s ! t) | Some p \<Rightarrow> enabled (medias s ! p))
     else enabled (medias s ! t))"
  using assms by (auto simp: gate_replacement_def Let_def set_media_nth split: option.split)

lemma gate_inv_replace:
  assumes "gate_inv X s" "\<And>t. track = Some t \<Longrightarrow> t \<notin> X \<Longrightarrow> fresh_track s track"
  shows "gate_inv X (snd (replace_local_track source track cleanup s))"
proof -
  let ?r = "new_replacement source track cleanup s" and ?g = "gate_replacement source track s"
  define s1 where "s1 = begin_replacement source track cleanup s"
  have s1_def': "s1 = ?g\<lparr>replacements := replacements s @ [?r]\<rparr>" by (simp add: s1_def begin_replacement_def Let_def)
  note D = gate_okD [OF assms(1) [unfolded gate_inv_def]]
  have cores1: "cores s1 = cores s @ [rcore ?r]" by (simp add: s1_def' cores_def)
  have simps: "locals_disposed s1 = locals_disposed s" "published s1 = published s" "microphone_enabled s1 = microphone_enabled s"
      "medias s1 = medias ?g" "pending_microphones s1 = pending_microphones ?g"
    by (simp_all add: s1_def')
  have "t < length (medias ?g) \<and> (\<forall>b. microphone_enabled s = Some b \<longrightarrow> enabled (medias ?g ! t) = b)"
    if "t \<notin> X" "t \<in> held_microphones (published s) (pending_microphones ?g)" for t
  proof -
    have "t < length (medias s)"
      using that D(1,2) [of t] assms(2) by (auto simp: held_microphones_def fresh_track_def split: if_splits)
    then show ?thesis
      using that D(3,4) [of t] by (auto simp: held_microphones_def gate_replacement_enabled split: if_splits)
  qed
  then have "gate_inv X s1"
    unfolding gate_inv_def cores1 simps
    by (intro gate_ok_append [OF assms(1) [unfolded gate_inv_def]])
      (use assms(2) in \<open>auto simp: new_replacement_def fresh_track_def list_all_iff\<close>)
  moreover have "gate_inv X (replace_senders (length (replacements s)) s1)" if "gate_inv X s1"
    by (rule gate_inv_senders [OF that]) (simp_all add: s1_def' open_replacement_def new_replacement_def)
  ultimately show ?thesis
    using assms(1) unfolding replace_local_track_def Let_def s1_def [symmetric] by simp
qed

lemma gate_inv_enable: "gate_inv X s \<Longrightarrow> gate_inv X (set_microphone_enabled b s)"
proof -
  assume inv: "gate_inv X s"
  note D = gate_okD [OF inv [unfolded gate_inv_def]]
  define f where "f = (\<lambda>s t. set_media t (\<lambda>m. m\<lparr>enabled := b\<rparr>) s)"
  have fold: "locals_disposed (foldl f s ts) = locals_disposed s" "published (foldl f s ts) = published s"
      "microphone_enabled (foldl f s ts) = microphone_enabled s" "pending_microphones (foldl f s ts) = pending_microphones s"
      "cores (foldl f s ts) = cores s" "length (medias (foldl f s ts)) = length (medias s)"
      "j < length (medias s) \<Longrightarrow> enabled (medias (foldl f s ts) ! j) = (if j \<in> set ts then b else enabled (medias s ! j))" for s ts j
    by (induction ts arbitrary: s) (simp_all add: f_def set_media_nth)
  define s1 where "s1 = (case jget (published s) Microphone of None \<Rightarrow> s\<lparr>microphone_enabled := Some b\<rparr>
      | Some t \<Rightarrow> set_media t (\<lambda>m. m\<lparr>enabled := b\<rparr>) (s\<lparr>microphone_enabled := Some b\<rparr>))"
  have s1: "locals_disposed s1 = locals_disposed s" "published s1 = published s" "microphone_enabled s1 = Some b"
      "pending_microphones s1 = pending_microphones s" "cores s1 = cores s" "length (medias s1) = length (medias s)"
      "j < length (medias s) \<Longrightarrow> jget (published s) Microphone = Some j \<Longrightarrow> enabled (medias s1 ! j) = b" for j
    by (auto simp: s1_def set_media_nth cores_def split: option.split)
  have "set_microphone_enabled b s = foldl f s1 (pending_microphones s)"
    by (simp add: set_microphone_enabled_def Let_def s1_def f_def split: option.split)
  moreover have "gate_inv X (foldl f s1 (pending_microphones s))"
  proof -
    have "t < length (medias s) \<and> enabled (medias (foldl f s1 (pending_microphones s)) ! t) = b"
      if "t \<notin> X" "t \<in> held_microphones (published s) (pending_microphones s)" for t
    proof (cases "t \<in> set (pending_microphones s)")
      case True
      with D(1) [of t] that(1) show ?thesis by (simp add: fold s1)
    next
      case False
      with that have now: "jget (published s) Microphone = Some t" by (simp add: held_microphones_def)
      with D(2) that(1) have t: "t < length (medias s)" by simp
      from s1(7) [OF t now] False t show ?thesis by (simp add: fold s1(4,6))
    qed
    then show ?thesis using inv by (simp add: gate_inv_def gate_ok_def fold(1-6) s1(1-6))
  qed
  ultimately show ?thesis by simp
qed

lemma gate_ok_mono:
  assumes "gate_ok X gone ms pub gate pending rs" "length ms' = length ms" "\<And>t. enabled (ms' ! t) = enabled (ms ! t)"
    and "\<And>t. jget pub' Microphone = Some t \<Longrightarrow> jget pub Microphone = Some t"
  shows "gate_ok X gone ms' pub' gate pending rs"
proof -
  have "held_microphones pub' pending \<subseteq> held_microphones pub pending"
    using assms(4) by (auto simp: held_microphones_def)
  moreover have "t < length ms' \<and> (\<forall>b. gate = Some b \<longrightarrow> enabled (ms' ! t) = b)" if "t \<notin> X" "t \<in> held_microphones pub pending" for t
    using that assms(1-3) by (simp add: gate_ok_def)
  ultimately show ?thesis using assms(1) by (simp add: gate_ok_def subset_iff)
qed

lemma gate_inv_preview:
  assumes "gate_inv X s"
  shows "gate_inv X (set_native_preview track s)"
proof -
  define s1 where "s1 = (if jget (published s) Screen \<noteq> None \<and> jget (published s) Screen \<noteq> track then stop_track (jget (published s) Screen) s else s)"
  have this0: "gate_ok X (locals_disposed s) (medias s1) (case track of None \<Rightarrow> jdel (published s) Screen | Some t \<Rightarrow> jset (published s) Screen t)
      (microphone_enabled s) (pending_microphones s) (cores s)"
    by (rule gate_ok_mono [OF assms [unfolded gate_inv_def]]) (auto simp: s1_def split: option.splits)
  have gate: "gate_ok X (locals_disposed s1) (medias s1) (case track of None \<Rightarrow> jdel (published s1) Screen | Some t \<Rightarrow> jset (published s1) Screen t)
      (microphone_enabled s1) (pending_microphones s1) (cores s1)"
  proof -
    have "locals_disposed s1 = locals_disposed s" "published s1 = published s" "microphone_enabled s1 = microphone_enabled s"
      "pending_microphones s1 = pending_microphones s" "cores s1 = cores s" by (simp_all add: s1_def)
    then show ?thesis using this0 by (cases track) simp_all
  qed
  from gate have stored: "gate_inv X (case track of Some t \<Rightarrow> s1\<lparr>published := jset (published s1) Screen t\<rparr>
      | None \<Rightarrow> s1\<lparr>published := jdel (published s1) Screen, senders := w\<rparr>)" for w
    by (auto simp: gate_inv_def cores_def split: option.splits)
  have tell: "gate_inv X (tell e u) = gate_inv X u" for e u by (rule gate_inv_part) simp
  show ?thesis unfolding set_native_preview_def Let_def s1_def [symmetric] tell by (rule stored)
qed

lemma gate_inv_join: "gate_inv X s \<Longrightarrow> gate_inv X (join p native s)"
proof -
  assume inv: "gate_inv X s"
  have "gate_inv X (s\<lparr>peers := w, senders := v\<rparr>)" for w v
    by (rule gate_inv_same [OF inv]) (simp add: track_part_eq cores_def)
  moreover have "gate_inv X (add_sender k source t s)" if "gate_inv X s" for k source t s
    by (rule gate_inv_same [OF that]) (simp add: track_part_eq cores_def add_sender_def)
  ultimately show ?thesis using inv
    by (auto simp: join_def Let_def intro!: foldl_keeps [where P = "gate_inv X"])
qed

lemma dispose_locals_part:
  assumes "\<not> locals_disposed s"
  shows "locals_disposed (dispose_locals s)" "published (dispose_locals s) = []" "pending_microphones (dispose_locals s) = []"
    "microphone_enabled (dispose_locals s) = microphone_enabled s" "cores (dispose_locals s) = cores s"
    "length (medias (dispose_locals s)) = length (medias s)"
    "j < length (medias s) \<Longrightarrow> medias (dispose_locals s) ! j =
       (if j \<in> set (pending_microphones s) \<union> set (jvals (published s)) then (medias s ! j)\<lparr>live := False\<rparr> else medias s ! j)"
proof -
  define s1 where "s1 = foldl (\<lambda>s t. stop_track (Some t) s) (s\<lparr>locals_disposed := True\<rparr>) (pending_microphones s)"
  define s2 where "s2 = foldl (\<lambda>s t. stop_track (Some t) s) (s1\<lparr>pending_microphones := [], peers := []\<rparr>) (jvals (published s))"
  define s3 where "s3 = foldl (\<lambda>s c. clean (Some c) s) s2 (jvals (track_cleanup s2))"
  have p1: "locals_disposed s1" "published s1 = published s" "microphone_enabled s1 = microphone_enabled s"
      "length (medias s1) = length (medias s)" "cores s1 = cores s"
    using stop_tracks(1,2) [of "s\<lparr>locals_disposed := True\<rparr>" "pending_microphones s"]
    by (simp_all add: s1_def [symmetric] track_part_def) (simp add: cores_def)
  have p2: "locals_disposed s2" "microphone_enabled s2 = microphone_enabled s" "length (medias s2) = length (medias s)"
      "cores s2 = cores s" "pending_microphones s2 = []"
    using stop_tracks(1,2) [of "s1\<lparr>pending_microphones := [], peers := []\<rparr>" "jvals (published s)"] p1
    by (simp_all add: s2_def [symmetric] track_part_def) (simp add: cores_def)
  have "track_part s3 = track_part s2"
    unfolding s3_def by (rule foldl_keeps [where P = "\<lambda>s. track_part s = track_part s2"]) (simp_all add: track_part_eq)
  then have p3: "locals_disposed s3" "microphone_enabled s3 = microphone_enabled s" "medias s3 = medias s2"
      "cores s3 = cores s" "pending_microphones s3 = []" using p2 by (simp_all add: track_part_eq)
  have d: "dispose_locals s = s3\<lparr>track_cleanup := [], published := []\<rparr>"
    using assms p1(2) by (simp add: dispose_locals_def Let_def s1_def s2_def s3_def)
  show "locals_disposed (dispose_locals s)" "published (dispose_locals s) = []" "pending_microphones (dispose_locals s) = []"
    "microphone_enabled (dispose_locals s) = microphone_enabled s" "cores (dispose_locals s) = cores s"
    "length (medias (dispose_locals s)) = length (medias s)"
    using p2 p3 by (simp_all add: d) (simp add: cores_def)
  show "medias (dispose_locals s) ! j =
       (if j \<in> set (pending_microphones s) \<union> set (jvals (published s)) then (medias s ! j)\<lparr>live := False\<rparr> else medias s ! j)"
    if "j < length (medias s)"
    using that stop_tracks(3) [of j "s1\<lparr>pending_microphones := [], peers := []\<rparr>" "jvals (published s)"]
      stop_tracks(3) [of j "s\<lparr>locals_disposed := True\<rparr>" "pending_microphones s"] p1(4) p3(3)
    by (auto simp: d s1_def [symmetric] s2_def [symmetric])
qed

lemma gate_inv_dispose:
  assumes "gate_inv X s"
  shows "gate_inv X (dispose_locals s)"
proof (cases "locals_disposed s")
  case False
  have "gate_ok X True (medias (dispose_locals s)) [] (microphone_enabled s) [] (cores s)"
    using assms by (simp add: gate_inv_def gate_ok_def held_microphones_def)
  then show ?thesis by (simp add: gate_inv_def dispose_locals_part [OF False])
qed (use assms in \<open>simp add: dispose_locals_def\<close>)

text \<open>
  A track that is handed over although a replacement that is still open holds it already (or
  that is no track at all) is contested: two replacements then share one entry of
  \<open>pendingMicrophones\<close>.
\<close>

fun contested :: "local_tracks \<Rightarrow> local_step \<Rightarrow> nat list" where
  "contested s (Replace source (Some t) cleanup) = (if fresh_track s (Some t) then [] else [t])"
| "contested s _ = []"

fun contested_tracks :: "local_tracks \<Rightarrow> local_step list \<Rightarrow> nat list" where
  "contested_tracks s [] = []"
| "contested_tracks s (e # es) = contested s e @ contested_tracks (do_local s e) es"

lemma gate_inv_more: "gate_inv X s \<Longrightarrow> X \<subseteq> Y \<Longrightarrow> gate_inv Y s"
  unfolding gate_inv_def gate_ok_def by blast

lemma gate_inv_leave: "gate_inv X s \<Longrightarrow> gate_inv X (leave p s)"
  by (erule gate_inv_same) (simp add: leave_def track_part_eq cores_def)

lemma gate_inv_step: "gate_inv X s \<Longrightarrow> gate_inv (X \<union> set (contested s e)) (do_local s e)"
proof (cases e)
  case (Replace source track cleanup)
  assume "gate_inv X s"
  then have "gate_inv (X \<union> set (contested s e)) s" by (rule gate_inv_more) simp
  moreover have "fresh_track s track" if "track = Some t" "t \<notin> X \<union> set (contested s e)" for t
    using that Replace by (simp split: if_splits)
  ultimately have "gate_inv (X \<union> set (contested s e)) (snd (replace_local_track source track cleanup s))"
    by (rule gate_inv_replace)
  then show ?thesis by (simp add: Replace)
qed (simp_all add: gate_inv_camera gate_inv_settles gate_inv_resumes gate_inv_announced
      gate_inv_enable track_ends_def fresh_track_def gate_inv_replace gate_inv_preview gate_inv_join gate_inv_dispose gate_inv_leave)

lemma gate_inv_run: "gate_inv X s \<Longrightarrow> gate_inv (X \<union> set (contested_tracks s es)) (foldl do_local s es)"
proof (induction es arbitrary: X s)
  case (Cons e es)
  from Cons.IH [OF gate_inv_step [OF Cons.prems, of e]] show ?case by (simp add: Un_assoc)
qed simp

lemma gate_inv_new [simp]: "gate_inv X (no_local_tracks ms)"
  by (simp add: gate_inv_def gate_ok_def held_microphones_def no_local_tracks_def cores_def)

text \<open>
  C18. Muting is not undone by a device change: once the application has set the gate, the
  published microphone and every microphone on its way to being published are enabled exactly
  when the gate says so, however replacements, their answers and the gate interleave - for
  every track that was never handed over while an open replacement held it already. For such
  a track \<open>shared_microphone_escapes_gate\<close> shows the contrary.
\<close>

theorem microphones_follow_gate:
  assumes "s = foldl do_local (no_local_tracks ms) es" and "microphone_enabled s = Some b"
    and "t \<in> set (pending_microphones s) \<or> jget (published s) Microphone = Some t"
  shows "enabled (medias s ! t) = b \<or> t \<in> set (contested_tracks (no_local_tracks ms) es)"
proof -
  have "gate_inv ({} \<union> set (contested_tracks (no_local_tracks ms) es)) s"
    unfolding assms(1) by (rule gate_inv_run [OF gate_inv_new])
  with assms(2,3) show ?thesis by (auto simp: gate_inv_def gate_ok_def held_microphones_def)
qed

lemmas local_eval = no_local_tracks_def fresh_track_def replace_local_track_def begin_replacement_def
  new_replacement_def gate_replacement_def wrong_kind_def replace_senders_def set_phase_def set_replacement_def set_media_def
  start_sender_def add_sender_def sender_settles_def replace_resumes_def publish_def no_longer_pending_microphone_def
  announced_def stop_track_def clean_def tell_def set_microphone_enabled_def join_def cores_def rcore_def
  open_replacement_def jhas_def jdel_def sadd_def sdel_def replace_fails_def jkeys_def

definition muted_switch :: "local_step list" where
  "muted_switch = [Replace Microphone (Some 0) None, Resume 0, Announced 0 True, Join ''b'' False,
     Replace Microphone (Some 1) None, Enable_microphone False, Sender_settles 1 0 True, Resume 1, Announced 1 True]"

definition two_microphones :: "media list" where
  "two_microphones = replicate 2 \<lparr>is_audio = True, enabled = True, live = True\<rparr>"

theorem microphones_follow_gate_witness:
  "\<not> enabled (medias (foldl do_local (no_local_tracks two_microphones) muted_switch) ! 1)"
proof -
  let ?s = "foldl do_local (no_local_tracks two_microphones) muted_switch"
  have "microphone_enabled ?s = Some False" "jget (published ?s) Microphone = Some 1"
      "contested_tracks (no_local_tracks two_microphones) muted_switch = []"
    by (simp_all add: muted_switch_def two_microphones_def local_eval numeral_2_eq_2)
  with microphones_follow_gate [OF refl this(1), of 1] show ?thesis by simp
qed

text \<open>
  The same microphone handed over twice while it is being put in place: the first call takes
  it out of \<open>pendingMicrophones\<close> when it fails, so that muting does not reach it, and the second
  publishes it as it is.
\<close>

theorem shared_microphone_escapes_gate:
  "let s = foldl do_local (no_local_tracks two_microphones)
       [Replace Microphone (Some 0) None, Resume 0, Announced 0 True, Join ''b'' False,
        Replace Microphone (Some 1) None, Replace Microphone (Some 1) None, Sender_settles 1 0 False,
        Enable_microphone False, Sender_settles 2 0 True, Resume 2, Announced 2 True]
   in microphone_enabled s = Some False \<and> jget (published s) Microphone = Some 1 \<and> enabled (medias s ! 1)"
  by (simp add: two_microphones_def local_eval numeral_2_eq_2)

section \<open>No device stays open\<close>

definition listed_track :: "(media_source, nat) jsmap \<Rightarrow> replacement list \<Rightarrow> media_source \<Rightarrow> nat \<Rightarrow> bool" where
  "listed_track pub rs source t =
     (jget pub source = Some t \<or> (\<exists>j<length rs. r_phase (rs ! j) = Announcing \<and> r_previous (rs ! j) = Some t))"

definition owned_ok :: "bool \<Rightarrow> media list \<Rightarrow> (media_source, nat) jsmap \<Rightarrow> replacement list \<Rightarrow> bool" where
  "owned_ok gone ms pub rs \<longleftrightarrow>
     (\<forall>i t. i < length rs \<longrightarrow> r_phase (rs ! i) = Announcing \<or> r_phase (rs ! i) = Settled \<longrightarrow> r_source (rs ! i) \<noteq> Screen \<longrightarrow>
        r_track (rs ! i) = Some t \<longrightarrow> t < length ms \<longrightarrow> live (ms ! t) \<longrightarrow> listed_track pub rs (r_source (rs ! i)) t) \<and>
     (\<forall>i. i < length rs \<longrightarrow> open_replacement (rs ! i) \<longrightarrow> r_source (rs ! i) \<noteq> Screen \<longrightarrow> \<not> gone \<longrightarrow>
        r_previous (rs ! i) = jget pub (r_source (rs ! i))) \<and>
     (\<forall>i j. i < length rs \<longrightarrow> j < length rs \<longrightarrow> i \<noteq> j \<longrightarrow> open_replacement (rs ! i) \<longrightarrow> open_replacement (rs ! j) \<longrightarrow>
        r_source (rs ! i) \<noteq> r_source (rs ! j)) \<and>
     (\<forall>i t. i < length rs \<longrightarrow> r_phase (rs ! i) = Dropped \<longrightarrow> r_track (rs ! i) = Some t \<longrightarrow> t < length ms \<longrightarrow> \<not> live (ms ! t)) \<and>
     (gone \<longrightarrow> pub = [])"

definition owned_inv :: "local_tracks \<Rightarrow> bool" where
  "owned_inv s = owned_ok (locals_disposed s) (medias s) (published s) (cores s)"

lemma owned_okD:
  assumes "owned_ok gone ms pub rs"
  shows "i < length rs \<Longrightarrow> r_phase (rs ! i) = Announcing \<or> r_phase (rs ! i) = Settled \<Longrightarrow> r_source (rs ! i) \<noteq> Screen \<Longrightarrow>
      r_track (rs ! i) = Some t \<Longrightarrow> t < length ms \<Longrightarrow> live (ms ! t) \<Longrightarrow> listed_track pub rs (r_source (rs ! i)) t"
    "i < length rs \<Longrightarrow> open_replacement (rs ! i) \<Longrightarrow> r_source (rs ! i) \<noteq> Screen \<Longrightarrow> \<not> gone \<Longrightarrow>
      r_previous (rs ! i) = jget pub (r_source (rs ! i))"
    "i < length rs \<Longrightarrow> j < length rs \<Longrightarrow> i \<noteq> j \<Longrightarrow> open_replacement (rs ! i) \<Longrightarrow> open_replacement (rs ! j) \<Longrightarrow>
      r_source (rs ! i) \<noteq> r_source (rs ! j)"
    "i < length rs \<Longrightarrow> r_phase (rs ! i) = Dropped \<Longrightarrow> r_track (rs ! i) = Some t \<Longrightarrow> t < length ms \<Longrightarrow> \<not> live (ms ! t)"
    "gone \<Longrightarrow> pub = []"
  using assms unfolding owned_ok_def by blast+

text \<open>
  The general step: the medias only lose life, one replacement changes its phase, and whatever
  loses its place in the table of published tracks is held by an announcement or has ended.
\<close>

lemma owned_ok_step:
  assumes ok: "owned_ok gone ms pub rs" and i: "i < length rs"
    and len: "length ms' = length ms" and dead: "\<And>t. t < length ms \<Longrightarrow> live (ms' ! t) \<Longrightarrow> live (ms ! t)"
    and phases: "open_replacement ((rs ! i)\<lparr>r_phase := ph\<rparr>) \<Longrightarrow> open_replacement (rs ! i)"
    and keeps: "\<And>source t. source \<noteq> Screen \<Longrightarrow> listed_track pub rs source t \<Longrightarrow> t < length ms \<Longrightarrow> live (ms' ! t) \<Longrightarrow>
        listed_track pub' (rs[i := (rs ! i)\<lparr>r_phase := ph\<rparr>]) source t"
    and arrives: "\<And>t. ph = Announcing \<or> ph = Settled \<Longrightarrow> r_source (rs ! i) \<noteq> Screen \<Longrightarrow> r_track (rs ! i) = Some t \<Longrightarrow> t < length ms \<Longrightarrow>
        live (ms' ! t) \<Longrightarrow> listed_track pub' (rs[i := (rs ! i)\<lparr>r_phase := ph\<rparr>]) (r_source (rs ! i)) t"
    and others: "\<And>j. j < length rs \<Longrightarrow> open_replacement (rs[i := (rs ! i)\<lparr>r_phase := ph\<rparr>] ! j) \<Longrightarrow> r_source (rs ! j) \<noteq> Screen \<Longrightarrow>
        \<not> gone \<Longrightarrow> jget pub' (r_source (rs ! j)) = jget pub (r_source (rs ! j))"
    and dropped: "\<And>t. ph = Dropped \<Longrightarrow> r_track (rs ! i) = Some t \<Longrightarrow> t < length ms \<Longrightarrow> \<not> live (ms' ! t)"
    and gone: "gone \<Longrightarrow> pub' = []"
  shows "owned_ok gone ms' pub' (rs[i := (rs ! i)\<lparr>r_phase := ph\<rparr>])"
proof -
  note D = owned_okD [OF ok]
  let ?rs = "rs[i := (rs ! i)\<lparr>r_phase := ph\<rparr>]"
  have nth: "j \<noteq> i \<Longrightarrow> ?rs ! j = rs ! j" "?rs ! i = (rs ! i)\<lparr>r_phase := ph\<rparr>" for j using i by simp_all
  have fields: "r_source (?rs ! j) = r_source (rs ! j)" "r_track (?rs ! j) = r_track (rs ! j)" "r_previous (?rs ! j) = r_previous (rs ! j)" for j
    using nth by (cases "j = i"; simp)+
  have op: "open_replacement (rs ! j)" if "open_replacement (?rs ! j)" for j
    using that phases nth by (cases "j = i") simp_all
  have "listed_track pub' ?rs (r_source (rs ! j)) t"
    if "j < length rs" "r_phase (?rs ! j) = Announcing \<or> r_phase (?rs ! j) = Settled" "r_source (rs ! j) \<noteq> Screen"
      "r_track (rs ! j) = Some t" "t < length ms" "live (ms' ! t)" for j t
  proof (cases "j = i")
    case True
    with that nth(2) arrives [of t] show ?thesis by simp
  next
    case False
    with that nth(1) D(1) [of j t] dead keeps show ?thesis by simp
  qed
  moreover have "r_previous (rs ! j) = jget pub' (r_source (rs ! j))"
    if "j < length rs" "open_replacement (?rs ! j)" "r_source (rs ! j) \<noteq> Screen" "\<not> gone" for j
    using D(2) [OF that(1) op [OF that(2)] that(3,4)] others [OF that] by simp
  moreover have "r_source (rs ! j) \<noteq> r_source (rs ! l)"
    if "j < length rs" "l < length rs" "j \<noteq> l" "open_replacement (?rs ! j)" "open_replacement (?rs ! l)" for j l
    using D(3) [OF that(1-3) op [OF that(4)] op [OF that(5)]] .
  moreover have "\<not> live (ms' ! t)"
    if "j < length rs" "r_phase (?rs ! j) = Dropped" "r_track (rs ! j) = Some t" "t < length ms" for j t
  proof (cases "j = i")
    case True
    with that nth(2) dropped [of t] show ?thesis by simp
  next
    case False
    with that nth(1) D(4) [of j t] dead [of t] show ?thesis by auto
  qed
  ultimately show ?thesis using gone by (simp add: owned_ok_def fields len)
qed

lemma listed_phase:
  assumes "listed_track pub rs source t" "r_phase (rs ! i) = Announcing \<Longrightarrow> ph = Announcing"
  shows "listed_track pub (rs[i := (rs ! i)\<lparr>r_phase := ph\<rparr>]) source t"
proof (cases "jget pub source = Some t")
  case False
  then obtain j where j: "j < length rs" "r_phase (rs ! j) = Announcing" "r_previous (rs ! j) = Some t"
    using assms(1) by (auto simp: listed_track_def)
  then have "r_phase (rs[i := (rs ! i)\<lparr>r_phase := ph\<rparr>] ! j) = Announcing \<and> r_previous (rs[i := (rs ! i)\<lparr>r_phase := ph\<rparr>] ! j) = Some t"
    using assms(2) by (cases "i = j") simp_all
  with j(1) show ?thesis unfolding listed_track_def by (metis length_list_update)
qed (simp add: listed_track_def)

lemma live_stop_track: "t < length (medias s) \<Longrightarrow> live (medias (stop_track x s) ! t) \<longleftrightarrow> live (medias s ! t) \<and> x \<noteq> Some t"
  by (simp add: stop_track_nth)

lemma owned_inv_fails:
  assumes "owned_inv s" "i < length (replacements s)"
  shows "owned_inv (replace_fails i s)"
proof (cases "open_replacement (replacements s ! i)")
  case True
  note ok = assms(1) [unfolded owned_inv_def] and part = replace_fails_part [OF assms(2) True]
  let ?ms = "medias (if locals_disposed s then stop_track (r_track (replacements s ! i)) s else s)"
  have i: "i < length (cores s)" "r_phase (cores s ! i) \<noteq> Announcing" "r_track (cores s ! i) = r_track (replacements s ! i)"
    using assms(2) True by (auto simp: open_replacement_def)
  have "owned_ok (locals_disposed s) ?ms (published s) ((cores s)[i := (cores s ! i)\<lparr>r_phase := failed_phase s\<rparr>])"
  proof (rule owned_ok_step [OF ok i(1)])
    fix t assume "failed_phase s = Dropped" "r_track (cores s ! i) = Some t" "t < length (medias s)"
    then show "\<not> live (?ms ! t)" using i(3) by (simp add: failed_phase_def live_stop_track split: if_splits)
  next
    fix source t assume "listed_track (published s) (cores s) source t"
    then show "listed_track (published s) ((cores s)[i := (cores s ! i)\<lparr>r_phase := failed_phase s\<rparr>]) source t"
      by (rule listed_phase) (use i(2) in simp)
  qed (use owned_okD(5) [OF ok] in \<open>auto simp: live_stop_track failed_phase_def open_replacement_def split: if_splits\<close>)
  then show ?thesis using part by (simp add: owned_inv_def track_part_def)
next
  case False
  with assms(1) show ?thesis by (simp add: replace_fails_closed)
qed

lemma owned_inv_senders:
  assumes "owned_inv s" "i < length (replacements s)" "open_replacement (replacements s ! i)"
  shows "owned_inv (replace_senders i s)"
proof -
  note ok = assms(1) [unfolded owned_inv_def]
  have i: "i < length (cores s)" "open_replacement (cores s ! i)" "r_phase (cores s ! i) \<noteq> Announcing"
    using assms(2,3) by (auto simp: open_replacement_def)
  have "owned_ok (locals_disposed s) (medias s) (published s) ((cores s)[i := (cores s ! i)\<lparr>r_phase := Replacing\<rparr>])"
  proof (rule owned_ok_step [OF ok i(1)])
    fix source t assume "listed_track (published s) (cores s) source t"
    then show "listed_track (published s) ((cores s)[i := (cores s ! i)\<lparr>r_phase := Replacing\<rparr>]) source t"
      by (rule listed_phase) (use i(3) in simp)
  qed (use owned_okD(5) [OF ok] i(2) in simp_all)
  then show ?thesis
    using replace_senders_part [of i s] by (simp add: owned_inv_def track_part_eq cores_set_phase)
qed

lemma owned_inv_resumes:
  assumes "owned_inv s" "i < length (replacements s)"
  shows "owned_inv (replace_resumes i s)"
proof (cases "r_phase (replacements s ! i) = Replacing \<and> r_outstanding (replacements s ! i) = [] \<and> \<not> locals_disposed s")
  case True
  note ok = assms(1) [unfolded owned_inv_def]
  let ?r = "replacements s ! i" and ?rs = "(cores s)[i := (cores s ! i)\<lparr>r_phase := Announcing\<rparr>]"
  let ?pub = "case r_track ?r of None \<Rightarrow> jdel (published s) (r_source ?r) | Some t \<Rightarrow> jset (published s) (r_source ?r) t"
  have i: "i < length (cores s)" "open_replacement (cores s ! i)" "r_source (cores s ! i) = r_source ?r"
      "r_track (cores s ! i) = r_track ?r" "r_previous (cores s ! i) = r_previous ?r"
    using assms(2) True by (simp_all add: open_replacement_def)
  have elsewhere: "jget ?pub source = jget (published s) source" if "source \<noteq> r_source ?r" for source
    using that by (simp split: option.split)
  have "owned_ok (locals_disposed s) (medias s) ?pub ?rs"
  proof (rule owned_ok_step [OF ok i(1)])
    fix source t assume t: "source \<noteq> Screen" "listed_track (published s) (cores s) source t"
    have old: "listed_track (published s) ?rs source t" by (rule listed_phase [OF t(2)]) simp
    show "listed_track ?pub ?rs source t"
    proof (cases "source = r_source ?r \<and> jget (published s) source = Some t")
      case here: True
      have "r_previous ?r = jget (published s) source"
        using owned_okD(2) [OF ok i(1,2)] i(3,5) t(1) here True by simp
      from trans [OF this conjunct2 [OF here]] i(1,5)
      have "r_previous (?rs ! i) = Some t" "r_phase (?rs ! i) = Announcing" by simp_all
      then show ?thesis using i(1) unfolding listed_track_def by (metis length_list_update)
    next
      case here: False
      show ?thesis
      proof (cases "jget (published s) source = Some t")
        case True
        with here elsewhere [of source] show ?thesis unfolding listed_track_def by metis
      next
        case False
        with old show ?thesis unfolding listed_track_def by blast
      qed
    qed
  next
    fix t assume "r_track (cores s ! i) = Some t"
    then show "listed_track ?pub ?rs (r_source (cores s ! i)) t" using i(3,4) by (simp add: listed_track_def)
  next
    fix j assume j: "j < length (cores s)" "open_replacement (?rs ! j)"
    then have "j \<noteq> i" using i(1) by (auto simp: open_replacement_def)
    with j owned_okD(3) [OF ok i(1) j(1)] i(2,3) have "r_source (cores s ! j) \<noteq> r_source ?r" by auto
    then show "jget ?pub (r_source (cores s ! j)) = jget (published s) (r_source (cores s ! j))" by (rule elsewhere)
  qed (use True in \<open>auto simp: open_replacement_def\<close>)
  then show ?thesis
    using publish_part [OF assms(2)] True by (simp add: owned_inv_def track_part_def replace_resumes_def Let_def)
next
  case False
  with assms owned_inv_fails [OF assms] show ?thesis by (auto simp: replace_resumes_def Let_def)
qed

lemma owned_inv_announced:
  assumes "owned_inv s" "i < length (replacements s)"
  shows "owned_inv (announced i ok s)"
proof (cases "r_phase (replacements s ! i) = Announcing")
  case True
  note own = assms(1) [unfolded owned_inv_def]
  let ?r = "replacements s ! i" and ?rs = "(cores s)[i := (cores s ! i)\<lparr>r_phase := Settled\<rparr>]"
  have i: "i < length (cores s)" "r_phase (cores s ! i) = Announcing" "r_previous (cores s ! i) = r_previous ?r"
    using assms(2) True by simp_all
  have still: "listed_track (published s) ?rs source t"
    if l: "listed_track (published s) (cores s) source t" "r_previous ?r \<noteq> Some t" for source t
  proof (cases "jget (published s) source = Some t")
    case False
    then obtain j where j: "j < length (cores s)" "r_phase (cores s ! j) = Announcing" "r_previous (cores s ! j) = Some t"
      using l(1) by (auto simp: listed_track_def)
    then have "j \<noteq> i" using i(3) l(2) by auto
    with j show ?thesis unfolding listed_track_def by (metis length_list_update nth_list_update_neq)
  qed (simp add: listed_track_def)
  have "owned_ok (locals_disposed s) (medias (stop_track (r_previous ?r) s)) (published s) ?rs"
  proof (rule owned_ok_step [OF own i(1)])
    fix t assume t: "r_source (cores s ! i) \<noteq> Screen" "r_track (cores s ! i) = Some t" "t < length (medias s)"
      "live (medias (stop_track (r_previous ?r) s) ! t)"
    then show "listed_track (published s) ?rs (r_source (cores s ! i)) t"
      using owned_okD(1) [OF own i(1) disjI1 [OF i(2)] t(1,2,3)] by (intro still) (simp_all add: live_stop_track)
  qed (use owned_okD(5) [OF own] still in \<open>auto simp: live_stop_track open_replacement_def\<close>)
  then show ?thesis using announced_part [OF assms(2) True, of ok] by (simp add: owned_inv_def track_part_def)
next
  case False
  with assms show ?thesis by (simp add: announced_def Let_def)
qed

lemma owned_inv_part: "owned_inv s \<Longrightarrow> track_part s' = track_part s \<Longrightarrow> owned_inv s'"
  by (simp add: owned_inv_def track_part_eq)

lemma owned_inv_settles:
  assumes "owned_inv s" "i < length (replacements s)"
  shows "owned_inv (sender_settles i k ok s)"
proof -
  define s1 where "s1 = set_replacement i (\<lambda>r. r\<lparr>r_outstanding := jdel (r_outstanding r) k\<rparr>) s"
  have part: "track_part s1 = track_part s" "length (replacements s1) = length (replacements s)"
    unfolding s1_def track_part_eq by (simp_all add: cores_outstanding) (simp_all add: set_replacement_def)
  have inv: "owned_inv s1" by (rule owned_inv_part [OF assms(1) part(1)])
  have frame: "owned_inv (s1\<lparr>sender_tracks := w\<rparr>)" "owned_inv (s1\<lparr>sender_tracks := w, senders := v\<rparr>)" for w v
    by (rule owned_inv_part [OF inv]; simp add: track_part_eq cores_def)+
  show ?thesis
    using assms(1) inv owned_inv_fails [OF inv, of i] assms(2) part(2)
    by (auto simp: sender_settles_def Let_def s1_def [symmetric] frame split: option.split)
qed

lemma owned_ok_media:
  assumes ok: "owned_ok gone ms pub rs" and len: "length ms' = length ms"
    and dead: "\<And>t. t < length ms \<Longrightarrow> live (ms' ! t) \<Longrightarrow> live (ms ! t)"
    and keeps: "\<And>source t. source \<noteq> Screen \<Longrightarrow> jget pub source = Some t \<Longrightarrow> t < length ms \<Longrightarrow> live (ms' ! t) \<Longrightarrow> jget pub' source = Some t"
    and same: "\<And>source. source \<noteq> Screen \<Longrightarrow> \<not> gone' \<Longrightarrow> jget pub' source = jget pub source"
    and gone: "gone \<Longrightarrow> gone'" "gone' \<Longrightarrow> pub' = []"
  shows "owned_ok gone' ms' pub' rs"
proof -
  note D = owned_okD [OF ok]
  have "listed_track pub' rs (r_source (rs ! i)) t"
    if "i < length rs" "r_phase (rs ! i) = Announcing \<or> r_phase (rs ! i) = Settled" "r_source (rs ! i) \<noteq> Screen"
      "r_track (rs ! i) = Some t" "t < length ms" "live (ms' ! t)" for i t
    using D(1) [OF that(1-5) dead [OF that(5,6)]] keeps [OF that(3) _ that(5,6)] by (auto simp: listed_track_def)
  moreover have "r_previous (rs ! i) = jget pub' (r_source (rs ! i))"
    if "i < length rs" "open_replacement (rs ! i)" "r_source (rs ! i) \<noteq> Screen" "\<not> gone'" for i
    using D(2) [OF that(1-3)] that(4) gone(1) same [OF that(3,4)] by auto
  moreover have "\<not> live (ms' ! t)" if "i < length rs" "r_phase (rs ! i) = Dropped" "r_track (rs ! i) = Some t" "t < length ms" for i t
    using D(4) [OF that] dead [OF that(4)] by auto
  ultimately show ?thesis using D(3) gone(2) by (simp add: owned_ok_def len)
qed

lemma owned_inv_enable: "owned_inv s \<Longrightarrow> owned_inv (set_microphone_enabled b s)"
proof -
  assume inv: "owned_inv s"
  define f where "f = (\<lambda>s t. set_media t (\<lambda>m. m\<lparr>enabled := b\<rparr>) s)"
  have one: "locals_disposed (f s t) = locals_disposed s" "published (f s t) = published s" "cores (f s t) = cores s"
      "length (medias (f s t)) = length (medias s)" "j < length (medias s) \<Longrightarrow> live (medias (f s t) ! j) = live (medias s ! j)" for s t j
    by (simp_all add: f_def set_media_nth)
  have step: "owned_inv (f s t)" if "owned_inv s" for s t
    unfolding owned_inv_def one(1-3)
    by (rule owned_ok_media [OF that [unfolded owned_inv_def]]) (use that owned_okD(5) in \<open>auto simp: one owned_inv_def\<close>)
  have "owned_inv (s\<lparr>microphone_enabled := Some b\<rparr>)" using inv by (simp add: owned_inv_def cores_def)
  then have "owned_inv (foldl f (case jget (published s) Microphone of None \<Rightarrow> s\<lparr>microphone_enabled := Some b\<rparr>
      | Some t \<Rightarrow> f (s\<lparr>microphone_enabled := Some b\<rparr>) t) (pending_microphones s))"
    by (intro foldl_keeps [where P = owned_inv]) (auto intro: step split: option.split)
  then show ?thesis
    by (simp add: set_microphone_enabled_def Let_def f_def split: option.splits)
qed

lemma owned_inv_preview:
  assumes "owned_inv s" "\<not> (locals_disposed s \<and> track \<noteq> None)"
  shows "owned_inv (set_native_preview track s)"
proof -
  define s1 where "s1 = (if jget (published s) Screen \<noteq> None \<and> jget (published s) Screen \<noteq> track then stop_track (jget (published s) Screen) s else s)"
  let ?pub = "case track of None \<Rightarrow> jdel (published s) Screen | Some t \<Rightarrow> jset (published s) Screen t"
  have s1: "locals_disposed s1 = locals_disposed s" "published s1 = published s" "cores s1 = cores s" "length (medias s1) = length (medias s)"
      "t < length (medias s) \<Longrightarrow> live (medias s1 ! t) \<Longrightarrow> live (medias s ! t)" for t
    by (auto simp: s1_def live_stop_track split: if_splits)
  have "owned_ok (locals_disposed s) (medias s1) ?pub (cores s)"
    by (rule owned_ok_media [OF assms(1) [unfolded owned_inv_def]])
      (use s1(4,5) assms(2) owned_okD(5) [OF assms(1) [unfolded owned_inv_def]] in \<open>auto simp: jdel_absent split: option.splits\<close>)
  then have stored: "owned_inv (case track of Some t \<Rightarrow> s1\<lparr>published := jset (published s1) Screen t\<rparr>
      | None \<Rightarrow> s1\<lparr>published := jdel (published s1) Screen, senders := w\<rparr>)" for w
    using s1(1-3) by (cases track) (simp_all add: owned_inv_def cores_def)
  have tell: "owned_inv (tell e u) = owned_inv u" for e u
    using owned_inv_part [of u "tell e u"] owned_inv_part [of "tell e u" u] by auto
  show ?thesis unfolding set_native_preview_def Let_def s1_def [symmetric] tell by (rule stored)
qed

lemma owned_inv_join:
  assumes "owned_inv s"
  shows "owned_inv (join p native s)"
proof -
  have "owned_inv (s\<lparr>peers := w, senders := v\<rparr>)" for w v
    by (rule owned_inv_part [OF assms]) (simp add: track_part_eq cores_def)
  moreover have "owned_inv (add_sender k source t s)" if "owned_inv s" for k source t s
    by (rule owned_inv_part [OF that]) (simp add: track_part_eq cores_def add_sender_def)
  ultimately show ?thesis using assms
    by (auto simp: join_def Let_def intro!: foldl_keeps [where P = owned_inv])
qed

lemma owned_inv_leave: "owned_inv s \<Longrightarrow> owned_inv (leave p s)"
  by (erule owned_inv_part) (simp add: leave_def track_part_eq cores_def)

lemma owned_inv_dispose:
  assumes "owned_inv s"
  shows "owned_inv (dispose_locals s)"
proof (cases "locals_disposed s")
  case False
  note D = dispose_locals_part [OF False]
  have "owned_ok True (medias (dispose_locals s)) [] (cores s)"
    by (rule owned_ok_media [OF assms [unfolded owned_inv_def]])
      (use D(6,7) in \<open>auto split: if_splits dest: jget_in_jvals\<close>)
  then show ?thesis by (simp add: owned_inv_def D)
qed (use assms in \<open>simp add: dispose_locals_def\<close>)

definition idle_source :: "local_tracks \<Rightarrow> media_source \<Rightarrow> bool" where
  "idle_source s source = list_all (\<lambda>r. \<not> (open_replacement r \<and> r_source r = source)) (cores s)"

lemma owned_inv_replace:
  assumes "owned_inv s" "idle_source s source"
  shows "owned_inv (snd (replace_local_track source track cleanup s))"
proof -
  let ?r = "new_replacement source track cleanup s" and ?g = "gate_replacement source track s"
  define s1 where "s1 = begin_replacement source track cleanup s"
  have s1_def': "s1 = ?g\<lparr>replacements := replacements s @ [?r]\<rparr>" by (simp add: s1_def begin_replacement_def Let_def)
  note ok = assms(1) [unfolded owned_inv_def] and D = owned_okD [OF assms(1) [unfolded owned_inv_def]]
  have simps: "locals_disposed s1 = locals_disposed s" "published s1 = published s" "medias s1 = medias ?g" "cores s1 = cores s @ [rcore ?r]"
    by (simp_all add: s1_def' cores_def)
  have live: "live (medias ?g ! t) = live (medias s ! t)" if "t < length (medias s)" for t
    using that by (auto simp: gate_replacement_def Let_def set_media_nth split: option.split)
  have fields: "r_phase ?r = Stopping_camera" "r_source ?r = source" "r_previous ?r = jget (published s) source"
    by (simp_all add: new_replacement_def)
  have at: "(cores s @ [rcore ?r]) ! j = (if j < length (cores s) then cores s ! j else rcore ?r)" if "j < Suc (length (cores s))" for j
    using that by (simp add: nth_append)
  have listed: "listed_track (published s) (cores s @ [rcore ?r]) source' t" if l: "listed_track (published s) (cores s) source' t" for source' t
  proof (cases "jget (published s) source' = Some t")
    case False
    with l obtain j where "j < length (cores s)" "r_phase (cores s ! j) = Announcing" "r_previous (cores s ! j) = Some t"
      unfolding listed_track_def by blast
    then show ?thesis unfolding listed_track_def by (intro disjI2 exI [of _ j]) (simp add: nth_append)
  qed (simp add: listed_track_def)
  have "owned_ok (locals_disposed s) (medias ?g) (published s) (cores s @ [rcore ?r])"
    unfolding owned_ok_def
  proof (intro conjI allI impI)
    fix i t assume a: "i < length (cores s @ [rcore ?r])" "r_phase ((cores s @ [rcore ?r]) ! i) = Announcing \<or> r_phase ((cores s @ [rcore ?r]) ! i) = Settled"
      "r_source ((cores s @ [rcore ?r]) ! i) \<noteq> Screen" "r_track ((cores s @ [rcore ?r]) ! i) = Some t" "t < length (medias ?g)" "live (medias ?g ! t)"
    then have "i < length (cores s)" using fields(1) at [of i] by (auto split: if_splits)
    with a D(1) [of i t] live [of t] listed show "listed_track (published s) (cores s @ [rcore ?r]) (r_source ((cores s @ [rcore ?r]) ! i)) t"
      by (simp add: nth_append)
  next
    fix i assume a: "i < length (cores s @ [rcore ?r])" "open_replacement ((cores s @ [rcore ?r]) ! i)"
      "r_source ((cores s @ [rcore ?r]) ! i) \<noteq> Screen" "\<not> locals_disposed s"
    show "r_previous ((cores s @ [rcore ?r]) ! i) = jget (published s) (r_source ((cores s @ [rcore ?r]) ! i))"
    proof (cases "i < length (cores s)")
      case True
      with a D(2) [of i] show ?thesis by (simp add: nth_append)
    next
      case False
      with a(1) at [of i] fields show ?thesis by simp
    qed
  next
    fix i j assume a: "i < length (cores s @ [rcore ?r])" "j < length (cores s @ [rcore ?r])" "i \<noteq> j"
      "open_replacement ((cores s @ [rcore ?r]) ! i)" "open_replacement ((cores s @ [rcore ?r]) ! j)"
    have idle: "r_source (cores s ! l) \<noteq> source" if "l < length (cores s)" "open_replacement (cores s ! l)" for l
      using assms(2) that by (auto simp: idle_source_def list_all_length)
    show "r_source ((cores s @ [rcore ?r]) ! i) \<noteq> r_source ((cores s @ [rcore ?r]) ! j)"
      using a at [of i] at [of j] idle [of i] idle [of j] D(3) [of i j] fields(2) by (auto split: if_splits)
  next
    fix i t assume a: "i < length (cores s @ [rcore ?r])" "r_phase ((cores s @ [rcore ?r]) ! i) = Dropped"
      "r_track ((cores s @ [rcore ?r]) ! i) = Some t" "t < length (medias ?g)"
    then have "i < length (cores s)" using fields(1) at [of i] by (auto split: if_splits)
    with a D(4) [of i t] live [of t] show "\<not> live (medias ?g ! t)" by (simp add: nth_append)
  qed (use D(5) in blast)
  then have inv: "owned_inv s1" by (simp add: owned_inv_def simps)
  have "owned_inv (replace_senders (length (replacements s)) s1)"
    by (rule owned_inv_senders [OF inv]) (simp_all add: s1_def' open_replacement_def fields)
  with inv assms(1) show ?thesis unfolding replace_local_track_def Let_def s1_def [symmetric] by simp
qed

text \<open>
  The schedule of the next guarantee: nobody starts to replace the track of a source, not even
  the end of the current track, while a replacement of that source has not been published, and
  a native preview comes only while the engine lives.
\<close>

fun serial :: "local_tracks \<Rightarrow> local_step \<Rightarrow> bool" where
  "serial s (Replace source track cleanup) = idle_source s source"
| "serial s (Track_ends source t) = idle_source s source"
| "serial s (Native_preview track) = (\<not> locals_disposed s \<or> track = None)"
| "serial s _ = True"

definition serial_step :: "local_tracks \<Rightarrow> local_step \<Rightarrow> local_tracks" where
  "serial_step s e = (if serial s e then do_local s e else s)"

lemma owned_inv_camera: "owned_inv s \<Longrightarrow> i < length (replacements s) \<Longrightarrow> owned_inv (camera_stopped i ok s)"
  by (simp add: camera_stopped_def owned_inv_senders owned_inv_fails open_replacement_def)

lemma owned_inv_step: "owned_inv s \<Longrightarrow> owned_inv (serial_step s e)"
  by (cases e) (auto simp: serial_step_def owned_inv_replace owned_inv_camera owned_inv_settles owned_inv_resumes owned_inv_announced
      owned_inv_enable track_ends_def owned_inv_preview owned_inv_join owned_inv_dispose owned_inv_leave)

interpretation ownership: event_machine serial_step owned_inv
  by unfold_locales (rule owned_inv_step)

lemma owned_inv_new [simp]: "owned_inv (no_local_tracks ms)"
  by (simp add: owned_inv_def owned_ok_def no_local_tracks_def cores_def)

text \<open>
  C19. No device stays open: when replacements of a source do not overlap and all have come
  to an end, every camera, microphone or system audio track the engine took is either the one
  it publishes or stopped; and once the engine is disposed it is stopped, however far its
  replacement had come.
\<close>

theorem no_device_stays_open:
  assumes "s = foldl serial_step (no_local_tracks ms) es"
    and "list_all (\<lambda>r. r_phase r \<in> {Settled, Handed_back, Dropped}) (replacements s)"
    and "i < length (replacements s)" "r_source (replacements s ! i) \<noteq> Screen" "r_phase (replacements s ! i) \<noteq> Handed_back"
    and "r_track (replacements s ! i) = Some t" "t < length (medias s)" "live (medias s ! t)"
  shows "jget (published s) (r_source (replacements s ! i)) = Some t \<and> \<not> locals_disposed s"
proof -
  have inv: "owned_ok (locals_disposed s) (medias s) (published s) (cores s)"
    using ownership.run_inv [OF owned_inv_new, of ms es] by (simp add: assms(1) owned_inv_def)
  note D = owned_okD [OF inv]
  have i: "i < length (cores s)" "cores s ! i = rcore (replacements s ! i)" using assms(3) by simp_all
  have "r_phase (replacements s ! i) \<noteq> Dropped" using D(4) [OF i(1), of t] assms(6-8) i(2) by auto
  then have "r_phase (replacements s ! i) = Settled" using assms(2,3,5) by (auto simp: list_all_length)
  then have "listed_track (published s) (cores s) (r_source (replacements s ! i)) t"
    using D(1) [OF i(1), of t] assms(4,6-8) i(2) by simp
  moreover have "r_phase (cores s ! j) \<noteq> Announcing" if "j < length (cores s)" for j
    using assms(2) that by (auto simp: list_all_length)
  ultimately have listed: "jget (published s) (r_source (replacements s ! i)) = Some t" by (auto simp: listed_track_def)
  with D(5) show ?thesis by auto
qed

theorem no_device_stays_open_witness:
  "jget (published (foldl serial_step (no_local_tracks two_microphones) muted_switch)) Microphone = Some 1"
proof -
  let ?s = "foldl serial_step (no_local_tracks two_microphones) muted_switch"
  have eval: "replacements ?s =
      [\<lparr>r_source = Microphone, r_track = Some 0, r_previous = None, r_previous_cleanup = None, r_cleanup = None,
        r_phase = Settled, r_outstanding = []\<rparr>,
       \<lparr>r_source = Microphone, r_track = Some 1, r_previous = Some 0, r_previous_cleanup = None, r_cleanup = None,
        r_phase = Settled, r_outstanding = []\<rparr>]"
    "medias ?s = [\<lparr>is_audio = True, enabled = False, live = False\<rparr>, \<lparr>is_audio = True, enabled = False, live = True\<rparr>]"
    by (simp_all add: muted_switch_def two_microphones_def serial_step_def idle_source_def local_eval numeral_2_eq_2)
  have "list_all (\<lambda>r. r_phase r \<in> {Settled, Handed_back, Dropped}) (replacements ?s)" by (simp add: eval)
  from no_device_stays_open [OF refl this, of 1 1] show ?thesis by (simp add: eval)
qed

section \<open>What overlapping operations do\<close>

text \<open>
  Somebody who joins while a track is being replaced gets the track that is about to be
  stopped, and keeps it: the replacement has already listed the senders it will change.
\<close>

theorem joining_during_switch_is_silent:
  "let s = foldl do_local (no_local_tracks two_microphones)
       [Replace Microphone (Some 0) None, Resume 0, Announced 0 True, Join ''b'' False,
        Replace Microphone (Some 1) None, Join ''c'' False, Sender_settles 1 0 True, Resume 1, Announced 1 True]
   in sender_tracks s = [Some 1, Some 0] \<and> jget (published s) Microphone = Some 1 \<and>
      live (medias s ! 1) \<and> \<not> live (medias s ! 0) \<and> list_all (\<lambda>r. r_phase r = Settled \<and> r_outstanding r = []) (replacements s)"
  by (simp add: two_microphones_def local_eval numeral_2_eq_2 Let_def)

text \<open>
  When the old track ends while its successor is being put in place, the successor is
  published and at once taken off again, and nobody stops it.
\<close>

theorem ended_track_removes_successor:
  "let s = foldl do_local (no_local_tracks two_microphones)
       [Replace Microphone (Some 0) None, Resume 0, Announced 0 True, Join ''b'' False,
        Replace Microphone (Some 1) None, Track_ends Microphone 0, Sender_settles 1 0 True, Sender_settles 2 0 True,
        Resume 1, Resume 2, Announced 1 True, Announced 2 True]
   in published s = [] \<and> sender_tracks s = [None] \<and> live (medias s ! 1)"
  by (simp add: two_microphones_def local_eval track_ends_def numeral_2_eq_2 Let_def)

end

