(* ===== verification/Negotiation.thy ===== *)
theory Negotiation
  imports Prelude
begin

text \<open>
  The negotiation of \<open>MediaEngine\<close> (\<open>media/engine.ts\<close>) with one participant: the queue of
  his signals, \<open>handleNormalSignal\<close>, \<open>negotiate\<close>, the offers that are sent again
  (\<open>watchOffer\<close>), and joining and leaving.

  A \<open>Peer\<close> object with its \<open>RTCPeerConnection\<close> is a number. The connection has the session
  descriptions and the signaling state of the WebRTC standard: its operations run one at a
  time in the order they were called, an implicit \<open>setLocalDescription\<close> makes an offer or the
  answer that is due, a remote offer rolls an own one back, an operation that fails changes
  nothing, and closing the connection leaves pending operations without an answer. Every
  await is a phase of its function, and every answer an event. A description is a number with
  its kind; \<open>sent\<close> are the signals handed to the signaling connection.
\<close>

section \<open>Connections\<close>

datatype description_kind = Offer | Answer

record description =
  kind :: description_kind
  sdp :: nat

datatype signaling_state = Stable | Have_local_offer | Have_remote_offer | Closed

record candidate =
  candidate_line :: nat
  relay_route :: bool

datatype rtc_operation = Set_local | Set_remote description | Add_candidate candidate

datatype owner = By_negotiation | By_handler

datatype negotiation_phase = Setting_local | Limiting_offer | Sending_offer | Sending_offer_metadata

record connection =
  signaling :: signaling_state
  current_local :: "description option"
  pending_local :: "description option"
  current_remote :: "description option"
  pending_remote :: "description option"
  operations :: "(rtc_operation \<times> owner) list"
  making_offer :: bool
  ignore_offer :: bool
  setting_answer :: bool
  pending_candidates :: "candidate list"
  negotiation :: "negotiation_phase option"
  offer_timer :: bool
  resending :: nat

definition new_connection :: connection where
  "new_connection = \<lparr>signaling = Stable, current_local = None, pending_local = None, current_remote = None, pending_remote = None,
     operations = [], making_offer = False, ignore_offer = False, setting_answer = False, pending_candidates = [],
     negotiation = None, offer_timer = False, resending = 0\<rparr>"

definition local_description :: "connection \<Rightarrow> description option" where
  "local_description c = (case pending_local c of None \<Rightarrow> current_local c | d \<Rightarrow> d)"

definition remote_description :: "connection \<Rightarrow> description option" where
  "remote_description c = (case pending_remote c of None \<Rightarrow> current_remote c | d \<Rightarrow> d)"

text \<open>An operation of the connection, with the number of the description it makes; \<open>None\<close> is a failure.\<close>

fun run_operation :: "rtc_operation \<Rightarrow> nat \<Rightarrow> connection \<Rightarrow> connection option" where
  "run_operation Set_local n c =
     (case signaling c of
        Have_remote_offer \<Rightarrow> Some (c\<lparr>signaling := Stable, current_local := Some \<lparr>kind = Answer, sdp = n\<rparr>, pending_local := None,
          current_remote := remote_description c, pending_remote := None\<rparr>)
      | Closed \<Rightarrow> None
      | _ \<Rightarrow> Some (c\<lparr>signaling := Have_local_offer, pending_local := Some \<lparr>kind = Offer, sdp = n\<rparr>\<rparr>))"
| "run_operation (Set_remote d) n c =
     (if signaling c = Closed then None
      else if kind d = Offer then Some (c\<lparr>signaling := Have_remote_offer, pending_local := None, pending_remote := Some d\<rparr>)
      else if signaling c = Have_local_offer
        then Some (c\<lparr>signaling := Stable, current_local := pending_local c, pending_local := None, current_remote := Some d, pending_remote := None\<rparr>)
      else None)"
| "run_operation (Add_candidate a) n c = (if remote_description c = None \<or> signaling c = Closed then None else Some c)"

section \<open>A participant\<close>

datatype media_signal = Description description | Candidate candidate

datatype handler_phase =
    Adding_candidate
  | Setting_remote description
  | Draining description "candidate list"
  | Answering
  | Sending_answer
  | Sending_answer_metadata
  | Limiting_answer

datatype sent_signal =
    Sent_offer description
  | Sent_answer description
  | Sent_metadata
  | Raised string

record participant =
  polite :: bool
  direct_only :: bool
  engine_disposed :: bool
  connections :: "connection list"
  here :: "nat option"
  inbox :: "media_signal list"
  handler :: "(nat \<times> handler_phase) option"
  descriptions_made :: nat
  sent :: "sent_signal list"

definition new_participant :: "bool \<Rightarrow> bool \<Rightarrow> participant" where
  "new_participant p direct = \<lparr>polite = p, direct_only = direct, engine_disposed = False, connections = [], here = None,
     inbox = [], handler = None, descriptions_made = 0, sent = []\<rparr>"

definition pc :: "participant \<Rightarrow> nat \<Rightarrow> connection" where
  "pc s k = connections s ! k"

definition set_pc :: "nat \<Rightarrow> (connection \<Rightarrow> connection) \<Rightarrow> participant \<Rightarrow> participant" where
  "set_pc k f s = s\<lparr>connections := (connections s)[k := f (connections s ! k)]\<rparr>"

definition say :: "sent_signal \<Rightarrow> participant \<Rightarrow> participant" where
  "say m s = s\<lparr>sent := sent s @ [m]\<rparr>"

definition call_operation :: "nat \<Rightarrow> rtc_operation \<Rightarrow> owner \<Rightarrow> participant \<Rightarrow> participant" where
  "call_operation k op who = set_pc k (\<lambda>c. c\<lparr>operations := operations c @ [(op, who)]\<rparr>)"

section \<open>Offers\<close>

definition watch_offer :: "nat \<Rightarrow> participant \<Rightarrow> participant" where
  "watch_offer k = set_pc k (\<lambda>c. c\<lparr>offer_timer := True\<rparr>)"

text \<open>The callback of the timer, and what follows the answer of the signaling connection.\<close>

definition offer_timer_fires :: "nat \<Rightarrow> participant \<Rightarrow> participant" where
  "offer_timer_fires k s =
     (if \<not> offer_timer (pc s k) then s
      else
        let s = set_pc k (\<lambda>c. c\<lparr>offer_timer := False\<rparr>) s
        in if engine_disposed s \<or> here s \<noteq> Some k then s
           else case local_description (pc s k) of
               None \<Rightarrow> s
             | Some d \<Rightarrow>
                 if signaling (pc s k) \<noteq> Have_local_offer \<or> kind d \<noteq> Offer then s
                 else set_pc k (\<lambda>c. c\<lparr>resending := Suc (resending c)\<rparr>) (say (Sent_offer d) s))"

definition resend_settles :: "nat \<Rightarrow> participant \<Rightarrow> participant" where
  "resend_settles k s =
     (if resending (pc s k) = 0 then s
      else watch_offer k (set_pc k (\<lambda>c. c\<lparr>resending := resending c - 1\<rparr>) s))"

definition negotiate :: "nat \<Rightarrow> participant \<Rightarrow> participant" where
  "negotiate k s =
     (if (polite s \<and> remote_description (pc s k) = None) \<or> making_offer (pc s k) \<or> signaling (pc s k) \<noteq> Stable then s
      else call_operation k Set_local By_negotiation (set_pc k (\<lambda>c. c\<lparr>making_offer := True, negotiation := Some Setting_local\<rparr>) s))"

text \<open>The \<open>finally\<close> of \<open>negotiate\<close>, after the \<open>catch\<close> if there was an error.\<close>

definition end_negotiation :: "nat \<Rightarrow> bool \<Rightarrow> participant \<Rightarrow> participant" where
  "end_negotiation k failed s =
     (let s = (if failed then say (Raised ''negotiate'') s else s)
      in set_pc k (\<lambda>c. c\<lparr>making_offer := False, negotiation := None\<rparr>) s)"

text \<open>The ceilings of the senders are applied, or the signaling connection has answered.\<close>

definition continue_negotiation :: "nat \<Rightarrow> bool \<Rightarrow> participant \<Rightarrow> participant" where
  "continue_negotiation k ok s =
     (case negotiation (pc s k) of
        Some Limiting_offer \<Rightarrow>
          (case local_description (pc s k) of
             None \<Rightarrow> end_negotiation k True s
           | Some d \<Rightarrow> set_pc k (\<lambda>c. c\<lparr>negotiation := Some Sending_offer\<rparr>) (say (Sent_offer d) s))
      | Some Sending_offer \<Rightarrow>
          if ok then set_pc k (\<lambda>c. c\<lparr>negotiation := Some Sending_offer_metadata\<rparr>) (say Sent_metadata s)
          else end_negotiation k True s
      | Some Sending_offer_metadata \<Rightarrow> end_negotiation k (\<not> ok) s
      | _ \<Rightarrow> s)"

section \<open>Joining and leaving\<close>

definition add_participant :: "participant \<Rightarrow> participant" where
  "add_participant s =
     (if here s \<noteq> None then s
      else s\<lparr>here := Some (length (connections s)), connections := connections s @ [new_connection]\<rparr>)"

text \<open>The microtask of \<open>addPeer\<close>.\<close>

definition first_offer :: "nat \<Rightarrow> participant \<Rightarrow> participant" where
  "first_offer k s = (if \<not> polite s \<and> here s = Some k \<and> remote_description (pc s k) = None then negotiate k s else s)"

definition remove_participant :: "participant \<Rightarrow> participant" where
  "remove_participant s =
     (case here s of
        None \<Rightarrow> s
      | Some k \<Rightarrow> set_pc k (\<lambda>c. c\<lparr>offer_timer := False, signaling := Closed\<rparr>) (s\<lparr>here := None\<rparr>))"

definition dispose_participant :: "participant \<Rightarrow> participant" where
  "dispose_participant s = remove_participant (s\<lparr>engine_disposed := True\<rparr>)"

section \<open>Signals\<close>

text \<open>\<open>handleSignal\<close> puts a signal at the end of the queue, unless the engine is disposed.\<close>

definition signal_arrives :: "media_signal \<Rightarrow> participant \<Rightarrow> participant" where
  "signal_arrives m s = (if engine_disposed s then say (Raised ''disposed'') s else s\<lparr>inbox := inbox s @ [m]\<rparr>)"

definition signal_fails :: "string \<Rightarrow> participant \<Rightarrow> participant" where
  "signal_fails what s = (say (Raised what) s)\<lparr>handler := None\<rparr>"

definition handle_candidate :: "nat \<Rightarrow> candidate \<Rightarrow> participant \<Rightarrow> participant" where
  "handle_candidate k a s =
     (if direct_only s \<and> relay_route a then s
      else if remote_description (pc s k) = None
        then set_pc k (\<lambda>c. c\<lparr>pending_candidates := pending_candidates c @ [a]\<rparr>) s
      else (call_operation k (Add_candidate a) By_handler s)\<lparr>handler := Some (k, Adding_candidate)\<rparr>)"

definition handle_description :: "nat \<Rightarrow> description \<Rightarrow> participant \<Rightarrow> participant" where
  "handle_description k d s =
     (let ready = (\<not> making_offer (pc s k) \<and> (signaling (pc s k) = Stable \<or> setting_answer (pc s k)));
          collision = (kind d = Offer \<and> \<not> ready);
          s = set_pc k (\<lambda>c. c\<lparr>ignore_offer := \<not> polite s \<and> collision\<rparr>) s
      in if \<not> polite s \<and> collision then s
         else if kind d = Answer \<and> signaling (pc s k) \<noteq> Have_local_offer then s
         else
           let s = set_pc k (\<lambda>c. c\<lparr>setting_answer := (kind d = Answer)\<rparr>) s
           in (call_operation k (Set_remote d) By_handler s)\<lparr>handler := Some (k, Setting_remote d)\<rparr>)"

text \<open>The signal before has been handled, and the next one takes its turn.\<close>

definition next_signal :: "participant \<Rightarrow> participant" where
  "next_signal s =
     (if handler s \<noteq> None then s
      else case inbox s of
          [] \<Rightarrow> s
        | m # ms \<Rightarrow>
            let s = s\<lparr>inbox := ms\<rparr>
            in if engine_disposed s then say (Raised ''disposed'') s
               else
                 let s = add_participant s; k = the (here s)
                 in case m of Candidate a \<Rightarrow> handle_candidate k a s | Description d \<Rightarrow> handle_description k d s)"

text \<open>The candidates that were waiting, one after the other, and then the answer to an offer.\<close>

definition drain :: "nat \<Rightarrow> description \<Rightarrow> candidate list \<Rightarrow> participant \<Rightarrow> participant" where
  "drain k d as s =
     (case as of
        a # as \<Rightarrow> (call_operation k (Add_candidate a) By_handler s)\<lparr>handler := Some (k, Draining d as)\<rparr>
      | [] \<Rightarrow>
          if kind d = Offer then (call_operation k Set_local By_handler s)\<lparr>handler := Some (k, Answering)\<rparr>
          else s\<lparr>handler := Some (k, Limiting_answer)\<rparr>)"

definition continue_handler :: "nat \<Rightarrow> bool \<Rightarrow> participant \<Rightarrow> participant" where
  "continue_handler k ok s =
     (case handler s of
        Some (j, Adding_candidate) \<Rightarrow>
          if ok \<or> ignore_offer (pc s k) then s\<lparr>handler := None\<rparr> else signal_fails ''ice-candidate'' s
      | Some (j, Setting_remote d) \<Rightarrow>
          if \<not> ok then signal_fails ''description'' s
          else
            let waiting = pending_candidates (pc s k);
                s = set_pc k (\<lambda>c. c\<lparr>setting_answer := False, pending_candidates := []\<rparr>) s
            in drain k d waiting s
      | Some (j, Draining d as) \<Rightarrow> if ok then drain k d as s else signal_fails ''description'' s
      | Some (j, Answering) \<Rightarrow>
          if \<not> ok then signal_fails ''description'' s
          else (case local_description (pc s k) of
              None \<Rightarrow> signal_fails ''description'' s
            | Some d \<Rightarrow> (say (Sent_answer d) s)\<lparr>handler := Some (k, Sending_answer)\<rparr>)
      | _ \<Rightarrow> s)"

text \<open>The signaling connection has answered, or the ceilings of the senders are applied.\<close>

definition handler_proceeds :: "bool \<Rightarrow> participant \<Rightarrow> participant" where
  "handler_proceeds ok s =
     (case handler s of
        Some (k, Sending_answer) \<Rightarrow>
          if ok then (say Sent_metadata s)\<lparr>handler := Some (k, Sending_answer_metadata)\<rparr> else signal_fails ''description'' s
      | Some (k, Sending_answer_metadata) \<Rightarrow>
          if ok then s\<lparr>handler := Some (k, Limiting_answer)\<rparr> else signal_fails ''description'' s
      | Some (k, Limiting_answer) \<Rightarrow> s\<lparr>handler := None\<rparr>
      | _ \<Rightarrow> s)"

text \<open>
  The first operation of an open connection is done: it succeeds if the browser accepts it,
  and its function goes on.
\<close>

definition operation_done :: "nat \<Rightarrow> bool \<Rightarrow> participant \<Rightarrow> participant" where
  "operation_done k accepted s =
     (if signaling (pc s k) = Closed then s
      else case operations (pc s k) of
          [] \<Rightarrow> s
        | (op, who) # ops \<Rightarrow>
            let result = (if accepted then run_operation op (descriptions_made s) (pc s k) else None); ok = (result \<noteq> None);
                s = set_pc k (\<lambda>c. (nullish result c)\<lparr>operations := ops\<rparr>) (s\<lparr>descriptions_made := Suc (descriptions_made s)\<rparr>)
            in case who of
                 By_handler \<Rightarrow> continue_handler k ok s
               | By_negotiation \<Rightarrow>
                   if ok then set_pc k (\<lambda>c. c\<lparr>negotiation := Some Limiting_offer\<rparr>) (watch_offer k s) else end_negotiation k True s)"

datatype negotiation_event =
    Joins
  | Leaves
  | Disposes
  | First_offer nat
  | Negotiation_needed nat
  | Operation_done nat bool
  | Negotiation_proceeds nat bool
  | Offer_timer_fires nat
  | Resend_settles nat
  | Signal_arrives media_signal
  | Next_signal
  | Handler_proceeds bool

fun negotiation_step :: "participant \<Rightarrow> negotiation_event \<Rightarrow> participant" where
  "negotiation_step s Joins = (if engine_disposed s then s else add_participant s)"
| "negotiation_step s Leaves = remove_participant s"
| "negotiation_step s Disposes = dispose_participant s"
| "negotiation_step s (First_offer k) = (if k < length (connections s) then first_offer k s else s)"
| "negotiation_step s (Negotiation_needed k) = (if k < length (connections s) then negotiate k s else s)"
| "negotiation_step s (Operation_done k ok) = (if k < length (connections s) then operation_done k ok s else s)"
| "negotiation_step s (Negotiation_proceeds k ok) = (if k < length (connections s) then continue_negotiation k ok s else s)"
| "negotiation_step s (Offer_timer_fires k) = (if k < length (connections s) then offer_timer_fires k s else s)"
| "negotiation_step s (Resend_settles k) = (if k < length (connections s) then resend_settles k s else s)"
| "negotiation_step s (Signal_arrives m) = signal_arrives m s"
| "negotiation_step s Next_signal = next_signal s"
| "negotiation_step s (Handler_proceeds ok) = handler_proceeds ok s"

section \<open>An offer that is pending is not forgotten\<close>

text \<open>
  The operations in flight on a connection are at most one of the negotiation and the one the
  handler waits for, in any order: \<open>negotiate\<close> is also called while the browser works on a
  signal. So the answer that is due may be made by the negotiation, and the handler may then
  make an offer, which it sends as the answer.
\<close>

definition ops_of :: "owner \<Rightarrow> connection \<Rightarrow> (rtc_operation \<times> owner) list" where
  "ops_of who c = filter (\<lambda>e. snd e = who) (operations c)"

fun waits :: "handler_phase option \<Rightarrow> (rtc_operation \<times> owner) list \<Rightarrow> bool" where
  "waits (Some Adding_candidate) ops = (\<exists>a. ops = [(Add_candidate a, By_handler)])"
| "waits (Some (Setting_remote d)) ops = (ops = [(Set_remote d, By_handler)])"
| "waits (Some (Draining d as)) ops = (\<exists>a. ops = [(Add_candidate a, By_handler)])"
| "waits (Some Answering) ops = (ops = [(Set_local, By_handler)])"
| "waits _ ops = (ops = [])"

definition own_operation :: "connection \<Rightarrow> (rtc_operation \<times> owner) list" where
  "own_operation c = (if negotiation c = Some Setting_local then [(Set_local, By_negotiation)] else [])"

definition offer_noted :: "sent_signal list \<Rightarrow> connection \<Rightarrow> bool" where
  "offer_noted ms c = (\<exists>d. pending_local c = Some d \<and> kind d = Offer \<and>
     (offer_timer c \<or> 0 < resending c \<or> Sent_answer d \<in> set ms))"

definition connection_inv :: "connection \<Rightarrow> handler_phase option \<Rightarrow> sent_signal list \<Rightarrow> bool" where
  "connection_inv c ph ms =
     (signaling c = Closed \<or>
      ops_of By_negotiation c = own_operation c \<and> waits ph (ops_of By_handler c) \<and>
      (negotiation c = None \<longleftrightarrow> \<not> making_offer c) \<and>
      (signaling c = Have_local_offer \<longrightarrow> offer_noted ms c))"

definition phase_of :: "participant \<Rightarrow> nat \<Rightarrow> handler_phase option" where
  "phase_of s k = (case handler s of None \<Rightarrow> None | Some (j, ph) \<Rightarrow> if j = k then Some ph else None)"

definition negotiation_inv :: "participant \<Rightarrow> bool" where
  "negotiation_inv s \<longleftrightarrow>
     (\<forall>k<length (connections s). connection_inv (pc s k) (phase_of s k) (sent s) \<and>
        (signaling (pc s k) \<noteq> Closed \<longrightarrow> here s = Some k \<and> \<not> engine_disposed s)) \<and>
     (\<forall>k. here s = Some k \<longrightarrow> k < length (connections s)) \<and>
     (\<forall>k ph. handler s = Some (k, ph) \<longrightarrow> k < length (connections s))"

lemma negotiation_invD:
  assumes "negotiation_inv s"
  shows "k < length (connections s) \<Longrightarrow> connection_inv (pc s k) (phase_of s k) (sent s)"
    "k < length (connections s) \<Longrightarrow> signaling (pc s k) \<noteq> Closed \<Longrightarrow> here s = Some k \<and> \<not> engine_disposed s"
    "here s = Some k \<Longrightarrow> k < length (connections s)"
    "handler s = Some (k, ph) \<Longrightarrow> k < length (connections s)"
  using assms unfolding negotiation_inv_def by blast+

lemma connection_invD:
  assumes "connection_inv c ph ms" "signaling c \<noteq> Closed"
  shows "ops_of By_negotiation c = own_operation c" "waits ph (ops_of By_handler c)"
    "negotiation c = None \<longleftrightarrow> \<not> making_offer c" "signaling c = Have_local_offer \<Longrightarrow> offer_noted ms c"
  using assms unfolding connection_inv_def by blast+

lemma connection_inv_mono: "connection_inv c ph ms \<Longrightarrow> connection_inv c ph (ms @ ms')"
  by (auto simp: connection_inv_def offer_noted_def)

lemma set_pc_simps [simp]:
  "polite (set_pc k f s) = polite s" "direct_only (set_pc k f s) = direct_only s" "engine_disposed (set_pc k f s) = engine_disposed s"
  "length (connections (set_pc k f s)) = length (connections s)" "here (set_pc k f s) = here s" "inbox (set_pc k f s) = inbox s"
  "handler (set_pc k f s) = handler s" "descriptions_made (set_pc k f s) = descriptions_made s" "sent (set_pc k f s) = sent s"
  "k < length (connections s) \<Longrightarrow> pc (set_pc k f s) k = f (pc s k)"
  "j \<noteq> k \<Longrightarrow> pc (set_pc k f s) j = pc s j"
  by (simp_all add: set_pc_def pc_def)

lemma say_simps [simp]:
  "polite (say m s) = polite s" "direct_only (say m s) = direct_only s" "engine_disposed (say m s) = engine_disposed s"
  "connections (say m s) = connections s" "here (say m s) = here s" "inbox (say m s) = inbox s" "handler (say m s) = handler s"
  "descriptions_made (say m s) = descriptions_made s" "pc (say m s) k = pc s k" "sent (say m s) = sent s @ [m]"
  by (simp_all add: say_def pc_def)

text \<open>A step changes one connection, the phase of the handler and what was sent.\<close>

lemma negotiation_inv_step:
  assumes inv: "negotiation_inv s" and k: "k < length (connections s)"
    and same: "length (connections s') = length (connections s)" "here s' = here s" "engine_disposed s' = engine_disposed s"
      "\<And>j. j \<noteq> k \<Longrightarrow> pc s' j = pc s j"
    and alive: "signaling (pc s' k) \<noteq> Closed \<Longrightarrow> signaling (pc s k) \<noteq> Closed"
    and conn: "connection_inv (pc s' k) (phase_of s' k) (sent s')"
    and hand: "handler s' = handler s \<or> handler s' = None \<and> (\<exists>ph. handler s = Some (k, ph)) \<or> (\<exists>ph. handler s' = Some (k, ph) \<and> (handler s = None \<or> (\<exists>ph. handler s = Some (k, ph))))"
    and snt: "\<exists>ms. sent s' = sent s @ ms"
  shows "negotiation_inv s'"
proof -
  note D = negotiation_invD [OF inv]
  have other: "phase_of s' j = phase_of s j" if "j \<noteq> k" for j
    using hand that by (auto simp: phase_of_def)
  have A: "connection_inv (pc s' j) (phase_of s' j) (sent s') \<and> (signaling (pc s' j) \<noteq> Closed \<longrightarrow> here s' = Some j \<and> \<not> engine_disposed s')"
    if "j < length (connections s')" for j
  proof (cases "j = k")
    case True
    with conn alive D(2) [OF k] same show ?thesis by simp
  next
    case False
    have "connection_inv (pc s j) (phase_of s j) (sent s')"
      using D(1) [of j] snt that same(1) by (auto intro: connection_inv_mono)
    with D(2) [of j] that same other [OF False] False show ?thesis by simp
  qed
  have B: "j < length (connections s')" if "handler s' = Some (j, ph)" for j ph
  proof (cases "j = k")
    case False
    then have "handler s = Some (j, ph)" using hand that by auto
    from D(4) [OF this] same(1) show ?thesis by simp
  qed (use k same(1) in simp)
  have C: "j < length (connections s')" if "here s' = Some j" for j
    using D(3) [of j] that same(1,2) by simp
  show ?thesis unfolding negotiation_inv_def using A B C by blast
qed

lemma ops_of_fields: "operations c' = operations c \<Longrightarrow> ops_of who c' = ops_of who c"
  by (simp add: ops_of_def)

lemma ops_of_snoc:
  "operations c' = operations c @ [(op, who)] \<Longrightarrow> ops_of who' c' = ops_of who' c @ (if who = who' then [(op, who)] else [])"
  by (simp add: ops_of_def)

lemma own_fields: "negotiation c' = negotiation c \<Longrightarrow> own_operation c' = own_operation c"
  by (simp add: own_operation_def)

lemma connection_inv_fields:
  assumes "connection_inv c ph ms" "signaling c' = signaling c" "pending_local c' = pending_local c" "operations c' = operations c"
    "negotiation c' = negotiation c" "making_offer c' = making_offer c"
    "signaling c = Have_local_offer \<Longrightarrow> offer_timer c \<or> 0 < resending c \<Longrightarrow> offer_timer c' \<or> 0 < resending c'"
  shows "connection_inv c' ph ms"
  using assms unfolding connection_inv_def ops_of_fields [OF assms(4)] own_fields [OF assms(5)] offer_noted_def by auto

lemma handler_at: "handler s = Some (k, ph) \<Longrightarrow> phase_of s k = Some ph"
  by (simp add: phase_of_def)

lemma phase_of_simps [simp]:
  "phase_of (set_pc j f s) k = phase_of s k" "phase_of (say m s) k = phase_of s k"
  "phase_of (s\<lparr>handler := None\<rparr>) k = None" "phase_of (s\<lparr>handler := Some (j, ph)\<rparr>) k = (if j = k then Some ph else None)"
  by (simp_all add: phase_of_def)

text \<open>Steps that leave the descriptions and the operations of the connection alone.\<close>

lemma inv_fields_step:
  assumes "negotiation_inv s" "k < length (connections s)"
    and "\<And>c. signaling (f c) = signaling c" "\<And>c. pending_local (f c) = pending_local c" "\<And>c. operations (f c) = operations c"
      "\<And>c. negotiation (f c) = negotiation c" "\<And>c. making_offer (f c) = making_offer c"
      "signaling (pc s k) = Have_local_offer \<Longrightarrow> offer_timer (pc s k) \<or> 0 < resending (pc s k) \<Longrightarrow>
        offer_timer (f (pc s k)) \<or> 0 < resending (f (pc s k))"
  shows "negotiation_inv (set_pc k f s)"
proof (rule negotiation_inv_step [OF assms(1,2)])
  have "connection_inv (f (pc s k)) (phase_of s k) (sent s)"
    by (rule connection_inv_fields [OF negotiation_invD(1) [OF assms(1,2)] assms(3-8)])
  then show "connection_inv (pc (set_pc k f s) k) (phase_of (set_pc k f s) k) (sent (set_pc k f s))" using assms(2) by simp
qed (use assms(2,3) in simp_all)

lemma inv_say: "negotiation_inv s \<Longrightarrow> negotiation_inv (say m s)"
  unfolding negotiation_inv_def say_simps phase_of_simps using connection_inv_mono by blast

lemma inv_offer_timer:
  assumes "negotiation_inv s" "k < length (connections s)"
  shows "negotiation_inv (offer_timer_fires k s)"
proof (cases "offer_timer (pc s k) \<and> signaling (pc s k) = Have_local_offer")
  case True
  have live: "here s = Some k" "\<not> engine_disposed s" using negotiation_invD(2) [OF assms] True by simp_all
  obtain d where d: "pending_local (pc s k) = Some d" "kind d = Offer"
    using connection_invD(4) [OF negotiation_invD(1) [OF assms]] True by (auto simp: offer_noted_def)
  have "offer_timer_fires k s = set_pc k (\<lambda>c. c\<lparr>resending := Suc (resending c)\<rparr>) (say (Sent_offer d) (set_pc k (\<lambda>c. c\<lparr>offer_timer := False\<rparr>) s))"
    using True live d assms(2) by (simp add: offer_timer_fires_def Let_def local_description_def)
  also have "\<dots> = say (Sent_offer d) (set_pc k (\<lambda>c. c\<lparr>offer_timer := False, resending := Suc (resending c)\<rparr>) s)"
    using assms(2) by (simp add: set_pc_def say_def)
  finally show ?thesis using inv_fields_step [OF assms, of "\<lambda>c. c\<lparr>offer_timer := False, resending := Suc (resending c)\<rparr>"]
    by (simp add: inv_say)
next
  case False
  have "negotiation_inv (set_pc k (\<lambda>c. c\<lparr>offer_timer := False\<rparr>) s)" if "signaling (pc s k) \<noteq> Have_local_offer"
    by (rule inv_fields_step [OF assms]) (use that in simp_all)
  with False assms show ?thesis by (auto simp: offer_timer_fires_def Let_def split: option.split)
qed

lemma inv_watch: "negotiation_inv s \<Longrightarrow> k < length (connections s) \<Longrightarrow> negotiation_inv (watch_offer k s)"
  unfolding watch_offer_def by (rule inv_fields_step) simp_all

lemma inv_resend:
  assumes "negotiation_inv s" "k < length (connections s)"
  shows "negotiation_inv (resend_settles k s)"
proof -
  have "watch_offer k (set_pc k (\<lambda>c. c\<lparr>resending := resending c - 1\<rparr>) s) = set_pc k (\<lambda>c. c\<lparr>resending := resending c - 1, offer_timer := True\<rparr>) s"
    using assms(2) by (simp add: watch_offer_def set_pc_def)
  then show ?thesis
    using assms inv_fields_step [OF assms, of "\<lambda>c. c\<lparr>resending := resending c - 1, offer_timer := True\<rparr>"]
    by (simp add: resend_settles_def)
qed

lemma inv_negotiate:
  assumes "negotiation_inv s" "k < length (connections s)"
  shows "negotiation_inv (negotiate k s)"
proof (cases "(polite s \<and> remote_description (pc s k) = None) \<or> making_offer (pc s k) \<or> signaling (pc s k) \<noteq> Stable")
  case False
  let ?f = "\<lambda>c. c\<lparr>making_offer := True, negotiation := Some Setting_local, operations := operations c @ [(Set_local, By_negotiation)]\<rparr>"
  have "call_operation k Set_local By_negotiation (set_pc k (\<lambda>c. c\<lparr>making_offer := True, negotiation := Some Setting_local\<rparr>) s) = set_pc k ?f s"
    using assms(2) by (simp add: call_operation_def set_pc_def)
  with False have eq: "negotiate k s = set_pc k ?f s" by (simp only: negotiate_def if_False)
  have conn: "connection_inv (?f (pc s k)) (phase_of s k) (sent s)"
    using negotiation_invD(1) [OF assms(1,2)] False by (auto simp: connection_inv_def own_operation_def ops_of_def split: if_splits)
  show ?thesis unfolding eq
    by (rule negotiation_inv_step [OF assms(1,2)]) (use conn assms(2) in simp_all)
qed (use assms in \<open>auto simp: negotiate_def\<close>)

lemma inv_end_negotiation:
  assumes "negotiation_inv s" "k < length (connections s)" "negotiation (pc s k) \<noteq> Some Setting_local"
  shows "negotiation_inv (end_negotiation k failed s)"
proof -
  let ?f = "\<lambda>c. c\<lparr>making_offer := False, negotiation := None\<rparr>"
  have "negotiation_inv (set_pc k ?f t)" if "negotiation_inv t" "connections t = connections s" for t
  proof (rule negotiation_inv_step [OF that(1)])
    have t: "k < length (connections t)" "pc t k = pc s k" using assms(2) that(2) by (simp_all add: pc_def)
    show "k < length (connections t)" by (rule t(1))
    have "connection_inv (?f (pc t k)) (phase_of t k) (sent t)"
      using negotiation_invD(1) [OF that(1) t(1)] t assms(3) by (auto simp: connection_inv_def own_operation_def ops_of_def offer_noted_def)
    then show "connection_inv (pc (set_pc k ?f t) k) (phase_of (set_pc k ?f t) k) (sent (set_pc k ?f t))"
      using t(1) by simp
    show "signaling (pc (set_pc k ?f t) k) \<noteq> Closed \<Longrightarrow> signaling (pc t k) \<noteq> Closed"
      using t(1) by simp
  qed simp_all
  from this [of s] this [of "say (Raised ''negotiate'') s"] assms(1) show ?thesis
    by (simp add: end_negotiation_def Let_def inv_say)
qed

section \<open>Operations of the connection\<close>

text \<open>The state with one connection, the handler and the sent signals replaced.\<close>

definition advance :: "nat \<Rightarrow> connection \<Rightarrow> handler_phase option \<Rightarrow> sent_signal list \<Rightarrow> nat \<Rightarrow> participant \<Rightarrow> participant" where
  "advance k c ph ms n s = s\<lparr>connections := (connections s)[k := c], handler := map_option (Pair k) ph,
     sent := sent s @ ms, descriptions_made := n\<rparr>"

lemma inv_counter: "negotiation_inv (s\<lparr>descriptions_made := n\<rparr>) = negotiation_inv s"
  unfolding negotiation_inv_def pc_def phase_of_def by simp

lemma inv_inbox: "negotiation_inv (s\<lparr>inbox := ms\<rparr>) = negotiation_inv s"
  unfolding negotiation_inv_def pc_def phase_of_def by simp

lemma inv_advance:
  assumes "negotiation_inv s" "k < length (connections s)" "signaling c \<noteq> Closed \<Longrightarrow> signaling (pc s k) \<noteq> Closed"
    and "connection_inv c ph (sent s @ ms)" "handler s = None \<or> (\<exists>ph. handler s = Some (k, ph))"
  shows "negotiation_inv (advance k c ph ms n s)"
proof (rule negotiation_inv_step [OF assms(1,2)])
  have "pc (advance k c ph ms n s) k = c" using assms(2) by (simp add: advance_def pc_def)
  moreover have "phase_of (advance k c ph ms n s) k = ph" by (cases ph) (simp_all add: advance_def phase_of_def)
  moreover have "sent (advance k c ph ms n s) = sent s @ ms" by (simp add: advance_def)
  ultimately show "connection_inv (pc (advance k c ph ms n s) k) (phase_of (advance k c ph ms n s) k) (sent (advance k c ph ms n s))"
    and "\<exists>ms'. sent (advance k c ph ms n s) = sent s @ ms'" using assms(4) by simp_all
  show "handler (advance k c ph ms n s) = handler s \<or>
      handler (advance k c ph ms n s) = None \<and> (\<exists>ph. handler s = Some (k, ph)) \<or>
      (\<exists>ph'. handler (advance k c ph ms n s) = Some (k, ph') \<and> (handler s = None \<or> (\<exists>ph. handler s = Some (k, ph))))"
    using assms(5) by (cases ph) (auto simp: advance_def)
qed (use assms(2,3) in \<open>simp_all add: advance_def pc_def\<close>)

lemma connection_eq:
  "k < length (connections s) \<Longrightarrow> set_pc k f (advance k c ph ms n s) = advance k (f c) ph ms n s"
  "say m (advance k c ph ms n s) = advance k c ph (ms @ [m]) n s"
  "(advance k c ph ms n s)\<lparr>handler := None\<rparr> = advance k c None ms n s"
  "(advance k c ph ms n s)\<lparr>handler := Some (k, ph')\<rparr> = advance k c (Some ph') ms n s"
  "k < length (connections s) \<Longrightarrow> pc (advance k c ph ms n s) k = c"
  "handler (advance k c ph ms n s) = map_option (Pair k) ph"
  "polite (advance k c ph ms n s) = polite s" "direct_only (advance k c ph ms n s) = direct_only s"
  "k < length (connections s) \<Longrightarrow> call_operation k op who (advance k c ph ms n s) =
     advance k (c\<lparr>operations := operations c @ [(op, who)]\<rparr>) ph ms n s"
  by (simp_all add: advance_def set_pc_def say_def pc_def call_operation_def)

lemma advance_start:
  "handler s = map_option (Pair k) ph \<Longrightarrow> k < length (connections s) \<Longrightarrow>
   set_pc k f (s\<lparr>descriptions_made := n\<rparr>) = advance k (f (pc s k)) ph [] n s"
  "handler s = map_option (Pair k) ph \<Longrightarrow> k < length (connections s) \<Longrightarrow> set_pc k f s = advance k (f (pc s k)) ph [] (descriptions_made s) s"
  by (simp_all add: advance_def set_pc_def pc_def)

lemma inv_drain:
  assumes "negotiation_inv s" "k < length (connections s)" "signaling (pc s k) \<noteq> Closed" "handler s = None \<or> (\<exists>ph. handler s = Some (k, ph))"
    and "ops_of By_handler c = []" "ops_of By_negotiation c = own_operation c" "negotiation c = None \<longleftrightarrow> \<not> making_offer c"
    and "signaling c = Have_local_offer \<Longrightarrow> offer_noted (sent s @ ms) c"
  shows "negotiation_inv (drain k d as (advance k c ph ms n s))"
proof -
  have more: "connection_inv (c\<lparr>operations := operations c @ [(op, By_handler)]\<rparr>) (Some ph') (sent s @ ms)"
    if "waits (Some ph') [(op, By_handler)]" for op ph'
    using assms(5-8) that by (auto simp: connection_inv_def own_operation_def ops_of_def offer_noted_def)
  have still: "connection_inv c (Some Limiting_answer) (sent s @ ms)"
    using assms(5-8) by (auto simp: connection_inv_def)
  show ?thesis
  proof (cases as)
    case (Cons a as')
    from inv_advance [OF assms(1-3) more [of "Draining d as'" "Add_candidate a"] assms(4), of n] show ?thesis
      using assms(2) by (simp add: drain_def Cons connection_eq)
  next
    case Nil
    from inv_advance [OF assms(1-3) more [of Answering Set_local] assms(4), of n]
      inv_advance [OF assms(1-3) still assms(4), of n] show ?thesis
      using assms(2) by (simp add: drain_def Nil connection_eq)
  qed
qed

lemma inv_own_operation:
  assumes inv: "negotiation_inv s" and k: "k < length (connections s)" and c: "signaling (pc s k) \<noteq> Closed"
    and op: "operations (pc s k) = (op, By_negotiation) # ops"
  shows "negotiation_inv (operation_done k accepted s)"
proof -
  note I = connection_invD [OF negotiation_invD(1) [OF inv k] c]
  have "(op, By_negotiation) # filter (\<lambda>e. snd e = By_negotiation) ops = own_operation (pc s k)"
    using I(1) op by (simp add: ops_of_def)
  then have neg: "op = Set_local" "filter (\<lambda>e. snd e = By_negotiation) ops = []"
    by (auto simp: own_operation_def split: if_splits)
  have waits: "waits (phase_of s k) (filter (\<lambda>e. snd e = By_handler) ops)"
    using I(2) op by (simp add: ops_of_def)
  let ?s = "s\<lparr>descriptions_made := Suc (descriptions_made s)\<rparr>"
  have start: "negotiation_inv ?s" using inv by (simp only: inv_counter)
  have same: "pc ?s k = pc s k" "phase_of ?s k = phase_of s k" by (simp_all add: pc_def phase_of_def)
  define r where "r = (if accepted then run_operation Set_local (descriptions_made s) (pc s k) else None)"
  show ?thesis
  proof (cases r)
    case (Some c1)
    let ?f = "\<lambda>c. c1\<lparr>operations := ops, offer_timer := True, negotiation := Some Limiting_offer\<rparr>"
    have c1: "signaling c1 = Have_local_offer \<longrightarrow> (\<exists>d. pending_local c1 = Some d \<and> kind d = Offer)"
      "making_offer c1 = making_offer (pc s k)" "signaling c1 \<noteq> Closed"
      using Some c by (auto simp: r_def split: if_splits signaling_state.splits)
    have making: "making_offer (pc s k)" using I(1,3) op by (auto simp: ops_of_def own_operation_def split: if_splits)
    have "operation_done k accepted s = set_pc k ?f ?s"
      using Some c op neg(1) k by (simp add: operation_done_def Let_def r_def watch_offer_def set_pc_def pc_def)
    moreover have "connection_inv (?f (pc s k)) (phase_of s k) (sent s)"
      using c1 neg(2) waits making by (auto simp: connection_inv_def own_operation_def ops_of_def offer_noted_def)
    ultimately show ?thesis using negotiation_inv_step [OF start, of k "set_pc k ?f ?s"] k c same by simp
  next
    case None
    let ?g = "\<lambda>c. c\<lparr>operations := ops, making_offer := False, negotiation := None\<rparr>"
    have "operation_done k accepted s = say (Raised ''negotiate'') (set_pc k ?g ?s)"
      using None c op k neg(1) by (simp add: operation_done_def Let_def r_def end_negotiation_def set_pc_def pc_def say_def)
    moreover have "connection_inv (?g (pc s k)) (phase_of s k) (sent s)"
      using I(4) neg(2) waits by (auto simp: connection_inv_def own_operation_def ops_of_def offer_noted_def)
    then have "negotiation_inv (set_pc k ?g ?s)"
      using negotiation_inv_step [OF start, of k "set_pc k ?g ?s"] k c same by simp
    ultimately show ?thesis by (simp add: inv_say)
  qed
qed

text \<open>What an operation other than an own description does to an own offer: nothing, or it is gone.\<close>

lemma run_keeps:
  assumes "run_operation op n c = Some c'"
  shows "negotiation c' = negotiation c" "making_offer c' = making_offer c" "offer_timer c' = offer_timer c" "resending c' = resending c"
    "op \<noteq> Set_local \<Longrightarrow> signaling c' = Have_local_offer \<Longrightarrow> signaling c = Have_local_offer \<and> pending_local c' = pending_local c"
    "op = Set_local \<Longrightarrow> signaling c' = Have_local_offer \<Longrightarrow> pending_local c' = Some \<lparr>kind = Offer, sdp = n\<rparr>"
    "op = Set_local \<Longrightarrow> local_description c' \<noteq> None"
  using assms by (cases op; auto simp: local_description_def split: signaling_state.splits if_splits)+

lemma inv_handler_operation:
  assumes inv: "negotiation_inv s" and k: "k < length (connections s)" and c: "signaling (pc s k) \<noteq> Closed"
    and op: "operations (pc s k) = (op, By_handler) # ops"
  shows "negotiation_inv (operation_done k accepted s)"
proof -
  let ?c = "pc s k"
  note I = connection_invD [OF negotiation_invD(1) [OF inv k] c]
  have neg: "filter (\<lambda>e. snd e = By_negotiation) ops = own_operation ?c"
    and wait: "waits (phase_of s k) ((op, By_handler) # filter (\<lambda>e. snd e = By_handler) ops)"
    using I(1,2) op by (simp_all add: ops_of_def)
  then obtain ph where ph: "handler s = Some (k, ph)" "phase_of s k = Some ph"
    by (cases "phase_of s k") (auto simp: phase_of_def split: option.splits prod.splits if_splits)
  have ops: "filter (\<lambda>e. snd e = By_handler) ops = []" using wait ph(2) by (cases ph) auto
  define r where "r = (if accepted then run_operation op (descriptions_made s) ?c else None)"
  define c' where "c' = (nullish r ?c)\<lparr>operations := ops\<rparr>"
  let ?n = "Suc (descriptions_made s)"
  have run: "r = Some c1 \<Longrightarrow> run_operation op (descriptions_made s) ?c = Some c1" for c1
    by (simp add: r_def split: if_splits)
  have same: "negotiation c' = negotiation ?c" "making_offer c' = making_offer ?c" "offer_timer c' = offer_timer ?c"
      "resending c' = resending ?c" "ops_of By_handler c' = []" "ops_of By_negotiation c' = own_operation c'"
  proof -
    have "negotiation (nullish r ?c) = negotiation ?c \<and> making_offer (nullish r ?c) = making_offer ?c \<and>
        offer_timer (nullish r ?c) = offer_timer ?c \<and> resending (nullish r ?c) = resending ?c"
    proof (cases r)
      case (Some c1)
      from run_keeps(1-4) [OF run [OF Some]] Some show ?thesis by simp
    qed simp
    then show "negotiation c' = negotiation ?c" "making_offer c' = making_offer ?c" "offer_timer c' = offer_timer ?c"
        "resending c' = resending ?c" "ops_of By_handler c' = []" "ops_of By_negotiation c' = own_operation c'"
      using neg ops by (simp_all add: c'_def ops_of_def own_operation_def)
  qed
  have res: "operation_done k accepted s = continue_handler k (r \<noteq> None) (advance k c' (Some ph) [] ?n s)"
    using c op k ph(1) by (simp add: operation_done_def Let_def r_def [symmetric] c'_def [symmetric] advance_start(1) [where ph = "Some ph"])
  have hand: "handler s = None \<or> (\<exists>ph. handler s = Some (k, ph))" using ph(1) by simp
  have noted: "offer_noted (sent s @ ms) c'" if "signaling c' = Have_local_offer" "op \<noteq> Set_local \<or> r = None" for ms
  proof (cases r)
    case None
    with that(1) I(4) show ?thesis by (auto simp: c'_def offer_noted_def)
  next
    case (Some c1)
    with that run_keeps(5) [OF run [OF Some]] have "signaling ?c = Have_local_offer" "pending_local c' = pending_local ?c"
      by (simp_all add: c'_def)
    with I(4) same(3,4) show ?thesis by (auto simp: offer_noted_def)
  qed
  have keeps: "connection_inv c' ph' (sent s @ ms)" if "waits ph' []" "op \<noteq> Set_local \<or> r = None" for ph' ms
    using that(1) same I(3) noted [OF _ that(2)] by (simp add: connection_inv_def)
  have finish: "negotiation_inv (advance k c' None ms ?n s)" if "op \<noteq> Set_local \<or> r = None" for ms
    by (rule inv_advance [OF inv k c _ hand], rule keeps [OF _ that]) simp
  have draining: "negotiation_inv (drain k d as (advance k (c'\<lparr>setting_answer := b, pending_candidates := cs\<rparr>) (Some ph) [] ?n s))"
    if "op \<noteq> Set_local" for d as b cs
    by (rule inv_drain [OF inv k c hand])
      (use same I(3) noted [of "[]"] that in \<open>simp_all add: ops_of_def own_operation_def offer_noted_def\<close>)
  show ?thesis
  proof (cases ph)
    case Adding_candidate
    with wait ph(2) have "op \<noteq> Set_local" by auto
    with Adding_candidate k finish [of "[]"] finish [of "[Raised ''ice-candidate'']"] show ?thesis
      by (simp add: res continue_handler_def connection_eq signal_fails_def)
  next
    case (Setting_remote d)
    then have "op \<noteq> Set_local" using wait ph(2) by auto
    with Setting_remote k finish [of "[Raised ''description'']"] draining show ?thesis
      by (simp add: res continue_handler_def connection_eq signal_fails_def Let_def)
  next
    case (Draining d as)
    then have o': "op \<noteq> Set_local" using wait ph(2) by auto
    have "c' = c'\<lparr>setting_answer := setting_answer c', pending_candidates := pending_candidates c'\<rparr>" by simp
    then have "negotiation_inv (drain k d as (advance k c' (Some ph) [] ?n s))" using draining [OF o'] by metis
    with Draining k finish [of "[Raised ''description'']"] o' show ?thesis
      by (simp add: res continue_handler_def connection_eq signal_fails_def)
  next
    case Answering
    have o': "op = Set_local" using wait ph(2) Answering by auto
    show ?thesis
    proof (cases r)
      case None
      with k finish [of "[Raised ''description'']"] Answering show ?thesis
        by (simp add: res continue_handler_def connection_eq signal_fails_def)
    next
      case (Some c1)
      note K = run_keeps [OF run [OF Some]]
      obtain d where d: "local_description c' = Some d"
        using K(7) o' Some by (auto simp: c'_def local_description_def split: option.splits)
      have "connection_inv c' (Some Sending_answer) (sent s @ [Sent_answer d])"
        using K(6) o' Some d same I(3) by (auto simp: connection_inv_def offer_noted_def local_description_def c'_def)
      from inv_advance [OF inv k c this hand, of ?n] Some Answering k d show ?thesis
        by (simp add: res continue_handler_def connection_eq)
    qed
  qed (use wait ph(2) in auto)
qed

lemma inv_operation_done:
  assumes "negotiation_inv s" "k < length (connections s)"
  shows "negotiation_inv (operation_done k accepted s)"
proof (cases "signaling (pc s k) = Closed \<or> operations (pc s k) = []")
  case False
  then obtain op who ops where "operations (pc s k) = (op, who) # ops" by (cases "operations (pc s k)") auto
  with False inv_own_operation [OF assms] inv_handler_operation [OF assms] show ?thesis by (cases who) auto
qed (use assms(1) in \<open>auto simp: operation_done_def\<close>)

section \<open>The other steps\<close>

lemma inv_add:
  assumes "negotiation_inv s" "\<not> engine_disposed s"
  shows "negotiation_inv (add_participant s)"
proof (cases "here s")
  case None
  note D = negotiation_invD [OF assms(1)]
  let ?s = "add_participant s"
  have s': "here ?s = Some (length (connections s))" "length (connections ?s) = Suc (length (connections s))" "handler ?s = handler s"
      "engine_disposed ?s = engine_disposed s" "sent ?s = sent s"
    using None by (simp_all add: add_participant_def)
  have at: "pc ?s k = (if k < length (connections s) then pc s k else new_connection)" if "k \<le> length (connections s)" for k
    using None that by (simp add: add_participant_def pc_def nth_append)
  have fresh: "phase_of s (length (connections s)) = None"
    using D(4) by (auto simp: phase_of_def split: option.split)
  have "connection_inv (pc ?s k) (phase_of ?s k) (sent ?s) \<and> (signaling (pc ?s k) \<noteq> Closed \<longrightarrow> here ?s = Some k \<and> \<not> engine_disposed ?s)"
    if "k < Suc (length (connections s))" for k
  proof (cases "k < length (connections s)")
    case True
    have "signaling (pc s k) = Closed" using D(2) [OF True] None by auto
    then show ?thesis using True at [of k] by (simp add: connection_inv_def)
  next
    case False
    then have k: "k = length (connections s)" using that by simp
    have "phase_of ?s k = None" using fresh s'(3) by (simp add: k phase_of_def)
    then show ?thesis using s'(1,4) at [of k] assms(2) k by (simp add: connection_inv_def new_connection_def own_operation_def ops_of_def)
  qed
  moreover have "j < length (connections ?s)" if "handler ?s = Some (j, ph)" for j ph
    using D(4) [of j ph] that s'(2,3) by simp
  ultimately show ?thesis unfolding negotiation_inv_def using s'(1,2) by auto
qed (use assms(1) in \<open>simp add: add_participant_def\<close>)

lemma inv_remove:
  assumes "negotiation_inv s"
  shows "negotiation_inv (remove_participant s)" "negotiation_inv (dispose_participant s)"
proof -
  note D = negotiation_invD [OF assms]
  have gone: "negotiation_inv t"
    if t: "length (connections t) = length (connections s)" "handler t = handler s" "sent t = sent s" "here t = None"
      "\<And>k. k < length (connections s) \<Longrightarrow> signaling (pc t k) = Closed" for t
    unfolding negotiation_inv_def using that D(4) by (auto simp: connection_inv_def)
  have closed: "signaling (pc s k) = Closed" if "k < length (connections s)" "here s \<noteq> Some k" for k
    using D(2) [OF that(1)] that(2) by auto
  show "negotiation_inv (remove_participant s)"
  proof (cases "here s")
    case (Some k)
    have "signaling (pc (remove_participant s) j) = Closed" if "j < length (connections s)" for j
      using closed [OF that] D(3) [OF Some] Some that by (cases "j = k") (simp_all add: remove_participant_def set_pc_def pc_def)
    then show ?thesis by (intro gone) (simp_all add: remove_participant_def Some)
  qed (use assms in \<open>simp add: remove_participant_def\<close>)
  show "negotiation_inv (dispose_participant s)"
  proof (rule gone)
    fix j assume j: "j < length (connections s)"
    show "signaling (pc (dispose_participant s) j) = Closed"
      using closed [OF j] D(3) j by (cases "here s = Some j")
        (auto simp: dispose_participant_def remove_participant_def set_pc_def pc_def split: option.split)
  qed (simp_all add: dispose_participant_def remove_participant_def split: option.split)
qed

lemma inv_candidate:
  assumes "negotiation_inv s" "here s = Some k" "handler s = None"
  shows "negotiation_inv (handle_candidate k a s)"
proof -
  have k: "k < length (connections s)" by (rule negotiation_invD(3) [OF assms(1,2)])
  have ph: "phase_of s k = None" using assms(3) by (simp add: phase_of_def)
  note I = negotiation_invD(1) [OF assms(1) k, unfolded connection_inv_def ph]
  have "negotiation_inv (set_pc k (\<lambda>c. c\<lparr>pending_candidates := pending_candidates c @ [a]\<rparr>) s)"
    by (rule inv_fields_step [OF assms(1) k]) simp_all
  moreover have "connection_inv ((pc s k)\<lparr>operations := operations (pc s k) @ [(Add_candidate a, By_handler)]\<rparr>) (Some Adding_candidate) (sent s @ [])"
    using I by (auto simp: connection_inv_def own_operation_def offer_noted_def ops_of_def)
  from inv_advance [OF assms(1) k _ this, of "descriptions_made s"] assms(3)
  have "negotiation_inv ((call_operation k (Add_candidate a) By_handler s)\<lparr>handler := Some (k, Adding_candidate)\<rparr>)"
    by (simp add: advance_def call_operation_def set_pc_def pc_def)
  ultimately show ?thesis using assms(1) by (simp add: handle_candidate_def)
qed

lemma inv_description:
  assumes "negotiation_inv s" "here s = Some k" "handler s = None"
  shows "negotiation_inv (handle_description k d s)"
proof -
  have k: "k < length (connections s)" by (rule negotiation_invD(3) [OF assms(1,2)])
  have ph: "phase_of s k = None" using assms(3) by (simp add: phase_of_def)
  note I = negotiation_invD(1) [OF assms(1) k, unfolded connection_inv_def ph]
  have ignored: "negotiation_inv (set_pc k (\<lambda>c. c\<lparr>ignore_offer := b\<rparr>) s)" for b
    by (rule inv_fields_step [OF assms(1) k]) simp_all
  have "negotiation_inv ((call_operation k (Set_remote d) By_handler
      (set_pc k (\<lambda>c. c\<lparr>setting_answer := a\<rparr>) (set_pc k (\<lambda>c. c\<lparr>ignore_offer := b\<rparr>) s)))\<lparr>handler := Some (k, Setting_remote d)\<rparr>)" for a b
  proof -
    have "connection_inv ((pc s k)\<lparr>ignore_offer := b, setting_answer := a, operations := operations (pc s k) @ [(Set_remote d, By_handler)]\<rparr>)
        (Some (Setting_remote d)) (sent s @ [])"
      using I by (auto simp: connection_inv_def own_operation_def offer_noted_def ops_of_def)
    from inv_advance [OF assms(1) k _ this, of "descriptions_made s"] assms(3) k show ?thesis
      by (simp add: advance_def call_operation_def set_pc_def pc_def)
  qed
  with ignored show ?thesis by (simp add: handle_description_def Let_def)
qed

lemma inv_next:
  assumes "negotiation_inv s"
  shows "negotiation_inv (next_signal s)"
proof (cases "handler s = None \<and> inbox s \<noteq> [] \<and> \<not> engine_disposed s")
  case True
  then obtain m ms where m: "inbox s = m # ms" by (cases "inbox s") auto
  let ?s = "s\<lparr>inbox := ms\<rparr>"
  have "negotiation_inv (add_participant ?s)" by (rule inv_add) (use assms True in \<open>simp_all add: inv_inbox\<close>)
  moreover obtain k where "here (add_participant ?s) = Some k" by (cases "here s") (simp_all add: add_participant_def)
  moreover have "handler (add_participant ?s) = None" using True by (simp add: add_participant_def)
  ultimately show ?thesis using True m
    by (cases m) (simp_all add: next_signal_def Let_def inv_candidate inv_description)
next
  case False
  have "negotiation_inv (say (Raised ''disposed'') (s\<lparr>inbox := ms\<rparr>))" for ms
    using assms by (simp add: inv_say inv_inbox)
  with False assms show ?thesis by (auto simp: next_signal_def split: list.split)
qed

lemma inv_handler_phase:
  assumes "negotiation_inv s" "handler s = Some (k, ph)" "\<And>ops. waits (Some ph) ops \<Longrightarrow> ops = []" "h = None \<or> (\<exists>ph'. h = Some (k, ph') \<and> waits (Some ph') [])"
  shows "negotiation_inv (s\<lparr>handler := h\<rparr>)"
proof -
  have k: "k < length (connections s)" by (rule negotiation_invD(4) [OF assms(1,2)])
  note I = negotiation_invD(1) [OF assms(1) k, unfolded connection_inv_def handler_at [OF assms(2)]]
  have "ops_of By_handler (pc s k) = []" if "signaling (pc s k) \<noteq> Closed"
    using I that assms(3) by auto
  then have "connection_inv (pc s k) (map_option snd h) (sent s @ [])"
    using I assms(4) by (auto simp: connection_inv_def)
  from inv_advance [OF assms(1) k _ this, of "descriptions_made s"] assms(2,4) show ?thesis
    by (auto simp: advance_def pc_def)
qed

lemma inv_proceeds:
  assumes "negotiation_inv s"
  shows "negotiation_inv (handler_proceeds ok s)"
proof (cases "handler s")
  case (Some x)
  obtain k ph where x: "x = (k, ph)" by (cases x)
  have h: "handler s = Some (k, ph)" "handler (say m s) = Some (k, ph)" for m using Some x by simp_all
  have said: "negotiation_inv (say (Raised w) s)" "negotiation_inv (say Sent_metadata s)" for w
    using assms by (simp_all add: inv_say)
  have step: "negotiation_inv (t\<lparr>handler := g\<rparr>)"
    if "negotiation_inv t" "handler t = Some (k, ph)" "ph = Sending_answer \<or> ph = Sending_answer_metadata \<or> ph = Limiting_answer"
      "g = None \<or> g = Some (k, Sending_answer_metadata) \<or> g = Some (k, Limiting_answer)" for t g
    by (rule inv_handler_phase [OF that(1,2)]) (use that(3,4) in auto)
  show ?thesis
    using assms h said by (cases ph) (simp_all add: handler_proceeds_def signal_fails_def step)
qed (use assms in \<open>simp add: handler_proceeds_def\<close>)

lemma inv_continue_negotiation:
  assumes "negotiation_inv s" "k < length (connections s)"
  shows "negotiation_inv (continue_negotiation k ok s)"
proof -
  have later: "negotiation_inv (set_pc k (\<lambda>c. c\<lparr>negotiation := Some ph\<rparr>) (say m s))"
    if "negotiation (pc s k) \<noteq> Some Setting_local" "negotiation (pc s k) \<noteq> None" "ph \<noteq> Setting_local" for ph m
  proof (rule negotiation_inv_step [OF inv_say [OF assms(1)]])
    have "connection_inv ((pc s k)\<lparr>negotiation := Some ph\<rparr>) (phase_of s k) (sent s @ [m])"
      using connection_inv_mono [OF negotiation_invD(1) [OF assms]] that
      by (auto simp: connection_inv_def own_operation_def offer_noted_def ops_of_def)
    then show "connection_inv (pc (set_pc k (\<lambda>c. c\<lparr>negotiation := Some ph\<rparr>) (say m s)) k)
        (phase_of (set_pc k (\<lambda>c. c\<lparr>negotiation := Some ph\<rparr>) (say m s)) k) (sent (set_pc k (\<lambda>c. c\<lparr>negotiation := Some ph\<rparr>) (say m s)))"
      using assms(2) by simp
  qed (use assms(2) in simp_all)
  show ?thesis
  proof (cases "negotiation (pc s k)")
    case (Some ph)
    then show ?thesis using assms later
      by (cases ph) (simp_all add: continue_negotiation_def inv_end_negotiation split: option.split)
  qed (use assms(1) in \<open>simp add: continue_negotiation_def\<close>)
qed

lemma negotiation_inv_run:
  assumes "negotiation_inv s"
  shows "negotiation_inv (negotiation_step s e)"
proof (cases e)
  case (Signal_arrives m)
  then show ?thesis using assms by (simp add: signal_arrives_def inv_say inv_inbox)
qed (use assms in \<open>simp_all add: inv_add inv_remove inv_negotiate first_offer_def inv_operation_done
    inv_continue_negotiation inv_offer_timer inv_resend inv_next inv_proceeds\<close>)

interpretation negotiations: event_machine negotiation_step negotiation_inv
  by unfold_locales (rule negotiation_inv_run)

lemma negotiation_inv_new: "negotiation_inv (new_participant p direct)"
  by (simp add: negotiation_inv_def new_participant_def)

section \<open>Guarantees\<close>

text \<open>
  C6. An offer that has not been answered is not forgotten: whatever is lost, whatever fails
  and whenever \<open>negotiate\<close> is called, as long as the participant is there and an offer is
  pending, it is being sent again, or the timer is set and sends exactly this offer - unless
  this offer was made in place of an answer and has been sent as one, which
  \<open>offer_sent_as_answer\<close> shows to happen when \<open>negotiate\<close> is called while the browser takes
  in a remote offer.
\<close>

theorem pending_offer_is_watched:
  assumes "s = foldl negotiation_step (new_participant p direct) es"
    and "here s = Some k" "signaling (pc s k) = Have_local_offer"
  shows "\<exists>d. pending_local (pc s k) = Some d \<and> kind d = Offer \<and>
    (0 < resending (pc s k) \<or> (offer_timer (pc s k) \<and> sent (offer_timer_fires k s) = sent s @ [Sent_offer d]) \<or>
     Sent_answer d \<in> set (sent s))"
proof -
  have inv: "negotiation_inv s" unfolding assms(1) by (rule negotiations.run_inv [OF negotiation_inv_new])
  have k: "k < length (connections s)" by (rule negotiation_invD(3) [OF inv assms(2)])
  have "offer_noted (sent s) (pc s k)" using connection_invD(4) [OF negotiation_invD(1) [OF inv k]] assms(3) by simp
  then obtain d where d: "pending_local (pc s k) = Some d" "kind d = Offer"
      "offer_timer (pc s k) \<or> 0 < resending (pc s k) \<or> Sent_answer d \<in> set (sent s)"
    by (auto simp: offer_noted_def)
  have "\<not> engine_disposed s" using negotiation_invD(2) [OF inv k] assms(3) by simp
  then have "sent (offer_timer_fires k s) = sent s @ [Sent_offer d]" if "offer_timer (pc s k)"
    using that d k assms(2,3) by (simp add: offer_timer_fires_def Let_def local_description_def)
  with d show ?thesis by blast
qed

lemmas negotiation_eval = new_participant_def new_connection_def add_participant_def first_offer_def negotiate_def
  call_operation_def set_pc_def pc_def remote_description_def local_description_def operation_done_def watch_offer_def
  continue_negotiation_def end_negotiation_def say_def signal_arrives_def next_signal_def handle_description_def
  handle_candidate_def continue_handler_def drain_def handler_proceeds_def remove_participant_def signal_fails_def
  offer_timer_fires_def resend_settles_def

definition caller :: participant where
  "caller = foldl negotiation_step (new_participant False False) [Joins, First_offer 0, Operation_done 0 True, Negotiation_proceeds 0 True]"

lemma caller_eval:
  "caller = \<lparr>polite = False, direct_only = False, engine_disposed = False,
     connections = [\<lparr>signaling = Have_local_offer, current_local = None, pending_local = Some \<lparr>kind = Offer, sdp = 0\<rparr>,
       current_remote = None, pending_remote = None, operations = [], making_offer = True, ignore_offer = False,
       setting_answer = False, pending_candidates = [], negotiation = Some Sending_offer, offer_timer = True, resending = 0\<rparr>],
     here = Some 0, inbox = [], handler = None, descriptions_made = 1, sent = [Sent_offer \<lparr>kind = Offer, sdp = 0\<rparr>]\<rparr>"
  unfolding caller_def by (simp add: negotiation_eval Let_def)

theorem pending_offer_is_watched_witness:
  "sent (offer_timer_fires 0 caller) = [Sent_offer \<lparr>kind = Offer, sdp = 0\<rparr>, Sent_offer \<lparr>kind = Offer, sdp = 0\<rparr>]"
  using pending_offer_is_watched [OF caller_def, of 0] by (simp add: caller_eval pc_def)

text \<open>Both sides have an offer pending; a description that arrives is handled.\<close>

definition glaring :: "bool \<Rightarrow> nat \<Rightarrow> description \<Rightarrow> participant \<Rightarrow> bool" where
  "glaring p k offer s =
     (polite s = p \<and> here s = Some k \<and> k < length (connections s) \<and> \<not> engine_disposed s \<and> handler s = None \<and> inbox s = [] \<and>
      signaling (pc s k) = Have_local_offer \<and> pending_local (pc s k) = Some offer \<and> kind offer = Offer \<and> operations (pc s k) = [] \<and>
      \<not> setting_answer (pc s k) \<and> pending_candidates (pc s k) = [])"

definition receives :: "description \<Rightarrow> negotiation_event list" where
  "receives d = [Signal_arrives (Description d), Next_signal]"

text \<open>
  C7. Glare: when both sides have an offer pending and each receives the offer of the other,
  the impolite side ignores what it receives and keeps its offer, the polite side gives its own
  up and answers, and with the answer both connections are stable on the impolite side's offer.
\<close>

theorem glare_resolves:
  assumes "glaring False i a s" "glaring True j b t"
    and "t' = foldl negotiation_step t (receives a @ [Operation_done j True, Operation_done j True])"
    and "s' = foldl negotiation_step s (receives b @ receives \<lparr>kind = Answer, sdp = Suc (descriptions_made t)\<rparr> @ [Operation_done i True])"
  shows "sent t' = sent t @ [Sent_answer \<lparr>kind = Answer, sdp = Suc (descriptions_made t)\<rparr>] \<and>
    signaling (pc t' j) = Stable \<and> current_remote (pc t' j) = Some a \<and>
    signaling (pc s' i) = Stable \<and> current_local (pc s' i) = Some a \<and> current_remote (pc s' i) = current_local (pc t' j)"
proof -
  have t: "t\<lparr>inbox := []\<rparr> = t" "s\<lparr>inbox := []\<rparr> = s" using assms(1,2) by (simp_all add: glaring_def)
  have "signaling (pc t' j) = Stable \<and> current_remote (pc t' j) = Some a \<and>
      current_local (pc t' j) = Some \<lparr>kind = Answer, sdp = Suc (descriptions_made t)\<rparr> \<and>
      sent t' = sent t @ [Sent_answer \<lparr>kind = Answer, sdp = Suc (descriptions_made t)\<rparr>]"
    using assms(1,2) unfolding assms(3) receives_def
    by (simp add: glaring_def negotiation_eval Let_def)
  moreover have "signaling (pc s' i) = Stable \<and> current_local (pc s' i) = Some a \<and>
      current_remote (pc s' i) = Some \<lparr>kind = Answer, sdp = Suc (descriptions_made t)\<rparr>"
    using assms(1,2) unfolding assms(4) receives_def
    by (simp add: glaring_def negotiation_eval Let_def)
  ultimately show ?thesis by simp
qed

definition callee :: participant where
  "callee = foldl negotiation_step (new_participant True False)
     ([Joins] @ receives \<lparr>kind = Offer, sdp = 100\<rparr> @ [Operation_done 0 True, Operation_done 0 True, Handler_proceeds True,
       Handler_proceeds True, Handler_proceeds True, Negotiation_needed 0, Operation_done 0 True])"

lemma callee_glares: "glaring True 0 \<lparr>kind = Offer, sdp = 2\<rparr> callee"
  by (simp add: callee_def glaring_def receives_def negotiation_eval Let_def)

lemma caller_glares: "glaring False 0 \<lparr>kind = Offer, sdp = 0\<rparr> caller"
  by (simp add: caller_eval glaring_def pc_def)

theorem glare_resolves_witness:
  "current_remote (pc (foldl negotiation_step callee
     (receives \<lparr>kind = Offer, sdp = 0\<rparr> @ [Operation_done 0 True, Operation_done 0 True])) 0) = Some \<lparr>kind = Offer, sdp = 0\<rparr>"
  using glare_resolves [OF caller_glares callee_glares refl refl] by blast

section \<open>What can go wrong\<close>

text \<open>
  A polite side whose offer was rolled back while its ceilings were being applied sends
  whatever local description it has then: here the answer of an earlier round, as an offer.
\<close>

theorem stale_offer_after_glare:
  "let s = foldl negotiation_step (new_participant True False)
       ([Joins] @ receives \<lparr>kind = Offer, sdp = 100\<rparr> @ [Operation_done 0 True, Operation_done 0 True, Handler_proceeds True,
         Handler_proceeds True, Handler_proceeds True, Negotiation_needed 0, Operation_done 0 True] @
        receives \<lparr>kind = Offer, sdp = 101\<rparr> @ [Operation_done 0 True, Negotiation_proceeds 0 True])
   in Sent_offer \<lparr>kind = Answer, sdp = 1\<rparr> \<in> set (sent s) \<and> signaling (pc s 0) = Have_remote_offer"
  by (simp add: receives_def negotiation_eval Let_def)

text \<open>
  \<open>negotiate\<close> is also called directly, and then not only while the connection is idle: when
  a share ends or falls back while the browser takes in a remote offer, the negotiation's own
  description becomes the answer, the handler's becomes an offer, and the other side is sent
  an offer as the answer and the answer as an offer. When the timer set by the negotiation has
  fired and found nothing to send, nothing watches the pending offer.
\<close>

theorem offer_sent_as_answer:
  "let s = foldl negotiation_step (new_participant True False)
       ([Joins] @ receives \<lparr>kind = Offer, sdp = 100\<rparr> @ [Operation_done 0 True, Operation_done 0 True, Handler_proceeds True,
         Handler_proceeds True, Handler_proceeds True] @
        receives \<lparr>kind = Offer, sdp = 101\<rparr> @ [Negotiation_needed 0, Operation_done 0 True, Operation_done 0 True,
         Offer_timer_fires 0, Operation_done 0 True])
   in signaling (pc s 0) = Have_local_offer \<and> pending_local (pc s 0) = Some \<lparr>kind = Offer, sdp = 4\<rparr> \<and>
     last (sent s) = Sent_answer \<lparr>kind = Offer, sdp = 4\<rparr> \<and> \<not> offer_timer (pc s 0) \<and> resending (pc s 0) = 0"
  by (simp add: receives_def negotiation_eval Let_def)

text \<open>
  When a participant leaves while the browser works on one of his signals, the signal is
  never done with, and no signal of his is handled again after he has come back.
\<close>

theorem departed_participant_is_not_heard:
  assumes "s = foldl negotiation_step (new_participant p direct) (receives d @ [Leaves, Joins])" "kind d = Offer"
  shows "inbox (foldl (\<lambda>s m. next_signal (signal_arrives m s)) s ms) = ms \<and>
    operations (pc (foldl (\<lambda>s m. next_signal (signal_arrives m s)) s ms) 1) = []"
proof -
  have s: "handler s = Some (0, Setting_remote d)" "inbox s = []" "engine_disposed s = False" "operations (pc s 1) = []"
    using assms by (simp_all add: receives_def negotiation_eval Let_def)
  have "inbox (foldl (\<lambda>s m. next_signal (signal_arrives m s)) t ms) = inbox t @ ms \<and>
      pc (foldl (\<lambda>s m. next_signal (signal_arrives m s)) t ms) 1 = pc t 1"
    if "handler t = Some (0, Setting_remote d)" "\<not> engine_disposed t" for t
    using that by (induction ms arbitrary: t) (simp_all add: next_signal_def signal_arrives_def pc_def)
  from this [of s] s show ?thesis by simp
qed

theorem departed_participant_is_not_heard_witness:
  "inbox (foldl (\<lambda>s m. next_signal (signal_arrives m s))
     (foldl negotiation_step (new_participant True False) (receives \<lparr>kind = Offer, sdp = 7\<rparr> @ [Leaves, Joins]))
     [Description \<lparr>kind = Offer, sdp = 8\<rparr>]) = [Description \<lparr>kind = Offer, sdp = 8\<rparr>]"
  by (rule conjunct1 [OF departed_participant_is_not_heard [OF refl]]) simp

section \<open>The first offer\<close>

text \<open>On a connection that has no remote description the polite side has offered nothing.\<close>

definition untouched :: "connection \<Rightarrow> bool" where
  "untouched c = (remote_description c \<noteq> None \<or>
     (negotiation c = None \<and> resending c = 0 \<and> \<not> offer_timer c \<and> By_negotiation \<notin> snd ` set (operations c)))"

fun is_offer :: "sent_signal \<Rightarrow> bool" where
  "is_offer (Sent_offer d) = True"
| "is_offer _ = False"

definition waiting_inv :: "participant \<Rightarrow> bool" where
  "waiting_inv s = (polite s \<longrightarrow> list_all untouched (connections s) \<and>
     (list_ex is_offer (sent s) \<longrightarrow> list_ex (\<lambda>c. remote_description c \<noteq> None) (connections s)))"

lemma waiting_invD:
  "waiting_inv s \<Longrightarrow> polite s \<Longrightarrow> k < length (connections s) \<Longrightarrow> untouched (pc s k)"
  by (simp add: waiting_inv_def list_all_length pc_def)

lemma waiting_set_pc:
  assumes "waiting_inv s" "k < length (connections s)"
    and "remote_description (pc s k) \<noteq> None \<Longrightarrow> remote_description (f (pc s k)) \<noteq> None"
    and "polite s \<Longrightarrow> untouched (pc s k) \<Longrightarrow> untouched (f (pc s k))"
  shows "waiting_inv (set_pc k f s)"
proof (cases "polite s")
  case True
  let ?cs = "connections s" and ?ds = "(connections s)[k := f (pc s k)]"
  have all: "list_all untouched ?ds"
    using assms(1,2,4) True waiting_invD [OF assms(1) True assms(2)]
    by (auto simp: waiting_inv_def list_all_length nth_list_update)
  have "list_ex (\<lambda>c. remote_description c \<noteq> None) ?ds" if ex: "list_ex (\<lambda>c. remote_description c \<noteq> None) ?cs"
  proof -
    obtain j where j: "j < length ?cs" "remote_description (?cs ! j) \<noteq> None" using ex by (auto simp: list_ex_length)
    then have "remote_description (?ds ! j) \<noteq> None" using assms(2,3) by (cases "j = k") (simp_all add: pc_def)
    with j(1) show ?thesis unfolding list_ex_length by (metis length_list_update)
  qed
  with all assms(1) True show ?thesis by (simp add: waiting_inv_def set_pc_def pc_def)
qed (simp add: waiting_inv_def)

lemma waiting_simps [simp]:
  "waiting_inv (s\<lparr>handler := h\<rparr>) = waiting_inv s" "waiting_inv (s\<lparr>inbox := ms\<rparr>) = waiting_inv s"
  "waiting_inv (s\<lparr>descriptions_made := n\<rparr>) = waiting_inv s" "waiting_inv (s\<lparr>here := w\<rparr>) = waiting_inv s"
  "waiting_inv (s\<lparr>engine_disposed := b\<rparr>) = waiting_inv s"
  "\<not> is_offer m \<Longrightarrow> waiting_inv (say m s) = waiting_inv s"
  by (simp_all add: waiting_inv_def say_def)

lemma waiting_offer:
  assumes "waiting_inv s" "k < length (connections s)" "polite s \<Longrightarrow> remote_description (pc s k) \<noteq> None"
  shows "waiting_inv (say (Sent_offer d) s)"
  using assms by (auto simp: waiting_inv_def say_def list_ex_length pc_def)

lemma remote_frame [simp]:
  "remote_description (c\<lparr>operations := ops\<rparr>) = remote_description c"
  "remote_description (c\<lparr>negotiation := ng\<rparr>) = remote_description c"
  "remote_description (c\<lparr>making_offer := x\<rparr>) = remote_description c"
  "remote_description (c\<lparr>ignore_offer := x\<rparr>) = remote_description c"
  "remote_description (c\<lparr>setting_answer := x\<rparr>) = remote_description c"
  "remote_description (c\<lparr>offer_timer := x\<rparr>) = remote_description c"
  "remote_description (c\<lparr>resending := n\<rparr>) = remote_description c"
  "remote_description (c\<lparr>pending_candidates := as\<rparr>) = remote_description c"
  "remote_description (c\<lparr>signaling := sg\<rparr>) = remote_description c"
  "remote_description (c\<lparr>pending_local := d\<rparr>) = remote_description c"
  by (simp_all add: remote_description_def split: option.split)

lemma waiting_operation:
  "waiting_inv s \<Longrightarrow> k < length (connections s) \<Longrightarrow> waiting_inv (call_operation k op By_handler s)"
  unfolding call_operation_def by (rule waiting_set_pc) (auto simp: untouched_def)

lemma waiting_fields:
  assumes "waiting_inv s" "k < length (connections s)" "\<And>c. remote_description (f c) = remote_description c"
    "\<And>c. negotiation (f c) = negotiation c" "\<And>c. resending (f c) = resending c" "\<And>c. offer_timer (f c) = offer_timer c"
    "\<And>c. operations (f c) = operations c"
  shows "waiting_inv (set_pc k f s)"
  by (rule waiting_set_pc [OF assms(1,2)]) (simp_all add: untouched_def assms(3-7))

lemma waiting_negotiate:
  assumes "waiting_inv s" "k < length (connections s)"
  shows "waiting_inv (negotiate k s)"
proof -
  have "waiting_inv (call_operation k Set_local By_negotiation (set_pc k (\<lambda>c. c\<lparr>making_offer := True, negotiation := Some Setting_local\<rparr>) s))"
    if "\<not> (polite s \<and> remote_description (pc s k) = None)"
    unfolding call_operation_def
    by (intro waiting_set_pc) (use assms that in \<open>auto simp: untouched_def\<close>)
  with assms(1) show ?thesis by (simp add: negotiate_def)
qed

lemma waiting_drain:
  "waiting_inv s \<Longrightarrow> k < length (connections s) \<Longrightarrow> waiting_inv (drain k d as s)"
  by (cases as) (simp_all add: drain_def waiting_operation)

lemma waiting_continue_handler:
  assumes "waiting_inv s" "k < length (connections s)"
  shows "waiting_inv (continue_handler k ok s)"
proof -
  have "waiting_inv (set_pc k (\<lambda>c. c\<lparr>setting_answer := False, pending_candidates := []\<rparr>) s)"
    by (rule waiting_fields [OF assms]) simp_all
  then show ?thesis using assms
    by (auto simp: continue_handler_def signal_fails_def Let_def waiting_drain split: option.split prod.split handler_phase.split)
qed

lemma run_operation_frame:
  "run_operation op n c = Some c' \<Longrightarrow> negotiation c' = negotiation c \<and> resending c' = resending c \<and> offer_timer c' = offer_timer c"
  by (cases op) (auto split: signaling_state.splits if_splits)

lemma run_remote:
  assumes "run_operation op n c = Some c'" "remote_description c \<noteq> None"
  shows "remote_description c' \<noteq> None"
proof (cases op)
  case Set_local
  with assms show ?thesis
    by (cases "signaling c"; cases "pending_remote c") (auto simp: remote_description_def)
next
  case (Set_remote d)
  with assms(1) show ?thesis by (auto simp: remote_description_def split: if_splits)
next
  case (Add_candidate a)
  with assms show ?thesis by (auto split: if_splits)
qed

lemma waiting_operation_done:
  assumes "waiting_inv s" "k < length (connections s)"
  shows "waiting_inv (operation_done k accepted s)"
proof (cases "signaling (pc s k) = Closed \<or> operations (pc s k) = []")
  case False
  then obtain op who ops where op: "operations (pc s k) = (op, who) # ops" by (cases "operations (pc s k)") auto
  define r where "r = (if accepted then run_operation op (descriptions_made s) (pc s k) else None)"
  define s1 where "s1 = set_pc k (\<lambda>c. (nullish r c)\<lparr>operations := ops\<rparr>) (s\<lparr>descriptions_made := Suc (descriptions_made s)\<rparr>)"
  have R: "r = Some c' \<Longrightarrow> remote_description (pc s k) \<noteq> None \<Longrightarrow> remote_description c' \<noteq> None"
      "r = Some c' \<Longrightarrow> negotiation c' = negotiation (pc s k) \<and> resending c' = resending (pc s k) \<and> offer_timer c' = offer_timer (pc s k)" for c'
    using run_remote [of op _ "pc s k" c'] run_operation_frame [of op _ "pc s k" c'] by (simp_all add: r_def split: if_splits)
  have after: "remote_description (pc s k) \<noteq> None \<Longrightarrow> remote_description ((nullish r (pc s k))\<lparr>operations := ops\<rparr>) \<noteq> None"
    using R(1) by (cases r) simp_all
  have quiet: "untouched ((nullish r (pc s k))\<lparr>operations := ops\<rparr>)" if "untouched (pc s k)"
    using that R after op by (cases r) (auto simp: untouched_def)
  let ?s = "s\<lparr>descriptions_made := Suc (descriptions_made s)\<rparr>"
  have s1: "waiting_inv s1" "k < length (connections s1)" "polite s1 = polite s"
    unfolding s1_def using waiting_set_pc [of ?s k "\<lambda>c. (nullish r c)\<lparr>operations := ops\<rparr>"] assms after quiet
    by (simp_all add: pc_def)
  have own: "remote_description (pc s1 k) \<noteq> None" if "polite s" "who = By_negotiation"
  proof -
    have "remote_description (pc s k) \<noteq> None"
      using waiting_invD [OF assms(1) that(1) assms(2)] that(2) op by (auto simp: untouched_def)
    then show ?thesis using R(1) assms(2) by (cases r) (auto simp: s1_def pc_def set_pc_def)
  qed
  have "waiting_inv (set_pc k (\<lambda>c. c\<lparr>negotiation := Some Limiting_offer\<rparr>) (watch_offer k s1))" if "who = By_negotiation"
    unfolding watch_offer_def
    by (intro waiting_set_pc) (use s1 own [OF _ that] in \<open>auto simp: untouched_def\<close>)
  moreover have "waiting_inv (end_negotiation k True s1)"
    unfolding end_negotiation_def Let_def
    by (intro waiting_set_pc) (use s1 in \<open>auto simp: untouched_def\<close>)
  moreover have "operation_done k accepted s = (case who of By_handler \<Rightarrow> continue_handler k (r \<noteq> None) s1
      | By_negotiation \<Rightarrow> if r \<noteq> None then set_pc k (\<lambda>c. c\<lparr>negotiation := Some Limiting_offer\<rparr>) (watch_offer k s1) else end_negotiation k True s1)"
  proof -
    have "signaling (pc s k) \<noteq> Closed" using False by simp
    then show ?thesis
      unfolding operation_done_def Let_def op list.case prod.case r_def [symmetric] s1_def [symmetric] by simp
  qed
  ultimately show ?thesis using waiting_continue_handler [OF s1(1,2)] by (cases who) simp_all
qed (use assms(1) in \<open>auto simp: operation_done_def\<close>)

lemma waiting_end:
  assumes "waiting_inv s" "k < length (connections s)"
  shows "waiting_inv (end_negotiation k failed s)"
proof -
  have "waiting_inv (set_pc k (\<lambda>c. c\<lparr>making_offer := False, negotiation := None\<rparr>) t)"
    if "waiting_inv t" "k < length (connections t)" for t
    by (rule waiting_set_pc [OF that]) (auto simp: untouched_def)
  with assms show ?thesis by (cases failed) (simp_all add: end_negotiation_def)
qed

lemma waiting_continue_negotiation:
  assumes "waiting_inv s" "k < length (connections s)"
  shows "waiting_inv (continue_negotiation k ok s)"
proof (cases "negotiation (pc s k)")
  case (Some ph)
  then have own: "polite s \<Longrightarrow> remote_description (pc s k) \<noteq> None"
    using waiting_invD [OF assms(1) _ assms(2)] by (auto simp: untouched_def)
  have step: "waiting_inv (set_pc k (\<lambda>c. c\<lparr>negotiation := Some ph'\<rparr>) t)"
    if "waiting_inv t" "connections t = connections s" "polite t = polite s" for t ph'
  proof (rule waiting_set_pc [OF that(1)])
    assume "polite t"
    then show "untouched ((pc t k)\<lparr>negotiation := Some ph'\<rparr>)" using own that(2,3) by (simp add: untouched_def pc_def)
  qed (use assms(2) that(2) in simp_all)
  have offer: "waiting_inv (say (Sent_offer d) s)" for d by (rule waiting_offer [OF assms own])
  show ?thesis using assms Some offer
    by (cases ph) (simp_all add: continue_negotiation_def waiting_end step split: option.split)
qed (use assms(1) in \<open>simp add: continue_negotiation_def\<close>)

lemma waiting_timer:
  assumes "waiting_inv s" "k < length (connections s)"
  shows "waiting_inv (offer_timer_fires k s)"
proof (cases "offer_timer (pc s k)")
  case True
  then have own: "polite s \<Longrightarrow> remote_description (pc s k) \<noteq> None"
    using waiting_invD [OF assms(1) _ assms(2)] by (auto simp: untouched_def)
  define s1 where "s1 = set_pc k (\<lambda>c. c\<lparr>offer_timer := False\<rparr>) s"
  have s1: "waiting_inv s1" "k < length (connections s1)" "polite s1 \<Longrightarrow> remote_description (pc s1 k) \<noteq> None"
    unfolding s1_def using own assms by (auto intro!: waiting_set_pc simp: untouched_def)
  have "waiting_inv (set_pc k (\<lambda>c. c\<lparr>resending := Suc (resending c)\<rparr>) (say (Sent_offer d) s1))" for d
    by (rule waiting_set_pc [OF waiting_offer [OF s1]]) (use s1(2,3) in \<open>auto simp: untouched_def\<close>)
  with True s1(1) show ?thesis
    unfolding offer_timer_fires_def Let_def s1_def [symmetric] by (simp split: option.split)
qed (use assms in \<open>simp add: offer_timer_fires_def\<close>)

lemma waiting_resend:
  assumes "waiting_inv s" "k < length (connections s)"
  shows "waiting_inv (resend_settles k s)"
proof (cases "resending (pc s k) = 0")
  case False
  then have own: "polite s \<Longrightarrow> remote_description (pc s k) \<noteq> None"
    using waiting_invD [OF assms(1) _ assms(2)] by (auto simp: untouched_def)
  have "waiting_inv (watch_offer k (set_pc k (\<lambda>c. c\<lparr>resending := resending c - 1\<rparr>) s))"
    unfolding watch_offer_def by (intro waiting_set_pc) (use own assms in \<open>auto simp: untouched_def\<close>)
  with False show ?thesis by (simp add: resend_settles_def)
qed (use assms in \<open>simp add: resend_settles_def\<close>)

lemma waiting_add: "waiting_inv s \<Longrightarrow> waiting_inv (add_participant s)"
  by (auto simp: add_participant_def waiting_inv_def untouched_def new_connection_def remote_description_def)

lemma waiting_signal:
  assumes "waiting_inv s" "k < length (connections s)"
  shows "waiting_inv (handle_candidate k a s)" "waiting_inv (handle_description k d s)"
proof -
  have frame: "waiting_inv (set_pc k (\<lambda>c. c\<lparr>pending_candidates := pending_candidates c @ [a]\<rparr>) t)"
      "waiting_inv (set_pc k (\<lambda>c. c\<lparr>ignore_offer := b\<rparr>) t)" "waiting_inv (set_pc k (\<lambda>c. c\<lparr>setting_answer := b\<rparr>) t)"
    if "waiting_inv t" "k < length (connections t)" for t b
    by (rule waiting_fields [OF that]; simp)+
  show "waiting_inv (handle_candidate k a s)"
    using assms by (simp add: handle_candidate_def waiting_operation frame)
  show "waiting_inv (handle_description k d s)"
    using assms by (simp add: handle_description_def Let_def waiting_operation frame)
qed

lemma waiting_next:
  assumes "waiting_inv s" "\<And>k. here s = Some k \<Longrightarrow> k < length (connections s)"
  shows "waiting_inv (next_signal s)"
proof (cases "inbox s")
  case (Cons m ms)
  let ?s = "add_participant (s\<lparr>inbox := ms\<rparr>)"
  have "waiting_inv ?s" using assms(1) by (simp add: waiting_add)
  moreover obtain k where "here ?s = Some k" "k < length (connections ?s)"
    using assms(2) by (cases "here s") (simp_all add: add_participant_def)
  ultimately show ?thesis using assms(1) Cons waiting_signal
    by (cases m) (simp_all add: next_signal_def Let_def)
qed (use assms in \<open>simp add: next_signal_def\<close>)

lemma waiting_remove:
  assumes "waiting_inv s" "\<And>k. here s = Some k \<Longrightarrow> k < length (connections s)"
  shows "waiting_inv (remove_participant s)"
  using assms by (auto simp: remove_participant_def split: option.split intro!: waiting_set_pc simp: untouched_def pc_def)

text \<open>The entry of the participant is one of the connections.\<close>

definition placed :: "participant \<Rightarrow> bool" where
  "placed s = (case here s of None \<Rightarrow> True | Some k \<Rightarrow> k < length (connections s))"

definition whereabouts :: "participant \<Rightarrow> nat option \<times> nat" where
  "whereabouts s = (here s, length (connections s))"

lemma whereabouts_simps [simp]:
  "whereabouts (set_pc k f s) = whereabouts s" "whereabouts (say m s) = whereabouts s"
  "whereabouts (s\<lparr>handler := h\<rparr>) = whereabouts s" "whereabouts (s\<lparr>inbox := ms\<rparr>) = whereabouts s"
  "whereabouts (s\<lparr>descriptions_made := n\<rparr>) = whereabouts s" "whereabouts (s\<lparr>engine_disposed := b\<rparr>) = whereabouts s"
  "whereabouts (call_operation k op who s) = whereabouts s" "whereabouts (watch_offer k s) = whereabouts s"
  "whereabouts (end_negotiation k b s) = whereabouts s" "whereabouts (signal_fails w s) = whereabouts s"
  by (simp_all add: whereabouts_def call_operation_def watch_offer_def end_negotiation_def signal_fails_def)

lemma whereabouts_drain [simp]: "whereabouts (drain k d as s) = whereabouts s"
  by (simp add: drain_def split: list.split)

lemma whereabouts_handler [simp]: "whereabouts (continue_handler k b s) = whereabouts s"
  by (auto simp: continue_handler_def Let_def split: option.split prod.split handler_phase.split)

lemma whereabouts_steps [simp]:
  "whereabouts (operation_done k b s) = whereabouts s" "whereabouts (continue_negotiation k b s) = whereabouts s"
  "whereabouts (negotiate k s) = whereabouts s" "whereabouts (first_offer k s) = whereabouts s"
  "whereabouts (resend_settles k s) = whereabouts s" "whereabouts (handler_proceeds b s) = whereabouts s"
  "whereabouts (signal_arrives m s) = whereabouts s" "whereabouts (offer_timer_fires k s) = whereabouts s"
  "whereabouts (handle_candidate k a s) = whereabouts s" "whereabouts (handle_description k d s) = whereabouts s"
  by (auto simp: operation_done_def continue_negotiation_def negotiate_def first_offer_def resend_settles_def handler_proceeds_def
      signal_arrives_def offer_timer_fires_def handle_candidate_def handle_description_def Let_def
      split: option.split prod.split list.split owner.split negotiation_phase.split handler_phase.split)

lemma placed_whereabouts: "whereabouts s' = whereabouts s \<Longrightarrow> placed s \<Longrightarrow> placed s'"
  by (auto simp: placed_def whereabouts_def split: option.splits)

lemma placed_add: "placed s \<Longrightarrow> placed (add_participant s)"
  by (auto simp: placed_def add_participant_def split: option.splits)

lemma placed_step:
  assumes "placed s"
  shows "placed (negotiation_step s e)"
proof (cases e)
  case Leaves
  with assms show ?thesis by (auto simp: placed_def remove_participant_def split: option.splits)
next
  case Disposes
  with assms show ?thesis by (auto simp: placed_def dispose_participant_def remove_participant_def split: option.splits)
next
  case Next_signal
  have "placed (add_participant (s\<lparr>inbox := ms\<rparr>))" for ms
    by (rule placed_add) (rule placed_whereabouts [OF _ assms], simp)
  then have "placed (handle_candidate k a (add_participant (s\<lparr>inbox := ms\<rparr>)))"
      "placed (handle_description k d (add_participant (s\<lparr>inbox := ms\<rparr>)))" "placed (say m (s\<lparr>inbox := ms\<rparr>))" for k a d m ms
    by (auto intro: placed_whereabouts [rotated, OF assms] placed_whereabouts)
  with assms Next_signal show ?thesis
    by (auto simp: next_signal_def Let_def split: list.split media_signal.split)
qed (use assms placed_add in \<open>auto intro: placed_whereabouts\<close>)

lemma waiting_step:
  assumes "waiting_inv s" "placed s"
  shows "waiting_inv (negotiation_step s e)"
proof -
  have here: "k < length (connections s)" if "here s = Some k" for k using assms(2) that by (simp add: placed_def)
  show ?thesis
  proof (cases e)
    case Disposes
    have "waiting_inv (remove_participant (s\<lparr>engine_disposed := True\<rparr>))"
      by (rule waiting_remove) (use assms(1) here in simp_all)
    with Disposes show ?thesis by (simp add: dispose_participant_def)
  next
    case (Handler_proceeds ok)
    with assms(1) show ?thesis
      by (auto simp: handler_proceeds_def signal_fails_def split: option.split prod.split handler_phase.split)
  next
    case (Signal_arrives m)
    with assms(1) show ?thesis by (simp add: signal_arrives_def)
  qed (use assms(1) here in \<open>simp_all add: waiting_add waiting_remove first_offer_def waiting_negotiate waiting_operation_done
      waiting_continue_negotiation waiting_timer waiting_resend waiting_next\<close>)
qed

interpretation waiting: event_machine negotiation_step "\<lambda>s. waiting_inv s \<and> placed s"
  by unfold_locales (simp add: waiting_step placed_step)

text \<open>
  Two participants that meet do not collide: the polite one sends no offer before the
  browser has taken an offer of the other, whatever asks for a negotiation and whatever timers
  fire.
\<close>

theorem polite_waits_for_offer:
  assumes "s = foldl negotiation_step (new_participant True direct) es"
    and "list_all (\<lambda>c. remote_description c = None) (connections s)"
  shows "list_all (\<lambda>m. \<not> is_offer m) (sent s)"
proof -
  have keep: "polite (negotiation_step s e) = polite s" for s e
    by (cases e) (auto simp: add_participant_def remove_participant_def dispose_participant_def first_offer_def negotiate_def
        call_operation_def operation_done_def continue_handler_def drain_def signal_fails_def watch_offer_def end_negotiation_def
        continue_negotiation_def offer_timer_fires_def resend_settles_def signal_arrives_def next_signal_def handle_candidate_def
        handle_description_def handler_proceeds_def Let_def
        split: option.split prod.split list.split owner.split negotiation_phase.split handler_phase.split media_signal.split)
  have "polite (foldl negotiation_step s es) = polite s" for s
    by (induction es arbitrary: s) (simp_all add: keep)
  moreover have "waiting_inv (foldl negotiation_step (new_participant True direct) es)"
    using waiting.run_inv [of "new_participant True direct" es]
    by (simp add: waiting_inv_def placed_def new_participant_def)
  ultimately show ?thesis
    using assms by (auto simp: waiting_inv_def new_participant_def list_all_iff list_ex_iff Let_def)
qed

theorem polite_waits_for_offer_witness:
  "list_all (\<lambda>m. \<not> is_offer m)
     (sent (foldl negotiation_step (new_participant True False) [Joins, First_offer 0, Negotiation_needed 0, Offer_timer_fires 0]))"
  by (rule polite_waits_for_offer [OF refl]) (simp add: negotiation_eval Let_def)

end

