(* ===== verification/Permissions.thy ===== *)
theory Permissions
  imports Prelude
begin

text \<open>
  Channel permission overrides and the community role hierarchy
  (\<open>features/rooms/channelPermissions.ts\<close>, \<open>features/rooms/communityRoles.ts\<close>).

  An override belongs to one subject (a role or a member) and maps some of the four channel
  permissions to allow or deny; a permission it does not mention is inherited. The theory
  shows that editing one cell of the override table changes that cell only and keeps the
  table normal, and that the role comparison never lets two actors manage each other.
\<close>

section \<open>Overrides\<close>

datatype channel_permission = Read_channel | Post | Join_voice | Pin_messages

datatype permission_value = Allow | Deny

datatype override_choice = Choose permission_value | Inherit

record channel_override =
  subject_key :: string
  permissions :: "(channel_permission, permission_value) jsmap"

definition edited_permissions ::
  "(channel_permission, permission_value) jsmap \<Rightarrow> channel_permission \<Rightarrow> override_choice \<Rightarrow>
   (channel_permission, permission_value) jsmap" where
  "edited_permissions copied permission value =
     (case value of Inherit \<Rightarrow> jdel copied permission | Choose v \<Rightarrow> jset copied permission v)"

definition current_permissions ::
  "channel_override list \<Rightarrow> string \<Rightarrow> (channel_permission, permission_value) jsmap" where
  "current_permissions overrides subject =
     (case find (\<lambda>override. subject_key override = subject) overrides of
        None \<Rightarrow> [] | Some current \<Rightarrow> permissions current)"

definition set_channel_override ::
  "channel_override list \<Rightarrow> string \<Rightarrow> channel_permission \<Rightarrow> override_choice \<Rightarrow> channel_override list" where
  "set_channel_override overrides subject permission value =
     (let perms = edited_permissions (current_permissions overrides subject) permission value;
          others = filter (\<lambda>override. subject_key override \<noteq> subject) overrides
      in if length (jkeys perms) \<noteq> 0
         then others @ [\<lparr>subject_key = subject, permissions = perms\<rparr>]
         else others)"

text \<open>What the table says about one cell; \<open>None\<close> is inherited.\<close>

definition override_value :: "channel_override list \<Rightarrow> string \<Rightarrow> channel_permission \<Rightarrow> permission_value option" where
  "override_value overrides subject permission = jget (current_permissions overrides subject) permission"

definition choice_value :: "override_choice \<Rightarrow> permission_value option" where
  "choice_value c = (case c of Inherit \<Rightarrow> None | Choose v \<Rightarrow> Some v)"

text \<open>A normal table: one override per subject, none of them empty, no repeated permission.\<close>

definition normal_overrides :: "channel_override list \<Rightarrow> bool" where
  "normal_overrides overrides \<longleftrightarrow>
     distinct (map subject_key overrides) \<and>
     (\<forall>override\<in>set overrides.
        permissions override \<noteq> [] \<and> distinct (jkeys (permissions override)))"

lemma jget_edited_permissions:
  "jget (edited_permissions m p v) p' = (if p' = p then choice_value v else jget m p')"
  by (cases v) (simp_all add: edited_permissions_def choice_value_def)

lemma distinct_edited_permissions:
  "distinct (jkeys m) \<Longrightarrow> distinct (jkeys (edited_permissions m p v))"
  by (cases v) (simp_all add: edited_permissions_def)

lemma current_permissions_others:
  "current_permissions (filter (\<lambda>override. subject_key override \<noteq> s) ovs) s' =
     (if s' = s then [] else current_permissions ovs s')"
  by (induction ovs) (auto simp: current_permissions_def)

lemma current_permissions_snoc:
  "current_permissions (filter (\<lambda>override. subject_key override \<noteq> s) ovs @ [\<lparr>subject_key = s, permissions = m\<rparr>]) s' =
     (if s' = s then m else current_permissions ovs s')"
  by (induction ovs) (auto simp: current_permissions_def)

lemma current_permissions_distinct:
  "normal_overrides ovs \<Longrightarrow> distinct (jkeys (current_permissions ovs s))"
  by (auto simp: current_permissions_def normal_overrides_def find_Some_iff split: option.split)

lemma current_permissions_set_channel_override:
  "current_permissions (set_channel_override ovs s p v) s' =
     (if s' = s then edited_permissions (current_permissions ovs s) p v
      else current_permissions ovs s')"
  by (auto simp: set_channel_override_def Let_def current_permissions_snoc
      current_permissions_others jkeys_def)

text \<open>
  Setting one permission of one subject changes exactly that cell of the override
  table: afterwards the cell holds the chosen value (or is inherited), and every other
  cell, of the same or of another subject, holds what it held before.
\<close>

theorem set_channel_override_cell:
  "override_value (set_channel_override ovs s p v) s' p' =
     (if s' = s \<and> p' = p then choice_value v else override_value ovs s' p')"
  by (simp add: override_value_def current_permissions_set_channel_override jget_edited_permissions)

text \<open>
  A normal override table stays normal: no subject gets a second override and an
  override whose last permission becomes inherited disappears from the table.
\<close>

theorem set_channel_override_normal:
  assumes "normal_overrides ovs"
  shows "normal_overrides (set_channel_override ovs s p v)"
proof -
  have "distinct (jkeys (edited_permissions (current_permissions ovs s) p v))"
    by (intro distinct_edited_permissions current_permissions_distinct assms)
  then show ?thesis
    using assms unfolding set_channel_override_def Let_def
    by (auto simp: normal_overrides_def distinct_map_filter)
qed

theorem set_channel_override_normal_witness:
  "normal_overrides (set_channel_override
     [\<lparr>subject_key = ''role'', permissions = [(Post, Deny)]\<rparr>] ''role'' Post Inherit)"
  by (rule set_channel_override_normal) (simp add: normal_overrides_def)

section \<open>Roles\<close>

text \<open>
  \<open>roleRank\<close> is a plain object indexed with an arbitrary string. Beside its four own
  keys a lookup finds the properties of \<open>Object.prototype\<close>, none of which is a number:
  such a role compares as \<open>NaN\<close>. \<open>None\<close> is an absent key.
\<close>

definition object_prototype_keys :: "string list" where
  "object_prototype_keys = [''constructor'', ''hasOwnProperty'', ''isPrototypeOf'',
     ''propertyIsEnumerable'', ''toLocaleString'', ''toString'', ''valueOf'', ''__proto__'',
     ''__defineGetter__'', ''__defineSetter__'', ''__lookupGetter__'', ''__lookupSetter__'']"

definition role_rank :: "string \<Rightarrow> num option" where
  "role_rank role =
     (if role = ''owner'' then Some (Some 4)
      else if role = ''admin'' then Some (Some 3)
      else if role = ''moderator'' then Some (Some 2)
      else if role = ''member'' then Some (Some 1)
      else if role \<in> set object_prototype_keys then Some None
      else None)"

definition num_ge :: "num \<Rightarrow> num \<Rightarrow> bool" where
  "num_ge a b = (case (a, b) of (Some x, Some y) \<Rightarrow> x \<ge> y | _ \<Rightarrow> False)"

text \<open>\<open>actor\<close> may be undefined, which indexes the object with the key \<open>undefined\<close>.\<close>

definition actor_key :: "string option \<Rightarrow> string" where
  "actor_key actor = (case actor of None \<Rightarrow> ''undefined'' | Some a \<Rightarrow> a)"

definition can_manage_role :: "string option \<Rightarrow> string \<Rightarrow> bool" where
  "can_manage_role actor target =
     ((actor = Some ''owner'' \<or> actor = Some ''admin'') \<and>
      num_gt (nullish (role_rank (actor_key actor)) None) (nullish (role_rank target) (Some 0)))"

definition can_moderate_role :: "string option \<Rightarrow> string \<Rightarrow> bool" where
  "can_moderate_role actor target =
     (num_ge (nullish (role_rank (actor_key actor)) (Some 0)) (Some 2) \<and>
      num_gt (nullish (role_rank (actor_key actor)) (Some 0)) (nullish (role_rank target) (Some 1)))"

lemmas role_defs = can_manage_role_def can_moderate_role_def actor_key_def num_ge_def

lemma role_rank_le: "role_rank a = Some (Some x) \<Longrightarrow> x \<le> 4"
  by (auto simp: role_rank_def split: if_splits)

lemma role_rank_owner: "role_rank ''owner'' = Some (Some 4)"
  and role_rank_admin: "role_rank ''admin'' = Some (Some 3)"
  by (simp_all add: role_rank_def)

lemma can_manage_ranks:
  assumes "can_manage_role (Some a) t"
  obtains x where "role_rank a = Some (Some x)" "x \<ge> 3"
    "role_rank t = None \<or> (\<exists>y. role_rank t = Some (Some y) \<and> y < x)"
proof -
  obtain x where x: "role_rank a = Some (Some x)" "x \<ge> 3"
    using assms role_rank_owner role_rank_admin by (auto simp: can_manage_role_def)
  moreover have "role_rank t = None \<or> (\<exists>y. role_rank t = Some (Some y) \<and> y < x)"
    using assms x by (cases "role_rank t") (auto simp: role_defs num_gt_def split: option.splits)
  ultimately show ?thesis by (rule that)
qed

text \<open>
  The role hierarchy is strict: whoever may manage a role may also moderate it, nobody
  may manage the owner role, and an actor that may be managed by another role can neither
  manage nor moderate that role.
\<close>

theorem role_hierarchy_strict:
  assumes "can_manage_role (Some a) t"
  shows "can_moderate_role (Some a) t \<and> t \<noteq> ''owner'' \<and>
    \<not> can_manage_role (Some t) a \<and> \<not> can_moderate_role (Some t) a"
proof -
  obtain x where x: "role_rank a = Some (Some x)" "x \<ge> 3"
    and t: "role_rank t = None \<or> (\<exists>y. role_rank t = Some (Some y) \<and> y < x)"
    using can_manage_ranks [OF assms] by blast
  have "can_moderate_role (Some a) t" "\<not> can_moderate_role (Some t) a"
    using x t by (auto simp: role_defs)
  moreover have "\<not> can_manage_role (Some t) a"
    using x t by (auto elim!: can_manage_ranks)
  moreover have "t \<noteq> ''owner''"
    using role_rank_le [OF x(1)] t by (auto simp: role_rank_owner)
  ultimately show ?thesis by blast
qed

theorem role_hierarchy_strict_witness:
  "can_moderate_role (Some ''admin'') ''moderator'' \<and> \<not> can_manage_role (Some ''moderator'') ''admin''"
proof -
  have "can_manage_role (Some ''admin'') ''moderator''"
    by (simp add: role_defs role_rank_def)
  from role_hierarchy_strict [OF this] show ?thesis by blast
qed

end
