(* ===== verification/PreviewQueue.thy ===== *)
theory PreviewQueue
  imports Prelude "HOL-Library.Word"
begin

text \<open>
  The shared queue of native thumbnail requests, the decoding of what the native host
  returns and the preview cache (\<open>features/sharing/previewQueue.ts\<close>).

  A request is named by a number. A started request stays in \<open>running\<close> until its promise
  settles; the \<open>finally\<close> handler then gives its slot back and pumps again. The module
  state is \<open>queue\<close> and \<open>active\<close>; \<open>running\<close> and the log \<open>started\<close> record what the
  queue did to its requests.
\<close>

section \<open>The queue\<close>

record preview_state =
  queue :: "nat list"
  active :: nat
  running :: "nat list"
  started :: "nat list"

definition concurrency :: nat where
  "concurrency = 2"

definition preview_init :: preview_state where
  "preview_init = \<lparr>queue = [], active = 0, running = [], started = []\<rparr>"

definition launch :: "preview_state \<Rightarrow> preview_state" where
  "launch s = s\<lparr>queue := tl (queue s), active := Suc (active s),
     running := running s @ [hd (queue s)], started := started s @ [hd (queue s)]\<rparr>"

function pump :: "preview_state \<Rightarrow> preview_state" where
  "pump s = (if active s < concurrency \<and> queue s \<noteq> [] then pump (launch s) else s)"
  by pat_completeness auto
termination
  by (relation "measure (\<lambda>s. length (queue s))") (auto simp: launch_def)

declare pump.simps [simp del]

definition enqueue_preview :: "preview_state \<Rightarrow> nat \<Rightarrow> preview_state" where
  "enqueue_preview s request = pump (s\<lparr>queue := queue s @ [request]\<rparr>)"

definition cancel_preview :: "preview_state \<Rightarrow> nat \<Rightarrow> preview_state" where
  "cancel_preview s request = s\<lparr>queue := remove1 request (queue s)\<rparr>"

text \<open>The \<open>finally\<close> handler of a started request.\<close>

definition finish_preview :: "preview_state \<Rightarrow> nat \<Rightarrow> preview_state" where
  "finish_preview s request =
     (if request \<in> set (running s)
      then pump (s\<lparr>running := remove1 request (running s), active := active s - 1\<rparr>)
      else s)"

datatype preview_event = Enqueue nat | Cancel nat | Settle nat

fun preview_step :: "preview_state \<Rightarrow> preview_event \<Rightarrow> preview_state" where
  "preview_step s (Enqueue r) = enqueue_preview s r"
| "preview_step s (Cancel r) = cancel_preview s r"
| "preview_step s (Settle r) = finish_preview s r"

text \<open>The slots are never exceeded, and no request waits while a slot is free.\<close>

definition preview_inv :: "preview_state \<Rightarrow> bool" where
  "preview_inv s \<longleftrightarrow> active s = length (running s) \<and> active s \<le> concurrency \<and>
     (queue s \<noteq> [] \<longrightarrow> active s = concurrency)"

lemma launch_slots:
  assumes "active s = length (running s)" "active s < concurrency" "queue s \<noteq> []"
  shows "active (launch s) = length (running (launch s))" "active (launch s) \<le> concurrency"
    "started (launch s) @ queue (launch s) = started s @ queue s"
  using assms by (auto simp: launch_def)

lemma pump_inv:
  "active s = length (running s) \<Longrightarrow> active s \<le> concurrency \<Longrightarrow> preview_inv (pump s)"
proof (induction s rule: pump.induct)
  case (1 s)
  show ?case
  proof (cases "active s < concurrency \<and> queue s \<noteq> []")
    case True
    then show ?thesis
      using "1.IH" [OF True] launch_slots [of s] "1.prems" by (simp add: pump.simps [of s])
  next
    case False
    with "1.prems" show ?thesis by (simp add: pump.simps [of s] preview_inv_def) linarith
  qed
qed

lemma pump_order:
  "started (pump s) @ queue (pump s) = started s @ queue s"
proof (induction s rule: pump.induct)
  case (1 s)
  then show ?case
    by (cases "active s < concurrency \<and> queue s \<noteq> []") (auto simp: pump.simps [of s] launch_def)
qed

lemma preview_step_inv:
  assumes "preview_inv s"
  shows "preview_inv (preview_step s e)"
proof (cases e)
  case (Enqueue r)
  have "preview_inv (pump (s\<lparr>queue := queue s @ [r]\<rparr>))"
    by (rule pump_inv) (use assms in \<open>simp_all add: preview_inv_def\<close>)
  then show ?thesis by (simp add: Enqueue enqueue_preview_def)
next
  case (Cancel r)
  with assms show ?thesis by (auto simp: cancel_preview_def preview_inv_def)
next
  case (Settle r)
  have "preview_inv (pump (s\<lparr>running := remove1 r (running s), active := active s - 1\<rparr>))"
    if "r \<in> set (running s)"
    by (rule pump_inv) (use assms that in \<open>auto simp: preview_inv_def length_remove1\<close>)
  then show ?thesis using assms by (simp add: Settle finish_preview_def)
qed

interpretation previews: event_machine preview_step preview_inv
  by unfold_locales (rule preview_step_inv)

lemma preview_init_inv: "preview_inv preview_init"
  by (simp add: preview_inv_def preview_init_def)

text \<open>
  Whatever sequence of enqueue, cancel and completion events reaches the preview queue,
  at most two native thumbnail requests are in flight, the counter equals the number of
  requests in flight, and a request waits in the queue only while both slots are taken.
\<close>

theorem preview_queue_work_conserving:
  "let s = foldl preview_step preview_init es in
     active s = length (running s) \<and> length (running s) \<le> 2 \<and>
     (queue s \<noteq> [] \<longrightarrow> length (running s) = 2)"
  using previews.run_inv [OF preview_init_inv, of es]
  by (auto simp: preview_inv_def concurrency_def Let_def)

theorem preview_queue_work_conserving_witness:
  "active (foldl preview_step preview_init [Enqueue 1, Enqueue 2, Enqueue 3, Settle 1]) =
   length (running (foldl preview_step preview_init [Enqueue 1, Enqueue 2, Enqueue 3, Settle 1]))"
  using preview_queue_work_conserving [of "[Enqueue 1, Enqueue 2, Enqueue 3, Settle 1]"]
  by (simp add: Let_def)

text \<open>Requests start in the order they were enqueued; cancelling only removes a waiting one.\<close>

fun enqueued :: "preview_event list \<Rightarrow> nat list" where
  "enqueued [] = []"
| "enqueued (Enqueue r # es) = r # enqueued es"
| "enqueued (_ # es) = enqueued es"

lemma preview_step_order:
  "(\<And>r. e \<noteq> Cancel r) \<Longrightarrow>
   started (preview_step s e) @ queue (preview_step s e) = started s @ queue s @ enqueued [e]"
  by (cases e) (auto simp: enqueue_preview_def finish_preview_def pump_order)

text \<open>
  Thumbnail requests start in the order they were enqueued and none is lost: without
  cancellations, the requests started so far followed by those still waiting are exactly
  the enqueued ones, in their order.
\<close>

theorem preview_queue_fifo:
  "(\<forall>e\<in>set es. \<forall>r. e \<noteq> Cancel r) \<Longrightarrow>
   started (foldl preview_step s es) @ queue (foldl preview_step s es) = started s @ queue s @ enqueued es"
proof (induction es arbitrary: s)
  case (Cons e es)
  have "started (preview_step s e) @ queue (preview_step s e) = started s @ queue s @ enqueued [e]"
    by (rule preview_step_order) (use Cons.prems in auto)
  moreover have "enqueued (e # es) = enqueued [e] @ enqueued es" by (cases e) auto
  ultimately show ?case
    using Cons.IH [of "preview_step s e"] Cons.prems by simp
qed simp

theorem preview_queue_fifo_witness:
  "started (foldl preview_step preview_init [Enqueue 7, Enqueue 8, Enqueue 9, Settle 7]) @
   queue (foldl preview_step preview_init [Enqueue 7, Enqueue 8, Enqueue 9, Settle 7]) = [7, 8, 9]"
  by (subst preview_queue_fifo) (simp_all add: preview_init_def)

section \<open>Refinement of a waiting line\<close>

text \<open>
  What the queue promises: the requests that have not settled form a line in the order they
  came, and the first two of the line are the ones in flight.
\<close>

fun line_step :: "nat list \<Rightarrow> preview_event \<Rightarrow> nat list" where
  "line_step l (Enqueue r) = l @ [r]"
| "line_step l (Cancel r) = take 2 l @ remove1 r (drop 2 l)"
| "line_step l (Settle r) = remove1 r (take 2 l) @ drop 2 l"

definition preview_line :: "preview_state \<Rightarrow> nat list" where
  "preview_line s = running s @ queue s"

lemma preview_line_pump: "preview_line (pump s) = preview_line s"
proof (induction s rule: pump.induct)
  case (1 s)
  then show ?case
    by (cases "active s < concurrency \<and> queue s \<noteq> []") (auto simp: pump.simps [of s] launch_def preview_line_def)
qed

lemma preview_line_split:
  assumes "preview_inv s"
  shows "take 2 (preview_line s) = running s" "drop 2 (preview_line s) = queue s"
  using assms by (cases "queue s = []"; simp add: preview_line_def preview_inv_def concurrency_def)+

lemma preview_line_step:
  assumes "preview_inv s"
  shows "preview_line (preview_step s e) = line_step (preview_line s) e"
proof (cases e)
  case (Enqueue r)
  then show ?thesis by (simp add: enqueue_preview_def preview_line_pump) (simp add: preview_line_def)
next
  case (Cancel r)
  with preview_line_split [OF assms] show ?thesis by (simp add: cancel_preview_def) (simp add: preview_line_def)
next
  case (Settle r)
  show ?thesis
  proof (cases "r \<in> set (running s)")
    case True
    with Settle preview_line_split [OF assms] show ?thesis
      by (simp add: finish_preview_def preview_line_pump) (simp add: preview_line_def)
  next
    case False
    with Settle preview_line_split [OF assms] show ?thesis
      by (simp add: finish_preview_def remove1_idem) (simp add: preview_line_def)
  qed
qed

lemma preview_line_run:
  "preview_inv s \<Longrightarrow> preview_line (foldl preview_step s es) = foldl line_step (preview_line s) es"
  by (induction es arbitrary: s) (simp_all add: preview_line_step preview_step_inv)

text \<open>
  C23. The preview queue implements a waiting line served by two: after any sequence of
  enqueue, cancel and completion events the requests in flight, followed by the waiting ones,
  are the unsettled requests in the order they came, and the first two of them are in flight.
\<close>

theorem preview_queue_is_a_line:
  "let s = foldl preview_step preview_init es; l = foldl line_step [] es in
     running s = take 2 l \<and> queue s = drop 2 l \<and> active s = length (take 2 l)"
proof -
  let ?s = "foldl preview_step preview_init es"
  have inv: "preview_inv ?s" by (rule previews.run_inv [OF preview_init_inv])
  have "preview_line ?s = foldl line_step [] es"
    using preview_line_run [OF preview_init_inv, of es] by (simp add: preview_line_def preview_init_def)
  with preview_line_split [OF inv] inv show ?thesis by (simp add: preview_inv_def del: length_take)
qed

section \<open>What the native host returns\<close>

text \<open>
  \<open>new Uint8Array(array)\<close> converts each number modulo 256 (\<open>NaN\<close> becomes 0). A view is
  its buffer with an offset and a length.
\<close>

datatype native_data =
    Array_buffer "8 word list"
  | Buffer_view "8 word list" nat nat
  | Number_array "num list"
  | Wrapped_array "num list"
  | Other_data

definition to_uint8 :: "num \<Rightarrow> 8 word" where
  "to_uint8 n = (case n of None \<Rightarrow> 0 | Some i \<Rightarrow> word_of_int i)"

fun thumbnail_bytes :: "native_data \<Rightarrow> 8 word list option" where
  "thumbnail_bytes (Array_buffer bs) = Some bs"
| "thumbnail_bytes (Buffer_view buffer offset len) = Some (take len (drop offset buffer))"
| "thumbnail_bytes (Number_array ns) = Some (map to_uint8 ns)"
| "thumbnail_bytes (Wrapped_array ns) = Some (map to_uint8 ns)"
| "thumbnail_bytes Other_data = None"

definition is_complete_jpeg :: "8 word list \<Rightarrow> bool" where
  "is_complete_jpeg bytes =
     (length bytes \<ge> 4 \<and> bytes ! 0 = 255 \<and> bytes ! 1 = 216 \<and>
      bytes ! (length bytes - 2) = 255 \<and> bytes ! (length bytes - 1) = 217)"

section \<open>The cache\<close>

record preview_entry =
  blob_size :: nat
  stored_at :: int

type_synonym preview_cache = "(string, preview_entry) jsmap"

definition max_entries :: nat where "max_entries = 32"
definition max_bytes :: nat where "max_bytes = 8 * 1024 * 1024"

definition cache_bytes :: "preview_cache \<Rightarrow> nat" where
  "cache_bytes cache = sum_list (map blob_size (jvals cache))"

text \<open>The trimming loop deletes the first key while a limit is exceeded.\<close>

function trim_cache :: "preview_cache \<Rightarrow> preview_cache" where
  "trim_cache [] = []"
| "trim_cache (e # cache) =
     (if length (e # cache) > max_entries \<or> cache_bytes (e # cache) > max_bytes
      then trim_cache (jdel (e # cache) (fst e)) else e # cache)"
  by pat_completeness auto
termination
  by (relation "measure length") (auto simp: jdel_def less_Suc_eq_le)

definition cache_preview :: "preview_cache \<Rightarrow> string \<Rightarrow> nat \<Rightarrow> int \<Rightarrow> preview_cache" where
  "cache_preview cache key bytes now =
     trim_cache (jset (jdel cache key) key \<lparr>blob_size = bytes, stored_at = now\<rparr>)"

lemma trim_cache_bounds:
  "length (trim_cache c) \<le> max_entries \<and> cache_bytes (trim_cache c) \<le> max_bytes"
  by (induction c rule: trim_cache.induct) (auto simp: cache_bytes_def)

lemma trim_cache_suffix:
  "distinct (jkeys c) \<Longrightarrow> \<exists>i. trim_cache c = drop i c"
proof (induction c rule: trim_cache.induct)
  case (2 e cache)
  show ?case
  proof (cases "length (e # cache) > max_entries \<or> cache_bytes (e # cache) > max_bytes")
    case True
    have "\<exists>i. trim_cache cache = drop i cache"
      using "2.IH" [OF True] "2.prems" jdel_head [OF "2.prems"] by simp
    then obtain i where "trim_cache cache = drop (Suc i) (e # cache)" by auto
    moreover have "trim_cache (e # cache) = trim_cache cache"
      using True jdel_head [OF "2.prems"] by simp
    ultimately show ?thesis by (metis)
  next
    case False
    then show ?thesis by (auto intro: exI [of _ 0])
  qed
qed simp

lemma cache_bytes_append: "cache_bytes (a @ b) = cache_bytes a + cache_bytes b"
  by (simp add: cache_bytes_def jvals_def)

lemma trim_cache_last:
  "distinct (jkeys (c @ [e])) \<Longrightarrow> blob_size (snd e) \<le> max_bytes \<Longrightarrow> e \<in> set (trim_cache (c @ [e]))"
proof (induction c)
  case Nil
  then show ?case by (simp add: cache_bytes_def max_entries_def)
next
  case (Cons a c)
  then show ?case using jdel_head [of a "c @ [e]"] by simp
qed

text \<open>
  Storing a preview bounds the cache to 32 entries and 8 MiB whatever it held before;
  what is evicted is the oldest part of it, and the preview just stored is kept whenever it
  fits the byte limit by itself.
\<close>

theorem cache_preview_bounded:
  assumes "distinct (jkeys cache)"
  shows "length (cache_preview cache key bytes now) \<le> 32 \<and>
    cache_bytes (cache_preview cache key bytes now) \<le> 8388608 \<and>
    (\<exists>i. cache_preview cache key bytes now = drop i (jdel cache key @ [(key, \<lparr>blob_size = bytes, stored_at = now\<rparr>)])) \<and>
    (bytes \<le> 8388608 \<longrightarrow> (key, \<lparr>blob_size = bytes, stored_at = now\<rparr>) \<in> set (cache_preview cache key bytes now))"
proof -
  note e = jset_jdel [of cache key "\<lparr>blob_size = bytes, stored_at = now\<rparr>"]
  have d: "distinct (jkeys (jdel cache key @ [(key, \<lparr>blob_size = bytes, stored_at = now\<rparr>)]))"
    using assms by (simp flip: e)
  show ?thesis
    using trim_cache_bounds [of "jdel cache key @ [(key, \<lparr>blob_size = bytes, stored_at = now\<rparr>)]"] trim_cache_suffix [OF d]
      trim_cache_last [OF d]
    by (auto simp: cache_preview_def jset_jdel max_entries_def max_bytes_def)
qed

theorem cache_preview_bounded_witness:
  "length (cache_preview [(''a'', \<lparr>blob_size = 8000000, stored_at = 0\<rparr>)] ''b'' 500000 1) \<le> 32"
  using cache_preview_bounded [of "[(''a'', \<lparr>blob_size = 8000000, stored_at = 0\<rparr>)]" "''b''" 500000 1]
  by simp

end
