(* ===== verification/ImageEdit.thy ===== *)
theory ImageEdit
  imports JsNumbers
begin

text \<open>
  The coordinate model of the image editor (\<open>features/chat/imageEditorModel.ts\<close>).

  Canvas coordinates are JavaScript numbers; they are real numbers here (no rounding to
  double precision), and a numeric input that may be \<open>NaN\<close> or infinite is a
  \<open>real option\<close> with \<open>None\<close> for a number that is not finite. The theory shows that
  every rectangle and point the editor computes stays inside the image it belongs to, that
  a quarter turn keeps crop and marks inside the turned image and that four of them give
  the edit back.
\<close>

record point =
  px :: real
  py :: real

record image_rect =
  rx :: real
  ry :: real
  rwidth :: real
  rheight :: real

datatype image_mark =
    Draw "point list" string real
  | Arrow point point string real
  | Redact image_rect

record image_edit =
  source_width :: real
  source_height :: real
  turns :: int
  crop :: image_rect
  marks :: "image_mark list"

definition limit_pixels :: real where "limit_pixels = 12000000"
definition limit_edge :: real where "limit_edge = 8192"

datatype image_error = Invalid_dimensions | Too_large

definition is_integer :: "real \<Rightarrow> bool" where
  "is_integer x = (of_int \<lfloor>x\<rfloor> = x)"

definition check_image_dimensions :: "real \<Rightarrow> real \<Rightarrow> image_error + unit" where
  "check_image_dimensions w h =
     (if \<not> is_integer w \<or> \<not> is_integer h \<or> w < 1 \<or> h < 1 then Inl Invalid_dimensions
      else if w > limit_edge \<or> h > limit_edge \<or> w * h > limit_pixels then Inl Too_large
      else Inr ())"

definition initial_image_edit :: "real \<Rightarrow> real \<Rightarrow> image_error + image_edit" where
  "initial_image_edit w h =
     (case check_image_dimensions w h of
        Inl e \<Rightarrow> Inl e
      | Inr _ \<Rightarrow> Inr \<lparr>source_width = w, source_height = h, turns = 0,
                   crop = \<lparr>rx = 0, ry = 0, rwidth = w, rheight = h\<rparr>, marks = []\<rparr>)"

text \<open>\<open>bounds\<close> is the client rectangle: left and top are its \<open>rx\<close> and \<open>ry\<close>.\<close>

definition image_point :: "point \<Rightarrow> image_rect \<Rightarrow> image_rect \<Rightarrow> point" where
  "image_point client bounds c =
     \<lparr>px = rx c + min 1 (max 0 ((px client - rx bounds) / max 1 (rwidth bounds))) * rwidth c,
      py = ry c + min 1 (max 0 ((py client - ry bounds) / max 1 (rheight bounds))) * rheight c\<rparr>"

definition rect_from_points :: "point \<Rightarrow> point \<Rightarrow> image_rect" where
  "rect_from_points from to =
     \<lparr>rx = min (px from) (px to), ry = min (py from) (py to),
      rwidth = \<bar>px to - px from\<bar>, rheight = \<bar>py to - py from\<bar>\<rparr>"

record numeric_rect =
  nx :: "real option"
  ny :: "real option"
  nwidth :: "real option"
  nheight :: "real option"

definition selection_rect :: "image_edit \<Rightarrow> numeric_rect \<Rightarrow> image_rect" where
  "selection_rect edit r =
     (let c = crop edit;
          x = max 0 (min (rwidth c - 1) (math_round (nullish (nx r) 0)));
          y = max 0 (min (rheight c - 1) (math_round (nullish (ny r) 0)))
      in \<lparr>rx = rx c + x, ry = ry c + y,
          rwidth = max 1 (min (rwidth c - x) (math_round (nullish (nwidth r) 1))),
          rheight = max 1 (min (rheight c - y) (math_round (nullish (nheight r) 1)))\<rparr>)"

definition turn_point :: "real \<Rightarrow> point \<Rightarrow> point" where
  "turn_point height p = \<lparr>px = height - py p, py = px p\<rparr>"

definition turn_rect :: "real \<Rightarrow> image_rect \<Rightarrow> image_rect" where
  "turn_rect height r =
     \<lparr>rx = height - ry r - rheight r, ry = rx r, rwidth = rheight r, rheight = rwidth r\<rparr>"

fun turn_mark :: "real \<Rightarrow> image_mark \<Rightarrow> image_mark" where
  "turn_mark height (Draw ps color w) = Draw (map (turn_point height) ps) color w"
| "turn_mark height (Arrow a b color w) = Arrow (turn_point height a) (turn_point height b) color w"
| "turn_mark height (Redact r) = Redact (turn_rect height r)"

definition rotate_image_edit :: "image_edit \<Rightarrow> image_edit" where
  "rotate_image_edit edit =
     (let height = (if turns edit mod 2 \<noteq> 0 then source_width edit else source_height edit)
      in edit\<lparr>turns := (turns edit + 1) mod 4, crop := turn_rect height (crop edit),
              marks := map (turn_mark height) (marks edit)\<rparr>)"

section \<open>Inside the image\<close>

definition inside :: "real \<Rightarrow> real \<Rightarrow> image_rect \<Rightarrow> bool" where
  "inside w h r \<longleftrightarrow> 0 \<le> rx r \<and> 0 \<le> ry r \<and> 0 \<le> rwidth r \<and> 0 \<le> rheight r \<and>
     rx r + rwidth r \<le> w \<and> ry r + rheight r \<le> h"

definition point_in :: "image_rect \<Rightarrow> point \<Rightarrow> bool" where
  "point_in r p \<longleftrightarrow> rx r \<le> px p \<and> px p \<le> rx r + rwidth r \<and> ry r \<le> py p \<and> py p \<le> ry r + rheight r"

definition full_rect :: "real \<Rightarrow> real \<Rightarrow> image_rect" where
  "full_rect w h = \<lparr>rx = 0, ry = 0, rwidth = w, rheight = h\<rparr>"

fun mark_inside :: "real \<Rightarrow> real \<Rightarrow> image_mark \<Rightarrow> bool" where
  "mark_inside w h (Draw ps _ _) = (\<forall>p\<in>set ps. point_in (full_rect w h) p)"
| "mark_inside w h (Arrow a b _ _) = (point_in (full_rect w h) a \<and> point_in (full_rect w h) b)"
| "mark_inside w h (Redact r) = inside w h r"

text \<open>The extent of the image after the turns made so far.\<close>

definition shown_width :: "image_edit \<Rightarrow> real" where
  "shown_width edit = (if turns edit mod 2 \<noteq> 0 then source_height edit else source_width edit)"

definition shown_height :: "image_edit \<Rightarrow> real" where
  "shown_height edit = (if turns edit mod 2 \<noteq> 0 then source_width edit else source_height edit)"

definition edit_wf :: "image_edit \<Rightarrow> bool" where
  "edit_wf edit \<longleftrightarrow> 0 \<le> turns edit \<and> turns edit < 4 \<and>
     inside (shown_width edit) (shown_height edit) (crop edit) \<and>
     1 \<le> rwidth (crop edit) \<and> 1 \<le> rheight (crop edit) \<and>
     (\<forall>m\<in>set (marks edit). mark_inside (shown_width edit) (shown_height edit) m)"

lemma turn_rect_inside: "inside w h r \<Longrightarrow> inside h w (turn_rect h r)"
  by (simp add: inside_def turn_rect_def)

lemma turn_point_in: "point_in (full_rect w h) p \<Longrightarrow> point_in (full_rect h w) (turn_point h p)"
  by (simp add: point_in_def full_rect_def turn_point_def)

lemma turn_mark_inside: "mark_inside w h m \<Longrightarrow> mark_inside h w (turn_mark h m)"
  by (cases m) (auto simp: turn_rect_inside turn_point_in)

lemma turns_flip: "(turns edit + 1) mod 4 mod 2 \<noteq> 0 \<longleftrightarrow> turns edit mod 2 = (0::int)"
  by presburger

text \<open>
  A quarter turn keeps an edit well formed: the crop rectangle and every pen stroke,
  arrow and redaction stay inside the image, whose width and height are exchanged, and the
  crop still shows at least one pixel.
\<close>

theorem rotate_image_edit_wf:
  assumes "edit_wf edit"
  shows "edit_wf (rotate_image_edit edit) \<and>
    shown_width (rotate_image_edit edit) = shown_height edit \<and>
    shown_height (rotate_image_edit edit) = shown_width edit"
proof -
  have w: "shown_width (rotate_image_edit edit) = shown_height edit"
    and h: "shown_height (rotate_image_edit edit) = shown_width edit"
    using turns_flip [of edit]
    by (simp_all add: shown_width_def shown_height_def rotate_image_edit_def Let_def)
  have "crop (rotate_image_edit edit) = turn_rect (shown_height edit) (crop edit)"
    and "marks (rotate_image_edit edit) = map (turn_mark (shown_height edit)) (marks edit)"
    by (simp_all add: rotate_image_edit_def Let_def shown_height_def)
  then have "edit_wf (rotate_image_edit edit)"
    using assms w h by (auto simp: edit_wf_def turn_rect_inside turn_mark_inside)
      (simp_all add: rotate_image_edit_def Let_def turn_rect_def)
  with w h show ?thesis by simp
qed

lemma rotate_twice:
  "rotate_image_edit (rotate_image_edit edit) =
     edit\<lparr>turns := (turns edit + 2) mod 4,
       crop := turn_rect (shown_width edit) (turn_rect (shown_height edit) (crop edit)),
       marks := map (turn_mark (shown_width edit) \<circ> turn_mark (shown_height edit)) (marks edit)\<rparr>"
  using turns_flip [of edit]
  by (cases "turns edit mod 2 = 0")
    (simp_all add: rotate_image_edit_def Let_def shown_width_def shown_height_def mod_simps add.assoc)

lemma turn_rect_four: "turn_rect w (turn_rect h (turn_rect w (turn_rect h r))) = r"
  by (simp add: turn_rect_def)

lemma turn_point_four: "turn_point w (turn_point h (turn_point w (turn_point h p))) = p"
  by (simp add: turn_point_def)

lemma turn_mark_four: "turn_mark w (turn_mark h (turn_mark w (turn_mark h m))) = m"
  by (cases m) (simp_all add: turn_rect_four turn_point_four o_def)

lemma shown_even_turns:
  "shown_width (edit\<lparr>turns := (turns edit + 2) mod 4, crop := c, marks := ms\<rparr>) = shown_width edit"
  "shown_height (edit\<lparr>turns := (turns edit + 2) mod 4, crop := c, marks := ms\<rparr>) = shown_height edit"
proof -
  have "(turns edit + 2) mod 4 mod 2 \<noteq> 0 \<longleftrightarrow> turns edit mod 2 \<noteq> (0::int)" by presburger
  then show "shown_width (edit\<lparr>turns := (turns edit + 2) mod 4, crop := c, marks := ms\<rparr>) = shown_width edit"
    and "shown_height (edit\<lparr>turns := (turns edit + 2) mod 4, crop := c, marks := ms\<rparr>) = shown_height edit"
    by (simp_all add: shown_width_def shown_height_def)
qed

text \<open>
  Four quarter turns give the edit back exactly: the turn count, the crop and every
  mark, whatever the edit is, as long as its turn count is one of the four the editor uses.
\<close>

theorem rotate_image_edit_four:
  assumes "0 \<le> turns edit" and "turns edit < 4"
  shows "rotate_image_edit (rotate_image_edit (rotate_image_edit (rotate_image_edit edit))) = edit"
proof -
  have "((turns edit + 2) mod 4 + 2) mod 4 = turns edit"
    using assms by (simp add: mod_simps add.assoc)
  then show ?thesis
    by (subst rotate_twice, subst rotate_twice)
      (simp add: shown_even_turns turn_rect_four turn_mark_four o_def)
qed

theorem rotate_image_edit_four_witness:
  "let e = \<lparr>source_width = 40, source_height = 30, turns = 3, crop = full_rect 30 40,
            marks = [Arrow \<lparr>px = 1, py = 2\<rparr> \<lparr>px = 3, py = 4\<rparr> ''red'' 2]\<rparr>
   in rotate_image_edit (rotate_image_edit (rotate_image_edit (rotate_image_edit e))) = e"
  unfolding Let_def by (rule rotate_image_edit_four) simp_all

theorem rotate_image_edit_wf_witness:
  "edit_wf (rotate_image_edit \<lparr>source_width = 40, source_height = 30, turns = 0,
     crop = full_rect 40 30, marks = [Redact \<lparr>rx = 1, ry = 2, rwidth = 3, rheight = 4\<rparr>]\<rparr>)"
  by (rule rotate_image_edit_wf [THEN conjunct1])
    (simp add: edit_wf_def inside_def full_rect_def shown_width_def shown_height_def)

text \<open>An edit the editor opens is well formed.\<close>

lemma initial_image_edit_wf: "initial_image_edit w h = Inr edit \<Longrightarrow> edit_wf edit"
  by (auto simp: initial_image_edit_def check_image_dimensions_def edit_wf_def inside_def
      shown_width_def shown_height_def split: sum.splits if_splits)

section \<open>Selections\<close>

lemma clamp_coordinate:
  fixes x :: real
  assumes "1 \<le> w"
  shows "0 \<le> max 0 (min (w - 1) x)" and "max 0 (min (w - 1) x) \<le> w - 1"
  using assms by auto

lemma clamp_extent:
  fixes x :: real
  assumes "x \<le> w - 1"
  shows "1 \<le> max 1 (min (w - x) y)" and "x + max 1 (min (w - x) y) \<le> w"
  using assms by auto

text \<open>
  A selection typed or drawn in the editor stays inside the visible crop, whatever
  numbers are entered (also \<open>NaN\<close> and infinities), and covers at least one pixel; a pointer
  position maps to a point of the crop even when the pointer is outside the canvas. So no
  selection can reveal pixels an earlier crop discarded.
\<close>

theorem selection_inside_crop:
  assumes "edit_wf edit"
  shows "rx (crop edit) \<le> rx (selection_rect edit r) \<and> ry (crop edit) \<le> ry (selection_rect edit r) \<and>
    1 \<le> rwidth (selection_rect edit r) \<and> 1 \<le> rheight (selection_rect edit r) \<and>
    rx (selection_rect edit r) + rwidth (selection_rect edit r) \<le> rx (crop edit) + rwidth (crop edit) \<and>
    ry (selection_rect edit r) + rheight (selection_rect edit r) \<le> ry (crop edit) + rheight (crop edit) \<and>
    point_in (crop edit) (image_point client bounds (crop edit))"
proof -
  have w: "1 \<le> rwidth (crop edit)" and h: "1 \<le> rheight (crop edit)"
    using assms by (auto simp: edit_wf_def)
  have frac: "0 \<le> min 1 (max 0 t) * l" "min 1 (max 0 t) * l \<le> l" if "1 \<le> l" for t l :: real
    using that by (auto simp: mult_left_le_one_le)
  have "point_in (crop edit) (image_point client bounds (crop edit))"
    using frac [OF w] frac [OF h] by (simp add: point_in_def image_point_def)
  then show ?thesis
    using clamp_coordinate [OF w] clamp_coordinate [OF h]
      clamp_extent [OF clamp_coordinate(2) [OF w]] clamp_extent [OF clamp_coordinate(2) [OF h]]
    by (simp add: selection_rect_def Let_def add.assoc)
qed

theorem selection_inside_crop_witness:
  "1 \<le> rwidth (selection_rect \<lparr>source_width = 40, source_height = 30, turns = 0,
      crop = full_rect 40 30, marks = []\<rparr> \<lparr>nx = Some 1000, ny = None, nwidth = Some (-5), nheight = None\<rparr>)"
proof -
  have "edit_wf \<lparr>source_width = 40, source_height = 30, turns = 0, crop = full_rect 40 30, marks = []\<rparr>"
    by (simp add: edit_wf_def inside_def full_rect_def shown_width_def shown_height_def)
  from selection_inside_crop [OF this, of "\<lparr>nx = Some 1000, ny = None, nwidth = Some (-5), nheight = None\<rparr>"]
  show ?thesis by blast
qed

text \<open>
  The file name of an edited image: the extension and one earlier suffix are dropped, the
  stem is cut to 160 code units and the suffix is put back.
\<close>

definition drop_extension :: "string \<Rightarrow> string" where
  "drop_extension name =
     (if CHR ''.'' \<in> set name
      then rev (tl (dropWhile (\<lambda>c. c \<noteq> CHR ''.'') (rev name))) else name)"

definition drop_edited :: "string \<Rightarrow> string" where
  "drop_edited name =
     (if length name \<ge> 7 \<and> drop (length name - 7) name = ''-edited''
      then take (length name - 7) name else name)"

definition edited_image_name :: "string \<Rightarrow> string" where
  "edited_image_name name =
     (let stem = take 160 (drop_edited (drop_extension name))
      in (if stem = [] then ''image'' else stem) @ ''-edited.png'')"

lemma drop_extension_png: "drop_extension (s @ ''.png'') = s"
  by (simp add: drop_extension_def)

lemma drop_edited_suffix: "drop_edited (s @ ''-edited'') = s"
  by (simp add: drop_edited_def)

lemma edited_image_name_stem:
  "0 < length s \<Longrightarrow> length s \<le> 160 \<Longrightarrow> edited_image_name (s @ ''-edited.png'') = s @ ''-edited.png''"
  using drop_extension_png [of "s @ ''-edited''"] drop_edited_suffix [of s]
  by (simp add: edited_image_name_def Let_def)

text \<open>
  Editing an edited image again does not change its file name: the name the editor
  gives is a fixed point, so suffixes and length never grow with repeated edits.
\<close>

theorem edited_image_name_idempotent:
  "edited_image_name (edited_image_name name) = edited_image_name name"
proof -
  define stem where "stem = take 160 (drop_edited (drop_extension name))"
  define base where "base = (if stem = [] then ''image'' else stem)"
  have "edited_image_name name = base @ ''-edited.png''"
    by (simp add: edited_image_name_def Let_def stem_def base_def)
  moreover have "0 < length base" "length base \<le> 160"
    by (auto simp: base_def stem_def)
  ultimately show ?thesis using edited_image_name_stem [of base] by simp
qed

end
