(* ===== verification/HistoryNav.thy ===== *)
theory HistoryNav
  imports Prelude
begin

text \<open>
  Whether the back and forward buttons of the window lead anywhere
  (\<open>features/shell/historyNavigation.ts\<close>, with the navigation of
  \<open>features/shell/useScreenRoute.ts\<close> that drives it).

  The browser side is a list of entries, each with the position the application wrote into
  its \<open>history.state\<close> (or none), and the index of the entry that shows. The module keeps
  \<open>furthest\<close>, the published \<open>snapshot\<close> and whether it \<open>started\<close>; \<open>notified\<close> counts
  the calls to the listeners. The theory shows that the back button is always right, that
  the forward button never leads nowhere, and that it is withheld where an entry is ahead:
  an entry the application has just pushed carries no position, so every navigation
  records position 1.
\<close>

record nav_snapshot =
  can_go_back :: bool
  can_go_forward :: bool

record nav_state =
  entries :: "int option list"
  index :: nat
  furthest :: int
  snapshot :: nav_snapshot
  nav_started :: bool
  listeners :: "nat list"
  notified :: nat

definition no_moves :: nav_snapshot where
  "no_moves = \<lparr>can_go_back = False, can_go_forward = False\<rparr>"

text \<open>\<open>history.replaceState\<close> on the entry that shows.\<close>

definition replace_position :: "nav_state \<Rightarrow> int \<Rightarrow> nav_state" where
  "replace_position s p = s\<lparr>entries := (entries s)[index s := Some p]\<rparr>"

definition current_position :: "nav_state \<Rightarrow> int \<times> nav_state" where
  "current_position s =
     (case entries s ! index s of
        Some stored \<Rightarrow> (stored, s)
      | None \<Rightarrow> (0, replace_position s 0))"

definition publish :: "nav_state \<Rightarrow> nav_state" where
  "publish s =
     (let (position, s) = current_position s;
          s = (if position > furthest s then s\<lparr>furthest := position\<rparr> else s);
          next = \<lparr>can_go_back = position > 0, can_go_forward = position < furthest s\<rparr>
      in if next = snapshot s then s
         else s\<lparr>snapshot := next, notified := notified s + length (listeners s)\<rparr>)"

definition start_nav :: "nav_state \<Rightarrow> nav_state" where
  "start_nav s =
     (if nav_started s then s
      else let (position, s) = current_position (s\<lparr>nav_started := True\<rparr>)
           in publish (s\<lparr>furthest := position\<rparr>))"

definition record_navigation :: "nav_state \<Rightarrow> nav_state" where
  "record_navigation s =
     (let (current, s) = current_position (start_nav s);
          position = current + 1
      in publish ((replace_position s position)\<lparr>furthest := position\<rparr>))"

definition subscribe_nav :: "nav_state \<Rightarrow> nat \<Rightarrow> nav_state" where
  "subscribe_nav s l = (let s = start_nav s in s\<lparr>listeners := sadd l (listeners s)\<rparr>)"

definition unsubscribe_nav :: "nav_state \<Rightarrow> nat \<Rightarrow> nav_state" where
  "unsubscribe_nav s l = s\<lparr>listeners := sdel l (listeners s)\<rparr>"

definition reset_nav :: "nav_state \<Rightarrow> nav_state" where
  "reset_nav s = s\<lparr>furthest := 0, snapshot := no_moves, listeners := [], nav_started := False\<rparr>"


section \<open>The application and the browser\<close>

text \<open>
  A navigation to another screen sets \<open>location.hash\<close>: the browser drops the entries
  ahead and appends one with no state, onto which \<open>useScreenRoute\<close> writes the screen (which
  is not modelled) before it calls \<open>recordNavigation\<close>. The events \<open>popstate\<close> and
  \<open>hashchange\<close> both publish.
\<close>

definition push_entry :: "nav_state \<Rightarrow> nav_state" where
  "push_entry s = s\<lparr>entries := take (Suc (index s)) (entries s) @ [None], index := Suc (index s)\<rparr>"

definition navigate_screen :: "nav_state \<Rightarrow> nav_state" where
  "navigate_screen s = record_navigation (push_entry s)"

definition travel :: "nav_state \<Rightarrow> nat \<Rightarrow> nav_state" where
  "travel s i = (if i < length (entries s) then publish (publish (s\<lparr>index := i\<rparr>)) else s)"

datatype nav_event = Navigate | Hash_changed | Travel nat | Subscribe nat | Unsubscribe nat

fun nav_step :: "nav_state \<Rightarrow> nav_event \<Rightarrow> nav_state" where
  "nav_step s Navigate = navigate_screen s"
| "nav_step s Hash_changed = publish s"
| "nav_step s (Travel i) = travel s i"
| "nav_step s (Subscribe l) = subscribe_nav s l"
| "nav_step s (Unsubscribe l) = unsubscribe_nav s l"

text \<open>The page as it loads: one entry without a position, then a first subscriber.\<close>

definition fresh_nav :: nav_state where
  "fresh_nav = \<lparr>entries = [None], index = 0, furthest = 0, snapshot = no_moves,
     nav_started = False, listeners = [], notified = 0\<rparr>"

definition nav_pre :: "nav_state \<Rightarrow> bool" where
  "nav_pre s \<longleftrightarrow> nav_started s \<and>
     (\<exists>n. entries s = Some 0 # replicate n (Some 1) \<and> index s \<le> n \<and>
          furthest s = (if n > 0 then 1 else 0))"

definition nav_inv :: "nav_state \<Rightarrow> bool" where
  "nav_inv s \<longleftrightarrow> nav_pre s \<and>
     snapshot s = \<lparr>can_go_back = index s > 0,
                    can_go_forward = index s = 0 \<and> length (entries s) > 1\<rparr>"

lemma nav_inv_pre: "nav_inv s \<Longrightarrow> nav_pre s"
  by (simp add: nav_inv_def)

lemma nav_pre_current: "nav_pre s \<Longrightarrow> current_position s = ((if index s = 0 then 0 else 1), s)"
  by (cases "index s") (auto simp: nav_pre_def current_position_def)

lemma publish_inv:
  assumes pre: "nav_pre s"
  shows "nav_inv (publish s)"
proof -
  obtain n where n: "entries s = Some 0 # replicate n (Some 1)" "index s \<le> n"
    "furthest s = (if n > 0 then 1 else 0)"
    using pre by (auto simp: nav_pre_def)
  let ?snap = "\<lparr>can_go_back = index s > 0, can_go_forward = index s = 0 \<and> n > 0\<rparr>"
  have "publish s = (if ?snap = snapshot s then s
      else s\<lparr>snapshot := ?snap, notified := notified s + length (listeners s)\<rparr>)"
    using n by (simp add: publish_def nav_pre_current [OF pre])
  then show ?thesis
    using pre n by (auto simp: nav_inv_def nav_pre_def)
qed

lemma start_started: "nav_started s \<Longrightarrow> start_nav s = s"
  by (simp add: start_nav_def)

lemma navigate_inv:
  assumes "nav_pre s"
  shows "nav_inv (navigate_screen s)"
proof -
  let ?es = "Some (0::int) # replicate (index s) (Some 1)"
  have s: "nav_started s" "take (Suc (index s)) (entries s) = ?es"
    using assms by (auto simp: nav_pre_def min_def)
  let ?s = "s\<lparr>index := Suc (index s), entries := ?es @ [Some 1], furthest := 1\<rparr>"
  have "navigate_screen s = publish ?s"
    by (simp add: navigate_screen_def push_entry_def record_navigation_def start_started s
        current_position_def replace_position_def nth_append list_update_append)
  moreover have "nav_pre ?s"
    using s by (auto simp: nav_pre_def replicate_append_same intro!: exI [of _ "Suc (index s)"])
  ultimately show ?thesis using publish_inv by simp
qed

lemma nav_step_inv:
  assumes inv: "nav_inv s"
  shows "nav_inv (nav_step s e)"
proof (cases e)
  case (Travel i)
  have "nav_pre (s\<lparr>index := i\<rparr>)" if "i < length (entries s)"
    using inv that by (auto simp: nav_inv_def nav_pre_def)
  then show ?thesis
    using inv by (simp add: Travel travel_def publish_inv nav_inv_pre)
next
  case (Subscribe l)
  have "nav_started s" using inv by (simp add: nav_inv_def nav_pre_def)
  with inv show ?thesis by (simp add: Subscribe subscribe_nav_def start_started nav_inv_def nav_pre_def)
qed (use inv in \<open>simp_all add: navigate_inv publish_inv nav_inv_pre unsubscribe_nav_def\<close>,
  simp add: nav_inv_def nav_pre_def)

interpretation nav: event_machine nav_step nav_inv
  by unfold_locales (rule nav_step_inv)

lemma fresh_nav_inv: "nav_inv (subscribe_nav fresh_nav l)"
  by (simp add: subscribe_nav_def start_nav_def fresh_nav_def current_position_def
      replace_position_def publish_def nav_inv_def nav_pre_def no_moves_def Let_def)

text \<open>
  After any sequence of navigations, history travels and subscriptions the back button
  is offered exactly when one of the application's entries is behind the one that shows,
  and the forward button is offered only when an entry is ahead.
\<close>

theorem nav_snapshot_sound:
  "let s = foldl nav_step (subscribe_nav fresh_nav l) es in
     can_go_back (snapshot s) = (0 < index s) \<and>
     (can_go_forward (snapshot s) \<longrightarrow> Suc (index s) < length (entries s))"
proof -
  have "nav_inv (foldl nav_step (subscribe_nav fresh_nav l) es)"
    by (rule nav.run_inv [OF fresh_nav_inv])
  then show ?thesis by (auto simp: nav_inv_def nav_pre_def Let_def)
qed

theorem nav_snapshot_sound_witness:
  "can_go_back (snapshot (foldl nav_step (subscribe_nav fresh_nav 0) [Navigate, Travel 0])) =
    (0 < index (foldl nav_step (subscribe_nav fresh_nav 0) [Navigate, Travel 0]))"
  using nav_snapshot_sound [of 0 "[Navigate, Travel 0]"] by (simp add: Let_def)

text \<open>
  The forward button is not always offered where it would lead somewhere: after two
  navigations and one step back there is an entry ahead, yet the published snapshot says
  that forward is impossible. Both navigations recorded position 1, because an entry just
  pushed has no position to count on from.
\<close>

theorem nav_forward_incomplete:
  "let s = foldl nav_step (subscribe_nav fresh_nav l) [Navigate, Navigate, Travel 1] in
     Suc (index s) < length (entries s) \<and> \<not> can_go_forward (snapshot s) \<and>
     entries s = [Some 0, Some 1, Some 1]"
  by (simp add: subscribe_nav_def start_nav_def fresh_nav_def current_position_def
      replace_position_def publish_def no_moves_def navigate_screen_def push_entry_def
      record_navigation_def travel_def Let_def)

end
