(* ===== verification/TalkGate.thy ===== *)
theory TalkGate
  imports Prelude
begin

text \<open>
  The input gate of a call: push-to-talk, mute and deafen
  (\<open>media/pushToTalk.ts\<close>, \<open>media/callShortcutSettings.ts\<close>).

  The class \<open>CallMicrophone\<close> is the record \<open>talk_state\<close>; its methods and window handlers
  are functions on it. The fields \<open>stored_talk\<close> to \<open>active_element\<close> are the browser state
  the class reads (local storage, page visibility, native support, focus); \<open>outputs\<close> is
  the log of the calls it makes: to \<open>setEnabled\<close>, \<open>setDeafened\<close>, the cue player, the
  native registration and the listeners. The result of \<open>closest\<close> on an event target is
  given with the target.
\<close>

section \<open>Bindings and settings\<close>

datatype talk_binding = Keyboard string | Mouse int

record talk_settings =
  enabled :: bool
  binding :: talk_binding
  allow_while_typing :: bool
  play_cues :: bool

definition is_letter :: "char \<Rightarrow> bool" where
  "is_letter c = (let n = of_char c :: nat in (65 \<le> n \<and> n \<le> 90) \<or> (97 \<le> n \<and> n \<le> 122))"

definition is_digit :: "char \<Rightarrow> bool" where
  "is_digit c = (let n = of_char c :: nat in 48 \<le> n \<and> n \<le> 57)"

definition can_bind_key :: "string \<Rightarrow> bool" where
  "can_bind_key code =
     (code \<noteq> [] \<and> is_letter (hd code) \<and> length (tl code) \<le> 39 \<and>
      list_all (\<lambda>c. is_letter c \<or> is_digit c) (tl code) \<and>
      code \<notin> {''Escape'', ''Tab'', ''MetaLeft'', ''MetaRight'', ''Unidentified''})"

definition default_settings :: talk_settings where
  "default_settings = \<lparr>enabled = False, binding = Keyboard ''Space'',
     allow_while_typing = False, play_cues = True\<rparr>"

text \<open>A binding read back from storage.\<close>

definition parse_binding :: "json option \<Rightarrow> talk_binding option" where
  "parse_binding b =
     (case (field b ''kind'', field b ''code'', field b ''button'') of
        (Some (Str kind), code, button) \<Rightarrow>
          (if kind = ''keyboard'' then
             (case code of Some (Str c) \<Rightarrow> if can_bind_key c then Some (Keyboard c) else None | _ \<Rightarrow> None)
           else if kind = ''mouse'' then
             (case button of Some (Num n) \<Rightarrow> if 0 \<le> n \<and> n \<le> 4 then Some (Mouse n) else None | _ \<Rightarrow> None)
           else None)
      | _ \<Rightarrow> None)"

text \<open>\<open>None\<close> is storage that is unavailable or does not parse.\<close>

definition read_talk_settings :: "json option \<Rightarrow> talk_settings" where
  "read_talk_settings stored =
     (case (field stored ''enabled'', parse_binding (field stored ''binding'')) of
        (Some (Bool on), Some b) \<Rightarrow>
          \<lparr>enabled = on, binding = b,
           allow_while_typing = (field stored ''allowWhileTyping'' = Some (Bool True)),
           play_cues = (field stored ''playCues'' \<noteq> Some (Bool False))\<rparr>
      | _ \<Rightarrow> default_settings)"

record call_shortcuts =
  mute_key :: "talk_binding option"
  deafen_key :: "talk_binding option"

definition read_call_shortcuts :: "json option \<Rightarrow> call_shortcuts" where
  "read_call_shortcuts stored =
     \<lparr>mute_key = parse_binding (field stored ''mute''), deafen_key = parse_binding (field stored ''deafen'')\<rparr>"

definition same_shortcut :: "talk_binding option \<Rightarrow> talk_binding option \<Rightarrow> bool" where
  "same_shortcut a b =
     (case (a, b) of
        (Some (Keyboard c), Some (Keyboard d)) \<Rightarrow> c = d
      | (Some (Mouse m), Some (Mouse n)) \<Rightarrow> m = n
      | _ \<Rightarrow> False)"

text \<open>\<open>writeCallShortcuts\<close> refuses the same key for both actions.\<close>

definition write_call_shortcuts :: "call_shortcuts \<Rightarrow> string + call_shortcuts" where
  "write_call_shortcuts v =
     (if same_shortcut (mute_key v) (deafen_key v)
      then Inl ''Mute and deafen need different shortcuts.'' else Inr v)"

section \<open>State\<close>

datatype global_status = Foreground | Connecting | Active | Unavailable

record event_target =
  interactive :: bool
  editing :: bool
  assigning :: bool

datatype talk_output =
    Set_enabled bool
  | Set_deafened bool
  | Play_cue bool
  | Notify nat
  | Begin_activity
  | Release_activity
  | Native_start nat "talk_binding option" call_shortcuts
  | Native_dispose nat
  | Prevent_default

record talk_state =
  settings :: talk_settings
  is_active :: bool
  held :: bool
  manual_muted :: bool
  deafened :: bool
  muted :: bool
  transmitting :: bool
  global_status :: global_status
  global_message :: string
  foreground_held :: bool
  native_input :: "nat option"
  native_generation :: nat
  activity :: bool
  shortcuts :: call_shortcuts
  talk_listeners :: "nat list"
  stored_talk :: "json option"
  stored_shortcuts :: "json option"
  page_hidden :: bool
  native_supported :: bool
  active_element :: event_target
  outputs :: "talk_output list"

definition emit :: "talk_output list \<Rightarrow> talk_state \<Rightarrow> talk_state" where
  "emit os s = s\<lparr>outputs := outputs s @ os\<rparr>"

definition blocks_input :: "talk_state \<Rightarrow> event_target \<Rightarrow> bool" where
  "blocks_input s target = (assigning target \<or> (\<not> allow_while_typing (settings s) \<and> editing target))"

text \<open>
  \<open>update\<close>: the patch, the derived fields, then the calls, in the order of the code.
\<close>

definition derive :: "talk_state \<Rightarrow> talk_state" where
  "derive next =
     (let m = manual_muted next \<or> deafened next
      in next\<lparr>muted := m,
           transmitting := is_active next \<and> \<not> m \<and> (\<not> enabled (settings next) \<or> held next),
           foreground_held := foreground_held next \<and> held next\<rparr>)"

definition update_talk :: "(talk_state \<Rightarrow> talk_state) \<Rightarrow> talk_state \<Rightarrow> talk_state" where
  "update_talk patch previous =
     (let next = derive (patch previous)
      in emit
           (Set_enabled (transmitting next) #
            (if deafened previous \<noteq> deafened next then [Set_deafened (deafened next)] else []) @
            (if is_active previous \<and> is_active next \<and> enabled (settings previous) \<and>
                enabled (settings next) \<and> play_cues (settings next) \<and>
                transmitting previous \<noteq> transmitting next
             then [Play_cue (transmitting next)] else []) @
            map Notify (talk_listeners next)) next)"

section \<open>Methods\<close>

text \<open>
  Disposing a registration calls back with the key released; the generation has already
  moved on, so the callback returns at once. Starting one reports the status
  \<open>connecting\<close> before its first await.
\<close>

definition dispose_native :: "talk_state \<Rightarrow> talk_state" where
  "dispose_native s =
     (case native_input s of None \<Rightarrow> s | Some g \<Rightarrow> emit [Native_dispose g] (s\<lparr>native_input := None\<rparr>))"

definition configure_native :: "talk_state \<Rightarrow> talk_state" where
  "configure_native s =
     (let s = dispose_native (s\<lparr>native_generation := Suc (native_generation s)\<rparr>);
          actions = read_call_shortcuts (stored_shortcuts s);
          s = s\<lparr>shortcuts := actions\<rparr>
      in if \<not> is_active s \<or>
            (\<not> enabled (settings s) \<and> mute_key actions = None \<and> deafen_key actions = None) \<or>
            \<not> native_supported s
         then update_talk (\<lambda>s. s\<lparr>global_status := Foreground, global_message := '''', held := False\<rparr>) s
         else let s = emit [Native_start (native_generation s)
                        (if enabled (settings s) then Some (binding (settings s)) else None) actions]
                      (s\<lparr>native_input := Some (native_generation s)\<rparr>)
              in update_talk (\<lambda>s. s\<lparr>global_status := Connecting,
                   global_message := ''Starting global push-to-talk'', held := False\<rparr>) s)"

definition start_talk :: "talk_state \<Rightarrow> talk_state" where
  "start_talk s =
     (let s = emit ((if activity s then [Release_activity] else []) @ [Begin_activity]) (s\<lparr>activity := True\<rparr>);
          s = update_talk (\<lambda>s. s\<lparr>settings := read_talk_settings (stored_talk s), is_active := True,
                held := False, manual_muted := False, deafened := False\<rparr>) s
      in configure_native s)"

definition stop_talk :: "talk_state \<Rightarrow> talk_state" where
  "stop_talk s =
     (let s = emit (if activity s then [Release_activity] else []) (s\<lparr>activity := False\<rparr>);
          s = dispose_native (s\<lparr>native_generation := Suc (native_generation s)\<rparr>)
      in update_talk (\<lambda>s. s\<lparr>is_active := False, held := False, manual_muted := False,
           deafened := False, global_status := Foreground, global_message := ''''\<rparr>) s)"

definition toggle_mute :: "talk_state \<Rightarrow> talk_state" where
  "toggle_mute s =
     (if is_active s \<and> \<not> deafened s
      then update_talk (\<lambda>s. s\<lparr>manual_muted := \<not> manual_muted s, held := False\<rparr>) s else s)"

definition toggle_deafen :: "talk_state \<Rightarrow> talk_state" where
  "toggle_deafen s =
     (if is_active s then update_talk (\<lambda>s. s\<lparr>deafened := \<not> deafened s, held := False\<rparr>) s else s)"

text \<open>Callbacks of a native registration made at generation \<open>g\<close>.\<close>

definition native_pressed :: "nat \<Rightarrow> bool \<Rightarrow> bool option \<Rightarrow> talk_state \<Rightarrow> talk_state" where
  "native_pressed g pressed focused s =
     (if g \<noteq> native_generation s then s
      else if pressed \<and> focused = Some True then s
      else let blocked = manual_muted s \<or> deafened s \<or>
                 (focused \<noteq> Some False \<and> blocks_input s (active_element s));
               s = (if pressed then s\<lparr>foreground_held := False\<rparr> else s)
           in update_talk (\<lambda>s. s\<lparr>held := pressed \<and> \<not> blocked\<rparr>) s)"

definition native_status :: "nat \<Rightarrow> global_status \<Rightarrow> string \<Rightarrow> talk_state \<Rightarrow> talk_state" where
  "native_status g status message s =
     (if g = native_generation s
      then update_talk (\<lambda>s. s\<lparr>global_status := status, global_message := message, held := False\<rparr>) s
      else s)"

datatype call_action = Mute_action | Deafen_action

definition native_action :: "nat \<Rightarrow> call_action \<Rightarrow> bool \<Rightarrow> talk_state \<Rightarrow> talk_state" where
  "native_action g act focused s =
     (if g \<noteq> native_generation s \<or> focused \<or> \<not> is_active s then s
      else if act = Mute_action then toggle_mute s else toggle_deafen s)"

definition release :: "talk_state \<Rightarrow> talk_state" where
  "release s = (if held s then update_talk (\<lambda>s. s\<lparr>held := False\<rparr>) s else s)"

definition blur :: "talk_state \<Rightarrow> talk_state" where
  "blur s = (if foreground_held s \<or> global_status s \<noteq> Active then release s else s)"

definition visibility :: "talk_state \<Rightarrow> talk_state" where
  "visibility s = (if page_hidden s then blur s else s)"

definition focus_in :: "event_target \<Rightarrow> talk_state \<Rightarrow> talk_state" where
  "focus_in target s = (if blocks_input s target then release s else s)"

definition settings_changed :: "talk_state \<Rightarrow> talk_state" where
  "settings_changed s =
     (let new = read_talk_settings (stored_talk s);
          previous = settings s;
          input_changed = (enabled new \<noteq> enabled previous \<or>
            allow_while_typing new \<noteq> allow_while_typing previous \<or> binding new \<noteq> binding previous);
          s = update_talk (\<lambda>s. if input_changed then s\<lparr>settings := new, held := False\<rparr>
                               else s\<lparr>settings := new\<rparr>) s
      in if input_changed then configure_native s else s)"

definition storage_changed :: "string option \<Rightarrow> talk_state \<Rightarrow> talk_state" where
  "storage_changed key s =
     (let s = (if key = Some ''bc-push-to-talk'' \<or> key = None then settings_changed s else s)
      in if key = Some ''bc-call-shortcuts'' \<or> key = None then configure_native s else s)"

definition prevent :: "bool \<Rightarrow> talk_state \<Rightarrow> talk_state" where
  "prevent c s = (if c then emit [Prevent_default] s else s)"

definition press :: "event_target \<Rightarrow> talk_state \<Rightarrow> talk_state" where
  "press target s =
     (if global_status s \<noteq> Foreground \<and> global_status s \<noteq> Active then s
      else if \<not> is_active s \<or> \<not> enabled (settings s) \<or> manual_muted s \<or> deafened s \<or>
         page_hidden s \<or> blocks_input s target then s
      else if binding (settings s) = Mouse 0 \<and> interactive target then s
      else let s = (prevent (\<not> editing target) s)\<lparr>foreground_held := True\<rparr>
           in if \<not> held s then update_talk (\<lambda>s. s\<lparr>held := True\<rparr>) s else s)"

text \<open>The mute and deafen shortcuts, shared by the keyboard and the mouse handler.\<close>

definition run_shortcut :: "talk_binding \<Rightarrow> event_target \<Rightarrow> talk_state \<Rightarrow> talk_state" where
  "run_shortcut seen target s =
     (let s' = prevent (\<not> editing target) s
      in if same_shortcut (Some seen) (mute_key (shortcuts s)) then toggle_mute s' else toggle_deafen s')"

definition is_shortcut :: "talk_binding \<Rightarrow> talk_state \<Rightarrow> bool" where
  "is_shortcut seen s = (same_shortcut (Some seen) (mute_key (shortcuts s)) \<or>
     same_shortcut (Some seen) (deafen_key (shortcuts s)))"

record key_event =
  key_code :: string
  key_repeat :: bool
  key_composing :: bool
  key_target :: event_target

record mouse_event =
  mouse_button :: int
  mouse_target :: event_target

definition key_down :: "key_event \<Rightarrow> talk_state \<Rightarrow> talk_state" where
  "key_down e s =
     (if is_active s \<and> \<not> key_repeat e \<and> \<not> key_composing e \<and> \<not> page_hidden s \<and>
         \<not> blocks_input s (key_target e) \<and> is_shortcut (Keyboard (key_code e)) s
      then run_shortcut (Keyboard (key_code e)) (key_target e) s
      else if binding (settings s) \<noteq> Keyboard (key_code e) \<or> key_composing e then s
      else let s = prevent (is_active s \<and> enabled (settings s) \<and> \<not> editing (key_target e)) s
           in if key_repeat e then s else press (key_target e) s)"

definition key_up :: "key_event \<Rightarrow> talk_state \<Rightarrow> talk_state" where
  "key_up e s =
     (if binding (settings s) \<noteq> Keyboard (key_code e) then s
      else let s = prevent (is_active s \<and> enabled (settings s) \<and> \<not> editing (key_target e)) s
           in if foreground_held s \<or> global_status s = Foreground then release s else s)"

definition mouse_down :: "mouse_event \<Rightarrow> talk_state \<Rightarrow> talk_state" where
  "mouse_down e s =
     (if is_active s \<and> \<not> page_hidden s \<and> \<not> blocks_input s (mouse_target e) \<and>
         \<not> (mouse_button e = 0 \<and> interactive (mouse_target e)) \<and> is_shortcut (Mouse (mouse_button e)) s
      then run_shortcut (Mouse (mouse_button e)) (mouse_target e) s
      else if binding (settings s) = Mouse (mouse_button e) then press (mouse_target e) s else s)"

definition mouse_up :: "mouse_event \<Rightarrow> talk_state \<Rightarrow> talk_state" where
  "mouse_up e s =
     (if binding (settings s) = Mouse (mouse_button e)
      then release (prevent (held s \<and> \<not> editing (mouse_target e)) s) else s)"

definition mouse_default :: "mouse_event \<Rightarrow> talk_state \<Rightarrow> talk_state" where
  "mouse_default e s =
     prevent (is_active s \<and> enabled (settings s) \<and> binding (settings s) = Mouse (mouse_button e) \<and>
       \<not> interactive (mouse_target e)) s"

text \<open>The window handlers are attached while there is a listener; the last one to go stops the call gate.\<close>

definition subscribe_talk :: "nat \<Rightarrow> talk_state \<Rightarrow> talk_state" where
  "subscribe_talk l s = s\<lparr>talk_listeners := sadd l (talk_listeners s)\<rparr>"

definition unsubscribe_talk :: "nat \<Rightarrow> talk_state \<Rightarrow> talk_state" where
  "unsubscribe_talk l s =
     (let s = s\<lparr>talk_listeners := sdel l (talk_listeners s)\<rparr>
      in if talk_listeners s \<noteq> [] then s else stop_talk s)"

section \<open>Runs\<close>

datatype talk_event =
    Start
  | Stop
  | Toggle_mute
  | Toggle_deafen
  | Key_down key_event
  | Key_up key_event
  | Mouse_down mouse_event
  | Mouse_up mouse_event
  | Mouse_default mouse_event
  | Blur
  | Page_hide
  | Focus_in event_target
  | Visibility_change
  | Settings_changed
  | Shortcuts_changed
  | Storage_changed "string option"
  | Native_pressed nat bool "bool option"
  | Native_status nat global_status string
  | Native_action nat call_action bool
  | Subscribe_talk nat
  | Unsubscribe_talk nat
  | Environment "json option" "json option" bool bool event_target

definition attached :: "talk_state \<Rightarrow> (talk_state \<Rightarrow> talk_state) \<Rightarrow> talk_state" where
  "attached s handler = (if talk_listeners s \<noteq> [] then handler s else s)"

fun talk_step :: "talk_state \<Rightarrow> talk_event \<Rightarrow> talk_state" where
  "talk_step s Start = start_talk s"
| "talk_step s Stop = stop_talk s"
| "talk_step s Toggle_mute = toggle_mute s"
| "talk_step s Toggle_deafen = toggle_deafen s"
| "talk_step s (Key_down e) = attached s (key_down e)"
| "talk_step s (Key_up e) = attached s (key_up e)"
| "talk_step s (Mouse_down e) = attached s (mouse_down e)"
| "talk_step s (Mouse_up e) = attached s (mouse_up e)"
| "talk_step s (Mouse_default e) = attached s (mouse_default e)"
| "talk_step s Blur = attached s blur"
| "talk_step s Page_hide = attached s stop_talk"
| "talk_step s (Focus_in target) = attached s (focus_in target)"
| "talk_step s Visibility_change = attached s visibility"
| "talk_step s Settings_changed = attached s settings_changed"
| "talk_step s Shortcuts_changed = attached s configure_native"
| "talk_step s (Storage_changed key) = attached s (storage_changed key)"
| "talk_step s (Native_pressed g pressed focused) = native_pressed g pressed focused s"
| "talk_step s (Native_status g status message) = native_status g status message s"
| "talk_step s (Native_action g act focused) = native_action g act focused s"
| "talk_step s (Subscribe_talk l) = subscribe_talk l s"
| "talk_step s (Unsubscribe_talk l) = unsubscribe_talk l s"
| "talk_step s (Environment talk keys hidden native element) =
     s\<lparr>stored_talk := talk, stored_shortcuts := keys, page_hidden := hidden,
       native_supported := native, active_element := element\<rparr>"

definition initial_talk :: "json option \<Rightarrow> json option \<Rightarrow> bool \<Rightarrow> talk_state" where
  "initial_talk talk keys native =
     \<lparr>settings = read_talk_settings talk, is_active = False, held = False, manual_muted = False,
      deafened = False, muted = False, transmitting = False, global_status = Foreground,
      global_message = [], foreground_held = False, native_input = None, native_generation = 0,
      activity = False, shortcuts = read_call_shortcuts keys, talk_listeners = [],
      stored_talk = talk, stored_shortcuts = keys, page_hidden = False, native_supported = native,
      active_element = \<lparr>interactive = False, editing = False, assigning = False\<rparr>, outputs = []\<rparr>"

text \<open>What the microphone was last told, and the consistency of the derived fields.\<close>

fun last_enabled :: "talk_output list \<Rightarrow> bool \<Rightarrow> bool" where
  "last_enabled [] b = b"
| "last_enabled (Set_enabled b' # os) b = last_enabled os b'"
| "last_enabled (_ # os) b = last_enabled os b"

lemma last_enabled_append: "last_enabled (os @ os') b = last_enabled os' (last_enabled os b)"
  by (induction os b rule: last_enabled.induct) auto

lemma last_enabled_notify [simp]: "last_enabled (map Notify ls) b = b"
  by (induction ls) auto

lemma last_enabled_silent: "\<forall>b. Set_enabled b \<notin> set os \<Longrightarrow> last_enabled os b = b"
  by (induction os b rule: last_enabled.induct) auto

definition talk_inv :: "talk_state \<Rightarrow> bool" where
  "talk_inv s \<longleftrightarrow>
     muted s = (manual_muted s \<or> deafened s) \<and>
     transmitting s = (is_active s \<and> \<not> muted s \<and> (\<not> enabled (settings s) \<or> held s)) \<and>
     (foreground_held s \<longrightarrow> held s) \<and>
     last_enabled (outputs s) False = transmitting s"

text \<open>
  \<open>update\<close> establishes the invariant whatever the patch does to the source fields;
  every method ends in it or changes nothing that the invariant reads.
\<close>

lemma update_talk_inv: "talk_inv (update_talk patch s)"
  by (auto simp: update_talk_def derive_def emit_def talk_inv_def Let_def last_enabled_append)

lemma emit_inv:
  assumes "talk_inv s" and "\<forall>b. Set_enabled b \<notin> set os"
  shows "talk_inv (emit os s)"
proof -
  have "last_enabled os b = b" for b
    using assms(2) by (rule last_enabled_silent)
  then show ?thesis
    using assms(1) by (simp add: talk_inv_def emit_def last_enabled_append)
qed

lemma prevent_inv: "talk_inv s \<Longrightarrow> talk_inv (prevent c s)"
  by (simp add: prevent_def emit_inv)

lemma configure_native_inv: "talk_inv (configure_native s)"
  by (simp add: configure_native_def Let_def update_talk_inv)

lemma start_talk_inv: "talk_inv (start_talk s)"
  by (simp add: start_talk_def Let_def configure_native_inv)

lemma stop_talk_inv: "talk_inv (stop_talk s)"
  by (simp add: stop_talk_def Let_def update_talk_inv)

lemma toggle_inv: "talk_inv s \<Longrightarrow> talk_inv (toggle_mute s)" "talk_inv s \<Longrightarrow> talk_inv (toggle_deafen s)"
  by (simp_all add: toggle_mute_def toggle_deafen_def update_talk_inv)

lemma release_inv: "talk_inv s \<Longrightarrow> talk_inv (release s)"
  by (simp add: release_def update_talk_inv)

lemma press_inv:
  assumes inv: "talk_inv s"
  shows "talk_inv (press target s)"
proof -
  have "talk_inv (prevent c s\<lparr>foreground_held := True\<rparr>)" if "held s" for c
    using that prevent_inv [OF inv, of c] by (simp add: talk_inv_def prevent_def emit_def)
  moreover have "held (prevent c s) = held s" for c
    by (simp add: prevent_def emit_def)
  ultimately show ?thesis
    using inv by (simp add: press_def Let_def update_talk_inv)
qed

lemmas talk_method_invs = configure_native_inv start_talk_inv stop_talk_inv toggle_inv release_inv
  press_inv prevent_inv update_talk_inv

lemma native_inv:
  "talk_inv s \<Longrightarrow> talk_inv (native_pressed g p f s)"
  "talk_inv s \<Longrightarrow> talk_inv (native_status g st m s)"
  "talk_inv s \<Longrightarrow> talk_inv (native_action g act b s)"
  by (simp_all add: native_pressed_def native_status_def native_action_def Let_def talk_method_invs)

lemma handler_inv:
  assumes "talk_inv s"
  shows "talk_inv (key_down k s)" "talk_inv (key_up k s)" "talk_inv (mouse_down m s)"
    "talk_inv (mouse_up m s)" "talk_inv (mouse_default m s)" "talk_inv (blur s)"
    "talk_inv (visibility s)" "talk_inv (focus_in t s)" "talk_inv (settings_changed s)"
    "talk_inv (storage_changed key s)"
  using assms
  by (simp_all add: key_down_def key_up_def mouse_down_def mouse_up_def mouse_default_def blur_def
      visibility_def focus_in_def settings_changed_def storage_changed_def run_shortcut_def Let_def
      talk_method_invs)

lemma talk_step_inv: "talk_inv s \<Longrightarrow> talk_inv (talk_step s e)"
  by (cases e)
    (simp_all add: attached_def handler_inv native_inv talk_method_invs subscribe_talk_def
      unsubscribe_talk_def Let_def, simp_all add: talk_inv_def)

interpretation talk: event_machine talk_step talk_inv
  by unfold_locales (rule talk_step_inv)

lemma initial_talk_inv: "talk_inv (initial_talk talk keys native)"
  by (simp add: initial_talk_def talk_inv_def)

text \<open>
  C34. After any sequence of user input, settings changes, native callbacks and calls, the
  microphone has last been told exactly what the gate computes: it is enabled only in an
  active call that is neither muted nor deafened and, with push-to-talk on, only while the
  key is held.
\<close>

theorem microphone_gate_safe:
  "let s = foldl talk_step (initial_talk talk keys native) es in
     last_enabled (outputs s) False =
       (is_active s \<and> \<not> manual_muted s \<and> \<not> deafened s \<and> (enabled (settings s) \<longrightarrow> held s))"
  using talk.run_inv [OF initial_talk_inv, of talk keys native es]
  by (auto simp: talk_inv_def Let_def)

lemmas talk_eval = initial_talk_def start_talk_def toggle_mute_def configure_native_def
  update_talk_def derive_def emit_def dispose_native_def read_talk_settings_def
  default_settings_def read_call_shortcuts_def parse_binding_def Let_def

theorem microphone_gate_safe_witness:
  "last_enabled (outputs (foldl talk_step (initial_talk None None False) [Start, Toggle_mute])) False = False"
proof -
  have "manual_muted (foldl talk_step (initial_talk None None False) [Start, Toggle_mute])"
    by (simp add: talk_eval)
  then show ?thesis
    using microphone_gate_safe [of None None False "[Start, Toggle_mute]"] by (simp add: Let_def)
qed

text \<open>
  With push-to-talk on, only a press of the bound key or button opens the microphone: every
  other event leaves the key released or the gate's inputs as they were.
\<close>

definition gate_inputs :: "talk_state \<Rightarrow> bool \<times> bool \<times> bool \<times> bool \<times> bool" where
  "gate_inputs s = (held s, is_active s, manual_muted s, deafened s, enabled (settings s))"

definition no_press :: "talk_state \<Rightarrow> talk_state \<Rightarrow> bool" where
  "no_press s s' \<longleftrightarrow> \<not> held s' \<or> gate_inputs s' = gate_inputs s"

fun is_press :: "talk_state \<Rightarrow> talk_event \<Rightarrow> bool" where
  "is_press s (Key_down k) = (binding (settings s) = Keyboard (key_code k) \<and> \<not> key_repeat k)"
| "is_press s (Mouse_down m) = (binding (settings s) = Mouse (mouse_button m))"
| "is_press s (Native_pressed g pressed focused) = (pressed \<and> g = native_generation s)"
| "is_press s _ = False"

lemma no_press_refl [simp]: "no_press s s"
  by (simp add: no_press_def)

lemma gate_inputs_derive [simp]: "gate_inputs (derive s) = gate_inputs s"
  by (simp add: gate_inputs_def derive_def Let_def)

lemma gate_inputs_emit [simp]: "gate_inputs (emit os s) = gate_inputs s"
  by (simp add: gate_inputs_def emit_def)

lemma gate_inputs_update [simp]: "gate_inputs (update_talk patch s) = gate_inputs (patch s)"
  by (simp add: update_talk_def Let_def)

lemma gate_inputs_prevent [simp]: "gate_inputs (prevent c s) = gate_inputs s"
  by (simp add: prevent_def)

lemma held_gate: "held s = fst (gate_inputs s)"
  by (simp add: gate_inputs_def)

lemma no_press_update: "\<not> held (patch s) \<Longrightarrow> no_press s0 (update_talk patch s)"
  by (simp add: no_press_def held_gate)

lemma no_press_released: "\<not> held s' \<Longrightarrow> no_press s s'"
  by (simp add: no_press_def)

lemma held_update [simp]: "held (update_talk patch s) = held (patch s)"
  by (simp add: held_gate)

lemma held_prevent [simp]: "held (prevent c s) = held s"
  by (simp add: held_gate)

lemma no_press_configure: "no_press s0 (configure_native s)"
  by (simp add: configure_native_def Let_def no_press_update)

lemma no_press_toggle:
  "gate_inputs s = gate_inputs s0 \<Longrightarrow> no_press s0 (toggle_mute s)"
  "gate_inputs s = gate_inputs s0 \<Longrightarrow> no_press s0 (toggle_deafen s)"
  by (simp_all add: toggle_mute_def toggle_deafen_def no_press_update) (simp_all add: no_press_def)

lemma no_press_release: "gate_inputs s = gate_inputs s0 \<Longrightarrow> no_press s0 (release s)"
  by (simp add: release_def no_press_update) (simp add: no_press_def)

lemma no_press_methods:
  "no_press s0 (stop_talk s)" "no_press s0 (start_talk s)" "no_press s0 (native_status g st m s0)"
  "no_press s0 (native_action g act b s0)" "no_press s0 (blur s0)" "no_press s0 (visibility s0)"
  "no_press s0 (focus_in target s0)" "no_press s0 (key_up k s0)" "no_press s0 (mouse_up m' s0)"
  "no_press s0 (mouse_default m' s0)"
  by (simp_all add: stop_talk_def start_talk_def native_status_def native_action_def blur_def
      visibility_def focus_in_def key_up_def mouse_up_def mouse_default_def Let_def
      no_press_update no_press_configure no_press_toggle no_press_release)
    (simp_all add: no_press_def)

lemma no_press_settings: "no_press s (settings_changed s)"
proof -
  have "gate_inputs (update_talk (\<lambda>s. s\<lparr>settings := new\<rparr>) s) = gate_inputs s"
    if "enabled new = enabled (settings s)" for new
    using that by (simp add: gate_inputs_def [of "s\<lparr>settings := new\<rparr>"]) (simp add: gate_inputs_def)
  then show ?thesis
    by (simp add: settings_changed_def Let_def no_press_configure) (simp add: no_press_def)
qed

lemma no_press_storage: "no_press s (storage_changed key s)"
  by (simp add: storage_changed_def no_press_settings no_press_configure)

lemma no_press_shortcut: "no_press s (run_shortcut b target s)"
  by (simp add: run_shortcut_def Let_def no_press_toggle)

lemma no_press_step:
  assumes "\<not> is_press s e"
  shows "no_press s (talk_step s e)"
proof (cases e)
  case (Key_down k)
  then show ?thesis
    using assms by (simp add: attached_def key_down_def Let_def no_press_shortcut) (simp add: no_press_def)
next
  case (Mouse_down m)
  then show ?thesis
    using assms by (simp add: attached_def mouse_down_def no_press_shortcut)
next
  case (Native_pressed g p f)
  then show ?thesis
    using assms by (auto simp: native_pressed_def Let_def no_press_update)
qed (simp_all add: attached_def no_press_methods no_press_settings no_press_storage
    no_press_configure no_press_toggle subscribe_talk_def unsubscribe_talk_def Let_def,
    simp_all add: no_press_def gate_inputs_def)

text \<open>
  With push-to-talk on, the microphone opens only on a press: in any reachable state, an
  event that turns transmission on in push-to-talk mode is a key-down of the bound key (not a
  repeat), a mouse-down of the bound button, or a press reported by the current native
  registration.
\<close>

theorem talk_opens_on_press:
  assumes "s = foldl talk_step (initial_talk talk keys native) es"
    and "\<not> transmitting s" and "transmitting (talk_step s e)"
    and "enabled (settings (talk_step s e))"
  shows "is_press s e"
proof (rule ccontr)
  assume "\<not> is_press s e"
  then have same: "no_press s (talk_step s e)" by (rule no_press_step)
  have inv: "talk_inv s" using talk.run_inv [OF initial_talk_inv] assms(1) by simp
  then have "talk_inv (talk_step s e)" by (rule talk_step_inv)
  then have "held (talk_step s e)" using assms(3,4) by (simp add: talk_inv_def)
  then have "gate_inputs (talk_step s e) = gate_inputs s" using same by (simp add: no_press_def)
  then show False
    using assms(2-4) inv \<open>talk_inv (talk_step s e)\<close> by (auto simp: talk_inv_def gate_inputs_def)
qed

definition talk_on :: json where
  "talk_on = Obj [(''enabled'', Bool True),
     (''binding'', Obj [(''kind'', Str ''mouse''), (''button'', Num 3)])]"

theorem talk_opens_on_press_witness:
  "is_press (foldl talk_step (initial_talk (Some talk_on) None False) [Subscribe_talk 0, Start])
     (Mouse_down \<lparr>mouse_button = 3, mouse_target = \<lparr>interactive = False, editing = False, assigning = False\<rparr>\<rparr>)"
  by (rule talk_opens_on_press [OF refl])
    (simp_all add: talk_eval talk_on_def attached_def mouse_down_def press_def prevent_def
      blocks_input_def is_shortcut_def same_shortcut_def subscribe_talk_def sadd_def)

end
