(* ===== verification/Notifications.thy ===== *)
theory Notifications
  imports Api JsNumbers
begin

text \<open>
  The notification policy of the account (\<open>features/chat/notificationSettings.ts\<close>): what is
  loaded of it and when it is loaded again, the writes of a room's policy, quiet hours, do not
  disturb, and when a notification may be shown.

  The variables of the module are the record \<open>notifications\<close>. A call of
  \<open>refreshNotificationPolicy\<close> is a number (its controller), a write of \<open>updateRoomPolicy\<close> is a
  task with its phase. A timer is the delay it was set with. Readings of the clocks come with
  the events; \<open>policy_env\<close> holds what is the platform: the parsing of dates, whether the desktop
  program shows the notices, and whether the browser supports Web Push.
\<close>

section \<open>State\<close>

datatype notification_mode = All_messages | Mentions | Muted

record quiet_hours =
  quiet_version :: int
  quiet_enabled :: bool
  timezone :: string
  weekdays :: "int list"
  start_time :: string
  end_time :: string
  quiet_active :: bool
  quiet_until :: "string option"
  next_change_at :: "string option"
  server_time :: string
  quiet_account_dnd :: bool

record notification_state =
  rooms :: "(string, notification_mode) jsmap"
  versions :: "(string, int) jsmap"
  muted_until :: "(string, string) jsmap"
  quiet :: "quiet_hours option"
  policy_received_at :: real
  dnd :: bool
  local_dnd :: bool
  account_dnd :: bool
  alerts :: bool
  background :: bool
  note_error :: string
  ready :: bool

definition no_policy :: "bool \<Rightarrow> bool \<Rightarrow> bool \<Rightarrow> notification_state" where
  "no_policy saved_dnd own_dnd saved_alerts =
     \<lparr>rooms = [], versions = [], muted_until = [], quiet = None, policy_received_at = 0, dnd = saved_dnd \<or> own_dnd,
      local_dnd = saved_dnd, account_dnd = own_dnd, alerts = saved_alerts, background = False, note_error = [], ready = False\<rparr>"

record policy_env =
  parse_date :: "string \<Rightarrow> real option"
  desktop_notices :: bool
  push_manager :: bool

record clock =
  wall :: real
  monotonic :: real

record policy_refresh =
  refresh_revision :: nat
  refresh_epoch :: nat
  refresh_aborted :: bool
  refresh_done :: bool

record room_patch =
  patch_mode :: "notification_mode option"
  patch_until :: "string option option"

datatype write_phase =
    Behind "nat option"
  | Writing int nat
  | Reconciling "nat option" nat
  | Settled bool

record room_write =
  write_room :: string
  write_revision :: nat
  write_patch :: room_patch
  write_phase :: write_phase

datatype policy_effect =
    Get_policy nat
  | Put_room nat string int
  | Put_quiet nat
  | Sync_push string nat
  | Stop_push
  | Shown nat

datatype notice_phase = Looking | Showing

record notice =
  notice_user :: string
  notice_revision :: nat
  notice_phase :: notice_phase

record notifications =
  note_state :: notification_state
  current_user :: "string option"
  account_setting :: "(string \<times> bool) option"
  session_revision :: nat
  retry_timer :: "int option"
  policy_timer :: "real option"
  policy_epoch :: nat
  policy_request :: "nat option"
  policy_retry_delay :: int
  refreshes :: "policy_refresh list"
  room_writes :: "(string, nat) jsmap"
  writes :: "room_write list"
  quiet_saves :: "nat option list"
  alert_requests :: "(string \<times> nat \<times> bool) option list"
  notices :: "notice option list"
  note_storage :: "(string \<times> string, string) jsmap option"
  policy_effects :: "policy_effect list"

definition new_notifications :: "(string \<times> string, string) jsmap option \<Rightarrow> notifications" where
  "new_notifications disk =
     \<lparr>note_state = no_policy False False False, current_user = None, account_setting = None, session_revision = 0,
      retry_timer = None, policy_timer = None, policy_epoch = 0, policy_request = None, policy_retry_delay = 2000,
      refreshes = [], room_writes = [], writes = [], quiet_saves = [], alert_requests = [], notices = [],
      note_storage = disk, policy_effects = []\<rparr>"

definition update :: "(notification_state \<Rightarrow> notification_state) \<Rightarrow> notifications \<Rightarrow> notifications" where
  "update patch s = s\<lparr>note_state := patch (note_state s)\<rparr>"

definition request :: "policy_effect \<Rightarrow> notifications \<Rightarrow> notifications" where
  "request e s = s\<lparr>policy_effects := policy_effects s @ [e]\<rparr>"

section \<open>Local storage\<close>

text \<open>\<open>None\<close> is a storage that throws.\<close>

definition stored :: "string \<Rightarrow> string \<Rightarrow> notifications \<Rightarrow> bool" where
  "stored user setting s = (case note_storage s of None \<Rightarrow> False | Some m \<Rightarrow> jget m (user, setting) = Some ''true'')"

definition stored_alerts :: "string \<Rightarrow> notifications \<Rightarrow> bool" where
  "stored_alerts user s =
     (case note_storage s of
        None \<Rightarrow> False
      | Some m \<Rightarrow> (case jget m (user, ''alerts'') of None \<Rightarrow> stored user ''browser'' s | Some v \<Rightarrow> v = ''true''))"

definition persist :: "string \<Rightarrow> string \<Rightarrow> bool \<Rightarrow> notifications \<Rightarrow> notifications" where
  "persist user setting on s =
     s\<lparr>note_storage := map_option (\<lambda>m. jset m (user, setting) (if on then ''true'' else ''false'')) (note_storage s)\<rparr>"

section \<open>Times\<close>

definition policy_time :: "policy_env \<Rightarrow> clock \<Rightarrow> notification_state \<Rightarrow> real" where
  "policy_time env c n =
     (case parse_date env (case quiet n of None \<Rightarrow> [] | Some q \<Rightarrow> server_time q) of
        Some t \<Rightarrow> t + max 0 (monotonic c - policy_received_at n)
      | None \<Rightarrow> wall c)"

definition room_is_muted :: "policy_env \<Rightarrow> real \<Rightarrow> string \<Rightarrow> notification_state \<Rightarrow> bool" where
  "room_is_muted env now room n \<longleftrightarrow>
     jget (rooms n) room = Some Muted \<or> nullish (parse_date env (nullish (jget (muted_until n) room) [])) 0 > now"

definition effective_dnd :: "bool \<Rightarrow> bool \<Rightarrow> quiet_hours option \<Rightarrow> bool" where
  "effective_dnd own account q =
     (own \<or> account \<or> (case q of None \<Rightarrow> False | Some q \<Rightarrow> quiet_account_dnd q \<or> quiet_active q))"

definition deadlines :: "policy_env \<Rightarrow> real \<Rightarrow> notification_state \<Rightarrow> real list" where
  "deadlines env now n =
     filter (\<lambda>t. t > now) (List.map_filter (parse_date env)
       (jvals (muted_until n) @
        (case quiet n of None \<Rightarrow> [] | Some q \<Rightarrow> if nonempty (next_change_at q) then [the (next_change_at q)] else [])))"

definition policy_wait :: "policy_env \<Rightarrow> real \<Rightarrow> notification_state \<Rightarrow> real" where
  "policy_wait env now n =
     (case deadlines env now n of
        [] \<Rightarrow> 60000
      | t # ts \<Rightarrow> min 60000 (max 100 (foldl min t ts - now)))"

definition schedule_policy_refresh :: "policy_env \<Rightarrow> clock \<Rightarrow> notifications \<Rightarrow> notifications" where
  "schedule_policy_refresh env c s =
     s\<lparr>retry_timer := None, policy_timer := Some (policy_wait env (policy_time env c (note_state s)) (note_state s))\<rparr>"

section \<open>Loading the policy\<close>

definition abort_request :: "notifications \<Rightarrow> notifications" where
  "abort_request s =
     (case policy_request s of
        None \<Rightarrow> s
      | Some i \<Rightarrow> s\<lparr>refreshes := (refreshes s)[i := (refreshes s ! i)\<lparr>refresh_aborted := True\<rparr>]\<rparr>)"

definition refresh_policy :: "notifications \<Rightarrow> notifications" where
  "refresh_policy s =
     (if \<not> nonempty (current_user s) then s
      else
        let s = abort_request s; i = length (refreshes s)
        in request (Get_policy i)
             (s\<lparr>policy_request := Some i,
                refreshes := refreshes s @ [\<lparr>refresh_revision = session_revision s, refresh_epoch = policy_epoch s,
                  refresh_aborted = False, refresh_done = False\<rparr>]\<rparr>))"

record preferences =
  preferred_rooms :: "(string, notification_mode) jsmap"
  preferred_muted :: "(string, string) jsmap option"
  preferred_versions :: "(string, int) jsmap option"

text \<open>The body of \<open>try\<close> and \<open>catch\<close> after the answer; the second component is \<open>loaded\<close>.\<close>

definition policy_answer :: "nat \<Rightarrow> (preferences \<times> quiet_hours) option \<Rightarrow> clock \<Rightarrow> notifications \<Rightarrow> notifications \<times> bool" where
  "policy_answer i result c s =
     (let r = refreshes s ! i; mine = (refresh_revision r = session_revision s \<and> \<not> refresh_aborted r)
      in case result of
           None \<Rightarrow> (if mine then update (\<lambda>n. n\<lparr>ready := False\<rparr>) s else s, False)
         | Some (p, q) \<Rightarrow>
             if \<not> mine then (s, False)
             else if refresh_epoch r \<noteq> policy_epoch s then (refresh_policy s, False)
             else
               ((update (\<lambda>n. n\<lparr>rooms := preferred_rooms p, versions := nullish (preferred_versions p) [],
                    muted_until := nullish (preferred_muted p) [], quiet := Some q, policy_received_at := monotonic c,
                    dnd := effective_dnd (local_dnd n) (account_dnd n) (Some q), ready := True\<rparr>) s)
                  \<lparr>policy_retry_delay := 2000\<rparr>, True))"

definition retry_policy :: "notifications \<Rightarrow> notifications" where
  "retry_policy s = s\<lparr>retry_timer := Some (policy_retry_delay s), policy_retry_delay := min 60000 (policy_retry_delay s * 2)\<rparr>"

definition refresh_answer ::
    "policy_env \<Rightarrow> nat \<Rightarrow> (preferences \<times> quiet_hours) option \<Rightarrow> clock \<Rightarrow> notifications \<Rightarrow> notifications" where
  "refresh_answer env i result c s =
     (if i \<ge> length (refreshes s) \<or> refresh_done (refreshes s ! i) then s
      else
        let (s, loaded) = policy_answer i result c s;
            s = s\<lparr>policy_request := (if policy_request s = Some i then None else policy_request s)\<rparr>;
            r = refreshes s ! i;
            s = (if refresh_revision r = session_revision s \<and> \<not> refresh_aborted r
                 then if loaded then schedule_policy_refresh env c s else retry_policy s else s)
        in s\<lparr>refreshes := (refreshes s)[i := (refreshes s ! i)\<lparr>refresh_done := True\<rparr>]\<rparr>)"

text \<open>A timer fires once.\<close>

definition retry_fires :: "notifications \<Rightarrow> notifications" where
  "retry_fires s = (if retry_timer s = None then s else refresh_policy (s\<lparr>retry_timer := None\<rparr>))"

definition policy_timer_fires :: "notifications \<Rightarrow> notifications" where
  "policy_timer_fires s = (if policy_timer s = None then s else refresh_policy (s\<lparr>policy_timer := None\<rparr>))"

section \<open>Quiet hours\<close>

definition save_quiet_hours :: "notifications \<Rightarrow> notifications" where
  "save_quiet_hours s =
     (if \<not> nonempty (current_user s) then s
      else request (Put_quiet (length (quiet_saves s))) (s\<lparr>quiet_saves := quiet_saves s @ [Some (session_revision s)]\<rparr>))"

definition quiet_saved :: "policy_env \<Rightarrow> nat \<Rightarrow> quiet_hours option \<Rightarrow> clock \<Rightarrow> notifications \<Rightarrow> notifications" where
  "quiet_saved env i result c s =
     (if i \<ge> length (quiet_saves s) then s
      else case quiet_saves s ! i of
          None \<Rightarrow> s
        | Some revision \<Rightarrow>
            let s = s\<lparr>quiet_saves := (quiet_saves s)[i := None]\<rparr>
            in case result of
                 None \<Rightarrow> s
               | Some q \<Rightarrow>
                   if revision \<noteq> session_revision s then s
                   else schedule_policy_refresh env c
                          (update (\<lambda>n. n\<lparr>quiet := Some q, policy_received_at := monotonic c,
                               dnd := effective_dnd (local_dnd n) (account_dnd n) (Some q)\<rparr>)
                            (s\<lparr>policy_epoch := Suc (policy_epoch s), policy_retry_delay := 2000\<rparr>)))"

section \<open>The policy of a room\<close>

definition update_room_policy :: "string \<Rightarrow> room_patch \<Rightarrow> notifications \<Rightarrow> notifications" where
  "update_room_policy room patch s =
     (if \<not> nonempty (current_user s) then s
      else s\<lparr>writes := writes s @ [\<lparr>write_room = room, write_revision = session_revision s, write_patch = patch,
               write_phase = Behind (jget (room_writes s) room)\<rparr>],
             room_writes := jset (room_writes s) room (length (writes s))\<rparr>)"

definition set_room_timed_mute :: "string \<Rightarrow> string option \<Rightarrow> notifications \<Rightarrow> notifications" where
  "set_room_timed_mute room until = update_room_policy room \<lparr>patch_mode = None, patch_until = Some until\<rparr>"

definition set_room_notification_mode :: "string \<Rightarrow> notification_mode \<Rightarrow> notifications \<Rightarrow> notifications" where
  "set_room_notification_mode room mode = update_room_policy room \<lparr>patch_mode = Some mode, patch_until = None\<rparr>"

definition set_phase :: "nat \<Rightarrow> write_phase \<Rightarrow> notifications \<Rightarrow> notifications" where
  "set_phase t ph s = s\<lparr>writes := (writes s)[t := (writes s ! t)\<lparr>write_phase := ph\<rparr>]\<rparr>"

text \<open>The task is settled, and its \<open>finally\<close> takes it out of \<open>roomWrites\<close>.\<close>

definition settle :: "nat \<Rightarrow> bool \<Rightarrow> notifications \<Rightarrow> notifications" where
  "settle t ok s =
     (let room = write_room (writes s ! t)
      in set_phase t (Settled ok)
           (s\<lparr>room_writes := (if jget (room_writes s) room = Some t then jdel (room_writes s) room else room_writes s)\<rparr>))"

definition is_settled :: "notifications \<Rightarrow> nat option \<Rightarrow> bool" where
  "is_settled s p = (case p of None \<Rightarrow> True | Some t \<Rightarrow> (case write_phase (writes s ! t) of Settled _ \<Rightarrow> True | _ \<Rightarrow> False))"

definition attempt_write :: "nat \<Rightarrow> nat \<Rightarrow> notifications \<Rightarrow> notifications" where
  "attempt_write t attempt s =
     (let room = write_room (writes s ! t); expected = nullish (jget (versions (note_state s)) room) 0
      in set_phase t (Writing expected attempt) (request (Put_room t room expected) s))"

definition write_starts :: "nat \<Rightarrow> notifications \<Rightarrow> notifications" where
  "write_starts t s =
     (case write_phase (writes s ! t) of
        Behind p \<Rightarrow>
          if \<not> is_settled s p then s
          else if write_revision (writes s ! t) \<noteq> session_revision s then settle t True s
          else attempt_write t 0 s
      | _ \<Rightarrow> s)"

definition patch_room :: "string \<Rightarrow> room_patch \<Rightarrow> int \<Rightarrow> notification_state \<Rightarrow> notification_state" where
  "patch_room room patch version n =
     n\<lparr>muted_until := (case patch_until patch of
          None \<Rightarrow> muted_until n
        | Some u \<Rightarrow> if nonempty u then jset (muted_until n) room (the u) else jdel (muted_until n) room),
       rooms := (case patch_mode patch of None \<Rightarrow> rooms n | Some m \<Rightarrow> jset (rooms n) room m),
       versions := jset (versions n) room version\<rparr>"

definition write_answer :: "policy_env \<Rightarrow> nat \<Rightarrow> api_error option \<Rightarrow> clock \<Rightarrow> notifications \<Rightarrow> notifications" where
  "write_answer env t result c s =
     (case write_phase (writes s ! t) of
        Writing expected attempt \<Rightarrow>
          (case result of
             None \<Rightarrow>
               if write_revision (writes s ! t) \<noteq> session_revision s then settle t True s
               else settle t True (schedule_policy_refresh env c
                      (update (patch_room (write_room (writes s ! t)) (write_patch (writes s ! t)) (expected + 1))
                        (s\<lparr>policy_epoch := Suc (policy_epoch s)\<rparr>)))
           | Some e \<Rightarrow>
               if \<not> has_status e 409 \<or> attempt = 2 then settle t False s
               else
                 let waits = (if nonempty (current_user s) then Some (length (refreshes s)) else None)
                 in set_phase t (Reconciling waits attempt) (refresh_policy s))
      | _ \<Rightarrow> s)"

text \<open>The refresh that a conflict asked for has come to its end.\<close>

definition write_resumes :: "nat \<Rightarrow> notifications \<Rightarrow> notifications" where
  "write_resumes t s =
     (case write_phase (writes s ! t) of
        Reconciling waits attempt \<Rightarrow>
          if (case waits of None \<Rightarrow> False | Some i \<Rightarrow> \<not> refresh_done (refreshes s ! i)) then s
          else if write_revision (writes s ! t) \<noteq> session_revision s then settle t True s
          else attempt_write t (Suc attempt) s
      | _ \<Rightarrow> s)"

section \<open>Sessions\<close>

definition push_supported :: "policy_env \<Rightarrow> bool" where
  "push_supported env = (\<not> desktop_notices env \<and> push_manager env)"

text \<open>What is asked of the browser's Web Push is only logged.\<close>

definition sync_push :: "notifications \<Rightarrow> notifications" where
  "sync_push s = request (Sync_push (nullish (current_user s) []) (session_revision s)) s"

definition start_session :: "policy_env \<Rightarrow> string \<Rightarrow> notifications \<Rightarrow> notifications" where
  "start_session env user s =
     (let s = s\<lparr>session_revision := Suc (session_revision s), retry_timer := None, current_user := Some user,
                policy_epoch := Suc (policy_epoch s)\<rparr>;
          own = (account_setting s = Some (user, True));
          s = update (\<lambda>_. no_policy (stored user ''dnd'' s) own (stored_alerts user s)) (s\<lparr>room_writes := []\<rparr>);
          s = (if alerts (note_state s) \<and> push_supported env then sync_push s else s)
      in refresh_policy s)"

text \<open>The function that \<open>startNotificationSession\<close> returns, for the session that it started.\<close>

definition stop_session :: "nat \<Rightarrow> notifications \<Rightarrow> notifications" where
  "stop_session revision s =
     (if session_revision s \<noteq> revision then s
      else
        let s = abort_request (s\<lparr>session_revision := Suc (session_revision s), retry_timer := None, current_user := None\<rparr>)
        in update (\<lambda>_. no_policy False False False) (s\<lparr>policy_request := None, policy_timer := None, room_writes := []\<rparr>))"

section \<open>Do not disturb\<close>

definition set_do_not_disturb :: "policy_env \<Rightarrow> bool \<Rightarrow> notifications \<Rightarrow> notifications" where
  "set_do_not_disturb env on s =
     (if \<not> nonempty (current_user s) then s
      else
        let s = update (\<lambda>n. n\<lparr>local_dnd := on, dnd := effective_dnd on (account_dnd n) (quiet n)\<rparr>)
                  (persist (the (current_user s)) ''dnd'' on s)
        in if alerts (note_state s) \<and> push_supported env then sync_push s else s)"

definition set_account_do_not_disturb :: "string \<Rightarrow> bool \<Rightarrow> notifications \<Rightarrow> notifications" where
  "set_account_do_not_disturb user on s =
     (let s = s\<lparr>account_setting := Some (user, on)\<rparr>
      in if current_user s \<noteq> Some user then s
         else update (\<lambda>n. let q = map_option (\<lambda>q. q\<lparr>quiet_account_dnd := on\<rparr>) (quiet n)
                in n\<lparr>quiet := q, account_dnd := on, dnd := effective_dnd (local_dnd n) on q\<rparr>) s)"

section \<open>Alerts\<close>

definition finish_alerts :: "policy_env \<Rightarrow> string \<Rightarrow> nat \<Rightarrow> bool \<Rightarrow> notifications \<Rightarrow> notifications" where
  "finish_alerts env user revision on s =
     (if session_revision s \<noteq> revision \<or> current_user s \<noteq> Some user then s
      else
        let s = update (\<lambda>n. n\<lparr>alerts := on, background := False, note_error := []\<rparr>) (persist user ''alerts'' on s)
        in if desktop_notices env then s else if on then sync_push s else request Stop_push s)"

definition set_system_notifications :: "policy_env \<Rightarrow> bool \<Rightarrow> notifications \<Rightarrow> notifications" where
  "set_system_notifications env on s =
     (if \<not> nonempty (current_user s) then s
      else if on then s\<lparr>alert_requests := alert_requests s @ [Some (the (current_user s), session_revision s, on)]\<rparr>
      else finish_alerts env (the (current_user s)) (session_revision s) on s)"

definition permission_answer :: "policy_env \<Rightarrow> nat \<Rightarrow> bool \<Rightarrow> notifications \<Rightarrow> notifications" where
  "permission_answer env i granted s =
     (if i \<ge> length (alert_requests s) then s
      else case alert_requests s ! i of
          None \<Rightarrow> s
        | Some (user, revision, on) \<Rightarrow>
            let s = s\<lparr>alert_requests := (alert_requests s)[i := None]\<rparr>
            in if granted then finish_alerts env user revision on s
               else if desktop_notices env \<and> revision = session_revision s
                 then update (\<lambda>n. n\<lparr>note_error := ''Enable BetterComms notifications in your system settings.''\<rparr>) s
               else s)"

section \<open>Showing a notification\<close>

definition may_show :: "bool \<Rightarrow> notifications \<Rightarrow> bool" where
  "may_show granted s \<longleftrightarrow> ready (note_state s) \<and> alerts (note_state s) \<and> \<not> dnd (note_state s) \<and> granted"

definition still_current :: "bool \<Rightarrow> notice \<Rightarrow> notifications \<Rightarrow> bool" where
  "still_current granted w s \<longleftrightarrow>
     current_user s = Some (notice_user w) \<and> session_revision s = notice_revision w \<and> may_show granted s"

definition page_notification :: "nat \<Rightarrow> bool \<Rightarrow> notice \<Rightarrow> notifications \<Rightarrow> notifications" where
  "page_notification i granted w s =
     (let s = s\<lparr>notices := (notices s)[i := None]\<rparr> in if still_current granted w s then request (Shown i) s else s)"

text \<open>\<open>tagged\<close>: there is a tag and a service worker, so that its registration is awaited first.\<close>

definition notify_browser :: "bool \<Rightarrow> bool \<Rightarrow> notifications \<Rightarrow> notifications" where
  "notify_browser tagged granted s =
     (if \<not> nonempty (current_user s) \<or> \<not> may_show granted s then s
      else
        let i = length (notices s); w = \<lparr>notice_user = the (current_user s), notice_revision = session_revision s, notice_phase = Looking\<rparr>;
            s = s\<lparr>notices := notices s @ [Some w]\<rparr>
        in if tagged then s else page_notification i granted w s)"

definition worker_answer :: "nat \<Rightarrow> bool option \<Rightarrow> bool \<Rightarrow> notifications \<Rightarrow> notifications" where
  "worker_answer i active granted s =
     (if i \<ge> length (notices s) then s
      else case notices s ! i of
          None \<Rightarrow> s
        | Some w \<Rightarrow>
            if notice_phase w \<noteq> Looking then s
            else if active \<noteq> Some True then page_notification i granted w s
            else if \<not> still_current granted w s then s\<lparr>notices := (notices s)[i := None]\<rparr>
            else request (Shown i) (s\<lparr>notices := (notices s)[i := Some (w\<lparr>notice_phase := Showing\<rparr>)]\<rparr>))"

text \<open>The worker has shown it, or has failed to.\<close>

definition worker_shown :: "nat \<Rightarrow> bool \<Rightarrow> bool \<Rightarrow> notifications \<Rightarrow> notifications" where
  "worker_shown i ok granted s =
     (if i \<ge> length (notices s) then s
      else case notices s ! i of
          None \<Rightarrow> s
        | Some w \<Rightarrow>
            if notice_phase w \<noteq> Showing then s
            else if ok then s\<lparr>notices := (notices s)[i := None]\<rparr>
            else page_notification i granted w s)"

section \<open>Runs\<close>

datatype policy_event =
    Start_session string
  | Stop_session nat
  | Refresh
  | Refresh_answer nat "(preferences \<times> quiet_hours) option" clock
  | Retry_fires
  | Policy_timer_fires
  | Save_quiet
  | Quiet_saved nat "quiet_hours option" clock
  | Update_room string room_patch
  | Write_starts nat
  | Write_answer nat "api_error option" clock
  | Write_resumes nat
  | Set_dnd bool
  | Set_account_dnd string bool
  | Set_alerts bool
  | Permission_answer nat bool
  | Notify bool bool
  | Worker_answer nat "bool option" bool
  | Worker_shown nat bool bool

fun policy_step :: "policy_env \<Rightarrow> notifications \<Rightarrow> policy_event \<Rightarrow> notifications" where
  "policy_step env s (Start_session user) = start_session env user s"
| "policy_step env s (Stop_session revision) = stop_session revision s"
| "policy_step env s Refresh = refresh_policy s"
| "policy_step env s (Refresh_answer i result c) = refresh_answer env i result c s"
| "policy_step env s Retry_fires = retry_fires s"
| "policy_step env s Policy_timer_fires = policy_timer_fires s"
| "policy_step env s Save_quiet = save_quiet_hours s"
| "policy_step env s (Quiet_saved i result c) = quiet_saved env i result c s"
| "policy_step env s (Update_room room patch) = update_room_policy room patch s"
| "policy_step env s (Write_starts t) = (if t < length (writes s) then write_starts t s else s)"
| "policy_step env s (Write_answer t result c) = (if t < length (writes s) then write_answer env t result c s else s)"
| "policy_step env s (Write_resumes t) = (if t < length (writes s) then write_resumes t s else s)"
| "policy_step env s (Set_dnd on) = set_do_not_disturb env on s"
| "policy_step env s (Set_account_dnd user on) = set_account_do_not_disturb user on s"
| "policy_step env s (Set_alerts on) = set_system_notifications env on s"
| "policy_step env s (Permission_answer i granted) = permission_answer env i granted s"
| "policy_step env s (Notify tagged granted) = notify_browser tagged granted s"
| "policy_step env s (Worker_answer i active granted) = worker_answer i active granted s"
| "policy_step env s (Worker_shown i ok granted) = worker_shown i ok granted s"

section \<open>The fields that an operation touches\<close>

lemma update_simps [simp]:
  "note_state (update f s) = f (note_state s)" "current_user (update f s) = current_user s"
  "account_setting (update f s) = account_setting s" "session_revision (update f s) = session_revision s"
  "retry_timer (update f s) = retry_timer s" "policy_timer (update f s) = policy_timer s" "policy_epoch (update f s) = policy_epoch s"
  "policy_request (update f s) = policy_request s" "policy_retry_delay (update f s) = policy_retry_delay s"
  "refreshes (update f s) = refreshes s" "room_writes (update f s) = room_writes s" "writes (update f s) = writes s"
  "quiet_saves (update f s) = quiet_saves s" "alert_requests (update f s) = alert_requests s" "notices (update f s) = notices s"
  "note_storage (update f s) = note_storage s" "policy_effects (update f s) = policy_effects s"
  by (simp_all add: update_def)

lemma request_simps [simp]:
  "note_state (request e s) = note_state s" "current_user (request e s) = current_user s"
  "account_setting (request e s) = account_setting s" "session_revision (request e s) = session_revision s"
  "retry_timer (request e s) = retry_timer s" "policy_timer (request e s) = policy_timer s" "policy_epoch (request e s) = policy_epoch s"
  "policy_request (request e s) = policy_request s" "policy_retry_delay (request e s) = policy_retry_delay s"
  "refreshes (request e s) = refreshes s" "room_writes (request e s) = room_writes s" "writes (request e s) = writes s"
  "quiet_saves (request e s) = quiet_saves s" "alert_requests (request e s) = alert_requests s" "notices (request e s) = notices s"
  "note_storage (request e s) = note_storage s" "policy_effects (request e s) = policy_effects s @ [e]"
  by (simp_all add: request_def)

lemma persist_simps [simp]:
  "note_state (persist u k b s) = note_state s" "current_user (persist u k b s) = current_user s"
  "account_setting (persist u k b s) = account_setting s" "session_revision (persist u k b s) = session_revision s"
  "retry_timer (persist u k b s) = retry_timer s" "policy_timer (persist u k b s) = policy_timer s" "policy_epoch (persist u k b s) = policy_epoch s"
  "policy_request (persist u k b s) = policy_request s" "policy_retry_delay (persist u k b s) = policy_retry_delay s"
  "refreshes (persist u k b s) = refreshes s" "room_writes (persist u k b s) = room_writes s" "writes (persist u k b s) = writes s"
  "quiet_saves (persist u k b s) = quiet_saves s" "alert_requests (persist u k b s) = alert_requests s" "notices (persist u k b s) = notices s"
  "policy_effects (persist u k b s) = policy_effects s"
  by (simp_all add: persist_def)

text \<open>A refresh starts: the call before is aborted, and a new one is the current one.\<close>

definition started :: "notifications \<Rightarrow> policy_refresh" where
  "started s = \<lparr>refresh_revision = session_revision s, refresh_epoch = policy_epoch s, refresh_aborted = False, refresh_done = False\<rparr>"

definition aborted_refreshes :: "notifications \<Rightarrow> policy_refresh list" where
  "aborted_refreshes s =
     (case policy_request s of None \<Rightarrow> refreshes s | Some i \<Rightarrow> (refreshes s)[i := (refreshes s ! i)\<lparr>refresh_aborted := True\<rparr>])"

lemma length_aborted [simp]: "length (aborted_refreshes s) = length (refreshes s)"
  by (simp add: aborted_refreshes_def split: option.split)

lemma abort_request_eq: "abort_request s = s\<lparr>refreshes := aborted_refreshes s\<rparr>"
  by (simp add: abort_request_def aborted_refreshes_def split: option.split)

lemma refresh_policy_eq:
  "nonempty (current_user s) \<Longrightarrow> refresh_policy s =
     s\<lparr>policy_request := Some (length (refreshes s)), refreshes := aborted_refreshes s @ [started s],
       policy_effects := policy_effects s @ [Get_policy (length (refreshes s))]\<rparr>"
  by (simp add: refresh_policy_def abort_request_eq started_def request_def Let_def)

lemma refresh_policy_off [simp]: "\<not> nonempty (current_user s) \<Longrightarrow> refresh_policy s = s"
  by (simp add: refresh_policy_def)

lemma refresh_policy_same [simp]:
  "note_state (refresh_policy s) = note_state s" "current_user (refresh_policy s) = current_user s"
  "account_setting (refresh_policy s) = account_setting s" "session_revision (refresh_policy s) = session_revision s"
  "retry_timer (refresh_policy s) = retry_timer s" "policy_timer (refresh_policy s) = policy_timer s"
  "policy_epoch (refresh_policy s) = policy_epoch s" "policy_retry_delay (refresh_policy s) = policy_retry_delay s"
  "room_writes (refresh_policy s) = room_writes s" "writes (refresh_policy s) = writes s" "quiet_saves (refresh_policy s) = quiet_saves s"
  "alert_requests (refresh_policy s) = alert_requests s" "notices (refresh_policy s) = notices s"
  by (cases "nonempty (current_user s)"; simp add: refresh_policy_eq)+

lemma aborted_member:
  assumes "r \<in> set (aborted_refreshes s)"
  shows "\<exists>r'. r' \<in> set (refreshes s) \<and> (r = r' \<or> r = r'\<lparr>refresh_aborted := True\<rparr>)"
proof (cases "policy_request s")
  case (Some i)
  then have r: "r \<in> set ((refreshes s)[i := (refreshes s ! i)\<lparr>refresh_aborted := True\<rparr>])"
    using assms by (simp add: aborted_refreshes_def)
  show ?thesis
  proof (cases "i < length (refreshes s)")
    case True
    with r have "r \<in> set (refreshes s) \<or> r = (refreshes s ! i)\<lparr>refresh_aborted := True\<rparr>"
      using set_update_subset_insert [of "refreshes s" i] by blast
    with True show ?thesis using nth_mem by blast
  qed (use r in \<open>auto simp: list_update_beyond not_less\<close>)
qed (use assms in \<open>auto simp: aborted_refreshes_def\<close>)

section \<open>The policy is kept up to date\<close>

definition refresh_ok :: "notifications \<Rightarrow> policy_refresh \<Rightarrow> bool" where
  "refresh_ok s r \<longleftrightarrow> refresh_revision r \<le> session_revision s \<and> refresh_epoch r \<le> policy_epoch s \<and>
     (current_user s = None \<longrightarrow> refresh_revision r < session_revision s)"

definition request_ok :: "notifications \<Rightarrow> bool" where
  "request_ok s \<longleftrightarrow> (\<forall>i. policy_request s = Some i \<longrightarrow> i < length (refreshes s) \<and>
     \<not> refresh_aborted (refreshes s ! i) \<and> \<not> refresh_done (refreshes s ! i) \<and>
     (nonempty (current_user s) \<longrightarrow> refresh_revision (refreshes s ! i) = session_revision s))"

definition watched :: "notifications \<Rightarrow> bool" where
  "watched s \<longleftrightarrow> (nonempty (current_user s) \<longrightarrow> policy_request s \<noteq> None \<or> retry_timer s \<noteq> None \<or> policy_timer s \<noteq> None)"

definition idle_out :: "notifications \<Rightarrow> bool" where
  "idle_out s \<longleftrightarrow> (current_user s = None \<longrightarrow> policy_request s = None \<and> retry_timer s = None \<and> policy_timer s = None)"

definition load_inv :: "notifications \<Rightarrow> bool" where
  "load_inv s \<longleftrightarrow> list_all (refresh_ok s) (refreshes s) \<and> request_ok s \<and> watched s \<and> idle_out s"

definition load_part :: "notifications \<Rightarrow> string option \<times> nat \<times> nat \<times> int option \<times> real option \<times> nat option \<times> policy_refresh list" where
  "load_part s = (current_user s, session_revision s, policy_epoch s, retry_timer s, policy_timer s, policy_request s, refreshes s)"

lemma load_inv_same: "load_part s' = load_part s \<Longrightarrow> load_inv s \<Longrightarrow> load_inv s'"
  by (simp add: load_part_def load_inv_def refresh_ok_def [abs_def] request_ok_def watched_def idle_out_def)

lemma refreshes_ok_policy:
  assumes "list_all (refresh_ok s) (refreshes s)" "nonempty (current_user s)"
  shows "list_all (refresh_ok (refresh_policy s)) (refreshes (refresh_policy s))"
proof -
  have "refresh_ok s r" if "r \<in> set (aborted_refreshes s)" for r
    using aborted_member [OF that] assms(1) by (auto simp: list_all_iff refresh_ok_def)
  moreover have "refresh_ok s (started s)" using assms(2) by (cases "current_user s") (simp_all add: refresh_ok_def started_def)
  ultimately show ?thesis
    using assms(2) by (simp add: refresh_policy_eq list_all_iff) (simp add: refresh_ok_def)
qed

text \<open>A refresh mends what a change of the session may have broken.\<close>

lemma load_inv_refresh:
  assumes "list_all (refresh_ok s) (refreshes s)" "nonempty (current_user s)"
  shows "load_inv (refresh_policy s)"
  unfolding load_inv_def
proof (intro conjI)
  show "list_all (refresh_ok (refresh_policy s)) (refreshes (refresh_policy s))" by (rule refreshes_ok_policy [OF assms])
  show "request_ok (refresh_policy s)" using assms(2) by (simp add: refresh_policy_eq request_ok_def nth_append started_def)
  show "watched (refresh_policy s)" using assms(2) by (simp add: refresh_policy_eq watched_def)
  show "idle_out (refresh_policy s)" using assms(2) by (cases "current_user s") (simp_all add: idle_out_def)
qed

lemma load_inv_policy: "load_inv s \<Longrightarrow> load_inv (refresh_policy s)"
  by (cases "nonempty (current_user s)") (simp_all add: load_inv_refresh load_inv_def [of s])

definition mine :: "nat \<Rightarrow> notifications \<Rightarrow> bool" where
  "mine i s \<longleftrightarrow> refresh_revision (refreshes s ! i) = session_revision s \<and> \<not> refresh_aborted (refreshes s ! i)"

definition close_refresh :: "nat \<Rightarrow> notifications \<Rightarrow> notifications" where
  "close_refresh i s = s\<lparr>policy_request := (if policy_request s = Some i then None else policy_request s),
     refreshes := (refreshes s)[i := (refreshes s ! i)\<lparr>refresh_done := True\<rparr>]\<rparr>"

lemma refresh_answer_cases:
  "refresh_answer env i result c s =
     (if i \<ge> length (refreshes s) \<or> refresh_done (refreshes s ! i) then s
      else let (t, loaded) = policy_answer i result c s
        in close_refresh i (if mine i t then if loaded then schedule_policy_refresh env c t else retry_policy t else t))"
  by (simp add: refresh_answer_def close_refresh_def mine_def schedule_policy_refresh_def retry_policy_def Let_def case_prod_beta)

lemma policy_answer_cases:
  "\<not> mine i s \<Longrightarrow> policy_answer i result c s = (s, False)"
  "mine i s \<Longrightarrow> policy_answer i None c s = (update (\<lambda>n. n\<lparr>ready := False\<rparr>) s, False)"
  "mine i s \<Longrightarrow> policy_answer i (Some (p, q)) c s =
     (if refresh_epoch (refreshes s ! i) \<noteq> policy_epoch s then (refresh_policy s, False)
      else ((update (\<lambda>n. n\<lparr>rooms := preferred_rooms p, versions := nullish (preferred_versions p) [],
                muted_until := nullish (preferred_muted p) [], quiet := Some q, policy_received_at := monotonic c,
                dnd := effective_dnd (local_dnd n) (account_dnd n) (Some q), ready := True\<rparr>) s)\<lparr>policy_retry_delay := 2000\<rparr>, True))"
  by (auto simp: policy_answer_def mine_def Let_def split: option.split)

lemma load_invD:
  assumes "load_inv s"
  shows "r \<in> set (refreshes s) \<Longrightarrow> refresh_ok s r" "list_all (refresh_ok s) (refreshes s)" "request_ok s"
    "nonempty (current_user s) \<Longrightarrow> policy_request s \<noteq> None \<or> retry_timer s \<noteq> None \<or> policy_timer s \<noteq> None"
    "current_user s = None \<Longrightarrow> policy_request s = None \<and> retry_timer s = None \<and> policy_timer s = None"
  using assms by (auto simp: load_inv_def watched_def idle_out_def list_all_iff)

text \<open>What an answer of a current call finds: somebody is signed in.\<close>

lemma mine_signed_in: "load_inv s \<Longrightarrow> i < length (refreshes s) \<Longrightarrow> mine i s \<Longrightarrow> current_user s \<noteq> None"
  using load_invD(1) [of s "refreshes s ! i"] by (auto simp: mine_def refresh_ok_def)

lemma load_inv_close:
  assumes "load_inv s" "i < length (refreshes s)"
    and same: "current_user t = current_user s" "session_revision t = session_revision s" "policy_epoch t = policy_epoch s"
      "policy_request t = policy_request s" "refreshes t = refreshes s"
    and next_step: "nonempty (current_user s) \<Longrightarrow> policy_request s \<noteq> None \<and> policy_request s \<noteq> Some i \<or> retry_timer t \<noteq> None \<or> policy_timer t \<noteq> None"
    and out: "current_user s = None \<Longrightarrow> retry_timer t = None \<and> policy_timer t = None"
  shows "load_inv (close_refresh i t)"
  unfolding load_inv_def
proof (intro conjI)
  have "refresh_ok s ((refreshes s ! i)\<lparr>refresh_done := True\<rparr>)"
    using load_invD(1) [OF assms(1) nth_mem [OF assms(2)]] by (simp add: refresh_ok_def)
  then have "refresh_ok s r" if "r \<in> set ((refreshes s)[i := (refreshes s ! i)\<lparr>refresh_done := True\<rparr>])" for r
    using that set_update_subset_insert [of "refreshes s" i] load_invD(1) [OF assms(1)] by blast
  then show "list_all (refresh_ok (close_refresh i t)) (refreshes (close_refresh i t))"
    using same by (simp add: close_refresh_def list_all_iff) (simp add: refresh_ok_def)
  show "request_ok (close_refresh i t)"
    using load_invD(3) [OF assms(1)] same by (auto simp: request_ok_def close_refresh_def nth_list_update)
  show "watched (close_refresh i t)" using next_step same by (auto simp: watched_def close_refresh_def)
  show "idle_out (close_refresh i t)" using load_invD(5) [OF assms(1)] out same by (auto simp: idle_out_def close_refresh_def)
qed

lemma load_inv_answer:
  assumes "load_inv s"
  shows "load_inv (refresh_answer env i result c s)"
proof (cases "i < length (refreshes s) \<and> \<not> refresh_done (refreshes s ! i)")
  case True
  note D = load_invD [OF assms]
  show ?thesis
  proof (cases "mine i s")
    case False
    have "policy_request s \<noteq> Some i" if "nonempty (current_user s)"
      using False D(3) that by (auto simp: request_ok_def mine_def)
    then have "load_inv (close_refresh i s)" using D(4,5) True by (intro load_inv_close [OF assms]) auto
    with True False show ?thesis
      by (simp add: refresh_answer_cases policy_answer_cases)
  next
    case mine: True
    note user = mine_signed_in [OF assms conjunct1 [OF True] mine]
    show ?thesis
    proof (cases result)
      case None
      have "load_inv (close_refresh i (retry_policy (update (\<lambda>n. n\<lparr>ready := False\<rparr>) s)))"
        using True user by (intro load_inv_close [OF assms]) (simp_all add: retry_policy_def)
      moreover have "mine i (update (\<lambda>n. n\<lparr>ready := False\<rparr>) s)" using mine by (simp add: mine_def)
      ultimately show ?thesis using True mine None by (simp add: refresh_answer_cases policy_answer_cases)
    next
      case (Some a)
      obtain p q where a: "a = (p, q)" by (cases a)
      show ?thesis
      proof (cases "refresh_epoch (refreshes s ! i) = policy_epoch s")
        case epoch: True
        have "load_inv (close_refresh i (schedule_policy_refresh env c t))"
          if "load_part t = load_part s" for t
          using that True user by (intro load_inv_close [OF assms]) (simp_all add: schedule_policy_refresh_def load_part_def)
        with True mine Some a epoch show ?thesis
          by (simp add: refresh_answer_cases policy_answer_cases load_part_def) (simp add: mine_def)
      next
        case False
        have again: "load_inv (refresh_policy s)" by (rule load_inv_policy [OF assms])
        have "load_inv (close_refresh i (if mine i (refresh_policy s) then retry_policy (refresh_policy s) else refresh_policy s))"
        proof (rule load_inv_close [OF again])
          show "i < length (refreshes (refresh_policy s))" using True by (cases "nonempty (current_user s)") (simp_all add: refresh_policy_eq)
        qed (use True user D(5) in \<open>auto simp: refresh_policy_eq retry_policy_def\<close>)
        with True mine Some a False show ?thesis
          by (cases "mine i (refresh_policy s)") (simp_all add: refresh_answer_cases policy_answer_cases)
      qed
    qed
  qed
qed (use assms in \<open>auto simp: refresh_answer_cases\<close>)

section \<open>Nothing is left behind\<close>

definition note_inv :: "notifications \<Rightarrow> bool" where
  "note_inv s \<longleftrightarrow>
     dnd (note_state s) = effective_dnd (local_dnd (note_state s)) (account_dnd (note_state s)) (quiet (note_state s)) \<and>
     (ready (note_state s) \<longrightarrow> quiet (note_state s) \<noteq> None) \<and>
     (current_user s = None \<longrightarrow> note_state s = no_policy False False False)"

definition in_time :: "string option \<Rightarrow> nat \<Rightarrow> nat \<Rightarrow> bool" where
  "in_time user now r \<longleftrightarrow> r \<le> now \<and> (user = None \<longrightarrow> r < now)"

abbreviation timely :: "notifications \<Rightarrow> nat \<Rightarrow> bool" where
  "timely s \<equiv> in_time (current_user s) (session_revision s)"

definition task_inv :: "notifications \<Rightarrow> bool" where
  "task_inv s \<longleftrightarrow> list_all (\<lambda>w. timely s (write_revision w)) (writes s) \<and>
     list_all (\<lambda>q. \<forall>r. q = Some r \<longrightarrow> timely s r) (quiet_saves s) \<and>
     list_all (\<lambda>q. \<forall>u r b. q = Some (u, r, b) \<longrightarrow> timely s r) (alert_requests s)"

definition policy_inv :: "notifications \<Rightarrow> bool" where
  "policy_inv s \<longleftrightarrow> load_inv s \<and> note_inv s \<and> task_inv s"

definition loaded_policy :: "preferences \<Rightarrow> quiet_hours \<Rightarrow> clock \<Rightarrow> notification_state \<Rightarrow> notification_state" where
  "loaded_policy p q c n = n\<lparr>rooms := preferred_rooms p, versions := nullish (preferred_versions p) [],
     muted_until := nullish (preferred_muted p) [], quiet := Some q, policy_received_at := monotonic c,
     dnd := effective_dnd (local_dnd n) (account_dnd n) (Some q), ready := True\<rparr>"

lemma close_refresh_simps [simp]:
  "note_state (close_refresh i s) = note_state s" "current_user (close_refresh i s) = current_user s"
  "session_revision (close_refresh i s) = session_revision s" "policy_epoch (close_refresh i s) = policy_epoch s"
  "writes (close_refresh i s) = writes s" "room_writes (close_refresh i s) = room_writes s" "notices (close_refresh i s) = notices s"
  "quiet_saves (close_refresh i s) = quiet_saves s" "alert_requests (close_refresh i s) = alert_requests s"
  "policy_effects (close_refresh i s) = policy_effects s"
  by (simp_all add: close_refresh_def)

lemma policy_schedule_simps [simp]:
  "note_state (schedule_policy_refresh env c s) = note_state s" "current_user (schedule_policy_refresh env c s) = current_user s"
  "session_revision (schedule_policy_refresh env c s) = session_revision s" "policy_epoch (schedule_policy_refresh env c s) = policy_epoch s"
  "writes (schedule_policy_refresh env c s) = writes s" "room_writes (schedule_policy_refresh env c s) = room_writes s"
  "notices (schedule_policy_refresh env c s) = notices s" "refreshes (schedule_policy_refresh env c s) = refreshes s"
  "quiet_saves (schedule_policy_refresh env c s) = quiet_saves s" "alert_requests (schedule_policy_refresh env c s) = alert_requests s"
  "policy_effects (schedule_policy_refresh env c s) = policy_effects s" "policy_request (schedule_policy_refresh env c s) = policy_request s"
  by (simp_all add: schedule_policy_refresh_def)

lemma retry_policy_simps [simp]:
  "note_state (retry_policy s) = note_state s" "current_user (retry_policy s) = current_user s"
  "session_revision (retry_policy s) = session_revision s" "policy_epoch (retry_policy s) = policy_epoch s"
  "writes (retry_policy s) = writes s" "room_writes (retry_policy s) = room_writes s" "notices (retry_policy s) = notices s"
  "quiet_saves (retry_policy s) = quiet_saves s" "alert_requests (retry_policy s) = alert_requests s"
  "policy_effects (retry_policy s) = policy_effects s"
  by (simp_all add: retry_policy_def)

text \<open>What an answer to a refresh leaves alone, and what it shows.\<close>

lemma refresh_answer_same [simp]:
  "current_user (refresh_answer env i result c s) = current_user s" "session_revision (refresh_answer env i result c s) = session_revision s"
  "policy_epoch (refresh_answer env i result c s) = policy_epoch s" "writes (refresh_answer env i result c s) = writes s"
  "room_writes (refresh_answer env i result c s) = room_writes s" "notices (refresh_answer env i result c s) = notices s"
  "quiet_saves (refresh_answer env i result c s) = quiet_saves s" "alert_requests (refresh_answer env i result c s) = alert_requests s"
  by (cases "mine i s"; cases result; cases "refresh_epoch (refreshes s ! i) = policy_epoch s";
      force simp: refresh_answer_cases policy_answer_cases)+

lemma refresh_answer_shows:
  "note_state (refresh_answer env i result c s) = note_state s \<or>
   i < length (refreshes s) \<and> mine i s \<and>
     (note_state (refresh_answer env i result c s) = (note_state s)\<lparr>ready := False\<rparr> \<or>
      refresh_epoch (refreshes s ! i) = policy_epoch s \<and> \<not> refresh_done (refreshes s ! i) \<and>
      (\<exists>p q. result = Some (p, q) \<and> note_state (refresh_answer env i result c s) = loaded_policy p q c (note_state s)))"
proof (cases "i < length (refreshes s) \<and> \<not> refresh_done (refreshes s ! i) \<and> mine i s")
  case True
  then show ?thesis
  proof (cases result)
    case None
    with True show ?thesis by (simp add: refresh_answer_cases policy_answer_cases Let_def)
  next
    case (Some a)
    obtain p q where a: "a = (p, q)" by (cases a)
    show ?thesis
    proof (cases "refresh_epoch (refreshes s ! i) = policy_epoch s")
      case epoch: True
      have "note_state (refresh_answer env i result c s) = loaded_policy p q c (note_state s)"
        using True Some a epoch by (simp add: refresh_answer_cases policy_answer_cases loaded_policy_def)
      with True Some a epoch show ?thesis by blast
    next
      case False
      with True Some a show ?thesis by (simp add: refresh_answer_cases policy_answer_cases Let_def)
    qed
  qed
next
  case False
  then show ?thesis by (auto simp: refresh_answer_cases policy_answer_cases)
qed

lemma note_inv_answer:
  assumes "load_inv s" "note_inv s"
  shows "note_inv (refresh_answer env i result c s)"
proof -
  have "current_user s \<noteq> None" if "i < length (refreshes s)" "mine i s" by (rule mine_signed_in [OF assms(1) that])
  with refresh_answer_shows [of env i result c s] assms(2) show ?thesis
    by (auto simp: note_inv_def loaded_policy_def)
qed

lemma note_inv_same: "note_state s' = note_state s \<Longrightarrow> current_user s' = current_user s \<Longrightarrow> note_inv s \<Longrightarrow> note_inv s'"
  by (simp add: note_inv_def)

lemma task_inv_same:
  "writes s' = writes s \<Longrightarrow> quiet_saves s' = quiet_saves s \<Longrightarrow> alert_requests s' = alert_requests s \<Longrightarrow>
   current_user s' = current_user s \<Longrightarrow> session_revision s' = session_revision s \<Longrightarrow> task_inv s \<Longrightarrow> task_inv s'"
  by (simp add: task_inv_def)

lemma list_all_update: "list_all P xs \<Longrightarrow> P x \<Longrightarrow> list_all P (xs[i := x])"
  unfolding list_all_iff using set_update_subset_insert [of xs i x] by blast

text \<open>A phase of a write.\<close>

lemma write_phase_simps [simp]:
  "note_state (set_phase t ph s) = note_state s" "current_user (set_phase t ph s) = current_user s"
  "session_revision (set_phase t ph s) = session_revision s" "policy_epoch (set_phase t ph s) = policy_epoch s"
  "retry_timer (set_phase t ph s) = retry_timer s" "policy_timer (set_phase t ph s) = policy_timer s"
  "policy_request (set_phase t ph s) = policy_request s" "refreshes (set_phase t ph s) = refreshes s"
  "room_writes (set_phase t ph s) = room_writes s" "notices (set_phase t ph s) = notices s"
  "quiet_saves (set_phase t ph s) = quiet_saves s" "alert_requests (set_phase t ph s) = alert_requests s"
  "policy_effects (set_phase t ph s) = policy_effects s" "length (writes (set_phase t ph s)) = length (writes s)"
  "t < length (writes s) \<Longrightarrow> writes (set_phase t ph s) ! u = (if u = t then (writes s ! t)\<lparr>write_phase := ph\<rparr> else writes s ! u)"
  by (simp_all add: set_phase_def nth_list_update)

lemma task_inv_phase:
  assumes "task_inv s" "t < length (writes s)"
  shows "task_inv (set_phase t ph s)"
proof -
  have "list_all (\<lambda>w. timely s (write_revision w)) ((writes s)[t := (writes s ! t)\<lparr>write_phase := ph\<rparr>])"
    using assms by (intro list_all_update) (simp_all add: task_inv_def list_all_length)
  with assms(1) show ?thesis by (simp add: task_inv_def set_phase_def)
qed

lemma load_part_simps [simp]:
  "load_part (set_phase t ph s) = load_part s" "load_part (update f s) = load_part s" "load_part (request e s) = load_part s"
  "load_part (persist u k b s) = load_part s" "load_part (s\<lparr>room_writes := m\<rparr>) = load_part s" "load_part (s\<lparr>notices := ns\<rparr>) = load_part s"
  "load_part (s\<lparr>writes := ws\<rparr>) = load_part s" "load_part (s\<lparr>quiet_saves := qs\<rparr>) = load_part s"
  "load_part (s\<lparr>alert_requests := as\<rparr>) = load_part s" "load_part (s\<lparr>account_setting := a\<rparr>) = load_part s"
  "load_part (s\<lparr>policy_retry_delay := d\<rparr>) = load_part s"
  by (simp_all add: load_part_def)

lemma policy_inv_phase: "policy_inv s \<Longrightarrow> t < length (writes s) \<Longrightarrow> policy_inv (set_phase t ph s)"
  unfolding policy_inv_def by (auto intro: load_inv_same note_inv_same task_inv_phase)

text \<open>Steps that touch nothing the invariant speaks of.\<close>

definition policy_part :: "notifications \<Rightarrow> notification_state \<times> room_write list \<times> nat option list \<times> (string \<times> nat \<times> bool) option list" where
  "policy_part s = (note_state s, writes s, quiet_saves s, alert_requests s)"

lemma policy_inv_same:
  assumes "policy_inv s" "policy_part s' = policy_part s" "load_part s' = load_part s"
  shows "policy_inv s'"
  using assms load_inv_same [of s' s] note_inv_same [of s' s] task_inv_same [of s' s]
  by (auto simp: policy_inv_def policy_part_def load_part_def)

lemma policy_part_simps [simp]:
  "policy_part (request e s) = policy_part s" "policy_part (persist u k b s) = policy_part s"
  "policy_part (s\<lparr>room_writes := m\<rparr>) = policy_part s" "policy_part (s\<lparr>notices := ns\<rparr>) = policy_part s"
  "policy_part (s\<lparr>account_setting := a\<rparr>) = policy_part s"
  by (simp_all add: policy_part_def)

section \<open>Every step keeps the invariant\<close>

lemma note_inv_policy [simp]: "current_user s \<noteq> None \<or> \<not> a \<and> \<not> b \<and> \<not> c \<Longrightarrow> note_state s = no_policy a b c \<Longrightarrow> note_inv s"
  by (auto simp: note_inv_def no_policy_def effective_dnd_def)

lemma task_inv_later:
  assumes "task_inv s" "session_revision t = Suc (session_revision s)" "writes t = writes s" "quiet_saves t = quiet_saves s"
    "alert_requests t = alert_requests s"
  shows "task_inv t"
proof -
  have "timely t r" if "timely s r" for r using that assms(2) by (auto simp: in_time_def)
  with assms show ?thesis by (auto simp: task_inv_def list_all_iff)
qed

lemma refreshes_ok_later:
  assumes "list_all (refresh_ok s) rs" "session_revision t = Suc (session_revision s)" "policy_epoch s \<le> policy_epoch t"
  shows "list_all (refresh_ok t) rs"
  using assms by (auto simp: list_all_iff refresh_ok_def)

text \<open>What \<open>startNotificationSession\<close> has set before it refreshes.\<close>

definition session_set :: "policy_env \<Rightarrow> string \<Rightarrow> notifications \<Rightarrow> notifications" where
  "session_set env user s =
     (let s = s\<lparr>session_revision := Suc (session_revision s), retry_timer := None, current_user := Some user,
                policy_epoch := Suc (policy_epoch s)\<rparr>;
          s = update (\<lambda>_. no_policy (stored user ''dnd'' s) (account_setting s = Some (user, True)) (stored_alerts user s)) (s\<lparr>room_writes := []\<rparr>)
      in if alerts (note_state s) \<and> push_supported env then sync_push s else s)"

lemma start_session_eq: "start_session env user s = refresh_policy (session_set env user s)"
  by (simp add: start_session_def session_set_def Let_def)

lemma session_set_simps:
  "session_revision (session_set env user s) = Suc (session_revision s)" "current_user (session_set env user s) = Some user"
  "policy_epoch (session_set env user s) = Suc (policy_epoch s)" "refreshes (session_set env user s) = refreshes s"
  "policy_request (session_set env user s) = policy_request s" "writes (session_set env user s) = writes s"
  "quiet_saves (session_set env user s) = quiet_saves s" "alert_requests (session_set env user s) = alert_requests s"
  "room_writes (session_set env user s) = []"
  "\<exists>a b c. note_state (session_set env user s) = no_policy a b c"
  by (auto simp: session_set_def sync_push_def Let_def)

lemma policy_inv_start:
  assumes "policy_inv s"
  shows "policy_inv (start_session env user s)"
proof -
  let ?t = "session_set env user s"
  note T = session_set_simps [of env user s]
  have ok: "list_all (refresh_ok ?t) (refreshes ?t)"
    using refreshes_ok_later [of s "refreshes s" ?t] assms T by (simp add: policy_inv_def load_inv_def)
  have "load_inv (refresh_policy ?t)"
  proof (cases "user = []")
    case False
    with ok T show ?thesis by (intro load_inv_refresh) simp_all
  next
    case True
    have "request_ok s" using assms by (simp add: policy_inv_def load_inv_def)
    then have "request_ok ?t" using True T by (auto simp: request_ok_def)
    with True T ok show ?thesis by (simp add: load_inv_def watched_def idle_out_def)
  qed
  moreover have "note_inv ?t" using T(2,10) by (metis note_inv_policy option.distinct(1))
  then have "note_inv (refresh_policy ?t)" by (rule note_inv_same [rotated 2]) simp_all
  moreover have "task_inv ?t" using task_inv_later [of s ?t] assms T by (simp add: policy_inv_def)
  then have "task_inv (refresh_policy ?t)" by (rule task_inv_same [rotated 5]) simp_all
  ultimately show ?thesis by (simp add: policy_inv_def start_session_eq)
qed

lemma policy_inv_stop:
  assumes "policy_inv s"
  shows "policy_inv (stop_session revision s)"
proof (cases "session_revision s = revision")
  case True
  define t where "t = stop_session revision s"
  have T: "session_revision t = Suc (session_revision s)" "current_user t = None" "policy_request t = None" "retry_timer t = None"
    "policy_timer t = None" "policy_epoch t = policy_epoch s" "writes t = writes s" "quiet_saves t = quiet_saves s"
    "alert_requests t = alert_requests s" "note_state t = no_policy False False False" "refreshes t = aborted_refreshes s"
    using True by (simp_all add: t_def stop_session_def abort_request_eq aborted_refreshes_def Let_def split: option.split)
  have "list_all (refresh_ok t) (refreshes s)"
    using refreshes_ok_later [of s "refreshes s" t] assms T by (simp add: policy_inv_def load_inv_def)
  then have "refresh_ok t r" if "r \<in> set (aborted_refreshes s)" for r
    using aborted_member [OF that] by (auto simp: list_all_iff refresh_ok_def)
  then have "load_inv t" using T by (simp add: load_inv_def list_all_iff request_ok_def watched_def idle_out_def)
  moreover have "note_inv t" using T(10) by (rule note_inv_policy [rotated]) simp
  moreover have "task_inv t" using task_inv_later [of s t] assms T by (simp add: policy_inv_def)
  ultimately show ?thesis by (simp add: policy_inv_def t_def)
qed (use assms in \<open>simp add: stop_session_def\<close>)

lemma policy_inv_refresh: "policy_inv s \<Longrightarrow> policy_inv (refresh_policy s)"
  unfolding policy_inv_def by (auto intro: load_inv_policy note_inv_same task_inv_same)

lemma policy_inv_answer: "policy_inv s \<Longrightarrow> policy_inv (refresh_answer env i result c s)"
  unfolding policy_inv_def by (auto intro: load_inv_answer note_inv_answer task_inv_same)

lemma policy_inv_timer:
  assumes "policy_inv s" "load_part t = (current_user s, session_revision s, policy_epoch s, r, p, policy_request s, refreshes s)"
    "policy_part t = policy_part s" "current_user s = None \<longrightarrow> r = None \<and> p = None"
  shows "policy_inv (refresh_policy t)"
proof -
  have t: "current_user t = current_user s" "session_revision t = session_revision s" "policy_epoch t = policy_epoch s" "retry_timer t = r"
    "policy_timer t = p" "policy_request t = policy_request s" "refreshes t = refreshes s" "note_state t = note_state s"
    "writes t = writes s" "quiet_saves t = quiet_saves s" "alert_requests t = alert_requests s"
    using assms(2,3) by (simp_all add: load_part_def policy_part_def)
  have ok: "list_all (refresh_ok t) (refreshes t)" "request_ok t" "idle_out t"
    using assms(1,4) t by (auto simp: policy_inv_def load_inv_def list_all_iff refresh_ok_def request_ok_def idle_out_def)
  have "load_inv (refresh_policy t)"
  proof (cases "nonempty (current_user t)")
    case True
    with ok show ?thesis by (intro load_inv_refresh)
  next
    case False
    with ok show ?thesis by (simp add: load_inv_def watched_def)
  qed
  moreover have "note_inv (refresh_policy t)" by (rule note_inv_same [of _ s]) (use assms(1) t in \<open>simp_all add: policy_inv_def\<close>)
  moreover have "task_inv (refresh_policy t)" by (rule task_inv_same [of _ s]) (use assms(1) t in \<open>simp_all add: policy_inv_def\<close>)
  ultimately show ?thesis by (simp add: policy_inv_def)
qed

lemma policy_inv_fires:
  assumes "policy_inv s"
  shows "policy_inv (retry_fires s)" "policy_inv (policy_timer_fires s)"
proof -
  have out: "current_user s = None \<longrightarrow> retry_timer s = None \<and> policy_timer s = None"
    using assms by (simp add: policy_inv_def load_inv_def idle_out_def)
  show "policy_inv (retry_fires s)"
    using assms out policy_inv_timer [of s "s\<lparr>retry_timer := None\<rparr>" None "policy_timer s"]
    by (simp add: retry_fires_def load_part_def policy_part_def)
  show "policy_inv (policy_timer_fires s)"
    using assms out policy_inv_timer [of s "s\<lparr>policy_timer := None\<rparr>" "retry_timer s" None]
    by (simp add: policy_timer_fires_def load_part_def policy_part_def)
qed

text \<open>A change of the policy by the application: the epoch moves on and the timer is set anew.\<close>

lemma load_inv_change:
  assumes "load_inv s" "current_user s \<noteq> None" "current_user t = current_user s" "session_revision t = session_revision s"
    "policy_epoch s \<le> policy_epoch t" "policy_request t = policy_request s" "refreshes t = refreshes s" "policy_timer t \<noteq> None"
  shows "load_inv t"
  using assms by (auto simp: load_inv_def list_all_iff refresh_ok_def request_ok_def watched_def idle_out_def)

lemma timely_current: "timely s (session_revision s) \<Longrightarrow> current_user s \<noteq> None"
  by (auto simp: in_time_def)

lemma task_inv_updateD:
  assumes "task_inv s"
  shows "i < length (quiet_saves s) \<Longrightarrow> quiet_saves s ! i = Some r \<Longrightarrow> timely s r"
    "j < length (alert_requests s) \<Longrightarrow> alert_requests s ! j = Some (u, r, b) \<Longrightarrow> timely s r"
    "t < length (writes s) \<Longrightarrow> timely s (write_revision (writes s ! t))"
  using assms by (simp_all add: task_inv_def list_all_length)

lemma task_inv_clear:
  assumes "task_inv s"
  shows "task_inv (s\<lparr>quiet_saves := (quiet_saves s)[i := None]\<rparr>)" "task_inv (s\<lparr>alert_requests := (alert_requests s)[j := None]\<rparr>)"
  using assms by (simp_all add: task_inv_def list_all_update)

lemma policy_inv_quiet:
  assumes "policy_inv s"
  shows "policy_inv (quiet_saved env i result c s)"
proof (cases "i < length (quiet_saves s) \<and> quiet_saves s ! i \<noteq> None")
  case True
  then obtain r where r: "i < length (quiet_saves s)" "quiet_saves s ! i = Some r" by auto
  let ?s = "s\<lparr>quiet_saves := (quiet_saves s)[i := None]\<rparr>"
  have parts: "load_inv s" "note_inv s" "task_inv s" using assms by (simp_all add: policy_inv_def)
  have inv: "policy_inv ?s"
    using load_inv_same [of ?s s] note_inv_same [of ?s s] task_inv_clear(1) [OF parts(3), of i] parts by (simp add: policy_inv_def)
  show ?thesis
  proof (cases "result = None \<or> r \<noteq> session_revision s")
    case True
    with inv r show ?thesis by (cases result) (simp_all add: quiet_saved_def Let_def)
  next
    case False
    then obtain q where q: "result = Some q" "r = session_revision s" by auto
    have user: "current_user s \<noteq> None"
      using task_inv_updateD(1) [OF parts(3) r] q(2) by (auto simp: in_time_def)
    define t where "t = quiet_saved env i result c s"
    have t: "load_inv t" unfolding t_def
      by (rule load_inv_change [OF parts(1) user]) (use r q in \<open>simp_all add: quiet_saved_def Let_def\<close>, simp add: schedule_policy_refresh_def)
    have "note_inv t" using parts(2) user r q by (auto simp: t_def quiet_saved_def note_inv_def Let_def)
    moreover have "task_inv t"
      by (rule task_inv_same [of _ ?s]) (use inv r q in \<open>simp_all add: t_def quiet_saved_def policy_inv_def Let_def\<close>)
    ultimately show ?thesis using t by (simp add: policy_inv_def t_def)
  qed
qed (use assms in \<open>auto simp: quiet_saved_def\<close>)

lemma policy_inv_save:
  assumes "policy_inv s"
  shows "policy_inv (save_quiet_hours s)" "policy_inv (update_room_policy room patch s)"
proof -
  have "timely s (session_revision s)" if "nonempty (current_user s)" using that by (cases "current_user s") (simp_all add: in_time_def)
  then show "policy_inv (save_quiet_hours s)" "policy_inv (update_room_policy room patch s)"
    using assms load_inv_same [of "save_quiet_hours s" s] note_inv_same [of "save_quiet_hours s" s]
      load_inv_same [of "update_room_policy room patch s" s] note_inv_same [of "update_room_policy room patch s" s]
    by (auto simp: policy_inv_def save_quiet_hours_def update_room_policy_def load_part_def task_inv_def)
qed

lemma settle_eq:
  "settle t ok s = set_phase t (Settled ok) (s\<lparr>room_writes :=
     (if jget (room_writes s) (write_room (writes s ! t)) = Some t then jdel (room_writes s) (write_room (writes s ! t)) else room_writes s)\<rparr>)"
  by (simp add: settle_def Let_def)

lemma policy_inv_settle: "policy_inv s \<Longrightarrow> t < length (writes s) \<Longrightarrow> policy_inv (settle t ok s)"
  unfolding settle_eq by (rule policy_inv_phase) (simp_all add: policy_inv_same [of s])

lemma policy_inv_attempt: "policy_inv s \<Longrightarrow> t < length (writes s) \<Longrightarrow> policy_inv (attempt_write t a s)"
  unfolding attempt_write_def Let_def by (rule policy_inv_phase) (simp_all add: policy_inv_same [of s])

lemma policy_inv_write_answer:
  assumes "policy_inv s" "t < length (writes s)"
  shows "policy_inv (write_answer env t result c s)"
proof (cases "write_phase (writes s ! t)")
  case (Writing expected attempt)
  have parts: "load_inv s" "note_inv s" "task_inv s" using assms(1) by (simp_all add: policy_inv_def)
  show ?thesis
  proof (cases result)
    case None
    show ?thesis
    proof (cases "write_revision (writes s ! t) = session_revision s")
      case True
      have user: "current_user s \<noteq> None" using task_inv_updateD(3) [OF parts(3) assms(2)] True by (auto simp: in_time_def)
      define u where "u = schedule_policy_refresh env c (update (patch_room (write_room (writes s ! t)) (write_patch (writes s ! t)) (expected + 1))
        (s\<lparr>policy_epoch := Suc (policy_epoch s)\<rparr>))"
      have "load_inv u" unfolding u_def by (rule load_inv_change [OF parts(1) user]) (simp_all, simp add: schedule_policy_refresh_def)
      moreover have "note_inv u" using parts(2) user by (auto simp: u_def note_inv_def patch_room_def)
      moreover have "task_inv u" by (rule task_inv_same [OF _ _ _ _ _ parts(3)]) (simp_all add: u_def)
      ultimately have "policy_inv u" "t < length (writes u)" using assms(2) by (simp_all add: policy_inv_def u_def)
      then show ?thesis using Writing None True by (simp add: write_answer_def u_def policy_inv_settle)
    qed (use assms Writing None in \<open>simp add: write_answer_def policy_inv_settle\<close>)
  next
    case (Some e)
    with assms Writing show ?thesis by (simp add: write_answer_def policy_inv_settle policy_inv_phase policy_inv_refresh Let_def)
  qed
qed (use assms in \<open>simp_all add: write_answer_def\<close>)

lemma policy_inv_writes:
  assumes "policy_inv s" "t < length (writes s)"
  shows "policy_inv (write_starts t s)" "policy_inv (write_resumes t s)"
  using assms by (auto simp: write_starts_def write_resumes_def policy_inv_settle policy_inv_attempt split: write_phase.split option.split)

lemma policy_inv_note:
  assumes "policy_inv s" "note_inv (update f s)"
  shows "policy_inv (update f s)"
  using assms load_inv_same [of "update f s" s] task_inv_same [of "update f s" s] by (simp add: policy_inv_def)

lemma policy_inv_sync: "policy_inv s \<Longrightarrow> policy_inv (request e s)"
  by (rule policy_inv_same) simp_all

lemma policy_inv_dnd:
  assumes "policy_inv s"
  shows "policy_inv (set_do_not_disturb env on s)" "policy_inv (set_account_do_not_disturb user on s)"
proof -
  have n: "note_inv s" using assms by (simp add: policy_inv_def)
  show "policy_inv (set_do_not_disturb env on s)"
  proof (cases "current_user s")
    case (Some u)
    define f where "f = (\<lambda>n :: notification_state. n\<lparr>local_dnd := on, dnd := effective_dnd on (account_dnd n) (quiet n)\<rparr>)"
    have "policy_inv (update f (persist u ''dnd'' on s))"
    proof (rule policy_inv_note)
      show "policy_inv (persist u ''dnd'' on s)" by (rule policy_inv_same [OF assms]) simp_all
    qed (use n Some in \<open>simp add: f_def note_inv_def\<close>)
    then show ?thesis
      using assms Some by (simp add: set_do_not_disturb_def f_def [symmetric] sync_push_def policy_inv_sync Let_def)
  qed (use assms in \<open>simp add: set_do_not_disturb_def\<close>)
  have s: "policy_inv (s\<lparr>account_setting := Some (user, on)\<rparr>)" by (rule policy_inv_same [OF assms]) simp_all
  show "policy_inv (set_account_do_not_disturb user on s)"
  proof (cases "current_user s = Some user")
    case True
    then show ?thesis unfolding set_account_do_not_disturb_def Let_def
      using n s by (auto intro!: policy_inv_note simp: note_inv_def)
  qed (use s in \<open>simp add: set_account_do_not_disturb_def\<close>)
qed

lemma policy_inv_finish:
  assumes "policy_inv s"
  shows "policy_inv (finish_alerts env user revision on s)"
proof (cases "session_revision s = revision \<and> current_user s = Some user")
  case True
  define f where "f = (\<lambda>n :: notification_state. n\<lparr>alerts := on, background := False, note_error := []\<rparr>)"
  have "policy_inv (update f (persist user ''alerts'' on s))"
  proof (rule policy_inv_note)
    show "policy_inv (persist user ''alerts'' on s)" by (rule policy_inv_same [OF assms]) simp_all
  qed (use assms True in \<open>simp add: f_def note_inv_def policy_inv_def\<close>)
  then show ?thesis using True
    by (cases on) (simp_all add: finish_alerts_def f_def sync_push_def policy_inv_sync Let_def)
qed (use assms in \<open>auto simp: finish_alerts_def\<close>)

lemma policy_inv_permission:
  assumes "policy_inv s"
  shows "policy_inv (permission_answer env i granted s)"
proof (cases "i < length (alert_requests s) \<and> alert_requests s ! i \<noteq> None")
  case True
  then obtain user r on where r: "i < length (alert_requests s)" "alert_requests s ! i = Some (user, r, on)" by auto
  let ?s = "s\<lparr>alert_requests := (alert_requests s)[i := None]\<rparr>"
  have parts: "load_inv s" "note_inv s" "task_inv s" using assms by (simp_all add: policy_inv_def)
  have inv: "policy_inv ?s"
    using load_inv_same [of ?s s] note_inv_same [of ?s s] task_inv_clear(2) [OF parts(3), of i] parts by (simp add: policy_inv_def)
  have "policy_inv (update (\<lambda>n. n\<lparr>note_error := e\<rparr>) ?s)" if "r = session_revision s" for e
  proof (rule policy_inv_note [OF inv])
    have "current_user s \<noteq> None" using task_inv_updateD(2) [OF parts(3) r] that by (auto simp: in_time_def)
    with parts(2) show "note_inv (update (\<lambda>n. n\<lparr>note_error := e\<rparr>) ?s)" by (auto simp: note_inv_def)
  qed
  with inv r show ?thesis by (simp add: permission_answer_def policy_inv_finish Let_def)
qed (use assms in \<open>auto simp: permission_answer_def split: option.split\<close>)

lemma policy_inv_alerts:
  assumes "policy_inv s"
  shows "policy_inv (set_system_notifications env on s)"
proof (cases "current_user s")
  case (Some u)
  have "policy_inv (s\<lparr>alert_requests := alert_requests s @ [Some (u, session_revision s, on)]\<rparr>)" (is "policy_inv ?s")
    using assms Some load_inv_same [of ?s s] note_inv_same [of ?s s] by (simp add: policy_inv_def task_inv_def in_time_def)
  with assms Some show ?thesis by (cases on) (simp_all add: set_system_notifications_def policy_inv_finish)
qed (use assms in \<open>simp add: set_system_notifications_def\<close>)

lemma notice_parts:
  "policy_part (notify_browser tagged granted s) = policy_part s" "load_part (notify_browser tagged granted s) = load_part s"
  "policy_part (worker_answer i active granted s) = policy_part s" "load_part (worker_answer i active granted s) = load_part s"
  "policy_part (worker_shown i ok granted s) = policy_part s" "load_part (worker_shown i ok granted s) = load_part s"
  by (auto simp: notify_browser_def worker_answer_def worker_shown_def page_notification_def Let_def split: option.split)

lemma policy_inv_step: "policy_inv s \<Longrightarrow> policy_inv (policy_step env s e)"
  by (cases e) (simp_all add: policy_inv_start policy_inv_stop policy_inv_refresh policy_inv_answer policy_inv_fires policy_inv_save
      policy_inv_quiet policy_inv_writes policy_inv_write_answer policy_inv_dnd policy_inv_alerts policy_inv_permission
      policy_inv_same [of s] notice_parts)

interpretation policies: event_machine "policy_step env" policy_inv for env
  by unfold_locales (rule policy_inv_step)

lemma policy_inv_new: "policy_inv (new_notifications disk)"
  by (simp add: policy_inv_def load_inv_def note_inv_def task_inv_def request_ok_def watched_def idle_out_def
      new_notifications_def no_policy_def effective_dnd_def)

section \<open>Writes of a room take turns\<close>

definition same_line :: "room_write \<Rightarrow> room_write \<Rightarrow> bool" where
  "same_line a b \<longleftrightarrow> write_room a = write_room b \<and> write_revision a = write_revision b"

fun settled :: "write_phase \<Rightarrow> bool" where
  "settled (Settled ok) = True"
| "settled _ = False"

fun behind :: "write_phase \<Rightarrow> bool" where
  "behind (Behind p) = True"
| "behind _ = False"

text \<open>A write that has started finds the writes before it settled; one that waits, waits for the last before it.\<close>

fun phase_ok :: "room_write list \<Rightarrow> nat \<Rightarrow> write_phase \<Rightarrow> bool" where
  "phase_ok ws t (Behind (Some p)) =
     (p < t \<and> same_line (ws ! p) (ws ! t) \<and> (\<forall>u<t. same_line (ws ! u) (ws ! t) \<longrightarrow> u \<le> p))"
| "phase_ok ws t ph = (\<forall>u<t. same_line (ws ! u) (ws ! t) \<longrightarrow> settled (write_phase (ws ! u)))"

definition lines_ok :: "room_write list \<Rightarrow> bool" where
  "lines_ok ws \<longleftrightarrow> (\<forall>t<length ws. phase_ok ws t (write_phase (ws ! t)))"

definition ends_ok :: "room_write list \<Rightarrow> nat \<Rightarrow> (string, nat) jsmap \<Rightarrow> bool" where
  "ends_ok ws now m \<longleftrightarrow>
     (\<forall>room t. jget m room = Some t \<longrightarrow> t < length ws \<and> write_room (ws ! t) = room \<and> write_revision (ws ! t) = now) \<and>
     (\<forall>u<length ws. write_revision (ws ! u) = now \<longrightarrow>
        (case jget m (write_room (ws ! u)) of None \<Rightarrow> settled (write_phase (ws ! u)) | Some t \<Rightarrow> u \<le> t)) \<and>
     (\<forall>u<length ws. write_revision (ws ! u) \<le> now)"

lemma ends_okD:
  assumes "ends_ok ws now m"
  shows "jget m room = Some t \<Longrightarrow> t < length ws \<and> write_room (ws ! t) = room \<and> write_revision (ws ! t) = now"
    "u < length ws \<Longrightarrow> write_revision (ws ! u) = now \<Longrightarrow> jget m (write_room (ws ! u)) = Some t \<Longrightarrow> u \<le> t"
    "u < length ws \<Longrightarrow> write_revision (ws ! u) = now \<Longrightarrow> jget m (write_room (ws ! u)) = None \<Longrightarrow> settled (write_phase (ws ! u))"
    "u < length ws \<Longrightarrow> write_revision (ws ! u) \<le> now"
proof -
  show "jget m room = Some t \<Longrightarrow> t < length ws \<and> write_room (ws ! t) = room \<and> write_revision (ws ! t) = now"
    "u < length ws \<Longrightarrow> write_revision (ws ! u) \<le> now"
    using assms unfolding ends_ok_def by blast+
  have "u < length ws \<Longrightarrow> write_revision (ws ! u) = now \<Longrightarrow>
      case jget m (write_room (ws ! u)) of None \<Rightarrow> settled (write_phase (ws ! u)) | Some t \<Rightarrow> u \<le> t"
    using assms unfolding ends_ok_def by blast
  then show "u < length ws \<Longrightarrow> write_revision (ws ! u) = now \<Longrightarrow> jget m (write_room (ws ! u)) = Some t \<Longrightarrow> u \<le> t"
    "u < length ws \<Longrightarrow> write_revision (ws ! u) = now \<Longrightarrow> jget m (write_room (ws ! u)) = None \<Longrightarrow> settled (write_phase (ws ! u))"
    by simp_all
qed

lemma ends_okI:
  assumes "\<And>room t. jget m room = Some t \<Longrightarrow> t < length ws \<and> write_room (ws ! t) = room \<and> write_revision (ws ! t) = now"
    and "\<And>u t. u < length ws \<Longrightarrow> write_revision (ws ! u) = now \<Longrightarrow> jget m (write_room (ws ! u)) = Some t \<Longrightarrow> u \<le> t"
    and "\<And>u. u < length ws \<Longrightarrow> write_revision (ws ! u) = now \<Longrightarrow> jget m (write_room (ws ! u)) = None \<Longrightarrow> settled (write_phase (ws ! u))"
    and "\<And>u. u < length ws \<Longrightarrow> write_revision (ws ! u) \<le> now"
  shows "ends_ok ws now m"
  unfolding ends_ok_def using assms by (auto split: option.split)

lemma ends_ok_grows:
  assumes "ends_ok ws now m" "length ws' = length ws" "\<And>u. write_room (ws' ! u) = write_room (ws ! u)"
    "\<And>u. write_revision (ws' ! u) = write_revision (ws ! u)" "\<And>u. settled (write_phase (ws ! u)) \<Longrightarrow> settled (write_phase (ws' ! u))"
  shows "ends_ok ws' now m"
proof (rule ends_okI)
  note D = ends_okD [OF assms(1)]
  show "t < length ws' \<and> write_room (ws' ! t) = room \<and> write_revision (ws' ! t) = now" if "jget m room = Some t" for room t
    using D(1) [OF that] assms(2-4) by simp
  show "u \<le> t" if "u < length ws'" "write_revision (ws' ! u) = now" "jget m (write_room (ws' ! u)) = Some t" for u t
    using D(2) [of u t] that assms(2-4) by simp
  show "settled (write_phase (ws' ! u))" if "u < length ws'" "write_revision (ws' ! u) = now" "jget m (write_room (ws' ! u)) = None" for u
    using D(3) [of u] that assms(2-5) by simp
  show "write_revision (ws' ! u) \<le> now" if "u < length ws'" for u using D(4) [of u] that assms(2,4) by simp
qed

definition turns_inv :: "notifications \<Rightarrow> bool" where
  "turns_inv s \<longleftrightarrow> lines_ok (writes s) \<and> ends_ok (writes s) (session_revision s) (room_writes s)"

definition turns_part :: "notifications \<Rightarrow> room_write list \<times> nat \<times> (string, nat) jsmap" where
  "turns_part s = (writes s, session_revision s, room_writes s)"

lemma turns_inv_same: "turns_part s' = turns_part s \<Longrightarrow> turns_inv s \<Longrightarrow> turns_inv s'"
  by (simp add: turns_part_def turns_inv_def)

lemma is_settled_iff: "is_settled s (Some p) \<longleftrightarrow> settled (write_phase (writes s ! p))"
  by (simp add: is_settled_def split: write_phase.split)

text \<open>A write whose turn it is.\<close>

lemma turn_comes:
  assumes "lines_ok (writes s)" "t < length (writes s)" "behind (write_phase (writes s ! t)) \<Longrightarrow>
      \<exists>p. write_phase (writes s ! t) = Behind p \<and> is_settled s p"
    and "u < t" "same_line (writes s ! u) (writes s ! t)"
  shows "settled (write_phase (writes s ! u))"
proof -
  have ok: "phase_ok (writes s) t (write_phase (writes s ! t))" using assms(1,2) by (simp add: lines_ok_def)
  show ?thesis
  proof (cases "\<exists>p. write_phase (writes s ! t) = Behind (Some p)")
    case False
    then have "phase_ok (writes s) t (write_phase (writes s ! t)) =
        (\<forall>u<t. same_line (writes s ! u) (writes s ! t) \<longrightarrow> settled (write_phase (writes s ! u)))"
      by (cases "(writes s, t, write_phase (writes s ! t))" rule: phase_ok.cases) auto
    with ok assms(4,5) show ?thesis by blast
  next
    case True
    then obtain p where p: "write_phase (writes s ! t) = Behind (Some p)" by blast
    then have le: "u \<le> p" "p < t" "same_line (writes s ! p) (writes s ! t)" using ok assms(4,5) by auto
    have done_p: "settled (write_phase (writes s ! p))" using assms(3) p by (auto simp: is_settled_iff)
    show ?thesis
    proof (cases "u = p")
      case False
      have "p < length (writes s)" using le(2) assms(2) by simp
      then have "phase_ok (writes s) p (write_phase (writes s ! p))" using assms(1) by (simp add: lines_ok_def)
      then have "\<forall>u<p. same_line (writes s ! u) (writes s ! p) \<longrightarrow> settled (write_phase (writes s ! u))"
        using done_p by (cases "write_phase (writes s ! p)") auto
      moreover have "same_line (writes s ! u) (writes s ! p)" using le(3) assms(5) by (simp add: same_line_def)
      ultimately show ?thesis using False le(1) by auto
    qed (use done_p in simp)
  qed
qed

lemma phase_ok_grows:
  assumes "phase_ok ws u ph" "\<And>v. v \<le> u \<Longrightarrow> settled (write_phase (ws ! v)) \<Longrightarrow> settled (write_phase (ws' ! v))"
    and "\<And>v. v \<le> u \<Longrightarrow> same_line (ws' ! v) (ws' ! u) = same_line (ws ! v) (ws ! u)"
  shows "phase_ok ws' u ph"
  using assms(1)
proof (cases "(ws, u, ph)" rule: phase_ok.cases)
  case (1 ws t p)
  with assms(1,3) show ?thesis by auto
qed (use assms in auto)

text \<open>The turn of a write has come: it waits for nobody, or for a settled write.\<close>

definition its_turn :: "nat \<Rightarrow> notifications \<Rightarrow> bool" where
  "its_turn t s \<longleftrightarrow> t < length (writes s) \<and> \<not> settled (write_phase (writes s ! t)) \<and>
     (behind (write_phase (writes s ! t)) \<longrightarrow> (\<exists>p. write_phase (writes s ! t) = Behind p \<and> is_settled s p))"

lemma its_turn_first:
  assumes "lines_ok (writes s)" "its_turn t s" "u < t" "same_line (writes s ! u) (writes s ! t)"
  shows "settled (write_phase (writes s ! u))"
  using turn_comes [OF assms(1) _ _ assms(3,4)] assms(2) by (simp add: its_turn_def)

lemma lines_ok_phase:
  assumes "lines_ok (writes s)" "its_turn t s" "\<not> behind ph"
  shows "lines_ok (writes (set_phase t ph s))"
  unfolding lines_ok_def
proof (intro allI impI)
  fix u assume "u < length (writes (set_phase t ph s))"
  then have u: "u < length (writes s)" by simp
  have t: "t < length (writes s)" using assms(2) by (simp add: its_turn_def)
  have line: "same_line (writes (set_phase t ph s) ! v) (writes (set_phase t ph s) ! w) = same_line (writes s ! v) (writes s ! w)" for v w
    using t by (simp add: same_line_def)
  have keep: "settled (write_phase (writes s ! v)) \<Longrightarrow> settled (write_phase (writes (set_phase t ph s) ! v))" for v
    using t assms(2) by (auto simp: its_turn_def)
  show "phase_ok (writes (set_phase t ph s)) u (write_phase (writes (set_phase t ph s) ! u))"
  proof (cases "u = t")
    case True
    have "\<forall>v<t. same_line (writes (set_phase t ph s) ! v) (writes (set_phase t ph s) ! t) \<longrightarrow> settled (write_phase (writes (set_phase t ph s) ! v))"
      using its_turn_first [OF assms(1,2)] keep line by blast
    with True t assms(3) show ?thesis by (cases ph) simp_all
  next
    case False
    have "phase_ok (writes s) u (write_phase (writes s ! u))" using assms(1) u by (simp add: lines_ok_def)
    then have "phase_ok (writes (set_phase t ph s)) u (write_phase (writes s ! u))"
      by (rule phase_ok_grows) (use keep line in auto)
    with False t show ?thesis by simp
  qed
qed

lemma set_phase_writes:
  assumes "its_turn t s"
  shows "write_room (writes (set_phase t ph s) ! u) = write_room (writes s ! u)"
    "write_revision (writes (set_phase t ph s) ! u) = write_revision (writes s ! u)"
    "settled (write_phase (writes s ! u)) \<Longrightarrow> settled (write_phase (writes (set_phase t ph s) ! u))"
  using assms by (auto simp: its_turn_def)

lemma turns_phase:
  assumes "turns_inv s" "its_turn t s" "\<not> behind ph"
  shows "turns_inv (set_phase t ph s)"
proof -
  have "ends_ok (writes (set_phase t ph s)) (session_revision s) (room_writes s)"
    by (rule ends_ok_grows [of "writes s"]) (use assms(1) set_phase_writes [OF assms(2)] in \<open>simp_all add: turns_inv_def\<close>)
  with lines_ok_phase [OF _ assms(2,3)] assms(1) show ?thesis by (simp add: turns_inv_def)
qed

text \<open>The room of a settled write is given back.\<close>

lemma ends_ok_freed:
  assumes "ends_ok ws now m" "jget m room = Some t" "\<And>u. u < length ws \<Longrightarrow> write_room (ws ! u) = room \<Longrightarrow>
      write_revision (ws ! u) = now \<Longrightarrow> settled (write_phase (ws ! u))"
  shows "ends_ok ws now (jdel m room)"
proof (rule ends_okI)
  note D = ends_okD [OF assms(1)]
  show "v < length ws \<and> write_room (ws ! v) = r \<and> write_revision (ws ! v) = now" if "jget (jdel m room) r = Some v" for r v
    using D(1) that by (simp split: if_splits)
  show "u \<le> v" if "u < length ws" "write_revision (ws ! u) = now" "jget (jdel m room) (write_room (ws ! u)) = Some v" for u v
    using D(2) [OF that(1,2)] that(3) by (simp split: if_splits)
  show "settled (write_phase (ws ! u))"
    if "u < length ws" "write_revision (ws ! u) = now" "jget (jdel m room) (write_room (ws ! u)) = None" for u
    using D(3) [OF that(1,2)] assms(3) [OF that(1) _ that(2)] that(3) by (simp split: if_splits)
qed (rule ends_okD(4) [OF assms(1)])

lemma turns_settle:
  assumes "turns_inv s" "its_turn t s"
  shows "turns_inv (settle t ok s)"
proof -
  let ?room = "write_room (writes s ! t)" and ?t = "set_phase t (Settled ok) s"
  let ?m' = "if jget (room_writes s) ?room = Some t then jdel (room_writes s) ?room else room_writes s"
  have t: "t < length (writes s)" using assms(2) by (simp add: its_turn_def)
  have lines: "lines_ok (writes s)" and ends: "ends_ok (writes s) (session_revision s) (room_writes s)"
    using assms(1) by (simp_all add: turns_inv_def)
  have inv: "turns_inv ?t" by (rule turns_phase [OF assms]) simp
  have all: "settled (write_phase (writes ?t ! u))"
    if "jget (room_writes s) ?room = Some t" "u < length (writes s)" "write_room (writes s ! u) = ?room"
      "write_revision (writes s ! u) = session_revision s" for u
  proof -
    have "write_revision (writes s ! t) = session_revision s" "u \<le> t"
      using ends_okD(1) [OF ends that(1)] ends_okD(2) [OF ends that(2,4)] that(1,3) by simp_all
    with that its_turn_first [OF lines assms(2), of u] t show ?thesis by (simp add: same_line_def)
  qed
  have "ends_ok (writes ?t) (session_revision s) ?m'"
  proof (cases "jget (room_writes s) ?room = Some t")
    case True
    have "ends_ok (writes ?t) (session_revision s) (jdel (room_writes s) ?room)"
    proof (rule ends_ok_freed)
      show "ends_ok (writes ?t) (session_revision s) (room_writes s)" using inv by (simp add: turns_inv_def)
      show "jget (room_writes s) ?room = Some t" by (rule True)
    qed (use all [OF True] set_phase_writes [OF assms(2)] in simp)
    with True show ?thesis by simp
  qed (use inv in \<open>simp add: turns_inv_def\<close>)
  then have "turns_inv (?t\<lparr>room_writes := ?m'\<rparr>)" using inv by (simp add: turns_inv_def)
  moreover have "settle t ok s = ?t\<lparr>room_writes := ?m'\<rparr>" by (simp add: settle_def set_phase_def Let_def)
  ultimately show ?thesis by simp
qed

lemma turns_inv_new: "turns_inv (new_notifications disk)"
  by (simp add: turns_inv_def new_notifications_def lines_ok_def ends_ok_def)

lemma turns_session:
  assumes "turns_inv s" "writes t = writes s" "session_revision t = Suc (session_revision s)" "room_writes t = []"
  shows "turns_inv t"
proof -
  have "ends_ok (writes s) (session_revision s) (room_writes s)" using assms(1) by (simp add: turns_inv_def)
  from ends_okD(4) [OF this] have "ends_ok (writes s) (Suc (session_revision s)) []"
    by (intro ends_okI) (force simp: le_Suc_eq)+
  with assms show ?thesis by (simp add: turns_inv_def)
qed

lemma turns_update:
  assumes "turns_inv s"
  shows "turns_inv (update_room_policy room patch s)"
proof (cases "nonempty (current_user s)")
  case True
  let ?n = "length (writes s)" and ?m = "room_writes s"
  define w where "w = \<lparr>write_room = room, write_revision = session_revision s, write_patch = patch, write_phase = Behind (jget ?m room)\<rparr>"
  have lines: "lines_ok (writes s)" and ends: "ends_ok (writes s) (session_revision s) ?m"
    using assms by (simp_all add: turns_inv_def)
  note D = ends_okD [OF ends]
  have "phase_ok (writes s @ [w]) ?n (write_phase w)"
  proof (cases "jget ?m room")
    case None
    then have "settled (write_phase (writes s ! u))" if "u < ?n" "same_line (writes s ! u) w" for u
      using D(3) [of u] that by (simp add: same_line_def w_def)
    with None show ?thesis by (simp add: w_def nth_append)
  next
    case (Some p)
    then show ?thesis using D(1) [OF Some] D(2) [of _ p] by (auto simp: w_def nth_append same_line_def)
  qed
  moreover have "phase_ok (writes s @ [w]) u (write_phase (writes s ! u))" if "u < ?n" for u
    by (rule phase_ok_grows [of "writes s"]) (use lines that in \<open>simp_all add: lines_ok_def nth_append\<close>)
  ultimately have "lines_ok (writes s @ [w])" by (auto simp: lines_ok_def nth_append less_Suc_eq)
  moreover have "ends_ok (writes s @ [w]) (session_revision s) (jset ?m room ?n)"
  proof (rule ends_okI)
    show "t < length (writes s @ [w]) \<and> write_room ((writes s @ [w]) ! t) = r \<and> write_revision ((writes s @ [w]) ! t) = session_revision s"
      if "jget (jset ?m room ?n) r = Some t" for r t
      using D(1) [of r t] that by (auto simp: nth_append w_def split: if_splits)
    show "u \<le> t" if "u < length (writes s @ [w])" "write_revision ((writes s @ [w]) ! u) = session_revision s"
        "jget (jset ?m room ?n) (write_room ((writes s @ [w]) ! u)) = Some t" for u t
      using D(2) [of u t] that by (auto simp: nth_append w_def split: if_splits)
    show "settled (write_phase ((writes s @ [w]) ! u))" if "u < length (writes s @ [w])"
        "write_revision ((writes s @ [w]) ! u) = session_revision s" "jget (jset ?m room ?n) (write_room ((writes s @ [w]) ! u)) = None" for u
      using D(3) [of u] that by (auto simp: nth_append w_def split: if_splits)
    show "write_revision ((writes s @ [w]) ! u) \<le> session_revision s" if "u < length (writes s @ [w])" for u
      using D(4) [of u] that by (auto simp: nth_append w_def)
  qed
  ultimately show ?thesis using True by (simp add: update_room_policy_def turns_inv_def w_def)
qed (use assms in \<open>simp add: update_room_policy_def\<close>)

lemma is_settled_request [simp]: "is_settled (request e s) p = is_settled s p"
  by (cases p) (simp_all add: is_settled_iff, simp add: is_settled_def)

lemma turns_attempt: "turns_inv s \<Longrightarrow> its_turn t s \<Longrightarrow> turns_inv (attempt_write t a s)"
  unfolding attempt_write_def Let_def by (rule turns_phase) (simp_all add: turns_inv_def its_turn_def)

lemma turns_starts:
  assumes "turns_inv s" "t < length (writes s)"
  shows "turns_inv (write_starts t s)"
proof (cases "write_phase (writes s ! t)")
  case (Behind p)
  show ?thesis
  proof (cases "is_settled s p")
    case True
    then have "its_turn t s" using Behind assms(2) by (simp add: its_turn_def)
    with assms(1) Behind show ?thesis by (simp add: write_starts_def turns_settle turns_attempt)
  qed (use assms(1) Behind in \<open>simp add: write_starts_def\<close>)
qed (use assms(1) in \<open>simp_all add: write_starts_def\<close>)

lemma turns_resumes:
  assumes "turns_inv s" "t < length (writes s)"
  shows "turns_inv (write_resumes t s)"
proof (cases "write_phase (writes s ! t)")
  case (Reconciling waits a)
  then have "its_turn t s" using assms(2) by (simp add: its_turn_def)
  with assms(1) Reconciling show ?thesis by (simp add: write_resumes_def turns_settle turns_attempt split: option.split)
qed (use assms(1) in \<open>simp_all add: write_resumes_def\<close>)

lemma turns_answer:
  assumes "turns_inv s" "t < length (writes s)"
  shows "turns_inv (write_answer env t result c s)"
proof (cases "write_phase (writes s ! t)")
  case (Writing expected attempt)
  have turn: "its_turn t u" "turns_inv u" if "writes u = writes s" "session_revision u = session_revision s" "room_writes u = room_writes s" for u
    using that Writing assms by (simp_all add: its_turn_def turns_inv_def)
  from Writing show ?thesis by (auto simp: write_answer_def turn turns_settle turns_phase Let_def split: option.split)
qed (use assms(1) in \<open>simp_all add: write_answer_def\<close>)

lemma turns_part_others:
  "turns_part (refresh_policy s) = turns_part s" "turns_part (refresh_answer env i result c s) = turns_part s"
  "turns_part (retry_fires s) = turns_part s" "turns_part (policy_timer_fires s) = turns_part s"
  "turns_part (save_quiet_hours s) = turns_part s" "turns_part (quiet_saved env i q c s) = turns_part s"
  "turns_part (set_do_not_disturb env on s) = turns_part s" "turns_part (set_account_do_not_disturb user on s) = turns_part s"
  "turns_part (set_system_notifications env on s) = turns_part s" "turns_part (permission_answer env i granted s) = turns_part s"
  "turns_part (notify_browser tagged granted s) = turns_part s" "turns_part (worker_answer i active granted s) = turns_part s"
  "turns_part (worker_shown i ok granted s) = turns_part s"
  by (auto simp: turns_part_def retry_fires_def policy_timer_fires_def save_quiet_hours_def quiet_saved_def set_do_not_disturb_def
      set_account_do_not_disturb_def set_system_notifications_def permission_answer_def finish_alerts_def sync_push_def
      notify_browser_def worker_answer_def worker_shown_def page_notification_def Let_def split: option.split)

lemma turns_step: "turns_inv s \<Longrightarrow> turns_inv (policy_step env s e)"
proof (cases e)
  case (Start_session user)
  assume "turns_inv s"
  then have "turns_inv (session_set env user s)" by (rule turns_session) (simp_all add: session_set_simps)
  then show ?thesis using Start_session turns_inv_same [of "start_session env user s" "session_set env user s"]
    by (simp add: start_session_eq turns_part_others)
next
  case (Stop_session revision)
  assume "turns_inv s"
  then show ?thesis using Stop_session turns_session [of s "stop_session revision s"]
    by (cases "session_revision s = revision") (simp_all add: stop_session_def abort_request_eq Let_def)
qed (simp_all add: turns_update turns_starts turns_resumes turns_answer turns_inv_same [of _ s] turns_part_others)

interpretation turns: event_machine "policy_step env" turns_inv for env
  by unfold_locales (rule turns_step)

section \<open>Late answers\<close>

definition stale_refresh :: "notifications \<Rightarrow> nat \<times> (preferences \<times> quiet_hours) option \<times> clock \<Rightarrow> bool" where
  "stale_refresh s a \<longleftrightarrow> fst a < length (refreshes s) \<and>
     (refresh_done (refreshes s ! fst a) \<or> refresh_epoch (refreshes s ! fst a) \<noteq> policy_epoch s)"

definition answer_with :: "policy_env \<Rightarrow> notifications \<Rightarrow> nat \<times> (preferences \<times> quiet_hours) option \<times> clock \<Rightarrow> notifications" where
  "answer_with env s a = (case a of (i, result, c) \<Rightarrow> refresh_answer env i result c s)"

definition shown_policy ::
    "notifications \<Rightarrow> (string, notification_mode) jsmap \<times> (string, int) jsmap \<times> (string, string) jsmap \<times> quiet_hours option" where
  "shown_policy s = (rooms (note_state s), versions (note_state s), muted_until (note_state s), quiet (note_state s))"

lemma stale_shows_nothing: "stale_refresh s a \<Longrightarrow> shown_policy (answer_with env s a) = shown_policy s"
  using refresh_answer_shows [of env "fst a" "fst (snd a)" "snd (snd a)" s]
  by (auto simp: stale_refresh_def answer_with_def shown_policy_def split: prod.split)

text \<open>The record of a call of refresh: its epoch stays, and once done it is done.\<close>

lemma nth_update: "j < length xs \<Longrightarrow> xs[i := x] ! j = (if i = j then x else xs ! j)"
  by auto

lemma aborted_nth:
  "i < length (refreshes s) \<Longrightarrow> refresh_epoch (aborted_refreshes s ! i) = refresh_epoch (refreshes s ! i)"
  "i < length (refreshes s) \<Longrightarrow> refresh_done (aborted_refreshes s ! i) = refresh_done (refreshes s ! i)"
  by (auto simp: aborted_refreshes_def nth_update split: option.split)

definition refresh_kept :: "notifications \<Rightarrow> notifications \<Rightarrow> nat \<Rightarrow> bool" where
  "refresh_kept s t i \<longleftrightarrow> i < length (refreshes t) \<and> refresh_epoch (refreshes t ! i) = refresh_epoch (refreshes s ! i) \<and>
     (refresh_done (refreshes s ! i) \<longrightarrow> refresh_done (refreshes t ! i))"

lemma refresh_kept_policy: "i < length (refreshes s) \<Longrightarrow> refresh_kept s (refresh_policy s) i"
  by (cases "nonempty (current_user s)") (simp_all add: refresh_kept_def refresh_policy_eq nth_append aborted_nth)

lemma refresh_kept_close: "refresh_kept s t i \<Longrightarrow> refresh_kept s (close_refresh j t) i"
  by (simp add: refresh_kept_def close_refresh_def nth_update)

lemma refresh_kept_same: "refreshes u = refreshes t \<Longrightarrow> refresh_kept s t i \<Longrightarrow> refresh_kept s u i"
  by (simp add: refresh_kept_def)

lemma refresh_kept_answer:
  assumes "i < length (refreshes s)"
  shows "refresh_kept s (refresh_answer env j result c s) i"
proof -
  have self: "refresh_kept s t i" if "refreshes t = refreshes s" for t using assms that by (simp add: refresh_kept_def)
  have kept: "refresh_kept s (fst (policy_answer j result c s)) i"
    by (cases "mine j s"; cases result) (auto simp: policy_answer_cases self refresh_kept_policy [OF assms])
  obtain t loaded where t: "policy_answer j result c s = (t, loaded)" by (cases "policy_answer j result c s")
  have "refresh_kept s (if mine j t then if loaded then schedule_policy_refresh env c t else retry_policy t else t) i"
    by (rule refresh_kept_same [OF _ kept]) (simp add: t retry_policy_def)
  then show ?thesis using self [of s] by (simp add: refresh_answer_cases t refresh_kept_close)
qed

lemma stale_stays:
  assumes "stale_refresh s a" "stale_refresh s b"
  shows "stale_refresh (answer_with env s b) a"
proof -
  obtain j result c where b: "b = (j, result, c)" by (cases b)
  have "refresh_kept s (answer_with env s b) (fst a)"
    using assms(1) by (simp add: b answer_with_def stale_refresh_def refresh_kept_answer)
  moreover have "policy_epoch (answer_with env s b) = policy_epoch s" by (simp add: b answer_with_def)
  ultimately show ?thesis using assms(1) by (auto simp: stale_refresh_def refresh_kept_def)
qed

interpretation late_refreshes: session_guard "answer_with env" stale_refresh shown_policy for env
  by unfold_locales (simp_all add: stale_shows_nothing stale_stays)

text \<open>A call of refresh that was made before the policy last changed; it stays so.\<close>

definition old_refresh :: "nat \<Rightarrow> notifications \<Rightarrow> bool" where
  "old_refresh i s \<longleftrightarrow> i < length (refreshes s) \<and> refresh_epoch (refreshes s ! i) < policy_epoch s"

lemma old_refresh_stale: "old_refresh i s \<Longrightarrow> stale_refresh s (i, result, c)"
  by (simp add: old_refresh_def stale_refresh_def)

lemma old_refresh_kept:
  "old_refresh i s \<Longrightarrow> refresh_kept s t i \<Longrightarrow> policy_epoch s \<le> policy_epoch t \<Longrightarrow> old_refresh i t"
  by (simp add: old_refresh_def refresh_kept_def)

lemma old_refresh_same:
  "old_refresh i s \<Longrightarrow> refreshes t = refreshes s \<Longrightarrow> policy_epoch s \<le> policy_epoch t \<Longrightarrow> old_refresh i t"
  by (simp add: old_refresh_def)

lemma old_refresh_policy: "old_refresh i s \<Longrightarrow> old_refresh i (refresh_policy s)"
  by (rule old_refresh_kept, assumption, rule refresh_kept_policy) (auto simp: old_refresh_def)

lemma old_refresh_answer: "old_refresh i s \<Longrightarrow> old_refresh i (refresh_answer env j result c s)"
  by (rule old_refresh_kept, assumption, rule refresh_kept_answer) (auto simp: old_refresh_def)

lemma old_refresh_abort: "old_refresh i s \<Longrightarrow> old_refresh i (abort_request s)"
  by (simp add: old_refresh_def abort_request_eq aborted_nth)

lemma old_refresh_sessions:
  assumes "old_refresh i s"
  shows "old_refresh i (start_session env user s)" "old_refresh i (stop_session r s)"
proof -
  have "old_refresh i (session_set env user s)"
    by (rule old_refresh_same [OF assms]) (simp_all add: session_set_simps)
  then show "old_refresh i (start_session env user s)" by (simp add: start_session_eq old_refresh_policy)
  have "old_refresh i (s\<lparr>session_revision := Suc (session_revision s), retry_timer := None, current_user := None\<rparr>)"
    by (rule old_refresh_same [OF assms]) simp_all
  from old_refresh_same [OF old_refresh_abort [OF this]] assms show "old_refresh i (stop_session r s)"
    by (simp add: stop_session_def Let_def)
qed

lemma old_refresh_writes:
  assumes "old_refresh i s"
  shows "old_refresh i (write_starts t s)" "old_refresh i (write_resumes t s)" "old_refresh i (write_answer env t e c s)"
proof -
  show "old_refresh i (write_starts t s)" "old_refresh i (write_resumes t s)"
    by (rule old_refresh_same [OF assms];
      simp add: write_starts_def write_resumes_def attempt_write_def settle_eq set_phase_def Let_def
        split: write_phase.split)+
  have policy: "old_refresh i (set_phase t ph (refresh_policy s))" for ph
    by (rule old_refresh_same [OF old_refresh_policy [OF assms]]) (simp_all add: set_phase_def)
  have phase: "old_refresh i (set_phase t ph s)" for ph
    by (rule old_refresh_same [OF assms]) (simp_all add: set_phase_def)
  have settled: "old_refresh i (settle t ok u)" if "old_refresh i u" for ok u
    by (rule old_refresh_same [OF that]) (simp_all add: settle_eq)
  have "old_refresh i (schedule_policy_refresh env c (update f (s\<lparr>policy_epoch := Suc (policy_epoch s)\<rparr>)))" for f
    by (rule old_refresh_same [OF assms]) (simp_all add: schedule_policy_refresh_def)
  with policy phase settled assms show "old_refresh i (write_answer env t e c s)"
    by (simp add: write_answer_def Let_def split: write_phase.split option.split)
qed

lemma old_refresh_others:
  assumes "old_refresh i s"
  shows "old_refresh i (save_quiet_hours s)" "old_refresh i (quiet_saved env j q c s)" "old_refresh i (update_room_policy room patch s)"
    "old_refresh i (set_do_not_disturb env on s)" "old_refresh i (set_account_do_not_disturb user on s)"
    "old_refresh i (set_system_notifications env on s)" "old_refresh i (permission_answer env j granted s)"
    "old_refresh i (notify_browser tagged granted s)" "old_refresh i (worker_answer j active granted s)"
    "old_refresh i (worker_shown j ok granted s)"
  by (rule old_refresh_same [OF assms];
    simp add: save_quiet_hours_def quiet_saved_def schedule_policy_refresh_def update_room_policy_def set_do_not_disturb_def
      set_account_do_not_disturb_def set_system_notifications_def permission_answer_def finish_alerts_def sync_push_def
      notify_browser_def worker_answer_def worker_shown_def page_notification_def Let_def split: option.split)+

lemma old_refresh_step: "old_refresh i s \<Longrightarrow> old_refresh i (policy_step env s e)"
  by (cases e) (simp_all add: old_refresh_sessions old_refresh_policy old_refresh_answer old_refresh_writes old_refresh_others
      retry_fires_def policy_timer_fires_def old_refresh_same [of i s] del: policy_step.simps add: policy_step.simps)

interpretation old_refreshes: event_machine "policy_step env" "old_refresh i" for env i
  by unfold_locales (rule old_refresh_step)

section \<open>A sample run\<close>

definition plain_env :: policy_env where
  "plain_env = \<lparr>parse_date = (\<lambda>_. None), desktop_notices = True, push_manager = False\<rparr>"

definition noon :: clock where
  "noon = \<lparr>wall = 1000, monotonic = 5\<rparr>"

definition calm :: quiet_hours where
  "calm = \<lparr>quiet_version = 1, quiet_enabled = False, timezone = ''UTC'', weekdays = [], start_time = [], end_time = [], quiet_active = False,
     quiet_until = None, next_change_at = None, server_time = [], quiet_account_dnd = False\<rparr>"

definition no_preferences :: preferences where
  "no_preferences = \<lparr>preferred_rooms = [], preferred_muted = None, preferred_versions = Some [(''r'', 4)]\<rparr>"

text \<open>Signed in, the policy loaded, and two writes of one room asked for, the first of which is sent.\<close>

definition policy_sample :: notifications where
  "policy_sample = foldl (policy_step plain_env) (new_notifications (Some [((''u'', ''alerts''), ''true'')]))
     [Start_session ''u'', Refresh_answer 0 (Some (no_preferences, calm)) noon, Refresh,
      Update_room ''r'' \<lparr>patch_mode = Some Muted, patch_until = None\<rparr>, Update_room ''r'' \<lparr>patch_mode = Some Mentions, patch_until = None\<rparr>,
      Write_starts 0]"

lemmas policy_eval = new_notifications_def no_policy_def start_session_eq session_set_def stored_def stored_alerts_def update_def
  refresh_policy_def abort_request_def request_def policy_answer_def refresh_answer_def schedule_policy_refresh_def policy_wait_def
  deadlines_def policy_time_def effective_dnd_def update_room_policy_def write_starts_def attempt_write_def set_phase_def
  is_settled_def push_supported_def

lemma policy_sample_eval:
  "current_user policy_sample = Some ''u''" "session_revision policy_sample = 1"
  "writes policy_sample =
     [\<lparr>write_room = ''r'', write_revision = 1, write_patch = \<lparr>patch_mode = Some Muted, patch_until = None\<rparr>, write_phase = Writing 4 0\<rparr>,
      \<lparr>write_room = ''r'', write_revision = 1, write_patch = \<lparr>patch_mode = Some Mentions, patch_until = None\<rparr>, write_phase = Behind (Some 0)\<rparr>]"
  "length (refreshes policy_sample) = 2"
  "alerts (note_state policy_sample)" "ready (note_state policy_sample)" "\<not> dnd (note_state policy_sample)" "notices policy_sample = []"
  unfolding policy_sample_def
  by (simp_all add: policy_eval plain_env_def no_preferences_def calm_def noon_def map_filter_def Let_def)

section \<open>Guarantees\<close>

text \<open>
  C12. The policy of a signed-in account does not go stale unnoticed: at any time a request for
  it is in flight, which the session has not given up, or a timer will ask for it again.
\<close>

theorem policy_is_watched:
  assumes "s = foldl (policy_step env) (new_notifications disk) es" "nonempty (current_user s)"
  shows "(\<exists>i r. policy_request s = Some i \<and> i < length (refreshes s) \<and> refreshes s ! i = r \<and>
      \<not> refresh_done r \<and> \<not> refresh_aborted r \<and> refresh_revision r = session_revision s) \<or>
    policy_effects (retry_fires s) = policy_effects s @ [Get_policy (length (refreshes s))] \<or>
    policy_effects (policy_timer_fires s) = policy_effects s @ [Get_policy (length (refreshes s))]"
proof -
  have inv: "load_inv s"
    using policies.run_inv [OF policy_inv_new, of env disk es] by (simp add: assms(1) policy_inv_def)
  have fires: "policy_effects (retry_fires s) = policy_effects s @ [Get_policy (length (refreshes s))]" if "retry_timer s \<noteq> None"
    using that assms(2) by (simp add: retry_fires_def refresh_policy_eq)
  have later: "policy_effects (policy_timer_fires s) = policy_effects s @ [Get_policy (length (refreshes s))]" if "policy_timer s \<noteq> None"
    using that assms(2) by (simp add: policy_timer_fires_def refresh_policy_eq)
  from load_invD(3) [OF inv] load_invD(4) [OF inv assms(2)] assms(2) fires later show ?thesis
    unfolding request_ok_def by blast
qed

theorem policy_is_watched_witness:
  "(\<exists>i r. policy_request policy_sample = Some i \<and> i < length (refreshes policy_sample) \<and> refreshes policy_sample ! i = r \<and>
      \<not> refresh_done r \<and> \<not> refresh_aborted r \<and> refresh_revision r = 1) \<or>
    policy_effects (retry_fires policy_sample) = policy_effects policy_sample @ [Get_policy 2] \<or>
    policy_effects (policy_timer_fires policy_sample) = policy_effects policy_sample @ [Get_policy 2]"
  using policy_is_watched [OF policy_sample_def] by (simp add: policy_sample_eval)

text \<open>
  C13. The writes of a room take turns: within a session a write of the room's policy is not
  sent before every write of that room that was asked for earlier has come to its end.
\<close>

theorem room_writes_take_turns:
  assumes "s = foldl (policy_step env) (new_notifications disk) es"
    and "t < length (writes s)" "u < t" "write_room (writes s ! u) = write_room (writes s ! t)"
      "write_revision (writes s ! u) = write_revision (writes s ! t)"
    and "\<not> behind (write_phase (writes s ! t))"
  shows "settled (write_phase (writes s ! u))"
proof (rule turn_comes)
  have "turns_inv s" unfolding assms(1) by (rule turns.run_inv [OF turns_inv_new])
  then show "lines_ok (writes s)" by (simp add: turns_inv_def)
qed (use assms in \<open>simp_all add: same_line_def\<close>)

text \<open>
  C14. A confirmed policy is not undone by an older answer. Once the server has taken a write
  of the current session, whatever it wrote - a mode, a timed mute or the end of one - the room
  shows exactly that and the new version; and at any later time, whatever else has happened,
  the answer to a refresh asked for before the confirmation changes nothing of the shown
  policy: no room's mode, mute or version and no quiet hours.
\<close>

theorem confirmed_policy_stays:
  assumes "s = foldl (policy_step env) (new_notifications disk) es"
    and "t < length (writes s)" "write_phase (writes s ! t) = Writing v attempt" "write_revision (writes s ! t) = session_revision s"
    and "room = write_room (writes s ! t)" "patch = write_patch (writes s ! t)"
    and "confirmed = write_answer env t None c s" "u = foldl (policy_step env) confirmed later" "i < length (refreshes s)"
  shows "jget (versions (note_state confirmed)) room = Some (v + 1) \<and>
    jget (rooms (note_state confirmed)) room =
      (case patch_mode patch of None \<Rightarrow> jget (rooms (note_state s)) room | Some mode \<Rightarrow> Some mode) \<and>
    jget (muted_until (note_state confirmed)) room =
      (case patch_until patch of
         None \<Rightarrow> jget (muted_until (note_state s)) room
       | Some until \<Rightarrow> if nonempty until then until else None) \<and>
    shown_policy (refresh_answer env i result c' u) = shown_policy u"
proof -
  have now: "note_state confirmed = patch_room room patch (v + 1) (note_state s)" "policy_epoch confirmed = Suc (policy_epoch s)"
      "refreshes confirmed = refreshes s"
    using assms(3-7) by (simp_all add: write_answer_def settle_eq)
  have "load_inv s"
    using policies.run_inv [OF policy_inv_new, of env disk es] by (simp add: assms(1) policy_inv_def)
  then have "old_refresh i confirmed"
    using load_invD(1) [of s "refreshes s ! i"] assms(9) now(2,3) by (simp add: old_refresh_def refresh_ok_def)
  then have "old_refresh i u" unfolding assms(8) by (rule old_refreshes.run_inv)
  from stale_shows_nothing [OF old_refresh_stale [OF this, of result c'], of env]
  have "shown_policy (refresh_answer env i result c' u) = shown_policy u" by (simp add: answer_with_def)
  moreover have "jget (muted_until (note_state confirmed)) room =
      (case patch_until patch of None \<Rightarrow> jget (muted_until (note_state s)) room
       | Some until \<Rightarrow> if nonempty until then until else None)"
  proof (cases "patch_until patch")
    case (Some until)
    then show ?thesis unfolding now(1) by (cases until) (simp_all add: patch_room_def)
  qed (simp add: now(1) patch_room_def)
  moreover have "jget (rooms (note_state confirmed)) room =
      (case patch_mode patch of None \<Rightarrow> jget (rooms (note_state s)) room | Some mode \<Rightarrow> Some mode)"
    unfolding now(1) by (cases "patch_mode patch") (simp_all add: patch_room_def)
  moreover have "jget (versions (note_state confirmed)) room = Some (v + 1)"
    unfolding now(1) by (simp add: patch_room_def)
  ultimately show ?thesis by blast
qed

theorem confirmed_policy_stays_witness:
  "jget (rooms (note_state (write_answer plain_env 0 None noon policy_sample))) ''r'' = Some Muted \<and>
   shown_policy (refresh_answer plain_env 1 (Some (no_preferences, calm)) noon
     (policy_step plain_env (write_answer plain_env 0 None noon policy_sample) Refresh)) =
   shown_policy (policy_step plain_env (write_answer plain_env 0 None noon policy_sample) Refresh)"
proof -
  have p: "0 < length (writes policy_sample)" "write_phase (writes policy_sample ! 0) = Writing 4 0"
      "write_revision (writes policy_sample ! 0) = session_revision policy_sample" "1 < length (refreshes policy_sample)"
    and w: "write_room (writes policy_sample ! 0) = ''r''" "patch_mode (write_patch (writes policy_sample ! 0)) = Some Muted"
    by (simp_all add: policy_sample_eval)
  from confirmed_policy_stays [OF policy_sample_def p(1-3) refl refl refl refl p(4), where c = noon and later = "[Refresh]" and
      result = "Some (no_preferences, calm)" and c' = noon]
  show ?thesis by (simp only: w option.case foldl.simps)
qed

definition second_turn :: notifications where
  "second_turn = foldl (policy_step plain_env) (new_notifications None)
     [Start_session ''u'', Update_room ''r'' \<lparr>patch_mode = Some Muted, patch_until = None\<rparr>,
      Update_room ''r'' \<lparr>patch_mode = Some Mentions, patch_until = None\<rparr>, Write_starts 0, Write_answer 0 (Some Other_thrown) noon, Write_starts 1]"

lemma second_turn_eval:
  "length (writes second_turn) = 2" "write_room (writes second_turn ! 0) = write_room (writes second_turn ! 1)"
  "write_revision (writes second_turn ! 0) = write_revision (writes second_turn ! 1)" "\<not> behind (write_phase (writes second_turn ! 1))"
  unfolding second_turn_def
  by (simp_all add: policy_eval plain_env_def noon_def write_answer_def settle_def map_filter_def jdel_def Let_def)

theorem room_writes_take_turns_witness: "settled (write_phase (writes second_turn ! 0))"
  by (rule room_writes_take_turns [OF second_turn_def, of 1]) (use second_turn_eval in simp_all)

text \<open>
  A signed-out client knows no policy and asks for none: whatever answers, timers and
  permissions arrive late, its notification state is empty, no timer is set and no request counts.
\<close>

theorem signed_out_policy_is_empty:
  assumes "s = foldl (policy_step env) (new_notifications disk) es" "current_user s = None"
  shows "note_state s = no_policy False False False \<and> policy_request s = None \<and> retry_timer s = None \<and> policy_timer s = None"
proof -
  have "policy_inv s" unfolding assms(1) by (rule policies.run_inv [OF policy_inv_new])
  then show ?thesis using assms(2) load_invD(5) [of s] by (simp add: policy_inv_def note_inv_def)
qed

definition signed_off :: notifications where
  "signed_off = foldl (policy_step plain_env) (new_notifications None)
     [Start_session ''u'', Stop_session 1, Refresh_answer 0 (Some (no_preferences, calm)) noon]"

lemma signed_off_user: "current_user signed_off = None"
  by (simp add: signed_off_def start_session_eq session_set_simps stop_session_def abort_request_def new_notifications_def Let_def split: option.split)

theorem signed_out_policy_is_empty_witness:
  "note_state signed_off = no_policy False False False \<and> policy_timer signed_off = None"
  using signed_out_policy_is_empty [OF signed_off_def signed_off_user] by blast

definition shown_log :: "notifications \<Rightarrow> policy_effect list" where
  "shown_log s = filter (\<lambda>e. case e of Shown i \<Rightarrow> True | _ \<Rightarrow> False) (policy_effects s)"

lemma shown_log_fields [simp]:
  "shown_log (s\<lparr>note_state := x0\<rparr>) = shown_log s" "shown_log (s\<lparr>current_user := x1\<rparr>) = shown_log s"
  "shown_log (s\<lparr>account_setting := x2\<rparr>) = shown_log s" "shown_log (s\<lparr>session_revision := x3\<rparr>) = shown_log s"
  "shown_log (s\<lparr>retry_timer := x4\<rparr>) = shown_log s" "shown_log (s\<lparr>policy_timer := x5\<rparr>) = shown_log s"
  "shown_log (s\<lparr>policy_epoch := x6\<rparr>) = shown_log s" "shown_log (s\<lparr>policy_request := x7\<rparr>) = shown_log s"
  "shown_log (s\<lparr>policy_retry_delay := x8\<rparr>) = shown_log s" "shown_log (s\<lparr>refreshes := x9\<rparr>) = shown_log s"
  "shown_log (s\<lparr>room_writes := x10\<rparr>) = shown_log s" "shown_log (s\<lparr>writes := x11\<rparr>) = shown_log s"
  "shown_log (s\<lparr>quiet_saves := x12\<rparr>) = shown_log s" "shown_log (s\<lparr>alert_requests := x13\<rparr>) = shown_log s"
  "shown_log (s\<lparr>notices := x14\<rparr>) = shown_log s" "shown_log (s\<lparr>note_storage := x15\<rparr>) = shown_log s"
  by (simp_all add: shown_log_def)

lemma shown_log_request [simp]: "shown_log (request e s) = shown_log s @ (case e of Shown i \<Rightarrow> [e] | _ \<Rightarrow> [])"
  by (cases e) (simp_all add: shown_log_def)

lemma shown_log_simps [simp]:
  "shown_log (update f s) = shown_log s" "shown_log (set_phase t ph s) = shown_log s" "shown_log (persist user k b s) = shown_log s"
  "shown_log (schedule_policy_refresh env c s) = shown_log s" "shown_log (retry_policy s) = shown_log s"
  "shown_log (close_refresh j s) = shown_log s" "shown_log (abort_request s) = shown_log s"
  by (simp_all add: update_def set_phase_def persist_def schedule_policy_refresh_def retry_policy_def close_refresh_def abort_request_eq)

lemma shown_log_refresh [simp]: "shown_log (refresh_policy s) = shown_log s"
  by (simp add: refresh_policy_def Let_def)

lemma shown_log_answer: "shown_log (refresh_answer env i result c s) = shown_log s"
proof -
  have "shown_log (fst (policy_answer i result c s)) = shown_log s"
    by (cases "mine i s"; cases result) (auto simp: policy_answer_cases)
  then show ?thesis by (cases "policy_answer i result c s") (simp add: refresh_answer_cases)
qed

lemma shown_log_writes [simp]: "shown_log (settle t ok s) = shown_log s" "shown_log (attempt_write t a s) = shown_log s"
  by (simp_all add: settle_eq attempt_write_def Let_def)

lemma shown_log_others:
  "shown_log (start_session env user s) = shown_log s" "shown_log (stop_session r s) = shown_log s"
  "shown_log (retry_fires s) = shown_log s" "shown_log (policy_timer_fires s) = shown_log s" "shown_log (save_quiet_hours s) = shown_log s"
  "shown_log (update_room_policy room patch s) = shown_log s" "shown_log (set_do_not_disturb env on s) = shown_log s"
  "shown_log (set_account_do_not_disturb user on s) = shown_log s"
  by (simp_all add: start_session_def stop_session_def retry_fires_def policy_timer_fires_def save_quiet_hours_def update_room_policy_def
      set_do_not_disturb_def set_account_do_not_disturb_def sync_push_def Let_def)

lemma shown_log_alerts:
  "shown_log (finish_alerts env user r on s) = shown_log s" "shown_log (set_system_notifications env on s) = shown_log s"
  "shown_log (permission_answer env i g s) = shown_log s" "shown_log (quiet_saved env i q c s) = shown_log s"
proof -
  show finish: "shown_log (finish_alerts env user r on s) = shown_log s" for user r on s
    by (simp add: finish_alerts_def sync_push_def Let_def)
  show "shown_log (set_system_notifications env on s) = shown_log s" by (simp add: set_system_notifications_def finish)
  show "shown_log (permission_answer env i g s) = shown_log s"
    by (simp add: permission_answer_def finish Let_def split: option.split prod.split)
  show "shown_log (quiet_saved env i q c s) = shown_log s" by (simp add: quiet_saved_def Let_def split: option.split)
qed

lemma shown_log_turns:
  "shown_log (write_starts t s) = shown_log s" "shown_log (write_resumes t s) = shown_log s"
  "shown_log (write_answer env t e c s) = shown_log s"
  by (simp_all add: write_starts_def write_resumes_def write_answer_def Let_def split: write_phase.split option.split)

text \<open>Which notice a step shows.\<close>

lemma page_shows: "policy_effects (page_notification j g w s) = policy_effects s @ [Shown i] \<Longrightarrow> j = i \<and> still_current g w s"
  by (auto simp: page_notification_def still_current_def may_show_def Let_def split: if_splits)

lemma notice_shown:
  "policy_effects (notify_browser tagged g s) = policy_effects s @ [Shown i] \<Longrightarrow>
     i = length (notices s) \<and> current_user s \<noteq> None \<and> may_show g s"
  "policy_effects (worker_answer j active g s) = policy_effects s @ [Shown i] \<Longrightarrow>
     i < length (notices s) \<and> (\<exists>w. notices s ! i = Some w \<and> still_current g w s)"
  "policy_effects (worker_shown j ok g s) = policy_effects s @ [Shown i] \<Longrightarrow>
     i < length (notices s) \<and> (\<exists>w. notices s ! i = Some w \<and> still_current g w s)"
proof -
  show "policy_effects (notify_browser tagged g s) = policy_effects s @ [Shown i] \<Longrightarrow>
      i = length (notices s) \<and> current_user s \<noteq> None \<and> may_show g s"
    by (cases "current_user s")
      (auto simp: notify_browser_def page_notification_def still_current_def may_show_def Let_def split: if_splits)
  show "policy_effects (worker_answer j active g s) = policy_effects s @ [Shown i] \<Longrightarrow>
      i < length (notices s) \<and> (\<exists>w. notices s ! i = Some w \<and> still_current g w s)"
    by (auto simp: worker_answer_def split: if_splits option.splits dest!: page_shows)
  show "policy_effects (worker_shown j ok g s) = policy_effects s @ [Shown i] \<Longrightarrow>
      i < length (notices s) \<and> (\<exists>w. notices s ! i = Some w \<and> still_current g w s)"
    by (auto simp: worker_shown_def split: if_splits option.splits dest!: page_shows)
qed

text \<open>A step leaves the notices of earlier calls for the user and the session they were made for.\<close>

lemma notices_others:
  "notices (start_session env user s) = notices s" "notices (stop_session r s) = notices s"
  "notices (refresh_answer env i result c s) = notices s"
  "notices (retry_fires s) = notices s" "notices (policy_timer_fires s) = notices s" "notices (save_quiet_hours s) = notices s"
  "notices (update_room_policy room patch s) = notices s" "notices (set_do_not_disturb env on s) = notices s"
  "notices (set_account_do_not_disturb user on s) = notices s" "notices (quiet_saved env i q c s) = notices s"
  "notices (write_starts t s) = notices s" "notices (write_resumes t s) = notices s" "notices (write_answer env t e c s) = notices s"
proof -
  have "notices (fst (policy_answer i result c s)) = notices s"
    by (cases "mine i s"; cases result) (auto simp: policy_answer_cases)
  then show "notices (refresh_answer env i result c s) = notices s"
    by (cases "policy_answer i result c s")
      (simp add: refresh_answer_cases close_refresh_def schedule_policy_refresh_def retry_policy_def)
qed (simp_all add: start_session_def stop_session_def abort_request_eq retry_fires_def policy_timer_fires_def save_quiet_hours_def
    update_room_policy_def set_do_not_disturb_def set_account_do_not_disturb_def sync_push_def quiet_saved_def
    schedule_policy_refresh_def write_starts_def write_resumes_def write_answer_def attempt_write_def settle_eq set_phase_def
    Let_def split: write_phase.split option.split)

lemma notices_alerts:
  "notices (set_system_notifications env on s) = notices s" "notices (permission_answer env i g s) = notices s"
  by (simp_all add: set_system_notifications_def permission_answer_def finish_alerts_def sync_push_def Let_def
      split: option.split prod.split)

definition same_notice :: "notice \<Rightarrow> notice \<Rightarrow> bool" where
  "same_notice v w \<longleftrightarrow> notice_user v = notice_user w \<and> notice_revision v = notice_revision w"

lemma notices_shown:
  assumes "i < length (notices t)" "notices t ! i = Some w"
    and "t = worker_answer j active g s \<or> t = worker_shown j ok g s"
  shows "i < length (notices s) \<and> (\<exists>v. notices s ! i = Some v \<and> same_notice v w)"
  using assms by (auto simp: worker_answer_def worker_shown_def page_notification_def same_notice_def nth_list_update Let_def
      split: if_splits option.splits)

lemma notices_notify:
  assumes "i < length (notices (notify_browser tagged g s))" "notices (notify_browser tagged g s) ! i = Some w"
  shows "i < length (notices s) \<and> notices s ! i = Some w \<or>
    i = length (notices s) \<and> current_user s = Some (notice_user w) \<and> session_revision s = notice_revision w"
  using assms by (cases "current_user s")
    (auto simp: notify_browser_def page_notification_def nth_append nth_list_update Let_def less_Suc_eq split: if_splits)

text \<open>The call of \<open>notifyBrowser\<close> that a notice is from, in the run so far.\<close>

definition asked_by :: "policy_env \<Rightarrow> notifications \<Rightarrow> policy_event list \<Rightarrow> nat \<Rightarrow> string \<Rightarrow> nat \<Rightarrow> bool" where
  "asked_by env s0 es i user revision \<longleftrightarrow>
     (\<exists>before tagged g after b. es = before @ Notify tagged g # after \<and> b = foldl (policy_step env) s0 before \<and>
        i = length (notices b) \<and> current_user b = Some user \<and> session_revision b = revision)"

lemma asked_by_more: "asked_by env s0 es i user revision \<Longrightarrow> asked_by env s0 (es @ [e]) i user revision"
  unfolding asked_by_def by (metis append.assoc append_Cons)

lemma asked_by_now:
  "s = foldl (policy_step env) s0 es \<Longrightarrow> i = length (notices s) \<Longrightarrow> current_user s = Some user \<Longrightarrow> session_revision s = revision \<Longrightarrow>
   asked_by env s0 (es @ [Notify tagged g]) i user revision"
  unfolding asked_by_def by blast

lemma notices_asked:
  assumes "notices s0 = []" and "s = foldl (policy_step env) s0 es" "i < length (notices s)" "notices s ! i = Some w"
  shows "asked_by env s0 es i (notice_user w) (notice_revision w)"
  using assms(2-)
proof (induction es arbitrary: s w rule: rev_induct)
  case (snoc e es)
  let ?s = "foldl (policy_step env) s0 es"
  have s: "s = policy_step env ?s e" using snoc.prems(1) by simp
  have old: ?case if "i < length (notices ?s)" "notices ?s ! i = Some v" "same_notice v w" for v
    using asked_by_more [OF snoc.IH [OF refl that(1,2)]] that(3) by (simp add: same_notice_def)
  have kept: ?case if "notices s = notices ?s" using old [of w] snoc.prems(2,3) that by (simp add: same_notice_def)
  show ?case
  proof (cases e)
    case (Notify tagged g)
    with s have t: "s = notify_browser tagged g ?s" by simp
    from notices_notify [OF snoc.prems(2,3) [unfolded t]] show ?thesis
    proof
      assume "i < length (notices ?s) \<and> notices ?s ! i = Some w"
      with old [of w] show ?thesis by (simp add: same_notice_def)
    next
      assume "i = length (notices ?s) \<and> current_user ?s = Some (notice_user w) \<and> session_revision ?s = notice_revision w"
      then show ?thesis unfolding Notify by (intro asked_by_now [OF refl]) simp_all
    qed
  next
    case (Worker_answer j active g)
    with s have "s = worker_answer j active g ?s" by simp
    with notices_shown [OF snoc.prems(2,3), of j active g ?s] old show ?thesis by blast
  next
    case (Worker_shown j ok g)
    with s have "s = worker_shown j ok g ?s" by simp
    with notices_shown [OF snoc.prems(2,3), of j _ g ?s ok] old show ?thesis by blast
  qed (rule kept, simp add: s notices_others notices_alerts)+
qed (use assms(1) in simp)

text \<open>
  C15. Quiet means quiet, and a notification is shown to nobody else: whatever happens, the
  notification that is shown was asked for by a call of \<open>notifyBrowser\<close> in the session that is
  current now, by the user who is signed in now, and is shown only while the policy of that
  account is known, its alerts are on, and neither this device nor the account nor the quiet
  hours ask not to disturb.
\<close>

theorem shown_only_when_allowed:
  assumes "s = foldl (policy_step env) (new_notifications disk) es"
    and "policy_effects (policy_step env s e) = policy_effects s @ [Shown i]"
  shows "\<exists>user. current_user s = Some user \<and>
    asked_by env (new_notifications disk) (es @ [e]) i user (session_revision s) \<and>
    ready (note_state s) \<and> alerts (note_state s) \<and> \<not> local_dnd (note_state s) \<and>
    \<not> account_dnd (note_state s) \<and> (\<exists>q. quiet (note_state s) = Some q \<and> \<not> quiet_account_dnd q \<and> \<not> quiet_active q)"
proof -
  have inv: "note_inv s"
    using policies.run_inv [OF policy_inv_new, of env disk es] by (simp add: assms(1) policy_inv_def)
  have changed: "shown_log (policy_step env s e) \<noteq> shown_log s" using assms(2) by (simp add: shown_log_def)
  have earlier: "\<exists>user. current_user s = Some user \<and>
      asked_by env (new_notifications disk) (es @ [e]) i user (session_revision s) \<and> may_show g s"
    if "i < length (notices s) \<and> (\<exists>w. notices s ! i = Some w \<and> still_current g w s)" for g
    using that notices_asked [OF _ assms(1), of i] asked_by_more
    by (auto simp: still_current_def new_notifications_def)
  have "\<exists>g user. current_user s = Some user \<and>
      asked_by env (new_notifications disk) (es @ [e]) i user (session_revision s) \<and> may_show g s"
  proof (cases e)
    case (Notify tagged g)
    with notice_shown(1) [of tagged g s i] assms(2) asked_by_now [OF assms(1)] show ?thesis by auto
  next
    case (Worker_answer j active g)
    with notice_shown(2) [of j active g s i] assms(2) earlier [of g] show ?thesis by auto
  next
    case (Worker_shown j ok g)
    with notice_shown(3) [of j ok g s i] assms(2) earlier [of g] show ?thesis by auto
  qed (use changed in \<open>simp_all add: shown_log_answer shown_log_others shown_log_alerts shown_log_turns split: if_splits\<close>)
  then show ?thesis using inv by (auto simp: may_show_def note_inv_def effective_dnd_def split: option.splits)
qed

theorem shown_only_when_allowed_witness:
  "asked_by plain_env (new_notifications (Some [((''u'', ''alerts''), ''true'')]))
     ([Start_session ''u'', Refresh_answer 0 (Some (no_preferences, calm)) noon, Refresh,
       Update_room ''r'' \<lparr>patch_mode = Some Muted, patch_until = None\<rparr>, Update_room ''r'' \<lparr>patch_mode = Some Mentions, patch_until = None\<rparr>,
       Write_starts 0] @ [Notify False True]) 0 ''u'' 1 \<and>
   (\<exists>q. quiet (note_state policy_sample) = Some q \<and> \<not> quiet_active q)"
proof -
  have "policy_effects (policy_step plain_env policy_sample (Notify False True)) = policy_effects policy_sample @ [Shown 0]"
    by (simp add: notify_browser_def may_show_def page_notification_def still_current_def policy_sample_eval Let_def)
  from shown_only_when_allowed [OF policy_sample_def this] show ?thesis unfolding policy_sample_eval(1,2) by blast
qed

section \<open>What can go wrong\<close>

text \<open>
  The account's own setting is not protected in this way: \<open>setAccountDoNotDisturb\<close> leaves the
  epoch alone, so an answer asked for before it brings the old setting back.
\<close>

theorem older_answer_restores_account_dnd:
  "let s = foldl (policy_step plain_env) (new_notifications None)
       [Start_session ''u'', Refresh_answer 0 (Some (no_preferences, calm\<lparr>quiet_account_dnd := True\<rparr>)) noon, Refresh,
        Set_account_dnd ''u'' False, Refresh_answer 1 (Some (no_preferences, calm\<lparr>quiet_account_dnd := True\<rparr>)) noon]
   in \<not> account_dnd (note_state s) \<and> dnd (note_state s) \<and> policy_request s = None"
  by (simp add: policy_eval plain_env_def no_preferences_def calm_def noon_def map_filter_def set_account_do_not_disturb_def Let_def)

end
