(* ===== verification/NativeReceiver.thy ===== *)
theory NativeReceiver
  imports JsNumbers JsStrings
begin

text \<open>
  Watching a native screen share: the receiving half of \<open>NativeScreenTransport\<close>
  (\<open>media/nativeScreen.ts\<close>). An offer makes a receiver with its connection; a receiver whose
  video does not come, stalls or loses too much asks the sender for the compatible route.

  A \<open>Receiver\<close> with its \<open>RTCPeerConnection\<close> is a number, and so is a pending fallback signal.
  A timer is the field that holds its handle. The awaits of \<open>handle\<close> for an offer are the phases
  of an offer task; a call of \<open>getStats\<close> is a statistics task, and a send of a fallback request a
  send task. What reaches the application and the browser is logged.
\<close>

section \<open>Profiles\<close>

datatype h264_profile = Baseline | Main_profile | High

definition hex_digit :: "char \<Rightarrow> bool" where
  "hex_digit c \<longleftrightarrow> c \<in> set ''0123456789abcdefABCDEF''"

definition lower :: "char \<Rightarrow> char" where
  "lower c = (let n = of_char c :: nat in if 65 \<le> n \<and> n \<le> 90 then char_of (n + 32) else c)"

text \<open>\<open>/profile-level-id=pppp[0-9a-f]{2}/i\<close> at some place of the text, for a prefix \<open>pppp\<close> in lower case.\<close>

fun names_profile :: "string \<Rightarrow> string \<Rightarrow> bool" where
  "names_profile prefix [] = False"
| "names_profile prefix (c # sdp) =
     ((let key = ''profile-level-id='' @ prefix; text = map lower (c # sdp); rest = drop (length key) text
       in starts_with text key \<and> 2 \<le> length rest \<and> list_all hex_digit (take 2 rest)) \<or> names_profile prefix sdp)"

definition offered_native_profile :: "string option \<Rightarrow> h264_profile" where
  "offered_native_profile sdp =
     (let sdp = nullish sdp [] in
      if names_profile ''6400'' sdp then High else if names_profile ''4d00'' sdp then Main_profile else Baseline)"

section \<open>State\<close>

datatype fallback_reason = Connection_timeout | No_media_timeout | Connection_failed | Video_stalled | Sustained_loss

record health_sample =
  lost :: real
  received :: real
  frozen_ms :: real
  progress :: real

record receiver =
  receiver_peer :: string
  capture :: string
  fallback_timer :: "fallback_reason option"
  fallback_requested :: bool
  connected_once :: bool
  health_timer :: bool
  health :: "health_sample option"
  bad_windows :: nat
  stalled_windows :: nat
  pc_open :: bool
  remote_set :: bool
  pc_connected :: bool

definition new_receiver :: "string \<Rightarrow> string \<Rightarrow> receiver" where
  "new_receiver p c = \<lparr>receiver_peer = p, capture = c, fallback_timer = None, fallback_requested = False, connected_once = False, health_timer = False,
     health = None, bad_windows = 0, stalled_windows = 0, pc_open = True, remote_set = False, pc_connected = False\<rparr>"

text \<open>A candidate is its text, if it has one; \<open>None\<close> is the end of the candidates.\<close>

type_synonym ice_candidate = "string option option"

datatype offer_phase =
    Setting_remote
  | Adding "ice_candidate list"
  | Making_answer
  | Sending_answer
  | Answered
  | Abandoned
  | Failed

record offer_task =
  offer_peer :: string
  offer_capture :: string
  offer_object :: nat
  offer_phase :: offer_phase

record fallback_signal =
  signal_peer :: string
  signal_capture :: string
  deadline :: int
  retry :: bool

record send_task =
  send_peer :: string
  send_signal :: nat
  send_capture :: string
  close_after :: bool

record stats_task =
  stats_peer :: string
  stats_capture :: string
  stats_object :: nat
  stats_reason :: "fallback_reason option"

datatype receiver_effect =
    Answer_sent string nat
  | Candidate_added nat ice_candidate
  | Remote_track string
  | Remote_removed string
  | Fallback_sent string nat
  | Capture_ended
  | Thrown string

record native_receivers =
  direct_only :: bool
  close_on_fallback :: bool
  transport_disposed :: bool
  receivers :: "(string, nat) jsmap"
  objects :: "receiver list"
  pending_candidates :: "(string, string \<times> ice_candidate list) jsmap"
  offers :: "offer_task list"
  fallback_signals :: "(string, nat) jsmap"
  signals :: "fallback_signal list"
  sends :: "send_task option list"
  stats :: "stats_task option list"
  receiver_effects :: "receiver_effect list"

definition no_receivers :: "bool \<Rightarrow> bool \<Rightarrow> native_receivers" where
  "no_receivers direct close = \<lparr>direct_only = direct, close_on_fallback = close, transport_disposed = False, receivers = [], objects = [],
     pending_candidates = [], offers = [], fallback_signals = [], signals = [], sends = [], stats = [], receiver_effects = []\<rparr>"

definition effect :: "receiver_effect \<Rightarrow> native_receivers \<Rightarrow> native_receivers" where
  "effect e s = s\<lparr>receiver_effects := receiver_effects s @ [e]\<rparr>"

definition set_object :: "nat \<Rightarrow> (receiver \<Rightarrow> receiver) \<Rightarrow> native_receivers \<Rightarrow> native_receivers" where
  "set_object k f s = s\<lparr>objects := (objects s)[k := f (objects s ! k)]\<rparr>"

section \<open>Closing\<close>

definition cancel_fallback_signal :: "string \<Rightarrow> string option \<Rightarrow> native_receivers \<Rightarrow> native_receivers" where
  "cancel_fallback_signal p c s =
     (case jget (fallback_signals s) p of
        None \<Rightarrow> s
      | Some i \<Rightarrow>
          if nonempty c \<and> signal_capture (signals s ! i) \<noteq> the c then s
          else s\<lparr>signals := (signals s)[i := (signals s ! i)\<lparr>retry := False\<rparr>], fallback_signals := jdel (fallback_signals s) p\<rparr>)"

definition drop_receiver :: "string \<Rightarrow> nat \<Rightarrow> native_receivers \<Rightarrow> native_receivers" where
  "drop_receiver p k s =
     (set_object k (\<lambda>r. r\<lparr>fallback_timer := None, health_timer := False, pc_open := False\<rparr>) s)
       \<lparr>receivers := jdel (receivers s) p, pending_candidates := jdel (pending_candidates s) p\<rparr>"

definition close_receiver :: "string \<Rightarrow> string option \<Rightarrow> bool \<Rightarrow> native_receivers \<Rightarrow> native_receivers" where
  "close_receiver p c preserve s =
     (case jget (receivers s) p of
        None \<Rightarrow> s
      | Some k \<Rightarrow>
          if nonempty c \<and> capture (objects s ! k) \<noteq> the c then s
          else effect (Remote_removed p) (drop_receiver p k (if preserve then s else cancel_fallback_signal p c s)))"

definition finish_receiver_fallback :: "string \<Rightarrow> native_receivers \<Rightarrow> native_receivers" where
  "finish_receiver_fallback p s =
     (case jget (receivers s) p of
        None \<Rightarrow> s
      | Some k \<Rightarrow>
          if \<not> fallback_requested (objects s ! k) then s
          else drop_receiver p k (cancel_fallback_signal p (Some (capture (objects s ! k))) s))"

section \<open>Asking for the fallback\<close>

definition start_send :: "string \<Rightarrow> nat \<Rightarrow> bool \<Rightarrow> native_receivers \<Rightarrow> native_receivers" where
  "start_send p i close s =
     effect (Fallback_sent p i)
       (s\<lparr>sends := sends s @ [Some \<lparr>send_peer = p, send_signal = i, send_capture = signal_capture (signals s ! i), close_after = close\<rparr>]\<rparr>)"

text \<open>
  The request itself, once the statistics did not speak against it; \<open>close\<close> says that the
  receiver is closed when the first send has settled.
\<close>

definition send_request :: "string \<Rightarrow> string \<Rightarrow> nat \<Rightarrow> bool \<Rightarrow> int \<Rightarrow> native_receivers \<Rightarrow> native_receivers" where
  "send_request p c k close now s =
     (let s = cancel_fallback_signal p None
                (set_object k (\<lambda>r. r\<lparr>fallback_requested := True, fallback_timer := None, health_timer := False\<rparr>) s);
          i = length (signals s)
      in start_send p i close
           (s\<lparr>signals := signals s @ [\<lparr>signal_peer = p, signal_capture = c, deadline = now + 20000, retry = False\<rparr>],
              fallback_signals := jset (fallback_signals s) p i\<rparr>))"

definition request_receiver_fallback :: "string \<Rightarrow> string \<Rightarrow> fallback_reason \<Rightarrow> int \<Rightarrow> native_receivers \<Rightarrow> native_receivers" where
  "request_receiver_fallback p c reason now s =
     (case jget (receivers s) p of
        None \<Rightarrow> s
      | Some k \<Rightarrow>
          if capture (objects s ! k) \<noteq> c \<or> fallback_requested (objects s ! k) then s
          else if reason = No_media_timeout \<or> reason = Connection_timeout
            then s\<lparr>stats := stats s @ [Some \<lparr>stats_peer = p, stats_capture = c, stats_object = k, stats_reason = Some reason\<rparr>]\<rparr>
          else send_request p c k (close_on_fallback s \<or> reason = Connection_failed) now s)"

text \<open>The signaling connection has taken a fallback request, or not.\<close>

definition send_settles :: "nat \<Rightarrow> bool \<Rightarrow> int \<Rightarrow> native_receivers \<Rightarrow> native_receivers" where
  "send_settles j ok now s =
     (if j \<ge> length (sends s) then s
      else case sends s ! j of
          None \<Rightarrow> s
        | Some t \<Rightarrow>
            let s = s\<lparr>sends := (sends s)[j := None]\<rparr>; p = send_peer t; i = send_signal t;
                current = (jget (fallback_signals s) p = Some i);
                s = (if ok then if current then cancel_fallback_signal p None s else s
                     else if transport_disposed s \<or> \<not> current then s
                     else if now \<ge> deadline (signals s ! i)
                       then effect Capture_ended (close_receiver p (Some (send_capture t)) False (cancel_fallback_signal p None s))
                     else s\<lparr>signals := (signals s)[i := (signals s ! i)\<lparr>retry := True\<rparr>]\<rparr>)
            in if close_after t then close_receiver p (Some (send_capture t)) True s else s)"

definition retry_fires :: "nat \<Rightarrow> native_receivers \<Rightarrow> native_receivers" where
  "retry_fires i s =
     (if i \<ge> length (signals s) \<or> \<not> retry (signals s ! i) then s
      else
        let p = signal_peer (signals s ! i); s = s\<lparr>signals := (signals s)[i := (signals s ! i)\<lparr>retry := False\<rparr>]\<rparr>
        in if transport_disposed s \<or> jget (fallback_signals s) p \<noteq> Some i then s else start_send p i False s)"

section \<open>Health\<close>

record video_row =
  packets_lost :: "real option"
  packets_received :: "real option"
  freezes_duration :: "real option"
  frames_decoded :: "real option"
  bytes_received :: "real option"

definition sample_of :: "video_row \<Rightarrow> health_sample" where
  "sample_of v = \<lparr>lost = nullish (packets_lost v) 0, received = nullish (packets_received v) 0,
     frozen_ms = nullish (freezes_duration v) 0 * 1000,
     progress = (case frames_decoded v of Some n \<Rightarrow> n | None \<Rightarrow> nullish (bytes_received v) 0)\<rparr>"

datatype verdict = Fine | Stalled | Lossy

text \<open>More than a twentieth of the packets lost, or more than a quarter of the time frozen.\<close>

definition bad_window :: "health_sample \<Rightarrow> health_sample \<Rightarrow> bool" where
  "bad_window y x =
     (let l = max 0 (lost x - lost y); n = max 0 (received x - received y)
      in l / (l + n) > 5 / 100 \<or> max 0 (frozen_ms x - frozen_ms y) / 2000 > 25 / 100)"

text \<open>One window, and what it says.\<close>

definition judge :: "health_sample \<Rightarrow> receiver \<Rightarrow> receiver \<times> verdict" where
  "judge x r =
     (case health r of
        None \<Rightarrow> (r\<lparr>health := Some x\<rparr>, Fine)
      | Some y \<Rightarrow>
          let r = r\<lparr>health := Some x, stalled_windows := (if progress x > progress y then 0 else Suc (stalled_windows r))\<rparr>
          in if stalled_windows r \<ge> 3 then (r, Stalled)
             else
               let l = max 0 (lost x - lost y); n = max 0 (received x - received y)
               in if l + n < 100 then (r, Fine)
                  else
                    let r = r\<lparr>bad_windows := (if bad_window y x then Suc (bad_windows r) else 0)\<rparr>
                    in (r, if bad_windows r < 3 then Fine else Lossy))"

text \<open>The interval of a receiver fires.\<close>

definition check_receiver_health :: "string \<Rightarrow> string \<Rightarrow> native_receivers \<Rightarrow> native_receivers" where
  "check_receiver_health p c s =
     (case jget (receivers s) p of
        None \<Rightarrow> s
      | Some k \<Rightarrow>
          if capture (objects s ! k) \<noteq> c \<or> fallback_requested (objects s ! k) then s
          else s\<lparr>stats := stats s @ [Some \<lparr>stats_peer = p, stats_capture = c, stats_object = k, stats_reason = None\<rparr>]\<rparr>)"

text \<open>
  The statistics have arrived, or could not be had (\<open>None\<close>); the report may have no row of
  incoming video.
\<close>

definition health_answer :: "stats_task \<Rightarrow> video_row \<Rightarrow> int \<Rightarrow> native_receivers \<Rightarrow> native_receivers" where
  "health_answer t v now s =
     (let k = stats_object t; (r, w) = judge (sample_of v) (objects s ! k); s = set_object k (\<lambda>_. r) s
      in case w of
           Fine \<Rightarrow> s
         | Stalled \<Rightarrow> request_receiver_fallback (stats_peer t) (stats_capture t) Video_stalled now s
         | Lossy \<Rightarrow> request_receiver_fallback (stats_peer t) (stats_capture t) Sustained_loss now s)"

definition stats_answer :: "nat \<Rightarrow> video_row option option \<Rightarrow> int \<Rightarrow> native_receivers \<Rightarrow> native_receivers" where
  "stats_answer j report now s =
     (if j \<ge> length (stats s) then s
      else case stats s ! j of
          None \<Rightarrow> s
        | Some t \<Rightarrow>
            let s = s\<lparr>stats := (stats s)[j := None]\<rparr>; k = stats_object t
            in case report of
                 None \<Rightarrow> s
               | Some row \<Rightarrow>
                   if jget (receivers s) (stats_peer t) \<noteq> Some k then s
                   else case stats_reason t of
                       None \<Rightarrow> (case row of None \<Rightarrow> s | Some v \<Rightarrow> health_answer t v now s)
                     | Some reason \<Rightarrow>
                         if (case row of None \<Rightarrow> False | Some v \<Rightarrow> progress (sample_of v) > 0) then s
                         else send_request (stats_peer t) (stats_capture t) k (close_on_fallback s) now s)"

section \<open>Offers\<close>

definition receiver_connected :: "string \<Rightarrow> string \<Rightarrow> native_receivers \<Rightarrow> native_receivers" where
  "receiver_connected p c s =
     (case jget (receivers s) p of
        None \<Rightarrow> s
      | Some k \<Rightarrow>
          let r = objects s ! k
          in if capture r \<noteq> c \<or> fallback_requested r \<or> connected_once r then s
             else set_object k (\<lambda>r. r\<lparr>connected_once := True, fallback_timer := Some No_media_timeout\<rparr>) s)"

definition thrown :: "string \<Rightarrow> native_receivers \<Rightarrow> native_receivers" where
  "thrown e = effect (Thrown e)"

definition handle_offer :: "(h264_profile \<Rightarrow> bool) \<Rightarrow> string \<Rightarrow> string \<Rightarrow> string option \<Rightarrow> native_receivers \<Rightarrow> native_receivers" where
  "handle_offer supported p c sdp s =
     (if transport_disposed s then s
      else if \<not> supported (offered_native_profile sdp) then thrown ''profile'' s
      else
        let s = close_receiver p None False (cancel_fallback_signal p None s)
        in if length (receivers s) \<ge> 16 then thrown ''too-many-receivers'' s
           else
             let k = length (objects s)
             in s\<lparr>objects := objects s @ [new_receiver p c], receivers := jset (receivers s) p k,
                  offers := offers s @ [\<lparr>offer_peer = p, offer_capture = c, offer_object = k, offer_phase = Setting_remote\<rparr>]\<rparr>)"

definition set_offer :: "nat \<Rightarrow> offer_phase \<Rightarrow> native_receivers \<Rightarrow> native_receivers" where
  "set_offer j ph s = s\<lparr>offers := (offers s)[j := (offers s ! j)\<lparr>offer_phase := ph\<rparr>]\<rparr>"

definition add_candidates :: "nat \<Rightarrow> ice_candidate list \<Rightarrow> native_receivers \<Rightarrow> native_receivers" where
  "add_candidates j cs s =
     (case cs of
        [] \<Rightarrow> set_offer j Making_answer s
      | a # cs \<Rightarrow> set_offer j (Adding cs) (effect (Candidate_added (offer_object (offers s ! j)) a) s))"

definition is_current :: "nat \<Rightarrow> native_receivers \<Rightarrow> bool" where
  "is_current j s \<longleftrightarrow> \<not> transport_disposed s \<and> jget (receivers s) (offer_peer (offers s ! j)) = Some (offer_object (offers s ! j))"

definition abandon_offer :: "nat \<Rightarrow> native_receivers \<Rightarrow> native_receivers" where
  "abandon_offer j s = set_offer j Abandoned (set_object (offer_object (offers s ! j)) (\<lambda>r. r\<lparr>pc_open := False\<rparr>) s)"

text \<open>The answer has been sent: the receiver is watched from now on.\<close>

definition watch_receiver :: "nat \<Rightarrow> native_receivers \<Rightarrow> native_receivers" where
  "watch_receiver j s =
     (let p = offer_peer (offers s ! j); c = offer_capture (offers s ! j); k = offer_object (offers s ! j)
      in if jget (receivers s) p \<noteq> Some k then s
         else
           let s = (if connected_once (objects s ! k) then s
                    else let s = set_object k (\<lambda>r. r\<lparr>fallback_timer := Some Connection_timeout\<rparr>) s
                         in if pc_connected (objects s ! k) then receiver_connected p c s else s)
           in set_object k (\<lambda>r. r\<lparr>health_timer := True\<rparr>) s)"

definition offer_proceeds :: "nat \<Rightarrow> bool \<Rightarrow> native_receivers \<Rightarrow> native_receivers" where
  "offer_proceeds j ok s =
     (let t = offers s ! j
      in if offer_phase t \<in> {Answered, Abandoned, Failed} then s
         else if \<not> ok then thrown ''offer'' (set_offer j Failed s)
         else case offer_phase t of
             Setting_remote \<Rightarrow>
               let s = set_object (offer_object t) (\<lambda>r. r\<lparr>remote_set := True\<rparr>) s
               in if \<not> is_current j s then abandon_offer j s
                  else (case jget (pending_candidates s) (offer_peer t) of
                      Some (c, cs) \<Rightarrow>
                        if c \<noteq> offer_capture t then set_offer j Making_answer s
                        else add_candidates j cs (s\<lparr>pending_candidates := jdel (pending_candidates s) (offer_peer t)\<rparr>)
                    | None \<Rightarrow> set_offer j Making_answer s)
           | Adding cs \<Rightarrow> add_candidates j cs s
           | Making_answer \<Rightarrow>
               if \<not> is_current j s then abandon_offer j s
               else set_offer j Sending_answer (effect (Answer_sent (offer_peer t) (offer_object t)) s)
           | _ \<Rightarrow> set_offer j Answered (watch_receiver j s))"

section \<open>Candidates\<close>

text \<open>\<open>/\styp\srelay(?:\s|$)/\<close> at some place of the text.\<close>

fun relay_word :: "string \<Rightarrow> bool" where
  "relay_word [] = False"
| "relay_word (c # t) =
     ((js_space c \<and> take 3 t = ''typ'' \<and> (case drop 3 t of [] \<Rightarrow> False | d # u \<Rightarrow>
         js_space d \<and> take 5 u = ''relay'' \<and> (case drop 5 u of [] \<Rightarrow> True | e # _ \<Rightarrow> js_space e))) \<or> relay_word t)"

definition is_relay :: "string option \<Rightarrow> bool" where
  "is_relay text = (let t = nullish text [] in contains t '' typ relay '' \<or> relay_word t)"

text \<open>\<open>sending\<close> is the capture that this side shares at the moment.\<close>

definition handle_candidate :: "string option \<Rightarrow> string \<Rightarrow> string \<Rightarrow> ice_candidate \<Rightarrow> native_receivers \<Rightarrow> native_receivers" where
  "handle_candidate sending p c a s =
     (if transport_disposed s then s
      else if (case a of None \<Rightarrow> False | Some text \<Rightarrow> direct_only s \<and> is_relay text) then s
      else if sending = Some c then s
      else
        let current = (case jget (receivers s) p of None \<Rightarrow> None | Some k \<Rightarrow>
              if capture (objects s ! k) = c \<and> remote_set (objects s ! k) then Some k else None)
        in case current of
             Some k \<Rightarrow> effect (Candidate_added k a) s
           | None \<Rightarrow>
               (case jget (pending_candidates s) p of
                  None \<Rightarrow>
                    if length (pending_candidates s) \<ge> 16 then thrown ''too-many-pending'' s
                    else s\<lparr>pending_candidates := jset (pending_candidates s) p (c, [a])\<rparr>
                | Some (d, as) \<Rightarrow>
                    if d \<noteq> c then s\<lparr>pending_candidates := jset (pending_candidates s) p (c, [a])\<rparr>
                    else if length as \<ge> 256 then thrown ''too-many-candidates'' s
                    else s\<lparr>pending_candidates := jset (pending_candidates s) p (c, as @ [a])\<rparr>))"

section \<open>Events of the connection, leaving and disposal\<close>

definition connection_changes :: "nat \<Rightarrow> bool \<Rightarrow> bool \<Rightarrow> int \<Rightarrow> native_receivers \<Rightarrow> native_receivers" where
  "connection_changes k up down now s =
     (if \<not> pc_open (objects s ! k) then s
      else
        let r = objects s ! k; p = receiver_peer r; c = capture r;
            s = set_object k (\<lambda>r. r\<lparr>pc_connected := up\<rparr>) s;
            s = (if up then receiver_connected p c s else s)
        in if \<not> down then s
           else if (case jget (receivers s) p of None \<Rightarrow> True | Some i \<Rightarrow> capture (objects s ! i) \<noteq> c \<or> fallback_requested (objects s ! i))
             then close_receiver p (Some c) True s
           else request_receiver_fallback p c Connection_failed now s)"

definition track_received :: "nat \<Rightarrow> native_receivers \<Rightarrow> native_receivers" where
  "track_received k s = effect (Remote_track (receiver_peer (objects s ! k))) s"

definition track_ended :: "nat \<Rightarrow> native_receivers \<Rightarrow> native_receivers" where
  "track_ended k s = close_receiver (receiver_peer (objects s ! k)) (Some (capture (objects s ! k))) False s"

definition fallback_timer_fires :: "nat \<Rightarrow> int \<Rightarrow> native_receivers \<Rightarrow> native_receivers" where
  "fallback_timer_fires k now s =
     (let r = objects s ! k in
      case fallback_timer r of
        None \<Rightarrow> s
      | Some reason \<Rightarrow>
          request_receiver_fallback (receiver_peer r) (capture r) reason now (set_object k (\<lambda>r. r\<lparr>fallback_timer := None\<rparr>) s))"

definition health_timer_fires :: "nat \<Rightarrow> native_receivers \<Rightarrow> native_receivers" where
  "health_timer_fires k s =
     (let r = objects s ! k in if \<not> health_timer r then s else check_receiver_health (receiver_peer r) (capture r) s)"

definition share_stopped :: "string \<Rightarrow> string \<Rightarrow> native_receivers \<Rightarrow> native_receivers" where
  "share_stopped p c s =
     (if transport_disposed s then s else close_receiver p (Some c) False (cancel_fallback_signal p (Some c) s))"

definition remove_receiver :: "string \<Rightarrow> native_receivers \<Rightarrow> native_receivers" where
  "remove_receiver p s =
     (let s = close_receiver p None False (cancel_fallback_signal p None s)
      in s\<lparr>pending_candidates := jdel (pending_candidates s) p\<rparr>)"

definition dispose_receivers :: "native_receivers \<Rightarrow> native_receivers" where
  "dispose_receivers s =
     (let s = s\<lparr>transport_disposed := True\<rparr>;
          s = foldl (\<lambda>s p. close_receiver p None False s) s (jkeys (receivers s));
          s = foldl (\<lambda>s p. cancel_fallback_signal p None s) s (jkeys (fallback_signals s))
      in s\<lparr>pending_candidates := []\<rparr>)"

section \<open>Runs\<close>

datatype receiver_event =
    Offer string string "string option"
  | Offer_proceeds nat bool
  | Candidate "string option" string string ice_candidate
  | Connection_changes nat bool bool int
  | Track_received nat
  | Track_ended nat
  | Fallback_timer_fires nat int
  | Health_timer_fires nat
  | Stats_answer nat "video_row option option" int
  | Send_settles nat bool int
  | Retry_fires nat
  | Share_stopped string string
  | Fallback_finished string
  | Peer_removed string
  | Disposed

fun receiver_step :: "(h264_profile \<Rightarrow> bool) \<Rightarrow> native_receivers \<Rightarrow> receiver_event \<Rightarrow> native_receivers" where
  "receiver_step supported s (Offer p c sdp) = handle_offer supported p c sdp s"
| "receiver_step supported s (Offer_proceeds j ok) = (if j < length (offers s) then offer_proceeds j ok s else s)"
| "receiver_step supported s (Candidate sending p c a) = handle_candidate sending p c a s"
| "receiver_step supported s (Connection_changes k up down now) = (if k < length (objects s) then connection_changes k up down now s else s)"
| "receiver_step supported s (Track_received k) = (if k < length (objects s) then track_received k s else s)"
| "receiver_step supported s (Track_ended k) = (if k < length (objects s) then track_ended k s else s)"
| "receiver_step supported s (Fallback_timer_fires k now) = (if k < length (objects s) then fallback_timer_fires k now s else s)"
| "receiver_step supported s (Health_timer_fires k) = (if k < length (objects s) then health_timer_fires k s else s)"
| "receiver_step supported s (Stats_answer j report now) = stats_answer j report now s"
| "receiver_step supported s (Send_settles j ok now) = send_settles j ok now s"
| "receiver_step supported s (Retry_fires i) = retry_fires i s"
| "receiver_step supported s (Share_stopped p c) = share_stopped p c s"
| "receiver_step supported s (Fallback_finished p) = finish_receiver_fallback p s"
| "receiver_step supported s (Peer_removed p) = remove_receiver p s"
| "receiver_step supported s Disposed = dispose_receivers s"

section \<open>The receivers and their timers\<close>

lemma effect_simps [simp]:
  "direct_only (effect e s) = direct_only s" "close_on_fallback (effect e s) = close_on_fallback s"
  "transport_disposed (effect e s) = transport_disposed s" "receivers (effect e s) = receivers s" "objects (effect e s) = objects s"
  "pending_candidates (effect e s) = pending_candidates s" "offers (effect e s) = offers s"
  "fallback_signals (effect e s) = fallback_signals s" "signals (effect e s) = signals s" "sends (effect e s) = sends s"
  "stats (effect e s) = stats s" "receiver_effects (effect e s) = receiver_effects s @ [e]"
  by (simp_all add: effect_def)

lemma set_receiver_simps [simp]:
  "direct_only (set_object k f s) = direct_only s" "close_on_fallback (set_object k f s) = close_on_fallback s"
  "transport_disposed (set_object k f s) = transport_disposed s" "receivers (set_object k f s) = receivers s"
  "length (objects (set_object k f s)) = length (objects s)" "pending_candidates (set_object k f s) = pending_candidates s"
  "offers (set_object k f s) = offers s" "fallback_signals (set_object k f s) = fallback_signals s" "signals (set_object k f s) = signals s"
  "sends (set_object k f s) = sends s" "stats (set_object k f s) = stats s" "receiver_effects (set_object k f s) = receiver_effects s"
  "k < length (objects s) \<Longrightarrow> objects (set_object k f s) ! j = (if j = k then f (objects s ! k) else objects s ! j)"
  by (simp_all add: set_object_def nth_list_update)

lemma cancel_simps [simp]:
  "direct_only (cancel_fallback_signal p c s) = direct_only s" "close_on_fallback (cancel_fallback_signal p c s) = close_on_fallback s"
  "transport_disposed (cancel_fallback_signal p c s) = transport_disposed s" "receivers (cancel_fallback_signal p c s) = receivers s"
  "objects (cancel_fallback_signal p c s) = objects s" "pending_candidates (cancel_fallback_signal p c s) = pending_candidates s"
  "offers (cancel_fallback_signal p c s) = offers s" "sends (cancel_fallback_signal p c s) = sends s"
  "stats (cancel_fallback_signal p c s) = stats s" "length (signals (cancel_fallback_signal p c s)) = length (signals s)"
  "receiver_effects (cancel_fallback_signal p c s) = receiver_effects s"
  by (simp_all add: cancel_fallback_signal_def split: option.split)

definition armed :: "receiver \<Rightarrow> bool" where
  "armed r \<longleftrightarrow> fallback_timer r \<noteq> None \<or> health_timer r"

definition recv_ok :: "native_receivers \<Rightarrow> bool" where
  "recv_ok s \<longleftrightarrow> distinct (jkeys (receivers s)) \<and> length (receivers s) \<le> 16 \<and>
     (\<forall>p k. jget (receivers s) p = Some k \<longrightarrow> k < length (objects s) \<and> receiver_peer (objects s ! k) = p \<and> pc_open (objects s ! k)) \<and>
     (\<forall>k<length (objects s). armed (objects s ! k) \<longrightarrow> jget (receivers s) (receiver_peer (objects s ! k)) = Some k)"

lemma recv_okD:
  assumes "recv_ok s"
  shows "distinct (jkeys (receivers s))" "length (receivers s) \<le> 16"
    "jget (receivers s) p = Some k \<Longrightarrow> k < length (objects s) \<and> receiver_peer (objects s ! k) = p \<and> pc_open (objects s ! k)"
    "k < length (objects s) \<Longrightarrow> armed (objects s ! k) \<Longrightarrow> jget (receivers s) (receiver_peer (objects s ! k)) = Some k"
  using assms unfolding recv_ok_def by blast+

definition recv_part :: "native_receivers \<Rightarrow> (string, nat) jsmap \<times> receiver list" where
  "recv_part s = (receivers s, objects s)"

lemma recv_ok_same: "recv_part s' = recv_part s \<Longrightarrow> recv_ok s \<Longrightarrow> recv_ok s'"
  by (simp add: recv_part_def recv_ok_def)

lemma recv_part_simps [simp]:
  "recv_part (effect e s) = recv_part s" "recv_part (cancel_fallback_signal p c s) = recv_part s"
  "recv_part (s\<lparr>pending_candidates := x1\<rparr>) = recv_part s" "recv_part (s\<lparr>offers := x2\<rparr>) = recv_part s"
  "recv_part (s\<lparr>fallback_signals := x3\<rparr>) = recv_part s" "recv_part (s\<lparr>signals := x4\<rparr>) = recv_part s"
  "recv_part (s\<lparr>sends := x5\<rparr>) = recv_part s" "recv_part (s\<lparr>stats := x6\<rparr>) = recv_part s"
  "recv_part (s\<lparr>transport_disposed := x7\<rparr>) = recv_part s" "recv_part (set_offer j ph s) = recv_part s"
  by (simp_all add: recv_part_def set_offer_def)

lemma recv_ok_simps [simp]:
  "recv_ok (effect e s) = recv_ok s" "recv_ok (cancel_fallback_signal p c s) = recv_ok s"
  "recv_ok (s\<lparr>pending_candidates := x1\<rparr>) = recv_ok s" "recv_ok (s\<lparr>offers := x2\<rparr>) = recv_ok s"
  "recv_ok (s\<lparr>fallback_signals := x3\<rparr>) = recv_ok s" "recv_ok (s\<lparr>signals := x4\<rparr>) = recv_ok s"
  "recv_ok (s\<lparr>sends := x5\<rparr>) = recv_ok s" "recv_ok (s\<lparr>stats := x6\<rparr>) = recv_ok s"
  "recv_ok (s\<lparr>transport_disposed := x7\<rparr>) = recv_ok s" "recv_ok (set_offer j ph s) = recv_ok s"
  by (simp_all add: recv_ok_def set_offer_def)

text \<open>A change of one receiver that arms no timer of a receiver which is not in use.\<close>

lemma recv_ok_object:
  assumes "recv_ok s" "k < length (objects s)" "receiver_peer (f (objects s ! k)) = receiver_peer (objects s ! k)"
    and "pc_open (f (objects s ! k)) = pc_open (objects s ! k) \<or> jget (receivers s) (receiver_peer (objects s ! k)) \<noteq> Some k"
    and "armed (f (objects s ! k)) \<Longrightarrow> armed (objects s ! k) \<or> jget (receivers s) (receiver_peer (objects s ! k)) = Some k"
  shows "recv_ok (set_object k f s)"
proof -
  note D = recv_okD [OF assms(1)]
  have "jget (receivers s) (receiver_peer (objects s ! k)) = Some k" if "armed (f (objects s ! k))"
    using assms(5) [OF that] D(4) [OF assms(2)] by blast
  moreover have "pc_open (f (objects s ! k))" if "jget (receivers s) p = Some k" for p
    using D(3) [OF that] assms(4) that by auto
  ultimately show ?thesis using D assms(2,3) unfolding recv_ok_def by auto
qed

lemma recv_ok_drop:
  assumes "recv_ok s" "jget (receivers s) p = Some k"
  shows "recv_ok (drop_receiver p k s)"
proof -
  note D = recv_okD [OF assms(1)]
  have k: "k < length (objects s)" "receiver_peer (objects s ! k) = p" using D(3) [OF assms(2)] by simp_all
  show ?thesis unfolding recv_ok_def
  proof (intro conjI allI impI)
    show "distinct (jkeys (receivers (drop_receiver p k s)))" using D(1) by (simp add: drop_receiver_def)
    show "length (receivers (drop_receiver p k s)) \<le> 16"
      using D(2) length_jdel [of "receivers s" p] by (simp add: drop_receiver_def)
    fix q j assume j: "jget (receivers (drop_receiver p k s)) q = Some j"
    then have "q \<noteq> p" "jget (receivers s) q = Some j" by (auto simp: drop_receiver_def split: if_splits)
    with D(3) [of q j] k show "j < length (objects (drop_receiver p k s))" "receiver_peer (objects (drop_receiver p k s) ! j) = q"
      "pc_open (objects (drop_receiver p k s) ! j)" by (auto simp: drop_receiver_def)
  next
    fix j assume j: "j < length (objects (drop_receiver p k s))" "armed (objects (drop_receiver p k s) ! j)"
    then have "j \<noteq> k" "j < length (objects s)" "armed (objects s ! j)" using k(1) by (auto simp: drop_receiver_def armed_def split: if_splits)
    moreover from this have "receiver_peer (objects s ! j) \<noteq> p" using D(4) [of j] assms(2) by auto
    ultimately show "jget (receivers (drop_receiver p k s)) (receiver_peer (objects (drop_receiver p k s) ! j)) = Some j"
      using D(4) [of j] k(1) by (simp add: drop_receiver_def)
  qed
qed

lemma recv_ok_close [simp]: "recv_ok s \<Longrightarrow> recv_ok (close_receiver p c b s)"
  by (auto simp: close_receiver_def intro!: recv_ok_drop split: option.split)

lemma recv_ok_finish [simp]: "recv_ok s \<Longrightarrow> recv_ok (finish_receiver_fallback p s)"
  by (auto simp: finish_receiver_fallback_def intro!: recv_ok_drop split: option.split)

lemma recv_ok_send [simp]: "recv_ok (start_send p i b s) = recv_ok s"
  by (simp add: start_send_def)

lemma recv_ok_request:
  assumes "recv_ok s" "jget (receivers s) p = Some k"
  shows "recv_ok (send_request p c k b now s)"
proof -
  let ?f = "\<lambda>r. r\<lparr>fallback_requested := True, fallback_timer := None, health_timer := False\<rparr>"
  have "recv_ok (set_object k ?f s)"
    by (rule recv_ok_object [OF assms(1)]) (use recv_okD(3) [OF assms] in \<open>simp_all add: armed_def\<close>)
  then show ?thesis by (simp add: send_request_def Let_def)
qed

lemma recv_ok_fallback [simp]: "recv_ok s \<Longrightarrow> recv_ok (request_receiver_fallback p c reason now s)"
  by (auto simp: request_receiver_fallback_def recv_ok_request split: option.split)

lemma recv_ok_settles: "recv_ok s \<Longrightarrow> recv_ok (send_settles j ok now s)"
  by (simp add: send_settles_def Let_def split: option.split)

lemma recv_ok_retry: "recv_ok s \<Longrightarrow> recv_ok (retry_fires i s)"
  by (simp add: retry_fires_def Let_def)

lemma judge_keeps:
  "receiver_peer (fst (judge x r)) = receiver_peer r" "pc_open (fst (judge x r)) = pc_open r" "armed (fst (judge x r)) = armed r"
  "capture (fst (judge x r)) = capture r" "fallback_requested (fst (judge x r)) = fallback_requested r"
  "health_timer (fst (judge x r)) = health_timer r"
  by (simp_all add: judge_def armed_def Let_def split: option.split)

lemma recv_ok_stats: "recv_ok s \<Longrightarrow> recv_ok (stats_answer j report now s)"
proof -
  assume s: "recv_ok s"
  have health: "recv_ok (health_answer t v now u)" if "recv_ok u" "jget (receivers u) (stats_peer t) = Some (stats_object t)" for t v u
  proof -
    obtain r w where r: "judge (sample_of v) (objects u ! stats_object t) = (r, w)" by fastforce
    have "recv_ok (set_object (stats_object t) (\<lambda>_. r) u)"
      by (rule recv_ok_object [OF that(1)])
        (use recv_okD(3) [OF that] judge_keeps [of "sample_of v" "objects u ! stats_object t"] that(2) in \<open>simp_all add: r\<close>)
    then show ?thesis by (cases w) (simp_all add: health_answer_def r Let_def)
  qed
  with s show ?thesis by (simp add: stats_answer_def Let_def recv_ok_request split: option.split)
qed

lemma recv_ok_connected [simp]: "recv_ok s \<Longrightarrow> recv_ok (receiver_connected p c s)"
proof -
  assume s: "recv_ok s"
  have "recv_ok (set_object k (\<lambda>r. r\<lparr>connected_once := True, fallback_timer := Some No_media_timeout\<rparr>) s)"
    if "jget (receivers s) p = Some k" for k
    by (rule recv_ok_object [OF s]) (use recv_okD(3) [OF s that] that in \<open>simp_all\<close>)
  with s show ?thesis by (simp add: receiver_connected_def Let_def split: option.split)
qed

lemma receiver_connected_same [simp]:
  "receivers (receiver_connected p c s) = receivers s" "length (objects (receiver_connected p c s)) = length (objects s)"
  "offers (receiver_connected p c s) = offers s" "transport_disposed (receiver_connected p c s) = transport_disposed s"
  "pending_candidates (receiver_connected p c s) = pending_candidates s" "fallback_signals (receiver_connected p c s) = fallback_signals s"
  "signals (receiver_connected p c s) = signals s" "sends (receiver_connected p c s) = sends s" "stats (receiver_connected p c s) = stats s"
  by (simp_all add: receiver_connected_def Let_def split: option.split)

lemma recv_ok_offer: "recv_ok s \<Longrightarrow> recv_ok (handle_offer supported p c sdp s)"
proof -
  assume s: "recv_ok s"
  let ?s = "close_receiver p None False (cancel_fallback_signal p None s)" and ?k = "length (objects s)"
  have ok: "recv_ok ?s" using s by simp
  have free: "jget (receivers ?s) p = None" "length (objects ?s) = ?k"
    by (simp_all add: close_receiver_def drop_receiver_def split: option.split)
  note t = ok free
  note D = recv_okD [OF t(1)]
  have new: "recv_ok (?s\<lparr>objects := objects ?s @ [new_receiver p c], receivers := jset (receivers ?s) p ?k\<rparr>)"
    if "length (receivers ?s) < 16"
    unfolding recv_ok_def
  proof (intro conjI allI impI)
    fix q j assume j: "jget (receivers (?s\<lparr>objects := objects ?s @ [new_receiver p c], receivers := jset (receivers ?s) p ?k\<rparr>)) q = Some j"
    show "j < length (objects (?s\<lparr>objects := objects ?s @ [new_receiver p c], receivers := jset (receivers ?s) p ?k\<rparr>))"
      "receiver_peer (objects (?s\<lparr>objects := objects ?s @ [new_receiver p c], receivers := jset (receivers ?s) p ?k\<rparr>) ! j) = q"
      "pc_open (objects (?s\<lparr>objects := objects ?s @ [new_receiver p c], receivers := jset (receivers ?s) p ?k\<rparr>) ! j)"
      using j D(3) [of q j] t(3) by (auto simp: nth_append new_receiver_def split: if_splits)
  next
    fix j assume j: "j < length (objects (?s\<lparr>objects := objects ?s @ [new_receiver p c], receivers := jset (receivers ?s) p ?k\<rparr>))"
      "armed (objects (?s\<lparr>objects := objects ?s @ [new_receiver p c], receivers := jset (receivers ?s) p ?k\<rparr>) ! j)"
    show "jget (receivers (?s\<lparr>objects := objects ?s @ [new_receiver p c], receivers := jset (receivers ?s) p ?k\<rparr>))
        (receiver_peer (objects (?s\<lparr>objects := objects ?s @ [new_receiver p c], receivers := jset (receivers ?s) p ?k\<rparr>) ! j)) = Some j"
      using j D(4) [of j] t by (auto simp: nth_append new_receiver_def armed_def less_Suc_eq split: if_splits)
  qed (use D(1) that t(2) length_jset [of p "receivers ?s" ?k] in \<open>simp_all add: jget_None_iff\<close>)
  from s t(1,3) new show ?thesis by (simp add: handle_offer_def thrown_def Let_def not_le)
qed

section \<open>Offers and their receivers\<close>

definition in_use :: "native_receivers \<Rightarrow> nat \<Rightarrow> bool" where
  "in_use s k \<longleftrightarrow> jget (receivers s) (receiver_peer (objects s ! k)) = Some k"

definition looked_after :: "receiver \<Rightarrow> bool" where
  "looked_after r \<longleftrightarrow> health_timer r \<or> fallback_requested r"

definition offer_ok :: "native_receivers \<Rightarrow> nat \<Rightarrow> bool" where
  "offer_ok s j \<longleftrightarrow> offer_object (offers s ! j) = j \<and> offer_peer (offers s ! j) = receiver_peer (objects s ! j) \<and>
     offer_capture (offers s ! j) = capture (objects s ! j) \<and>
     (offer_phase (offers s ! j) = Answered \<and> in_use s j \<longrightarrow> looked_after (objects s ! j)) \<and>
     (offer_phase (offers s ! j) = Abandoned \<longrightarrow> \<not> in_use s j)"

definition offers_ok :: "native_receivers \<Rightarrow> bool" where
  "offers_ok s \<longleftrightarrow> length (offers s) = length (objects s) \<and> (\<forall>j<length (offers s). offer_ok s j)"

lemma offers_ok_simps [simp]:
  "offers_ok (effect e s) = offers_ok s" "offers_ok (cancel_fallback_signal p c s) = offers_ok s"
  "offers_ok (s\<lparr>pending_candidates := x1\<rparr>) = offers_ok s" "offers_ok (s\<lparr>fallback_signals := x3\<rparr>) = offers_ok s"
  "offers_ok (s\<lparr>signals := x4\<rparr>) = offers_ok s" "offers_ok (s\<lparr>sends := x5\<rparr>) = offers_ok s" "offers_ok (s\<lparr>stats := x6\<rparr>) = offers_ok s"
  "offers_ok (s\<lparr>transport_disposed := x7\<rparr>) = offers_ok s" "offers_ok (start_send p i b s) = offers_ok s"
  by (simp_all add: offers_ok_def offer_ok_def in_use_def start_send_def)

lemma offers_ok_change:
  assumes "offers_ok s" "offers s' = offers s" "length (objects s') = length (objects s)"
    and "\<And>j. j < length (objects s) \<Longrightarrow> receiver_peer (objects s' ! j) = receiver_peer (objects s ! j) \<and> capture (objects s' ! j) = capture (objects s ! j)"
    and "\<And>j. j < length (objects s) \<Longrightarrow> in_use s' j \<Longrightarrow> in_use s j \<and> (looked_after (objects s ! j) \<longrightarrow> looked_after (objects s' ! j))"
  shows "offers_ok s'"
proof -
  have "offer_ok s' j" if "j < length (offers s)" for j
  proof -
    have "offer_ok s j" "j < length (objects s)" using assms(1) that by (simp_all add: offers_ok_def)
    with assms(2) assms(4,5) [of j] show ?thesis by (auto simp: offer_ok_def)
  qed
  with assms show ?thesis by (simp add: offers_ok_def)
qed

lemma offers_ok_object:
  assumes "offers_ok s" "k < length (objects s)"
    and "receiver_peer (f (objects s ! k)) = receiver_peer (objects s ! k)" "capture (f (objects s ! k)) = capture (objects s ! k)"
    and "in_use s k \<Longrightarrow> looked_after (objects s ! k) \<Longrightarrow> looked_after (f (objects s ! k))"
  shows "offers_ok (set_object k f s)"
  by (rule offers_ok_change [OF assms(1)]) (use assms(2-5) in \<open>auto simp: in_use_def split: if_splits\<close>)

lemma offers_ok_drop:
  assumes "recv_ok s" "offers_ok s" "jget (receivers s) p = Some k"
  shows "offers_ok (drop_receiver p k s)"
  by (rule offers_ok_change [OF assms(2)])
    (use recv_okD(3) [OF assms(1,3)] in \<open>auto simp: drop_receiver_def in_use_def looked_after_def split: if_splits\<close>)

lemma offers_ok_close [simp]: "recv_ok s \<Longrightarrow> offers_ok s \<Longrightarrow> offers_ok (close_receiver p c b s)"
  by (auto simp: close_receiver_def intro!: offers_ok_drop split: option.split)

lemma offers_ok_finish [simp]: "recv_ok s \<Longrightarrow> offers_ok s \<Longrightarrow> offers_ok (finish_receiver_fallback p s)"
  by (auto simp: finish_receiver_fallback_def intro!: offers_ok_drop split: option.split)

lemma offers_ok_request:
  assumes "recv_ok s" "offers_ok s" "jget (receivers s) p = Some k"
  shows "offers_ok (send_request p c k b now s)"
proof -
  have "offers_ok (set_object k (\<lambda>r. r\<lparr>fallback_requested := True, fallback_timer := None, health_timer := False\<rparr>) s)"
    by (rule offers_ok_object [OF assms(2)]) (use recv_okD(3) [OF assms(1,3)] in \<open>simp_all add: looked_after_def\<close>)
  then show ?thesis by (simp add: send_request_def Let_def)
qed

lemma offers_ok_fallback [simp]: "recv_ok s \<Longrightarrow> offers_ok s \<Longrightarrow> offers_ok (request_receiver_fallback p c reason now s)"
  by (auto simp: request_receiver_fallback_def offers_ok_request split: option.split)

lemma offers_ok_settles: "recv_ok s \<Longrightarrow> offers_ok s \<Longrightarrow> offers_ok (send_settles j ok now s)"
  by (simp add: send_settles_def Let_def split: option.split)

lemma offers_ok_retry: "offers_ok s \<Longrightarrow> offers_ok (retry_fires i s)"
  by (simp add: retry_fires_def Let_def)

lemma judge_looked_after: "looked_after (fst (judge x r)) = looked_after r"
  by (simp add: looked_after_def judge_keeps)

lemma offers_ok_stats:
  assumes "recv_ok s" "offers_ok s"
  shows "offers_ok (stats_answer j report now s)"
proof -
  have health: "offers_ok (health_answer t v now u)"
    if "recv_ok u" "offers_ok u" "jget (receivers u) (stats_peer t) = Some (stats_object t)" for t v u
  proof -
    let ?k = "stats_object t"
    obtain r w where r: "judge (sample_of v) (objects u ! ?k) = (r, w)" by fastforce
    note keeps = judge_keeps [of "sample_of v" "objects u ! ?k"] judge_looked_after [of "sample_of v" "objects u ! ?k"]
    have "offers_ok (set_object ?k (\<lambda>_. r) u)"
      by (rule offers_ok_object [OF that(2)]) (use recv_okD(3) [OF that(1,3)] keeps in \<open>simp_all add: r\<close>)
    moreover have "recv_ok (set_object ?k (\<lambda>_. r) u)"
      by (rule recv_ok_object [OF that(1)]) (use recv_okD(3) [OF that(1,3)] keeps that(3) in \<open>simp_all add: r\<close>)
    ultimately show ?thesis by (cases w) (simp_all add: health_answer_def r Let_def)
  qed
  with assms show ?thesis by (simp add: stats_answer_def Let_def offers_ok_request split: option.split)
qed

lemma offers_ok_connected [simp]: "recv_ok s \<Longrightarrow> offers_ok s \<Longrightarrow> offers_ok (receiver_connected p c s)"
proof -
  assume s: "recv_ok s" "offers_ok s"
  have "offers_ok (set_object k (\<lambda>r. r\<lparr>connected_once := True, fallback_timer := Some No_media_timeout\<rparr>) s)"
    if "jget (receivers s) p = Some k" for k
    by (rule offers_ok_object [OF s(2)]) (use recv_okD(3) [OF s(1) that] in \<open>simp_all add: looked_after_def\<close>)
  with s show ?thesis by (simp add: receiver_connected_def Let_def split: option.split)
qed

lemma offers_ok_offer:
  assumes "recv_ok s" "offers_ok s"
  shows "offers_ok (handle_offer supported p c sdp s)"
proof -
  let ?s = "close_receiver p None False (cancel_fallback_signal p None s)" and ?k = "length (objects s)"
  have ok: "offers_ok ?s" using assms by simp
  have len: "length (objects ?s) = ?k" by (simp add: close_receiver_def drop_receiver_def split: option.split)
  let ?t = "?s\<lparr>objects := objects ?s @ [new_receiver p c], receivers := jset (receivers ?s) p ?k,
    offers := offers ?s @ [\<lparr>offer_peer = p, offer_capture = c, offer_object = ?k, offer_phase = Setting_remote\<rparr>]\<rparr>"
  have "offer_ok ?t j" if "j < length (offers ?t)" for j
  proof (cases "j = ?k")
    case True
    with ok len show ?thesis by (simp add: offer_ok_def offers_ok_def nth_append new_receiver_def)
  next
    case False
    then have j: "j < length (offers ?s)" "j < length (objects ?s)" using that ok len by (auto simp: offers_ok_def less_Suc_eq)
    have "offer_ok ?s j" using ok j by (simp add: offers_ok_def)
    with j False len show ?thesis by (auto simp: offer_ok_def in_use_def nth_append split: if_splits)
  qed
  then have "offers_ok ?t" using ok by (simp add: offers_ok_def)
  then show ?thesis using assms ok len by (simp add: handle_offer_def thrown_def Let_def)
qed

definition quiet_after :: "native_receivers \<Rightarrow> bool" where
  "quiet_after s \<longleftrightarrow> (transport_disposed s \<longrightarrow> receivers s = [] \<and> pending_candidates s = [] \<and> fallback_signals s = [])"

lemma offers_okD:
  assumes "offers_ok s" "j < length (offers s)"
  shows "offer_object (offers s ! j) = j" "offer_peer (offers s ! j) = receiver_peer (objects s ! j)"
    "offer_capture (offers s ! j) = capture (objects s ! j)" "j < length (objects s)"
    "offer_phase (offers s ! j) = Answered \<Longrightarrow> in_use s j \<Longrightarrow> looked_after (objects s ! j)"
  using assms by (auto simp: offers_ok_def offer_ok_def)

lemma set_offer_simps [simp]:
  "receivers (set_offer j ph s) = receivers s" "objects (set_offer j ph s) = objects s" "length (offers (set_offer j ph s)) = length (offers s)"
  "transport_disposed (set_offer j ph s) = transport_disposed s" "pending_candidates (set_offer j ph s) = pending_candidates s"
  "fallback_signals (set_offer j ph s) = fallback_signals s" "signals (set_offer j ph s) = signals s" "sends (set_offer j ph s) = sends s"
  "stats (set_offer j ph s) = stats s" "in_use (set_offer j ph s) k = in_use s k"
  by (simp_all add: set_offer_def in_use_def)

lemma offers_ok_phase:
  assumes "offers_ok s" "j < length (offers s)" "ph = Answered \<Longrightarrow> in_use s j \<Longrightarrow> looked_after (objects s ! j)"
    and "ph = Abandoned \<Longrightarrow> \<not> in_use s j"
  shows "offers_ok (set_offer j ph s)"
proof -
  have "offer_ok (set_offer j ph s) i" if "i < length (offers s)" for i
  proof -
    have "offer_ok s i" using assms(1) that by (simp add: offers_ok_def)
    with assms(2-4) that show ?thesis by (cases "i = j") (auto simp: offer_ok_def set_offer_def in_use_def)
  qed
  with assms(1) show ?thesis by (simp add: offers_ok_def)
qed

lemma not_current:
  assumes "offers_ok s" "quiet_after s" "j < length (offers s)" "\<not> is_current j s"
  shows "\<not> in_use s j"
  using assms(2,4) offers_okD [OF assms(1,3)] by (auto simp: is_current_def quiet_after_def in_use_def)

lemma abandon_ok:
  assumes "recv_ok s" "offers_ok s" "quiet_after s" "j < length (offers s)" "\<not> is_current j s"
  shows "recv_ok (abandon_offer j s)" "offers_ok (abandon_offer j s)"
proof -
  note D = offers_okD [OF assms(2,4)] and free = not_current [OF assms(2-5)]
  let ?t = "set_object j (\<lambda>r. r\<lparr>pc_open := False\<rparr>) s"
  have r: "recv_ok ?t" by (rule recv_ok_object [OF assms(1)]) (use D free in \<open>simp_all add: in_use_def armed_def\<close>)
  have o: "offers_ok ?t" by (rule offers_ok_object [OF assms(2)]) (use D in \<open>simp_all add: looked_after_def\<close>)
  show "recv_ok (abandon_offer j s)" using r D by (simp add: abandon_offer_def)
  have "\<not> in_use ?t j" using free D by (simp add: in_use_def)
  then have "offers_ok (set_offer j Abandoned ?t)" using o assms(4) by (intro offers_ok_phase) simp_all
  then show "offers_ok (abandon_offer j s)" using D by (simp add: abandon_offer_def)
qed

lemma add_candidates_ok:
  assumes "recv_ok s" "offers_ok s" "j < length (offers s)"
  shows "recv_ok (add_candidates j cs s)" "offers_ok (add_candidates j cs s)"
  using assms by (auto simp: add_candidates_def intro!: offers_ok_phase split: list.split)

text \<open>Who is looked after once the answer has been sent.\<close>

lemma watch_receiver_ok:
  assumes "recv_ok s" "offers_ok s" "j < length (offers s)"
  shows "recv_ok (watch_receiver j s) \<and> offers_ok (watch_receiver j s) \<and> length (offers (watch_receiver j s)) = length (offers s) \<and>
    (in_use (watch_receiver j s) j \<longrightarrow> looked_after (objects (watch_receiver j s) ! j))"
proof (cases "jget (receivers s) (offer_peer (offers s ! j)) = Some j")
  case False
  then show ?thesis using assms offers_okD [OF assms(2,3)] by (simp add: watch_receiver_def in_use_def Let_def)
next
  case True
  note D = offers_okD [OF assms(2,3)]
  let ?f = "\<lambda>r. r\<lparr>fallback_timer := Some Connection_timeout\<rparr>" and ?g = "\<lambda>r. r\<lparr>health_timer := True\<rparr>"
  let ?p = "offer_peer (offers s ! j)" and ?c = "offer_capture (offers s ! j)"
  define t where "t = (if connected_once (objects s ! j) then s else let s = set_object j ?f s
    in if pc_connected (objects s ! j) then receiver_connected ?p ?c s else s)"
  have f: "recv_ok (set_object j ?f s)" "offers_ok (set_object j ?f s)"
    by (rule recv_ok_object [OF assms(1)]; use D True in simp) (rule offers_ok_object [OF assms(2)]; use D in \<open>simp add: looked_after_def\<close>)
  have t: "recv_ok t" "offers_ok t" "receivers t = receivers s" "length (objects t) = length (objects s)" "offers t = offers s"
    using assms f by (simp_all add: t_def Let_def)
  note E = offers_okD [OF t(2), of j]
  have j: "j < length (objects t)" "jget (receivers t) (receiver_peer (objects t ! j)) = Some j"
    using D t True assms(3) E by simp_all
  have "recv_ok (set_object j ?g t)" by (rule recv_ok_object [OF t(1)]) (use j in simp_all)
  moreover have "offers_ok (set_object j ?g t)" by (rule offers_ok_object [OF t(2)]) (use j in \<open>simp_all add: looked_after_def\<close>)
  moreover have "watch_receiver j s = set_object j ?g t" using True D by (simp add: watch_receiver_def t_def Let_def)
  ultimately show ?thesis using j t by (simp add: looked_after_def)
qed

lemma offer_proceeds_ok:
  assumes "recv_ok s" "offers_ok s" "quiet_after s" "j < length (offers s)"
  shows "recv_ok (offer_proceeds j ok s) \<and> offers_ok (offer_proceeds j ok s)"
proof (cases "offer_phase (offers s ! j) \<in> {Answered, Abandoned, Failed}")
  case busy: False
  note D = offers_okD [OF assms(2,4)]
  show ?thesis
  proof (cases ok)
    case False
    have "offers_ok (set_offer j Failed s)" by (rule offers_ok_phase [OF assms(2,4)]) simp_all
    with False busy assms(1) show ?thesis by (simp add: offer_proceeds_def thrown_def Let_def)
  next
    case True
    show ?thesis
    proof (cases "offer_phase (offers s ! j)")
      case Setting_remote
      let ?t = "set_object j (\<lambda>r. r\<lparr>remote_set := True\<rparr>) s"
      have r: "recv_ok ?t" by (rule recv_ok_object [OF assms(1)]) (use D in \<open>simp_all add: armed_def\<close>)
      have o: "offers_ok ?t" by (rule offers_ok_object [OF assms(2)]) (use D in \<open>simp_all add: looked_after_def\<close>)
      have q: "quiet_after ?t" using assms(3) by (simp add: quiet_after_def)
      have l: "j < length (offers ?t)" using assms(4) by simp
      have "offers_ok (set_offer j Making_answer ?t)" by (rule offers_ok_phase [OF o l]) simp_all
      with True Setting_remote r o l abandon_ok [OF r o q l] D show ?thesis
        by (auto simp: offer_proceeds_def Let_def add_candidates_ok split: option.split prod.split)
    next
      case (Adding cs)
      with True assms show ?thesis by (simp add: offer_proceeds_def Let_def add_candidates_ok)
    next
      case Making_answer
      have "offers_ok (set_offer j Sending_answer (effect e s))" for e by (rule offers_ok_phase) (use assms in simp_all)
      with True Making_answer assms abandon_ok [OF assms] show ?thesis by (auto simp: offer_proceeds_def Let_def)
    next
      case Sending_answer
      note W = watch_receiver_ok [OF assms(1,2,4)]
      have "offers_ok (set_offer j Answered (watch_receiver j s))" by (rule offers_ok_phase) (use W assms(4) in simp_all)
      with True Sending_answer W show ?thesis by (simp add: offer_proceeds_def Let_def)
    qed (use busy in simp_all)
  qed
qed (use assms in \<open>simp add: offer_proceeds_def Let_def\<close>)

section \<open>Requests on their way\<close>

definition signals_ok :: "native_receivers \<Rightarrow> bool" where
  "signals_ok s \<longleftrightarrow>
     (\<forall>p i. jget (fallback_signals s) p = Some i \<longrightarrow> i < length (signals s) \<and> signal_peer (signals s ! i) = p \<and>
        (retry (signals s ! i) \<or> (\<exists>t. Some t \<in> set (sends s) \<and> send_signal t = i))) \<and>
     (\<forall>i<length (signals s). retry (signals s ! i) \<longrightarrow> jget (fallback_signals s) (signal_peer (signals s ! i)) = Some i) \<and>
     (\<forall>t. Some t \<in> set (sends s) \<longrightarrow> send_signal t < length (signals s) \<and> signal_peer (signals s ! send_signal t) = send_peer t)"

lemma signals_okD:
  assumes "signals_ok s"
  shows "jget (fallback_signals s) p = Some i \<Longrightarrow> i < length (signals s) \<and> signal_peer (signals s ! i) = p"
    "jget (fallback_signals s) p = Some i \<Longrightarrow> retry (signals s ! i) \<or> (\<exists>t. Some t \<in> set (sends s) \<and> send_signal t = i)"
    "i < length (signals s) \<Longrightarrow> retry (signals s ! i) \<Longrightarrow> jget (fallback_signals s) (signal_peer (signals s ! i)) = Some i"
    "Some t \<in> set (sends s) \<Longrightarrow> send_signal t < length (signals s) \<and> signal_peer (signals s ! send_signal t) = send_peer t"
  using assms unfolding signals_ok_def by blast+

lemma signals_ok_simps [simp]:
  "signals_ok (effect e s) = signals_ok s" "signals_ok (set_object k f s) = signals_ok s"
  "signals_ok (s\<lparr>pending_candidates := x1\<rparr>) = signals_ok s" "signals_ok (s\<lparr>offers := x2\<rparr>) = signals_ok s"
  "signals_ok (s\<lparr>receivers := x3\<rparr>) = signals_ok s" "signals_ok (s\<lparr>objects := x4\<rparr>) = signals_ok s"
  "signals_ok (s\<lparr>stats := x5\<rparr>) = signals_ok s" "signals_ok (s\<lparr>transport_disposed := x6\<rparr>) = signals_ok s"
  "signals_ok (set_offer j ph s) = signals_ok s" "signals_ok (drop_receiver p k s) = signals_ok s"
  "signals_ok (receiver_connected p c s) = signals_ok s"
  by (simp_all add: signals_ok_def drop_receiver_def)

lemma signals_ok_cancel [simp]:
  assumes "signals_ok s"
  shows "signals_ok (cancel_fallback_signal p c s)"
proof (cases "jget (fallback_signals s) p")
  case (Some i)
  note D = signals_okD [OF assms]
  have i: "i < length (signals s)" "signal_peer (signals s ! i) = p" using D(1) [OF Some] by simp_all
  let ?ss = "(signals s)[i := (signals s ! i)\<lparr>retry := False\<rparr>]"
  have peer: "signal_peer (?ss ! k) = signal_peer (signals s ! k)" for k using i by (cases "k = i") simp_all
  have was: "retry (?ss ! k) \<Longrightarrow> k \<noteq> i \<and> retry (signals s ! k)" for k using i by (cases "k = i") simp_all
  have other: "k \<noteq> i" if "jget (fallback_signals s) q = Some k" "q \<noteq> p" for q k using D(1) [OF that(1)] i(2) that(2) by auto
  have "signals_ok (s\<lparr>signals := ?ss, fallback_signals := jdel (fallback_signals s) p\<rparr>)"
    unfolding signals_ok_def
  proof (intro conjI allI impI)
    fix q k assume "jget (fallback_signals (s\<lparr>signals := ?ss, fallback_signals := jdel (fallback_signals s) p\<rparr>)) q = Some k"
    then have q: "jget (fallback_signals s) q = Some k" "q \<noteq> p" by (simp_all split: if_splits)
    with D(1) [OF q(1)] D(2) [OF q(1)] other [OF q] show
      "k < length (signals (s\<lparr>signals := ?ss, fallback_signals := jdel (fallback_signals s) p\<rparr>))"
      "signal_peer (signals (s\<lparr>signals := ?ss, fallback_signals := jdel (fallback_signals s) p\<rparr>) ! k) = q"
      "retry (signals (s\<lparr>signals := ?ss, fallback_signals := jdel (fallback_signals s) p\<rparr>) ! k) \<or>
        (\<exists>t. Some t \<in> set (sends (s\<lparr>signals := ?ss, fallback_signals := jdel (fallback_signals s) p\<rparr>)) \<and> send_signal t = k)"
      by simp_all
  next
    fix k assume k: "k < length (signals (s\<lparr>signals := ?ss, fallback_signals := jdel (fallback_signals s) p\<rparr>))"
      "retry (signals (s\<lparr>signals := ?ss, fallback_signals := jdel (fallback_signals s) p\<rparr>) ! k)"
    then have "k \<noteq> i" "k < length (signals s)" "retry (signals s ! k)" using was [of k] by simp_all
    then have "jget (fallback_signals s) (signal_peer (signals s ! k)) = Some k" using D(3) by simp
    moreover from this \<open>k \<noteq> i\<close> have "signal_peer (signals s ! k) \<noteq> p" using Some by auto
    ultimately show "jget (fallback_signals (s\<lparr>signals := ?ss, fallback_signals := jdel (fallback_signals s) p\<rparr>))
        (signal_peer (signals (s\<lparr>signals := ?ss, fallback_signals := jdel (fallback_signals s) p\<rparr>) ! k)) = Some k"
      using peer by simp
  qed (use D(4) peer in simp_all)
  with assms Some show ?thesis by (simp add: cancel_fallback_signal_def)
qed (use assms in \<open>simp add: cancel_fallback_signal_def\<close>)

lemma signals_ok_close [simp]: "signals_ok s \<Longrightarrow> signals_ok (close_receiver p c b s)"
  by (simp add: close_receiver_def split: option.split)

lemma signals_ok_finish [simp]: "signals_ok s \<Longrightarrow> signals_ok (finish_receiver_fallback p s)"
  by (simp add: finish_receiver_fallback_def split: option.split)

lemma cancelled [simp]: "jget (fallback_signals (cancel_fallback_signal p None s)) p = None"
  by (simp add: cancel_fallback_signal_def split: option.split)

lemma signals_ok_request [simp]:
  assumes "signals_ok s"
  shows "signals_ok (send_request p c k b now s)"
proof -
  let ?f = "\<lambda>r. r\<lparr>fallback_requested := True, fallback_timer := None, health_timer := False\<rparr>"
  define t where "t = cancel_fallback_signal p None (set_object k ?f s)"
  have t: "signals_ok t" "jget (fallback_signals t) p = None" using assms by (simp_all add: t_def)
  note D = signals_okD [OF t(1)]
  let ?i = "length (signals t)" and ?x = "\<lparr>signal_peer = p, signal_capture = c, deadline = now + 20000, retry = False\<rparr>"
  let ?d = "\<lparr>send_peer = p, send_signal = ?i, send_capture = c, close_after = b\<rparr>"
  have "signals_ok (t\<lparr>signals := signals t @ [?x], fallback_signals := jset (fallback_signals t) p ?i, sends := sends t @ [Some ?d]\<rparr>)"
    (is "signals_ok ?u")
    unfolding signals_ok_def
  proof (intro conjI allI impI)
    fix q n assume q: "jget (fallback_signals ?u) q = Some n"
    show "n < length (signals ?u)" "signal_peer (signals ?u ! n) = q"
      using q D(1) [of q n] by (auto simp: nth_append split: if_splits)
    show "retry (signals ?u ! n) \<or> (\<exists>t. Some t \<in> set (sends ?u) \<and> send_signal t = n)"
      using q D(1,2) [of q n] by (auto simp: nth_append split: if_splits)
  next
    fix n assume n: "n < length (signals ?u)" "retry (signals ?u ! n)"
    then have "n < ?i" "retry (signals t ! n)" by (auto simp: nth_append less_Suc_eq split: if_splits)
    then have "jget (fallback_signals t) (signal_peer (signals t ! n)) = Some n" using D(3) by simp
    then show "jget (fallback_signals ?u) (signal_peer (signals ?u ! n)) = Some n"
      using t(2) \<open>n < ?i\<close> by (auto simp: nth_append)
  next
    fix d assume "Some d \<in> set (sends ?u)"
    then show "send_signal d < length (signals ?u)" "signal_peer (signals ?u ! send_signal d) = send_peer d"
      using D(4) [of d] by (auto simp: nth_append)
  qed
  moreover have "send_request p c k b now s = effect (Fallback_sent p ?i) ?u"
    by (simp add: send_request_def start_send_def t_def effect_def nth_append Let_def)
  ultimately show ?thesis by simp
qed

lemma signals_ok_fallback [simp]: "signals_ok s \<Longrightarrow> signals_ok (request_receiver_fallback p c reason now s)"
  by (simp add: request_receiver_fallback_def split: option.split)

lemma signals_ok_stats: "signals_ok s \<Longrightarrow> signals_ok (stats_answer j report now s)"
  by (simp add: stats_answer_def health_answer_def Let_def split: option.split prod.split verdict.split)

lemma kept_by_update: "x \<in> set xs \<Longrightarrow> x \<noteq> xs ! j \<Longrightarrow> x \<in> set (xs[j := y])"
  by (metis in_set_conv_nth length_list_update nth_list_update_neq)

text \<open>A send is over: its signal is not current any more, or waits for its timer.\<close>

lemma signals_ok_sent:
  assumes "signals_ok s" "sends s ! j = Some t"
    and "jget (fallback_signals s) (send_peer t) = Some (send_signal t) \<Longrightarrow> retry (signals s ! send_signal t)"
  shows "signals_ok (s\<lparr>sends := (sends s)[j := None]\<rparr>)"
  unfolding signals_ok_def
proof (intro conjI allI impI)
  note D = signals_okD [OF assms(1)]
  fix p i assume "jget (fallback_signals (s\<lparr>sends := (sends s)[j := None]\<rparr>)) p = Some i"
  then have p: "jget (fallback_signals s) p = Some i" by simp
  then show "i < length (signals (s\<lparr>sends := (sends s)[j := None]\<rparr>))" "signal_peer (signals (s\<lparr>sends := (sends s)[j := None]\<rparr>) ! i) = p"
    using D(1) by simp_all
  show "retry (signals (s\<lparr>sends := (sends s)[j := None]\<rparr>) ! i) \<or>
      (\<exists>u. Some u \<in> set (sends (s\<lparr>sends := (sends s)[j := None]\<rparr>)) \<and> send_signal u = i)"
  proof (cases "retry (signals s ! i)")
    case False
    then obtain u where u: "Some u \<in> set (sends s)" "send_signal u = i" using D(2) [OF p] by blast
    have "send_peer u = p" using D(4) [OF u(1)] D(1) [OF p] u(2) by simp
    then have "u \<noteq> t" using assms(3) False p u(2) by auto
    with u assms(2) show ?thesis by (auto intro!: kept_by_update)
  qed simp
next
  fix u assume "Some u \<in> set (sends (s\<lparr>sends := (sends s)[j := None]\<rparr>))"
  then have "Some u \<in> set (sends s)" using set_update_subset_insert [of "sends s" j None] by auto
  then show "send_signal u < length (signals (s\<lparr>sends := (sends s)[j := None]\<rparr>))"
    "signal_peer (signals (s\<lparr>sends := (sends s)[j := None]\<rparr>) ! send_signal u) = send_peer u"
    using signals_okD(4) [OF assms(1)] by simp_all
qed (use signals_okD(3) [OF assms(1)] in simp_all)

lemma signals_ok_retry_set:
  assumes "signals_ok s" "jget (fallback_signals s) p = Some i"
  shows "signals_ok (s\<lparr>signals := (signals s)[i := (signals s ! i)\<lparr>retry := True\<rparr>]\<rparr>)"
proof -
  note D = signals_okD [OF assms(1)]
  have i: "i < length (signals s)" "signal_peer (signals s ! i) = p" using D(1) [OF assms(2)] by simp_all
  have peer: "signal_peer ((signals s)[i := (signals s ! i)\<lparr>retry := True\<rparr>] ! k) = signal_peer (signals s ! k)" for k
    using i by (cases "k = i") simp_all
  have retry: "retry ((signals s)[i := (signals s ! i)\<lparr>retry := True\<rparr>] ! k) = (k = i \<or> retry (signals s ! k))" for k
    using i by (cases "k = i") simp_all
  show ?thesis unfolding signals_ok_def using D assms(2) i by (auto simp: peer retry)
qed

lemma cancel_sends: "cancel_fallback_signal p c (s\<lparr>sends := x\<rparr>) = (cancel_fallback_signal p c s)\<lparr>sends := x\<rparr>"
  by (simp add: cancel_fallback_signal_def split: option.split)

lemma signals_ok_settles:
  assumes "signals_ok s" "quiet_after s"
  shows "signals_ok (send_settles j ok now s)"
proof (cases "j < length (sends s) \<and> sends s ! j \<noteq> None")
  case True
  then obtain t where t: "j < length (sends s)" "sends s ! j = Some t" by auto
  let ?p = "send_peer t" and ?i = "send_signal t" and ?x = "(sends s)[j := None]"
  show ?thesis
  proof (cases "jget (fallback_signals s) ?p = Some ?i")
    case False
    then have "signals_ok (s\<lparr>sends := ?x\<rparr>)" using signals_ok_sent [OF assms(1) t(2)] by blast
    with False t show ?thesis by (simp add: send_settles_def Let_def)
  next
    case current: True
    then have live: "\<not> transport_disposed s" using assms(2) by (auto simp: quiet_after_def)
    have cut: "signals_ok ((cancel_fallback_signal ?p None s)\<lparr>sends := ?x\<rparr>)"
      using signals_ok_sent [of "cancel_fallback_signal ?p None s" j t] assms(1) t(2) by simp
    have i: "?i < length (signals s)" using signals_okD(1) [OF assms(1) current] by simp
    have "signals_ok ((s\<lparr>signals := (signals s)[?i := (signals s ! ?i)\<lparr>retry := True\<rparr>]\<rparr>)\<lparr>sends := ?x\<rparr>)"
      using signals_ok_sent [of "s\<lparr>signals := (signals s)[?i := (signals s ! ?i)\<lparr>retry := True\<rparr>]\<rparr>" j t]
        signals_ok_retry_set [OF assms(1) current] t(2) i by simp
    then have "signals_ok (s\<lparr>sends := ?x, signals := (signals s)[?i := (signals s ! ?i)\<lparr>retry := True\<rparr>]\<rparr>)"
      by (simp add: signals_ok_def)
    with cut current live t show ?thesis by (simp add: send_settles_def cancel_sends Let_def)
  qed
qed (use assms in \<open>auto simp: send_settles_def split: option.split\<close>)

lemma signals_ok_retry:
  assumes "signals_ok s" "quiet_after s"
  shows "signals_ok (retry_fires i s)"
proof (cases "i < length (signals s) \<and> retry (signals s ! i)")
  case True
  let ?p = "signal_peer (signals s ! i)" and ?ss = "(signals s)[i := (signals s ! i)\<lparr>retry := False\<rparr>]"
  note D = signals_okD [OF assms(1)]
  have current: "jget (fallback_signals s) ?p = Some i" using D(3) True by simp
  then have live: "\<not> transport_disposed s" using assms(2) by (auto simp: quiet_after_def)
  let ?d = "\<lparr>send_peer = ?p, send_signal = i, send_capture = signal_capture (signals s ! i), close_after = False\<rparr>"
  have peer: "signal_peer (?ss ! k) = signal_peer (signals s ! k)" for k using True by (cases "k = i") simp_all
  have retry: "retry (?ss ! k) = (k \<noteq> i \<and> retry (signals s ! k))" for k using True by (cases "k = i") simp_all
  have way: "retry (?ss ! k) \<or> (\<exists>t. Some t \<in> set (sends s @ [Some ?d]) \<and> send_signal t = k)"
    if "jget (fallback_signals s) q = Some k" for q k
  proof (cases "k = i")
    case False
    with D(2) [OF that] retry [of k] show ?thesis by auto
  next
    case True
    then have "Some ?d \<in> set (sends s @ [Some ?d]) \<and> send_signal ?d = k" by simp
    then show ?thesis by blast
  qed
  have "signals_ok (s\<lparr>signals := ?ss, sends := sends s @ [Some ?d]\<rparr>)"
    unfolding signals_ok_def
  proof (intro conjI allI impI)
    fix q k assume "jget (fallback_signals (s\<lparr>signals := ?ss, sends := sends s @ [Some ?d]\<rparr>)) q = Some k"
    then have q: "jget (fallback_signals s) q = Some k" by simp
    show "retry (signals (s\<lparr>signals := ?ss, sends := sends s @ [Some ?d]\<rparr>) ! k) \<or>
        (\<exists>t. Some t \<in> set (sends (s\<lparr>signals := ?ss, sends := sends s @ [Some ?d]\<rparr>)) \<and> send_signal t = k)"
      using way [OF q] by simp
    show "k < length (signals (s\<lparr>signals := ?ss, sends := sends s @ [Some ?d]\<rparr>))"
      "signal_peer (signals (s\<lparr>signals := ?ss, sends := sends s @ [Some ?d]\<rparr>) ! k) = q"
      using D(1) [OF q] peer by simp_all
  qed (use D(3,4) True peer retry in auto)
  moreover have "retry_fires i s = effect (Fallback_sent ?p i) (s\<lparr>signals := ?ss, sends := sends s @ [Some ?d]\<rparr>)"
    using True live current by (simp add: retry_fires_def start_send_def effect_def Let_def)
  ultimately show ?thesis by simp
qed (use assms in \<open>auto simp: retry_fires_def\<close>)

section \<open>Waiting candidates, and after disposal\<close>

definition pending_ok :: "native_receivers \<Rightarrow> bool" where
  "pending_ok s \<longleftrightarrow> distinct (jkeys (pending_candidates s)) \<and> length (pending_candidates s) \<le> 16 \<and>
     list_all (\<lambda>(p, c, as). length as \<le> 256) (pending_candidates s)"

lemma pending_ok_simps [simp]:
  "pending_ok (effect e s) = pending_ok s" "pending_ok (set_object k f s) = pending_ok s" "pending_ok (cancel_fallback_signal p c s) = pending_ok s"
  "pending_ok (set_offer j ph s) = pending_ok s" "pending_ok (receiver_connected p d s) = pending_ok s"
  "pending_ok (s\<lparr>offers := x1\<rparr>) = pending_ok s" "pending_ok (s\<lparr>receivers := x2\<rparr>) = pending_ok s" "pending_ok (s\<lparr>objects := x3\<rparr>) = pending_ok s"
  "pending_ok (s\<lparr>signals := x4\<rparr>) = pending_ok s" "pending_ok (s\<lparr>sends := x5\<rparr>) = pending_ok s" "pending_ok (s\<lparr>stats := x6\<rparr>) = pending_ok s"
  "pending_ok (s\<lparr>fallback_signals := x7\<rparr>) = pending_ok s" "pending_ok (s\<lparr>transport_disposed := x8\<rparr>) = pending_ok s"
  by (simp_all add: pending_ok_def)

lemma pending_ok_jdel [simp]: "pending_ok s \<Longrightarrow> pending_ok (s\<lparr>pending_candidates := jdel (pending_candidates s) p\<rparr>)"
  using length_jdel [of "pending_candidates s" p] by (simp add: pending_ok_def list_all_jdel)

lemma pending_ok_drop [simp]: "pending_ok s \<Longrightarrow> pending_ok (drop_receiver p k s)"
  using pending_ok_jdel [of s p] by (simp add: drop_receiver_def pending_ok_def)

lemma pending_ok_close [simp]: "pending_ok s \<Longrightarrow> pending_ok (close_receiver p c b s)"
  by (simp add: close_receiver_def split: option.split)

lemma pending_ok_send [simp]: "pending_ok (start_send p i b s) = pending_ok s"
  by (simp add: start_send_def)

lemma pending_ok_request [simp]: "pending_ok (send_request p c k b now s) = pending_ok s"
  by (simp add: send_request_def Let_def)

lemma pending_ok_fallback [simp]: "pending_ok (request_receiver_fallback p c reason now s) = pending_ok s"
  by (simp add: request_receiver_fallback_def split: option.split)

lemma pending_ok_proceeds: "pending_ok s \<Longrightarrow> pending_ok (offer_proceeds j ok s)"
  using pending_ok_jdel [of s "offer_peer (offers s ! j)"]
  by (simp add: offer_proceeds_def abandon_offer_def add_candidates_def thrown_def watch_receiver_def pending_ok_def Let_def
      split: option.split offer_phase.split list.split prod.split)

lemma length_jset_le: "length (jset m k v) \<le> (if jget m k = None then Suc (length m) else length m)"
  by (induction m k v rule: jset.induct) auto

lemma pending_ok_set:
  assumes "pending_ok s" "length as \<le> 256" "jget (pending_candidates s) p = None \<Longrightarrow> length (pending_candidates s) < 16"
  shows "pending_ok (s\<lparr>pending_candidates := jset (pending_candidates s) p (c, as)\<rparr>)"
  using assms length_jset_le [of "pending_candidates s" p "(c, as)"]
  by (auto simp: pending_ok_def intro!: list_all_jset split: if_splits)

lemma pending_ok_candidate: "pending_ok s \<Longrightarrow> pending_ok (handle_candidate sending p c a s)"
proof -
  assume s: "pending_ok s"
  have "length as \<le> 256" if "jget (pending_candidates s) p = Some (d, as)" for d as
    using s list_all_jget [of _ "pending_candidates s" p "(d, as)"] that by (auto simp: pending_ok_def)
  with s show ?thesis
    by (auto simp: handle_candidate_def thrown_def Let_def intro!: pending_ok_set split: option.split)
qed

text \<open>Nothing comes to a transport that was disposed of.\<close>

lemma quiet_simps [simp]:
  "quiet_after (effect e s) = quiet_after s" "quiet_after (set_object k f s) = quiet_after s" "quiet_after (set_offer j ph s) = quiet_after s"
  "quiet_after (s\<lparr>offers := x1\<rparr>) = quiet_after s" "quiet_after (s\<lparr>objects := x2\<rparr>) = quiet_after s"
  "quiet_after (s\<lparr>signals := x3\<rparr>) = quiet_after s" "quiet_after (s\<lparr>sends := x4\<rparr>) = quiet_after s" "quiet_after (s\<lparr>stats := x5\<rparr>) = quiet_after s"
  "quiet_after (receiver_connected p d s) = quiet_after s" "quiet_after (start_send p i b s) = quiet_after s"
  by (simp_all add: quiet_after_def start_send_def)

lemma quiet_cancel [simp]: "quiet_after s \<Longrightarrow> quiet_after (cancel_fallback_signal p c s)"
  by (auto simp: quiet_after_def cancel_fallback_signal_def split: option.split)

lemma quiet_drop [simp]: "quiet_after s \<Longrightarrow> quiet_after (drop_receiver p k s)"
  by (auto simp: quiet_after_def drop_receiver_def jdel_def)

lemma receivers_quiet_close [simp]: "quiet_after s \<Longrightarrow> quiet_after (close_receiver p c b s)"
  by (simp add: close_receiver_def split: option.split)

lemma quiet_request: "quiet_after s \<Longrightarrow> jget (receivers s) p = Some k \<Longrightarrow> quiet_after (send_request q c k b now s)"
  by (auto simp: quiet_after_def send_request_def start_send_def Let_def)

lemma quiet_fallback [simp]: "quiet_after s \<Longrightarrow> quiet_after (request_receiver_fallback p c reason now s)"
  by (auto simp: request_receiver_fallback_def quiet_request split: option.split)

lemma quiet_stats: "quiet_after s \<Longrightarrow> quiet_after (stats_answer j report now s)"
proof -
  assume s: "quiet_after s"
  have "quiet_after (health_answer t v now (s\<lparr>stats := x\<rparr>))" for t v x
    using s by (simp add: health_answer_def Let_def split: prod.split verdict.split)
  moreover have "quiet_after (send_request q c k b now (s\<lparr>stats := x\<rparr>))" if "jget (receivers s) p = Some k" for p q c k b x
    using s that quiet_request [of "s\<lparr>stats := x\<rparr>" p k] by simp
  ultimately show ?thesis using s by (simp add: stats_answer_def Let_def split: option.split)
qed

lemma quiet_settles: "quiet_after s \<Longrightarrow> quiet_after (send_settles j ok now s)"
  by (simp add: send_settles_def Let_def split: option.split)

lemma quiet_proceeds: "quiet_after s \<Longrightarrow> quiet_after (offer_proceeds j ok s)"
proof -
  assume s: "quiet_after s"
  have add: "quiet_after (add_candidates j cs t)" if "quiet_after t" for cs t
    using that by (simp add: add_candidates_def split: list.split)
  have del: "quiet_after (t\<lparr>pending_candidates := jdel (pending_candidates t) p\<rparr>)" if "quiet_after t" for t p
    using that by (simp add: quiet_after_def jdel_def)
  have "quiet_after (watch_receiver j s)" using s by (simp add: watch_receiver_def Let_def)
  with s show ?thesis
    using add [OF del [of "set_object (offer_object (offers s ! j)) (\<lambda>r. r\<lparr>remote_set := True\<rparr>) s"]]
    by (simp add: offer_proceeds_def abandon_offer_def thrown_def add Let_def split: option.split offer_phase.split prod.split)
qed

lemma quiet_candidate: "quiet_after s \<Longrightarrow> quiet_after (handle_candidate sending p c a s)"
  by (simp add: handle_candidate_def thrown_def quiet_after_def Let_def split: option.split)

lemma quiet_offer: "quiet_after s \<Longrightarrow> quiet_after (handle_offer supported p c sdp s)"
proof -
  assume s: "quiet_after s"
  have "transport_disposed (close_receiver p None False (cancel_fallback_signal p None s)) = transport_disposed s"
    by (simp add: close_receiver_def drop_receiver_def split: option.split)
  with s show ?thesis by (auto simp: handle_offer_def thrown_def quiet_after_def Let_def)
qed

section \<open>Every step keeps the invariant\<close>

definition receiver_inv :: "native_receivers \<Rightarrow> bool" where
  "receiver_inv s \<longleftrightarrow> recv_ok s \<and> offers_ok s \<and> signals_ok s \<and> pending_ok s \<and> quiet_after s"

lemma receiver_inv_close [simp]: "receiver_inv s \<Longrightarrow> receiver_inv (close_receiver p c b s)"
  by (simp add: receiver_inv_def)

lemma receiver_inv_cancel [simp]: "receiver_inv s \<Longrightarrow> receiver_inv (cancel_fallback_signal p c s)"
  by (simp add: receiver_inv_def)

lemma receiver_inv_fallback [simp]: "receiver_inv s \<Longrightarrow> receiver_inv (request_receiver_fallback p c reason now s)"
  by (simp add: receiver_inv_def)

lemma receiver_inv_stats_set [simp]: "receiver_inv (s\<lparr>stats := x\<rparr>) = receiver_inv s"
  by (simp add: receiver_inv_def)

lemma receiver_inv_object:
  assumes "receiver_inv s" "k < length (objects s)" "receiver_peer (f (objects s ! k)) = receiver_peer (objects s ! k)"
    "capture (f (objects s ! k)) = capture (objects s ! k)" "pc_open (f (objects s ! k)) = pc_open (objects s ! k)"
    "armed (f (objects s ! k)) \<Longrightarrow> armed (objects s ! k)" "looked_after (objects s ! k) \<Longrightarrow> looked_after (f (objects s ! k))"
  shows "receiver_inv (set_object k f s)"
  using assms recv_ok_object [of s k f] offers_ok_object [of s k f] by (simp add: receiver_inv_def)

lemma receiver_inv_changes:
  assumes "receiver_inv s" "k < length (objects s)"
  shows "receiver_inv (connection_changes k up down now s)"
proof -
  have "receiver_inv (set_object k (\<lambda>r. r\<lparr>pc_connected := b\<rparr>) s)" for b
    by (rule receiver_inv_object [OF assms]) (simp_all add: armed_def looked_after_def)
  moreover have "receiver_inv (receiver_connected p c t)" if "receiver_inv t" for p c t
    using that by (simp add: receiver_inv_def)
  ultimately show ?thesis using assms(1) by (simp add: connection_changes_def Let_def)
qed

lemma receiver_inv_timer:
  assumes "receiver_inv s" "k < length (objects s)"
  shows "receiver_inv (fallback_timer_fires k now s)" "receiver_inv (health_timer_fires k s)"
proof -
  have "receiver_inv (set_object k (\<lambda>r. r\<lparr>fallback_timer := None\<rparr>) s)"
    by (rule receiver_inv_object [OF assms]) (simp_all add: armed_def looked_after_def)
  with assms(1) show "receiver_inv (fallback_timer_fires k now s)" by (simp add: fallback_timer_fires_def Let_def split: option.split)
  show "receiver_inv (health_timer_fires k s)"
    using assms(1) by (simp add: health_timer_fires_def check_receiver_health_def Let_def split: option.split)
qed

text \<open>Closing every receiver, and cancelling every request.\<close>

lemma close_forgets: "jget (receivers (close_receiver p None b s)) q = (if q = p then None else jget (receivers s) q)"
  by (auto simp: close_receiver_def drop_receiver_def split: option.split)

lemma close_all: "jget (receivers (foldl (\<lambda>s p. close_receiver p None b s) s ps)) q = (if q \<in> set ps then None else jget (receivers s) q)"
  by (induction ps arbitrary: s) (auto simp: close_forgets)

lemma cancel_forgets: "jget (fallback_signals (cancel_fallback_signal p None s)) q = (if q = p then None else jget (fallback_signals s) q)"
  by (auto simp: cancel_fallback_signal_def split: option.split)

lemma cancel_all: "jget (fallback_signals (foldl (\<lambda>s p. cancel_fallback_signal p None s) s ps)) q =
    (if q \<in> set ps then None else jget (fallback_signals s) q)"
  by (induction ps arbitrary: s) (auto simp: cancel_forgets)

lemma jget_all_None: "(\<And>k. jget m k = None) \<Longrightarrow> m = []"
  by (cases m) (auto simp: jget_def split: if_splits, metis option.distinct(1))

lemma cancel_all_receivers: "receivers (foldl (\<lambda>s p. cancel_fallback_signal p None s) s ps) = receivers s"
  by (induction ps arbitrary: s) simp_all

lemma receiver_inv_dispose:
  assumes "receiver_inv s"
  shows "receiver_inv (dispose_receivers s)"
proof -
  define t where "t = foldl (\<lambda>s p. close_receiver p None False s) (s\<lparr>transport_disposed := True\<rparr>) (jkeys (receivers s))"
  define u where "u = foldl (\<lambda>s p. cancel_fallback_signal p None s) t (jkeys (fallback_signals t))"
  have d: "dispose_receivers s = u\<lparr>pending_candidates := []\<rparr>" by (simp add: dispose_receivers_def t_def u_def Let_def)
  have t: "recv_ok t \<and> offers_ok t \<and> signals_ok t" unfolding t_def
    by (rule foldl_keeps) (use assms in \<open>auto simp: receiver_inv_def\<close>)
  have u: "recv_ok u \<and> offers_ok u \<and> signals_ok u" unfolding u_def
    by (rule foldl_keeps) (use t in auto)
  have "receivers t = []" by (rule jget_all_None) (auto simp: t_def close_all jget_None_iff)
  then have "receivers u = []" by (simp add: u_def cancel_all_receivers)
  moreover have "fallback_signals u = []" by (rule jget_all_None) (auto simp: u_def cancel_all jget_None_iff)
  ultimately show ?thesis using u by (simp add: d receiver_inv_def pending_ok_def quiet_after_def)
qed

lemma receiver_inv_remove: "receiver_inv s \<Longrightarrow> receiver_inv (remove_receiver p s)"
proof -
  assume "receiver_inv s"
  then have "receiver_inv (close_receiver p None False (cancel_fallback_signal p None s))" (is "receiver_inv ?t") by simp
  then show ?thesis using pending_ok_jdel [of ?t p]
    by (simp add: remove_receiver_def receiver_inv_def quiet_after_def jdel_def Let_def)
qed

lemma receiver_inv_candidate:
  assumes "receiver_inv s"
  shows "receiver_inv (handle_candidate sending p c a s)"
proof -
  have "recv_ok (handle_candidate sending p c a s) \<and> offers_ok (handle_candidate sending p c a s) \<and> signals_ok (handle_candidate sending p c a s)"
    using assms by (simp add: handle_candidate_def thrown_def receiver_inv_def Let_def split: option.split prod.split)
  with assms show ?thesis by (simp add: receiver_inv_def pending_ok_candidate quiet_candidate)
qed

lemma signals_ok_proceeds: "signals_ok s \<Longrightarrow> signals_ok (offer_proceeds j ok s)"
  by (simp add: offer_proceeds_def abandon_offer_def add_candidates_def thrown_def watch_receiver_def Let_def
      split: option.split offer_phase.split list.split prod.split)

lemma receiver_inv_offer: "receiver_inv s \<Longrightarrow> receiver_inv (handle_offer supported p c sdp s)"
  unfolding receiver_inv_def
  by (auto simp: recv_ok_offer offers_ok_offer quiet_offer) (simp_all add: handle_offer_def thrown_def Let_def)

lemma receiver_inv_step: "receiver_inv s \<Longrightarrow> receiver_inv (receiver_step supported s e)"
proof (cases e)
  case (Offer_proceeds j ok)
  assume "receiver_inv s"
  with Offer_proceeds show ?thesis
    by (simp add: receiver_inv_def offer_proceeds_ok signals_ok_proceeds pending_ok_proceeds quiet_proceeds)
next
  case (Stats_answer j report now)
  assume s: "receiver_inv s"
  have "pending_ok (stats_answer j report now s)"
    using s by (simp add: stats_answer_def health_answer_def receiver_inv_def Let_def split: option.split prod.split verdict.split)
  with s Stats_answer show ?thesis by (simp add: receiver_inv_def recv_ok_stats offers_ok_stats signals_ok_stats quiet_stats)
next
  case (Send_settles j ok now)
  assume s: "receiver_inv s"
  have "pending_ok (send_settles j ok now s)"
    using s by (simp add: send_settles_def receiver_inv_def Let_def split: option.split)
  with s Send_settles show ?thesis by (simp add: receiver_inv_def recv_ok_settles offers_ok_settles signals_ok_settles quiet_settles)
next
  case (Retry_fires i)
  assume s: "receiver_inv s"
  then have "pending_ok (retry_fires i s)" "quiet_after (retry_fires i s)" by (simp_all add: retry_fires_def receiver_inv_def Let_def)
  with s Retry_fires show ?thesis by (simp add: receiver_inv_def recv_ok_retry offers_ok_retry signals_ok_retry)
next
  case (Track_received k)
  assume "receiver_inv s"
  with Track_received show ?thesis by (simp add: track_received_def receiver_inv_def)
next
  case (Fallback_finished p)
  assume s: "receiver_inv s"
  have "pending_ok (finish_receiver_fallback p s)" "quiet_after (finish_receiver_fallback p s)"
    using s by (simp_all add: finish_receiver_fallback_def receiver_inv_def split: option.split)
  with s Fallback_finished show ?thesis by (simp add: receiver_inv_def)
qed (simp_all add: receiver_inv_offer receiver_inv_candidate receiver_inv_changes receiver_inv_timer receiver_inv_dispose receiver_inv_remove
    track_ended_def share_stopped_def)

interpretation native_shares: event_machine "receiver_step supported" receiver_inv for supported
  by unfold_locales (rule receiver_inv_step)

lemma receiver_inv_new: "receiver_inv (no_receivers direct close)"
  by (simp add: receiver_inv_def recv_ok_def offers_ok_def signals_ok_def pending_ok_def quiet_after_def no_receivers_def)

section \<open>The verdicts over a stream\<close>

fun verdicts :: "receiver \<Rightarrow> health_sample list \<Rightarrow> verdict list" where
  "verdicts r [] = []"
| "verdicts r (x # xs) = (let (r, v) = judge x r in v # verdicts r xs)"

fun judged :: "receiver \<Rightarrow> health_sample list \<Rightarrow> receiver" where
  "judged r [] = r"
| "judged r (x # xs) = judged (fst (judge x r)) xs"

text \<open>A window in which the video moves on, and at most a twentieth is lost and a quarter frozen.\<close>

definition good_window :: "health_sample \<Rightarrow> health_sample \<Rightarrow> bool" where
  "good_window y x \<longleftrightarrow> progress x > progress y \<and>
     20 * max 0 (lost x - lost y) \<le> max 0 (lost x - lost y) + max 0 (received x - received y) \<and> frozen_ms x - frozen_ms y \<le> 500"

definition dead_window :: "health_sample \<Rightarrow> health_sample \<Rightarrow> bool" where
  "dead_window y x \<longleftrightarrow> progress x \<le> progress y"

fun windows :: "health_sample list \<Rightarrow> (health_sample \<times> health_sample) list" where
  "windows (y # x # xs) = (y, x) # windows (x # xs)"
| "windows _ = []"

lemma loss_bound: "0 < l + n \<Longrightarrow> 20 * l \<le> l + n \<Longrightarrow> \<not> l / (l + n) > 5 / (100 :: real)"
  by (simp add: not_less divide_le_eq)

lemma judge_good:
  assumes "health r = Some y" "good_window y x" "bad_windows r = 0"
  shows "snd (judge x r) = Fine" "health (fst (judge x r)) = Some x" "bad_windows (fst (judge x r)) = 0"
proof -
  let ?l = "max 0 (lost x - lost y)" and ?n = "max 0 (received x - received y)"
  have "\<not> ?l / (?l + ?n) > 5 / 100" if "100 \<le> ?l + ?n"
  proof -
    have "0 < ?l + ?n" "20 * ?l \<le> ?l + ?n" using that assms(2) by (simp_all add: good_window_def)
    then show ?thesis by (rule loss_bound)
  qed
  moreover have "\<not> max 0 (frozen_ms x - frozen_ms y) / 2000 > 25 / 100"
    using assms(2) by (simp add: good_window_def not_less max_def)
  ultimately have "\<not> bad_window y x" if "100 \<le> ?l + ?n" using that unfolding bad_window_def Let_def by blast
  moreover have "progress y < progress x" using assms(2) by (simp add: good_window_def)
  ultimately show "snd (judge x r) = Fine" "health (fst (judge x r)) = Some x" "bad_windows (fst (judge x r)) = 0"
    using assms(1,3) by (simp_all add: judge_def Let_def not_less)
qed

lemma verdicts_good:
  assumes "health r = Some y" "bad_windows r = 0" "list_all (\<lambda>(y, x). good_window y x) (windows (y # xs))"
  shows "list_all (\<lambda>v. v = Fine) (verdicts r xs)"
  using assms
proof (induction xs arbitrary: r y)
  case (Cons x xs)
  have "good_window y x" "list_all (\<lambda>(y, x). good_window y x) (windows (x # xs))" using Cons.prems(3) by simp_all
  note J = judge_good [OF Cons.prems(1) this(1) Cons.prems(2)] and rest = this(2)
  have "list_all (\<lambda>v. v = Fine) (verdicts (fst (judge x r)) xs)" by (rule Cons.IH [OF J(2,3) rest])
  with J(1) show ?case by (simp add: case_prod_beta Let_def)
qed simp

lemma judge_dead:
  assumes "health r = Some y" "dead_window y x"
  shows "health (fst (judge x r)) = Some x" "stalled_windows (fst (judge x r)) = Suc (stalled_windows r)"
    "2 \<le> stalled_windows r \<Longrightarrow> snd (judge x r) = Stalled"
  using assms by (auto simp: judge_def dead_window_def Let_def)

lemma judge_health: "health (fst (judge x r)) = Some x"
  by (auto simp: judge_def Let_def split: option.split)

lemma verdicts_append: "verdicts r (xs @ ys) = verdicts r xs @ verdicts (judged r xs) ys"
  by (induction xs arbitrary: r) (simp_all add: case_prod_beta Let_def)

text \<open>A share that is being watched, and one whose connection has failed.\<close>

definition everything :: "h264_profile \<Rightarrow> bool" where
  "everything pr = True"

definition watched_share :: native_receivers where
  "watched_share = foldl (receiver_step everything) (no_receivers False False)
     [Offer ''b'' ''c'' None, Candidate None ''b'' ''c'' None, Offer_proceeds 0 True, Offer_proceeds 0 True, Offer_proceeds 0 True, Offer_proceeds 0 True]"

lemmas receiver_eval = no_receivers_def handle_offer_def offered_native_profile_def close_receiver_def cancel_fallback_signal_def new_receiver_def
  handle_candidate_def offer_proceeds_def is_current_def set_object_def set_offer_def add_candidates_def effect_def watch_receiver_def
  thrown_def jdel_def everything_def connection_changes_def receiver_connected_def request_receiver_fallback_def send_request_def start_send_def

lemma watched_share_eval:
  "receivers watched_share = [(''b'', 0)]" "map offer_phase (offers watched_share) = [Answered]" "length (objects watched_share) = 1"
  unfolding watched_share_def by (simp_all add: receiver_eval Let_def)

definition failed_share :: native_receivers where
  "failed_share = foldl (receiver_step everything) (no_receivers False False) [Offer ''b'' ''c'' None, Connection_changes 0 False True 100]"

lemma failed_share_eval: "fallback_signals failed_share = [(''b'', 0)]"
  unfolding failed_share_def by (simp add: receiver_eval Let_def)

definition closed_transport :: native_receivers where
  "closed_transport = foldl (receiver_step everything) (no_receivers False False) [Offer ''b'' ''c'' None, Disposed]"

lemma closed_transport_eval: "transport_disposed closed_transport"
  unfolding closed_transport_def by (simp add: dispose_receivers_def receiver_eval drop_receiver_def Let_def)

section \<open>Guarantees\<close>

text \<open>
  A native share that flows is left alone and one that stands still is given up: as long as
  every window brings new video, loses at most a twentieth and freezes at most a quarter, no
  window asks for the fallback; and whatever came before, the third window in a row without new
  video does.
\<close>

theorem health_judges_rightly:
  "(list_all (\<lambda>(y, x). good_window y x) (windows (x # xs)) \<longrightarrow> list_all (\<lambda>v. v = Fine) (verdicts (new_receiver p c) (x # xs))) \<and>
   (dead_window a b \<and> dead_window b d \<and> dead_window d e \<longrightarrow> last (verdicts (new_receiver p c) (history @ [a, b, d, e])) = Stalled)"
proof (intro conjI impI)
  assume good: "list_all (\<lambda>(y, x). good_window y x) (windows (x # xs))"
  have first: "judge x (new_receiver p c) = ((new_receiver p c)\<lparr>health := Some x\<rparr>, Fine)" by (simp add: judge_def new_receiver_def)
  have "list_all (\<lambda>v. v = Fine) (verdicts ((new_receiver p c)\<lparr>health := Some x\<rparr>) xs)"
    by (rule verdicts_good [OF _ _ good]) (simp_all add: new_receiver_def)
  then show "list_all (\<lambda>v. v = Fine) (verdicts (new_receiver p c) (x # xs))" by (simp add: first)
next
  assume dead: "dead_window a b \<and> dead_window b d \<and> dead_window d e"
  define r where "r = fst (judge a (judged (new_receiver p c) history))"
  have h: "health r = Some a" by (simp add: r_def judge_health)
  define q where "q = fst (judge b r)"
  have q: "health q = Some b" "1 \<le> stalled_windows q" using judge_dead [OF h, of b] dead by (simp_all add: q_def)
  define o' where "o' = fst (judge d q)"
  have o': "health o' = Some d" "2 \<le> stalled_windows o'" using judge_dead [OF q(1), of d] q(2) dead by (simp_all add: o'_def)
  have "snd (judge e o') = Stalled" by (rule judge_dead(3) [OF o'(1) _ o'(2)]) (use dead in simp)
  then show "last (verdicts (new_receiver p c) (history @ [a, b, d, e])) = Stalled"
    by (simp add: verdicts_append case_prod_beta Let_def r_def [symmetric] q_def [symmetric] o'_def [symmetric])
qed

theorem health_judges_rightly_witness:
  "last (verdicts (new_receiver ''p'' ''c'')
     (replicate 4 \<lparr>lost = 0, received = 50, frozen_ms = 0, progress = 7\<rparr>)) = Stalled"
  using health_judges_rightly [of undefined "[]" "''p''" "''c''" "\<lparr>lost = 0, received = 50, frozen_ms = 0, progress = 7\<rparr>"
      "\<lparr>lost = 0, received = 50, frozen_ms = 0, progress = 7\<rparr>" "\<lparr>lost = 0, received = 50, frozen_ms = 0, progress = 7\<rparr>"
      "\<lparr>lost = 0, received = 50, frozen_ms = 0, progress = 7\<rparr>" "[]"]
  by (simp add: dead_window_def numeral_eq_Suc)

text \<open>
  C10. Nobody watches a black picture unnoticed: once the answer to a share has been sent, its
  receiver is either checked at every interval or has asked for the fallback, as long as it is
  the receiver of that participant.
\<close>

theorem answered_shares_are_watched:
  assumes "s = foldl (receiver_step supported) (no_receivers direct close) es" "jget (receivers s) p = Some k"
  shows "offer_phase (offers s ! k) \<noteq> Abandoned \<and>
    (offer_phase (offers s ! k) = Answered \<longrightarrow> health_timer (objects s ! k) \<or> fallback_requested (objects s ! k))"
proof -
  have inv: "receiver_inv s" unfolding assms(1) by (rule native_shares.run_inv [OF receiver_inv_new])
  then have R: "recv_ok s" "offers_ok s" by (simp_all add: receiver_inv_def)
  have k: "k < length (objects s)" "in_use s k" using recv_okD(3) [OF R(1) assms(2)] assms(2) by (simp_all add: in_use_def)
  then have "offer_ok s k" using R(2) by (simp add: offers_ok_def)
  with k(2) show ?thesis by (auto simp: offer_ok_def looked_after_def)
qed

theorem answered_shares_are_watched_witness:
  "health_timer (objects watched_share ! 0) \<or> fallback_requested (objects watched_share ! 0)"
proof -
  have "length (offers watched_share) = 1" using arg_cong [OF watched_share_eval(2), of length] by simp
  then have "offer_phase (offers watched_share ! 0) = Answered" using watched_share_eval(2) by (cases "offers watched_share") simp_all
  with answered_shares_are_watched [OF watched_share_def, of "''b''" 0] show ?thesis by (simp add: watched_share_eval)
qed

text \<open>
  C11. A request for the fallback comes to an end: while it is pending it is being sent or its
  retry is set, and a send that fails after the deadline closes the receiver and reports the end
  of the share instead of trying again.
\<close>

theorem fallback_requests_end:
  assumes "s = foldl (receiver_step supported) (no_receivers direct close) es" "jget (fallback_signals s) p = Some i"
  shows "(retry (signals s ! i) \<or> (\<exists>t. Some t \<in> set (sends s) \<and> send_signal t = i)) \<and>
    (\<forall>j t now. j < length (sends s) \<and> sends s ! j = Some t \<and> send_signal t = i \<and> deadline (signals s ! i) \<le> now \<longrightarrow>
      jget (fallback_signals (send_settles j False now s)) p = None \<and>
      Capture_ended \<in> set (receiver_effects (send_settles j False now s)))"
proof -
  have "receiver_inv s" unfolding assms(1) by (rule native_shares.run_inv [OF receiver_inv_new])
  then have S: "signals_ok s" "quiet_after s" by (simp_all add: receiver_inv_def)
  have live: "\<not> transport_disposed s" using S(2) assms(2) by (auto simp: quiet_after_def)
  have closing: "fallback_signals (close_receiver q c b u) = fallback_signals u \<or> fallback_signals (close_receiver q c b u) = fallback_signals (cancel_fallback_signal q c u)"
    "set (receiver_effects u) \<subseteq> set (receiver_effects (close_receiver q c b u))" for q c b u
    by (auto simp: close_receiver_def drop_receiver_def split: option.split)
  have gone: "jget (fallback_signals (close_receiver q c b u)) q = None" if "jget (fallback_signals u) q = None" for q c b u
    using closing(1) [of q c b u] that by (auto simp: cancel_fallback_signal_def split: option.split)
  have "jget (fallback_signals (send_settles j False now s)) p = None \<and> Capture_ended \<in> set (receiver_effects (send_settles j False now s))"
    if "j < length (sends s)" "sends s ! j = Some t" "send_signal t = i" "deadline (signals s ! i) \<le> now" for j t now
  proof -
    have peer: "send_peer t = p"
      using signals_okD(4) [OF S(1), of t] signals_okD(1) [OF S(1) assms(2)] that(1-3) nth_mem [OF that(1)] by simp
    define u where "u = effect Capture_ended (close_receiver p (Some (send_capture t)) False (cancel_fallback_signal p None (s\<lparr>sends := (sends s)[j := None]\<rparr>)))"
    have u: "jget (fallback_signals u) p = None" "Capture_ended \<in> set (receiver_effects u)" by (simp_all add: u_def gone)
    have "send_settles j False now s = (if close_after t then close_receiver p (Some (send_capture t)) True u else u)"
      using that live assms(2) peer by (simp add: send_settles_def u_def Let_def)
    with u gone closing(2) [of u p "Some (send_capture t)" True] show ?thesis by auto
  qed
  with signals_okD(2) [OF S(1) assms(2)] show ?thesis by blast
qed

theorem fallback_requests_end_witness:
  "retry (signals failed_share ! 0) \<or> (\<exists>t. Some t \<in> set (sends failed_share) \<and> send_signal t = 0)"
  by (rule conjunct1 [OF fallback_requests_end [OF failed_share_def, of "''b''"]]) (simp add: failed_share_eval)

text \<open>
  A disposed transport is quiet: no receiver is left, no timer of any receiver and no retry
  is set, and no candidate waits.
\<close>

theorem disposed_transport_is_quiet:
  assumes "s = foldl (receiver_step supported) (no_receivers direct close) es" "transport_disposed s"
  shows "receivers s = [] \<and> pending_candidates s = [] \<and> list_all (\<lambda>r. fallback_timer r = None \<and> \<not> health_timer r) (objects s) \<and>
    list_all (\<lambda>x. \<not> retry x) (signals s)"
proof -
  have inv: "receiver_inv s" unfolding assms(1) by (rule native_shares.run_inv [OF receiver_inv_new])
  then have q: "receivers s = []" "pending_candidates s = []" "fallback_signals s = []"
    using assms(2) by (simp_all add: receiver_inv_def quiet_after_def)
  have "\<not> armed (objects s ! k)" if "k < length (objects s)" for k
    using inv that q(1) recv_okD(4) [of s k] by (auto simp: receiver_inv_def)
  moreover have "\<not> retry (signals s ! i)" if "i < length (signals s)" for i
    using inv that q(3) signals_okD(3) [of s i] by (auto simp: receiver_inv_def)
  ultimately show ?thesis using q by (auto simp: list_all_length armed_def)
qed

theorem disposed_transport_is_quiet_witness: "list_all (\<lambda>r. fallback_timer r = None \<and> \<not> health_timer r) (objects closed_transport)"
  using disposed_transport_is_quiet [OF closed_transport_def closed_transport_eval] by blast

text \<open>
  What a sender can make a viewer keep is bounded: at most sixteen receivers, and for at
  most sixteen participants at most 256 candidates that came before their offer.
\<close>

theorem native_receivers_bounded:
  "let s = foldl (receiver_step supported) (no_receivers direct close) es in
     length (receivers s) \<le> 16 \<and> distinct (jkeys (receivers s)) \<and> length (pending_candidates s) \<le> 16 \<and>
     list_all (\<lambda>(p, c, as). length as \<le> 256) (pending_candidates s)"
  using native_shares.run_inv [OF receiver_inv_new, of supported direct close es] recv_okD(1,2)
  by (auto simp: receiver_inv_def pending_ok_def Let_def)

section \<open>What can go wrong\<close>

text \<open>
  An answer that cannot be sent leaves a receiver that nobody watches: it has no timer, and
  nothing will ever ask for the fallback.
\<close>

theorem failed_answer_is_not_watched:
  "let s = foldl (receiver_step everything) (no_receivers False False)
       [Offer ''b'' ''c'' None, Offer_proceeds 0 True, Offer_proceeds 0 True, Offer_proceeds 0 False]
   in receivers s = [(''b'', 0)] \<and> map fallback_timer (objects s) = [None] \<and> map health_timer (objects s) = [False] \<and> fallback_signals s = []"
  by (simp add: receiver_eval Let_def)

text \<open>
  Candidates that come before their offer are kept for it, but not when the participant's
  earlier share is still being received: closing it forgets them.
\<close>

theorem early_candidates_are_lost:
  "let early = [Candidate None ''b'' ''d'' (Some (Some ''host'')), Offer ''b'' ''d'' None, Offer_proceeds n True, Offer_proceeds n True] in
     (n = 0 \<longrightarrow> Candidate_added 0 (Some (Some ''host'')) \<in>
        set (receiver_effects (foldl (receiver_step everything) (no_receivers False False) early))) \<and>
     (n = 1 \<longrightarrow> Candidate_added 1 (Some (Some ''host'')) \<notin>
        set (receiver_effects (foldl (receiver_step everything) (no_receivers False False) (Offer ''b'' ''c'' None # early))) \<and>
        pending_candidates (foldl (receiver_step everything) (no_receivers False False) (Offer ''b'' ''c'' None # early)) = [])"
  by (simp add: receiver_eval drop_receiver_def Let_def)

end
