(* ===== verification/NativeSender.thy ===== *)
theory NativeSender
  imports NativeReceiver
begin

text \<open>
  Sharing a screen from the desktop host: the sending half of \<open>NativeScreenTransport\<close>
  (\<open>media/nativeScreen.ts\<close>). The host captures and encodes; the transport chooses the codec
  profile that every viewer decodes, keeps the viewers, and stops the capture.

  A capture that the host has started is a number (the object \<open>Session\<close>), and so are a question
  for the profiles of participants, a call of \<open>start\<close> with its connection for the preview and a
  call of \<open>addPeer\<close>; the phases of a call are its awaits. A timer is the field that holds its
  handle. What is told to the host, to the participants and to the application is logged.
\<close>

section \<open>Profiles of this browser\<close>

record video_codec =
  mime_type :: string
  fmtp_line :: "string option"

fun split_at :: "char \<Rightarrow> string \<Rightarrow> string list" where
  "split_at d [] = [[]]"
| "split_at d (c # t) =
     (if c = d then [] # split_at d t else case split_at d t of [] \<Rightarrow> [[c]] | u # us \<Rightarrow> (c # u) # us)"

text \<open>The expressions \<open>/(?:^|;)\s*...(?:;|$)/i\<close> look at one parameter between semicolons.\<close>

definition parameters :: "video_codec \<Rightarrow> string list" where
  "parameters c = map (\<lambda>u. map lower (dropWhile js_space u)) (split_at CHR '';'' (nullish (fmtp_line c) []))"

definition native_h264_profile_supported :: "video_codec list \<Rightarrow> h264_profile \<Rightarrow> bool" where
  "native_h264_profile_supported codecs profile =
     (if profile = Baseline then True
      else
        let key = ''profile-level-id='' @ (if profile = Main_profile then ''4d00'' else ''6400'')
        in list_ex (\<lambda>c. map lower (mime_type c) = ''video/h264'' \<and> ''packetization-mode=1'' \<in> set (parameters c) \<and>
             list_ex (\<lambda>u. starts_with u key \<and> length u = length key + 2 \<and> list_all hex_digit (drop (length key) u)) (parameters c)) codecs)"

definition profile_of :: "string \<Rightarrow> h264_profile option" where
  "profile_of t = (if t = ''baseline'' then Some Baseline else if t = ''main'' then Some Main_profile else if t = ''high'' then Some High else None)"

definition js_set :: "'a list \<Rightarrow> 'a list" where
  "js_set xs = foldl (\<lambda>ys x. sadd x ys) [] xs"

section \<open>State\<close>

datatype content_hint = Motion | Detail
datatype runtime = Browser | Desktop

record share_options =
  source_id :: string
  frame_rate :: int
  bitrate_mbps :: real
  content_hint :: "content_hint option"
  requested_profile :: "h264_profile option"

text \<open>A host's capture as the host describes it, and the profile it was started with.\<close>

record host_capture =
  session_id :: string
  session_rate :: int
  session_bitrate :: real
  encoded :: h264_profile

record profile_query =
  query_nonce :: string
  query_peers :: "string list"
  query_replies :: "(string, h264_profile list) jsmap"
  query_timer :: bool
  query_settled :: bool
  query_rejected :: bool

datatype start_phase =
    Stopping
  | Asking_common nat
  | Asking_all nat
  | Capturing
  | Listening nat
  | Preview_offering nat
  | Preview_describing nat
  | Preview_answering nat
  | Sharing
  | Superseded
  | Start_failed

record start_task =
  start_options :: share_options
  start_peers :: "string list"
  start_generation :: nat
  start_profile :: h264_profile
  start_capture :: "nat option"
  start_connection :: bool
  start_phase :: start_phase

datatype add_phase = Asking nat | Offering | Offer_going | Added | Add_returned | Add_failed

record add_task =
  add_peer_id :: string
  add_capture :: nat
  add_generation :: nat
  add_phase :: add_phase

datatype removal_kind = Leaving | Outbound_only | Ending nat | Falling_back

record removal =
  removal_peer :: string
  removal_kind :: removal_kind
  removal_pending :: bool

record probe =
  probe_rest :: "string list"
  probe_found :: "string list"
  probe_query :: "nat option"
  probe_rejected :: bool

record ice_server =
  ice_urls :: "string list"
  ice_rest :: string

datatype share_effect =
    Query_sent string string
  | Reply_sent string string "h264_profile list" runtime
  | Host_start nat h264_profile
  | Host_stop nat
  | Stop_sent string nat
  | Listen nat
  | Unlistened nat
  | Preview_requested nat
  | Preview_answered nat
  | Preview_shown nat
  | Preview_dropped nat
  | Preview_closed nat
  | Preview_gone
  | Share_ended string
  | Pending_cancelled
  | Offer_requested nat string "ice_server list"
  | Share_offered string nat
  | Host_answer nat string
  | Host_candidate nat string
  | Host_remove nat string
  | Host_ice nat "ice_server list"
  | Fallback_wanted string
  | Rejected string

record native_sender =
  share_generation :: nat
  sharing :: "nat option"
  captures :: "host_capture list"
  sender_disposed :: bool
  share_listener :: "nat option"
  share_preview :: "nat option"
  active_profile :: h264_profile
  active_hint :: content_hint
  outbound_peers :: "string list"
  pending_queries :: "(string, nat) jsmap"
  query_objects :: "profile_query list"
  peer_profiles :: "(string, h264_profile list) jsmap"
  peer_runtimes :: "(string, runtime) jsmap"
  ice_servers :: "ice_server list"
  sender_direct_only :: bool
  ice_queue :: "nat list"
  ice_busy :: bool
  starts :: "start_task list"
  adds :: "add_task list"
  removals :: "removal list"
  probes :: "probe list"
  share_effects :: "share_effect list"

text \<open>
  The platform: the codecs of the browser, random identifiers, whether there is a media host,
  and the driver's choices.
\<close>

record share_env =
  codecs :: "video_codec list"
  uuid :: "nat \<Rightarrow> string"
  local_peer :: string
  media_host :: bool
  external_preview :: bool
  cancels_pending :: bool

definition new_sender :: "ice_server list \<Rightarrow> bool \<Rightarrow> native_sender" where
  "new_sender servers direct = \<lparr>share_generation = 0, sharing = None, captures = [], sender_disposed = False, share_listener = None,
     share_preview = None, active_profile = Baseline, active_hint = Detail, outbound_peers = [], pending_queries = [], query_objects = [],
     peer_profiles = [], peer_runtimes = [], ice_servers = servers, sender_direct_only = direct, ice_queue = [], ice_busy = False,
     starts = [], adds = [], removals = [], probes = [], share_effects = []\<rparr>"

abbreviation supports :: "share_env \<Rightarrow> h264_profile \<Rightarrow> bool" where
  "supports env \<equiv> native_h264_profile_supported (codecs env)"

definition share_effect :: "share_effect \<Rightarrow> native_sender \<Rightarrow> native_sender" where
  "share_effect e s = s\<lparr>share_effects := share_effects s @ [e]\<rparr>"

section \<open>Questions for the profiles of participants\<close>

definition finish_query :: "native_sender \<Rightarrow> nat \<Rightarrow> native_sender" where
  "finish_query s q =
     (let x = query_objects s ! q
      in if query_settled x then s
         else s\<lparr>query_objects := (query_objects s)[q := x\<lparr>query_timer := False, query_settled := True\<rparr>],
                pending_queries := jdel (pending_queries s) (query_nonce x)\<rparr>)"

definition finish_profile_queries :: "native_sender \<Rightarrow> native_sender" where
  "finish_profile_queries s = (foldl finish_query s (jvals (pending_queries s)))\<lparr>pending_queries := []\<rparr>"

text \<open>The question that the next call makes is number \<open>length (query_objects s)\<close>.\<close>

definition query_profiles :: "share_env \<Rightarrow> string list \<Rightarrow> native_sender \<Rightarrow> native_sender" where
  "query_profiles env ids s =
     (let q = length (query_objects s); nonce = uuid env q; peers = js_set ids;
          x = \<lparr>query_nonce = nonce, query_peers = peers, query_replies = [], query_timer = False, query_settled = True, query_rejected = False\<rparr>
      in if length ids > 7 then s\<lparr>query_objects := query_objects s @ [x\<lparr>query_rejected := True\<rparr>]\<rparr>
         else if peers = [] then s\<lparr>query_objects := query_objects s @ [x]\<rparr>
         else s\<lparr>query_objects := query_objects s @ [x\<lparr>query_timer := True, query_settled := False\<rparr>],
                pending_queries := jset (pending_queries s) nonce q,
                share_effects := share_effects s @ map (\<lambda>p. Query_sent p nonce) peers\<rparr>)"

definition query_timer_fires :: "nat \<Rightarrow> native_sender \<Rightarrow> native_sender" where
  "query_timer_fires q s = (if query_timer (query_objects s ! q) then finish_query s q else s)"

definition valid_nonce :: "string option \<Rightarrow> bool" where
  "valid_nonce n \<longleftrightarrow> (case n of None \<Rightarrow> False | Some t \<Rightarrow> t \<noteq> [] \<and> length t \<le> 128)"

definition local_profiles :: "share_env \<Rightarrow> h264_profile list" where
  "local_profiles env =
     Baseline # (if supports env Main_profile then [Main_profile] else []) @ (if supports env High then [High] else [])"

definition profile_query_received :: "share_env \<Rightarrow> string \<Rightarrow> string option \<Rightarrow> string option \<Rightarrow> native_sender \<Rightarrow> native_sender" where
  "profile_query_received env p c nonce s =
     (if sender_disposed s \<or> \<not> valid_nonce nonce \<or> c \<noteq> nonce then s
      else share_effect (Reply_sent p (the nonce) (local_profiles env) (if media_host env then Desktop else Browser)) s)"

definition known_profiles :: "string list option \<Rightarrow> h264_profile list" where
  "known_profiles advertised = js_set (List.map_filter profile_of (nullish advertised []))"

definition profile_reply_received ::
    "string \<Rightarrow> string option \<Rightarrow> string option \<Rightarrow> string list option \<Rightarrow> string option \<Rightarrow> native_sender \<Rightarrow> native_sender" where
  "profile_reply_received p c nonce advertised runs s =
     (if sender_disposed s \<or> \<not> valid_nonce nonce then s
      else case jget (pending_queries s) (the nonce) of
          None \<Rightarrow> s
        | Some q \<Rightarrow>
            if p \<notin> set (query_peers (query_objects s ! q)) \<or> c \<noteq> nonce then s
            else
              let profiles = known_profiles advertised;
                  s = s\<lparr>query_objects := (query_objects s)[q := (query_objects s ! q)
                          \<lparr>query_replies := jset (query_replies (query_objects s ! q)) p profiles\<rparr>],
                        peer_profiles := jset (peer_profiles s) p profiles,
                        peer_runtimes := (if runs = Some ''browser'' then jset (peer_runtimes s) p Browser
                          else if runs = Some ''desktop'' then jset (peer_runtimes s) p Desktop else peer_runtimes s)\<rparr>
              in if length (query_replies (query_objects s ! q)) = length (query_peers (query_objects s ! q)) then finish_query s q else s)"

definition best_local_profile :: "share_env \<Rightarrow> h264_profile" where
  "best_local_profile env = (if supports env High then High else if supports env Main_profile then Main_profile else Baseline)"

definition decodes :: "(string, h264_profile list) jsmap \<Rightarrow> h264_profile \<Rightarrow> string \<Rightarrow> bool" where
  "decodes replies profile p \<longleftrightarrow> (case jget replies p of None \<Rightarrow> False | Some ps \<Rightarrow> profile \<in> set ps)"

text \<open>\<open>commonProfile\<close> after the answers have come; its callers pass one to seven participants.\<close>

definition common_profile :: "share_env \<Rightarrow> string list \<Rightarrow> (string, h264_profile list) jsmap \<Rightarrow> h264_profile" where
  "common_profile env peers replies =
     (let fits = (\<lambda>profile. supports env profile \<and> list_all (decodes replies profile) peers)
      in if length replies \<noteq> length peers then Baseline
         else if fits High then High else if fits Main_profile then Main_profile else Baseline)"

section \<open>Stopping\<close>

definition logged :: "share_effect option \<Rightarrow> native_sender \<Rightarrow> native_sender" where
  "logged e s = (case e of None \<Rightarrow> s | Some e \<Rightarrow> share_effect e s)"

definition stop_share :: "share_env \<Rightarrow> native_sender \<Rightarrow> native_sender" where
  "stop_share env s =
     (let s = finish_profile_queries (s\<lparr>share_generation := Suc (share_generation s)\<rparr>);
          session = sharing s;
          s = logged (map_option Unlistened (share_listener s)) (s\<lparr>sharing := None, active_profile := Baseline, active_hint := Detail,
                peer_profiles := [], peer_runtimes := []\<rparr>);
          s = share_effect Preview_gone (logged (map_option Preview_closed (share_preview s)) (s\<lparr>share_listener := None\<rparr>));
          s = s\<lparr>share_preview := None\<rparr>
      in case session of
           None \<Rightarrow> if cancels_pending env then share_effect Pending_cancelled s else s
         | Some k \<Rightarrow> s\<lparr>outbound_peers := [],
               share_effects := share_effects s @ map (\<lambda>p. Stop_sent p k) (outbound_peers s) @ [Host_stop k]\<rparr>)"

definition dispose_sender :: "share_env \<Rightarrow> native_sender \<Rightarrow> native_sender" where
  "dispose_sender env s = finish_profile_queries (stop_share env (s\<lparr>sender_disposed := True\<rparr>))"

section \<open>Starting\<close>

definition set_start :: "nat \<Rightarrow> (start_task \<Rightarrow> start_task) \<Rightarrow> native_sender \<Rightarrow> native_sender" where
  "set_start i f s = s\<lparr>starts := (starts s)[i := f (starts s ! i)]\<rparr>"

definition start_at :: "nat \<Rightarrow> start_phase \<Rightarrow> native_sender \<Rightarrow> native_sender" where
  "start_at i ph s = set_start i (\<lambda>t. t\<lparr>start_phase := ph\<rparr>) s"

definition current_peers :: "share_env \<Rightarrow> string list \<Rightarrow> string list" where
  "current_peers env ids = js_set (filter (\<lambda>p. p \<noteq> local_peer env) ids)"

definition start_fails :: "string \<Rightarrow> nat \<Rightarrow> native_sender \<Rightarrow> native_sender" where
  "start_fails why i s = share_effect (Rejected why) (start_at i Start_failed s)"

definition outdated :: "nat \<Rightarrow> native_sender \<Rightarrow> bool" where
  "outdated i s \<longleftrightarrow> start_generation (starts s ! i) \<noteq> share_generation s"

definition request_capture :: "nat \<Rightarrow> h264_profile \<Rightarrow> native_sender \<Rightarrow> native_sender" where
  "request_capture i profile s = share_effect (Host_start i profile) (set_start i (\<lambda>t. t\<lparr>start_profile := profile, start_phase := Capturing\<rparr>) s)"

definition profile_chosen :: "share_env \<Rightarrow> nat \<Rightarrow> h264_profile \<Rightarrow> native_sender \<Rightarrow> native_sender" where
  "profile_chosen env i profile s =
     (let t = starts s ! i; peers = current_peers env (start_peers t)
      in if outdated i s then start_at i Superseded s
         else if \<not> supports env profile then start_fails ''profile'' i s
         else if requested_profile (start_options t) \<noteq> None \<and> profile \<noteq> Baseline \<and> peers \<noteq> [] then
           query_profiles env peers (set_start i (\<lambda>t. t\<lparr>start_profile := profile, start_phase := Asking_all (length (query_objects s))\<rparr>) s)
         else request_capture i profile s)"

definition begin_start :: "share_env \<Rightarrow> nat \<Rightarrow> native_sender \<Rightarrow> native_sender" where
  "begin_start env i s =
     (let s = s\<lparr>share_generation := Suc (share_generation s)\<rparr>;
          s = set_start i (\<lambda>t. t\<lparr>start_generation := share_generation s\<rparr>) s;
          peers = current_peers env (start_peers (starts s ! i))
      in if length peers > 7 then start_fails ''too-many-peers'' i s
         else case requested_profile (start_options (starts s ! i)) of
             Some profile \<Rightarrow> profile_chosen env i profile s
           | None \<Rightarrow>
               if peers = [] then profile_chosen env i (best_local_profile env) s
               else query_profiles env peers (start_at i (Asking_common (length (query_objects s))) s))"

definition start_share :: "share_env \<Rightarrow> share_options \<Rightarrow> string list \<Rightarrow> native_sender \<Rightarrow> native_sender" where
  "start_share env options ids s =
     (let i = length (starts s);
          t = \<lparr>start_options = options, start_peers = ids, start_generation = 0, start_profile = Baseline, start_capture = None,
               start_connection = False, start_phase = Stopping\<rparr>
      in if sharing s \<noteq> None then (stop_share env s)\<lparr>starts := starts s @ [t]\<rparr>
         else begin_start env i (s\<lparr>starts := starts s @ [t]\<rparr>))"

text \<open>\<open>start\<close> goes on after its own \<open>stop\<close> or after the answers of the participants.\<close>

definition start_resumes :: "share_env \<Rightarrow> nat \<Rightarrow> native_sender \<Rightarrow> native_sender" where
  "start_resumes env i s =
     (let t = starts s ! i in
      case start_phase t of
        Stopping \<Rightarrow> begin_start env i s
      | Asking_common q \<Rightarrow>
          if \<not> query_settled (query_objects s ! q) then s
          else if query_rejected (query_objects s ! q) then start_fails ''too-many-peers'' i s
          else profile_chosen env i (common_profile env (current_peers env (start_peers t)) (query_replies (query_objects s ! q))) s
      | Asking_all q \<Rightarrow>
          if \<not> query_settled (query_objects s ! q) then s
          else if query_rejected (query_objects s ! q) then start_fails ''too-many-peers'' i s
          else if outdated i s then start_at i Superseded s
          else if \<not> list_all (decodes (query_replies (query_objects s ! q)) (start_profile t)) (start_peers t) then start_fails ''participants'' i s
          else request_capture i (start_profile t) s
      | _ \<Rightarrow> s)"

definition capture_answer :: "nat \<Rightarrow> (string \<times> int \<times> real) option \<Rightarrow> native_sender \<Rightarrow> native_sender" where
  "capture_answer i result s =
     (let t = starts s ! i in
      if start_phase t \<noteq> Capturing then s
      else case result of
          None \<Rightarrow> start_fails ''capture'' i s
        | Some (name, rate, bitrate) \<Rightarrow>
            let k = length (captures s);
                s = set_start i (\<lambda>t. t\<lparr>start_capture := Some k\<rparr>)
                      (s\<lparr>captures := captures s @ [\<lparr>session_id = name, session_rate = rate, session_bitrate = bitrate, encoded = start_profile t\<rparr>]\<rparr>)
            in if outdated i s then start_at i Superseded (share_effect (Host_stop k) s)
               else share_effect (Listen i) (start_at i (Listening k) (s\<lparr>sharing := Some k, active_profile := start_profile t,
                      active_hint := nullish (content_hint (start_options t)) Detail\<rparr>)))"

text \<open>The handler of errors in \<open>start\<close>.\<close>

definition start_throws :: "share_env \<Rightarrow> nat \<Rightarrow> nat \<Rightarrow> native_sender \<Rightarrow> native_sender" where
  "start_throws env i k s = start_fails ''start'' i (if sharing s = Some k then stop_share env s else s)"

definition start_proceeds :: "share_env \<Rightarrow> nat \<Rightarrow> bool \<Rightarrow> native_sender \<Rightarrow> native_sender" where
  "start_proceeds env i ok s =
     (case start_phase (starts s ! i) of
        Listening k \<Rightarrow>
          if \<not> ok then start_throws env i k s
          else if outdated i s then start_at i Superseded (share_effect (Unlistened i) s)
          else
            let s = s\<lparr>share_listener := Some i\<rparr>
            in if external_preview env then start_at i Sharing s
               else share_effect (Preview_requested k) (start_at i (Preview_offering k) s)
      | Preview_offering k \<Rightarrow>
          if \<not> ok then start_throws env i k s
          else if outdated i s then start_at i Sharing s
          else set_start i (\<lambda>t. t\<lparr>start_connection := True, start_phase := Preview_describing k\<rparr>) (s\<lparr>share_preview := Some i\<rparr>)
      | Preview_describing k \<Rightarrow>
          if \<not> ok then start_throws env i k s
          else share_effect (Preview_answered k) (start_at i (Preview_answering k) s)
      | Preview_answering k \<Rightarrow>
          if \<not> ok then start_throws env i k s else start_at i Sharing s
      | _ \<Rightarrow> s)"

definition preview_track :: "nat \<Rightarrow> native_sender \<Rightarrow> native_sender" where
  "preview_track i s =
     (let t = starts s ! i
      in if \<not> start_connection t then s
         else if \<not> outdated i s \<and> sharing s = start_capture t then share_effect (Preview_shown i) s
         else share_effect (Preview_dropped i) s)"

definition host_ended :: "share_env \<Rightarrow> string \<Rightarrow> string \<Rightarrow> native_sender \<Rightarrow> native_sender" where
  "host_ended env name why s =
     (case sharing s of
        None \<Rightarrow> s
      | Some k \<Rightarrow> if session_id (captures s ! k) \<noteq> name then s else stop_share env (share_effect (Share_ended why) s))"

section \<open>Viewers\<close>

definition native_ice_servers :: "native_sender \<Rightarrow> ice_server list" where
  "native_ice_servers s =
     filter (\<lambda>v. ice_urls v \<noteq> [])
       (map (\<lambda>v. v\<lparr>ice_urls := filter (\<lambda>u. \<not> sender_direct_only s \<or> \<not> (starts_with u ''turn:'' \<or> starts_with u ''turns:'')) (ice_urls v)\<rparr>)
         (ice_servers s))"

definition add_at :: "nat \<Rightarrow> add_phase \<Rightarrow> native_sender \<Rightarrow> native_sender" where
  "add_at a ph s = s\<lparr>adds := (adds s)[a := (adds s ! a)\<lparr>add_phase := ph\<rparr>]\<rparr>"

definition add_current :: "nat \<Rightarrow> native_sender \<Rightarrow> bool" where
  "add_current a s \<longleftrightarrow> sharing s = Some (add_capture (adds s ! a)) \<and> share_generation s = add_generation (adds s ! a)"

text \<open>The handler of errors in \<open>addPeer\<close>.\<close>

definition add_throws :: "string \<Rightarrow> nat \<Rightarrow> native_sender \<Rightarrow> native_sender" where
  "add_throws why a s =
     share_effect (Rejected why) (add_at a Add_failed
       (if add_current a s then s\<lparr>outbound_peers := sdel (add_peer_id (adds s ! a)) (outbound_peers s)\<rparr> else s))"

definition profiles_known :: "nat \<Rightarrow> h264_profile list option \<Rightarrow> native_sender \<Rightarrow> native_sender" where
  "profiles_known a profiles s =
     (if active_profile s \<noteq> Baseline \<and> active_profile s \<notin> set (nullish profiles []) then add_throws ''profile'' a s
      else if \<not> add_current a s then add_at a Add_returned s
      else share_effect (Offer_requested (add_capture (adds s ! a)) (add_peer_id (adds s ! a)) (native_ice_servers s)) (add_at a Offering s))"

definition add_viewer :: "share_env \<Rightarrow> string \<Rightarrow> native_sender \<Rightarrow> native_sender" where
  "add_viewer env p s =
     (case sharing s of
        None \<Rightarrow> s
      | Some k \<Rightarrow>
          if p = local_peer env \<or> p \<in> set (outbound_peers s) then s
          else
            let s = s\<lparr>outbound_peers := sadd p (outbound_peers s)\<rparr>
            in if length (outbound_peers s) > 7
               then share_effect (Rejected ''too-many-peers'') (s\<lparr>outbound_peers := sdel p (outbound_peers s)\<rparr>)
               else
                 let a = length (adds s);
                     t = \<lparr>add_peer_id = p, add_capture = k, add_generation = share_generation s, add_phase = Asking (length (query_objects s))\<rparr>;
                     s = s\<lparr>adds := adds s @ [t]\<rparr>;
                     profiles = jget (peer_profiles s) p
                 in if profiles = None \<or> \<not> jhas (peer_runtimes s) p then query_profiles env [p] s
                    else profiles_known a profiles s)"

definition add_resumes :: "nat \<Rightarrow> native_sender \<Rightarrow> native_sender" where
  "add_resumes a s =
     (case add_phase (adds s ! a) of
        Asking q \<Rightarrow>
          if \<not> query_settled (query_objects s ! q) then s
          else if query_rejected (query_objects s ! q) then add_throws ''too-many-peers'' a s
          else profiles_known a (jget (query_replies (query_objects s ! q)) (add_peer_id (adds s ! a))) s
      | _ \<Rightarrow> s)"

definition add_proceeds :: "nat \<Rightarrow> bool \<Rightarrow> native_sender \<Rightarrow> native_sender" where
  "add_proceeds a ok s =
     (case add_phase (adds s ! a) of
        Offering \<Rightarrow>
          if \<not> ok then add_throws ''offer'' a s
          else if \<not> add_current a s then add_at a Add_returned s
          else share_effect (Share_offered (add_peer_id (adds s ! a)) (add_capture (adds s ! a))) (add_at a Offer_going s)
      | Offer_going \<Rightarrow> if \<not> ok then add_throws ''signal'' a s else add_at a Added s
      | _ \<Rightarrow> s)"

text \<open>Each of these awaits the host, or the application, before it goes on in \<open>removal_settles\<close>.\<close>

definition begin_removal :: "removal_kind \<Rightarrow> string \<Rightarrow> native_sender \<Rightarrow> native_sender" where
  "begin_removal kind p s = s\<lparr>removals := removals s @ [\<lparr>removal_peer = p, removal_kind = kind, removal_pending = True\<rparr>]\<rparr>"

definition forget_viewer :: "string \<Rightarrow> native_sender \<Rightarrow> native_sender" where
  "forget_viewer p s = s\<lparr>outbound_peers := sdel p (outbound_peers s), peer_profiles := jdel (peer_profiles s) p,
     peer_runtimes := jdel (peer_runtimes s) p\<rparr>"

definition remove_viewer :: "string \<Rightarrow> native_sender \<Rightarrow> native_sender" where
  "remove_viewer p s =
     (case sharing s of
        None \<Rightarrow> forget_viewer p s
      | Some k \<Rightarrow> begin_removal Leaving p (share_effect (Host_remove k p) s))"

definition remove_outbound_peer :: "string \<Rightarrow> native_sender \<Rightarrow> native_sender" where
  "remove_outbound_peer p s =
     (case sharing s of
        None \<Rightarrow> s
      | Some k \<Rightarrow> if p \<notin> set (outbound_peers s) then s else begin_removal Outbound_only p (share_effect (Host_remove k p) s))"

definition end_outbound_peer :: "string \<Rightarrow> native_sender \<Rightarrow> native_sender" where
  "end_outbound_peer p s =
     (case sharing s of
        None \<Rightarrow> s
      | Some k \<Rightarrow> if p \<notin> set (outbound_peers s) then s else begin_removal (Ending k) p (share_effect (Host_remove k p) s))"

definition fallback_requested_by :: "string \<Rightarrow> string \<Rightarrow> native_sender \<Rightarrow> native_sender" where
  "fallback_requested_by p c s =
     (if sender_disposed s then s
      else case sharing s of
          None \<Rightarrow> s
        | Some k \<Rightarrow> if session_id (captures s ! k) \<noteq> c then s else begin_removal Falling_back p (share_effect (Fallback_wanted p) s))"

definition removal_settles :: "nat \<Rightarrow> bool \<Rightarrow> native_sender \<Rightarrow> native_sender" where
  "removal_settles j ok s =
     (let r = removals s ! j; p = removal_peer r; s' = s\<lparr>removals := (removals s)[j := r\<lparr>removal_pending := False\<rparr>]\<rparr>;
          gone = s'\<lparr>outbound_peers := sdel p (outbound_peers s')\<rparr>
      in if \<not> removal_pending r then s
         else case removal_kind r of
             Leaving \<Rightarrow> forget_viewer p s'
           | Outbound_only \<Rightarrow> gone
           | Ending k \<Rightarrow> share_effect (Stop_sent p k) gone
           | Falling_back \<Rightarrow> if ok then remove_outbound_peer p s' else share_effect (Rejected ''fallback'') s')"

text \<open>Answers and candidates of viewers go to the host.\<close>

definition viewer_answered :: "string \<Rightarrow> string \<Rightarrow> native_sender \<Rightarrow> native_sender" where
  "viewer_answered p c s =
     (if sender_disposed s then s
      else case sharing s of
          None \<Rightarrow> s
        | Some k \<Rightarrow> if session_id (captures s ! k) = c then share_effect (Host_answer k p) s else s)"

definition viewer_candidate :: "string \<Rightarrow> string \<Rightarrow> ice_candidate \<Rightarrow> native_sender \<Rightarrow> native_sender" where
  "viewer_candidate p c a s =
     (if sender_disposed s then s
      else if (case a of None \<Rightarrow> False | Some text \<Rightarrow> sender_direct_only s \<and> is_relay text) then s
      else case sharing s of
          None \<Rightarrow> s
        | Some k \<Rightarrow> if session_id (captures s ! k) = c then share_effect (Host_candidate k p) s else s)"

section \<open>Capabilities and servers\<close>

text \<open>\<open>probePeers\<close> asks seven participants at a time.\<close>

definition next_probe :: "share_env \<Rightarrow> nat \<Rightarrow> native_sender \<Rightarrow> native_sender" where
  "next_probe env j s =
     (let b = probes s ! j in
      if probe_rest b = [] then s\<lparr>probes := (probes s)[j := b\<lparr>probe_query := None\<rparr>]\<rparr>
      else query_profiles env (take 7 (probe_rest b))
             (s\<lparr>probes := (probes s)[j := b\<lparr>probe_rest := drop 7 (probe_rest b), probe_query := Some (length (query_objects s))\<rparr>]\<rparr>))"

definition probe_peers :: "share_env \<Rightarrow> string list \<Rightarrow> native_sender \<Rightarrow> native_sender" where
  "probe_peers env ids s =
     next_probe env (length (probes s))
       (s\<lparr>probes := probes s @ [\<lparr>probe_rest = current_peers env ids, probe_found = [], probe_query = None, probe_rejected = False\<rparr>]\<rparr>)"

definition probe_resumes :: "share_env \<Rightarrow> nat \<Rightarrow> native_sender \<Rightarrow> native_sender" where
  "probe_resumes env j s =
     (let b = probes s ! j in
      case probe_query b of
        None \<Rightarrow> s
      | Some q \<Rightarrow>
          if \<not> query_settled (query_objects s ! q) then s
          else if query_rejected (query_objects s ! q)
            then s\<lparr>probes := (probes s)[j := b\<lparr>probe_query := None, probe_rejected := True\<rparr>]\<rparr>
          else next_probe env j (s\<lparr>probes := (probes s)[j := b\<lparr>probe_found :=
                 foldl (\<lambda>found p. sadd p found) (probe_found b) (jkeys (query_replies (query_objects s ! q)))\<rparr>]\<rparr>))"

definition set_ice_servers :: "ice_server list \<Rightarrow> native_sender \<Rightarrow> native_sender" where
  "set_ice_servers servers s =
     (let s = s\<lparr>ice_servers := servers\<rparr>
      in case sharing s of None \<Rightarrow> s | Some k \<Rightarrow> s\<lparr>ice_queue := ice_queue s @ [k]\<rparr>)"

text \<open>The chain \<open>iceRefresh\<close>: the next renewal runs when the one before it has ended.\<close>

definition ice_turn :: "native_sender \<Rightarrow> native_sender" where
  "ice_turn s =
     (if ice_busy s then s
      else case ice_queue s of
          [] \<Rightarrow> s
        | k # rest \<Rightarrow>
            let s = s\<lparr>ice_queue := rest\<rparr>
            in if sender_disposed s \<or> sharing s \<noteq> Some k then s
               else share_effect (Host_ice k (native_ice_servers s)) (s\<lparr>ice_busy := True\<rparr>))"

definition ice_answer :: "native_sender \<Rightarrow> native_sender" where
  "ice_answer s = s\<lparr>ice_busy := False\<rparr>"

record compatible_quality =
  max_bitrate :: real
  max_framerate :: int
  scale_down :: real

definition compatibility_quality :: "native_sender \<Rightarrow> compatible_quality option" where
  "compatibility_quality s =
     (case sharing s of
        None \<Rightarrow> None
      | Some k \<Rightarrow>
          Some \<lparr>max_bitrate = session_bitrate (captures s ! k) * 1000000, max_framerate = session_rate (captures s ! k), scale_down = 1\<rparr>)"

section \<open>Runs\<close>

datatype share_event =
    Start share_options "string list"
  | Start_resumes nat
  | Capture_answer nat "(string \<times> int \<times> real) option"
  | Start_proceeds nat bool
  | Preview_track nat
  | Host_ended string string
  | Stop
  | Dispose_sender
  | Add_viewer string
  | Add_resumes nat
  | Add_proceeds nat bool
  | Remove_viewer string
  | End_outbound string
  | Fallback_request string string
  | Removal_settles nat bool
  | Profile_query string "string option" "string option"
  | Profile_reply string "string option" "string option" "string list option" "string option"
  | Query_timer nat
  | Viewer_answer string string
  | Viewer_candidate string string ice_candidate
  | Probe "string list"
  | Probe_resumes nat
  | Ice_servers "ice_server list"
  | Ice_turn
  | Ice_answer

fun share_step :: "share_env \<Rightarrow> native_sender \<Rightarrow> share_event \<Rightarrow> native_sender" where
  "share_step env s (Start options ids) = start_share env options ids s"
| "share_step env s (Start_resumes i) = (if i < length (starts s) then start_resumes env i s else s)"
| "share_step env s (Capture_answer i result) = (if i < length (starts s) then capture_answer i result s else s)"
| "share_step env s (Start_proceeds i ok) = (if i < length (starts s) then start_proceeds env i ok s else s)"
| "share_step env s (Preview_track i) = (if i < length (starts s) then preview_track i s else s)"
| "share_step env s (Host_ended name why) = host_ended env name why s"
| "share_step env s Stop = stop_share env s"
| "share_step env s Dispose_sender = dispose_sender env s"
| "share_step env s (Add_viewer p) = add_viewer env p s"
| "share_step env s (Add_resumes a) = (if a < length (adds s) then add_resumes a s else s)"
| "share_step env s (Add_proceeds a ok) = (if a < length (adds s) then add_proceeds a ok s else s)"
| "share_step env s (Remove_viewer p) = remove_viewer p s"
| "share_step env s (End_outbound p) = end_outbound_peer p s"
| "share_step env s (Fallback_request p c) = fallback_requested_by p c s"
| "share_step env s (Removal_settles j ok) = (if j < length (removals s) then removal_settles j ok s else s)"
| "share_step env s (Profile_query p c nonce) = profile_query_received env p c nonce s"
| "share_step env s (Profile_reply p c nonce profiles runs) = profile_reply_received p c nonce profiles runs s"
| "share_step env s (Query_timer q) = (if q < length (query_objects s) then query_timer_fires q s else s)"
| "share_step env s (Viewer_answer p c) = viewer_answered p c s"
| "share_step env s (Viewer_candidate p c a) = viewer_candidate p c a s"
| "share_step env s (Probe ids) = probe_peers env ids s"
| "share_step env s (Probe_resumes j) = (if j < length (probes s) then probe_resumes env j s else s)"
| "share_step env s (Ice_servers servers) = set_ice_servers servers s"
| "share_step env s Ice_turn = ice_turn s"
| "share_step env s Ice_answer = ice_answer s"

section \<open>What the operations leave alone\<close>

lemma share_effect_simps [simp]:
  "share_generation (share_effect e s) = share_generation s" "sharing (share_effect e s) = sharing s"
  "captures (share_effect e s) = captures s" "sender_disposed (share_effect e s) = sender_disposed s"
  "share_listener (share_effect e s) = share_listener s" "share_preview (share_effect e s) = share_preview s"
  "active_profile (share_effect e s) = active_profile s" "active_hint (share_effect e s) = active_hint s"
  "outbound_peers (share_effect e s) = outbound_peers s" "pending_queries (share_effect e s) = pending_queries s"
  "query_objects (share_effect e s) = query_objects s" "peer_profiles (share_effect e s) = peer_profiles s"
  "peer_runtimes (share_effect e s) = peer_runtimes s" "ice_servers (share_effect e s) = ice_servers s"
  "sender_direct_only (share_effect e s) = sender_direct_only s" "ice_queue (share_effect e s) = ice_queue s"
  "ice_busy (share_effect e s) = ice_busy s" "starts (share_effect e s) = starts s" "adds (share_effect e s) = adds s"
  "removals (share_effect e s) = removals s" "probes (share_effect e s) = probes s"
  by (simp_all add: share_effect_def)

lemma logged_simps [simp]:
  "share_generation (logged e s) = share_generation s" "sharing (logged e s) = sharing s" "captures (logged e s) = captures s"
  "sender_disposed (logged e s) = sender_disposed s" "share_listener (logged e s) = share_listener s"
  "share_preview (logged e s) = share_preview s" "active_profile (logged e s) = active_profile s"
  "active_hint (logged e s) = active_hint s" "outbound_peers (logged e s) = outbound_peers s"
  "pending_queries (logged e s) = pending_queries s" "query_objects (logged e s) = query_objects s"
  "peer_profiles (logged e s) = peer_profiles s" "peer_runtimes (logged e s) = peer_runtimes s"
  "ice_servers (logged e s) = ice_servers s" "sender_direct_only (logged e s) = sender_direct_only s"
  "ice_queue (logged e s) = ice_queue s" "ice_busy (logged e s) = ice_busy s" "starts (logged e s) = starts s"
  "adds (logged e s) = adds s" "removals (logged e s) = removals s" "probes (logged e s) = probes s"
  by (simp_all add: logged_def split: option.split)

lemma finish_query_simps [simp]:
  "share_generation (finish_query s q) = share_generation s" "sharing (finish_query s q) = sharing s"
  "captures (finish_query s q) = captures s" "sender_disposed (finish_query s q) = sender_disposed s"
  "share_listener (finish_query s q) = share_listener s" "share_preview (finish_query s q) = share_preview s"
  "active_profile (finish_query s q) = active_profile s" "active_hint (finish_query s q) = active_hint s"
  "outbound_peers (finish_query s q) = outbound_peers s" "peer_profiles (finish_query s q) = peer_profiles s"
  "peer_runtimes (finish_query s q) = peer_runtimes s" "ice_servers (finish_query s q) = ice_servers s"
  "sender_direct_only (finish_query s q) = sender_direct_only s" "ice_queue (finish_query s q) = ice_queue s"
  "ice_busy (finish_query s q) = ice_busy s" "starts (finish_query s q) = starts s" "adds (finish_query s q) = adds s"
  "removals (finish_query s q) = removals s" "probes (finish_query s q) = probes s"
  "share_effects (finish_query s q) = share_effects s"
  by (simp_all add: finish_query_def Let_def)

lemma finish_fold:
  assumes "\<And>s q. f (finish_query s q) = f s"
  shows "f (foldl finish_query s qs) = f s"
  by (induction qs arbitrary: s) (simp_all add: assms)

lemma finish_queries_simps [simp]:
  "share_generation (finish_profile_queries s) = share_generation s" "sharing (finish_profile_queries s) = sharing s"
  "captures (finish_profile_queries s) = captures s" "sender_disposed (finish_profile_queries s) = sender_disposed s"
  "share_listener (finish_profile_queries s) = share_listener s" "share_preview (finish_profile_queries s) = share_preview s"
  "active_profile (finish_profile_queries s) = active_profile s" "active_hint (finish_profile_queries s) = active_hint s"
  "outbound_peers (finish_profile_queries s) = outbound_peers s" "peer_profiles (finish_profile_queries s) = peer_profiles s"
  "peer_runtimes (finish_profile_queries s) = peer_runtimes s" "ice_servers (finish_profile_queries s) = ice_servers s"
  "sender_direct_only (finish_profile_queries s) = sender_direct_only s" "ice_queue (finish_profile_queries s) = ice_queue s"
  "ice_busy (finish_profile_queries s) = ice_busy s" "starts (finish_profile_queries s) = starts s"
  "adds (finish_profile_queries s) = adds s" "removals (finish_profile_queries s) = removals s"
  "probes (finish_profile_queries s) = probes s" "share_effects (finish_profile_queries s) = share_effects s"
  by (simp_all add: finish_profile_queries_def finish_fold)

lemma query_profiles_simps [simp]:
  "share_generation (query_profiles env ids s) = share_generation s" "sharing (query_profiles env ids s) = sharing s"
  "captures (query_profiles env ids s) = captures s" "sender_disposed (query_profiles env ids s) = sender_disposed s"
  "share_listener (query_profiles env ids s) = share_listener s" "share_preview (query_profiles env ids s) = share_preview s"
  "active_profile (query_profiles env ids s) = active_profile s" "active_hint (query_profiles env ids s) = active_hint s"
  "outbound_peers (query_profiles env ids s) = outbound_peers s" "peer_profiles (query_profiles env ids s) = peer_profiles s"
  "peer_runtimes (query_profiles env ids s) = peer_runtimes s" "ice_servers (query_profiles env ids s) = ice_servers s"
  "sender_direct_only (query_profiles env ids s) = sender_direct_only s" "ice_queue (query_profiles env ids s) = ice_queue s"
  "ice_busy (query_profiles env ids s) = ice_busy s" "starts (query_profiles env ids s) = starts s"
  "adds (query_profiles env ids s) = adds s" "removals (query_profiles env ids s) = removals s"
  "probes (query_profiles env ids s) = probes s"
  by (simp_all add: query_profiles_def Let_def)

lemma set_start_simps [simp]:
  "share_generation (set_start i f s) = share_generation s" "sharing (set_start i f s) = sharing s"
  "captures (set_start i f s) = captures s" "sender_disposed (set_start i f s) = sender_disposed s"
  "share_listener (set_start i f s) = share_listener s" "share_preview (set_start i f s) = share_preview s"
  "active_profile (set_start i f s) = active_profile s" "active_hint (set_start i f s) = active_hint s"
  "outbound_peers (set_start i f s) = outbound_peers s" "pending_queries (set_start i f s) = pending_queries s"
  "query_objects (set_start i f s) = query_objects s" "peer_profiles (set_start i f s) = peer_profiles s"
  "peer_runtimes (set_start i f s) = peer_runtimes s" "ice_servers (set_start i f s) = ice_servers s"
  "sender_direct_only (set_start i f s) = sender_direct_only s" "ice_queue (set_start i f s) = ice_queue s"
  "ice_busy (set_start i f s) = ice_busy s" "adds (set_start i f s) = adds s" "removals (set_start i f s) = removals s"
  "probes (set_start i f s) = probes s" "share_effects (set_start i f s) = share_effects s"
  by (simp_all add: set_start_def)

lemma start_at_simps [simp]:
  "share_generation (start_at i ph s) = share_generation s" "sharing (start_at i ph s) = sharing s"
  "captures (start_at i ph s) = captures s" "sender_disposed (start_at i ph s) = sender_disposed s"
  "share_listener (start_at i ph s) = share_listener s" "share_preview (start_at i ph s) = share_preview s"
  "active_profile (start_at i ph s) = active_profile s" "active_hint (start_at i ph s) = active_hint s"
  "outbound_peers (start_at i ph s) = outbound_peers s" "pending_queries (start_at i ph s) = pending_queries s"
  "query_objects (start_at i ph s) = query_objects s" "peer_profiles (start_at i ph s) = peer_profiles s"
  "peer_runtimes (start_at i ph s) = peer_runtimes s" "ice_servers (start_at i ph s) = ice_servers s"
  "sender_direct_only (start_at i ph s) = sender_direct_only s" "ice_queue (start_at i ph s) = ice_queue s"
  "ice_busy (start_at i ph s) = ice_busy s" "adds (start_at i ph s) = adds s" "removals (start_at i ph s) = removals s"
  "probes (start_at i ph s) = probes s" "share_effects (start_at i ph s) = share_effects s"
  by (simp_all add: start_at_def)

lemma start_fails_simps [simp]:
  "share_generation (start_fails why i s) = share_generation s" "sharing (start_fails why i s) = sharing s"
  "captures (start_fails why i s) = captures s" "sender_disposed (start_fails why i s) = sender_disposed s"
  "share_listener (start_fails why i s) = share_listener s" "share_preview (start_fails why i s) = share_preview s"
  "active_profile (start_fails why i s) = active_profile s" "active_hint (start_fails why i s) = active_hint s"
  "outbound_peers (start_fails why i s) = outbound_peers s" "pending_queries (start_fails why i s) = pending_queries s"
  "query_objects (start_fails why i s) = query_objects s" "peer_profiles (start_fails why i s) = peer_profiles s"
  "peer_runtimes (start_fails why i s) = peer_runtimes s" "ice_servers (start_fails why i s) = ice_servers s"
  "sender_direct_only (start_fails why i s) = sender_direct_only s" "ice_queue (start_fails why i s) = ice_queue s"
  "ice_busy (start_fails why i s) = ice_busy s" "adds (start_fails why i s) = adds s" "removals (start_fails why i s) = removals s"
  "probes (start_fails why i s) = probes s"
  by (simp_all add: start_fails_def)

lemma request_capture_simps [simp]:
  "share_generation (request_capture i profile s) = share_generation s" "sharing (request_capture i profile s) = sharing s"
  "captures (request_capture i profile s) = captures s" "sender_disposed (request_capture i profile s) = sender_disposed s"
  "share_listener (request_capture i profile s) = share_listener s" "share_preview (request_capture i profile s) = share_preview s"
  "active_profile (request_capture i profile s) = active_profile s" "active_hint (request_capture i profile s) = active_hint s"
  "outbound_peers (request_capture i profile s) = outbound_peers s" "pending_queries (request_capture i profile s) = pending_queries s"
  "query_objects (request_capture i profile s) = query_objects s" "peer_profiles (request_capture i profile s) = peer_profiles s"
  "peer_runtimes (request_capture i profile s) = peer_runtimes s" "ice_servers (request_capture i profile s) = ice_servers s"
  "sender_direct_only (request_capture i profile s) = sender_direct_only s" "ice_queue (request_capture i profile s) = ice_queue s"
  "ice_busy (request_capture i profile s) = ice_busy s" "adds (request_capture i profile s) = adds s"
  "removals (request_capture i profile s) = removals s" "probes (request_capture i profile s) = probes s"
  by (simp_all add: request_capture_def)

lemma profile_chosen_simps [simp]:
  "share_generation (profile_chosen env i profile s) = share_generation s" "sharing (profile_chosen env i profile s) = sharing s"
  "captures (profile_chosen env i profile s) = captures s" "sender_disposed (profile_chosen env i profile s) = sender_disposed s"
  "share_listener (profile_chosen env i profile s) = share_listener s"
  "share_preview (profile_chosen env i profile s) = share_preview s"
  "active_profile (profile_chosen env i profile s) = active_profile s" "active_hint (profile_chosen env i profile s) = active_hint s"
  "outbound_peers (profile_chosen env i profile s) = outbound_peers s"
  "peer_profiles (profile_chosen env i profile s) = peer_profiles s" "peer_runtimes (profile_chosen env i profile s) = peer_runtimes s"
  "ice_servers (profile_chosen env i profile s) = ice_servers s"
  "sender_direct_only (profile_chosen env i profile s) = sender_direct_only s"
  "ice_queue (profile_chosen env i profile s) = ice_queue s" "ice_busy (profile_chosen env i profile s) = ice_busy s"
  "adds (profile_chosen env i profile s) = adds s" "removals (profile_chosen env i profile s) = removals s"
  "probes (profile_chosen env i profile s) = probes s"
  by (simp_all add: profile_chosen_def Let_def)

lemma begin_start_simps [simp]:
  "sharing (begin_start env i s) = sharing s" "captures (begin_start env i s) = captures s"
  "sender_disposed (begin_start env i s) = sender_disposed s" "share_listener (begin_start env i s) = share_listener s"
  "share_preview (begin_start env i s) = share_preview s" "active_profile (begin_start env i s) = active_profile s"
  "active_hint (begin_start env i s) = active_hint s" "outbound_peers (begin_start env i s) = outbound_peers s"
  "peer_profiles (begin_start env i s) = peer_profiles s" "peer_runtimes (begin_start env i s) = peer_runtimes s"
  "ice_servers (begin_start env i s) = ice_servers s" "sender_direct_only (begin_start env i s) = sender_direct_only s"
  "ice_queue (begin_start env i s) = ice_queue s" "ice_busy (begin_start env i s) = ice_busy s" "adds (begin_start env i s) = adds s"
  "removals (begin_start env i s) = removals s" "probes (begin_start env i s) = probes s"
  by (simp_all add: begin_start_def Let_def split: option.split)

lemma stop_share_simps [simp]:
  "captures (stop_share env s) = captures s" "sender_disposed (stop_share env s) = sender_disposed s"
  "ice_servers (stop_share env s) = ice_servers s" "sender_direct_only (stop_share env s) = sender_direct_only s"
  "ice_queue (stop_share env s) = ice_queue s" "ice_busy (stop_share env s) = ice_busy s" "starts (stop_share env s) = starts s"
  "adds (stop_share env s) = adds s" "removals (stop_share env s) = removals s" "probes (stop_share env s) = probes s"
  by (simp_all add: stop_share_def Let_def split: option.split)

lemma add_at_simps [simp]:
  "share_generation (add_at a ph s) = share_generation s" "sharing (add_at a ph s) = sharing s" "captures (add_at a ph s) = captures s"
  "sender_disposed (add_at a ph s) = sender_disposed s" "share_listener (add_at a ph s) = share_listener s"
  "share_preview (add_at a ph s) = share_preview s" "active_profile (add_at a ph s) = active_profile s"
  "active_hint (add_at a ph s) = active_hint s" "outbound_peers (add_at a ph s) = outbound_peers s"
  "pending_queries (add_at a ph s) = pending_queries s" "query_objects (add_at a ph s) = query_objects s"
  "peer_profiles (add_at a ph s) = peer_profiles s" "peer_runtimes (add_at a ph s) = peer_runtimes s"
  "ice_servers (add_at a ph s) = ice_servers s" "sender_direct_only (add_at a ph s) = sender_direct_only s"
  "ice_queue (add_at a ph s) = ice_queue s" "ice_busy (add_at a ph s) = ice_busy s" "starts (add_at a ph s) = starts s"
  "removals (add_at a ph s) = removals s" "probes (add_at a ph s) = probes s" "share_effects (add_at a ph s) = share_effects s"
  by (simp_all add: add_at_def)

lemma add_throws_simps [simp]:
  "share_generation (add_throws why a s) = share_generation s" "sharing (add_throws why a s) = sharing s"
  "captures (add_throws why a s) = captures s" "sender_disposed (add_throws why a s) = sender_disposed s"
  "share_listener (add_throws why a s) = share_listener s" "share_preview (add_throws why a s) = share_preview s"
  "active_profile (add_throws why a s) = active_profile s" "active_hint (add_throws why a s) = active_hint s"
  "pending_queries (add_throws why a s) = pending_queries s" "query_objects (add_throws why a s) = query_objects s"
  "peer_profiles (add_throws why a s) = peer_profiles s" "peer_runtimes (add_throws why a s) = peer_runtimes s"
  "ice_servers (add_throws why a s) = ice_servers s" "sender_direct_only (add_throws why a s) = sender_direct_only s"
  "ice_queue (add_throws why a s) = ice_queue s" "ice_busy (add_throws why a s) = ice_busy s" "starts (add_throws why a s) = starts s"
  "removals (add_throws why a s) = removals s" "probes (add_throws why a s) = probes s"
  by (simp_all add: add_throws_def)

lemma profiles_known_simps [simp]:
  "share_generation (profiles_known a profiles s) = share_generation s" "sharing (profiles_known a profiles s) = sharing s"
  "captures (profiles_known a profiles s) = captures s" "sender_disposed (profiles_known a profiles s) = sender_disposed s"
  "share_listener (profiles_known a profiles s) = share_listener s" "share_preview (profiles_known a profiles s) = share_preview s"
  "active_profile (profiles_known a profiles s) = active_profile s" "active_hint (profiles_known a profiles s) = active_hint s"
  "pending_queries (profiles_known a profiles s) = pending_queries s" "query_objects (profiles_known a profiles s) = query_objects s"
  "peer_profiles (profiles_known a profiles s) = peer_profiles s" "peer_runtimes (profiles_known a profiles s) = peer_runtimes s"
  "ice_servers (profiles_known a profiles s) = ice_servers s" "sender_direct_only (profiles_known a profiles s) = sender_direct_only s"
  "ice_queue (profiles_known a profiles s) = ice_queue s" "ice_busy (profiles_known a profiles s) = ice_busy s"
  "starts (profiles_known a profiles s) = starts s" "removals (profiles_known a profiles s) = removals s"
  "probes (profiles_known a profiles s) = probes s"
  by (simp_all add: profiles_known_def)

lemma begin_removal_simps [simp]:
  "share_generation (begin_removal kind p s) = share_generation s" "sharing (begin_removal kind p s) = sharing s"
  "captures (begin_removal kind p s) = captures s" "sender_disposed (begin_removal kind p s) = sender_disposed s"
  "share_listener (begin_removal kind p s) = share_listener s" "share_preview (begin_removal kind p s) = share_preview s"
  "active_profile (begin_removal kind p s) = active_profile s" "active_hint (begin_removal kind p s) = active_hint s"
  "outbound_peers (begin_removal kind p s) = outbound_peers s" "pending_queries (begin_removal kind p s) = pending_queries s"
  "query_objects (begin_removal kind p s) = query_objects s" "peer_profiles (begin_removal kind p s) = peer_profiles s"
  "peer_runtimes (begin_removal kind p s) = peer_runtimes s" "ice_servers (begin_removal kind p s) = ice_servers s"
  "sender_direct_only (begin_removal kind p s) = sender_direct_only s" "ice_queue (begin_removal kind p s) = ice_queue s"
  "ice_busy (begin_removal kind p s) = ice_busy s" "starts (begin_removal kind p s) = starts s"
  "adds (begin_removal kind p s) = adds s" "probes (begin_removal kind p s) = probes s"
  "share_effects (begin_removal kind p s) = share_effects s"
  by (simp_all add: begin_removal_def)

lemma next_probe_simps [simp]:
  "share_generation (next_probe env j s) = share_generation s" "sharing (next_probe env j s) = sharing s"
  "captures (next_probe env j s) = captures s" "sender_disposed (next_probe env j s) = sender_disposed s"
  "share_listener (next_probe env j s) = share_listener s" "share_preview (next_probe env j s) = share_preview s"
  "active_profile (next_probe env j s) = active_profile s" "active_hint (next_probe env j s) = active_hint s"
  "outbound_peers (next_probe env j s) = outbound_peers s" "peer_profiles (next_probe env j s) = peer_profiles s"
  "peer_runtimes (next_probe env j s) = peer_runtimes s" "ice_servers (next_probe env j s) = ice_servers s"
  "sender_direct_only (next_probe env j s) = sender_direct_only s" "ice_queue (next_probe env j s) = ice_queue s"
  "ice_busy (next_probe env j s) = ice_busy s" "starts (next_probe env j s) = starts s" "adds (next_probe env j s) = adds s"
  "removals (next_probe env j s) = removals s"
  by (simp_all add: next_probe_def Let_def)

section \<open>No capture is left running\<close>

definition begun :: "start_task \<Rightarrow> bool" where
  "begun t \<longleftrightarrow> start_phase t \<noteq> Stopping"

definition hoping :: "start_task \<Rightarrow> bool" where
  "hoping t = (case start_phase t of Asking_common q \<Rightarrow> True | Asking_all q \<Rightarrow> True | Capturing \<Rightarrow> True | _ \<Rightarrow> False)"

lemma hoping_begun: "hoping t \<Longrightarrow> begun t"
  by (auto simp: hoping_def begun_def)

text \<open>
  The calls of \<open>start\<close>: their generations differ; one that may still put a capture in place finds
  none there; and while one waits for its \<open>stop\<close> there is no capture and no other is current.
\<close>

definition line_ok :: "nat \<Rightarrow> nat option \<Rightarrow> start_task list \<Rightarrow> bool" where
  "line_ok g sh ts \<longleftrightarrow>
     (\<forall>i<length ts. begun (ts ! i) \<longrightarrow> start_generation (ts ! i) \<le> g) \<and>
     (\<forall>i<length ts. \<forall>j<length ts. i < j \<and> begun (ts ! i) \<and> begun (ts ! j) \<longrightarrow> start_generation (ts ! i) \<noteq> start_generation (ts ! j)) \<and>
     (\<forall>i<length ts. hoping (ts ! i) \<and> start_generation (ts ! i) = g \<longrightarrow> sh = None) \<and>
     (\<forall>i<length ts. \<not> begun (ts ! i) \<longrightarrow> sh = None \<and> (\<forall>j<length ts. j \<noteq> i \<longrightarrow> begun (ts ! j) \<and> start_generation (ts ! j) < g))"

lemma line_okD:
  assumes "line_ok g sh ts" "i < length ts"
  shows "begun (ts ! i) \<Longrightarrow> start_generation (ts ! i) \<le> g"
    "j < length ts \<Longrightarrow> i \<noteq> j \<Longrightarrow> begun (ts ! i) \<Longrightarrow> begun (ts ! j) \<Longrightarrow> start_generation (ts ! i) \<noteq> start_generation (ts ! j)"
    "hoping (ts ! i) \<Longrightarrow> start_generation (ts ! i) = g \<Longrightarrow> sh = None"
    "\<not> begun (ts ! i) \<Longrightarrow> sh = None"
    "\<not> begun (ts ! i) \<Longrightarrow> j < length ts \<Longrightarrow> j \<noteq> i \<Longrightarrow> begun (ts ! j) \<and> start_generation (ts ! j) < g"
  using assms unfolding line_ok_def by (blast, metis linorder_neqE_nat, blast+)

lemma line_okI:
  assumes "\<And>i. i < length ts \<Longrightarrow> begun (ts ! i) \<Longrightarrow> start_generation (ts ! i) \<le> g"
    and "\<And>i j. i < length ts \<Longrightarrow> j < length ts \<Longrightarrow> i < j \<Longrightarrow> begun (ts ! i) \<Longrightarrow> begun (ts ! j) \<Longrightarrow> start_generation (ts ! i) \<noteq> start_generation (ts ! j)"
    and "\<And>i. i < length ts \<Longrightarrow> hoping (ts ! i) \<Longrightarrow> start_generation (ts ! i) = g \<Longrightarrow> sh = None"
    and "\<And>i. i < length ts \<Longrightarrow> \<not> begun (ts ! i) \<Longrightarrow> sh = None"
    and "\<And>i j. i < length ts \<Longrightarrow> \<not> begun (ts ! i) \<Longrightarrow> j < length ts \<Longrightarrow> j \<noteq> i \<Longrightarrow> begun (ts ! j) \<and> start_generation (ts ! j) < g"
  shows "line_ok g sh ts"
  unfolding line_ok_def using assms by blast

lemma line_settles:
  assumes "line_ok g sh ts" "i < length ts" "begun (ts ! i)" "begun t" "start_generation t = start_generation (ts ! i)" "hoping t \<longrightarrow> hoping (ts ! i)"
  shows "line_ok g sh (ts[i := t])"
proof -
  have same: "begun (ts[i := t] ! j) = begun (ts ! j)" "start_generation (ts[i := t] ! j) = start_generation (ts ! j)"
    "hoping (ts[i := t] ! j) \<Longrightarrow> hoping (ts ! j)" for j
    using assms(2-6) by (cases "j = i"; simp)+
  show ?thesis
  proof (rule line_okI)
    fix a b assume "a < length (ts[i := t])" "b < length (ts[i := t])" "a < b" "begun (ts[i := t] ! a)" "begun (ts[i := t] ! b)"
    then show "start_generation (ts[i := t] ! a) \<noteq> start_generation (ts[i := t] ! b)"
      using line_okD(2) [OF assms(1), of a b] same by simp
  next
    fix a b assume "a < length (ts[i := t])" "\<not> begun (ts[i := t] ! a)" "b < length (ts[i := t])" "b \<noteq> a"
    then show "begun (ts[i := t] ! b) \<and> start_generation (ts[i := t] ! b) < g"
      using line_okD(5) [OF assms(1), of a b] same by simp
  qed (use line_okD(1,3,4) [OF assms(1)] same in \<open>(simp; fail)+\<close>)
qed

lemma line_stops:
  assumes "line_ok g sh ts"
  shows "line_ok (Suc g) None ts"
proof (rule line_okI)
  fix i assume "i < length ts" "hoping (ts ! i)" "start_generation (ts ! i) = Suc g"
  then show "None = (None :: nat option)" by simp
next
  fix i j assume "i < length ts" "\<not> begun (ts ! i)" "j < length ts" "j \<noteq> i"
  then show "begun (ts ! j) \<and> start_generation (ts ! j) < Suc g" using line_okD(5) [OF assms, of i j] by simp
qed (use line_okD(1,2) [OF assms] in \<open>(simp add: le_SucI nat_neq_iff; fail)+\<close>)

text \<open>One more call, which waits or begins.\<close>

lemma line_appends:
  assumes "line_ok g sh ts" "list_all begun ts" "begun t \<longrightarrow> start_generation t = Suc g"
  shows "line_ok (Suc g) None (ts @ [t])"
proof -
  have all: "begun (ts ! i)" "start_generation (ts ! i) \<le> g" if "i < length ts" for i
    using line_okD(1) [OF assms(1) that] assms(2) that by (simp_all add: list_all_length)
  show ?thesis
  proof (rule line_okI)
    fix i j assume "i < length (ts @ [t])" "j < length (ts @ [t])" "i < j" "begun ((ts @ [t]) ! j)"
    moreover from this have "i < length ts" by simp
    ultimately show "start_generation ((ts @ [t]) ! i) \<noteq> start_generation ((ts @ [t]) ! j)"
      using all [of i] line_okD(2) [OF assms(1), of i j] all(1) [of j] assms(3) by (cases "j < length ts") (auto simp: nth_append less_Suc_eq)
  qed (use all assms(3) in \<open>auto simp: nth_append less_Suc_eq_le le_SucI split: if_splits\<close>)
qed

lemma line_begins:
  assumes "line_ok g sh ts" "i < length ts" "\<not> begun (ts ! i)" "begun t" "start_generation t = Suc g"
  shows "line_ok (Suc g) None (ts[i := t])"
proof -
  have all: "begun (ts ! j)" "start_generation (ts ! j) < g" if "j < length ts" "j \<noteq> i" for j
    using line_okD(5) [OF assms(1-3)] that by blast+
  have now: "begun (ts[i := t] ! j)" "start_generation (ts[i := t] ! j) = (if j = i then Suc g else start_generation (ts ! j))" if "j < length ts" for j
    using all that assms(2,4,5) by (auto simp: nth_list_update)
  show ?thesis
  proof (rule line_okI)
    fix j l assume "j < length (ts[i := t])" "l < length (ts[i := t])" "j < l"
    then show "start_generation (ts[i := t] ! j) \<noteq> start_generation (ts[i := t] ! l)"
      using now(2) [of j] now(2) [of l] all [of j] all [of l] line_okD(2) [OF assms(1), of j l] by (auto split: if_splits)
  qed (use now all in \<open>auto simp: less_imp_le less_SucI\<close>)
qed

lemma line_gets:
  assumes "line_ok g sh ts" "i < length ts" "hoping (ts ! i)" "start_generation (ts ! i) = g"
    and "begun t" "\<not> hoping t" "start_generation t = g"
  shows "line_ok g (Some k) (ts[i := t])"
proof -
  have b: "begun (ts ! i)" using assms(3) hoping_begun by blast
  have others: "begun (ts ! j)" if "j < length ts" for j
    using line_okD(5) [OF assms(1) that _ assms(2)] assms(4) b by (cases "j = i") auto
  have apart: "start_generation (ts ! j) \<noteq> g" if "j < length ts" "j \<noteq> i" for j
    using line_okD(2) [OF assms(1) that(1) assms(2) that(2) others [OF that(1)] b] assms(4) by simp
  have now: "begun (ts[i := t] ! j)" "start_generation (ts[i := t] ! j) = start_generation (ts ! j)" "hoping (ts[i := t] ! j) \<Longrightarrow> j \<noteq> i"
    if "j < length ts" for j
    using others that assms(2,4-7) by (auto simp: nth_list_update split: if_splits)
  show ?thesis
    by (rule line_okI) (use now apart others line_okD(1,2) [OF assms(1)] in \<open>(auto; fail)+\<close>)
qed

lemma start_at_starts: "starts (start_at i ph s) = (starts s)[i := (starts s ! i)\<lparr>start_phase := ph\<rparr>]"
  by (simp add: start_at_def set_start_def)

lemma start_fails_starts: "starts (start_fails why i s) = (starts s)[i := (starts s ! i)\<lparr>start_phase := Start_failed\<rparr>]"
  by (simp add: start_fails_def start_at_starts)

lemma set_start_starts: "starts (set_start i f s) = (starts s)[i := f (starts s ! i)]"
  by (simp add: set_start_def)

lemmas starts_simps = start_at_starts start_fails_starts set_start_starts

lemma profile_chosen_starts:
  "\<exists>t. starts (profile_chosen env i profile s) = (starts s)[i := t] \<and> start_generation t = start_generation (starts s ! i) \<and> begun t"
  by (auto simp: profile_chosen_def request_capture_def starts_simps begun_def Let_def intro!: exI)

lemma begin_start_starts:
  assumes "i < length (starts s)"
  shows "\<exists>t. starts (begin_start env i s) = (starts s)[i := t] \<and> start_generation t = Suc (share_generation s) \<and> begun t"
proof -
  define u where "u = set_start i (\<lambda>t. t\<lparr>start_generation := Suc (share_generation s)\<rparr>) (s\<lparr>share_generation := Suc (share_generation s)\<rparr>)"
  have u: "starts u = (starts s)[i := (starts s ! i)\<lparr>start_generation := Suc (share_generation s)\<rparr>]"
    by (simp add: u_def starts_simps)
  have chosen: "\<exists>t. starts (profile_chosen env i p u) = (starts s)[i := t] \<and> start_generation t = Suc (share_generation s) \<and> begun t" for p
    using profile_chosen_starts [of env i p u] assms u by auto
  show ?thesis
    using chosen assms by (auto simp: begin_start_def u_def [symmetric] u starts_simps begun_def Let_def split: option.split intro!: exI)
qed

lemma begin_start_generation: "share_generation (begin_start env i s) = Suc (share_generation s)"
  by (simp add: begin_start_def Let_def split: option.split)

lemma stop_share_sharing [simp]: "sharing (stop_share env s) = None" "share_generation (stop_share env s) = Suc (share_generation s)"
  by (simp_all add: stop_share_def Let_def split: option.split)

lemma share_effects_grow:
  "set (share_effects s) \<subseteq> set (share_effects (share_effect e s))" "set (share_effects s) \<subseteq> set (share_effects (query_profiles env ids s))"
  by (auto simp: share_effect_def query_profiles_def Let_def)

definition stopped :: "native_sender \<Rightarrow> nat \<Rightarrow> bool" where
  "stopped s k \<longleftrightarrow> Host_stop k \<in> set (share_effects s)"

lemma stopped_effect [simp]: "stopped (share_effect e s) k \<longleftrightarrow> e = Host_stop k \<or> stopped s k"
  by (auto simp: stopped_def share_effect_def)

lemma stopped_fields [simp]:
  "stopped (s\<lparr>share_generation := x0\<rparr>) k = stopped s k" "stopped (s\<lparr>sharing := x1\<rparr>) k = stopped s k" "stopped (s\<lparr>captures := x2\<rparr>) k = stopped s k"
  "stopped (s\<lparr>sender_disposed := x3\<rparr>) k = stopped s k" "stopped (s\<lparr>share_listener := x4\<rparr>) k = stopped s k"
  "stopped (s\<lparr>share_preview := x5\<rparr>) k = stopped s k" "stopped (s\<lparr>active_profile := x6\<rparr>) k = stopped s k"
  "stopped (s\<lparr>active_hint := x7\<rparr>) k = stopped s k" "stopped (s\<lparr>outbound_peers := x8\<rparr>) k = stopped s k"
  "stopped (s\<lparr>pending_queries := x9\<rparr>) k = stopped s k" "stopped (s\<lparr>query_objects := x10\<rparr>) k = stopped s k"
  "stopped (s\<lparr>peer_profiles := x11\<rparr>) k = stopped s k" "stopped (s\<lparr>peer_runtimes := x12\<rparr>) k = stopped s k"
  "stopped (s\<lparr>ice_servers := x13\<rparr>) k = stopped s k" "stopped (s\<lparr>ice_queue := x14\<rparr>) k = stopped s k"
  "stopped (s\<lparr>ice_busy := x15\<rparr>) k = stopped s k" "stopped (s\<lparr>starts := x16\<rparr>) k = stopped s k" "stopped (s\<lparr>adds := x17\<rparr>) k = stopped s k"
  "stopped (s\<lparr>removals := x18\<rparr>) k = stopped s k" "stopped (s\<lparr>probes := x19\<rparr>) k = stopped s k"
  by (simp_all add: stopped_def)

lemma stopped_finish [simp]: "stopped (finish_query s q) k = stopped s k"
  by (simp add: finish_query_def Let_def)

lemma stopped_parts [simp]:
  "stopped (logged e s) k \<longleftrightarrow> e = Some (Host_stop k) \<or> stopped s k"
  "stopped (finish_profile_queries s) k = stopped s k" "stopped (query_profiles env ids s) k = stopped s k"
  "stopped (set_start i f s) k = stopped s k" "stopped (start_at i ph s) k = stopped s k" "stopped (start_fails why i s) k = stopped s k"
  "stopped (add_at a aph s) k = stopped s k" "stopped (begin_removal kind p s) k = stopped s k"
  by (auto simp: logged_def finish_profile_queries_def finish_fold query_profiles_def set_start_def start_at_def start_fails_def add_at_def
      begin_removal_def stopped_def share_effect_def Let_def split: option.split)

lemma stopped_more [simp]:
  "stopped (request_capture i profile s) k = stopped s k" "stopped (profile_chosen env i profile s) k = stopped s k"
  "stopped (begin_start env i s) k = stopped s k" "stopped (add_throws why a s) k = stopped s k" "stopped (profiles_known a ps s) k = stopped s k"
  "stopped (next_probe env j s) k = stopped s k"
  by (simp_all add: request_capture_def profile_chosen_def begin_start_def add_throws_def profiles_known_def next_probe_def Let_def split: option.split)

lemma stopped_stop [simp]: "stopped (stop_share env s) k \<longleftrightarrow> stopped s k \<or> sharing s = Some k"
  by (auto simp: stop_share_def stopped_def Let_def logged_def share_effect_def finish_profile_queries_def split: option.split)
     (simp_all add: finish_fold)

definition kept :: "native_sender \<Rightarrow> bool" where
  "kept s \<longleftrightarrow> (\<forall>k<length (captures s). sharing s = Some k \<or> stopped s k) \<and> (\<forall>k. sharing s = Some k \<longrightarrow> k < length (captures s))"

definition capture_inv :: "native_sender \<Rightarrow> bool" where
  "capture_inv s \<longleftrightarrow> line_ok (share_generation s) (sharing s) (starts s) \<and> kept s"

lemma capture_inv_same:
  assumes "share_generation s' = share_generation s" "sharing s' = sharing s" "starts s' = starts s" "captures s' = captures s"
    "\<And>k. stopped s k \<Longrightarrow> stopped s' k"
  shows "capture_inv s \<Longrightarrow> capture_inv s'"
  using assms by (auto simp: capture_inv_def kept_def)

lemma capture_inv_stop: "capture_inv s \<Longrightarrow> capture_inv (stop_share env s)"
  by (auto simp: capture_inv_def kept_def line_stops)

text \<open>A call of \<open>start\<close> moves on without touching the capture.\<close>

lemma capture_inv_settles:
  assumes "capture_inv s" "i < length (starts s)" "begun (starts s ! i)"
    and "starts s' = (starts s)[i := t]" "begun t" "start_generation t = start_generation (starts s ! i)" "hoping t \<longrightarrow> hoping (starts s ! i)"
    and "share_generation s' = share_generation s" "sharing s' = sharing s" "captures s' = captures s" "\<And>k. stopped s k \<Longrightarrow> stopped s' k"
  shows "capture_inv s'"
  using assms line_settles [of "share_generation s" "sharing s" "starts s" i t] by (auto simp: capture_inv_def kept_def)

lemma capture_inv_fails:
  assumes "capture_inv s" "i < length (starts s)" "begun (starts s ! i)"
  shows "capture_inv (start_fails why i s)"
  by (rule capture_inv_settles [OF assms start_fails_starts]) (simp_all add: begun_def hoping_def)

lemma capture_inv_begin:
  assumes "capture_inv s" "i < length (starts s)" "\<not> begun (starts s ! i)"
  shows "capture_inv (begin_start env i s)"
proof -
  obtain t where t: "starts (begin_start env i s) = (starts s)[i := t]" "start_generation t = Suc (share_generation s)" "begun t"
    using begin_start_starts [OF assms(2)] by blast
  have l: "line_ok (share_generation s) (sharing s) (starts s)" using assms(1) by (simp add: capture_inv_def)
  have "sharing s = None" by (rule line_okD(4) [OF l assms(2,3)])
  with line_begins [OF l assms(2,3) t(3,2)] assms(1) t(1) show ?thesis
    by (simp add: capture_inv_def kept_def begin_start_generation)
qed

text \<open>A call of \<open>start\<close> while no other waits for its \<open>stop\<close>.\<close>

lemma capture_inv_start:
  assumes "capture_inv s" "list_all begun (starts s)"
  shows "capture_inv (start_share env options ids s)"
proof -
  let ?t = "\<lparr>start_options = options, start_peers = ids, start_generation = 0, start_profile = Baseline, start_capture = None,
               start_connection = False, start_phase = Stopping\<rparr>"
  have l: "line_ok (share_generation s) (sharing s) (starts s)" and k: "kept s" using assms(1) by (simp_all add: capture_inv_def)
  show ?thesis
  proof (cases "sharing s = None")
    case False
    with line_appends [OF l assms(2), of ?t] capture_inv_stop [OF assms(1), of env] show ?thesis
      by (simp add: start_share_def capture_inv_def kept_def begun_def)
  next
    case True
    let ?s = "s\<lparr>starts := starts s @ [?t]\<rparr>"
    obtain t where t: "starts (begin_start env (length (starts s)) ?s) = (starts s @ [?t])[length (starts s) := t]"
        "start_generation t = Suc (share_generation s)" "begun t"
      using begin_start_starts [of "length (starts s)" ?s env] by auto
    with line_appends [OF l assms(2), of t] k True show ?thesis
      by (simp add: start_share_def capture_inv_def kept_def begin_start_generation)
  qed
qed

lemma capture_inv_chosen:
  assumes "capture_inv s" "i < length (starts s)" "hoping (starts s ! i)"
  shows "capture_inv (profile_chosen env i profile s)"
proof -
  obtain t where t: "starts (profile_chosen env i profile s) = (starts s)[i := t]" "start_generation t = start_generation (starts s ! i)" "begun t"
    using profile_chosen_starts by blast
  show ?thesis
    by (rule capture_inv_settles [OF assms(1,2) hoping_begun [OF assms(3)] t(1)]) (simp_all add: t assms(3))
qed

lemma capture_inv_resumes:
  assumes "capture_inv s" "i < length (starts s)"
  shows "capture_inv (start_resumes env i s)"
proof -
  note failing = capture_inv_fails [OF assms] and choosing = capture_inv_chosen [OF assms]
  show ?thesis
  proof (cases "start_phase (starts s ! i)")
    case Stopping
    then show ?thesis using capture_inv_begin [OF assms] by (simp add: start_resumes_def begun_def)
  next
    case (Asking_common q)
    then have h: "hoping (starts s ! i)" by (simp add: hoping_def)
    show ?thesis using assms(1) failing [OF hoping_begun [OF h]] choosing [OF h] Asking_common by (simp add: start_resumes_def Let_def)
  next
    case (Asking_all q)
    then have h: "hoping (starts s ! i)" by (simp add: hoping_def)
    have "capture_inv (start_at i Superseded s)"
      by (rule capture_inv_settles [OF assms hoping_begun [OF h] start_at_starts]) (simp_all add: begun_def hoping_def)
    moreover have "capture_inv (request_capture i profile s)" for profile
      by (rule capture_inv_settles [OF assms hoping_begun [OF h], of _ "(starts s ! i)\<lparr>start_profile := profile, start_phase := Capturing\<rparr>"])
         (simp_all add: request_capture_def starts_simps begun_def h)
    ultimately show ?thesis using assms(1) failing [OF hoping_begun [OF h]] Asking_all by (simp add: start_resumes_def Let_def)
  qed (simp_all add: start_resumes_def assms(1))
qed

lemma capture_inv_answer:
  assumes "capture_inv s" "i < length (starts s)"
  shows "capture_inv (capture_answer i result s)"
proof (cases "start_phase (starts s ! i) = Capturing")
  case True
  then have h: "hoping (starts s ! i)" by (simp add: hoping_def)
  note b = hoping_begun [OF h]
  have l: "line_ok (share_generation s) (sharing s) (starts s)" and kept: "kept s" using assms(1) by (simp_all add: capture_inv_def)
  show ?thesis
  proof (cases result)
    case None
    then show ?thesis using capture_inv_fails [OF assms b] True by (simp add: capture_answer_def)
  next
    case (Some r)
    obtain name rate bitrate where r: "r = (name, rate, bitrate)" by (cases r) auto
    let ?t = "(starts s ! i)\<lparr>start_capture := Some (length (captures s)), start_phase := Superseded\<rparr>"
    let ?u = "(starts s ! i)\<lparr>start_capture := Some (length (captures s)), start_phase := Listening (length (captures s))\<rparr>"
    show ?thesis
    proof (cases "outdated i s")
      case True
      have "line_ok (share_generation s) (sharing s) ((starts s)[i := ?t])"
        by (rule line_settles [OF l assms(2) b]) (simp_all add: begun_def hoping_def)
      then show ?thesis using True Some r kept \<open>start_phase (starts s ! i) = Capturing\<close> assms(2)
        by (auto simp: capture_answer_def capture_inv_def kept_def outdated_def starts_simps less_Suc_eq Let_def)
    next
      case False
      have current: "start_generation (starts s ! i) = share_generation s" using False by (simp add: outdated_def)
      have "sharing s = None" by (rule line_okD(3) [OF l assms(2) h current])
      moreover have "line_ok (share_generation s) (Some (length (captures s))) ((starts s)[i := ?u])"
        by (rule line_gets [OF l assms(2) h current]) (simp_all add: begun_def hoping_def current)
      ultimately show ?thesis using False Some r kept \<open>start_phase (starts s ! i) = Capturing\<close> assms(2)
        by (auto simp: capture_answer_def capture_inv_def kept_def outdated_def starts_simps less_Suc_eq Let_def)
    qed
  qed
qed (simp add: capture_answer_def assms(1))

lemma capture_inv_throws:
  assumes "capture_inv s" "i < length (starts s)" "begun (starts s ! i)"
  shows "capture_inv (start_throws env i k s)"
proof -
  have "capture_inv (start_fails why i (stop_share env s))" for why
    by (rule capture_inv_fails [OF capture_inv_stop [OF assms(1)]]) (simp_all add: assms)
  then show ?thesis using capture_inv_fails [OF assms] by (simp add: start_throws_def)
qed

lemma capture_inv_moves:
  assumes "capture_inv s" "i < length (starts s)" "begun (starts s ! i)"
    and "begun t" "start_generation t = start_generation (starts s ! i)" "\<not> hoping t"
    and "starts s' = (starts s)[i := t]" "share_generation s' = share_generation s" "sharing s' = sharing s" "captures s' = captures s"
      "\<And>k. stopped s' k = stopped s k"
  shows "capture_inv s'"
  by (rule capture_inv_settles [OF assms(1-3,7,4,5)]) (use assms in auto)

lemma capture_inv_proceeds:
  assumes "capture_inv s" "i < length (starts s)"
  shows "capture_inv (start_proceeds env i ok s)"
proof -
  note throws = capture_inv_throws [OF assms] and moves = capture_inv_moves [OF assms]
  have at: "capture_inv (start_at i ph u)"
    if "begun (starts s ! i)" "ph = Sharing \<or> ph = Superseded \<or> ph = Preview_offering k \<or> ph = Preview_answering k"
      "u = s \<or> u = s\<lparr>share_listener := Some i\<rparr>" for ph u k
    by (rule moves [OF that(1), of "(starts s ! i)\<lparr>start_phase := ph\<rparr>"]) (use that(2,3) in \<open>auto simp: begun_def hoping_def starts_simps\<close>)
  have describing: "capture_inv (set_start i (\<lambda>t. t\<lparr>start_connection := True, start_phase := Preview_describing k\<rparr>) (s\<lparr>share_preview := Some i\<rparr>))"
    if "begun (starts s ! i)" for k
    by (rule moves [OF that, of "(starts s ! i)\<lparr>start_connection := True, start_phase := Preview_describing k\<rparr>"])
       (simp_all add: begun_def hoping_def starts_simps)
  have logs: "capture_inv (share_effect e u)" if "capture_inv u" for e u
    by (rule capture_inv_same [OF _ _ _ _ _ that]) simp_all
  have later: "start_at i ph (share_effect e u) = share_effect e (start_at i ph u)" for ph e u
    by (simp add: start_at_def set_start_def share_effect_def)
  show ?thesis
  proof (cases "begun (starts s ! i)")
    case True
    show ?thesis
      unfolding start_proceeds_def
      by (cases "start_phase (starts s ! i)")
         (simp_all add: assms(1) throws [OF True] at [OF True] describing [OF True] logs later Let_def)
  qed (simp add: start_proceeds_def begun_def assms(1))
qed

lemma capture_inv_host_ended: "capture_inv s \<Longrightarrow> capture_inv (host_ended env name why s)"
  using capture_inv_stop [of "share_effect (Share_ended why) s" env] capture_inv_same [of "share_effect (Share_ended why) s" s]
  by (auto simp: host_ended_def split: option.split)

lemma capture_inv_dispose: "capture_inv s \<Longrightarrow> capture_inv (dispose_sender env s)"
  using capture_inv_stop [of "s\<lparr>sender_disposed := True\<rparr>" env] capture_inv_same [of "s\<lparr>sender_disposed := True\<rparr>" s]
    capture_inv_same [of "dispose_sender env s" "stop_share env (s\<lparr>sender_disposed := True\<rparr>)"]
  by (simp add: dispose_sender_def)

text \<open>The steps that concern viewers, questions and servers leave captures alone.\<close>

definition same_captures :: "native_sender \<Rightarrow> native_sender \<Rightarrow> bool" where
  "same_captures s' s \<longleftrightarrow> share_generation s' = share_generation s \<and> sharing s' = sharing s \<and> starts s' = starts s \<and>
     captures s' = captures s \<and> (\<forall>k. stopped s' k = stopped s k)"

lemma capture_inv_alike: "same_captures s' s \<Longrightarrow> capture_inv s' = capture_inv s"
  by (auto simp: same_captures_def capture_inv_def kept_def)

fun concerns_capture :: "share_event \<Rightarrow> bool" where
  "concerns_capture (Start options ids) = True"
| "concerns_capture (Start_resumes i) = True"
| "concerns_capture (Capture_answer i r) = True"
| "concerns_capture (Start_proceeds i ok) = True"
| "concerns_capture (Host_ended name why) = True"
| "concerns_capture Stop = True"
| "concerns_capture Dispose_sender = True"
| "concerns_capture _ = False"

lemmas viewer_steps = preview_track_def add_viewer_def add_resumes_def add_proceeds_def remove_viewer_def forget_viewer_def end_outbound_peer_def
  remove_outbound_peer_def fallback_requested_by_def removal_settles_def profile_query_received_def profile_reply_received_def query_timer_fires_def
  viewer_answered_def viewer_candidate_def probe_peers_def probe_resumes_def set_ice_servers_def ice_turn_def ice_answer_def

lemma others_same_captures: "\<not> concerns_capture e \<Longrightarrow> same_captures (share_step env s e) s"
  by (cases e) (simp_all add: same_captures_def viewer_steps Let_def split: option.split list.split removal_kind.split add_phase.split)

definition one_start_step :: "share_env \<Rightarrow> native_sender \<Rightarrow> share_event \<Rightarrow> native_sender" where
  "one_start_step env s e =
     (case e of
        Start options ids \<Rightarrow> if list_all begun (starts s) then share_step env s e else s
      | _ \<Rightarrow> share_step env s e)"

lemma capture_inv_step: "capture_inv s \<Longrightarrow> capture_inv (one_start_step env s e)"
proof (cases "concerns_capture e")
  case False
  then show "capture_inv s \<Longrightarrow> capture_inv (one_start_step env s e)"
    using capture_inv_alike [OF others_same_captures [OF False]] by (cases e) (simp_all add: one_start_step_def)
next
  case True
  assume "capture_inv s"
  with True show "capture_inv (one_start_step env s e)"
    by (cases e) (simp_all add: one_start_step_def capture_inv_start capture_inv_resumes capture_inv_answer capture_inv_proceeds
        capture_inv_host_ended capture_inv_stop capture_inv_dispose)
qed

interpretation capturing: event_machine "one_start_step env" capture_inv
  by unfold_locales (rule capture_inv_step)

lemma capture_inv_new: "capture_inv (new_sender servers direct)"
  by (simp add: capture_inv_def kept_def line_ok_def new_sender_def)

text \<open>
  C8. No capture is left running: when a call of \<open>start\<close> is not made while another still waits
  for its \<open>stop\<close>, every capture the host has ever started is the one being shared or has been
  told to stop.
\<close>

theorem no_capture_is_left:
  assumes "s = foldl (one_start_step env) (new_sender servers direct) es" "k < length (captures s)"
  shows "sharing s = Some k \<or> Host_stop k \<in> set (share_effects s)"
proof -
  have "capture_inv s" unfolding assms(1) by (rule capturing.run_inv [OF capture_inv_new])
  then show ?thesis using assms(2) by (auto simp: capture_inv_def kept_def stopped_def)
qed

definition plain_share :: share_env where
  "plain_share = \<lparr>codecs = [], uuid = (\<lambda>n. decimal n), local_peer = ''me'', media_host = True, external_preview = True, cancels_pending = False\<rparr>"

definition any_screen :: share_options where
  "any_screen = \<lparr>source_id = ''screen'', frame_rate = 30, bitrate_mbps = 5, content_hint = None, requested_profile = None\<rparr>"

lemmas share_eval = share_step.simps start_share_def start_resumes_def begin_start_def profile_chosen_def request_capture_def capture_answer_def
  start_proceeds_def stop_share_def finish_profile_queries_def finish_query_def query_profiles_def start_at_def set_start_def start_fails_def
  current_peers_def js_set_def best_local_profile_def native_h264_profile_supported_def outdated_def logged_def share_effect_def new_sender_def
  plain_share_def any_screen_def viewer_steps profiles_known_def add_at_def add_current_def add_throws_def begin_removal_def native_ice_servers_def

definition superseded_share :: native_sender where
  "superseded_share = foldl (one_start_step plain_share) (new_sender [] False)
     [Start any_screen [], Start any_screen [], Capture_answer 0 (Some (''c'', 30, 5))]"

lemma superseded_share_eval: "length (captures superseded_share) = 1" "sharing superseded_share = None"
  by (simp_all add: superseded_share_def one_start_step_def share_eval begun_def Let_def)

lemma no_capture_is_left_witness: "Host_stop 0 \<in> set (share_effects superseded_share)"
  using no_capture_is_left [OF superseded_share_def, of 0] by (simp add: superseded_share_eval)

text \<open>
  Without that premise a capture is lost: a call of \<open>start\<close> that waits for its own \<open>stop\<close> does
  not look again, and puts its capture over the one that has come meanwhile.
\<close>

theorem capture_started_meanwhile_is_lost:
  "let s = foldl (share_step plain_share) (new_sender [] False)
       [Start any_screen [], Capture_answer 0 (Some (''c'', 30, 5)), Start any_screen [], Start any_screen [],
        Capture_answer 2 (Some (''d'', 30, 5)), Start_resumes 1, Capture_answer 1 (Some (''e'', 30, 5)), Stop]
   in length (captures s) = 3 \<and> sharing s = None \<and> Host_stop 1 \<notin> set (share_effects s)"
  by (simp add: share_eval Let_def)

text \<open>
  A viewer who leaves and comes back while the host is still removing him is not offered the
  share again: \<open>addPeer\<close> takes him for connected, and the removal then forgets him.
\<close>

theorem returning_viewer_gets_no_share:
  "let s = foldl (share_step plain_share) (new_sender [] False)
       [Start any_screen [], Capture_answer 0 (Some (''c'', 30, 5)), Add_viewer ''b'', Query_timer 0, Add_resumes 0, Add_proceeds 0 True,
        Add_proceeds 0 True, Remove_viewer ''b'', Add_viewer ''b'', Removal_settles 0 True]
   in sharing s = Some 0 \<and> outbound_peers s = [] \<and> length (adds s) = 1 \<and> filter (\<lambda>e. e = Share_offered ''b'' 0) (share_effects s) = [Share_offered ''b'' 0]"
  by code_simp

section \<open>Viewers and their profiles\<close>

text \<open>What participants have advertised is a predicate; the theorem instantiates it with the events.\<close>

definition map_fits :: "(string \<Rightarrow> h264_profile \<Rightarrow> bool) \<Rightarrow> (string, h264_profile list) jsmap \<Rightarrow> bool" where
  "map_fits adv m = list_all (\<lambda>(p, ps). list_all (adv p) ps) m"

fun effect_ok :: "(string \<Rightarrow> h264_profile \<Rightarrow> bool) \<Rightarrow> share_env \<Rightarrow> h264_profile list \<Rightarrow> string list list \<Rightarrow> share_effect \<Rightarrow> bool" where
  "effect_ok adv env encs peers (Offer_requested k p servers) \<longleftrightarrow> k < length encs \<and> (encs ! k = Baseline \<or> adv p (encs ! k))"
| "effect_ok adv env encs peers (Host_start i profile) \<longleftrightarrow>
     i < length peers \<and> supports env profile \<and> (profile = Baseline \<or> (\<forall>p\<in>set (peers ! i) - {local_peer env}. adv p profile))"
| "effect_ok adv env encs peers _ = True"

definition asking_ok :: "share_env \<Rightarrow> start_task \<Rightarrow> bool" where
  "asking_ok env t = (case start_phase t of Asking_all q \<Rightarrow> supports env (start_profile t) | _ \<Rightarrow> True)"

definition effects_fit :: "(string \<Rightarrow> h264_profile \<Rightarrow> bool) \<Rightarrow> share_env \<Rightarrow> native_sender \<Rightarrow> bool" where
  "effects_fit adv env s = list_all (effect_ok adv env (map encoded (captures s)) (map start_peers (starts s))) (share_effects s)"

definition session_ok :: "native_sender \<Rightarrow> bool" where
  "session_ok s \<longleftrightarrow> (\<forall>k. sharing s = Some k \<longrightarrow> k < length (captures s) \<and> active_profile s = encoded (captures s ! k))"

definition fit_inv :: "(string \<Rightarrow> h264_profile \<Rightarrow> bool) \<Rightarrow> share_env \<Rightarrow> native_sender \<Rightarrow> bool" where
  "fit_inv adv env s \<longleftrightarrow> list_all (\<lambda>x. map_fits adv (query_replies x)) (query_objects s) \<and> map_fits adv (peer_profiles s) \<and>
     effects_fit adv env s \<and> list_all (asking_ok env) (starts s) \<and> session_ok s"

lemma map_fits_get: "map_fits adv m \<Longrightarrow> jget m p = Some ps \<Longrightarrow> profile \<in> set ps \<Longrightarrow> adv p profile"
  using list_all_jget [of "\<lambda>(p, ps). list_all (adv p) ps" m p ps] by (auto simp: map_fits_def list_all_iff)

lemma map_fits_set: "map_fits adv m \<Longrightarrow> list_all (adv p) ps \<Longrightarrow> map_fits adv (jset m p ps)"
  by (simp add: map_fits_def list_all_jset)

lemma map_fits_Nil [simp]: "map_fits adv []"
  by (simp add: map_fits_def)

lemma effect_ok_grows: "effect_ok adv env encs peers e \<Longrightarrow> effect_ok adv env (encs @ xs) (peers @ ys) e"
  by (cases e) (auto simp: nth_append)

lemma effects_fit_grows:
  assumes "effects_fit adv env s" "share_effects s' = share_effects s" "captures s' = captures s @ xs" "starts s' = starts s @ ts"
  shows "effects_fit adv env s'"
  using assms by (auto simp: effects_fit_def list_all_iff intro: effect_ok_grows)

lemma effects_fit_effect [simp]:
  "effects_fit adv env (share_effect e s) \<longleftrightarrow> effects_fit adv env s \<and> effect_ok adv env (map encoded (captures s)) (map start_peers (starts s)) e"
  by (auto simp: effects_fit_def share_effect_def)

lemma list_all_update_at: "list_all P xs \<Longrightarrow> (i < length xs \<Longrightarrow> P x) \<Longrightarrow> list_all P (xs[i := x])"
  by (cases "i < length xs") (auto simp: list_all_length nth_list_update)

lemma fit_effect [simp]:
  "fit_inv adv env (share_effect e s) \<longleftrightarrow> fit_inv adv env s \<and> effect_ok adv env (map encoded (captures s)) (map start_peers (starts s)) e"
  by (auto simp: fit_inv_def session_ok_def)

lemma fit_logged: "fit_inv adv env s \<Longrightarrow> (\<And>x. e = Some x \<Longrightarrow> effect_ok adv env (map encoded (captures s)) (map start_peers (starts s)) x) \<Longrightarrow> fit_inv adv env (logged e s)"
  by (auto simp: logged_def split: option.split)

lemma fit_same:
  assumes "query_objects s' = query_objects s" "peer_profiles s' = peer_profiles s \<or> peer_profiles s' = []" "share_effects s' = share_effects s"
    "captures s' = captures s" "starts s' = starts s" "sharing s' = sharing s \<and> active_profile s' = active_profile s \<or> sharing s' = None"
  shows "fit_inv adv env s \<Longrightarrow> fit_inv adv env s'"
  using assms by (auto simp: fit_inv_def effects_fit_def session_ok_def)

lemma fit_finish_query:
  assumes "fit_inv adv env s"
  shows "fit_inv adv env (finish_query s q)"
proof -
  have "list_all (\<lambda>x. map_fits adv (query_replies x)) (query_objects (finish_query s q))"
  proof -
    have "list_all (\<lambda>x. map_fits adv (query_replies x)) ((query_objects s)[q := (query_objects s ! q)\<lparr>query_timer := False, query_settled := True\<rparr>])"
      by (rule list_all_update_at) (use assms in \<open>auto simp: fit_inv_def list_all_length\<close>)
    then show ?thesis using assms by (simp add: finish_query_def fit_inv_def Let_def)
  qed
  moreover have "share_effects (finish_query s q) = share_effects s" by simp
  ultimately show ?thesis using assms by (simp add: fit_inv_def effects_fit_def session_ok_def)
qed

lemma fit_finish_queries: "fit_inv adv env s \<Longrightarrow> fit_inv adv env (finish_profile_queries s)"
  unfolding finish_profile_queries_def
  by (rule fit_same [of _ "foldl finish_query s (jvals (pending_queries s))"]) (simp_all add: foldl_keeps fit_finish_query)

lemma fit_query_profiles:
  assumes "fit_inv adv env s"
  shows "fit_inv adv env (query_profiles env' ids s)"
  using assms by (auto simp: fit_inv_def query_profiles_def effects_fit_def session_ok_def list_all_iff Let_def)

lemma fit_stop:
  assumes "fit_inv adv env s"
  shows "fit_inv adv env (stop_share env' s)"
proof -
  define u where "u = (finish_profile_queries (s\<lparr>share_generation := Suc (share_generation s)\<rparr>))
    \<lparr>sharing := None, active_profile := Baseline, active_hint := Detail, peer_profiles := [], peer_runtimes := []\<rparr>"
  define v where "v = logged (map_option Unlistened (share_listener s)) u"
  define w where "w = share_effect Preview_gone (logged (map_option Preview_closed (share_preview s)) (v\<lparr>share_listener := None\<rparr>))"
  have "fit_inv adv env (s\<lparr>share_generation := Suc (share_generation s)\<rparr>)"
    by (rule fit_same [OF _ _ _ _ _ _ assms]) simp_all
  from fit_finish_queries [OF this] have "fit_inv adv env u" unfolding u_def by (rule fit_same [rotated -1]) simp_all
  then have "fit_inv adv env v" unfolding v_def by (rule fit_logged) auto
  then have "fit_inv adv env (v\<lparr>share_listener := None\<rparr>)" by (rule fit_same [rotated -1]) simp_all
  then have w: "fit_inv adv env w" unfolding w_def by (auto intro!: fit_logged)
  then have w': "fit_inv adv env (w\<lparr>share_preview := None\<rparr>)" by (rule fit_same [rotated -1]) simp_all
  have end_: "fit_inv adv env (w\<lparr>share_preview := None, outbound_peers := [], share_effects := share_effects w @ map (\<lambda>p. Stop_sent p k) ps @ [Host_stop k]\<rparr>)"
    for k ps using w by (auto simp: fit_inv_def effects_fit_def session_ok_def list_all_iff)
  have "stop_share env' s = (case sharing s of None \<Rightarrow> if cancels_pending env' then share_effect Pending_cancelled (w\<lparr>share_preview := None\<rparr>) else w\<lparr>share_preview := None\<rparr>
    | Some k \<Rightarrow> w\<lparr>share_preview := None, outbound_peers := [], share_effects := share_effects w @ map (\<lambda>p. Stop_sent p k) (outbound_peers s) @ [Host_stop k]\<rparr>)"
    by (simp add: stop_share_def w_def v_def u_def Let_def split: option.split)
  then show ?thesis using w' end_ by (simp split: option.split)
qed

lemma fit_set_start:
  assumes "fit_inv adv env s" "i < length (starts s)" "start_peers (f (starts s ! i)) = start_peers (starts s ! i)" "asking_ok env (f (starts s ! i))"
  shows "fit_inv adv env (set_start i f s)"
proof -
  have "map start_peers ((starts s)[i := f (starts s ! i)]) = map start_peers (starts s)" by (rule map_update_same) (rule assms(3))
  moreover have "list_all (asking_ok env) ((starts s)[i := f (starts s ! i)])"
    by (rule list_all_update_at) (use assms in \<open>simp_all add: fit_inv_def\<close>)
  ultimately show ?thesis using assms(1) by (simp add: fit_inv_def effects_fit_def session_ok_def set_start_starts)
qed

lemma fit_start_at:
  assumes "fit_inv adv env s" "i < length (starts s)" "\<And>q. ph \<noteq> Asking_all q"
  shows "fit_inv adv env (start_at i ph s)"
  unfolding start_at_def by (rule fit_set_start [OF assms(1,2)]) (use assms(3) in \<open>auto simp: asking_ok_def split: start_phase.split\<close>)

lemma fit_start_fails: "fit_inv adv env s \<Longrightarrow> i < length (starts s) \<Longrightarrow> fit_inv adv env (start_fails why i s)"
  by (simp add: start_fails_def fit_start_at)

definition wanted :: "(string \<Rightarrow> h264_profile \<Rightarrow> bool) \<Rightarrow> share_env \<Rightarrow> string list \<Rightarrow> h264_profile \<Rightarrow> bool" where
  "wanted adv env ids profile \<longleftrightarrow> profile = Baseline \<or> (\<forall>p\<in>set ids - {local_peer env}. adv p profile)"

lemma fit_request_capture:
  assumes "fit_inv adv env s" "i < length (starts s)" "supports env profile" "wanted adv env (start_peers (starts s ! i)) profile"
  shows "fit_inv adv env (request_capture i profile s)"
proof -
  have "fit_inv adv env (set_start i (\<lambda>t. t\<lparr>start_profile := profile, start_phase := Capturing\<rparr>) s)"
    by (rule fit_set_start [OF assms(1,2)]) (simp_all add: asking_ok_def)
  then show ?thesis using assms by (auto simp: request_capture_def set_start_starts wanted_def)
qed

lemma set_js_set_from: "set (foldl (\<lambda>ys x. sadd x ys) ys xs) = set ys \<union> set xs"
  by (induction xs arbitrary: ys) auto

lemma set_js_set [simp]: "set (js_set xs) = set xs"
  by (simp add: js_set_def set_js_set_from)

lemma set_current_peers [simp]: "set (current_peers env ids) = set ids - {local_peer env}"
  by (auto simp: current_peers_def)

lemma current_peers_empty: "current_peers env ids = [] \<longleftrightarrow> set ids \<subseteq> {local_peer env}"
  by (metis Diff_eq_empty_iff set_current_peers set_empty)

lemma asking_generation [simp]: "asking_ok env (t\<lparr>start_generation := g\<rparr>) = asking_ok env t"
  by (simp add: asking_ok_def split: start_phase.split)

lemma fit_asking: "fit_inv adv env s \<Longrightarrow> i < length (starts s) \<Longrightarrow> asking_ok env (starts s ! i)"
  by (simp add: fit_inv_def list_all_length)

lemma fit_profile_chosen:
  assumes "fit_inv adv env s" "i < length (starts s)"
    and "requested_profile (start_options (starts s ! i)) = None \<Longrightarrow> wanted adv env (start_peers (starts s ! i)) profile"
  shows "fit_inv adv env (profile_chosen env i profile s)"
proof -
  have "wanted adv env (start_peers (starts s ! i)) profile"
    if "\<not> (requested_profile (start_options (starts s ! i)) \<noteq> None \<and> profile \<noteq> Baseline \<and> current_peers env (start_peers (starts s ! i)) \<noteq> [])"
    using that assms(3) by (auto simp: wanted_def current_peers_empty)
  moreover have "fit_inv adv env (set_start i (\<lambda>t. t\<lparr>start_profile := profile, start_phase := Asking_all q\<rparr>) s)" if "supports env profile" for q
    by (rule fit_set_start [OF assms(1,2)]) (simp_all add: asking_ok_def that)
  ultimately show ?thesis
    using assms(1,2) by (auto simp: profile_chosen_def fit_start_at fit_start_fails fit_request_capture fit_query_profiles Let_def)
qed

lemma fit_begin_start:
  assumes "fit_inv adv env s" "i < length (starts s)"
  shows "fit_inv adv env (begin_start env i s)"
proof -
  define u where "u = set_start i (\<lambda>t. t\<lparr>start_generation := Suc (share_generation s)\<rparr>) (s\<lparr>share_generation := Suc (share_generation s)\<rparr>)"
  have "fit_inv adv env (s\<lparr>share_generation := Suc (share_generation s)\<rparr>)"
    by (rule fit_same [OF _ _ _ _ _ _ assms(1)]) simp_all
  then have u: "fit_inv adv env u" "i < length (starts u)"
    unfolding u_def using assms by (simp_all add: fit_set_start fit_asking set_start_starts)
  have "start_options (starts u ! i) = start_options (starts s ! i)" "start_peers (starts u ! i) = start_peers (starts s ! i)"
    using assms(2) by (simp_all add: u_def set_start_starts)
  moreover have "wanted adv env ids profile" if "current_peers env ids = []" for ids profile
    using that by (auto simp: wanted_def current_peers_empty)
  ultimately show ?thesis
    using u by (auto simp: begin_start_def u_def [symmetric] fit_start_fails fit_query_profiles fit_start_at Let_def intro!: fit_profile_chosen split: option.split)
qed

lemma fit_start_share:
  assumes "fit_inv adv env s"
  shows "fit_inv adv env (start_share env options ids s)"
proof -
  have more: "fit_inv adv env (u\<lparr>starts := starts u @ [t]\<rparr>)" if "fit_inv adv env u" "start_phase t = Stopping" for u t
    using that effects_fit_grows [of adv env u "u\<lparr>starts := starts u @ [t]\<rparr>" "[]" "[t]"] by (simp add: fit_inv_def session_ok_def asking_ok_def)
  show ?thesis
    using more [OF assms] more [OF fit_stop [OF assms, of env]] by (simp add: start_share_def fit_begin_start Let_def)
qed

lemma common_profile_wanted:
  assumes "map_fits adv replies"
  shows "wanted adv env ids (common_profile env (current_peers env ids) replies)"
proof -
  have "adv p profile" if "list_all (decodes replies profile) (current_peers env ids)" "p \<in> set ids" "p \<noteq> local_peer env" for p profile
    using that map_fits_get [OF assms, of p] by (force simp: list_all_iff decodes_def split: option.splits)
  then show ?thesis by (auto simp: wanted_def common_profile_def Let_def)
qed

lemma fit_replies: "fit_inv adv env s \<Longrightarrow> q < length (query_objects s) \<Longrightarrow> map_fits adv (query_replies (query_objects s ! q))"
  by (simp add: fit_inv_def list_all_length)

section \<open>Questions come to an end\<close>

definition known :: "nat \<Rightarrow> nat option \<Rightarrow> bool" where
  "known n q \<longleftrightarrow> (case q of None \<Rightarrow> True | Some q \<Rightarrow> q < n)"

definition start_asks :: "start_task \<Rightarrow> nat option" where
  "start_asks t = (case start_phase t of Asking_common q \<Rightarrow> Some q | Asking_all q \<Rightarrow> Some q | _ \<Rightarrow> None)"

definition add_asks :: "add_task \<Rightarrow> nat option" where
  "add_asks t = (case add_phase t of Asking q \<Rightarrow> Some q | _ \<Rightarrow> None)"

definition asked_inv :: "native_sender \<Rightarrow> bool" where
  "asked_inv s \<longleftrightarrow> (let n = length (query_objects s) in
     list_all (\<lambda>t. known n (start_asks t)) (starts s) \<and> list_all (\<lambda>t. known n (add_asks t)) (adds s) \<and>
     list_all (\<lambda>b. known n (probe_query b)) (probes s) \<and> list_all (\<lambda>x. query_settled x \<or> query_timer x) (query_objects s))"

lemma known_simps [simp]: "known n None" "known n (Some q) \<longleftrightarrow> q < n"
  by (simp_all add: known_def)

lemma known_more: "known n q \<Longrightarrow> n \<le> m \<Longrightarrow> known m q"
  by (cases q) simp_all

lemma asked_inv_same:
  assumes "query_objects s' = query_objects s" "starts s' = starts s" "adds s' = adds s" "probes s' = probes s"
  shows "asked_inv s \<Longrightarrow> asked_inv s'"
  using assms by (simp add: asked_inv_def)

lemma asked_share_effect [simp]: "asked_inv (share_effect e s) = asked_inv s"
  by (simp add: asked_inv_def)

lemma asked_fields [simp]:
  "asked_inv (s\<lparr>share_generation := x0\<rparr>) = asked_inv s" "asked_inv (s\<lparr>sharing := x1\<rparr>) = asked_inv s" "asked_inv (s\<lparr>captures := x2\<rparr>) = asked_inv s"
  "asked_inv (s\<lparr>sender_disposed := x3\<rparr>) = asked_inv s" "asked_inv (s\<lparr>share_listener := x4\<rparr>) = asked_inv s"
  "asked_inv (s\<lparr>share_preview := x5\<rparr>) = asked_inv s" "asked_inv (s\<lparr>active_profile := x6\<rparr>) = asked_inv s"
  "asked_inv (s\<lparr>active_hint := x7\<rparr>) = asked_inv s" "asked_inv (s\<lparr>outbound_peers := x8\<rparr>) = asked_inv s"
  "asked_inv (s\<lparr>pending_queries := x9\<rparr>) = asked_inv s" "asked_inv (s\<lparr>share_effects := x10\<rparr>) = asked_inv s"
  "asked_inv (s\<lparr>peer_profiles := x11\<rparr>) = asked_inv s" "asked_inv (s\<lparr>peer_runtimes := x12\<rparr>) = asked_inv s"
  "asked_inv (s\<lparr>ice_servers := x13\<rparr>) = asked_inv s" "asked_inv (s\<lparr>ice_queue := x14\<rparr>) = asked_inv s"
  "asked_inv (s\<lparr>ice_busy := x15\<rparr>) = asked_inv s" "asked_inv (s\<lparr>removals := x16\<rparr>) = asked_inv s"
  by (simp_all add: asked_inv_def)

lemma asked_logged [simp]: "asked_inv (logged e s) = asked_inv s"
  by (simp add: logged_def split: option.split)

lemma asked_begin_removal [simp]: "asked_inv (begin_removal kind p s) = asked_inv s"
  by (simp add: begin_removal_def)

lemma asked_replies:
  assumes "asked_inv s" "query_settled x \<or> query_timer x"
  shows "asked_inv (s\<lparr>query_objects := (query_objects s)[q := x]\<rparr>)"
  using assms list_all_update_at [of "\<lambda>x. query_settled x \<or> query_timer x" "query_objects s" q x] by (simp add: asked_inv_def Let_def)

lemma asked_finish: "asked_inv s \<Longrightarrow> asked_inv (finish_query s q)"
  using asked_replies [of s "(query_objects s ! q)\<lparr>query_timer := False, query_settled := True\<rparr>" q]
  by (simp add: finish_query_def Let_def)

lemma asked_finish_all: "asked_inv s \<Longrightarrow> asked_inv (finish_profile_queries s)"
  by (simp add: finish_profile_queries_def foldl_keeps asked_finish)

lemma asked_stop_share: "asked_inv s \<Longrightarrow> asked_inv (stop_share env s)"
  using asked_finish_all [of "s\<lparr>share_generation := Suc (share_generation s)\<rparr>"]
  by (simp add: stop_share_def Let_def split: option.split)

lemma query_profiles_length [simp]: "length (query_objects (query_profiles env ids s)) = Suc (length (query_objects s))"
  by (simp add: query_profiles_def Let_def)

text \<open>A question may be asked by the task that is about to wait for it.\<close>

definition asking_inv :: "native_sender \<Rightarrow> bool" where
  "asking_inv s \<longleftrightarrow> (let n = Suc (length (query_objects s)) in
     list_all (\<lambda>t. known n (start_asks t)) (starts s) \<and> list_all (\<lambda>t. known n (add_asks t)) (adds s) \<and>
     list_all (\<lambda>b. known n (probe_query b)) (probes s) \<and> list_all (\<lambda>x. query_settled x \<or> query_timer x) (query_objects s))"

lemma asked_asking: "asked_inv s \<Longrightarrow> asking_inv s"
  by (auto simp: asked_inv_def asking_inv_def Let_def list_all_iff intro: known_more)

lemma asked_query: "asking_inv s \<Longrightarrow> asked_inv (query_profiles env ids s)"
  by (simp add: asked_inv_def asking_inv_def query_profiles_def Let_def)

lemma asking_fields [simp]: "asking_inv (s\<lparr>starts := x\<rparr>) = (list_all (\<lambda>t. known (Suc (length (query_objects s))) (start_asks t)) x \<and>
     list_all (\<lambda>t. known (Suc (length (query_objects s))) (add_asks t)) (adds s) \<and>
     list_all (\<lambda>b. known (Suc (length (query_objects s))) (probe_query b)) (probes s) \<and> list_all (\<lambda>x. query_settled x \<or> query_timer x) (query_objects s))"
  by (simp add: asking_inv_def)

lemma asked_set_start:
  assumes "asked_inv s" "known (length (query_objects s)) (start_asks (f (starts s ! i)))"
  shows "asked_inv (set_start i f s)"
  using assms list_all_update_at [of "\<lambda>t. known (length (query_objects s)) (start_asks t)" "starts s" i "f (starts s ! i)"]
  by (simp add: asked_inv_def Let_def set_start_starts)

lemma asking_set_start:
  assumes "asked_inv s" "known (Suc (length (query_objects s))) (start_asks (f (starts s ! i)))"
  shows "asking_inv (set_start i f s)"
  using asked_asking [OF assms(1)] assms(2) list_all_update_at [of "\<lambda>t. known (Suc (length (query_objects s))) (start_asks t)" "starts s" i "f (starts s ! i)"]
  by (simp add: asking_inv_def Let_def set_start_starts)

lemma asked_add_at:
  assumes "asked_inv s" "\<And>q. ph \<noteq> Asking q"
  shows "asked_inv (add_at a ph s)"
proof -
  have "add_asks ((adds s ! a)\<lparr>add_phase := ph\<rparr>) = None" using assms(2) by (cases ph) (auto simp: add_asks_def)
  then show ?thesis
    using assms(1) list_all_update_at [of "\<lambda>t. known (length (query_objects s)) (add_asks t)" "adds s" a "(adds s ! a)\<lparr>add_phase := ph\<rparr>"]
    by (simp add: asked_inv_def Let_def add_at_def)
qed

lemma start_asks_other [simp]: "(\<And>q. ph \<noteq> Asking_common q \<and> ph \<noteq> Asking_all q) \<Longrightarrow> start_asks (t\<lparr>start_phase := ph\<rparr>) = None"
  by (cases ph) (auto simp: start_asks_def)

lemma start_asks_same [simp]:
  "start_asks (t\<lparr>start_generation := g\<rparr>) = start_asks t" "start_asks (t\<lparr>start_profile := p\<rparr>) = start_asks t"
  "start_asks (t\<lparr>start_capture := k\<rparr>) = start_asks t" "start_asks (t\<lparr>start_connection := c\<rparr>) = start_asks t"
  "start_asks (t\<lparr>start_phase := Asking_common q\<rparr>) = Some q" "start_asks (t\<lparr>start_phase := Asking_all q\<rparr>) = Some q"
  by (simp_all add: start_asks_def split: start_phase.split)

lemma asked_start_at: "asked_inv s \<Longrightarrow> (\<And>q. ph \<noteq> Asking_common q \<and> ph \<noteq> Asking_all q) \<Longrightarrow> asked_inv (start_at i ph s)"
  by (simp add: start_at_def asked_set_start)

lemma asked_start_fails: "asked_inv s \<Longrightarrow> asked_inv (start_fails why i s)"
  by (simp add: start_fails_def asked_start_at)

lemma asked_request: "asked_inv s \<Longrightarrow> asked_inv (request_capture i profile s)"
  using asked_set_start [of s "\<lambda>t. t\<lparr>start_profile := profile, start_phase := Capturing\<rparr>" i] by (simp add: request_capture_def)

lemma asked_chosen: "asked_inv s \<Longrightarrow> asked_inv (profile_chosen env i profile s)"
  by (auto simp: profile_chosen_def asked_start_at asked_start_fails asked_request asking_set_start Let_def intro!: asked_query)

lemma start_known: "asked_inv s \<Longrightarrow> i < length (starts s) \<Longrightarrow> known (length (query_objects s)) (start_asks (starts s ! i))"
  by (simp add: asked_inv_def list_all_length Let_def)

lemma asked_begin:
  assumes "asked_inv s" "i < length (starts s)"
  shows "asked_inv (begin_start env i s)"
proof -
  have "asked_inv (set_start i (\<lambda>t. t\<lparr>start_generation := g\<rparr>) (s\<lparr>share_generation := g\<rparr>))" for g
    by (rule asked_set_start) (use assms start_known in simp_all)
  then show ?thesis
    by (auto simp: begin_start_def start_at_def Let_def asked_start_fails asked_chosen asking_set_start split: option.split intro!: asked_query)
qed

lemma asked_new_start: "asked_inv s \<Longrightarrow> start_asks t = None \<Longrightarrow> asked_inv (s\<lparr>starts := starts s @ [t]\<rparr>)"
  by (simp add: asked_inv_def Let_def)

lemma asked_start: "asked_inv s \<Longrightarrow> asked_inv (start_share env options ids s)"
  using asked_new_start [of s] asked_new_start [of "stop_share env s"]
  by (auto simp: start_share_def asked_stop_share start_asks_def Let_def intro!: asked_begin)

lemma asked_resumes: "asked_inv s \<Longrightarrow> i < length (starts s) \<Longrightarrow> asked_inv (start_resumes env i s)"
  by (auto simp: start_resumes_def asked_begin asked_start_fails asked_chosen asked_start_at asked_request Let_def split: start_phase.split)

lemma asked_capture: "asked_inv s \<Longrightarrow> i < length (starts s) \<Longrightarrow> asked_inv (capture_answer i result s)"
  using start_known [of s i]
  by (auto simp: capture_answer_def asked_start_fails asked_start_at asked_set_start Let_def split: option.split prod.split)

lemma asked_proceeds: "asked_inv s \<Longrightarrow> asked_inv (start_proceeds env i ok s)"
  using asked_set_start [of "s\<lparr>share_preview := Some i\<rparr>" "\<lambda>t. t\<lparr>start_connection := True, start_phase := Preview_describing k\<rparr>" i for k]
  by (auto simp: start_proceeds_def start_throws_def asked_start_fails asked_start_at asked_stop_share Let_def split: start_phase.split)

lemma asked_throws: "asked_inv s \<Longrightarrow> asked_inv (add_throws why a s)"
  by (simp add: add_throws_def asked_add_at)

lemma asked_profiles: "asked_inv s \<Longrightarrow> asked_inv (profiles_known a ps s)"
  by (simp add: profiles_known_def asked_throws asked_add_at)

lemma asked_add:
  assumes "asked_inv s"
  shows "asked_inv (add_viewer env p s)"
proof -
  have new: "asking_inv (s\<lparr>outbound_peers := x, adds := adds s @ [t]\<rparr>)" if "add_phase t = Asking (length (query_objects s))" for t x
    using asked_asking [OF assms] that by (simp add: asking_inv_def add_asks_def Let_def)
  have given: "asked_inv (profiles_known (length (adds s)) ps (s\<lparr>outbound_peers := x, adds := adds s @ [t]\<rparr>))" for ps t x
  proof -
    have off: "asked_inv (add_at (length (adds s)) ph u)"
      if "\<And>q. ph \<noteq> Asking q" "adds u = adds s @ [t]" "starts u = starts s" "probes u = probes s" "query_objects u = query_objects s" for ph u
    proof -
      have "add_asks (t\<lparr>add_phase := ph\<rparr>) = None" using that(1) by (cases ph) (auto simp: add_asks_def)
      then show ?thesis using that(2-5) assms by (simp add: asked_inv_def add_at_def Let_def)
    qed
    show ?thesis by (simp add: profiles_known_def add_throws_def off)
  qed
  show ?thesis
    using assms given new by (auto simp: add_viewer_def Let_def split: option.split intro!: asked_query)
qed

lemma asked_add_resumes: "asked_inv s \<Longrightarrow> asked_inv (add_resumes a s)"
  by (simp add: add_resumes_def asked_throws asked_profiles split: add_phase.split)

lemma asked_add_proceeds: "asked_inv s \<Longrightarrow> asked_inv (add_proceeds a ok s)"
  by (simp add: add_proceeds_def asked_throws asked_add_at split: add_phase.split)

lemma asked_reply: "asked_inv s \<Longrightarrow> asked_inv (profile_reply_received p c nonce advertised runs s)"
proof -
  assume s: "asked_inv s"
  have "asked_inv (s\<lparr>query_objects := (query_objects s)[q := (query_objects s ! q)\<lparr>query_replies := r\<rparr>], peer_profiles := y, peer_runtimes := z\<rparr>)" for q r y z
  proof (cases "q < length (query_objects s)")
    case True
    then show ?thesis using s asked_replies [of s "(query_objects s ! q)\<lparr>query_replies := r\<rparr>" q]
      by (simp add: asked_inv_def list_all_length Let_def)
  qed (use s in \<open>simp add: asked_inv_def list_update_beyond\<close>)
  then show ?thesis using s by (auto simp: profile_reply_received_def Let_def split: option.split intro!: asked_finish)
qed

lemma asked_next_probe:
  assumes "asked_inv s"
  shows "asked_inv (next_probe env j s)"
proof -
  have "asked_inv (s\<lparr>probes := (probes s)[j := b]\<rparr>)" if "probe_query b = None" for b
    using assms list_all_update_at [of "\<lambda>b. known (length (query_objects s)) (probe_query b)" "probes s" j b] that by (simp add: asked_inv_def Let_def)
  moreover have "asking_inv (s\<lparr>probes := (probes s)[j := b]\<rparr>)" if "probe_query b = Some (length (query_objects s))" for b
    using asked_asking [OF assms] list_all_update_at [of "\<lambda>b. known (Suc (length (query_objects s))) (probe_query b)" "probes s" j b] that
    by (simp add: asking_inv_def Let_def)
  ultimately show ?thesis by (auto simp: next_probe_def Let_def intro!: asked_query)
qed

lemma asked_probe: "asked_inv s \<Longrightarrow> asked_inv (probe_peers env ids s)"
  unfolding probe_peers_def by (rule asked_next_probe) (simp add: asked_inv_def Let_def)

lemma asked_probe_resumes:
  assumes "asked_inv s"
  shows "asked_inv (probe_resumes env j s)"
proof -
  have put: "asked_inv (s\<lparr>probes := (probes s)[j := b]\<rparr>)" if "j < length (probes s) \<Longrightarrow> known (length (query_objects s)) (probe_query b)" for b
    using assms list_all_update_at [of "\<lambda>b. known (length (query_objects s)) (probe_query b)" "probes s" j b] that by (simp add: asked_inv_def Let_def)
  have "j < length (probes s) \<Longrightarrow> known (length (query_objects s)) (probe_query (probes s ! j))"
    using assms by (simp add: asked_inv_def list_all_length Let_def)
  then have "asked_inv (s\<lparr>probes := (probes s)[j := (probes s ! j)\<lparr>probe_found := x\<rparr>]\<rparr>)" for x by (intro put) simp
  moreover have "asked_inv (s\<lparr>probes := (probes s)[j := (probes s ! j)\<lparr>probe_query := None, probe_rejected := True\<rparr>]\<rparr>)" by (rule put) simp
  ultimately show ?thesis using assms by (simp add: probe_resumes_def asked_next_probe Let_def split: option.split)
qed

lemma asked_step: "asked_inv s \<Longrightarrow> asked_inv (share_step env s e)"
  by (cases e) (simp_all add: asked_start asked_resumes asked_capture asked_proceeds preview_track_def host_ended_def asked_stop_share dispose_sender_def
      asked_finish_all asked_add asked_add_resumes asked_add_proceeds remove_viewer_def forget_viewer_def end_outbound_peer_def fallback_requested_by_def
      removal_settles_def remove_outbound_peer_def profile_query_received_def asked_reply query_timer_fires_def asked_finish viewer_answered_def
      viewer_candidate_def asked_probe asked_probe_resumes set_ice_servers_def ice_turn_def ice_answer_def Let_def split: option.split removal_kind.split list.split)

interpretation asking: event_machine "share_step env" asked_inv
  by unfold_locales (rule asked_step)

lemma asked_inv_new: "asked_inv (new_sender servers direct)"
  by (simp add: asked_inv_def new_sender_def)

section \<open>Whoever is offered a share decodes it\<close>

lemma asked_q: "asked_inv s \<Longrightarrow> i < length (starts s) \<Longrightarrow> start_asks (starts s ! i) = Some q \<Longrightarrow> q < length (query_objects s)"
  using start_known [of s i] by simp

lemma fit_resumes:
  assumes "fit_inv adv env s" "asked_inv s" "i < length (starts s)"
  shows "fit_inv adv env (start_resumes env i s)"
proof (cases "start_phase (starts s ! i)")
  case Stopping
  then show ?thesis by (simp add: start_resumes_def fit_begin_start assms)
next
  case (Asking_common q)
  then have "q < length (query_objects s)" by (intro asked_q [OF assms(2,3)]) (simp add: start_asks_def)
  then have "wanted adv env (start_peers (starts s ! i))
      (common_profile env (current_peers env (start_peers (starts s ! i))) (query_replies (query_objects s ! q)))"
    by (intro common_profile_wanted fit_replies [OF assms(1)])
  then show ?thesis using Asking_common assms by (simp add: start_resumes_def fit_start_fails fit_profile_chosen)
next
  case (Asking_all q)
  then have q: "map_fits adv (query_replies (query_objects s ! q))"
    by (intro fit_replies [OF assms(1)] asked_q [OF assms(2,3)]) (simp add: start_asks_def)
  have "supports env (start_profile (starts s ! i))"
    using fit_asking [OF assms(1,3)] Asking_all by (simp add: asking_ok_def)
  moreover have "wanted adv env (start_peers (starts s ! i)) (start_profile (starts s ! i))"
    if "list_all (decodes (query_replies (query_objects s ! q)) (start_profile (starts s ! i))) (start_peers (starts s ! i))"
    using that map_fits_get [OF q] by (force simp: wanted_def list_all_iff decodes_def split: option.splits)
  ultimately show ?thesis using Asking_all assms
    by (simp add: start_resumes_def fit_start_fails fit_start_at fit_request_capture Let_def)
qed (simp_all add: start_resumes_def assms)

lemma fit_capture:
  assumes "fit_inv adv env s" "i < length (starts s)"
  shows "fit_inv adv env (capture_answer i result s)"
proof -
  have more: "fit_inv adv env (s\<lparr>captures := captures s @ [c]\<rparr>)" for c
    using assms(1) effects_fit_grows [of adv env s "s\<lparr>captures := captures s @ [c]\<rparr>" "[c]" "[]"]
    by (auto simp: fit_inv_def session_ok_def nth_append less_SucI)
  have owner: "fit_inv adv env (set_start i (\<lambda>t. t\<lparr>start_capture := Some k\<rparr>) (s\<lparr>captures := captures s @ [c]\<rparr>))" if "start_phase (starts s ! i) = Capturing" for k c
    by (rule fit_set_start [OF more]) (use assms(2) that in \<open>simp_all add: asking_ok_def\<close>)
  have new: "fit_inv adv env (u\<lparr>sharing := Some (length (captures s)), active_profile := p, active_hint := h\<rparr>)"
    if "fit_inv adv env u" "captures u = captures s @ [c]" "encoded c = p" for u c p h
    using that by (simp add: fit_inv_def effects_fit_def session_ok_def)
  show ?thesis
    using assms
    by (auto simp: capture_answer_def fit_start_fails set_start_starts Let_def nth_append intro!: fit_start_at owner new split: option.split)
qed

lemma fit_throws: "fit_inv adv env s \<Longrightarrow> i < length (starts s) \<Longrightarrow> fit_inv adv env (start_throws env' i k s)"
  by (simp add: start_throws_def fit_start_fails fit_stop)

lemma fit_proceeds:
  assumes "fit_inv adv env s" "i < length (starts s)"
  shows "fit_inv adv env (start_proceeds env i ok s)"
proof -
  have l: "fit_inv adv env (s\<lparr>share_listener := x\<rparr>)" "fit_inv adv env (s\<lparr>share_preview := y\<rparr>)" for x y
    by (rule fit_same [OF _ _ _ _ _ _ assms(1)]; simp)+
  have "fit_inv adv env (set_start i (\<lambda>t. t\<lparr>start_connection := True, start_phase := Preview_describing k\<rparr>) (s\<lparr>share_preview := Some i\<rparr>))" for k
    by (rule fit_set_start [OF l(2)]) (use assms(2) in \<open>simp_all add: asking_ok_def\<close>)
  then show ?thesis using assms l
    by (auto simp: start_proceeds_def fit_throws fit_start_at Let_def split: start_phase.split)
qed

lemma fit_fields [simp]:
  "fit_inv adv env (s\<lparr>share_generation := x0\<rparr>) = fit_inv adv env s" "fit_inv adv env (s\<lparr>sender_disposed := x1\<rparr>) = fit_inv adv env s"
  "fit_inv adv env (s\<lparr>outbound_peers := x2\<rparr>) = fit_inv adv env s" "fit_inv adv env (s\<lparr>pending_queries := x3\<rparr>) = fit_inv adv env s"
  "fit_inv adv env (s\<lparr>peer_runtimes := x4\<rparr>) = fit_inv adv env s" "fit_inv adv env (s\<lparr>ice_servers := x5\<rparr>) = fit_inv adv env s"
  "fit_inv adv env (s\<lparr>ice_queue := x6\<rparr>) = fit_inv adv env s" "fit_inv adv env (s\<lparr>ice_busy := x7\<rparr>) = fit_inv adv env s"
  "fit_inv adv env (s\<lparr>adds := x8\<rparr>) = fit_inv adv env s" "fit_inv adv env (s\<lparr>removals := x9\<rparr>) = fit_inv adv env s"
  "fit_inv adv env (s\<lparr>probes := x10\<rparr>) = fit_inv adv env s"
  by (auto simp: fit_inv_def effects_fit_def session_ok_def)

lemma fit_add_at [simp]: "fit_inv adv env (add_at a ph s) = fit_inv adv env s"
  by (simp add: add_at_def)

lemma fit_begin_removal [simp]: "fit_inv adv env (begin_removal kind p s) = fit_inv adv env s"
  by (simp add: begin_removal_def)

lemma fit_add_throws [simp]: "fit_inv adv env (add_throws why a s) = fit_inv adv env s"
  by (simp add: add_throws_def)

lemma fit_profiles_known:
  assumes "fit_inv adv env s" "\<And>ps profile. profiles = Some ps \<Longrightarrow> profile \<in> set ps \<Longrightarrow> adv (add_peer_id (adds s ! a)) profile"
  shows "fit_inv adv env (profiles_known a profiles s)"
proof -
  have "k < length (captures s) \<and> (encoded (captures s ! k) = Baseline \<or> adv (add_peer_id (adds s ! a)) (encoded (captures s ! k)))"
    if "sharing s = Some k" "active_profile s \<noteq> Baseline \<longrightarrow> active_profile s \<in> set (nullish profiles [])" for k
    using assms that by (cases profiles) (auto simp: fit_inv_def session_ok_def)
  then show ?thesis using assms(1) by (auto simp: profiles_known_def add_current_def)
qed

lemma fit_profiles: "fit_inv adv env s \<Longrightarrow> jget (peer_profiles s) p = Some ps \<Longrightarrow> profile \<in> set ps \<Longrightarrow> adv p profile"
  by (auto simp: fit_inv_def dest: map_fits_get)

lemma fit_add: "fit_inv adv env s \<Longrightarrow> fit_inv adv env (add_viewer env' p s)"
  by (auto simp: add_viewer_def Let_def split: option.split intro!: fit_query_profiles fit_profiles_known dest: fit_profiles)

lemma fit_add_resumes:
  assumes "fit_inv adv env s" "asked_inv s" "a < length (adds s)"
  shows "fit_inv adv env (add_resumes a s)"
proof (cases "add_phase (adds s ! a)")
  case (Asking q)
  have "known (length (query_objects s)) (add_asks (adds s ! a))" using assms(2,3) by (simp add: asked_inv_def list_all_length Let_def)
  then have "map_fits adv (query_replies (query_objects s ! q))" using Asking by (intro fit_replies [OF assms(1)]) (simp add: add_asks_def)
  then show ?thesis using Asking assms(1) by (auto simp: add_resumes_def intro!: fit_profiles_known dest: map_fits_get)
qed (simp_all add: add_resumes_def assms)

lemma fit_reply:
  assumes "fit_inv adv env s" "list_all (adv p) (known_profiles advertised)"
  shows "fit_inv adv env (profile_reply_received p c nonce advertised runs s)"
proof -
  have "fit_inv adv env (s\<lparr>query_objects := (query_objects s)[q := (query_objects s ! q)\<lparr>query_replies :=
        jset (query_replies (query_objects s ! q)) p (known_profiles advertised)\<rparr>],
      peer_profiles := jset (peer_profiles s) p (known_profiles advertised), peer_runtimes := z\<rparr>)" for q z
  proof -
    have "list_all (\<lambda>x. map_fits adv (query_replies x)) ((query_objects s)[q := (query_objects s ! q)\<lparr>query_replies :=
        jset (query_replies (query_objects s ! q)) p (known_profiles advertised)\<rparr>])"
      by (rule list_all_update_at) (use assms in \<open>auto simp: fit_inv_def list_all_length intro!: map_fits_set\<close>)
    then show ?thesis using assms by (simp add: fit_inv_def effects_fit_def session_ok_def map_fits_set)
  qed
  then show ?thesis
    using assms(1) by (auto simp: profile_reply_received_def Let_def split: option.split intro!: fit_finish_query)
qed

lemma fit_next_probe: "fit_inv adv env s \<Longrightarrow> fit_inv adv env (next_probe env' j s)"
  by (auto simp: next_probe_def Let_def intro!: fit_query_profiles)

lemma fit_forget: "fit_inv adv env s \<Longrightarrow> fit_inv adv env (forget_viewer p s)"
  by (auto simp: forget_viewer_def fit_inv_def effects_fit_def session_ok_def map_fits_def list_all_jdel)

definition advertised_by :: "share_event \<Rightarrow> string \<Rightarrow> h264_profile \<Rightarrow> bool" where
  "advertised_by e p profile = (case e of Profile_reply q c nonce profiles runs \<Rightarrow> q = p \<and> profile \<in> set (known_profiles profiles) | _ \<Rightarrow> False)"

lemma fit_step:
  assumes "fit_inv adv env s" "asked_inv s" "\<And>p profile. advertised_by e p profile \<Longrightarrow> adv p profile"
  shows "fit_inv adv env (share_step env s e)"
proof (cases e)
  case (Profile_reply p c nonce profiles runs)
  then have "list_all (adv p) (known_profiles profiles)" using assms(3) by (auto simp: advertised_by_def list_all_iff)
  then show ?thesis using Profile_reply fit_reply [OF assms(1)] by simp
qed (simp_all add: assms(1,2) fit_start_share fit_resumes fit_capture fit_proceeds preview_track_def host_ended_def fit_stop dispose_sender_def
      fit_finish_queries fit_add fit_add_resumes add_proceeds_def remove_viewer_def end_outbound_peer_def fallback_requested_by_def
      removal_settles_def remove_outbound_peer_def profile_query_received_def query_timer_fires_def fit_finish_query viewer_answered_def
      viewer_candidate_def probe_peers_def probe_resumes_def fit_next_probe set_ice_servers_def ice_turn_def ice_answer_def fit_forget Let_def
      split: option.split removal_kind.split list.split add_phase.split)

lemma fit_run:
  assumes "fit_inv adv env s" "asked_inv s" "\<And>e p profile. e \<in> set es \<Longrightarrow> advertised_by e p profile \<Longrightarrow> adv p profile"
  shows "fit_inv adv env (foldl (share_step env) s es)"
proof -
  have "fit_inv adv env (foldl (share_step env) s es) \<and> asked_inv (foldl (share_step env) s es)"
    by (rule foldl_keeps) (use assms in \<open>auto intro: fit_step asked_step\<close>)
  then show ?thesis ..
qed

text \<open>
  C9. Nobody is offered a share he cannot decode: an offer of a capture in a profile other than
  the baseline goes only to participants who have advertised that profile, and a capture is
  started only in a profile this browser decodes and everybody then in the call has advertised.
\<close>

theorem profiles_fit_the_viewers:
  assumes "s = foldl (share_step env) (new_sender servers direct) es"
  shows "(\<forall>k p offered. Offer_requested k p offered \<in> set (share_effects s) \<longrightarrow>
       encoded (captures s ! k) = Baseline \<or> (\<exists>e\<in>set es. advertised_by e p (encoded (captures s ! k)))) \<and>
    (\<forall>i profile. Host_start i profile \<in> set (share_effects s) \<longrightarrow> native_h264_profile_supported (codecs env) profile \<and>
       (profile = Baseline \<or> (\<forall>p\<in>set (start_peers (starts s ! i)) - {local_peer env}. \<exists>e\<in>set es. advertised_by e p profile)))"
proof -
  let ?adv = "\<lambda>p profile. \<exists>e\<in>set es. advertised_by e p profile"
  have "fit_inv ?adv env (new_sender servers direct)"
    by (simp add: fit_inv_def new_sender_def effects_fit_def session_ok_def)
  then have "fit_inv ?adv env s"
    unfolding assms by (rule fit_run [OF _ asked_inv_new]) blast
  then have ok: "effect_ok ?adv env (map encoded (captures s)) (map start_peers (starts s)) e" if "e \<in> set (share_effects s)" for e
    using that by (simp add: fit_inv_def effects_fit_def list_all_iff)
  show ?thesis
  proof (intro conjI allI impI)
    fix k p offered assume "Offer_requested k p offered \<in> set (share_effects s)"
    from ok [OF this] show "encoded (captures s ! k) = Baseline \<or> ?adv p (encoded (captures s ! k))" by auto
  next
    fix i profile assume "Host_start i profile \<in> set (share_effects s)"
    from ok [OF this] show "native_h264_profile_supported (codecs env) profile"
      "profile = Baseline \<or> (\<forall>p\<in>set (start_peers (starts s ! i)) - {local_peer env}. ?adv p profile)" by auto
  qed
qed

definition high_codec :: video_codec where
  "high_codec = \<lparr>mime_type = ''video/H264'', fmtp_line = Some ''packetization-mode=1; profile-level-id=64001f''\<rparr>"

definition high_share :: share_env where
  "high_share = plain_share\<lparr>codecs := [high_codec]\<rparr>"

definition viewed_share :: native_sender where
  "viewed_share = foldl (share_step high_share) (new_sender [] False)
     [Start any_screen [''b''], Profile_reply ''b'' (Some ''0'') (Some ''0'') (Some [''baseline'', ''high'']) (Some ''desktop''), Start_resumes 0,
      Capture_answer 0 (Some (''c'', 30, 5)), Start_proceeds 0 True, Add_viewer ''b'']"

lemma viewed_share_eval:
  "Host_start 0 High \<in> set (share_effects viewed_share)" "Offer_requested 0 ''b'' [] \<in> set (share_effects viewed_share)"
  by code_simp+

lemma profiles_fit_the_viewers_witness: "native_h264_profile_supported (codecs high_share) High"
  using profiles_fit_the_viewers [OF viewed_share_def] viewed_share_eval(1) by blast

text \<open>
  A question for the profiles of participants comes to an end, whoever answers: while a call
  of \<open>start\<close>, of \<open>addPeer\<close> or of \<open>probePeers\<close> waits for it, its timer is set or it is settled, and
  when the timer fires it is settled.
\<close>

theorem profile_questions_end:
  assumes "s = foldl (share_step env) (new_sender servers direct) es"
    and "Some q \<in> set (map start_asks (starts s) @ map add_asks (adds s) @ map probe_query (probes s))"
  shows "(query_timer (query_objects s ! q) \<or> query_settled (query_objects s ! q)) \<and>
    query_settled (query_objects (share_step env s (Query_timer q)) ! q)"
proof -
  have inv: "asked_inv s" unfolding assms(1) by (rule asking.run_inv [OF asked_inv_new])
  then have "list_all (known (length (query_objects s))) (map start_asks (starts s) @ map add_asks (adds s) @ map probe_query (probes s))"
    by (simp add: asked_inv_def Let_def list.pred_map comp_def)
  then have "known (length (query_objects s)) (Some q)" using assms(2) unfolding list_all_iff by (rule bspec)
  then have q: "q < length (query_objects s)" by simp
  with inv have "query_settled (query_objects s ! q) \<or> query_timer (query_objects s ! q)"
    by (auto simp: asked_inv_def Let_def list_all_length)
  then show ?thesis using q by (auto simp: query_timer_fires_def finish_query_def Let_def)
qed

definition waiting_share :: native_sender where
  "waiting_share = foldl (share_step plain_share) (new_sender [] False) [Start any_screen [''b'']]"

lemma waiting_share_eval: "Some 0 \<in> set (map start_asks (starts waiting_share) @ map add_asks (adds waiting_share) @ map probe_query (probes waiting_share))"
  by code_simp

lemma profile_questions_end_witness: "query_settled (query_objects (share_step plain_share waiting_share (Query_timer 0)) ! 0)"
  using profile_questions_end [OF waiting_share_def waiting_share_eval] by blast

end
