(* ===== verification/YoutubeBridge.thy ===== *)
theory YoutubeBridge
  imports Complex_Main JsStrings
begin

text \<open>
  The bridge to the isolated video player (\<open>activities/youtubeBridge.ts\<close>): what the player may
  say, how a message from its frame is checked, what follows from what it says, and the life of
  a connection. A message arrives as a structured clone, so it can be any value; checked values
  are read as the events of \<open>YouTubePlayerEvent\<close>. Lemmas: what passes the check is an event with
  its bounds, every event passes it, and a closed bridge is silent.
\<close>

section \<open>Values and events\<close>

text \<open>
  An \<open>Array\<close> here has no properties of its own beyond its elements; one that has is an \<open>Object\<close>, which
  is how \<open>typeof\<close>, \<open>Object.keys\<close> and property access see it.
\<close>

datatype js_number = Fin real | Not_finite

datatype js_value =
    Undefined
  | Null_value
  | Truth bool
  | Number js_number
  | Text string
  | Array "js_value list"
  | Object "(string, js_value) jsmap"

definition get_prop :: "(string, js_value) jsmap \<Rightarrow> string \<Rightarrow> js_value" where
  "get_prop m key = nullish (jget m key) Undefined"

datatype youtube_player_event =
    Ready
  | Ended
  | Buffering
  | Autoplay_blocked
  | Position real real real
  | User_state bool real real bool
  | Player_error real
  | Bootstrap_error string

text \<open>How the client reads a value as an event: \<open>intent\<close> is there or not.\<close>

definition read_event :: "js_value \<Rightarrow> youtube_player_event option" where
  "read_event v =
     (case v of
        Object m \<Rightarrow>
          (case get_prop m ''type'' of
             Text t \<Rightarrow>
               if t = ''ready'' then Some Ready
               else if t = ''ended'' then Some Ended
               else if t = ''buffering'' then Some Buffering
               else if t = ''autoplay-blocked'' then Some Autoplay_blocked
               else if t = ''position'' then
                 (case (get_prop m ''position'', get_prop m ''duration'', get_prop m ''state'') of
                    (Number (Fin p), Number (Fin d), Number (Fin n)) \<Rightarrow> Some (Position p d n)
                  | _ \<Rightarrow> None)
               else if t = ''user-state'' then
                 (case (get_prop m ''paused'', get_prop m ''position'', get_prop m ''revision'') of
                    (Truth b, Number (Fin p), Number (Fin r)) \<Rightarrow> Some (User_state b p r (get_prop m ''intent'' = Text ''seek''))
                  | _ \<Rightarrow> None)
               else if t = ''error'' then (case get_prop m ''code'' of Number (Fin c) \<Rightarrow> Some (Player_error c) | _ \<Rightarrow> None)
               else if t = ''bootstrap-error'' then (case get_prop m ''message'' of Text t \<Rightarrow> Some (Bootstrap_error t) | _ \<Rightarrow> None)
               else None
           | _ \<Rightarrow> None)
      | _ \<Rightarrow> None)"

definition player_states :: "real list" where
  "player_states = [-1, 0, 1, 2, 3, 5]"

definition player_errors :: "real list" where
  "player_errors = [2, 5, 100, 101, 150, 153]"

definition safe_number :: "real \<Rightarrow> bool" where
  "safe_number r \<longleftrightarrow> r = of_int \<lfloor>r\<rfloor> \<and> \<bar>r\<bar> \<le> 9007199254740991"

definition in_video :: "real \<Rightarrow> bool" where
  "in_video p \<longleftrightarrow> 0 \<le> p \<and> p \<le> 604800"

fun bounded_event :: "youtube_player_event \<Rightarrow> bool" where
  "bounded_event (Position p d n) \<longleftrightarrow> in_video p \<and> in_video d \<and> n \<in> set player_states"
| "bounded_event (User_state b p r seek) \<longleftrightarrow> in_video p \<and> safe_number r \<and> 0 \<le> r"
| "bounded_event (Player_error c) \<longleftrightarrow> c \<in> set player_errors"
| "bounded_event (Bootstrap_error t) \<longleftrightarrow> length t \<le> 200"
| "bounded_event _ \<longleftrightarrow> True"

section \<open>The check\<close>

definition finite_value :: "js_value \<Rightarrow> real \<Rightarrow> bool" where
  "finite_value v most = (case v of Number (Fin x) \<Rightarrow> 0 \<le> x \<and> x \<le> most | _ \<Rightarrow> False)"

definition has_only :: "(string, js_value) jsmap \<Rightarrow> string list \<Rightarrow> bool" where
  "has_only m allowed \<longleftrightarrow> list_all (\<lambda>key. key \<in> set ([''type'', ''nonce''] @ allowed)) (jkeys m)"

definition one_of :: "js_value \<Rightarrow> real list \<Rightarrow> bool" where
  "one_of v ns = (case v of Number (Fin x) \<Rightarrow> x \<in> set ns | _ \<Rightarrow> False)"

definition valid_player_event :: "js_value \<Rightarrow> string \<Rightarrow> bool" where
  "valid_player_event v nonce =
     (case v of
        Object m \<Rightarrow>
          if get_prop m ''nonce'' \<noteq> Text nonce then False
          else (case get_prop m ''type'' of
             Text t \<Rightarrow>
               if t \<in> {''ready'', ''ended'', ''buffering'', ''autoplay-blocked''} then has_only m []
               else if t = ''position'' then
                 has_only m [''position'', ''duration'', ''state''] \<and> finite_value (get_prop m ''position'') 604800 \<and>
                 finite_value (get_prop m ''duration'') 604800 \<and> one_of (get_prop m ''state'') player_states
               else if t = ''user-state'' then
                 has_only m [''position'', ''paused'', ''revision'', ''intent''] \<and> finite_value (get_prop m ''position'') 604800 \<and>
                 (case get_prop m ''paused'' of Truth b \<Rightarrow> True | _ \<Rightarrow> False) \<and>
                 (get_prop m ''intent'' = Undefined \<or> get_prop m ''intent'' = Text ''seek'') \<and>
                 (case get_prop m ''revision'' of Number (Fin r) \<Rightarrow> safe_number r \<and> 0 \<le> r | _ \<Rightarrow> False)
               else if t = ''error'' then has_only m [''code''] \<and> one_of (get_prop m ''code'') player_errors
               else if t = ''bootstrap-error'' then
                 has_only m [''message''] \<and> (case get_prop m ''message'' of Text u \<Rightarrow> length u \<le> 200 | _ \<Rightarrow> False)
               else False
           | _ \<Rightarrow> False)
      | _ \<Rightarrow> False)"

section \<open>What follows from an event\<close>

record youtube_playback =
  play_position :: real
  play_paused :: bool
  play_enabled :: bool
  play_volume :: real
  play_muted :: bool
  play_force :: bool
  play_revision :: int

definition should_apply_playback :: "youtube_playback \<Rightarrow> youtube_playback option \<Rightarrow> bool \<Rightarrow> bool" where
  "should_apply_playback new_one old host =
     (\<not> host \<or> (case old of
        None \<Rightarrow> True
      | Some o' \<Rightarrow> play_force new_one \<or> play_revision new_one \<noteq> play_revision o' \<or> play_enabled new_one \<noteq> play_enabled o' \<or>
          play_volume new_one \<noteq> play_volume o' \<or> play_muted new_one \<noteq> play_muted o'))"

datatype host_action = Play | Pause | Seek

text \<open>The arguments are the fields of a user's event and those of the shared state.\<close>

definition youtube_host_action :: "bool \<Rightarrow> real \<Rightarrow> real \<Rightarrow> bool \<Rightarrow> real \<Rightarrow> real \<Rightarrow> host_action option" where
  "youtube_host_action paused position revision shared_paused shared_position shared_revision =
     (if revision \<noteq> shared_revision then None
      else if paused \<noteq> shared_paused then Some (if paused then Pause else Play)
      else if \<bar>position - shared_position\<bar> > 3 / 2 then Some Seek
      else None)"

definition youtube_local_playback_change :: "bool \<Rightarrow> bool \<Rightarrow> bool \<Rightarrow> bool option" where
  "youtube_local_playback_change paused seek host = (if seek \<or> host \<and> paused then None else Some (\<not> paused))"

section \<open>A connection\<close>

datatype bridge_effect =
    Bootstrap_posted string string
  | Received js_value
  | Playback_posted youtube_playback

record bridge =
  bridge_nonce :: string
  bridge_closed :: bool
  bridge_timeout :: bool
  bridge_effects :: "bridge_effect list"

definition nonce_char :: "char \<Rightarrow> bool" where
  "nonce_char c \<longleftrightarrow> c \<in> set ''ABCDEFGHIJKLMNOPQRSTUVWXYZabcdefghijklmnopqrstuvwxyz0123456789_-''"

text \<open>
  \<open>parse\<close> gives the origin and the protocol of an address as the platform's \<open>URL\<close> does, and
  nothing when it throws; the frame may have no window. The left side is a thrown error.
\<close>

definition connect_youtube_bridge ::
    "(string \<Rightarrow> (string \<times> string) option) \<Rightarrow> bool \<Rightarrow> string \<Rightarrow> string \<Rightarrow> string \<Rightarrow> string + bridge" where
  "connect_youtube_bridge parse window origin ticket nonce =
     (case parse origin of
        None \<Rightarrow> Inl ''Invalid URL''
      | Some (own, protocol) \<Rightarrow>
          if own \<noteq> origin \<or> protocol \<notin> {''https:'', ''http:''} \<or> \<not> window \<or> length ticket \<noteq> 43 \<or>
             \<not> (16 \<le> length nonce \<and> length nonce \<le> 80 \<and> list_all nonce_char nonce)
          then Inl ''Invalid isolated player connection''
          else Inr \<lparr>bridge_nonce = nonce, bridge_closed = False, bridge_timeout = True, bridge_effects = [Bootstrap_posted ticket nonce]\<rparr>)"

definition bridge_effect :: "bridge_effect \<Rightarrow> bridge \<Rightarrow> bridge" where
  "bridge_effect e b = b\<lparr>bridge_effects := bridge_effects b @ [e]\<rparr>"

definition no_answer :: js_value where
  "no_answer = Object [(''type'', Text ''bootstrap-error''),
     (''message'', Text ''The isolated YouTube player did not answer. Reopen the player.'')]"

definition timeout_fires :: "bridge \<Rightarrow> bridge" where
  "timeout_fires b =
     (if \<not> bridge_timeout b then b
      else let b = b\<lparr>bridge_timeout := False\<rparr> in if bridge_closed b then b else bridge_effect (Received no_answer) b)"

definition message_arrives :: "js_value \<Rightarrow> bridge \<Rightarrow> bridge" where
  "message_arrives v b =
     (if \<not> bridge_closed b \<and> valid_player_event v (bridge_nonce b) then bridge_effect (Received v) (b\<lparr>bridge_timeout := False\<rparr>) else b)"

definition apply_playback :: "youtube_playback \<Rightarrow> bridge \<Rightarrow> bridge" where
  "apply_playback p b = (if bridge_closed b then b else bridge_effect (Playback_posted p) b)"

definition close_bridge :: "bridge \<Rightarrow> bridge" where
  "close_bridge b = b\<lparr>bridge_closed := True, bridge_timeout := False\<rparr>"

datatype bridge_event = Timeout_fires | Message_arrives js_value | Apply_playback youtube_playback | Close_bridge

fun bridge_step :: "bridge \<Rightarrow> bridge_event \<Rightarrow> bridge" where
  "bridge_step b Timeout_fires = timeout_fires b"
| "bridge_step b (Message_arrives v) = message_arrives v b"
| "bridge_step b (Apply_playback p) = apply_playback p b"
| "bridge_step b Close_bridge = close_bridge b"

definition youtube_error :: "int \<Rightarrow> string" where
  "youtube_error code =
     (if code = 100 then ''This video was removed or is private. Choose another video.''
      else if code = 101 \<or> code = 150 then ''The creator does not allow this video to play inside apps. Open it on YouTube or choose another.''
      else if code = 153 then ''YouTube could not identify this player. Reopen it; if it continues, check the player domain configuration.''
      else ''YouTube could not play this video on your device. Retry or open it on YouTube.'')"

section \<open>What passes the check is an event\<close>

lemma finite_valueE:
  assumes "finite_value v most"
  obtains x where "v = Number (Fin x)" "0 \<le> x" "x \<le> most"
  using assms by (auto simp: finite_value_def split: js_value.splits js_number.splits)

lemma one_ofE:
  assumes "one_of v ns"
  obtains x where "v = Number (Fin x)" "x \<in> set ns"
  using assms by (auto simp: one_of_def split: js_value.splits js_number.splits)

lemma valid_event_bounded:
  assumes "valid_player_event v nonce"
  shows "\<exists>e. read_event v = Some e \<and> bounded_event e"
proof -
  obtain m t where m: "v = Object m" "get_prop m ''type'' = Text t"
    using assms by (auto simp: valid_player_event_def split: js_value.splits if_splits)
  note check = assms [unfolded valid_player_event_def m js_value.case]
  consider "t \<in> {''ready'', ''ended'', ''buffering'', ''autoplay-blocked''}" | "t = ''position''" | "t = ''user-state''" | "t = ''error''" | "t = ''bootstrap-error''"
    using check by (auto simp: m split: if_splits)
  then show ?thesis
  proof cases
    case 1
    then show ?thesis by (auto simp: read_event_def m)
  next
    case 2
    with check have "finite_value (get_prop m ''position'') 604800" "finite_value (get_prop m ''duration'') 604800" "one_of (get_prop m ''state'') player_states"
      by (simp_all add: m split: if_splits)
    then show ?thesis using 2 by (auto simp: read_event_def m in_video_def elim!: finite_valueE one_ofE)
  next
    case 3
    with check have "finite_value (get_prop m ''position'') 604800" "case get_prop m ''paused'' of Truth b \<Rightarrow> True | _ \<Rightarrow> False"
        "case get_prop m ''revision'' of Number (Fin r) \<Rightarrow> safe_number r \<and> 0 \<le> r | _ \<Rightarrow> False"
      by (simp_all add: m split: if_splits)
    then show ?thesis using 3
      by (auto simp: read_event_def m in_video_def elim!: finite_valueE split: js_value.splits js_number.splits)
  next
    case 4
    with check have "one_of (get_prop m ''code'') player_errors" by (simp add: m split: if_splits)
    then show ?thesis using 4 by (auto simp: read_event_def m elim!: one_ofE)
  next
    case 5
    with check have "case get_prop m ''message'' of Text u \<Rightarrow> length u \<le> 200 | _ \<Rightarrow> False" by (simp add: m split: if_splits)
    then show ?thesis using 5 by (auto simp: read_event_def m split: js_value.splits)
  qed
qed

text \<open>The value a player sends for an event.\<close>

definition event_value :: "string \<Rightarrow> youtube_player_event \<Rightarrow> js_value" where
  "event_value nonce e =
     (let value = (\<lambda>t fields. Object ((''type'', Text t) # (''nonce'', Text nonce) # fields)) in
      case e of
        Ready \<Rightarrow> value ''ready'' []
      | Ended \<Rightarrow> value ''ended'' []
      | Buffering \<Rightarrow> value ''buffering'' []
      | Autoplay_blocked \<Rightarrow> value ''autoplay-blocked'' []
      | Position p d n \<Rightarrow> value ''position'' [(''position'', Number (Fin p)), (''duration'', Number (Fin d)), (''state'', Number (Fin n))]
      | User_state b p r seek \<Rightarrow>
          value ''user-state'' ([(''paused'', Truth b), (''position'', Number (Fin p)), (''revision'', Number (Fin r))] @
            (if seek then [(''intent'', Text ''seek'')] else []))
      | Player_error c \<Rightarrow> value ''error'' [(''code'', Number (Fin c))]
      | Bootstrap_error t \<Rightarrow> value ''bootstrap-error'' [(''message'', Text t)])"

lemma read_event_value: "read_event (event_value nonce e) = Some e"
  by (cases e) (auto simp: event_value_def read_event_def get_prop_def Let_def)

lemma valid_event_value: "valid_player_event (event_value nonce e) expected = (bounded_event e \<and> nonce = expected)"
  by (cases e) (auto simp: event_value_def valid_player_event_def get_prop_def has_only_def finite_value_def one_of_def in_video_def Let_def)

text \<open>
  The check is exact: the value of an event passes it under its own nonce just when the
  event is within its bounds, under no other nonce, and it is read back as that event.
\<close>

theorem player_events_round_trip:
  "read_event (event_value nonce e) = Some e \<and>
   valid_player_event (event_value nonce e) expected = (bounded_event e \<and> nonce = expected)"
  using read_event_value valid_event_value by blast

section \<open>A connection passes only events\<close>

definition typed_effect :: "bridge_effect \<Rightarrow> bool" where
  "typed_effect e = (case e of Received v \<Rightarrow> (\<exists>x. read_event v = Some x \<and> bounded_event x) | _ \<Rightarrow> True)"

definition bridge_inv :: "bridge \<Rightarrow> bool" where
  "bridge_inv b \<longleftrightarrow> list_all typed_effect (bridge_effects b) \<and> (bridge_closed b \<longrightarrow> \<not> bridge_timeout b)"

lemma no_answer_typed: "read_event no_answer = Some (Bootstrap_error ''The isolated YouTube player did not answer. Reopen the player.'')"
  by (simp add: read_event_def no_answer_def get_prop_def)

lemma bridge_inv_step: "bridge_inv b \<Longrightarrow> bridge_inv (bridge_step b e)"
  by (cases e) (auto simp: bridge_inv_def timeout_fires_def message_arrives_def apply_playback_def close_bridge_def bridge_effect_def
      typed_effect_def no_answer_typed Let_def dest: valid_event_bounded)

interpretation bridges: event_machine bridge_step bridge_inv
  by unfold_locales (rule bridge_inv_step)

lemma bridge_inv_new: "connect_youtube_bridge parse window origin ticket nonce = Inr b \<Longrightarrow> bridge_inv b"
  by (auto simp: connect_youtube_bridge_def bridge_inv_def typed_effect_def split: option.splits if_splits)

lemma closed_step: "bridge_closed b \<Longrightarrow> bridge_inv b \<Longrightarrow> bridge_step b e = b\<lparr>bridge_timeout := False\<rparr>"
  by (cases e) (simp_all add: bridge_inv_def timeout_fires_def message_arrives_def apply_playback_def close_bridge_def)

lemma closed_run:
  assumes "bridge_closed b" "bridge_inv b"
  shows "bridge_effects (foldl bridge_step b es) = bridge_effects b"
  using assms
proof (induction es arbitrary: b)
  case (Cons e es)
  have "bridge_closed (bridge_step b e)" by (simp add: closed_step [OF Cons.prems] Cons.prems(1))
  from Cons.IH [OF this bridge_inv_step [OF Cons.prems(2)]] show ?case by (simp add: closed_step [OF Cons.prems])
qed simp

text \<open>
  C16. Whatever values the player's frame posts, in whatever order, the client is handed only
  values that it reads as an event within its bounds; and a closed connection hands over and
  posts nothing more.
\<close>

theorem received_events_are_typed:
  assumes "connect_youtube_bridge parse window origin ticket nonce = Inr b0" "b = foldl bridge_step b0 es"
  shows "(\<forall>v. Received v \<in> set (bridge_effects b) \<longrightarrow> (\<exists>e. read_event v = Some e \<and> bounded_event e)) \<and>
    bridge_effects (foldl bridge_step (close_bridge b) later) = bridge_effects b"
proof -
  have inv: "bridge_inv b" unfolding assms(2) by (rule bridges.run_inv [OF bridge_inv_new [OF assms(1)]])
  have "bridge_effects (foldl bridge_step (close_bridge b) later) = bridge_effects b"
    using closed_run [of "close_bridge b" later] inv by (simp add: close_bridge_def bridge_inv_def)
  moreover have "\<exists>e. read_event v = Some e \<and> bounded_event e" if "Received v \<in> set (bridge_effects b)" for v
    using inv that by (force simp: bridge_inv_def list_all_iff typed_effect_def)
  ultimately show ?thesis by blast
qed

definition player_bridge :: bridge where
  "player_bridge = \<lparr>bridge_nonce = replicate 16 CHR ''n'', bridge_closed = False, bridge_timeout = True,
     bridge_effects = [Bootstrap_posted (replicate 43 CHR ''t'') (replicate 16 CHR ''n'')]\<rparr>"

lemma player_bridge_connected:
  "connect_youtube_bridge (\<lambda>u. Some (u, ''https:'')) True ''https://player'' (replicate 43 CHR ''t'') (replicate 16 CHR ''n'') = Inr player_bridge"
  by (simp add: connect_youtube_bridge_def player_bridge_def nonce_char_def list_all_iff)

lemma received_events_are_typed_witness:
  "\<exists>e. read_event (event_value (replicate 16 CHR ''n'') Ended) = Some e \<and> bounded_event e"
proof -
  have "Received (event_value (replicate 16 CHR ''n'') Ended) \<in> set (bridge_effects (foldl bridge_step player_bridge
      [Message_arrives Undefined, Message_arrives (event_value (replicate 16 CHR ''n'') Ended)]))"
    by (simp add: message_arrives_def valid_event_value bridge_effect_def player_bridge_def)
  then show ?thesis using received_events_are_typed [OF player_bridge_connected refl] by blast
qed

section \<open>The host's controls\<close>

text \<open>
  A host's control reaches the shared state only from the current revision, and when nothing is
  to be done the two already agree.
\<close>

lemma host_action_needed:
  "youtube_host_action paused position revision shared_paused shared_position revision = None \<longleftrightarrow>
     paused = shared_paused \<and> \<bar>position - shared_position\<bar> \<le> 3 / 2"
  "youtube_host_action paused position revision shared_paused shared_position shared_revision = Some a \<Longrightarrow> revision = shared_revision"
  by (auto simp: youtube_host_action_def split: if_splits)

lemma same_playback_not_applied: "should_apply_playback p (Some p) host \<longleftrightarrow> \<not> host \<or> play_force p"
  by (auto simp: should_apply_playback_def)

end
