(* ===== verification/Spec2Isabelle.thy ===== *)
theory Spec2Isabelle
  imports MessageRuns DraftRuns Uploads ClipBuffer Signaling VoiceRelay ActivityStore QuickAccess PersonalStore
    VoiceRoute Quality LocalTracks Negotiation Permissions PreviewQueue ImageEdit HistoryNav TalkGate Notifications NativeSender YoutubeBridge
begin

text \<open>
  A verification library of the web client of bettrcomms (\<open>apps/web/src\<close>, TypeScript).

  \<^bold>\<open>The program.\<close> The client shows rooms with messages, keeps drafts and personal lists, uploads
  files, holds calls over WebRTC and falls back to an encrypted relay for voice. Its state lives
  in module-level stores that React components read (\<open>messageStore\<close>, \<open>draftStore\<close>,
  \<open>personalStore\<close>, \<open>listStore\<close>, \<open>activityStore\<close>, \<open>profileStore\<close>, \<open>characterStore\<close>), and in a few objects
  of a call (\<open>MediaEngine\<close>, \<open>VoiceRelay\<close>, \<open>VoiceCryptoSession\<close>, \<open>CallMicrophone\<close>, \<open>ClipBuffer\<close>,
  the signaling connection). Everything runs on one thread: an operation runs until it awaits,
  and what it awaits (a response, a timer, a socket, the browser) comes back as an event.

  \<^bold>\<open>How the code is modelled.\<close> A module's variables, or an object's fields, are a record; an
  operation is a function on it. An asynchronous function is cut at its awaits: each part is a
  function of the state, the part after an await is a task or a phase kept in the state, and
  its completion an event with the answer as its argument. Effects that leave the module
  (requests, notifications, signals, closed sockets) are logged in the order they happen. A
  JavaScript \<open>Map\<close> is an association list in insertion order (\<open>jsmap\<close>), a \<open>Set\<close> a distinct list,
  a comparator a function to \<open>int\<close> given to a stable sort (\<open>js_sort\<close>), \<open>undefined\<close> and \<open>null\<close> are
  \<open>None\<close>, and a thrown error is the left side of a sum or a logged effect. An object with an
  identity (a controller, a peer, a codec, a media track) is a number. Runs are \<open>foldl\<close> of a step
  function over any list of events, so a theorem about runs covers every interleaving; the
  locale \<open>event_machine\<close> of Prelude gives invariance, and every step function interprets it.

  \<^bold>\<open>Theories, in the order of the imports.\<close>
  \<^item> Prelude: maps, sets and sorting of JavaScript, JSON values, the locales of state machines.
    JsStrings, JsNumbers: what is used of strings and of \<open>Math.round\<close>.
  \<^item> Permissions (\<open>rooms/channelPermissions.ts\<close>, \<open>rooms/communityRoles.ts\<close>): the override table
    with its editor, and the hierarchy of roles. The editor's choices round-trip, and the
    hierarchy is strict.
  \<^item> PreviewQueue (\<open>sharing/previewQueue.ts\<close>): the queue of thumbnails and its cache. It refines a
    waiting line served by two.
  \<^item> ImageEdit (\<open>chat/imageEditorModel.ts\<close>), over the reals: crops, marks and turns stay inside the
    image. The code uses doubles, so rounding is not covered.
  \<^item> HistoryNav (\<open>shell/historyNavigation.ts\<close>, \<open>navigate\<close> of \<open>useScreenRoute.ts\<close>): \<open>Navigate\<close> is a
    navigation to a different hash. The buttons are sound; the forward button is not complete.
  \<^item> TalkGate (\<open>media/pushToTalk.ts\<close>, \<open>media/callShortcutSettings.ts\<close>): mute, deafen, push-to-talk,
    shortcuts and native registration; the microphone follows the gate.
  \<^item> Profiles (\<open>settings/characterStore.ts\<close>, \<open>profileStore.ts\<close>, \<open>character.ts\<close>): caches whose versions
    do not go back. Api: \<open>ApiRequestError\<close> of \<open>api.ts\<close> as a value.
  \<^item> MessageMerge, MessageStore, MessageRuns (\<open>chat/messageStore.ts\<close>): merging by version; the
    conversations with loading, events, catching up, jumps, pins, threads, read marks and
    sessions; invariants over runs. The stores' order of messages is a total order given by the
    comparator on time and identity, whose parsing of dates is in \<open>msg_env\<close>.
  \<^item> DraftStore, DraftRuns (\<open>personal/draftStore.ts\<close>): drafts with their persistence in local
    storage, conflicts, writes and sessions.
  \<^item> Uploads (\<open>chat/resumableUploads.ts\<close>): the loop over chunks. Its fuel is the number of bytes
    plus one, enough because an accepted chunk confirms at least one byte; it is proved that the
    loop returns within it when the server's chunk size is at least one, and that it need not
    otherwise.
  \<^item> ClipBuffer (\<open>media/clipBuffer.ts\<close>): segments, recorders, eviction and the bound on bytes.
  \<^item> Signaling (\<open>media/signaling.ts\<close>): the room's socket, its retries and their bounds.
  \<^item> VoiceCrypto, VoiceRelay (\<open>media/voiceCrypto.ts\<close>, \<open>media/voiceRelay.ts\<close>): sessions, nonces, replay;
    peers, handshakes, sockets and disposal. Nonces and sequences are octets and unbounded
    integers with the code's limit of \<open>2^53 - 1\<close>.
  \<^item> VoiceRoute, RemoteTracks, LocalTracks, Negotiation, Quality (\<open>media/engine.ts\<close>,
    \<open>media/videoQuality.ts\<close>, \<open>media/utils.ts\<close>): five views of \<open>MediaEngine\<close>, each with the part of its
    fields that its methods read and write. VoiceRoute: \<open>updateVoiceRoute\<close>, \<open>scheduleVoiceRelay\<close>,
    \<open>restoreDirectVoice\<close>, the probes and the timers. RemoteTracks: \<open>acceptRemoteTrack\<close>, metadata, the
    native tracks and \<open>getRemoteTracks\<close>. LocalTracks: \<open>replaceLocalTrack\<close>, \<open>setMicrophoneEnabled\<close>.
    Negotiation: \<open>handleSignal\<close>, \<open>negotiate\<close>, \<open>watchOffer\<close> with one participant; the connection
    follows the WebRTC standard (operations in order, implicit rollback, no answer after close).
    Quality: codec preferences and ceilings, over the reals.
  \<^item> ActivityStore (\<open>activities/activityStore.ts\<close>), QuickAccess (\<open>shell/quickAccessModel.ts\<close>),
    PersonalStore (\<open>personal/personalStore.ts\<close>, \<open>personal/listStore.ts\<close>).
  \<^item> Notifications (\<open>chat/notificationSettings.ts\<close>): the policy of the signed-in user with its
    requests, retries and timers, writes of room policies that take turns, quiet hours and
    do-not-disturb, and the showing of a notice by the worker or the page. Lemmas: the policy is
    always being watched, writes take turns, confirmed writes stay, notices obey the policy.
  \<^item> NativeReceiver (\<open>media/nativeScreen.ts\<close>, the half that watches a share): offers in their parts,
    early candidates, connection and health of a receiver, requests for the fallback with their
    retries and deadline, closing and disposal. Lemmas: what is answered is watched, requests end,
    receivers and candidates are bounded, the judgement of windows.
  \<^item> NativeSender (\<open>media/nativeScreen.ts\<close>, the half that shares): questions for the profiles of
    participants, calls of \<open>start\<close> with their preview, viewers, removals, probes and the renewal of
    servers. Lemmas: no capture is left running, profiles fit the viewers, questions end.
  \<^item> YoutubeBridge (\<open>activities/youtubeBridge.ts\<close>): the check of what the isolated player posts, what
    follows from it and the life of a connection. Lemmas: the check is exact, and only events
    within their bounds are handed over.

  \<^bold>\<open>How the parts meet.\<close> The engine hands relay signals to VoiceRelay and starts and stops it
  (VoiceRoute); VoiceRelay keeps a VoiceCrypto session per peer and gives the engine tracks
  (RemoteTracks); the gate of TalkGate calls \<open>setMicrophoneEnabled\<close> (LocalTracks); signals travel
  over Signaling. The stores take their errors from Api and their profiles from Profiles;
  uploads give messages their attachments.

  \<^bold>\<open>Parameters.\<close> What is not under \<open>src\<close>, or is the platform, is an argument: \<open>web_crypto\<close> (key
  agreement, AES-GCM; its laws are the premises \<open>gcm_law\<close>, \<open>base64_law\<close> and \<open>same_secret\<close>, which a toy
  instance meets), \<open>relay_env\<close> (codecs, tokens), \<open>msg_env\<close> (dates), \<open>upload_env\<close> (server and files),
  \<open>media_env\<close> (recorders), \<open>quick_env\<close> (folding, collation, dates), \<open>policy_env\<close> (dates, desktop notices),
  \<open>supported\<close> (the codec profiles a browser decodes), \<open>share_env\<close> (codecs, identifiers, the driver),
  \<open>held\<close> (what the relay holds of a participant).
  Two theorems are about restricted schedules, given by a step function that skips the others:
  \<open>serial_step\<close> (replacements of a source do not overlap) and \<open>one_start_step\<close> (nobody starts a share
  while another start waits for its stop). The theorems on overlapping operations
  show why these are needed. Elsewhere the case that overlapping calls spoil is an exception in the
  statement: an offer sent as an answer when two negotiations overlap (\<open>pending_offer_is_watched\<close>),
  a track handed over again while it is being put in place (\<open>contested_tracks\<close>).

  \<^bold>\<open>Findings.\<close> Theorems that show a defect stand in the theory of the code: a retry timer that
  outlives its relay and unsolicited answers (VoiceRelay), the forward button (HistoryNav), a stale
  refresh of drafts (DraftRuns), a stalling upload (Uploads), joining and ending during a switch of
  devices and a microphone handed over twice that escapes the gate (LocalTracks), stale offers,
  offers sent as answers and unheard participants (Negotiation), a stopped store that still asks
  for the old user (PersonalStore) and one that still stores his edits (DraftRuns), an old answer that
  restores do-not-disturb (Notifications), answers that fail and candidates that come early
  (NativeReceiver), captures that are lost and viewers who come back (NativeSender).

  \<^bold>\<open>Not modelled.\<close> Rendering (React components, hooks that only wire stores to components, the pet's
  animation), capture and audio processing (browser media objects), codecs, recording and clip
  rendering, the Web Push calls of the notification settings, the attention of reminders, the
  presence socket, the interface of watching together, the native camera and system audio, diagnostics, and
  the server, relay server and desktop programs, which are written in other languages. Sound,
  pixels and wall-clock time have no counterpart in the model; timers fire in any order.
\<close>

end
